(* ===== verification/Base.thy ===== *)
theory Base
  imports Main "HOL-Library.Word" "HOL-Library.Multiset"
begin

text \<open>
  Prelude of the development: the machine types and enumerations of \<^verbatim>\<open>system/global.h\<close>, the
  transaction manager record of \<^verbatim>\<open>system/txn.h\<close>, the error monad in which every
  \<^verbatim>\<open>assert\<close> of the code is a branch, and the list and option lemmas the component theories
  share. Timestamps and transaction ids are \<open>64 word\<close>s, so that \<open><\<close> is the unsigned
  comparison of the code and arithmetic wraps as \<^verbatim>\<open>uint64_t\<close> does.
\<close>

unbundle bit_operations_syntax

named_theorems cc_simps \<open>unfolding rules of the error monad and the record updates\<close>

subsection \<open>Machine types and enumerations (system/global.h)\<close>

type_synonym ts_t = "64 word"
type_synonym txnid_t = "64 word"
type_synonym idx_key_t = "64 word"

definition UINT64_MAX :: "64 word" where
  "UINT64_MAX = 18446744073709551615"

datatype RC = RCOK | Commit | Abort | WAIT | ERROR | FINISH

datatype access_t = RD | WR | XP | SCAN

datatype lock_t = LOCK_EX | LOCK_SH | LOCK_NONE

datatype latch_t = LATCH_EX | LATCH_SH | LATCH_NONE

datatype TsType = R_REQ | W_REQ | P_REQ | XP_REQ

text \<open>The concurrency-control algorithm is the compile-time constant \<^verbatim>\<open>CC_ALG\<close> of
  \<^verbatim>\<open>config.h\<close>; operations that test it take it as an argument.\<close>

datatype cc_alg = NO_WAIT | WAIT_DIE | DL_DETECT | TIMESTAMP | MVCC | HSTORE | OCC | TICTOC
  | SILO | VLL | HEKATON

subsection \<open>Errors\<close>

text \<open>
  A failing \<^verbatim>\<open>assert\<close> (the build does not define \<^verbatim>\<open>NDEBUG\<close> for these files), an access past
  the end of an array, a dereference of \<^verbatim>\<open>NULL\<close>, arithmetic the language leaves undefined, and a busy-wait that has not been left yet
  are the ways an operation can fail to return.
\<close>

datatype fault = Assert_failed | Out_of_bounds | Null_deref | Undefined_behaviour | Spinning

definition bindE :: "'e + 'a \<Rightarrow> ('a \<Rightarrow> 'e + 'b) \<Rightarrow> 'e + 'b" where
  "bindE m f = (case m of Inl e \<Rightarrow> Inl e | Inr x \<Rightarrow> f x)"

definition guard :: "fault \<Rightarrow> bool \<Rightarrow> fault + unit" where
  "guard e b = (if b then Inr () else Inl e)"

abbreviation assert_that :: "bool \<Rightarrow> fault + unit" where
  "assert_that \<equiv> guard Assert_failed"

lemma bindE_Inl [simp]: "bindE (Inl e) f = Inl e"
  by (simp add: bindE_def)

lemma bindE_Inr [simp]: "bindE (Inr x) f = f x"
  by (simp add: bindE_def)

lemma bindE_eq_Inr: "bindE m f = Inr y \<longleftrightarrow> (\<exists>x. m = Inr x \<and> f x = Inr y)"
  by (cases m) auto

lemma bindE_eq_Inl: "bindE m f = Inl e \<longleftrightarrow> m = Inl e \<or> (\<exists>x. m = Inr x \<and> f x = Inl e)"
  by (cases m) auto

lemma bindE_guard [simp]: "bindE (guard e b) f = (if b then f () else Inl e)"
  by (simp add: guard_def)

lemma guard_eq_Inr [simp]: "guard e b = Inr u \<longleftrightarrow> b"
  by (simp add: guard_def)

lemma bindE_assoc: "bindE (bindE m f) g = bindE m (\<lambda>x. bindE (f x) g)"
  by (cases m) auto

lemma bindE_cong [fundef_cong]:
  "m = m' \<Longrightarrow> (\<And>x. m' = Inr x \<Longrightarrow> f x = f' x) \<Longrightarrow> bindE m f = bindE m' f'"
  by (cases m') auto

subsection \<open>Transactions (system/txn.h)\<close>

text \<open>
  A \<^verbatim>\<open>txn_man *\<close> and a \<^verbatim>\<open>row_t *\<close> are addresses; the objects behind them are tables
  indexed by the address. The fields are those the row managers read and write.
\<close>

type_synonym txn_ptr = nat
type_synonym row_ptr = nat

datatype TxnType = VLL_Blocked | VLL_Free

record txn_man =
  thd_id :: nat
  txn_id :: txnid_t
  timestamp :: ts_t
  cur_row :: row_ptr
  lock_ready :: bool
  lock_abort :: bool
  ts_ready :: bool
  ready_part :: int
  start_ts :: ts_t
  end_ts :: ts_t
  vll_txn_type :: TxnType

type_synonym txn_tab = "txn_ptr \<Rightarrow> txn_man"

text \<open>The contents of the rows: the \<^verbatim>\<open>data\<close> block behind each \<^verbatim>\<open>row_t *\<close>.\<close>

type_synonym 'd row_tab = "row_ptr \<Rightarrow> 'd"

definition copy_row :: "row_ptr \<Rightarrow> row_ptr \<Rightarrow> 'd row_tab \<Rightarrow> 'd row_tab" where
  "copy_row dst src D = D(dst := D src)"

lemma copy_row_apply [simp]: "copy_row dst src D r = (if r = dst then D src else D r)"
  by (simp add: copy_row_def)

abbreviation ts_of :: "txn_tab \<Rightarrow> txn_ptr \<Rightarrow> ts_t" where
  "ts_of T t \<equiv> timestamp (T t)"

text \<open>The flags other threads poll are set through these updates of the transaction table.\<close>

definition set_lock_ready :: "bool \<Rightarrow> txn_ptr \<Rightarrow> txn_tab \<Rightarrow> txn_tab" where
  "set_lock_ready b t T = T(t := (T t)\<lparr>lock_ready := b\<rparr>)"

lemma set_lock_ready_sel [simp]:
  "timestamp (set_lock_ready b t T u) = timestamp (T u)"
  "txn_id (set_lock_ready b t T u) = txn_id (T u)"
  "lock_ready (set_lock_ready b t T u) = (if u = t then b else lock_ready (T u))"
  by (auto simp: set_lock_ready_def)

subsection \<open>Words\<close>

lemma UINT64_MAX_minus_1: "UINT64_MAX = - 1"
  by (simp add: UINT64_MAX_def)

lemma UINT64_MAX_greatest [simp]: "x \<le> UINT64_MAX"
  by (simp add: UINT64_MAX_minus_1)

lemma not_UINT64_MAX_less [simp]: "\<not> UINT64_MAX < x"
  by (simp add: not_less)

lemma word_less_exp_iff_bits:
  fixes x :: "64 word"
  assumes "n < 64"
  shows "x < push_bit n 1 \<longleftrightarrow> take_bit n x = x"
proof -
  have "unat (push_bit n 1 :: 64 word) = 2 ^ n"
    using assms by (simp add: unsigned_push_bit_eq del: push_bit_of_1)
  then have "x < push_bit n 1 \<longleftrightarrow> unat x < 2 ^ n" by (simp add: word_less_nat_alt)
  also have "\<dots> \<longleftrightarrow> take_bit n (unat x) = unat x" by (simp add: take_bit_nat_eq_self_iff)
  also have "\<dots> \<longleftrightarrow> unat (take_bit n x) = unat x" by (simp add: unsigned_take_bit_eq)
  finally show ?thesis by (simp only: word_unat_eq_iff)
qed

subsection \<open>Lists\<close>

lemma sorted_wrt_snoc:
  "sorted_wrt P (xs @ [x]) \<longleftrightarrow> sorted_wrt P xs \<and> (\<forall>y\<in>set xs. P y x)"
  by (auto simp: sorted_wrt_append)

lemma length_filter_Cons_le: "length (filter P (x # xs)) \<le> Suc (length (filter P xs))"
  by simp

lemma distinct_map_remove:
  "distinct (map f (xs @ y # ys)) \<Longrightarrow> distinct (map f (xs @ ys)) \<and> f y \<notin> f ` set (xs @ ys)"
  by auto

lemma sorted_wrt_remove1_list: "sorted_wrt P xs \<Longrightarrow> sorted_wrt P (remove1 x xs)"
  by (induction xs) (auto dest: in_set_remove1 [THEN iffD1] set_remove1_subset [THEN subsetD])

lemma sorted_wrt_remove: "sorted_wrt P (xs @ y # ys) \<Longrightarrow> sorted_wrt P (xs @ ys)"
  by (auto simp: sorted_wrt_append)

text \<open>Searching a linked list for the first node with a property and unlinking it.\<close>

fun unlink_first :: "('a \<Rightarrow> bool) \<Rightarrow> 'a list \<Rightarrow> ('a \<times> 'a list) option" where
  "unlink_first P [] = None"
| "unlink_first P (x # xs) =
     (if P x then Some (x, xs)
      else case unlink_first P xs of None \<Rightarrow> None | Some (y, ys) \<Rightarrow> Some (y, x # ys))"

lemma unlink_first_None: "unlink_first P xs = None \<longleftrightarrow> (\<forall>x\<in>set xs. \<not> P x)"
  by (induction xs) (auto split: option.splits)

lemma unlink_first_SomeD:
  assumes "unlink_first P xs = Some (y, ys)"
  obtains us vs where "xs = us @ y # vs" "ys = us @ vs" "P y" "\<forall>u\<in>set us. \<not> P u"
  using assms
proof (induction xs arbitrary: ys thesis)
  case Nil
  then show ?case by simp
next
  case (Cons x xs)
  show ?case
  proof (cases "P x")
    case True
    with Cons.prems(2) have "y = x" "ys = xs" by auto
    with True Cons.prems(1) [of "[]" xs] show ?thesis by simp
  next
    case False
    with Cons.prems(2) obtain zs where zs: "unlink_first P xs = Some (y, zs)" "ys = x # zs"
      by (auto split: option.splits)
    show ?thesis
    proof (rule Cons.IH [OF _ zs(1)])
      fix us vs
      assume "xs = us @ y # vs" "zs = us @ vs" "P y" "\<forall>u\<in>set us. \<not> P u"
      with False zs(2) Cons.prems(1) [of "x # us" vs] show thesis by simp
    qed
  qed
qed

lemma unlink_first_Some_ex: "\<exists>x\<in>set xs. P x \<Longrightarrow> \<exists>y ys. unlink_first P xs = Some (y, ys)"
  using unlink_first_None [of P xs] by (cases "unlink_first P xs") auto

subsection \<open>Transition systems\<close>

text \<open>
  The contract every shared component offers its clients: an invariant that holds initially and
  that each atomic operation keeps. The client's conclusion is that it holds after any
  interleaving of operations.
\<close>

locale transition_system =
  fixes init :: "'s \<Rightarrow> bool" and step :: "'s \<Rightarrow> 's \<Rightarrow> bool" and inv :: "'s \<Rightarrow> bool"
  assumes init_inv: "init s \<Longrightarrow> inv s"
    and step_inv: "inv s \<Longrightarrow> step s t \<Longrightarrow> inv t"
begin

lemma run_inv: "step\<^sup>*\<^sup>* s t \<Longrightarrow> inv s \<Longrightarrow> inv t"
  by (induction rule: rtranclp_induct) (blast dest: step_inv)+

lemma reachable_inv: "init s \<Longrightarrow> step\<^sup>*\<^sup>* s t \<Longrightarrow> inv t"
  by (blast dest: init_inv run_inv)

end

lemma successively_reach:
  "successively (R\<^sup>*\<^sup>*) ss \<Longrightarrow> R\<^sup>*\<^sup>* s0 (hd ss) \<Longrightarrow> s \<in> set ss \<Longrightarrow> R\<^sup>*\<^sup>* s0 s"
proof (induction ss arbitrary: s0)
  case (Cons x ss)
  show ?case
  proof (cases "s = x")
    case False
    then have "s \<in> set ss" "ss \<noteq> []" using Cons.prems(3) by auto
    moreover from this have "R\<^sup>*\<^sup>* s0 (hd ss)" using Cons.prems(1,2) by (auto simp: successively_Cons intro: rtranclp_trans)
    ultimately show ?thesis using Cons.IH [of s0] Cons.prems(1) by (auto simp: successively_Cons)
  qed (use Cons.prems in simp)
qed simp

lemma acyclic_by_rank:
  fixes rank :: "'a \<Rightarrow> 'o::order"
  assumes "\<And>x y. (x, y) \<in> r \<Longrightarrow> rank x < rank y"
  shows "acyclic r"
proof -
  have "rank x < rank y" if "(x, y) \<in> r\<^sup>+" for x y
    using that by (induction rule: trancl_induct) (blast dest: assms intro: less_trans)+
  then show ?thesis by (auto simp: acyclic_def)
qed

lemmas cc_monad = bindE_eq_Inr bindE_eq_Inl

declare bindE_Inl [cc_simps] bindE_Inr [cc_simps] bindE_guard [cc_simps]

end
