(* ===== verification/Row_lock.thy ===== *)
theory Row_lock
  imports Base
begin

text \<open>
  The two-phase-locking row manager, \<^verbatim>\<open>concurrency_control/row_lock.cpp\<close>: the state of
  \<^verbatim>\<open>class Row_lock\<close> and its operations \<^verbatim>\<open>init\<close>, \<^verbatim>\<open>lock_get\<close>, \<^verbatim>\<open>lock_release\<close> and
  \<^verbatim>\<open>conflict_lock\<close>, for the three algorithms \<^verbatim>\<open>NO_WAIT\<close>, \<^verbatim>\<open>WAIT_DIE\<close> and \<^verbatim>\<open>DL_DETECT\<close>.
  Every operation runs under the row's latch, so one call is one atomic step. The linked lists
  \<^verbatim>\<open>owners\<close> (a stack) and \<^verbatim>\<open>waiters_head\<close> .. \<^verbatim>\<open>waiters_tail\<close> are lists, head first.
\<close>

subsection \<open>State\<close>

record LockEntry =
  le_type :: lock_t
  le_txn :: txn_ptr

record Row_lock =
  lock_type :: lock_t
  owner_cnt :: nat
  waiter_cnt :: nat
  owners :: "LockEntry list"
  waiters :: "LockEntry list"

definition Row_lock_init :: Row_lock where
  "Row_lock_init = \<lparr>lock_type = LOCK_NONE, owner_cnt = 0, waiter_cnt = 0, owners = [], waiters = []\<rparr>"

subsection \<open>Operations\<close>

definition conflict_lock :: "lock_t \<Rightarrow> lock_t \<Rightarrow> bool" where
  "conflict_lock l1 l2 =
     (if l1 = LOCK_NONE \<or> l2 = LOCK_NONE then False
      else if l1 = LOCK_EX \<or> l2 = LOCK_EX then True
      else False)"

text \<open>The loop over the owners that decides whether a transaction may wait (\<^verbatim>\<open>WAIT_DIE\<close>).\<close>

fun canwait :: "txn_tab \<Rightarrow> txn_ptr \<Rightarrow> LockEntry list \<Rightarrow> bool" where
  "canwait T txn [] = True"
| "canwait T txn (en # ens) =
     (if ts_of T (le_txn en) < ts_of T txn then False else canwait T txn ens)"

text \<open>The loop that skips the waiters with a larger timestamp, then
  \<^verbatim>\<open>LIST_INSERT_BEFORE\<close> or \<^verbatim>\<open>LIST_PUT_TAIL\<close>.\<close>

fun insert_waiter :: "txn_tab \<Rightarrow> LockEntry \<Rightarrow> LockEntry list \<Rightarrow> LockEntry list" where
  "insert_waiter T entry [] = [entry]"
| "insert_waiter T entry (en # ens) =
     (if ts_of T (le_txn entry) < ts_of T (le_txn en)
      then en # insert_waiter T entry ens
      else entry # en # ens)"

text \<open>The conflict test of \<^verbatim>\<open>lock_get\<close> with its two algorithm-specific corrections.\<close>

definition get_conflict :: "cc_alg \<Rightarrow> lock_t \<Rightarrow> txn_ptr \<Rightarrow> Row_lock \<Rightarrow> txn_tab \<Rightarrow> bool" where
  "get_conflict alg type txn s T =
     (let conflict = conflict_lock (lock_type s) type;
          conflict = (if alg = WAIT_DIE \<and> \<not> conflict then
                        (case waiters s of [] \<Rightarrow> conflict
                         | en # _ \<Rightarrow> if ts_of T txn < ts_of T (le_txn en) then True else conflict)
                      else conflict)
      in if alg = DL_DETECT \<and> waiters s \<noteq> [] then True else conflict)"

text \<open>The transactions a waiting transaction depends on (\<^verbatim>\<open>DL_DETECT\<close>): the conflicting
  waiters before it, from the tail backwards, then the owners if they conflict.\<close>

definition wait_txnids :: "lock_t \<Rightarrow> Row_lock \<Rightarrow> txn_tab \<Rightarrow> txnid_t list" where
  "wait_txnids type s T =
     map (\<lambda>en. txn_id (T (le_txn en)))
         (filter (\<lambda>en. conflict_lock type (le_type en)) (rev (butlast (waiters s))))
     @ (if conflict_lock type (lock_type s) then map (\<lambda>en. txn_id (T (le_txn en))) (owners s) else [])"

definition lock_get ::
  "cc_alg \<Rightarrow> nat \<Rightarrow> lock_t \<Rightarrow> txn_ptr \<Rightarrow> Row_lock \<Rightarrow> txn_tab
     \<Rightarrow> fault + (RC \<times> txnid_t list \<times> Row_lock \<times> txn_tab)" where
  "lock_get alg g_thread_cnt type txn s T =
     bindE (assert_that (alg = DL_DETECT \<or> alg = NO_WAIT \<or> alg = WAIT_DIE)) (\<lambda>_.
     bindE (assert_that (owner_cnt s \<le> g_thread_cnt)) (\<lambda>_.
     bindE (assert_that (waiter_cnt s < g_thread_cnt)) (\<lambda>_.
     let entry = \<lparr>le_type = type, le_txn = txn\<rparr>;
         T_wait = set_lock_ready False txn T
     in
     if get_conflict alg type txn s T then
       (if alg = NO_WAIT then Inr (Abort, [], s, T)
        else if alg = DL_DETECT then
          (let s' = s\<lparr>waiters := waiters s @ [entry], waiter_cnt := waiter_cnt s + 1\<rparr>;
               txnids = wait_txnids type s' T_wait
           in bindE (assert_that (length txnids > 0)) (\<lambda>_. Inr (WAIT, txnids, s', T_wait)))
        else
          (if canwait T txn (owners s) then
             Inr (WAIT, [], s\<lparr>waiters := insert_waiter T entry (waiters s),
                              waiter_cnt := waiter_cnt s + 1\<rparr>, T_wait)
           else Inr (Abort, [], s, T)))
     else
       bindE (assert_that (alg = DL_DETECT \<longrightarrow> waiters s = [])) (\<lambda>_.
       Inr (RCOK, [], s\<lparr>owners := entry # owners s, owner_cnt := owner_cnt s + 1,
                        lock_type := type\<rparr>, T)))))"

text \<open>The loop of \<^verbatim>\<open>lock_release\<close> that moves waiters to the owners; the first argument is the
  waiter list still to be looked at.\<close>

fun grant_waiters ::
  "LockEntry list \<Rightarrow> Row_lock \<Rightarrow> txn_tab \<Rightarrow> fault + (Row_lock \<times> txn_tab)" where
  "grant_waiters [] s T = Inr (s\<lparr>waiters := []\<rparr>, T)"
| "grant_waiters (entry # ens) s T =
     (if conflict_lock (lock_type s) (le_type entry) then Inr (s\<lparr>waiters := entry # ens\<rparr>, T)
      else bindE (assert_that (\<not> lock_ready (T (le_txn entry)))) (\<lambda>_.
        grant_waiters ens
          (s\<lparr>owners := entry # owners s, owner_cnt := owner_cnt s + 1,
             waiter_cnt := waiter_cnt s - 1, lock_type := le_type entry\<rparr>)
          (set_lock_ready True (le_txn entry) T)))"

text \<open>The first half of \<^verbatim>\<open>lock_release\<close>: the entry is unlinked from the owners or, failing
  that, from the waiters.\<close>

definition release_entry :: "txn_ptr \<Rightarrow> Row_lock \<Rightarrow> fault + Row_lock" where
  "release_entry txn s =
     (case unlink_first (\<lambda>en. le_txn en = txn) (owners s) of
        Some (en, os) \<Rightarrow>
          Inr (if owner_cnt s - 1 = 0
               then s\<lparr>owners := os, owner_cnt := owner_cnt s - 1, lock_type := LOCK_NONE\<rparr>
               else s\<lparr>owners := os, owner_cnt := owner_cnt s - 1\<rparr>)
      | None \<Rightarrow>
          (case unlink_first (\<lambda>en. le_txn en = txn) (waiters s) of
             None \<Rightarrow> Inl Assert_failed
           | Some (en, ws) \<Rightarrow> Inr (s\<lparr>waiters := ws, waiter_cnt := waiter_cnt s - 1\<rparr>)))"

definition lock_release ::
  "txn_ptr \<Rightarrow> Row_lock \<Rightarrow> txn_tab \<Rightarrow> fault + (RC \<times> Row_lock \<times> txn_tab)" where
  "lock_release txn s T =
     bindE (release_entry txn s) (\<lambda>s1.
     bindE (assert_that (owner_cnt s1 = 0 \<longrightarrow> lock_type s1 = LOCK_NONE)) (\<lambda>_.
     bindE (grant_waiters (waiters s1) s1 T) (\<lambda>(s2, T2).
     bindE (assert_that ((owners s2 = []) = (owner_cnt s2 = 0))) (\<lambda>_.
     Inr (RCOK, s2, T2)))))"

subsection \<open>Invariant\<close>

definition wait_die_ordered :: "Row_lock \<Rightarrow> txn_tab \<Rightarrow> bool" where
  "wait_die_ordered s T \<longleftrightarrow>
     sorted_wrt (\<lambda>a b. ts_of T (le_txn b) \<le> ts_of T (le_txn a)) (waiters s) \<and>
     (\<forall>w\<in>set (waiters s). \<forall>ow\<in>set (owners s). ts_of T (le_txn w) \<le> ts_of T (le_txn ow))"

text \<open>The part every step of \<^verbatim>\<open>lock_release\<close> keeps, and the part that only holds between
  operations: the first waiter conflicts with the lock (nobody waits who could be granted).\<close>

definition lock_wf :: "cc_alg \<Rightarrow> Row_lock \<Rightarrow> txn_tab \<Rightarrow> bool" where
  "lock_wf alg s T \<longleftrightarrow>
     owner_cnt s = length (owners s) \<and>
     waiter_cnt s = length (waiters s) \<and>
     (owners s = [] \<longleftrightarrow> lock_type s = LOCK_NONE) \<and>
     (\<forall>en\<in>set (owners s). le_type en = lock_type s) \<and>
     (lock_type s = LOCK_EX \<longrightarrow> length (owners s) = 1) \<and>
     (\<forall>en\<in>set (waiters s). le_type en \<noteq> LOCK_NONE \<and> \<not> lock_ready (T (le_txn en))) \<and>
     distinct (map le_txn (waiters s)) \<and>
     (alg = NO_WAIT \<longrightarrow> waiters s = []) \<and>
     (alg = WAIT_DIE \<longrightarrow> wait_die_ordered s T)"

definition head_blocked :: "Row_lock \<Rightarrow> bool" where
  "head_blocked s \<longleftrightarrow> (waiters s \<noteq> [] \<longrightarrow> conflict_lock (lock_type s) (le_type (hd (waiters s))))"

definition lock_inv :: "cc_alg \<Rightarrow> Row_lock \<Rightarrow> txn_tab \<Rightarrow> bool" where
  "lock_inv alg s T \<longleftrightarrow> lock_wf alg s T \<and> head_blocked s"

lemmas lock_inv_defs = lock_inv_def lock_wf_def head_blocked_def

lemma conflict_lock_cases:
  "conflict_lock l1 l2 \<longleftrightarrow> l1 \<noteq> LOCK_NONE \<and> l2 \<noteq> LOCK_NONE \<and> (l1 = LOCK_EX \<or> l2 = LOCK_EX)"
  by (auto simp: conflict_lock_def)

lemma conflict_lock_sym: "conflict_lock l1 l2 = conflict_lock l2 l1"
  by (auto simp: conflict_lock_cases)

lemma no_conflict_lockD: "\<not> conflict_lock l1 l2 \<Longrightarrow> l1 = LOCK_NONE \<or> l2 = LOCK_NONE \<or> l1 = LOCK_SH \<and> l2 = LOCK_SH"
  by (cases l1; cases l2) (auto simp: conflict_lock_cases)

lemma canwait_iff: "canwait T txn ens \<longleftrightarrow> (\<forall>en\<in>set ens. ts_of T txn \<le> ts_of T (le_txn en))"
  by (induction ens) (auto simp: not_less)

lemma set_insert_waiter [simp]: "set (insert_waiter T e ens) = insert e (set ens)"
  by (induction ens) auto

lemma length_insert_waiter [simp]: "length (insert_waiter T e ens) = Suc (length ens)"
  by (induction ens) auto

lemma insert_waiter_not_Nil [simp]: "insert_waiter T e ens \<noteq> []"
  by (cases ens) auto

lemma distinct_insert_waiter:
  "le_txn e \<notin> le_txn ` set ens \<Longrightarrow> distinct (map le_txn ens) \<Longrightarrow>
     distinct (map le_txn (insert_waiter T e ens))"
  by (induction ens) auto

lemma sorted_insert_waiter:
  "sorted_wrt (\<lambda>a b. ts_of T (le_txn b) \<le> ts_of T (le_txn a)) ens \<Longrightarrow>
   sorted_wrt (\<lambda>a b. ts_of T (le_txn b) \<le> ts_of T (le_txn a)) (insert_waiter T e ens)"
  by (induction ens) (auto simp: not_less intro: order.trans)

lemma hd_insert_waiter:
  "hd (insert_waiter T e ens) =
     (if ens \<noteq> [] \<and> ts_of T (le_txn e) < ts_of T (le_txn (hd ens)) then hd ens else e)"
  by (cases ens) auto

lemma get_conflict_NO_WAIT [simp]:
  "get_conflict NO_WAIT type txn s T = conflict_lock (lock_type s) type"
  by (simp add: get_conflict_def)

lemma get_conflict_DL_DETECT [simp]:
  "get_conflict DL_DETECT type txn s T \<longleftrightarrow> waiters s \<noteq> [] \<or> conflict_lock (lock_type s) type"
  by (simp add: get_conflict_def)

lemma get_conflict_WAIT_DIE [simp]:
  "get_conflict WAIT_DIE type txn s T \<longleftrightarrow>
     conflict_lock (lock_type s) type \<or>
     waiters s \<noteq> [] \<and> ts_of T txn < ts_of T (le_txn (hd (waiters s)))"
  by (auto simp: get_conflict_def Let_def split: list.splits)

lemma lock_inv_init: "lock_inv alg Row_lock_init T"
  by (simp add: lock_inv_defs Row_lock_init_def wait_die_ordered_def)

subsection \<open>Requests\<close>

text \<open>The four ways a request can return, with the state each leaves behind.\<close>

lemma lock_get_cases [consumes 1, case_names no_wait_abort die wait_dl wait_wd granted]:
  assumes "lock_get alg n type txn s T = Inr (rc, ids, s', T')"
  obtains
    "alg = NO_WAIT" "conflict_lock (lock_type s) type" "rc = Abort" "s' = s" "T' = T"
  | "alg = WAIT_DIE" "get_conflict alg type txn s T" "\<not> canwait T txn (owners s)"
      "rc = Abort" "s' = s" "T' = T"
  | "alg = DL_DETECT" "waiters s \<noteq> [] \<or> conflict_lock (lock_type s) type" "rc = WAIT"
      "s' = s\<lparr>waiters := waiters s @ [\<lparr>le_type = type, le_txn = txn\<rparr>], waiter_cnt := waiter_cnt s + 1\<rparr>"
      "T' = set_lock_ready False txn T" "ids = wait_txnids type s' T'" "ids \<noteq> []"
  | "alg = WAIT_DIE" "get_conflict alg type txn s T" "canwait T txn (owners s)" "rc = WAIT"
      "s' = s\<lparr>waiters := insert_waiter T \<lparr>le_type = type, le_txn = txn\<rparr> (waiters s), waiter_cnt := waiter_cnt s + 1\<rparr>"
      "T' = set_lock_ready False txn T"
  | "\<not> get_conflict alg type txn s T" "\<not> conflict_lock (lock_type s) type"
      "alg = DL_DETECT \<longrightarrow> waiters s = []" "rc = RCOK"
      "s' = s\<lparr>owners := \<lparr>le_type = type, le_txn = txn\<rparr> # owners s, owner_cnt := owner_cnt s + 1, lock_type := type\<rparr>"
      "T' = T"
proof (cases "get_conflict alg type txn s T")
  case False
  with assms have "alg = DL_DETECT \<or> alg = NO_WAIT \<or> alg = WAIT_DIE"
    by (auto simp: lock_get_def split: if_splits)
  with False have "\<not> conflict_lock (lock_type s) type" by auto
  with False assms show ?thesis
    by (intro that(5)) (auto simp: lock_get_def Let_def split: if_splits)
next
  case True
  consider "alg = NO_WAIT" | "alg = DL_DETECT" | "alg = WAIT_DIE"
    using assms by (auto simp: lock_get_def split: if_splits)
  then show ?thesis
  proof cases
    case 1
    with True assms show ?thesis
      by (intro that(1)) (auto simp: lock_get_def Let_def split: if_splits)
  next
    case 2
    with True assms show ?thesis
      by (intro that(3)) (auto simp: lock_get_def Let_def split: if_splits)
  next
    case 3
    show ?thesis
    proof (cases "canwait T txn (owners s)")
      case True
      with 3 \<open>get_conflict alg type txn s T\<close> assms show ?thesis
        by (intro that(4)) (auto simp: lock_get_def Let_def split: if_splits)
    next
      case False
      with 3 True assms show ?thesis
        by (intro that(2)) (auto simp: lock_get_def Let_def split: if_splits)
    qed
  qed
qed

lemma lock_get_inv:
  assumes inv: "lock_inv alg s T"
    and ret: "lock_get alg n type txn s T = Inr (rc, ids, s', T')"
    and type: "type \<noteq> LOCK_NONE" and new: "txn \<notin> le_txn ` set (waiters s)"
  shows "lock_inv alg s' T'"
  using ret
proof (cases rule: lock_get_cases)
  case no_wait_abort
  with inv show ?thesis by simp
next
  case die
  with inv show ?thesis by simp
next
  case wait_dl
  with inv type new show ?thesis
    by (cases "waiters s") (auto simp: lock_inv_defs)
next
  case wait_wd
  then have ord: "wait_die_ordered s' T'"
    using inv by (auto simp: lock_inv_defs wait_die_ordered_def canwait_iff intro: sorted_insert_waiter)
  have "conflict_lock (lock_type s) (le_type (hd (insert_waiter T \<lparr>le_type = type, le_txn = txn\<rparr> (waiters s))))"
    using wait_wd(2) inv by (auto simp: wait_wd(1) hd_insert_waiter lock_inv_defs)
  with wait_wd inv type new ord show ?thesis
    by (auto simp: lock_inv_defs intro!: distinct_insert_waiter)
next
  case granted
  have sh: "lock_type s = LOCK_NONE \<or> lock_type s = LOCK_SH \<and> type = LOCK_SH"
    using no_conflict_lockD [OF granted(2)] type by auto
  have head: "waiters s \<noteq> [] \<Longrightarrow> lock_type s = LOCK_SH"
    using inv sh by (auto simp: lock_inv_defs conflict_lock_cases)
  have "alg = WAIT_DIE \<Longrightarrow> wait_die_ordered s' T'"
    using granted inv
    by (cases "waiters s") (auto simp: lock_inv_defs wait_die_ordered_def not_less intro: order.trans)
  with granted inv sh head type show ?thesis
    by (auto simp: lock_inv_defs)
qed

lemma wait_txnids_nonempty:
  assumes inv: "lock_inv DL_DETECT s T" and type: "type \<noteq> LOCK_NONE"
    and conf: "waiters s \<noteq> [] \<or> conflict_lock (lock_type s) type"
  shows "wait_txnids type (s\<lparr>waiters := waiters s @ [en], waiter_cnt := k\<rparr>) T' \<noteq> []"
proof (cases "conflict_lock (lock_type s) type")
  case True
  with inv have "owners s \<noteq> []" by (auto simp: lock_inv_defs conflict_lock_cases)
  with True show ?thesis by (simp add: wait_txnids_def conflict_lock_sym)
next
  case False
  with conf obtain w ws where w: "waiters s = w # ws" by (cases "waiters s") auto
  with inv have "conflict_lock (lock_type s) (le_type w)" by (simp add: lock_inv_defs)
  with False type have "conflict_lock type (le_type w)"
    by (auto simp: conflict_lock_cases)
  with w show ?thesis by (auto simp: wait_txnids_def)
qed

text \<open>No assertion of \<^verbatim>\<open>lock_get\<close> can fail in a state that satisfies the invariant.\<close>

lemma lock_get_total:
  assumes "lock_inv alg s T" "alg \<in> {NO_WAIT, WAIT_DIE, DL_DETECT}" "type \<noteq> LOCK_NONE"
    and "owner_cnt s \<le> n" "waiter_cnt s < n"
  shows "\<exists>rc ids s' T'. lock_get alg n type txn s T = Inr (rc, ids, s', T')"
  using assms wait_txnids_nonempty
  by (auto simp: lock_get_def Let_def)

subsection \<open>Releases\<close>

lemma grant_waiters_spec:
  assumes "lock_wf alg (s\<lparr>waiters := ws\<rparr>) T"
  shows "\<exists>s' T' gs rest. grant_waiters ws s T = Inr (s', T') \<and> lock_inv alg s' T' \<and>
     ws = gs @ rest \<and> waiters s' = rest \<and> owners s' = rev gs @ owners s \<and>
     (\<forall>t. timestamp (T' t) = timestamp (T t) \<and> txn_id (T' t) = txn_id (T t)) \<and>
     (\<forall>t. lock_ready (T' t) = (lock_ready (T t) \<or> t \<in> le_txn ` set gs))"
  using assms
proof (induction ws s T rule: grant_waiters.induct)
  case (1 s T)
  then show ?case by (auto simp: lock_inv_defs intro!: exI [of _ "[]"])
next
  case (2 entry ens s T)
  show ?case
  proof (cases "conflict_lock (lock_type s) (le_type entry)")
    case True
    with "2.prems" show ?thesis by (auto simp: lock_inv_defs intro!: exI [of _ "[]"])
  next
    case False
    let ?s = "s\<lparr>owners := entry # owners s, owner_cnt := owner_cnt s + 1,
             waiter_cnt := waiter_cnt s - 1, lock_type := le_type entry\<rparr>"
    let ?T = "set_lock_ready True (le_txn entry) T"
    have ready: "\<not> lock_ready (T (le_txn entry))" and none: "le_type entry \<noteq> LOCK_NONE"
      using "2.prems" by (auto simp: lock_wf_def)
    have types: "lock_type s = LOCK_NONE \<or> lock_type s = LOCK_SH \<and> le_type entry = LOCK_SH"
      using no_conflict_lockD [OF False] none by auto
    have "le_txn entry \<notin> le_txn ` set ens"
      using "2.prems" by (simp add: lock_wf_def)
    then have "\<forall>en\<in>set ens. le_txn en \<noteq> le_txn entry"
      by (metis imageI)
    then have "lock_wf alg (?s\<lparr>waiters := ens\<rparr>) ?T"
      using "2.prems" types none
      by (auto simp: lock_wf_def wait_die_ordered_def)
    from "2.IH" [OF False _ this] ready obtain s' T' gs rest where
      "grant_waiters ens ?s ?T = Inr (s', T')" "lock_inv alg s' T'" "ens = gs @ rest"
      "waiters s' = rest" "owners s' = rev gs @ entry # owners s"
      "\<forall>t. timestamp (T' t) = timestamp (T t) \<and> txn_id (T' t) = txn_id (T t)"
      "\<forall>t. lock_ready (T' t) = (lock_ready (T t) \<or> t \<in> le_txn ` set (entry # gs))"
      by auto
    with False ready show ?thesis
      by (intro exI [of _ s'] exI [of _ T'] exI [of _ "entry # gs"] exI [of _ rest]) simp
  qed
qed

text \<open>What unlinking leaves: one entry of the transaction is gone from one of the lists.\<close>

definition entry_removed :: "txn_ptr \<Rightarrow> Row_lock \<Rightarrow> Row_lock \<Rightarrow> bool" where
  "entry_removed txn s s1 \<longleftrightarrow>
     (if txn \<in> le_txn ` set (owners s)
      then (\<exists>us en vs. owners s = us @ en # vs \<and> le_txn en = txn \<and> owners s1 = us @ vs) \<and>
           waiters s1 = waiters s
      else owners s1 = owners s \<and>
           (\<exists>us en vs. waiters s = us @ en # vs \<and> le_txn en = txn \<and> waiters s1 = us @ vs))"

lemma release_entry_spec:
  assumes inv: "lock_inv alg s T"
    and mem: "txn \<in> le_txn ` set (owners s) \<or> txn \<in> le_txn ` set (waiters s)"
  shows "\<exists>s1. release_entry txn s = Inr s1 \<and> lock_wf alg s1 T \<and> entry_removed txn s s1"
proof (cases "txn \<in> le_txn ` set (owners s)")
  case True
  then obtain en os where u: "unlink_first (\<lambda>en. le_txn en = txn) (owners s) = Some (en, os)"
    using unlink_first_Some_ex [of "owners s" "\<lambda>en. le_txn en = txn"] by auto
  then obtain us vs where d: "owners s = us @ en # vs" "os = us @ vs" "le_txn en = txn"
    by (auto elim: unlink_first_SomeD)
  with u inv have "\<exists>s1. release_entry txn s = Inr s1 \<and> lock_wf alg s1 T \<and>
      owners s1 = us @ vs \<and> waiters s1 = waiters s"
    by (auto simp: release_entry_def lock_inv_defs wait_die_ordered_def)
  with True d show ?thesis by (auto simp: entry_removed_def)
next
  case False
  then have none: "unlink_first (\<lambda>en. le_txn en = txn) (owners s) = None"
    by (auto simp: unlink_first_None)
  from False mem obtain en ws where
    u: "unlink_first (\<lambda>en. le_txn en = txn) (waiters s) = Some (en, ws)"
    using unlink_first_Some_ex [of "waiters s" "\<lambda>en. le_txn en = txn"] by auto
  then obtain us vs where d: "waiters s = us @ en # vs" "ws = us @ vs" "le_txn en = txn"
    by (auto elim: unlink_first_SomeD)
  with none u inv have "\<exists>s1. release_entry txn s = Inr s1 \<and> lock_wf alg s1 T \<and>
      owners s1 = owners s \<and> waiters s1 = us @ vs"
    by (auto simp: release_entry_def lock_inv_defs wait_die_ordered_def sorted_wrt_append)
  with False d show ?thesis unfolding entry_removed_def by (metis (no_types, lifting))
qed

lemma lock_release_spec:
  assumes inv: "lock_inv alg s T"
    and mem: "txn \<in> le_txn ` set (owners s) \<or> txn \<in> le_txn ` set (waiters s)"
  shows "\<exists>s1 s' T' gs. lock_release txn s T = Inr (RCOK, s', T') \<and> lock_inv alg s' T' \<and>
     entry_removed txn s s1 \<and> waiters s1 = gs @ waiters s' \<and> owners s' = rev gs @ owners s1 \<and>
     (\<forall>t. timestamp (T' t) = timestamp (T t) \<and> txn_id (T' t) = txn_id (T t)) \<and>
     (\<forall>t. lock_ready (T' t) = (lock_ready (T t) \<or> t \<in> le_txn ` set gs))"
proof -
  obtain s1 where s1: "release_entry txn s = Inr s1" "lock_wf alg s1 T" "entry_removed txn s s1"
    using release_entry_spec [OF inv mem] by auto
  then have "lock_wf alg (s1\<lparr>waiters := waiters s1\<rparr>) T" by simp
  from grant_waiters_spec [OF this] obtain s' T' gs where
    g: "grant_waiters (waiters s1) s1 T = Inr (s', T')" "lock_inv alg s' T'"
      "waiters s1 = gs @ waiters s'" "owners s' = rev gs @ owners s1"
      "\<forall>t. timestamp (T' t) = timestamp (T t) \<and> txn_id (T' t) = txn_id (T t)"
      "\<forall>t. lock_ready (T' t) = (lock_ready (T t) \<or> t \<in> le_txn ` set gs)"
    by auto
  have "lock_release txn s T = Inr (RCOK, s', T')"
    using s1(1,2) g(1,2) by (simp add: lock_release_def lock_inv_defs)
  with s1(3) g show ?thesis by blast
qed

end
