(* ===== verification/Lock_system.thy ===== *)
theory Lock_system
  imports Row_lock
begin

text \<open>
  All rows of the database under two-phase locking, with the transactions that use them. A step is
  one call of \<^verbatim>\<open>Row_lock::lock_get\<close> or \<^verbatim>\<open>Row_lock::lock_release\<close> on one row (each runs under
  that row's latch), the start of a transaction with a fresh timestamp, or a thread setting the
  \<^verbatim>\<open>lock_abort\<close> flag of another. The guards are the discipline of \<^verbatim>\<open>row_t::get_row\<close>: a
  transaction that waits makes no other request, and a transaction asks for a row once. Each of the
  \<open>n\<close> worker threads has one \<^verbatim>\<open>txn_man\<close>, so the transactions are the numbers below \<open>n\<close>
  (\<^verbatim>\<open>g_thread_cnt\<close>).
\<close>

subsection \<open>Steps\<close>

record lock_sys =
  rows :: "row_ptr \<Rightarrow> Row_lock"
  txns :: txn_tab

definition txns_in :: "LockEntry list \<Rightarrow> txn_ptr set" where
  "txns_in ens = le_txn ` set ens"

lemma txns_in_simps [simp]:
  "txns_in [] = {}" "txns_in (en # ens) = insert (le_txn en) (txns_in ens)"
  "txns_in (ens @ ens') = txns_in ens \<union> txns_in ens'" "txns_in (rev ens) = txns_in ens"
  "txns_in (insert_waiter T en ens) = insert (le_txn en) (txns_in ens)"
  by (auto simp: txns_in_def)

lemma distinct_txns_append:
  "distinct (map le_txn (ens @ ens')) \<longleftrightarrow>
     distinct (map le_txn ens) \<and> distinct (map le_txn ens') \<and> txns_in ens \<inter> txns_in ens' = {}"
  by (simp add: txns_in_def)

lemma txns_in_nth: "i < length ens \<Longrightarrow> le_txn (ens ! i) \<in> txns_in ens"
  by (simp add: txns_in_def)

lemma txns_in_set: "en \<in> set ens \<Longrightarrow> le_txn en \<in> txns_in ens"
  by (simp add: txns_in_def)

definition waiting :: "lock_sys \<Rightarrow> txn_ptr \<Rightarrow> bool" where
  "waiting S t \<longleftrightarrow> (\<exists>r. t \<in> txns_in (waiters (rows S r)))"

definition holding :: "lock_sys \<Rightarrow> txn_ptr \<Rightarrow> bool" where
  "holding S t \<longleftrightarrow> (\<exists>r. t \<in> txns_in (owners (rows S r)))"

inductive lock_step :: "cc_alg \<Rightarrow> nat \<Rightarrow> lock_sys \<Rightarrow> lock_sys \<Rightarrow> bool" for alg n where
  acquire: "t < n \<Longrightarrow> \<not> waiting S t \<Longrightarrow> t \<notin> txns_in (owners (rows S r)) \<Longrightarrow> type \<noteq> LOCK_NONE \<Longrightarrow>
     lock_get alg n type t (rows S r) (txns S) = Inr (rc, ids, s', T') \<Longrightarrow>
     lock_step alg n S (S\<lparr>rows := (rows S)(r := s'), txns := T'\<rparr>)"
| release: "t \<in> txns_in (owners (rows S r)) \<or> t \<in> txns_in (waiters (rows S r)) \<Longrightarrow>
     lock_release t (rows S r) (txns S) = Inr (rc, s', T') \<Longrightarrow>
     lock_step alg n S (S\<lparr>rows := (rows S)(r := s'), txns := T'\<rparr>)"
| begin_txn: "t < n \<Longrightarrow> \<not> waiting S t \<Longrightarrow> \<not> holding S t \<Longrightarrow>
     \<forall>u<n. u \<noteq> t \<longrightarrow> ts_of (txns S) u \<noteq> ts \<Longrightarrow>
     lock_step alg n S (S\<lparr>txns := (txns S)(t := (txns S t)\<lparr>timestamp := ts, txn_id := i\<rparr>)\<rparr>)"
| abort_flag:
     "lock_step alg n S (S\<lparr>txns := (txns S)(t := (txns S t)\<lparr>lock_abort := b\<rparr>)\<rparr>)"

definition lock_sys_init :: "nat \<Rightarrow> lock_sys \<Rightarrow> bool" where
  "lock_sys_init n S \<longleftrightarrow> (\<forall>r. rows S r = Row_lock_init) \<and> inj_on (ts_of (txns S)) {..<n}"

text \<open>The entries of one row belong to different transactions.\<close>

definition row_txns_ok :: "nat \<Rightarrow> Row_lock \<Rightarrow> bool" where
  "row_txns_ok n s \<longleftrightarrow>
     distinct (map le_txn (owners s)) \<and>
     txns_in (waiters s) \<inter> txns_in (owners s) = {} \<and>
     txns_in (waiters s) \<union> txns_in (owners s) \<subseteq> {..<n}"

definition lock_sys_inv :: "cc_alg \<Rightarrow> nat \<Rightarrow> lock_sys \<Rightarrow> bool" where
  "lock_sys_inv alg n S \<longleftrightarrow>
     (\<forall>r. lock_inv alg (rows S r) (txns S)) \<and>
     (\<forall>r. row_txns_ok n (rows S r)) \<and>
     (\<forall>r r'. r \<noteq> r' \<longrightarrow> txns_in (waiters (rows S r)) \<inter> txns_in (waiters (rows S r')) = {}) \<and>
     inj_on (ts_of (txns S)) {..<n}"

text \<open>Who waits for whom: a waiter waits for every owner of the row and for every waiter that is
  ahead of it in the row's queue.\<close>

definition row_waits_for :: "Row_lock \<Rightarrow> (txn_ptr \<times> txn_ptr) set" where
  "row_waits_for s =
     {(le_txn w, le_txn ow) | w ow. w \<in> set (waiters s) \<and> ow \<in> set (owners s)} \<union>
     {(le_txn (waiters s ! j), le_txn (waiters s ! i)) | i j. i < j \<and> j < length (waiters s)}"

definition waits_for :: "lock_sys \<Rightarrow> (txn_ptr \<times> txn_ptr) set" where
  "waits_for S = (\<Union>r. row_waits_for (rows S r))"

subsection \<open>The invariant is kept\<close>

lemma lock_inv_cong:
  assumes "lock_inv alg s T" "\<And>t. t \<in> txns_in (waiters s) \<union> txns_in (owners s) \<Longrightarrow> timestamp (T' t) = timestamp (T t)"
    and "\<And>t. t \<in> txns_in (waiters s) \<Longrightarrow> \<not> lock_ready (T t) \<Longrightarrow> \<not> lock_ready (T' t)"
  shows "lock_inv alg s T'"
proof -
  have "wait_die_ordered s T \<Longrightarrow> wait_die_ordered s T'"
    using assms(2) by (auto simp: wait_die_ordered_def txns_in_def intro: sorted_wrt_mono_rel [rotated])
  with assms show ?thesis by (auto simp: lock_inv_defs txns_in_def)
qed

lemma lock_get_frame:
  assumes "lock_get alg n type t s T = Inr (rc, ids, s', T')"
  shows "timestamp (T' u) = timestamp (T u) \<and> (lock_ready (T' u) \<longrightarrow> lock_ready (T u)) \<and>
     txns_in (waiters s') \<subseteq> insert t (txns_in (waiters s)) \<and>
     txns_in (owners s') \<subseteq> insert t (txns_in (owners s)) \<and>
     (txns_in (waiters s') = txns_in (waiters s) \<or> txns_in (owners s') = txns_in (owners s))"
  using assms by (cases rule: lock_get_cases) auto

lemma lock_sys_invD:
  assumes "lock_sys_inv alg n S"
  shows "lock_inv alg (rows S r) (txns S)"
    and "row_txns_ok n (rows S r)"
    and "r \<noteq> r' \<Longrightarrow> txns_in (waiters (rows S r)) \<inter> txns_in (waiters (rows S r')) = {}"
    and "inj_on (ts_of (txns S)) {..<n}"
  using assms unfolding lock_sys_inv_def by blast+

text \<open>Replacing one row and the transaction table.\<close>

lemma lock_sys_inv_update:
  assumes "lock_sys_inv alg n S" "lock_inv alg s' T'"
    and "\<And>r'. r' \<noteq> r \<Longrightarrow> lock_inv alg (rows S r') T'"
    and "row_txns_ok n s'"
    and "\<And>r'. r' \<noteq> r \<Longrightarrow> txns_in (waiters s') \<inter> txns_in (waiters (rows S r')) = {}"
    and "ts_of T' = ts_of (txns S)"
  shows "lock_sys_inv alg n (S\<lparr>rows := (rows S)(r := s'), txns := T'\<rparr>)"
  using assms(2-6) lock_sys_invD [OF assms(1)] unfolding lock_sys_inv_def
  by (simp add: Int_commute)

text \<open>Replacing the transaction table only.\<close>

lemma lock_sys_inv_txns:
  assumes "lock_sys_inv alg n S" "inj_on (ts_of T') {..<n}"
    and "\<And>t. waiting S t \<or> holding S t \<Longrightarrow> timestamp (T' t) = timestamp (txns S t)"
    and "\<And>t. lock_ready (T' t) = lock_ready (txns S t)"
  shows "lock_sys_inv alg n (S\<lparr>txns := T'\<rparr>)"
proof -
  have "lock_inv alg (rows S r) T'" for r
    by (rule lock_inv_cong [OF lock_sys_invD(1) [OF assms(1)]])
      (use assms(3,4) in \<open>auto simp: waiting_def holding_def\<close>)
  then show ?thesis
    using assms(2) lock_sys_invD [OF assms(1)] unfolding lock_sys_inv_def by simp
qed

lemma lock_get_row_txns_ok:
  assumes "row_txns_ok n s" "t < n" "t \<notin> txns_in (waiters s)" "t \<notin> txns_in (owners s)"
    and "lock_get alg n type t s T = Inr (rc, ids, s', T')"
  shows "row_txns_ok n s'"
  using assms(5)
  by (cases rule: lock_get_cases) (use assms(1-4) in \<open>auto simp: row_txns_ok_def txns_in_def\<close>)

lemma lock_get_sys_inv:
  assumes inv: "lock_sys_inv alg n S"
    and guard: "t < n" "\<not> waiting S t" "t \<notin> txns_in (owners (rows S r))"
    and type: "type \<noteq> LOCK_NONE"
    and ret: "lock_get alg n type t (rows S r) (txns S) = Inr (rc, ids, s', T')"
  shows "lock_sys_inv alg n (S\<lparr>rows := (rows S)(r := s'), txns := T'\<rparr>)"
proof -
  note fr = lock_get_frame [OF ret] and D = lock_sys_invD [OF inv]
  have new: "t \<notin> txns_in (waiters (rows S r'))" for r'
    using guard(2) by (simp add: waiting_def)
  show ?thesis
  proof (rule lock_sys_inv_update [OF inv])
    show "lock_inv alg s' T'"
      by (rule lock_get_inv [OF D(1) ret type]) (use new [of r] in \<open>simp add: txns_in_def\<close>)
    show "lock_inv alg (rows S r') T'" for r'
      by (rule lock_inv_cong [OF D(1)]) (use fr in blast)+
    show "row_txns_ok n s'"
      by (rule lock_get_row_txns_ok [OF D(2) guard(1) new guard(3) ret])
    show "txns_in (waiters s') \<inter> txns_in (waiters (rows S r')) = {}" if "r' \<noteq> r" for r'
      using D(3) [OF that] fr new [of r'] by blast
    show "ts_of T' = ts_of (txns S)" using fr by (simp add: fun_eq_iff)
  qed
qed

lemma entry_removed_sub:
  "entry_removed t s s1 \<Longrightarrow>
     txns_in (owners s1) \<subseteq> txns_in (owners s) \<and> txns_in (waiters s1) \<subseteq> txns_in (waiters s) \<and>
     (distinct (map le_txn (owners s)) \<longrightarrow> distinct (map le_txn (owners s1))) \<and>
     (distinct (map le_txn (waiters s)) \<longrightarrow> distinct (map le_txn (waiters s1)))"
  by (auto simp: entry_removed_def txns_in_def split: if_splits)

text \<open>The effect of a release on who owns and who waits.\<close>

lemma lock_release_row_txns_ok:
  assumes ok: "row_txns_ok n s" and dist: "distinct (map le_txn (waiters s))"
    and rem: "entry_removed t s s1" and "waiters s1 = gs @ waiters s'" "owners s' = rev gs @ owners s1"
  shows "row_txns_ok n s'" and "txns_in gs \<union> txns_in (waiters s') \<subseteq> txns_in (waiters s)"
proof -
  note sub = entry_removed_sub [OF rem]
  show grants: "txns_in gs \<union> txns_in (waiters s') \<subseteq> txns_in (waiters s)"
    using sub assms(4) by auto
  have "distinct (map le_txn (gs @ waiters s'))" using sub dist assms(4) by simp
  then have "distinct (map le_txn gs)" "txns_in gs \<inter> txns_in (waiters s') = {}"
    by (simp_all only: distinct_txns_append)
  moreover have "txns_in gs \<inter> txns_in (owners s1) = {}"
    using ok sub grants unfolding row_txns_ok_def by blast
  moreover have "distinct (map le_txn (rev gs)) = distinct (map le_txn gs)"
    by (simp flip: rev_map)
  ultimately show "row_txns_ok n s'"
    using ok sub grants unfolding row_txns_ok_def assms(5) distinct_txns_append txns_in_simps by blast
qed

lemma lock_release_sys_inv:
  assumes inv: "lock_sys_inv alg n S"
    and mem: "t \<in> txns_in (owners (rows S r)) \<or> t \<in> txns_in (waiters (rows S r))"
    and ret: "lock_release t (rows S r) (txns S) = Inr (rc, s', T')"
  shows "lock_sys_inv alg n (S\<lparr>rows := (rows S)(r := s'), txns := T'\<rparr>)"
proof -
  note D = lock_sys_invD [OF inv]
  obtain s1 gs where rel: "lock_inv alg s' T'" "entry_removed t (rows S r) s1"
      "waiters s1 = gs @ waiters s'" "owners s' = rev gs @ owners s1"
      "\<forall>u. timestamp (T' u) = timestamp (txns S u) \<and> txn_id (T' u) = txn_id (txns S u)"
      "\<forall>u. lock_ready (T' u) = (lock_ready (txns S u) \<or> u \<in> txns_in gs)"
    using lock_release_spec [OF D(1) mem [unfolded txns_in_def]] ret by (auto simp: txns_in_def)
  have dist: "distinct (map le_txn (waiters (rows S r)))" using D(1) [of r] by (simp add: lock_inv_defs)
  note ok = lock_release_row_txns_ok [OF D(2) dist rel(2-4)]
  show ?thesis
  proof (rule lock_sys_inv_update [OF inv rel(1) _ ok(1)])
    show "lock_inv alg (rows S r') T'" if "r' \<noteq> r" for r'
      by (rule lock_inv_cong [OF D(1)]) (use rel(5,6) ok(2) D(3) [OF that] in blast)+
    show "txns_in (waiters s') \<inter> txns_in (waiters (rows S r')) = {}" if "r' \<noteq> r" for r'
      using D(3) [OF that] ok(2) by blast
    show "ts_of T' = ts_of (txns S)" using rel(5) by (simp add: fun_eq_iff)
  qed
qed

lemma begin_txn_sys_inv:
  assumes "lock_sys_inv alg n S" "t < n" "\<not> waiting S t" "\<not> holding S t"
    "\<forall>u<n. u \<noteq> t \<longrightarrow> ts_of (txns S) u \<noteq> ts"
  shows "lock_sys_inv alg n (S\<lparr>txns := (txns S)(t := (txns S t)\<lparr>timestamp := ts, txn_id := i\<rparr>)\<rparr>)"
proof (rule lock_sys_inv_txns [OF assms(1)])
  show "inj_on (ts_of ((txns S)(t := (txns S t)\<lparr>timestamp := ts, txn_id := i\<rparr>))) {..<n}"
    using lock_sys_invD(4) [OF assms(1)] assms(5) by (auto simp: inj_on_def)
qed (use assms(3,4) in auto)

lemma abort_flag_sys_inv:
  assumes "lock_sys_inv alg n S"
  shows "lock_sys_inv alg n (S\<lparr>txns := (txns S)(t := (txns S t)\<lparr>lock_abort := b\<rparr>)\<rparr>)"
proof (rule lock_sys_inv_txns [OF assms])
  have "ts_of ((txns S)(t := (txns S t)\<lparr>lock_abort := b\<rparr>)) = ts_of (txns S)"
    by (simp add: fun_eq_iff)
  then show "inj_on (ts_of ((txns S)(t := (txns S t)\<lparr>lock_abort := b\<rparr>))) {..<n}"
    using lock_sys_invD(4) [OF assms] by simp
qed auto

interpretation lsys: transition_system "lock_sys_init n" "lock_step alg n" "lock_sys_inv alg n" for alg n
proof unfold_locales
  fix S :: lock_sys
  assume "lock_sys_init n S"
  then have r: "rows S r = Row_lock_init" and i: "inj_on (ts_of (txns S)) {..<n}" for r
    unfolding lock_sys_init_def by blast+
  have "waiters Row_lock_init = []" "row_txns_ok n Row_lock_init"
    by (simp_all add: Row_lock_init_def row_txns_ok_def)
  then show "lock_sys_inv alg n S"
    unfolding lock_sys_inv_def r using i lock_inv_init by simp
next
  fix S S' :: lock_sys
  assume inv: "lock_sys_inv alg n S" and "lock_step alg n S S'"
  from this(2) show "lock_sys_inv alg n S'"
  proof cases
    case (acquire t r type rc ids s' T')
    show ?thesis unfolding acquire(1) by (rule lock_get_sys_inv [OF inv acquire(2-6)])
  next
    case (release t r rc s' T')
    show ?thesis unfolding release(1) by (rule lock_release_sys_inv [OF inv release(2-3)])
  next
    case (begin_txn t ts i)
    show ?thesis unfolding begin_txn(1) by (rule begin_txn_sys_inv [OF inv begin_txn(2-5)])
  next
    case (abort_flag t b)
    show ?thesis unfolding abort_flag(1) by (rule abort_flag_sys_inv [OF inv])
  qed
qed

subsection \<open>An example run\<close>

text \<open>Three threads under \<^verbatim>\<open>WAIT_DIE\<close>: transactions 1 and 2 read row 0, the older
  transaction 0 then asks to write it and waits.\<close>

definition demo_txns :: txn_tab where
  "demo_txns t = \<lparr>thd_id = t, txn_id = of_nat t, timestamp = of_nat t, cur_row = 0, lock_ready = False,
     lock_abort = False, ts_ready = False, ready_part = 0, start_ts = 0, end_ts = 0, vll_txn_type = VLL_Free\<rparr>"

definition demo_row :: "LockEntry list \<Rightarrow> LockEntry list \<Rightarrow> Row_lock" where
  "demo_row os ws = \<lparr>lock_type = (if os = [] then LOCK_NONE else le_type (hd os)),
     owner_cnt = length os, waiter_cnt = length ws, owners = os, waiters = ws\<rparr>"

definition demo_sys :: "LockEntry list \<Rightarrow> LockEntry list \<Rightarrow> lock_sys" where
  "demo_sys os ws = \<lparr>rows = (\<lambda>_. Row_lock_init)(0 := demo_row os ws), txns = demo_txns\<rparr>"

abbreviation demo_rd :: "txn_ptr \<Rightarrow> LockEntry" where
  "demo_rd t \<equiv> \<lparr>le_type = LOCK_SH, le_txn = t\<rparr>"

abbreviation demo_wr :: "txn_ptr \<Rightarrow> LockEntry" where
  "demo_wr t \<equiv> \<lparr>le_type = LOCK_EX, le_txn = t\<rparr>"

lemma demo_set_lock_ready: "set_lock_ready False t demo_txns = demo_txns"
  by (auto simp: set_lock_ready_def demo_txns_def)

lemma demo_init: "lock_sys_init 3 (demo_sys [] [])"
  by (auto simp: lock_sys_init_def demo_sys_def demo_row_def Row_lock_init_def inj_on_def demo_txns_def
      lessThan_Suc numeral_3_eq_3)

lemma demo_step:
  assumes "t < 3" "t \<notin> txns_in os" "type \<noteq> LOCK_NONE"
    "lock_get WAIT_DIE 3 type t (demo_row os []) demo_txns = Inr (rc, ids, demo_row os' ws', demo_txns)"
  shows "lock_step WAIT_DIE 3 (demo_sys os []) (demo_sys os' ws')"
proof -
  have "lock_step WAIT_DIE 3 (demo_sys os []) ((demo_sys os [])\<lparr>rows := (rows (demo_sys os []))(0 := demo_row os' ws'), txns := demo_txns\<rparr>)"
    by (rule lock_step.acquire [where t = t and r = 0 and type = type])
      (use assms in \<open>auto simp: demo_sys_def waiting_def demo_row_def Row_lock_init_def\<close>)
  then show ?thesis by (simp add: demo_sys_def)
qed

lemma demo_run: "(lock_step WAIT_DIE 3)\<^sup>*\<^sup>* (demo_sys [] []) (demo_sys [demo_rd 2, demo_rd 1] [demo_wr 0])"
proof -
  have "lock_step WAIT_DIE 3 (demo_sys [] []) (demo_sys [demo_rd 1] [])"
    by (rule demo_step [where t = 1 and type = LOCK_SH])
      (auto simp: lock_get_def demo_row_def conflict_lock_def Let_def)
  moreover have "lock_step WAIT_DIE 3 (demo_sys [demo_rd 1] []) (demo_sys [demo_rd 2, demo_rd 1] [])"
    by (rule demo_step [where t = 2 and type = LOCK_SH])
      (auto simp: lock_get_def demo_row_def conflict_lock_def Let_def)
  moreover have "lock_step WAIT_DIE 3 (demo_sys [demo_rd 2, demo_rd 1] []) (demo_sys [demo_rd 2, demo_rd 1] [demo_wr 0])"
    by (rule demo_step [where t = 0 and type = LOCK_EX])
      (auto simp: lock_get_def demo_row_def conflict_lock_def Let_def demo_set_lock_ready, auto simp: demo_txns_def)
  ultimately show ?thesis by (meson converse_rtranclp_into_rtranclp rtranclp.rtrancl_refl)
qed

subsection \<open>What the clients rely on\<close>

lemma row_waits_for_txns:
  "(t, u) \<in> row_waits_for s \<Longrightarrow>
     t \<in> txns_in (waiters s) \<and> u \<in> txns_in (waiters s) \<union> txns_in (owners s)"
  by (auto simp: row_waits_for_def intro: txns_in_nth txns_in_set)

lemma wait_die_waits_younger:
  assumes inv: "lock_sys_inv WAIT_DIE n S" and edge: "(t, u) \<in> waits_for S"
  shows "ts_of (txns S) t < ts_of (txns S) u"
proof -
  obtain r where r: "(t, u) \<in> row_waits_for (rows S r)"
    using edge by (auto simp: waits_for_def)
  have lock: "lock_inv WAIT_DIE (rows S r) (txns S)" by (rule lock_sys_invD(1) [OF inv])
  then have le: "ts_of (txns S) t \<le> ts_of (txns S) u"
    using r by (auto simp: row_waits_for_def lock_inv_defs wait_die_ordered_def sorted_wrt_iff_nth_less)
  have "t \<noteq> u"
    using r
  proof (cases "\<exists>w ow. t = le_txn w \<and> u = le_txn ow \<and> w \<in> set (waiters (rows S r)) \<and> ow \<in> set (owners (rows S r))")
    case True
    with lock_sys_invD(2) [OF inv, of r] show ?thesis by (auto simp: row_txns_ok_def txns_in_def)
  next
    case False
    with r obtain i j where ij: "i < j" "j < length (waiters (rows S r))"
      "t = map le_txn (waiters (rows S r)) ! j" "u = map le_txn (waiters (rows S r)) ! i"
      by (auto simp: row_waits_for_def)
    moreover have "distinct (map le_txn (waiters (rows S r)))" using lock by (simp add: lock_inv_defs)
    ultimately show ?thesis using nth_eq_iff_index_eq by fastforce
  qed
  moreover have "t < n" "u < n"
    using row_waits_for_txns [OF r] lock_sys_invD(2) [OF inv, of r] unfolding row_txns_ok_def by auto
  ultimately show ?thesis
    using lock_sys_invD(4) [OF inv] le by (auto simp: inj_on_def order.order_iff_strict)
qed

text \<open>C2: under \<^verbatim>\<open>WAIT_DIE\<close> no interleaving of lock requests, releases and transaction starts
  leads to a deadlock: in every reachable state the waits-for relation over all rows (a waiter waits
  for the owners of its row and for the waiters ahead of it) has no cycle.\<close>

theorem wait_die_deadlock_free:
  assumes "lock_sys_init n S0" and "(lock_step WAIT_DIE n)\<^sup>*\<^sup>* S0 S"
  shows "acyclic (waits_for S)"
proof -
  have "lock_sys_inv WAIT_DIE n S" using assms by (rule lsys.reachable_inv)
  then show ?thesis
    by (intro acyclic_by_rank [where rank = "ts_of (txns S)"] wait_die_waits_younger)
qed

theorem wait_die_deadlock_free_witness:
  "\<exists>S. (lock_step WAIT_DIE 3)\<^sup>*\<^sup>* (demo_sys [] []) S \<and> (0, 1) \<in> waits_for S \<and> acyclic (waits_for S)"
proof (intro exI conjI)
  let ?S = "demo_sys [demo_rd 2, demo_rd 1] [demo_wr 0]"
  show "(lock_step WAIT_DIE 3)\<^sup>*\<^sup>* (demo_sys [] []) ?S" by (rule demo_run)
  show "acyclic (waits_for ?S)" by (rule wait_die_deadlock_free [OF demo_init demo_run])
  have "(0, 1) \<in> row_waits_for (rows ?S 0)"
    by (auto simp: row_waits_for_def demo_sys_def demo_row_def, rule exI [of _ "demo_rd 1"], simp)
  then show "(0, 1) \<in> waits_for ?S" by (auto simp: waits_for_def)
qed

text \<open>C12: mutual exclusion. Whatever the algorithm, in every reachable state two different owners
  of a row both hold it in shared mode, and the counters agree with the lists.\<close>

theorem lock_mutual_exclusion:
  assumes "lock_sys_init n S0" and "(lock_step alg n)\<^sup>*\<^sup>* S0 S"
  shows "(i < length (owners (rows S r)) \<and> j < length (owners (rows S r)) \<and> i \<noteq> j \<longrightarrow>
           le_type (owners (rows S r) ! i) = LOCK_SH \<and> le_type (owners (rows S r) ! j) = LOCK_SH) \<and>
     owner_cnt (rows S r) = length (owners (rows S r)) \<and>
     waiter_cnt (rows S r) = length (waiters (rows S r))"
proof (intro conjI)
  have inv: "lock_inv alg (rows S r) (txns S)"
    using lock_sys_invD(1) [OF lsys.reachable_inv [OF assms]] .
  show "owner_cnt (rows S r) = length (owners (rows S r))"
    and "waiter_cnt (rows S r) = length (waiters (rows S r))"
    using inv by (simp_all add: lock_inv_defs)
  show "i < length (owners (rows S r)) \<and> j < length (owners (rows S r)) \<and> i \<noteq> j \<longrightarrow>
           le_type (owners (rows S r) ! i) = LOCK_SH \<and> le_type (owners (rows S r) ! j) = LOCK_SH"
  proof
    assume ij: "i < length (owners (rows S r)) \<and> j < length (owners (rows S r)) \<and> i \<noteq> j"
    then have "lock_type (rows S r) \<noteq> LOCK_NONE" "lock_type (rows S r) \<noteq> LOCK_EX"
      using inv by (auto simp: lock_inv_defs)
    then have "lock_type (rows S r) = LOCK_SH" by (cases "lock_type (rows S r)") auto
    with inv ij show "le_type (owners (rows S r) ! i) = LOCK_SH \<and> le_type (owners (rows S r) ! j) = LOCK_SH"
      by (auto simp: lock_inv_defs)
  qed
qed

theorem lock_mutual_exclusion_witness:
  "le_type (owners (rows (demo_sys [demo_rd 2, demo_rd 1] [demo_wr 0]) 0) ! 0) = LOCK_SH \<and>
   owner_cnt (rows (demo_sys [demo_rd 2, demo_rd 1] [demo_wr 0]) 0) = 2"
  using lock_mutual_exclusion [OF demo_init demo_run, of 0 0 1]
  by (simp add: demo_sys_def demo_row_def)

text \<open>C14: no lost wake-up. In every reachable state, if some transaction waits on a row then the
  row has an owner whose lock conflicts with the first waiter: nobody waits who could be granted,
  and every waiter still has its ready flag down.\<close>

theorem lock_no_lost_wakeup:
  assumes "lock_sys_init n S0" and "(lock_step alg n)\<^sup>*\<^sup>* S0 S" and "waiters (rows S r) \<noteq> []"
  shows "owners (rows S r) \<noteq> [] \<and>
     conflict_lock (le_type (hd (owners (rows S r)))) (le_type (hd (waiters (rows S r)))) \<and>
     (\<forall>w\<in>set (waiters (rows S r)). \<not> lock_ready (txns S (le_txn w)))"
proof -
  have inv: "lock_inv alg (rows S r) (txns S)"
    using lock_sys_invD(1) [OF lsys.reachable_inv [OF assms(1,2)]] .
  then have "conflict_lock (lock_type (rows S r)) (le_type (hd (waiters (rows S r))))"
    using assms(3) by (simp add: lock_inv_defs)
  moreover from this inv have "owners (rows S r) \<noteq> []" by (auto simp: lock_inv_defs conflict_lock_cases)
  ultimately show ?thesis using inv by (auto simp: lock_inv_defs)
qed

theorem lock_no_lost_wakeup_witness:
  "conflict_lock LOCK_SH LOCK_EX \<and> \<not> lock_ready (txns (demo_sys [demo_rd 2, demo_rd 1] [demo_wr 0]) 0)"
  using lock_no_lost_wakeup [OF demo_init demo_run, of 0]
  by (simp add: demo_sys_def demo_row_def)

lemma card_txns_in: "distinct (map le_txn ens) \<Longrightarrow> card (txns_in ens) = length ens"
  unfolding txns_in_def by (metis distinct_card length_map list.set_map)

text \<open>The entries of a row and the requesting transaction are different threads.\<close>

lemma lock_counts_bounded:
  assumes "row_txns_ok n s" "lock_inv alg s T" "t < n" "t \<notin> txns_in (waiters s)" "t \<notin> txns_in (owners s)"
  shows "owner_cnt s < n" "waiter_cnt s < n"
proof -
  have len: "length ens < n"
    if "txns_in ens \<subseteq> {..<n}" "t \<notin> txns_in ens" "distinct (map le_txn ens)" for ens
    using psubset_card_mono [of "{..<n}" "txns_in ens"] that assms(3) card_txns_in [OF that(3)] by auto
  have "txns_in (waiters s) \<subseteq> {..<n}" "txns_in (owners s) \<subseteq> {..<n}" "distinct (map le_txn (owners s))"
    using assms(1) unfolding row_txns_ok_def by blast+
  moreover have "owner_cnt s = length (owners s)" "waiter_cnt s = length (waiters s)"
      "distinct (map le_txn (waiters s))"
    using assms(2) unfolding lock_inv_defs by blast+
  ultimately show "owner_cnt s < n" "waiter_cnt s < n"
    using len assms(4,5) by simp_all
qed

text \<open>C17: no assertion of the lock manager can fail. In every reachable state a request for a row by
  a transaction that does not wait and does not own the row returns, and a release by a transaction
  that owns the row or waits for it returns \<^verbatim>\<open>RCOK\<close>.\<close>

theorem lock_ops_never_fault:
  assumes "lock_sys_init n S0" and "(lock_step alg n)\<^sup>*\<^sup>* S0 S" and "alg \<in> {NO_WAIT, WAIT_DIE, DL_DETECT}"
  shows "(t < n \<and> \<not> waiting S t \<and> t \<notin> txns_in (owners (rows S r)) \<and> type \<noteq> LOCK_NONE \<longrightarrow>
           (\<exists>rc ids s' T'. lock_get alg n type t (rows S r) (txns S) = Inr (rc, ids, s', T'))) \<and>
     (t \<in> txns_in (owners (rows S r)) \<union> txns_in (waiters (rows S r)) \<longrightarrow>
           (\<exists>s' T'. lock_release t (rows S r) (txns S) = Inr (RCOK, s', T')))"
proof (intro conjI impI)
  note D = lock_sys_invD [OF lsys.reachable_inv [OF assms(1,2)]]
  show "\<exists>rc ids s' T'. lock_get alg n type t (rows S r) (txns S) = Inr (rc, ids, s', T')"
    if "t < n \<and> \<not> waiting S t \<and> t \<notin> txns_in (owners (rows S r)) \<and> type \<noteq> LOCK_NONE"
  proof -
    have "t \<notin> txns_in (waiters (rows S r))" using that by (simp add: waiting_def)
    then have "owner_cnt (rows S r) < n" "waiter_cnt (rows S r) < n"
      using that lock_counts_bounded [OF D(2) D(1)] by blast+
    then show ?thesis using that by (intro lock_get_total [OF D(1) assms(3)]) simp_all
  qed
  show "\<exists>s' T'. lock_release t (rows S r) (txns S) = Inr (RCOK, s', T')"
    if "t \<in> txns_in (owners (rows S r)) \<union> txns_in (waiters (rows S r))"
    using lock_release_spec [OF D(1) that [unfolded txns_in_def Un_iff]] by blast
qed

theorem lock_ops_never_fault_witness:
  "\<exists>s' T'. lock_release 1 (rows (demo_sys [demo_rd 2, demo_rd 1] [demo_wr 0]) 0)
     (txns (demo_sys [demo_rd 2, demo_rd 1] [demo_wr 0])) = Inr (RCOK, s', T')"
  using lock_ops_never_fault [OF demo_init demo_run, of 1 0 LOCK_SH]
  by (simp add: demo_sys_def demo_row_def)

text \<open>a transaction that already holds a row in shared mode and asks to write it is put to wait
  for itself under \<^verbatim>\<open>WAIT_DIE\<close>: the code lets it wait unless some owner has a strictly smaller
  timestamp, and its own entry does not, although the comment above the loop asks for a timestamp
  strictly smaller than that of all owners.\<close>

theorem wait_die_upgrade_self_wait:
  fixes s :: Row_lock and T :: txn_tab
  assumes "0 < n"
    and "s = \<lparr>lock_type = LOCK_SH, owner_cnt = 1, waiter_cnt = 0,
              owners = [\<lparr>le_type = LOCK_SH, le_txn = t\<rparr>], waiters = []\<rparr>"
  shows "\<exists>s' T'. lock_get WAIT_DIE n LOCK_EX t s T = Inr (WAIT, [], s', T') \<and>
           (t, t) \<in> row_waits_for s'"
  using assms by (auto simp: lock_get_def conflict_lock_def Let_def row_waits_for_def)

theorem wait_die_upgrade_self_wait_witness:
  "\<exists>s' T'. lock_get WAIT_DIE 4 LOCK_EX 7
     \<lparr>lock_type = LOCK_SH, owner_cnt = 1, waiter_cnt = 0,
      owners = [\<lparr>le_type = LOCK_SH, le_txn = 7\<rparr>], waiters = []\<rparr> demo_txns = Inr (WAIT, [], s', T') \<and>
     (7, 7) \<in> row_waits_for s'"
  by (rule wait_die_upgrade_self_wait) simp_all

end
