(* ===== verification/Plock.thy ===== *)
theory Plock
  imports Base
begin

text \<open>
  Partition-level locking for \<^verbatim>\<open>HSTORE\<close>, \<^verbatim>\<open>concurrency_control/plock.cpp\<close>: the per-partition
  manager \<^verbatim>\<open>PartMan\<close> with its owner and its array of waiters, and \<^verbatim>\<open>Plock\<close>, which takes the
  partitions of a transaction in order and gives all of them back when one request aborts. The
  array is a list of \<^verbatim>\<open>g_thread_cnt\<close> slots of which the first \<^verbatim>\<open>waiter_cnt\<close> are in use; the
  loops shift its elements exactly as the code does.
\<close>

subsection \<open>The partition manager\<close>

record PartMan =
  owner :: "txn_ptr option"
  pm_waiters :: "txn_ptr list"
  pm_waiter_cnt :: nat

definition PartMan_init :: "nat \<Rightarrow> PartMan" where
  "PartMan_init g_thread_cnt =
     \<lparr>owner = None, pm_waiters = replicate g_thread_cnt 0, pm_waiter_cnt = 0\<rparr>"

definition add_ready_part :: "int \<Rightarrow> txn_ptr \<Rightarrow> txn_tab \<Rightarrow> txn_tab" where
  "add_ready_part d t T = T(t := (T t)\<lparr>ready_part := ready_part (T t) + d\<rparr>)"

lemma add_ready_part_sel [simp]:
  "timestamp (add_ready_part d t T u) = timestamp (T u)"
  "ready_part (add_ready_part d t T u) = (if u = t then ready_part (T u) + d else ready_part (T u))"
  by (auto simp: add_ready_part_def)

text \<open>The insertion loop \<^verbatim>\<open>for (i = waiter_cnt; i > 0; i--)\<close>: shift the waiters with a larger
  timestamp one slot up, then store the transaction.\<close>

fun insert_slot :: "txn_tab \<Rightarrow> txn_ptr \<Rightarrow> nat \<Rightarrow> txn_ptr list \<Rightarrow> txn_ptr list" where
  "insert_slot T txn 0 ws = ws[0 := txn]"
| "insert_slot T txn (Suc i) ws =
     (if ts_of T (ws ! i) < ts_of T txn then ws[Suc i := txn]
      else insert_slot T txn i (ws[Suc i := ws ! i]))"

definition PartMan_lock ::
  "nat \<Rightarrow> txn_ptr \<Rightarrow> PartMan \<Rightarrow> txn_tab \<Rightarrow> fault + (RC \<times> PartMan \<times> txn_tab)" where
  "PartMan_lock g_thread_cnt txn p T =
     (case owner p of
        None \<Rightarrow> Inr (RCOK, p\<lparr>owner := Some txn\<rparr>, T)
      | Some ow \<Rightarrow>
          if ts_of T ow < ts_of T txn then
            bindE (assert_that (pm_waiter_cnt p < g_thread_cnt)) (\<lambda>_.
            Inr (WAIT, p\<lparr>pm_waiters := insert_slot T txn (pm_waiter_cnt p) (pm_waiters p),
                         pm_waiter_cnt := pm_waiter_cnt p + 1\<rparr>, add_ready_part 1 txn T))
          else Inr (Abort, p, T))"

text \<open>The loop of \<^verbatim>\<open>unlock\<close> that moves every waiter one slot down, checking the order; \<open>k\<close> is
  the number of iterations left and \<open>i\<close> the loop variable.\<close>

fun shift_down :: "txn_tab \<Rightarrow> nat \<Rightarrow> nat \<Rightarrow> txn_ptr list \<Rightarrow> fault + txn_ptr list" where
  "shift_down T 0 i ws = Inr ws"
| "shift_down T (Suc k) i ws =
     bindE (assert_that (ts_of T (ws ! i) < ts_of T (ws ! Suc i))) (\<lambda>_.
     shift_down T k (Suc i) (ws[i := ws ! Suc i]))"

text \<open>The loop that looks for a waiter and closes the gap it leaves.\<close>

fun remove_slot :: "txn_ptr \<Rightarrow> nat \<Rightarrow> nat \<Rightarrow> nat \<Rightarrow> bool \<Rightarrow> txn_ptr list \<Rightarrow> bool \<times> txn_ptr list" where
  "remove_slot txn cnt 0 i found ws = (found, ws)"
| "remove_slot txn cnt (Suc k) i found ws =
     (let found = (if ws ! i = txn then True else found)
      in remove_slot txn cnt k (Suc i) found
           (if found \<and> i < cnt - 1 then ws[i := ws ! Suc i] else ws))"

definition PartMan_unlock :: "txn_ptr \<Rightarrow> PartMan \<Rightarrow> txn_tab \<Rightarrow> fault + (PartMan \<times> txn_tab)" where
  "PartMan_unlock txn p T =
     (if owner p = Some txn then
        if pm_waiter_cnt p = 0 then Inr (p\<lparr>owner := None\<rparr>, T)
        else
          bindE (shift_down T (pm_waiter_cnt p - 1) 0 (pm_waiters p)) (\<lambda>ws.
          let ow = pm_waiters p ! 0 in
          Inr (p\<lparr>owner := Some ow, pm_waiters := ws, pm_waiter_cnt := pm_waiter_cnt p - 1\<rparr>,
               add_ready_part (- 1) ow T))
      else
        (let (found, ws) = remove_slot txn (pm_waiter_cnt p) (pm_waiter_cnt p) 0 False (pm_waiters p)
         in bindE (assert_that found) (\<lambda>_.
            Inr (p\<lparr>pm_waiters := ws, pm_waiter_cnt := pm_waiter_cnt p - 1\<rparr>,
                 add_ready_part (- 1) txn T))))"

subsection \<open>The lock of all partitions\<close>

type_synonym part_tab = "nat \<Rightarrow> PartMan"

definition Plock_init :: "nat \<Rightarrow> part_tab" where
  "Plock_init g_thread_cnt = (\<lambda>_. PartMan_init g_thread_cnt)"

text \<open>The acquisition loop stops at the first abort; the returned list is the partitions already
  requested, in order.\<close>

fun lock_parts ::
  "nat \<Rightarrow> txn_ptr \<Rightarrow> nat list \<Rightarrow> part_tab \<Rightarrow> txn_tab \<Rightarrow> fault + (RC \<times> nat list \<times> part_tab \<times> txn_tab)" where
  "lock_parts n txn [] M T = Inr (RCOK, [], M, T)"
| "lock_parts n txn (p # ps) M T =
     bindE (PartMan_lock n txn (M p) T) (\<lambda>(rc, pm, T1).
     if rc = Abort then Inr (Abort, [], M(p := pm), T1)
     else bindE (lock_parts n txn ps (M(p := pm)) T1) (\<lambda>(rc', got, M', T').
          Inr (rc', p # got, M', T')))"

fun Plock_unlock :: "txn_ptr \<Rightarrow> nat list \<Rightarrow> part_tab \<Rightarrow> txn_tab \<Rightarrow> fault + (part_tab \<times> txn_tab)" where
  "Plock_unlock txn [] M T = Inr (M, T)"
| "Plock_unlock txn (p # ps) M T =
     bindE (PartMan_unlock txn (M p) T) (\<lambda>(pm, T1). Plock_unlock txn ps (M(p := pm)) T1)"

text \<open>\<^verbatim>\<open>Plock::lock\<close> up to the point where the thread spins on \<^verbatim>\<open>ready_part\<close>: an abort gives
  every requested partition back; otherwise the result is \<^verbatim>\<open>RCOK\<close> when no partition is
  outstanding, and \<open>Spinning\<close> (with the requests in place) when the thread has to wait.\<close>

definition Plock_lock ::
  "nat \<Rightarrow> txn_ptr \<Rightarrow> nat list \<Rightarrow> part_tab \<Rightarrow> txn_tab \<Rightarrow> fault + ((fault + RC) \<times> part_tab \<times> txn_tab)" where
  "Plock_lock n txn parts M T =
     bindE (lock_parts n txn parts M T) (\<lambda>(rc, got, M1, T1).
     if rc = Abort then
       bindE (Plock_unlock txn got M1 T1) (\<lambda>(M2, T2).
       bindE (assert_that (ready_part (T2 txn) = 0)) (\<lambda>_.
       Inr (Inr Abort, M2, T2)))
     else if ready_part (T1 txn) > 0 then Inr (Inl Spinning, M1, T1)
     else bindE (assert_that (ready_part (T1 txn) = 0)) (\<lambda>_. Inr (Inr RCOK, M1, T1)))"

subsection \<open>The array loops as list operations\<close>

definition pm_queue :: "PartMan \<Rightarrow> txn_ptr list" where
  "pm_queue p = take (pm_waiter_cnt p) (pm_waiters p)"

definition queue_insert :: "txn_tab \<Rightarrow> txn_ptr \<Rightarrow> txn_ptr list \<Rightarrow> txn_ptr list" where
  "queue_insert T txn xs =
     rev (dropWhile (\<lambda>w. \<not> ts_of T w < ts_of T txn) (rev xs)) @ txn #
     rev (takeWhile (\<lambda>w. \<not> ts_of T w < ts_of T txn) (rev xs))"

lemma queue_insert_Nil [simp]: "queue_insert T txn [] = [txn]"
  by (simp add: queue_insert_def)

lemma queue_insert_snoc:
  "queue_insert T txn (xs @ [w]) =
     (if ts_of T w < ts_of T txn then xs @ [w, txn] else queue_insert T txn xs @ [w])"
  by (simp add: queue_insert_def)

lemma set_queue_insert [simp]: "set (queue_insert T txn xs) = insert txn (set xs)"
  by (induction xs rule: rev_induct) (auto simp: queue_insert_snoc)

lemma length_queue_insert [simp]: "length (queue_insert T txn xs) = Suc (length xs)"
  by (induction xs rule: rev_induct) (auto simp: queue_insert_snoc)

lemma sorted_queue_insert:
  "sorted_wrt (\<lambda>a b. ts_of T a < ts_of T b) xs \<Longrightarrow> \<forall>x\<in>set xs. ts_of T x \<noteq> ts_of T txn \<Longrightarrow>
   sorted_wrt (\<lambda>a b. ts_of T a < ts_of T b) (queue_insert T txn xs)"
  by (induction xs rule: rev_induct)
    (auto simp: queue_insert_snoc sorted_wrt_append not_less order.order_iff_strict intro: less_trans)

lemma remove1_queue_insert: "txn \<notin> set xs \<Longrightarrow> remove1 txn (queue_insert T txn xs) = xs"
  by (induction xs rule: rev_induct) (auto simp: queue_insert_snoc remove1_append)

lemma insert_slot_spec:
  "i < length ws \<Longrightarrow>
     length (insert_slot T txn i ws) = length ws \<and>
     take (Suc i) (insert_slot T txn i ws) = queue_insert T txn (take i ws) \<and>
     drop (Suc i) (insert_slot T txn i ws) = drop (Suc i) ws"
proof (induction T txn i ws rule: insert_slot.induct)
  case (1 T txn ws)
  then show ?case by (cases ws) auto
next
  case (2 T txn i ws)
  have t: "take (Suc i) ws = take i ws @ [ws ! i]"
    using "2.prems" by (simp add: take_Suc_conv_app_nth)
  show ?case
  proof (cases "ts_of T (ws ! i) < ts_of T txn")
    case True
    with "2.prems" t show ?thesis
      by (simp add: queue_insert_snoc take_Suc_conv_app_nth)
  next
    case False
    let ?ws = "ws[Suc i := ws ! i]"
    have IH: "length (insert_slot T txn i ?ws) = length ws"
      "take (Suc i) (insert_slot T txn i ?ws) = queue_insert T txn (take i ws)"
      "drop (Suc i) (insert_slot T txn i ?ws) = drop (Suc i) ?ws"
      using "2.IH" [OF False] "2.prems" by simp_all
    have "insert_slot T txn i ?ws ! Suc i = ws ! i"
      using IH(1,3) "2.prems"
      by (metis Cons_nth_drop_Suc length_list_update list.inject nth_list_update_eq)
    moreover have "drop (Suc (Suc i)) (insert_slot T txn i ?ws) = drop (Suc (Suc i)) ws"
      using arg_cong [OF IH(3), of "drop 1"] by (simp only: drop_drop plus_1_eq_Suc) simp
    ultimately show ?thesis
      using False IH(1,2) "2.prems" t by (simp add: take_Suc_conv_app_nth queue_insert_snoc)
  qed
qed

lemma shift_down_spec:
  "i + k < length ws \<Longrightarrow> sorted_wrt (\<lambda>a b. ts_of T a < ts_of T b) (take (Suc k) (drop i ws)) \<Longrightarrow>
     \<exists>ws'. shift_down T k i ws = Inr ws' \<and> length ws' = length ws \<and>
       take (i + k) ws' = take i ws @ take k (drop (Suc i) ws)"
proof (induction T k i ws rule: shift_down.induct)
  case (1 T i ws)
  then show ?case by simp
next
  case (2 T k i ws)
  have d: "drop i ws = ws ! i # ws ! Suc i # drop (Suc (Suc i)) ws"
    using "2.prems"(1) by (simp add: Cons_nth_drop_Suc)
  let ?ws = "ws[i := ws ! Suc i]"
  have "ts_of T (ws ! i) < ts_of T (ws ! Suc i)"
    using "2.prems"(2) by (simp add: d)
  moreover have "drop (Suc i) ?ws = drop (Suc i) ws" by simp
  moreover have "drop i ws = ws ! i # drop (Suc i) ws"
    using "2.prems"(1) by (simp add: Cons_nth_drop_Suc)
  with "2.prems"(2) have "sorted_wrt (\<lambda>a b. ts_of T a < ts_of T b) (take (Suc k) (drop (Suc i) ws))"
    by simp
  ultimately obtain ws' where "shift_down T k (Suc i) ?ws = Inr ws'" "length ws' = length ws"
      "take (Suc i + k) ws' = take (Suc i) ?ws @ take k (drop (Suc (Suc i)) ws)"
    using "2.IH" [of "()"] "2.prems"(1) by auto
  moreover have "take (Suc i) ?ws = take i ws @ [ws ! Suc i]"
    using "2.prems"(1) by (simp add: take_Suc_conv_app_nth)
  moreover have "take (Suc k) (drop (Suc i) ws) = ws ! Suc i # take k (drop (Suc (Suc i)) ws)"
    using "2.prems"(1) by (simp add: Cons_nth_drop_Suc [symmetric])
  ultimately show ?case using \<open>ts_of T (ws ! i) < ts_of T (ws ! Suc i)\<close> by simp
qed

text \<open>Once the transaction has been found, the rest of the loop moves each element one slot down.\<close>

lemma remove_slot_found:
  "i + k = cnt \<Longrightarrow> cnt \<le> length ws \<Longrightarrow>
     \<exists>ws'. remove_slot txn cnt k i True ws = (True, ws') \<and> length ws' = length ws \<and>
       take (cnt - 1) ws' = take i (take (cnt - 1) ws) @ drop (Suc i) (take cnt ws)"
proof (induction k arbitrary: i ws)
  case 0
  then show ?case by simp
next
  case (Suc k)
  let ?ws = "if i < cnt - 1 then ws[i := ws ! Suc i] else ws"
  have len: "length ?ws = length ws" by simp
  have "Suc i + k = cnt" "cnt \<le> length ?ws" using Suc.prems by simp_all
  from Suc.IH [OF this] obtain ws' where
    ws': "remove_slot txn cnt k (Suc i) True ?ws = (True, ws')" "length ws' = length ws"
      "take (cnt - 1) ws' = take (Suc i) (take (cnt - 1) ?ws) @ drop (Suc (Suc i)) (take cnt ?ws)"
    unfolding len by blast
  have "take (Suc i) (take (cnt - 1) ?ws) @ drop (Suc (Suc i)) (take cnt ?ws)
      = take i (take (cnt - 1) ws) @ drop (Suc i) (take cnt ws)"
  proof (cases "i < cnt - 1")
    case True
    have "drop (Suc i) (take cnt ws) = ws ! Suc i # drop (Suc (Suc i)) (take cnt ws)"
      using True Suc.prems by (simp add: Cons_nth_drop_Suc [symmetric])
    moreover have "take (Suc i) (take (cnt - 1) (ws[i := ws ! Suc i])) = take i (take (cnt - 1) ws) @ [ws ! Suc i]"
      using True Suc.prems by (simp add: take_Suc_conv_app_nth min_def)
    moreover have "drop (Suc (Suc i)) (take cnt (ws[i := ws ! Suc i])) = drop (Suc (Suc i)) (take cnt ws)"
      by (simp add: drop_take)
    ultimately show ?thesis using True by simp
  next
    case False
    with Suc.prems have "cnt = Suc i" by simp
    then show ?thesis by simp
  qed
  with ws' show ?case by simp
qed

lemma remove_slot_search:
  "i + k = cnt \<Longrightarrow> cnt \<le> length ws \<Longrightarrow> txn \<in> set (drop i (take cnt ws)) \<Longrightarrow>
     \<exists>ws'. remove_slot txn cnt k i False ws = (True, ws') \<and> length ws' = length ws \<and>
       take (cnt - 1) ws' = take i ws @ remove1 txn (drop i (take cnt ws))"
proof (induction k arbitrary: i)
  case 0
  then show ?case by simp
next
  case (Suc k)
  have d: "drop i (take cnt ws) = ws ! i # drop (Suc i) (take cnt ws)"
    using Suc.prems by (simp add: Cons_nth_drop_Suc [symmetric])
  show ?case
  proof (cases "ws ! i = txn")
    case True
    then have eq: "remove_slot txn cnt (Suc k) i False ws = remove_slot txn cnt (Suc k) i True ws"
      by simp
    have "take i (take (cnt - 1) ws) = take i ws" using Suc.prems(1) by simp
    with remove_slot_found [OF Suc.prems(1,2), of txn] True show ?thesis
      unfolding eq d by auto
  next
    case False
    with Suc.prems d have "txn \<in> set (drop (Suc i) (take cnt ws))" by simp
    moreover have "take (Suc i) ws = take i ws @ [ws ! i]"
      using Suc.prems by (simp add: take_Suc_conv_app_nth)
    ultimately show ?thesis
      using Suc.IH [of "Suc i"] Suc.prems(1,2) False d by auto
  qed
qed

subsection \<open>Invariant of a partition\<close>

text \<open>The owner is older than every waiter and the waiters are in timestamp order.\<close>

definition part_inv :: "nat \<Rightarrow> PartMan \<Rightarrow> txn_tab \<Rightarrow> bool" where
  "part_inv n p T \<longleftrightarrow>
     length (pm_waiters p) = n \<and> pm_waiter_cnt p \<le> n \<and>
     (case owner p of
        None \<Rightarrow> pm_queue p = []
      | Some ow \<Rightarrow> sorted_wrt (\<lambda>a b. ts_of T a < ts_of T b) (ow # pm_queue p))"

lemma length_pm_queue: "part_inv n p T \<Longrightarrow> length (pm_queue p) = pm_waiter_cnt p"
  by (simp add: part_inv_def pm_queue_def)

lemma part_inv_init: "part_inv n (PartMan_init n) T"
  by (simp add: part_inv_def PartMan_init_def pm_queue_def)

text \<open>What a request does, on every branch.\<close>

lemma PartMan_lock_spec:
  assumes inv: "part_inv n p T" and room: "length (pm_queue p) < n"
    and uniq: "\<forall>w\<in>set (pm_queue p). ts_of T w \<noteq> ts_of T txn"
  shows "\<exists>rc p' T'. PartMan_lock n txn p T = Inr (rc, p', T') \<and> part_inv n p' T' \<and>
     (case owner p of
        None \<Rightarrow> rc = RCOK \<and> owner p' = Some txn \<and> pm_queue p' = [] \<and> T' = T
      | Some ow \<Rightarrow>
          if ts_of T ow < ts_of T txn
          then rc = WAIT \<and> owner p' = Some ow \<and> pm_queue p' = queue_insert T txn (pm_queue p) \<and>
               T' = add_ready_part 1 txn T
          else rc = Abort \<and> p' = p \<and> T' = T)"
proof (cases "owner p")
  case None
  with inv show ?thesis by (auto simp: PartMan_lock_def part_inv_def pm_queue_def)
next
  case (Some ow)
  show ?thesis
  proof (cases "ts_of T ow < ts_of T txn")
    case False
    with Some inv show ?thesis by (simp add: PartMan_lock_def)
  next
    case True
    have cnt: "pm_waiter_cnt p < n" "length (pm_waiters p) = n"
      using room length_pm_queue [OF inv] inv by (auto simp: part_inv_def)
    let ?ws = "insert_slot T txn (pm_waiter_cnt p) (pm_waiters p)"
    have ws: "length ?ws = n" "take (Suc (pm_waiter_cnt p)) ?ws = queue_insert T txn (pm_queue p)"
      using insert_slot_spec [of "pm_waiter_cnt p" "pm_waiters p" T txn] cnt by (auto simp: pm_queue_def)
    have "sorted_wrt (\<lambda>a b. ts_of T a < ts_of T b) (ow # queue_insert T txn (pm_queue p))"
      using inv Some True uniq by (auto simp: part_inv_def intro: sorted_queue_insert)
    with Some True cnt ws show ?thesis
      by (simp add: PartMan_lock_def part_inv_def pm_queue_def)
  qed
qed

text \<open>A release by the owner hands the partition to the oldest waiter.\<close>

lemma PartMan_unlock_owner:
  assumes inv: "part_inv n p T" and own: "owner p = Some txn"
  shows "\<exists>p' T'. PartMan_unlock txn p T = Inr (p', T') \<and> part_inv n p' T' \<and>
     (case pm_queue p of
        [] \<Rightarrow> owner p' = None \<and> pm_queue p' = [] \<and> T' = T
      | w # ws \<Rightarrow> owner p' = Some w \<and> pm_queue p' = ws \<and> T' = add_ready_part (- 1) w T)"
proof (cases "pm_waiter_cnt p")
  case 0
  with inv own show ?thesis by (auto simp: PartMan_unlock_def part_inv_def pm_queue_def)
next
  case (Suc k)
  have len: "k < length (pm_waiters p)" using inv Suc by (simp add: part_inv_def)
  have sorted: "sorted_wrt (\<lambda>a b. ts_of T a < ts_of T b) (take (Suc k) (drop 0 (pm_waiters p)))"
    using inv own Suc by (simp add: part_inv_def pm_queue_def)
  obtain ws' where ws': "shift_down T k 0 (pm_waiters p) = Inr ws'" "length ws' = length (pm_waiters p)"
      "take k ws' = take k (drop (Suc 0) (pm_waiters p))"
    using shift_down_spec [of 0 k "pm_waiters p" T] len sorted by auto
  have q: "pm_queue p = pm_waiters p ! 0 # take k (drop (Suc 0) (pm_waiters p))"
    using Suc len by (cases "pm_waiters p") (auto simp: pm_queue_def)
  let ?p = "p\<lparr>owner := Some (pm_waiters p ! 0), pm_waiters := ws', pm_waiter_cnt := k\<rparr>"
  have "PartMan_unlock txn p T = Inr (?p, add_ready_part (- 1) (pm_waiters p ! 0) T)"
    using own Suc ws'(1) by (simp add: PartMan_unlock_def Let_def)
  moreover have "pm_queue ?p = take k (drop (Suc 0) (pm_waiters p))"
    using ws'(3) by (simp add: pm_queue_def)
  moreover from this have "part_inv n ?p (add_ready_part (- 1) (pm_waiters p ! 0) T)"
    using inv own Suc ws'(2) q by (simp add: part_inv_def)
  ultimately show ?thesis using q by simp
qed

text \<open>A release by a waiter takes it out of the queue.\<close>

lemma PartMan_unlock_waiter:
  assumes inv: "part_inv n p T" and own: "owner p \<noteq> Some txn" and mem: "txn \<in> set (pm_queue p)"
  shows "\<exists>p' T'. PartMan_unlock txn p T = Inr (p', T') \<and> part_inv n p' T' \<and>
     owner p' = owner p \<and> pm_queue p' = remove1 txn (pm_queue p) \<and> T' = add_ready_part (- 1) txn T"
proof -
  have cnt: "pm_waiter_cnt p \<le> length (pm_waiters p)"
    using inv by (simp add: part_inv_def)
  obtain ws' where ws': "remove_slot txn (pm_waiter_cnt p) (pm_waiter_cnt p) 0 False (pm_waiters p) = (True, ws')"
      "length ws' = length (pm_waiters p)" "take (pm_waiter_cnt p - 1) ws' = remove1 txn (pm_queue p)"
    using remove_slot_search [of 0 "pm_waiter_cnt p" "pm_waiter_cnt p" "pm_waiters p" txn] cnt mem
    by (auto simp: pm_queue_def)
  let ?p = "p\<lparr>pm_waiters := ws', pm_waiter_cnt := pm_waiter_cnt p - 1\<rparr>"
  have "PartMan_unlock txn p T = Inr (?p, add_ready_part (- 1) txn T)"
    using own ws'(1) by (simp add: PartMan_unlock_def)
  moreover have q: "pm_queue ?p = remove1 txn (pm_queue p)"
    using ws'(3) by (simp add: pm_queue_def)
  moreover have "part_inv n ?p (add_ready_part (- 1) txn T)"
  proof -
    have "set (remove1 txn (pm_queue p)) \<subseteq> set (pm_queue p)" by (rule set_remove1_subset)
    then show ?thesis
      using inv ws'(2) mem unfolding part_inv_def q
      by (auto split: option.splits intro: sorted_wrt_remove1_list)
  qed
  ultimately show ?thesis by simp
qed

end
