(* ===== verification/Plock_system.thy ===== *)
theory Plock_system
  imports Plock
begin

text \<open>
  All partitions with the transactions that lock them. A step is one call of \<^verbatim>\<open>PartMan::lock\<close> or
  \<^verbatim>\<open>PartMan::unlock\<close> (each runs under the partition's latch), or the start of a transaction with a
  fresh timestamp. \<open>n\<close> is \<^verbatim>\<open>g_thread_cnt\<close> and \<open>P\<close> is \<^verbatim>\<open>g_part_cnt\<close>.
\<close>

subsection \<open>Steps\<close>

record part_sys =
  parts :: part_tab
  ptxns :: txn_tab

definition part_users :: "PartMan \<Rightarrow> txn_ptr set" where
  "part_users p = set_option (owner p) \<union> set (pm_queue p)"

inductive part_step :: "nat \<Rightarrow> nat \<Rightarrow> part_sys \<Rightarrow> part_sys \<Rightarrow> bool" for n P where
  lock: "t < n \<Longrightarrow> p < P \<Longrightarrow> t \<notin> part_users (parts S p) \<Longrightarrow>
     PartMan_lock n t (parts S p) (ptxns S) = Inr (rc, pm, T') \<Longrightarrow>
     part_step n P S \<lparr>parts = (parts S)(p := pm), ptxns = T'\<rparr>"
| unlock: "p < P \<Longrightarrow> t \<in> part_users (parts S p) \<Longrightarrow>
     PartMan_unlock t (parts S p) (ptxns S) = Inr (pm, T') \<Longrightarrow>
     part_step n P S \<lparr>parts = (parts S)(p := pm), ptxns = T'\<rparr>"
| new_txn: "t < n \<Longrightarrow> \<forall>p<P. t \<notin> part_users (parts S p) \<Longrightarrow>
     \<forall>u<n. u \<noteq> t \<longrightarrow> ts_of (ptxns S) u \<noteq> ts \<Longrightarrow>
     part_step n P S \<lparr>parts = parts S, ptxns = (ptxns S)(t := (ptxns S t)\<lparr>timestamp := ts\<rparr>)\<rparr>"

text \<open>The partitions a transaction is still waiting for.\<close>

definition outstanding :: "nat \<Rightarrow> part_tab \<Rightarrow> txn_ptr \<Rightarrow> nat set" where
  "outstanding P M t = {p. p < P \<and> t \<in> set (pm_queue (M p))}"

definition part_sys_init :: "nat \<Rightarrow> nat \<Rightarrow> part_sys \<Rightarrow> bool" where
  "part_sys_init n P S \<longleftrightarrow>
     parts S = Plock_init n \<and> inj_on (ts_of (ptxns S)) {..<n} \<and> (\<forall>t<n. ready_part (ptxns S t) = 0)"

definition part_sys_inv :: "nat \<Rightarrow> nat \<Rightarrow> part_sys \<Rightarrow> bool" where
  "part_sys_inv n P S \<longleftrightarrow>
     (\<forall>p<P. part_inv n (parts S p) (ptxns S) \<and> part_users (parts S p) \<subseteq> {..<n}) \<and>
     inj_on (ts_of (ptxns S)) {..<n} \<and>
     (\<forall>t<n. ready_part (ptxns S t) = int (card (outstanding P (parts S) t)))"

definition part_waits_for :: "nat \<Rightarrow> part_sys \<Rightarrow> (txn_ptr \<times> txn_ptr) set" where
  "part_waits_for P S =
     {(w, u). \<exists>p<P. w \<in> set (pm_queue (parts S p)) \<and>
        (owner (parts S p) = Some u \<or>
         (\<exists>i j. i < j \<and> j < length (pm_queue (parts S p)) \<and>
            w = pm_queue (parts S p) ! j \<and> u = pm_queue (parts S p) ! i))}"

subsection \<open>The invariant is kept\<close>

lemma finite_outstanding [simp]: "finite (outstanding P M t)"
  by (simp add: outstanding_def)

lemma outstanding_upd:
  "p < P \<Longrightarrow> outstanding P (M(p := pm)) t =
     (if t \<in> set (pm_queue pm) then insert p (outstanding P M t) else outstanding P M t - {p})"
  by (auto simp: outstanding_def)

lemma part_inv_cong:
  assumes "part_inv n p T" "\<And>t. t \<in> part_users p \<Longrightarrow> timestamp (T' t) = timestamp (T t)"
  shows "part_inv n p T'"
proof -
  have "sorted_wrt (\<lambda>a b. ts_of T' a < ts_of T' b) (ow # pm_queue p)"
    if "owner p = Some ow" "sorted_wrt (\<lambda>a b. ts_of T a < ts_of T b) (ow # pm_queue p)" for ow
    using that assms(2) by (auto simp: part_users_def intro: sorted_wrt_mono_rel [rotated])
  with assms(1) show ?thesis by (auto simp: part_inv_def split: option.splits)
qed

lemma part_inv_distinct: "part_inv n p T \<Longrightarrow> distinct (pm_queue p) \<and> owner p \<notin> Some ` set (pm_queue p)"
proof -
  assume "part_inv n p T"
  then have "sorted_wrt (\<lambda>a b. ts_of T a < ts_of T b) (the (owner p) # pm_queue p) \<or> pm_queue p = []"
    by (auto simp: part_inv_def split: option.splits)
  moreover have "distinct xs" if "sorted_wrt (\<lambda>a b. ts_of T a < ts_of T b) xs" for xs
    using that by (induction xs) auto
  ultimately show ?thesis by (metis distinct.simps empty_iff imageE image_empty list.set(1) option.sel)
qed

lemma part_sys_invD:
  assumes "part_sys_inv n P S"
  shows "p < P \<Longrightarrow> part_inv n (parts S p) (ptxns S)" "p < P \<Longrightarrow> part_users (parts S p) \<subseteq> {..<n}"
    "inj_on (ts_of (ptxns S)) {..<n}"
    "t < n \<Longrightarrow> ready_part (ptxns S t) = int (card (outstanding P (parts S) t))"
  using assms unfolding part_sys_inv_def by blast+

text \<open>One partition and the transaction table change; the counters follow the queue.\<close>

lemma part_sys_inv_update:
  assumes inv: "part_sys_inv n P S" and p: "p < P"
    and pm: "part_inv n pm T'" "part_users pm \<subseteq> {..<n}"
    and ts: "\<And>t. timestamp (T' t) = timestamp (ptxns S t)"
    and ready: "\<And>t. ready_part (T' t) = ready_part (ptxns S t)
        + of_bool (t \<in> set (pm_queue pm)) - of_bool (t \<in> set (pm_queue (parts S p)))"
  shows "part_sys_inv n P \<lparr>parts = (parts S)(p := pm), ptxns = T'\<rparr>"
proof -
  note D = part_sys_invD [OF inv]
  have "part_inv n (parts S q) T'" if "q < P" for q
    by (rule part_inv_cong [OF D(1) [OF that]]) (simp add: ts)
  moreover have "ready_part (T' t) = int (card (outstanding P ((parts S)(p := pm)) t))" if "t < n" for t
  proof -
    have "p \<in> outstanding P (parts S) t \<longleftrightarrow> t \<in> set (pm_queue (parts S p))"
      using p by (simp add: outstanding_def)
    moreover have "0 < card (outstanding P (parts S) t)" if "p \<in> outstanding P (parts S) t"
      using that by (auto simp: card_gt_0_iff)
    ultimately show ?thesis
      using D(4) [OF that] ready [of t] p by (auto simp: outstanding_upd card_insert_if card_Diff_singleton_if)
  qed
  moreover have "ts_of T' = ts_of (ptxns S)" using ts by (simp add: fun_eq_iff)
  ultimately show ?thesis
    using D(2,3) pm unfolding part_sys_inv_def by simp
qed

lemma part_lock_returns:
  assumes inv: "part_sys_inv n P S" and t: "t < n" "p < P" "t \<notin> part_users (parts S p)"
  shows "length (pm_queue (parts S p)) < n" "\<forall>w\<in>set (pm_queue (parts S p)). ts_of (ptxns S) w \<noteq> ts_of (ptxns S) t"
proof -
  note D = part_sys_invD [OF inv]
  have sub: "set (pm_queue (parts S p)) \<subseteq> {..<n} - {t}"
    using D(2) [OF t(2)] t(3) by (auto simp: part_users_def)
  then show "\<forall>w\<in>set (pm_queue (parts S p)). ts_of (ptxns S) w \<noteq> ts_of (ptxns S) t"
    using D(3) t(1) by (auto simp: inj_on_def)
  have "length (pm_queue (parts S p)) = card (set (pm_queue (parts S p)))"
    using part_inv_distinct [OF D(1) [OF t(2)]] by (simp add: distinct_card)
  also have "\<dots> \<le> card ({..<n} - {t})" by (rule card_mono [OF _ sub]) simp
  also have "\<dots> < n" using t(1) by simp
  finally show "length (pm_queue (parts S p)) < n" .
qed

lemma part_lock_sys_inv:
  assumes inv: "part_sys_inv n P S" and t: "t < n" "p < P" "t \<notin> part_users (parts S p)"
    and ret: "PartMan_lock n t (parts S p) (ptxns S) = Inr (rc, pm, T')"
  shows "part_sys_inv n P \<lparr>parts = (parts S)(p := pm), ptxns = T'\<rparr>"
proof -
  note D = part_sys_invD [OF inv]
  note spec = PartMan_lock_spec [OF D(1) [OF t(2)] part_lock_returns [OF inv t]]
  have nin: "t \<notin> set (pm_queue (parts S p))" using t(3) by (simp add: part_users_def)
  have "part_users pm \<subseteq> insert t (part_users (parts S p)) \<and> part_inv n pm T' \<and>
      (\<forall>u. timestamp (T' u) = timestamp (ptxns S u)) \<and>
      (\<forall>u. ready_part (T' u) = ready_part (ptxns S u)
        + of_bool (u \<in> set (pm_queue pm)) - of_bool (u \<in> set (pm_queue (parts S p))))"
    using spec ret nin D(1) [OF t(2)]
    by (auto simp: part_users_def part_inv_def split: option.splits if_splits)
  then show ?thesis
    using t(1) D(2) [OF t(2)] by (intro part_sys_inv_update [OF inv t(2)]) auto
qed

lemma part_unlock_sys_inv:
  assumes inv: "part_sys_inv n P S" and t: "p < P" "t \<in> part_users (parts S p)"
    and ret: "PartMan_unlock t (parts S p) (ptxns S) = Inr (pm, T')"
  shows "part_sys_inv n P \<lparr>parts = (parts S)(p := pm), ptxns = T'\<rparr>"
proof -
  note D = part_sys_invD [OF inv]
  note dis = part_inv_distinct [OF D(1) [OF t(1)]]
  have "part_users pm \<subseteq> part_users (parts S p) \<and> part_inv n pm T' \<and>
      (\<forall>u. timestamp (T' u) = timestamp (ptxns S u)) \<and>
      (\<forall>u. ready_part (T' u) = ready_part (ptxns S u)
        + of_bool (u \<in> set (pm_queue pm)) - of_bool (u \<in> set (pm_queue (parts S p))))"
  proof (cases "owner (parts S p) = Some t")
    case True
    with PartMan_unlock_owner [OF D(1) [OF t(1)] True] ret dis show ?thesis
      by (auto simp: part_users_def split: list.splits)
  next
    case False
    then have "t \<in> set (pm_queue (parts S p))" using t(2) by (auto simp: part_users_def)
    with PartMan_unlock_waiter [OF D(1) [OF t(1)] False] ret dis show ?thesis
      by (auto simp: part_users_def)
  qed
  then show ?thesis
    using D(2) [OF t(1)] by (intro part_sys_inv_update [OF inv t(1)]) auto
qed

interpretation psys: transition_system "part_sys_init n P" "part_step n P" "part_sys_inv n P" for n P
proof unfold_locales
  fix S :: part_sys
  assume "part_sys_init n P S"
  moreover have "part_inv n (PartMan_init n) (ptxns S)" "part_users (PartMan_init n) = {}"
      "pm_queue (PartMan_init n) = []"
    by (simp_all add: part_inv_init) (simp_all add: part_users_def PartMan_init_def pm_queue_def)
  ultimately show "part_sys_inv n P S"
    by (simp add: part_sys_init_def part_sys_inv_def Plock_init_def outstanding_def)
next
  fix S S' :: part_sys
  assume inv: "part_sys_inv n P S" and "part_step n P S S'"
  note D = part_sys_invD [OF inv]
  from \<open>part_step n P S S'\<close> show "part_sys_inv n P S'"
  proof cases
    case (lock t p rc pm T')
    show ?thesis unfolding lock(1) by (rule part_lock_sys_inv [OF inv lock(2-5)])
  next
    case (unlock p t pm T')
    show ?thesis unfolding unlock(1) by (rule part_unlock_sys_inv [OF inv unlock(2-4)])
  next
    case (new_txn t ts)
    have "part_inv n (parts S p) ((ptxns S)(t := (ptxns S t)\<lparr>timestamp := ts\<rparr>))" if "p < P" for p
      by (rule part_inv_cong [OF D(1) [OF that]]) (use new_txn(3) that in auto)
    moreover have "inj_on (ts_of ((ptxns S)(t := (ptxns S t)\<lparr>timestamp := ts\<rparr>))) {..<n}"
      using D(3) new_txn(4) by (auto simp: inj_on_def)
    ultimately show ?thesis
      unfolding new_txn(1) part_sys_inv_def using D(2,4) by simp
  qed
qed

subsection \<open>Taking and giving back all partitions of a transaction\<close>

definition same_part :: "PartMan \<Rightarrow> PartMan \<Rightarrow> bool" where
  "same_part a b \<longleftrightarrow> owner a = owner b \<and> pm_queue a = pm_queue b"

text \<open>What a request that was not refused leaves in a partition.\<close>

definition requested :: "txn_tab \<Rightarrow> txn_ptr \<Rightarrow> PartMan \<Rightarrow> PartMan \<Rightarrow> bool" where
  "requested T t a b \<longleftrightarrow>
     (owner a = None \<and> pm_queue a = [] \<and> owner b = Some t \<and> pm_queue b = []) \<or>
     (owner a = owner b \<and> owner b \<noteq> Some t \<and> t \<notin> set (pm_queue a) \<and> pm_queue b = queue_insert T t (pm_queue a))"

lemma requested_user: "requested T t a b \<Longrightarrow> t \<in> part_users b"
  by (auto simp: requested_def part_users_def)

lemma requested_unlock:
  assumes "requested T t a b" "part_inv n b T'"
    and "PartMan_unlock t b T' = Inr (pm, T'')"
  shows "same_part pm a"
  using assms(1)
proof (cases "owner b = Some t")
  case True
  with PartMan_unlock_owner [OF assms(2) True] assms(1,3) show ?thesis
    by (auto simp: requested_def same_part_def)
next
  case False
  with assms(1) have "t \<in> set (pm_queue b)" by (auto simp: requested_def)
  with PartMan_unlock_waiter [OF assms(2) False] assms(1,3) False show ?thesis
    by (auto simp: requested_def same_part_def remove1_queue_insert)
qed

lemma lock_parts_spec:
  assumes "part_sys_inv n P \<lparr>parts = M, ptxns = T\<rparr>" "t < n" "distinct ps"
    and "\<forall>p\<in>set ps. p < P \<and> t \<notin> part_users (M p)"
  shows "\<exists>rc got M' T'. lock_parts n t ps M T = Inr (rc, got, M', T') \<and>
     part_sys_inv n P \<lparr>parts = M', ptxns = T'\<rparr> \<and> (rc = RCOK \<and> got = ps \<or> rc = Abort) \<and>
     distinct got \<and> set got \<subseteq> set ps \<and> (\<forall>u. timestamp (T' u) = timestamp (T u)) \<and>
     (\<forall>p. if p \<in> set got then requested T t (M p) (M' p) else M' p = M p)"
  using assms
proof (induction ps arbitrary: M T)
  case Nil
  then show ?case by simp
next
  case (Cons p ps)
  let ?S = "\<lparr>parts = M, ptxns = T\<rparr>"
  have t: "t < n" "p < P" "t \<notin> part_users (parts ?S p)" using Cons.prems by auto
  have pinv: "part_inv n (M p) T" using part_sys_invD(1) [OF Cons.prems(1) t(2)] by simp
  obtain rc pm T1 where lk: "PartMan_lock n t (M p) T = Inr (rc, pm, T1)"
      and cases: "case owner (M p) of
        None \<Rightarrow> rc = RCOK \<and> owner pm = Some t \<and> pm_queue pm = [] \<and> T1 = T
      | Some ow \<Rightarrow>
          if ts_of T ow < ts_of T t
          then rc = WAIT \<and> owner pm = Some ow \<and> pm_queue pm = queue_insert T t (pm_queue (M p)) \<and>
               T1 = add_ready_part 1 t T
          else rc = Abort \<and> pm = M p \<and> T1 = T"
    using PartMan_lock_spec [OF pinv, of t] part_lock_returns [OF Cons.prems(1) t, simplified] by blast
  have ts: "\<forall>u. timestamp (T1 u) = timestamp (T u)"
    using cases by (auto split: option.splits if_splits)
  show ?case
  proof (cases "rc = Abort")
    case True
    with cases have "pm = M p" "T1 = T" by (auto split: option.splits if_splits)
    with True lk Cons.prems(1) show ?thesis by simp
  next
    case False
    have rq: "requested T t (M p) pm"
      using cases False t(3) pinv by (auto simp: requested_def part_users_def part_inv_def split: option.splits if_splits)
    have inv1: "part_sys_inv n P \<lparr>parts = M(p := pm), ptxns = T1\<rparr>"
      using part_lock_sys_inv [OF Cons.prems(1) t, of rc pm T1] lk by simp
    have pre: "distinct ps" "\<forall>q\<in>set ps. q < P \<and> t \<notin> part_users ((M(p := pm)) q)"
      using Cons.prems(3,4) by auto
    from Cons.IH [OF inv1 t(1) pre] obtain rc' got M' T' where
      IH: "lock_parts n t ps (M(p := pm)) T1 = Inr (rc', got, M', T')"
        "part_sys_inv n P \<lparr>parts = M', ptxns = T'\<rparr>" "rc' = RCOK \<and> got = ps \<or> rc' = Abort"
        "distinct got" "set got \<subseteq> set ps" "\<forall>u. timestamp (T' u) = timestamp (T1 u)"
        "\<forall>q. if q \<in> set got then requested T1 t ((M(p := pm)) q) (M' q) else M' q = (M(p := pm)) q"
      by blast
    have "queue_insert T1 t = queue_insert T t" using ts by (simp add: queue_insert_def fun_eq_iff)
    then have rT: "requested T1 t = requested T t" by (simp add: requested_def fun_eq_iff)
    have "\<forall>q. if q \<in> set (p # got) then requested T t (M q) (M' q) else M' q = M q"
      using IH(5,7) Cons.prems(3) rq unfolding rT by (auto split: if_splits)
    with IH ts lk False Cons.prems(3) show ?thesis by auto
  qed
qed

lemma Plock_unlock_spec:
  assumes "part_sys_inv n P \<lparr>parts = M, ptxns = T\<rparr>" "distinct ps"
    and "\<forall>p\<in>set ps. p < P \<and> requested T0 t (M0 p) (M p)"
  shows "\<exists>M' T'. Plock_unlock t ps M T = Inr (M', T') \<and>
     part_sys_inv n P \<lparr>parts = M', ptxns = T'\<rparr> \<and>
     (\<forall>p. if p \<in> set ps then same_part (M' p) (M0 p) else M' p = M p)"
  using assms
proof (induction ps arbitrary: M T)
  case Nil
  then show ?case by simp
next
  case (Cons p ps)
  have p: "p < P" and rq: "requested T0 t (M0 p) (M p)" using Cons.prems(3) by auto
  then have u: "t \<in> part_users (parts \<lparr>parts = M, ptxns = T\<rparr> p)" by (simp add: requested_user)
  have pinv: "part_inv n (M p) T" using part_sys_invD(1) [OF Cons.prems(1) p] by simp
  obtain pm T1 where un: "PartMan_unlock t (M p) T = Inr (pm, T1)"
  proof (cases "owner (M p) = Some t")
    case True
    from PartMan_unlock_owner [OF pinv True] that show thesis by blast
  next
    case False
    with u have "t \<in> set (pm_queue (M p))" by (auto simp: part_users_def)
    from PartMan_unlock_waiter [OF pinv False this] that show thesis by blast
  qed
  have same: "same_part pm (M0 p)" by (rule requested_unlock [OF rq pinv un])
  have inv1: "part_sys_inv n P \<lparr>parts = M(p := pm), ptxns = T1\<rparr>"
    using part_unlock_sys_inv [OF Cons.prems(1) p u] un by simp
  have dps: "distinct ps" "p \<notin> set ps" using Cons.prems(2) by auto
  have "\<forall>q\<in>set ps. q < P \<and> requested T0 t (M0 q) ((M(p := pm)) q)"
    using dps(2) Cons.prems(3) by auto
  from Cons.IH [OF inv1 dps(1) this] obtain M' T' where
    "Plock_unlock t ps (M(p := pm)) T1 = Inr (M', T')" "part_sys_inv n P \<lparr>parts = M', ptxns = T'\<rparr>"
    "\<forall>q. if q \<in> set ps then same_part (M' q) (M0 q) else M' q = (M(p := pm)) q"
    by blast
  moreover have "if q \<in> set (p # ps) then same_part (M' q) (M0 q) else M' q = M q" for q
    using calculation(3) [THEN spec, of q] same dps(2) by (cases "q = p") auto
  ultimately show ?case using un by auto
qed

subsection \<open>A concrete run\<close>

definition hs_txn :: "nat \<Rightarrow> txn_man" where
  "hs_txn t = \<lparr>thd_id = t, txn_id = 0, timestamp = word_of_nat (Suc t), cur_row = 0, lock_ready = False,
     lock_abort = False, ts_ready = False, ready_part = 0, start_ts = 0, end_ts = 0, vll_txn_type = VLL_Free\<rparr>"

definition hs_tab :: "int \<Rightarrow> txn_tab" where
  "hs_tab w = hs_txn(1 := (hs_txn 1)\<lparr>ready_part := w\<rparr>)"

definition hs_part :: "txn_ptr option \<Rightarrow> txn_ptr list \<Rightarrow> nat \<Rightarrow> PartMan" where
  "hs_part ow ws k = \<lparr>owner = ow, pm_waiters = ws, pm_waiter_cnt = k\<rparr>"

definition hs_sys :: "PartMan \<Rightarrow> int \<Rightarrow> part_sys" where
  "hs_sys pm w = \<lparr>parts = (Plock_init 2)(0 := pm), ptxns = hs_tab w\<rparr>"

lemma hs_ts [simp]: "timestamp (hs_tab w t) = word_of_nat (Suc t)"
  by (simp add: hs_tab_def hs_txn_def)

lemma hs_ready [simp]: "ready_part (hs_tab w t) = (if t = 1 then w else 0)"
  by (simp add: hs_tab_def hs_txn_def)

lemma hs_inj: "inj_on (ts_of (hs_tab w)) {..<2}"
  by (auto simp: inj_on_def less_2_cases_iff)

lemma hs_init: "part_sys_init 2 2 (hs_sys (PartMan_init 2) 0)"
  using hs_inj [of 0] by (simp add: part_sys_init_def hs_sys_def Plock_init_def fun_eq_iff)

lemma hs_step1: "part_step 2 2 (hs_sys (PartMan_init 2) 0) (hs_sys (hs_part (Some 0) [0, 0] 0) 0)"
  using part_step.lock [of 0 2 0 2 "hs_sys (PartMan_init 2) 0" RCOK "hs_part (Some 0) [0, 0] 0" "hs_tab 0"]
  by (simp add: hs_sys_def PartMan_init_def part_users_def pm_queue_def PartMan_lock_def hs_part_def
      numeral_2_eq_2)

lemma hs_step2:
  "part_step 2 2 (hs_sys (hs_part (Some 0) [0, 0] 0) 0) (hs_sys (hs_part (Some 0) [1, 0] 1) 1)"
proof -
  have "add_ready_part 1 1 (hs_tab 0) = hs_tab 1"
    by (simp add: add_ready_part_def hs_tab_def hs_txn_def)
  then show ?thesis
    using part_step.lock [of 1 2 0 2 "hs_sys (hs_part (Some 0) [0, 0] 0) 0" WAIT "hs_part (Some 0) [1, 0] 1" "hs_tab 1"]
    by (simp add: hs_sys_def part_users_def pm_queue_def PartMan_lock_def hs_part_def)
qed

lemma hs_run: "(part_step 2 2)\<^sup>*\<^sup>* (hs_sys (PartMan_init 2) 0) (hs_sys (hs_part (Some 0) [1, 0] 1) 1)"
  using hs_step1 hs_step2 by (meson converse_rtranclp_into_rtranclp rtranclp.rtrancl_refl)

subsection \<open>What the clients rely on\<close>

text \<open>C18: partition locking is free of deadlocks. In every reachable state the waits-for relation
  between transactions (a waiter waits for the owner of the partition and for the waiters before it)
  has no cycle, because a transaction only ever waits for older ones.\<close>

theorem hstore_deadlock_free:
  assumes "part_sys_init n P S0" and "(part_step n P)\<^sup>*\<^sup>* S0 S"
  shows "acyclic (part_waits_for P S)"
proof -
  note D = part_sys_invD [OF psys.reachable_inv [OF assms]]
  have "ts_of (ptxns S) u < ts_of (ptxns S) w" if "(w, u) \<in> part_waits_for P S" for w u
  proof -
    from that obtain p where p: "p < P" "w \<in> set (pm_queue (parts S p))"
      "owner (parts S p) = Some u \<or> (\<exists>i j. i < j \<and> j < length (pm_queue (parts S p)) \<and>
         w = pm_queue (parts S p) ! j \<and> u = pm_queue (parts S p) ! i)"
      unfolding part_waits_for_def by blast
    from D(1) [OF p(1)] p(2) obtain ow where ow: "owner (parts S p) = Some ow"
      "sorted_wrt (\<lambda>a b. ts_of (ptxns S) a < ts_of (ptxns S) b) (ow # pm_queue (parts S p))"
      by (auto simp: part_inv_def split: option.splits)
    from p(3) show ?thesis
    proof
      assume "owner (parts S p) = Some u"
      with ow p(2) show ?thesis by simp
    next
      assume "\<exists>i j. i < j \<and> j < length (pm_queue (parts S p)) \<and>
         w = pm_queue (parts S p) ! j \<and> u = pm_queue (parts S p) ! i"
      with ow(2) show ?thesis by (auto dest: sorted_wrt_nth_less)
    qed
  qed
  then have "acyclic ((part_waits_for P S)\<inverse>)"
    by (intro acyclic_by_rank [where rank = "ts_of (ptxns S)"]) auto
  then show ?thesis by simp
qed

theorem hstore_deadlock_free_witness:
  "(1, 0) \<in> part_waits_for 2 (hs_sys (hs_part (Some 0) [1, 0] 1) 1) \<and>
   acyclic (part_waits_for 2 (hs_sys (hs_part (Some 0) [1, 0] 1) 1))"
proof
  show "(1, 0) \<in> part_waits_for 2 (hs_sys (hs_part (Some 0) [1, 0] 1) 1)"
    by (auto simp: part_waits_for_def hs_sys_def hs_part_def pm_queue_def)
  show "acyclic (part_waits_for 2 (hs_sys (hs_part (Some 0) [1, 0] 1) 1))"
    by (rule hstore_deadlock_free [OF hs_init hs_run])
qed

text \<open>\<^verbatim>\<open>ready_part\<close> counts the partitions a transaction still waits for, so when a thread
  leaves the spin loop of \<^verbatim>\<open>Plock::lock\<close> (the counter is 0) its transaction owns every partition
  it has requested.\<close>

theorem hstore_ready_owns_all:
  assumes "part_sys_init n P S0" and "(part_step n P)\<^sup>*\<^sup>* S0 S"
    and "t < n" and "p < P" and "t \<in> part_users (parts S p)" and "ready_part (ptxns S t) = 0"
  shows "owner (parts S p) = Some t"
proof -
  note D = part_sys_invD [OF psys.reachable_inv [OF assms(1,2)]]
  have "outstanding P (parts S) t = {}"
    using D(4) [OF assms(3)] assms(6) by simp
  with assms(4,5) show ?thesis by (auto simp: outstanding_def part_users_def)
qed

theorem hstore_ready_owns_all_witness:
  "owner (parts (hs_sys (hs_part (Some 0) [1, 0] 1) 1) 0) = Some 0"
  by (rule hstore_ready_owns_all [OF hs_init hs_run, of 0 0])
    (simp_all add: hs_sys_def hs_part_def part_users_def)

text \<open>\<^verbatim>\<open>Plock::lock\<close> returns without failing an assertion and is all-or-nothing. In a state
  that satisfies the invariant, for a transaction that holds and awaits no partition: an abort leaves
  the owner and the queue of every partition as they were; \<^verbatim>\<open>RCOK\<close> means every requested partition
  is owned; otherwise the thread spins with a request in every partition.\<close>

theorem Plock_lock_all_or_nothing:
  assumes "part_sys_inv n P \<lparr>parts = M, ptxns = T\<rparr>" and "t < n" and "distinct ps"
    and "\<forall>p\<in>set ps. p < P" and "\<forall>p<P. t \<notin> part_users (M p)"
  shows "\<exists>r M' T'. Plock_lock n t ps M T = Inr (r, M', T') \<and>
     part_sys_inv n P \<lparr>parts = M', ptxns = T'\<rparr> \<and>
     (r = Inr Abort \<and> (\<forall>p. same_part (M' p) (M p)) \<or>
      r = Inr RCOK \<and> (\<forall>p\<in>set ps. owner (M' p) = Some t) \<or>
      r = Inl Spinning \<and> (\<forall>p\<in>set ps. t \<in> part_users (M' p)) \<and> (\<exists>p\<in>set ps. owner (M' p) \<noteq> Some t))"
proof -
  obtain rc got M1 T1 where lk: "lock_parts n t ps M T = Inr (rc, got, M1, T1)"
      "part_sys_inv n P \<lparr>parts = M1, ptxns = T1\<rparr>" "rc = RCOK \<and> got = ps \<or> rc = Abort"
      "distinct got" "set got \<subseteq> set ps"
      "\<forall>p. if p \<in> set got then requested T t (M p) (M1 p) else M1 p = M p"
    using lock_parts_spec [OF assms(1-3)] assms(4,5) by blast
  note D1 = part_sys_invD [OF lk(2), simplified]
  show ?thesis
  proof (cases "rc = Abort")
    case True
    have "\<forall>p\<in>set got. p < P \<and> requested T t (M p) (M1 p)" using lk(5,6) assms(4) by (meson subsetD)
    from Plock_unlock_spec [OF lk(2,4) this] obtain M' T' where
      un: "Plock_unlock t got M1 T1 = Inr (M', T')" "part_sys_inv n P \<lparr>parts = M', ptxns = T'\<rparr>"
        "\<forall>p. if p \<in> set got then same_part (M' p) (M p) else M' p = M1 p" by blast
    have same: "\<forall>p. same_part (M' p) (M p)"
      using un(3) lk(6) by (metis same_part_def)
    then have "outstanding P M' t = {}"
      using assms(5) by (auto simp: outstanding_def same_part_def part_users_def)
    then have "ready_part (T' t) = 0" using part_sys_invD(4) [OF un(2) assms(2)] by simp
    with True lk(1) un same show ?thesis by (simp add: Plock_lock_def)
  next
    case False
    with lk(3) have rc: "rc = RCOK" "got = ps" by auto
    have users: "\<forall>p\<in>set ps. t \<in> part_users (M1 p)"
      using lk(6) rc(2) requested_user by (metis)
    have out: "outstanding P M1 t = {p \<in> set ps. t \<in> set (pm_queue (M1 p))}"
      using lk(6) rc(2) assms(4,5) by (auto simp: outstanding_def part_users_def split: if_splits)
    have own: "t \<in> set (pm_queue (M1 p)) \<longleftrightarrow> owner (M1 p) \<noteq> Some t" if "p \<in> set ps" for p
      using users that part_inv_distinct [OF D1(1)] assms(4) by (fastforce simp: part_users_def)
    have ready: "ready_part (T1 t) = int (card (outstanding P M1 t))" by (rule D1(4) [OF assms(2)])
    show ?thesis
    proof (cases "outstanding P M1 t = {}")
      case True
      then have "\<forall>p\<in>set ps. owner (M1 p) = Some t" using own unfolding out by blast
      with True ready rc lk(1,2) show ?thesis by (simp add: Plock_lock_def)
    next
      case False
      then have "0 < ready_part (T1 t)" using ready by (simp add: card_gt_0_iff)
      moreover have "\<exists>p\<in>set ps. owner (M1 p) \<noteq> Some t" using False own unfolding out by blast
      ultimately show ?thesis using users rc lk(1,2) by (simp add: Plock_lock_def)
    qed
  qed
qed

theorem Plock_lock_all_or_nothing_witness:
  "\<exists>r M' T'. Plock_lock 2 1 [1, 0] (Plock_init 2) (hs_tab 0) = Inr (r, M', T') \<and>
     part_sys_inv 2 2 \<lparr>parts = M', ptxns = T'\<rparr> \<and> r = Inr RCOK \<and> owner (M' 0) = Some 1 \<and> owner (M' 1) = Some 1"
proof -
  have "hs_sys (PartMan_init 2) 0 = \<lparr>parts = Plock_init 2, ptxns = hs_tab 0\<rparr>"
    by (simp add: hs_sys_def Plock_init_def fun_eq_iff)
  then have inv: "part_sys_inv 2 2 \<lparr>parts = Plock_init 2, ptxns = hs_tab 0\<rparr>"
    using psys.init_inv [OF hs_init] by simp
  have "Plock_lock 2 1 [1, 0] (Plock_init 2) (hs_tab 0) =
      Inr (Inr RCOK, (Plock_init 2)(1 := hs_part (Some 1) [0, 0] 0, 0 := hs_part (Some 1) [0, 0] 0), hs_tab 0)"
    by (simp add: Plock_lock_def Plock_init_def PartMan_lock_def PartMan_init_def hs_part_def numeral_2_eq_2)
  with Plock_lock_all_or_nothing [OF inv, of 1 "[1, 0]"] show ?thesis
    by (simp add: Plock_init_def PartMan_init_def part_users_def pm_queue_def)
qed

end
