(* ===== verification/Helper.thy ===== *)
theory Helper
  imports Base
begin

text \<open>
  The helpers of \<^verbatim>\<open>system/helper.cpp\<close>: item identifiers, the mapping of transactions, addresses
  and keys to threads and partitions, the three overloads of \<^verbatim>\<open>merge_idx_key\<close> that pack several
  keys into one 64-bit index key, and the linear congruential generator \<^verbatim>\<open>myrand\<close>.
\<close>

subsection \<open>Item identifiers\<close>

datatype Data_type = DT_table | DT_page | DT_row

text \<open>The \<^verbatim>\<open>next\<close> pointer that chains the items of one key is the list the item is in.\<close>

record 'loc itemid_t =
  it_type :: Data_type
  it_location :: 'loc
  it_valid :: bool

definition itemid_eq :: "'l itemid_t \<Rightarrow> 'l itemid_t \<Rightarrow> bool" where
  "itemid_eq a b \<longleftrightarrow> it_type a = it_type b \<and> it_location a = it_location b"

definition itemid_assign :: "'l itemid_t \<Rightarrow> 'l itemid_t \<Rightarrow> fault + 'l itemid_t" where
  "itemid_assign this other =
     (let this = this\<lparr>it_valid := it_valid other, it_type := it_type other, it_location := it_location other\<rparr>
      in bindE (assert_that (itemid_eq this other)) (\<lambda>_.
         bindE (assert_that (it_valid this)) (\<lambda>_. Inr this)))"

definition itemid_init :: "'l itemid_t \<Rightarrow> 'l \<Rightarrow> 'l itemid_t" where
  "itemid_init this null = this\<lparr>it_valid := False, it_location := null\<rparr>"

subsection \<open>Threads and partitions\<close>

definition get_thdid_from_txnid :: "nat \<Rightarrow> txnid_t \<Rightarrow> nat" where
  "get_thdid_from_txnid g_thread_cnt txnid = unat txnid mod g_thread_cnt"

definition get_part_id :: "nat \<Rightarrow> 64 word \<Rightarrow> nat" where
  "get_part_id g_part_cnt addr = (unat addr div 4096) mod g_part_cnt"

definition key_to_part :: "bool \<Rightarrow> nat \<Rightarrow> idx_key_t \<Rightarrow> nat" where
  "key_to_part g_part_alloc g_part_cnt key = (if g_part_alloc then unat key mod g_part_cnt else 0)"

lemma get_thdid_less [simp]: "0 < V \<Longrightarrow> get_thdid_from_txnid V x < V"
  by (simp add: get_thdid_from_txnid_def)

subsection \<open>Packing keys\<close>

text \<open>The loop of the array overload; \<open>k\<close> is the number of iterations left. Reading past the end
  of the caller's array and a shift by 64 are faults.\<close>

fun merge_keys :: "nat \<Rightarrow> nat \<Rightarrow> nat \<Rightarrow> 64 word list \<Rightarrow> 64 word \<Rightarrow> fault + 64 word" where
  "merge_keys len 0 i keys key = Inr key"
| "merge_keys len (Suc k) i keys key =
     (if length keys \<le> i then Inl Out_of_bounds
      else if 64 \<le> len then Inl Undefined_behaviour
      else bindE (assert_that (keys ! i < push_bit len 1)) (\<lambda>_.
           merge_keys len k (Suc i) keys (push_bit len key OR keys ! i)))"

definition merge_idx_key :: "nat \<Rightarrow> 64 word list \<Rightarrow> fault + 64 word" where
  "merge_idx_key key_cnt keys =
     (if key_cnt = 0 then Inl Undefined_behaviour
      else merge_keys (64 div key_cnt) (64 div key_cnt) 0 keys 0)"

definition merge_idx_key2 :: "64 word \<Rightarrow> 64 word \<Rightarrow> fault + 64 word" where
  "merge_idx_key2 key1 key2 =
     bindE (assert_that (key1 < push_bit 32 1 \<and> key2 < push_bit 32 1)) (\<lambda>_.
     Inr (push_bit 32 key1 OR key2))"

definition merge_idx_key3 :: "64 word \<Rightarrow> 64 word \<Rightarrow> 64 word \<Rightarrow> fault + 64 word" where
  "merge_idx_key3 key1 key2 key3 =
     bindE (assert_that (key1 < push_bit 21 1 \<and> key2 < push_bit 21 1 \<and> key3 < push_bit 21 1)) (\<lambda>_.
     Inr (push_bit 42 key1 OR push_bit 21 key2 OR key3))"

subsection \<open>Random numbers\<close>

text \<open>\<^verbatim>\<open>RAND_MAX\<close> belongs to the C library and is a parameter.\<close>

definition myrand_step :: "64 word \<Rightarrow> 64 word" where
  "myrand_step seed = (seed * 1103515247 + 12345) mod push_bit 63 1"

definition myrand_next :: "64 word \<Rightarrow> 64 word \<Rightarrow> 64 word \<times> 64 word" where
  "myrand_next RAND_MAX seed =
     (let seed = myrand_step seed in ((seed div 65537) mod RAND_MAX, seed))"

definition myrand_next_unlimited :: "64 word \<Rightarrow> 64 word \<times> 64 word" where
  "myrand_next_unlimited seed = (let seed = myrand_step seed in (seed, seed))"

subsection \<open>Round trips\<close>

lemma merge_pack:
  fixes a b :: "64 word"
  assumes "n < 64" "a < push_bit (64 - n) 1" "b < push_bit n 1" "0 < n"
  shows "drop_bit n (push_bit n a OR b) = a" "take_bit n (push_bit n a OR b) = b"
proof -
  have a: "take_bit (64 - n) a = a" and b: "take_bit n b = b"
    using assms word_less_exp_iff_bits by auto
  have "drop_bit n b = 0" using b by (metis drop_bit_take_bit diff_self_eq_0 take_bit_0)
  moreover have "drop_bit n (push_bit n a) = a"
  proof (rule bit_word_eqI)
    fix m assume "m < LENGTH(64)"
    have "bit a m \<longleftrightarrow> m < 64 - n \<and> bit a m" using a by (metis bit_take_bit_iff)
    then show "bit (drop_bit n (push_bit n a)) m = bit a m"
      using assms(1) by (auto simp: bit_drop_bit_eq bit_push_bit_iff)
  qed
  ultimately show "drop_bit n (push_bit n a OR b) = a" by (simp add: drop_bit_or)
  show "take_bit n (push_bit n a OR b) = b" using b by (simp add: take_bit_or take_bit_push_bit)
qed


text \<open>the two-key overload of \<^verbatim>\<open>merge_idx_key\<close> loses nothing: for keys below \<open>2 ^ 32\<close> it
  returns, and the two halves of the result are the two keys; for any other keys the assertion
  fails.\<close>

theorem merge_idx_key2_roundtrip:
  "(if unat key1 < 2 ^ 32 \<and> unat key2 < 2 ^ 32
    then (\<exists>k. merge_idx_key2 key1 key2 = Inr k \<and> drop_bit 32 k = key1 \<and> take_bit 32 k = key2)
    else merge_idx_key2 key1 key2 = Inl Assert_failed)"
proof -
  have "key1 < push_bit 32 1 \<longleftrightarrow> unat key1 < 2 ^ 32" "key2 < push_bit 32 1 \<longleftrightarrow> unat key2 < 2 ^ 32"
    by (simp_all add: word_less_nat_alt)
  with merge_pack [of 32 key1 key2] show ?thesis by (auto simp: merge_idx_key2_def)
qed

lemma merge_idx_key3_parts:
  fixes key1 :: "64 word"
  assumes "key1 < push_bit 21 1" "key2 < push_bit 21 1" "key3 < push_bit 21 1"
  shows "drop_bit 42 (push_bit 42 key1 OR push_bit 21 key2 OR key3) = key1"
    "take_bit 21 (drop_bit 21 (push_bit 42 key1 OR push_bit 21 key2 OR key3)) = key2"
    "take_bit 21 (push_bit 42 key1 OR push_bit 21 key2 OR key3) = key3"
proof -
  let ?u = "push_bit 21 key1 OR key2"
  have eq: "push_bit 42 key1 OR push_bit 21 key2 OR key3 = push_bit 21 ?u OR key3"
    by (simp add: push_bit_or or.assoc)
  have t: "take_bit 21 key1 = key1" "take_bit 21 key2 = key2"
    using assms word_less_exp_iff_bits [of 21] by simp_all
  have "take_bit 43 ?u = ?u"
  proof (rule bit_word_eqI)
    fix m assume "m < LENGTH(64)"
    have "bit key1 (m - 21) \<Longrightarrow> m - 21 < 21" "bit key2 m \<Longrightarrow> m < 21"
      using t by (metis bit_take_bit_iff)+
    then show "bit (take_bit 43 ?u) m = bit ?u m" by (auto simp: bit_simps)
  qed
  then have "?u < push_bit 43 1" using word_less_exp_iff_bits [of 43] by simp
  from merge_pack [of 21 ?u key3] this assms(3)
  have u: "drop_bit 21 (push_bit 21 ?u OR key3) = ?u" "take_bit 21 (push_bit 21 ?u OR key3) = key3"
    by simp_all
  have k1: "key1 < push_bit 43 1" using assms(1) by (simp add: word_less_nat_alt)
  from merge_pack [of 21 key1 key2] k1 assms(2)
  have v: "drop_bit 21 ?u = key1" "take_bit 21 ?u = key2" by simp_all
  have "drop_bit 42 (push_bit 21 ?u OR key3) = drop_bit 21 (drop_bit 21 (push_bit 21 ?u OR key3))"
    by (simp add: drop_bit_drop_bit)
  with u v show "drop_bit 42 (push_bit 42 key1 OR push_bit 21 key2 OR key3) = key1"
    "take_bit 21 (drop_bit 21 (push_bit 42 key1 OR push_bit 21 key2 OR key3)) = key2"
    "take_bit 21 (push_bit 42 key1 OR push_bit 21 key2 OR key3) = key3"
    unfolding eq by simp_all
qed

text \<open>The three-key overload of \<^verbatim>\<open>merge_idx_key\<close> is injective on the keys its assertion admits:
  two triples with the same packed key are equal.\<close>

theorem merge_idx_key3_inj:
  assumes "merge_idx_key3 a1 a2 a3 = Inr k" and "merge_idx_key3 b1 b2 b3 = Inr k"
  shows "a1 = b1 \<and> a2 = b2 \<and> a3 = b3"
proof -
  have k: "k = push_bit 42 a1 OR push_bit 21 a2 OR a3" "k = push_bit 42 b1 OR push_bit 21 b2 OR b3"
    and a: "a1 < push_bit 21 1" "a2 < push_bit 21 1" "a3 < push_bit 21 1"
    and b: "b1 < push_bit 21 1" "b2 < push_bit 21 1" "b3 < push_bit 21 1"
    using assms unfolding merge_idx_key3_def by (auto split: if_splits)
  show ?thesis
    using merge_idx_key3_parts [OF a, folded k(1)] merge_idx_key3_parts [OF b, folded k(2)] by simp
qed

theorem merge_idx_key3_inj_witness:
  "merge_idx_key3 1 2 3 = Inr 4398050705411 \<and> (1::64 word) = 1 \<and> (2::64 word) = 2"
proof -
  have *: "merge_idx_key3 1 2 3 = Inr 4398050705411"
    by (simp add: merge_idx_key3_def push_bit_eq_mult)
  from merge_idx_key3_inj [OF * *] * show ?thesis by simp
qed

lemma merge_keys_overrun:
  assumes "len < 64" "\<forall>x\<in>set (drop i keys). x < push_bit len 1" "length keys < i + k" "i \<le> length keys"
  shows "merge_keys len k i keys key = Inl Out_of_bounds"
  using assms
proof (induction k arbitrary: i key)
  case 0
  then show ?case by simp
next
  case (Suc k)
  show ?case
  proof (cases "length keys \<le> i")
    case True
    then show ?thesis by simp
  next
    case False
    then have "keys ! i \<in> set (drop i keys)" by (simp add: Cons_nth_drop_Suc [symmetric])
    with Suc.prems(2) have "keys ! i < push_bit len 1" by blast
    moreover have "set (drop (Suc i) keys) \<subseteq> set (drop i keys)" by (simp add: set_drop_subset_set_drop)
    with Suc.prems(2) have "\<forall>x\<in>set (drop (Suc i) keys). x < push_bit len 1" by blast
    ultimately show ?thesis using Suc.IH [of "Suc i"] Suc.prems False by simp
  qed
qed

text \<open>the array overload of \<^verbatim>\<open>merge_idx_key\<close> runs its loop \<^verbatim>\<open>64 / key_cnt\<close> times instead of
  \<^verbatim>\<open>key_cnt\<close> times: for two to seven keys that satisfy its assertion it reads past the end of the
  caller's array.\<close>

theorem merge_idx_key_overrun:
  assumes "2 \<le> length keys" and "length keys \<le> 7"
    and "\<forall>x\<in>set keys. x < push_bit (64 div length keys) 1"
  shows "merge_idx_key (length keys) keys = Inl Out_of_bounds"
proof -
  have "length keys \<in> {2, 3, 4, 5, 6, 7}" using assms(1,2) by auto
  then have "64 div length keys < 64" "length keys < 64 div length keys" by auto
  then show ?thesis
    using assms by (auto simp: merge_idx_key_def intro: merge_keys_overrun)
qed

theorem merge_idx_key_overrun_witness: "merge_idx_key 2 [5, 7] = Inl Out_of_bounds"
  using merge_idx_key_overrun [of "[5, 7]"] by (simp add: numeral_2_eq_2 [symmetric])

text \<open>the generator keeps its state below \<open>2 ^ 63\<close> and \<^verbatim>\<open>next\<close> returns a number below
  \<^verbatim>\<open>RAND_MAX\<close>, whatever the seed.\<close>

theorem myrand_bounds:
  assumes "0 < RAND_MAX"
  shows "fst (myrand_next RAND_MAX seed) < RAND_MAX \<and> snd (myrand_next RAND_MAX seed) < 2 ^ 63 \<and>
     snd (myrand_next_unlimited seed) < 2 ^ 63"
proof -
  have "x mod m < m" if "0 < m" for x m :: "64 word"
    using that by (simp add: word_less_nat_alt unat_mod_distrib)
  from this [OF assms] this [of "2 ^ 63"] show ?thesis
    by (simp add: myrand_next_def myrand_next_unlimited_def myrand_step_def push_bit_eq_mult Let_def)
qed

theorem myrand_bounds_witness: "fst (myrand_next 2147483647 42) < 2147483647"
  using myrand_bounds [of 2147483647 42] by simp

end
