(* ===== verification/DL_detect.thy ===== *)
theory DL_detect
  imports Helper
begin

text \<open>
  The deadlock detector \<^verbatim>\<open>concurrency_control/dl_detect.cpp\<close>: one record per worker thread with
  the transaction it runs and the transactions that one waits for, and a depth-first search that
  looks for a loop. Each record has a latch of its own and the search holds at most one at a time, so the
  table can change between any two of its reads: the search takes the table as a sequence \<open>D\<close>, where
  \<open>D n\<close> is what it looks like at the \<open>n\<close>-th moment, and counts the moments. A table that does not
  change is the constant sequence. The search takes fuel, one unit per nested call of \<^verbatim>\<open>nextNode\<close>;
  the number of threads is enough, because every call visits a new thread.
\<close>

subsection \<open>State\<close>

text \<open>\<^verbatim>\<open>txnid\<close> is a signed field whose value -1 means invalid; it is only compared for equality.\<close>

record DepThd =
  dep_adj :: "txnid_t list"
  dep_txnid :: "64 word"
  dep_num_locks :: int

type_synonym dep_tab = "nat \<Rightarrow> DepThd"

record DetectData =
  visited :: "nat \<Rightarrow> bool"
  recStack :: "nat \<Rightarrow> bool"
  loop :: bool
  onloop :: bool
  loopstart :: int
  min_lock_num :: int
  min_txnid :: "64 word"

subsection \<open>Operations\<close>

definition add_dep :: "bool \<Rightarrow> nat \<Rightarrow> txnid_t \<Rightarrow> txnid_t list \<Rightarrow> int \<Rightarrow> dep_tab \<Rightarrow> dep_tab" where
  "add_dep g_no_dl V txnid1 txnids num_locks dep =
     (if g_no_dl then dep
      else let thd1 = get_thdid_from_txnid V txnid1
           in dep(thd1 := (dep thd1)\<lparr>dep_txnid := txnid1, dep_num_locks := num_locks,
                                    dep_adj := dep_adj (dep thd1) @ txnids\<rparr>))"

definition clear_dep :: "bool \<Rightarrow> nat \<Rightarrow> txnid_t \<Rightarrow> dep_tab \<Rightarrow> dep_tab" where
  "clear_dep g_no_dl V txnid dep =
     (if g_no_dl then dep
      else let thd = get_thdid_from_txnid V txnid
           in dep(thd := \<lparr>dep_adj = [], dep_txnid = - 1, dep_num_locks = 0\<rparr>))"

text \<open>The cast \<^verbatim>\<open>(SInt32)txnids[n]\<close>, converted back to 64 bits for the comparison.\<close>

definition SInt32_cast :: "64 word \<Rightarrow> 64 word" where
  "SInt32_cast x = scast (ucast x :: 32 word)"

text \<open>\<^verbatim>\<open>nextNode\<close> copies one record under its latch; the loop over the copied list then reads the transaction ids
  of other records without a latch, twice for each element.\<close>

fun nextNode :: "(nat \<Rightarrow> dep_tab) \<Rightarrow> nat \<Rightarrow> nat \<Rightarrow> nat \<Rightarrow> txnid_t \<Rightarrow> DetectData \<Rightarrow> fault + (bool \<times> nat \<times> DetectData)"
  and next_loop :: "(nat \<Rightarrow> dep_tab) \<Rightarrow> nat \<Rightarrow> nat \<Rightarrow> nat \<Rightarrow> txnid_t list \<Rightarrow> DetectData \<Rightarrow> fault + (nat \<times> DetectData)" where
  "nextNode D V 0 n txnid dd = Inl Spinning"
| "nextNode D V (Suc fuel) n txnid dd =
     (let thd = get_thdid_from_txnid V txnid in
      bindE (assert_that (\<not> visited dd thd)) (\<lambda>_.
      let dd = dd\<lparr>visited := (visited dd)(thd := True), recStack := (recStack dd)(thd := True)\<rparr>;
          entry = D n thd; lock_num = dep_num_locks entry
      in if dep_txnid entry \<noteq> txnid then Inr (False, Suc n, dd\<lparr>recStack := (recStack dd)(thd := False)\<rparr>)
         else bindE (next_loop D V fuel (Suc n) (dep_adj entry) dd) (\<lambda>(n, dd).
           let dd = dd\<lparr>recStack := (recStack dd)(thd := False)\<rparr>;
               dd = (if loop dd \<and> onloop dd \<and> lock_num < min_lock_num dd
                     then dd\<lparr>min_lock_num := lock_num, min_txnid := txnid\<rparr> else dd);
               dd = (if int thd = loopstart dd then dd\<lparr>onloop := False\<rparr> else dd)
           in Inr (loop dd, n, dd))))"
| "next_loop D V fuel n [] dd = Inr (n, dd)"
| "next_loop D V fuel n (x # xs) dd =
     (let nextthd = get_thdid_from_txnid V x in
      if recStack dd nextthd \<and> SInt32_cast x = dep_txnid (D n nextthd)
      then Inr (Suc n, dd\<lparr>loop := True, onloop := True, loopstart := int nextthd\<rparr>)
      else if \<not> visited dd nextthd \<and> dep_txnid (D (Suc n) nextthd) = x
      then bindE (nextNode D V fuel (Suc (Suc n)) x dd) (\<lambda>(r, n', dd'). if r then Inr (n', dd') else next_loop D V fuel n' xs dd')
      else next_loop D V fuel (Suc (Suc n)) xs dd)"

text \<open>The fields \<^verbatim>\<open>onloop\<close> and \<^verbatim>\<open>loopstart\<close> of the allocated search state are not initialised by
  the code; their values are arguments.\<close>

definition DetectData_init :: "bool \<Rightarrow> int \<Rightarrow> DetectData" where
  "DetectData_init onloop0 loopstart0 =
     \<lparr>visited = (\<lambda>_. False), recStack = (\<lambda>_. False), loop = False, onloop = onloop0,
      loopstart = loopstart0, min_lock_num = 1000, min_txnid = - 1\<rparr>"

definition set_lock_abort :: "txn_ptr \<Rightarrow> txn_tab \<Rightarrow> txn_tab" where
  "set_lock_abort t T = T(t := (T t)\<lparr>lock_abort := True\<rparr>)"

text \<open>\<open>get_txn_man\<close> maps a thread to its transaction manager (\<^verbatim>\<open>Manager::get_txn_man\<close>).\<close>

definition detect_cycle ::
  "bool \<Rightarrow> bool \<Rightarrow> int \<Rightarrow> nat \<Rightarrow> (nat \<Rightarrow> txn_ptr) \<Rightarrow> txnid_t \<Rightarrow> (nat \<Rightarrow> dep_tab) \<Rightarrow> txn_tab
     \<Rightarrow> fault + (int \<times> txn_tab)" where
  "detect_cycle g_no_dl onloop0 loopstart0 V get_txn_man txnid D T =
     (if g_no_dl then Inr (0, T)
      else bindE (nextNode D V V 0 txnid (DetectData_init onloop0 loopstart0)) (\<lambda>(deadlock, n, dd).
        if deadlock then
          let thd_to_abort = get_thdid_from_txnid V (min_txnid dd)
          in Inr (1, if dep_txnid (D n thd_to_abort) = min_txnid dd
                     then set_lock_abort (get_txn_man thd_to_abort) T else T)
        else Inr (0, T)))"

subsection \<open>The waits-for graph\<close>

text \<open>The edges the table has at any moments: a thread's record lists a transaction at one, and its thread runs that transaction at
  another. For a table that does not change this is its waits-for graph.\<close>

definition dep_edge :: "(nat \<Rightarrow> dep_tab) \<Rightarrow> nat \<Rightarrow> (nat \<times> nat) set" where
  "dep_edge D V = {(i, j). \<exists>n m. \<exists>x\<in>set (dep_adj (D n i)). get_thdid_from_txnid V x = j \<and> dep_txnid (D m j) = x}"

definition frozen :: "(nat \<Rightarrow> dep_tab) \<Rightarrow> bool" where
  "frozen D \<longleftrightarrow> (\<forall>n. D n = D 0)"

definition reaches_loop :: "(nat \<Rightarrow> dep_tab) \<Rightarrow> nat \<Rightarrow> nat \<Rightarrow> bool" where
  "reaches_loop D V i \<longleftrightarrow> (\<exists>c. (i, c) \<in> (dep_edge D V)\<^sup>* \<and> (c, c) \<in> (dep_edge D V)\<^sup>+)"

lemma reaches_loop_edge: "(i, j) \<in> dep_edge D V \<Longrightarrow> reaches_loop D V j \<Longrightarrow> reaches_loop D V i"
  unfolding reaches_loop_def by (meson converse_rtrancl_into_rtrancl)

lemma reaches_loop_next:
  assumes "reaches_loop D V i"
  shows "\<exists>j. (i, j) \<in> dep_edge D V \<and> reaches_loop D V j"
proof -
  from assms obtain c where c: "(i, c) \<in> (dep_edge D V)\<^sup>*" "(c, c) \<in> (dep_edge D V)\<^sup>+"
    unfolding reaches_loop_def by blast
  then have "(i, c) \<in> (dep_edge D V)\<^sup>+" by (simp add: rtrancl_trancl_trancl)
  then obtain j where "(i, j) \<in> dep_edge D V" "(j, c) \<in> (dep_edge D V)\<^sup>*" by (meson tranclD)
  with c(2) show ?thesis unfolding reaches_loop_def by blast
qed

definition unvisited :: "nat \<Rightarrow> DetectData \<Rightarrow> nat" where
  "unvisited V dd = card {i. i < V \<and> \<not> visited dd i}"

text \<open>The state of the search while no loop has been found: the nodes it has finished reach no loop,
  if the table does not change, and the nodes on its stack reach the current one.\<close>

definition search_ok :: "(nat \<Rightarrow> dep_tab) \<Rightarrow> nat \<Rightarrow> nat \<Rightarrow> DetectData \<Rightarrow> bool" where
  "search_ok D V cur dd \<longleftrightarrow>
     \<not> loop dd \<and> min_lock_num dd = 1000 \<and>
     (\<forall>i. recStack dd i \<longrightarrow> visited dd i \<and> (i, cur) \<in> (dep_edge D V)\<^sup>*) \<and>
     (frozen D \<longrightarrow> (\<forall>i. visited dd i \<and> \<not> recStack dd i \<longrightarrow> \<not> reaches_loop D V i))"

definition victim_on_loop :: "(nat \<Rightarrow> dep_tab) \<Rightarrow> nat \<Rightarrow> DetectData \<Rightarrow> bool" where
  "victim_on_loop D V dd \<longleftrightarrow>
     (let v = get_thdid_from_txnid V (min_txnid dd)
      in (frozen D \<longrightarrow> dep_txnid (D 0 v) = min_txnid dd) \<and> (v, v) \<in> (dep_edge D V)\<^sup>+)"

text \<open>When the loop closes no victim is chosen yet; the first node to unwind is the first candidate.\<close>

definition victim_ok :: "(nat \<Rightarrow> dep_tab) \<Rightarrow> nat \<Rightarrow> DetectData \<Rightarrow> bool" where
  "victim_ok D V dd \<longleftrightarrow> onloop dd \<and> min_lock_num dd = 1000 \<or> victim_on_loop D V dd"

definition loop_found :: "(nat \<Rightarrow> dep_tab) \<Rightarrow> nat \<Rightarrow> nat \<Rightarrow> DetectData \<Rightarrow> bool" where
  "loop_found D V cur dd \<longleftrightarrow>
     reaches_loop D V cur \<and> victim_ok D V dd \<and>
     (onloop dd \<longrightarrow> (\<exists>l. loopstart dd = int l \<and> recStack dd l \<and> (cur, l) \<in> (dep_edge D V)\<^sup>+))"

definition search_grows :: "DetectData \<Rightarrow> DetectData \<Rightarrow> bool" where
  "search_grows dd dd' \<longleftrightarrow> recStack dd' = recStack dd \<and> (\<forall>i. visited dd i \<longrightarrow> visited dd' i)"

definition node_post :: "(nat \<Rightarrow> dep_tab) \<Rightarrow> nat \<Rightarrow> nat \<Rightarrow> DetectData \<Rightarrow> (bool \<times> DetectData) \<Rightarrow> bool" where
  "node_post D V thd dd = (\<lambda>(r, dd').
     r = loop dd' \<and> search_grows dd dd' \<and> visited dd' thd \<and>
     (if loop dd' then loop_found D V thd dd' \<and> victim_on_loop D V dd'
      else min_lock_num dd' = 1000 \<and> (frozen D \<longrightarrow> (\<forall>i. visited dd' i \<and> \<not> recStack dd' i \<longrightarrow> \<not> reaches_loop D V i))))"

definition loop_post :: "(nat \<Rightarrow> dep_tab) \<Rightarrow> nat \<Rightarrow> nat \<Rightarrow> txnid_t list \<Rightarrow> DetectData \<Rightarrow> DetectData \<Rightarrow> bool" where
  "loop_post D V cur xs dd dd' \<longleftrightarrow>
     search_grows dd dd' \<and>
     (if loop dd' then loop_found D V cur dd'
      else search_ok D V cur dd' \<and>
        (frozen D \<longrightarrow> (\<forall>x\<in>set xs. dep_txnid (D 0 (get_thdid_from_txnid V x)) = x \<longrightarrow>
           visited dd' (get_thdid_from_txnid V x) \<and> \<not> recStack dd' (get_thdid_from_txnid V x))))"

lemma unvisited_mono: "\<forall>i. visited dd i \<longrightarrow> visited dd' i \<Longrightarrow> unvisited V dd' \<le> unvisited V dd"
  unfolding unvisited_def by (rule card_mono) auto

lemma unvisited_mark:
  assumes "t < V" "\<not> visited dd t"
  shows "unvisited V dd = Suc (unvisited V (dd\<lparr>visited := (visited dd)(t := True), recStack := R\<rparr>))"
proof -
  let ?U = "{i. i < V \<and> \<not> visited dd i}"
  have "{i. i < V \<and> \<not> visited (dd\<lparr>visited := (visited dd)(t := True), recStack := R\<rparr>) i} = ?U - {t}"
    by auto
  moreover have "card ?U = Suc (card (?U - {t}))"
    by (rule card.remove) (use assms in auto)
  ultimately show ?thesis unfolding unvisited_def by simp
qed

lemma loop_found_edge:
  assumes "(cur, t) \<in> dep_edge D V" "loop_found D V t dd"
  shows "loop_found D V cur dd"
  using assms reaches_loop_edge [OF assms(1)] unfolding loop_found_def by (meson trancl_into_trancl2)

definition locks_small :: "dep_tab \<Rightarrow> bool" where
  "locks_small dep \<longleftrightarrow> (\<forall>i. dep_num_locks (dep i) < 1000)"

definition ids_small :: "dep_tab \<Rightarrow> bool" where
  "ids_small dep \<longleftrightarrow> (\<forall>i. \<forall>x\<in>set (dep_adj (dep i)). unat x < 2 ^ 31)"

lemma SInt32_cast_small: "unat x < 2 ^ 31 \<Longrightarrow> SInt32_cast x = x"
proof -
  assume "unat x < 2 ^ 31"
  then have x: "take_bit 31 x = x"
    using word_less_exp_iff_bits [of 31 x] by (simp add: word_less_nat_alt)
  show "SInt32_cast x = x"
  proof (rule bit_word_eqI)
    fix n assume "n < LENGTH(64)"
    have "\<not> bit x m" if "31 \<le> m" for m using x that by (metis bit_take_bit_iff not_le)
    then show "bit (SInt32_cast x) n = bit x n"
      using \<open>n < LENGTH(64)\<close> by (auto simp: SInt32_cast_def bit_simps min_def not_less)
  qed
qed

lemma dep_edge_iff:
  "(i, j) \<in> dep_edge D V \<longleftrightarrow> (\<exists>n m. \<exists>x\<in>set (dep_adj (D n i)). get_thdid_from_txnid V x = j \<and> dep_txnid (D m j) = x)"
  by (simp add: dep_edge_def)

lemma frozenD: "frozen D \<Longrightarrow> D n = D 0"
  unfolding frozen_def by blast

lemma frozen_edge: "frozen D \<Longrightarrow> (i, j) \<in> dep_edge D V \<longleftrightarrow> (\<exists>x\<in>set (dep_adj (D 0 i)). get_thdid_from_txnid V x = j \<and> dep_txnid (D 0 j) = x)"
  unfolding dep_edge_iff by (metis frozenD)

lemma nextNode_step:
  fixes dd :: DetectData
  defines "dd1 t \<equiv> dd\<lparr>visited := (visited dd)(t := True), recStack := (recStack dd)(t := True)\<rparr>"
  assumes t: "t = get_thdid_from_txnid V x" "\<not> visited dd t" "dep_txnid (D n t) = x"
    and ok: "search_ok D V t dd" and locks: "\<And>n. locks_small (D n)"
    and lp: "next_loop D V fuel (Suc n) (dep_adj (D n t)) (dd1 t) = Inr (n', dd2)"
      "loop_post D V t (dep_adj (D n t)) (dd1 t) dd2"
  shows "\<exists>r n' dd'. nextNode D V (Suc fuel) n x dd = Inr (r, n', dd') \<and> node_post D V t dd (r, dd')"
proof -
  let ?dd3 = "dd2\<lparr>recStack := (recStack dd2)(t := False)\<rparr>"
  let ?dd4 = "if loop ?dd3 \<and> onloop ?dd3 \<and> dep_num_locks (D n t) < min_lock_num ?dd3
              then ?dd3\<lparr>min_lock_num := dep_num_locks (D n t), min_txnid := x\<rparr> else ?dd3"
  let ?dd5 = "if int t = loopstart ?dd4 then ?dd4\<lparr>onloop := False\<rparr> else ?dd4"
  have run: "nextNode D V (Suc fuel) n x dd = Inr (loop ?dd5, n', ?dd5)"
    using t lp(1) by (simp add: Let_def dd1_def)
  have nrec: "\<not> recStack dd t" using ok t(2) by (auto simp: search_ok_def)
  have grow: "recStack dd2 = (recStack dd)(t := True)" "\<forall>i. visited dd i \<or> i = t \<longrightarrow> visited dd2 i"
    using lp(2) by (auto simp: loop_post_def search_grows_def dd1_def)
  have rec: "recStack ?dd5 = recStack dd" using grow(1) nrec by (auto simp: fun_eq_iff)
  have vis: "visited ?dd5 = visited dd2" and lps: "loop ?dd5 = loop dd2" by auto
  have base: "search_grows dd ?dd5" "visited ?dd5 t"
    using rec vis grow(2) by (auto simp: search_grows_def)
  show ?thesis
  proof (cases "loop dd2")
    case False
    then have ok2: "search_ok D V t dd2"
      and succ: "frozen D \<longrightarrow> (\<forall>y\<in>set (dep_adj (D n t)). dep_txnid (D 0 (get_thdid_from_txnid V y)) = y \<longrightarrow>
           visited dd2 (get_thdid_from_txnid V y) \<and> \<not> recStack dd2 (get_thdid_from_txnid V y))"
      using lp(2) unfolding loop_post_def by presburger+
    have "\<not> reaches_loop D V t" if fr: "frozen D"
    proof
      assume "reaches_loop D V t"
      then obtain j where "(t, j) \<in> dep_edge D V" "reaches_loop D V j" using reaches_loop_next by blast
      with succ ok2 fr frozenD [OF fr, of n] show False unfolding frozen_edge [OF fr] search_ok_def by auto
    qed
    moreover have "\<not> reaches_loop D V i" if "frozen D" "visited dd2 i" "\<not> recStack dd i" "i \<noteq> t" for i
      using ok2 that grow(1) unfolding search_ok_def by simp
    moreover have "min_lock_num ?dd5 = 1000" using ok2 False by (simp add: search_ok_def)
    ultimately have "node_post D V t dd (loop ?dd5, ?dd5)"
      unfolding node_post_def prod.case rec vis lps using base False vis rec by auto
    then show ?thesis using run by blast
  next
    case True
    then have lf: "loop_found D V t dd2" using lp(2) unfolding loop_post_def by presburger
    have cyc: "(t, t) \<in> (dep_edge D V)\<^sup>+" if "onloop dd2"
    proof -
      from lf that obtain l where l: "recStack dd2 l" "(t, l) \<in> (dep_edge D V)\<^sup>+"
        unfolding loop_found_def by blast
      then have "(l, t) \<in> (dep_edge D V)\<^sup>*" using grow(1) ok unfolding search_ok_def by (cases "l = t") auto
      with l(2) show ?thesis by (rule trancl_rtrancl_trancl)
    qed
    have "dep_num_locks (D n t) < 1000" using locks unfolding locks_small_def by blast
    moreover have "frozen D \<longrightarrow> dep_txnid (D 0 t) = x" using t(3) frozenD [of D n] by auto
    ultimately have vic: "victim_on_loop D V ?dd5"
      using lf cyc t True unfolding loop_found_def victim_ok_def victim_on_loop_def by (auto simp: Let_def)
    moreover have "\<exists>l. loopstart ?dd5 = int l \<and> recStack dd l \<and> (t, l) \<in> (dep_edge D V)\<^sup>+" if on: "onloop ?dd5"
    proof -
      have "onloop dd2" "int t \<noteq> loopstart dd2" using on by (auto split: if_splits)
      with lf grow(1) show ?thesis unfolding loop_found_def by (auto split: if_splits)
    qed
    ultimately have "loop_found D V t ?dd5"
      using lf unfolding loop_found_def victim_ok_def rec by blast
    then have "node_post D V t dd (loop ?dd5, ?dd5)"
      unfolding node_post_def prod.case using base True lps vic by presburger
    then show ?thesis using run by blast
  qed
qed

text \<open>A thread that has turned to another transaction since its id was read ends its own search at once.\<close>

lemma nextNode_stale:
  assumes "t = get_thdid_from_txnid V x" "\<not> visited dd t" "dep_txnid (D n t) \<noteq> x" "search_ok D V t dd" "frozen D \<longrightarrow> dep_txnid (D 0 t) = x"
  shows "\<exists>dd'. nextNode D V (Suc fuel) n x dd = Inr (False, Suc n, dd') \<and> node_post D V t dd (False, dd')"
proof -
  let ?dd = "dd\<lparr>visited := (visited dd)(t := True), recStack := (recStack dd)(t := False)\<rparr>"
  have "\<not> recStack dd t" "\<not> frozen D" using assms frozenD [of D n] by (auto simp: search_ok_def)
  then have "node_post D V t dd (False, ?dd)"
    using assms(4) by (auto simp: node_post_def search_grows_def search_ok_def fun_eq_iff)
  moreover have "nextNode D V (Suc fuel) n x dd = Inr (False, Suc n, ?dd)" using assms(1-3) by (simp add: Let_def)
  ultimately show ?thesis by blast
qed

lemma next_loop_step:
  assumes V: "0 < V" and small: "\<And>n. ids_small (D n)"
    and node: "\<And>x n dd. search_ok D V (get_thdid_from_txnid V x) dd \<Longrightarrow> \<not> visited dd (get_thdid_from_txnid V x) \<Longrightarrow>
      frozen D \<longrightarrow> dep_txnid (D 0 (get_thdid_from_txnid V x)) = x \<Longrightarrow> unvisited V dd \<le> fuel \<Longrightarrow>
      \<exists>r n' dd'. nextNode D V fuel n x dd = Inr (r, n', dd') \<and> node_post D V (get_thdid_from_txnid V x) dd (r, dd')"
  shows "search_ok D V cur dd \<Longrightarrow> recStack dd cur \<Longrightarrow> set xs \<subseteq> set (dep_adj (D k cur)) \<Longrightarrow>
    unvisited V dd \<le> fuel \<Longrightarrow> \<exists>n' dd'. next_loop D V fuel n xs dd = Inr (n', dd') \<and> loop_post D V cur xs dd dd'"
proof (induction xs arbitrary: n dd)
  case Nil
  then show ?case by (auto simp: loop_post_def search_grows_def search_ok_def)
next
  case (Cons x xs)
  let ?t = "get_thdid_from_txnid V x"
  have x: "x \<in> set (dep_adj (D k cur))" "SInt32_cast x = x"
    using Cons.prems(3) small [of k] SInt32_cast_small unfolding ids_small_def by auto
  have edge: "(cur, ?t) \<in> dep_edge D V" if "dep_txnid (D m ?t) = x" for m
    using x(1) that unfolding dep_edge_iff by blast
  consider (found) "recStack dd ?t" "dep_txnid (D n ?t) = x"
    | (visit) "\<not> visited dd ?t" "dep_txnid (D (Suc n) ?t) = x"
    | (skip) "\<not> (recStack dd ?t \<and> dep_txnid (D n ?t) = x)" "\<not> (\<not> visited dd ?t \<and> dep_txnid (D (Suc n) ?t) = x)" by blast
  then show ?case
  proof cases
    case found
    let ?dd = "dd\<lparr>loop := True, onloop := True, loopstart := int ?t\<rparr>"
    have "(?t, cur) \<in> (dep_edge D V)\<^sup>*" using Cons.prems(1) found(1) by (auto simp: search_ok_def)
    then have "(cur, cur) \<in> (dep_edge D V)\<^sup>+" using edge [OF found(2)] by (rule rtrancl_into_trancl2 [rotated])
    then have "loop_found D V cur ?dd"
      using Cons.prems(1) found edge
      by (auto simp: loop_found_def reaches_loop_def victim_ok_def search_ok_def)
    then have "loop_post D V cur (x # xs) dd ?dd" by (simp add: loop_post_def search_grows_def)
    moreover have "next_loop D V fuel n (x # xs) dd = Inr (Suc n, ?dd)" using found x(2) by (simp add: Let_def)
    ultimately show ?thesis by blast
  next
    case visit
    have nrec: "\<not> recStack dd ?t" using visit(1) Cons.prems(1) by (auto simp: search_ok_def)
    have "search_ok D V ?t dd"
      using Cons.prems(1) edge [OF visit(2)] unfolding search_ok_def by (meson rtrancl.rtrancl_into_rtrancl)
    moreover have "frozen D \<longrightarrow> dep_txnid (D 0 ?t) = x" using visit(2) frozenD [of D "Suc n"] by auto
    ultimately obtain n1 dd' where
      run: "nextNode D V fuel (Suc (Suc n)) x dd = Inr (loop dd', n1, dd')" and post: "node_post D V ?t dd (loop dd', dd')"
      using node [of x dd "Suc (Suc n)"] visit(1) Cons.prems(4) by (auto simp: node_post_def)
    show ?thesis
    proof (cases "loop dd'")
      case True
      then have "loop_post D V cur (x # xs) dd dd'"
        using post loop_found_edge [OF edge [OF visit(2)]] unfolding loop_post_def node_post_def by auto
      moreover have "next_loop D V fuel n (x # xs) dd = Inr (n1, dd')"
        using visit nrec run True by (simp add: Let_def)
      ultimately show ?thesis by blast
    next
      case False
      have p: "search_grows dd dd'" "visited dd' ?t" "min_lock_num dd' = 1000"
        "frozen D \<longrightarrow> (\<forall>i. visited dd' i \<and> \<not> recStack dd' i \<longrightarrow> \<not> reaches_loop D V i)"
        using post False unfolding node_post_def prod.case by presburger+
      have ok': "search_ok D V cur dd'" "recStack dd' cur" "unvisited V dd' \<le> fuel"
        using p False Cons.prems(1,2,4) unvisited_mono [of dd dd' V]
        unfolding search_ok_def search_grows_def by auto
      have "set xs \<subseteq> set (dep_adj (D k cur))" using Cons.prems(3) by simp
      from Cons.IH [OF ok'(1,2) this ok'(3)] obtain n2 dd'' where
        IH: "next_loop D V fuel n1 xs dd' = Inr (n2, dd'')" "loop_post D V cur xs dd' dd''" by blast
      have "loop_post D V cur (x # xs) dd dd''"
        using IH(2) p(1,2) nrec unfolding loop_post_def search_grows_def by (auto split: if_splits)
      moreover have "next_loop D V fuel n (x # xs) dd = Inr (n2, dd'')"
        using visit nrec run False IH(1) by (simp add: Let_def)
      ultimately show ?thesis by blast
    qed
  next
    case skip
    have "set xs \<subseteq> set (dep_adj (D k cur))" using Cons.prems(3) by simp
    from Cons.IH [OF Cons.prems(1,2) this Cons.prems(4)] obtain n' dd' where
      IH: "next_loop D V fuel (Suc (Suc n)) xs dd = Inr (n', dd')" "loop_post D V cur xs dd dd'" by blast
    have "next_loop D V fuel n (x # xs) dd = Inr (n', dd')" using skip x(2) IH(1) by (auto simp: Let_def)
    moreover have "visited dd ?t \<and> \<not> recStack dd ?t" if "frozen D" "dep_txnid (D 0 ?t) = x"
      using skip that frozenD [OF that(1), of n] frozenD [OF that(1), of "Suc n"] by auto
    then have "loop_post D V cur (x # xs) dd dd'"
      using IH(2) unfolding loop_post_def search_grows_def by (auto split: if_splits)
    ultimately show ?thesis by blast
  qed
qed

lemma nextNode_spec:
  assumes V: "0 < V" and small: "\<And>n. ids_small (D n)" "\<And>n. locks_small (D n)"
  shows "search_ok D V (get_thdid_from_txnid V x) dd \<Longrightarrow> \<not> visited dd (get_thdid_from_txnid V x) \<Longrightarrow>
      frozen D \<longrightarrow> dep_txnid (D 0 (get_thdid_from_txnid V x)) = x \<Longrightarrow> unvisited V dd \<le> fuel \<Longrightarrow>
      \<exists>r n' dd'. nextNode D V fuel n x dd = Inr (r, n', dd') \<and> node_post D V (get_thdid_from_txnid V x) dd (r, dd')"
proof (induction fuel arbitrary: x n dd)
  case 0
  have "get_thdid_from_txnid V x \<in> {i. i < V \<and> \<not> visited dd i}" using 0(2) V by simp
  then have "unvisited V dd \<noteq> 0" unfolding unvisited_def by (subst card_0_eq) auto
  with 0 show ?case by simp
next
  case (Suc fuel)
  let ?t = "get_thdid_from_txnid V x"
  let ?dd = "dd\<lparr>visited := (visited dd)(?t := True), recStack := (recStack dd)(?t := True)\<rparr>"
  show ?case
  proof (cases "dep_txnid (D n ?t) = x")
    case True
    have ok: "search_ok D V ?t ?dd" using Suc.prems(1) by (auto simp: search_ok_def)
    have "unvisited V ?dd \<le> fuel"
      using unvisited_mark [of ?t V dd "(recStack dd)(?t := True)"] Suc.prems(2,4) V by simp
    moreover have "recStack ?dd ?t" by simp
    ultimately have "\<exists>n2 dd2. next_loop D V fuel (Suc n) (dep_adj (D n ?t)) ?dd = Inr (n2, dd2) \<and>
        loop_post D V ?t (dep_adj (D n ?t)) ?dd dd2"
      by (intro next_loop_step [OF V small(1) Suc.IH ok]) (rule subset_refl | assumption)+
    then obtain n2 dd2 where
      "next_loop D V fuel (Suc n) (dep_adj (D n ?t)) ?dd = Inr (n2, dd2)" "loop_post D V ?t (dep_adj (D n ?t)) ?dd dd2" by blast
    from nextNode_step [OF refl Suc.prems(2) True Suc.prems(1) small(2) this] show ?thesis .
  next
    case False
    from nextNode_stale [OF refl Suc.prems(2) False Suc.prems(1,3)] show ?thesis by blast
  qed
qed

text \<open>C32: The deadlock detector, when transaction ids are below \<open>2 ^ 31\<close> and no transaction holds 1000 locks
  (it has at most \<^verbatim>\<open>MAX_ROW_PER_TXN\<close> rows). Whatever the other threads do to the table meanwhile, \<^verbatim>\<open>detect_cycle\<close> returns:
  no assertion fails, the search ends, and the two fields it never initialises do not matter. When it reports a deadlock, the
  caller reaches a loop of edges each of which it has seen, though not all at one moment, and the only
  transaction it may tell to abort is that of a thread on such a loop. For a table that does not change meanwhile and has
  the caller's transaction registered, it reports a deadlock exactly when the caller reaches a loop, and then one thread on a
  loop is told to abort.\<close>

theorem detect_cycle_exact:
  assumes "0 < V" "\<And>n. ids_small (D n)" "\<And>n. locks_small (D n)"
  shows "\<exists>r T'. detect_cycle False onloop0 loopstart0 V man txnid D T = Inr (r, T') \<and>
     (r = 0 \<and> T' = T \<or> r = 1 \<and> reaches_loop D V (get_thdid_from_txnid V txnid) \<and>
        (\<exists>v. (v, v) \<in> (dep_edge D V)\<^sup>+ \<and> (T' = set_lock_abort (man v) T \<or> T' = T \<and> \<not> frozen D))) \<and>
     (frozen D \<and> dep_txnid (D 0 (get_thdid_from_txnid V txnid)) = txnid \<longrightarrow>
        (r = 1 \<longleftrightarrow> reaches_loop D V (get_thdid_from_txnid V txnid)))"
proof -
  let ?dd = "DetectData_init onloop0 loopstart0" and ?t = "get_thdid_from_txnid V txnid"
  have ok: "search_ok D V ?t ?dd" "\<not> visited ?dd ?t" "unvisited V ?dd \<le> V"
    by (auto simp: search_ok_def DetectData_init_def unvisited_def)
  show ?thesis
  proof (cases "frozen D \<and> dep_txnid (D 0 ?t) \<noteq> txnid")
    case True
    obtain f where "V = Suc f" using assms(1) by (cases V) simp_all
    then have "\<exists>dd. nextNode D V V 0 txnid ?dd = Inr (False, 1, dd)" using True ok(2) by (simp add: Let_def)
    then show ?thesis using True by (auto simp: detect_cycle_def)
  next
    case False
    then obtain n' dd' where
      run: "nextNode D V V 0 txnid ?dd = Inr (loop dd', n', dd')" and post: "node_post D V ?t ?dd (loop dd', dd')"
      using nextNode_spec [OF assms ok(1,2) _ ok(3), of 0] by (auto simp: node_post_def)
    show ?thesis
    proof (cases "loop dd'")
      case True
      then have "reaches_loop D V ?t" "victim_on_loop D V dd'"
        using post unfolding node_post_def prod.case loop_found_def by presburger+
      with True run frozenD [of D n'] show ?thesis by (auto simp: detect_cycle_def victim_on_loop_def Let_def)
    next
      case False
      then have "frozen D \<longrightarrow> \<not> reaches_loop D V ?t"
        using post unfolding node_post_def prod.case search_grows_def by (auto simp: DetectData_init_def)
      with False run show ?thesis by (auto simp: detect_cycle_def)
    qed
  qed
qed

subsection \<open>Two transactions that wait for each other\<close>

definition two_deps :: "txnid_t \<Rightarrow> txnid_t \<Rightarrow> dep_tab" where
  "two_deps a b = (\<lambda>_. \<lparr>dep_adj = [], dep_txnid = - 1, dep_num_locks = 0\<rparr>)
     (0 := \<lparr>dep_adj = [b], dep_txnid = a, dep_num_locks = 2\<rparr>,
      1 := \<lparr>dep_adj = [a], dep_txnid = b, dep_num_locks = 1\<rparr>)"

lemma two_deps_add:
  "two_deps 0 1 = add_dep False 2 1 [0] 1 (add_dep False 2 0 [1] 2
     (clear_dep False 2 0 (clear_dep False 2 1 (\<lambda>_. \<lparr>dep_adj = [], dep_txnid = - 1, dep_num_locks = 0\<rparr>))))"
  by (auto simp: two_deps_def add_dep_def clear_dep_def get_thdid_from_txnid_def Let_def fun_eq_iff)

text \<open>The table as it stays while the detector runs.\<close>

abbreviation steady :: "dep_tab \<Rightarrow> nat \<Rightarrow> dep_tab" where
  "steady dep \<equiv> \<lambda>_. dep"

lemma frozen_steady [simp]: "frozen (steady dep)"
  by (simp add: frozen_def)

lemma two_deps_loop: "reaches_loop (steady (two_deps 0 1)) 2 0"
proof -
  have "(0, 1) \<in> dep_edge (steady (two_deps 0 1)) 2" "(1, 0) \<in> dep_edge (steady (two_deps 0 1)) 2"
    by (auto simp: dep_edge_def two_deps_def get_thdid_from_txnid_def)
  then have "(0, 0) \<in> (dep_edge (steady (two_deps 0 1)) 2)\<^sup>+" by (meson trancl.simps)
  then show ?thesis unfolding reaches_loop_def by blast
qed

theorem detect_cycle_exact_witness:
  "\<forall>T. \<exists>v. detect_cycle False True 7 2 id 0 (steady (two_deps 0 1)) T = Inr (1, set_lock_abort (id v) T) \<and>
     (v, v) \<in> (dep_edge (steady (two_deps 0 1)) 2)\<^sup>+"
proof
  fix T
  have "ids_small (two_deps 0 1)" "locks_small (two_deps 0 1)"
    by (auto simp: ids_small_def locks_small_def two_deps_def)
  moreover have "dep_txnid (two_deps 0 1 (get_thdid_from_txnid 2 0)) = 0" "get_thdid_from_txnid 2 0 = 0"
    by (simp_all add: get_thdid_from_txnid_def two_deps_def)
  ultimately show "\<exists>v. detect_cycle False True 7 2 id 0 (steady (two_deps 0 1)) T = Inr (1, set_lock_abort (id v) T) \<and>
     (v, v) \<in> (dep_edge (steady (two_deps 0 1)) 2)\<^sup>+"
    using detect_cycle_exact [of 2 "steady (two_deps 0 1)" True 7 id 0 T] two_deps_loop by auto
qed

text \<open>The cast to \<^verbatim>\<open>SInt32\<close> in \<^verbatim>\<open>nextNode\<close> makes the detector miss deadlocks once transaction
  ids reach \<open>2 ^ 31\<close>: two transactions with such ids wait for each other, the graph has a loop, and
  \<^verbatim>\<open>detect_cycle\<close> reports none.\<close>

theorem detect_cycle_misses_large_ids:
  "detect_cycle False onloop0 loopstart0 2 man 2147483648 (steady (two_deps 2147483648 2147483649)) T = Inr (0, T) \<and>
   reaches_loop (steady (two_deps 2147483648 2147483649)) 2 0"
proof
  let ?D = "two_deps 2147483648 2147483649"
  have c: "SInt32_cast 2147483648 = 18446744071562067968" "SInt32_cast 2147483649 = 18446744071562067969"
    and t: "get_thdid_from_txnid 2 2147483648 = 0" "get_thdid_from_txnid 2 2147483649 = 1"
    by (simp_all add: SInt32_cast_def get_thdid_from_txnid_def)
  have "\<exists>n dd. nextNode (steady ?D) 2 (Suc (Suc 0)) 0 2147483648 (DetectData_init onloop0 loopstart0) = Inr (False, n, dd)"
    by (simp add: DetectData_init_def two_deps_def c t Let_def)
  moreover have "Suc (Suc 0) = 2" by simp
  ultimately show "detect_cycle False onloop0 loopstart0 2 man 2147483648 (steady ?D) T = Inr (0, T)"
    unfolding detect_cycle_def by auto
  have "(0, 1) \<in> dep_edge (steady (two_deps 2147483648 2147483649)) 2" "(1, 0) \<in> dep_edge (steady (two_deps 2147483648 2147483649)) 2"
    by (auto simp: dep_edge_def two_deps_def get_thdid_from_txnid_def)
  then have "(0, 0) \<in> (dep_edge (steady (two_deps 2147483648 2147483649)) 2)\<^sup>+" by (meson trancl.simps)
  then show "reaches_loop (steady (two_deps 2147483648 2147483649)) 2 0" unfolding reaches_loop_def by blast
qed

end
