(* ===== verification/Lock_word.thy ===== *)
theory Lock_word
  imports Base
begin

text \<open>
  What \<^verbatim>\<open>row_silo\<close> and \<^verbatim>\<open>row_tictoc\<close> share: a row's 64-bit word whose top bit is a lock
  (\<^verbatim>\<open>LOCK_BIT\<close>) and whose other bits hold the version; the memory of all rows; the loops of
  \<^verbatim>\<open>validate_silo\<close> and \<^verbatim>\<open>validate_tictoc\<close> that bubble-sort the write set by primary key and lock
  it row by row. The locale \<open>lock_word\<close> states what the loops need of the word: its version does
  not depend on the lock bit. The other threads are a list of transformers of the memory, one for each
  time the code executes \<^verbatim>\<open>PAUSE\<close> in a retry loop.
\<close>

subsection \<open>The lock bit\<close>

definition LOCK_BIT :: "64 word" where
  "LOCK_BIT = push_bit 63 1"

definition is_locked :: "64 word \<Rightarrow> bool" where
  "is_locked v \<longleftrightarrow> v AND LOCK_BIT \<noteq> 0"

text \<open>\<^verbatim>\<open>__sync_bool_compare_and_swap\<close> and the try-lock built on it: the word is loaded, other threads
  may change it (\<open>env\<close>), then the compare-and-swap runs.\<close>

definition CAS :: "64 word \<Rightarrow> 64 word \<Rightarrow> 64 word \<Rightarrow> bool \<times> 64 word" where
  "CAS old new w = (if w = old then (True, new) else (False, w))"

definition word_try_lock :: "(64 word \<Rightarrow> 64 word) \<Rightarrow> 64 word \<Rightarrow> bool \<times> 64 word" where
  "word_try_lock env w =
     (let v = w in if is_locked v then (False, w) else CAS v (v OR LOCK_BIT) (env w))"

definition word_release :: "64 word \<Rightarrow> 64 word" where
  "word_release w = w AND NOT LOCK_BIT"

lemma bit_LOCK_BIT [simp]: "bit LOCK_BIT n \<longleftrightarrow> n = 63"
  unfolding LOCK_BIT_def bit_push_bit_iff by (auto simp: bit_1_iff)

lemma is_locked_bit: "is_locked v \<longleftrightarrow> bit v 63"
proof
  assume "is_locked v"
  then have "\<exists>n. bit (v AND LOCK_BIT) n" unfolding is_locked_def by (metis bit_0_eq bot_apply bot_bool_def bit_eq_iff)
  then show "bit v 63" by (auto simp: bit_and_iff)
next
  assume "bit v 63"
  then have "bit (v AND LOCK_BIT) 63" by (simp add: bit_and_iff)
  then show "is_locked v" by (auto simp: is_locked_def)
qed

lemma is_locked_or [simp]: "is_locked (v OR LOCK_BIT)"
  by (simp add: is_locked_bit bit_or_iff)

lemma is_locked_release [simp]: "\<not> is_locked (word_release v)"
  by (simp add: is_locked_bit word_release_def bit_and_iff bit_not_iff)

lemma word_release_unlocked [simp]: "\<not> is_locked v \<Longrightarrow> word_release v = v"
  by (rule bit_word_eqI) (auto simp: is_locked_bit word_release_def bit_simps)

lemma word_release_or [simp]: "word_release (v OR LOCK_BIT) = word_release v"
  by (rule bit_word_eqI) (auto simp: word_release_def bit_simps)

lemma unlocked_take_bit: "\<not> is_locked v \<longleftrightarrow> take_bit 63 v = v"
proof
  assume "\<not> is_locked v"
  then have n: "\<not> bit v 63" by (simp add: is_locked_bit)
  show "take_bit 63 v = v"
  proof (rule bit_word_eqI)
    fix k assume "k < LENGTH(64)"
    then have "k < 63 \<or> k = 63" by auto
    with n show "bit (take_bit 63 v) k = bit v k" by (auto simp: bit_take_bit_iff)
  qed
next
  assume "take_bit 63 v = v"
  then have "bit v 63 = bit (take_bit 63 v) 63" by simp
  then show "\<not> is_locked v" by (simp add: is_locked_bit bit_take_bit_iff)
qed

lemma is_locked_iff_ge: "is_locked v \<longleftrightarrow> 2 ^ 63 \<le> unat v"
proof -
  have "is_locked v \<longleftrightarrow> \<not> v < push_bit 63 1"
    using unlocked_take_bit [of v] word_less_exp_iff_bits [of 63 v] by auto
  also have "\<dots> \<longleftrightarrow> 2 ^ 63 \<le> unat v" by (simp add: word_less_nat_alt not_less)
  finally show ?thesis .
qed

text \<open>A try-lock is atomic whatever the other threads do between its load and its compare-and-swap:
  it reports success exactly when the word was unlocked and nobody changed it, and then only the lock
  bit is set; when it reports failure it has written nothing.\<close>

theorem try_lock_atomic:
  "fst (word_try_lock env w) = (\<not> is_locked w \<and> env w = w) \<and>
   (\<not> is_locked w \<and> env w = w \<longrightarrow> word_try_lock env w = (True, w OR LOCK_BIT) \<and> word_release (w OR LOCK_BIT) = w) \<and>
   (is_locked w \<longrightarrow> word_try_lock env w = (False, w)) \<and>
   (\<not> is_locked w \<and> env w \<noteq> w \<longrightarrow> word_try_lock env w = (False, env w))"
  by (auto simp: word_try_lock_def CAS_def)

theorem try_lock_atomic_witness: "word_try_lock id 5 = (True, 9223372036854775813)"
proof -
  have "\<not> is_locked 5" by (simp add: is_locked_iff_ge)
  moreover have "(5::64 word) OR LOCK_BIT = 9223372036854775813" by (simp add: LOCK_BIT_def)
  ultimately show ?thesis using try_lock_atomic [of id 5] by simp
qed

subsection \<open>Bubble sort of the write set\<close>

text \<open>One pass compares neighbours \<open>0 .. i - 1\<close>; the outer loop runs the pass for
  \<^verbatim>\<open>i = n - 1, ..., 1\<close>.\<close>

fun bubble_pass :: "('a \<Rightarrow> 'k::linorder) \<Rightarrow> nat \<Rightarrow> 'a list \<Rightarrow> 'a list" where
  "bubble_pass key 0 xs = xs"
| "bubble_pass key (Suc i) (x # y # zs) =
     (if key x > key y then y # bubble_pass key i (x # zs) else x # bubble_pass key i (y # zs))"
| "bubble_pass key (Suc i) xs = xs"

fun bubble_loop :: "('a \<Rightarrow> 'k::linorder) \<Rightarrow> nat \<Rightarrow> 'a list \<Rightarrow> 'a list" where
  "bubble_loop key 0 xs = xs"
| "bubble_loop key (Suc i) xs = bubble_loop key i (bubble_pass key (Suc i) xs)"

definition bubble_sort :: "('a \<Rightarrow> 'k::linorder) \<Rightarrow> 'a list \<Rightarrow> 'a list" where
  "bubble_sort key xs = bubble_loop key (length xs - 1) xs"

lemma mset_bubble_pass [simp]: "mset (bubble_pass key i xs) = mset xs"
  by (induction key i xs rule: bubble_pass.induct) auto

lemma length_bubble_pass [simp]: "length (bubble_pass key i xs) = length xs"
  by (metis mset_bubble_pass size_mset)

lemma mset_bubble_loop [simp]: "mset (bubble_loop key i xs) = mset xs"
  by (induction key i xs rule: bubble_loop.induct) auto

lemma mset_bubble_sort [simp]: "mset (bubble_sort key xs) = mset xs"
  by (simp add: bubble_sort_def)

text \<open>A pass over the first \<open>i + 1\<close> elements moves their maximum to position \<open>i\<close>.\<close>

lemma bubble_pass_max:
  "i < length xs \<Longrightarrow>
     drop (Suc i) (bubble_pass key i xs) = drop (Suc i) xs \<and>
     (\<forall>y\<in>set (take (Suc i) xs). key y \<le> key (bubble_pass key i xs ! i)) \<and>
     mset (take (Suc i) (bubble_pass key i xs)) = mset (take (Suc i) xs)"
proof (induction key i xs rule: bubble_pass.induct)
  case (1 key xs)
  then show ?case by (cases xs) auto
next
  case (2 key i x y zs)
  show ?case
  proof (cases "key x > key y")
    case True
    with "2.IH"(1) [OF True] "2.prems" show ?thesis by (auto intro: order.trans [OF less_imp_le])
  next
    case False
    with "2.IH"(2) [OF False] "2.prems" show ?thesis by (auto simp: not_less intro: order.trans)
  qed
qed auto

lemma sorted_nth_step:
  assumes "i < length xs" "\<forall>y\<in>set (take (Suc i) xs). key y \<le> key (xs ! i)"
    and "sorted_wrt (\<lambda>a b. key a \<le> key b) (drop (Suc i) xs)"
    and "\<forall>y\<in>set (take (Suc i) xs). \<forall>z\<in>set (drop (Suc i) xs). key y \<le> (key z :: 'k::linorder)"
  shows "sorted_wrt (\<lambda>a b. key a \<le> key b) (drop i xs)" "\<forall>y\<in>set (take i xs). \<forall>z\<in>set (drop i xs). key y \<le> key z"
proof -
  have d: "drop i xs = xs ! i # drop (Suc i) xs" using assms(1) by (simp add: Cons_nth_drop_Suc)
  have t: "set (take i xs) \<subseteq> set (take (Suc i) xs)" by (simp add: set_take_subset_set_take)
  have m: "xs ! i \<in> set (take (Suc i) xs)" using assms(1) by (simp add: take_Suc_conv_app_nth)
  show "sorted_wrt (\<lambda>a b. key a \<le> key b) (drop i xs)" using assms(3,4) m by (simp add: d)
  show "\<forall>y\<in>set (take i xs). \<forall>z\<in>set (drop i xs). key y \<le> key z" using assms(2,4) t by (auto simp: d)
qed

lemma bubble_loop_sorted:
  "i < length xs \<Longrightarrow> sorted_wrt (\<lambda>a b. key a \<le> key b) (drop (Suc i) xs) \<Longrightarrow>
   \<forall>y\<in>set (take (Suc i) xs). \<forall>z\<in>set (drop (Suc i) xs). key y \<le> (key z :: 'k::linorder) \<Longrightarrow>
   sorted_wrt (\<lambda>a b. key a \<le> key b) (bubble_loop key i xs)"
proof (induction i arbitrary: xs)
  case 0
  then show ?case by (cases xs) auto
next
  case (Suc i)
  let ?ys = "bubble_pass key (Suc i) xs"
  note P = bubble_pass_max [OF Suc.prems(1), of key]
  have eq: "drop (Suc (Suc i)) ?ys = drop (Suc (Suc i)) xs"
    "set (take (Suc (Suc i)) ?ys) = set (take (Suc (Suc i)) xs)"
    using P mset_eq_setD by blast+
  have len: "Suc i < length ?ys" using Suc.prems(1) by simp
  have mx: "\<forall>y\<in>set (take (Suc (Suc i)) ?ys). key y \<le> key (?ys ! Suc i)" unfolding eq(2) using P by blast
  have "sorted_wrt (\<lambda>a b. key a \<le> key b) (drop (Suc i) ?ys)"
    "\<forall>y\<in>set (take (Suc i) ?ys). \<forall>z\<in>set (drop (Suc i) ?ys). key y \<le> key z"
    using sorted_nth_step [OF len mx] Suc.prems(2,3) unfolding eq by blast+
  then show ?case using Suc.IH [of ?ys] Suc.prems(1) by simp
qed

text \<open>The nested loops of \<^verbatim>\<open>validate_silo\<close> and \<^verbatim>\<open>validate_tictoc\<close> sort the write set: the result
  is a permutation of the input in ascending primary-key order, so all transactions lock rows in one
  global order.\<close>

theorem bubble_sort_sorts:
  "mset (bubble_sort key xs) = mset xs \<and> sorted_wrt (\<lambda>a b. key a \<le> key b) (bubble_sort key xs)"
proof
  show "sorted_wrt (\<lambda>a b. key a \<le> key b) (bubble_sort key xs)"
  proof (cases "xs = []")
    case False
    then show ?thesis unfolding bubble_sort_def by (intro bubble_loop_sorted) auto
  qed (simp add: bubble_sort_def)
qed simp

text \<open>The write set as sorted indices into the array of accesses.\<close>

lemma filter_nth_map: "map (nth xs) [i \<leftarrow> [0..<length xs]. P (xs ! i)] = filter P xs"
  using filter_map [of P "nth xs" "[0..<length xs]"] by (simp add: map_nth comp_def)

lemma sorted_index_set:
  fixes key :: "nat \<Rightarrow> 'k::linorder"
  defines "ws xs P \<equiv> bubble_sort key [i \<leftarrow> [0..<length xs]. P (xs ! i)]"
  shows "set (ws xs P) = {i. i < length xs \<and> P (xs ! i)}"
    "mset (map f (map (nth xs) (ws xs P))) = mset (map f (filter P xs))"
proof -
  let ?ws = "[i \<leftarrow> [0..<length xs]. P (xs ! i)]"
  have m: "mset (ws xs P) = mset ?ws" by (simp add: ws_def)
  then have "set (ws xs P) = set ?ws" by (rule mset_eq_setD)
  then show "set (ws xs P) = {i. i < length xs \<and> P (xs ! i)}" by auto
  have "mset (map f (map (nth xs) (ws xs P))) = mset (map f (map (nth xs) ?ws))"
    using m by (simp only: mset_map)
  then show "mset (map f (map (nth xs) (ws xs P))) = mset (map f (filter P xs))"
    by (simp only: filter_nth_map)
qed

subsection \<open>Memory and the other threads\<close>

type_synonym word_tab = "row_ptr \<Rightarrow> 64 word"

record 'd mem =
  words :: word_tab
  image :: "'d row_tab"

text \<open>What the other threads do to the memory during one \<^verbatim>\<open>PAUSE\<close>, given the rows this thread has
  locked; \<open>rely\<close> says that they leave those rows alone.\<close>

type_synonym 'd env = "row_ptr list \<Rightarrow> 'd mem \<Rightarrow> 'd mem"

definition rely :: "'d env \<Rightarrow> bool" where
  "rely e \<longleftrightarrow> (\<forall>h M. \<forall>r\<in>set h. words (e h M) r = words M r \<and> image (e h M) r = image M r)"

subsection \<open>Locking the write set\<close>

datatype lock_outcome = All_locked | Busy | Changed

text \<open>One round of the no-wait loop over the rows of the write set with the versions recorded when they
  were read: stop at the first row that is taken (\<open>Busy\<close>) or whose version has changed. The result
  holds the rows locked so far, \<^verbatim>\<open>write_set[0 .. num_locks)\<close>.\<close>

fun lock_rows ::
  "(64 word \<Rightarrow> 64 word) \<Rightarrow> (row_ptr \<times> 64 word) list \<Rightarrow> word_tab \<Rightarrow> lock_outcome \<times> row_ptr list \<times> word_tab" where
  "lock_rows ver [] W = (All_locked, [], W)"
| "lock_rows ver ((r, v) # rs) W =
     (let (ok, w) = word_try_lock id (W r) in
      if \<not> ok then (Busy, [], W(r := w))
      else if ver w \<noteq> v then (Changed, [r], W(r := w))
      else let (oc, got, W') = lock_rows ver rs (W(r := w)) in (oc, r # got, W'))"

fun release_rows :: "(64 word \<Rightarrow> fault + 64 word) \<Rightarrow> row_ptr list \<Rightarrow> word_tab \<Rightarrow> fault + word_tab" where
  "release_rows rel [] W = Inr W"
| "release_rows rel (r # rs) W = bindE (rel (W r)) (\<lambda>w. release_rows rel rs (W(r := w)))"

text \<open>\<^verbatim>\<open>while (!done)\<close>: retry the round; after a busy round release what was locked, look at the versions
  again when \<^verbatim>\<open>_pre_abort\<close> is set (\<open>recheck\<close>), and pause. The boolean result tells whether all rows
  are locked (otherwise the transaction aborts).\<close>

fun nowait_lock ::
  "(64 word \<Rightarrow> 64 word) \<Rightarrow> (64 word \<Rightarrow> fault + 64 word) \<Rightarrow> ('d mem \<Rightarrow> bool) \<Rightarrow> (row_ptr \<times> 64 word) list
     \<Rightarrow> 'd env list \<Rightarrow> 'd mem \<Rightarrow> fault + (bool \<times> row_ptr list \<times> 'd env list \<times> 'd mem)" where
  "nowait_lock ver rel recheck rs envs M =
     (case lock_rows ver rs (words M) of
        (All_locked, got, W) \<Rightarrow> Inr (True, got, envs, M\<lparr>words := W\<rparr>)
      | (Changed, got, W) \<Rightarrow> Inr (False, got, envs, M\<lparr>words := W\<rparr>)
      | (Busy, got, W) \<Rightarrow>
          bindE (release_rows rel got W) (\<lambda>W1.
          let M1 = M\<lparr>words := W1\<rparr> in
          if \<not> recheck M1 then Inr (False, [], envs, M1)
          else case envs of
                 [] \<Rightarrow> Inl Spinning
               | e # es \<Rightarrow> nowait_lock ver rel recheck rs es (e [] M1)))"

declare nowait_lock.simps [simp del]

text \<open>The waiting variant: \<^verbatim>\<open>lock()\<close> spins on each row in turn.\<close>

fun spin_lock :: "row_ptr list \<Rightarrow> row_ptr \<Rightarrow> 'd env list \<Rightarrow> 'd mem \<Rightarrow> fault + ('d env list \<times> 'd mem)" where
  "spin_lock held r envs M =
     (if \<not> is_locked (words M r) then Inr (envs, M\<lparr>words := (words M)(r := words M r OR LOCK_BIT)\<rparr>)
      else case envs of [] \<Rightarrow> Inl Spinning | e # es \<Rightarrow> spin_lock held r es (e held M))"

declare spin_lock.simps [simp del]

fun wait_lock ::
  "(64 word \<Rightarrow> 64 word) \<Rightarrow> row_ptr list \<Rightarrow> (row_ptr \<times> 64 word) list
     \<Rightarrow> 'd env list \<Rightarrow> 'd mem \<Rightarrow> fault + (bool \<times> row_ptr list \<times> 'd env list \<times> 'd mem)" where
  "wait_lock ver held [] envs M = Inr (True, held, envs, M)"
| "wait_lock ver held ((r, v) # rs) envs M =
     bindE (spin_lock held r envs M) (\<lambda>(envs1, M1).
     if ver (words M1 r) \<noteq> v then Inr (False, held @ [r], envs1, M1)
     else wait_lock ver (held @ [r]) rs envs1 M1)"

definition lock_set :: "row_ptr list \<Rightarrow> word_tab \<Rightarrow> word_tab" where
  "lock_set R W = (\<lambda>r. if r \<in> set R then W r OR LOCK_BIT else W r)"

definition unlock_set :: "row_ptr list \<Rightarrow> word_tab \<Rightarrow> word_tab" where
  "unlock_set R W = (\<lambda>r. if r \<in> set R then word_release (W r) else W r)"

lemma unlock_lock_set: "\<forall>r\<in>set R. \<not> is_locked (W r) \<Longrightarrow> unlock_set R (lock_set R W) = W"
  by (auto simp: unlock_set_def lock_set_def fun_eq_iff)

lemma lock_set_Cons: "r \<notin> set R \<Longrightarrow> lock_set R (W(r := W r OR LOCK_BIT)) = lock_set (r # R) W"
  by (auto simp: lock_set_def fun_eq_iff)

lemma try_lock_id: "word_try_lock id w = (if is_locked w then (False, w) else (True, w OR LOCK_BIT))"
  by (simp add: word_try_lock_def CAS_def)

text \<open>What the lock phase hands to the rest of the validation: the rows it locked, and, when it
  succeeded, every row of the write set with the version recorded for it.\<close>

definition locked_phase :: "(64 word \<Rightarrow> 64 word) \<Rightarrow> (row_ptr \<times> 64 word) list \<Rightarrow> bool \<Rightarrow> row_ptr list \<Rightarrow> 'd mem \<Rightarrow> bool" where
  "locked_phase ver rs ok got M \<longleftrightarrow>
     distinct got \<and> set got \<subseteq> fst ` set rs \<and> (\<forall>r\<in>set got. is_locked (words M r)) \<and>
     (ok \<longrightarrow> got = map fst rs \<and> (\<forall>(r, v)\<in>set rs. ver (words M r) = v))"

locale lock_word =
  fixes ver :: "64 word \<Rightarrow> 64 word" and rel :: "64 word \<Rightarrow> fault + 64 word"
  assumes ver_lock: "ver (v OR LOCK_BIT) = ver v"
    and rel_locked: "is_locked w \<Longrightarrow> rel w = Inr (word_release w)"
begin

lemma release_rows_eq:
  "distinct R \<Longrightarrow> \<forall>r\<in>set R. is_locked (W r) \<Longrightarrow> release_rows rel R W = Inr (unlock_set R W)"
proof (induction R arbitrary: W)
  case Nil
  then show ?case by (simp add: unlock_set_def)
next
  case (Cons r R)
  then have "release_rows rel (r # R) W = Inr (unlock_set R (W(r := word_release (W r))))"
    by (simp add: rel_locked)
  also have "unlock_set R (W(r := word_release (W r))) = unlock_set (r # R) W"
    using Cons.prems(1) by (auto simp: unlock_set_def fun_eq_iff)
  finally show ?case .
qed

lemma lock_rows_spec:
  "distinct (map fst rs) \<Longrightarrow> lock_rows ver rs W = (oc, got, W') \<Longrightarrow>
     W' = lock_set got W \<and> distinct got \<and> set got \<subseteq> fst ` set rs \<and> (\<forall>r\<in>set got. \<not> is_locked (W r)) \<and>
     (oc = All_locked \<longrightarrow> got = map fst rs \<and> (\<forall>(r, v)\<in>set rs. ver (W r) = v)) \<and>
     (oc = Busy \<longrightarrow> (\<exists>r\<in>fst ` set rs. is_locked (W r)))"
proof (induction rs arbitrary: W oc got W')
  case Nil
  then show ?case by (auto simp: lock_set_def)
next
  case (Cons rv rs)
  obtain r v where rv: "rv = (r, v)" by (cases rv)
  show ?case
  proof (cases "is_locked (W r) \<or> ver (W r) \<noteq> v")
    case True
    with Cons.prems(2) show ?thesis
      by (auto simp: rv try_lock_id ver_lock lock_set_def fun_eq_iff split: if_splits)
  next
    case False
    let ?W = "W(r := W r OR LOCK_BIT)"
    obtain oc1 got1 W1 where rec: "lock_rows ver rs ?W = (oc1, got1, W1)" by (metis prod_cases3)
    with Cons.prems(2) False have res: "oc = oc1" "got = r # got1" "W' = W1"
      by (auto simp: rv try_lock_id ver_lock)
    have r: "r \<notin> fst ` set rs" "distinct (map fst rs)" using Cons.prems(1) by (auto simp: rv)
    note IH = Cons.IH [OF r(2) rec]
    have old: "?W q = W q" if "q \<in> fst ` set rs" for q using that r(1) by auto
    have "r \<notin> set got1" using IH r(1) by blast
    then have W': "W' = lock_set got W" using IH lock_set_Cons [of r got1 W] unfolding res by blast
    note I2 = conjunct2 [OF IH] and I3 = conjunct2 [OF conjunct2 [OF IH]]
    note I4 = conjunct2 [OF I3]
    note I = conjunct1 [OF I2] conjunct1 [OF I3] conjunct1 [OF I4] conjunct1 [OF conjunct2 [OF I4]]
      conjunct2 [OF conjunct2 [OF I4]]
    have u1: "\<forall>q\<in>set got1. \<not> is_locked (W q)"
    proof
      fix q assume q: "q \<in> set got1"
      have "q \<noteq> r" using q \<open>r \<notin> set got1\<close> by blast
      with bspec [OF I(3) q] show "\<not> is_locked (W q)" by simp
    qed
    have u2: "oc1 = Busy \<longrightarrow> (\<exists>q\<in>fst ` set rs. is_locked (W q))"
    proof
      assume "oc1 = Busy"
      with I(5) obtain q where "q \<in> fst ` set rs" "is_locked (?W q)" by (blast dest: mp)
      with old show "\<exists>q\<in>fst ` set rs. is_locked (W q)" by (intro bexI [of _ q]) simp_all
    qed
    have u3: "ver (W q) = u" if "oc1 = All_locked" "(q, u) \<in> set rs" for q u
    proof -
      have "q \<in> fst ` set rs" using that(2) by (rule image_eqI [rotated]) simp
      moreover have "ver (?W q) = u" using I(4) that by (fastforce simp del: fun_upd_apply)
      ultimately show ?thesis using old by simp
    qed
    show ?thesis
      using W' I(1,2,4) u1 u2 u3 False \<open>r \<notin> set got1\<close> unfolding res(1,2) rv by auto
  qed
qed

lemma lock_rows_phase:
  assumes "distinct (map fst rs)" "lock_rows ver rs (words M) = (oc, got, W)" "oc \<noteq> Busy"
  shows "locked_phase ver rs (oc = All_locked) got (M\<lparr>words := W\<rparr>)"
proof -
  note spec = lock_rows_spec [OF assms(1,2)]
  have "ver (W r) = v" if "oc = All_locked" "(r, v) \<in> set rs" for r v
  proof -
    have "W r = words M r OR LOCK_BIT" "ver (words M r) = v"
      using spec that by (force simp: lock_set_def)+
    then show ?thesis by (simp add: ver_lock)
  qed
  moreover have "\<forall>r\<in>set got. is_locked (W r)" using spec by (simp add: lock_set_def)
  ultimately show ?thesis using spec by (auto simp: locked_phase_def)
qed

text \<open>A busy round changes nothing in the end.\<close>

lemma busy_round:
  assumes "distinct (map fst rs)" "lock_rows ver rs (words M) = (Busy, got, W)"
  shows "release_rows rel got W = Inr (words M)" "\<exists>r\<in>fst ` set rs. is_locked (words M r)"
proof -
  note spec = lock_rows_spec [OF assms]
  have "release_rows rel got W = Inr (unlock_set got W)"
    using spec by (intro release_rows_eq) (auto simp: lock_set_def)
  then show "release_rows rel got W = Inr (words M)" using spec unlock_lock_set [of got "words M"] by simp
  show "\<exists>r\<in>fst ` set rs. is_locked (words M r)" using spec by blast
qed

lemma nowait_lock_busy:
  assumes "distinct (map fst rs)" "lock_rows ver rs (words M) = (Busy, got, W)"
  shows "nowait_lock ver rel recheck rs envs M =
     (if \<not> recheck M then Inr (False, [], envs, M)
      else case envs of [] \<Rightarrow> Inl Spinning | e # es \<Rightarrow> nowait_lock ver rel recheck rs es (e [] M))"
proof -
  have "M\<lparr>words := words M\<rparr> = M" by simp
  with assms(2) busy_round(1) [OF assms] show ?thesis by (subst nowait_lock.simps) (simp only: prod.case lock_outcome.case bindE_Inr Let_def)
qed

lemma nowait_lock_ready:
  assumes "lock_rows ver rs (words M) = (oc, got, W)" "oc \<noteq> Busy"
  shows "nowait_lock ver rel recheck rs envs M = Inr (oc = All_locked, got, envs, M\<lparr>words := W\<rparr>)"
  using assms by (subst nowait_lock.simps) (cases oc; simp)

lemma nowait_lock_spec:
  assumes "distinct (map fst rs)"
  shows "nowait_lock ver rel recheck rs envs M = Inr (ok, got, envs', M') \<Longrightarrow> locked_phase ver rs ok got M'"
proof (induction envs arbitrary: M)
  case Nil
  obtain oc g W where L: "lock_rows ver rs (words M) = (oc, g, W)" by (metis prod_cases3)
  show ?case
  proof (cases "oc = Busy")
    case True
    with Nil nowait_lock_busy [OF assms, of M g W] L show ?thesis
      by (auto simp: locked_phase_def split: if_splits)
  next
    case False
    from Nil nowait_lock_ready [OF L False] lock_rows_phase [OF assms L False] show ?thesis by simp
  qed
next
  case (Cons e es)
  obtain oc g W where L: "lock_rows ver rs (words M) = (oc, g, W)" by (metis prod_cases3)
  show ?case
  proof (cases "oc = Busy")
    case True
    with Cons.prems nowait_lock_busy [OF assms, of M g W] L Cons.IH [of "e [] M"] show ?thesis
      by (auto simp: locked_phase_def split: if_splits)
  next
    case False
    from Cons.prems nowait_lock_ready [OF L False] lock_rows_phase [OF assms L False] show ?thesis by simp
  qed
qed

text \<open>The loop only goes on while some row of the write set is locked at every attempt.\<close>

lemma nowait_lock_spins:
  assumes "distinct (map fst rs)"
  shows "nowait_lock ver rel recheck rs envs M = Inl f \<Longrightarrow>
     f = Spinning \<and> (\<forall>k\<le>length envs. \<exists>r\<in>fst ` set rs. is_locked (words (fold (\<lambda>e. e []) (take k envs) M) r))"
proof (induction envs arbitrary: M)
  case Nil
  obtain oc g W where L: "lock_rows ver rs (words M) = (oc, g, W)" by (metis prod_cases3)
  have "oc = Busy" using Nil nowait_lock_ready [OF L] by fastforce
  with L have B: "lock_rows ver rs (words M) = (Busy, g, W)" by simp
  from Nil nowait_lock_busy [OF assms B] busy_round(2) [OF assms B] show ?case by (auto split: if_splits)
next
  case (Cons e es)
  obtain oc g W where L: "lock_rows ver rs (words M) = (oc, g, W)" by (metis prod_cases3)
  have "oc = Busy" using Cons.prems nowait_lock_ready [OF L] by fastforce
  with L have B: "lock_rows ver rs (words M) = (Busy, g, W)" by simp
  have "nowait_lock ver rel recheck rs es (e [] M) = Inl f"
    using Cons.prems nowait_lock_busy [OF assms B, of recheck "e # es"] by (auto split: if_splits)
  note IH = Cons.IH [OF this]
  have "\<exists>r\<in>fst ` set rs. is_locked (words (fold (\<lambda>e. e []) (take k (e # es)) M) r)" if "k \<le> length (e # es)" for k
    using that IH busy_round(2) [OF assms B] by (cases k) auto
  with IH show ?case by blast
qed

text \<open>The memory a no-wait lock phase returns is what the other threads left after some number of
  pauses, with the lock bits of the rows it took.\<close>

lemma nowait_lock_memory:
  assumes "distinct (map fst rs)"
  shows "nowait_lock ver rel recheck rs envs M = Inr (ok, got, envs', M') \<Longrightarrow>
     \<exists>k\<le>length envs. (\<forall>r\<in>set got. \<not> is_locked (words (fold (\<lambda>e. e []) (take k envs) M) r)) \<and>
       M' = (fold (\<lambda>e. e []) (take k envs) M)\<lparr>words := lock_set got (words (fold (\<lambda>e. e []) (take k envs) M))\<rparr>"
proof (induction envs arbitrary: M)
  case Nil
  obtain oc g W where L: "lock_rows ver rs (words M) = (oc, g, W)" by (metis prod_cases3)
  show ?case
  proof (cases "oc = Busy")
    case True
    with Nil nowait_lock_busy [OF assms, of M g W] L show ?thesis
      by (auto simp: lock_set_def split: if_splits)
  next
    case False
    from Nil nowait_lock_ready [OF L False] lock_rows_spec [OF assms L] show ?thesis by auto
  qed
next
  case (Cons e es)
  obtain oc g W where L: "lock_rows ver rs (words M) = (oc, g, W)" by (metis prod_cases3)
  show ?case
  proof (cases "oc = Busy \<and> recheck M")
    case True
    with Cons.prems nowait_lock_busy [OF assms, of M g W] L
    have "nowait_lock ver rel recheck rs es (e [] M) = Inr (ok, got, envs', M')" by simp
    from Cons.IH [OF this] obtain k where "k \<le> length es"
      "(\<forall>r\<in>set got. \<not> is_locked (words (fold (\<lambda>e. e []) (take (Suc k) (e # es)) M) r)) \<and>
       M' = (fold (\<lambda>e. e []) (take (Suc k) (e # es)) M)\<lparr>words := lock_set got (words (fold (\<lambda>e. e []) (take (Suc k) (e # es)) M))\<rparr>"
      by auto
    then show ?thesis by (intro exI [of _ "Suc k"]) simp
  next
    case False
    have "(\<forall>r\<in>set got. \<not> is_locked (words M r)) \<and> M' = M\<lparr>words := lock_set got (words M)\<rparr>"
    proof (cases "oc = Busy")
      case True
      with False Cons.prems nowait_lock_busy [OF assms, of M g W] L show ?thesis
        by (auto simp: lock_set_def)
    next
      case False
      from Cons.prems nowait_lock_ready [OF L False] lock_rows_spec [OF assms L] show ?thesis by auto
    qed
    then show ?thesis by (intro exI [of _ 0]) simp
  qed
qed

lemma spin_lock_spec:
  "spin_lock held r envs M = Inr (envs', M') \<Longrightarrow> \<forall>e\<in>set envs. rely e \<Longrightarrow>
     is_locked (words M' r) \<and> set envs' \<subseteq> set envs \<and>
     (\<forall>q\<in>set held. q \<noteq> r \<longrightarrow> words M' q = words M q \<and> image M' q = image M q)"
proof (induction envs arbitrary: M)
  case Nil
  then show ?case by (subst (asm) spin_lock.simps) (auto split: if_splits)
next
  case (Cons e es)
  show ?case
  proof (cases "is_locked (words M r)")
    case True
    then have "spin_lock held r es (e held M) = Inr (envs', M')"
      using Cons.prems(1) by (subst (asm) spin_lock.simps) simp
    moreover have "rely e" using Cons.prems(2) by simp
    ultimately show ?thesis using Cons.IH [of "e held M"] Cons.prems(2) by (auto simp: rely_def)
  next
    case False
    with Cons.prems(1) show ?thesis by (subst (asm) spin_lock.simps) auto
  qed
qed

lemma wait_lock_spec:
  "wait_lock ver held rs envs M = Inr (ok, got, envs', M') \<Longrightarrow> \<forall>e\<in>set envs. rely e \<Longrightarrow>
   distinct (held @ map fst rs) \<Longrightarrow> \<forall>r\<in>set held. is_locked (words M r) \<Longrightarrow>
   \<exists>more. got = held @ more \<and> distinct got \<and> set more \<subseteq> fst ` set rs \<and> (\<forall>r\<in>set got. is_locked (words M' r)) \<and>
     (\<forall>r\<in>set held. words M' r = words M r \<and> image M' r = image M r) \<and>
     (ok \<longrightarrow> more = map fst rs \<and> (\<forall>(r, v)\<in>set rs. ver (words M' r) = v))"
proof (induction rs arbitrary: held envs M)
  case Nil
  then show ?case by auto
next
  case (Cons rv rs)
  obtain r v where rv: "rv = (r, v)" by (cases rv)
  obtain envs1 M1 where sp: "spin_lock held r envs M = Inr (envs1, M1)"
    and rest: "(if ver (words M1 r) \<noteq> v then Inr (False, held @ [r], envs1, M1)
               else wait_lock ver (held @ [r]) rs envs1 M1) = Inr (ok, got, envs', M')"
    using Cons.prems(1) by (auto simp: rv bindE_eq_Inr)
  note S = spin_lock_spec [OF sp Cons.prems(2)]
  have r: "r \<notin> set held" "distinct ((held @ [r]) @ map fst rs)" using Cons.prems(3) by (auto simp: rv)
  have held: "\<forall>q\<in>set held. words M1 q = words M q \<and> image M1 q = image M q" using S r(1) by auto
  have lk: "\<forall>q\<in>set (held @ [r]). is_locked (words M1 q)" using S held Cons.prems(4) by auto
  show ?case
  proof (cases "ver (words M1 r) = v")
    case False
    with rest have "ok = False" "got = held @ [r]" "M' = M1" by auto
    with lk held r show ?thesis by (auto simp: rv)
  next
    case True
    with rest have rec: "wait_lock ver (held @ [r]) rs envs1 M1 = Inr (ok, got, envs', M')" by simp
    have rel: "\<forall>e\<in>set envs1. rely e" using S Cons.prems(2) by blast
    from Cons.IH [OF rec rel r(2) lk] obtain more where IH: "got = (held @ [r]) @ more" "distinct got"
      "set more \<subseteq> fst ` set rs" "\<forall>q\<in>set got. is_locked (words M' q)"
      "\<forall>q\<in>set (held @ [r]). words M' q = words M1 q \<and> image M' q = image M1 q"
      "ok \<longrightarrow> more = map fst rs \<and> (\<forall>(q, u)\<in>set rs. ver (words M' q) = u)" by blast
    have "got = held @ (r # more)" using IH(1) by simp
    moreover have "\<forall>q\<in>set held. words M' q = words M q \<and> image M' q = image M q" using IH(5) held by simp
    moreover have "ver (words M' r) = v" using IH(5) True by simp
    ultimately show ?thesis using IH(2,3,4,6) by (intro exI [of _ "r # more"]) (auto simp: rv)
  qed
qed

lemma wait_lock_phase:
  assumes "wait_lock ver [] rs envs M = Inr (ok, got, envs', M')" "\<forall>e\<in>set envs. rely e" "distinct (map fst rs)"
  shows "locked_phase ver rs ok got M'"
  using wait_lock_spec [OF assms(1,2)] assms(3) by (auto simp: locked_phase_def)

end

end
