(* ===== verification/Seqlock.thy ===== *)
theory Seqlock
  imports Lock_word
begin

text \<open>
  The optimistic read of \<^verbatim>\<open>Row_silo::access\<close> and \<^verbatim>\<open>Row_tictoc::access\<close>: load the word until it is
  unlocked, copy the row, load the word again and start over unless the two agree. The locale
  \<open>seqlock\<close> states what such a reader needs of the writers of a row (the row does not change between
  two unlocked words that agree) and proves that the copy is then a state the row really had.
\<close>

text \<open>The argument is the row as it is at each memory access of the reader in turn: a load of the word
  or the copy of the row. The result is the word of the first load, the copy, and what is left.\<close>

fun seq_read ::
  "(64 word \<Rightarrow> 64 word \<Rightarrow> bool) \<Rightarrow> (64 word \<times> 'd) list \<Rightarrow> fault + (64 word \<times> 'd \<times> (64 word \<times> 'd) list)" where
  "seq_read same [] = Inl Spinning"
| "seq_read same ((v, _) # rest) =
     (if is_locked v then seq_read same rest
      else case rest of
             (_, d) # (v2, _) # rest' \<Rightarrow> if same v v2 then Inr (v, d, rest') else seq_read same rest'
           | _ \<Rightarrow> Inl Spinning)"

locale seqlock = transition_system init step inv
  for init :: "'s \<Rightarrow> bool" and step :: "'s \<Rightarrow> 's \<Rightarrow> bool" and inv :: "'s \<Rightarrow> bool" +
  fixes wrd :: "'s \<Rightarrow> 64 word" and dat :: "'s \<Rightarrow> 'd" and same :: "64 word \<Rightarrow> 64 word \<Rightarrow> bool"
  assumes stable: "inv s \<Longrightarrow> step\<^sup>*\<^sup>* s m \<Longrightarrow> step\<^sup>*\<^sup>* m t \<Longrightarrow> \<not> is_locked (wrd s) \<Longrightarrow> same (wrd s) (wrd t) \<Longrightarrow>
     dat m = dat s"
begin

lemma seq_read_consistent:
  "seq_read same (map (\<lambda>s. (wrd s, dat s)) ss) = Inr (v, d, rest) \<Longrightarrow> successively (step\<^sup>*\<^sup>*) ss \<Longrightarrow>
     (\<forall>s\<in>set ss. inv s) \<Longrightarrow> \<exists>s\<in>set ss. wrd s = v \<and> \<not> is_locked v \<and> dat s = d"
proof (induction ss rule: length_induct)
  case (1 ss)
  obtain s ss' where ss: "ss = s # ss'" using "1.prems"(1) by (cases ss) auto
  show ?case
  proof (cases "is_locked (wrd s)")
    case True
    then have "seq_read same (map (\<lambda>s. (wrd s, dat s)) ss') = Inr (v, d, rest)" using "1.prems"(1) ss by simp
    moreover have "successively (step\<^sup>*\<^sup>*) ss'" using "1.prems"(2) by (auto simp: ss successively_Cons)
    ultimately show ?thesis using "1.IH" [rule_format, of ss'] "1.prems"(3) ss by auto
  next
    case False
    then obtain m t rest' where rs: "ss' = m # t # rest'"
      using "1.prems"(1) ss by (auto split: list.splits)
    have path: "step\<^sup>*\<^sup>* s m" "step\<^sup>*\<^sup>* m t" "successively (step\<^sup>*\<^sup>*) rest'"
      using "1.prems"(2) by (auto simp: ss rs successively_Cons)
    show ?thesis
    proof (cases "same (wrd s) (wrd t)")
      case True
      then have "v = wrd s" "d = dat m" using "1.prems"(1) False by (auto simp: ss rs)
      with stable [OF _ path(1,2) False True] "1.prems"(3) False show ?thesis by (auto simp: ss)
    next
      case no: False
      then have "seq_read same (map (\<lambda>s. (wrd s, dat s)) rest') = Inr (v, d, rest)"
        using "1.prems"(1) False by (simp add: ss rs)
      then show ?thesis using "1.IH" [rule_format, of rest'] "1.prems"(3) path(3) by (auto simp: ss rs)
    qed
  qed
qed

end

text \<open>A reader that is left alone returns: three accesses of an unlocked row suffice.\<close>

lemma seq_read_quiet: "\<not> is_locked v \<Longrightarrow> same v v \<Longrightarrow> seq_read same ((v, x) # (w, d) # (v, y) # rest) = Inr (v, d, rest)"
  by simp

end
