(* ===== verification/Silo.thy ===== *)
theory Silo
  imports Seqlock
begin

text \<open>
  Silo: the row manager \<^verbatim>\<open>concurrency_control/row_silo.cpp\<close> (with \<^verbatim>\<open>ATOMIC_WORD\<close>, the value
  \<^verbatim>\<open>config.h\<close> sets) and the commit protocol \<^verbatim>\<open>txn_man::validate_silo\<close> of
  \<^verbatim>\<open>concurrency_control/silo.cpp\<close>. The row's word holds the transaction id of the last writer and
  the lock bit.
\<close>

subsection \<open>Row manager\<close>

definition silo_init :: "64 word" where
  "silo_init = 0"

definition silo_get_tid :: "64 word \<Rightarrow> 64 word" where
  "silo_get_tid w = w AND NOT LOCK_BIT"

definition silo_access :: "(64 word \<times> 'd) list \<Rightarrow> fault + (RC \<times> 'd \<times> 64 word)" where
  "silo_access accs =
     bindE (seq_read (\<lambda>v v2. v2 = v) accs) (\<lambda>(v, local_row, _). Inr (RCOK, local_row, v AND NOT LOCK_BIT))"

definition silo_validate :: "64 word \<Rightarrow> bool \<Rightarrow> 64 word \<Rightarrow> bool" where
  "silo_validate tid in_write_set w =
     (let v = w in
      if in_write_set then tid = v AND NOT LOCK_BIT
      else if is_locked v then False
      else if tid \<noteq> v AND NOT LOCK_BIT then False
      else True)"

definition silo_write :: "'d \<Rightarrow> 64 word \<Rightarrow> 64 word \<times> 'd \<Rightarrow> fault + (64 word \<times> 'd)" where
  "silo_write data tid = (\<lambda>(v, _).
     bindE (assert_that (tid > (v AND NOT LOCK_BIT) \<and> is_locked v)) (\<lambda>_. Inr (tid OR LOCK_BIT, data)))"

definition silo_release :: "64 word \<Rightarrow> fault + 64 word" where
  "silo_release w = bindE (assert_that (is_locked w)) (\<lambda>_. Inr (w AND NOT LOCK_BIT))"

definition silo_try_lock :: "(64 word \<Rightarrow> 64 word) \<Rightarrow> 64 word \<Rightarrow> bool \<times> 64 word" where
  "silo_try_lock = word_try_lock"

definition silo_lock :: "row_ptr list \<Rightarrow> row_ptr \<Rightarrow> 'd env list \<Rightarrow> 'd mem \<Rightarrow> fault + ('d env list \<times> 'd mem)" where
  "silo_lock = spin_lock"

lemma silo_get_tid_release: "silo_get_tid w = word_release w"
  by (simp add: silo_get_tid_def word_release_def)

lemma silo_validate_iff:
  "silo_validate tid ws w \<longleftrightarrow> tid = silo_get_tid w \<and> (ws \<or> \<not> is_locked w)"
  by (auto simp: silo_validate_def silo_get_tid_def)

interpretation silo_word: lock_word silo_get_tid silo_release
  by unfold_locales (simp_all add: silo_get_tid_release silo_release_def word_release_def [symmetric])

subsection \<open>The commit protocol\<close>

record 'd silo_acc =
  sa_type :: access_t
  sa_row :: row_ptr
  sa_data :: 'd
  sa_tid :: "64 word"

text \<open>The split of the accesses into write set and read set, as lists of indices; the write set is
  bubble-sorted by primary key (\<open>pk\<close> is \<^verbatim>\<open>row_t::get_primary_key\<close>).\<close>

definition silo_write_set :: "(row_ptr \<Rightarrow> 64 word) \<Rightarrow> 'd silo_acc list \<Rightarrow> nat list" where
  "silo_write_set pk accs =
     bubble_sort (\<lambda>i. pk (sa_row (accs ! i))) [i \<leftarrow> [0..<length accs]. sa_type (accs ! i) = WR]"

definition silo_read_set :: "'d silo_acc list \<Rightarrow> nat list" where
  "silo_read_set accs = [i \<leftarrow> [0..<length accs]. sa_type (accs ! i) \<noteq> WR]"

text \<open>The loops that compare the current with the recorded ids and leave at the first difference.\<close>

fun silo_unchanged :: "'d silo_acc list \<Rightarrow> nat list \<Rightarrow> word_tab \<Rightarrow> bool" where
  "silo_unchanged accs [] W = True"
| "silo_unchanged accs (i # is) W =
     (if silo_get_tid (W (sa_row (accs ! i))) \<noteq> sa_tid (accs ! i) then False else silo_unchanged accs is W)"

text \<open>The validation loops; \<open>None\<close> is the abort, \<open>Some\<close> the running maximum \<^verbatim>\<open>max_tid\<close>.\<close>

fun silo_validate_set :: "bool \<Rightarrow> 'd silo_acc list \<Rightarrow> nat list \<Rightarrow> word_tab \<Rightarrow> 64 word \<Rightarrow> 64 word option" where
  "silo_validate_set ws accs [] W max_tid = Some max_tid"
| "silo_validate_set ws accs (i # is) W max_tid =
     (let a = accs ! i in
      if \<not> silo_validate (sa_tid a) ws (W (sa_row a)) then None
      else silo_validate_set ws accs is W (if sa_tid a > max_tid then sa_tid a else max_tid))"

fun silo_install :: "64 word \<Rightarrow> 'd silo_acc list \<Rightarrow> nat list \<Rightarrow> 'd mem \<Rightarrow> fault + 'd mem" where
  "silo_install tid accs [] M = Inr M"
| "silo_install tid accs (i # is) M =
     (let r = sa_row (accs ! i) in
      bindE (silo_write (sa_data (accs ! i)) tid (words M r, image M r)) (\<lambda>(w, d).
      bindE (silo_release w) (\<lambda>w'.
      silo_install tid accs is (M\<lparr>words := (words M)(r := w'), image := (image M)(r := d)\<rparr>))))"

definition silo_abort :: "64 word \<Rightarrow> row_ptr list \<Rightarrow> 'd mem \<Rightarrow> fault + (RC \<times> 64 word \<times> 'd mem)" where
  "silo_abort cur_tid got M =
     bindE (release_rows silo_release got (words M)) (\<lambda>W. Inr (Abort, cur_tid, M\<lparr>words := W\<rparr>))"

text \<open>The rows to lock with the ids recorded for them.\<close>

definition silo_lock_list :: "(row_ptr \<Rightarrow> 64 word) \<Rightarrow> 'd silo_acc list \<Rightarrow> (row_ptr \<times> 64 word) list" where
  "silo_lock_list pk accs = map (\<lambda>i. (sa_row (accs ! i), sa_tid (accs ! i))) (silo_write_set pk accs)"

definition silo_lock_phase ::
  "(row_ptr \<Rightarrow> 64 word) \<Rightarrow> bool \<Rightarrow> bool \<Rightarrow> 'd silo_acc list \<Rightarrow> 'd env list \<Rightarrow> 'd mem
     \<Rightarrow> fault + (bool \<times> row_ptr list \<times> 'd env list \<times> 'd mem)" where
  "silo_lock_phase pk pre_abort validation_no_wait accs envs M =
     (if validation_no_wait then
        nowait_lock silo_get_tid silo_release
          (\<lambda>M. pre_abort \<longrightarrow> silo_unchanged accs (silo_write_set pk accs) (words M) \<and>
                              silo_unchanged accs (silo_read_set accs) (words M))
          (silo_lock_list pk accs) envs M
      else wait_lock silo_get_tid [] (silo_lock_list pk accs) envs M)"

definition validate_silo ::
  "(row_ptr \<Rightarrow> 64 word) \<Rightarrow> bool \<Rightarrow> bool \<Rightarrow> 'd silo_acc list \<Rightarrow> 64 word \<Rightarrow> 'd env list \<Rightarrow> 'd mem
     \<Rightarrow> fault + (RC \<times> 64 word \<times> 'd mem)" where
  "validate_silo pk pre_abort validation_no_wait accs cur_tid envs M =
     (let write_set = silo_write_set pk accs; read_set = silo_read_set accs in
      if pre_abort \<and> \<not> (silo_unchanged accs write_set (words M) \<and> silo_unchanged accs read_set (words M))
      then silo_abort cur_tid [] M
      else bindE (silo_lock_phase pk pre_abort validation_no_wait accs envs M) (\<lambda>(ok, got, _, M1).
        if \<not> ok then silo_abort cur_tid got M1
        else case silo_validate_set False accs read_set (words M1) 0 of
               None \<Rightarrow> silo_abort cur_tid got M1
             | Some mx \<Rightarrow>
                 (case silo_validate_set True accs write_set (words M1) mx of
                    None \<Rightarrow> silo_abort cur_tid got M1
                  | Some max_tid \<Rightarrow>
                      let cur = (if max_tid > cur_tid then max_tid + 1 else cur_tid + 1)
                      in bindE (silo_install cur accs write_set M1) (\<lambda>M2. Inr (RCOK, cur, M2)))))"

subsection \<open>The loops\<close>

lemma silo_unchanged_iff:
  "silo_unchanged accs is W \<longleftrightarrow> (\<forall>i\<in>set is. silo_get_tid (W (sa_row (accs ! i))) = sa_tid (accs ! i))"
  by (induction "is") auto

lemma silo_validate_set_Some:
  "silo_validate_set ws accs is W mx = Some m \<Longrightarrow>
     (\<forall>i\<in>set is. silo_validate (sa_tid (accs ! i)) ws (W (sa_row (accs ! i))) \<and> sa_tid (accs ! i) \<le> m) \<and>
     mx \<le> m \<and> (m = mx \<or> (\<exists>i\<in>set is. m = sa_tid (accs ! i)))"
proof (induction "is" arbitrary: mx)
  case Nil
  then show ?case by simp
next
  case (Cons i "is")
  let ?mx = "if sa_tid (accs ! i) > mx then sa_tid (accs ! i) else mx"
  have v: "silo_validate (sa_tid (accs ! i)) ws (W (sa_row (accs ! i)))"
    and r: "silo_validate_set ws accs is W ?mx = Some m"
    using Cons.prems by (auto simp: Let_def split: if_splits)
  note IH = Cons.IH [OF r]
  have "mx \<le> ?mx" "sa_tid (accs ! i) \<le> ?mx" by auto
  with IH have "mx \<le> m" "sa_tid (accs ! i) \<le> m" by (meson order.trans)+
  with IH v show ?case by (auto split: if_splits)
qed

lemma silo_write_set_props:
  "set (silo_write_set pk accs) = {i. i < length accs \<and> sa_type (accs ! i) = WR}"
  "mset (map f (map (nth accs) (silo_write_set pk accs))) = mset (map f (filter (\<lambda>a. sa_type a = WR) accs))"
  unfolding silo_write_set_def
  by (rule sorted_index_set)+

definition silo_write_rows :: "'d silo_acc list \<Rightarrow> row_ptr set" where
  "silo_write_rows accs = {sa_row a | a. a \<in> set accs \<and> sa_type a = WR}"

lemma silo_lock_list_props:
  "distinct (map fst (silo_lock_list pk accs)) \<longleftrightarrow> distinct (map sa_row (filter (\<lambda>a. sa_type a = WR) accs))"
  "fst ` set (silo_lock_list pk accs) = silo_write_rows accs"
proof -
  have "map fst (silo_lock_list pk accs) = map sa_row (map (nth accs) (silo_write_set pk accs))"
    by (simp add: silo_lock_list_def)
  then have m: "mset (map fst (silo_lock_list pk accs)) = mset (map sa_row (filter (\<lambda>a. sa_type a = WR) accs))"
    using silo_write_set_props(2) [of sa_row accs pk] by simp
  then show "distinct (map fst (silo_lock_list pk accs)) \<longleftrightarrow> distinct (map sa_row (filter (\<lambda>a. sa_type a = WR) accs))"
    by (rule mset_eq_imp_distinct_iff)
  show "fst ` set (silo_lock_list pk accs) = silo_write_rows accs"
    using mset_eq_setD [OF m] by (auto simp: silo_write_rows_def)
qed

definition silo_committed :: "'d silo_acc list \<Rightarrow> 64 word \<Rightarrow> 'd mem \<Rightarrow> 'd mem \<Rightarrow> bool" where
  "silo_committed accs tid L M \<longleftrightarrow>
     (\<forall>a\<in>set accs. sa_type a = WR \<longrightarrow> words M (sa_row a) = tid \<and> image M (sa_row a) = sa_data a) \<and>
     (\<forall>r. r \<notin> silo_write_rows accs \<longrightarrow> words M r = words L r \<and> image M r = image L r)"

lemma silo_install_spec:
  assumes "\<not> is_locked tid"
  shows "distinct (map (\<lambda>i. sa_row (accs ! i)) is) \<Longrightarrow>
     \<forall>i\<in>set is. is_locked (words M (sa_row (accs ! i))) \<and> silo_get_tid (words M (sa_row (accs ! i))) < tid \<Longrightarrow>
     \<exists>M'. silo_install tid accs is M = Inr M' \<and>
       (\<forall>i\<in>set is. words M' (sa_row (accs ! i)) = tid \<and> image M' (sa_row (accs ! i)) = sa_data (accs ! i)) \<and>
       (\<forall>r. r \<notin> (\<lambda>i. sa_row (accs ! i)) ` set is \<longrightarrow> words M' r = words M r \<and> image M' r = image M r)"
proof (induction "is" arbitrary: M)
  case Nil
  then show ?case by simp
next
  case (Cons i "is")
  let ?r = "sa_row (accs ! i)"
  let ?M = "M\<lparr>words := (words M)(?r := tid), image := (image M)(?r := sa_data (accs ! i))\<rparr>"
  have rel: "(tid OR LOCK_BIT) AND NOT LOCK_BIT = tid"
    using assms word_release_or [of tid] word_release_unlocked [of tid] by (simp add: word_release_def)
  have step: "silo_install tid accs (i # is) M = silo_install tid accs is ?M"
    using Cons.prems(2) rel by (simp add: Let_def silo_write_def silo_release_def silo_get_tid_def)
  have r: "?r \<notin> (\<lambda>i. sa_row (accs ! i)) ` set is" using Cons.prems(1) by auto
  have other: "sa_row (accs ! j) \<noteq> ?r" if "j \<in> set is" for j
  proof
    assume "sa_row (accs ! j) = ?r"
    moreover have "sa_row (accs ! j) \<in> (\<lambda>i. sa_row (accs ! i)) ` set is" using that by (rule imageI)
    ultimately show False using r by simp
  qed
  have "\<exists>M'. silo_install tid accs is ?M = Inr M' \<and>
       (\<forall>i\<in>set is. words M' (sa_row (accs ! i)) = tid \<and> image M' (sa_row (accs ! i)) = sa_data (accs ! i)) \<and>
       (\<forall>r. r \<notin> (\<lambda>i. sa_row (accs ! i)) ` set is \<longrightarrow> words M' r = words ?M r \<and> image M' r = image ?M r)"
    by (rule Cons.IH) (use Cons.prems other in auto)
  then obtain M' where M': "silo_install tid accs is ?M = Inr M'"
     "\<forall>i\<in>set is. words M' (sa_row (accs ! i)) = tid \<and> image M' (sa_row (accs ! i)) = sa_data (accs ! i)"
     "\<forall>r. r \<notin> (\<lambda>i. sa_row (accs ! i)) ` set is \<longrightarrow> words M' r = words ?M r \<and> image M' r = image ?M r" by blast
  have "words M' ?r = tid \<and> image M' ?r = sa_data (accs ! i)" using M'(3) r by simp
  with M' show ?case unfolding step by (intro exI [of _ M']) auto
qed

subsection \<open>Commit\<close>

definition silo_txn_ok :: "'d silo_acc list \<Rightarrow> 64 word \<Rightarrow> bool" where
  "silo_txn_ok accs cur_tid \<longleftrightarrow>
     distinct (map sa_row (filter (\<lambda>a. sa_type a = WR) accs)) \<and>
     (\<forall>a\<in>set accs. unat (sa_tid a) < 2 ^ 63 - 1) \<and> unat cur_tid < 2 ^ 63 - 1"

lemma silo_next_tid:
  assumes "unat m < 2 ^ 63 - 1" "unat cur < 2 ^ 63 - 1"
  defines "new \<equiv> (if m > cur then m + 1 else cur + 1)"
  shows "m < new" "cur < new" "\<not> is_locked new"
proof -
  have "unat (x + 1) = unat x + 1" if "unat x < 2 ^ 63 - 1" for x :: "64 word"
    using that by (subst unat_add_lem [THEN iffD1]) auto
  then have "unat (m + 1) = unat m + 1" "unat (cur + 1) = unat cur + 1" using assms(1,2) by blast+
  with assms(1,2) show "m < new" "cur < new" "\<not> is_locked new"
    unfolding new_def is_locked_iff_ge word_less_nat_alt by auto
qed


lemma silo_in_sets:
  "a \<in> set accs \<Longrightarrow> \<exists>i. accs ! i = a \<and> i \<in> set (if sa_type a = WR then silo_write_set pk accs else silo_read_set accs)"
proof -
  assume "a \<in> set accs"
  then obtain i where "i < length accs" "accs ! i = a" by (metis in_set_conv_nth)
  then show ?thesis by (intro exI [of _ i]) (simp add: silo_write_set_props silo_read_set_def)
qed

text \<open>From the locked write set and the validated sets to the committed memory.\<close>

lemma silo_commit_step:
  assumes ok: "silo_txn_ok accs cur_tid"
    and L: "locked_phase silo_get_tid (silo_lock_list pk accs) True got M1"
    and rd: "silo_validate_set False accs (silo_read_set accs) (words M1) 0 = Some mx"
    and wr: "silo_validate_set True accs (silo_write_set pk accs) (words M1) mx = Some m"
  defines "cur \<equiv> (if m > cur_tid then m + 1 else cur_tid + 1)"
  shows "(\<exists>M2. silo_install cur accs (silo_write_set pk accs) M1 = Inr M2 \<and> silo_committed accs cur M1 M2) \<and>
     cur_tid < cur \<and> (\<forall>a\<in>set accs. sa_tid a < cur)"
proof -
  note R = silo_validate_set_Some [OF rd] and W = silo_validate_set_Some [OF wr]
  have le: "sa_tid a \<le> m" if "a \<in> set accs" for a
    using silo_in_sets [OF that, of pk] R W by (auto split: if_splits intro: order.trans)
  have "unat m < 2 ^ 63 - 1"
  proof (cases "m = 0")
    case False
    with R W obtain i where "m = sa_tid (accs ! i)" "i \<in> set (silo_read_set accs) \<union> set (silo_write_set pk accs)" by auto
    then show ?thesis using ok by (auto simp: silo_txn_ok_def silo_read_set_def silo_write_set_props)
  qed simp
  then have new: "m < cur" "cur_tid < cur" "\<not> is_locked cur"
    using silo_next_tid [of m cur_tid] ok unfolding cur_def silo_txn_ok_def by blast+
  have idx: "map (\<lambda>i. sa_row (accs ! i)) (silo_write_set pk accs) = map fst (silo_lock_list pk accs)"
    by (simp add: silo_lock_list_def)
  have got: "got = map fst (silo_lock_list pk accs)" "\<forall>r\<in>set got. is_locked (words M1 r)" "distinct got"
    using L by (auto simp: locked_phase_def)
  have "is_locked (words M1 (sa_row (accs ! i))) \<and> silo_get_tid (words M1 (sa_row (accs ! i))) < cur"
    if i: "i \<in> set (silo_write_set pk accs)" for i
  proof -
    have "sa_row (accs ! i) \<in> set got" using i unfolding got(1) idx [symmetric] by auto
    moreover have "silo_get_tid (words M1 (sa_row (accs ! i))) = sa_tid (accs ! i)" "sa_tid (accs ! i) \<le> m"
      using W i by (auto simp: silo_validate_iff)
    ultimately show ?thesis using got(2) new(1) by auto
  qed
  with silo_install_spec [OF new(3), of accs "silo_write_set pk accs" M1] got(1,3) obtain M2 where
    M2: "silo_install cur accs (silo_write_set pk accs) M1 = Inr M2"
      "\<forall>i\<in>set (silo_write_set pk accs). words M2 (sa_row (accs ! i)) = cur \<and> image M2 (sa_row (accs ! i)) = sa_data (accs ! i)"
      "\<forall>r. r \<notin> (\<lambda>i. sa_row (accs ! i)) ` set (silo_write_set pk accs) \<longrightarrow> words M2 r = words M1 r \<and> image M2 r = image M1 r"
    unfolding idx by blast
  have rows: "(\<lambda>i. sa_row (accs ! i)) ` set (silo_write_set pk accs) = silo_write_rows accs"
    using silo_lock_list_props(2) [of pk accs] by (simp add: silo_lock_list_def image_image)
  have "words M2 (sa_row a) = cur \<and> image M2 (sa_row a) = sa_data a" if "a \<in> set accs" "sa_type a = WR" for a
    using silo_in_sets [OF that(1), of pk] that(2) M2(2) by auto
  with M2(1,3) rows have "silo_install cur accs (silo_write_set pk accs) M1 = Inr M2 \<and> silo_committed accs cur M1 M2"
    by (auto simp: silo_committed_def)
  with new le show ?thesis by (meson le_less_trans)
qed

lemma silo_abort_eq:
  assumes "distinct got" "\<forall>r\<in>set got. is_locked (words M r)"
  shows "silo_abort cur got M = Inr (Abort, cur, M\<lparr>words := unlock_set got (words M)\<rparr>)"
  using silo_word.release_rows_eq [OF assms] by (simp add: silo_abort_def)

text \<open>What the code after the lock phase does, in both lock modes.\<close>

definition silo_after_lock ::
  "(row_ptr \<Rightarrow> 64 word) \<Rightarrow> 'd silo_acc list \<Rightarrow> 64 word \<Rightarrow> bool \<Rightarrow> row_ptr list \<Rightarrow> 'd mem \<Rightarrow> RC \<Rightarrow> 64 word \<Rightarrow> 'd mem \<Rightarrow> bool" where
  "silo_after_lock pk accs cur_tid ok got M1 rc cur M2 \<longleftrightarrow>
     (rc = Abort \<and> cur = cur_tid \<and> M2 = M1\<lparr>words := unlock_set got (words M1)\<rparr>) \<or>
     (rc = RCOK \<and> ok \<and> cur_tid < cur \<and> (\<forall>a\<in>set accs. sa_tid a < cur) \<and> silo_committed accs cur M1 M2 \<and>
      (\<forall>a\<in>set accs. silo_get_tid (words M1 (sa_row a)) = sa_tid a \<and>
         (sa_type a = WR \<or> \<not> is_locked (words M1 (sa_row a)))))"

lemma validate_silo_cases:
  assumes ok: "silo_txn_ok accs cur_tid"
    and ph: "\<And>ok got envs' M1. silo_lock_phase pk pre_abort nw accs envs M = Inr (ok, got, envs', M1) \<Longrightarrow>
      locked_phase silo_get_tid (silo_lock_list pk accs) ok got M1"
  shows "(\<exists>f. silo_lock_phase pk pre_abort nw accs envs M = Inl f \<and> validate_silo pk pre_abort nw accs cur_tid envs M = Inl f) \<or>
     (\<exists>ok got envs' M1 rc cur M2. silo_lock_phase pk pre_abort nw accs envs M = Inr (ok, got, envs', M1) \<and>
        validate_silo pk pre_abort nw accs cur_tid envs M = Inr (rc, cur, M2) \<and>
        silo_after_lock pk accs cur_tid ok got M1 rc cur M2) \<or>
     validate_silo pk pre_abort nw accs cur_tid envs M = Inr (Abort, cur_tid, M)"
proof (cases "pre_abort \<and> \<not> (silo_unchanged accs (silo_write_set pk accs) (words M) \<and> silo_unchanged accs (silo_read_set accs) (words M))")
  case True
  then show ?thesis by (simp add: validate_silo_def silo_abort_def)
next
  case no_pre: False
  show ?thesis
  proof (cases "silo_lock_phase pk pre_abort nw accs envs M")
    case (Inl f)
    with no_pre show ?thesis by (auto simp: validate_silo_def Let_def)
  next
    case (Inr b)
    obtain ok' got envs' M1 where b: "b = (ok', got, envs', M1)" by (metis prod_cases4)
    have P: "locked_phase silo_get_tid (silo_lock_list pk accs) ok' got M1" using ph Inr b by blast
    have A: "silo_abort cur_tid got M1 = Inr (Abort, cur_tid, M1\<lparr>words := unlock_set got (words M1)\<rparr>)"
      using P by (intro silo_abort_eq) (auto simp: locked_phase_def)
    have run: "validate_silo pk pre_abort nw accs cur_tid envs M =
       (if \<not> ok' then silo_abort cur_tid got M1
        else case silo_validate_set False accs (silo_read_set accs) (words M1) 0 of
               None \<Rightarrow> silo_abort cur_tid got M1
             | Some mx \<Rightarrow>
                 (case silo_validate_set True accs (silo_write_set pk accs) (words M1) mx of
                    None \<Rightarrow> silo_abort cur_tid got M1
                  | Some max_tid \<Rightarrow>
                      let cur = (if max_tid > cur_tid then max_tid + 1 else cur_tid + 1)
                      in bindE (silo_install cur accs (silo_write_set pk accs) M1) (\<lambda>M2. Inr (RCOK, cur, M2))))"
      using no_pre Inr b by (auto simp: validate_silo_def Let_def)
    consider (abort) "validate_silo pk pre_abort nw accs cur_tid envs M = silo_abort cur_tid got M1"
      | (commit) mx m where "ok'" "silo_validate_set False accs (silo_read_set accs) (words M1) 0 = Some mx"
          "silo_validate_set True accs (silo_write_set pk accs) (words M1) mx = Some m"
      using run by (cases ok'; cases "silo_validate_set False accs (silo_read_set accs) (words M1) 0";
          cases "silo_validate_set True accs (silo_write_set pk accs) (words M1) (the (silo_validate_set False accs (silo_read_set accs) (words M1) 0))") auto
    then show ?thesis
    proof cases
      case abort
      then show ?thesis using A Inr b by (auto simp: silo_after_lock_def)
    next
      case commit
      let ?cur = "if m > cur_tid then m + 1 else cur_tid + 1"
      obtain M2 where M2: "silo_install ?cur accs (silo_write_set pk accs) M1 = Inr M2"
          "silo_committed accs ?cur M1 M2" "cur_tid < ?cur" "\<forall>a\<in>set accs. sa_tid a < ?cur"
        using silo_commit_step [OF ok _ commit(2,3), of got] P commit(1) by auto
      have "validate_silo pk pre_abort nw accs cur_tid envs M = Inr (RCOK, ?cur, M2)"
        using run commit M2(1) by (simp add: Let_def)
      moreover have "silo_get_tid (words M1 (sa_row a)) = sa_tid a \<and> (sa_type a = WR \<or> \<not> is_locked (words M1 (sa_row a)))"
        if "a \<in> set accs" for a
        using silo_in_sets [OF that, of pk] silo_validate_set_Some [OF commit(2)] silo_validate_set_Some [OF commit(3)]
        by (auto simp: silo_validate_iff split: if_splits)
      ultimately show ?thesis using M2 commit(1) Inr b by (auto simp: silo_after_lock_def)
    qed
  qed
qed

lemma silo_nowait_phase:
  assumes "silo_txn_ok accs cur_tid" "silo_lock_phase pk pre_abort True accs envs M = Inr (ok, got, envs', M1)"
  shows "locked_phase silo_get_tid (silo_lock_list pk accs) ok got M1"
    "\<exists>k\<le>length envs. (\<forall>r\<in>set got. \<not> is_locked (words (fold (\<lambda>e. e []) (take k envs) M) r)) \<and>
       M1 = (fold (\<lambda>e. e []) (take k envs) M)\<lparr>words := lock_set got (words (fold (\<lambda>e. e []) (take k envs) M))\<rparr>"
proof -
  have d: "distinct (map fst (silo_lock_list pk accs))"
    using assms(1) by (simp add: silo_lock_list_props(1) silo_txn_ok_def)
  have r: "nowait_lock silo_get_tid silo_release
          (\<lambda>M. pre_abort \<longrightarrow> silo_unchanged accs (silo_write_set pk accs) (words M) \<and>
                              silo_unchanged accs (silo_read_set accs) (words M))
          (silo_lock_list pk accs) envs M = Inr (ok, got, envs', M1)"
    using assms(2) by (simp add: silo_lock_phase_def)
  from silo_word.nowait_lock_spec [OF d r] show "locked_phase silo_get_tid (silo_lock_list pk accs) ok got M1" .
  from silo_word.nowait_lock_memory [OF d r]
  show "\<exists>k\<le>length envs. (\<forall>r\<in>set got. \<not> is_locked (words (fold (\<lambda>e. e []) (take k envs) M) r)) \<and>
       M1 = (fold (\<lambda>e. e []) (take k envs) M)\<lparr>words := lock_set got (words (fold (\<lambda>e. e []) (take k envs) M))\<rparr>" .
qed

lemma validate_silo_nowait_cases:
  assumes "silo_txn_ok accs cur_tid"
  shows "(\<exists>f. silo_lock_phase pk pre_abort True accs envs M = Inl f \<and> validate_silo pk pre_abort True accs cur_tid envs M = Inl f) \<or>
     (\<exists>ok got envs' M1 rc cur M2. silo_lock_phase pk pre_abort True accs envs M = Inr (ok, got, envs', M1) \<and>
        validate_silo pk pre_abort True accs cur_tid envs M = Inr (rc, cur, M2) \<and>
        silo_after_lock pk accs cur_tid ok got M1 rc cur M2) \<or>
     validate_silo pk pre_abort True accs cur_tid envs M = Inr (Abort, cur_tid, M)"
  by (rule validate_silo_cases [OF assms]) (rule silo_nowait_phase(1) [OF assms])

lemma validate_silo_stuck:
  assumes "silo_txn_ok accs cur_tid" "validate_silo pk pre_abort True accs cur_tid envs M = Inl f" "k \<le> length envs"
  shows "\<exists>r\<in>silo_write_rows accs. is_locked (words (fold (\<lambda>e. e []) (take k envs) M) r)"
proof -
  from validate_silo_nowait_cases [OF assms(1), of pk pre_abort envs M] assms(2)
  have f: "silo_lock_phase pk pre_abort True accs envs M = Inl f" by auto
  have d: "distinct (map fst (silo_lock_list pk accs))"
    using assms(1) by (simp add: silo_lock_list_props(1) silo_txn_ok_def)
  from f have "nowait_lock silo_get_tid silo_release
          (\<lambda>M. pre_abort \<longrightarrow> silo_unchanged accs (silo_write_set pk accs) (words M) \<and>
                              silo_unchanged accs (silo_read_set accs) (words M))
          (silo_lock_list pk accs) envs M = Inl f" by (simp add: silo_lock_phase_def)
  from silo_word.nowait_lock_spins [OF d this] assms(3) show ?thesis
    unfolding silo_lock_list_props(2) by blast
qed


text \<open>Silo's validation does not get stuck by itself. No assertion fails, and in no-wait mode it
  returns as soon as the other threads leave every row of the write set unlocked at one of its
  attempts.\<close>

theorem validate_silo_returns:
  assumes "silo_txn_ok accs cur_tid" and "k \<le> length envs"
    and "\<forall>r\<in>silo_write_rows accs. \<not> is_locked (words (fold (\<lambda>e. e []) (take k envs) M) r)"
  shows "\<exists>rc cur M'. validate_silo pk pre_abort True accs cur_tid envs M = Inr (rc, cur, M')"
  using validate_silo_stuck [OF assms(1) _ assms(2), of pk pre_abort M] assms(3)
  by (cases "validate_silo pk pre_abort True accs cur_tid envs M") auto

text \<open>A memory and a transaction that reads row 1 and writes row 0, with one retry in which another
  thread unlocks row 0.\<close>

definition silo_demo_accs :: "nat silo_acc list" where
  "silo_demo_accs = [\<lparr>sa_type = WR, sa_row = 0, sa_data = 42, sa_tid = 5\<rparr>, \<lparr>sa_type = RD, sa_row = 1, sa_data = 7, sa_tid = 9\<rparr>]"

definition silo_demo_mem :: "64 word \<Rightarrow> nat mem" where
  "silo_demo_mem w = \<lparr>words = (\<lambda>_. 0)(0 := w, 1 := 9), image = (\<lambda>_. 7)\<rparr>"

definition silo_demo_env :: "nat env" where
  "silo_demo_env = (\<lambda>_ _. silo_demo_mem 5)"

lemma silo_demo_ok: "silo_txn_ok silo_demo_accs 3"
  by (simp add: silo_txn_ok_def silo_demo_accs_def)

lemma silo_demo_unlocked:
  "\<forall>r\<in>silo_write_rows silo_demo_accs.
     \<not> is_locked (words (fold (\<lambda>e. e []) (take 1 [silo_demo_env]) (silo_demo_mem (5 OR LOCK_BIT))) r)"
  by (auto simp: silo_write_rows_def silo_demo_accs_def silo_demo_env_def silo_demo_mem_def is_locked_iff_ge)

theorem validate_silo_returns_witness:
  "\<exists>rc cur M'. validate_silo (\<lambda>r. of_nat r) True True silo_demo_accs 3 [silo_demo_env] (silo_demo_mem (5 OR LOCK_BIT))
     = Inr (rc, cur, M')"
  by (rule validate_silo_returns [OF silo_demo_ok _ silo_demo_unlocked]) simp

lemma silo_demo_commits:
  "case validate_silo (\<lambda>r. of_nat r) True True silo_demo_accs 3 [silo_demo_env] (silo_demo_mem (5 OR LOCK_BIT)) of
     Inr (rc, cur, M') \<Rightarrow> rc = RCOK \<and> cur = 10 \<and> image M' 0 = 42 | Inl _ \<Rightarrow> False"
  by code_simp


lemma lock_rows_distinct:
  "lock_rows ver rs W = (All_locked, got, W') \<Longrightarrow> distinct (map fst rs) \<and> (\<forall>r\<in>fst ` set rs. \<not> is_locked (W r))"
proof (induction rs arbitrary: W got)
  case (Cons rv rs)
  obtain r v where rv: "rv = (r, v)" by (cases rv)
  obtain g where g: "lock_rows ver rs (W(r := W r OR LOCK_BIT)) = (All_locked, g, W')" "\<not> is_locked (W r)"
    using Cons.prems by (auto simp: rv try_lock_id split: if_splits prod.splits)
  from Cons.IH [OF g(1)] g(2) show ?case by (auto simp: rv split: if_splits)
qed simp

lemma nowait_lock_distinct:
  "nowait_lock ver rel recheck rs envs M = Inr (True, got, envs', M') \<Longrightarrow> distinct (map fst rs)"
proof (induction envs arbitrary: M)
  case Nil
  then show ?case
    by (subst (asm) nowait_lock.simps) (auto simp: Let_def bindE_eq_Inr dest: lock_rows_distinct split: lock_outcome.splits if_splits prod.splits)
next
  case (Cons e es)
  then show ?case
    by (subst (asm) nowait_lock.simps) (auto simp: Let_def bindE_eq_Inr dest: lock_rows_distinct split: lock_outcome.splits if_splits prod.splits)
qed

text \<open>A transaction that writes one row through two accesses can never commit under Silo's no-wait
  validation, whatever the other threads do: its second attempt to lock the row always finds it
  locked by itself.\<close>

theorem silo_double_write_never_commits:
  assumes "\<not> distinct (map sa_row (filter (\<lambda>a. sa_type a = WR) accs))"
  shows "validate_silo pk pre_abort True accs cur_tid envs M \<noteq> Inr (RCOK, cur, M')"
proof
  assume "validate_silo pk pre_abort True accs cur_tid envs M = Inr (RCOK, cur, M')"
  then obtain got envs' M1 where "silo_lock_phase pk pre_abort True accs envs M = Inr (True, got, envs', M1)"
    by (auto simp: validate_silo_def silo_abort_def Let_def bindE_eq_Inr split: if_splits)
  then show False using assms nowait_lock_distinct [of silo_get_tid silo_release _ "silo_lock_list pk accs"]
    by (auto simp: silo_lock_phase_def silo_lock_list_props(1))
qed

theorem silo_double_write_never_commits_witness:
  "\<forall>envs cur M'. validate_silo (\<lambda>r. of_nat r) True True
     [\<lparr>sa_type = WR, sa_row = 0, sa_data = 1::nat, sa_tid = 5\<rparr>, \<lparr>sa_type = WR, sa_row = 0, sa_data = 2, sa_tid = 5\<rparr>]
     3 envs (silo_demo_mem 5) \<noteq> Inr (RCOK, cur, M')"
  using silo_double_write_never_commits
    [of "[\<lparr>sa_type = WR, sa_row = 0, sa_data = 1::nat, sa_tid = 5\<rparr>, \<lparr>sa_type = WR, sa_row = 0, sa_data = 2, sa_tid = 5\<rparr>]"]
  by simp

subsection \<open>Optimistic reads\<close>

text \<open>One row under concurrent writers: \<open>silo_write\<close> is two stores, the copy of the data and then the
  word, and the copy need not be atomic. \<open>dirty\<close> tells that the data has been changed and the word
  not yet; a writer releases the row only after \<open>silo_write\<close> is complete.\<close>

record 'd silo_row =
  srow_word :: "64 word"
  srow_data :: 'd
  dirty :: bool

inductive silo_row_step :: "'d silo_row \<Rightarrow> 'd silo_row \<Rightarrow> bool" where
  take_lock: "silo_try_lock id (srow_word s) = (True, w) \<Longrightarrow> silo_row_step s (s\<lparr>srow_word := w\<rparr>)"
| copy_data: "is_locked (srow_word s) \<Longrightarrow> silo_row_step s (s\<lparr>srow_data := d, dirty := True\<rparr>)"
| store_tid: "silo_write d tid (srow_word s, srow_data s) = Inr (w, d) \<Longrightarrow> \<not> is_locked tid \<Longrightarrow> srow_data s = d \<Longrightarrow>
     silo_row_step s (s\<lparr>srow_word := w, dirty := False\<rparr>)"
| give_back: "silo_release (srow_word s) = Inr w \<Longrightarrow> \<not> dirty s \<Longrightarrow> silo_row_step s (s\<lparr>srow_word := w\<rparr>)"

definition silo_row_init :: "'d silo_row \<Rightarrow> bool" where
  "silo_row_init s \<longleftrightarrow> srow_word s = silo_init \<and> \<not> dirty s"

definition silo_row_inv :: "'d silo_row \<Rightarrow> bool" where
  "silo_row_inv s \<longleftrightarrow> (\<not> is_locked (srow_word s) \<longrightarrow> \<not> dirty s)"

lemma silo_row_step_inv: "silo_row_step s t \<Longrightarrow> silo_row_inv s \<Longrightarrow> silo_row_inv t"
  by (induction rule: silo_row_step.induct)
    (auto simp: silo_row_inv_def silo_try_lock_def try_lock_id silo_write_def split: if_splits)

lemma silo_row_run_inv: "silo_row_step\<^sup>*\<^sup>* s t \<Longrightarrow> silo_row_inv s \<Longrightarrow> silo_row_inv t"
  by (induction rule: rtranclp_induct) (auto dest: silo_row_step_inv)

abbreviation srow_tid :: "'d silo_row \<Rightarrow> 64 word" where
  "srow_tid s \<equiv> silo_get_tid (srow_word s)"

lemma silo_row_step_tid:
  "silo_row_step s t \<Longrightarrow>
     srow_tid t = srow_tid s \<and> (dirty s \<longrightarrow> dirty t) \<and> (\<not> dirty t \<longrightarrow> srow_data t = srow_data s) \<or>
     srow_tid s < srow_tid t \<and> srow_data t = srow_data s"
proof (induction rule: silo_row_step.induct)
  case (store_tid d tid s w)
  then have "srow_tid s < tid" "w = tid OR LOCK_BIT"
    by (auto simp: silo_write_def silo_get_tid_def split: if_splits)
  with store_tid(2) show ?case by (simp add: silo_get_tid_release)
qed (auto simp: silo_try_lock_def try_lock_id silo_release_def silo_get_tid_release
    word_release_def [symmetric] split: if_splits)

lemma silo_row_run:
  assumes "silo_row_step\<^sup>*\<^sup>* s t"
  shows "srow_tid s \<le> srow_tid t \<and>
     (dirty s \<and> \<not> dirty t \<longrightarrow> srow_tid s < srow_tid t) \<and>
     (srow_tid t = srow_tid s \<and> \<not> dirty t \<longrightarrow> srow_data t = srow_data s)"
  using assms
proof (induction rule: rtranclp_induct)
  case (step m t)
  from silo_row_step_tid [OF step(2)] step.IH show ?case
    by (auto dest: order.strict_trans1 order.strict_trans)
qed auto

interpretation silo_seq: seqlock silo_row_init silo_row_step silo_row_inv srow_word srow_data "\<lambda>v v2. v2 = v"
proof unfold_locales
  show "silo_row_init s \<Longrightarrow> silo_row_inv s" for s :: "'d silo_row" by (simp add: silo_row_init_def silo_row_inv_def)
  show "silo_row_inv s \<Longrightarrow> silo_row_step s t \<Longrightarrow> silo_row_inv t" for s t :: "'d silo_row" by (rule silo_row_step_inv)
next
  fix s m t :: "'d silo_row"
  assume "silo_row_inv s" and sm: "silo_row_step\<^sup>*\<^sup>* s m" and mt: "silo_row_step\<^sup>*\<^sup>* m t"
    and un: "\<not> is_locked (srow_word s)" and eq: "srow_word t = srow_word s"
  have le: "srow_tid s \<le> srow_tid m" "srow_tid m \<le> srow_tid t" using silo_row_run [OF sm] silo_row_run [OF mt] by blast+
  then have tid: "srow_tid m = srow_tid s" "srow_tid m = srow_tid t" using eq by auto
  have "silo_row_inv t"
    using silo_row_run_inv [OF mt silo_row_run_inv [OF sm \<open>silo_row_inv s\<close>]] .
  then have "\<not> dirty t" using un eq by (simp add: silo_row_inv_def)
  then have "\<not> dirty m" using silo_row_run [OF mt] tid by auto
  with silo_row_run [OF sm] tid show "srow_data m = srow_data s" by auto
qed

text \<open>an optimistic read under Silo is never torn. If the memory accesses of \<^verbatim>\<open>Row_silo::access\<close> fall
  anywhere into a run of the row's writers, and it returns, then the copy it returns is the data the
  row had at a moment when it was unlocked and carried the id the read reports.\<close>

theorem silo_access_consistent:
  assumes "silo_row_init s0" and "silo_row_step\<^sup>*\<^sup>* s0 (hd ss)" and "successively (silo_row_step\<^sup>*\<^sup>*) ss"
    and "silo_access (map (\<lambda>s. (srow_word s, srow_data s)) ss) = Inr (rc, d, tid)"
  shows "rc = RCOK \<and> (\<exists>s\<in>set ss. silo_row_step\<^sup>*\<^sup>* s0 s \<and> srow_word s = tid \<and> \<not> is_locked tid \<and> srow_data s = d)"
proof -
  from assms(4) obtain v rest where rd: "seq_read (\<lambda>v v2. v2 = v) (map (\<lambda>s. (srow_word s, srow_data s)) ss) = Inr (v, d, rest)"
    and tid: "tid = v AND NOT LOCK_BIT" "rc = RCOK"
    by (auto simp: silo_access_def bindE_eq_Inr)
  have reach: "\<forall>s\<in>set ss. silo_row_step\<^sup>*\<^sup>* s0 s"
    using successively_reach [OF assms(3,2)] by blast
  then have inv: "\<forall>s\<in>set ss. silo_row_inv s" using silo_seq.reachable_inv [OF assms(1)] by blast
  from silo_seq.seq_read_consistent [OF rd assms(3) inv] obtain s where
    "s \<in> set ss" "srow_word s = v" "\<not> is_locked v" "srow_data s = d" by blast
  moreover from this have "tid = v" using tid(1) by (simp add: word_release_def [symmetric])
  ultimately show ?thesis using reach tid(2) by blast
qed

theorem silo_access_consistent_witness:
  "\<exists>s. srow_word s = 0 \<and> srow_data s = (7::nat) \<and>
     silo_row_step\<^sup>*\<^sup>* \<lparr>srow_word = 0, srow_data = 7, dirty = False\<rparr> s \<and>
     silo_access [(0, 7::nat), (0, 7), (0, 7)] = Inr (RCOK, 7, 0)"
proof -
  let ?s = "\<lparr>srow_word = 0, srow_data = 7::nat, dirty = False\<rparr>"
  have run: "silo_access (map (\<lambda>s. (srow_word s, srow_data s)) [?s, ?s, ?s]) = Inr (RCOK, 7, 0)"
    by (simp add: silo_access_def is_locked_iff_ge)
  have "silo_row_init ?s" by (simp add: silo_row_init_def silo_init_def)
  then have "\<exists>s\<in>set [?s, ?s, ?s]. silo_row_step\<^sup>*\<^sup>* ?s s \<and> srow_word s = 0 \<and> \<not> is_locked 0 \<and> srow_data s = 7"
    using silo_access_consistent [OF _ _ _ run, of ?s] by simp
  then obtain s where "silo_row_step\<^sup>*\<^sup>* ?s s" "srow_word s = 0" "srow_data s = 7" by blast
  with run show ?thesis by (intro exI [of _ s]) simp
qed

end
