(* ===== verification/Tictoc.thy ===== *)
theory Tictoc
  imports Seqlock
begin

text \<open>
  TicToc: the row manager \<^verbatim>\<open>concurrency_control/row_tictoc.cpp\<close> and the commit protocol
  \<^verbatim>\<open>txn_man::validate_tictoc\<close> of \<^verbatim>\<open>concurrency_control/tictoc.cpp\<close>, for the options \<^verbatim>\<open>config.h\<close>
  sets: \<^verbatim>\<open>ATOMIC_WORD\<close> true, \<^verbatim>\<open>TICTOC_MV\<close> and \<^verbatim>\<open>WRITE_PERMISSION_LOCK\<close> false,
  \<^verbatim>\<open>WR_VALIDATION_SEPARATE\<close> true, serializable isolation. A row's word holds the lock bit, 15 bits of
  lease (\<^verbatim>\<open>rts - wts\<close>) and 48 bits of write timestamp.
\<close>

subsection \<open>The timestamp word\<close>

definition WTS_MASK :: "64 word" where
  "WTS_MASK = push_bit 48 1 - 1"

definition RTS_MASK :: "64 word" where
  "RTS_MASK = push_bit 48 (push_bit 15 1 - 1)"

definition tt_init :: "64 word" where
  "tt_init = 0"

definition tt_get_wts :: "64 word \<Rightarrow> 64 word" where
  "tt_get_wts w = w AND WTS_MASK"

text \<open>The lease field \<^verbatim>\<open>(v & RTS_MASK) >> WTS_LEN\<close>.\<close>

definition tt_delta :: "64 word \<Rightarrow> 64 word" where
  "tt_delta w = drop_bit 48 (w AND RTS_MASK)"

definition tt_get_rts :: "64 word \<Rightarrow> 64 word" where
  "tt_get_rts w = tt_delta w + (w AND WTS_MASK)"

definition tt_get_ts_word :: "64 word \<Rightarrow> bool \<times> 64 word \<times> 64 word" where
  "tt_get_ts_word w = (is_locked w, tt_delta w + (w AND WTS_MASK), w AND WTS_MASK)"

definition tt_access :: "(64 word \<times> 'd) list \<Rightarrow> fault + (RC \<times> 'd \<times> 64 word \<times> 64 word)" where
  "tt_access accs =
     bindE (seq_read (\<lambda>v v2. (v2 OR RTS_MASK) = (v OR RTS_MASK)) accs) (\<lambda>(v, local_row, _).
     let last_wts = v AND WTS_MASK; last_rts = tt_delta v + last_wts
     in Inr (RCOK, local_row, last_wts, last_rts))"

definition tt_write_data :: "'d \<Rightarrow> 64 word \<Rightarrow> 64 word \<times> 'd \<Rightarrow> 64 word \<times> 'd" where
  "tt_write_data data wts = (\<lambda>(v, _). ((v AND NOT (RTS_MASK OR WTS_MASK)) OR wts, data))"

definition tt_renew_lease :: "64 word \<Rightarrow> 64 word \<Rightarrow> bool" where
  "tt_renew_lease wts rts = True"

text \<open>The compare-and-swap loop of \<^verbatim>\<open>try_renew\<close>. The list holds what the other threads do to the word
  before each attempt; when it is used up they leave the word alone, so the next attempt succeeds.\<close>

fun tt_cas_loop ::
  "64 word \<Rightarrow> 64 word \<Rightarrow> bool \<Rightarrow> 64 word \<Rightarrow> (64 word \<Rightarrow> 64 word) list \<Rightarrow> 64 word \<Rightarrow> 64 word \<Rightarrow> bool \<times> 64 word" where
  "tt_cas_loop wts rts rebase v2 [] v w =
     (if w = v then (True, v2)
      else if rebase \<or> is_locked w \<or> wts \<noteq> w AND WTS_MASK then (False, w)
      else if rts < tt_delta w then (True, w)
      else (True, v2))"
| "tt_cas_loop wts rts rebase v2 (e # es) v w =
     (let pre_v = e w in
      if pre_v = v then (True, v2)
      else if rebase \<or> is_locked pre_v \<or> wts \<noteq> pre_v AND WTS_MASK then (False, pre_v)
      else if rts < tt_delta pre_v then (True, pre_v)
      else tt_cas_loop wts rts rebase v2 es pre_v pre_v)"

definition tt_try_renew :: "64 word \<Rightarrow> 64 word \<Rightarrow> (64 word \<Rightarrow> 64 word) list \<Rightarrow> 64 word \<Rightarrow> bool \<times> 64 word" where
  "tt_try_renew wts rts envs w =
     (let v = w in
      if v AND WTS_MASK = wts \<and> tt_delta v \<ge> rts - wts then (True, w)
      else if is_locked v then (False, w)
      else if wts \<noteq> v AND WTS_MASK then (False, w)
      else
        let delta_rts = rts - wts in
        if delta_rts < tt_delta v then (True, w)
        else
          let rebase = (delta_rts \<ge> push_bit 15 1);
              delta = (if rebase then delta_rts AND NOT (push_bit 15 1 - 1) else 0);
              delta_rts = (if rebase then delta_rts AND (push_bit 15 1 - 1) else delta_rts);
              wts = wts + delta;
              v2 = wts OR push_bit 48 delta_rts
          in tt_cas_loop wts rts rebase v2 envs v w)"

definition tt_release :: "64 word \<Rightarrow> fault + 64 word" where
  "tt_release w = Inr (w AND NOT LOCK_BIT)"

definition tt_try_lock :: "(64 word \<Rightarrow> 64 word) \<Rightarrow> 64 word \<Rightarrow> bool \<times> 64 word" where
  "tt_try_lock = word_try_lock"

definition tt_lock :: "row_ptr list \<Rightarrow> row_ptr \<Rightarrow> 'd env list \<Rightarrow> 'd mem \<Rightarrow> fault + ('d env list \<times> 'd mem)" where
  "tt_lock = spin_lock"

subsection \<open>Bits of the word\<close>

lemma WTS_MASK_and [simp]: "w AND WTS_MASK = take_bit 48 w"
proof -
  have "WTS_MASK = mask 48" by (simp add: WTS_MASK_def mask_eq_exp_minus_1)
  then show ?thesis by (simp add: take_bit_eq_mask)
qed

lemma bit_RTS_MASK: "bit RTS_MASK n \<longleftrightarrow> 48 \<le> n \<and> n < 63"
proof -
  have "push_bit 15 1 - 1 = (mask 15 :: 64 word)" by (simp add: mask_eq_exp_minus_1)
  then show ?thesis unfolding RTS_MASK_def by (auto simp: bit_push_bit_iff bit_mask_iff simp del: push_bit_of_1)
qed

lemma tt_delta_eq: "tt_delta w = take_bit 15 (drop_bit 48 w)"
  by (rule bit_word_eqI) (auto simp: tt_delta_def bit_drop_bit_eq bit_and_iff bit_RTS_MASK bit_take_bit_iff)

lemma tt_get_wts_eq: "tt_get_wts w = take_bit 48 w"
  by (simp add: tt_get_wts_def)

lemma tt_get_rts_eq: "tt_get_rts w = tt_delta w + tt_get_wts w"
  by (simp add: tt_get_rts_def tt_get_wts_def)

text \<open>Packing a write timestamp and a lease.\<close>

lemma tt_pack:
  fixes a b :: "64 word"
  assumes "unat a < 2 ^ 48" "unat b < 2 ^ 15"
  shows "tt_get_wts (a OR push_bit 48 b) = a" "tt_delta (a OR push_bit 48 b) = b" "\<not> is_locked (a OR push_bit 48 b)"
proof -
  have a: "take_bit 48 a = a" and b: "take_bit 15 b = b"
    using assms word_less_exp_iff_bits [of 48 a] word_less_exp_iff_bits [of 15 b] by (simp_all add: word_less_nat_alt)
  have ab: "bit a n \<Longrightarrow> n < 48" "bit b n \<Longrightarrow> n < 15" for n
    using a b by (metis bit_take_bit_iff)+
  show "tt_get_wts (a OR push_bit 48 b) = a" unfolding tt_get_wts_eq
    by (rule bit_word_eqI) (auto simp: bit_take_bit_iff bit_or_iff bit_push_bit_iff dest: ab(1))
  show "tt_delta (a OR push_bit 48 b) = b" unfolding tt_delta_eq
  proof (rule bit_word_eqI)
    fix n assume "n < LENGTH(64)"
    have "\<not> bit a (48 + n)" using ab(1) [of "48 + n"] by auto
    then show "bit (take_bit 15 (drop_bit 48 (a OR push_bit 48 b))) n = bit b n"
      using ab(2) [of n] by (auto simp: bit_take_bit_iff bit_drop_bit_eq bit_or_iff bit_push_bit_iff)
  qed
  have "\<not> bit b 15" "\<not> bit a 63" using ab(2) [of 15] ab(1) [of 63] by auto
  then show "\<not> is_locked (a OR push_bit 48 b)" by (simp add: is_locked_bit bit_or_iff bit_push_bit_iff)
qed

lemma tt_delta_bound: "unat (tt_delta w) < 2 ^ 15"
  unfolding tt_delta_eq unsigned_take_bit_eq by (rule take_bit_nat_less_exp)

lemma tt_wts_bound: "unat (tt_get_wts w) < 2 ^ 48"
  unfolding tt_get_wts_eq unsigned_take_bit_eq by (rule take_bit_nat_less_exp)

lemma unat_tt_get_rts: "unat (tt_get_rts w) = unat (tt_delta w) + unat (tt_get_wts w)"
  unfolding tt_get_rts_eq using tt_delta_bound [of w] tt_wts_bound [of w]
  by (subst unat_add_lem [THEN iffD1]) auto

lemma tt_lock_fields [simp]:
  "tt_get_wts (w OR LOCK_BIT) = tt_get_wts w" "tt_delta (w OR LOCK_BIT) = tt_delta w"
  "tt_get_rts (w OR LOCK_BIT) = tt_get_rts w"
proof -
  show 1: "tt_get_wts (w OR LOCK_BIT) = tt_get_wts w" unfolding tt_get_wts_eq
    by (rule bit_word_eqI) (auto simp: bit_take_bit_iff bit_or_iff)
  show 2: "tt_delta (w OR LOCK_BIT) = tt_delta w" unfolding tt_delta_eq
    by (rule bit_word_eqI) (auto simp: bit_take_bit_iff bit_or_iff bit_drop_bit_eq)
  show "tt_get_rts (w OR LOCK_BIT) = tt_get_rts w" by (simp add: tt_get_rts_eq 1 2)
qed

lemma tt_write_data_word:
  assumes "unat wts < 2 ^ 48" "is_locked v"
  shows "fst (tt_write_data d wts (v, x)) = wts OR LOCK_BIT" "\<not> is_locked wts" "tt_get_wts wts = wts" "tt_delta wts = 0"
proof -
  have t: "take_bit 48 wts = wts"
    using assms(1) word_less_exp_iff_bits [of 48 wts] by (simp add: word_less_nat_alt)
  have v: "bit v 63" using assms(2) by (simp add: is_locked_bit)
  show "fst (tt_write_data d wts (v, x)) = wts OR LOCK_BIT"
  proof (rule bit_word_eqI)
    fix n assume n: "n < LENGTH(64)"
    have m: "bit WTS_MASK n \<longleftrightarrow> n < 48"
      unfolding WTS_MASK_def push_bit_of_1 mask_eq_exp_minus_1 [symmetric] using n by (simp add: bit_mask_iff)
    have w: "bit wts n \<Longrightarrow> n < 48" using t by (metis bit_take_bit_iff)
    consider "n < 48" | "48 \<le> n" "n < 63" | "n = 63" using n by fastforce
    then show "bit (fst (tt_write_data d wts (v, x))) n = bit (wts OR LOCK_BIT) n"
      using n m v w by cases (auto simp: tt_write_data_def bit_or_iff bit_and_iff bit_not_iff bit_RTS_MASK)
  qed
  from tt_pack [OF assms(1), of 0] show "\<not> is_locked wts" "tt_get_wts wts = wts" "tt_delta wts = 0" by simp_all
qed

interpretation tt_word: lock_word tt_get_wts tt_release
  by unfold_locales (simp_all add: tt_release_def word_release_def)

subsection \<open>Lease renewal\<close>

lemma word_split_mask: "(d AND NOT m) + (d AND m) = (d :: 64 word)"
proof -
  have "(d AND NOT m) AND (d AND m) = 0" by (rule bit_word_eqI) (auto simp: bit_simps)
  then have "(d AND NOT m) + (d AND m) = (d AND NOT m) OR (d AND m)" by (rule disjunctive_add_eq_or)
  also have "\<dots> = d" by (rule bit_word_eqI) (auto simp: bit_simps)
  finally show ?thesis .
qed

text \<open>The word \<^verbatim>\<open>try_renew\<close> wants to store: with or without a rebase it stands for the end of lease
  \<open>rts\<close>.\<close>

lemma tt_new_word:
  fixes wts rts :: "64 word"
  assumes "unat wts \<le> unat rts" "unat rts < 2 ^ 48"
  defines "rebase \<equiv> (rts - wts \<ge> push_bit 15 1)"
  defines "delta \<equiv> (if rebase then (rts - wts) AND NOT (push_bit 15 1 - 1) else 0)"
  defines "dl \<equiv> (if rebase then (rts - wts) AND (push_bit 15 1 - 1) else rts - wts)"
  shows "tt_get_wts ((wts + delta) OR push_bit 48 dl) = wts + delta"
    "tt_get_rts ((wts + delta) OR push_bit 48 dl) = rts" "\<not> is_locked ((wts + delta) OR push_bit 48 dl)"
    "unat wts \<le> unat (wts + delta)" "unat (wts + delta) \<le> unat rts"
proof -
  let ?d = "rts - wts"
  have m: "(push_bit 15 1 - 1 :: 64 word) = mask 15" by (simp add: mask_eq_exp_minus_1)
  have ud: "unat ?d = unat rts - unat wts" using assms(1) by (simp add: unat_sub word_le_nat_alt)
  have u15: "unat (push_bit 15 1 :: 64 word) = 2 ^ 15" by simp
  have "unat (take_bit 15 ?d) = unat ?d mod 2 ^ 15" 
    by (simp only: unsigned_take_bit_eq) (simp only: take_bit_eq_mod)
  then have dl: "unat dl < 2 ^ 15" "unat dl \<le> unat ?d"
    unfolding dl_def m rebase_def by (auto simp: take_bit_eq_mask [symmetric] word_le_nat_alt)
  have sum: "delta + dl = ?d" unfolding delta_def dl_def using word_split_mask [of ?d "push_bit 15 1 - 1"]
    by (cases rebase) (simp_all del: push_bit_of_1)
  have "wts + delta = rts - dl" using sum by (simp add: algebra_simps)
  then have uw: "unat (wts + delta) = unat rts - unat dl"
    using dl(2) ud by (simp add: unat_sub word_le_nat_alt)
  have b: "unat (wts + delta) < 2 ^ 48" using uw assms(2) by simp
  note P = tt_pack [OF b dl(1)]
  show "tt_get_wts ((wts + delta) OR push_bit 48 dl) = wts + delta" "\<not> is_locked ((wts + delta) OR push_bit 48 dl)"
    by (rule P(1)) (rule P(3))
  have "dl + (wts + delta) = rts" using sum by (simp add: algebra_simps)
  then show "tt_get_rts ((wts + delta) OR push_bit 48 dl) = rts"
    unfolding tt_get_rts_eq P(1,2) .
  show "unat wts \<le> unat (wts + delta)" "unat (wts + delta) \<le> unat rts" using uw dl(2) ud assms(1) by auto
qed

lemma try_renew_exact_aux:
  assumes "unat wts \<le> unat rts" and "unat rts < 2 ^ 48" and "tt_try_renew wts rts [] w = (ok, w')"
  shows "ok = (tt_get_wts w = wts \<and> (unat rts \<le> unat (tt_get_rts w) \<or> \<not> is_locked w)) \<and>
     (\<not> ok \<or> is_locked w \<or> unat rts \<le> unat (tt_get_rts w) \<longrightarrow> w' = w) \<and>
     (ok \<and> unat (tt_get_rts w) < unat rts \<longrightarrow> tt_get_rts w' = rts \<and> \<not> is_locked w' \<and>
        unat (tt_get_wts w) \<le> unat (tt_get_wts w') \<and> unat (tt_get_wts w') \<le> unat rts)"
proof (cases "tt_get_wts w = wts \<and> \<not> is_locked w \<and> unat (tt_get_rts w) < unat rts")
  case True
  have lt: "tt_delta w < rts - wts"
    using True unat_tt_get_rts [of w] assms(1) by (auto simp: word_less_nat_alt unat_sub word_le_nat_alt)
  let ?rebase = "rts - wts \<ge> push_bit 15 1"
  let ?delta = "if ?rebase then (rts - wts) AND NOT (push_bit 15 1 - 1) else 0"
  let ?dl = "if ?rebase then (rts - wts) AND (push_bit 15 1 - 1) else rts - wts"
  have "tt_try_renew wts rts [] w = (True, (wts + ?delta) OR push_bit 48 ?dl)"
    using True lt order.asym [OF lt] less_imp_neq [OF lt] unfolding tt_try_renew_def Let_def tt_get_wts_def by (auto simp del: push_bit_of_1 WTS_MASK_and)
  then have res: "ok" "w' = (wts + ?delta) OR push_bit 48 ?dl" using assms(3) by simp_all
  show ?thesis
    unfolding res(2) using res(1) True tt_new_word [OF assms(1,2)] by simp
next
  case False
  have "tt_delta w \<ge> rts - wts \<longleftrightarrow> unat rts \<le> unat (tt_get_rts w)" if "tt_get_wts w = wts"
    using that unat_tt_get_rts [of w] assms(1) by (auto simp: word_le_nat_alt unat_sub)
  with False assms(3) show ?thesis
    unfolding tt_try_renew_def Let_def tt_get_wts_def by (auto split: if_splits)
qed

text \<open>renewing a lease is exact when no other thread interferes. For a version \<open>wts\<close> and a wanted
  end of lease \<open>rts\<close> within 48 bits, \<^verbatim>\<open>try_renew\<close> succeeds exactly when the row still has that version
  and either its lease already reaches \<open>rts\<close> or the row is unlocked; on success the lease reaches
  \<open>rts\<close> (exactly \<open>rts\<close> when it had to be extended, also when the 15-bit lease field overflows and the
  write timestamp is rebased), the lock bit is kept, the version only moves forward up to \<open>rts\<close>; on
  failure, and on a locked row, the word is unchanged.\<close>

theorem try_renew_exact:
  assumes "unat wts \<le> unat rts" and "unat rts < 2 ^ 48" and "tt_try_renew wts rts [] w = (ok, w')"
  shows "ok = (tt_get_wts w = wts \<and> (unat rts \<le> unat (tt_get_rts w) \<or> \<not> is_locked w)) \<and>
     (\<not> ok \<or> is_locked w \<or> unat rts \<le> unat (tt_get_rts w) \<longrightarrow> w' = w) \<and>
     (ok \<and> unat (tt_get_rts w) < unat rts \<longrightarrow> tt_get_rts w' = rts \<and> \<not> is_locked w' \<and>
        unat (tt_get_wts w) \<le> unat (tt_get_wts w') \<and> unat (tt_get_wts w') \<le> unat rts)"
  using assms by (rule try_renew_exact_aux)

theorem try_renew_exact_witness:
  "\<exists>w'. tt_try_renew 5 40000 [] 5 = (True, w') \<and> tt_get_rts w' = 40000"
proof -
  obtain ok w' where r: "tt_try_renew 5 40000 [] 5 = (ok, w')" by (metis surj_pair)
  have f: "tt_get_wts 5 = 5" "tt_get_rts 5 = 5" "\<not> is_locked 5"
    by (simp_all add: tt_get_wts_eq tt_get_rts_eq tt_delta_eq is_locked_iff_ge)
  from try_renew_exact [OF _ _ r] r f show ?thesis by simp
qed

text \<open>a lease another transaction relies on can be taken back. The retry of the compare-and-swap in
  \<^verbatim>\<open>try_renew\<close> stores a word computed before the retry: a thread that renews version 5 to end at 8,
  while another thread extends the same lease to 12 in between, reports success and shortens the lease
  to 8 again, because the test that should notice compares the absolute \<^verbatim>\<open>rts\<close> with the relative
  lease field.\<close>

theorem try_renew_shrinks_lease:
  "let v = 5; ext = 5 OR push_bit 48 7 in
   tt_get_rts v = 5 \<and> tt_try_renew 5 12 [] v = (True, ext) \<and> tt_get_rts ext = 12 \<and>
   (\<exists>w'. tt_try_renew 5 8 [\<lambda>_. ext] v = (True, w') \<and> tt_get_rts w' = 8)"
proof -
  have d: "tt_delta 5 = 0" "tt_delta (5 OR push_bit 48 7) = 7" "tt_get_wts (5 OR push_bit 48 7) = 5"
    "tt_get_wts 5 = 5" "\<not> is_locked (5 OR push_bit 48 7)" "\<not> is_locked 5"
    using tt_pack [of 5 7] tt_pack [of 5 0] by simp_all
  have e: "tt_delta (5 OR push_bit 48 3) = 3" "tt_get_wts (5 OR push_bit 48 3) = 5" using tt_pack [of 5 3] by simp_all
  have "tt_try_renew 5 12 [] 5 = (True, 5 OR push_bit 48 7)"
    unfolding tt_try_renew_def Let_def using d by (simp add: tt_get_wts_eq)
  moreover have "tt_try_renew 5 8 [\<lambda>_. 5 OR push_bit 48 7] 5 = (True, 5 OR push_bit 48 3)"
    unfolding tt_try_renew_def Let_def using d by (simp add: tt_get_wts_eq)
  ultimately show ?thesis using d e by (simp add: tt_get_rts_eq Let_def)
qed

subsection \<open>The commit protocol\<close>

record 'd tt_acc =
  ta_type :: access_t
  ta_row :: row_ptr
  ta_data :: 'd
  ta_wts :: "64 word"
  ta_rts :: "64 word"

definition tt_write_set :: "(row_ptr \<Rightarrow> 64 word) \<Rightarrow> 'd tt_acc list \<Rightarrow> nat list" where
  "tt_write_set pk accs =
     bubble_sort (\<lambda>i. pk (ta_row (accs ! i))) [i \<leftarrow> [0..<length accs]. ta_type (accs ! i) = WR]"

definition tt_read_set :: "'d tt_acc list \<Rightarrow> nat list" where
  "tt_read_set accs = [i \<leftarrow> [0..<length accs]. ta_type (accs ! i) \<noteq> WR]"

text \<open>The first estimate of the commit timestamps, over all accesses, and the step that makes them equal
  under serializable isolation.\<close>

fun tt_estimate :: "'d tt_acc list \<Rightarrow> 64 word \<Rightarrow> 64 word \<Rightarrow> 64 word \<times> 64 word" where
  "tt_estimate [] commit_rts commit_wts = (commit_rts, commit_wts)"
| "tt_estimate (a # accs) commit_rts commit_wts =
     (if ta_type a = RD \<and> ta_wts a > commit_rts then tt_estimate accs (ta_wts a) commit_wts
      else if ta_type a = WR \<and> ta_rts a + 1 > commit_wts then tt_estimate accs commit_rts (ta_rts a + 1)
      else tt_estimate accs commit_rts commit_wts)"

definition tt_commit_ts :: "'d tt_acc list \<Rightarrow> 64 word" where
  "tt_commit_ts accs =
     (let (commit_rts, commit_wts) = tt_estimate accs 0 0
      in if commit_rts > commit_wts then commit_rts else commit_wts)"

text \<open>The checks made before and between lock rounds when \<^verbatim>\<open>_pre_abort\<close> is set.\<close>

fun tt_writes_unchanged :: "'d tt_acc list \<Rightarrow> nat list \<Rightarrow> word_tab \<Rightarrow> bool" where
  "tt_writes_unchanged accs [] W = True"
| "tt_writes_unchanged accs (i # is) W =
     (if tt_get_wts (W (ta_row (accs ! i))) \<noteq> ta_wts (accs ! i) then False else tt_writes_unchanged accs is W)"

fun tt_reads_hopeful :: "64 word \<Rightarrow> 'd tt_acc list \<Rightarrow> nat list \<Rightarrow> word_tab \<Rightarrow> bool" where
  "tt_reads_hopeful commit_wts accs [] W = True"
| "tt_reads_hopeful commit_wts accs (i # is) W =
     (let (lock, rts, wts) = tt_get_ts_word (W (ta_row (accs ! i))) in
      if commit_wts > rts \<and> wts \<noteq> ta_wts (accs ! i) then False else tt_reads_hopeful commit_wts accs is W)"

text \<open>With the write set locked: raise the commit timestamp above the leases of the rows to be
  overwritten.\<close>

fun tt_raise :: "'d tt_acc list \<Rightarrow> nat list \<Rightarrow> word_tab \<Rightarrow> 64 word \<Rightarrow> 64 word" where
  "tt_raise accs [] W commit_wts = commit_wts"
| "tt_raise accs (i # is) W commit_wts =
     (let rts = tt_get_rts (W (ta_row (accs ! i)))
      in tt_raise accs is W (if rts + 1 > commit_wts then rts + 1 else commit_wts))"

text \<open>Validation of the read set by lease renewal; the boolean tells whether every renewal succeeded.\<close>

fun tt_validate_reads :: "64 word \<Rightarrow> 'd tt_acc list \<Rightarrow> nat list \<Rightarrow> word_tab \<Rightarrow> bool \<times> word_tab" where
  "tt_validate_reads commit_wts accs [] W = (True, W)"
| "tt_validate_reads commit_wts accs (i # is) W =
     (let a = accs ! i in
      if ta_rts a < commit_wts then
        (let (ok, w) = tt_try_renew (ta_wts a) commit_wts [] (W (ta_row a))
         in if \<not> ok then (False, W(ta_row a := w)) else tt_validate_reads commit_wts accs is (W(ta_row a := w)))
      else tt_validate_reads commit_wts accs is W)"

fun tt_install :: "64 word \<Rightarrow> 'd tt_acc list \<Rightarrow> nat list \<Rightarrow> 'd mem \<Rightarrow> fault + 'd mem" where
  "tt_install commit_wts accs [] M = Inr M"
| "tt_install commit_wts accs (i # is) M =
     (let r = ta_row (accs ! i);
          (w, d) = tt_write_data (ta_data (accs ! i)) commit_wts (words M r, image M r)
      in bindE (tt_release w) (\<lambda>w'.
         tt_install commit_wts accs is (M\<lparr>words := (words M)(r := w'), image := (image M)(r := d)\<rparr>)))"

definition tt_abort :: "64 word \<Rightarrow> row_ptr list \<Rightarrow> 'd mem \<Rightarrow> fault + (RC \<times> 64 word \<times> 'd mem)" where
  "tt_abort max_wts got M =
     bindE (release_rows tt_release got (words M)) (\<lambda>W. Inr (Abort, max_wts, M\<lparr>words := W\<rparr>))"

definition tt_lock_list :: "(row_ptr \<Rightarrow> 64 word) \<Rightarrow> 'd tt_acc list \<Rightarrow> (row_ptr \<times> 64 word) list" where
  "tt_lock_list pk accs = map (\<lambda>i. (ta_row (accs ! i), ta_wts (accs ! i))) (tt_write_set pk accs)"

definition tt_precheck :: "(row_ptr \<Rightarrow> 64 word) \<Rightarrow> 'd tt_acc list \<Rightarrow> 'd mem \<Rightarrow> bool" where
  "tt_precheck pk accs M \<longleftrightarrow>
     tt_writes_unchanged accs (tt_write_set pk accs) (words M) \<and>
     tt_reads_hopeful (tt_commit_ts accs) accs (tt_read_set accs) (words M)"

definition tt_lock_phase ::
  "(row_ptr \<Rightarrow> 64 word) \<Rightarrow> bool \<Rightarrow> bool \<Rightarrow> 'd tt_acc list \<Rightarrow> 'd env list \<Rightarrow> 'd mem
     \<Rightarrow> fault + (bool \<times> row_ptr list \<times> 'd env list \<times> 'd mem)" where
  "tt_lock_phase pk pre_abort validation_no_wait accs envs M =
     (if validation_no_wait then
        nowait_lock tt_get_wts tt_release (\<lambda>M. pre_abort \<longrightarrow> tt_precheck pk accs M) (tt_lock_list pk accs) envs M
      else wait_lock tt_get_wts [] (tt_lock_list pk accs) envs M)"

definition validate_tictoc ::
  "(row_ptr \<Rightarrow> 64 word) \<Rightarrow> bool \<Rightarrow> bool \<Rightarrow> bool \<Rightarrow> 'd tt_acc list \<Rightarrow> 64 word \<Rightarrow> 'd env list \<Rightarrow> 'd mem
     \<Rightarrow> fault + (RC \<times> 64 word \<times> 'd mem)" where
  "validate_tictoc pk pre_abort validation_no_wait write_copy_ptr accs max_wts envs M =
     (let write_set = tt_write_set pk accs; read_set = tt_read_set accs in
      if pre_abort \<and> \<not> tt_precheck pk accs M then tt_abort max_wts [] M
      else bindE (tt_lock_phase pk pre_abort validation_no_wait accs envs M) (\<lambda>(ok, got, _, M1).
        if \<not> ok then tt_abort max_wts got M1
        else
          let commit_wts = tt_raise accs write_set (words M1) (tt_commit_ts accs) in
          bindE (assert_that (length got = length write_set)) (\<lambda>_.
          let (valid, W) = tt_validate_reads commit_wts accs read_set (words M1);
              M2 = M1\<lparr>words := W\<rparr>
          in if \<not> valid then tt_abort max_wts got M2
             else
               let max_wts' = (if commit_wts > max_wts then commit_wts else max_wts) in
               bindE (assert_that (\<not> write_copy_ptr)) (\<lambda>_.
               bindE (tt_install commit_wts accs write_set M2) (\<lambda>M3. Inr (RCOK, max_wts', M3))))))"

subsection \<open>The loops\<close>

definition tt_write_rows :: "'d tt_acc list \<Rightarrow> row_ptr set" where
  "tt_write_rows accs = {ta_row a | a. a \<in> set accs \<and> ta_type a = WR}"

lemma tt_write_set_props:
  "set (tt_write_set pk accs) = {i. i < length accs \<and> ta_type (accs ! i) = WR}"
  "mset (map f (map (nth accs) (tt_write_set pk accs))) = mset (map f (filter (\<lambda>a. ta_type a = WR) accs))"
  unfolding tt_write_set_def by (rule sorted_index_set)+

lemma tt_lock_list_props:
  "distinct (map ta_row accs) \<Longrightarrow> distinct (map fst (tt_lock_list pk accs))"
  "fst ` set (tt_lock_list pk accs) = tt_write_rows accs"
proof -
  have "map fst (tt_lock_list pk accs) = map ta_row (map (nth accs) (tt_write_set pk accs))"
    by (simp add: tt_lock_list_def)
  then have m: "mset (map fst (tt_lock_list pk accs)) = mset (map ta_row (filter (\<lambda>a. ta_type a = WR) accs))"
    using tt_write_set_props(2) [of ta_row accs pk] by simp
  show "distinct (map ta_row accs) \<Longrightarrow> distinct (map fst (tt_lock_list pk accs))"
    unfolding mset_eq_imp_distinct_iff [OF m] by (rule distinct_map_filter)
  show "fst ` set (tt_lock_list pk accs) = tt_write_rows accs"
    using mset_eq_setD [OF m] by (auto simp: tt_write_rows_def)
qed

lemma tt_in_sets:
  "a \<in> set accs \<Longrightarrow> \<exists>i. accs ! i = a \<and> i \<in> set (if ta_type a = WR then tt_write_set pk accs else tt_read_set accs)"
proof -
  assume "a \<in> set accs"
  then obtain i where "i < length accs" "accs ! i = a" by (metis in_set_conv_nth)
  then show ?thesis by (intro exI [of _ i]) (simp add: tt_write_set_props tt_read_set_def)
qed

text \<open>A word whose lease may have grown and whose version may have been rebased forward.\<close>

definition lease_kept :: "64 word \<Rightarrow> 64 word \<Rightarrow> bool" where
  "lease_kept w w' \<longleftrightarrow> w' = w \<or>
     (\<not> is_locked w \<and> \<not> is_locked w' \<and> tt_get_wts w \<le> tt_get_wts w' \<and> tt_get_rts w < tt_get_rts w')"

lemma try_renew_kept:
  assumes "unat wts \<le> unat rts" "unat rts < 2 ^ 48" "tt_try_renew wts rts [] w = (ok, w')"
  shows "lease_kept w w'" "ok \<Longrightarrow> tt_get_wts w = wts \<and> unat rts \<le> unat (tt_get_rts w')"
  using try_renew_exact_aux [OF assms] by (auto simp: lease_kept_def word_le_nat_alt word_less_nat_alt not_le)

definition tt_access_ok :: "'d tt_acc \<Rightarrow> bool" where
  "tt_access_ok a \<longleftrightarrow> unat (ta_wts a) \<le> unat (ta_rts a) \<and> unat (ta_rts a) < 2 ^ 48 - 1"

lemma tt_validate_reads_spec:
  assumes "unat c < 2 ^ 48"
  shows "tt_validate_reads c accs is W = (ok, W') \<Longrightarrow> distinct (map (\<lambda>i. ta_row (accs ! i)) is) \<Longrightarrow>
     \<forall>i\<in>set is. tt_access_ok (accs ! i) \<Longrightarrow>
     (\<forall>r. lease_kept (W r) (W' r)) \<and> (\<forall>r. r \<notin> (\<lambda>i. ta_row (accs ! i)) ` set is \<longrightarrow> W' r = W r) \<and>
     (ok \<longrightarrow> (\<forall>i\<in>set is. ta_rts (accs ! i) < c \<longrightarrow>
        tt_get_wts (W (ta_row (accs ! i))) = ta_wts (accs ! i) \<and> unat c \<le> unat (tt_get_rts (W' (ta_row (accs ! i))))))"
proof (induction "is" arbitrary: W)
  case Nil
  then show ?case by (simp add: lease_kept_def)
next
  case (Cons i "is")
  let ?a = "accs ! i" and ?rows = "(\<lambda>i. ta_row (accs ! i)) ` set is"
  have r: "ta_row ?a \<notin> ?rows" "distinct (map (\<lambda>i. ta_row (accs ! i)) is)" "\<forall>i\<in>set is. tt_access_ok (accs ! i)"
    using Cons.prems(2,3) by auto
  have other: "ta_row (accs ! j) \<noteq> ta_row ?a" if "j \<in> set is" for j using r(1) imageI [OF that, of "\<lambda>i. ta_row (accs ! i)"] by metis
  show ?case
  proof (cases "ta_rts ?a < c")
    case False
    then have "tt_validate_reads c accs is W = (ok, W')" using Cons.prems(1) by (simp add: Let_def)
    from Cons.IH [OF this r(2,3)] False show ?thesis by auto
  next
    case True
    obtain ok1 w where rn: "tt_try_renew (ta_wts ?a) c [] (W (ta_row ?a)) = (ok1, w)" by (metis surj_pair)
    have le: "unat (ta_wts ?a) \<le> unat c"
      using True Cons.prems(3) by (auto simp: tt_access_ok_def word_less_nat_alt)
    note K = try_renew_kept [OF le assms rn]
    let ?W = "W(ta_row ?a := w)"
    show ?thesis
    proof (cases ok1)
      case False
      with True rn Cons.prems(1) have "ok = False" "W' = ?W" by (auto simp: Let_def)
      with K(1) show ?thesis by (auto simp: lease_kept_def)
    next
      case ok1: True
      with True rn Cons.prems(1) have rec: "tt_validate_reads c accs is ?W = (ok, W')" by (simp add: Let_def)
      note IH = Cons.IH [OF rec r(2,3)]
      have W': "W' (ta_row ?a) = w" using IH r(1) by simp
      have kept: "lease_kept (W q) (W' q)" for q
        using conjunct1 [OF IH, THEN spec, of q] K(1) W' by (cases "q = ta_row ?a") auto
      have rest: "W' q = W q" if "q \<notin> insert (ta_row ?a) ?rows" for q using IH that by auto
      have val: "tt_get_wts (W (ta_row (accs ! j))) = ta_wts (accs ! j) \<and> unat c \<le> unat (tt_get_rts (W' (ta_row (accs ! j))))"
        if "ok" "j \<in> set (i # is)" "ta_rts (accs ! j) < c" for j
      proof (cases "j = i")
        case True
        with K(2) [OF ok1] W' show ?thesis by simp
      next
        case False
        with that have "j \<in> set is" by simp
        with IH that other [OF this] show ?thesis by auto
      qed
      show ?thesis using kept rest val by auto
    qed
  qed
qed

lemma unat_plus1: "unat x < 2 ^ 63 \<Longrightarrow> unat (x + 1 :: 64 word) = unat x + 1"
  by (subst unat_add_lem [THEN iffD1]) auto

lemma tt_raise_spec:
  "unat c < 2 ^ 48 \<Longrightarrow> \<forall>i\<in>set is. unat (tt_get_rts (W (ta_row (accs ! i)))) < 2 ^ 48 - 1 \<Longrightarrow>
     c \<le> tt_raise accs is W c \<and> unat (tt_raise accs is W c) < 2 ^ 48 \<and>
     (\<forall>i\<in>set is. tt_get_rts (W (ta_row (accs ! i))) < tt_raise accs is W c)"
proof (induction "is" arbitrary: c)
  case Nil
  then show ?case by simp
next
  case (Cons i "is")
  let ?rts = "tt_get_rts (W (ta_row (accs ! i)))"
  let ?c = "if ?rts + 1 > c then ?rts + 1 else c"
  have u: "unat (?rts + 1) = unat ?rts + 1" using Cons.prems(2) by (intro unat_plus1) auto
  have c: "unat ?c < 2 ^ 48" "c \<le> ?c" "?rts < ?c"
    using Cons.prems u by (auto simp: word_less_nat_alt word_le_nat_alt)
  have eq: "tt_raise accs (i # is) W c = tt_raise accs is W ?c" by (simp add: Let_def)
  have IH: "?c \<le> tt_raise accs is W ?c \<and> unat (tt_raise accs is W ?c) < 2 ^ 48 \<and>
     (\<forall>i\<in>set is. tt_get_rts (W (ta_row (accs ! i))) < tt_raise accs is W ?c)"
    by (rule Cons.IH [OF c(1)]) (use Cons.prems(2) in simp)
  then have "c \<le> tt_raise accs is W ?c" "?rts < tt_raise accs is W ?c" using c(2,3) by (meson order.trans less_le_trans)+
  with IH show ?case unfolding eq by simp
qed

lemma tt_estimate_spec:
  "tt_estimate accs cr cw = (cr', cw') \<Longrightarrow> \<forall>a\<in>set accs. tt_access_ok a \<Longrightarrow> unat cr < 2 ^ 48 \<Longrightarrow> unat cw < 2 ^ 48 \<Longrightarrow>
     cr \<le> cr' \<and> cw \<le> cw' \<and> unat cr' < 2 ^ 48 \<and> unat cw' < 2 ^ 48 \<and>
     (\<forall>a\<in>set accs. ta_type a = RD \<longrightarrow> ta_wts a \<le> cr')"
proof (induction accs arbitrary: cr cw)
  case (Cons a accs)
  have u: "unat (ta_rts a + 1) = unat (ta_rts a) + 1" using Cons.prems(2) by (intro unat_plus1) (auto simp: tt_access_ok_def)
  have b: "unat (ta_wts a) < 2 ^ 48" "unat (ta_rts a + 1) < 2 ^ 48" using Cons.prems(2) u by (auto simp: tt_access_ok_def)
  obtain c d where cd: "tt_estimate accs c d = (cr', cw')" "cr \<le> c" "cw \<le> d" "unat c < 2 ^ 48" "unat d < 2 ^ 48"
    "ta_type a = RD \<longrightarrow> ta_wts a \<le> c"
    using Cons.prems(1,3,4) b by (auto simp: not_less split: if_splits)
  have "\<forall>a\<in>set accs. tt_access_ok a" using Cons.prems(2) by simp
  from Cons.IH [OF cd(1) this cd(4,5)] cd(2,3,6) show ?case by (auto intro: order.trans)
qed auto

lemma tt_commit_ts_spec:
  assumes "\<forall>a\<in>set accs. tt_access_ok a"
  shows "unat (tt_commit_ts accs) < 2 ^ 48" "a \<in> set accs \<Longrightarrow> ta_type a = RD \<Longrightarrow> ta_wts a \<le> tt_commit_ts accs"
proof -
  obtain cr cw where e: "tt_estimate accs 0 0 = (cr, cw)" by (metis surj_pair)
  note S = tt_estimate_spec [OF e assms]
  show "unat (tt_commit_ts accs) < 2 ^ 48" using S e by (simp add: tt_commit_ts_def)
  show "a \<in> set accs \<Longrightarrow> ta_type a = RD \<Longrightarrow> ta_wts a \<le> tt_commit_ts accs"
    using S e by (auto simp: tt_commit_ts_def not_less intro: order.trans)
qed

lemma tt_install_spec:
  assumes "unat c < 2 ^ 48"
  shows "distinct (map (\<lambda>i. ta_row (accs ! i)) is) \<Longrightarrow> \<forall>i\<in>set is. is_locked (words M (ta_row (accs ! i))) \<Longrightarrow>
     \<exists>M'. tt_install c accs is M = Inr M' \<and>
       (\<forall>i\<in>set is. words M' (ta_row (accs ! i)) = c \<and> image M' (ta_row (accs ! i)) = ta_data (accs ! i)) \<and>
       (\<forall>r. r \<notin> (\<lambda>i. ta_row (accs ! i)) ` set is \<longrightarrow> words M' r = words M r \<and> image M' r = image M r)"
proof (induction "is" arbitrary: M)
  case Nil
  then show ?case by simp
next
  case (Cons i "is")
  let ?r = "ta_row (accs ! i)"
  let ?M = "M\<lparr>words := (words M)(?r := c), image := (image M)(?r := ta_data (accs ! i))\<rparr>"
  have lk: "is_locked (words M ?r)" using Cons.prems(2) by simp
  note wd = tt_write_data_word(1) [OF assms lk, of "ta_data (accs ! i)" "image M ?r"] tt_write_data_word(2) [OF assms lk]
  have "tt_write_data (ta_data (accs ! i)) c (words M ?r, image M ?r) = (c OR LOCK_BIT, ta_data (accs ! i))"
    using wd(1) by (simp add: tt_write_data_def)
  moreover have "(c OR LOCK_BIT) AND NOT LOCK_BIT = c"
    using wd(2) word_release_or [of c] word_release_unlocked [of c] by (simp add: word_release_def)
  ultimately have step: "tt_install c accs (i # is) M = tt_install c accs is ?M"
    by (simp add: Let_def tt_release_def)
  have r: "?r \<notin> (\<lambda>i. ta_row (accs ! i)) ` set is" using Cons.prems(1) by auto
  have other: "ta_row (accs ! j) \<noteq> ?r" if "j \<in> set is" for j using r imageI [OF that, of "\<lambda>i. ta_row (accs ! i)"] by metis
  have "\<exists>M'. tt_install c accs is ?M = Inr M' \<and>
       (\<forall>i\<in>set is. words M' (ta_row (accs ! i)) = c \<and> image M' (ta_row (accs ! i)) = ta_data (accs ! i)) \<and>
       (\<forall>r. r \<notin> (\<lambda>i. ta_row (accs ! i)) ` set is \<longrightarrow> words M' r = words ?M r \<and> image M' r = image ?M r)"
    by (rule Cons.IH) (use Cons.prems other in auto)
  then obtain M' where M': "tt_install c accs is ?M = Inr M'"
     "\<forall>i\<in>set is. words M' (ta_row (accs ! i)) = c \<and> image M' (ta_row (accs ! i)) = ta_data (accs ! i)"
     "\<forall>r. r \<notin> (\<lambda>i. ta_row (accs ! i)) ` set is \<longrightarrow> words M' r = words ?M r \<and> image M' r = image ?M r" by blast
  have "words M' ?r = c \<and> image M' ?r = ta_data (accs ! i)" using M'(3) r by simp
  with M' show ?case unfolding step by (intro exI [of _ M']) auto
qed

subsection \<open>Commit\<close>

definition tt_txn_ok :: "'d tt_acc list \<Rightarrow> bool" where
  "tt_txn_ok accs \<longleftrightarrow> distinct (map ta_row accs) \<and> (\<forall>a\<in>set accs. tt_access_ok a)"

definition tt_words_ok :: "'d tt_acc list \<Rightarrow> 'd mem \<Rightarrow> bool" where
  "tt_words_ok accs M \<longleftrightarrow> (\<forall>a\<in>set accs. unat (tt_get_rts (words M (ta_row a))) < 2 ^ 48 - 1)"

text \<open>What a commit at timestamp \<open>c\<close> does to the memory \<open>L\<close>.\<close>

definition tt_committed :: "'d tt_acc list \<Rightarrow> 64 word \<Rightarrow> 'd mem \<Rightarrow> 'd mem \<Rightarrow> bool" where
  "tt_committed accs c L M \<longleftrightarrow>
     (\<forall>a\<in>set accs. ta_type a = WR \<longrightarrow>
        tt_get_wts (words L (ta_row a)) = ta_wts a \<and> tt_get_rts (words L (ta_row a)) < c \<and>
        words M (ta_row a) = c \<and> image M (ta_row a) = ta_data a) \<and>
     (\<forall>a\<in>set accs. ta_type a = RD \<longrightarrow> ta_wts a \<le> c) \<and>
     (\<forall>a\<in>set accs. ta_type a \<noteq> WR \<longrightarrow> c \<le> ta_rts a \<or>
        tt_get_wts (words L (ta_row a)) = ta_wts a \<and> c \<le> tt_get_rts (words M (ta_row a))) \<and>
     (\<forall>r. r \<notin> tt_write_rows accs \<longrightarrow> image M r = image L r \<and> lease_kept (words L r) (words M r))"

lemma tt_rows_of_sets:
  "(\<lambda>i. ta_row (accs ! i)) ` set (tt_write_set pk accs) = tt_write_rows accs"
  "distinct (map ta_row accs) \<Longrightarrow> distinct (map (\<lambda>i. ta_row (accs ! i)) (tt_read_set accs))"
  "distinct (map ta_row accs) \<Longrightarrow> (\<lambda>i. ta_row (accs ! i)) ` set (tt_read_set accs) \<inter> tt_write_rows accs = {}"
proof -
  show "(\<lambda>i. ta_row (accs ! i)) ` set (tt_write_set pk accs) = tt_write_rows accs"
    using tt_lock_list_props(2) [of pk accs] by (simp add: tt_lock_list_def image_image)
  have "map (\<lambda>i. ta_row (accs ! i)) (tt_read_set accs) = map ta_row (map (nth accs) (tt_read_set accs))" by simp
  also have "\<dots> = map ta_row (filter (\<lambda>a. ta_type a \<noteq> WR) accs)"
    unfolding tt_read_set_def filter_nth_map [of accs "\<lambda>a. ta_type a \<noteq> WR"] ..
  finally have eq: "map (\<lambda>i. ta_row (accs ! i)) (tt_read_set accs) = map ta_row (filter (\<lambda>a. ta_type a \<noteq> WR) accs)" .
  then show "distinct (map ta_row accs) \<Longrightarrow> distinct (map (\<lambda>i. ta_row (accs ! i)) (tt_read_set accs))"
    by (simp add: distinct_map_filter)
  have "(\<lambda>i. ta_row (accs ! i)) ` set (tt_read_set accs) = ta_row ` {a \<in> set accs. ta_type a \<noteq> WR}"
    using arg_cong [OF eq, of set] by auto
  moreover assume "distinct (map ta_row accs)"
  ultimately show "(\<lambda>i. ta_row (accs ! i)) ` set (tt_read_set accs) \<inter> tt_write_rows accs = {}"
    by (auto simp: tt_write_rows_def distinct_map inj_on_def)
qed

text \<open>The code after a successful lock phase, run on the memory \<open>M1\<close> with the write set locked.\<close>

lemma tt_commit_step:
  assumes ok: "tt_txn_ok accs" and wok: "tt_words_ok accs M1"
    and L: "locked_phase tt_get_wts (tt_lock_list pk accs) True got M1"
    and rd: "tt_validate_reads c accs (tt_read_set accs) (words M1) = (True, W)"
    and c: "c = tt_raise accs (tt_write_set pk accs) (words M1) (tt_commit_ts accs)"
  shows "\<exists>M3. tt_install c accs (tt_write_set pk accs) (M1\<lparr>words := W\<rparr>) = Inr M3 \<and> tt_committed accs c M1 M3"
proof -
  have d: "distinct (map ta_row accs)" and acc: "\<forall>a\<in>set accs. tt_access_ok a" using ok by (auto simp: tt_txn_ok_def)
  have wi: "accs ! i \<in> set accs \<and> ta_type (accs ! i) = WR" if "i \<in> set (tt_write_set pk accs)" for i
    using that by (simp add: tt_write_set_props)
  have "\<forall>i\<in>set (tt_write_set pk accs). unat (tt_get_rts (words M1 (ta_row (accs ! i)))) < 2 ^ 48 - 1"
    using wi wok by (auto simp: tt_words_ok_def)
  note R = tt_raise_spec [OF tt_commit_ts_spec(1) [OF acc] this, folded c]
  have c48: "unat c < 2 ^ 48" using R by blast
  have racc: "\<forall>i\<in>set (tt_read_set accs). tt_access_ok (accs ! i)" using acc by (auto simp: tt_read_set_def)
  note V = tt_validate_reads_spec [OF c48 rd tt_rows_of_sets(2) [OF d] racc]
  have idx: "map (\<lambda>i. ta_row (accs ! i)) (tt_write_set pk accs) = map fst (tt_lock_list pk accs)"
    by (simp add: tt_lock_list_def)
  have wkeep: "W r = words M1 r" if "r \<in> tt_write_rows accs" for r
    using V tt_rows_of_sets(3) [OF d] that by blast
  have P: "got = map fst (tt_lock_list pk accs)" "distinct got" "\<forall>r\<in>set got. is_locked (words M1 r)"
      "\<forall>(r, v)\<in>set (tt_lock_list pk accs). tt_get_wts (words M1 r) = v"
    using L by (auto simp: locked_phase_def)
  have rows: "set got = tt_write_rows accs" using P(1) tt_lock_list_props(2) [of pk accs] by simp
  have di: "distinct (map (\<lambda>i. ta_row (accs ! i)) (tt_write_set pk accs))" using P(1,2) idx by simp
  have "is_locked (words (M1\<lparr>words := W\<rparr>) (ta_row (accs ! i)))" if "i \<in> set (tt_write_set pk accs)" for i
  proof -
    have "ta_row (accs ! i) \<in> tt_write_rows accs" using wi [OF that] by (auto simp: tt_write_rows_def)
    with P(3) rows wkeep show ?thesis by simp
  qed
  with tt_install_spec [OF c48 di, of "M1\<lparr>words := W\<rparr>"] obtain M3 where
    M3: "tt_install c accs (tt_write_set pk accs) (M1\<lparr>words := W\<rparr>) = Inr M3"
      "\<forall>i\<in>set (tt_write_set pk accs). words M3 (ta_row (accs ! i)) = c \<and> image M3 (ta_row (accs ! i)) = ta_data (accs ! i)"
      "\<forall>r. r \<notin> tt_write_rows accs \<longrightarrow> words M3 r = W r \<and> image M3 r = image M1 r"
    unfolding tt_rows_of_sets(1) by auto
  have wr: "tt_get_wts (words M1 (ta_row a)) = ta_wts a \<and> tt_get_rts (words M1 (ta_row a)) < c \<and>
      words M3 (ta_row a) = c \<and> image M3 (ta_row a) = ta_data a" if a: "a \<in> set accs" and ty: "ta_type a = WR" for a
  proof -
    obtain i where i: "accs ! i = a" "i \<in> set (tt_write_set pk accs)" using tt_in_sets [OF a, of pk] ty by auto
    then have "(ta_row a, ta_wts a) \<in> set (tt_lock_list pk accs)" by (auto simp: tt_lock_list_def)
    with P(4) i R M3(2) show ?thesis by auto
  qed
  have rdv: "c \<le> ta_rts a \<or> tt_get_wts (words M1 (ta_row a)) = ta_wts a \<and> c \<le> tt_get_rts (words M3 (ta_row a))"
    if a: "a \<in> set accs" and ty: "ta_type a \<noteq> WR" for a
  proof -
    obtain i where i: "accs ! i = a" "i \<in> set (tt_read_set accs)" using tt_in_sets [OF a, of pk] ty by auto
    then have "ta_row a \<notin> tt_write_rows accs" using tt_rows_of_sets(3) [OF d] by auto
    with M3(3) have "words M3 (ta_row a) = W (ta_row a)" by blast
    with V i show ?thesis by (auto simp: word_le_nat_alt not_less)
  qed
  have "ta_wts a \<le> c" if "a \<in> set accs" "ta_type a = RD" for a
    using tt_commit_ts_spec(2) [OF acc that] R by (meson order.trans)
  moreover have "image M3 r = image M1 r \<and> lease_kept (words M1 r) (words M3 r)" if "r \<notin> tt_write_rows accs" for r
    using M3(3) V that by simp
  ultimately have "tt_committed accs c M1 M3" using wr rdv by (simp add: tt_committed_def)
  with M3(1) show ?thesis by blast
qed

lemma tt_nowait_phase:
  assumes "tt_txn_ok accs" "tt_lock_phase pk pre_abort True accs envs M = Inr (ok, got, envs', M1)"
  shows "locked_phase tt_get_wts (tt_lock_list pk accs) ok got M1"
    "\<exists>k\<le>length envs. (\<forall>r\<in>set got. \<not> is_locked (words (fold (\<lambda>e. e []) (take k envs) M) r)) \<and>
       M1 = (fold (\<lambda>e. e []) (take k envs) M)\<lparr>words := lock_set got (words (fold (\<lambda>e. e []) (take k envs) M))\<rparr>"
proof -
  have d: "distinct (map fst (tt_lock_list pk accs))"
    using assms(1) by (simp add: tt_lock_list_props(1) tt_txn_ok_def)
  have r: "nowait_lock tt_get_wts tt_release (\<lambda>M. pre_abort \<longrightarrow> tt_precheck pk accs M) (tt_lock_list pk accs) envs M
      = Inr (ok, got, envs', M1)"
    using assms(2) by (simp add: tt_lock_phase_def)
  from tt_word.nowait_lock_spec [OF d r] show "locked_phase tt_get_wts (tt_lock_list pk accs) ok got M1" .
  from tt_word.nowait_lock_memory [OF d r]
  show "\<exists>k\<le>length envs. (\<forall>r\<in>set got. \<not> is_locked (words (fold (\<lambda>e. e []) (take k envs) M) r)) \<and>
       M1 = (fold (\<lambda>e. e []) (take k envs) M)\<lparr>words := lock_set got (words (fold (\<lambda>e. e []) (take k envs) M))\<rparr>" .
qed

lemma tt_abort_kept:
  assumes P: "distinct got" "\<forall>r\<in>set got. \<not> is_locked (words L r)"
    and W: "\<forall>r. lease_kept (lock_set got (words L) r) (W r)"
    and M2: "image M2 = image L" "words M2 = W"
  shows "\<exists>M'. tt_abort mx got M2 = Inr (Abort, mx, M') \<and> image M' = image L \<and>
     (\<forall>r. lease_kept (words L r) (words M' r))"
proof -
  have Wg: "W r = words L r OR LOCK_BIT" if "r \<in> set got" for r
    using spec [OF W, of r] that by (auto simp: lease_kept_def lock_set_def)
  then have "\<forall>r\<in>set got. is_locked (words M2 r)" using M2 by simp
  with tt_word.release_rows_eq [OF P(1)] M2 have "tt_abort mx got M2 = Inr (Abort, mx, M2\<lparr>words := unlock_set got W\<rparr>)"
    by (simp add: tt_abort_def)
  moreover have "lease_kept (words L r) (unlock_set got W r)" for r
    using spec [OF W, of r] Wg [of r] P(2) by (auto simp: unlock_set_def lock_set_def lease_kept_def)
  ultimately show ?thesis using M2 by simp
qed

lemma tt_committed_unlocked:
  assumes "tt_committed accs c (L\<lparr>words := lock_set got (words L)\<rparr>) M" "set got = tt_write_rows accs"
  shows "tt_committed accs c L M"
  using assms unfolding tt_committed_def by (auto simp: lock_set_def split: if_splits)


text \<open>TicToc's validation does not get stuck by itself: in no-wait mode, with writes by copy, no
  assertion fails and it returns as soon as the other threads leave every row of the write set
  unlocked at one of its attempts.\<close>

theorem validate_tictoc_returns:
  assumes "tt_txn_ok accs" and "\<forall>k\<le>length envs. tt_words_ok accs (fold (\<lambda>e. e []) (take k envs) M)" and "k \<le> length envs"
    and "\<forall>r\<in>tt_write_rows accs. \<not> is_locked (words (fold (\<lambda>e. e []) (take k envs) M) r)"
  shows "\<exists>rc mx M'. validate_tictoc pk pre_abort True False accs max_wts envs M = Inr (rc, mx, M')"
proof (cases "tt_lock_phase pk pre_abort True accs envs M")
  case (Inl f)
  have d: "distinct (map fst (tt_lock_list pk accs))"
    using assms(1) by (simp add: tt_lock_list_props(1) tt_txn_ok_def)
  have "nowait_lock tt_get_wts tt_release (\<lambda>M. pre_abort \<longrightarrow> tt_precheck pk accs M) (tt_lock_list pk accs) envs M = Inl f"
    using Inl by (simp add: tt_lock_phase_def)
  from tt_word.nowait_lock_spins [OF d this] assms(3,4) show ?thesis unfolding tt_lock_list_props(2) by blast
next
  case (Inr b)
  obtain ok got envs' M1 where b: "b = (ok, got, envs', M1)" by (metis prod_cases4)
  note ph = Inr [unfolded b]
  note P = tt_nowait_phase [OF assms(1) ph]
  have relR: "\<exists>W'. release_rows tt_release R W = Inr W'" for R W
    by (induction R arbitrary: W) (auto simp: tt_release_def)
  have rel: "\<exists>M'. tt_abort max_wts R N = Inr (Abort, max_wts, M')" for R and N :: "'a mem"
    using relR [of R "words N"] by (auto simp: tt_abort_def)
  define c where "c = tt_raise accs (tt_write_set pk accs) (words M1) (tt_commit_ts accs)"
  obtain valid W where V: "tt_validate_reads c accs (tt_read_set accs) (words M1) = (valid, W)" by (metis surj_pair)
  have "\<exists>M3. tt_install c accs ws N = Inr M3" for ws and N :: "'a mem"
    by (induction ws arbitrary: N) (auto simp: tt_release_def Let_def split: prod.splits)
  then obtain M3 where M3: "tt_install c accs (tt_write_set pk accs) (M1\<lparr>words := W\<rparr>) = Inr M3" by blast
  have len: "length got = length (tt_write_set pk accs)" if ok
    using P(1) that by (simp add: locked_phase_def tt_lock_list_def)
  show ?thesis
  proof (cases "pre_abort \<and> \<not> tt_precheck pk accs M")
    case True
    with rel [of "[]" M] show ?thesis by (auto simp: validate_tictoc_def)
  next
    case False
    show ?thesis
    proof (cases "ok \<and> valid")
      case True
      with False ph V M3 len show ?thesis unfolding c_def by (auto simp: validate_tictoc_def Let_def)
    next
      case no: False
      with False ph V rel [of got M1] rel [of got "M1\<lparr>words := W\<rparr>"] len show ?thesis
        unfolding c_def by (cases ok) (auto simp: validate_tictoc_def Let_def)
    qed
  qed
qed

text \<open>A transaction that reads row 1 (version 9, lease to 9) and writes row 0 (version 5, lease to 20).\<close>

definition tt_demo_accs :: "nat tt_acc list" where
  "tt_demo_accs = [\<lparr>ta_type = WR, ta_row = 0, ta_data = 42, ta_wts = 5, ta_rts = 20\<rparr>,
     \<lparr>ta_type = RD, ta_row = 1, ta_data = 7, ta_wts = 9, ta_rts = 9\<rparr>]"

definition tt_demo_mem :: "nat mem" where
  "tt_demo_mem = \<lparr>words = (\<lambda>_. 0)(0 := 5 OR push_bit 48 15, 1 := 9), image = (\<lambda>_. 7)\<rparr>"

lemma tt_demo_word: "unat (tt_get_rts (5 OR push_bit 48 15)) = 20" "\<not> is_locked (5 OR push_bit 48 15)"
  "unat (tt_get_rts 9) = 9"
  using tt_pack [of 5 15] tt_pack [of 9 0] by (simp_all add: unat_tt_get_rts)

lemma tt_demo_ok: "tt_txn_ok tt_demo_accs" "tt_words_ok tt_demo_accs tt_demo_mem"
    "\<forall>r\<in>tt_write_rows tt_demo_accs. \<not> is_locked (words tt_demo_mem r)"
  using tt_demo_word
  by (auto simp: tt_txn_ok_def tt_access_ok_def tt_words_ok_def tt_write_rows_def tt_demo_accs_def tt_demo_mem_def)

definition tt_demo_result :: "fault + (RC \<times> 64 word \<times> nat mem)" where
  "tt_demo_result = validate_tictoc (\<lambda>r. of_nat r) True True False tt_demo_accs 3 [] tt_demo_mem"

lemma tt_demo_commits: "case tt_demo_result of Inr (rc, mx, M') \<Rightarrow> rc = RCOK \<and> mx = 21 \<and> image M' 0 = 42 | Inl _ \<Rightarrow> False"
  by code_simp

theorem validate_tictoc_returns_witness:
  "\<exists>rc mx M'. validate_tictoc (\<lambda>r. of_nat r) True True False tt_demo_accs 3 [] tt_demo_mem = Inr (rc, mx, M')"
  by (rule validate_tictoc_returns [of _ _ _ 0]) (use tt_demo_ok in auto)


subsection \<open>Optimistic reads\<close>

text \<open>One row under concurrent writers and lease renewals: \<open>tt_write_data\<close> is two stores, the word and
  then the copy of the data, which need not be atomic. \<open>fresh\<close> tells that the holder of the lock has
  stored its word.\<close>

record 'd tt_rowst =
  trow_word :: "64 word"
  trow_data :: 'd
  fresh :: bool

inductive tt_row_step :: "'d tt_rowst \<Rightarrow> 'd tt_rowst \<Rightarrow> bool" where
  take_lock: "tt_try_lock id (trow_word s) = (True, w) \<Longrightarrow> tt_row_step s (s\<lparr>trow_word := w, fresh := False\<rparr>)"
| store_word: "is_locked (trow_word s) \<Longrightarrow> tt_get_rts (trow_word s) < wts \<Longrightarrow> unat wts < 2 ^ 48 \<Longrightarrow>
     tt_row_step s (s\<lparr>trow_word := fst (tt_write_data d wts (trow_word s, trow_data s)), fresh := True\<rparr>)"
| copy_data: "is_locked (trow_word s) \<Longrightarrow> fresh s \<Longrightarrow> tt_row_step s (s\<lparr>trow_data := d\<rparr>)"
| give_back: "is_locked (trow_word s) \<Longrightarrow> tt_release (trow_word s) = Inr w \<Longrightarrow>
     tt_row_step s (s\<lparr>trow_word := w, fresh := False\<rparr>)"
| renew: "tt_try_renew wts rts [] (trow_word s) = (ok, w) \<Longrightarrow> unat wts \<le> unat rts \<Longrightarrow> unat rts < 2 ^ 48 \<Longrightarrow>
     tt_row_step s (s\<lparr>trow_word := w\<rparr>)"

definition tt_row_init :: "'d tt_rowst \<Rightarrow> bool" where
  "tt_row_init s \<longleftrightarrow> trow_word s = tt_init \<and> \<not> fresh s"

definition tt_row_inv :: "'d tt_rowst \<Rightarrow> bool" where
  "tt_row_inv s \<longleftrightarrow> (fresh s \<longrightarrow> is_locked (trow_word s))"

abbreviation trow_wts :: "'d tt_rowst \<Rightarrow> 64 word" where
  "trow_wts s \<equiv> tt_get_wts (trow_word s)"

lemma tt_row_step_inv: "tt_row_step s t \<Longrightarrow> tt_row_inv s \<Longrightarrow> tt_row_inv t"
proof (induction rule: tt_row_step.induct)
  case (store_word s wts d)
  then show ?case using tt_write_data_word(1) [of wts "trow_word s" d "trow_data s"] by (simp add: tt_row_inv_def)
next
  case (renew wts rts s ok w)
  from try_renew_kept(1) [OF renew(2,3,1)] renew(4) show ?case by (auto simp: tt_row_inv_def lease_kept_def)
qed (auto simp: tt_row_inv_def)

lemma tt_row_run_inv: "tt_row_step\<^sup>*\<^sup>* s t \<Longrightarrow> tt_row_inv s \<Longrightarrow> tt_row_inv t"
  by (induction rule: rtranclp_induct) (auto dest: tt_row_step_inv)

lemma tt_wts_le_rts: "tt_get_wts w \<le> tt_get_rts w"
  using unat_tt_get_rts [of w] by (simp add: word_le_nat_alt)

lemma tt_row_step_wts:
  "tt_row_step s t \<Longrightarrow>
     trow_wts s \<le> trow_wts t \<and> (fresh t \<longrightarrow> fresh s \<or> trow_wts s < trow_wts t) \<and>
     (trow_data t = trow_data s \<or> fresh s)"
proof (induction rule: tt_row_step.induct)
  case (store_word s wts d)
  have "trow_wts s < wts" using tt_wts_le_rts store_word(2) by (rule le_less_trans)
  then show ?case
    using tt_write_data_word(1) [OF store_word(3,1), of d "trow_data s"] tt_write_data_word(3) [OF store_word(3,1)] by simp
next
  case (renew wts rts s ok w)
  from try_renew_kept(1) [OF renew(2,3,1)] show ?case by (auto simp: lease_kept_def)
next
  case (give_back s w)
  have "tt_get_wts (word_release v) = tt_get_wts v" for v
    unfolding tt_get_wts_eq word_release_def by (rule bit_word_eqI) (auto simp: bit_take_bit_iff bit_and_iff bit_not_iff)
  with give_back show ?case by (auto simp: tt_release_def word_release_def)
qed (auto simp: tt_try_lock_def try_lock_id split: if_splits)

lemma tt_row_run:
  assumes "tt_row_step\<^sup>*\<^sup>* s t" "\<not> fresh s"
  shows "trow_wts s \<le> trow_wts t \<and> (fresh t \<longrightarrow> trow_wts s < trow_wts t) \<and>
     (trow_wts t = trow_wts s \<longrightarrow> trow_data t = trow_data s)"
  using assms(1)
proof (induction rule: rtranclp_induct)
  case base
  then show ?case using assms(2) by simp
next
  case (step m t)
  note S = tt_row_step_wts [OF step(2)] and IH = step.IH
  have le: "trow_wts s \<le> trow_wts m" "trow_wts m \<le> trow_wts t" using S IH by blast+
  have "trow_wts s < trow_wts t" if "fresh t"
  proof (cases "fresh m")
    case True
    then have "trow_wts s < trow_wts m" using IH by blast
    then show ?thesis using le(2) by (rule less_le_trans)
  next
    case False
    then have "trow_wts m < trow_wts t" using S that by blast
    with le(1) show ?thesis by (rule le_less_trans)
  qed
  moreover have "trow_data t = trow_data s" if "trow_wts t = trow_wts s"
  proof -
    have m: "trow_wts m = trow_wts s" using le that by simp
    then have "\<not> fresh m" using IH by auto
    then have "trow_data t = trow_data m" using S by blast
    with IH m show ?thesis by simp
  qed
  moreover have "trow_wts s \<le> trow_wts t" using le by (rule order.trans)
  ultimately show ?case by blast
qed

lemma tt_row_mono: "tt_row_step\<^sup>*\<^sup>* s t \<Longrightarrow> trow_wts s \<le> trow_wts t"
  by (induction rule: rtranclp_induct) (auto dest: tt_row_step_wts intro: order.trans)

lemma tt_same_word:
  assumes "(v2 OR RTS_MASK) = (v OR RTS_MASK)"
  shows "tt_get_wts v2 = tt_get_wts v" "is_locked v2 = is_locked v"
proof -
  have "bit v2 n = bit v n" if "n < 48 \<or> n = 63" for n
    using arg_cong [OF assms, of "\<lambda>x. bit x n"] that by (auto simp: bit_or_iff bit_RTS_MASK)
  note b = this
  show "is_locked v2 = is_locked v" using b [of 63] by (simp add: is_locked_bit)
  show "tt_get_wts v2 = tt_get_wts v"
    unfolding tt_get_wts_eq by (rule bit_word_eqI) (use b in \<open>auto simp: bit_take_bit_iff\<close>)
qed

interpretation tt_seq: seqlock tt_row_init tt_row_step tt_row_inv trow_word trow_data
  "\<lambda>v v2. (v2 OR RTS_MASK) = (v OR RTS_MASK)"
proof unfold_locales
  show "tt_row_init s \<Longrightarrow> tt_row_inv s" for s :: "'d tt_rowst" by (simp add: tt_row_init_def tt_row_inv_def)
  show "tt_row_inv s \<Longrightarrow> tt_row_step s t \<Longrightarrow> tt_row_inv t" for s t :: "'d tt_rowst" by (rule tt_row_step_inv)
next
  fix s m t :: "'d tt_rowst"
  assume inv: "tt_row_inv s" and sm: "tt_row_step\<^sup>*\<^sup>* s m" and mt: "tt_row_step\<^sup>*\<^sup>* m t"
    and un: "\<not> is_locked (trow_word s)" and eq: "(trow_word t OR RTS_MASK) = (trow_word s OR RTS_MASK)"
  have nf: "\<not> fresh s" using inv un by (auto simp: tt_row_inv_def)
  have "trow_wts m = trow_wts s"
    using tt_row_mono [OF sm] tt_row_mono [OF mt] tt_same_word(1) [OF eq] by simp
  with tt_row_run [OF sm nf] show "trow_data m = trow_data s" by blast
qed

text \<open>an optimistic read under TicToc is never torn. If the memory accesses of
  \<^verbatim>\<open>Row_tictoc::access\<close> fall anywhere into a run of writers and lease renewals of the row, and it
  returns, then its copy is the data the row had at a moment when it was unlocked with the write
  timestamp and the end of lease the read reports.\<close>

theorem tictoc_access_consistent:
  assumes "tt_row_init s0" and "tt_row_step\<^sup>*\<^sup>* s0 (hd ss)" and "successively (tt_row_step\<^sup>*\<^sup>*) ss"
    and "tt_access (map (\<lambda>s. (trow_word s, trow_data s)) ss) = Inr (rc, d, wts, rts)"
  shows "rc = RCOK \<and> (\<exists>s\<in>set ss. tt_row_step\<^sup>*\<^sup>* s0 s \<and> \<not> is_locked (trow_word s) \<and>
     tt_get_wts (trow_word s) = wts \<and> tt_get_rts (trow_word s) = rts \<and> trow_data s = d)"
proof -
  from assms(4) obtain v rest where rd: "seq_read (\<lambda>v v2. (v2 OR RTS_MASK) = (v OR RTS_MASK))
      (map (\<lambda>s. (trow_word s, trow_data s)) ss) = Inr (v, d, rest)"
    and ts: "wts = tt_get_wts v" "rts = tt_get_rts v" "rc = RCOK"
    by (auto simp: tt_access_def bindE_eq_Inr Let_def tt_get_wts_def tt_get_rts_def)
  have reach: "\<forall>s\<in>set ss. tt_row_step\<^sup>*\<^sup>* s0 s" using successively_reach [OF assms(3,2)] by blast
  then have inv: "\<forall>s\<in>set ss. tt_row_inv s" using tt_seq.reachable_inv [OF assms(1)] by blast
  from tt_seq.seq_read_consistent [OF rd assms(3) inv] reach ts show ?thesis by blast
qed

theorem tictoc_access_consistent_witness:
  "\<exists>s. tt_row_step\<^sup>*\<^sup>* \<lparr>trow_word = 0, trow_data = 7::nat, fresh = False\<rparr> s \<and> tt_get_wts (trow_word s) = 0 \<and>
     trow_data s = 7 \<and> tt_access [(0, 7::nat), (0, 7), (0, 7)] = Inr (RCOK, 7, 0, 0)"
proof -
  let ?s = "\<lparr>trow_word = 0, trow_data = 7::nat, fresh = False\<rparr>"
  have run: "tt_access (map (\<lambda>s. (trow_word s, trow_data s)) [?s, ?s, ?s]) = Inr (RCOK, 7, 0, 0)"
    by (simp add: tt_access_def is_locked_iff_ge tt_delta_eq)
  have "tt_row_init ?s" by (simp add: tt_row_init_def tt_init_def)
  then have "\<exists>s\<in>set [?s, ?s, ?s]. tt_row_step\<^sup>*\<^sup>* ?s s \<and> \<not> is_locked (trow_word s) \<and>
      tt_get_wts (trow_word s) = 0 \<and> tt_get_rts (trow_word s) = 0 \<and> trow_data s = 7"
    using tictoc_access_consistent [OF _ _ _ run, of ?s] by simp
  then obtain s where "tt_row_step\<^sup>*\<^sup>* ?s s" "tt_get_wts (trow_word s) = 0" "trow_data s = 7" by blast
  with run show ?thesis by (intro exI [of _ s]) simp
qed

end
