(* ===== verification/Row_mvcc.thy ===== *)
theory Row_mvcc
  imports Base
begin

text \<open>
  Multi-version concurrency control, \<^verbatim>\<open>concurrency_control/row_mvcc.cpp\<close>: per row a base version, a
  growing array of committed or reserved versions, at most one served prewrite, and an array of
  pending requests. Every call runs under the row's latch. Rows are addresses into a table of
  contents; \<open>next_row\<close> is the address the allocator hands out next. \<open>min_ts\<close> is the result of
  \<^verbatim>\<open>glob_manager->get_min_ts\<close> and \<open>g_thread_cnt\<close> the number of threads. The time stamps of the
  statistics are left out.
\<close>

subsection \<open>State\<close>

record WriteHisEntry =
  we_valid :: bool
  we_reserved :: bool
  we_ts :: ts_t
  we_row :: "row_ptr option"

record ReqEntry =
  re_valid :: bool
  re_type :: TsType
  re_ts :: ts_t
  re_txn :: txn_ptr

record Row_mvcc =
  mv_row :: row_ptr
  latest_row :: row_ptr
  latest_wts :: ts_t
  oldest_wts :: ts_t
  write_history :: "WriteHisEntry list"
  exists_prewrite :: bool
  prewrite_ts :: ts_t
  prewrite_his_id :: nat
  max_served_rts :: ts_t
  requests :: "ReqEntry list"
  num_versions :: nat

text \<open>The row manager with what it works on.\<close>

record 'd mv_state =
  mv :: Row_mvcc
  mv_txns :: txn_tab
  rdata :: "'d row_tab"
  next_row :: row_ptr

definition empty_his :: WriteHisEntry where
  "empty_his = \<lparr>we_valid = False, we_reserved = False, we_ts = 0, we_row = None\<rparr>"

definition empty_req :: ReqEntry where
  "empty_req = \<lparr>re_valid = False, re_type = R_REQ, re_ts = 0, re_txn = 0\<rparr>"

definition Row_mvcc_init :: "row_ptr \<Rightarrow> Row_mvcc" where
  "Row_mvcc_init row =
     \<lparr>mv_row = row, latest_row = row, latest_wts = 0, oldest_wts = 0,
      write_history = replicate 4 empty_his, exists_prewrite = False, prewrite_ts = 0, prewrite_his_id = 0,
      max_served_rts = 0, requests = replicate 4 empty_req, num_versions = 0\<rparr>"

subsection \<open>Buffering requests\<close>

definition double_history :: "Row_mvcc \<Rightarrow> Row_mvcc" where
  "double_history s = s\<lparr>write_history := write_history s @ replicate (length (write_history s)) empty_his\<rparr>"

definition double_requests :: "Row_mvcc \<Rightarrow> Row_mvcc" where
  "double_requests s = s\<lparr>requests := requests s @ replicate (length (requests s)) empty_req\<rparr>"

text \<open>The first free slot of the request array.\<close>

fun put_req :: "ReqEntry \<Rightarrow> ReqEntry list \<Rightarrow> ReqEntry list option" where
  "put_req r [] = None"
| "put_req r (q # qs) =
     (if \<not> re_valid q then Some (r # qs)
      else case put_req r qs of None \<Rightarrow> None | Some qs' \<Rightarrow> Some (q # qs'))"

definition buffer_req :: "TsType \<Rightarrow> txn_ptr \<Rightarrow> txn_tab \<Rightarrow> Row_mvcc \<Rightarrow> fault + Row_mvcc" where
  "buffer_req type txn T s =
     (let r = \<lparr>re_valid = True, re_type = type, re_ts = ts_of T txn, re_txn = txn\<rparr> in
      case put_req r (requests s) of
        Some qs \<Rightarrow> Inr (s\<lparr>requests := qs\<rparr>)
      | None \<Rightarrow>
          (let s' = double_requests s in
           case put_req r (requests s') of
             Some qs \<Rightarrow> Inr (s'\<lparr>requests := qs\<rparr>)
           | None \<Rightarrow> Inl Assert_failed))"

subsection \<open>Reserving a version\<close>

text \<open>The newest valid version older than \<open>min_ts\<close>: the loop variables are the maximum and its index.\<close>

fun gc_scan :: "ts_t \<Rightarrow> WriteHisEntry list \<Rightarrow> nat \<Rightarrow> ts_t \<Rightarrow> nat \<Rightarrow> ts_t \<times> nat" where
  "gc_scan min_ts [] i mx idx = (mx, idx)"
| "gc_scan min_ts (e # es) i mx idx =
     (if we_valid e \<and> we_ts e < min_ts \<and> we_ts e > mx then gc_scan min_ts es (Suc i) (we_ts e) i
      else gc_scan min_ts es (Suc i) mx idx)"

fun gc_clear :: "ts_t \<Rightarrow> WriteHisEntry list \<Rightarrow> nat \<Rightarrow> fault + (WriteHisEntry list \<times> nat)" where
  "gc_clear mx [] n = Inr ([], n)"
| "gc_clear mx (e # es) n =
     (if we_valid e \<and> we_ts e \<le> mx then
        bindE (assert_that (we_row e \<noteq> None)) (\<lambda>_.
        bindE (gc_clear mx es (n - 1)) (\<lambda>(es', n').
        Inr (e\<lparr>we_valid := False, we_reserved := False\<rparr> # es', n')))
      else bindE (gc_clear mx es n) (\<lambda>(es', n'). Inr (e # es', n')))"

definition mvcc_gc :: "ts_t \<Rightarrow> Row_mvcc \<Rightarrow> fault + Row_mvcc" where
  "mvcc_gc min_ts s =
     (if oldest_wts s < min_ts \<and> num_versions s = length (write_history s) then
        (let (mx, idx) = gc_scan min_ts (write_history s) 0 0 (length (write_history s)) in
         if idx \<noteq> length (write_history s) then
           (case we_row (write_history s ! idx) of
              None \<Rightarrow> Inl Null_deref
            | Some r \<Rightarrow>
                bindE (gc_clear mx ((write_history s)[idx := (write_history s ! idx)\<lparr>we_row := Some (mv_row s)\<rparr>])
                         (num_versions s)) (\<lambda>(h, n).
                Inr (s\<lparr>mv_row := r, oldest_wts := mx, write_history := h, num_versions := n\<rparr>)))
         else Inr s)
      else Inr s)"

text \<open>The search for an unused entry, which prefers one that has a row already.\<close>

fun find_slot :: "WriteHisEntry list \<Rightarrow> nat \<Rightarrow> nat \<Rightarrow> nat" where
  "find_slot [] i idx = idx"
| "find_slot (e # es) i idx =
     (if \<not> we_valid e \<and> \<not> we_reserved e \<and> we_row e \<noteq> None then i
      else if \<not> we_valid e \<and> \<not> we_reserved e then find_slot es (Suc i) i
      else find_slot es (Suc i) idx)"

fun oldest_scan :: "WriteHisEntry list \<Rightarrow> nat \<Rightarrow> ts_t \<Rightarrow> nat \<Rightarrow> ts_t \<times> nat" where
  "oldest_scan [] i mn idx = (mn, idx)"
| "oldest_scan (e # es) i mn idx =
     (if we_valid e \<and> we_ts e < mn then oldest_scan es (Suc i) (we_ts e) i
      else oldest_scan es (Suc i) mn idx)"

text \<open>When every entry is taken: recycle the oldest version if the array is already as long as there are
  threads, otherwise double the array.\<close>

definition mvcc_make_room :: "nat \<Rightarrow> ts_t \<Rightarrow> Row_mvcc \<Rightarrow> fault + (nat \<times> Row_mvcc)" where
  "mvcc_make_room g_thread_cnt ts s =
     (let len = length (write_history s) in
      if len \<ge> g_thread_cnt then
        (let (mn, idx) = oldest_scan (write_history s) 0 UINT64_MAX len in
         bindE (assert_that (mn > oldest_wts s)) (\<lambda>_.
         if idx \<ge> len then Inl Out_of_bounds
         else case we_row (write_history s ! idx) of
                None \<Rightarrow> Inl Assert_failed
              | Some r \<Rightarrow>
                  Inr (idx, s\<lparr>mv_row := r, oldest_wts := mn, num_versions := num_versions s - 1,
                     write_history := (write_history s)[idx := (write_history s ! idx)\<lparr>we_row := Some (mv_row s)\<rparr>]\<rparr>)))
      else
        (let s' = (double_history s)\<lparr>prewrite_ts := ts\<rparr>
         in Inr (length (write_history s') div 2, s')))"

definition mvcc_pick :: "nat \<Rightarrow> ts_t \<Rightarrow> Row_mvcc \<Rightarrow> fault + (nat \<times> Row_mvcc)" where
  "mvcc_pick g_thread_cnt ts s =
     (let len = length (write_history s) in
      if num_versions s < len then
        (let idx = find_slot (write_history s) 0 len
         in bindE (assert_that (idx < len)) (\<lambda>_. Inr (idx, s)))
      else mvcc_make_room g_thread_cnt ts s)"

definition reserveRow ::
  "nat \<Rightarrow> ts_t \<Rightarrow> ts_t \<Rightarrow> Row_mvcc \<Rightarrow> row_ptr \<Rightarrow> fault + (row_ptr \<times> Row_mvcc \<times> row_ptr)" where
  "reserveRow g_thread_cnt min_ts ts s nxt =
     bindE (assert_that (\<not> exists_prewrite s)) (\<lambda>_.
     bindE (mvcc_gc min_ts s) (\<lambda>s1.
     bindE (mvcc_pick g_thread_cnt ts s1) (\<lambda>(idx, s2).
     bindE (assert_that (idx \<noteq> length (write_history s2))) (\<lambda>_.
     let e = write_history s2 ! idx;
         (r, nxt') = (case we_row e of Some r \<Rightarrow> (r, nxt) | None \<Rightarrow> (nxt, Suc nxt))
     in Inr (r, s2\<lparr>write_history := (write_history s2)[idx := e\<lparr>we_row := Some r, we_valid := False,
                                                       we_reserved := True, we_ts := ts\<rparr>],
                   exists_prewrite := True, prewrite_his_id := idx, prewrite_ts := ts\<rparr>, nxt')))))"

subsection \<open>Waking pending requests\<close>

definition set_ts_ready :: "bool \<Rightarrow> txn_ptr \<Rightarrow> txn_tab \<Rightarrow> txn_tab" where
  "set_ts_ready b t T = T(t := (T t)\<lparr>ts_ready := b\<rparr>)"

definition set_cur_row :: "row_ptr \<Rightarrow> txn_ptr \<Rightarrow> txn_tab \<Rightarrow> txn_tab" where
  "set_cur_row r t T = T(t := (T t)\<lparr>cur_row := r\<rparr>)"

text \<open>The timestamp of the next pending prewrite.\<close>

fun next_pre :: "ts_t \<Rightarrow> ReqEntry list \<Rightarrow> ts_t \<Rightarrow> ts_t" where
  "next_pre ts [] m = m"
| "next_pre ts (q # qs) m =
     (if re_valid q \<and> re_type q = P_REQ \<and> re_ts q > ts \<and> re_ts q < m then next_pre ts qs (re_ts q)
      else next_pre ts qs m)"

text \<open>Reserve a version for a prewrite and hand it out with the latest contents.\<close>

definition serve_prewrite :: "nat \<Rightarrow> ts_t \<Rightarrow> ts_t \<Rightarrow> txn_ptr \<Rightarrow> 'd mv_state \<Rightarrow> fault + 'd mv_state" where
  "serve_prewrite g_thread_cnt min_ts ts txn S =
     bindE (reserveRow g_thread_cnt min_ts ts (mv S) (next_row S)) (\<lambda>(r, s, nxt).
     Inr (S\<lparr>mv := s, next_row := nxt, rdata := copy_row r (latest_row s) (rdata S),
            mv_txns := set_cur_row r txn (mv_txns S)\<rparr>))"

text \<open>One iteration of the second loop of \<^verbatim>\<open>update_buffer\<close>, for request \<open>i\<close>.\<close>

definition serve_req :: "nat \<Rightarrow> ts_t \<Rightarrow> ts_t \<Rightarrow> ts_t \<Rightarrow> nat \<Rightarrow> 'd mv_state \<Rightarrow> fault + 'd mv_state" where
  "serve_req g_thread_cnt min_ts ts next_pre_ts i S =
     (let s = mv S; q = requests s ! i in
      bindE (assert_that (re_valid q \<longrightarrow> re_ts q > ts)) (\<lambda>_.
      if re_valid q \<and> re_type q = R_REQ \<and> re_ts q < next_pre_ts then
        Inr (S\<lparr>mv := s\<lparr>max_served_rts := (if re_ts q > max_served_rts s then re_ts q else max_served_rts s),
                       requests := (requests s)[i := q\<lparr>re_valid := False\<rparr>]\<rparr>,
               mv_txns := set_ts_ready True (re_txn q) (set_cur_row (latest_row s) (re_txn q) (mv_txns S))\<rparr>)
      else if re_valid q \<and> re_ts q = next_pre_ts then
        bindE (assert_that (re_type q = P_REQ)) (\<lambda>_.
        bindE (serve_prewrite g_thread_cnt min_ts (re_ts q) (re_txn q) S) (\<lambda>S1.
        Inr (S1\<lparr>mv := (mv S1)\<lparr>requests := (requests (mv S1))[i := q\<lparr>re_valid := False\<rparr>]\<rparr>,
                mv_txns := set_ts_ready True (re_txn q) (mv_txns S1)\<rparr>)))
      else Inr S))"

fun serve_loop :: "nat \<Rightarrow> ts_t \<Rightarrow> ts_t \<Rightarrow> ts_t \<Rightarrow> nat \<Rightarrow> nat \<Rightarrow> 'd mv_state \<Rightarrow> fault + 'd mv_state" where
  "serve_loop n min_ts ts np 0 i S = Inr S"
| "serve_loop n min_ts ts np (Suc k) i S =
     bindE (serve_req n min_ts ts np i S) (\<lambda>S1. serve_loop n min_ts ts np k (Suc i) S1)"

definition mvcc_update_buffer :: "nat \<Rightarrow> ts_t \<Rightarrow> ts_t \<Rightarrow> 'd mv_state \<Rightarrow> fault + 'd mv_state" where
  "mvcc_update_buffer g_thread_cnt min_ts ts S =
     serve_loop g_thread_cnt min_ts ts (next_pre ts (requests (mv S)) UINT64_MAX) (length (requests (mv S))) 0 S"

subsection \<open>Access\<close>

text \<open>The search for the version a read between \<^verbatim>\<open>_oldest_wts\<close> and \<^verbatim>\<open>_latest_wts\<close> sees. The loop
  variable \<^verbatim>\<open>the_ts\<close> is declared with 32 bits.\<close>

fun version_scan :: "ts_t \<Rightarrow> WriteHisEntry list \<Rightarrow> nat \<Rightarrow> 32 word \<Rightarrow> nat \<Rightarrow> nat" where
  "version_scan ts [] i the_ts the_i = the_i"
| "version_scan ts (e # es) i the_ts the_i =
     (if we_valid e \<and> we_ts e < ts \<and> we_ts e > ucast the_ts then version_scan ts es (Suc i) (ucast (we_ts e)) i
      else version_scan ts es (Suc i) the_ts the_i)"

definition read_version :: "ts_t \<Rightarrow> Row_mvcc \<Rightarrow> fault + row_ptr" where
  "read_version ts s =
     (let len = length (write_history s); the_i = version_scan ts (write_history s) 0 0 len in
      if the_i = len then Inr (mv_row s)
      else case we_row (write_history s ! the_i) of None \<Rightarrow> Inl Null_deref | Some r \<Rightarrow> Inr r)"

definition mvcc_read :: "txn_ptr \<Rightarrow> 'd mv_state \<Rightarrow> fault + (RC \<times> 'd mv_state)" where
  "mvcc_read txn S =
     (let s = mv S; T = mv_txns S; ts = ts_of T txn in
      if ts < oldest_wts s then Inr (Abort, S)
      else if ts > latest_wts s then
        if exists_prewrite s \<and> prewrite_ts s < ts then
          bindE (buffer_req R_REQ txn T s) (\<lambda>s'. Inr (WAIT, S\<lparr>mv := s', mv_txns := set_ts_ready False txn T\<rparr>))
        else
          Inr (RCOK, S\<lparr>mv := s\<lparr>max_served_rts := (if ts > max_served_rts s then ts else max_served_rts s)\<rparr>,
                       mv_txns := set_cur_row (latest_row s) txn T\<rparr>)
      else bindE (read_version ts s) (\<lambda>r. Inr (RCOK, S\<lparr>mv_txns := set_cur_row r txn T\<rparr>)))"

definition mvcc_prewrite :: "nat \<Rightarrow> ts_t \<Rightarrow> txn_ptr \<Rightarrow> 'd mv_state \<Rightarrow> fault + (RC \<times> 'd mv_state)" where
  "mvcc_prewrite g_thread_cnt min_ts txn S =
     (let s = mv S; T = mv_txns S; ts = ts_of T txn in
      if ts < latest_wts s \<or> ts < max_served_rts s \<or> (exists_prewrite s \<and> prewrite_ts s > ts) then Inr (Abort, S)
      else if exists_prewrite s then
        bindE (buffer_req P_REQ txn T s) (\<lambda>s'. Inr (WAIT, S\<lparr>mv := s', mv_txns := set_ts_ready False txn T\<rparr>))
      else bindE (serve_prewrite g_thread_cnt min_ts ts txn S) (\<lambda>S'. Inr (RCOK, S')))"

definition mvcc_write :: "nat \<Rightarrow> ts_t \<Rightarrow> txn_ptr \<Rightarrow> row_ptr \<Rightarrow> 'd mv_state \<Rightarrow> fault + (RC \<times> 'd mv_state)" where
  "mvcc_write g_thread_cnt min_ts txn row S =
     (let s = mv S; ts = ts_of (mv_txns S) txn; i = prewrite_his_id s in
      bindE (assert_that (ts > latest_wts s)) (\<lambda>_.
      bindE (guard Out_of_bounds (i < length (write_history s))) (\<lambda>_.
      bindE (assert_that (we_row (write_history s ! i) = Some row)) (\<lambda>_.
      bindE (mvcc_update_buffer g_thread_cnt min_ts ts
               (S\<lparr>mv := s\<lparr>write_history := (write_history s)[i := (write_history s ! i)\<lparr>we_valid := True, we_ts := ts\<rparr>],
                          latest_wts := ts, latest_row := row, exists_prewrite := False,
                          num_versions := num_versions s + 1\<rparr>\<rparr>)) (\<lambda>S'.
      Inr (RCOK, S'))))))"

definition mvcc_cancel :: "nat \<Rightarrow> ts_t \<Rightarrow> txn_ptr \<Rightarrow> row_ptr \<Rightarrow> 'd mv_state \<Rightarrow> fault + (RC \<times> 'd mv_state)" where
  "mvcc_cancel g_thread_cnt min_ts txn row S =
     (let s = mv S; ts = ts_of (mv_txns S) txn; i = prewrite_his_id s in
      bindE (guard Out_of_bounds (i < length (write_history s))) (\<lambda>_.
      bindE (assert_that (we_row (write_history s ! i) = Some row)) (\<lambda>_.
      bindE (mvcc_update_buffer g_thread_cnt min_ts ts
               (S\<lparr>mv := s\<lparr>write_history := (write_history s)[i := (write_history s ! i)\<lparr>we_valid := False, we_reserved := False\<rparr>],
                          exists_prewrite := False\<rparr>\<rparr>)) (\<lambda>S'.
      Inr (RCOK, S')))))"

definition mvcc_access ::
  "nat \<Rightarrow> ts_t \<Rightarrow> txn_ptr \<Rightarrow> TsType \<Rightarrow> row_ptr \<Rightarrow> 'd mv_state \<Rightarrow> fault + (RC \<times> 'd mv_state)" where
  "mvcc_access g_thread_cnt min_ts txn type row S =
     (case type of
        R_REQ \<Rightarrow> mvcc_read txn S
      | P_REQ \<Rightarrow> mvcc_prewrite g_thread_cnt min_ts txn S
      | W_REQ \<Rightarrow> mvcc_write g_thread_cnt min_ts txn row S
      | XP_REQ \<Rightarrow> mvcc_cancel g_thread_cnt min_ts txn row S)"

end
