(* ===== verification/Row_mvcc_inv.thy ===== *)
theory Row_mvcc_inv
  imports Row_mvcc
begin

text \<open>
  The invariant of the multi-version row manager: the conditions the code checks under
  \<^verbatim>\<open>DEBUG_CC\<close> and states in the comments of \<^verbatim>\<open>row_mvcc.h\<close>, and what they need. Every request of a
  transaction that follows the protocol keeps it, and no assertion fails.
\<close>

definition valid_entries :: "WriteHisEntry list \<Rightarrow> WriteHisEntry list" where
  "valid_entries h = filter we_valid h"

definition his_rows :: "WriteHisEntry list \<Rightarrow> row_ptr list" where
  "his_rows h = List.map_filter we_row h"

text \<open>Versions: counted, inside the window of timestamps, the latest one known, the reserved entry the
  prewrite's, and no two versions in one buffer.\<close>

definition versions_ok :: "Row_mvcc \<Rightarrow> bool" where
  "versions_ok s \<longleftrightarrow>
     num_versions s = length (valid_entries (write_history s)) \<and>
     (\<forall>e\<in>set (valid_entries (write_history s)). we_row e \<noteq> None \<and> oldest_wts s < we_ts e \<and> we_ts e \<le> latest_wts s) \<and>
     distinct (map we_ts (valid_entries (write_history s))) \<and>
     (if valid_entries (write_history s) = [] then oldest_wts s = latest_wts s \<and> mv_row s = latest_row s
      else \<exists>e\<in>set (valid_entries (write_history s)). we_ts e = latest_wts s \<and> we_row e = Some (latest_row s))"

definition reserved_ok :: "Row_mvcc \<Rightarrow> bool" where
  "reserved_ok s \<longleftrightarrow>
     (\<forall>i<length (write_history s). \<not> we_valid (write_history s ! i) \<longrightarrow>
        we_reserved (write_history s ! i) = (exists_prewrite s \<and> i = prewrite_his_id s)) \<and>
     (exists_prewrite s \<longrightarrow> prewrite_his_id s < length (write_history s) \<and>
        \<not> we_valid (write_history s ! prewrite_his_id s) \<and> we_row (write_history s ! prewrite_his_id s) \<noteq> None \<and>
        latest_wts s < prewrite_ts s)"

definition rows_ok :: "row_ptr \<Rightarrow> Row_mvcc \<Rightarrow> bool" where
  "rows_ok nxt s \<longleftrightarrow> write_history s \<noteq> [] \<and>
     distinct (mv_row s # his_rows (write_history s)) \<and> (\<forall>r\<in>set (mv_row s # his_rows (write_history s)). r < nxt)"

definition mv_core :: "row_ptr \<Rightarrow> Row_mvcc \<Rightarrow> bool" where
  "mv_core nxt s \<longleftrightarrow> versions_ok s \<and> reserved_ok s \<and> rows_ok nxt s"

text \<open>Pending requests are younger than the served prewrite, which exists, and of different transactions; the reads of the latest
  version are not younger than it.\<close>

definition requests_ok :: "Row_mvcc \<Rightarrow> bool" where
  "requests_ok s \<longleftrightarrow>
     (\<forall>q\<in>set (requests s). re_valid q \<longrightarrow> re_ts q < UINT64_MAX \<and> re_type q \<in> {R_REQ, P_REQ} \<and>
        exists_prewrite s \<and> prewrite_ts s < re_ts q) \<and>
     distinct (map re_ts (filter re_valid (requests s))) \<and> distinct (map re_txn (filter re_valid (requests s))) \<and> requests s \<noteq> [] \<and>
     (exists_prewrite s \<longrightarrow> max_served_rts s \<le> prewrite_ts s)"

definition mv_inv :: "row_ptr \<Rightarrow> Row_mvcc \<Rightarrow> bool" where
  "mv_inv nxt s \<longleftrightarrow> mv_core nxt s \<and> requests_ok s"

lemma his_rows_simps [simp]:
  "his_rows [] = []"
  "his_rows (e # h) = (case we_row e of None \<Rightarrow> his_rows h | Some r \<Rightarrow> r # his_rows h)"
  "his_rows (h @ h') = his_rows h @ his_rows h'"
  by (simp_all add: his_rows_def map_filter_def split: option.split)

lemma valid_entries_simps [simp]:
  "valid_entries [] = []"
  "valid_entries (e # h) = (if we_valid e then e # valid_entries h else valid_entries h)"
  "valid_entries (h @ h') = valid_entries h @ valid_entries h'"
  by (simp_all add: valid_entries_def)

lemma set_valid_entries: "set (valid_entries h) = {e \<in> set h. we_valid e}"
  by (auto simp: valid_entries_def)

lemma replicate_empty_his [simp]: "valid_entries (replicate n empty_his) = []" "his_rows (replicate n empty_his) = []"
  by (induction n) (simp_all add: empty_his_def)

lemma mv_inv_init: "row < nxt \<Longrightarrow> mv_inv nxt (Row_mvcc_init row)"
  by (simp add: mv_inv_def mv_core_def versions_ok_def reserved_ok_def rows_ok_def requests_ok_def Row_mvcc_init_def)
    (simp add: nth_Cons' numeral_eq_Suc empty_his_def empty_req_def)

subsection \<open>Exchanging a version with the base row\<close>

lemma his_rows_set: "r \<in> set (his_rows h) \<longleftrightarrow> (\<exists>e\<in>set h. we_row e = Some r)"
  by (induction h) (auto split: option.splits)

lemma his_rows_update:
  assumes "i < length h" "we_row (h ! i) = Some r"
  shows "mset (m # his_rows h) = mset (r # his_rows (h[i := e\<lparr>we_row := Some m\<rparr>]))"
proof -
  have "his_rows h = his_rows (take i h @ h ! i # drop (Suc i) h)" using assms(1) by (simp add: id_take_nth_drop [symmetric])
  then have "his_rows h = his_rows (take i h) @ r # his_rows (drop (Suc i) h)" using assms(2) by simp
  moreover have "his_rows (h[i := e\<lparr>we_row := Some m\<rparr>]) = his_rows (take i h) @ m # his_rows (drop (Suc i) h)"
    using assms(1) by (simp add: upd_conv_take_nth_drop)
  ultimately show ?thesis by simp
qed

definition clear_old :: "ts_t \<Rightarrow> WriteHisEntry \<Rightarrow> WriteHisEntry" where
  "clear_old mx e = (if we_valid e \<and> we_ts e \<le> mx then e\<lparr>we_valid := False, we_reserved := False\<rparr> else e)"

lemma clear_old_row [simp]: "we_row (clear_old mx e) = we_row e"
  by (simp add: clear_old_def)

lemma his_rows_map_clear [simp]: "his_rows (map (clear_old mx) h) = his_rows h"
  by (induction h) (auto split: option.split)

lemma valid_entries_clear: "valid_entries (map (clear_old mx) h) = filter (\<lambda>e. mx < we_ts e) (valid_entries h)"
  by (induction h) (auto simp: clear_old_def)

lemma gc_clear_eq:
  "\<forall>e\<in>set (valid_entries h). we_row e \<noteq> None \<Longrightarrow>
     gc_clear mx h n = Inr (map (clear_old mx) h, n - length (filter (\<lambda>e. we_ts e \<le> mx) (valid_entries h)))"
  by (induction h arbitrary: n) (auto simp: clear_old_def)

text \<open>Making the version at \<open>idx\<close> the base row and dropping the versions up to it.\<close>

definition rebase_at :: "nat \<Rightarrow> Row_mvcc \<Rightarrow> Row_mvcc" where
  "rebase_at idx s =
     (let e = write_history s ! idx;
          h = map (clear_old (we_ts e)) ((write_history s)[idx := e\<lparr>we_row := Some (mv_row s)\<rparr>])
      in s\<lparr>mv_row := the (we_row e), oldest_wts := we_ts e, write_history := h, num_versions := length (valid_entries h)\<rparr>)"

lemma valid_entries_rebase:
  assumes "idx < length h" "we_valid (h ! idx)"
  shows "valid_entries (map (clear_old (we_ts (h ! idx))) (h[idx := (h ! idx)\<lparr>we_row := m\<rparr>])) =
     filter (\<lambda>e. we_ts (h ! idx) < we_ts e) (valid_entries h)"
proof -
  let ?e = "h ! idx"
  have "h = take idx h @ ?e # drop (Suc idx) h" using assms(1) by (rule id_take_nth_drop)
  then have "filter (\<lambda>e. we_ts ?e < we_ts e) (valid_entries h) =
      filter (\<lambda>e. we_ts ?e < we_ts e) (valid_entries (take idx h @ ?e # drop (Suc idx) h))" by simp
  also have "\<dots> = filter (\<lambda>e. we_ts ?e < we_ts e) (valid_entries (h[idx := ?e\<lparr>we_row := m\<rparr>]))"
    using assms by (simp add: upd_conv_take_nth_drop)
  finally show ?thesis by (simp only: valid_entries_clear)
qed

lemma rebase_at_core:
  assumes core: "mv_core nxt s" and np: "\<not> exists_prewrite s"
    and idx: "idx < length (write_history s)" "we_valid (write_history s ! idx)"
  shows "mv_core nxt (rebase_at idx s)"
proof -
  let ?h = "write_history s" and ?e = "write_history s ! idx"
  let ?V = "valid_entries ?h" and ?s = "rebase_at idx s"
  have V: "?e \<in> set ?V" using idx by (simp add: set_valid_entries)
  have vo: "\<forall>e\<in>set ?V. we_row e \<noteq> None \<and> oldest_wts s < we_ts e \<and> we_ts e \<le> latest_wts s" "distinct (map we_ts ?V)"
    "\<exists>e\<in>set ?V. we_ts e = latest_wts s \<and> we_row e = Some (latest_row s)"
    using core V unfolding mv_core_def versions_ok_def by (auto split: if_splits)
  obtain r where r: "we_row ?e = Some r" using vo(1) V by blast
  obtain l where l: "l \<in> set ?V" "we_ts l = latest_wts s" "we_row l = Some (latest_row s)" using vo(3) by blast
  have VV: "valid_entries (write_history ?s) = filter (\<lambda>e. we_ts ?e < we_ts e) ?V"
    unfolding rebase_at_def Let_def using valid_entries_rebase [OF idx] by simp
  have "if filter (\<lambda>e. we_ts ?e < we_ts e) ?V = [] then we_ts ?e = latest_wts s \<and> r = latest_row s
      else \<exists>e\<in>set (filter (\<lambda>e. we_ts ?e < we_ts e) ?V). we_ts e = latest_wts s \<and> we_row e = Some (latest_row s)"
  proof (cases "we_ts ?e < latest_wts s")
    case True
    with l show ?thesis by (auto simp: filter_empty_conv)
  next
    case False
    then have eq: "we_ts ?e = latest_wts s" using vo(1) V by (simp add: order.antisym not_less)
    then have "?e = l" using vo(2) V l(1,2) by (auto simp: distinct_map inj_on_def)
    then have "r = latest_row s" using r l(3) by simp
    moreover have "filter (\<lambda>e. we_ts ?e < we_ts e) ?V = []" using eq vo(1) by (auto simp: filter_empty_conv not_less)
    ultimately show ?thesis using eq by simp
  qed
  moreover have "distinct (map we_ts (filter (\<lambda>e. we_ts ?e < we_ts e) ?V))" using vo(2) by (rule distinct_map_filter)
  ultimately have "versions_ok ?s"
    using vo(1) r unfolding versions_ok_def VV by (auto simp: rebase_at_def Let_def valid_entries_rebase [OF idx])
  moreover have "reserved_ok ?s"
  proof -
    have "\<not> we_reserved (map (clear_old (we_ts ?e)) (?h[idx := ?e\<lparr>we_row := Some (mv_row s)\<rparr>]) ! i)"
      if "i < length ?h" "\<not> we_valid (map (clear_old (we_ts ?e)) (?h[idx := ?e\<lparr>we_row := Some (mv_row s)\<rparr>]) ! i)" for i
      using that core np idx
      by (cases "i = idx") (auto simp: mv_core_def reserved_ok_def clear_old_def split: if_splits)
    then show ?thesis using np by (auto simp: reserved_ok_def rebase_at_def Let_def)
  qed
  moreover have "rows_ok nxt ?s"
  proof -
    have m: "mset (mv_row s # his_rows ?h) = mset (r # his_rows (?h[idx := ?e\<lparr>we_row := Some (mv_row s)\<rparr>]))"
      by (rule his_rows_update [OF idx(1) r])
    have rows: "mv_row ?s # his_rows (write_history ?s) = r # his_rows (?h[idx := ?e\<lparr>we_row := Some (mv_row s)\<rparr>])"
      using r by (simp add: rebase_at_def Let_def)
    have "write_history ?s \<noteq> []" using core by (auto simp: rebase_at_def Let_def mv_core_def rows_ok_def)
    then show ?thesis
      using core mset_eq_setD [OF m] mset_eq_imp_distinct_iff [OF m] unfolding rows_ok_def rows mv_core_def by blast
  qed
  ultimately show ?thesis by (simp add: mv_core_def)
qed

subsection \<open>Garbage collection and reservation\<close>

text \<open>What the row operations leave alone.\<close>

definition same_front :: "Row_mvcc \<Rightarrow> Row_mvcc \<Rightarrow> bool" where
  "same_front s s' \<longleftrightarrow> latest_row s' = latest_row s \<and> latest_wts s' = latest_wts s \<and> requests s' = requests s \<and>
     max_served_rts s' = max_served_rts s"

lemma gc_scan_spec:
  "gc_scan m h i mx idx = (mx', idx') \<Longrightarrow>
     mx' = mx \<and> idx' = idx \<or>
     (\<exists>j<length h. idx' = i + j \<and> we_valid (h ! j) \<and> we_ts (h ! j) = mx' \<and> mx' < m)"
proof (induction h arbitrary: i mx idx)
  case (Cons e h)
  show ?case
  proof (cases "we_valid e \<and> we_ts e < m \<and> we_ts e > mx")
    case True
    then have "gc_scan m h (Suc i) (we_ts e) i = (mx', idx')" using Cons.prems by simp
    from Cons.IH [OF this] True show ?thesis by (auto intro: exI [of _ 0] exI [of _ "Suc _"])
  next
    case False
    then have "gc_scan m h (Suc i) mx idx = (mx', idx')" using Cons.prems by auto
    from Cons.IH [OF this] show ?thesis by (auto intro: exI [of _ "Suc _"])
  qed
qed simp

lemma length_filter_eq: "map P xs = map P ys \<Longrightarrow> length (filter P xs) = length (filter P ys)"
proof -
  have "length (filter P zs) = length (filter id (map P zs))" for zs by (induction zs) auto
  then show "map P xs = map P ys \<Longrightarrow> length (filter P xs) = length (filter P ys)" by metis
qed

lemma mvcc_gc_core:
  assumes "mv_core nxt s" "\<not> exists_prewrite s"
  shows "\<exists>s'. mvcc_gc m s = Inr s' \<and> mv_core nxt s' \<and> \<not> exists_prewrite s' \<and> same_front s s'"
proof -
  let ?h = "write_history s"
  obtain mx idx where sc: "gc_scan m ?h 0 0 (length ?h) = (mx, idx)" by (metis surj_pair)
  show ?thesis
  proof (cases "oldest_wts s < m \<and> num_versions s = length ?h \<and> idx \<noteq> length ?h")
    case False
    with sc assms show ?thesis by (auto simp: mvcc_gc_def same_front_def)
  next
    case True
    with gc_scan_spec [OF sc] have idx: "idx < length ?h" "we_valid (?h ! idx)" "we_ts (?h ! idx) = mx" by auto
    let ?e = "?h ! idx" and ?h1 = "?h[idx := (?h ! idx)\<lparr>we_row := Some (mv_row s)\<rparr>]"
    have vo: "\<forall>e\<in>set (valid_entries ?h). we_row e \<noteq> None" "num_versions s = length (valid_entries ?h)"
      using assms(1) by (auto simp: mv_core_def versions_ok_def)
    have "?e \<in> set (valid_entries ?h)" using idx by (simp add: set_valid_entries)
    with vo(1) obtain r where r: "we_row ?e = Some r" by blast
    have "\<forall>e\<in>set ?h1. we_valid e \<longrightarrow> we_row e \<noteq> None"
      using vo(1) by (auto simp: set_valid_entries dest: set_update_subset_insert [THEN subsetD])
    then have cl: "gc_clear mx ?h1 (num_versions s) =
        Inr (map (clear_old mx) ?h1, num_versions s - length (filter (\<lambda>e. we_ts e \<le> mx) (valid_entries ?h1)))"
      by (intro gc_clear_eq) (simp add: set_valid_entries)
    have "map we_valid ?h1 = map we_valid ?h" using idx(1) by (simp add: map_update list_update_same_conv)
    then have "length (valid_entries ?h1) = length (valid_entries ?h)"
      unfolding valid_entries_def by (rule length_filter_eq)
    then have "num_versions s - length (filter (\<lambda>e. we_ts e \<le> mx) (valid_entries ?h1)) = length (valid_entries (map (clear_old mx) ?h1))"
      using vo(2) sum_length_filter_compl [of "\<lambda>e. we_ts e \<le> mx" "valid_entries ?h1"]
      by (simp add: valid_entries_clear not_le)
    then have "mvcc_gc m s = Inr (rebase_at idx s)"
      using True sc r cl idx(3) by (simp add: mvcc_gc_def rebase_at_def Let_def)
    moreover have "mv_core nxt (rebase_at idx s)" by (rule rebase_at_core [OF assms idx(1,2)])
    ultimately show ?thesis using assms(2) by (simp add: rebase_at_def same_front_def Let_def)
  qed
qed

lemma find_slot_spec:
  "\<exists>e\<in>set h. \<not> we_valid e \<and> \<not> we_reserved e \<Longrightarrow>
     \<exists>j<length h. find_slot h i idx = i + j \<and> \<not> we_valid (h ! j)"
proof (induction h arbitrary: i idx)
  case (Cons e h)
  consider "\<not> we_valid e \<and> \<not> we_reserved e \<and> we_row e \<noteq> None"
    | "\<not> we_valid e \<and> \<not> we_reserved e \<and> we_row e = None" "\<exists>e\<in>set h. \<not> we_valid e \<and> \<not> we_reserved e"
    | "\<not> we_valid e \<and> \<not> we_reserved e \<and> we_row e = None" "\<forall>e\<in>set h. we_valid e \<or> we_reserved e"
    | "we_valid e \<or> we_reserved e" "\<exists>e\<in>set h. \<not> we_valid e \<and> \<not> we_reserved e"
    using Cons.prems by (metis set_ConsD)
  then show ?case
  proof cases
    case 1
    then show ?thesis by (auto intro: exI [of _ 0])
  next
    case 2
    from Cons.IH [OF 2(2), of "Suc i" i] 2(1) show ?thesis by (auto intro: exI [of _ "Suc _"])
  next
    case 3
    have "find_slot h k idx = idx" for k idx using 3(2) by (induction h arbitrary: k) auto
    with 3(1) show ?thesis by (auto intro: exI [of _ 0])
  next
    case 4
    from Cons.IH [OF 4(2), of "Suc i" idx] 4(1) show ?thesis by (auto intro: exI [of _ "Suc _"])
  qed
qed simp

lemma oldest_scan_spec:
  "oldest_scan h i mn idx = (mn', idx') \<Longrightarrow>
     mn' \<le> mn \<and> (\<forall>e\<in>set (valid_entries h). mn' \<le> we_ts e) \<and>
     (mn' = mn \<and> idx' = idx \<or> (\<exists>j<length h. idx' = i + j \<and> we_valid (h ! j) \<and> we_ts (h ! j) = mn'))"
proof (induction h arbitrary: i mn idx)
  case (Cons e h)
  show ?case
  proof (cases "we_valid e \<and> we_ts e < mn")
    case True
    then have "oldest_scan h (Suc i) (we_ts e) i = (mn', idx')" using Cons.prems by simp
    from Cons.IH [OF this] True show ?thesis by (auto intro: exI [of _ 0] exI [of _ "Suc _"] order.trans less_imp_le)
  next
    case False
    then have "oldest_scan h (Suc i) mn idx = (mn', idx')" using Cons.prems by auto
    from Cons.IH [OF this] False show ?thesis by (auto simp: not_less intro: exI [of _ "Suc _"] order.trans)
  qed
qed simp

lemma valid_entries_update:
  assumes "i < length h" "\<not> we_valid (h ! i)" "\<not> we_valid e"
  shows "valid_entries (h[i := e]) = valid_entries h"
proof -
  have "valid_entries h = valid_entries (take i h @ h ! i # drop (Suc i) h)"
    using assms(1) by (simp add: id_take_nth_drop [symmetric])
  then show ?thesis using assms by (simp add: upd_conv_take_nth_drop)
qed

lemma his_rows_nth:
  assumes "i < length h"
  shows "his_rows h = his_rows (take i h) @ (case we_row (h ! i) of None \<Rightarrow> [] | Some r \<Rightarrow> [r]) @ his_rows (drop (Suc i) h)"
proof -
  have "his_rows h = his_rows (take i h @ h ! i # drop (Suc i) h)"
    using assms by (simp add: id_take_nth_drop [symmetric])
  then show ?thesis by (simp split: option.split)
qed

lemma valid_entries_invalidate:
  assumes "i < length h" "we_valid (h ! i)" "\<not> we_valid e"
  shows "length (valid_entries (h[i := e])) = length (valid_entries h) - 1"
proof -
  have "valid_entries h = valid_entries (take i h @ h ! i # drop (Suc i) h)"
    using assms(1) by (simp add: id_take_nth_drop [symmetric])
  then show ?thesis using assms by (simp add: upd_conv_take_nth_drop)
qed

lemma rebase_at_versions: "num_versions (rebase_at idx s) = length (valid_entries (write_history (rebase_at idx s)))"
  by (simp add: rebase_at_def Let_def)

text \<open>The last statements of \<^verbatim>\<open>reserveRow\<close>, on the chosen entry.\<close>

definition reserve_at :: "nat \<Rightarrow> ts_t \<Rightarrow> Row_mvcc \<Rightarrow> row_ptr \<Rightarrow> row_ptr \<times> Row_mvcc \<times> row_ptr" where
  "reserve_at idx ts s nxt =
     (let e = write_history s ! idx;
         (r, nxt') = (case we_row e of Some r \<Rightarrow> (r, nxt) | None \<Rightarrow> (nxt, Suc nxt))
     in (r, s\<lparr>write_history := (write_history s)[idx := e\<lparr>we_row := Some r, we_valid := False,
                                                       we_reserved := True, we_ts := ts\<rparr>],
                   exists_prewrite := True, prewrite_his_id := idx, prewrite_ts := ts\<rparr>, nxt'))"

definition reserve_post :: "ts_t \<Rightarrow> Row_mvcc \<Rightarrow> row_ptr \<Rightarrow> (row_ptr \<times> Row_mvcc \<times> row_ptr) \<Rightarrow> bool" where
  "reserve_post ts s nxt = (\<lambda>(r, s', nxt').
     mv_core nxt' s' \<and> nxt \<le> nxt' \<and> exists_prewrite s' \<and> prewrite_ts s' = ts \<and> same_front s s' \<and>
     we_row (write_history s' ! prewrite_his_id s') = Some r)"

lemma reserve_at_post:
  assumes core: "mv_core nxt s" and np: "\<not> exists_prewrite s" and ts: "latest_wts s < ts"
    and idx: "idx < length (write_history s)" "\<not> we_valid (write_history s ! idx)"
  shows "reserve_post ts s nxt (reserve_at idx ts s nxt)"
proof -
  let ?h = "write_history s" and ?e = "write_history s ! idx"
  define r where "r = (case we_row ?e of Some r \<Rightarrow> r | None \<Rightarrow> nxt)"
  define nxt' where "nxt' = (case we_row ?e of Some r \<Rightarrow> nxt | None \<Rightarrow> Suc nxt)"
  define e' where "e' = ?e\<lparr>we_row := Some r, we_valid := False, we_reserved := True, we_ts := ts\<rparr>"
  define s' where "s' = s\<lparr>write_history := ?h[idx := e'], exists_prewrite := True, prewrite_his_id := idx, prewrite_ts := ts\<rparr>"
  have run: "reserve_at idx ts s nxt = (r, s', nxt')"
    by (simp add: reserve_at_def r_def nxt'_def e'_def s'_def Let_def split: option.split)
  have inv: "\<not> we_valid e'" "we_row e' = Some r" "we_reserved e'" by (simp_all add: e'_def)
  have "valid_entries (?h[idx := e']) = valid_entries ?h" by (rule valid_entries_update [OF idx inv(1)])
  then have "versions_ok s'" using core by (simp add: mv_core_def versions_ok_def s'_def)
  moreover have "reserved_ok s'"
    using core np idx ts inv by (auto simp: mv_core_def reserved_ok_def s'_def nth_list_update)
  moreover have "rows_ok nxt' s'"
  proof -
    have R: "distinct (mv_row s # his_rows ?h)" "\<forall>q\<in>set (mv_row s # his_rows ?h). q < nxt" "?h \<noteq> []"
      using core by (auto simp: mv_core_def rows_ok_def)
    have new: "his_rows (?h[idx := e']) = his_rows (take idx ?h) @ r # his_rows (drop (Suc idx) ?h)"
      using idx(1) inv(2) by (simp add: upd_conv_take_nth_drop)
    show ?thesis
    proof (cases "we_row ?e")
      case None
      then have old: "his_rows ?h = his_rows (take idx ?h) @ his_rows (drop (Suc idx) ?h)"
        using his_rows_nth [OF idx(1)] by simp
      have "nxt \<notin> set (mv_row s # his_rows ?h)" using R(2) by blast
      moreover have "\<forall>q\<in>set (mv_row s # his_rows ?h). q < Suc nxt" using R(2) less_SucI by blast
      ultimately show ?thesis
        using R(1,3) None by (auto simp: rows_ok_def s'_def new r_def nxt'_def old)
    next
      case (Some q)
      then have "his_rows (?h[idx := e']) = his_rows ?h" using his_rows_nth [OF idx(1)] by (simp add: new r_def)
      then show ?thesis using R Some by (simp add: rows_ok_def s'_def nxt'_def)
    qed
  qed
  ultimately have "mv_core nxt' s'" by (simp add: mv_core_def)
  then show ?thesis
    using idx(1) inv unfolding reserve_post_def run prod.case
    by (auto simp: s'_def same_front_def nxt'_def split: option.split)
qed

lemma reserveRow_pick:
  assumes "\<not> exists_prewrite s" "mvcc_gc m s = Inr s1" "mvcc_pick n ts s1 = Inr (idx, s2)" "idx < length (write_history s2)"
  shows "reserveRow n m ts s nxt = Inr (reserve_at idx ts s2 nxt)"
  using assms by (simp add: reserveRow_def reserve_at_def Let_def split: option.split)

lemma distinct_filter_nth:
  assumes "distinct (map f (filter P h))" "i < length h" "j < length h" "i \<noteq> j" "P (h ! i)" "P (h ! j)"
  shows "f (h ! i) \<noteq> f (h ! j)"
  using assms
proof (induction h arbitrary: i j)
  case (Cons e h)
  have mem: "f (h ! k) \<noteq> f e" if "P e" "k < length h" "P (h ! k)" for k
  proof -
    have "h ! k \<in> {x \<in> set h. P x}" using that by simp
    then have "f (h ! k) \<in> f ` {x \<in> set h. P x}" by blast
    then show ?thesis using that(1) Cons.prems(1) by force
  qed
  show ?case
  proof (cases i)
    case 0
    then obtain j' where "j = Suc j'" using Cons.prems(4) by (cases j) auto
    with 0 Cons.prems mem [of j'] show ?thesis by force
  next
    case (Suc i')
    show ?thesis
    proof (cases j)
      case 0
      with Suc Cons.prems mem [of i'] show ?thesis by force
    next
      case (Suc j')
      with \<open>i = Suc i'\<close> Cons.prems Cons.IH [of i' j'] show ?thesis by (auto split: if_splits)
    qed
  qed
qed simp

lemma rebase_oldest:
  assumes core: "mv_core nxt s" and idx: "idx < length (write_history s)" "we_valid (write_history s ! idx)"
    and mn: "\<forall>e\<in>set (valid_entries (write_history s)). we_ts (write_history s ! idx) \<le> we_ts e"
  shows "write_history (rebase_at idx s) =
    (write_history s)[idx := (write_history s ! idx)\<lparr>we_row := Some (mv_row s), we_valid := False, we_reserved := False\<rparr>]"
proof (rule nth_equalityI)
  let ?h = "write_history s" and ?e = "write_history s ! idx"
  show "length (write_history (rebase_at idx s)) =
      length (?h[idx := ?e\<lparr>we_row := Some (mv_row s), we_valid := False, we_reserved := False\<rparr>])"
    by (simp add: rebase_at_def Let_def)
  fix i assume "i < length (write_history (rebase_at idx s))"
  then have i: "i < length ?h" by (simp add: rebase_at_def Let_def)
  have "we_ts ?e < we_ts (?h ! i)" if "we_valid (?h ! i)" "i \<noteq> idx"
  proof -
    have "distinct (map we_ts (valid_entries ?h))" using core by (simp add: mv_core_def versions_ok_def)
    then have "we_ts ?e \<noteq> we_ts (?h ! i)"
      using that i idx unfolding valid_entries_def by (metis distinct_filter_nth)
    moreover have "we_ts ?e \<le> we_ts (?h ! i)" using mn i that(1) by (simp add: set_valid_entries)
    ultimately show ?thesis by simp
  qed
  then show "write_history (rebase_at idx s) ! i =
      ?h[idx := ?e\<lparr>we_row := Some (mv_row s), we_valid := False, we_reserved := False\<rparr>] ! i"
    using i idx by (cases "i = idx") (auto simp: rebase_at_def Let_def clear_old_def)
qed

lemma reserve_post_mono:
  "same_front s s1 \<Longrightarrow> reserve_post ts s1 nxt x \<Longrightarrow> reserve_post ts s nxt x"
  by (auto simp: reserve_post_def same_front_def)

lemma versions_all_valid: "length (valid_entries h) = length h \<Longrightarrow> i < length h \<Longrightarrow> we_valid (h ! i)"
  by (metis filter_id_conv length_filter_less nat_neq_iff nth_mem valid_entries_def)

lemma free_entry:
  assumes "mv_core nxt s" "\<not> exists_prewrite s" "num_versions s < length (write_history s)"
  shows "\<exists>e\<in>set (write_history s). \<not> we_valid e \<and> \<not> we_reserved e"
proof -
  have "\<exists>e\<in>set (write_history s). \<not> we_valid e"
    using assms(1,3) by (metis filter_True mv_core_def nat_neq_iff valid_entries_def versions_ok_def)
  then obtain i where i: "i < length (write_history s)" "\<not> we_valid (write_history s ! i)" by (auto simp: in_set_conv_nth)
  then have "\<not> we_reserved (write_history s ! i)" using assms(1,2) by (simp add: mv_core_def reserved_ok_def)
  with i show ?thesis using nth_mem by blast
qed

lemma reserveRow_core:
  assumes core: "mv_core nxt s" and np: "\<not> exists_prewrite s" and ts: "latest_wts s < ts"
  shows "\<exists>x. reserveRow n m ts s nxt = Inr x \<and> reserve_post ts s nxt x"
proof -
  obtain s1 where s1: "mvcc_gc m s = Inr s1" "mv_core nxt s1" "\<not> exists_prewrite s1" "same_front s s1"
    using mvcc_gc_core [OF core np] by blast
  let ?h = "write_history s1" and ?len = "length (write_history s1)"
  have ts1: "latest_wts s1 < ts" using ts s1(4) by (simp add: same_front_def)
  have vo: "num_versions s1 = length (valid_entries ?h)"
      "\<forall>e\<in>set (valid_entries ?h). we_row e \<noteq> None \<and> oldest_wts s1 < we_ts e \<and> we_ts e \<le> latest_wts s1" and ne: "?h \<noteq> []"
    using s1(2) unfolding mv_core_def versions_ok_def rows_ok_def by auto
  consider (free) "num_versions s1 < ?len" | (old) "num_versions s1 = ?len" "n \<le> ?len" | (grow) "num_versions s1 = ?len" "?len < n"
    using vo(1) by (metis length_filter_le nat_less_le not_le valid_entries_def)
  then show ?thesis
  proof cases
    case free
    obtain j where j: "j < ?len" "find_slot ?h 0 ?len = j" "\<not> we_valid (?h ! j)"
      using find_slot_spec [OF free_entry [OF s1(2,3) free], of 0 ?len] by auto
    then have "mvcc_pick n ts s1 = Inr (j, s1)" using free by (simp add: mvcc_pick_def Let_def)
    from reserveRow_pick [OF np s1(1) this j(1)] reserve_at_post [OF s1(2,3) ts1 j(1,3)] show ?thesis
      using reserve_post_mono [OF s1(4)] by blast
  next
    case old
    obtain mn idx where sc: "oldest_scan ?h 0 UINT64_MAX ?len = (mn, idx)" by (metis surj_pair)
    have allv: "\<And>i. i < ?len \<Longrightarrow> we_valid (?h ! i)" using old(1) vo(1) versions_all_valid by metis
    have z: "?h ! 0 \<in> set (valid_entries ?h)" using ne allv [of 0] by (simp add: set_valid_entries)
    have "we_ts (?h ! 0) < UINT64_MAX"
      using vo(2) z ts1 UINT64_MAX_greatest [of ts] by (meson le_less_trans less_le_trans)
    then have "mn \<noteq> UINT64_MAX" using oldest_scan_spec [OF sc] z by auto
    then have idx: "idx < ?len" "we_valid (?h ! idx)" "we_ts (?h ! idx) = mn"
      "\<forall>e\<in>set (valid_entries ?h). mn \<le> we_ts e"
      using oldest_scan_spec [OF sc] by auto
    have v: "?h ! idx \<in> set (valid_entries ?h)" using idx by (simp add: set_valid_entries)
    then obtain r where r: "we_row (?h ! idx) = Some r" using vo(2) by blast
    let ?s2 = "s1\<lparr>mv_row := r, oldest_wts := mn, num_versions := num_versions s1 - 1,
                     write_history := ?h[idx := (?h ! idx)\<lparr>we_row := Some (mv_row s1)\<rparr>]\<rparr>"
    have "oldest_wts s1 < mn" using vo(2) v idx(3) by blast
    then have "mvcc_pick n ts s1 = Inr (idx, ?s2)"
      using old sc r idx(1) by (simp add: mvcc_pick_def mvcc_make_room_def Let_def)
    from reserveRow_pick [OF np s1(1) this] have run: "reserveRow n m ts s nxt = Inr (reserve_at idx ts ?s2 nxt)"
      using idx(1) by simp
    have h: "write_history (rebase_at idx s1) =
        ?h[idx := (?h ! idx)\<lparr>we_row := Some (mv_row s1), we_valid := False, we_reserved := False\<rparr>]"
      using rebase_oldest [OF s1(2) idx(1,2)] idx(3,4) by blast
    have nv: "num_versions (rebase_at idx s1) = num_versions s1 - 1"
      using valid_entries_invalidate [OF idx(1,2), of "(?h ! idx)\<lparr>we_row := Some (mv_row s1), we_valid := False, we_reserved := False\<rparr>"]
        rebase_at_versions [of idx s1] h vo(1) by simp
    have "reserve_at idx ts ?s2 nxt = reserve_at idx ts (rebase_at idx s1) nxt"
      using h idx r nv by (simp add: reserve_at_def Let_def) (simp add: rebase_at_def Let_def)
    with run have "reserveRow n m ts s nxt = Inr (reserve_at idx ts (rebase_at idx s1) nxt)" by (simp only:)
    moreover have "same_front s (rebase_at idx s1)" using s1(4) by (simp add: same_front_def rebase_at_def Let_def)
    moreover have "reserve_post ts (rebase_at idx s1) nxt (reserve_at idx ts (rebase_at idx s1) nxt)"
      using rebase_at_core [OF s1(2,3) idx(1,2)] s1(3) ts1 idx(1)
      by (intro reserve_at_post) (simp_all add: h, simp_all add: rebase_at_def Let_def)
    ultimately show ?thesis using reserve_post_mono by blast
  next
    case grow
    let ?s2 = "(double_history s1)\<lparr>prewrite_ts := ts\<rparr>"
    have pick: "mvcc_pick n ts s1 = Inr (?len, ?s2)"
      using grow by (simp add: mvcc_pick_def mvcc_make_room_def double_history_def Let_def)
    have idx: "?len < length (write_history ?s2)" "write_history ?s2 ! ?len = empty_his"
      using ne by (simp_all add: double_history_def nth_append)
    have "versions_ok ?s2" using s1(2) by (simp add: mv_core_def versions_ok_def double_history_def)
    moreover have "reserved_ok ?s2"
      using s1(2,3) by (simp add: mv_core_def reserved_ok_def double_history_def nth_append empty_his_def)
    moreover have "rows_ok nxt ?s2" using s1(2) by (simp add: mv_core_def rows_ok_def double_history_def)
    ultimately have "mv_core nxt ?s2" by (simp add: mv_core_def)
    then have "reserve_post ts ?s2 nxt (reserve_at ?len ts ?s2 nxt)"
      using s1(3) ts1 idx by (intro reserve_at_post) (simp_all add: double_history_def empty_his_def)
    moreover have "same_front s ?s2" using s1(4) by (simp add: same_front_def double_history_def)
    ultimately show ?thesis using reserveRow_pick [OF np s1(1) pick idx(1)] reserve_post_mono by blast
  qed
qed

subsection \<open>Waking the pending requests\<close>

lemma next_pre_spec:
  "next_pre ts qs m = np \<Longrightarrow>
     np \<le> m \<and> (\<forall>q\<in>set qs. re_valid q \<and> re_type q = P_REQ \<and> ts < re_ts q \<longrightarrow> np \<le> re_ts q) \<and>
     (np = m \<or> (\<exists>q\<in>set qs. re_valid q \<and> re_type q = P_REQ \<and> ts < re_ts q \<and> re_ts q = np))"
proof (induction qs arbitrary: m)
  case (Cons q qs)
  show ?case
  proof (cases "re_valid q \<and> re_type q = P_REQ \<and> re_ts q > ts \<and> re_ts q < m")
    case True
    then have "next_pre ts qs (re_ts q) = np" using Cons.prems by simp
    from Cons.IH [OF this] True show ?thesis by (auto intro: order.trans less_imp_le)
  next
    case False
    then have "next_pre ts qs m = np" using Cons.prems by auto
    from Cons.IH [OF this] False show ?thesis by (auto simp: not_less intro: order.trans)
  qed
qed simp

text \<open>Which requests one call of \<^verbatim>\<open>update_buffer\<close> serves.\<close>

definition served :: "ts_t \<Rightarrow> ReqEntry \<Rightarrow> bool" where
  "served np q \<longleftrightarrow> re_valid q \<and> (re_type q = R_REQ \<and> re_ts q < np \<or> re_ts q = np)"

definition drop_served :: "ts_t \<Rightarrow> ReqEntry \<Rightarrow> ReqEntry" where
  "drop_served np q = (if served np q then q\<lparr>re_valid := False\<rparr> else q)"

definition buf_ok :: "ts_t \<Rightarrow> ReqEntry list \<Rightarrow> bool" where
  "buf_ok ts Q \<longleftrightarrow> (\<forall>q\<in>set Q. re_valid q \<longrightarrow> ts < re_ts q \<and> re_ts q < UINT64_MAX \<and> re_type q \<in> {R_REQ, P_REQ}) \<and>
     distinct (map re_ts (filter re_valid Q)) \<and> distinct (map re_txn (filter re_valid Q))"

text \<open>The request is due: no pending prewrite is older.\<close>

definition due :: "ReqEntry list \<Rightarrow> ReqEntry \<Rightarrow> bool" where
  "due Q q \<longleftrightarrow> re_valid q \<and> (\<forall>p\<in>set Q. re_valid p \<and> re_type p = P_REQ \<longrightarrow> re_ts q \<le> re_ts p)"

lemma served_due:
  assumes buf: "buf_ok ts Q" and q: "q \<in> set Q"
  shows "served (next_pre ts Q UINT64_MAX) q \<longleftrightarrow> due Q q"
proof -
  define np where "np = next_pre ts Q UINT64_MAX"
  note spec = next_pre_spec [OF np_def [symmetric]]
  have b: "ts < re_ts p \<and> re_ts p < UINT64_MAX \<and> re_type p \<in> {R_REQ, P_REQ}" if "p \<in> set Q" "re_valid p" for p
    using buf that by (simp add: buf_ok_def)
  have le: "np \<le> re_ts p" if "p \<in> set Q" "re_valid p" "re_type p = P_REQ" for p using spec that b by blast
  have same: "p = q" if "p \<in> set Q" "re_valid p" "re_valid q" "re_ts p = re_ts q" for p
    using buf that q inj_onD [of re_ts "set (filter re_valid Q)" p q] by (simp add: buf_ok_def distinct_map)
  have np: "np = UINT64_MAX \<or> (\<exists>p\<in>set Q. re_valid p \<and> re_type p = P_REQ \<and> re_ts p = np)" using spec by blast
  show ?thesis
    unfolding np_def [symmetric]
  proof
    assume "served np q"
    then show "due Q q" using le by (fastforce simp: served_def due_def)
  next
    assume d: "due Q q"
    then have v: "re_valid q" by (simp add: due_def)
    from np show "served np q"
    proof
      assume m: "np = UINT64_MAX"
      have "re_type q \<noteq> P_REQ" using le [OF q v] b [OF q v] m by auto
      then show ?thesis using b [OF q v] v m by (simp add: served_def)
    next
      assume "\<exists>p\<in>set Q. re_valid p \<and> re_type p = P_REQ \<and> re_ts p = np"
      then obtain p where p: "p \<in> set Q" "re_valid p" "re_type p = P_REQ" "re_ts p = np" by blast
      then have "re_ts q \<le> np" using d by (auto simp: due_def)
      moreover have "re_type q = R_REQ \<or> np \<le> re_ts q" using b [OF q v] le [OF q v] by blast
      ultimately show ?thesis using v by (auto simp: served_def le_less)
    qed
  qed
qed

text \<open>The transactions of the requests served so far are ready; the reads among them are recorded and have the latest version.\<close>

definition woken :: "ts_t \<Rightarrow> ReqEntry list \<Rightarrow> nat \<Rightarrow> 'd mv_state \<Rightarrow> bool" where
  "woken np Q i S \<longleftrightarrow> (\<forall>j<i. j < length Q \<and> served np (Q ! j) \<longrightarrow> ts_ready (mv_txns S (re_txn (Q ! j))) \<and>
     (re_type (Q ! j) = R_REQ \<longrightarrow> re_ts (Q ! j) \<le> max_served_rts (mv S) \<and> cur_row (mv_txns S (re_txn (Q ! j))) = latest_row (mv S)))"

definition serve_inv :: "ts_t \<Rightarrow> ts_t \<Rightarrow> ReqEntry list \<Rightarrow> nat \<Rightarrow> 'd mv_state \<Rightarrow> bool" where
  "serve_inv ts np Q i S \<longleftrightarrow>
     mv_core (next_row S) (mv S) \<and> latest_wts (mv S) \<le> ts \<and>
     requests (mv S) = map (drop_served np) (take i Q) @ drop i Q \<and>
     (exists_prewrite (mv S) \<longleftrightarrow> (\<exists>j<i. j < length Q \<and> re_valid (Q ! j) \<and> re_ts (Q ! j) = np)) \<and>
     (exists_prewrite (mv S) \<longrightarrow> prewrite_ts (mv S) = np) \<and>
     max_served_rts (mv S) \<le> np \<and> woken np Q i S"

text \<open>What only grows: the addresses handed out and the timestamps of the reads served; the latest version stays.\<close>

definition mv_grows :: "'d mv_state \<Rightarrow> 'd mv_state \<Rightarrow> bool" where
  "mv_grows S S' \<longleftrightarrow> next_row S \<le> next_row S' \<and> latest_wts (mv S') = latest_wts (mv S) \<and> latest_row (mv S') = latest_row (mv S) \<and>
     max_served_rts (mv S) \<le> max_served_rts (mv S')"

lemma max_served_core [simp]:
  "mv_core nxt (s\<lparr>max_served_rts := x\<rparr>) = mv_core nxt s"
  "mv_core nxt (s\<lparr>requests := qs\<rparr>) = mv_core nxt s"
  by (simp_all add: mv_core_def versions_ok_def reserved_ok_def rows_ok_def)

lemma drop_served_step:
  assumes "i < length Q"
  shows "(map f (take i Q) @ drop i Q) ! i = Q ! i"
    "(map f (take i Q) @ drop i Q)[i := f (Q ! i)] = map f (take (Suc i) Q) @ drop (Suc i) Q"
    "f (Q ! i) = Q ! i \<Longrightarrow> map f (take i Q) @ drop i Q = map f (take (Suc i) Q) @ drop (Suc i) Q"
proof -
  show 1: "(map f (take i Q) @ drop i Q) ! i = Q ! i" using assms by (simp add: nth_append)
  show 2: "(map f (take i Q) @ drop i Q)[i := f (Q ! i)] = map f (take (Suc i) Q) @ drop (Suc i) Q"
    using assms by (simp add: list_update_append take_Suc_conv_app_nth Cons_nth_drop_Suc [symmetric])
  show "f (Q ! i) = Q ! i \<Longrightarrow> map f (take i Q) @ drop i Q = map f (take (Suc i) Q) @ drop (Suc i) Q"
    using 1 2 by (metis list_update_id)
qed

lemma Suc_ex: "(\<exists>j<Suc i. P j) \<longleftrightarrow> P i \<or> (\<exists>j<i. P j)"
  by (auto simp: less_Suc_eq)

lemma serve_prewrite_post:
  assumes "mv_core (next_row S) (mv S)" "\<not> exists_prewrite (mv S)" "latest_wts (mv S) < ts"
  shows "\<exists>S'. serve_prewrite n m ts txn S = Inr S' \<and> mv_core (next_row S') (mv S') \<and> exists_prewrite (mv S') \<and>
     prewrite_ts (mv S') = ts \<and> same_front (mv S) (mv S') \<and> next_row S \<le> next_row S' \<and>
     we_row (write_history (mv S') ! prewrite_his_id (mv S')) = Some (cur_row (mv_txns S' txn)) \<and>
     (\<forall>t. ts_ready (mv_txns S' t) = ts_ready (mv_txns S t)) \<and> (\<forall>t. t \<noteq> txn \<longrightarrow> mv_txns S' t = mv_txns S t)"
proof -
  obtain r s' nxt' where "reserveRow n m ts (mv S) (next_row S) = Inr (r, s', nxt')"
      "reserve_post ts (mv S) (next_row S) (r, s', nxt')"
    using reserveRow_core [OF assms, of n m] by (metis prod_cases3)
  then show ?thesis by (simp add: serve_prewrite_def reserve_post_def set_cur_row_def)
qed

lemma woken_step:
  assumes w: "woken np Q i S" and buf: "buf_ok ts Q" and i: "i < length Q" "re_valid (Q ! i)"
    and others: "\<forall>t. t \<noteq> re_txn (Q ! i) \<longrightarrow> mv_txns S' t = mv_txns S t" and ready: "ts_ready (mv_txns S' (re_txn (Q ! i)))"
    and front: "latest_row (mv S') = latest_row (mv S)" "max_served_rts (mv S) \<le> max_served_rts (mv S')"
    and read: "re_type (Q ! i) = R_REQ \<Longrightarrow>
      re_ts (Q ! i) \<le> max_served_rts (mv S') \<and> cur_row (mv_txns S' (re_txn (Q ! i))) = latest_row (mv S')"
  shows "woken np Q (Suc i) S'"
  unfolding woken_def
proof (intro allI impI)
  fix j assume j: "j < Suc i" "j < length Q \<and> served np (Q ! j)"
  show "ts_ready (mv_txns S' (re_txn (Q ! j))) \<and> (re_type (Q ! j) = R_REQ \<longrightarrow>
      re_ts (Q ! j) \<le> max_served_rts (mv S') \<and> cur_row (mv_txns S' (re_txn (Q ! j))) = latest_row (mv S'))"
  proof (cases "j = i")
    case True
    then show ?thesis using ready read by simp
  next
    case False
    then have "re_txn (Q ! j) \<noteq> re_txn (Q ! i)"
      using distinct_filter_nth [of re_txn re_valid Q j i] buf i j by (simp add: buf_ok_def served_def)
    then have o: "mv_txns S' (re_txn (Q ! j)) = mv_txns S (re_txn (Q ! j))" using others by blast
    have "j < i" using j(1) False by simp
    then have "ts_ready (mv_txns S (re_txn (Q ! j)))"
      "re_type (Q ! j) = R_REQ \<Longrightarrow> re_ts (Q ! j) \<le> max_served_rts (mv S) \<and> cur_row (mv_txns S (re_txn (Q ! j))) = latest_row (mv S)"
      using w j(2) unfolding woken_def by blast+
    then show ?thesis unfolding o front(1) using front(2) by (meson order.trans)
  qed
qed

lemma woken_skip: "woken np Q i S \<Longrightarrow> \<not> served np (Q ! i) \<Longrightarrow> woken np Q (Suc i) S"
  by (auto simp: woken_def less_Suc_eq)

lemma serve_req_step:
  assumes buf: "buf_ok ts Q" and np: "np = next_pre ts Q UINT64_MAX" and inv: "serve_inv ts np Q i S" and i: "i < length Q"
  shows "\<exists>S'. serve_req n m ts np i S = Inr S' \<and> serve_inv ts np Q (Suc i) S' \<and> mv_grows S S'"
proof -
  let ?q = "Q ! i"
  have qi: "requests (mv S) ! i = ?q" "(requests (mv S))[i := drop_served np ?q] = map (drop_served np) (take (Suc i) Q) @ drop (Suc i) Q"
    using inv drop_served_step(1,2) [OF i] by (simp_all add: serve_inv_def)
  have valid: "re_valid ?q \<Longrightarrow> ts < re_ts ?q \<and> re_ts ?q < UINT64_MAX \<and> re_type ?q \<in> {R_REQ, P_REQ}"
    using buf i by (simp add: buf_ok_def)
  consider (read) "re_valid ?q" "re_type ?q = R_REQ" "re_ts ?q < np" | (pre) "re_valid ?q" "re_ts ?q = np"
    | (skip) "\<not> served np ?q" by (auto simp: served_def)
  then show ?thesis
  proof cases
    case read
    let ?s = "mv S"
    let ?S = "S\<lparr>mv := ?s\<lparr>max_served_rts := (if re_ts ?q > max_served_rts ?s then re_ts ?q else max_served_rts ?s),
                       requests := (requests ?s)[i := drop_served np ?q]\<rparr>,
               mv_txns := set_ts_ready True (re_txn ?q) (set_cur_row (latest_row ?s) (re_txn ?q) (mv_txns S))\<rparr>"
    have "serve_req n m ts np i S = Inr ?S"
      using read valid qi(1) by (simp add: serve_req_def Let_def drop_served_def served_def)
    moreover have "woken np Q i S" using inv by (simp add: serve_inv_def)
    then have "woken np Q (Suc i) ?S"
      by (rule woken_step [OF _ buf i read(1)]) (simp_all add: set_cur_row_def set_ts_ready_def less_imp_le not_less)
    then have "serve_inv ts np Q (Suc i) ?S"
      using inv read qi(2) unfolding serve_inv_def Suc_ex by (simp add: less_imp_le less_imp_neq)
    ultimately show ?thesis by (intro exI [of _ ?S]) (simp add: mv_grows_def less_imp_le not_less)
  next
    case pre
    then obtain p where p: "p \<in> set Q" "re_valid p" "re_type p = P_REQ" "re_ts p = np"
      using next_pre_spec [OF np [symmetric]] valid by auto
    have "inj_on re_ts (set (filter re_valid Q))" using buf by (simp add: buf_ok_def distinct_map)
    then have P: "re_type ?q = P_REQ" using p pre i inj_onD [of re_ts "set (filter re_valid Q)" p ?q] by simp
    have "re_ts (Q ! j) \<noteq> np" if "j < i" "re_valid (Q ! j)" for j
      using distinct_filter_nth [of re_ts re_valid Q j i] buf pre that i by (simp add: buf_ok_def)
    then have ne: "\<not> exists_prewrite (mv S)" using inv i by (auto simp: serve_inv_def)
    have "latest_wts (mv S) < re_ts ?q" using inv valid pre(1) by (auto simp: serve_inv_def intro: le_less_trans)
    with inv ne obtain S1 where S1: "serve_prewrite n m (re_ts ?q) (re_txn ?q) S = Inr S1" "mv_core (next_row S1) (mv S1)"
        "exists_prewrite (mv S1)" "prewrite_ts (mv S1) = re_ts ?q" "same_front (mv S) (mv S1)" "next_row S \<le> next_row S1"
        "\<forall>t. t \<noteq> re_txn ?q \<longrightarrow> mv_txns S1 t = mv_txns S t"
      using serve_prewrite_post [of S "re_ts ?q" n m "re_txn ?q"] by (auto simp: serve_inv_def)
    let ?S = "S1\<lparr>mv := (mv S1)\<lparr>requests := (requests (mv S1))[i := drop_served np ?q]\<rparr>,
                mv_txns := set_ts_ready True (re_txn ?q) (mv_txns S1)\<rparr>"
    have "serve_req n m ts np i S = Inr ?S"
      using pre P valid qi(1) S1(1) by (simp add: serve_req_def Let_def drop_served_def served_def)
    moreover have w: "woken np Q i S" using inv by (simp add: serve_inv_def)
    have "woken np Q (Suc i) ?S"
      by (rule woken_step [OF w buf i pre(1)]) (use S1(5,7) P in \<open>simp_all add: set_ts_ready_def same_front_def\<close>)
    then have "serve_inv ts np Q (Suc i) ?S"
      using inv pre qi(2) S1(2-5) i unfolding serve_inv_def same_front_def Suc_ex by simp
    ultimately show ?thesis using S1(5,6) by (intro exI [of _ ?S]) (simp add: mv_grows_def same_front_def)
  next
    case skip
    then have run: "serve_req n m ts np i S = Inr S"
      using valid qi(1) by (auto simp: serve_req_def Let_def served_def)
    have "\<not> (i < length Q \<and> re_valid ?q \<and> re_ts ?q = np)" using skip by (auto simp: served_def)
    moreover have "woken np Q (Suc i) S" using inv woken_skip [of np Q i S, OF _ skip] by (simp add: serve_inv_def)
    ultimately have "serve_inv ts np Q (Suc i) S"
      using inv drop_served_step(3) [OF i, of "drop_served np"] skip unfolding serve_inv_def Suc_ex
      by (simp only: drop_served_def if_False) blast
    with run show ?thesis by (simp add: mv_grows_def)
  qed
qed

lemma serve_loop_post:
  assumes buf: "buf_ok ts Q" and np: "np = next_pre ts Q UINT64_MAX"
  shows "serve_inv ts np Q i S \<Longrightarrow> i + k = length Q \<Longrightarrow>
     \<exists>S'. serve_loop n m ts np k i S = Inr S' \<and> serve_inv ts np Q (length Q) S' \<and> mv_grows S S'"
proof (induction k arbitrary: i S)
  case (Suc k)
  obtain S1 where S1: "serve_req n m ts np i S = Inr S1" "serve_inv ts np Q (Suc i) S1" "mv_grows S S1"
    using serve_req_step [OF buf np Suc.prems(1), of n m] Suc.prems(2) by auto
  from Suc.IH [OF S1(2)] Suc.prems(2) S1(1,3) show ?case by (auto simp: mv_grows_def intro: order.trans)
qed (simp add: mv_grows_def)

lemma update_buffer_post:
  assumes "mv_core (next_row S) (mv S)" "latest_wts (mv S) \<le> ts" "buf_ok ts (requests (mv S))"
    "\<not> exists_prewrite (mv S)" "max_served_rts (mv S) \<le> ts" "requests (mv S) \<noteq> []"
  shows "\<exists>S'. mvcc_update_buffer n m ts S = Inr S' \<and> mv_inv (next_row S') (mv S') \<and> mv_grows S S' \<and>
     (let Q = requests (mv S); np = next_pre ts Q UINT64_MAX in
      requests (mv S') = map (drop_served np) Q \<and> woken np Q (length Q) S' \<and>
      (exists_prewrite (mv S') \<longleftrightarrow> (\<exists>q\<in>set Q. re_valid q \<and> re_ts q = np)))"
proof -
  let ?Q = "requests (mv S)"
  define np where "np = next_pre ts ?Q UINT64_MAX"
  note spec = next_pre_spec [OF np_def [symmetric]]
  have "ts \<le> np" using spec by (auto simp: less_imp_le)
  then have "serve_inv ts np ?Q 0 S" using assms by (auto simp: serve_inv_def woken_def intro: order.trans)
  from serve_loop_post [OF assms(3) np_def this, of "length ?Q" n m]
  obtain S' where S': "mvcc_update_buffer n m ts S = Inr S'" "serve_inv ts np ?Q (length ?Q) S'" "mv_grows S S'"
    by (auto simp: mvcc_update_buffer_def np_def)
  have Q': "requests (mv S') = map (drop_served np) ?Q" using S'(2) by (simp add: serve_inv_def)
  have pend: "re_ts q < UINT64_MAX \<and> re_type q \<in> {R_REQ, P_REQ} \<and> exists_prewrite (mv S') \<and> prewrite_ts (mv S') < re_ts q"
    if q: "q \<in> set (requests (mv S'))" "re_valid q" for q
  proof -
    from q have q': "q \<in> set ?Q" "\<not> served np q" by (auto simp: Q' drop_served_def split: if_splits)
    then have b: "ts < re_ts q" "re_ts q < UINT64_MAX" "re_type q \<in> {R_REQ, P_REQ}" using assms(3) q(2) by (auto simp: buf_ok_def)
    have lt: "np < re_ts q"
    proof (cases "re_type q = R_REQ")
      case True
      with q'(2) q(2) show ?thesis by (auto simp: served_def not_less le_less)
    next
      case False
      with b have "np \<le> re_ts q" using spec q'(1) q(2) by auto
      with q'(2) q(2) show ?thesis by (auto simp: served_def le_less)
    qed
    then have "np \<noteq> UINT64_MAX" using b(2) by auto
    then obtain p where "p \<in> set ?Q" "re_valid p" "re_ts p = np" using spec by blast
    then have "exists_prewrite (mv S')" using S'(2) by (auto simp: serve_inv_def in_set_conv_nth)
    then show ?thesis using S'(2) lt b by (simp add: serve_inv_def)
  qed
  have "filter re_valid (map (drop_served np) Q) = filter (\<lambda>q. \<not> served np q) (filter re_valid Q)" for Q
    by (induction Q) (auto simp: drop_served_def served_def)
  then have "distinct (map re_ts (filter re_valid (requests (mv S'))))" "distinct (map re_txn (filter re_valid (requests (mv S'))))"
    using assms(3) unfolding Q' buf_ok_def by (simp_all only: distinct_map_filter)
  moreover have "requests (mv S') \<noteq> []" using assms(6) by (simp add: Q')
  ultimately have "requests_ok (mv S')" using pend S'(2) unfolding requests_ok_def serve_inv_def by (metis (no_types, lifting))
  then have "mv_inv (next_row S') (mv S')" using S' by (simp add: mv_inv_def serve_inv_def)
  moreover have "exists_prewrite (mv S') \<longleftrightarrow> (\<exists>q\<in>set ?Q. re_valid q \<and> re_ts q = np)"
    using S'(2) unfolding serve_inv_def by (metis in_set_conv_nth)
  moreover have "woken np ?Q (length ?Q) S'" using S'(2) by (simp add: serve_inv_def)
  ultimately show ?thesis using S'(1,3) Q' unfolding np_def Let_def by blast
qed

lemma put_req_spec:
  "put_req r qs = Some qs' \<Longrightarrow> \<exists>as q bs. qs = as @ q # bs \<and> qs' = as @ r # bs \<and> \<not> re_valid q"
proof (induction qs arbitrary: qs')
  case (Cons q qs)
  show ?case
  proof (cases "re_valid q")
    case True
    then obtain qs1 where "put_req r qs = Some qs1" "qs' = q # qs1" using Cons.prems by (auto split: option.splits)
    then show ?thesis using Cons.IH by (metis append_Cons)
  next
    case False
    then show ?thesis using Cons.prems by (intro exI [of _ "[]"]) auto
  qed
qed simp

lemma put_req_free: "q \<in> set qs \<Longrightarrow> \<not> re_valid q \<Longrightarrow> \<exists>qs'. put_req r qs = Some qs'"
  by (induction qs) (auto split: option.split)

text \<open>A buffered request is one more valid entry; the array is never empty, so doubling makes room.\<close>

lemma buffer_req_post:
  assumes "requests s \<noteq> []"
  shows "\<exists>qs as bs. buffer_req ty txn T s = Inr (s\<lparr>requests := qs\<rparr>) \<and> filter re_valid (requests s) = as @ bs \<and>
     filter re_valid qs = as @ \<lparr>re_valid = True, re_type = ty, re_ts = ts_of T txn, re_txn = txn\<rparr> # bs"
proof -
  let ?r = "\<lparr>re_valid = True, re_type = ty, re_ts = ts_of T txn, re_txn = txn\<rparr>"
  have dbl: "filter re_valid (requests (double_requests s)) = filter re_valid (requests s)"
    by (simp add: double_requests_def empty_req_def)
  have "\<exists>q\<in>set (requests (double_requests s)). \<not> re_valid q"
    using assms by (cases "requests s") (auto simp: double_requests_def empty_req_def)
  then obtain qs where qs: "put_req ?r (requests (double_requests s)) = Some qs" using put_req_free by blast
  show ?thesis
  proof (cases "put_req ?r (requests s)")
    case None
    then have "buffer_req ty txn T s = Inr (s\<lparr>requests := qs\<rparr>)" using qs by (simp add: buffer_req_def double_requests_def Let_def)
    moreover obtain as q bs where "requests (double_requests s) = as @ q # bs" "qs = as @ ?r # bs" "\<not> re_valid q"
      using put_req_spec [OF qs] by blast
    ultimately show ?thesis unfolding dbl [symmetric]
      by (intro exI [of _ qs] exI [of _ "filter re_valid as"] exI [of _ "filter re_valid bs"]) simp
  next
    case (Some qs1)
    then have "buffer_req ty txn T s = Inr (s\<lparr>requests := qs1\<rparr>)" by (simp add: buffer_req_def Let_def)
    moreover obtain as q bs where "requests s = as @ q # bs" "qs1 = as @ ?r # bs" "\<not> re_valid q"
      using put_req_spec [OF Some] by blast
    ultimately show ?thesis
      by (intro exI [of _ qs1] exI [of _ "filter re_valid as"] exI [of _ "filter re_valid bs"]) simp
  qed
qed

lemma buffer_req_inv:
  assumes inv: "mv_inv nxt s" and ex: "exists_prewrite s" "prewrite_ts s < ts_of T txn" "ts_of T txn < UINT64_MAX"
    and ty: "ty \<in> {R_REQ, P_REQ}" and fresh: "\<forall>q\<in>set (requests s). re_valid q \<longrightarrow> re_ts q \<noteq> ts_of T txn \<and> re_txn q \<noteq> txn"
  shows "\<exists>s'. buffer_req ty txn T s = Inr s' \<and> mv_inv nxt s' \<and> same_front (s\<lparr>requests := requests s'\<rparr>) s' \<and>
     (\<forall>q\<in>set (requests s). re_valid q \<longrightarrow> q \<in> set (requests s'))"
proof -
  let ?r = "\<lparr>re_valid = True, re_type = ty, re_ts = ts_of T txn, re_txn = txn\<rparr>"
  obtain qs as bs where q: "buffer_req ty txn T s = Inr (s\<lparr>requests := qs\<rparr>)" "filter re_valid (requests s) = as @ bs"
      "filter re_valid qs = as @ ?r # bs" using buffer_req_post inv unfolding mv_inv_def requests_ok_def by blast
  have all: "(\<forall>q\<in>set xs. re_valid q \<longrightarrow> P q) \<longleftrightarrow> (\<forall>q\<in>set (filter re_valid xs). P q)" for P and xs :: "ReqEntry list" by auto
  have "qs \<noteq> []" using q(3) by auto
  then have "requests_ok (s\<lparr>requests := qs\<rparr>)"
    using inv ex ty fresh unfolding mv_inv_def requests_ok_def all by (auto simp: q(2,3))
  then have "mv_inv nxt (s\<lparr>requests := qs\<rparr>)" using inv by (simp add: mv_inv_def)
  moreover have "q \<in> set qs" if "q \<in> set (requests s)" "re_valid q" for q
  proof -
    have "q \<in> set (filter re_valid (requests s))" using that by simp
    then have "q \<in> set (filter re_valid qs)" unfolding q(2,3) by auto
    then show ?thesis by simp
  qed
  ultimately show ?thesis using q(1) by (simp add: same_front_def)
qed

subsection \<open>Requests\<close>

text \<open>What a transaction that follows the protocol guarantees: its timestamp is its own, it does not make a request while it waits
  for one, and it completes or cancels the prewrite it holds with the row it was given.\<close>

definition mv_follows :: "txn_ptr \<Rightarrow> TsType \<Rightarrow> row_ptr \<Rightarrow> 'd mv_state \<Rightarrow> bool" where
  "mv_follows txn type row S =
     (let s = mv S; ts = ts_of (mv_txns S) txn in
      if type \<in> {R_REQ, P_REQ} then
        ts < UINT64_MAX \<and> (\<forall>q\<in>set (requests s). re_valid q \<longrightarrow> re_ts q \<noteq> ts \<and> re_txn q \<noteq> txn) \<and>
        (type = P_REQ \<longrightarrow> ts \<noteq> latest_wts s \<and> (exists_prewrite s \<longrightarrow> ts \<noteq> prewrite_ts s))
      else exists_prewrite s \<and> prewrite_ts s = ts \<and> we_row (write_history s ! prewrite_his_id s) = Some row)"

text \<open>No version older than this can still be written.\<close>

definition read_horizon :: "Row_mvcc \<Rightarrow> ts_t" where
  "read_horizon s = max (max_served_rts s) (latest_wts s)"

text \<open>A request keeps the invariant and the horizon; it lies above it if it writes, and a read that is served, at once or when it is
  taken from the buffer, lies below it from then on, with its transaction holding the latest version, or an older one if the read itself
  is older than that.\<close>

definition reads_served :: "'d mv_state \<Rightarrow> 'd mv_state \<Rightarrow> bool" where
  "reads_served S S' \<longleftrightarrow> (\<forall>q\<in>set (requests (mv S)). re_valid q \<and> re_type q = R_REQ \<and> q \<notin> set (requests (mv S')) \<longrightarrow>
     re_ts q \<le> read_horizon (mv S') \<and> ts_ready (mv_txns S' (re_txn q)) \<and> cur_row (mv_txns S' (re_txn q)) = latest_row (mv S'))"

definition mv_step_ok :: "txn_ptr \<Rightarrow> TsType \<Rightarrow> RC \<Rightarrow> 'd mv_state \<Rightarrow> 'd mv_state \<Rightarrow> bool" where
  "mv_step_ok txn type rc S S' \<longleftrightarrow>
     mv_inv (next_row S') (mv S') \<and> next_row S \<le> next_row S' \<and> read_horizon (mv S) \<le> read_horizon (mv S') \<and>
     (type = R_REQ \<and> rc = RCOK \<longrightarrow> ts_of (mv_txns S) txn \<le> read_horizon (mv S') \<and>
        (latest_wts (mv S) < ts_of (mv_txns S) txn \<longrightarrow> cur_row (mv_txns S' txn) = latest_row (mv S'))) \<and>
     reads_served S S' \<and>
     (type = W_REQ \<longrightarrow> read_horizon (mv S) \<le> ts_of (mv_txns S) txn)"

lemma version_scan_spec:
  "version_scan ts h i t k = k' \<Longrightarrow> k' = k \<or> (\<exists>j<length h. k' = i + j \<and> we_valid (h ! j) \<and> we_ts (h ! j) < ts)"
proof (induction h arbitrary: i t k)
  case (Cons e h)
  show ?case
  proof (cases "we_valid e \<and> we_ts e < ts \<and> we_ts e > ucast t")
    case True
    then have "version_scan ts h (Suc i) (ucast (we_ts e)) i = k'" using Cons.prems by simp
    from Cons.IH [OF this] True show ?thesis by (auto intro: exI [of _ 0] exI [of _ "Suc _"])
  next
    case False
    then have "version_scan ts h (Suc i) t k = k'" using Cons.prems by auto
    from Cons.IH [OF this] show ?thesis by (auto intro: exI [of _ "Suc _"])
  qed
qed simp

lemma read_version_ok: "mv_core nxt s \<Longrightarrow> \<exists>r. read_version ts s = Inr r"
proof -
  assume core: "mv_core nxt s"
  let ?h = "write_history s" and ?k = "version_scan ts (write_history s) 0 0 (length (write_history s))"
  show "\<exists>r. read_version ts s = Inr r"
  proof (cases "?k = length ?h")
    case False
    then have "?k < length ?h" "we_valid (?h ! ?k)" using version_scan_spec [OF refl, of ts ?h 0 0 "length ?h"] by auto
    then have "?h ! ?k \<in> set (valid_entries ?h)" by (simp add: set_valid_entries)
    then have "we_row (?h ! ?k) \<noteq> None" using core unfolding mv_core_def versions_ok_def by blast
    then show ?thesis using False by (auto simp: read_version_def Let_def)
  qed (simp add: read_version_def Let_def)
qed

lemma mvcc_read_ok:
  assumes inv: "mv_inv (next_row S) (mv S)" and fol: "mv_follows txn R_REQ row S"
  shows "\<exists>rc S'. mvcc_read txn S = Inr (rc, S') \<and> mv_step_ok txn R_REQ rc S S'"
proof -
  let ?s = "mv S" and ?T = "mv_txns S" and ?ts = "ts_of (mv_txns S) txn"
  have core: "mv_core (next_row S) ?s" using inv by (simp add: mv_inv_def)
  consider (old) "?ts < oldest_wts ?s" | (wait) "\<not> ?ts < oldest_wts ?s" "latest_wts ?s < ?ts" "exists_prewrite ?s" "prewrite_ts ?s < ?ts"
    | (latest) "\<not> ?ts < oldest_wts ?s" "latest_wts ?s < ?ts" "\<not> (exists_prewrite ?s \<and> prewrite_ts ?s < ?ts)"
    | (past) "\<not> ?ts < oldest_wts ?s" "?ts \<le> latest_wts ?s" by (meson not_less)
  then show ?thesis
  proof cases
    case old
    then show ?thesis using inv by (simp add: mvcc_read_def mv_step_ok_def reads_served_def Let_def)
  next
    case wait
    obtain s' where "buffer_req R_REQ txn ?T ?s = Inr s'" "mv_inv (next_row S) s'" "same_front (?s\<lparr>requests := requests s'\<rparr>) s'"
        "\<forall>q\<in>set (requests ?s). re_valid q \<longrightarrow> q \<in> set (requests s')"
      using buffer_req_inv [OF inv wait(3), of ?T txn R_REQ] wait(4) fol by (auto simp: mv_follows_def Let_def)
    then show ?thesis using wait by (auto simp: mvcc_read_def mv_step_ok_def Let_def same_front_def read_horizon_def reads_served_def)
  next
    case latest
    let ?s' = "?s\<lparr>max_served_rts := (if ?ts > max_served_rts ?s then ?ts else max_served_rts ?s)\<rparr>"
    have "mv_inv (next_row S) ?s'" using inv latest(3) by (auto simp: mv_inv_def requests_ok_def)
    moreover have "read_horizon ?s \<le> read_horizon ?s'" "?ts \<le> read_horizon ?s'"
      using latest(2) by (auto simp: read_horizon_def max_def not_less)
    moreover have "mvcc_read txn S = Inr (RCOK, S\<lparr>mv := ?s', mv_txns := set_cur_row (latest_row ?s) txn ?T\<rparr>)"
      using latest by (auto simp: mvcc_read_def Let_def)
    ultimately show ?thesis by (simp add: mv_step_ok_def reads_served_def set_cur_row_def)
  next
    case past
    obtain r where "read_version ?ts ?s = Inr r" using read_version_ok [OF core] by blast
    then have "mvcc_read txn S = Inr (RCOK, S\<lparr>mv_txns := set_cur_row r txn ?T\<rparr>)"
      using past by (simp add: mvcc_read_def Let_def not_less [symmetric])
    moreover have "?ts \<le> read_horizon ?s" using past(2) by (simp add: read_horizon_def le_max_iff_disj)
    ultimately show ?thesis using inv past(2) leD by (auto simp: mv_step_ok_def reads_served_def)
  qed
qed

lemma mvcc_prewrite_ok:
  assumes inv: "mv_inv (next_row S) (mv S)" and fol: "mv_follows txn P_REQ row S"
  shows "\<exists>rc S'. mvcc_prewrite n m txn S = Inr (rc, S') \<and> mv_step_ok txn P_REQ rc S S'"
proof -
  let ?s = "mv S" and ?T = "mv_txns S" and ?ts = "ts_of (mv_txns S) txn"
  have core: "mv_core (next_row S) ?s" using inv by (simp add: mv_inv_def)
  consider (abort) "?ts < latest_wts ?s \<or> ?ts < max_served_rts ?s \<or> (exists_prewrite ?s \<and> prewrite_ts ?s > ?ts)"
    | (wait) "\<not> (?ts < latest_wts ?s \<or> ?ts < max_served_rts ?s \<or> (exists_prewrite ?s \<and> prewrite_ts ?s > ?ts))" "exists_prewrite ?s"
    | (serve) "\<not> ?ts < latest_wts ?s" "\<not> ?ts < max_served_rts ?s" "\<not> exists_prewrite ?s" by blast
  then show ?thesis
  proof cases
    case abort
    then show ?thesis using inv by (simp add: mvcc_prewrite_def mv_step_ok_def reads_served_def Let_def)
  next
    case wait
    then have "prewrite_ts ?s < ?ts" using fol by (auto simp: mv_follows_def Let_def)
    then obtain s' where "buffer_req P_REQ txn ?T ?s = Inr s'" "mv_inv (next_row S) s'" "same_front (?s\<lparr>requests := requests s'\<rparr>) s'"
        "\<forall>q\<in>set (requests ?s). re_valid q \<longrightarrow> q \<in> set (requests s')"
      using buffer_req_inv [OF inv wait(2), of ?T txn P_REQ] fol by (auto simp: mv_follows_def Let_def)
    then show ?thesis using wait by (auto simp: mvcc_prewrite_def mv_step_ok_def Let_def same_front_def read_horizon_def reads_served_def)
  next
    case serve
    have lt: "latest_wts ?s < ?ts" using serve(1) fol by (auto simp: mv_follows_def Let_def)
    obtain S' where S': "serve_prewrite n m ?ts txn S = Inr S'" "mv_core (next_row S') (mv S')" "exists_prewrite (mv S')"
        "prewrite_ts (mv S') = ?ts" "same_front ?s (mv S')" "next_row S \<le> next_row S'"
      using serve_prewrite_post [OF core serve(3) lt] by blast
    have "requests_ok (mv S')"
      using inv serve(2,3) S'(3,4,5) by (simp add: mv_inv_def requests_ok_def same_front_def)
    then show ?thesis
      using S' serve by (simp add: mvcc_prewrite_def mv_step_ok_def mv_inv_def Let_def same_front_def read_horizon_def reads_served_def)
  qed
qed

lemma holder_buf:
  assumes inv: "mv_inv nxt s" and ex: "exists_prewrite s"
  shows "buf_ok (prewrite_ts s) (requests s)" "max_served_rts s \<le> prewrite_ts s" "requests s \<noteq> []"
    "latest_wts s < prewrite_ts s" "prewrite_his_id s < length (write_history s)" "\<not> we_valid (write_history s ! prewrite_his_id s)"
  using assms by (auto simp: mv_inv_def requests_ok_def buf_ok_def mv_core_def reserved_ok_def)

lemma valid_entries_validate:
  assumes "i < length h" "\<not> we_valid (h ! i)" "we_valid e"
  shows "\<exists>as bs. valid_entries h = as @ bs \<and> valid_entries (h[i := e]) = as @ e # bs"
proof -
  have "valid_entries h = valid_entries (take i h @ h ! i # drop (Suc i) h)"
    using assms(1) by (simp add: id_take_nth_drop [symmetric])
  then show ?thesis using assms
    by (intro exI [of _ "valid_entries (take i h)"] exI [of _ "valid_entries (drop (Suc i) h)"])
      (simp add: upd_conv_take_nth_drop)
qed

lemma his_rows_same: "map we_row h = map we_row h' \<Longrightarrow> his_rows h = his_rows h'"
proof (induction h arbitrary: h')
  case (Cons e h)
  then obtain e' h1 where "h' = e' # h1" "we_row e' = we_row e" "map we_row h1 = map we_row h" by (cases h') auto
  then show ?case using Cons.IH [of h1] by (simp split: option.split)
qed simp

text \<open>The state in which \<^verbatim>\<open>update_buffer\<close> runs after a commit and after a cancelled prewrite.\<close>

definition commit_version :: "ts_t \<Rightarrow> row_ptr \<Rightarrow> Row_mvcc \<Rightarrow> Row_mvcc" where
  "commit_version ts row s = (let i = prewrite_his_id s in
     s\<lparr>write_history := (write_history s)[i := (write_history s ! i)\<lparr>we_valid := True, we_ts := ts\<rparr>],
       latest_wts := ts, latest_row := row, exists_prewrite := False, num_versions := num_versions s + 1\<rparr>)"

definition cancel_version :: "Row_mvcc \<Rightarrow> Row_mvcc" where
  "cancel_version s = (let i = prewrite_his_id s in
     s\<lparr>write_history := (write_history s)[i := (write_history s ! i)\<lparr>we_valid := False, we_reserved := False\<rparr>],
       exists_prewrite := False\<rparr>)"

lemma commit_version_core:
  assumes inv: "mv_inv nxt s" and ex: "exists_prewrite s" and row: "we_row (write_history s ! prewrite_his_id s) = Some row"
  shows "mv_core nxt (commit_version (prewrite_ts s) row s)"
proof -
  let ?h = "write_history s" and ?i = "prewrite_his_id s" and ?s = "commit_version (prewrite_ts s) row s"
  let ?e = "(?h ! ?i)\<lparr>we_valid := True, we_ts := prewrite_ts s\<rparr>"
  note hb = holder_buf [OF inv ex]
  have core: "versions_ok s" "reserved_ok s" "rows_ok nxt s" using inv by (simp_all add: mv_inv_def mv_core_def)
  obtain as bs where V: "valid_entries ?h = as @ bs" "valid_entries (?h[?i := ?e]) = as @ ?e # bs"
    using valid_entries_validate [OF hb(5,6), of ?e] by auto
  have old: "oldest_wts s \<le> latest_wts s" using core(1) by (cases "valid_entries ?h") (force simp: versions_ok_def)+
  have bnd: "we_row e \<noteq> None \<and> oldest_wts s < we_ts e \<and> we_ts e < prewrite_ts s" if "e \<in> set (as @ bs)" for e
    using core(1) that hb(4) V(1) unfolding versions_ok_def by (metis le_less_trans)
  have "we_row e \<noteq> None \<and> oldest_wts s < we_ts e \<and> we_ts e \<le> prewrite_ts s" if "e \<in> set (as @ ?e # bs)" for e
    using that bnd [of e] old hb(4) row by (auto simp: less_imp_le intro: le_less_trans)
  moreover have "distinct (map we_ts (as @ ?e # bs))"
  proof -
    have "distinct (map we_ts (as @ bs))" using core(1) V(1) by (simp add: versions_ok_def)
    moreover have "prewrite_ts s \<notin> we_ts ` set (as @ bs)" using bnd by force
    ultimately show ?thesis by auto
  qed
  ultimately have "versions_ok ?s"
    using core(1) V row unfolding versions_ok_def commit_version_def by (simp add: Let_def)
  moreover have "reserved_ok ?s"
    using core(2) ex hb(5) by (auto simp: reserved_ok_def commit_version_def Let_def nth_list_update)
  moreover have "his_rows (?h[?i := ?e]) = his_rows ?h"
    using hb(5) by (intro his_rows_same) (simp add: map_update list_update_same_conv)
  then have "rows_ok nxt ?s" using core(3) by (simp add: rows_ok_def commit_version_def Let_def)
  ultimately show ?thesis by (simp add: mv_core_def)
qed

lemma cancel_version_core:
  assumes inv: "mv_inv nxt s" and ex: "exists_prewrite s"
  shows "mv_core nxt (cancel_version s)"
proof -
  let ?h = "write_history s" and ?i = "prewrite_his_id s"
  let ?e = "(?h ! ?i)\<lparr>we_valid := False, we_reserved := False\<rparr>"
  note hb = holder_buf [OF inv ex]
  have core: "versions_ok s" "reserved_ok s" "rows_ok nxt s" using inv by (simp_all add: mv_inv_def mv_core_def)
  have "valid_entries (?h[?i := ?e]) = valid_entries ?h" by (intro valid_entries_update [OF hb(5,6)]) simp
  then have "versions_ok (cancel_version s)" using core(1) by (simp add: versions_ok_def cancel_version_def Let_def)
  moreover have "reserved_ok (cancel_version s)"
    using core(2) ex hb(5) by (auto simp: reserved_ok_def cancel_version_def Let_def nth_list_update)
  moreover have "his_rows (?h[?i := ?e]) = his_rows ?h"
    using hb(5) by (intro his_rows_same) (simp add: map_update list_update_same_conv)
  then have "rows_ok nxt (cancel_version s)" using core(3) by (simp add: rows_ok_def cancel_version_def Let_def)
  ultimately show ?thesis by (simp add: mv_core_def)
qed

lemma woken_reads_served:
  assumes "requests (mv S') = map (drop_served np) (requests (mv S))" "woken np (requests (mv S)) (length (requests (mv S))) S'"
  shows "reads_served S S'"
  unfolding reads_served_def
proof (intro ballI impI)
  fix q assume q: "q \<in> set (requests (mv S))" "re_valid q \<and> re_type q = R_REQ \<and> q \<notin> set (requests (mv S'))"
  then have "served np q" using assms(1) by (auto simp: drop_served_def image_iff split: if_splits)
  then show "re_ts q \<le> read_horizon (mv S') \<and> ts_ready (mv_txns S' (re_txn q)) \<and> cur_row (mv_txns S' (re_txn q)) = latest_row (mv S')"
    using assms(2) q by (auto simp: woken_def read_horizon_def in_set_conv_nth le_max_iff_disj)
qed

lemma mvcc_write_ok:
  assumes inv: "mv_inv (next_row S) (mv S)" and fol: "mv_follows txn W_REQ row S"
  shows "\<exists>S'. mvcc_write n m txn row S = Inr (RCOK, S') \<and> mv_step_ok txn W_REQ RCOK S S' \<and> latest_row (mv S') = row \<and>
     (let Q = requests (mv S); np = next_pre (ts_of (mv_txns S) txn) Q UINT64_MAX in
      buf_ok (ts_of (mv_txns S) txn) Q \<and> requests (mv S') = map (drop_served np) Q \<and> woken np Q (length Q) S' \<and>
      (exists_prewrite (mv S') \<longleftrightarrow> (\<exists>q\<in>set Q. re_valid q \<and> re_ts q = np)))"
proof -
  let ?s = "mv S" and ?ts = "ts_of (mv_txns S) txn"
  have f: "exists_prewrite ?s" "prewrite_ts ?s = ?ts" "we_row (write_history ?s ! prewrite_his_id ?s) = Some row"
    using fol by (simp_all add: mv_follows_def Let_def)
  note hb = holder_buf [OF inv f(1), unfolded f(2)]
  let ?S = "S\<lparr>mv := commit_version ?ts row ?s\<rparr>"
  have front: "requests (mv ?S) = requests ?s" "max_served_rts (mv ?S) = max_served_rts ?s" "latest_wts (mv ?S) = ?ts"
      "\<not> exists_prewrite (mv ?S)" "next_row ?S = next_row S" "latest_row (mv ?S) = row"
    by (simp_all add: commit_version_def Let_def)
  have "mv_core (next_row ?S) (mv ?S)" using commit_version_core [OF inv f(1,3)] f(2) by simp
  then obtain S' where S': "mvcc_update_buffer n m ?ts ?S = Inr S'" "mv_inv (next_row S') (mv S')" "mv_grows ?S S'"
      "let Q = requests ?s; np = next_pre ?ts Q UINT64_MAX in
        requests (mv S') = map (drop_served np) Q \<and> woken np Q (length Q) S' \<and>
        (exists_prewrite (mv S') \<longleftrightarrow> (\<exists>q\<in>set Q. re_valid q \<and> re_ts q = np))"
    using update_buffer_post [of ?S ?ts n m, unfolded front(1-3,5), OF _ order_refl hb(1) front(4) hb(2,3)] front(5) by auto
  have "mvcc_write n m txn row S = Inr (RCOK, S')"
    using S'(1) f hb(4,5) by (simp add: mvcc_write_def commit_version_def Let_def)
  moreover have "reads_served S S'" using woken_reads_served S'(4) unfolding Let_def by blast
  then have "mv_step_ok txn W_REQ RCOK S S'"
    using S'(2,3) front hb(2,4) by (auto simp: mv_step_ok_def mv_grows_def read_horizon_def less_imp_le le_max_iff_disj)
  moreover have "latest_row (mv S') = row" using S'(3) front(6) by (simp add: mv_grows_def)
  ultimately show ?thesis using S'(4) hb(1) unfolding Let_def by blast
qed

lemma mvcc_cancel_ok:
  assumes inv: "mv_inv (next_row S) (mv S)" and fol: "mv_follows txn XP_REQ row S"
  shows "\<exists>S'. mvcc_cancel n m txn row S = Inr (RCOK, S') \<and> mv_step_ok txn XP_REQ RCOK S S'"
proof -
  let ?s = "mv S" and ?ts = "ts_of (mv_txns S) txn"
  have f: "exists_prewrite ?s" "prewrite_ts ?s = ?ts" "we_row (write_history ?s ! prewrite_his_id ?s) = Some row"
    using fol by (simp_all add: mv_follows_def Let_def)
  note hb = holder_buf [OF inv f(1), unfolded f(2)]
  let ?S = "S\<lparr>mv := cancel_version ?s\<rparr>"
  have front: "requests (mv ?S) = requests ?s" "max_served_rts (mv ?S) = max_served_rts ?s" "latest_wts (mv ?S) = latest_wts ?s"
      "\<not> exists_prewrite (mv ?S)" "next_row ?S = next_row S"
    by (simp_all add: cancel_version_def Let_def)
  have "mv_core (next_row ?S) (mv ?S)" using cancel_version_core [OF inv f(1)] by simp
  then obtain S' where S': "mvcc_update_buffer n m ?ts ?S = Inr S'" "mv_inv (next_row S') (mv S')" "mv_grows ?S S'"
      "let Q = requests ?s; np = next_pre ?ts Q UINT64_MAX in requests (mv S') = map (drop_served np) Q \<and> woken np Q (length Q) S'"
    using update_buffer_post [of ?S ?ts n m, unfolded front(1-3,5), OF _ less_imp_le [OF hb(4)] hb(1) front(4) hb(2,3)] front(5)
    unfolding Let_def by auto
  have "mvcc_cancel n m txn row S = Inr (RCOK, S')"
    using S'(1) f hb(5) by (simp add: mvcc_cancel_def cancel_version_def Let_def)
  moreover have "reads_served S S'" using woken_reads_served S'(4) unfolding Let_def by blast
  then have "mv_step_ok txn XP_REQ RCOK S S'"
    using S'(2,3) front by (auto simp: mv_step_ok_def mv_grows_def read_horizon_def le_max_iff_disj)
  ultimately show ?thesis by blast
qed

lemma mvcc_access_ok_aux:
  assumes inv: "mv_inv (next_row S) (mv S)" and fol: "mv_follows txn type row S"
  shows "\<exists>rc S'. mvcc_access n m txn type row S = Inr (rc, S') \<and> mv_step_ok txn type rc S S'"
proof (cases type)
  case R_REQ
  then show ?thesis using mvcc_read_ok [OF inv] fol by (simp add: mvcc_access_def)
next
  case W_REQ
  then show ?thesis using mvcc_write_ok [OF inv] fol by (simp add: mvcc_access_def) blast
next
  case P_REQ
  then show ?thesis using mvcc_prewrite_ok [OF inv] fol by (simp add: mvcc_access_def)
next
  case XP_REQ
  then show ?thesis using mvcc_cancel_ok [OF inv] fol by (simp add: mvcc_access_def) blast
qed

subsection \<open>Reading an old version\<close>

definition older :: "ts_t \<Rightarrow> WriteHisEntry list \<Rightarrow> WriteHisEntry list" where
  "older ts h = filter (\<lambda>e. we_ts e < ts) (valid_entries h)"

lemma older_simps [simp]:
  "older ts [] = []"
  "older ts (e # h) = (if we_valid e \<and> we_ts e < ts then e # older ts h else older ts h)"
  by (simp_all add: older_def)

text \<open>With timestamps of 32 bits the truncation of the loop variable has no effect.\<close>

lemma ucast_32_64: "x < 2 ^ 32 \<Longrightarrow> ucast (ucast x :: 32 word) = x" for x :: "64 word"
proof -
  assume "x < 2 ^ 32"
  then have "take_bit 32 x = x" by (simp add: word_unat_eq_iff unsigned_take_bit_eq take_bit_nat_eq_self word_less_nat_alt)
  then show "ucast (ucast x :: 32 word) = x" by (simp add: unsigned_ucast_eq)
qed

lemma version_scan_max:
  assumes "ts \<le> 2 ^ 32"
  shows "version_scan ts h i t k = k' \<Longrightarrow>
     (k' = k \<and> (\<forall>e\<in>set (older ts h). we_ts e \<le> ucast t)) \<or>
     (\<exists>j<length h. k' = i + j \<and> h ! j \<in> set (older ts h) \<and> ucast t < we_ts (h ! j) \<and>
        (\<forall>e\<in>set (older ts h). we_ts e \<le> we_ts (h ! j)))"
proof (induction h arbitrary: i t k)
  case (Cons e h)
  show ?case
  proof (cases "we_valid e \<and> we_ts e < ts \<and> we_ts e > ucast t")
    case True
    then have *: "ucast (ucast (we_ts e) :: 32 word) = we_ts e" using assms by (intro ucast_32_64) (auto intro: less_le_trans)
    have "version_scan ts h (Suc i) (ucast (we_ts e)) i = k'" using True Cons.prems by simp
    from Cons.IH [OF this] show ?thesis
    proof (elim disjE exE conjE)
      assume "k' = i" "\<forall>e'\<in>set (older ts h). we_ts e' \<le> ucast (ucast (we_ts e) :: 32 word)"
      then show ?thesis using True * by (intro disjI2 exI [of _ 0]) simp
    next
      fix j assume "j < length h" "k' = Suc i + j" "h ! j \<in> set (older ts h)" "ucast (ucast (we_ts e) :: 32 word) < we_ts (h ! j)"
        "\<forall>e\<in>set (older ts h). we_ts e \<le> we_ts (h ! j)"
      then show ?thesis using True * by (intro disjI2 exI [of _ "Suc j"]) (auto simp: less_imp_le)
    qed
  next
    case False
    then have "version_scan ts h (Suc i) t k = k'" using Cons.prems by auto
    from Cons.IH [OF this] show ?thesis
    proof (elim disjE exE conjE)
      assume "k' = k" "\<forall>e\<in>set (older ts h). we_ts e \<le> ucast t"
      then show ?thesis using False by (intro disjI1) (auto simp: not_less)
    next
      fix j assume "j < length h" "k' = Suc i + j" "h ! j \<in> set (older ts h)" "ucast t < we_ts (h ! j)"
        "\<forall>e\<in>set (older ts h). we_ts e \<le> we_ts (h ! j)"
      then show ?thesis using False by (intro disjI2 exI [of _ "Suc j"]) (auto simp: not_less)
    qed
  qed
qed simp

subsection \<open>Example states\<close>

text \<open>Transaction \<open>t\<close> has timestamp \<open>t\<close>.\<close>

definition mv_demo_txns :: txn_tab where
  "mv_demo_txns t = \<lparr>thd_id = t, txn_id = of_nat t, timestamp = of_nat t, cur_row = 99, lock_ready = False,
     lock_abort = False, ts_ready = False, ready_part = 0, start_ts = 0, end_ts = 0, vll_txn_type = VLL_Free\<rparr>"

definition mv_demo :: "nat mv_state" where
  "mv_demo = \<lparr>mv = Row_mvcc_init 0, mv_txns = mv_demo_txns, rdata = (\<lambda>_. 0), next_row = 1\<rparr>"

text \<open>Transaction 3 holds the prewrite; 4 and 7 wait to read and 5 to prewrite.\<close>

definition mv_demo_req :: "TsType \<Rightarrow> nat \<Rightarrow> ReqEntry" where
  "mv_demo_req ty t = \<lparr>re_valid = True, re_type = ty, re_ts = of_nat t, re_txn = t\<rparr>"

definition mv_demo_pre :: "nat mv_state" where
  "mv_demo_pre = mv_demo\<lparr>mv := (Row_mvcc_init 0)\<lparr>
     write_history := \<lparr>we_valid = False, we_reserved = True, we_ts = 3, we_row = Some 1\<rparr> # replicate 3 empty_his,
     exists_prewrite := True, prewrite_ts := 3, prewrite_his_id := 0,
     requests := [mv_demo_req P_REQ 5, mv_demo_req R_REQ 4, mv_demo_req R_REQ 7, empty_req]\<rparr>, next_row := 2\<rparr>"

text \<open>Versions 2 to 5 in the history, the base row with address 0.\<close>

definition mv_demo_ver :: "ts_t \<Rightarrow> nat \<Rightarrow> WriteHisEntry" where
  "mv_demo_ver ts r = \<lparr>we_valid = True, we_reserved = True, we_ts = ts, we_row = Some r\<rparr>"

definition mv_demo_hist :: "WriteHisEntry list \<Rightarrow> ts_t \<Rightarrow> row_ptr \<Rightarrow> Row_mvcc" where
  "mv_demo_hist h w r = (Row_mvcc_init 0)\<lparr>write_history := h, num_versions := length h, latest_wts := w, latest_row := r\<rparr>"

lemma mv_demo_inv: "mv_inv (next_row mv_demo) (mv mv_demo)"
  by (simp add: mv_demo_def mv_inv_init)

lemma mv_demo_pre_inv: "mv_inv (next_row mv_demo_pre) (mv mv_demo_pre)"
  by (simp add: mv_inv_def mv_core_def versions_ok_def reserved_ok_def rows_ok_def requests_ok_def Row_mvcc_init_def
      mv_demo_pre_def mv_demo_def mv_demo_req_def UINT64_MAX_def)
    (simp add: nth_Cons' numeral_eq_Suc empty_his_def empty_req_def)

subsection \<open>Theorems\<close>

text \<open>C19: Requests of transactions that follow the protocol keep the invariant of the row manager (versions counted,
  inside the window, one reserved entry, every buffer used once, pending requests behind a served prewrite); no
  assertion fails, no null version is read and the arrays always have room. The horizon below which nothing can be
  written any more never moves back. A read lies below it once it is served, at once or when it is taken from the buffer, and
  then has the latest version unless it is older than that; a committed version never lies below it, so a later version cannot
  slip under a read.\<close>

theorem mvcc_access_ok:
  assumes "mv_inv (next_row S) (mv S)" "mv_follows txn type row S"
  shows "\<exists>rc S'. mvcc_access n m txn type row S = Inr (rc, S') \<and> mv_step_ok txn type rc S S'"
  using assms by (rule mvcc_access_ok_aux)

lemma mvcc_access_ok_witness:
  "\<exists>rc S'. mvcc_access 4 0 3 P_REQ 0 mv_demo = Inr (rc, S') \<and> mv_step_ok 3 P_REQ rc mv_demo S'"
  by (rule mvcc_access_ok [OF mv_demo_inv]) (simp add: mv_follows_def mv_demo_def mv_demo_txns_def Row_mvcc_init_def
    UINT64_MAX_def empty_req_def)

text \<open>C40: Committing the prewrite serves the pending requests up to the next prewrite: exactly the requests that no
  pending prewrite precedes leave the buffer, which are the reads before the oldest pending prewrite and that prewrite. Their
  transactions are woken, the reads with the version just committed, and the row has a prewrite again exactly when there was a
  pending one.\<close>

theorem mvcc_write_wakes:
  assumes "mv_inv (next_row S) (mv S)" "mv_follows txn W_REQ row S"
  shows "\<exists>S'. mvcc_access n m txn W_REQ row S = Inr (RCOK, S') \<and>
     (let Q = requests (mv S) in
      requests (mv S') = map (\<lambda>q. if due Q q then q\<lparr>re_valid := False\<rparr> else q) Q \<and>
      (\<forall>q\<in>set Q. due Q q \<longrightarrow> ts_ready (mv_txns S' (re_txn q)) \<and> (re_type q = R_REQ \<longrightarrow> cur_row (mv_txns S' (re_txn q)) = row)) \<and>
      (exists_prewrite (mv S') \<longleftrightarrow> (\<exists>q\<in>set Q. re_valid q \<and> re_type q = P_REQ)))"
proof -
  let ?Q = "requests (mv S)" and ?ts = "ts_of (mv_txns S) txn"
  define np where "np = next_pre ?ts ?Q UINT64_MAX"
  obtain S' where S': "mvcc_write n m txn row S = Inr (RCOK, S')" "latest_row (mv S') = row" "buf_ok ?ts ?Q"
    "requests (mv S') = map (drop_served np) ?Q" "woken np ?Q (length ?Q) S'"
    "exists_prewrite (mv S') \<longleftrightarrow> (\<exists>q\<in>set ?Q. re_valid q \<and> re_ts q = np)"
    using mvcc_write_ok [OF assms, of n m] unfolding Let_def np_def by blast
  have d: "served np q = due ?Q q" if "q \<in> set ?Q" for q using served_due [OF S'(3) that] by (simp add: np_def)
  have "map (drop_served np) ?Q = map (\<lambda>q. if due ?Q q then q\<lparr>re_valid := False\<rparr> else q) ?Q"
    using d by (simp add: drop_served_def)
  moreover have "ts_ready (mv_txns S' (re_txn q)) \<and> (re_type q = R_REQ \<longrightarrow> cur_row (mv_txns S' (re_txn q)) = row)"
    if "q \<in> set ?Q" "due ?Q q" for q
    using S'(2,5) that d [OF that(1)] by (auto simp: woken_def in_set_conv_nth)
  moreover have "(\<exists>q\<in>set ?Q. re_valid q \<and> re_ts q = np) \<longleftrightarrow> (\<exists>q\<in>set ?Q. re_valid q \<and> re_type q = P_REQ)"
    using next_pre_spec [OF np_def [symmetric]] S'(3) unfolding buf_ok_def by (metis order.strict_iff_not)
  ultimately show ?thesis using S'(1,4,6) by (auto simp: mvcc_access_def)
qed

lemma mvcc_write_wakes_witness:
  "\<exists>S'. mvcc_access 4 0 3 W_REQ 1 mv_demo_pre = Inr (RCOK, S') \<and>
     map re_valid (requests (mv S')) = [False, False, True, False] \<and> cur_row (mv_txns S' 4) = 1 \<and> exists_prewrite (mv S')"
proof -
  let ?Q = "requests (mv mv_demo_pre)"
  have f: "mv_follows 3 W_REQ 1 mv_demo_pre" by code_simp
  have Q: "?Q = [mv_demo_req P_REQ 5, mv_demo_req R_REQ 4, mv_demo_req R_REQ 7, empty_req]" by code_simp
  have "due ?Q (mv_demo_req P_REQ 5)" "due ?Q (mv_demo_req R_REQ 4)" "\<not> due ?Q (mv_demo_req R_REQ 7)" "\<not> due ?Q empty_req"
    by code_simp+
  then show ?thesis
    using mvcc_write_wakes [OF mv_demo_pre_inv f, of 4 0] by (auto simp: Let_def Q mv_demo_req_def empty_req_def)
qed

text \<open>A read between the oldest and the latest version gets the newest version older than its timestamp, or the
  base row when there is none, as long as the timestamps fit the 32 bits of the loop variable.\<close>

theorem mvcc_read_version:
  assumes "mv_core nxt s" "ts \<le> 2 ^ 32"
  shows "\<exists>r. read_version ts s = Inr r \<and>
     (if older ts (write_history s) = [] then r = mv_row s
      else \<exists>e\<in>set (older ts (write_history s)). we_row e = Some r \<and> (\<forall>e'\<in>set (older ts (write_history s)). we_ts e' \<le> we_ts e))"
proof -
  let ?h = "write_history s" and ?k = "version_scan ts (write_history s) 0 0 (length (write_history s))"
  obtain r where r: "read_version ts s = Inr r" using read_version_ok [OF assms(1)] by blast
  have pos: "0 < we_ts e" if "e \<in> set (older ts ?h)" for e
    using that assms(1) unfolding older_def mv_core_def versions_ok_def by (auto intro: le_less_trans [of 0 "oldest_wts s"])
  show ?thesis
  proof (cases "?k = length ?h")
    case True
    then have "\<forall>e\<in>set (older ts ?h). we_ts e \<le> 0"
      using version_scan_max [OF assms(2) refl, of ?h 0 0 "length ?h"] by auto
    then have "older ts ?h = []" using pos by (metis last_in_set leD)
    then show ?thesis using r True by (simp add: read_version_def)
  next
    case False
    then obtain j where "?k = j" "?h ! j \<in> set (older ts ?h)" "\<forall>e\<in>set (older ts ?h). we_ts e \<le> we_ts (?h ! j)"
      using version_scan_max [OF assms(2) refl, of ?h 0 0 "length ?h"] by auto
    moreover have "older ts ?h \<noteq> []" using calculation by auto
    moreover have "we_row (?h ! j) = Some r" using r False calculation by (auto simp: read_version_def Let_def split: option.splits)
    ultimately show ?thesis using r by auto
  qed
qed

lemma mv_demo_hist_core: "mv_core 3 (mv_demo_hist [mv_demo_ver 2 1, mv_demo_ver 5 2] 5 2)"
  by (simp add: mv_core_def versions_ok_def reserved_ok_def rows_ok_def mv_demo_hist_def mv_demo_ver_def Row_mvcc_init_def less_Suc_eq)

lemma mvcc_read_version_witness: "\<exists>r. read_version 4 (mv_demo_hist [mv_demo_ver 2 1, mv_demo_ver 5 2] 5 2) = Inr r \<and> r = 1"
proof -
  have "older 4 (write_history (mv_demo_hist [mv_demo_ver 2 1, mv_demo_ver 5 2] 5 2)) = [mv_demo_ver 2 1]"
    by (simp add: mv_demo_hist_def mv_demo_ver_def)
  then show ?thesis using mvcc_read_version [OF mv_demo_hist_core, of 4] by (simp add: mv_demo_ver_def)
qed

text \<open>With timestamps beyond 32 bits a read can get an older version than the one it should see: the loop keeps the
  timestamp of the best version so far in a 32-bit variable. Here versions \<open>2 ^ 32 + 5\<close> and \<open>2 ^ 32 + 1\<close> are both
  older than the reader, and it gets the row of the second.\<close>

theorem mvcc_read_truncates:
  "\<exists>s ts. mv_core 3 s \<and> older ts (write_history s) = [mv_demo_ver (2 ^ 32 + 5) 1, mv_demo_ver (2 ^ 32 + 1) 2] \<and>
     read_version ts s = Inr 2"
proof (intro exI conjI)
  let ?s = "mv_demo_hist [mv_demo_ver (2 ^ 32 + 5) 1, mv_demo_ver (2 ^ 32 + 1) 2] (2 ^ 32 + 5) 1"
  show "mv_core 3 ?s"
    by (simp add: mv_core_def versions_ok_def reserved_ok_def rows_ok_def mv_demo_hist_def mv_demo_ver_def Row_mvcc_init_def less_Suc_eq)
  show "older (2 ^ 32 + 9) (write_history ?s) = [mv_demo_ver (2 ^ 32 + 5) 1, mv_demo_ver (2 ^ 32 + 1) 2]" by code_simp
  show "read_version (2 ^ 32 + 9) ?s = Inr 2" by code_simp
qed

text \<open>A sequence of requests with the rows the transactions were given.\<close>

fun mv_run :: "nat \<Rightarrow> ts_t \<Rightarrow> (txn_ptr \<times> TsType) list \<Rightarrow> 'd mv_state \<Rightarrow> fault + 'd mv_state" where
  "mv_run n m [] S = Inr S"
| "mv_run n m ((t, ty) # qs) S =
     bindE (mvcc_access n m t ty (cur_row (mv_txns S t)) S) (\<lambda>(_, S'). mv_run n m qs S')"

text \<open>When the history is full and as long as there are threads, the oldest version is recycled whatever the oldest
  active timestamp is: the buffer of the base row goes to the next writer although an active transaction still reads
  from it. Here transaction 1 (the oldest active one) was given the base row, and after four commits transaction 6 is
  given the same buffer to write.\<close>

theorem mvcc_recycles_live_version:
  "case mv_run 4 1 [(1, R_REQ), (2, P_REQ), (2, W_REQ), (3, P_REQ), (3, W_REQ), (4, P_REQ), (4, W_REQ),
                    (5, P_REQ), (5, W_REQ), (6, P_REQ)] mv_demo of
     Inr S \<Rightarrow> cur_row (mv_txns S 1) = cur_row (mv_txns S 6) \<and> exists_prewrite (mv S) \<and> prewrite_ts (mv S) = 6
   | Inl _ \<Rightarrow> False"
  by code_simp

end
