(* ===== verification/Index_base.thy ===== *)
theory Index_base
  imports Helper
begin

text \<open>
  The interface of the indexes, \<^verbatim>\<open>storage/index_base.h\<close>, as a contract. An index maps a key to the
  items inserted under it, newest first; the items of one key are chained by their \<^verbatim>\<open>next\<close> pointers.
  Reading returns the head of the chain. An item is blank while its \<^verbatim>\<open>next\<close> is still \<^verbatim>\<open>NULL\<close>, as
  \<^verbatim>\<open>itemid_t::init\<close> leaves it. The providers are the hash index and the B-skiplist index.
\<close>

subsection \<open>Chains of items\<close>

type_synonym item_ptr = nat
type_synonym item_next = "item_ptr \<Rightarrow> item_ptr option"

text \<open>\<open>chain nx p xs\<close>: following \<^verbatim>\<open>next\<close> from \<open>p\<close> visits \<open>xs\<close> and ends.\<close>

fun chain :: "item_next \<Rightarrow> item_ptr option \<Rightarrow> item_ptr list \<Rightarrow> bool" where
  "chain nx p [] \<longleftrightarrow> p = None"
| "chain nx p (x # xs) \<longleftrightarrow> p = Some x \<and> chain nx (nx x) xs"

lemma chain_functional: "chain nx p xs \<Longrightarrow> chain nx p ys \<Longrightarrow> xs = ys"
proof (induction xs arbitrary: p ys)
  case (Cons x xs)
  then show ?case by (cases ys) auto
qed (metis chain.simps list.exhaust option.distinct(1))

lemma chain_other [simp]: "y \<notin> set xs \<Longrightarrow> chain (nx(y := q)) p xs = chain nx p xs"
  by (induction xs arbitrary: p) auto

lemma chain_push: "chain nx p xs \<Longrightarrow> y \<notin> set xs \<Longrightarrow> chain (nx(y := p)) (Some y) (y # xs)"
  by simp

lemma chain_hd: "chain nx p xs \<Longrightarrow> p = (case xs of [] \<Rightarrow> None | x # _ \<Rightarrow> Some x)"
  by (cases xs) auto

lemma chain_distinct: "chain nx p xs \<Longrightarrow> distinct xs"
proof (induction xs arbitrary: p rule: length_induct)
  case (1 xs)
  show ?case
  proof (cases xs)
    case (Cons x ys)
    then have c: "chain nx (nx x) ys" using 1(2) by simp
    have "x \<notin> set ys"
    proof
      assume "x \<in> set ys"
      then obtain as bs where ys: "ys = as @ x # bs" by (meson split_list)
      have suf: "chain nx q (as @ bs') \<Longrightarrow> \<exists>q'. chain nx q' bs'" for q as bs'
        by (induction as arbitrary: q) auto
      from suf [of "nx x" as "x # bs"] c ys have "chain nx (nx x) bs" by auto
      with c have "ys = bs" using chain_functional by blast
      with ys show False by (metis append_Cons append_eq_append_conv2 append_self_conv2 length_append length_Cons not_add_less2 lessI)
    qed
    moreover have "distinct ys" using 1(1) c Cons by auto
    ultimately show ?thesis using Cons by simp
  qed simp
qed

subsection \<open>The contract\<close>

type_synonym 'k index_spec = "'k \<rightharpoonup> item_ptr list"

definition push_item :: "'k \<Rightarrow> item_ptr \<Rightarrow> 'k index_spec \<Rightarrow> 'k index_spec" where
  "push_item k i m = m(k \<mapsto> i # (case m k of None \<Rightarrow> [] | Some is \<Rightarrow> is))"

definition items_of :: "'k index_spec \<Rightarrow> item_ptr set" where
  "items_of m = (\<Union>is\<in>ran m. set is)"

lemma push_item_apply:
  "push_item k i m k' = (if k' = k then Some (i # (case m k of None \<Rightarrow> [] | Some is \<Rightarrow> is)) else m k')"
  by (simp add: push_item_def)

lemma items_of_iff: "i \<in> items_of m \<longleftrightarrow> (\<exists>k is. m k = Some is \<and> i \<in> set is)"
  by (auto simp: items_of_def ran_def)

lemma items_of_push [simp]: "items_of (push_item k i m) = insert i (items_of m)"
  by (auto simp: items_of_iff push_item_apply split: if_splits option.splits) (metis option.distinct(1) option.inject)+

locale index =
  fixes rel :: "'s \<Rightarrow> 'k index_spec \<Rightarrow> bool"
    and blank :: "'s \<Rightarrow> item_ptr \<Rightarrow> bool"
    and key_ok :: "'s \<Rightarrow> 'k \<Rightarrow> bool"
    and index_insert :: "'k \<Rightarrow> item_ptr \<Rightarrow> 's \<Rightarrow> fault + (RC \<times> 's)"
    and index_read :: "'k \<Rightarrow> 's \<Rightarrow> fault + (RC \<times> item_ptr)"
  assumes insert_law: "rel s m \<Longrightarrow> key_ok s k \<Longrightarrow> blank s i \<Longrightarrow> i \<notin> items_of m \<Longrightarrow>
      \<exists>s'. index_insert k i s = Inr (RCOK, s') \<and> rel s' (push_item k i m) \<and>
           key_ok s' = key_ok s \<and> (\<forall>j. j \<noteq> i \<longrightarrow> blank s' j = blank s j)"
    and read_law: "rel s m \<Longrightarrow> key_ok s k \<Longrightarrow> m k = Some (i # is) \<Longrightarrow> index_read k s = Inr (RCOK, i)"
begin

lemma insert_read:
  assumes "rel s m" "key_ok s k" "blank s i" "i \<notin> items_of m"
  shows "\<exists>s'. index_insert k i s = Inr (RCOK, s') \<and> index_read k s' = Inr (RCOK, i)"
  using insert_law [OF assms] read_law [of _ "push_item k i m" k i] assms(2) by (auto simp: push_item_apply)

lemma insert_read_other:
  assumes "rel s m" "key_ok s k" "blank s i" "i \<notin> items_of m" "key_ok s k'" "k' \<noteq> k" "m k' = Some (j # js)"
  shows "\<exists>s'. index_insert k i s = Inr (RCOK, s') \<and> index_read k' s' = index_read k' s"
  using insert_law [OF assms(1-4)] read_law [of _ "push_item k i m" k' j js] read_law [OF assms(1,5,7)] assms(5-) by (auto simp: push_item_apply)

end

text \<open>Loading an index: the inserts of a workload's initial tables, one after another.\<close>

fun load_index :: "('k \<Rightarrow> item_ptr \<Rightarrow> 's \<Rightarrow> fault + (RC \<times> 's)) \<Rightarrow> ('k \<times> item_ptr) list \<Rightarrow> 's \<Rightarrow> fault + 's" where
  "load_index ins [] s = Inr s"
| "load_index ins ((k, i) # xs) s = bindE (ins k i s) (\<lambda>(_, s'). load_index ins xs s')"

fun load_spec :: "('k \<times> item_ptr) list \<Rightarrow> 'k index_spec \<Rightarrow> 'k index_spec" where
  "load_spec [] m = m"
| "load_spec ((k, i) # xs) m = load_spec xs (push_item k i m)"

definition loaded :: "'k \<Rightarrow> ('k \<times> item_ptr) list \<Rightarrow> item_ptr list" where
  "loaded k xs = rev (map snd (filter (\<lambda>x. fst x = k) xs))"

lemma loaded_simps [simp]:
  "loaded k [] = []"
  "loaded k ((k', i) # xs) = loaded k xs @ (if k' = k then [i] else [])"
  by (simp_all add: loaded_def)

lemma load_spec_apply:
  "load_spec xs m k = (if loaded k xs = [] then m k
     else Some (loaded k xs @ (case m k of None \<Rightarrow> [] | Some js \<Rightarrow> js)))"
proof (induction xs arbitrary: m)
  case (Cons x xs)
  obtain k' i where x: "x = (k', i)" by (cases x)
  show ?case
  proof (cases "k' = k")
    case True
    then show ?thesis by (simp add: x Cons.IH push_item_apply)
  next
    case False
    then show ?thesis by (simp add: x Cons.IH push_item_apply)
  qed
qed simp

context index
begin

lemma load_ok:
  assumes "rel s m" "\<forall>(k, i)\<in>set xs. key_ok s k \<and> blank s i \<and> i \<notin> items_of m" "distinct (map snd xs)"
  shows "\<exists>s'. load_index index_insert xs s = Inr s' \<and> rel s' (load_spec xs m) \<and> key_ok s' = key_ok s"
  using assms
proof (induction xs arbitrary: s m)
  case (Cons x xs)
  obtain k i where x: "x = (k, i)" by (cases x)
  obtain s1 where s1: "index_insert k i s = Inr (RCOK, s1)" "rel s1 (push_item k i m)" "key_ok s1 = key_ok s"
      "\<forall>j. j \<noteq> i \<longrightarrow> blank s1 j = blank s j"
    using insert_law [OF Cons.prems(1), of k i] Cons.prems(2) x by auto
  have "\<forall>(k', j)\<in>set xs. key_ok s1 k' \<and> blank s1 j \<and> j \<notin> items_of (push_item k i m)"
    using Cons.prems(2,3) s1(3,4) x by force
  from Cons.IH [OF s1(2) this] Cons.prems(3) s1(1,3) x show ?case by auto
qed simp

lemma load_read:
  assumes "rel s Map.empty" "\<forall>(k, i)\<in>set xs. key_ok s k \<and> blank s i" "distinct (map snd xs)" "k \<in> fst ` set xs"
  shows "\<exists>s'. load_index index_insert xs s = Inr s' \<and> index_read k s' = Inr (RCOK, hd (loaded k xs))"
proof -
  have "loaded k xs \<noteq> []" using assms(4) by (auto simp: loaded_def filter_empty_conv)
  then obtain j js where l: "loaded k xs = j # js" by (cases "loaded k xs") auto
  obtain s' where s': "load_index index_insert xs s = Inr s'" "rel s' (load_spec xs Map.empty)" "key_ok s' = key_ok s"
    using load_ok [OF assms(1) _ assms(3)] assms(2) by (auto simp: items_of_def)
  have "key_ok s' k" using assms(2,4) s'(3) by auto
  moreover have "load_spec xs Map.empty k = Some (j # js)" by (simp add: load_spec_apply l)
  ultimately show ?thesis using read_law [OF s'(2)] s'(1) l by simp
qed

end

end
