(* ===== verification/Index_hash.thy ===== *)
theory Index_hash
  imports Index_base
begin

text \<open>
  The hash index, \<^verbatim>\<open>storage/index_hash.cpp\<close>: per partition an array of buckets, each a singly linked
  list of nodes with one node per key. The nodes of a bucket are a list in the order of their
  \<^verbatim>\<open>next\<close> pointers; the \<^verbatim>\<open>next\<close> pointers of the items are the function \<open>ih_next\<close>.
\<close>

subsection \<open>State\<close>

record BucketNode =
  bn_key :: idx_key_t
  bn_items :: "item_ptr option"

record BucketHeader =
  first_node :: "BucketNode list"
  node_cnt :: "64 word"
  bh_locked :: bool

record IndexHash =
  buckets :: "BucketHeader list list"
  bucket_cnt :: "64 word"
  bucket_cnt_per_part :: "64 word"
  ih_next :: item_next

definition BucketNode_init :: "idx_key_t \<Rightarrow> BucketNode" where
  "BucketNode_init key = \<lparr>bn_key = key, bn_items = None\<rparr>"

definition BucketHeader_init :: BucketHeader where
  "BucketHeader_init = \<lparr>first_node = [], node_cnt = 0, bh_locked = False\<rparr>"

text \<open>The loop over the buckets counts in 32 bits, so it does not end for more buckets per partition.\<close>

definition IndexHash_init :: "64 word \<Rightarrow> nat \<Rightarrow> item_next \<Rightarrow> fault + IndexHash" where
  "IndexHash_init cnt part_cnt nx =
     bindE (guard Undefined_behaviour (part_cnt \<noteq> 0)) (\<lambda>_.
     let per = cnt div word_of_nat part_cnt in
     bindE (guard Spinning (unat per \<le> 2 ^ 32 - 1)) (\<lambda>_.
     Inr \<lparr>buckets = replicate part_cnt (replicate (unat per) BucketHeader_init), bucket_cnt = cnt,
          bucket_cnt_per_part = per, ih_next = nx\<rparr>))"

subsection \<open>Buckets\<close>

fun insert_item :: "idx_key_t \<Rightarrow> item_ptr \<Rightarrow> BucketNode list \<Rightarrow> item_next \<Rightarrow> BucketNode list \<times> item_next" where
  "insert_item key item [] nx = ([(BucketNode_init key)\<lparr>bn_items := Some item\<rparr>], nx)"
| "insert_item key item (n # ns) nx =
     (if bn_key n = key then (n\<lparr>bn_items := Some item\<rparr> # ns, nx(item := bn_items n))
      else case insert_item key item ns nx of (ns', nx') \<Rightarrow> (n # ns', nx'))"

text \<open>For an absent key the test of the assertion itself reads through \<^verbatim>\<open>NULL\<close>.\<close>

fun read_item :: "idx_key_t \<Rightarrow> BucketNode list \<Rightarrow> fault + item_ptr option" where
  "read_item key [] = Inl Null_deref"
| "read_item key (n # ns) = (if bn_key n = key then Inr (bn_items n) else read_item key ns)"

definition get_latch :: "BucketHeader \<Rightarrow> fault + BucketHeader" where
  "get_latch b = (if bh_locked b then Inl Spinning else Inr (b\<lparr>bh_locked := True\<rparr>))"

definition release_latch :: "BucketHeader \<Rightarrow> fault + BucketHeader" where
  "release_latch b = (if bh_locked b then Inr (b\<lparr>bh_locked := False\<rparr>) else Inl Assert_failed)"

subsection \<open>Index operations\<close>

definition hash :: "idx_key_t \<Rightarrow> IndexHash \<Rightarrow> fault + 64 word" where
  "hash key s = (if bucket_cnt_per_part s = 0 then Inl Undefined_behaviour else Inr (key mod bucket_cnt_per_part s))"

definition get_bucket :: "idx_key_t \<Rightarrow> int \<Rightarrow> IndexHash \<Rightarrow> fault + (nat \<times> nat)" where
  "get_bucket key part_id s =
     bindE (hash key s) (\<lambda>bkt_idx.
     bindE (assert_that (bkt_idx < bucket_cnt_per_part s)) (\<lambda>_.
     bindE (guard Out_of_bounds (0 \<le> part_id \<and> nat part_id < length (buckets s) \<and>
              unat bkt_idx < length (buckets s ! nat part_id))) (\<lambda>_.
     Inr (nat part_id, unat bkt_idx))))"

definition index_exist :: "idx_key_t \<Rightarrow> IndexHash \<Rightarrow> fault + bool" where
  "index_exist key s = Inl Assert_failed"

definition hash_insert :: "idx_key_t \<Rightarrow> item_ptr \<Rightarrow> int \<Rightarrow> IndexHash \<Rightarrow> fault + (RC \<times> IndexHash)" where
  "hash_insert key item part_id s =
     bindE (get_bucket key part_id s) (\<lambda>(p, b).
     bindE (get_latch (buckets s ! p ! b)) (\<lambda>bkt.
     let (ns, nx) = insert_item key item (first_node bkt) (ih_next s) in
     bindE (release_latch (bkt\<lparr>first_node := ns\<rparr>)) (\<lambda>bkt'.
     Inr (RCOK, s\<lparr>buckets := (buckets s)[p := (buckets s ! p)[b := bkt']], ih_next := nx\<rparr>))))"

definition hash_read :: "idx_key_t \<Rightarrow> int \<Rightarrow> IndexHash \<Rightarrow> fault + (RC \<times> item_ptr option)" where
  "hash_read key part_id s =
     bindE (get_bucket key part_id s) (\<lambda>(p, b).
     bindE (read_item key (first_node (buckets s ! p ! b))) (\<lambda>item. Inr (RCOK, item)))"

subsection \<open>The abstraction\<close>

abbreviation node_tab :: "BucketNode list \<Rightarrow> idx_key_t \<rightharpoonup> item_ptr option" where
  "node_tab ns \<equiv> map_of (map (\<lambda>n. (bn_key n, bn_items n)) ns)"

definition hash_wf :: "IndexHash \<Rightarrow> bool" where
  "hash_wf s \<longleftrightarrow> bucket_cnt_per_part s \<noteq> 0 \<and>
     (\<forall>bs\<in>set (buckets s). length bs = unat (bucket_cnt_per_part s) \<and> (\<forall>b\<in>set bs. \<not> bh_locked b))"

definition hash_nodes :: "int \<times> idx_key_t \<Rightarrow> IndexHash \<Rightarrow> BucketNode list" where
  "hash_nodes = (\<lambda>(p, key) s. first_node (buckets s ! nat p ! unat (key mod bucket_cnt_per_part s)))"

definition hash_part_ok :: "IndexHash \<Rightarrow> int \<times> idx_key_t \<Rightarrow> bool" where
  "hash_part_ok s = (\<lambda>(p, key). 0 \<le> p \<and> nat p < length (buckets s))"

definition hash_rel :: "IndexHash \<Rightarrow> (int \<times> idx_key_t) index_spec \<Rightarrow> bool" where
  "hash_rel s m \<longleftrightarrow> hash_wf s \<and>
     (\<forall>k. if hash_part_ok s k then
            (case node_tab (hash_nodes k s) (snd k) of
               None \<Rightarrow> m k = None
             | Some q \<Rightarrow> (\<exists>is. m k = Some is \<and> is \<noteq> [] \<and> chain (ih_next s) q is))
          else m k = None)"

definition hash_blank :: "IndexHash \<Rightarrow> item_ptr \<Rightarrow> bool" where
  "hash_blank s i \<longleftrightarrow> ih_next s i = None"

text \<open>The operations at the types of the interface.\<close>

definition hash_insert_at :: "int \<times> idx_key_t \<Rightarrow> item_ptr \<Rightarrow> IndexHash \<Rightarrow> fault + (RC \<times> IndexHash)" where
  "hash_insert_at = (\<lambda>(p, key) item s. hash_insert key item p s)"

definition hash_read_at :: "int \<times> idx_key_t \<Rightarrow> IndexHash \<Rightarrow> fault + (RC \<times> item_ptr)" where
  "hash_read_at = (\<lambda>(p, key) s. bindE (hash_read key p s) (\<lambda>(rc, q). case q of None \<Rightarrow> Inl Null_deref | Some i \<Rightarrow> Inr (rc, i)))"

subsection \<open>Correctness\<close>

lemma ball_list_update: "\<forall>x\<in>set xs. P x \<Longrightarrow> P y \<Longrightarrow> \<forall>x\<in>set (xs[i := y]). P x"
  using set_update_subset_insert [of xs i y] by blast

lemma insert_item_spec:
  "insert_item key item ns nx = (ns', nx') \<Longrightarrow>
     node_tab ns' = (node_tab ns)(key \<mapsto> Some item) \<and>
     nx' = (case node_tab ns key of None \<Rightarrow> nx | Some q \<Rightarrow> nx(item := q))"
proof (induction ns arbitrary: ns' nx')
  case (Cons n ns)
  show ?case
  proof (cases "bn_key n = key")
    case False
    obtain ns1 nx1 where "insert_item key item ns nx = (ns1, nx1)" by (metis surj_pair)
    with Cons.IH [OF this] Cons.prems False show ?thesis by (auto simp: fun_eq_iff)
  qed (use Cons.prems in \<open>auto simp: fun_eq_iff\<close>)
qed (auto simp: BucketNode_init_def fun_eq_iff)

lemma read_item_spec: "read_item key ns = (case node_tab ns key of None \<Rightarrow> Inl Null_deref | Some q \<Rightarrow> Inr q)"
  by (induction ns) auto

lemma get_bucket_ok:
  assumes "hash_wf s" "hash_part_ok s (p, key)"
  shows "get_bucket key p s = Inr (nat p, unat (key mod bucket_cnt_per_part s))"
    "unat (key mod bucket_cnt_per_part s) < length (buckets s ! nat p)"
    "\<not> bh_locked (buckets s ! nat p ! unat (key mod bucket_cnt_per_part s))"
proof -
  have "0 < bucket_cnt_per_part s" using assms(1) by (simp add: hash_wf_def word_gt_0)
  then have lt: "key mod bucket_cnt_per_part s < bucket_cnt_per_part s" by (rule word_mod_less_divisor)
  have bs: "buckets s ! nat p \<in> set (buckets s)" using assms(2) by (simp add: hash_part_ok_def)
  then have len: "length (buckets s ! nat p) = unat (bucket_cnt_per_part s)" using assms(1) by (simp add: hash_wf_def)
  show 2: "unat (key mod bucket_cnt_per_part s) < length (buckets s ! nat p)" using lt len by (simp add: word_less_nat_alt)
  then show "get_bucket key p s = Inr (nat p, unat (key mod bucket_cnt_per_part s))"
    using assms lt by (simp add: get_bucket_def hash_def hash_wf_def hash_part_ok_def)
  show "\<not> bh_locked (buckets s ! nat p ! unat (key mod bucket_cnt_per_part s))"
    using 2 bs assms(1) by (simp add: hash_wf_def)
qed

lemma hash_insert_run:
  assumes "hash_wf s" "hash_part_ok s (p, key)"
    and "insert_item key i (hash_nodes (p, key) s) (ih_next s) = (ns, nx)"
  shows "\<exists>s'. hash_insert key i p s = Inr (RCOK, s') \<and> hash_wf s' \<and> ih_next s' = nx \<and>
     hash_part_ok s' = hash_part_ok s \<and>
     (\<forall>k. hash_part_ok s k \<longrightarrow> hash_nodes k s' =
        (if nat (fst k) = nat p \<and> snd k mod bucket_cnt_per_part s = key mod bucket_cnt_per_part s then ns else hash_nodes k s))"
proof -
  let ?b = "unat (key mod bucket_cnt_per_part s)" and ?B = "buckets s ! nat p"
  note gb = get_bucket_ok [OF assms(1,2)]
  let ?bkt = "(?B ! ?b)\<lparr>first_node := ns, bh_locked := False\<rparr>"
  let ?s = "s\<lparr>buckets := (buckets s)[nat p := ?B[?b := ?bkt]], ih_next := nx\<rparr>"
  have "hash_insert key i p s = Inr (RCOK, ?s)"
    using gb assms(3) by (simp add: hash_insert_def get_latch_def release_latch_def hash_nodes_def)
  moreover have "hash_wf ?s"
  proof -
    have "?B \<in> set (buckets s)" using assms(2) by (simp add: hash_part_ok_def)
    then have B: "length ?B = unat (bucket_cnt_per_part s)" "\<forall>b\<in>set ?B. \<not> bh_locked b"
      using assms(1) by (simp_all add: hash_wf_def)
    have "\<forall>b\<in>set (?B[?b := ?bkt]). \<not> bh_locked b" using B(2) by (rule ball_list_update) simp
    then have "\<forall>bs\<in>set ((buckets s)[nat p := ?B[?b := ?bkt]]). length bs = unat (bucket_cnt_per_part s) \<and> (\<forall>b\<in>set bs. \<not> bh_locked b)"
      using assms(1) B(1) by (intro ball_list_update) (simp_all add: hash_wf_def)
    then show ?thesis using assms(1) by (simp add: hash_wf_def)
  qed
  moreover have "hash_part_ok ?s = hash_part_ok s" by (simp add: hash_part_ok_def fun_eq_iff)
  moreover have "hash_nodes k ?s =
        (if nat (fst k) = nat p \<and> snd k mod bucket_cnt_per_part s = key mod bucket_cnt_per_part s then ns else hash_nodes k s)"
    if "hash_part_ok s k" for k
    using that gb(2) assms(2) by (auto simp: hash_nodes_def hash_part_ok_def nth_list_update word_unat_eq_iff split: prod.splits)
  ultimately show ?thesis by (intro exI [of _ ?s]) simp
qed

lemma hash_relD:
  "hash_rel s m \<Longrightarrow> if hash_part_ok s k then (case node_tab (hash_nodes k s) (snd k) of None \<Rightarrow> m k = None
      | Some q \<Rightarrow> (\<exists>is. m k = Some is \<and> is \<noteq> [] \<and> chain (ih_next s) q is)) else m k = None"
  unfolding hash_rel_def by blast

lemma hash_insert_law:
  assumes rel: "hash_rel s m" and ok: "hash_part_ok s k" and bl: "hash_blank s i" and fr: "i \<notin> items_of m"
  shows "\<exists>s'. hash_insert_at k i s = Inr (RCOK, s') \<and> hash_rel s' (push_item k i m) \<and>
     hash_part_ok s' = hash_part_ok s \<and> (\<forall>j. j \<noteq> i \<longrightarrow> hash_blank s' j = hash_blank s j)"
proof -
  obtain p key where k: "k = (p, key)" by (cases k)
  have wf: "hash_wf s" using rel by (simp add: hash_rel_def)
  obtain ns nx where ins: "insert_item key i (hash_nodes (p, key) s) (ih_next s) = (ns, nx)" by (metis surj_pair)
  obtain s' where s': "hash_insert key i p s = Inr (RCOK, s')" "hash_wf s'" "ih_next s' = nx" "hash_part_ok s' = hash_part_ok s"
    and nodes: "\<And>k'. hash_part_ok s k' \<Longrightarrow> hash_nodes k' s' =
        (if nat (fst k') = nat p \<and> snd k' mod bucket_cnt_per_part s = key mod bucket_cnt_per_part s then ns else hash_nodes k' s)"
    using hash_insert_run [OF wf ok [unfolded k] ins] by blast
  have tab: "node_tab (hash_nodes k' s') (snd k') =
      (if k' = k then Some (Some i) else node_tab (hash_nodes k' s) (snd k'))" if "hash_part_ok s k'" for k'
  proof -
    have "nat (fst k') = nat p \<longleftrightarrow> fst k' = p" using that ok k by (auto simp: hash_part_ok_def)
    moreover have "hash_nodes k' s = hash_nodes (p, key) s"
      if "fst k' = p" "snd k' mod bucket_cnt_per_part s = key mod bucket_cnt_per_part s"
      using that by (simp add: hash_nodes_def case_prod_beta)
    ultimately show ?thesis using nodes [OF that] insert_item_spec [OF ins] k by (cases k') auto
  qed
  have nx: "nx = (case node_tab (hash_nodes k s) (snd k) of None \<Rightarrow> ih_next s | Some q \<Rightarrow> (ih_next s)(i := q))"
    using insert_item_spec [OF ins] k by simp
  note R = hash_relD [OF rel]
  have keep: "chain nx q is = chain (ih_next s) q is" if "m k' = Some is" for k' q "is"
  proof -
    have "i \<notin> set is" using fr that items_of_iff by blast
    then show ?thesis by (auto simp: nx split: option.split)
  qed
  have new: "\<exists>is. push_item k i m k = Some is \<and> is \<noteq> [] \<and> chain nx (Some i) is"
  proof (cases "node_tab (hash_nodes k s) (snd k)")
    case None
    then show ?thesis using R [of k] ok bl by (simp add: push_item_apply nx hash_blank_def)
  next
    case (Some q)
    then obtain "is" where "m k = Some is" "chain (ih_next s) q is" using R [of k] ok by auto
    moreover have "i \<notin> set is" using fr calculation(1) items_of_iff by blast
    ultimately show ?thesis using Some by (simp add: push_item_apply nx)
  qed
  have "hash_rel s' (push_item k i m)"
    unfolding hash_rel_def s'(3,4)
  proof (intro conjI allI)
    fix k'
    show "if hash_part_ok s k' then (case node_tab (hash_nodes k' s') (snd k') of None \<Rightarrow> push_item k i m k' = None
      | Some q \<Rightarrow> (\<exists>is. push_item k i m k' = Some is \<and> is \<noteq> [] \<and> chain nx q is)) else push_item k i m k' = None"
    proof (cases "k' = k")
      case True
      then show ?thesis using new ok tab [of k] by simp
    next
      case False
      then have "push_item k i m k' = m k'" by (simp add: push_item_apply)
      then show ?thesis using False R [of k'] tab [of k'] keep [of k'] by (auto split: option.splits)
    qed
  qed (rule s'(2))
  moreover have "\<forall>j. j \<noteq> i \<longrightarrow> hash_blank s' j = hash_blank s j" by (simp add: hash_blank_def s'(3) nx split: option.split)
  ultimately show ?thesis using s'(1,4) k by (auto simp: hash_insert_at_def)
qed

lemma hash_read_run:
  assumes "hash_rel s m" "hash_part_ok s k"
  shows "hash_read (snd k) (fst k) s = (case m k of None \<Rightarrow> Inl Null_deref | Some is \<Rightarrow> Inr (RCOK, Some (hd is)))"
proof -
  obtain p key where k: "k = (p, key)" by (cases k)
  have wf: "hash_wf s" using assms(1) by (simp add: hash_rel_def)
  have "hash_read key p s = bindE (read_item key (hash_nodes k s)) (\<lambda>item. Inr (RCOK, item))"
    using get_bucket_ok(1) [OF wf assms(2) [unfolded k]] by (simp add: hash_read_def hash_nodes_def k)
  moreover have "case node_tab (hash_nodes k s) key of None \<Rightarrow> m k = None
      | Some q \<Rightarrow> (\<exists>is. m k = Some is \<and> is \<noteq> [] \<and> chain (ih_next s) q is)"
    using hash_relD [OF assms(1), of k] assms(2) k by simp
  ultimately show ?thesis
    by (auto simp: k read_item_spec neq_Nil_conv split: option.splits)
qed

interpretation hash_index: index hash_rel hash_blank hash_part_ok hash_insert_at hash_read_at
proof
  show "\<exists>s'. hash_insert_at k i s = Inr (RCOK, s') \<and> hash_rel s' (push_item k i m) \<and>
       hash_part_ok s' = hash_part_ok s \<and> (\<forall>j. j \<noteq> i \<longrightarrow> hash_blank s' j = hash_blank s j)"
    if "hash_rel s m" "hash_part_ok s k" "hash_blank s i" "i \<notin> items_of m" for s m k i
    using that by (rule hash_insert_law)
  show "hash_read_at k s = Inr (RCOK, i)" if "hash_rel s m" "hash_part_ok s k" "m k = Some (i # is)" for s m k i "is"
    using hash_read_run [OF that(1,2)] that(3) by (simp add: hash_read_at_def case_prod_beta)
qed

lemma IndexHash_init_eq:
  "IndexHash_init cnt n nx = Inr s \<longleftrightarrow> n \<noteq> 0 \<and> unat (cnt div word_of_nat n) \<le> 2 ^ 32 - 1 \<and>
     s = \<lparr>buckets = replicate n (replicate (unat (cnt div word_of_nat n)) BucketHeader_init), bucket_cnt = cnt,
          bucket_cnt_per_part = cnt div word_of_nat n, ih_next = nx\<rparr>"
  by (auto simp: IndexHash_init_def Let_def)

lemma hash_init_rel:
  assumes "IndexHash_init cnt n nx = Inr s" "word_of_nat n \<le> cnt" "n < 2 ^ 31"
  shows "hash_rel s Map.empty"
proof -
  have n: "n \<noteq> 0" and s: "s = \<lparr>buckets = replicate n (replicate (unat (cnt div word_of_nat n)) BucketHeader_init),
      bucket_cnt = cnt, bucket_cnt_per_part = cnt div word_of_nat n, ih_next = nx\<rparr>"
    using assms(1) unfolding IndexHash_init_eq by blast+
  have "unat (word_of_nat n :: 64 word) = n" using assms(3) by (simp add: unat_of_nat)
  then have "unat (cnt div word_of_nat n) \<noteq> 0"
    using n assms(2) by (simp add: unat_div div_greater_zero_iff word_le_nat_alt)
  then have per: "cnt div word_of_nat n \<noteq> 0" by auto
  have wf: "hash_wf s" using per by (simp add: hash_wf_def s BucketHeader_init_def)
  moreover have "hash_nodes k s = []" if "hash_part_ok s k" for k
  proof -
    have "unat (snd k mod bucket_cnt_per_part s) < length (buckets s ! nat (fst k))"
      using get_bucket_ok(2) [OF wf, of "fst k" "snd k"] that by simp
    then show ?thesis using that by (auto simp: hash_nodes_def hash_part_ok_def s BucketHeader_init_def case_prod_beta)
  qed
  ultimately show ?thesis by (simp add: hash_rel_def)
qed

text \<open>C31: The hash index implements the index contract. An insert under a key of an existing partition makes the item the
  first of the key's items and keeps the others behind it and every other key as it was; a read of a key with items
  returns the newest one; a read of a key without items reads through a null pointer (there is no error result).\<close>

theorem hash_index_refines:
  assumes "hash_rel s m" "hash_part_ok s (p, key)" "hash_blank s i" "i \<notin> items_of m"
  shows "hash_read key p s = (case m (p, key) of None \<Rightarrow> Inl Null_deref | Some is \<Rightarrow> Inr (RCOK, Some (hd is))) \<and>
    (\<exists>s'. hash_insert key i p s = Inr (RCOK, s') \<and> hash_rel s' (push_item (p, key) i m) \<and>
        hash_read key p s' = Inr (RCOK, Some i))"
proof
  show "hash_read key p s = (case m (p, key) of None \<Rightarrow> Inl Null_deref | Some is \<Rightarrow> Inr (RCOK, Some (hd is)))"
    using hash_read_run [OF assms(1,2)] by simp
  obtain s' where s': "hash_insert_at (p, key) i s = Inr (RCOK, s')" "hash_rel s' (push_item (p, key) i m)" "hash_part_ok s' = hash_part_ok s"
    using hash_index.insert_law [OF assms] by blast
  have "hash_part_ok s' (p, key)" using s'(3) assms(2) by simp
  from hash_read_run [OF s'(2) this] s'(1,2)
  show "\<exists>s'. hash_insert key i p s = Inr (RCOK, s') \<and> hash_rel s' (push_item (p, key) i m) \<and>
        hash_read key p s' = Inr (RCOK, Some i)"
    by (simp add: hash_insert_at_def push_item_apply)
qed

definition hash_demo :: IndexHash where
  "hash_demo = \<lparr>buckets = replicate 2 (replicate 4 BucketHeader_init), bucket_cnt = 8, bucket_cnt_per_part = 4,
     ih_next = (\<lambda>_. None)\<rparr>"

lemma hash_demo_init: "IndexHash_init 8 2 (\<lambda>_. None) = Inr hash_demo"
  by (simp add: IndexHash_init_def hash_demo_def)

lemma hash_index_refines_witness:
  "\<exists>s'. hash_insert 9 7 1 hash_demo = Inr (RCOK, s') \<and> hash_read 9 1 s' = Inr (RCOK, Some 7)"
proof -
  have "hash_rel hash_demo Map.empty" by (rule hash_init_rel [OF hash_demo_init]) simp_all
  from hash_index_refines [OF this, of 1 9 7] show ?thesis
    by (auto simp: hash_part_ok_def hash_blank_def hash_demo_def items_of_def)
qed

text \<open>After the index of a table has been loaded, every key that was inserted reads as the last item inserted under it,
  whatever the number of partitions and buckets.\<close>

theorem hash_index_load:
  assumes "IndexHash_init cnt n nx = Inr s" "word_of_nat n \<le> cnt" "n < 2 ^ 31"
    "\<forall>((p, key), i)\<in>set xs. 0 \<le> p \<and> nat p < n \<and> nx i = None" "distinct (map snd xs)" "k \<in> fst ` set xs"
  shows "\<exists>s'. load_index hash_insert_at xs s = Inr s' \<and> hash_read (snd k) (fst k) s' = Inr (RCOK, Some (hd (loaded k xs)))"
proof -
  have rel: "hash_rel s Map.empty" by (rule hash_init_rel [OF assms(1-3)])
  have "\<forall>(k, i)\<in>set xs. hash_part_ok s k \<and> hash_blank s i"
  proof (clarify, rename_tac p key i)
    fix p key i assume "((p, key), i) \<in> set xs"
    then have "0 \<le> p \<and> nat p < n \<and> nx i = None" using assms(4) by blast
    then show "hash_part_ok s (p, key) \<and> hash_blank s i"
      using assms(1) by (simp add: IndexHash_init_eq hash_part_ok_def hash_blank_def)
  qed
  from hash_index.load_read [OF rel this assms(5,6)]
  obtain s' where s': "load_index hash_insert_at xs s = Inr s'" "hash_read_at k s' = Inr (RCOK, hd (loaded k xs))" by blast
  then show ?thesis by (auto simp: hash_read_at_def case_prod_beta bindE_eq_Inr split: option.splits)
qed

lemma hash_index_load_witness:
  "\<exists>s'. load_index hash_insert_at [((0, 5), 10), ((1, 5), 11), ((0, 9), 12), ((0, 5), 13)] hash_demo = Inr s' \<and>
     hash_read 5 0 s' = Inr (RCOK, Some 13)"
  using hash_index_load [OF hash_demo_init, of "[((0, 5), 10), ((1, 5), 11), ((0, 9), 12), ((0, 5), 13)]" "(0, 5)"]
  by simp

end
