(* ===== verification/Bskip_node.thy ===== *)
theory Bskip_node
  imports Index_base
begin

text \<open>
  The nodes of the blocked skip list, \<^verbatim>\<open>RW_bskiplist/include\<close> and the fragments \<^verbatim>\<open>InternalNode.cpp\<close>,
  \<^verbatim>\<open>LeafNode.cpp\<close>. A node keeps a block of sorted keys, with a value (leaf) or a child (internal) each.
  The arrays of \<^verbatim>\<open>MAX_KEYS\<close> slots are lists of the slots in use, so \<^verbatim>\<open>num_elts\<close> is the length of the keys, and a
  read outside the used slots is a fault. These files are compiled with \<^verbatim>\<open>NDEBUG\<close>: their assertions
  are not part of the code. Reader-writer locks are left out; each operation is one step.
\<close>

subsection \<open>State\<close>

record bs_node =
  bn_leaf :: bool
  bn_level :: nat
  bn_next :: "nat option"
  next_header :: "64 word"
  bs_keys :: "64 word list"
  bs_vals :: "item_ptr option list"
  bs_children :: "nat list"

abbreviation num_elts :: "bs_node \<Rightarrow> nat" where
  "num_elts n \<equiv> length (bs_keys n)"

definition min_sentinel :: "64 word" where "min_sentinel = 0"

definition max_sentinel :: "64 word" where "max_sentinel = UINT64_MAX"

text \<open>The level of a new node is \<open>-1\<close> in a \<^verbatim>\<open>uint32_t\<close> until it is linked.\<close>

definition BSkipNodeInternal :: bs_node where
  "BSkipNodeInternal = \<lparr>bn_leaf = False, bn_level = 2 ^ 32 - 1, bn_next = None, next_header = max_sentinel,
     bs_keys = [], bs_vals = [], bs_children = []\<rparr>"

definition BSkipNodeLeaf :: bs_node where
  "BSkipNodeLeaf = BSkipNodeInternal\<lparr>bn_leaf := True\<rparr>"

subsection \<open>Access by rank\<close>

definition get_key_at_rank :: "nat \<Rightarrow> bs_node \<Rightarrow> fault + 64 word" where
  "get_key_at_rank r n = (if r < num_elts n then Inr (bs_keys n ! r) else Inl Out_of_bounds)"

definition get_header :: "bs_node \<Rightarrow> fault + 64 word" where
  "get_header n = get_key_at_rank 0 n"

definition get_value_at_rank :: "nat \<Rightarrow> bs_node \<Rightarrow> fault + item_ptr option" where
  "get_value_at_rank r n = (if r < length (bs_vals n) then Inr (bs_vals n ! r) else Inl Out_of_bounds)"

definition get_child_at_rank :: "nat \<Rightarrow> bs_node \<Rightarrow> fault + nat" where
  "get_child_at_rank r n = (if r < length (bs_children n) then Inr (bs_children n ! r) else Inl Out_of_bounds)"

definition set_elt_at_rank :: "nat \<Rightarrow> 64 word \<times> item_ptr option \<Rightarrow> bs_node \<Rightarrow> bs_node" where
  "set_elt_at_rank r e n = n\<lparr>bs_keys := (bs_keys n)[r := fst e], bs_vals := (bs_vals n)[r := snd e]\<rparr>"

subsection \<open>Moving elements\<close>

text \<open>Shifting the slots from a rank on by one, and writing the free slot; the callers count the element.\<close>

definition insert_nth :: "nat \<Rightarrow> 'a \<Rightarrow> 'a list \<Rightarrow> 'a list" where
  "insert_nth r x xs = take r xs @ x # drop r xs"

definition delete_nth :: "nat \<Rightarrow> 'a list \<Rightarrow> 'a list" where
  "delete_nth r xs = take r xs @ drop (Suc r) xs"

definition insert_key_at_rank :: "nat \<Rightarrow> 64 word \<Rightarrow> bs_node \<Rightarrow> bs_node" where
  "insert_key_at_rank r k n = n\<lparr>bs_keys := insert_nth r k (bs_keys n)\<rparr>"

definition insert_child_at_rank :: "nat \<Rightarrow> nat \<Rightarrow> bs_node \<Rightarrow> bs_node" where
  "insert_child_at_rank r c n = n\<lparr>bs_children := insert_nth r c (bs_children n)\<rparr>"

definition insert_elt_at_rank :: "nat \<Rightarrow> 64 word \<times> item_ptr option \<Rightarrow> bs_node \<Rightarrow> bs_node" where
  "insert_elt_at_rank r e n =
     n\<lparr>bs_keys := insert_nth r (fst e) (bs_keys n), bs_vals := insert_nth r (snd e) (bs_vals n)\<rparr>"

definition internal_delete_key_at_rank :: "nat \<Rightarrow> bs_node \<Rightarrow> bs_node" where
  "internal_delete_key_at_rank r n = n\<lparr>bs_keys := delete_nth r (bs_keys n)\<rparr>"

definition delete_child_at_rank :: "nat \<Rightarrow> bs_node \<Rightarrow> bs_node" where
  "delete_child_at_rank r n = n\<lparr>bs_children := delete_nth r (bs_children n)\<rparr>"

definition leaf_delete_key_at_rank :: "nat \<Rightarrow> bs_node \<Rightarrow> bs_node" where
  "leaf_delete_key_at_rank r n = n\<lparr>bs_keys := delete_nth r (bs_keys n), bs_vals := delete_nth r (bs_vals n)\<rparr>"

text \<open>Splitting moves the elements from a rank on behind the first \<open>d\<close> of another node; the slots they leave
  are no longer in use. An internal node moves its children in a second call.\<close>

definition internal_split_keys :: "nat \<Rightarrow> nat \<Rightarrow> bs_node \<Rightarrow> bs_node \<Rightarrow> bs_node \<times> bs_node" where
  "internal_split_keys r d n m =
     (n\<lparr>bs_keys := take r (bs_keys n)\<rparr>, m\<lparr>bs_keys := take d (bs_keys m) @ drop r (bs_keys n)\<rparr>)"

definition leaf_split_keys :: "nat \<Rightarrow> nat \<Rightarrow> bs_node \<Rightarrow> bs_node \<Rightarrow> bs_node \<times> bs_node" where
  "leaf_split_keys r d n m =
     (n\<lparr>bs_keys := take r (bs_keys n), bs_vals := take r (bs_vals n)\<rparr>,
      m\<lparr>bs_keys := take d (bs_keys m) @ drop r (bs_keys n), bs_vals := take d (bs_vals m) @ drop r (bs_vals n)\<rparr>)"

definition move_children :: "nat \<Rightarrow> nat \<Rightarrow> nat \<Rightarrow> bs_node \<Rightarrow> bs_node \<Rightarrow> bs_node \<times> bs_node" where
  "move_children r cnt d n m =
     (n\<lparr>bs_children := take r (bs_children n)\<rparr>,
      m\<lparr>bs_children := take d (bs_children m) @ take cnt (drop r (bs_children n))\<rparr>)"

subsection \<open>Search in a node\<close>

text \<open>The loops count the leading keys that are at most \<open>k\<close> (internal) or less than \<open>k\<close> (leaf).\<close>

fun count_while :: "('a \<Rightarrow> bool) \<Rightarrow> 'a list \<Rightarrow> nat" where
  "count_while P [] = 0"
| "count_while P (x # xs) = (if P x then Suc (count_while P xs) else 0)"

definition internal_find :: "64 word \<Rightarrow> bs_node \<Rightarrow> fault + (nat \<times> bool)" where
  "internal_find k n =
     (let i = count_while (\<lambda>x. x \<le> k) (bs_keys n); r = i - 1 in
      bindE (get_key_at_rank r n) (\<lambda>x. Inr (r, x = k)))"

text \<open>The result of \<open>find_index_linear\<close> wraps around when the first key is greater than \<open>k\<close>.\<close>

definition find_index_linear :: "64 word \<Rightarrow> 64 word list \<Rightarrow> nat" where
  "find_index_linear k ks =
     (let i = count_while (\<lambda>x. x < k) ks in
      if i < length ks \<and> ks ! i = k then i else if i = 0 then 2 ^ 32 - 1 else i - 1)"

definition leaf_find :: "64 word \<Rightarrow> bs_node \<Rightarrow> fault + (nat \<times> bool)" where
  "leaf_find k n = (let r = find_index_linear k (bs_keys n) in bindE (get_key_at_rank r n) (\<lambda>x. Inr (r, x = k)))"

definition find_key_and_check :: "64 word \<Rightarrow> bs_node \<Rightarrow> fault + (nat \<times> bool)" where
  "find_key_and_check k n = (if bn_leaf n then leaf_find k n else internal_find k n)"

text \<open>The binary search the code keeps beside the linear one.\<close>

function find_index_loop :: "64 word \<Rightarrow> 64 word list \<Rightarrow> nat \<Rightarrow> nat \<Rightarrow> nat" where
  "find_index_loop k ks left right =
     (if left \<le> right then
        let mid = left + (right - left) div 2 in
        if ks ! mid = k then mid
        else if ks ! mid < k then find_index_loop k ks (mid + 1) right
        else if mid = 0 then left
        else find_index_loop k ks left (mid - 1)
      else left)"
  by pat_completeness auto

termination
  by (relation "measure (\<lambda>(k, ks, left, right). Suc right - left)") auto

definition find_index_binary :: "64 word \<Rightarrow> 64 word list \<Rightarrow> nat" where
  "find_index_binary k ks =
     (let left = find_index_loop k ks 0 (length ks - 1) in
      if left = length ks \<or> ks ! left > k then (if left = 0 then 2 ^ 32 - 1 else left - 1) else left)"

subsection \<open>Facts\<close>

declare find_index_loop.simps [simp del]

lemma count_while_le: "count_while P xs \<le> length xs"
  by (induction xs) auto

lemma count_while_true: "i < count_while P xs \<Longrightarrow> P (xs ! i)"
proof (induction xs arbitrary: i)
  case (Cons x xs)
  then show ?case by (cases i) (auto split: if_splits)
qed simp

lemma count_while_false: "count_while P xs < length xs \<Longrightarrow> \<not> P (xs ! count_while P xs)"
  by (induction xs) auto

lemma length_insert_nth [simp]: "r \<le> length xs \<Longrightarrow> length (insert_nth r x xs) = Suc (length xs)"
  by (simp add: insert_nth_def)

lemma set_insert_nth [simp]: "set (insert_nth r x xs) = insert x (set xs)"
  using set_append [of "take r xs" "drop r xs"] by (simp add: insert_nth_def)

lemma length_delete_nth [simp]: "r < length xs \<Longrightarrow> length (delete_nth r xs) = length xs - 1"
  by (simp add: delete_nth_def)

text \<open>In a strictly sorted array that starts at most at \<open>k\<close> the linear search finds the last key that is at most \<open>k\<close>.\<close>

definition rank_of :: "64 word \<Rightarrow> 64 word list \<Rightarrow> nat \<Rightarrow> bool" where
  "rank_of k ks r \<longleftrightarrow> r < length ks \<and> ks ! r \<le> k \<and> (\<forall>j<length ks. r < j \<longrightarrow> k < ks ! j)"

lemma rank_of_unique:
  assumes "rank_of k ks r" "rank_of k ks r'"
  shows "r = r'"
proof (rule ccontr)
  assume "r \<noteq> r'"
  then show False using assms by (auto simp: rank_of_def not_less dest: leD elim!: linorder_neqE_nat)
qed

lemma rank_of_linear:
  assumes "sorted_wrt (<) ks" "ks \<noteq> []" "hd ks \<le> k"
  shows "rank_of k ks (find_index_linear k ks)"
proof -
  let ?i = "count_while (\<lambda>x. x < k) ks"
  have i: "?i \<le> length ks" by (rule count_while_le)
  note s = sorted_wrt_nth_less [OF assms(1)]
  show ?thesis
  proof (cases "?i < length ks \<and> ks ! ?i = k")
    case True
    then show ?thesis using s [of ?i] by (auto simp: find_index_linear_def rank_of_def Let_def)
  next
    case False
    have lt: "k < ks ! j" if "?i \<le> j" "j < length ks" for j
    proof -
      have "k < ks ! ?i" using False that count_while_false [of "\<lambda>x. x < k" ks] by (auto simp: not_less)
      then show ?thesis using s [of ?i j] that by (cases "j = ?i") auto
    qed
    have "?i \<noteq> 0" using lt [of 0] assms(2,3) by (auto simp: hd_conv_nth leD)
    then have "ks ! (?i - 1) < k" using count_while_true [of "?i - 1" "\<lambda>x. x < k" ks] by simp
    then show ?thesis using \<open>?i \<noteq> 0\<close> i lt False by (auto simp: find_index_linear_def rank_of_def Let_def)
  qed
qed

lemma rank_of_count_le:
  assumes "sorted_wrt (<) ks" "ks \<noteq> []" "hd ks \<le> k"
  shows "rank_of k ks (count_while (\<lambda>x. x \<le> k) ks - 1)"
proof -
  let ?i = "count_while (\<lambda>x. x \<le> k) ks"
  have i: "?i \<le> length ks" by (rule count_while_le)
  note s = sorted_wrt_nth_less [OF assms(1)]
  have "?i \<noteq> 0" using assms(2,3) by (cases ks) auto
  then have "ks ! (?i - 1) \<le> k" using count_while_true [of "?i - 1" "\<lambda>x. x \<le> k" ks] by simp
  moreover have "k < ks ! j" if "?i \<le> j" "j < length ks" for j
  proof -
    have "k < ks ! ?i" using that count_while_false [of "\<lambda>x. x \<le> k" ks] by (auto simp: not_le)
    then show ?thesis using s [of ?i j] that by (cases "j = ?i") auto
  qed
  ultimately show ?thesis using \<open>?i \<noteq> 0\<close> i by (auto simp: rank_of_def)
qed

text \<open>Both searches of a node agree on well-formed nodes.\<close>

lemma find_key_and_check_ok:
  assumes "sorted_wrt (<) (bs_keys n)" "bs_keys n \<noteq> []" "hd (bs_keys n) \<le> k"
  shows "\<exists>r. rank_of k (bs_keys n) r \<and> find_key_and_check k n = Inr (r, bs_keys n ! r = k)"
  using rank_of_linear [OF assms] rank_of_count_le [OF assms]
  by (auto simp: find_key_and_check_def leaf_find_def internal_find_def get_key_at_rank_def rank_of_def Let_def)

lemma rank_of_mem:
  assumes "sorted_wrt (<) ks" "rank_of k ks r"
  shows "ks ! r = k \<longleftrightarrow> k \<in> set ks"
proof
  assume "k \<in> set ks"
  then obtain j where j: "j < length ks" "ks ! j = k" by (auto simp: in_set_conv_nth)
  have "\<not> r < j" using assms(2) j by (auto simp: rank_of_def)
  moreover have "\<not> j < r" using sorted_wrt_nth_less [OF assms(1), of j r] assms(2) j by (auto simp: rank_of_def)
  ultimately show "ks ! r = k" using j by (simp add: not_less)
qed (use assms(2) in \<open>auto simp: rank_of_def\<close>)

lemma find_index_loop_ok:
  assumes "sorted_wrt (<) ks" "ks \<noteq> []" "hd ks \<le> k" "left \<le> right + 1" "right < length ks"
    and "\<forall>j<left. ks ! j < k" "\<forall>j<length ks. right < j \<longrightarrow> k < ks ! j"
  shows "let l = find_index_loop k ks left right in l \<le> length ks \<and> (\<forall>j<l. ks ! j < k) \<and>
     (l < length ks \<longrightarrow> ks ! l = k \<or> (\<forall>j<length ks. l \<le> j \<longrightarrow> k < ks ! j))"
  using assms
proof (induction k ks left right rule: find_index_loop.induct)
  case (1 k ks left right)
  note s = sorted_wrt_nth_less [OF 1(3)]
  define m where "m = left + (right - left) div 2"
  have step: "find_index_loop k ks left right = (if left \<le> right then if ks ! m = k then m
      else if ks ! m < k then find_index_loop k ks (m + 1) right
      else if m = 0 then left else find_index_loop k ks left (m - 1) else left)"
    by (subst find_index_loop.simps) (simp only: m_def Let_def)
  note IH = 1(1,2) [folded m_def, OF _ refl]
  show ?case
  proof (cases "left \<le> right")
    case True
    then have mid: "left \<le> m" "m \<le> right" "m < length ks" using 1(7) by (auto simp: m_def)
    show ?thesis
    proof (cases rule: linorder_cases [of "ks ! m" k])
      case less
      then have "\<forall>j<m + 1. ks ! j < k" using s [of _ m] mid(3)
        by (metis Suc_eq_plus1 less_SucE less_trans)
      moreover have "ks ! m \<noteq> k" "m + 1 \<le> right + 1" using less mid by simp_all
      ultimately show ?thesis
        unfolding step using IH(1) [OF True _ less 1(3-5) _ 1(7) _ 1(9)] less True by simp
    next
      case equal
      have "\<forall>j<m. ks ! j < k" using s [of _ m] mid(3) equal by auto
      then show ?thesis unfolding step using equal True mid by (simp add: Let_def)
    next
      case greater
      then have gt: "\<forall>j<length ks. m \<le> j \<longrightarrow> k < ks ! j" using s [of m] by (metis le_neq_implies_less less_trans)
      have "m \<noteq> 0" using gt 1(4,5) by (auto simp: hd_conv_nth leD)
      then have "\<forall>j<length ks. m - 1 < j \<longrightarrow> k < ks ! j" using gt by auto
      moreover have "left \<le> m - 1 + 1" "m - 1 < length ks" "ks ! m \<noteq> k" "\<not> ks ! m < k"
        using mid \<open>m \<noteq> 0\<close> greater by auto
      ultimately show ?thesis unfolding step using IH(2) [OF True _ _ _ 1(3-5) _ _ 1(8)] True \<open>m \<noteq> 0\<close> by simp
    qed
  next
    case False
    then have "left = right + 1" using 1(6) by simp
    then show ?thesis unfolding step using 1(7-9) by (auto simp: Let_def)
  qed
qed

text \<open>On every strictly sorted block whose first key is at most \<open>k\<close>, the binary search of the leaf and the linear
  search the operations use return the same rank, that of the greatest key that is at most \<open>k\<close>.\<close>

theorem find_index_binary_linear:
  assumes "sorted_wrt (<) ks" "ks \<noteq> []" "hd ks \<le> k"
  shows "find_index_binary k ks = find_index_linear k ks \<and> rank_of k ks (find_index_binary k ks)"
proof -
  let ?l = "find_index_loop k ks 0 (length ks - 1)"
  have "\<forall>j<length ks. length ks - 1 < j \<longrightarrow> k < ks ! j" by auto
  then have l: "?l \<le> length ks" "\<forall>j<?l. ks ! j < k" "?l < length ks \<longrightarrow> ks ! ?l = k \<or> (\<forall>j<length ks. ?l \<le> j \<longrightarrow> k < ks ! j)"
    using find_index_loop_ok [OF assms, of 0 "length ks - 1"] assms(2) by (simp_all add: Let_def)
  have "rank_of k ks (find_index_binary k ks)"
  proof (cases "?l < length ks \<and> ks ! ?l = k")
    case True
    then show ?thesis using sorted_wrt_nth_less [OF assms(1), of ?l]
      by (auto simp: find_index_binary_def rank_of_def Let_def)
  next
    case False
    then have gt: "\<forall>j<length ks. ?l \<le> j \<longrightarrow> k < ks ! j" using l(1,3) by auto
    then have "?l \<noteq> 0" using assms(2,3) by (auto simp: hd_conv_nth leD)
    moreover have "?l = length ks \<or> ks ! ?l > k" using gt l(1) by (cases "?l = length ks") auto
    ultimately show ?thesis using gt l(1,2) by (auto simp: find_index_binary_def rank_of_def Let_def intro: less_imp_le)
  qed
  then show ?thesis using rank_of_unique [OF _ rank_of_linear [OF assms]] by simp
qed

lemma find_index_binary_linear_witness:
  "find_index_binary 7 [0, 3, 5, 8, 9] = 2 \<and> find_index_linear 7 [0, 3, 5, 8, 9] = 2"
proof -
  have "find_index_linear 7 [0, 3, 5, 8, 9] = 2" by (simp add: find_index_linear_def Let_def)
  then show ?thesis using find_index_binary_linear [of "[0, 3, 5, 8, 9]" 7] by simp
qed

end
