(* ===== verification/Bskip.thy ===== *)
theory Bskip
  imports Bskip_node
begin

text \<open>
  The operations of the blocked skip list, \<^verbatim>\<open>RW_bskiplist/src\<close>, on a heap of nodes. There are
  \<open>MAX_HEIGHT\<close> linked lists of nodes, one per level; every entry of a node above the leaves has a child, the node
  one level below that starts with the same key. A key is on all levels up to the one its hash gives
  (\<open>flip_coins\<close>). The block size \<^verbatim>\<open>traits::MAX_KEYS\<close> and \<^verbatim>\<open>std::hash\<close> are parameters. An insertion
  keeps the nodes of a promoted key in a local array of \<^verbatim>\<open>MAX_KEYS\<close> pointers: a key whose hash promotes it
  further than that is an error of the model.
\<close>

subsection \<open>State\<close>

abbreviation (input) MAX_HEIGHT :: nat where "MAX_HEIGHT \<equiv> 5"

record bskip_traits =
  MAX_KEYS :: nat
  std_hash :: "64 word \<Rightarrow> 64 word"

record bskip =
  bs_heap :: "nat \<Rightarrow> bs_node option"
  next_addr :: nat
  bs_headers :: "nat list"
  bs_item_next :: item_next

type_synonym bs_elt = "64 word \<times> item_ptr option"

text \<open>A pointer to a node that has been freed or never allocated must not be followed.\<close>

definition node_of :: "nat \<Rightarrow> bskip \<Rightarrow> fault + bs_node" where
  "node_of p s = (case bs_heap s p of None \<Rightarrow> Inl Undefined_behaviour | Some n \<Rightarrow> Inr n)"

definition not_null :: "nat option \<Rightarrow> fault + nat" where
  "not_null q = (case q of None \<Rightarrow> Inl Null_deref | Some p \<Rightarrow> Inr p)"

definition put_node :: "nat \<Rightarrow> bs_node \<Rightarrow> bskip \<Rightarrow> bskip" where
  "put_node p n s = s\<lparr>bs_heap := (bs_heap s)(p \<mapsto> n)\<rparr>"

definition free_node :: "nat \<Rightarrow> bskip \<Rightarrow> bskip" where
  "free_node p s = s\<lparr>bs_heap := (bs_heap s)(p := None)\<rparr>"

definition alloc_node :: "bs_node \<Rightarrow> bskip \<Rightarrow> nat \<times> bskip" where
  "alloc_node n s = (next_addr s, s\<lparr>bs_heap := (bs_heap s)(next_addr s \<mapsto> n), next_addr := Suc (next_addr s)\<rparr>)"

fun alloc_nodes :: "bs_node list \<Rightarrow> bskip \<Rightarrow> nat list \<times> bskip" where
  "alloc_nodes [] s = ([], s)"
| "alloc_nodes (n # ns) s =
     (let (p, s1) = alloc_node n s; (ps, s2) = alloc_nodes ns s1 in (p # ps, s2))"

subsection \<open>Construction\<close>

definition end_sentinel :: "nat \<Rightarrow> bs_node" where
  "end_sentinel i =
     (if i > 0 then BSkipNodeInternal\<lparr>bn_level := i, bs_keys := [max_sentinel]\<rparr>
      else BSkipNodeLeaf\<lparr>bn_level := i, bs_keys := [max_sentinel], bs_vals := [None]\<rparr>)"

fun alloc_headers :: "nat list \<Rightarrow> bskip \<Rightarrow> bskip" where
  "alloc_headers [] s = s"
| "alloc_headers (i # is) s =
     (let n = (if i > 0 then BSkipNodeInternal else BSkipNodeLeaf);
          (p, s1) = alloc_node n s; (q, s2) = alloc_node (end_sentinel i) s1
      in alloc_headers is ((put_node p (n\<lparr>bn_next := Some q\<rparr>) s2)\<lparr>bs_headers := bs_headers s2 @ [p]\<rparr>))"

fun set_min_elts :: "nat \<Rightarrow> bskip \<Rightarrow> fault + bskip" where
  "set_min_elts 0 s = Inr s"
| "set_min_elts (Suc i) s =
     bindE (node_of (bs_headers s ! i) s) (\<lambda>n.
     let n1 = n\<lparr>bn_level := i, bs_keys := [min_sentinel]\<rparr>;
         n2 = (if i > 0 then n1\<lparr>bs_children := [bs_headers s ! (i - 1)]\<rparr> else n1\<lparr>bs_vals := [None]\<rparr>)
     in set_min_elts i (put_node (bs_headers s ! i) n2 s))"

definition BSkip_init :: "item_next \<Rightarrow> fault + bskip" where
  "BSkip_init nx = set_min_elts MAX_HEIGHT
     (alloc_headers [0..<MAX_HEIGHT] \<lparr>bs_heap = (\<lambda>_. None), next_addr = 0, bs_headers = [], bs_item_next = nx\<rparr>)"

subsection \<open>Promotion\<close>

definition promotion_prob :: "64 word" where "promotion_prob = 64"

function flip_loop :: "64 word \<Rightarrow> nat \<Rightarrow> nat" where
  "flip_loop h result =
     (if h mod promotion_prob = 0 then
        (if result + 1 > MAX_HEIGHT - 1 then MAX_HEIGHT - 1 else flip_loop (h div promotion_prob) (result + 1))
      else result)"
  by pat_completeness auto

termination
  by (relation "measure (\<lambda>(h, result). MAX_HEIGHT - result)") auto

definition flip_coins :: "bskip_traits \<Rightarrow> 64 word \<Rightarrow> nat" where
  "flip_coins T k = flip_loop (std_hash T k) 0"

text \<open>The block sizes the code works with: room for a split, and for the pointers to the nodes of any promotion.\<close>

definition block_fits :: "bskip_traits \<Rightarrow> bool" where
  "block_fits T \<longleftrightarrow> 2 \<le> MAX_KEYS T \<and> (\<forall>k. flip_coins T k \<le> MAX_KEYS T)"

subsection \<open>Search\<close>

text \<open>The walk along a level, with at most one step per allocated node.\<close>

fun walk_fuel :: "nat \<Rightarrow> 64 word \<Rightarrow> nat \<Rightarrow> bskip \<Rightarrow> fault + nat" where
  "walk_fuel 0 k p s = Inl Spinning"
| "walk_fuel (Suc f) k p s =
     bindE (node_of p s) (\<lambda>n.
     if next_header n \<le> k then bindE (not_null (bn_next n)) (\<lambda>q. walk_fuel f k q s) else Inr p)"

definition walk :: "64 word \<Rightarrow> nat \<Rightarrow> bskip \<Rightarrow> fault + nat" where
  "walk k p s = walk_fuel (Suc (next_addr s)) k p s"

text \<open>From an entry of an internal node down to the leaf that starts with its key.\<close>

fun descend :: "nat \<Rightarrow> nat \<Rightarrow> nat \<Rightarrow> bskip \<Rightarrow> fault + nat" where
  "descend 0 rank p s = Inl Spinning"
| "descend (Suc f) rank p s =
     bindE (node_of p s) (\<lambda>n.
     bindE (get_child_at_rank rank n) (\<lambda>c.
     if bn_level n > 1 then descend f 0 c s else Inr c))"

text \<open>The loops over the levels count down; the argument is one more than the level.\<close>

fun value_from :: "64 word \<Rightarrow> nat \<Rightarrow> nat \<Rightarrow> bskip \<Rightarrow> fault + item_ptr option" where
  "value_from k 0 p s = Inr None"
| "value_from k (Suc level) p s =
     bindE (walk k p s) (\<lambda>curr_node.
     bindE (node_of curr_node s) (\<lambda>n.
     bindE (find_key_and_check k n) (\<lambda>(rank, found_key).
     if found_key then
       (if level = 0 then get_value_at_rank rank n
        else bindE (descend MAX_HEIGHT rank curr_node s) (\<lambda>q. bindE (node_of q s) (get_value_at_rank 0)))
     else if level > 0 then bindE (get_child_at_rank rank n) (\<lambda>c. value_from k level c s)
     else value_from k level curr_node s)))"

definition bs_value :: "64 word \<Rightarrow> bskip \<Rightarrow> fault + item_ptr option" where
  "bs_value k s = value_from k MAX_HEIGHT (bs_headers s ! (MAX_HEIGHT - 1)) s"

fun exists_from :: "64 word \<Rightarrow> nat \<Rightarrow> nat \<Rightarrow> bskip \<Rightarrow> fault + bool" where
  "exists_from k 0 p s = Inr False"
| "exists_from k (Suc level) p s =
     bindE (walk k p s) (\<lambda>curr_node.
     bindE (node_of curr_node s) (\<lambda>n.
     bindE (find_key_and_check k n) (\<lambda>(rank, found_key).
     bindE (get_key_at_rank rank n) (\<lambda>x.
     if x = k then Inr True
     else if level > 0 then bindE (get_child_at_rank rank n) (\<lambda>c. exists_from k level c s)
     else exists_from k level curr_node s))))"

definition bs_exists :: "64 word \<Rightarrow> bskip \<Rightarrow> fault + bool" where
  "bs_exists k s = exists_from k MAX_HEIGHT (bs_headers s ! (MAX_HEIGHT - 1)) s"

subsection \<open>Insertion\<close>

definition dbx1000_chain_onto :: "item_ptr option \<Rightarrow> item_ptr option \<Rightarrow> bskip \<Rightarrow> fault + bskip" where
  "dbx1000_chain_onto old_value new_value s =
     bindE (not_null new_value) (\<lambda>i. Inr (s\<lparr>bs_item_next := (bs_item_next s)(i := old_value)\<rparr>))"

text \<open>The key is there: the new item goes in front of the old ones.\<close>

definition replace_value :: "bs_elt \<Rightarrow> nat \<Rightarrow> nat \<Rightarrow> bskip \<Rightarrow> fault + bskip" where
  "replace_value e p rank s =
     bindE (node_of p s) (\<lambda>n.
     bindE (get_value_at_rank rank n) (\<lambda>old_val.
     bindE (dbx1000_chain_onto old_val (snd e) s) (\<lambda>s1.
     Inr (put_node p (set_elt_at_rank rank e n) s1))))"

definition split_keys :: "nat \<Rightarrow> nat \<Rightarrow> bs_node \<Rightarrow> bs_node \<Rightarrow> bs_node \<times> bs_node" where
  "split_keys r d n m = (if bn_leaf n then leaf_split_keys r d n m else internal_split_keys r d n m)"

definition new_node_at :: "nat list \<Rightarrow> nat \<Rightarrow> fault + nat" where
  "new_node_at new_nodes i = (if i < length new_nodes then Inr (new_nodes ! i) else Inl Out_of_bounds)"

text \<open>Adding the key, with its value or the child it points to, to a node that has room.\<close>

definition add_entry :: "nat \<Rightarrow> nat \<Rightarrow> bs_elt \<Rightarrow> nat list \<Rightarrow> nat \<Rightarrow> bs_node \<Rightarrow> fault + bs_node" where
  "add_entry level rank e new_nodes num_split n =
     (if level > 0 then
        bindE (new_node_at new_nodes num_split) (\<lambda>c.
        Inr (insert_child_at_rank rank c (insert_key_at_rank rank (fst e) n)))
      else Inr (insert_elt_at_rank rank e n))"

definition drop_down :: "nat \<Rightarrow> nat \<Rightarrow> nat \<Rightarrow> bs_node \<Rightarrow> fault + nat" where
  "drop_down level rank p n = (if level > 0 then get_child_at_rank rank n else Inr p)"

text \<open>Case 2 with a full node: move the upper half of the entries to a new node and add the key to one of the two.\<close>

definition split_overfull :: "nat \<Rightarrow> nat \<Rightarrow> bs_node \<Rightarrow> bs_node \<Rightarrow> fault + (bs_node \<times> bs_node)" where
  "split_overfull level q n new_node =
     (let m = new_node\<lparr>bn_next := bn_next n, next_header := next_header n, bn_level := level\<rparr>;
          n1 = n\<lparr>bn_next := Some q\<rparr>;
          half_keys = num_elts n div 2;
          (n2, m2) = split_keys half_keys 0 n1 m;
          elts_moved = num_elts m2
      in bindE (get_header m2) (\<lambda>h.
         let n3 = n2\<lparr>next_header := h\<rparr> in
         Inr (if level > 0 then move_children half_keys elts_moved 0 n3 m2 else (n3, m2))))"

definition insert_overfull :: "nat \<Rightarrow> nat \<Rightarrow> nat \<Rightarrow> bs_node \<Rightarrow> bs_elt \<Rightarrow> nat list \<Rightarrow> nat \<Rightarrow> bskip \<Rightarrow> fault + (nat \<times> bskip)" where
  "insert_overfull level rank p n e new_nodes num_split s =
     (let new_node = (if level > 0 then BSkipNodeInternal else BSkipNodeLeaf); (q, s1) = alloc_node new_node s in
      bindE (split_overfull level q n new_node) (\<lambda>(n1, m1).
      if rank + 1 \<le> num_elts n1 then
        bindE (add_entry level (rank + 1) e new_nodes num_split n1) (\<lambda>n2.
        bindE (drop_down level rank p n2) (\<lambda>c. Inr (c, put_node q m1 (put_node p n2 s1))))
      else
        let rank_to_insert = rank - num_elts n1 in
        bindE (add_entry level (rank_to_insert + 1) e new_nodes num_split m1) (\<lambda>m2.
        bindE (drop_down level rank_to_insert q m2) (\<lambda>c. Inr (c, put_node q m2 (put_node p n1 s1))))))"

definition insert_fit :: "nat \<Rightarrow> nat \<Rightarrow> nat \<Rightarrow> bs_node \<Rightarrow> bs_elt \<Rightarrow> nat list \<Rightarrow> nat \<Rightarrow> bskip \<Rightarrow> fault + (nat \<times> bskip)" where
  "insert_fit level rank p n e new_nodes num_split s =
     bindE (add_entry level (rank + 1) e new_nodes num_split n) (\<lambda>n1.
     bindE (drop_down level rank p n1) (\<lambda>c. Inr (c, put_node p n1 s)))"

text \<open>Case 3: the key starts a node of its own, with the entries behind it.\<close>

definition split_promoted :: "nat \<Rightarrow> nat \<Rightarrow> nat \<Rightarrow> bs_node \<Rightarrow> bs_elt \<Rightarrow> nat list \<Rightarrow> nat \<Rightarrow> bs_node \<Rightarrow> fault + (bs_node \<times> bs_node)" where
  "split_promoted level rank q n e new_nodes num_split new_node =
     (let m = new_node\<lparr>bn_next := bn_next n, next_header := next_header n, bn_level := level\<rparr>;
          m1 = (if level > 0 then insert_key_at_rank 0 (fst e) m else insert_elt_at_rank 0 e m);
          elts_moved = num_elts n - (rank + 1);
          (n1, m2) = split_keys (rank + 1) 1 n m1
      in bindE (if level > 0 then
                  bindE (new_node_at new_nodes num_split) (\<lambda>c.
                  Inr (move_children (rank + 1) elts_moved 1 n1 (insert_child_at_rank 0 c m2)))
                else Inr (n1, m2)) (\<lambda>(n2, m3).
         bindE (get_header m3) (\<lambda>h. Inr (n2\<lparr>bn_next := Some q, next_header := h\<rparr>, m3))))"

definition insert_promoted :: "nat \<Rightarrow> nat \<Rightarrow> nat \<Rightarrow> bs_node \<Rightarrow> bs_elt \<Rightarrow> nat list \<Rightarrow> nat \<Rightarrow> bskip \<Rightarrow> fault + (nat \<times> bskip)" where
  "insert_promoted level rank p n e new_nodes num_split s =
     bindE (new_node_at new_nodes num_split) (\<lambda>q.
     bindE (node_of q s) (\<lambda>new_node.
     bindE (split_promoted level rank q n e new_nodes (num_split + 1) new_node) (\<lambda>(n1, m1).
     bindE (drop_down level rank p n1) (\<lambda>c. Inr (c, put_node p n1 (put_node q m1 s))))))"

fun insert_from :: "nat \<Rightarrow> bs_elt \<Rightarrow> nat \<Rightarrow> nat list \<Rightarrow> nat \<Rightarrow> nat \<Rightarrow> nat \<Rightarrow> bskip \<Rightarrow> fault + (bool \<times> bskip)" where
  "insert_from B e level_to_promote new_nodes num_split 0 p s = Inr (True, s)"
| "insert_from B e level_to_promote new_nodes num_split (Suc level) p s =
     bindE (walk (fst e) p s) (\<lambda>curr_node.
     bindE (node_of curr_node s) (\<lambda>n.
     bindE (find_key_and_check (fst e) n) (\<lambda>(rank, found_key).
     if found_key then
       (if level = 0 then bindE (replace_value e curr_node rank s) (\<lambda>s1. Inr (True, s1))
        else bindE (descend MAX_HEIGHT rank curr_node s) (\<lambda>q. bindE (replace_value e q 0 s) (\<lambda>s1. Inr (True, s1))))
     else if level_to_promote < level then
       bindE (get_child_at_rank rank n) (\<lambda>c. insert_from B e level_to_promote new_nodes num_split level c s)
     else if level_to_promote = level then
       (if num_elts n + 1 > B then
          bindE (insert_overfull level rank curr_node n e new_nodes num_split s) (\<lambda>(c, s1).
          insert_from B e level_to_promote new_nodes num_split level c s1)
        else
          bindE (insert_fit level rank curr_node n e new_nodes num_split s) (\<lambda>(c, s1).
          insert_from B e level_to_promote new_nodes num_split level c s1))
     else
       bindE (insert_promoted level rank curr_node n e new_nodes num_split s) (\<lambda>(c, s1).
       insert_from B e level_to_promote new_nodes (num_split + 1) level c s1))))"

definition promotion_nodes :: "nat \<Rightarrow> bs_node list" where
  "promotion_nodes level_to_promote =
     replicate (level_to_promote - 1) BSkipNodeInternal @ (if level_to_promote > 0 then [BSkipNodeLeaf] else [])"

definition bs_insert :: "bskip_traits \<Rightarrow> bs_elt \<Rightarrow> bskip \<Rightarrow> fault + (bool \<times> bskip)" where
  "bs_insert T e s =
     (if fst e = min_sentinel \<or> fst e = max_sentinel then Inr (False, s)
      else
        let level_to_promote = flip_coins T (fst e) in
        bindE (guard Out_of_bounds (level_to_promote \<le> MAX_KEYS T)) (\<lambda>_.
        let (new_nodes, s1) = alloc_nodes (promotion_nodes level_to_promote) s
        in insert_from (MAX_KEYS T) e level_to_promote new_nodes 0 MAX_HEIGHT (bs_headers s1 ! (MAX_HEIGHT - 1)) s1))"

subsection \<open>Deletion\<close>

text \<open>Phase 1: down to the highest level the key can be on.\<close>

fun delete_down :: "64 word \<Rightarrow> nat \<Rightarrow> nat \<Rightarrow> nat \<Rightarrow> bskip \<Rightarrow> fault + nat" where
  "delete_down k promote_level 0 p s = Inr p"
| "delete_down k promote_level (Suc l) p s =
     (if Suc l > promote_level then
        bindE (walk k p s) (\<lambda>curr_node.
        bindE (node_of curr_node s) (\<lambda>n.
        bindE (find_key_and_check k n) (\<lambda>(rank, found).
        bindE (get_child_at_rank rank n) (\<lambda>c. delete_down k promote_level l c s))))
      else Inr p)"

text \<open>Phase 2: along that level, with the node before.\<close>

fun delete_walk :: "nat \<Rightarrow> 64 word \<Rightarrow> nat option \<Rightarrow> nat \<Rightarrow> bskip \<Rightarrow> fault + (nat option \<times> nat \<times> nat \<times> bool)" where
  "delete_walk 0 k prev p s = Inl Spinning"
| "delete_walk (Suc f) k prev p s =
     bindE (node_of p s) (\<lambda>n.
     bindE (find_key_and_check k n) (\<lambda>(rank, found).
     if \<not> found \<and> next_header n \<le> k then
       bindE (not_null (bn_next n)) (\<lambda>q. delete_walk f k (Some p) q s)
     else Inr (prev, p, rank, found)))"

fun find_left :: "nat \<Rightarrow> nat \<Rightarrow> nat \<Rightarrow> bskip \<Rightarrow> fault + nat" where
  "find_left 0 left_node current s = Inl Spinning"
| "find_left (Suc f) left_node current s =
     bindE (node_of left_node s) (\<lambda>m.
     if bn_next m = Some current then Inr left_node
     else bindE (not_null (bn_next m)) (\<lambda>q. find_left f q current s))"

text \<open>Removing the first entry of a node, and the node with its last entry.\<close>

definition delete_head :: "nat \<Rightarrow> bs_node \<Rightarrow> nat \<Rightarrow> bs_node \<Rightarrow> bskip \<Rightarrow> fault + bskip" where
  "delete_head left_node m current n s =
     (if num_elts n = 1 then
        Inr (free_node current (put_node left_node (m\<lparr>next_header := next_header n, bn_next := bn_next n\<rparr>) s))
      else
        let n1 = (if bn_level n > 0 then delete_child_at_rank 0 (internal_delete_key_at_rank 0 n)
                  else leaf_delete_key_at_rank 0 n)
        in bindE (get_key_at_rank 0 n1) (\<lambda>h.
           Inr (put_node current n1 (put_node left_node (m\<lparr>next_header := h\<rparr>) s))))"

fun delete_heads :: "nat \<Rightarrow> nat \<Rightarrow> nat \<Rightarrow> bskip \<Rightarrow> fault + bskip" where
  "delete_heads 0 left_node current s =
     bindE (find_left (Suc (next_addr s)) left_node current s) (\<lambda>l.
     bindE (node_of l s) (\<lambda>m.
     bindE (node_of current s) (\<lambda>n. delete_head l m current n s)))"
| "delete_heads (Suc level) left_node current s =
     bindE (find_left (Suc (next_addr s)) left_node current s) (\<lambda>l.
     bindE (node_of l s) (\<lambda>m.
     bindE (node_of current s) (\<lambda>n.
     bindE (get_child_at_rank 0 n) (\<lambda>current1.
     bindE (get_child_at_rank (num_elts m - 1) m) (\<lambda>left1.
     bindE (delete_head l m current n s) (\<lambda>s1. delete_heads level left1 current1 s1))))))"

text \<open>Phase 3: an entry inside a node is shifted out there and deleted as a head below; a head is deleted with the
  node before it at hand.\<close>

definition delete_found :: "nat option \<Rightarrow> nat \<Rightarrow> nat \<Rightarrow> bskip \<Rightarrow> fault + bskip" where
  "delete_found prev curr_node rank s =
     bindE (node_of curr_node s) (\<lambda>n.
     if rank \<noteq> 0 then
       (if bn_level n = 0 then Inr (put_node curr_node (leaf_delete_key_at_rank rank n) s)
        else
          bindE (get_child_at_rank rank n) (\<lambda>current.
          bindE (get_child_at_rank (rank - 1) n) (\<lambda>left_node.
          let s1 = put_node curr_node (delete_child_at_rank rank (internal_delete_key_at_rank rank n)) s in
          bindE (node_of current s1) (\<lambda>c. delete_heads (bn_level c) left_node current s1))))
     else bindE (not_null prev) (\<lambda>left_node. delete_heads (bn_level n) left_node curr_node s))"

definition bs_delete :: "bskip_traits \<Rightarrow> 64 word \<Rightarrow> bskip \<Rightarrow> fault + bskip" where
  "bs_delete T k s =
     (if k = min_sentinel \<or> k = max_sentinel then Inr s
      else
        let promote_level = flip_coins T k in
        bindE (delete_down k promote_level (MAX_HEIGHT - 1) (bs_headers s ! (MAX_HEIGHT - 1)) s) (\<lambda>p.
        bindE (delete_walk (Suc (next_addr s)) k None p s) (\<lambda>(prev, curr_node, rank, found).
        if found then delete_found prev curr_node rank s else Inr s)))"

subsection \<open>Range scans\<close>

text \<open>The descent of \<open>map_range_length\<close> stops at the key; \<open>map_range\<close> tests the variable \<^verbatim>\<open>found\<close> that is still
  \<^verbatim>\<open>false\<close> instead of the result of the search, so that it never stops early and never finds its key.\<close>

fun range_search :: "64 word \<Rightarrow> nat \<Rightarrow> nat \<Rightarrow> bskip \<Rightarrow> fault + (nat \<times> nat \<times> bool)" where
  "range_search start 0 p s = Inr (p, 0, False)"
| "range_search start (Suc level) p s =
     bindE (walk start p s) (\<lambda>current.
     bindE (node_of current s) (\<lambda>n.
     bindE (find_key_and_check start n) (\<lambda>(rank, found_key).
     if found_key then Inr (current, rank, True)
     else if level \<noteq> 0 then bindE (get_child_at_rank rank n) (\<lambda>c. range_search start level c s)
     else Inr (current, rank, False))))"

fun range_search_all :: "64 word \<Rightarrow> nat \<Rightarrow> nat \<Rightarrow> bskip \<Rightarrow> fault + (nat \<times> nat)" where
  "range_search_all start 0 p s = Inr (p, 0)"
| "range_search_all start (Suc level) p s =
     bindE (walk start p s) (\<lambda>current.
     bindE (node_of current s) (\<lambda>n.
     bindE (find_key_and_check start n) (\<lambda>(rank, found_key).
     if level \<noteq> 0 then bindE (get_child_at_rank rank n) (\<lambda>c. range_search_all start level c s)
     else Inr (current, rank))))"

text \<open>Down to the leaf, searching every node on the way.\<close>

fun range_down :: "nat \<Rightarrow> 64 word \<Rightarrow> nat \<Rightarrow> nat \<Rightarrow> bskip \<Rightarrow> fault + (nat \<times> nat)" where
  "range_down 0 start p rank s = Inl Spinning"
| "range_down (Suc f) start p rank s =
     bindE (node_of p s) (\<lambda>n.
     if bn_level n = 0 then Inr (p, rank)
     else
       bindE (get_child_at_rank rank n) (\<lambda>c.
       bindE (node_of c s) (\<lambda>m.
       bindE (find_key_and_check start m) (\<lambda>(r, _). range_down f start c r s))))"

text \<open>When the key is not there the scan starts at the next one.\<close>

definition range_next :: "nat \<Rightarrow> nat \<Rightarrow> bskip \<Rightarrow> fault + (nat \<times> nat)" where
  "range_next p rank s =
     bindE (node_of p s) (\<lambda>n.
     if rank + 1 = num_elts n then bindE (not_null (bn_next n)) (\<lambda>q. Inr (q, 0)) else Inr (p, rank + 1))"

definition get_elts :: "nat \<Rightarrow> nat \<Rightarrow> bs_node \<Rightarrow> fault + bs_elt list" where
  "get_elts r cnt n =
     (if r + cnt \<le> num_elts n \<and> r + cnt \<le> length (bs_vals n)
      then Inr (zip (take cnt (drop r (bs_keys n))) (take cnt (drop r (bs_vals n)))) else Inl Out_of_bounds)"

text \<open>The scan by count returns the elements in the order it passes them to its function. Its loop condition reads
  the key before it tests the count; for a count of zero the key read, maybe that of an unused slot, does not matter.\<close>

fun scan_length :: "nat \<Rightarrow> nat \<Rightarrow> nat \<Rightarrow> nat \<Rightarrow> bskip \<Rightarrow> fault + bs_elt list" where
  "scan_length 0 num_remaining p rank s = Inl Spinning"
| "scan_length (Suc f) num_remaining p rank s =
     (if num_remaining = 0 then Inr []
      else
        bindE (node_of p s) (\<lambda>n.
        bindE (get_key_at_rank rank n) (\<lambda>k.
        if k = max_sentinel then Inr []
        else
          let iteration = min (num_elts n - rank) num_remaining in
          bindE (get_elts rank iteration n) (\<lambda>es.
          if num_remaining - iteration = 0 then Inr es
          else
            bindE (not_null (bn_next n)) (\<lambda>q.
            bindE (scan_length f (num_remaining - iteration) q 0 s) (\<lambda>rest. Inr (es @ rest)))))))"

definition map_range_length :: "64 word \<Rightarrow> 64 word \<Rightarrow> bskip \<Rightarrow> fault + bs_elt list" where
  "map_range_length start len s =
     bindE (range_search start MAX_HEIGHT (bs_headers s ! (MAX_HEIGHT - 1)) s) (\<lambda>(p, rank, found).
     bindE (range_down (Suc MAX_HEIGHT) start p rank s) (\<lambda>(p1, rank1).
     bindE (if found then Inr (p1, rank1) else range_next p1 rank1 s) (\<lambda>(p2, rank2).
     scan_length (Suc (next_addr s)) (unat (ucast len :: 32 word)) p2 rank2 s)))"

text \<open>The scan up to a key moves on after every element.\<close>

fun scan_range :: "nat \<Rightarrow> 64 word \<Rightarrow> nat \<Rightarrow> nat \<Rightarrow> bskip \<Rightarrow> fault + bs_elt list" where
  "scan_range 0 mx p rank s = Inl Spinning"
| "scan_range (Suc f) mx p rank s =
     bindE (node_of p s) (\<lambda>n.
     bindE (get_key_at_rank rank n) (\<lambda>k.
     if k \<le> mx \<and> k \<noteq> max_sentinel then
       bindE (get_value_at_rank rank n) (\<lambda>v.
       bindE (if rank + 1 = num_elts n then bindE (not_null (bn_next n)) (\<lambda>q. Inr (q, 0)) else Inr (p, rank + 1)) (\<lambda>(p1, rank1).
       bindE (scan_range f mx p1 rank1 s) (\<lambda>rest. Inr ((k, v) # rest))))
     else Inr []))"

definition map_range :: "bskip_traits \<Rightarrow> 64 word \<Rightarrow> 64 word \<Rightarrow> bskip \<Rightarrow> fault + bs_elt list" where
  "map_range T mn mx s =
     bindE (range_search_all mn MAX_HEIGHT (bs_headers s ! (MAX_HEIGHT - 1)) s) (\<lambda>(p, rank).
     bindE (range_down (Suc MAX_HEIGHT) mn p rank s) (\<lambda>(p1, rank1).
     bindE (range_next p1 rank1 s) (\<lambda>(p2, rank2).
     scan_range (Suc (MAX_KEYS T * next_addr s)) mx p2 rank2 s)))"

subsection \<open>Validation of the structure\<close>

text \<open>The checks of \<open>validate_structure\<close>, as a build with assertions makes them.\<close>

fun validate_level :: "nat \<Rightarrow> nat \<Rightarrow> nat \<Rightarrow> bskip \<Rightarrow> fault + unit" where
  "validate_level 0 level p s = Inl Spinning"
| "validate_level (Suc f) level p s =
     bindE (node_of p s) (\<lambda>n.
     bindE (get_header n) (\<lambda>h.
     if h < max_sentinel then
       bindE (not_null (bn_next n)) (\<lambda>q.
       bindE (node_of q s) (\<lambda>m.
       bindE (get_header m) (\<lambda>h'.
       bindE (assert_that (h < h')) (\<lambda>_.
       bindE (assert_that (\<forall>i\<in>set [1..<num_elts n]. bs_keys n ! (i - 1) < bs_keys n ! i)) (\<lambda>_.
       bindE (assert_that (next_header n = h')) (\<lambda>_.
       bindE (assert_that (bn_level n = level)) (\<lambda>_. validate_level f level q s)))))))
     else Inr ()))"

fun validate_levels :: "nat \<Rightarrow> bskip \<Rightarrow> fault + unit" where
  "validate_levels 0 s = Inr ()"
| "validate_levels (Suc level) s =
     bindE (validate_level (Suc (next_addr s)) level (bs_headers s ! level) s) (\<lambda>_. validate_levels level s)"

definition validate_structure :: "bskip \<Rightarrow> fault + unit" where
  "validate_structure s = validate_levels MAX_HEIGHT s"

declare flip_loop.simps [simp del]

end
