(* ===== verification/Bskip_inv.thy ===== *)
theory Bskip_inv
  imports Bskip
begin

text \<open>
  The invariant of the blocked skip list and the searches. A level is described by its list of addresses and
  nodes up to the end sentinel; the predicates on it are about lists, and the heap bs_holds the nodes of every level.
\<close>

subsection \<open>One level\<close>

type_synonym bs_list = "(nat \<times> bs_node) list"

definition keys_of :: "bs_list \<Rightarrow> 64 word list" where
  "keys_of xs = concat (map (\<lambda>x. bs_keys (snd x)) xs)"

definition vals_of :: "bs_list \<Rightarrow> item_ptr option list" where
  "vals_of xs = concat (map (\<lambda>x. bs_vals (snd x)) xs)"

definition children_of :: "bs_list \<Rightarrow> nat list" where
  "children_of xs = concat (map (\<lambda>x. bs_children (snd x)) xs)"

definition heads :: "bs_list \<Rightarrow> (64 word \<times> nat) set" where
  "heads xs = (\<lambda>x. (hd (bs_keys (snd x)), fst x)) ` set xs"

definition linked :: "bs_list \<Rightarrow> bool" where
  "linked = successively (\<lambda>x y. bn_next (snd x) = Some (fst y) \<and> next_header (snd x) = hd (bs_keys (snd y)))"

definition node_ok :: "nat \<Rightarrow> nat \<Rightarrow> bs_node \<Rightarrow> bool" where
  "node_ok B l n \<longleftrightarrow> bn_leaf n = (l = 0) \<and> bn_level n = l \<and> bs_keys n \<noteq> [] \<and> num_elts n \<le> B \<and>
     (if l = 0 then length (bs_vals n) = num_elts n else length (bs_children n) = num_elts n)"

definition level_ok :: "nat \<Rightarrow> nat \<Rightarrow> nat \<Rightarrow> bs_list \<Rightarrow> bool" where
  "level_ok B l e xs \<longleftrightarrow> xs \<noteq> [] \<and> (\<forall>x\<in>set xs. node_ok B l (snd x)) \<and> linked (xs @ [(e, end_sentinel l)]) \<and>
     sorted_wrt (<) (keys_of xs @ [max_sentinel]) \<and> hd (keys_of xs) = min_sentinel"

definition entries :: "bs_list \<Rightarrow> (64 word \<times> nat) set" where
  "entries xs = set (zip (keys_of xs) (children_of xs))"

definition elts :: "bs_list \<Rightarrow> bs_elt list" where
  "elts xs = zip (keys_of xs) (vals_of xs)"

definition bs_holds :: "bskip \<Rightarrow> bs_list \<Rightarrow> bool" where
  "bs_holds s xs \<longleftrightarrow> (\<forall>x\<in>set xs. bs_heap s (fst x) = Some (snd x))"

lemma of_simps [simp]:
  "keys_of [] = []" "keys_of (x # xs) = bs_keys (snd x) @ keys_of xs" "keys_of (xs @ ys) = keys_of xs @ keys_of ys"
  "vals_of [] = []" "vals_of (x # xs) = bs_vals (snd x) @ vals_of xs" "vals_of (xs @ ys) = vals_of xs @ vals_of ys"
  "children_of [] = []" "children_of (x # xs) = bs_children (snd x) @ children_of xs"
  "children_of (xs @ ys) = children_of xs @ children_of ys"
  "heads [] = {}" "heads (x # xs) = insert (hd (bs_keys (snd x)), fst x) (heads xs)" "heads (xs @ ys) = heads xs \<union> heads ys"
  "bs_holds s []" "bs_holds s (x # xs) \<longleftrightarrow> bs_heap s (fst x) = Some (snd x) \<and> bs_holds s xs"
  "bs_holds s (xs @ ys) \<longleftrightarrow> bs_holds s xs \<and> bs_holds s ys"
  by (auto simp: keys_of_def vals_of_def children_of_def heads_def bs_holds_def)

lemma linked_simps [simp]:
  "linked []" "linked [x]"
  "linked (x # y # xs) \<longleftrightarrow> bn_next (snd x) = Some (fst y) \<and> next_header (snd x) = hd (bs_keys (snd y)) \<and> linked (y # xs)"
  by (simp_all add: linked_def)

lemma linked_append:
  "linked (xs @ ys) \<longleftrightarrow> linked xs \<and> linked ys \<and>
     (xs \<noteq> [] \<longrightarrow> ys \<noteq> [] \<longrightarrow> bn_next (snd (last xs)) = Some (fst (hd ys)) \<and> next_header (snd (last xs)) = hd (bs_keys (snd (hd ys))))"
  by (auto simp: linked_def successively_append_iff)

lemma keys_of_hd: "xs \<noteq> [] \<Longrightarrow> bs_keys (snd (hd xs)) \<noteq> [] \<Longrightarrow> hd (keys_of xs) = hd (bs_keys (snd (hd xs)))"
  by (cases xs) auto

lemma end_sentinel_sel [simp]:
  "bs_keys (end_sentinel l) = [max_sentinel]" "bn_next (end_sentinel l) = None" "next_header (end_sentinel l) = max_sentinel"
  "bn_level (end_sentinel l) = l" "bn_leaf (end_sentinel l) = (l = 0)"
  by (simp_all add: end_sentinel_def BSkipNodeInternal_def BSkipNodeLeaf_def)

lemma sentinel_order [simp]: "x \<le> max_sentinel" "min_sentinel \<le> x" "min_sentinel < max_sentinel" "\<not> max_sentinel < x" "\<not> x < min_sentinel"
  by (simp_all add: max_sentinel_def min_sentinel_def UINT64_MAX_minus_1 word_gt_0)

text \<open>The key a node's successor starts with separates its keys from those behind it.\<close>

lemma level_ok_split:
  assumes "level_ok B l e (us @ (p, n) # vs)"
  shows "node_ok B l n" "sorted_wrt (<) (bs_keys n)" "\<forall>k\<in>set (keys_of us). k < hd (bs_keys n)"
    "\<forall>k\<in>set (bs_keys n). k < next_header n" "\<forall>k\<in>set (keys_of vs). next_header n \<le> k"
    "vs = [] \<Longrightarrow> next_header n = max_sentinel"
    "vs \<noteq> [] \<Longrightarrow> bn_next n = Some (fst (hd vs)) \<and> next_header n = hd (bs_keys (snd (hd vs)))"
    "vs = [] \<Longrightarrow> bn_next n = Some e"
proof -
  have ok: "\<forall>x\<in>set (us @ (p, n) # vs). node_ok B l (snd x)" and lk: "linked (us @ (p, n) # vs @ [(e, end_sentinel l)])"
    and so: "sorted_wrt (<) (keys_of us @ bs_keys n @ keys_of vs @ [max_sentinel])"
    using assms by (simp_all add: level_ok_def)
  show n: "node_ok B l n" using ok by simp
  then have ne: "bs_keys n \<noteq> []" by (simp add: node_ok_def)
  show "sorted_wrt (<) (bs_keys n)" "\<forall>k\<in>set (keys_of us). k < hd (bs_keys n)"
    using so ne by (auto simp: sorted_wrt_append)
  have lk': "linked ((p, n) # vs @ [(e, end_sentinel l)])" using lk by (simp add: linked_append)
  show vs: "vs \<noteq> [] \<Longrightarrow> bn_next n = Some (fst (hd vs)) \<and> next_header n = hd (bs_keys (snd (hd vs)))"
    using lk' by (cases vs) auto
  show nil: "vs = [] \<Longrightarrow> next_header n = max_sentinel" "vs = [] \<Longrightarrow> bn_next n = Some e" using lk' by auto
  have vs_ne: "vs \<noteq> [] \<Longrightarrow> next_header n \<in> set (keys_of vs) \<and> next_header n = hd (keys_of vs)"
    using vs ok by (cases vs) (auto simp: node_ok_def)
  then show "\<forall>k\<in>set (bs_keys n). k < next_header n"
    using so nil by (cases "vs = []") (auto simp: sorted_wrt_append)
  have "sorted_wrt (<) (keys_of vs)" using so by (simp add: sorted_wrt_append)
  then show "\<forall>k\<in>set (keys_of vs). next_header n \<le> k"
    using vs_ne by (cases "vs = []"; cases "keys_of vs") (auto intro: less_imp_le)
qed

definition covers :: "64 word \<Rightarrow> bs_node \<Rightarrow> bool" where
  "covers k n \<longleftrightarrow> hd (bs_keys n) \<le> k \<and> k < next_header n"

lemma covers_mem:
  assumes "level_ok B l e (us @ (p, n) # vs)" "covers k n"
  shows "k \<in> set (keys_of (us @ (p, n) # vs)) \<longleftrightarrow> k \<in> set (bs_keys n)"
  using level_ok_split(3,5) [OF assms(1)] assms(2) by (fastforce simp: covers_def)

text \<open>Replacing a segment of a level by a chain of nodes with the same start, the same first key and the same successor.\<close>

lemma level_ok_segment:
  assumes ok: "level_ok B l e (us @ ns @ vs)" and ns: "ns \<noteq> []" and ms: "ms \<noteq> []" "linked ms" "\<forall>x\<in>set ms. node_ok B l (snd x)"
    and hd: "fst (hd ms) = fst (hd ns)" "hd (keys_of ms) = hd (keys_of ns)"
    and last: "bn_next (snd (last ms)) = bn_next (snd (last ns))" "next_header (snd (last ms)) = next_header (snd (last ns))"
    and so: "sorted_wrt (<) (keys_of ms)" "\<forall>k\<in>set (keys_of ms). k < next_header (snd (last ns))"
  shows "level_ok B l e (us @ ms @ vs)"
proof -
  obtain p n ns' where n: "ns = (p, n) # ns'" using ns by (cases ns) auto
  obtain q m ns'' where m: "ns = ns'' @ [(q, m)]" using ns by (cases ns rule: rev_cases) auto
  note sp = level_ok_split [of B l e us p n "ns' @ vs"] and sq = level_ok_split [of B l e "us @ ns''" q m vs]
  have okp: "level_ok B l e (us @ (p, n) # ns' @ vs)" using ok by (simp add: n)
  have okq: "level_ok B l e ((us @ ns'') @ (q, m) # vs)" using ok by (simp add: m)
  have nn: "node_ok B l n" by (rule sp(1) [OF okp])
  have hk: "hd (keys_of ns) = hd (bs_keys n)" using nn by (simp add: n node_ok_def)
  have hd': "hd (bs_keys (snd (hd ms))) = hd (bs_keys n)"
    using ms hd(2) hk keys_of_hd [OF ms(1)] by (cases ms) (auto simp: node_ok_def)
  have ne: "bs_keys n \<noteq> []" "keys_of ms \<noteq> []" using nn ms(1,3) by (cases ms; auto simp: node_ok_def)+
  have lk: "linked (us @ ns @ vs @ [(e, end_sentinel l)])"
    and sx: "sorted_wrt (<) (keys_of us @ keys_of ns @ keys_of vs @ [max_sentinel])"
    and nodes: "\<forall>x\<in>set (us @ vs). node_ok B l (snd x)" and h0: "hd (keys_of us @ bs_keys n) = min_sentinel"
    using ok ne(1) by (auto simp: level_ok_def n hd_append)
  have "linked (us @ ms @ vs @ [(e, end_sentinel l)])"
  proof -
    have "linked (vs @ [(e, end_sentinel l)])" using lk by (cases vs) (auto simp: linked_append)
    moreover have "bn_next (snd (last ms)) = Some (fst (hd (vs @ [(e, end_sentinel l)]))) \<and>
        next_header (snd (last ms)) = hd (bs_keys (snd (hd (vs @ [(e, end_sentinel l)]))))"
      using lk last ns by (cases vs) (auto simp: linked_append)
    moreover have "us \<noteq> [] \<longrightarrow> bn_next (snd (List.last us)) = Some p \<and> next_header (snd (List.last us)) = hd (bs_keys n)"
      using lk by (auto simp: linked_append n)
    ultimately show ?thesis using lk ms hd(1) hd' by (auto simp: linked_append n)
  qed
  moreover have lb: "hd (bs_keys n) \<le> k" if "k \<in> set (keys_of ms)" for k
    using so(1) that hd(2) hk ne(2) by (cases "keys_of ms") (auto intro: less_imp_le)
  moreover have "sorted_wrt (<) (keys_of us @ keys_of ms @ keys_of vs @ [max_sentinel])"
  proof -
    have "\<forall>a\<in>set (keys_of us). \<forall>b\<in>set (keys_of ms). a < b" using sp(3) [OF okp] lb by (meson less_le_trans)
    moreover have "\<forall>a\<in>set (keys_of ms). \<forall>b\<in>set (keys_of vs). a < b"
      using so(2) sq(5) [OF okq] by (simp add: m) (meson less_le_trans)
    moreover have "\<forall>a\<in>set (keys_of ms). a < max_sentinel" using so(2) sentinel_order(1) by (meson less_le_trans)
    ultimately show ?thesis using sx so(1) by (simp add: sorted_wrt_append ball_Un)
  qed
  moreover have "hd (keys_of us @ keys_of ms) = min_sentinel" using h0 ne hd(2) hk by (cases "keys_of us") auto
  ultimately show ?thesis using nodes ms(1,3) ne by (auto simp: level_ok_def hd_append)
qed

lemma level_ok_replace:
  assumes "level_ok B l e (us @ (p, n) # vs)" "ms \<noteq> []" "linked ms" "\<forall>x\<in>set ms. node_ok B l (snd x)"
    and "fst (hd ms) = p" "hd (keys_of ms) = hd (bs_keys n)"
    and "bn_next (snd (last ms)) = bn_next n" "next_header (snd (last ms)) = next_header n"
    and "sorted_wrt (<) (keys_of ms)" "\<forall>k\<in>set (keys_of ms). k < next_header n"
  shows "level_ok B l e (us @ ms @ vs)"
  using level_ok_segment [of B l e us "[(p, n)]" vs ms] assms level_ok_split(1) [OF assms(1)] by (simp add: node_ok_def)

subsection \<open>All levels\<close>

definition addrs :: "bs_list \<Rightarrow> nat \<Rightarrow> nat set" where
  "addrs xs e = insert e (fst ` set xs)"

definition level_at :: "nat \<Rightarrow> nat \<Rightarrow> bskip \<Rightarrow> bs_list \<Rightarrow> nat \<Rightarrow> bool" where
  "level_at B l s xs e \<longleftrightarrow> level_ok B l e xs \<and> bs_holds s (xs @ [(e, end_sentinel l)]) \<and>
     distinct (map fst xs @ [e]) \<and> (\<forall>p\<in>addrs xs e. p < next_addr s)"

text \<open>The levels below \<open>n\<close>: each well-formed, disjoint, and every entry above the leaves has the node below that starts
  with its key.\<close>

fun levels_ok :: "nat \<Rightarrow> bskip \<Rightarrow> (nat \<Rightarrow> bs_list) \<Rightarrow> (nat \<Rightarrow> nat) \<Rightarrow> nat \<Rightarrow> bool" where
  "levels_ok B s X E 0 = True"
| "levels_ok B s X E (Suc n) \<longleftrightarrow> levels_ok B s X E n \<and> level_at B n s (X n) (E n) \<and>
     (n > 0 \<longrightarrow> entries (X n) \<subseteq> heads (X (n - 1))) \<and>
     (\<forall>i<n. addrs (X n) (E n) \<inter> addrs (X i) (E i) = {})"

definition bs_inv :: "bskip_traits \<Rightarrow> bskip \<Rightarrow> (nat \<Rightarrow> bs_list) \<Rightarrow> (nat \<Rightarrow> nat) \<Rightarrow> bool" where
  "bs_inv T s X E \<longleftrightarrow> block_fits T \<and> levels_ok (MAX_KEYS T) s X E MAX_HEIGHT \<and>
     (\<forall>l<MAX_HEIGHT. bs_headers s ! l = fst (hd (X l)) \<and>
        set (keys_of (X l)) = {k \<in> set (keys_of (X 0)). k = min_sentinel \<or> l \<le> flip_coins T k})"

text \<open>What the structure stores: the elements of the leaves without the sentinel that starts them.\<close>

definition bs_map :: "(nat \<Rightarrow> bs_list) \<Rightarrow> 64 word \<rightharpoonup> item_ptr option" where
  "bs_map X = map_of (tl (elts (X 0)))"

lemma levels_okD: "levels_ok B s X E n \<Longrightarrow> l < n \<Longrightarrow> level_at B l s (X l) (E l)"
  by (induction n) (auto simp: less_Suc_eq)

lemma levels_ok_entries: "levels_ok B s X E n \<Longrightarrow> Suc l < n \<Longrightarrow> entries (X (Suc l)) \<subseteq> heads (X l)"
  by (induction n) (auto simp: less_Suc_eq)

lemma levels_ok_disj:
  "levels_ok B s X E n \<Longrightarrow> i < n \<Longrightarrow> j < n \<Longrightarrow> i \<noteq> j \<Longrightarrow> addrs (X i) (E i) \<inter> addrs (X j) (E j) = {}"
  by (induction n) (auto simp: less_Suc_eq)

lemma levels_ok_le: "levels_ok B s X E n \<Longrightarrow> m \<le> n \<Longrightarrow> levels_ok B s X E m"
  by (induction n) (auto simp: le_Suc_eq)

lemma level_at_frame:
  assumes "level_at B l s xs e" "\<forall>p\<in>addrs xs e. bs_heap s' p = bs_heap s p" "next_addr s \<le> next_addr s'"
  shows "level_at B l s' xs e"
  using assms by (fastforce simp: level_at_def bs_holds_def addrs_def)

lemma levels_ok_frame:
  assumes "levels_ok B s X E n" "\<forall>l<n. X' l = X l" "\<forall>l<n. \<forall>p\<in>addrs (X l) (E l). bs_heap s' p = bs_heap s p"
    "next_addr s \<le> next_addr s'"
  shows "levels_ok B s' X' E n"
  using assms
proof (induction n)
  case (Suc n)
  have "\<forall>p\<in>addrs (X n) (E n). bs_heap s' p = bs_heap s p" using Suc.prems(3) by blast
  then have "level_at B n s' (X' n) (E n)" using level_at_frame [of B n s "X n" "E n" s'] Suc.prems by simp
  moreover have "levels_ok B s' X' E n" using Suc.prems by (intro Suc.IH) (simp_all add: less_Suc_eq)
  ultimately show ?case using Suc.prems by simp
qed simp

lemma level_at_length:
  assumes "level_at B l s xs e"
  shows "length xs < next_addr s"
proof -
  have "set (map fst xs @ [e]) \<subseteq> {..<next_addr s}" using assms by (auto simp: level_at_def addrs_def)
  then have "card (set (map fst xs @ [e])) \<le> next_addr s" using card_mono [of "{..<next_addr s}"] by simp
  moreover have "card (set (map fst xs @ [e])) = length (map fst xs @ [e])"
    using assms unfolding level_at_def by (simp only: distinct_card)
  ultimately show ?thesis by simp
qed

lemma level_at_node: "level_at B l s xs e \<Longrightarrow> (p, n) \<in> set xs \<Longrightarrow> node_of p s = Inr n"
  by (force simp: level_at_def bs_holds_def node_of_def)

subsection \<open>Searching\<close>

lemma walk_fuel_ok:
  assumes "level_ok B l e (us @ (p, n) # vs)" "bs_holds s (us @ (p, n) # vs)" "hd (bs_keys n) \<le> k" "k < max_sentinel" "length vs < f"
  shows "\<exists>us' p' n' vs'. us @ (p, n) # vs = us' @ (p', n') # vs' \<and> walk_fuel f k p s = Inr p' \<and> covers k n'"
  using assms
proof (induction vs arbitrary: us p n f)
  case Nil
  then have "next_header n = max_sentinel" by (simp add: level_ok_split(6))
  moreover obtain f' where "f = Suc f'" using Nil(5) by (cases f) auto
  ultimately have "walk_fuel f k p s = Inr p" "covers k n" using Nil by (auto simp: node_of_def covers_def)
  then show ?case by blast
next
  case (Cons x vs)
  obtain f' where f: "f = Suc f'" "length vs < f'" using Cons.prems(5) by (cases f) auto
  have nx: "bn_next n = Some (fst x)" "next_header n = hd (bs_keys (snd x))"
    using level_ok_split(7) [OF Cons.prems(1)] by auto
  show ?case
  proof (cases "next_header n \<le> k")
    case True
    obtain us' p' n' vs' where w: "(us @ [(p, n)]) @ (fst x, snd x) # vs = us' @ (p', n') # vs'"
        "walk_fuel f' k (fst x) s = Inr p'" "covers k n'"
      using Cons.IH [of "us @ [(p, n)]" "fst x" "snd x" f'] Cons.prems f(2) True nx(2) by auto
    have "walk_fuel f k p s = Inr p'" using w(2) True f(1) nx(1) Cons.prems(2) by (simp add: node_of_def not_null_def)
    with w(1,3) show ?thesis by auto
  next
    case False
    then have "walk_fuel f k p s = Inr p" "covers k n" using Cons.prems(2,3) f(1) by (auto simp: node_of_def covers_def)
    then show ?thesis by blast
  qed
qed

lemma walk_ok:
  assumes "level_at B l s xs e" "(h, p) \<in> heads xs" "h \<le> k" "k < max_sentinel"
  shows "\<exists>us p' n vs. xs = us @ (p', n) # vs \<and> walk k p s = Inr p' \<and> node_of p' s = Inr n \<and> covers k n"
proof -
  obtain n where "(p, n) \<in> set xs" "h = hd (bs_keys n)" using assms(2) by (auto simp: heads_def)
  then obtain us vs where xs: "xs = us @ (p, n) # vs" by (meson split_list)
  have "length vs < Suc (next_addr s)" using level_at_length [OF assms(1)] xs by simp
  from walk_fuel_ok [OF _ _ _ _ this, where B = B and l = l and e = e and us = us and p = p and n = n and k = k and s = s]
  obtain us' p' n' vs' where w: "xs = us' @ (p', n') # vs'" "walk k p s = Inr p'" "covers k n'"
    using xs assms \<open>h = _\<close> by (auto simp: level_at_def walk_def)
  then have "node_of p' s = Inr n'" using level_at_node [OF assms(1)] by simp
  with w show ?thesis by blast
qed

text \<open>The search of one level: the node covering the key and the rank of the key in it.\<close>

lemma search_level:
  assumes "level_at B l s xs e" "(h, p) \<in> heads xs" "h \<le> k" "k < max_sentinel"
  obtains us q n vs r where "xs = us @ (q, n) # vs" "walk k p s = Inr q" "node_of q s = Inr n" "covers k n"
    "rank_of k (bs_keys n) r" "find_key_and_check k n = Inr (r, k \<in> set (keys_of xs))" "bs_keys n ! r = k \<longleftrightarrow> k \<in> set (keys_of xs)"
proof -
  obtain us q n vs where w: "xs = us @ (q, n) # vs" "walk k p s = Inr q" "node_of q s = Inr n" "covers k n"
    using walk_ok [OF assms] by blast
  have ok: "level_ok B l e (us @ (q, n) # vs)" using assms(1) w(1) by (simp add: level_at_def)
  note sp = level_ok_split [OF ok]
  obtain r where r: "rank_of k (bs_keys n) r" "find_key_and_check k n = Inr (r, bs_keys n ! r = k)"
    using find_key_and_check_ok [of n k] sp(1,2) w(4) by (auto simp: node_ok_def covers_def)
  have "bs_keys n ! r = k \<longleftrightarrow> k \<in> set (keys_of xs)"
    using rank_of_mem [OF sp(2) r(1)] covers_mem [OF ok w(4)] w(1) by simp
  with r(2) that [OF w r(1)] show thesis by simp
qed

lemma length_children_of: "l > 0 \<Longrightarrow> \<forall>x\<in>set xs. node_ok B l (snd x) \<Longrightarrow> length (children_of xs) = length (keys_of xs)"
  by (induction xs) (auto simp: node_ok_def)

lemma length_vals_of: "\<forall>x\<in>set xs. node_ok B 0 (snd x) \<Longrightarrow> length (vals_of xs) = length (keys_of xs)"
  by (induction xs) (auto simp: node_ok_def)

lemma entries_UN:
  assumes "\<forall>x\<in>set xs. node_ok B l (snd x)" "l > 0"
  shows "entries xs = (\<Union>x\<in>set xs. set (zip (bs_keys (snd x)) (bs_children (snd x))))"
  using assms by (induction xs) (simp_all add: entries_def node_ok_def)

lemma entries_append:
  assumes "\<forall>x\<in>set (xs @ ys). node_ok B l (snd x)" "l > 0"
  shows "entries (xs @ ys) = entries xs \<union> entries ys"
proof -
  have "\<forall>x\<in>set xs. node_ok B l (snd x)" using assms(1) by simp
  then have "length (keys_of xs) = length (children_of xs)" using length_children_of [OF assms(2)] by simp
  then show ?thesis by (simp add: entries_def zip_append)
qed

lemma entries_iff:
  assumes "\<forall>x\<in>set xs. node_ok B l (snd x)" "l > 0"
  shows "(k, c) \<in> entries xs \<longleftrightarrow> (\<exists>p n r. (p, n) \<in> set xs \<and> r < num_elts n \<and> bs_keys n ! r = k \<and> bs_children n ! r = c)"
  unfolding entries_UN [OF assms] using assms by (fastforce simp: set_zip node_ok_def)

lemma entry_of_rank:
  assumes "level_at B l s xs e" "l > 0" "(p, n) \<in> set xs" "r < num_elts n"
  shows "(bs_keys n ! r, bs_children n ! r) \<in> entries xs" "get_child_at_rank r n = Inr (bs_children n ! r)"
proof -
  have "\<forall>x\<in>set xs. node_ok B l (snd x)" using assms(1) by (simp add: level_at_def level_ok_def)
  with assms show "(bs_keys n ! r, bs_children n ! r) \<in> entries xs" using entries_iff by blast
  show "get_child_at_rank r n = Inr (bs_children n ! r)"
    using \<open>\<forall>x\<in>set xs. node_ok B l (snd x)\<close> assms(2-) by (force simp: get_child_at_rank_def node_ok_def)
qed

text \<open>Down from a node that starts with the key to the leaf that starts with it.\<close>

lemma descend_ok:
  assumes "levels_ok B s X E n" "Suc l < n" "(p, m) \<in> set (X (Suc l))" "r < num_elts m" "bs_keys m ! r = k" "l < f"
  shows "\<exists>q. descend f r p s = Inr q \<and> (k, q) \<in> heads (X 0)"
  using assms
proof (induction l arbitrary: p m r f)
  case 0
  have at: "level_at B 1 s (X 1) (E 1)" using levels_okD [OF 0(1,2)] by simp
  have "(p, m) \<in> set (X 1)" using 0(3) by simp
  note er = entry_of_rank [OF at _ this 0(4)] level_at_node [OF at this]
  have "(k, bs_children m ! r) \<in> heads (X 0)" using levels_ok_entries [OF 0(1,2)] er(1) 0(5) by auto
  moreover have "bn_level m = 1" using at 0(3) by (force simp: level_at_def level_ok_def node_ok_def)
  moreover obtain f' where "f = Suc f'" using 0(6) by (cases f) auto
  ultimately show ?case using er by simp
next
  case (Suc l)
  have at: "level_at B (Suc (Suc l)) s (X (Suc (Suc l))) (E (Suc (Suc l)))" using levels_okD [OF Suc.prems(1,2)] .
  note er = entry_of_rank [OF at _ Suc.prems(3,4)] level_at_node [OF at Suc.prems(3)]
  have "(k, bs_children m ! r) \<in> heads (X (Suc l))" using levels_ok_entries [OF Suc.prems(1,2)] er(1) Suc.prems(5) by auto
  then obtain c where c: "(bs_children m ! r, c) \<in> set (X (Suc l))" "hd (bs_keys c) = k" by (auto simp: heads_def)
  have "level_at B (Suc l) s (X (Suc l)) (E (Suc l))" using levels_okD [OF Suc.prems(1)] Suc.prems(2) by simp
  then have "node_ok B (Suc l) c" using c(1) by (force simp: level_at_def level_ok_def)
  then have c0: "0 < num_elts c" "bs_keys c ! 0 = k" using c(2) by (auto simp: node_ok_def hd_conv_nth)
  obtain f' where f: "f = Suc f'" "l < f'" using Suc.prems(6) by (cases f) auto
  obtain q where q: "descend f' 0 (bs_children m ! r) s = Inr q" "(k, q) \<in> heads (X 0)"
    using Suc.IH [OF Suc.prems(1) _ c(1) c0 f(2)] Suc.prems(2) by auto
  moreover have "bn_level m = Suc (Suc l)" using at Suc.prems(3) by (force simp: level_at_def level_ok_def node_ok_def)
  ultimately show ?case using er f(1) by simp
qed

subsection \<open>Reading\<close>

lemma level_at_nodes: "level_at B l s xs e \<Longrightarrow> \<forall>x\<in>set xs. node_ok B l (snd x)"
  by (simp add: level_at_def level_ok_def)

lemma level_at_sorted: "level_at B l s xs e \<Longrightarrow> sorted_wrt (<) (keys_of xs) \<and> distinct (keys_of xs)"
  by (auto simp: level_at_def level_ok_def sorted_wrt_append strict_sorted_iff)

lemma elts_UN:
  assumes "\<forall>x\<in>set xs. node_ok B 0 (snd x)"
  shows "set (elts xs) = (\<Union>x\<in>set xs. set (zip (bs_keys (snd x)) (bs_vals (snd x))))"
  using assms by (induction xs) (simp_all add: elts_def node_ok_def)

lemma elts_append:
  assumes "\<forall>x\<in>set (xs @ ys). node_ok B 0 (snd x)"
  shows "elts (xs @ ys) = elts xs @ elts ys"
proof -
  have "\<forall>x\<in>set xs. node_ok B 0 (snd x)" using assms by simp
  then have "length (keys_of xs) = length (vals_of xs)" using length_vals_of by simp
  then show ?thesis by (simp add: elts_def zip_append)
qed

lemma map_fst_elts: "level_at B 0 s xs e \<Longrightarrow> map fst (elts xs) = keys_of xs"
  using length_vals_of [OF level_at_nodes] by (simp add: elts_def)

lemma elts_lookup:
  assumes "level_at B 0 s xs e" "(q, n) \<in> set xs" "r < num_elts n"
  shows "map_of (elts xs) (bs_keys n ! r) = Some (bs_vals n ! r)" "get_value_at_rank r n = Inr (bs_vals n ! r)"
proof -
  have len: "length (bs_vals n) = num_elts n" using level_at_nodes [OF assms(1)] assms(2) by (force simp: node_ok_def)
  then have "(bs_keys n ! r, bs_vals n ! r) \<in> set (zip (bs_keys n) (bs_vals n))" using assms(3) by (auto simp: set_zip)
  then have "(bs_keys n ! r, bs_vals n ! r) \<in> set (elts xs)"
    unfolding elts_UN [OF level_at_nodes [OF assms(1)]] using assms(2) by (intro UN_I [of "(q, n)"]) auto
  moreover have "distinct (map fst (elts xs))" using map_fst_elts level_at_sorted assms(1) by metis
  ultimately show "map_of (elts xs) (bs_keys n ! r) = Some (bs_vals n ! r)" by simp
  show "get_value_at_rank r n = Inr (bs_vals n ! r)" using len assms(3) by (simp add: get_value_at_rank_def)
qed

lemma elts_none: "level_at B 0 s xs e \<Longrightarrow> k \<notin> set (keys_of xs) \<Longrightarrow> map_of (elts xs) k = None"
  using map_fst_elts [of B s xs e] by (metis list.set_map map_of_eq_None_iff)

lemma heads_node:
  assumes "level_at B l s xs e" "(k, q) \<in> heads xs"
  obtains n where "(q, n) \<in> set xs" "node_of q s = Inr n" "bs_keys n \<noteq> []" "bs_keys n ! 0 = k"
proof -
  obtain n where n: "(q, n) \<in> set xs" "hd (bs_keys n) = k" using assms(2) by (auto simp: heads_def)
  moreover have "bs_keys n \<noteq> []" using level_at_nodes [OF assms(1)] n(1) by (force simp: node_ok_def)
  ultimately show thesis using that level_at_node [OF assms(1)] by (simp add: hd_conv_nth)
qed

lemma value_from_ok:
  assumes "levels_ok B s X E (Suc l)" "(h, p) \<in> heads (X l)" "h \<le> k" "k < max_sentinel" "l < MAX_HEIGHT"
  shows "value_from k (Suc l) p s = Inr (case map_of (elts (X 0)) k of None \<Rightarrow> None | Some v \<Rightarrow> v)"
  using assms
proof (induction l arbitrary: h p)
  case 0
  have at: "level_at B 0 s (X 0) (E 0)" using levels_okD [OF 0(1)] by simp
  obtain us q n vs r where sl: "X 0 = us @ (q, n) # vs" "walk k p s = Inr q" "node_of q s = Inr n" "covers k n"
    "rank_of k (bs_keys n) r" "find_key_and_check k n = Inr (r, k \<in> set (keys_of (X 0)))" "bs_keys n ! r = k \<longleftrightarrow> k \<in> set (keys_of (X 0))"
    using search_level [OF at 0(2-4)] .
  have "(q, n) \<in> set (X 0)" "r < num_elts n" using sl(1,5) by (auto simp: rank_of_def)
  note lk = elts_lookup [OF at this]
  show ?case using sl(2,3,6,7) lk elts_none [OF at] by (cases "k \<in> set (keys_of (X 0))") auto
next
  case (Suc l)
  have at: "level_at B (Suc l) s (X (Suc l)) (E (Suc l))" using levels_okD [OF Suc.prems(1)] by simp
  obtain us q n vs r where sl: "X (Suc l) = us @ (q, n) # vs" "walk k p s = Inr q" "node_of q s = Inr n" "covers k n"
    "rank_of k (bs_keys n) r" "find_key_and_check k n = Inr (r, k \<in> set (keys_of (X (Suc l))))" "bs_keys n ! r = k \<longleftrightarrow> k \<in> set (keys_of (X (Suc l)))"
    using search_level [OF at Suc.prems(2-4)] .
  have q: "(q, n) \<in> set (X (Suc l))" "r < num_elts n" "bs_keys n ! r \<le> k" using sl(1,5) by (auto simp: rank_of_def)
  note er = entry_of_rank [OF at _ q(1,2)]
  show ?case
  proof (cases "k \<in> set (keys_of (X (Suc l)))")
    case True
    obtain d where d: "descend MAX_HEIGHT r q s = Inr d" "(k, d) \<in> heads (X 0)"
      using descend_ok [OF Suc.prems(1) _ q(1,2), of k MAX_HEIGHT] sl(7) True Suc.prems(5) by auto
    have at0: "level_at B 0 s (X 0) (E 0)" using levels_okD [OF Suc.prems(1)] by simp
    obtain m where m: "(d, m) \<in> set (X 0)" "node_of d s = Inr m" "bs_keys m \<noteq> []" "bs_keys m ! 0 = k"
      using heads_node [OF at0 d(2)] .
    show ?thesis using sl(2,3,6) d(1) m(2,4) elts_lookup [OF at0 m(1), of 0] m(3) True by simp
  next
    case False
    have "(bs_keys n ! r, bs_children n ! r) \<in> heads (X l)"
      using er(1) levels_ok_entries [OF Suc.prems(1), of l] by auto
    moreover have "levels_ok B s X E (Suc l)" using Suc.prems(1) by simp
    ultimately show ?thesis using Suc.IH [of "bs_keys n ! r" "bs_children n ! r"] sl(2,3,6) False q(3) er(2) Suc.prems(4,5) by simp
  qed
qed

lemma exists_from_ok:
  assumes "levels_ok B s X E (Suc l)" "(h, p) \<in> heads (X l)" "h \<le> k" "k < max_sentinel"
  shows "exists_from k (Suc l) p s = Inr (\<exists>m\<le>l. k \<in> set (keys_of (X m)))"
  using assms
proof (induction l arbitrary: h p)
  case 0
  have at: "level_at B 0 s (X 0) (E 0)" using levels_okD [OF 0(1)] by simp
  obtain us q n vs r where sl: "X 0 = us @ (q, n) # vs" "walk k p s = Inr q" "node_of q s = Inr n" "covers k n"
    "rank_of k (bs_keys n) r" "find_key_and_check k n = Inr (r, k \<in> set (keys_of (X 0)))" "bs_keys n ! r = k \<longleftrightarrow> k \<in> set (keys_of (X 0))"
    using search_level [OF at 0(2-4)] .
  then show ?case by (auto simp: get_key_at_rank_def rank_of_def)
next
  case (Suc l)
  have at: "level_at B (Suc l) s (X (Suc l)) (E (Suc l))" using levels_okD [OF Suc.prems(1)] by simp
  obtain us q n vs r where sl: "X (Suc l) = us @ (q, n) # vs" "walk k p s = Inr q" "node_of q s = Inr n" "covers k n"
    "rank_of k (bs_keys n) r" "find_key_and_check k n = Inr (r, k \<in> set (keys_of (X (Suc l))))" "bs_keys n ! r = k \<longleftrightarrow> k \<in> set (keys_of (X (Suc l)))"
    using search_level [OF at Suc.prems(2-4)] .
  have q: "(q, n) \<in> set (X (Suc l))" "r < num_elts n" "bs_keys n ! r \<le> k" using sl(1,5) by (auto simp: rank_of_def)
  note er = entry_of_rank [OF at _ q(1,2)]
  have "(bs_keys n ! r, bs_children n ! r) \<in> heads (X l)"
    using er(1) levels_ok_entries [OF Suc.prems(1), of l] by auto
  moreover have "levels_ok B s X E (Suc l)" using Suc.prems(1) by simp
  ultimately have "exists_from k (Suc l) (bs_children n ! r) s = Inr (\<exists>m\<le>l. k \<in> set (keys_of (X m)))"
    using Suc.IH q(3) Suc.prems(4) by blast
  then show ?case using sl(2,3,6,7) q(2) er(2) by (auto simp: get_key_at_rank_def le_Suc_eq)
qed

lemma bs_inv_head:
  assumes "bs_inv T s X E" "l < MAX_HEIGHT"
  shows "(min_sentinel, bs_headers s ! l) \<in> heads (X l)" "level_at (MAX_KEYS T) l s (X l) (E l)"
proof -
  show at: "level_at (MAX_KEYS T) l s (X l) (E l)" using assms levels_okD by (auto simp: bs_inv_def)
  then have "X l \<noteq> []" "hd (keys_of (X l)) = min_sentinel" by (simp_all add: level_at_def level_ok_def)
  moreover have "hd (X l) \<in> set (X l)" using calculation by simp
  then have "bs_keys (snd (hd (X l))) \<noteq> []" using level_at_nodes [OF at] by (simp add: node_ok_def)
  ultimately show "(min_sentinel, bs_headers s ! l) \<in> heads (X l)"
    using keys_of_hd [of "X l"] assms by (force simp: heads_def bs_inv_def)
qed

lemma bs_inv_level_keys:
  "bs_inv T s X E \<Longrightarrow> l < MAX_HEIGHT \<Longrightarrow>
     set (keys_of (X l)) = {k \<in> set (keys_of (X 0)). k = min_sentinel \<or> l \<le> flip_coins T k}"
  unfolding bs_inv_def by blast

lemma bs_inv_headers: "bs_inv T s X E \<Longrightarrow> l < MAX_HEIGHT \<Longrightarrow> bs_headers s ! l = fst (hd (X l))"
  unfolding bs_inv_def by blast

lemma bs_inv_keys:
  assumes "bs_inv T s X E"
  shows "\<exists>v es. elts (X 0) = (min_sentinel, v) # es" "dom (bs_map X) = set (keys_of (X 0)) - {min_sentinel}"
    "k \<noteq> min_sentinel \<Longrightarrow> map_of (elts (X 0)) k = bs_map X k"
proof -
  have at: "level_at (MAX_KEYS T) 0 s (X 0) (E 0)" using bs_inv_head(2) [OF assms] by simp
  have ks: "map fst (elts (X 0)) = keys_of (X 0)" by (rule map_fst_elts [OF at])
  have "hd (keys_of (X 0)) = min_sentinel" "X 0 \<noteq> []" using at by (simp_all add: level_at_def level_ok_def)
  moreover have "keys_of (X 0) \<noteq> []" using level_at_nodes [OF at] \<open>X 0 \<noteq> []\<close> by (cases "X 0") (auto simp: node_ok_def)
  ultimately show "\<exists>v es. elts (X 0) = (min_sentinel, v) # es" unfolding ks [symmetric] by (cases "elts (X 0)") auto
  then obtain v es where e: "elts (X 0) = (min_sentinel, v) # es" by blast
  have "distinct (map fst (elts (X 0)))" using ks level_at_sorted [OF at] by metis
  then have "min_sentinel \<notin> fst ` set es" by (simp add: e)
  moreover have "set (keys_of (X 0)) = insert min_sentinel (fst ` set es)" using arg_cong [OF ks, of set] e by auto
  ultimately show "dom (bs_map X) = set (keys_of (X 0)) - {min_sentinel}" by (auto simp: bs_map_def e dom_map_of_conv_image_fst)
  show "k \<noteq> min_sentinel \<Longrightarrow> map_of (elts (X 0)) k = bs_map X k" by (simp add: bs_map_def e)
qed

text \<open>Reads return what is stored, \<^verbatim>\<open>NULL\<close> for a key that is not there.\<close>

lemma bs_value_ok:
  assumes "bs_inv T s X E" "min_sentinel < k" "k < max_sentinel"
  shows "bs_value k s = Inr (case bs_map X k of None \<Rightarrow> None | Some v \<Rightarrow> v)"
proof -
  have "levels_ok (MAX_KEYS T) s X E (Suc 4)" using assms(1) by (simp add: bs_inv_def numeral_eq_Suc del: levels_ok.simps)
  moreover have "(min_sentinel, bs_headers s ! 4) \<in> heads (X 4)" using bs_inv_head(1) [OF assms(1), of 4] by simp
  ultimately show ?thesis using value_from_ok [of "MAX_KEYS T" s X E 4 min_sentinel "bs_headers s ! 4" k] assms
      bs_inv_keys(3) [OF assms(1), of k] by (simp add: bs_value_def)
qed

lemma bs_exists_ok:
  assumes "bs_inv T s X E" "min_sentinel < k" "k < max_sentinel"
  shows "bs_exists k s = Inr (k \<in> dom (bs_map X))"
proof -
  have "levels_ok (MAX_KEYS T) s X E (Suc 4)" using assms(1) by (simp add: bs_inv_def numeral_eq_Suc del: levels_ok.simps)
  moreover have "(min_sentinel, bs_headers s ! 4) \<in> heads (X 4)" using bs_inv_head(1) [OF assms(1), of 4] by simp
  ultimately have "bs_exists k s = Inr (\<exists>m\<le>4. k \<in> set (keys_of (X m)))"
    using exists_from_ok [of "MAX_KEYS T" s X E 4 min_sentinel "bs_headers s ! 4" k] assms by (simp add: bs_exists_def)
  moreover have "set (keys_of (X m)) \<subseteq> set (keys_of (X 0))" if "m \<le> 4" for m
    using bs_inv_level_keys [OF assms(1), of m] that by auto
  then have "(\<exists>m\<le>4. k \<in> set (keys_of (X m))) \<longleftrightarrow> k \<in> set (keys_of (X 0))" by blast
  ultimately show ?thesis using bs_inv_keys(2) [OF assms(1)] assms(2) by auto
qed

end
