(* ===== verification/Bskip_insert.thy ===== *)
theory Bskip_insert
  imports Bskip_inv
begin

text \<open>
  Insertion keeps the invariant and adds one element. Whatever the case, the node of a level that covers the key becomes
  one or two nodes that together hold the old entries and the new one (\<open>ins_block\<close>); a level with the node so replaced
  is well-formed, and the levels below receive the node the new entry points to.
\<close>

subsection \<open>One node\<close>

lemma insert_nth_props:
  assumes "sorted_wrt (<) ks" "rank_of k ks r" "k \<notin> set ks"
  shows "sorted_wrt (<) (insert_nth (Suc r) k ks)" "hd (insert_nth (Suc r) k ks) = hd ks"
proof -
  have r: "r < length ks" "ks ! r \<le> k" "\<forall>j<length ks. r < j \<longrightarrow> k < ks ! j" using assms(2) by (auto simp: rank_of_def)
  have lo: "\<forall>x\<in>set (take (Suc r) ks). x < k"
  proof
    fix x assume "x \<in> set (take (Suc r) ks)"
    then obtain j where j: "j < Suc r" "j < length ks" "ks ! j = x" by (auto simp: in_set_conv_nth)
    have "x \<le> ks ! r" using sorted_wrt_nth_less [OF assms(1), of j r] j r(1) by (cases "j = r") auto
    moreover have "x \<noteq> k" using j assms(3) by auto
    ultimately show "x < k" using r(2) by simp
  qed
  have hi: "\<forall>x\<in>set (drop (Suc r) ks). k < x" using r(3) by (auto simp: in_set_conv_nth)
  have "sorted_wrt (<) (take (Suc r) ks @ drop (Suc r) ks)" using assms(1) by simp
  then show "sorted_wrt (<) (insert_nth (Suc r) k ks)" using lo hi by (auto simp: insert_nth_def sorted_wrt_append simp del: append_take_drop_id)
  show "hd (insert_nth (Suc r) k ks) = hd ks" using r(1) by (cases ks) (auto simp: insert_nth_def)
qed

definition ins_block :: "nat \<Rightarrow> nat \<Rightarrow> bs_elt \<Rightarrow> nat \<Rightarrow> nat \<Rightarrow> nat \<Rightarrow> bs_node \<Rightarrow> bs_list \<Rightarrow> bool" where
  "ins_block B l e c r p n ms \<longleftrightarrow> ms \<noteq> [] \<and> fst (hd ms) = p \<and> linked ms \<and> (\<forall>x\<in>set ms. node_ok B l (snd x)) \<and>
     bn_next (snd (last ms)) = bn_next n \<and> next_header (snd (last ms)) = next_header n \<and>
     keys_of ms = insert_nth (Suc r) (fst e) (bs_keys n) \<and>
     (if l = 0 then vals_of ms = insert_nth (Suc r) (snd e) (bs_vals n)
      else children_of ms = insert_nth (Suc r) c (bs_children n))"

text \<open>The entry of the new key: at level 0 its value, above the address of the node that is to start with it.\<close>

definition new_child :: "nat \<Rightarrow> nat list \<Rightarrow> nat \<Rightarrow> nat" where
  "new_child l new_nodes i = (if l = 0 then 0 else new_nodes ! i)"

definition child_of :: "nat \<Rightarrow> nat \<Rightarrow> nat \<Rightarrow> bs_node \<Rightarrow> nat" where
  "child_of l r p n = (if l = 0 then p else bs_children n ! r)"

lemma insert_nth_append:
  "r < length xs \<Longrightarrow> insert_nth (Suc r) x (xs @ ys) = insert_nth (Suc r) x xs @ ys"
  "\<not> r < length xs \<Longrightarrow> insert_nth (Suc r) x (xs @ ys) = xs @ insert_nth (Suc (r - length xs)) x ys"
  by (simp_all add: insert_nth_def Suc_diff_le not_less)

lemma insert_nth_nth: "r < length xs \<Longrightarrow> insert_nth (Suc r) x xs ! r = xs ! r"
  by (simp add: insert_nth_def nth_append)

lemma add_entry_ok:
  assumes "node_ok B l n" "Suc (num_elts n) \<le> B" "r < num_elts n" "l > 0 \<longrightarrow> i < length new_nodes"
  shows "\<exists>n'. add_entry l (Suc r) e new_nodes i n = Inr n' \<and> node_ok B l n' \<and>
     bn_next n' = bn_next n \<and> next_header n' = next_header n \<and>
     bs_keys n' = insert_nth (Suc r) (fst e) (bs_keys n) \<and> drop_down l r p n' = Inr (child_of l r p n) \<and>
     (if l = 0 then bs_vals n' = insert_nth (Suc r) (snd e) (bs_vals n)
      else bs_children n' = insert_nth (Suc r) (new_child l new_nodes i) (bs_children n))"
proof (cases "l = 0")
  case True
  then show ?thesis using assms
    by (auto simp: add_entry_def insert_elt_at_rank_def node_ok_def drop_down_def child_of_def insert_nth_def)
next
  case False
  then show ?thesis using assms
    by (auto simp: add_entry_def insert_key_at_rank_def insert_child_at_rank_def new_node_at_def node_ok_def drop_down_def
        child_of_def new_child_def get_child_at_rank_def insert_nth_nth) (auto simp: insert_nth_def)
qed

text \<open>What one level of the insertion leaves: the block in the heap, at the old address and possibly a fresh one.\<close>

definition ins_result :: "nat \<Rightarrow> nat \<Rightarrow> bs_elt \<Rightarrow> nat \<Rightarrow> nat \<Rightarrow> nat \<Rightarrow> bs_node \<Rightarrow> nat set \<Rightarrow> bskip \<Rightarrow> nat \<Rightarrow> bskip \<Rightarrow> bs_list \<Rightarrow> bool" where
  "ins_result B l e c r p n fresh s cur s' ms \<longleftrightarrow> ins_block B l e c r p n ms \<and> distinct (map fst ms) \<and>
     fst ` set (tl ms) \<subseteq> fresh \<and> (l > 0 \<longrightarrow> cur = bs_children n ! r) \<and>
     bs_heap s' = bs_heap s ++ map_of ms \<and> next_addr s \<le> next_addr s' \<and> (\<forall>a\<in>fst ` set (tl ms). a < next_addr s') \<and>
     bs_headers s' = bs_headers s \<and> bs_item_next s' = bs_item_next s"

lemma insert_fit_ok:
  assumes "node_ok B l n" "num_elts n + 1 \<le> B" "r < num_elts n" "l > 0 \<longrightarrow> i < length new_nodes"
  shows "\<exists>cur s' ms. insert_fit l r p n e new_nodes i s = Inr (cur, s') \<and>
     ins_result B l e (new_child l new_nodes i) r p n {} s cur s' ms"
proof -
  obtain n' where "insert_fit l r p n e new_nodes i s = Inr (child_of l r p n, put_node p n' s)"
     "ins_block B l e (new_child l new_nodes i) r p n [(p, n')]"
    using add_entry_ok [OF assms(1) _ assms(3,4), of e p] assms(2) by (auto simp: insert_fit_def ins_block_def)
  then show ?thesis by (auto simp: ins_result_def put_node_def child_of_def fun_eq_iff map_add_def intro!: exI [of _ "[(p, n')]"])
qed

lemma split_overfull_ok:
  assumes "node_ok B l n" "2 \<le> num_elts n"
  defines "new_node \<equiv> if l > 0 then BSkipNodeInternal else BSkipNodeLeaf"
  shows "\<exists>n1 m1. split_overfull l q n new_node = Inr (n1, m1) \<and> node_ok B l n1 \<and> node_ok B l m1 \<and>
     num_elts n1 = num_elts n div 2 \<and> num_elts m1 = num_elts n - num_elts n div 2 \<and>
     bs_keys n = bs_keys n1 @ bs_keys m1 \<and> bn_next n1 = Some q \<and> next_header n1 = hd (bs_keys m1) \<and>
     bn_next m1 = bn_next n \<and> next_header m1 = next_header n \<and>
     (if l = 0 then bs_vals n = bs_vals n1 @ bs_vals m1 else bs_children n = bs_children n1 @ bs_children m1)"
proof -
  let ?h = "num_elts n div 2"
  have h: "0 < ?h" "?h < num_elts n" using assms(2) by auto
  then have ne: "drop ?h (bs_keys n) \<noteq> []" "take ?h (bs_keys n) \<noteq> []" by auto
  show ?thesis
  proof (cases "l = 0")
    case True
    with h ne assms(1) show ?thesis
      by (auto simp: split_overfull_def split_keys_def leaf_split_keys_def new_node_def BSkipNodeLeaf_def BSkipNodeInternal_def
          get_header_def get_key_at_rank_def node_ok_def hd_drop_conv_nth Let_def)
  next
    case False
    with h ne assms(1) show ?thesis
      by (auto simp: split_overfull_def split_keys_def internal_split_keys_def move_children_def new_node_def BSkipNodeInternal_def
          get_header_def get_key_at_rank_def node_ok_def hd_drop_conv_nth Let_def)
  qed
qed

lemma insert_overfull_ok:
  assumes ok: "node_ok B l n" and sz: "2 \<le> num_elts n" "r < num_elts n" and i: "l > 0 \<longrightarrow> i < length new_nodes"
    and q: "q = next_addr s"
    and p: "p < next_addr s"
  shows "\<exists>cur s' ms. insert_overfull l r p n e new_nodes i s = Inr (cur, s') \<and>
     ins_result B l e (new_child l new_nodes i) r p n {q} s cur s' ms"
proof -
  obtain n1 m1 where sp: "split_overfull l q n (if l > 0 then BSkipNodeInternal else BSkipNodeLeaf) = Inr (n1, m1)"
    and ok1: "node_ok B l n1" "node_ok B l m1" and len: "num_elts n1 = num_elts n div 2" "num_elts m1 = num_elts n - num_elts n div 2"
    and keys: "bs_keys n = bs_keys n1 @ bs_keys m1" and nx: "bn_next n1 = Some q" "next_header n1 = hd (bs_keys m1)"
      "bn_next m1 = bn_next n" "next_header m1 = next_header n"
    and body: "if l = 0 then bs_vals n = bs_vals n1 @ bs_vals m1 else bs_children n = bs_children n1 @ bs_children m1"
    using split_overfull_ok [OF ok sz(1), of q] by blast
  have B: "num_elts n \<le> B" using ok by (simp add: node_ok_def)
  have lens: "l = 0 \<longrightarrow> length (bs_vals n1) = num_elts n1" "l > 0 \<longrightarrow> length (bs_children n1) = num_elts n1"
    using ok1 by (auto simp: node_ok_def)
  let ?s = "\<lambda>n' m'. put_node q m' (put_node p n' (snd (alloc_node (if l > 0 then BSkipNodeInternal else BSkipNodeLeaf) s)))"
  have res: "ins_result B l e (new_child l new_nodes i) r p n {q} s cur (?s n' m') [(p, n'), (q, m')]"
    if "ins_block B l e (new_child l new_nodes i) r p n [(p, n'), (q, m')]" "l > 0 \<longrightarrow> cur = bs_children n ! r" for n' m' cur
    using that p q by (auto simp: ins_result_def put_node_def alloc_node_def fun_eq_iff map_add_def)
  show ?thesis
  proof (cases "r < num_elts n1")
    case True
    have "Suc (num_elts n1) \<le> B" using len(1) B sz(1) by linarith
    from add_entry_ok [OF ok1(1) this True i, of e p] obtain n' where n': "add_entry l (Suc r) e new_nodes i n1 = Inr n'"
      "node_ok B l n'" "bn_next n' = Some q" "next_header n' = hd (bs_keys m1)" "bs_keys n' = insert_nth (Suc r) (fst e) (bs_keys n1)"
      "drop_down l r p n' = Inr (child_of l r p n1)"
      "if l = 0 then bs_vals n' = insert_nth (Suc r) (snd e) (bs_vals n1)
      else bs_children n' = insert_nth (Suc r) (new_child l new_nodes i) (bs_children n1)" using nx by auto
    have "l > 0 \<longrightarrow> child_of l r p n1 = bs_children n ! r" using body lens True by (simp add: child_of_def nth_append)
    moreover have "ins_block B l e (new_child l new_nodes i) r p n [(p, n'), (q, m1)]"
      using n' ok1(2) nx keys body lens True by (auto simp: ins_block_def insert_nth_append split: if_splits)
    moreover have "insert_overfull l r p n e new_nodes i s = Inr (child_of l r p n1, ?s n' m1)"
      using n'(1,6) sp True q by (auto simp: insert_overfull_def alloc_node_def Let_def)
    ultimately show ?thesis using res by blast
  next
    case False
    let ?r = "r - num_elts n1"
    have m: "Suc (num_elts m1) \<le> B" "?r < num_elts m1" using len B sz False by linarith+
    from add_entry_ok [OF ok1(2) this i, of e q] obtain m' where m': "add_entry l (Suc ?r) e new_nodes i m1 = Inr m'"
      "node_ok B l m'" "bn_next m' = bn_next n" "next_header m' = next_header n" "bs_keys m' = insert_nth (Suc ?r) (fst e) (bs_keys m1)"
      "drop_down l ?r q m' = Inr (child_of l ?r q m1)"
      "if l = 0 then bs_vals m' = insert_nth (Suc ?r) (snd e) (bs_vals m1)
      else bs_children m' = insert_nth (Suc ?r) (new_child l new_nodes i) (bs_children m1)" using nx by auto
    have "hd (bs_keys m') = hd (bs_keys m1)" using m'(5) m(2) by (cases "bs_keys m1") (auto simp: insert_nth_def)
    moreover have "l > 0 \<longrightarrow> child_of l ?r q m1 = bs_children n ! r" using body lens False by (simp add: child_of_def nth_append)
    moreover have "ins_block B l e (new_child l new_nodes i) r p n [(p, n1), (q, m')]"
      using m' ok1(1) nx keys body lens False calculation(1) by (auto simp: ins_block_def insert_nth_append split: if_splits)
    moreover have "insert_overfull l r p n e new_nodes i s = Inr (child_of l ?r q m1, ?s n1 m')"
      using m'(1,6) sp False q by (auto simp: insert_overfull_def alloc_node_def Let_def)
    ultimately show ?thesis using res by blast
  qed
qed

lemma split_promoted_ok:
  assumes ok: "node_ok B l n" and r: "r < num_elts n" and i: "l > 0 \<longrightarrow> i < length new_nodes"
  defines "new_node \<equiv> if l > 0 then BSkipNodeInternal else BSkipNodeLeaf"
  shows "\<exists>n1 m1. split_promoted l r q n e new_nodes i new_node = Inr (n1, m1) \<and> node_ok B l n1 \<and> node_ok B l m1 \<and>
     bs_keys n1 = take (Suc r) (bs_keys n) \<and> bs_keys m1 = fst e # drop (Suc r) (bs_keys n) \<and>
     bn_next n1 = Some q \<and> next_header n1 = fst e \<and> bn_next m1 = bn_next n \<and> next_header m1 = next_header n \<and>
     (if l = 0 then bs_vals n1 = take (Suc r) (bs_vals n) \<and> bs_vals m1 = snd e # drop (Suc r) (bs_vals n)
      else bs_children n1 = take (Suc r) (bs_children n) \<and>
           bs_children m1 = new_child l new_nodes i # drop (Suc r) (bs_children n))"
proof (cases "l = 0")
  case True
  with r ok show ?thesis
    by (auto simp: split_promoted_def split_keys_def leaf_split_keys_def new_node_def BSkipNodeLeaf_def BSkipNodeInternal_def
        get_header_def get_key_at_rank_def node_ok_def insert_elt_at_rank_def insert_nth_def Let_def)
next
  case False
  with r ok i show ?thesis
    by (auto simp: split_promoted_def split_keys_def internal_split_keys_def move_children_def new_node_def BSkipNodeInternal_def
        get_header_def get_key_at_rank_def node_ok_def insert_key_at_rank_def insert_child_at_rank_def insert_nth_def Let_def
        new_node_at_def new_child_def)
qed

lemma insert_promoted_ok:
  assumes ok: "node_ok B l n" and r: "r < num_elts n" and i: "i < length new_nodes" "l > 0 \<longrightarrow> Suc i < length new_nodes"
    and q: "new_nodes ! i = q" "node_of q s = Inr (if l > 0 then BSkipNodeInternal else BSkipNodeLeaf)" "q \<noteq> p" "q < next_addr s"
  shows "\<exists>cur s' ms. insert_promoted l r p n e new_nodes i s = Inr (cur, s') \<and>
     ins_result B l e (new_child l new_nodes (Suc i)) r p n {q} s cur s' ms \<and> (fst e, q) \<in> heads ms"
proof -
  obtain n1 m1 where sp: "split_promoted l r q n e new_nodes (Suc i) (if l > 0 then BSkipNodeInternal else BSkipNodeLeaf) = Inr (n1, m1)"
    and ok1: "node_ok B l n1" "node_ok B l m1" and keys: "bs_keys n1 = take (Suc r) (bs_keys n)" "bs_keys m1 = fst e # drop (Suc r) (bs_keys n)"
    and nx: "bn_next n1 = Some q" "next_header n1 = fst e" "bn_next m1 = bn_next n" "next_header m1 = next_header n"
    and body: "if l = 0 then bs_vals n1 = take (Suc r) (bs_vals n) \<and> bs_vals m1 = snd e # drop (Suc r) (bs_vals n)
      else bs_children n1 = take (Suc r) (bs_children n) \<and> bs_children m1 = new_child l new_nodes (Suc i) # drop (Suc r) (bs_children n)"
    using split_promoted_ok [OF ok r i(2), of q e] by blast
  let ?s = "put_node p n1 (put_node q m1 s)"
  have "drop_down l r p n1 = Inr (child_of l r p n)"
    using ok r body by (auto simp: drop_down_def child_of_def get_child_at_rank_def node_ok_def)
  then have "insert_promoted l r p n e new_nodes i s = Inr (child_of l r p n, ?s)"
    using sp q i(1) by (simp add: insert_promoted_def new_node_at_def)
  moreover have "ins_block B l e (new_child l new_nodes (Suc i)) r p n [(p, n1), (q, m1)]"
    using ok1 keys nx body by (auto simp: ins_block_def insert_nth_def)
  then have "ins_result B l e (new_child l new_nodes (Suc i)) r p n {q} s (child_of l r p n) ?s [(p, n1), (q, m1)]"
    using q(3,4) by (auto simp: ins_result_def put_node_def child_of_def fun_eq_iff map_add_def)
  moreover have "(fst e, q) \<in> heads [(p, n1), (q, m1)]" by (simp add: keys(2))
  ultimately show ?thesis by blast
qed

subsection \<open>One level\<close>

lemma ins_level:
  assumes at: "level_at B l s (us @ (p, n) # vs) x" and cov: "covers (fst e) n" and r: "rank_of (fst e) (bs_keys n) r"
    and new: "fst e \<notin> set (keys_of (us @ (p, n) # vs))"
    and res: "ins_result B l e c r p n fresh s cur s' ms" and fresh: "fresh \<inter> addrs (us @ (p, n) # vs) x = {}"
  shows "level_at B l s' (us @ ms @ vs) x" "set (keys_of (us @ ms @ vs)) = insert (fst e) (set (keys_of (us @ (p, n) # vs)))"
    "heads (us @ (p, n) # vs) \<subseteq> heads (us @ ms @ vs)" "l > 0 \<Longrightarrow> entries (us @ ms @ vs) \<subseteq> insert (fst e, c) (entries (us @ (p, n) # vs))"
    "l = 0 \<Longrightarrow> set (elts (us @ ms @ vs)) = insert e (set (elts (us @ (p, n) # vs)))"
    "fst (hd (us @ ms @ vs)) = fst (hd (us @ (p, n) # vs))" "addrs (us @ ms @ vs) x \<subseteq> addrs (us @ (p, n) # vs) x \<union> fst ` set (tl ms)"
    "heads ms \<subseteq> heads (us @ ms @ vs)"
proof -
  have ok: "level_ok B l x (us @ (p, n) # vs)" and ho: "bs_holds s (us @ (p, n) # vs @ [(x, end_sentinel l)])"
    and di: "distinct (map fst (us @ (p, n) # vs) @ [x])" and lt: "\<forall>a\<in>addrs (us @ (p, n) # vs) x. a < next_addr s"
    using at by (simp_all add: level_at_def)
  have blk: "ms \<noteq> []" "fst (hd ms) = p" "linked ms" "\<forall>y\<in>set ms. node_ok B l (snd y)"
    "bn_next (snd (last ms)) = bn_next n" "next_header (snd (last ms)) = next_header n"
    and ks: "keys_of ms = insert_nth (Suc r) (fst e) (bs_keys n)"
    and vals: "l = 0 \<Longrightarrow> vals_of ms = insert_nth (Suc r) (snd e) (bs_vals n)"
    and chs: "l > 0 \<Longrightarrow> children_of ms = insert_nth (Suc r) c (bs_children n)"
    and dm: "distinct (map fst ms)" and fr: "fst ` set (tl ms) \<subseteq> fresh" and hp: "bs_heap s' = bs_heap s ++ map_of ms"
    and na: "next_addr s \<le> next_addr s'" "\<forall>a\<in>fst ` set (tl ms). a < next_addr s'"
    using res by (auto simp: ins_result_def ins_block_def split: if_splits)
  note sp = level_ok_split [OF ok]
  obtain m0 ms' where ms: "ms = (p, m0) # ms'" using blk(1,2) by (cases ms) auto
  have nin: "fst e \<notin> set (bs_keys n)" using new by simp
  note inp = insert_nth_props [OF sp(2) r nin]
  have rl: "r < num_elts n" using r by (simp add: rank_of_def)
  have all: "\<forall>y\<in>set (us @ ms @ vs). node_ok B l (snd y)" "\<forall>y\<in>set (us @ (p, n) # vs). node_ok B l (snd y)"
    using ok blk(4) by (auto simp: level_ok_def)
  show L: "set (keys_of (us @ ms @ vs)) = insert (fst e) (set (keys_of (us @ (p, n) # vs)))" by (auto simp: ks)
  have hd1: "hd (bs_keys m0) = hd (bs_keys n)"
    using inp(2) ks blk(4) keys_of_hd [OF blk(1)] by (simp add: ms node_ok_def)
  show ad: "addrs (us @ ms @ vs) x \<subseteq> addrs (us @ (p, n) # vs) x \<union> fst ` set (tl ms)" by (auto simp: ms addrs_def)
  show "level_at B l s' (us @ ms @ vs) x"
    unfolding level_at_def
  proof (intro conjI)
    show "level_ok B l x (us @ ms @ vs)"
      using cov sp(4) by (intro level_ok_replace [OF ok blk(1,3,4,2)]) (simp_all add: blk ks inp covers_def)
    have sub: "fst ` set ms \<subseteq> insert p fresh" using fr by (auto simp: ms)
    have keep: "bs_heap s' a = bs_heap s a" if "a \<in> addrs (us @ (p, n) # vs) x" "a \<noteq> p" for a
    proof -
      have "a \<notin> fst ` set ms" using sub that fresh by blast
      then show ?thesis by (simp add: hp map_add_def map_of_eq_None_iff [THEN iffD2])
    qed
    have "bs_holds s' ms" using dm by (auto simp: bs_holds_def hp map_add_def)
    moreover have "bs_holds s' (us @ vs @ [(x, end_sentinel l)])"
      unfolding bs_holds_def
    proof
      fix y assume y: "y \<in> set (us @ vs @ [(x, end_sentinel l)])"
      then have "fst y \<in> addrs (us @ (p, n) # vs) x" "fst y \<noteq> p" using di by (auto simp: addrs_def)
      then show "bs_heap s' (fst y) = Some (snd y)" using keep [of "fst y"] ho y by (auto simp: bs_holds_def)
    qed
    ultimately show "bs_holds s' ((us @ ms @ vs) @ [(x, end_sentinel l)])" by simp
    show "distinct (map fst (us @ ms @ vs) @ [x])"
      using di dm fr fresh by (auto simp: ms addrs_def)
    show "\<forall>a\<in>addrs (us @ ms @ vs) x. a < next_addr s'"
      using ad lt na by (meson UnE less_le_trans subsetD)
  qed
  show "heads (us @ (p, n) # vs) \<subseteq> heads (us @ ms @ vs)" using hd1 by (auto simp: ms)
  show "heads ms \<subseteq> heads (us @ ms @ vs)" by auto
  show "fst (hd (us @ ms @ vs)) = fst (hd (us @ (p, n) # vs))" by (cases us) (simp_all add: ms)
  have zip: "set (zip (insert_nth (Suc r) a as) (insert_nth (Suc r) b bs)) = insert (a, b) (set (zip as bs))"
    if "length as = length bs" for a b and as :: "64 word list" and bs :: "'b list"
  proof -
    have "set (zip as bs) = set (zip (take (Suc r) as @ drop (Suc r) as) (take (Suc r) bs @ drop (Suc r) bs))" by simp
    also have "\<dots> = set (zip (take (Suc r) as) (take (Suc r) bs)) \<union> set (zip (drop (Suc r) as) (drop (Suc r) bs))"
      using that by (subst zip_append) simp_all
    finally show ?thesis using that by (auto simp: insert_nth_def)
  qed
  show "entries (us @ ms @ vs) \<subseteq> insert (fst e, c) (entries (us @ (p, n) # vs))" if "l > 0"
  proof -
    have "entries ms = insert (fst e, c) (set (zip (bs_keys n) (bs_children n)))"
      using zip [of "bs_keys n" "bs_children n" "fst e" c] sp(1) that by (simp add: entries_def ks chs node_ok_def)
    then show ?thesis
      using entries_UN [OF all(1) that] entries_UN [OF all(2) that] entries_UN [of ms, OF blk(4) that] by auto
  qed
  show "set (elts (us @ ms @ vs)) = insert e (set (elts (us @ (p, n) # vs)))" if "l = 0"
  proof -
    have "set (elts ms) = insert e (set (zip (bs_keys n) (bs_vals n)))"
      using zip [of "bs_keys n" "bs_vals n" "fst e" "snd e"] sp(1) that by (simp add: elts_def ks vals node_ok_def)
    then show ?thesis
      using elts_UN [OF all(1) [unfolded that]] elts_UN [OF all(2) [unfolded that]] elts_UN [OF blk(4) [unfolded that]] by auto
  qed
qed

subsection \<open>All levels\<close>

text \<open>Before level \<open>l\<close> is processed, the nodes for it and the levels below are allocated and not in use.\<close>

definition ready :: "nat \<Rightarrow> nat list \<Rightarrow> nat \<Rightarrow> nat \<Rightarrow> bskip \<Rightarrow> (nat \<Rightarrow> bs_list) \<Rightarrow> (nat \<Rightarrow> nat) \<Rightarrow> bool" where
  "ready ltp new_nodes i l s X E \<longleftrightarrow> length new_nodes = ltp \<and> distinct new_nodes \<and> i = (if l < ltp then ltp - 1 - l else 0) \<and>
     (\<forall>j. i \<le> j \<and> j < ltp \<longrightarrow>
        bs_heap s (new_nodes ! j) = Some (if j = ltp - 1 then BSkipNodeLeaf else BSkipNodeInternal) \<and>
        new_nodes ! j < next_addr s \<and> (\<forall>m\<le>l. new_nodes ! j \<notin> addrs (X m) (E m)))"

definition next_i :: "nat \<Rightarrow> nat \<Rightarrow> nat \<Rightarrow> nat" where
  "next_i l ltp i = (if l < ltp then Suc i else i)"

text \<open>The state after level \<open>l\<close>, which has become \<open>x1\<close>.\<close>

definition level_done :: "nat \<Rightarrow> bs_elt \<Rightarrow> nat \<Rightarrow> nat list \<Rightarrow> nat \<Rightarrow> nat \<Rightarrow> bs_list \<Rightarrow> nat \<Rightarrow> bskip \<Rightarrow> bs_list \<Rightarrow> bskip \<Rightarrow> bool" where
  "level_done B e ltp new_nodes i l x xe s x1 s1 \<longleftrightarrow> level_at B l s1 x1 xe \<and>
     set (keys_of x1) = (if l \<le> ltp then insert (fst e) (set (keys_of x)) else set (keys_of x)) \<and>
     heads x \<subseteq> heads x1 \<and> (l < ltp \<longrightarrow> (fst e, new_nodes ! i) \<in> heads x1) \<and>
     (l > 0 \<longrightarrow> entries x1 \<subseteq> entries x \<union> (if l \<le> ltp then {(fst e, new_nodes ! next_i l ltp i)} else {})) \<and>
     (l = 0 \<longrightarrow> set (elts x1) = insert e (set (elts x))) \<and> fst (hd x1) = fst (hd x) \<and>
     (\<forall>a<next_addr s. a \<notin> addrs x xe \<longrightarrow> (l < ltp \<longrightarrow> a \<noteq> new_nodes ! i) \<longrightarrow> bs_heap s1 a = bs_heap s a) \<and>
     addrs x1 xe \<subseteq> addrs x xe \<union> (if l < ltp then {new_nodes ! i} else {}) \<union> {next_addr s..} \<and>
     next_addr s \<le> next_addr s1 \<and> bs_headers s1 = bs_headers s \<and> bs_item_next s1 = bs_item_next s"

lemma level_done_result:
  assumes at: "level_at B l s x xe" and x: "x = us @ (p, n) # vs" and cov: "covers (fst e) n" and r: "rank_of (fst e) (bs_keys n) r"
    and new: "fst e \<notin> set (keys_of x)" and res: "ins_result B l e (new_child l new_nodes (next_i l ltp i)) r p n fresh s cur s1 ms"
    and fresh: "fresh \<inter> addrs x xe = {}" "fresh \<subseteq> (if l < ltp then {new_nodes ! i} else {}) \<union> {next_addr s..}"
    and ltp: "l \<le> ltp" "l < ltp \<longrightarrow> (fst e, new_nodes ! i) \<in> heads ms"
  shows "level_done B e ltp new_nodes i l x xe s (us @ ms @ vs) s1"
proof -
  note L = ins_level [OF at [unfolded x] cov r new [unfolded x] res fresh(1) [unfolded x], folded x]
  have hp: "bs_heap s1 = bs_heap s ++ map_of ms" and fr: "fst ` set (tl ms) \<subseteq> fresh" and hd: "ms \<noteq> []" "fst (hd ms) = p"
    using res by (auto simp: ins_result_def ins_block_def)
  have sub: "fst ` set ms \<subseteq> insert p fresh" using hd fr by (cases ms) auto
  have p: "p \<in> addrs x xe" by (auto simp: x addrs_def)
  have "bs_heap s1 a = bs_heap s a" if "a < next_addr s" "a \<notin> addrs x xe" "l < ltp \<longrightarrow> a \<noteq> new_nodes ! i" for a
  proof -
    have "a \<notin> fst ` set ms"
    proof
      assume "a \<in> fst ` set ms"
      with sub p that(2) have "a \<in> fresh" by auto
      with fresh(2) that(1,3) show False by (auto split: if_splits)
    qed
    then show ?thesis by (simp add: hp map_add_def map_of_eq_None_iff [THEN iffD2])
  qed
  moreover have "addrs (us @ ms @ vs) xe \<subseteq> addrs x xe \<union> (if l < ltp then {new_nodes ! i} else {}) \<union> {next_addr s..}"
    using L(7) fr fresh(2) by blast
  moreover have "l < ltp \<longrightarrow> (fst e, new_nodes ! i) \<in> heads (us @ ms @ vs)" using ltp(2) L(8) by blast
  moreover have "l > 0 \<longrightarrow> entries (us @ ms @ vs) \<subseteq> entries x \<union> {(fst e, new_nodes ! next_i l ltp i)}"
    using L(4) by (auto simp: new_child_def)
  moreover have "next_addr s \<le> next_addr s1" "bs_headers s1 = bs_headers s" "bs_item_next s1 = bs_item_next s"
    using res by (simp_all add: ins_result_def)
  ultimately show ?thesis using L(1,2,3,5,6) ltp(1) unfolding level_done_def by simp
qed

lemma insert_from_step:
  assumes at: "level_at B l s (X l) (E l)" and hp: "(h, p) \<in> heads (X l)" "h \<le> fst e" "fst e < max_sentinel"
    and new: "fst e \<notin> set (keys_of (X l))" and rd: "ready ltp new_nodes i l s X E" and B: "2 \<le> B"
  shows "\<exists>cur s1 x1. insert_from B e ltp new_nodes i (Suc l) p s = insert_from B e ltp new_nodes (next_i l ltp i) l cur s1 \<and>
     level_done B e ltp new_nodes i l (X l) (E l) s x1 s1 \<and>
     (l > 0 \<longrightarrow> (\<exists>h'. (h', cur) \<in> entries (X l) \<and> h' \<le> fst e))"
proof -
  obtain us q n vs r where sl: "X l = us @ (q, n) # vs" "walk (fst e) p s = Inr q" "node_of q s = Inr n" "covers (fst e) n"
    "rank_of (fst e) (bs_keys n) r" "find_key_and_check (fst e) n = Inr (r, fst e \<in> set (keys_of (X l)))"
    using search_level [OF at hp] by metis
  have q: "(q, n) \<in> set (X l)" and r: "r < num_elts n" "bs_keys n ! r \<le> fst e" using sl(1,5) by (auto simp: rank_of_def)
  have ok: "node_ok B l n" using level_at_nodes [OF at] q by auto
  have qa: "q \<in> addrs (X l) (E l)" "q < next_addr s" using at q by (force simp: level_at_def addrs_def)+
  have i: "length new_nodes = ltp" "i = (if l < ltp then ltp - 1 - l else 0)" using rd by (auto simp: ready_def)
  have ent: "l > 0 \<longrightarrow> (bs_keys n ! r, bs_children n ! r) \<in> entries (X l) \<and> get_child_at_rank r n = Inr (bs_children n ! r)"
    using entry_of_rank [OF at _ q r(1)] by blast
  note res = level_done_result [OF at sl(1,4,5) new]
  have unfold: "insert_from B e ltp new_nodes i (Suc l) p s =
      (if ltp < l then bindE (get_child_at_rank r n) (\<lambda>c. insert_from B e ltp new_nodes i l c s)
       else if ltp = l then (if num_elts n + 1 > B
         then bindE (insert_overfull l r q n e new_nodes i s) (\<lambda>(c, s1). insert_from B e ltp new_nodes i l c s1)
         else bindE (insert_fit l r q n e new_nodes i s) (\<lambda>(c, s1). insert_from B e ltp new_nodes i l c s1))
       else bindE (insert_promoted l r q n e new_nodes i s) (\<lambda>(c, s1). insert_from B e ltp new_nodes (i + 1) l c s1))"
    using sl(2,3,6) new by simp
  consider "ltp < l" | "ltp = l" "num_elts n + 1 > B" | "ltp = l" "num_elts n + 1 \<le> B" | "l < ltp" by linarith
  then show ?thesis
  proof cases
    case 1
    have "level_done B e ltp new_nodes i l (X l) (E l) s (X l) s" using at 1 by (auto simp: level_done_def)
    then show ?thesis unfolding unfold using 1 ent r(2) by (auto simp: next_i_def)
  next
    case 2
    have "2 \<le> num_elts n" "l > 0 \<longrightarrow> i < length new_nodes" using 2 B i by auto
    from insert_overfull_ok [OF ok this(1) r(1) this(2) refl qa(2), of e] obtain cur s1 ms
      where ov: "insert_overfull l r q n e new_nodes i s = Inr (cur, s1)" "ins_result B l e (new_child l new_nodes i) r q n {next_addr s} s cur s1 ms" by blast
    have "next_addr s \<notin> addrs (X l) (E l)" using at by (auto simp: level_at_def)
    then have "level_done B e ltp new_nodes i l (X l) (E l) s (us @ ms @ vs) s1"
      using ov(2) 2(1) by (intro res) (auto simp: next_i_def)
    moreover have "l > 0 \<longrightarrow> cur = bs_children n ! r" using ov(2) by (simp add: ins_result_def)
    ultimately show ?thesis unfolding unfold using ov(1) 2 ent r(2) by (auto simp: next_i_def)
  next
    case 3
    have "l > 0 \<longrightarrow> i < length new_nodes" using 3 i by auto
    from insert_fit_ok [OF ok 3(2) r(1) this, of q e s] obtain cur s1 ms
      where ov: "insert_fit l r q n e new_nodes i s = Inr (cur, s1)" "ins_result B l e (new_child l new_nodes i) r q n {} s cur s1 ms" by blast
    then have "level_done B e ltp new_nodes i l (X l) (E l) s (us @ ms @ vs) s1"
      using ov(2) 3(1) by (intro res) (auto simp: next_i_def)
    moreover have "l > 0 \<longrightarrow> cur = bs_children n ! r" using ov(2) by (simp add: ins_result_def)
    ultimately show ?thesis unfolding unfold using ov(1) 3 ent r(2) by (auto simp: next_i_def)
  next
    case 4
    let ?q = "new_nodes ! i"
    have il: "i < length new_nodes" "l > 0 \<longrightarrow> Suc i < length new_nodes" "i = ltp - 1 \<longleftrightarrow> l = 0" using 4 i by auto
    then have qn: "bs_heap s ?q = Some (if l = 0 then BSkipNodeLeaf else BSkipNodeInternal)" "?q < next_addr s" "?q \<notin> addrs (X l) (E l)"
      using rd i(1) unfolding ready_def by auto
    then have "node_of ?q s = Inr (if l > 0 then BSkipNodeInternal else BSkipNodeLeaf)" "?q \<noteq> q" using qa(1) by (auto simp: node_of_def)
    from insert_promoted_ok [OF ok r(1) il(1,2) refl this qn(2), of e] obtain cur s1 ms
      where ov: "insert_promoted l r q n e new_nodes i s = Inr (cur, s1)"
        "ins_result B l e (new_child l new_nodes (Suc i)) r q n {?q} s cur s1 ms" "(fst e, ?q) \<in> heads ms" by blast
    then have "level_done B e ltp new_nodes i l (X l) (E l) s (us @ ms @ vs) s1"
      using 4 qn(3) by (intro res) (auto simp: next_i_def)
    moreover have "l > 0 \<longrightarrow> cur = bs_children n ! r" using ov(2) by (simp add: ins_result_def)
    ultimately show ?thesis unfolding unfold using ov(1) 4 ent r(2) by (auto simp: next_i_def)
  qed
qed

definition insert_done :: "nat \<Rightarrow> bs_elt \<Rightarrow> nat \<Rightarrow> nat list \<Rightarrow> nat \<Rightarrow> nat \<Rightarrow> bskip \<Rightarrow> (nat \<Rightarrow> bs_list) \<Rightarrow> (nat \<Rightarrow> nat) \<Rightarrow>
    bskip \<Rightarrow> (nat \<Rightarrow> bs_list) \<Rightarrow> bool" where
  "insert_done B e ltp new_nodes i l s X E s' X' \<longleftrightarrow> levels_ok B s' X' E (Suc l) \<and>
     (\<forall>m\<le>l. set (keys_of (X' m)) = (if m \<le> ltp then insert (fst e) (set (keys_of (X m))) else set (keys_of (X m))) \<and>
        fst (hd (X' m)) = fst (hd (X m)) \<and>
        addrs (X' m) (E m) \<subseteq> addrs (X m) (E m) \<union> set (drop i new_nodes) \<union> {next_addr s..}) \<and>
     heads (X l) \<subseteq> heads (X' l) \<and> (l < ltp \<longrightarrow> (fst e, new_nodes ! i) \<in> heads (X' l)) \<and>
     set (elts (X' 0)) = insert e (set (elts (X 0))) \<and>
     (\<forall>a<next_addr s. a \<notin> set (drop i new_nodes) \<longrightarrow> (\<forall>m\<le>l. a \<notin> addrs (X m) (E m)) \<longrightarrow> bs_heap s' a = bs_heap s a) \<and>
     next_addr s \<le> next_addr s' \<and> bs_headers s' = bs_headers s \<and> bs_item_next s' = bs_item_next s"

lemma ready_mem:
  assumes "ready ltp new_nodes i l s X E" "a \<in> set (drop i new_nodes)"
  shows "a < next_addr s" "m \<le> l \<Longrightarrow> a \<notin> addrs (X m) (E m)"
proof -
  have "length new_nodes = ltp" using assms(1) by (simp add: ready_def)
  moreover obtain j where "j < length (drop i new_nodes)" "a = drop i new_nodes ! j" using assms(2) by (auto simp: in_set_conv_nth)
  ultimately have "i + j < ltp" "a = new_nodes ! (i + j)" by simp_all
  with assms(1) show "a < next_addr s" "m \<le> l \<Longrightarrow> a \<notin> addrs (X m) (E m)" by (auto simp: ready_def)
qed

lemma insert_from_ok:
  assumes "levels_ok B s X E (Suc l)" "(h, p) \<in> heads (X l)" "h \<le> fst e" "fst e < max_sentinel"
    "\<forall>m\<le>l. fst e \<notin> set (keys_of (X m))" "ready ltp new_nodes i l s X E" "2 \<le> B"
  shows "\<exists>s' X'. insert_from B e ltp new_nodes i (Suc l) p s = Inr (True, s') \<and> insert_done B e ltp new_nodes i l s X E s' X'"
  using assms
proof (induction l arbitrary: h p i s X)
  case 0
  have at: "level_at B 0 s (X 0) (E 0)" using levels_okD [OF 0(1)] by simp
  obtain cur s1 x1 where st: "insert_from B e ltp new_nodes i (Suc 0) p s = insert_from B e ltp new_nodes (next_i 0 ltp i) 0 cur s1"
    "level_done B e ltp new_nodes i 0 (X 0) (E 0) s x1 s1"
    using insert_from_step [OF at 0(2-4) _ 0(6,7)] 0(5) by blast
  have "0 < ltp \<longrightarrow> new_nodes ! i \<in> set (drop i new_nodes)"
    using 0(6) by (auto simp: ready_def in_set_conv_nth intro!: exI [of _ 0])
  then have "insert_done B e ltp new_nodes i 0 s X E s1 (X(0 := x1))"
    using st(2) unfolding level_done_def insert_done_def by (cases "0 < ltp") auto
  then show ?case using st(1) by auto
next
  case (Suc l)
  let ?L = "Suc l"
  let ?i = "next_i ?L ltp i"
  have at: "level_at B ?L s (X ?L) (E ?L)" using levels_okD [OF Suc.prems(1)] by simp
  obtain cur s1 x1 h' where st: "insert_from B e ltp new_nodes i (Suc ?L) p s = insert_from B e ltp new_nodes ?i ?L cur s1"
    and dn: "level_done B e ltp new_nodes i ?L (X ?L) (E ?L) s x1 s1" and cur: "(h', cur) \<in> entries (X ?L)" "h' \<le> fst e"
    using insert_from_step [OF at Suc.prems(2-4) _ Suc.prems(6,7)] Suc.prems(5) by blast
  have keep: "bs_heap s1 a = bs_heap s a" if "a < next_addr s" "a \<notin> addrs (X ?L) (E ?L)" "?L < ltp \<longrightarrow> a \<noteq> new_nodes ! i" for a
    using dn that by (simp add: level_done_def)
  have na: "next_addr s \<le> next_addr s1" using dn by (simp add: level_done_def)
  have len: "length new_nodes = ltp" "distinct new_nodes" "i = (if ?L < ltp then ltp - 1 - ?L else 0)"
    using Suc.prems(6) by (auto simp: ready_def)
  have ni: "?L < ltp \<longrightarrow> new_nodes ! i \<in> set (drop i new_nodes)"
    using len by (auto simp: in_set_conv_nth intro!: exI [of _ 0])
  have low: "a < next_addr s \<and> a \<notin> addrs (X ?L) (E ?L) \<and> (?L < ltp \<longrightarrow> a \<noteq> new_nodes ! i)" if "m \<le> l" "a \<in> addrs (X m) (E m)" for m a
  proof -
    have "level_at B m s (X m) (E m)" using levels_okD [OF Suc.prems(1)] that(1) by simp
    then have "a < next_addr s" using that(2) by (simp add: level_at_def)
    moreover have "a \<notin> addrs (X ?L) (E ?L)"
      using levels_ok_disj [OF Suc.prems(1), of m ?L] that by auto
    moreover have "?L < ltp \<longrightarrow> a \<noteq> new_nodes ! i" using ni ready_mem(2) [OF Suc.prems(6), of "new_nodes ! i" m] that by auto
    ultimately show ?thesis by simp
  qed
  have lv1: "levels_ok B s1 X E (Suc l)"
  proof (rule levels_ok_frame [OF _ _ _ na])
    show "levels_ok B s X E (Suc l)" using Suc.prems(1) by simp
    show "\<forall>m<Suc l. \<forall>a\<in>addrs (X m) (E m). bs_heap s1 a = bs_heap s a"
      using low keep by (simp add: less_Suc_eq_le del: less_Suc_eq)
  qed simp
  have rd1: "ready ltp new_nodes ?i l s1 X E"
    unfolding ready_def
  proof (intro conjI allI impI)
    show "length new_nodes = ltp" "distinct new_nodes" by (fact len)+
    show "?i = (if l < ltp then ltp - 1 - l else 0)" using len(3) by (auto simp: next_i_def)
    fix j assume j: "?i \<le> j \<and> j < ltp"
    then have "i \<le> j" by (auto simp: next_i_def split: if_splits)
    then have R: "bs_heap s (new_nodes ! j) = Some (if j = ltp - 1 then BSkipNodeLeaf else BSkipNodeInternal)"
      "new_nodes ! j < next_addr s" "\<forall>m\<le>?L. new_nodes ! j \<notin> addrs (X m) (E m)" using Suc.prems(6) j by (auto simp: ready_def)
    moreover have "?L < ltp \<longrightarrow> new_nodes ! j \<noteq> new_nodes ! i" using j len by (auto simp: next_i_def nth_eq_iff_index_eq)
    ultimately show "bs_heap s1 (new_nodes ! j) = Some (if j = ltp - 1 then BSkipNodeLeaf else BSkipNodeInternal)"
      using keep by simp
    show "new_nodes ! j < next_addr s1" using R(2) na by simp
    fix m assume "m \<le> l" then show "new_nodes ! j \<notin> addrs (X m) (E m)" using R(3) by simp
  qed
  have "(h', cur) \<in> heads (X l)" using levels_ok_entries [OF Suc.prems(1), of l] cur(1) by auto
  from Suc.IH [OF lv1 this cur(2) Suc.prems(4) _ rd1 Suc.prems(7)] Suc.prems(5)
  obtain s' X' where fin: "insert_from B e ltp new_nodes ?i ?L cur s1 = Inr (True, s')"
    and dn': "insert_done B e ltp new_nodes ?i l s1 X E s' X'" by auto
  let ?X = "X'(?L := x1)"
  have sub: "set (drop ?i new_nodes) \<subseteq> set (drop i new_nodes)" 
    using set_drop_subset_set_drop [of i ?i new_nodes] by (simp add: next_i_def)
  have keep': "bs_heap s' a = bs_heap s1 a" if "a < next_addr s1" "a \<notin> set (drop ?i new_nodes)" "\<forall>m\<le>l. a \<notin> addrs (X m) (E m)" for a
    using dn' that by (simp add: insert_done_def)
  have na': "next_addr s1 \<le> next_addr s'" using dn' by (simp add: insert_done_def)
  have top: "a < next_addr s1 \<and> a \<notin> set (drop ?i new_nodes) \<and> (\<forall>m\<le>l. a \<notin> addrs (X m) (E m))" if "a \<in> addrs x1 (E ?L)" for a
  proof -
    have "a < next_addr s1" using dn that by (simp add: level_done_def level_at_def)
    moreover have a: "a \<in> addrs (X ?L) (E ?L) \<or> (?L < ltp \<and> a = new_nodes ! i) \<or> next_addr s \<le> a"
      using dn that by (auto simp: level_done_def split: if_splits)
    moreover have "a \<notin> set (drop ?i new_nodes)"
    proof
      assume d: "a \<in> set (drop ?i new_nodes)"
      then have "a \<notin> addrs (X ?L) (E ?L)" "a < next_addr s" using ready_mem [OF Suc.prems(6)] sub by auto
      then have "?L < ltp" "a = new_nodes ! i" using a by auto
      moreover have "distinct (new_nodes ! i # drop (Suc i) new_nodes)"
        using len \<open>?L < ltp\<close> distinct_drop [of new_nodes i] Cons_nth_drop_Suc [of i new_nodes] by simp
      ultimately show False using d by (simp add: next_i_def)
    qed
    moreover have "a \<notin> addrs (X m) (E m)" if "m \<le> l" for m
      using low [OF that, of a] a by auto
    ultimately show ?thesis by blast
  qed
  have "levels_ok B s' ?X E (Suc ?L)"
  proof -
    have "levels_ok B s' X' E (Suc l)" using dn' by (simp add: insert_done_def)
    then have "levels_ok B s' ?X E (Suc l)" by (rule levels_ok_frame) auto
    moreover have "level_at B ?L s' x1 (E ?L)"
      using dn top keep' na' by (intro level_at_frame [of B ?L s1 x1 "E ?L" s']) (auto simp: level_done_def)
    moreover have "entries x1 \<subseteq> heads (X' l)"
    proof -
      have "entries x1 \<subseteq> entries (X ?L) \<union> (if ?L \<le> ltp then {(fst e, new_nodes ! ?i)} else {})"
        using dn by (simp add: level_done_def)
      moreover have "entries (X ?L) \<subseteq> heads (X l)" using levels_ok_entries [OF Suc.prems(1), of l] by simp
      ultimately show ?thesis using dn' by (auto simp: insert_done_def split: if_splits)
    qed
    moreover have "addrs x1 (E ?L) \<inter> addrs (X' m) (E m) = {}" if "m < ?L" for m
    proof -
      have "addrs (X' m) (E m) \<subseteq> addrs (X m) (E m) \<union> set (drop ?i new_nodes) \<union> {next_addr s1..}"
        using dn' that by (simp add: insert_done_def)
      then show ?thesis using top that by fastforce
    qed
    ultimately show ?thesis by simp
  qed
  moreover have "\<forall>m\<le>?L. set (keys_of (?X m)) = (if m \<le> ltp then insert (fst e) (set (keys_of (X m))) else set (keys_of (X m))) \<and>
        fst (hd (?X m)) = fst (hd (X m)) \<and> addrs (?X m) (E m) \<subseteq> addrs (X m) (E m) \<union> set (drop i new_nodes) \<union> {next_addr s..}"
  proof (intro allI impI)
    fix m assume "m \<le> ?L"
    show "set (keys_of (?X m)) = (if m \<le> ltp then insert (fst e) (set (keys_of (X m))) else set (keys_of (X m))) \<and>
        fst (hd (?X m)) = fst (hd (X m)) \<and> addrs (?X m) (E m) \<subseteq> addrs (X m) (E m) \<union> set (drop i new_nodes) \<union> {next_addr s..}"
    proof (cases "m = ?L")
      case True
      then show ?thesis using dn ni by (auto simp: level_done_def split: if_splits)
    next
      case False
      then have "m \<le> l" using \<open>m \<le> ?L\<close> by simp
      then have d: "set (keys_of (X' m)) = (if m \<le> ltp then insert (fst e) (set (keys_of (X m))) else set (keys_of (X m)))"
        "fst (hd (X' m)) = fst (hd (X m))"
        "addrs (X' m) (E m) \<subseteq> addrs (X m) (E m) \<union> set (drop ?i new_nodes) \<union> {next_addr s1..}"
        using dn' by (simp_all add: insert_done_def)
      have "{next_addr s1..} \<subseteq> {next_addr s..}" using na by auto
      with d False sub show ?thesis by auto
    qed
  qed
  moreover have "\<forall>a<next_addr s. a \<notin> set (drop i new_nodes) \<longrightarrow> (\<forall>m\<le>?L. a \<notin> addrs (X m) (E m)) \<longrightarrow> bs_heap s' a = bs_heap s a"
  proof (intro allI impI)
    fix a assume a: "a < next_addr s" "a \<notin> set (drop i new_nodes)" "\<forall>m\<le>?L. a \<notin> addrs (X m) (E m)"
    then have "bs_heap s1 a = bs_heap s a" using ni by (intro keep) auto
    moreover have "bs_heap s' a = bs_heap s1 a" using a na sub by (intro keep') auto
    ultimately show "bs_heap s' a = bs_heap s a" by simp
  qed
  moreover have "heads (X ?L) \<subseteq> heads x1" "?L < ltp \<longrightarrow> (fst e, new_nodes ! i) \<in> heads x1"
    "bs_headers s1 = bs_headers s" "bs_item_next s1 = bs_item_next s" using dn by (simp_all add: level_done_def)
  moreover have "set (elts (X' 0)) = insert e (set (elts (X 0)))" "bs_headers s' = bs_headers s1" "bs_item_next s' = bs_item_next s1"
    using dn' by (simp_all add: insert_done_def)
  ultimately have "insert_done B e ltp new_nodes i ?L s X E s' ?X"
    using na na' unfolding insert_done_def by (simp del: levels_ok.simps)
  then show ?case using st fin by auto
qed

subsection \<open>The operation\<close>

lemma flip_loop_le: "r \<le> MAX_HEIGHT - 1 \<Longrightarrow> flip_loop h r \<le> MAX_HEIGHT - 1"
  by (induction h r rule: flip_loop.induct) (subst flip_loop.simps, auto)

lemma flip_coins_le: "flip_coins T k \<le> 4"
  using flip_loop_le [of 0 "std_hash T k"] by (simp add: flip_coins_def)

lemma alloc_nodes_ok:
  "alloc_nodes ns s = (ps, s') \<Longrightarrow> ps = [next_addr s..<next_addr s + length ns] \<and> next_addr s' = next_addr s + length ns \<and>
     (\<forall>j<length ns. bs_heap s' (next_addr s + j) = Some (ns ! j)) \<and> (\<forall>a<next_addr s. bs_heap s' a = bs_heap s a) \<and>
     bs_headers s' = bs_headers s \<and> bs_item_next s' = bs_item_next s"
proof (induction ns arbitrary: s ps)
  case (Cons n ns)
  obtain p s1 ps' where a: "alloc_node n s = (p, s1)" "alloc_nodes ns s1 = (ps', s')" "ps = p # ps'"
    using Cons.prems by (auto split: prod.splits)
  have s1: "p = next_addr s" "next_addr s1 = Suc (next_addr s)" "bs_heap s1 = (bs_heap s)(next_addr s \<mapsto> n)"
    "bs_headers s1 = bs_headers s" "bs_item_next s1 = bs_item_next s" using a(1) by (auto simp: alloc_node_def)
  note IH = Cons.IH [OF a(2)]
  have "bs_heap s' (next_addr s + j) = Some ((n # ns) ! j)" if "j < length (n # ns)" for j
    using that IH s1 by (cases j) auto
  moreover have "[next_addr s..<next_addr s + length (n # ns)] = next_addr s # [Suc (next_addr s)..<Suc (next_addr s) + length ns]"
    by (simp add: upt_conv_Cons del: upt_Suc)
  ultimately show ?case using IH a(3) s1 by (simp del: upt_Suc)
qed simp

lemma bs_map_eq:
  assumes "level_at B 0 s (X 0) e0"
  shows "bs_map X = (map_of (elts (X 0)))(min_sentinel := None)"
proof -
  have ks: "map fst (elts (X 0)) = keys_of (X 0)" by (rule map_fst_elts [OF assms])
  have ne: "hd (keys_of (X 0)) = min_sentinel" "X 0 \<noteq> []" "bs_keys (snd (hd (X 0))) \<noteq> []"
    using assms by (auto simp: level_at_def level_ok_def node_ok_def)
  then have "keys_of (X 0) \<noteq> []" by (cases "X 0") auto
  then obtain v es where e: "elts (X 0) = (min_sentinel, v) # es"
    using ne(1) unfolding ks [symmetric] by (cases "elts (X 0)") auto
  have "distinct (map fst (elts (X 0)))" using ks level_at_sorted [OF assms] by metis
  then have "map_of es min_sentinel = None" by (auto simp: e map_of_eq_None_iff)
  then show ?thesis by (auto simp: bs_map_def e fun_eq_iff)
qed

lemma map_of_insert:
  assumes "set ys = insert (k, v) (set xs)" "distinct (map fst xs)" "distinct (map fst ys)" "k \<notin> fst ` set xs"
  shows "map_of ys = (map_of xs)(k \<mapsto> v)"
proof
  fix a
  show "map_of ys a = ((map_of xs)(k \<mapsto> v)) a"
  proof (cases "a = k")
    case True
    then show ?thesis using assms(1,3) by simp
  next
    case False
    have "map_of ys a = Some b \<longleftrightarrow> map_of xs a = Some b" for b using assms False by simp
    then show ?thesis using False by (cases "map_of xs a"; cases "map_of ys a") auto
  qed
qed

lemma bs_inv_levels: "bs_inv T s X E \<Longrightarrow> levels_ok (MAX_KEYS T) s X E (Suc 4)"
  by (simp add: bs_inv_def numeral_eq_Suc del: levels_ok.simps)

lemma block_fitsD: "block_fits T \<Longrightarrow> 2 \<le> MAX_KEYS T" "block_fits T \<Longrightarrow> flip_coins T k \<le> MAX_KEYS T"
  by (simp_all add: block_fits_def)

lemma block_fits_four: "4 \<le> MAX_KEYS T \<Longrightarrow> block_fits T"
  using flip_coins_le [of T] by (fastforce simp: block_fits_def intro: order_trans)

lemma bs_inv_fits: "bs_inv T s X E \<Longrightarrow> block_fits T"
  by (simp add: bs_inv_def)

lemma bs_insert_eq:
  assumes "block_fits T" "min_sentinel < fst e" "fst e < max_sentinel" "alloc_nodes (promotion_nodes (flip_coins T (fst e))) s = (ps, s1)"
  shows "bs_insert T e s = insert_from (MAX_KEYS T) e (flip_coins T (fst e)) ps 0 (Suc 4) (bs_headers s1 ! 4) s1"
proof -
  have "(5::nat) = Suc 4" "fst e \<noteq> min_sentinel" "fst e \<noteq> max_sentinel" using assms by auto
  then show ?thesis using assms(4) block_fitsD(2) [OF assms(1)] by (simp add: bs_insert_def guard_def del: insert_from.simps)
qed

lemma bs_insert_new:
  assumes inv: "bs_inv T s X E" and k: "min_sentinel < fst e" "fst e < max_sentinel" and new: "fst e \<notin> dom (bs_map X)"
  shows "\<exists>s' X'. bs_insert T e s = Inr (True, s') \<and> bs_inv T s' X' E \<and> bs_map X' = (bs_map X)(fst e \<mapsto> snd e) \<and>
     bs_item_next s' = bs_item_next s"
proof -
  let ?B = "MAX_KEYS T" and ?l = "flip_coins T (fst e)"
  obtain ps s1 where al: "alloc_nodes (promotion_nodes ?l) s = (ps, s1)" by (metis surj_pair)
  note a = alloc_nodes_ok [OF al]
  have lps: "length (promotion_nodes ?l) = ?l" by (auto simp: promotion_nodes_def)
  have at: "level_at ?B m s (X m) (E m)" if "m < 5" for m using bs_inv_head(2) [OF inv that] .
  have lt: "b < next_addr s" if "b \<in> addrs (X m) (E m)" "m < 5" for b m using at [OF that(2)] that(1) by (simp add: level_at_def)
  have lv: "levels_ok ?B s1 X E (Suc 4)"
    using bs_inv_levels [OF inv] a lt by (intro levels_ok_frame [of ?B s X E "Suc 4" X s1]) auto
  have rd: "ready ?l ps 0 4 s1 X E"
    unfolding ready_def
  proof (intro conjI allI impI)
    show "length ps = ?l" "distinct ps" using a lps by auto
    show "0 = (if 4 < ?l then ?l - 1 - 4 else 0)" using flip_coins_le [of T "fst e"] by simp
    fix j assume j: "0 \<le> j \<and> j < ?l"
    then have nth: "ps ! j = next_addr s + j" using a lps by simp
    show "bs_heap s1 (ps ! j) = Some (if j = ?l - 1 then BSkipNodeLeaf else BSkipNodeInternal)"
      using a lps j unfolding nth by (auto simp: promotion_nodes_def nth_append)
    show "ps ! j < next_addr s1" using a lps j unfolding nth by simp
    fix m :: nat assume "m \<le> 4" then show "ps ! j \<notin> addrs (X m) (E m)" using lt [of "ps ! j" m] unfolding nth by auto
  qed
  have hd: "(min_sentinel, bs_headers s1 ! 4) \<in> heads (X 4)" using bs_inv_head(1) [OF inv, of 4] a by simp
  have K0: "fst e \<notin> set (keys_of (X 0))" using bs_inv_keys(2) [OF inv] new k(1) by auto
  have nk: "\<forall>m\<le>4. fst e \<notin> set (keys_of (X m))"
  proof (intro allI impI)
    fix m :: nat assume "m \<le> 4"
    then show "fst e \<notin> set (keys_of (X m))" using bs_inv_level_keys [OF inv, of m] K0 by auto
  qed
  have B: "2 \<le> ?B" using block_fitsD(1) [OF bs_inv_fits [OF inv]] .
  obtain s' X' where run: "insert_from ?B e ?l ps 0 (Suc 4) (bs_headers s1 ! 4) s1 = Inr (True, s')"
    and dn: "insert_done ?B e ?l ps 0 4 s1 X E s' X'"
    using insert_from_ok [OF lv hd _ k(2) nk rd B] by auto
  have lv': "levels_ok ?B s' X' E (Suc 4)" and hds: "bs_headers s' = bs_headers s" "bs_item_next s' = bs_item_next s"
    and el: "set (elts (X' 0)) = insert e (set (elts (X 0)))" using dn a by (simp_all add: insert_done_def del: levels_ok.simps)
  have lvl: "set (keys_of (X' m)) = (if m \<le> ?l then insert (fst e) (set (keys_of (X m))) else set (keys_of (X m)))"
    "fst (hd (X' m)) = fst (hd (X m))" if "m \<le> 4" for m using dn that by (simp_all add: insert_done_def)
  have "bs_inv T s' X' E"
    unfolding bs_inv_def
  proof (intro conjI allI impI)
    show "levels_ok ?B s' X' E 5" using lv' by (simp add: numeral_eq_Suc del: levels_ok.simps)
    fix m :: nat assume m: "m < 5"
    show "bs_headers s' ! m = fst (hd (X' m))" using inv lvl(2) [of m] hds m by (simp add: bs_inv_def)
    show "set (keys_of (X' m)) = {k \<in> set (keys_of (X' 0)). k = min_sentinel \<or> m \<le> flip_coins T k}"
      using bs_inv_level_keys [OF inv m] lvl(1) [of m] lvl(1) [of 0] m k(1) by auto
  qed (rule bs_inv_fits [OF inv])
  moreover have "bs_map X' = (bs_map X)(fst e \<mapsto> snd e)"
  proof -
    have at': "level_at ?B 0 s' (X' 0) (E 0)" using levels_okD [OF lv'] by simp
    have "distinct (map fst (elts (X 0)))" "distinct (map fst (elts (X' 0)))"
      using map_fst_elts [OF at'] map_fst_elts [OF at [of 0]] level_at_sorted [OF at'] level_at_sorted [OF at [of 0]] by simp_all
    moreover have "fst e \<notin> fst ` set (elts (X 0))" using K0 map_fst_elts [OF at [of 0]] by (metis list.set_map zero_less_numeral)
    ultimately have "map_of (elts (X' 0)) = (map_of (elts (X 0)))(fst e \<mapsto> snd e)" using el by (intro map_of_insert) simp_all
    then show ?thesis using bs_map_eq [where X = X', OF at'] bs_map_eq [where X = X, OF at [of 0]] k(1) by (auto simp: fun_upd_twist)
  qed
  moreover have "bs_insert T e s = Inr (True, s')"
    using run k by (simp only: bs_insert_eq [OF bs_inv_fits [OF inv] k al])
  ultimately show ?thesis using hds by blast
qed

text \<open>The key is there: the descent ends at the leaf entry of the key.\<close>

lemma insert_from_found:
  assumes "levels_ok B s X E (Suc l)" "(h, p) \<in> heads (X l)" "h \<le> fst e" "fst e < max_sentinel" "l < MAX_HEIGHT"
    "\<forall>m\<le>l. fst e \<in> set (keys_of (X m)) \<longleftrightarrow> m \<le> ltp"
  shows "\<exists>q n r. insert_from B e ltp new_nodes i (Suc l) p s = bindE (replace_value e q r s) (\<lambda>s1. Inr (True, s1)) \<and>
     (q, n) \<in> set (X 0) \<and> r < num_elts n \<and> bs_keys n ! r = fst e"
  using assms
proof (induction l arbitrary: h p)
  case 0
  have at: "level_at B 0 s (X 0) (E 0)" using levels_okD [OF 0(1)] by simp
  obtain us q n vs r where sl: "X 0 = us @ (q, n) # vs" "walk (fst e) p s = Inr q" "node_of q s = Inr n"
    "rank_of (fst e) (bs_keys n) r" "find_key_and_check (fst e) n = Inr (r, fst e \<in> set (keys_of (X 0)))"
    "bs_keys n ! r = fst e \<longleftrightarrow> fst e \<in> set (keys_of (X 0))"
    using search_level [OF at 0(2-4)] by metis
  then have "(q, n) \<in> set (X 0)" "r < num_elts n" by (auto simp: rank_of_def)
  then show ?case using sl 0(6) by auto
next
  case (Suc l)
  have at: "level_at B (Suc l) s (X (Suc l)) (E (Suc l))" using levels_okD [OF Suc.prems(1)] by simp
  obtain us q n vs r where sl: "X (Suc l) = us @ (q, n) # vs" "walk (fst e) p s = Inr q" "node_of q s = Inr n"
    "rank_of (fst e) (bs_keys n) r" "find_key_and_check (fst e) n = Inr (r, fst e \<in> set (keys_of (X (Suc l))))"
    "bs_keys n ! r = fst e \<longleftrightarrow> fst e \<in> set (keys_of (X (Suc l)))"
    using search_level [OF at Suc.prems(2-4)] by metis
  have q: "(q, n) \<in> set (X (Suc l))" "r < num_elts n" "bs_keys n ! r \<le> fst e" using sl(1,4) by (auto simp: rank_of_def)
  note er = entry_of_rank [OF at _ q(1,2)]
  show ?case
  proof (cases "Suc l \<le> ltp")
    case True
    then have f: "fst e \<in> set (keys_of (X (Suc l)))" using Suc.prems(6) by blast
    obtain d where d: "descend MAX_HEIGHT r q s = Inr d" "(fst e, d) \<in> heads (X 0)"
      using descend_ok [OF Suc.prems(1) _ q(1,2), of "fst e" MAX_HEIGHT] sl(6) f Suc.prems(5) by auto
    have at0: "level_at B 0 s (X 0) (E 0)" using levels_okD [OF Suc.prems(1)] by simp
    obtain m where m: "(d, m) \<in> set (X 0)" "bs_keys m \<noteq> []" "bs_keys m ! 0 = fst e"
      using heads_node [OF at0 d(2)] by metis
    moreover have "insert_from B e ltp new_nodes i (Suc (Suc l)) p s = bindE (replace_value e d 0 s) (\<lambda>s1. Inr (True, s1))"
      using sl(2,3,5) d(1) f by simp
    moreover have "0 < num_elts m" using m(2) by simp
    ultimately show ?thesis by blast
  next
    case False
    then have nf: "fst e \<notin> set (keys_of (X (Suc l)))" using Suc.prems(6) by blast
    have "(bs_keys n ! r, bs_children n ! r) \<in> heads (X l)"
      using er(1) levels_ok_entries [OF Suc.prems(1), of l] by auto
    moreover have "levels_ok B s X E (Suc l)" using Suc.prems(1) by simp
    ultimately show ?thesis using Suc.IH [of "bs_keys n ! r" "bs_children n ! r"] sl(2,3,5) nf False q(3) er(2) Suc.prems(4-6) by simp
  qed
qed

lemma elts_replace_value:
  assumes at: "level_at B 0 s xs e" and at': "level_at B' 0 s' (us @ (q, set_elt_at_rank r (k, v) n) # vs) e'"
    and x: "xs = us @ (q, n) # vs" and r: "r < num_elts n" "bs_keys n ! r = k"
  shows "map_of (elts (us @ (q, set_elt_at_rank r (k, v) n) # vs)) = (map_of (elts xs))(k \<mapsto> v)"
proof
  fix b
  let ?n = "set_elt_at_rank r (k, v) n"
  have kn: "bs_keys ?n = bs_keys n" using r(2) by (auto simp: set_elt_at_rank_def)
  have len: "length (bs_vals n) = num_elts n" using level_at_nodes [OF at] by (simp add: x node_ok_def)
  show "map_of (elts (us @ (q, ?n) # vs)) b = ((map_of (elts xs))(k \<mapsto> v)) b"
  proof (cases "b = k")
    case True
    then show ?thesis using elts_lookup(1) [OF at', of q ?n r] r len by (simp add: kn) (simp add: set_elt_at_rank_def)
  next
    case bk: False
    show ?thesis
    proof (cases "b \<in> set (keys_of xs)")
      case True
      then obtain p' m j where m: "(p', m) \<in> set xs" "j < num_elts m" "bs_keys m ! j = b"
        by (auto simp: keys_of_def in_set_conv_nth)
      define m' where "m' = (if (p', m) = (q, n) then ?n else m)"
      have "(p', m') \<in> set (us @ (q, ?n) # vs)" "bs_keys m' = bs_keys m" using m(1) by (auto simp: m'_def x kn)
      moreover have "bs_vals m' ! j = bs_vals m ! j"
      proof -
        have "r \<noteq> j" if "m = n" using m(3) r(2) bk that by auto
        then show ?thesis by (simp add: m'_def set_elt_at_rank_def)
      qed
      ultimately show ?thesis using elts_lookup(1) [OF at', of p' m' j] elts_lookup(1) [OF at m(1,2)] m(2,3) bk by simp
    next
      case False
      then have "b \<notin> set (keys_of (us @ (q, ?n) # vs))" by (simp add: x kn)
      then show ?thesis using elts_none [OF at'] elts_none [OF at False] bk by simp
    qed
  qed
qed

lemma bs_insert_replace:
  assumes inv: "bs_inv T s X E" and k: "min_sentinel < k" "k < max_sentinel" and old: "bs_map X k = Some old"
  shows "\<exists>s' X'. bs_insert T (k, Some i) s = Inr (True, s') \<and> bs_inv T s' X' E \<and> bs_map X' = (bs_map X)(k \<mapsto> Some i) \<and>
     bs_item_next s' = (bs_item_next s)(i := old)"
proof -
  let ?B = "MAX_KEYS T" and ?l = "flip_coins T k"
  obtain ps s1 where al: "alloc_nodes (promotion_nodes ?l) s = (ps, s1)" by (metis surj_pair)
  note a = alloc_nodes_ok [OF al]
  have at: "level_at ?B m s (X m) (E m)" if "m < 5" for m using bs_inv_head(2) [OF inv that] .
  have lt: "b < next_addr s" if "b \<in> addrs (X m) (E m)" "m < 5" for b m using at [OF that(2)] that(1) by (simp add: level_at_def)
  have lv: "levels_ok ?B s1 X E (Suc 4)"
    using bs_inv_levels [OF inv] a lt by (intro levels_ok_frame [of ?B s X E "Suc 4" X s1]) auto
  have hd: "(min_sentinel, bs_headers s1 ! 4) \<in> heads (X 4)" using bs_inv_head(1) [OF inv, of 4] a by simp
  have K0: "k \<in> set (keys_of (X 0))" using bs_inv_keys(2) [OF inv] old by blast
  have lvl: "\<forall>m\<le>4. k \<in> set (keys_of (X m)) \<longleftrightarrow> m \<le> ?l"
  proof (intro allI impI)
    fix m :: nat assume "m \<le> 4"
    then show "k \<in> set (keys_of (X m)) \<longleftrightarrow> m \<le> ?l" using bs_inv_level_keys [OF inv, of m] K0 k(1) by auto
  qed
  obtain q n r where run: "insert_from ?B (k, Some i) ?l ps 0 (Suc 4) (bs_headers s1 ! 4) s1 =
      bindE (replace_value (k, Some i) q r s1) (\<lambda>s2. Inr (True, s2))" and n: "(q, n) \<in> set (X 0)" "r < num_elts n" "bs_keys n ! r = k"
    using insert_from_found [OF lv hd, of "(k, Some i)" ?l ps 0] k(2) lvl by auto
  have at1: "level_at ?B 0 s1 (X 0) (E 0)" using levels_okD [OF lv] by simp
  obtain us vs where x: "X 0 = us @ (q, n) # vs" using n(1) by (meson split_list)
  have ok: "node_ok ?B 0 n" using level_at_nodes [OF at1] n(1) by auto
  note lk = elts_lookup [OF at1 n(1,2)]
  have "old = bs_vals n ! r" using lk(1) old n(3) bs_map_eq [where X = X, OF at1] k(1) by (auto split: if_splits)
  let ?n = "set_elt_at_rank r (k, Some i) n"
  let ?s = "put_node q ?n (s1\<lparr>bs_item_next := (bs_item_next s1)(i := old)\<rparr>)"
  let ?X = "X(0 := us @ (q, ?n) # vs)"
  have rep: "replace_value (k, Some i) q r s1 = Inr ?s"
    using level_at_node [OF at1 n(1)] lk(2) \<open>old = _\<close> by (simp add: replace_value_def dbx1000_chain_onto_def not_null_def)
  have kn: "bs_keys ?n = bs_keys n" and nx: "bn_next ?n = bn_next n" "next_header ?n = next_header n"
    using n(3) by (auto simp: set_elt_at_rank_def)
  have ks: "keys_of (?X m) = keys_of (X m)" for m by (simp add: x kn)
  have q: "q \<in> addrs (X 0) (E 0)" using x by (auto simp: addrs_def)
  have lv0: "level_at ?B 0 ?s (us @ (q, ?n) # vs) (E 0)"
    unfolding level_at_def
  proof (intro conjI)
    have "node_ok ?B 0 ?n" using ok n(3) by (simp add: node_ok_def set_elt_at_rank_def)
    then have "level_ok ?B 0 (E 0) (us @ [(q, ?n)] @ vs)"
      using at1 level_ok_split [of ?B 0 "E 0" us q n vs] by (intro level_ok_replace [of ?B 0 "E 0" us q n vs]) (simp_all add: level_at_def x kn nx)
    then show "level_ok ?B 0 (E 0) (us @ (q, ?n) # vs)" by simp
    show "bs_holds ?s ((us @ (q, ?n) # vs) @ [(E 0, end_sentinel 0)])"
      using at1 by (auto simp: level_at_def x bs_holds_def put_node_def)
    show "distinct (map fst (us @ (q, ?n) # vs) @ [E 0])" using at1 by (simp add: level_at_def x)
    show "\<forall>p\<in>addrs (us @ (q, ?n) # vs) (E 0). p < next_addr ?s" using at1 by (simp add: level_at_def x addrs_def put_node_def)
  qed
  have hd0: "heads (?X m) = heads (X m)" for m by (simp add: x kn)
  have "levels_ok ?B ?s ?X E (Suc m)" if "m \<le> 4" for m
    using that
  proof (induction m)
    case 0
    then show ?case using lv0 by (simp del: fun_upd_apply add: fun_upd_same)
  next
    case (Suc m)
    have "levels_ok ?B s1 X E (Suc (Suc m))" using lv Suc.prems by (intro levels_ok_le [OF lv]) simp
    moreover have "level_at ?B (Suc m) ?s (X (Suc m)) (E (Suc m))"
    proof (rule level_at_frame [OF levels_okD [OF lv]])
      have "q \<notin> addrs (X (Suc m)) (E (Suc m))" using levels_ok_disj [OF lv, of 0 "Suc m"] q Suc.prems by auto
      then show "\<forall>p\<in>addrs (X (Suc m)) (E (Suc m)). bs_heap ?s p = bs_heap s1 p" by (auto simp: put_node_def)
    qed (use Suc.prems in \<open>simp_all add: put_node_def\<close>)
    moreover have "addrs (?X j) (E j) = addrs (X j) (E j)" for j by (simp add: x addrs_def)
    ultimately show ?case using Suc hd0 [of m] by (simp del: fun_upd_apply add: fun_upd_other)
  qed
  from this [of 4] have "bs_inv T ?s ?X E"
    unfolding bs_inv_def
  proof (intro conjI allI impI)
    show "block_fits T" by (rule bs_inv_fits [OF inv])
    fix m :: nat assume m: "m < 5"
    have "fst (hd (?X m)) = fst (hd (X m))" by (cases us) (simp_all add: x)
    then show "bs_headers ?s ! m = fst (hd (?X m))" using inv m a by (simp add: bs_inv_def put_node_def del: fun_upd_apply)
    show "set (keys_of (?X m)) = {k \<in> set (keys_of (?X 0)). k = min_sentinel \<or> m \<le> flip_coins T k}"
      unfolding ks by (rule bs_inv_level_keys [OF inv m])
  qed (simp_all add: numeral_eq_Suc del: levels_ok.simps)
  moreover have "bs_map ?X = (bs_map X)(k \<mapsto> Some i)"
  proof -
    have "level_at ?B 0 ?s (?X 0) (E 0)" using lv0 by (simp del: fun_upd_apply add: fun_upd_same)
    from bs_map_eq [where X = ?X, OF this] have "bs_map ?X = (map_of (elts (us @ (q, ?n) # vs)))(min_sentinel := None)" by simp
    then show ?thesis
      using bs_map_eq [where X = X, OF at1] elts_replace_value [OF at1 lv0 x n(2,3)] k(1) by (simp add: fun_upd_twist)
  qed
  moreover have "bs_insert T (k, Some i) s = Inr (True, ?s)"
    using run rep k by (simp only: bs_insert_eq [of T "(k, Some i)", unfolded fst_conv, OF bs_inv_fits [OF inv] k al]) simp
  ultimately show ?thesis using a by (auto simp: put_node_def)
qed

end
