(* ===== verification/Bskip_delete.thy ===== *)
theory Bskip_delete
  imports Bskip_insert
begin

text \<open>
  Deletion keeps the invariant and removes one element. On every level of the key its entry goes: from inside a node, or as
  the first entry of a node, together with the node when it was the only one; then the node before is
  linked past it. The nodes of all other levels and entries stay as they are.
\<close>

subsection \<open>One level\<close>

lemma delete_nth_props:
  fixes ks :: "64 word list"
  assumes "sorted_wrt (<) ks" "r < length ks"
  shows "sorted_wrt (<) (delete_nth r ks)" "set (delete_nth r ks) = set ks - {ks ! r}"
proof -
  have sp: "ks = take r ks @ ks ! r # drop (Suc r) ks" using assms(2) by (rule id_take_nth_drop)
  then have "sorted_wrt (<) (take r ks @ ks ! r # drop (Suc r) ks)" using assms(1) by simp
  then show "sorted_wrt (<) (delete_nth r ks)" unfolding delete_nth_def by (rule sorted_wrt_remove)
  have "distinct (take r ks @ ks ! r # drop (Suc r) ks)" using assms(1) sp by (metis strict_sorted_iff)
  then have "ks ! r \<notin> set (delete_nth r ks)" by (auto simp: delete_nth_def)
  moreover have "set ks = insert (ks ! r) (set (delete_nth r ks))" by (subst sp) (auto simp: delete_nth_def)
  ultimately show "set (delete_nth r ks) = set ks - {ks ! r}" by auto
qed

lemma zip_delete_nth: "zip (delete_nth r as) (delete_nth r bs) = delete_nth r (zip as bs)" if "length as = length bs"
  using that by (simp add: delete_nth_def zip_append drop_zip take_zip)

lemma set_zip_delete_nth:
  fixes as :: "64 word list"
  assumes "sorted_wrt (<) as" "length as = length bs" "r < length as"
  shows "set (zip (delete_nth r as) (delete_nth r bs)) = {x \<in> set (zip as bs). fst x \<noteq> as ! r}"
proof -
  have d: "distinct as" using assms(1) by (simp add: strict_sorted_iff)
  have "set (zip as bs) = insert (as ! r, bs ! r) (set (delete_nth r (zip as bs)))"
    by (subst id_take_nth_drop [of r "zip as bs"]) (use assms in \<open>auto simp: delete_nth_def\<close>)
  moreover have "fst x \<noteq> as ! r" if "x \<in> set (delete_nth r (zip as bs))" for x
  proof -
    have "fst x \<in> set (delete_nth r as)" using that assms(2) by (simp add: zip_delete_nth [symmetric]) (metis prod.collapse set_zip_leftD)
    then show ?thesis using delete_nth_props(2) [OF assms(1,3)] by auto
  qed
  ultimately show ?thesis by (auto simp: zip_delete_nth assms(2))
qed

definition level_deleted :: "nat \<Rightarrow> 64 word \<Rightarrow> nat \<Rightarrow> bs_list \<Rightarrow> nat \<Rightarrow> bskip \<Rightarrow> bs_list \<Rightarrow> bskip \<Rightarrow> bool" where
  "level_deleted B k l x xe s x1 s1 \<longleftrightarrow> level_at B l s1 x1 xe \<and> set (keys_of x1) = set (keys_of x) - {k} \<and>
     {y \<in> heads x. fst y \<noteq> k} \<subseteq> heads x1 \<and> (l > 0 \<longrightarrow> entries x1 = {y \<in> entries x. fst y \<noteq> k}) \<and>
     (l = 0 \<longrightarrow> set (elts x1) = {y \<in> set (elts x). fst y \<noteq> k}) \<and> fst (hd x1) = fst (hd x) \<and>
     (\<forall>a. a \<notin> addrs x xe \<longrightarrow> bs_heap s1 a = bs_heap s a) \<and> addrs x1 xe \<subseteq> addrs x xe \<and>
     next_addr s1 = next_addr s \<and> bs_headers s1 = bs_headers s \<and> bs_item_next s1 = bs_item_next s"

text \<open>A segment of a level replaced by one without the key.\<close>

lemma distinct_segment: "distinct (as @ bs @ cs) \<Longrightarrow> distinct bs' \<Longrightarrow> set bs' \<subseteq> set bs \<Longrightarrow> distinct (as @ bs' @ cs)"
  by auto

lemma level_deleted_segment:
  assumes at: "level_at B l s (us @ ns @ vs) xe" and ns: "ns \<noteq> []" and ms: "ms \<noteq> []" "linked ms" "\<forall>x\<in>set ms. node_ok B l (snd x)"
    and hd: "fst (hd ms) = fst (hd ns)" "hd (keys_of ms) = hd (keys_of ns)"
    and last: "bn_next (snd (last ms)) = bn_next (snd (last ns))" "next_header (snd (last ms)) = next_header (snd (last ns))"
    and keys: "sorted_wrt (<) (keys_of ms)" "set (keys_of ms) = set (keys_of ns) - {k}" "k \<in> set (keys_of ns)"
    and heads: "{y \<in> heads ns. fst y \<noteq> k} \<subseteq> heads ms"
    and body: "l > 0 \<Longrightarrow> entries ms = {y \<in> entries ns. fst y \<noteq> k}" "l = 0 \<Longrightarrow> set (elts ms) = {y \<in> set (elts ns). fst y \<noteq> k}"
    and dist: "distinct (map fst ms)" "fst ` set ms \<subseteq> fst ` set ns"
    and hp: "\<forall>x\<in>set ms. bs_heap s1 (fst x) = Some (snd x)" "\<forall>a. a \<notin> fst ` set ns \<longrightarrow> bs_heap s1 a = bs_heap s a"
    and st: "next_addr s1 = next_addr s" "bs_headers s1 = bs_headers s" "bs_item_next s1 = bs_item_next s"
  shows "level_deleted B k l (us @ ns @ vs) xe s (us @ ms @ vs) s1"
proof -
  have ok: "level_ok B l xe (us @ ns @ vs)" using at by (simp add: level_at_def)
  have so: "sorted_wrt (<) (keys_of us @ keys_of ns @ keys_of vs)" using level_at_sorted [OF at] by simp
  have all: "\<forall>x\<in>set (us @ ns @ vs). node_ok B l (snd x)" using level_at_nodes [OF at] .
  then have all': "\<forall>x\<in>set (us @ ms @ vs). node_ok B l (snd x)" using ms(3) by auto
  obtain q m ns'' where m: "ns = ns'' @ [(q, m)]" using ns by (cases ns rule: rev_cases) auto
  have nh: "\<forall>k\<in>set (keys_of ns). k < next_header (snd (last ns))"
  proof -
    have sq: "level_ok B l xe ((us @ ns'') @ (q, m) # vs)" using ok by (simp add: m)
    have ne: "bs_keys m \<noteq> []" using level_ok_split(1) [OF sq] by (simp add: node_ok_def)
    then have "hd (bs_keys m) < next_header m" using level_ok_split(4) [OF sq] by simp
    then show ?thesis using level_ok_split(3,4) [OF sq] by (auto simp: m intro: less_trans)
  qed
  have kdisj: "k \<notin> set (keys_of us)" "k \<notin> set (keys_of vs)" using so keys(3) by (auto simp: sorted_wrt_append)
  have "level_ok B l xe (us @ ms @ vs)"
    using nh keys by (intro level_ok_segment [OF ok ns ms hd last]) auto
  moreover have "bs_holds s1 ((us @ ms @ vs) @ [(xe, end_sentinel l)])"
  proof -
    have "bs_heap s1 (fst y) = Some (snd y)" if "y \<in> set (us @ vs @ [(xe, end_sentinel l)])" for y
    proof -
      have "set (map fst ns) \<inter> set (map fst (us @ vs @ [(xe, end_sentinel l)])) = {}"
        using at by (simp add: level_at_def) blast
      then have "fst y \<notin> fst ` set ns" using that by force
      then show ?thesis using at that hp(2) by (auto simp: level_at_def bs_holds_def)
    qed
    then show ?thesis using hp(1) by (auto simp: bs_holds_def)
  qed
  moreover have "distinct (map fst (us @ ms @ vs) @ [xe])"
    using at dist distinct_segment [of "map fst us" "map fst ns" "map fst vs @ [xe]" "map fst ms"] by (simp add: level_at_def)
  moreover have ad: "addrs (us @ ms @ vs) xe \<subseteq> addrs (us @ ns @ vs) xe" using dist(2) by (auto simp: addrs_def)
  moreover have "\<forall>p\<in>addrs (us @ ms @ vs) xe. p < next_addr s1" using at ad st(1) by (auto simp: level_at_def)
  ultimately have "level_at B l s1 (us @ ms @ vs) xe" by (simp add: level_at_def)
  moreover have "set (keys_of (us @ ms @ vs)) = set (keys_of (us @ ns @ vs)) - {k}" using keys kdisj by auto
  moreover have "{y \<in> heads (us @ ns @ vs). fst y \<noteq> k} \<subseteq> heads (us @ ms @ vs)" using heads by auto
  moreover have "entries (us @ ms @ vs) = {y \<in> entries (us @ ns @ vs). fst y \<noteq> k}" if "l > 0"
  proof -
    have "entries (us @ ns @ vs) = entries us \<union> entries ns \<union> entries vs" "entries (us @ ms @ vs) = entries us \<union> entries ms \<union> entries vs"
      using all all' that entries_append [of us "ns @ vs" B l] entries_append [of ns vs B l]
        entries_append [of us "ms @ vs" B l] entries_append [of ms vs B l] by auto
    moreover    have "fst y \<noteq> k" if "y \<in> entries us \<union> entries vs" for y
      using that kdisj by (cases y) (auto simp: entries_def dest: set_zip_leftD)
    ultimately show ?thesis using body(1) [OF that] by auto
  qed
  moreover have "set (elts (us @ ms @ vs)) = {y \<in> set (elts (us @ ns @ vs)). fst y \<noteq> k}" if "l = 0"
  proof -
    have "elts (us @ ns @ vs) = elts us @ elts ns @ elts vs" "elts (us @ ms @ vs) = elts us @ elts ms @ elts vs"
      using all all' that elts_append [of us "ns @ vs" B] elts_append [of ns vs B]
        elts_append [of us "ms @ vs" B] elts_append [of ms vs B] by auto
    moreover    have "fst y \<noteq> k" if "y \<in> set (elts us) \<union> set (elts vs)" for y
      using that kdisj by (cases y) (auto simp: elts_def dest: set_zip_leftD)
    ultimately show ?thesis using body(2) [OF that] by auto
  qed
  moreover have "fst (hd (us @ ms @ vs)) = fst (hd (us @ ns @ vs))" using hd(1) ms(1) ns by (cases us) auto
  moreover have "\<forall>a. a \<notin> addrs (us @ ns @ vs) xe \<longrightarrow> bs_heap s1 a = bs_heap s a" using hp(2) by (auto simp: addrs_def)
  ultimately show ?thesis using ad st unfolding level_deleted_def by blast
qed

text \<open>An entry inside a node.\<close>

definition delete_entry :: "nat \<Rightarrow> nat \<Rightarrow> bs_node \<Rightarrow> bs_node" where
  "delete_entry l r n = (if l > 0 then delete_child_at_rank r (internal_delete_key_at_rank r n) else leaf_delete_key_at_rank r n)"

lemma delete_entry_props:
  assumes "node_ok B l n" "sorted_wrt (<) (bs_keys n)" "r < num_elts n" "num_elts n \<noteq> 1"
  shows "node_ok B l (delete_entry l r n)" "bs_keys (delete_entry l r n) = delete_nth r (bs_keys n)"
    "bn_next (delete_entry l r n) = bn_next n" "next_header (delete_entry l r n) = next_header n"
    "l > 0 \<Longrightarrow> entries [(p, delete_entry l r n)] = {y \<in> entries [(p, n)]. fst y \<noteq> bs_keys n ! r}"
    "l = 0 \<Longrightarrow> set (elts [(p, delete_entry l r n)]) = {y \<in> set (elts [(p, n)]). fst y \<noteq> bs_keys n ! r}"
proof -
  have len: "if l = 0 then length (bs_vals n) = num_elts n else length (bs_children n) = num_elts n"
    using assms(1) by (simp add: node_ok_def)
  note zs = set_zip_delete_nth [OF assms(2) _ assms(3)]
  show "l > 0 \<Longrightarrow> entries [(p, delete_entry l r n)] = {y \<in> entries [(p, n)]. fst y \<noteq> bs_keys n ! r}"
    using zs [of "bs_children n"] len
    by (simp add: entries_def delete_entry_def delete_child_at_rank_def internal_delete_key_at_rank_def)
  show "l = 0 \<Longrightarrow> set (elts [(p, delete_entry l r n)]) = {y \<in> set (elts [(p, n)]). fst y \<noteq> bs_keys n ! r}"
    using zs [of "bs_vals n"] len by (simp add: elts_def delete_entry_def leaf_delete_key_at_rank_def)
  have "delete_nth r (bs_keys n) \<noteq> []" using assms(3,4) length_delete_nth [of r "bs_keys n"] by (metis One_nat_def Suc_pred diff_is_0_eq' length_0_conv less_one linorder_neqE_nat list.size(3) not_less_eq not_less_zero zero_less_diff)
  then show "node_ok B l (delete_entry l r n)" using assms(1,3) len
    by (auto simp: node_ok_def delete_entry_def delete_child_at_rank_def internal_delete_key_at_rank_def leaf_delete_key_at_rank_def)
qed (simp_all add: delete_entry_def delete_child_at_rank_def internal_delete_key_at_rank_def leaf_delete_key_at_rank_def)

lemma del_level_mid:
  assumes at: "level_at B l s (us @ (c, n) # vs) xe" and r: "r < num_elts n" "r \<noteq> 0" "bs_keys n ! r = k"
  shows "level_deleted B k l (us @ (c, n) # vs) xe s (us @ (c, delete_entry l r n) # vs) (put_node c (delete_entry l r n) s)"
proof -
  have ok: "level_ok B l xe (us @ (c, n) # vs)" using at by (simp add: level_at_def)
  note sp = level_ok_split [OF ok]
  have "num_elts n \<noteq> 1" using r by simp
  note de = delete_entry_props [OF sp(1,2) r(1) this]
  have hd: "hd (delete_nth r (bs_keys n)) = hd (bs_keys n)" using r by (cases "bs_keys n"; cases r) (auto simp: delete_nth_def)
  have "level_deleted B k l (us @ [(c, n)] @ vs) xe s (us @ [(c, delete_entry l r n)] @ vs) (put_node c (delete_entry l r n) s)"
  proof (rule level_deleted_segment)
    show "k \<in> set (keys_of [(c, n)])" using r by auto
    show "{y \<in> heads [(c, n)]. fst y \<noteq> k} \<subseteq> heads [(c, delete_entry l r n)]" using de(2) hd by auto
  qed (use at de hd r delete_nth_props [OF sp(2) r(1)] in \<open>simp_all add: put_node_def\<close>)
  then show ?thesis by simp
qed

text \<open>The first entry of a node, with the node before it.\<close>

lemma del_level_head:
  assumes at: "level_at B l s (us @ (p, m) # (c, n) # vs) xe" and k: "hd (bs_keys n) = k"
  shows "\<exists>s1 x1. delete_head p m c n s = Inr s1 \<and> level_deleted B k l (us @ (p, m) # (c, n) # vs) xe s x1 s1"
proof -
  have ok: "level_ok B l xe (us @ (p, m) # (c, n) # vs)" and ok2: "level_ok B l xe ((us @ [(p, m)]) @ (c, n) # vs)"
    and di: "distinct (map fst (us @ (p, m) # (c, n) # vs) @ [xe])" using at by (simp_all add: level_at_def)
  note sp = level_ok_split [OF ok] and sn = level_ok_split [OF ok2]
  have ne: "bs_keys m \<noteq> []" "bs_keys n \<noteq> []" using sp(1) sn(1) by (simp_all add: node_ok_def)
  have mk: "\<forall>a\<in>set (bs_keys m). a < k" using sn(3) k by simp
  have pc: "p \<noteq> c" using di by auto
  have nx: "bn_next m = Some c" using sp(7) by simp
  have lev: "bn_level n = l" using sn(1) by (simp add: node_ok_def)
  show ?thesis
  proof (cases "num_elts n = 1")
    case True
    then have n1: "bs_keys n = [k]" using k by (cases "bs_keys n") auto
    let ?m = "m\<lparr>next_header := next_header n, bn_next := bn_next n\<rparr>"
    let ?s = "free_node c (put_node p ?m s)"
    have okm: "node_ok B l ?m" using sp(1) by (simp add: node_ok_def)
    have "level_deleted B k l (us @ [(p, m), (c, n)] @ vs) xe s (us @ [(p, ?m)] @ vs) ?s"
    proof (rule level_deleted_segment)
      show "entries [(p, ?m)] = {y \<in> entries [(p, m), (c, n)]. fst y \<noteq> k}" if "l > 0"
      proof -
        have "\<forall>x\<in>set [(p, m), (c, n)]. node_ok B l (snd x)" using sp(1) sn(1) by simp
        from entries_UN [OF this that] show ?thesis using mk n1 sn(1) that
          by (auto simp: entries_def node_ok_def dest: set_zip_leftD)
      qed
      show "set (elts [(p, ?m)]) = {y \<in> set (elts [(p, m), (c, n)]). fst y \<noteq> k}" if "l = 0"
      proof -
        have "\<forall>x\<in>set [(p, m), (c, n)]. node_ok B 0 (snd x)" using sp(1) sn(1) that by simp
        from elts_UN [OF this] show ?thesis using mk n1 sn(1) that
          by (auto simp: elts_def node_ok_def dest: set_zip_leftD)
      qed
      show "sorted_wrt (<) (keys_of [(p, ?m)])" using sp(2) by simp
      show "set (keys_of [(p, ?m)]) = set (keys_of [(p, m), (c, n)]) - {k}" using mk n1 by auto
      show "{y \<in> heads [(p, m), (c, n)]. fst y \<noteq> k} \<subseteq> heads [(p, ?m)]" using k by auto
    qed (use at okm n1 ne pc in \<open>auto simp: put_node_def free_node_def\<close>)
    then show ?thesis using True by (auto simp: delete_head_def)
  next
    case False
    let ?n = "delete_entry l 0 n"
    have r0: "0 < num_elts n" using ne(2) by simp
    note de = delete_entry_props [OF sn(1,2) r0 False]
    have k0: "bs_keys n ! 0 = k" using k ne(2) by (simp add: hd_conv_nth)
    have nn: "bs_keys ?n \<noteq> []" using de(1) by (simp add: node_ok_def)
    let ?m = "m\<lparr>next_header := hd (bs_keys ?n)\<rparr>"
    let ?s = "put_node c ?n (put_node p ?m s)"
    have okm: "node_ok B l ?m" using sp(1) by (simp add: node_ok_def)
    note dn = delete_nth_props [OF sn(2) r0, unfolded k0, folded de(2)]
    have gt: "\<forall>a\<in>set (bs_keys n) - {k}. k < a"
      using sn(2) k ne(2) by (cases "bs_keys n") auto
    have "level_deleted B k l (us @ [(p, m), (c, n)] @ vs) xe s (us @ [(p, ?m), (c, ?n)] @ vs) ?s"
    proof (rule level_deleted_segment)
      show "entries [(p, ?m), (c, ?n)] = {y \<in> entries [(p, m), (c, n)]. fst y \<noteq> k}" if "l > 0"
      proof -
        have "\<forall>x\<in>set [(p, m), (c, n)]. node_ok B l (snd x)" "\<forall>x\<in>set [(p, ?m), (c, ?n)]. node_ok B l (snd x)"
          using sp(1) sn(1) okm de(1) by simp_all
        from this [THEN entries_UN, OF that] show ?thesis using mk de(5) [OF that, of c] k0
          by (auto simp: entries_def dest: set_zip_leftD)
      qed
      show "set (elts [(p, ?m), (c, ?n)]) = {y \<in> set (elts [(p, m), (c, n)]). fst y \<noteq> k}" if "l = 0"
      proof -
        have "\<forall>x\<in>set [(p, m), (c, n)]. node_ok B 0 (snd x)" "\<forall>x\<in>set [(p, ?m), (c, ?n)]. node_ok B 0 (snd x)"
          using sp(1) sn(1) okm de(1) that by simp_all
        from this [THEN elts_UN] show ?thesis using mk de(6) [OF that, of c] k0 that
          by (auto simp: elts_def dest: set_zip_leftD)
      qed
      show "sorted_wrt (<) (keys_of [(p, ?m), (c, ?n)])"
        using sp(2) dn mk gt by (auto simp: sorted_wrt_append intro: less_trans)
      show "set (keys_of [(p, ?m), (c, ?n)]) = set (keys_of [(p, m), (c, n)]) - {k}" using mk dn(2) by auto
      show "{y \<in> heads [(p, m), (c, n)]. fst y \<noteq> k} \<subseteq> heads [(p, ?m), (c, ?n)]" using k by auto
      show "linked [(p, ?m), (c, ?n)]" using nx by simp
      show "\<forall>x\<in>set [(p, ?m), (c, ?n)]. node_ok B l (snd x)" using okm de(1) by simp
    qed (use at ne nn pc de k0 in \<open>auto simp: put_node_def\<close>)
    moreover have "delete_head p m c n s = Inr ?s"
      using False nn lev by (simp add: delete_head_def delete_entry_def get_key_at_rank_def hd_conv_nth Let_def)
    ultimately show ?thesis by auto
  qed
qed

lemma find_left_ok:
  assumes "level_ok B l xe (us @ (a, m0) # ws @ (c, n) # vs)" "bs_holds s (us @ (a, m0) # ws @ (c, n) # vs)"
    "distinct (map fst (us @ (a, m0) # ws @ (c, n) # vs))" "length ws < f"
  shows "\<exists>us' p m. us @ (a, m0) # ws @ (c, n) # vs = us' @ (p, m) # (c, n) # vs \<and> find_left f a c s = Inr p \<and> node_of p s = Inr m"
  using assms
proof (induction ws arbitrary: us a m0 f)
  case Nil
  then obtain f' where "f = Suc f'" by (cases f) auto
  then show ?case using level_ok_split(7) [of B l xe us a m0 "(c, n) # vs"] Nil by (auto simp: node_of_def)
next
  case (Cons w ws)
  obtain f' where f: "f = Suc f'" "length ws < f'" using Cons.prems(4) by (cases f) auto
  have "bn_next m0 = Some (fst w)" "fst w \<noteq> c"
    using level_ok_split(7) [of B l xe us a m0 "w # ws @ (c, n) # vs"] Cons.prems by auto
  moreover obtain us' p m where "(us @ [(a, m0)]) @ (fst w, snd w) # ws @ (c, n) # vs = us' @ (p, m) # (c, n) # vs"
      "find_left f' (fst w) c s = Inr p" "node_of p s = Inr m"
    using Cons.IH [of "us @ [(a, m0)]" "fst w" "snd w" f'] Cons.prems f(2) by auto
  ultimately show ?case using f(1) Cons.prems(2) by (auto simp: node_of_def not_null_def)
qed

lemma delete_heads_step:
  assumes at: "level_at B l s x xe" and c: "(k, c) \<in> heads x" and a: "(h, a) \<in> heads x" "h < k"
  obtains p m n s1 x1 where "find_left (Suc (next_addr s)) a c s = Inr p" "node_of p s = Inr m" "node_of c s = Inr n"
    "delete_head p m c n s = Inr s1" "level_deleted B k l x xe s x1 s1" "(p, m) \<in> set x" "(c, n) \<in> set x"
    "\<forall>y\<in>set (bs_keys m). y < k" "bs_keys n \<noteq> []" "bs_keys n ! 0 = k" "bs_keys m \<noteq> []"
proof -
  obtain n where n: "(c, n) \<in> set x" "hd (bs_keys n) = k" using c by (auto simp: heads_def)
  obtain m0 where m0: "(a, m0) \<in> set x" "hd (bs_keys m0) = h" using a(1) by (auto simp: heads_def)
  have ne: "bs_keys n \<noteq> []" "bs_keys m0 \<noteq> []" using level_at_nodes [OF at] n(1) m0(1) by (force simp: node_ok_def)+
  obtain us vs where x: "x = us @ (c, n) # vs" using n(1) by (meson split_list)
  have ok: "level_ok B l xe (us @ (c, n) # vs)" using at x by (simp add: level_at_def)
  have "(a, m0) \<notin> set vs"
  proof
    assume "(a, m0) \<in> set vs"
    then have "h \<in> set (keys_of vs)" using m0(2) ne(2) by (force simp: keys_of_def)
    then have "next_header n \<le> h" using level_ok_split(5) [OF ok] by blast
    moreover have "k < next_header n" using level_ok_split(4) [OF ok] n(2) ne(1) by auto
    ultimately show False using a(2) by simp
  qed
  moreover have "(a, m0) \<noteq> (c, n)" using n(2) m0(2) a(2) by auto
  ultimately have "(a, m0) \<in> set us" using m0(1) x by auto
  then obtain us1 ws where us: "us = us1 @ (a, m0) # ws" by (meson split_list)
  have "length ws < Suc (next_addr s)" using level_at_length [OF at] by (simp add: x us)
  from find_left_ok [OF _ _ _ this, of B l xe us1 a m0 c n vs s] at
  obtain us' p m where p: "us1 @ (a, m0) # ws @ (c, n) # vs = us' @ (p, m) # (c, n) # vs"
    "find_left (Suc (next_addr s)) a c s = Inr p" "node_of p s = Inr m" by (auto simp: level_at_def x us)
  have x': "x = us' @ (p, m) # (c, n) # vs" using p(1) by (simp add: x us)
  obtain s1 x1 where d: "delete_head p m c n s = Inr s1" "level_deleted B k l x xe s x1 s1"
    using del_level_head [OF at [unfolded x'] n(2)] x' by auto
  have "\<forall>y\<in>set (bs_keys m). y < k"
    using level_ok_split(3) [of B l xe "us' @ [(p, m)]" c n vs] at n(2) by (simp add: x' level_at_def)
  moreover have "bs_keys m \<noteq> []" using level_at_nodes [OF at] by (auto simp: x' node_ok_def)
  moreover have "node_of c s = Inr n" using level_at_node [OF at n(1)] .
  ultimately show thesis using that [OF p(2,3) _ d] n x' ne(1) by (simp add: hd_conv_nth)
qed

subsection \<open>All levels\<close>

definition delete_done :: "nat \<Rightarrow> 64 word \<Rightarrow> nat \<Rightarrow> bskip \<Rightarrow> (nat \<Rightarrow> bs_list) \<Rightarrow> (nat \<Rightarrow> nat) \<Rightarrow> bskip \<Rightarrow> (nat \<Rightarrow> bs_list) \<Rightarrow> bool" where
  "delete_done B k l s X E s' X' \<longleftrightarrow> levels_ok B s' X' E (Suc l) \<and>
     (\<forall>m\<le>l. set (keys_of (X' m)) = set (keys_of (X m)) - {k} \<and> fst (hd (X' m)) = fst (hd (X m)) \<and>
        addrs (X' m) (E m) \<subseteq> addrs (X m) (E m)) \<and>
     {y \<in> heads (X l). fst y \<noteq> k} \<subseteq> heads (X' l) \<and> set (elts (X' 0)) = {y \<in> set (elts (X 0)). fst y \<noteq> k} \<and>
     (\<forall>a. (\<forall>m\<le>l. a \<notin> addrs (X m) (E m)) \<longrightarrow> bs_heap s' a = bs_heap s a) \<and>
     next_addr s' = next_addr s \<and> bs_headers s' = bs_headers s \<and> bs_item_next s' = bs_item_next s"

lemma delete_done_0:
  "level_deleted B k 0 (X 0) (E 0) s x1 s1 \<Longrightarrow> delete_done B k 0 s X E s1 (X(0 := x1))"
  by (simp add: level_deleted_def delete_done_def)

lemma level_deleted_below:
  assumes "levels_ok B s X E (Suc (Suc l))" "level_deleted B k (Suc l) (X (Suc l)) (E (Suc l)) s x1 s1"
  shows "levels_ok B s1 X E (Suc l)"
proof (rule levels_ok_frame)
  show "levels_ok B s X E (Suc l)" using assms(1) by simp
  show "\<forall>m<Suc l. \<forall>a\<in>addrs (X m) (E m). bs_heap s1 a = bs_heap s a"
  proof (intro allI impI ballI)
    fix m a assume "m < Suc l" "a \<in> addrs (X m) (E m)"
    then have "a \<notin> addrs (X (Suc l)) (E (Suc l))" using levels_ok_disj [OF assms(1), of m "Suc l"] by auto
    then show "bs_heap s1 a = bs_heap s a" using assms(2) by (simp add: level_deleted_def)
  qed
qed (use assms(2) in \<open>simp_all add: level_deleted_def\<close>)

lemma delete_done_Suc:
  assumes lv: "levels_ok B s X E (Suc (Suc l))" and top: "level_deleted B k (Suc l) (X (Suc l)) (E (Suc l)) s x1 s1"
    and low: "delete_done B k l s1 X E s' X'"
  shows "delete_done B k (Suc l) s X E s' (X'(Suc l := x1))"
proof -
  let ?X = "X'(Suc l := x1)"
  have ad1: "addrs x1 (E (Suc l)) \<subseteq> addrs (X (Suc l)) (E (Suc l))" using top by (simp add: level_deleted_def)
  have disj: "addrs (X (Suc l)) (E (Suc l)) \<inter> addrs (X m) (E m) = {}" if "m \<le> l" for m
    using levels_ok_disj [OF lv, of "Suc l" m] that by simp
  have adl: "addrs (X' m) (E m) \<subseteq> addrs (X m) (E m)" if "m \<le> l" for m using low that by (simp add: delete_done_def)
  have "levels_ok B s' X' E (Suc l)" using low by (simp add: delete_done_def)
  then have "levels_ok B s' ?X E (Suc l)" by (rule levels_ok_frame) auto
  moreover have "level_at B (Suc l) s' x1 (E (Suc l))"
  proof (rule level_at_frame)
    show "level_at B (Suc l) s1 x1 (E (Suc l))" using top by (simp add: level_deleted_def)
    show "\<forall>a\<in>addrs x1 (E (Suc l)). bs_heap s' a = bs_heap s1 a"
    proof
      fix a assume "a \<in> addrs x1 (E (Suc l))"
      then have "\<forall>m\<le>l. a \<notin> addrs (X m) (E m)" using ad1 disj by blast
      then show "bs_heap s' a = bs_heap s1 a" using low by (simp add: delete_done_def)
    qed
  qed (use low in \<open>simp add: delete_done_def\<close>)
  moreover have "entries x1 \<subseteq> heads (X' l)"
  proof -
    have "entries x1 \<subseteq> {y \<in> heads (X l). fst y \<noteq> k}"
      using top levels_ok_entries [OF lv, of l] by (auto simp: level_deleted_def)
    then show ?thesis using low by (auto simp: delete_done_def)
  qed
  moreover have "addrs x1 (E (Suc l)) \<inter> addrs (X' m) (E m) = {}" if "m < Suc l" for m
    using ad1 adl [of m] disj [of m] that by auto
  ultimately have "levels_ok B s' ?X E (Suc (Suc l))" by simp
  moreover have "set (keys_of (?X m)) = set (keys_of (X m)) - {k} \<and> fst (hd (?X m)) = fst (hd (X m)) \<and>
      addrs (?X m) (E m) \<subseteq> addrs (X m) (E m)" if "m \<le> Suc l" for m
    using that top low by (cases "m = Suc l") (auto simp: level_deleted_def delete_done_def)
  moreover have "bs_heap s' a = bs_heap s a" if "\<forall>m\<le>Suc l. a \<notin> addrs (X m) (E m)" for a
    using that top low by (simp add: level_deleted_def delete_done_def)
  moreover have "{y \<in> heads (X (Suc l)). fst y \<noteq> k} \<subseteq> heads x1" "next_addr s1 = next_addr s" "bs_headers s1 = bs_headers s"
    "bs_item_next s1 = bs_item_next s" using top by (simp_all add: level_deleted_def)
  moreover have "set (elts (X' 0)) = {y \<in> set (elts (X 0)). fst y \<noteq> k}" "next_addr s' = next_addr s1" "bs_headers s' = bs_headers s1"
    "bs_item_next s' = bs_item_next s1" using low by (simp_all add: delete_done_def)
  ultimately show ?thesis unfolding delete_done_def by (simp del: levels_ok.simps)
qed

lemma delete_heads_ok:
  assumes "levels_ok B s X E (Suc l)" "(k, c) \<in> heads (X l)" "(h, a) \<in> heads (X l)" "h < k"
  shows "\<exists>s' X'. delete_heads l a c s = Inr s' \<and> delete_done B k l s X E s' X'"
  using assms
proof (induction l arbitrary: h a c s X)
  case 0
  have at: "level_at B 0 s (X 0) (E 0)" using levels_okD [OF 0(1)] by simp
  obtain p m n s1 x1 where st: "find_left (Suc (next_addr s)) a c s = Inr p" "node_of p s = Inr m" "node_of c s = Inr n"
    "delete_head p m c n s = Inr s1" "level_deleted B k 0 (X 0) (E 0) s x1 s1"
    using delete_heads_step [OF at 0(2-4)] by metis
  then show ?case using delete_done_0 [where X = X and E = E, OF st(5)] by auto
next
  case (Suc l)
  have at: "level_at B (Suc l) s (X (Suc l)) (E (Suc l))" using levels_okD [OF Suc.prems(1)] by simp
  obtain p m n s1 x1 where st: "find_left (Suc (next_addr s)) a c s = Inr p" "node_of p s = Inr m" "node_of c s = Inr n"
    "delete_head p m c n s = Inr s1" and top: "level_deleted B k (Suc l) (X (Suc l)) (E (Suc l)) s x1 s1"
    and pm: "(p, m) \<in> set (X (Suc l))" "(c, n) \<in> set (X (Suc l))" "\<forall>y\<in>set (bs_keys m). y < k" "bs_keys n \<noteq> []" "bs_keys n ! 0 = k" "bs_keys m \<noteq> []"
    using delete_heads_step [OF at Suc.prems(2-4)] .
  let ?r = "num_elts m - 1"
  have r: "0 < num_elts n" "?r < num_elts m" using pm(4,6) by auto
  note en = entry_of_rank [OF at _ pm(2) r(1)] and em = entry_of_rank [OF at _ pm(1) r(2)]
  have c1: "(k, bs_children n ! 0) \<in> heads (X l)" using en(1) levels_ok_entries [OF Suc.prems(1), of l] pm(5) by auto
  have a1: "(bs_keys m ! ?r, bs_children m ! ?r) \<in> heads (X l)" using em(1) levels_ok_entries [OF Suc.prems(1), of l] by auto
  have "bs_keys m ! ?r < k" using pm(3) r(2) by auto
  from Suc.IH [OF level_deleted_below [OF Suc.prems(1) top] c1 a1 this]
  obtain s' X' where low: "delete_heads l (bs_children m ! ?r) (bs_children n ! 0) s1 = Inr s'" "delete_done B k l s1 X E s' X'" by blast
  have "delete_heads (Suc l) a c s = Inr s'" using st en(2) em(2) low(1) by simp
  then show ?case using delete_done_Suc [OF Suc.prems(1) top low(2)] by blast
qed

subsection \<open>The operation\<close>

lemma delete_down_ok:
  assumes "levels_ok B s X E (Suc l)" "(h, p) \<in> heads (X l)" "h < k" "k < max_sentinel" "pl \<le> l"
    "\<forall>m\<le>l. pl < m \<longrightarrow> k \<notin> set (keys_of (X m))"
  shows "\<exists>h' p'. delete_down k pl l p s = Inr p' \<and> (h', p') \<in> heads (X pl) \<and> h' < k"
  using assms
proof (induction l arbitrary: h p)
  case (Suc l)
  show ?case
  proof (cases "pl < Suc l")
    case True
    have at: "level_at B (Suc l) s (X (Suc l)) (E (Suc l))" using levels_okD [OF Suc.prems(1)] by simp
    have nk: "k \<notin> set (keys_of (X (Suc l)))" using Suc.prems(6) True by blast
    obtain us q n vs r where sl: "X (Suc l) = us @ (q, n) # vs" "walk k p s = Inr q" "node_of q s = Inr n"
      "rank_of k (bs_keys n) r" "find_key_and_check k n = Inr (r, k \<in> set (keys_of (X (Suc l))))"
      using search_level [OF at Suc.prems(2) less_imp_le [OF Suc.prems(3)] Suc.prems(4)] by metis
    have q: "(q, n) \<in> set (X (Suc l))" "r < num_elts n" "bs_keys n ! r \<le> k" using sl(1,4) by (auto simp: rank_of_def)
    have "bs_keys n ! r \<noteq> k" using nk q(1,2) by (force simp: keys_of_def)
    then have lt: "bs_keys n ! r < k" using q(3) by simp
    note er = entry_of_rank [OF at _ q(1,2)]
    have "(bs_keys n ! r, bs_children n ! r) \<in> heads (X l)"
      using er(1) levels_ok_entries [OF Suc.prems(1), of l] by auto
    moreover have "levels_ok B s X E (Suc l)" using Suc.prems(1) by simp
    ultimately show ?thesis using Suc.IH [of "bs_keys n ! r" "bs_children n ! r"] sl er(2) lt Suc.prems(4,6) True by simp
  qed (use Suc.prems in auto)
qed auto

lemma delete_walk_ok:
  assumes "level_ok B l e (us @ (p, n) # vs)" "bs_holds s (us @ (p, n) # vs)" "hd (bs_keys n) \<le> k" "k < max_sentinel" "length vs < f"
    "hd (bs_keys n) = k \<Longrightarrow> us \<noteq> [] \<and> prev = Some (fst (last us))"
  shows "\<exists>us' p' n' vs' prev' r. us @ (p, n) # vs = us' @ (p', n') # vs' \<and> covers k n' \<and> rank_of k (bs_keys n') r \<and>
     delete_walk f k prev p s = Inr (prev', p', r, k \<in> set (bs_keys n')) \<and> (hd (bs_keys n') = k \<longrightarrow> us' \<noteq> [] \<and> prev' = Some (fst (last us')))"
  using assms
proof (induction vs arbitrary: us p n f prev)
  case Nil
  note sp = level_ok_split [OF Nil(1)]
  obtain r where r: "rank_of k (bs_keys n) r" "find_key_and_check k n = Inr (r, k \<in> set (bs_keys n))"
    using find_key_and_check_ok [of n k] sp(1,2) Nil(3) rank_of_mem [OF sp(2)] by (auto simp: node_ok_def)
  have "next_header n = max_sentinel" using sp(6) by simp
  moreover obtain f' where "f = Suc f'" using Nil(5) by (cases f) auto
  ultimately have "delete_walk f k prev p s = Inr (prev, p, r, k \<in> set (bs_keys n))" "covers k n"
    using Nil r by (auto simp: node_of_def covers_def)
  then show ?case using r(1) Nil(6) by blast
next
  case (Cons x vs)
  note sp = level_ok_split [OF Cons.prems(1)]
  obtain r where r: "rank_of k (bs_keys n) r" "find_key_and_check k n = Inr (r, k \<in> set (bs_keys n))"
    using find_key_and_check_ok [of n k] sp(1,2) Cons.prems(3) rank_of_mem [OF sp(2)] by (auto simp: node_ok_def)
  obtain f' where f: "f = Suc f'" "length vs < f'" using Cons.prems(5) by (cases f) auto
  have nx: "bn_next n = Some (fst x)" "next_header n = hd (bs_keys (snd x))" using sp(7) by auto
  show ?case
  proof (cases "next_header n \<le> k")
    case True
    have hp: "bs_heap s p = Some n" using Cons.prems(2) by simp
    have "k \<notin> set (bs_keys n)" using sp(4) True by auto
    moreover obtain us' p' n' vs' prev' r' where w: "(us @ [(p, n)]) @ (fst x, snd x) # vs = us' @ (p', n') # vs'" "covers k n'"
        "rank_of k (bs_keys n') r'" "delete_walk f' k (Some p) (fst x) s = Inr (prev', p', r', k \<in> set (bs_keys n'))"
        "hd (bs_keys n') = k \<longrightarrow> us' \<noteq> [] \<and> prev' = Some (fst (last us'))"
      using Cons.IH [of "us @ [(p, n)]" "fst x" "snd x" f' "Some p"] Cons.prems f(2) True nx(2) by auto
    ultimately have "delete_walk f k prev p s = Inr (prev', p', r', k \<in> set (bs_keys n'))"
      using r(2) nx(1) hp f(1) True by (simp add: node_of_def not_null_def)
    with w(1-3,5) show ?thesis by auto
  next
    case False
    then have "delete_walk f k prev p s = Inr (prev, p, r, k \<in> set (bs_keys n))" "covers k n"
      using Cons.prems(2,3) f(1) r(2) by (auto simp: node_of_def covers_def)
    then show ?thesis using r(1) Cons.prems(6) by blast
  qed
qed

lemma delete_found_ok:
  assumes lv: "levels_ok B s X E (Suc l)" and x: "X l = us @ (q, n) # vs" and k: "rank_of k (bs_keys n) r" "k \<in> set (bs_keys n)"
    and prev: "hd (bs_keys n) = k \<longrightarrow> us \<noteq> [] \<and> prev = Some (fst (last us))"
  shows "\<exists>s' X'. delete_found prev q r s = Inr s' \<and> delete_done B k l s X E s' X'"
proof -
  have at: "level_at B l s (X l) (E l)" using levels_okD [OF lv] by simp
  have ok: "level_ok B l (E l) (us @ (q, n) # vs)" using at by (simp add: level_at_def x)
  note sp = level_ok_split [OF ok]
  have nq: "node_of q s = Inr n" using level_at_node [OF at] by (simp add: x)
  have r: "r < num_elts n" "bs_keys n ! r = k" using k rank_of_mem [OF sp(2) k(1)] by (auto simp: rank_of_def)
  have lev: "bn_level n = l" using sp(1) by (simp add: node_ok_def)
  show ?thesis
  proof (cases "r = 0")
    case True
    then have hk: "hd (bs_keys n) = k" using r by (cases "bs_keys n") auto
    then have us: "us \<noteq> []" "prev = Some (fst (last us))" using prev by auto
    define p m where "p = fst (last us)" and "m = snd (last us)"
    have "(p, m) \<in> set us" using us(1) by (simp add: p_def m_def)
    then have pm: "(p, m) \<in> set (X l)" "(hd (bs_keys m), p) \<in> heads (X l)" by (force simp: x heads_def)+
    moreover have "bs_keys m \<noteq> []" using level_at_nodes [OF at] pm(1) by (force simp: node_ok_def)
    then have "hd (bs_keys m) \<in> set (keys_of us)" using \<open>(p, m) \<in> set us\<close> by (force simp: keys_of_def)
    then have "hd (bs_keys m) < k" using sp(3) hk by blast
    moreover have "(k, q) \<in> heads (X l)" using hk by (auto simp: x)
    ultimately obtain s' X' where "delete_heads l p q s = Inr s'" "delete_done B k l s X E s' X'"
      using delete_heads_ok [OF lv, of k q "hd (bs_keys m)" p] by blast
    then show ?thesis using True nq lev us(2) by (auto simp: delete_found_def not_null_def p_def)
  next
    case False
    note mid = del_level_mid [OF at [unfolded x] r(1) False r(2), folded x]
    let ?s = "put_node q (delete_entry l r n) s"
    show ?thesis
    proof (cases l)
      case 0
      have "delete_found prev q r s = Inr ?s" using False nq lev 0 by (simp add: delete_found_def delete_entry_def)
      moreover have "delete_done B k l s X E ?s (X(0 := us @ (q, delete_entry l r n) # vs))"
        unfolding 0 by (rule delete_done_0 [where X = X and E = E, OF mid [unfolded 0]])
      ultimately show ?thesis by blast
    next
      case (Suc l')
      have l0: "l > 0" using Suc by simp
      have qx: "(q, n) \<in> set (X l)" by (simp add: x)
      have r1: "r - 1 < num_elts n" using r(1) by simp
      note e0 = entry_of_rank [OF at l0 qx r(1)] and e1 = entry_of_rank [OF at l0 qx r1]
      have sub: "entries (X l) \<subseteq> heads (X l')" using levels_ok_entries [OF lv, of l'] Suc by simp
      have c: "(k, bs_children n ! r) \<in> heads (X l')" using sub e0(1) r(2) by auto
      have a: "(bs_keys n ! (r - 1), bs_children n ! (r - 1)) \<in> heads (X l')" using sub e1(1) by auto
      have lt: "bs_keys n ! (r - 1) < k" using sorted_wrt_nth_less [OF sp(2), of "r - 1" r] r False by simp
      have lv1: "levels_ok B ?s X E (Suc l')" using level_deleted_below [OF lv [unfolded Suc] mid [unfolded Suc]] Suc by simp
      obtain s' X' where low: "delete_heads l' (bs_children n ! (r - 1)) (bs_children n ! r) ?s = Inr s'" "delete_done B k l' ?s X E s' X'"
        using delete_heads_ok [OF lv1 c a lt] by blast
      have at1: "level_at B l' ?s (X l') (E l')" using levels_okD [OF lv1] by simp
      obtain d where d: "(bs_children n ! r, d) \<in> set (X l')" "node_of (bs_children n ! r) ?s = Inr d"
        using heads_node [OF at1 c] by metis
      have "bn_level d = l'" using level_at_nodes [OF at1] d(1) by (force simp: node_ok_def)
      then have "delete_found prev q r s = Inr s'"
        using False nq lev l0 e0(2) e1(2) d(2) low(1) by (simp add: delete_found_def delete_entry_def Let_def)
      moreover have "delete_done B k l s X E s' (X'(Suc l' := us @ (q, delete_entry l r n) # vs))"
        using delete_done_Suc [OF lv [unfolded Suc] mid [unfolded Suc] low(2) [unfolded Suc]] by (simp add: Suc)
      ultimately show ?thesis by blast
    qed
  qed
qed

lemma levels_ok_above:
  assumes "levels_ok B s X E n" "Suc l \<le> n" "delete_done B k l s X E s' X'" "\<forall>m<n. l < m \<longrightarrow> k \<notin> set (keys_of (X m))"
  shows "levels_ok B s' (\<lambda>m. if m \<le> l then X' m else X m) E n"
  using assms
proof (induction n)
  case (Suc n)
  let ?X = "\<lambda>m. if m \<le> l then X' m else X m"
  show ?case
  proof (cases "n = l")
    case True
    have "levels_ok B s' X' E (Suc n)" using Suc.prems(3) True by (simp add: delete_done_def)
    then show ?thesis by (rule levels_ok_frame) (auto simp: True)
  next
    case False
    then have n: "Suc l \<le> n" using Suc.prems(2) by simp
    have ad: "addrs (?X m) (E m) \<subseteq> addrs (X m) (E m)" for m using Suc.prems(3) by (auto simp: delete_done_def)
    have "levels_ok B s' ?X E n" using Suc n by simp
    moreover have "level_at B n s' (X n) (E n)"
    proof (rule level_at_frame)
      show "level_at B n s (X n) (E n)" using Suc.prems(1) by simp
      have "\<forall>m\<le>l. a \<notin> addrs (X m) (E m)" if "a \<in> addrs (X n) (E n)" for a
      proof (intro allI impI)
        fix m assume "m \<le> l"
        then show "a \<notin> addrs (X m) (E m)" using levels_ok_disj [OF Suc.prems(1), of n m] that n by auto
      qed
      then show "\<forall>p\<in>addrs (X n) (E n). bs_heap s' p = bs_heap s p" using Suc.prems(3) by (simp add: delete_done_def)
    qed (use Suc.prems(3) in \<open>simp add: delete_done_def\<close>)
    moreover have "entries (X n) \<subseteq> heads (?X (n - 1))"
    proof (cases "n - 1 = l")
      case True
      have "k \<notin> set (keys_of (X n))" using Suc.prems(4) n by simp
      then have "entries (X n) \<subseteq> {y \<in> heads (X l). fst y \<noteq> k}"
        using levels_ok_entries [OF Suc.prems(1), of l] True n by (auto simp: entries_def dest: set_zip_leftD)
      then show ?thesis using Suc.prems(3) True by (auto simp: delete_done_def)
    next
      case False
      then show ?thesis using levels_ok_entries [OF Suc.prems(1), of "n - 1"] n by auto
    qed
    moreover have "addrs (X n) (E n) \<inter> addrs (?X i) (E i) = {}" if "i < n" for i
      using levels_ok_disj [OF Suc.prems(1), of n i] ad [of i] that by auto
    ultimately show ?thesis using n by simp
  qed
qed simp

lemma map_of_delete:
  assumes "set ys = {y \<in> set xs. fst y \<noteq> k}" "distinct (map fst xs)" "distinct (map fst ys)"
  shows "map_of ys = (map_of xs)(k := None)"
proof
  fix a
  have "(a, b) \<in> set ys \<longleftrightarrow> a \<noteq> k \<and> (a, b) \<in> set xs" for b using assms(1) by auto
  then have "map_of ys a = Some b \<longleftrightarrow> a \<noteq> k \<and> map_of xs a = Some b" for b
    unfolding map_of_eq_Some_iff [OF assms(2)] map_of_eq_Some_iff [OF assms(3)] .
  then have "map_of ys a = (if a = k then None else map_of xs a)" by (metis not_Some_eq)
  then show "map_of ys a = ((map_of xs)(k := None)) a" by simp
qed

lemma bs_delete_ok:
  assumes inv: "bs_inv T s X E" and k: "min_sentinel < k" "k < max_sentinel"
  shows "\<exists>s' X'. bs_delete T k s = Inr s' \<and> bs_inv T s' X' E \<and> bs_map X' = (bs_map X)(k := None) \<and> bs_item_next s' = bs_item_next s"
proof -
  let ?B = "MAX_KEYS T" and ?l = "flip_coins T k"
  have l: "?l \<le> 4" by (rule flip_coins_le)
  note lv = bs_inv_levels [OF inv]
  have at: "level_at ?B m s (X m) (E m)" if "m < 5" for m using bs_inv_head(2) [OF inv that] .
  have hd: "(min_sentinel, bs_headers s ! 4) \<in> heads (X 4)" using bs_inv_head(1) [OF inv, of 4] by simp
  have km: "k \<in> set (keys_of (X m)) \<longleftrightarrow> k \<in> set (keys_of (X 0)) \<and> m \<le> ?l" if "m \<le> 4" for m
  proof -
    have "m < 5" "k \<noteq> min_sentinel" using that k(1) by auto
    then show ?thesis using bs_inv_level_keys [OF inv, of m] by blast
  qed
  have hi: "\<forall>m\<le>4. ?l < m \<longrightarrow> k \<notin> set (keys_of (X m))" using km by (meson leD)
  have lo: "k \<in> set (keys_of (X ?l)) \<longleftrightarrow> k \<in> set (keys_of (X 0))" using km [OF l] by blast
  obtain h' p where p: "delete_down k ?l 4 (bs_headers s ! 4) s = Inr p" "(h', p) \<in> heads (X ?l)" "h' < k"
    using delete_down_ok [OF lv hd k l hi] by blast
  have atl: "level_at ?B ?l s (X ?l) (E ?l)" using at l by simp
  obtain n0 where n0: "(p, n0) \<in> set (X ?l)" "hd (bs_keys n0) = h'" using p(2) by (auto simp: heads_def)
  then obtain us0 vs0 where x0: "X ?l = us0 @ (p, n0) # vs0" by (meson split_list)
  have f: "length vs0 < Suc (next_addr s)" "level_ok ?B ?l (E ?l) (us0 @ (p, n0) # vs0)" "bs_holds s (us0 @ (p, n0) # vs0)"
    "hd (bs_keys n0) \<le> k" "hd (bs_keys n0) = k \<Longrightarrow> us0 \<noteq> [] \<and> None = Some (fst (last us0))"
    using level_at_length [OF atl] atl n0(2) p(3) by (auto simp: level_at_def x0)
  obtain us q n vs prev r where w: "X ?l = us @ (q, n) # vs" "covers k n" "rank_of k (bs_keys n) r"
    "delete_walk (Suc (next_addr s)) k None p s = Inr (prev, q, r, k \<in> set (bs_keys n))"
    "hd (bs_keys n) = k \<longrightarrow> us \<noteq> [] \<and> prev = Some (fst (last us))"
    using delete_walk_ok [OF f(2,3,4) k(2) f(1,5)] unfolding x0 by blast
  have mem: "k \<in> set (bs_keys n) \<longleftrightarrow> k \<in> set (keys_of (X ?l))"
    using covers_mem [of ?B ?l "E ?l" us q n vs k] atl w(1,2) by (simp add: level_at_def)
  have run: "bs_delete T k s = (if k \<in> set (bs_keys n) then delete_found prev q r s else Inr s)"
    using k p(1) w(4) by (auto simp: bs_delete_def)
  show ?thesis
  proof (cases "k \<in> set (bs_keys n)")
    case False
    then have "k \<notin> dom (bs_map X)" using bs_inv_keys(2) [OF inv] mem lo by auto
    then have "(bs_map X)(k := None) = bs_map X" by (auto simp: fun_eq_iff)
    then show ?thesis using run False inv by auto
  next
    case True
    have "levels_ok ?B s X E (Suc ?l)" using l by (intro levels_ok_le [OF lv]) simp
    from delete_found_ok [OF this w(1,3) True w(5)] obtain s' X' where d: "delete_found prev q r s = Inr s'"
      "delete_done ?B k ?l s X E s' X'" by blast
    let ?X = "\<lambda>m. if m \<le> ?l then X' m else X m"
    have lv': "levels_ok ?B s' ?X E (Suc 4)"
      using hi l by (intro levels_ok_above [OF lv _ d(2)]) (simp_all add: less_Suc_eq_le)
    have keys: "set (keys_of (?X m)) = set (keys_of (X m)) - {k} \<and> fst (hd (?X m)) = fst (hd (X m))" if "m \<le> 4" for m
      using d(2) hi that by (auto simp: delete_done_def)
    have "bs_inv T s' ?X E"
      unfolding bs_inv_def
    proof (intro conjI allI impI)
      show "block_fits T" by (rule bs_inv_fits [OF inv])
      have "(5::nat) = Suc 4" by simp
      then show "levels_ok ?B s' ?X E 5" using lv' by simp
      fix m :: nat assume m: "m < 5"
      show "bs_headers s' ! m = fst (hd (?X m))" using bs_inv_headers [OF inv m] keys [of m] d(2) m by (simp add: delete_done_def)
      have "set (keys_of (?X m)) = set (keys_of (X m)) - {k}" "set (keys_of (?X 0)) = set (keys_of (X 0)) - {k}"
        using keys [of m] keys [of 0] m by simp_all
      then show "set (keys_of (?X m)) = {k \<in> set (keys_of (?X 0)). k = min_sentinel \<or> m \<le> flip_coins T k}"
        using bs_inv_level_keys [OF inv m] by blast
    qed
    moreover have "bs_map ?X = (bs_map X)(k := None)"
    proof -
      have at': "level_at ?B 0 s' (X' 0) (E 0)" using levels_okD [OF lv', of 0] by simp
      have "distinct (map fst (elts (X 0)))" "distinct (map fst (elts (X' 0)))"
        using map_fst_elts [OF at'] map_fst_elts [OF at [of 0]] level_at_sorted [OF at'] level_at_sorted [OF at [of 0]] by simp_all
      then have "map_of (elts (X' 0)) = (map_of (elts (X 0)))(k := None)"
        using d(2) by (intro map_of_delete) (simp_all add: delete_done_def)
      moreover have "bs_map ?X = (map_of (elts (X' 0)))(min_sentinel := None)"
        using bs_map_eq [where X = X', OF at'] by (simp add: bs_map_def)
      ultimately show ?thesis using bs_map_eq [where X = X, OF at [of 0]] k(1) by (auto simp: fun_upd_twist)
    qed
    moreover have "bs_item_next s' = bs_item_next s" using d(2) by (simp add: delete_done_def)
    ultimately show ?thesis using run True d(1) by auto
  qed
qed

end
