(* ===== verification/Bskip_range.thy ===== *)
theory Bskip_range
  imports Bskip_inv
begin

text \<open>
  Range scans against the sorted list of the stored elements, the construction of the empty structure, and the
  validation of the structure.
\<close>

subsection \<open>Scans along the leaves\<close>

lemma filter_eq_drop:
  assumes "\<forall>j<length xs. P (xs ! j) \<longleftrightarrow> i \<le> j"
  shows "filter P xs = drop i xs"
proof -
  have "filter P (take i xs) = []" using assms by (auto simp: filter_empty_conv in_set_conv_nth)
  moreover have "filter P (drop i xs) = drop i xs" using assms by (auto simp: filter_id_conv in_set_conv_nth)
  ultimately show ?thesis by (metis append_take_drop_id filter_append self_append_conv2)
qed

text \<open>The leaves from a node on, up to the end sentinel.\<close>

definition leaf_chain :: "nat \<Rightarrow> bskip \<Rightarrow> bs_list \<Rightarrow> bool" where
  "leaf_chain B s ws \<longleftrightarrow> ws \<noteq> [] \<and> linked ws \<and> bs_holds s ws \<and> snd (last ws) = end_sentinel 0 \<and>
     (\<forall>x\<in>set (butlast ws). node_ok B 0 (snd x) \<and> max_sentinel \<notin> set (bs_keys (snd x)))"

lemma leaf_chain_Cons:
  assumes "leaf_chain B s ((q, n) # w # ws)"
  shows "leaf_chain B s (w # ws)" "bn_next n = Some (fst w)" "node_of q s = Inr n" "node_ok B 0 n" "max_sentinel \<notin> set (bs_keys n)"
    "elts (butlast ((q, n) # w # ws)) = zip (bs_keys n) (bs_vals n) @ elts (butlast (w # ws))"
  using assms by (auto simp: leaf_chain_def node_of_def node_ok_def elts_def)

lemma leaf_chain_single:
  assumes "leaf_chain B s [(q, n)]"
  shows "node_of q s = Inr n" "n = end_sentinel 0"
  using assms by (auto simp: leaf_chain_def node_of_def)

lemma level_at_chain:
  assumes "level_at B 0 s xs e"
  shows "leaf_chain B s (xs @ [(e, end_sentinel 0)])"
  using assms by (auto simp: leaf_chain_def level_at_def level_ok_def sorted_wrt_append keys_of_def)

lemma leaf_chain_suffix: "leaf_chain B s (us @ ws) \<Longrightarrow> ws \<noteq> [] \<Longrightarrow> leaf_chain B s ws"
  by (auto simp: leaf_chain_def linked_append butlast_append)

lemma scan_length_ok:
  assumes "leaf_chain B s ((q, n) # ws)" "r < num_elts n" "length ws < f"
  shows "scan_length f num q r s = Inr (take num (drop r (elts (butlast ((q, n) # ws)))))"
  using assms
proof (induction ws arbitrary: q n r f num)
  case Nil
  then obtain f' where "f = Suc f'" by (cases f) auto
  then show ?case using leaf_chain_single [OF Nil(1)] Nil(2) by (simp add: get_key_at_rank_def elts_def)
next
  case (Cons w ws)
  obtain f' where f: "f = Suc f'" "length ws < f'" using Cons.prems(3) by (cases f) auto
  note lc = leaf_chain_Cons [OF Cons.prems(1)]
  have len: "length (bs_vals n) = num_elts n" using lc(4) by (simp add: node_ok_def)
  have w0: "0 < num_elts (snd w)"
    using lc(1) by (cases ws) (auto simp: leaf_chain_def node_ok_def)
  have ge: "get_elts r c n = Inr (take c (drop r (zip (bs_keys n) (bs_vals n))))" if "c \<le> num_elts n - r" for c
    using that len Cons.prems(2) by (simp add: get_elts_def take_zip drop_zip)
  have nm: "bs_keys n ! r \<noteq> max_sentinel" using lc(5) Cons.prems(2) by (metis nth_mem)
  let ?m = "num_elts n - r"
  have IH: "scan_length f' (num - ?m) (fst w) 0 s = Inr (take (num - ?m) (elts (butlast (w # ws))))"
    using Cons.IH [of "fst w" "snd w" 0 f' "num - ?m"] lc(1) w0 f(2) by simp
  show ?case
  proof (cases "num \<le> ?m")
    case True
    then show ?thesis using f(1) lc(2,3,6) nm Cons.prems(2) ge [of num] len
      by (auto simp: get_key_at_rank_def Let_def min_def drop_append take_append)
  next
    case False
    then show ?thesis using f(1) lc(2,3,6) nm Cons.prems(2) ge [of ?m] len IH
      by (auto simp: get_key_at_rank_def Let_def min_def not_null_def drop_append take_append)
  qed
qed

lemma scan_range_ok:
  assumes "leaf_chain B s ((q, n) # ws)" "r < num_elts n" "length (drop r (elts (butlast ((q, n) # ws)))) < f"
  shows "scan_range f mx q r s = Inr (takeWhile (\<lambda>e. fst e \<le> mx) (drop r (elts (butlast ((q, n) # ws)))))"
  using assms
proof (induction f arbitrary: q n ws r)
  case (Suc f)
  show ?case
  proof (cases ws)
    case Nil
    then show ?thesis using leaf_chain_single [of B s q n] Suc.prems by (simp add: get_key_at_rank_def elts_def)
  next
    case (Cons w ws')
    note lc = leaf_chain_Cons [OF Suc.prems(1) [unfolded Cons]]
    have len: "length (bs_vals n) = num_elts n" using lc(4) by (simp add: node_ok_def)
    have w0: "0 < num_elts (snd w)" using lc(1) by (cases ws') (auto simp: leaf_chain_def node_ok_def)
    have nm: "bs_keys n ! r \<noteq> max_sentinel" using lc(5) Suc.prems(2) by (metis nth_mem)
    let ?z = "zip (bs_keys n) (bs_vals n)"
    have dr: "drop r (elts (butlast ((q, n) # ws))) = (bs_keys n ! r, bs_vals n ! r) # drop (Suc r) ?z @ elts (butlast (w # ws'))"
      using lc(6) Suc.prems(2) len Cons_nth_drop_Suc [of r ?z] by (simp add: Cons)
    have val: "get_value_at_rank r n = Inr (bs_vals n ! r)" using Suc.prems(2) len by (simp add: get_value_at_rank_def)
    show ?thesis
    proof (cases "r + 1 = num_elts n")
      case True
      have "length (elts (butlast (w # ws'))) < f" using Suc.prems(3) True len unfolding dr by simp
      then have "scan_range f mx (fst w) 0 s = Inr (takeWhile (\<lambda>e. fst e \<le> mx) (elts (butlast (w # ws'))))"
        using Suc.IH [of "fst w" "snd w" ws' 0] lc(1) w0 by simp
      then show ?thesis unfolding dr using lc(2,3) nm Suc.prems(2) val True len by (simp add: get_key_at_rank_def not_null_def)
    next
      case False
      have d': "drop (Suc r) (elts (butlast ((q, n) # ws))) = drop (Suc r) ?z @ elts (butlast (w # ws'))"
        using lc(6) Suc.prems(2) len by (simp add: Cons)
      have "length (drop (Suc r) (elts (butlast ((q, n) # ws)))) < f" "Suc r < num_elts n"
        using Suc.prems(2,3) False unfolding dr d' by simp_all
      from Suc.IH [OF Suc.prems(1) this(2,1)] show ?thesis
        unfolding dr d' using lc(3) nm Suc.prems(2) val False by (simp add: get_key_at_rank_def)
    qed
  qed
qed simp

subsection \<open>Finding the start\<close>

lemma range_search_ok:
  assumes "levels_ok B s X E (Suc l)" "(h, p) \<in> heads (X l)" "h \<le> k" "k < max_sentinel"
  shows "\<exists>q n r m. range_search k (Suc l) p s = Inr (q, r, bs_keys n ! r = k) \<and> m \<le> l \<and> (q, n) \<in> set (X m) \<and>
     rank_of k (bs_keys n) r \<and> covers k n \<and> (bs_keys n ! r \<noteq> k \<longrightarrow> m = 0)"
  using assms
proof (induction l arbitrary: h p)
  case 0
  have at: "level_at B 0 s (X 0) (E 0)" using levels_okD [OF 0(1)] by simp
  obtain us q n vs r where sl: "X 0 = us @ (q, n) # vs" "walk k p s = Inr q" "node_of q s = Inr n" "covers k n"
    "rank_of k (bs_keys n) r" "find_key_and_check k n = Inr (r, k \<in> set (keys_of (X 0)))" "bs_keys n ! r = k \<longleftrightarrow> k \<in> set (keys_of (X 0))"
    using search_level [OF at 0(2-4)] .
  then have "range_search k (Suc 0) p s = Inr (q, r, bs_keys n ! r = k)" "(q, n) \<in> set (X 0)" by auto
  then show ?case using sl(4,5) by blast
next
  case (Suc l)
  have at: "level_at B (Suc l) s (X (Suc l)) (E (Suc l))" using levels_okD [OF Suc.prems(1)] by simp
  obtain us q n vs r where sl: "X (Suc l) = us @ (q, n) # vs" "walk k p s = Inr q" "node_of q s = Inr n" "covers k n"
    "rank_of k (bs_keys n) r" "find_key_and_check k n = Inr (r, k \<in> set (keys_of (X (Suc l))))" "bs_keys n ! r = k \<longleftrightarrow> k \<in> set (keys_of (X (Suc l)))"
    using search_level [OF at Suc.prems(2-4)] .
  have q: "(q, n) \<in> set (X (Suc l))" "r < num_elts n" "bs_keys n ! r \<le> k" using sl(1,5) by (auto simp: rank_of_def)
  note er = entry_of_rank [OF at _ q(1,2)]
  show ?case
  proof (cases "bs_keys n ! r = k")
    case True
    then have "range_search k (Suc (Suc l)) p s = Inr (q, r, bs_keys n ! r = k)" using sl(2,3,6,7) by simp
    then show ?thesis using q(1) sl(4,5) True by blast
  next
    case False
    have "(bs_keys n ! r, bs_children n ! r) \<in> heads (X l)"
      using er(1) levels_ok_entries [OF Suc.prems(1), of l] by auto
    moreover have "levels_ok B s X E (Suc l)" using Suc.prems(1) by simp
    ultimately obtain q' n' r' m where IH: "range_search k (Suc l) (bs_children n ! r) s = Inr (q', r', bs_keys n' ! r' = k)" "m \<le> l"
      "(q', n') \<in> set (X m)" "rank_of k (bs_keys n') r'" "covers k n'" "bs_keys n' ! r' \<noteq> k \<longrightarrow> m = 0"
      using Suc.IH q(3) Suc.prems(4) by blast
    have "range_search k (Suc (Suc l)) p s = Inr (q', r', bs_keys n' ! r' = k)" using sl(2,3,6,7) False er(2) IH(1) by simp
    then show ?thesis using IH(2-6) le_SucI by blast
  qed
qed

lemma range_search_all_ok:
  assumes "levels_ok B s X E (Suc l)" "(h, p) \<in> heads (X l)" "h \<le> k" "k < max_sentinel"
  shows "\<exists>q n r. range_search_all k (Suc l) p s = Inr (q, r) \<and> (q, n) \<in> set (X 0) \<and> rank_of k (bs_keys n) r \<and> covers k n"
  using assms
proof (induction l arbitrary: h p)
  case 0
  have at: "level_at B 0 s (X 0) (E 0)" using levels_okD [OF 0(1)] by simp
  obtain us q n vs r where sl: "X 0 = us @ (q, n) # vs" "walk k p s = Inr q" "node_of q s = Inr n" "covers k n"
    "rank_of k (bs_keys n) r" "find_key_and_check k n = Inr (r, k \<in> set (keys_of (X 0)))"
    using search_level [OF at 0(2-4)] by metis
  then have "range_search_all k (Suc 0) p s = Inr (q, r)" "(q, n) \<in> set (X 0)" by auto
  then show ?case using sl(4,5) by blast
next
  case (Suc l)
  have at: "level_at B (Suc l) s (X (Suc l)) (E (Suc l))" using levels_okD [OF Suc.prems(1)] by simp
  obtain us q n vs r where sl: "X (Suc l) = us @ (q, n) # vs" "walk k p s = Inr q" "node_of q s = Inr n" "covers k n"
    "rank_of k (bs_keys n) r" "find_key_and_check k n = Inr (r, k \<in> set (keys_of (X (Suc l))))"
    using search_level [OF at Suc.prems(2-4)] by metis
  have q: "(q, n) \<in> set (X (Suc l))" "r < num_elts n" "bs_keys n ! r \<le> k" using sl(1,5) by (auto simp: rank_of_def)
  note er = entry_of_rank [OF at _ q(1,2)]
  have "(bs_keys n ! r, bs_children n ! r) \<in> heads (X l)"
    using er(1) levels_ok_entries [OF Suc.prems(1), of l] by auto
  moreover have "levels_ok B s X E (Suc l)" using Suc.prems(1) by simp
  ultimately show ?case using Suc.IH [of "bs_keys n ! r" "bs_children n ! r"] q(3) Suc.prems(4) sl(2,3,6) er(2) by simp
qed

text \<open>Down from an entry of the key to the leaf: on every level the key is the first of its node.\<close>

lemma range_down_ok:
  assumes "levels_ok B s X E n" "m < n" "(q, a) \<in> set (X m)" "rank_of k (bs_keys a) r" "covers k a" "m < f" "bs_keys a ! r \<noteq> k \<longrightarrow> m = 0"
  shows "\<exists>q' a' r'. range_down f k q r s = Inr (q', r') \<and> (q', a') \<in> set (X 0) \<and> rank_of k (bs_keys a') r' \<and> covers k a' \<and>
     (bs_keys a' ! r' = k \<longleftrightarrow> bs_keys a ! r = k)"
  using assms
proof (induction f arbitrary: m q a r)
  case (Suc f)
  have at: "level_at B m s (X m) (E m)" using levels_okD [OF Suc.prems(1,2)] .
  have nq: "node_of q s = Inr a" using level_at_node [OF at Suc.prems(3)] .
  have lev: "bn_level a = m" using level_at_nodes [OF at] Suc.prems(3) by (force simp: node_ok_def)
  show ?case
  proof (cases m)
    case 0
    then have "range_down (Suc f) k q r s = Inr (q, r)" using nq lev by simp
    then show ?thesis using Suc.prems(3-5) 0 by blast
  next
    case (Suc m')
    then have kr: "bs_keys a ! r = k" using Suc.prems(7) by auto
    have r: "r < num_elts a" using Suc.prems(4) by (simp add: rank_of_def)
    note er = entry_of_rank [OF at _ Suc.prems(3) r]
    have "(k, bs_children a ! r) \<in> heads (X m')" using er(1) levels_ok_entries [OF Suc.prems(1), of m'] Suc Suc.prems(2) kr by auto
    moreover have at': "level_at B m' s (X m') (E m')" using levels_okD [OF Suc.prems(1), of m'] Suc Suc.prems(2) by simp
    ultimately obtain c where c: "(bs_children a ! r, c) \<in> set (X m')" "node_of (bs_children a ! r) s = Inr c" "bs_keys c \<noteq> []" "bs_keys c ! 0 = k"
      using heads_node [of B m' s "X m'" "E m'" k "bs_children a ! r"] by blast
    obtain us vs where x: "X m' = us @ (bs_children a ! r, c) # vs" using c(1) by (meson split_list)
    have ok: "level_ok B m' (E m') (us @ (bs_children a ! r, c) # vs)" using at' x by (simp add: level_at_def)
    note sp = level_ok_split [OF ok]
    have hk: "hd (bs_keys c) = k" using c(3,4) by (simp add: hd_conv_nth)
    then have cov: "covers k c" using sp(4) c(3) by (auto simp: covers_def)
    obtain r' where r': "rank_of k (bs_keys c) r'" "find_key_and_check k c = Inr (r', bs_keys c ! r' = k)"
      using find_key_and_check_ok [of c k] sp(2) c(3) hk by auto
    have "bs_keys c ! r' = k" using rank_of_mem [OF sp(2) r'(1)] c(3,4) by (metis hk hd_in_set)
    then show ?thesis
      using Suc.IH [OF Suc.prems(1) _ c(1) r'(1) cov] nq lev Suc er(2) c(2) r'(2) kr Suc.prems(2,6) by simp
  qed
qed simp

text \<open>The elements from a position on are those from the key on.\<close>

lemma elts_from:
  assumes at: "level_at B 0 s xs e" and x: "xs = us @ (q, n) # vs" and r: "rank_of k (bs_keys n) r" and cov: "covers k n"
  shows "filter (\<lambda>y. k < fst y) (elts xs) = drop (Suc r) (zip (bs_keys n) (bs_vals n)) @ elts vs"
    "bs_keys n ! r = k \<Longrightarrow> filter (\<lambda>y. k \<le> fst y) (elts xs) = drop r (zip (bs_keys n) (bs_vals n)) @ elts vs"
proof -
  have all: "\<forall>x\<in>set (us @ (q, n) # vs). node_ok B 0 (snd x)" using level_at_nodes [OF at] x by simp
  have ok: "level_ok B 0 e (us @ (q, n) # vs)" using at x by (simp add: level_at_def)
  note sp = level_ok_split [OF ok]
  let ?z = "zip (bs_keys n) (bs_vals n)"
  have el: "elts xs = elts us @ ?z @ elts vs"
  proof -
    have "elts ((q, n) # vs) = elts [(q, n)] @ elts vs" using elts_append [of "[(q, n)]" vs B] all by simp
    then show ?thesis using elts_append [of us "(q, n) # vs" B] all x by (simp add: elts_def)
  qed
  have us: "\<forall>y\<in>set (elts us). fst y < k"
    using sp(3) cov by (auto simp: covers_def elts_def dest!: set_zip_leftD)
  have vs: "\<forall>y\<in>set (elts vs). k < fst y"
    using sp(5) cov by (auto simp: covers_def elts_def dest!: set_zip_leftD)
  have len: "length (bs_vals n) = num_elts n" using sp(1) by (simp add: node_ok_def)
  have fus: "filter (\<lambda>y. k < fst y) (elts us) = []" "filter (\<lambda>y. k \<le> fst y) (elts us) = []"
    using us by (auto simp: filter_empty_conv)
  have fvs: "filter (\<lambda>y. k < fst y) (elts vs) = elts vs" "filter (\<lambda>y. k \<le> fst y) (elts vs) = elts vs"
    using vs by (auto simp: filter_id_conv intro: less_imp_le)
  have lo: "bs_keys n ! j \<le> bs_keys n ! r" if "j \<le> r" for j
    using sorted_wrt_nth_less [OF sp(2), of j r] that r by (cases "j = r") (auto simp: rank_of_def)
  have hi: "k < bs_keys n ! j" if "r < j" "j < num_elts n" for j using r that by (simp add: rank_of_def)
  have rk: "bs_keys n ! r \<le> k" using r by (simp add: rank_of_def)
  have "filter (\<lambda>y. k < fst y) ?z = drop (Suc r) ?z"
  proof (rule filter_eq_drop, intro allI impI)
    fix j assume j: "j < length ?z"
    then show "k < fst (?z ! j) \<longleftrightarrow> Suc r \<le> j"
      using lo [of j] hi [of j] rk by (cases "j \<le> r") (auto dest: leD order_trans)
  qed
  then show "filter (\<lambda>y. k < fst y) (elts xs) = drop (Suc r) ?z @ elts vs" by (simp add: el fus fvs)
  assume kr: "bs_keys n ! r = k"
  have "filter (\<lambda>y. k \<le> fst y) ?z = drop r ?z"
  proof (rule filter_eq_drop, intro allI impI)
    fix j assume j: "j < length ?z"
    have "bs_keys n ! j < k" if "j < r" using sorted_wrt_nth_less [OF sp(2), of j r] that r kr by (simp add: rank_of_def)
    then show "k \<le> fst (?z ! j) \<longleftrightarrow> r \<le> j"
      using j hi [of j] kr len by (cases j r rule: linorder_cases) (auto dest: leD less_imp_le)
  qed
  then show "filter (\<lambda>y. k \<le> fst y) (elts xs) = drop r ?z @ elts vs" by (simp add: el fus fvs)
qed

subsection \<open>The scans\<close>

text \<open>A place in the chain of the leaves: a node, a rank in it, and the elements from there on.\<close>

definition place :: "nat \<Rightarrow> bskip \<Rightarrow> nat \<Rightarrow> nat \<Rightarrow> nat \<Rightarrow> bs_elt list \<Rightarrow> bool" where
  "place B s bound q r es \<longleftrightarrow> (\<exists>n ws. leaf_chain B s ((q, n) # ws) \<and> r < num_elts n \<and> length ws < bound \<and>
     drop r (elts (butlast ((q, n) # ws))) = es)"

lemma place_scan:
  assumes "place B s bound q r es"
  shows "scan_length bound num q r s = Inr (take num es)" "length es < f \<Longrightarrow> scan_range f mx q r s = Inr (takeWhile (\<lambda>y. fst y \<le> mx) es)"
  using assms scan_length_ok scan_range_ok by (auto simp: place_def)

lemma place_at:
  assumes at: "level_at B 0 s xs e" and x: "xs = us @ (q, n) # vs" and r: "r < num_elts n"
  shows "place B s (Suc (next_addr s)) q r (drop r (zip (bs_keys n) (bs_vals n)) @ elts vs)"
    "\<exists>q' r'. range_next q r s = Inr (q', r') \<and> place B s (Suc (next_addr s)) q' r' (drop (Suc r) (zip (bs_keys n) (bs_vals n)) @ elts vs)"
proof -
  let ?z = "zip (bs_keys n) (bs_vals n)" and ?t = "vs @ [(e, end_sentinel 0)]"
  have ch: "leaf_chain B s ((q, n) # ?t)" using leaf_chain_suffix [of B s us "(q, n) # ?t"] level_at_chain [OF at] x by simp
  have nd: "node_ok B 0 n" using level_at_nodes [OF at] x by simp
  then have len: "length (bs_vals n) = num_elts n" by (simp add: node_ok_def)
  have el: "elts (butlast ((q, n) # ?t)) = ?z @ elts vs" using len by (simp add: elts_def butlast_append)
  have lt: "length ?t < Suc (next_addr s)" using level_at_length [OF at] by (simp add: x)
  show "place B s (Suc (next_addr s)) q r (drop r ?z @ elts vs)"
    unfolding place_def using ch r lt el len by (intro exI [of _ n] exI [of _ ?t]) simp
  have nq: "node_of q s = Inr n" using level_at_node [OF at] x by simp
  show "\<exists>q' r'. range_next q r s = Inr (q', r') \<and> place B s (Suc (next_addr s)) q' r' (drop (Suc r) ?z @ elts vs)"
  proof (cases "r + 1 = num_elts n")
    case False
    then have "range_next q r s = Inr (q, Suc r)" using nq by (simp add: range_next_def)
    moreover have "place B s (Suc (next_addr s)) q (Suc r) (drop (Suc r) ?z @ elts vs)"
      unfolding place_def using ch r lt el len False by (intro exI [of _ n] exI [of _ ?t]) simp
    ultimately show ?thesis by blast
  next
    case True
    obtain w ws where t: "?t = w # ws" by (cases ?t) auto
    have w: "leaf_chain B s (w # ws)" "bn_next n = Some (fst w)" using leaf_chain_Cons [of B s q n w ws] ch t by simp_all
    have w0: "0 < num_elts (snd w)" using w(1) by (cases ws) (auto simp: leaf_chain_def node_ok_def)
    have "range_next q r s = Inr (fst w, 0)" using nq True w(2) by (simp add: range_next_def not_null_def)
    moreover have "elts (butlast (w # ws)) = elts vs" using t by (metis butlast_snoc)
    then have "place B s (Suc (next_addr s)) (fst w) 0 (drop (Suc r) ?z @ elts vs)"
      unfolding place_def using w w0 lt t True len by (intro exI [of _ "snd w"] exI [of _ ws]) simp
    ultimately show ?thesis by blast
  qed
qed

lemma sorted_takeWhile_filter: "sorted_wrt (<) (map fst xs) \<Longrightarrow> takeWhile (\<lambda>y. fst y \<le> mx) xs = filter (\<lambda>y. fst y \<le> mx) xs"
  for mx :: "64 word"
proof (induction xs)
  case (Cons x xs)
  have "filter (\<lambda>y. fst y \<le> mx) xs = []" if "\<not> fst x \<le> mx"
    using Cons.prems that by (force simp: filter_empty_conv not_le)
  with Cons show ?case by simp
qed simp

lemma map_range_length_ok:
  assumes inv: "bs_inv T s X E" and k: "k < max_sentinel"
  shows "map_range_length k len s = Inr (take (unat (ucast len :: 32 word)) (filter (\<lambda>y. k \<le> fst y) (elts (X 0))))"
proof -
  let ?B = "MAX_KEYS T"
  have at: "level_at ?B 0 s (X 0) (E 0)" using bs_inv_head(2) [OF inv, of 0] by simp
  have lv: "levels_ok ?B s X E (Suc 4)" using inv by (simp add: bs_inv_def numeral_eq_Suc del: levels_ok.simps)
  have hd: "(min_sentinel, bs_headers s ! 4) \<in> heads (X 4)" using bs_inv_head(1) [OF inv, of 4] by simp
  obtain q n r m where rs: "range_search k (Suc 4) (bs_headers s ! 4) s = Inr (q, r, bs_keys n ! r = k)" "m \<le> 4" "(q, n) \<in> set (X m)"
    "rank_of k (bs_keys n) r" "covers k n" "bs_keys n ! r \<noteq> k \<longrightarrow> m = 0"
    using range_search_ok [OF lv hd _ k] by auto
  obtain q' a' r' where rd: "range_down 6 k q r s = Inr (q', r')" "(q', a') \<in> set (X 0)" "rank_of k (bs_keys a') r'" "covers k a'"
    "bs_keys a' ! r' = k \<longleftrightarrow> bs_keys n ! r = k"
    using range_down_ok [OF lv _ rs(3-5) _ rs(6), of 6] rs(2) by auto
  obtain us vs where x: "X 0 = us @ (q', a') # vs" using rd(2) by (meson split_list)
  have r: "r' < num_elts a'" using rd(3) by (simp add: rank_of_def)
  note pl = place_at [OF at x r] and ef = elts_from [OF at x rd(3,4)]
  have six: "Suc 4 = (5::nat)" "Suc 5 = (6::nat)" by simp_all
  have run: "map_range_length k len s = bindE (if bs_keys n ! r = k then Inr (q', r') else range_next q' r' s) (\<lambda>(p2, rank2).
      scan_length (Suc (next_addr s)) (unat (ucast len :: 32 word)) p2 rank2 s)"
    using rs(1) rd(1) unfolding map_range_length_def six by simp
  show ?thesis
  proof (cases "bs_keys n ! r = k")
    case True
    then show ?thesis using run place_scan(1) [OF pl(1)] ef(2) rd(5) by simp
  next
    case False
    have "k \<notin> set (keys_of (X 0))"
      using covers_mem [of ?B 0 "E 0" us q' a' vs k] rank_of_mem [OF level_ok_split(2) [of ?B 0 "E 0" us q' a' vs] rd(3)] at rd(4,5) False
      by (auto simp: level_at_def x)
    then have "filter (\<lambda>y. k \<le> fst y) (elts (X 0)) = filter (\<lambda>y. k < fst y) (elts (X 0))"
      by (intro filter_cong) (auto simp: elts_def order_less_le dest!: set_zip_leftD)
    then show ?thesis using run False pl(2) place_scan(1) ef(1) by fastforce
  qed
qed

lemma length_elts_le:
  assumes "level_at B 0 s xs e"
  shows "length (elts xs) \<le> B * next_addr s"
proof -
  have "length (keys_of ys) \<le> B * length ys" if "\<forall>x\<in>set ys. node_ok B 0 (snd x)" for ys
    using that by (induction ys) (auto simp: node_ok_def intro: add_mono)
  then have "length (elts xs) \<le> B * length xs" using level_at_nodes [OF assms] by (simp add: elts_def min_le_iff_disj)
  also have "\<dots> \<le> B * next_addr s" using level_at_length [OF assms] by simp
  finally show ?thesis .
qed

lemma map_range_ok:
  assumes inv: "bs_inv T s X E" and k: "mn < max_sentinel"
  shows "map_range T mn mx s = Inr (filter (\<lambda>y. mn < fst y \<and> fst y \<le> mx) (elts (X 0)))"
proof -
  let ?B = "MAX_KEYS T"
  have at: "level_at ?B 0 s (X 0) (E 0)" using bs_inv_head(2) [OF inv, of 0] by simp
  have lv: "levels_ok ?B s X E (Suc 4)" using inv by (simp add: bs_inv_def numeral_eq_Suc del: levels_ok.simps)
  have hd: "(min_sentinel, bs_headers s ! 4) \<in> heads (X 4)" using bs_inv_head(1) [OF inv, of 4] by simp
  obtain q n r where rs: "range_search_all mn (Suc 4) (bs_headers s ! 4) s = Inr (q, r)" "(q, n) \<in> set (X 0)"
    "rank_of mn (bs_keys n) r" "covers mn n"
    using range_search_all_ok [OF lv hd _ k] by auto
  have "bn_level n = 0" using level_at_nodes [OF at] rs(2) by (force simp: node_ok_def)
  then have down: "range_down 6 mn q r s = Inr (q, r)" using level_at_node [OF at rs(2)] by (simp add: numeral_eq_Suc)
  obtain us vs where x: "X 0 = us @ (q, n) # vs" using rs(2) by (meson split_list)
  have r: "r < num_elts n" using rs(3) by (simp add: rank_of_def)
  let ?es = "filter (\<lambda>y. mn < fst y) (elts (X 0))"
  obtain q' r' where nx: "range_next q r s = Inr (q', r')" "place ?B s (Suc (next_addr s)) q' r' ?es"
    using place_at(2) [OF at x r] elts_from(1) [OF at x rs(3,4)] by auto
  have "length ?es < Suc (?B * next_addr s)"
    using length_elts_le [OF at] length_filter_le [of "\<lambda>y. mn < fst y" "elts (X 0)"] by linarith
  from place_scan(2) [OF nx(2) this]
  have "scan_range (Suc (?B * next_addr s)) mx q' r' s = Inr (takeWhile (\<lambda>y. fst y \<le> mx) ?es)" .
  moreover have "sorted_wrt (<) (map fst (elts (X 0)))" using map_fst_elts [OF at] level_at_sorted [OF at] by simp
  then have "sorted_wrt (<) (map fst ?es)" by (induction "elts (X 0)" rule: list.induct) (simp_all add: sorted_wrt_map sorted_wrt_filter)
  then have "takeWhile (\<lambda>y. fst y \<le> mx) ?es = filter (\<lambda>y. mn < fst y \<and> fst y \<le> mx) (elts (X 0))"
    by (simp add: sorted_takeWhile_filter conj_commute)
  moreover have "Suc 4 = (5::nat)" "Suc 5 = (6::nat)" by simp_all
  ultimately show ?thesis using rs(1) down nx(1) unfolding map_range_def by simp
qed

subsection \<open>Validation\<close>

lemma validate_level_ok:
  assumes "level_ok B l e (us @ (p, n) # vs)" "bs_holds s (us @ (p, n) # vs @ [(e, end_sentinel l)])" "length vs + 1 < f"
  shows "validate_level f l p s = Inr ()"
  using assms
proof (induction vs arbitrary: us p n f)
  case Nil
  note sp = level_ok_split [OF Nil(1)]
  obtain f' where f: "f = Suc (Suc f')" using Nil(3) by (metis One_nat_def add_0 less_iff_Suc_add list.size(3) plus_1_eq_Suc add_Suc)
  have h: "bs_keys n \<noteq> []" "bs_keys n ! 0 < max_sentinel" using sp(1,4) by (auto simp: node_ok_def sp(6))
  show ?case
    using h sp Nil(2) sorted_wrt_nth_less [OF sp(2)] by (auto simp: f node_of_def not_null_def get_header_def get_key_at_rank_def node_ok_def)
next
  case (Cons x vs)
  note sp = level_ok_split [OF Cons.prems(1)]
  obtain f' where f: "f = Suc f'" "length vs + 1 < f'" using Cons.prems(3) by (cases f) auto
  have nx: "bn_next n = Some (fst x)" "next_header n = hd (bs_keys (snd x))" using sp(7) by auto
  have xk: "bs_keys (snd x) \<noteq> []" using Cons.prems(1) by (auto simp: level_ok_def node_ok_def)
  have h: "bs_keys n \<noteq> []" "bs_keys n ! 0 < next_header n" using sp(1,4) by (auto simp: node_ok_def)
  have hm: "bs_keys n ! 0 < max_sentinel" using h(2) by (meson less_le_trans sentinel_order(1))
  have "validate_level f' l (fst x) s = Inr ()"
    using Cons.IH [of "us @ [(p, n)]" "fst x" "snd x" f'] Cons.prems f(2) by simp
  moreover have "bs_heap s p = Some n" "bs_heap s (fst x) = Some (snd x)" using Cons.prems(2) by simp_all
  ultimately show ?case
    using h hm sp(1) nx xk sorted_wrt_nth_less [OF sp(2)]
    by (auto simp: f node_of_def not_null_def get_header_def get_key_at_rank_def node_ok_def hd_conv_nth)
qed

lemma validate_structure_ok:
  assumes inv: "bs_inv T s X E"
  shows "validate_structure s = Inr ()"
proof -
  have "validate_levels l s = Inr ()" if "l \<le> 5" for l
    using that
  proof (induction l)
    case (Suc l)
    have at: "level_at (MAX_KEYS T) l s (X l) (E l)" using bs_inv_head(2) [OF inv, of l] Suc.prems by simp
    obtain p n vs where x: "X l = (p, n) # vs" using at by (cases "X l") (auto simp: level_at_def level_ok_def)
    have "bs_headers s ! l = p" using bs_inv_headers [OF inv, of l] Suc.prems x by simp
    moreover have "length vs + 1 < Suc (next_addr s)" using level_at_length [OF at] by (simp add: x)
    then have "validate_level (Suc (next_addr s)) l p s = Inr ()"
      using validate_level_ok [of "MAX_KEYS T" l "E l" "[]" p n vs s "Suc (next_addr s)"] at by (simp add: level_at_def x del: validate_level.simps)
    ultimately show ?case using Suc by (simp del: validate_level.simps)
  qed simp
  then show ?thesis by (simp add: validate_structure_def)
qed

end
