(* ===== verification/Bskip_init.thy ===== *)
theory Bskip_init
  imports Bskip_delete Bskip_range
begin

text \<open>The empty structure satisfies the invariant.\<close>

definition header_node :: "nat \<Rightarrow> bs_node" where
  "header_node l = (if l = 0 then BSkipNodeLeaf else BSkipNodeInternal)\<lparr>bn_level := l, bn_next := Some (2 * l + 1),
     bs_keys := [min_sentinel], bs_vals := (if l = 0 then [None] else []), bs_children := (if l = 0 then [] else [2 * (l - 1)])\<rparr>"

lemma BSkip_init_run:
  "\<exists>s. BSkip_init nx = Inr s \<and> next_addr s = 10 \<and> bs_headers s = [0, 2, 4, 6, 8] \<and> bs_item_next s = nx \<and>
     (\<forall>l\<in>{0, 1, 2, 3, 4}. bs_heap s (2 * l) = Some (header_node l) \<and> bs_heap s (2 * l + 1) = Some (end_sentinel l))"
proof -
  have "[0..<5] = [0, 1, 2, 3, 4::nat]" "(5::nat) = Suc (Suc (Suc (Suc (Suc 0))))" by (simp_all add: upt_rec)
  then have run: "BSkip_init nx = set_min_elts (Suc (Suc (Suc (Suc (Suc 0)))))
      (alloc_headers [0, 1, 2, 3, 4] \<lparr>bs_heap = (\<lambda>_. None), next_addr = 0, bs_headers = [], bs_item_next = nx\<rparr>)"
    unfolding BSkip_init_def by argo
  show ?thesis
    unfolding run by (simp add: alloc_node_def put_node_def node_of_def header_node_def end_sentinel_def
        BSkipNodeLeaf_def BSkipNodeInternal_def Let_def)
qed

lemma header_node_ok:
  assumes "1 \<le> B"
  shows "level_ok B l (2 * l + 1) [(2 * l, header_node l)]"
  using assms by (auto simp: level_ok_def node_ok_def header_node_def BSkipNodeLeaf_def BSkipNodeInternal_def)

lemma BSkip_init_ok:
  assumes "block_fits T"
  shows "\<exists>s X E. BSkip_init nx = Inr s \<and> bs_inv T s X E \<and> bs_map X = Map.empty \<and> bs_item_next s = nx"
proof -
  let ?X = "\<lambda>l. [(2 * l, header_node l)]" and ?E = "\<lambda>l. 2 * l + 1 :: nat" and ?B = "MAX_KEYS T"
  obtain s where s: "BSkip_init nx = Inr s" "next_addr s = 10" "bs_headers s = [0, 2, 4, 6, 8]" "bs_item_next s = nx"
    and hp: "\<forall>l\<in>{0, 1, 2, 3, 4}. bs_heap s (2 * l) = Some (header_node l) \<and> bs_heap s (2 * l + 1) = Some (end_sentinel l)"
    using BSkip_init_run [of nx] by blast
  have five: "l \<in> {0, 1, 2, 3, 4}" if "l < 5" for l :: nat using that by auto
  have keys: "keys_of (?X l) = [min_sentinel]" for l by (simp add: header_node_def)
  have "levels_ok ?B s ?X ?E n" if "n \<le> 5" for n
    using that
  proof (induction n)
    case (Suc n)
    have n: "bs_heap s (2 * n) = Some (header_node n)" "bs_heap s (2 * n + 1) = Some (end_sentinel n)" using hp five [of n] Suc.prems by auto
    have "level_at ?B n s (?X n) (?E n)"
      using header_node_ok [of ?B n] block_fitsD(1) [OF assms] n s(2) Suc.prems by (simp add: level_at_def addrs_def)
    moreover have "entries (?X n) \<subseteq> heads (?X (n - 1))" if "n > 0"
      using that by (simp add: entries_def header_node_def)
    moreover have "addrs (?X n) (?E n) \<inter> addrs (?X i) (?E i) = {}" if "i < n" for i
      using that by (auto simp: addrs_def)
    ultimately show ?case using Suc by simp
  qed simp
  then have "levels_ok ?B s ?X ?E 5" by simp
  then have "bs_inv T s ?X ?E"
    unfolding bs_inv_def keys
  proof (intro conjI allI impI)
    fix l :: nat assume "l < 5"
    then show "bs_headers s ! l = fst (hd (?X l))" using five [of l] s(3) by auto
  qed (use assms in auto)
  moreover have "bs_map ?X = Map.empty" by (simp add: bs_map_def elts_def header_node_def)
  ultimately show ?thesis using s by blast
qed

end
