(* ===== verification/Bskip_run.thy ===== *)
theory Bskip_run
  imports Bskip_init
begin

text \<open>
  Whole runs of the blocked skip list: any sequence of insertions and deletions from the constructor on.
\<close>

subsection \<open>Runs\<close>

datatype bs_op = Bs_insert "64 word" item_ptr | Bs_delete "64 word"

fun bs_apply :: "bskip_traits \<Rightarrow> bs_op \<Rightarrow> bskip \<Rightarrow> fault + bskip" where
  "bs_apply T (Bs_insert k i) s = bindE (bs_insert T (k, Some i) s) (\<lambda>(_, s1). Inr s1)"
| "bs_apply T (Bs_delete k) s = bs_delete T k s"

fun bs_run :: "bskip_traits \<Rightarrow> bs_op list \<Rightarrow> bskip \<Rightarrow> fault + bskip" where
  "bs_run T [] s = Inr s"
| "bs_run T (x # xs) s = bindE (bs_apply T x s) (bs_run T xs)"

text \<open>The map the structure stands for, and the \<^verbatim>\<open>next\<close> pointers of the items. The sentinels are not keys.\<close>

type_synonym bs_spec = "(64 word \<rightharpoonup> item_ptr option) \<times> item_next"

definition is_sentinel :: "64 word \<Rightarrow> bool" where
  "is_sentinel k \<longleftrightarrow> k = min_sentinel \<or> k = max_sentinel"

fun spec_apply :: "bs_op \<Rightarrow> bs_spec \<Rightarrow> bs_spec" where
  "spec_apply (Bs_insert k i) (m, nx) =
     (if is_sentinel k then (m, nx)
      else (m(k \<mapsto> Some i), case m k of None \<Rightarrow> nx | Some q \<Rightarrow> nx(i := q)))"
| "spec_apply (Bs_delete k) (m, nx) = (if is_sentinel k then (m, nx) else (m(k := None), nx))"

definition spec_run :: "bs_op list \<Rightarrow> item_next \<Rightarrow> bs_spec" where
  "spec_run xs nx = fold spec_apply xs (Map.empty, nx)"

definition bs_stands :: "bskip_traits \<Rightarrow> bskip \<Rightarrow> bs_spec \<Rightarrow> bool" where
  "bs_stands T s ms \<longleftrightarrow> (\<exists>X E. bs_inv T s X E \<and> bs_map X = fst ms \<and> bs_item_next s = snd ms)"

lemma not_sentinel: "\<not> is_sentinel k \<longleftrightarrow> min_sentinel < k \<and> k < max_sentinel"
  unfolding is_sentinel_def using sentinel_order(1,2) [of k] by (auto simp: order_less_le)

lemma bs_stands_init: "block_fits T \<Longrightarrow> \<exists>s. BSkip_init nx = Inr s \<and> bs_stands T s (Map.empty, nx)"
  using BSkip_init_ok [of T nx] unfolding bs_stands_def by fastforce

lemma bs_apply_ok:
  assumes "bs_stands T s ms"
  shows "\<exists>s'. bs_apply T x s = Inr s' \<and> bs_stands T s' (spec_apply x ms)"
proof -
  obtain X E where inv: "bs_inv T s X E" "bs_map X = fst ms" "bs_item_next s = snd ms" using assms by (auto simp: bs_stands_def)
  obtain m nx where ms: "ms = (m, nx)" by (cases ms)
  show ?thesis
  proof (cases x)
    case (Bs_insert k i)
    show ?thesis
    proof (cases "is_sentinel k")
      case True
      then show ?thesis using assms by (auto simp: Bs_insert bs_insert_def is_sentinel_def ms)
    next
      case False
      then have k: "min_sentinel < k" "k < max_sentinel" by (simp_all add: not_sentinel)
      show ?thesis
      proof (cases "m k")
        case None
        then have "fst (k, Some i) \<notin> dom (bs_map X)" by (simp add: inv(2) ms domIff)
        from bs_insert_new [OF inv(1) _ _ this] k inv None show ?thesis
          by (fastforce simp: Bs_insert ms bs_stands_def False)
      next
        case (Some q)
        then have "bs_map X k = Some q" by (simp add: inv(2) ms)
        from bs_insert_replace [OF inv(1) k this, of i] inv Some show ?thesis
          by (fastforce simp: Bs_insert ms bs_stands_def False)
      qed
    qed
  next
    case (Bs_delete k)
    show ?thesis
    proof (cases "is_sentinel k")
      case True
      then show ?thesis using assms by (auto simp: Bs_delete bs_delete_def is_sentinel_def ms)
    next
      case False
      then have k: "min_sentinel < k" "k < max_sentinel" by (simp_all add: not_sentinel)
      from bs_delete_ok [OF inv(1) k] inv show ?thesis by (fastforce simp: Bs_delete ms bs_stands_def False)
    qed
  qed
qed

lemma bs_run_stands: "bs_stands T s ms \<Longrightarrow> \<exists>s'. bs_run T xs s = Inr s' \<and> bs_stands T s' (fold spec_apply xs ms)"
proof (induction xs arbitrary: s ms)
  case (Cons x xs)
  from bs_apply_ok [OF Cons.prems, of x] Cons.IH show ?case by fastforce
qed simp

definition bs_state :: "bskip_traits \<Rightarrow> item_next \<Rightarrow> bs_op list \<Rightarrow> fault + bskip" where
  "bs_state T nx xs = bindE (BSkip_init nx) (bs_run T xs)"

lemma bs_state_stands: "block_fits T \<Longrightarrow> \<exists>s. bs_state T nx xs = Inr s \<and> bs_stands T s (spec_run xs nx)"
  using bs_stands_init [of T nx] bs_run_stands [of T _ "(Map.empty, nx)" xs] by (fastforce simp: bs_state_def spec_run_def)

subsection \<open>The nodes of a level\<close>

text \<open>From the header along the \<^verbatim>\<open>next\<close> pointers up to the end sentinel.\<close>

fun nodes_from :: "nat \<Rightarrow> nat \<Rightarrow> bskip \<Rightarrow> fault + bs_list" where
  "nodes_from 0 p s = Inl Spinning"
| "nodes_from (Suc f) p s =
     bindE (node_of p s) (\<lambda>n.
     bindE (get_header n) (\<lambda>h.
     if h = max_sentinel then Inr []
     else bindE (not_null (bn_next n)) (\<lambda>q. bindE (nodes_from f q s) (\<lambda>rest. Inr ((p, n) # rest)))))"

definition level_nodes :: "nat \<Rightarrow> bskip \<Rightarrow> fault + bs_list" where
  "level_nodes l s = nodes_from (Suc (next_addr s)) (bs_headers s ! l) s"

lemma nodes_from_ok:
  assumes "level_ok B l e (us @ vs)" "bs_holds s (vs @ [(e, end_sentinel l)])" "length vs < f"
  shows "nodes_from f (fst (hd (vs @ [(e, end_sentinel l)]))) s = Inr vs"
  using assms
proof (induction vs arbitrary: us f)
  case Nil
  then show ?case by (cases f) (simp_all add: node_of_def get_header_def get_key_at_rank_def)
next
  case (Cons x vs)
  obtain f' where f: "f = Suc f'" "length vs < f'" using Cons.prems(3) by (cases f) auto
  obtain p n where x: "x = (p, n)" by (cases x)
  have ok: "level_ok B l e (us @ (p, n) # vs)" using Cons.prems(1) by (simp add: x)
  note sp = level_ok_split [OF ok]
  have nx: "bn_next n = Some (fst (hd (vs @ [(e, end_sentinel l)])))" using sp(7,8) by (cases vs) auto
  obtain h hs where hs: "bs_keys n = h # hs" using sp(1) by (cases "bs_keys n") (auto simp: node_ok_def)
  have "h < next_header n" using sp(4) hs by simp
  then have h: "get_header n = Inr h" "h \<noteq> max_sentinel" using hs by (auto simp: get_header_def get_key_at_rank_def dest: less_imp_neq)
  have "nodes_from f' (fst (hd (vs @ [(e, end_sentinel l)]))) s = Inr vs"
    using Cons.IH [of "us @ [x]" f'] Cons.prems f(2) by simp
  then show ?case using f(1) x nx h Cons.prems(2) by (simp add: node_of_def not_null_def)
qed

lemma level_nodes_ok:
  assumes "bs_inv T s X E" "l < MAX_HEIGHT"
  shows "level_nodes l s = Inr (X l)"
proof -
  have at: "level_at (MAX_KEYS T) l s (X l) (E l)" by (rule bs_inv_head(2) [OF assms])
  have "X l \<noteq> []" using at by (simp add: level_at_def level_ok_def)
  then show ?thesis
    using nodes_from_ok [of "MAX_KEYS T" l "E l" "[]" "X l" s "Suc (next_addr s)"] at level_at_length [OF at] bs_inv_headers [OF assms]
    by (simp add: level_nodes_def level_at_def)
qed

lemma level_nodes_wf:
  assumes inv: "bs_inv T s X E" and l: "l < MAX_HEIGHT" and n: "(p, n) \<in> set (X l)"
  shows "node_ok (MAX_KEYS T) l n"
    "l > 0 \<Longrightarrow> r < num_elts n \<Longrightarrow> \<exists>m. node_of (bs_children n ! r) s = Inr m \<and> bn_level m = l - 1 \<and> get_header m = Inr (bs_keys n ! r)"
proof -
  have at: "level_at (MAX_KEYS T) l s (X l) (E l)" by (rule bs_inv_head(2) [OF inv l])
  show ok: "node_ok (MAX_KEYS T) l n" using level_at_nodes [OF at] n by force
  assume pos: "l > 0" and r: "r < num_elts n"
  then obtain l' where l': "l = Suc l'" by (cases l) auto
  have at': "level_at (MAX_KEYS T) l' s (X l') (E l')" using bs_inv_head(2) [OF inv, of l'] l l' by simp
  have "(bs_keys n ! r, bs_children n ! r) \<in> entries (X l)"
    using entries_iff [OF level_at_nodes [OF at] pos] n r by blast
  then have "(bs_keys n ! r, bs_children n ! r) \<in> heads (X l')"
    using levels_ok_entries [of "MAX_KEYS T" s X E MAX_HEIGHT l'] inv l l' by (auto simp: bs_inv_def)
  then obtain m where m: "(bs_children n ! r, m) \<in> set (X l')" "hd (bs_keys m) = bs_keys n ! r" by (auto simp: heads_def)
  have "node_ok (MAX_KEYS T) l' m" using level_at_nodes [OF at'] m(1) by force
  then show "\<exists>m. node_of (bs_children n ! r) s = Inr m \<and> bn_level m = l - 1 \<and> get_header m = Inr (bs_keys n ! r)"
    using level_at_node [OF at' m(1)] m(2) l' by (auto simp: node_ok_def get_header_def get_key_at_rank_def hd_conv_nth)
qed

subsection \<open>The elements in key order\<close>

lemma elts_sorted:
  assumes "bs_inv T s X E"
  shows "sorted_wrt (<) (map fst (elts (X 0)))"
  using map_fst_elts level_at_sorted bs_inv_head(2) [OF assms, of 0] by (metis zero_less_numeral)

lemma filter_elts:
  assumes inv: "bs_inv T s X E" and P: "\<not> P min_sentinel"
  shows "filter (\<lambda>y. P (fst y)) (elts (X 0)) = map (\<lambda>k. (k, the (bs_map X k))) (sorted_list_of_set {k \<in> dom (bs_map X). P k})"
proof -
  let ?es = "filter (\<lambda>y. P (fst y)) (elts (X 0))"
  have at: "level_at (MAX_KEYS T) 0 s (X 0) (E 0)" using bs_inv_head(2) [OF inv, of 0] by simp
  have ks: "map fst (elts (X 0)) = keys_of (X 0)" by (rule map_fst_elts [OF at])
  have so: "sorted_wrt (<) (map fst ?es)" using elts_sorted [OF inv] by (simp add: sorted_wrt_map sorted_wrt_filter)
  have "set (map fst ?es) = {k \<in> dom (bs_map X). P k}"
    unfolding bs_inv_keys(2) [OF inv] ks [symmetric] using P by auto
  moreover have "sorted (map fst ?es)" "distinct (map fst ?es)" using so unfolding strict_sorted_iff by simp_all
  then have "sorted_list_of_set (set (map fst ?es)) = map fst ?es" by (rule sorted_list_of_set.idem_if_sorted_distinct)
  moreover have "y = (fst y, the (bs_map X (fst y)))" if "y \<in> set ?es" for y
  proof -
    have "distinct (map fst (elts (X 0)))" using elts_sorted [OF inv] unfolding strict_sorted_iff by simp
    then have "map_of (elts (X 0)) (fst y) = Some (snd y)" using that by (metis filter_is_subset map_of_is_SomeI prod.collapse subsetD)
    moreover have "fst y \<noteq> min_sentinel" using that P by auto
    ultimately show ?thesis using bs_inv_keys(3) [OF inv, of "fst y"] by (metis option.sel prod.collapse)
  qed
  then have "map (\<lambda>k. (k, the (bs_map X k))) (map fst ?es) = ?es" unfolding map_map by (intro map_idI) (simp add: comp_def)
  ultimately show ?thesis by simp
qed

subsection \<open>Allocation\<close>

lemma next_addr_simps [simp]:
  "next_addr (put_node p n s) = next_addr s" "next_addr (free_node p s) = next_addr s"
  by (simp_all add: put_node_def free_node_def)

lemma replace_value_next_addr: "replace_value e p r s = Inr s' \<Longrightarrow> next_addr s' = next_addr s"
  by (auto simp: replace_value_def dbx1000_chain_onto_def bindE_eq_Inr)

lemma insert_from_next_addr:
  "insert_from B e ltp ns i L p s = Inr (b, s') \<Longrightarrow> next_addr s' \<le> next_addr s + (if ltp < L then 1 else 0)"
proof (induction L arbitrary: ltp i p s)
  case (Suc L)
  have ov: "next_addr s1 = Suc (next_addr s)" if "insert_overfull l r q n e ns i s = Inr (c, s1)" for l r q n c s1
    using that by (auto simp: insert_overfull_def alloc_node_def Let_def bindE_eq_Inr split: if_splits prod.splits)
  have fit: "next_addr s1 = next_addr s" if "insert_fit l r q n e ns i s = Inr (c, s1)" for l r q n c s1
    using that by (auto simp: insert_fit_def bindE_eq_Inr)
  have pr: "next_addr s1 = next_addr s" if "insert_promoted l r q n e ns i s = Inr (c, s1)" for l r q n c s1
    using that by (auto simp: insert_promoted_def bindE_eq_Inr)
  show ?case
    using Suc.prems by (auto simp: bindE_eq_Inr split: if_splits
        dest!: ov fit pr Suc.IH replace_value_next_addr)
qed simp

lemma bs_insert_next_addr:
  assumes "bs_insert T e s = Inr (b, s')"
  shows "next_addr s' \<le> next_addr s + 5"
proof (cases "is_sentinel (fst e)")
  case True
  then show ?thesis using assms by (auto simp: bs_insert_def is_sentinel_def)
next
  case False
  obtain ps s1 where al: "alloc_nodes (promotion_nodes (flip_coins T (fst e))) s = (ps, s1)" by (metis surj_pair)
  have an: "next_addr (snd (alloc_nodes ms s)) = next_addr s + length ms" for ms
    by (induction ms arbitrary: s) (simp_all add: alloc_node_def Let_def split_beta)
  have "next_addr s1 \<le> next_addr s + 4"
    using an [of "promotion_nodes (flip_coins T (fst e))"] al flip_coins_le [of T "fst e"] by (auto simp: promotion_nodes_def split: if_splits)
  moreover have "next_addr s' \<le> next_addr s1 + 1"
  proof -
    have "insert_from (MAX_KEYS T) e (flip_coins T (fst e)) ps 0 5 (bs_headers s1 ! 4) s1 = Inr (b, s')"
      using assms False al by (auto simp: bs_insert_def is_sentinel_def bindE_eq_Inr Let_def guard_def split: prod.splits if_splits)
    from insert_from_next_addr [OF this] show ?thesis by (simp split: if_splits)
  qed
  ultimately show ?thesis by simp
qed

lemma delete_heads_next_addr: "delete_heads l p q s = Inr s' \<Longrightarrow> next_addr s' = next_addr s"
proof (induction l arbitrary: p q s)
  have dh: "delete_head p m q n s = Inr s' \<Longrightarrow> next_addr s' = next_addr s" for p m q n s s'
    by (auto simp: delete_head_def Let_def bindE_eq_Inr split: if_splits)
  { case 0
    then show ?case by (auto simp: bindE_eq_Inr dest: dh)
  next
    case (Suc l)
    then show ?case by (auto simp: bindE_eq_Inr dest!: dh Suc.IH) }
qed

lemma bs_delete_next_addr: "bs_delete T k s = Inr s' \<Longrightarrow> next_addr s' = next_addr s"
  by (auto simp: bs_delete_def delete_found_def Let_def bindE_eq_Inr split: if_splits dest!: delete_heads_next_addr)

lemma bs_run_next_addr: "bs_run T xs s = Inr s' \<Longrightarrow> next_addr s' \<le> next_addr s + 5 * length xs"
proof (induction xs arbitrary: s)
  case (Cons x xs)
  then obtain s1 where s1: "bs_apply T x s = Inr s1" "bs_run T xs s1 = Inr s'" by (auto simp: bindE_eq_Inr)
  have "next_addr s1 \<le> next_addr s + 5"
    using s1(1) bs_insert_next_addr bs_delete_next_addr by (cases x) (fastforce simp: bindE_eq_Inr)+
  then show ?case using Cons.IH [OF s1(2)] by simp
qed simp

lemma bs_state_next_addr: "bs_state T nx xs = Inr s \<Longrightarrow> next_addr s \<le> 10 + 5 * length xs"
  using BSkip_init_run [of nx] bs_run_next_addr [of T xs] by (fastforce simp: bs_state_def bindE_eq_Inr)

subsection \<open>Properties\<close>

text \<open>What is left out by \<open>block_fits\<close>: an insertion of a key whose hash promotes it further than \<^verbatim>\<open>MAX_KEYS\<close> writes
  past the end of its local array of new nodes, whatever the structure holds.\<close>

theorem bskip_small_block_overflows:
  assumes "\<not> is_sentinel k" "MAX_KEYS T < flip_coins T k"
  shows "bs_insert T (k, Some i) s = Inl Out_of_bounds"
  using assms by (simp add: bs_insert_def guard_def is_sentinel_def)

lemma bskip_small_block_overflows_witness:
  "bs_insert \<lparr>MAX_KEYS = 2, std_hash = (\<lambda>k. k * 262144)\<rparr> (1, Some 7) s = Inl Out_of_bounds"
proof -
  have "flip_coins \<lparr>MAX_KEYS = 2, std_hash = (\<lambda>k. k * 262144)\<rparr> 1 = 3"
    by (simp add: flip_coins_def promotion_prob_def flip_loop.simps)
  then show ?thesis by (intro bskip_small_block_overflows) (simp_all add: is_sentinel_def min_sentinel_def max_sentinel_def UINT64_MAX_def)
qed


definition T4 :: bskip_traits where
  "T4 = \<lparr>MAX_KEYS = 4, std_hash = (\<lambda>k. if k mod 9 = 0 then 4096 else if k mod 3 = 0 then 64 else 1)\<rparr>"

lemma T4_keys [simp]: "block_fits T4"
  by (rule block_fits_four) (simp add: T4_def)


text \<open>C5: With a block that fits the promotions, after any run the structure is the skip list its hash function describes: on each of the five levels there are
  exactly the keys whose hash promotes them that far, behind the smallest sentinel, and the assertions of
  \<open>validate_structure\<close> (order within and across nodes, \<^verbatim>\<open>next_header\<close>, levels) hold.\<close>

theorem bskip_structure_valid:
  assumes "block_fits T"
  shows "\<exists>s. bs_state T nx xs = Inr s \<and> validate_structure s = Inr () \<and>
    (\<forall>l<MAX_HEIGHT. \<exists>ns. level_nodes l s = Inr ns \<and> sorted_wrt (<) (keys_of ns) \<and>
       set (keys_of ns) = insert min_sentinel {k \<in> dom (fst (spec_run xs nx)). l \<le> flip_coins T k})"
proof -
  obtain s X E where s: "bs_state T nx xs = Inr s" and inv: "bs_inv T s X E" "bs_map X = fst (spec_run xs nx)"
    using bs_state_stands [OF assms, of nx xs] by (auto simp: bs_stands_def)
  have "min_sentinel \<in> set (keys_of (X 0))" using bs_inv_keys(1) [OF inv(1)] map_fst_elts bs_inv_head(2) [OF inv(1), of 0]
    by (metis fst_conv list.set_intros(1) list.simps(9) zero_less_numeral)
  then have "set (keys_of (X l)) = insert min_sentinel {k \<in> dom (fst (spec_run xs nx)). l \<le> flip_coins T k}" if "l < MAX_HEIGHT" for l
    unfolding bs_inv_level_keys [OF inv(1) that] inv(2) [symmetric] bs_inv_keys(2) [OF inv(1)] by auto
  moreover have "sorted_wrt (<) (keys_of (X l))" if "l < MAX_HEIGHT" for l
    using level_at_sorted bs_inv_head(2) [OF inv(1) that] by blast
  ultimately show ?thesis using s validate_structure_ok [OF inv(1)] level_nodes_ok [OF inv(1)] by blast
qed

lemma bskip_structure_valid_witness:
  "\<exists>s ns. bs_state T4 (\<lambda>_. None) [Bs_insert 5 1, Bs_insert 6 4] = Inr s \<and> validate_structure s = Inr () \<and>
     level_nodes 1 s = Inr ns \<and> sorted_wrt (<) (keys_of ns)"
proof -
  obtain s where s: "bs_state T4 (\<lambda>_. None) [Bs_insert 5 1, Bs_insert 6 4] = Inr s" "validate_structure s = Inr ()"
    "\<forall>l<5. \<exists>ns. level_nodes l s = Inr ns \<and> sorted_wrt (<) (keys_of ns)"
    using bskip_structure_valid [OF T4_keys, of "\<lambda>_. None" "[Bs_insert 5 1, Bs_insert 6 4]"] by blast
  moreover obtain ns where "level_nodes 1 s = Inr ns" "sorted_wrt (<) (keys_of ns)" using s(3) by (metis one_less_numeral_iff semiring_norm(77))
  ultimately show ?thesis by blast
qed

text \<open>The casts of the code are right after any run: every node on a level has the level in its header and the class of
  the level (leaf or internal, so that the casts to the two node types read the object that is there), as many values or
  children as keys, and every child pointer leads to a live node one level below that starts with the same key.\<close>

theorem bskip_node_types:
  assumes "block_fits T"
  shows "\<exists>s. bs_state T nx xs = Inr s \<and> (\<forall>l<MAX_HEIGHT. \<exists>ns. level_nodes l s = Inr ns \<and> (\<forall>(p, n)\<in>set ns.
     bn_level n = l \<and> bn_leaf n = (l = 0) \<and> (if l = 0 then length (bs_vals n) else length (bs_children n)) = num_elts n \<and>
     (l > 0 \<longrightarrow> (\<forall>r<num_elts n. \<exists>m. node_of (bs_children n ! r) s = Inr m \<and> bn_level m = l - 1 \<and> get_header m = Inr (bs_keys n ! r)))))"
proof -
  obtain s X E where s: "bs_state T nx xs = Inr s" and inv: "bs_inv T s X E"
    using bs_state_stands [OF assms, of nx xs] by (auto simp: bs_stands_def)
  then show ?thesis using level_nodes_ok [OF inv] level_nodes_wf [OF inv] by (fastforce simp: node_ok_def)
qed

lemma bskip_node_types_witness:
  "\<exists>s. bs_state T4 (\<lambda>_. None) [Bs_insert 5 1, Bs_insert 6 4] = Inr s \<and>
     (\<exists>ns. level_nodes 1 s = Inr ns \<and> (\<forall>(p, n)\<in>set ns. \<not> bn_leaf n \<and> length (bs_children n) = num_elts n))"
  using bskip_node_types [OF T4_keys, of "\<lambda>_. None" "[Bs_insert 5 1, Bs_insert 6 4]"]
  by (force simp: T4_def dest: spec [of _ 1])

text \<open>No node outgrows its arrays: after any run each node on each level bs_holds at least one and at most
  \<^verbatim>\<open>MAX_KEYS\<close> keys, so that no write goes past the end of a node; and a run of \<open>n\<close> operations allocates at
  most five nodes for each of them.\<close>

theorem bskip_node_bounds:
  assumes "block_fits T"
  shows "\<exists>s. bs_state T nx xs = Inr s \<and> next_addr s \<le> 10 + 5 * length xs \<and>
     (\<forall>l<MAX_HEIGHT. \<exists>ns. level_nodes l s = Inr ns \<and> length ns < next_addr s \<and>
        (\<forall>(p, n)\<in>set ns. 1 \<le> num_elts n \<and> num_elts n \<le> MAX_KEYS T))"
proof -
  obtain s X E where s: "bs_state T nx xs = Inr s" and inv: "bs_inv T s X E"
    using bs_state_stands [OF assms, of nx xs] by (auto simp: bs_stands_def)
  have "1 \<le> num_elts n \<and> num_elts n \<le> MAX_KEYS T" if "l < MAX_HEIGHT" "(p, n) \<in> set (X l)" for l p n
    using level_nodes_wf(1) [OF inv that] by (simp add: node_ok_def Suc_le_eq)
  moreover have "length (X l) < next_addr s" if "l < MAX_HEIGHT" for l
    by (rule level_at_length [OF bs_inv_head(2) [OF inv that]])
  ultimately show ?thesis using s bs_state_next_addr [OF s] level_nodes_ok [OF inv] by fastforce
qed

lemma bskip_node_bounds_witness:
  "\<exists>s. bs_state T4 (\<lambda>_. None) [Bs_insert 5 1, Bs_insert 6 4, Bs_delete 5] = Inr s \<and> next_addr s \<le> 25"
  using bskip_node_bounds [OF T4_keys, of "\<lambda>_. None" "[Bs_insert 5 1, Bs_insert 6 4, Bs_delete 5]"] by (auto simp: T4_def)

text \<open>C28: With a block that fits the promotions, a scan by count calls its function on the elements from the start key on, in key order and each once, up to the
  length or the end of the list, whichever comes first. The length is cut to 32 bits.\<close>

theorem bskip_scan_exact:
  assumes "block_fits T" "\<not> is_sentinel k"
  shows "\<exists>s. bs_state T nx xs = Inr s \<and> (let m = fst (spec_run xs nx) in
     map_range_length k len s = Inr (take (unat (ucast len :: 32 word))
       (map (\<lambda>k'. (k', the (m k'))) (sorted_list_of_set {k' \<in> dom m. k \<le> k'}))))"
proof -
  obtain s X E where s: "bs_state T nx xs = Inr s" and inv: "bs_inv T s X E" "bs_map X = fst (spec_run xs nx)"
    using bs_state_stands [OF assms(1), of nx xs] by (auto simp: bs_stands_def)
  have k: "min_sentinel < k" "k < max_sentinel" using assms(2) by (simp_all add: not_sentinel)
  have "\<not> k \<le> min_sentinel" using k(1) by simp
  from filter_elts [OF inv(1), of "\<lambda>k'. k \<le> k'", OF this] map_range_length_ok [OF inv(1) k(2), of len] s
  show ?thesis by (simp add: inv(2) Let_def)
qed

lemma bskip_scan_exact_witness:
  "\<exists>s. bs_state T4 (\<lambda>_. None) [Bs_insert 9 1, Bs_insert 5 2, Bs_insert 7 3] = Inr s \<and>
     map_range_length 6 10 s = Inr [(7, Some 3), (9, Some 1)]"
proof -
  have "{k'. (k' = 7 \<or> k' = 5 \<or> k' = 9) \<and> 6 \<le> k'} = set [7, 9 :: 64 word]" by auto
  then have "sorted_list_of_set {k'. (k' = 7 \<or> k' = 5 \<or> k' = 9) \<and> 6 \<le> k'} = [7, 9 :: 64 word]"
    by (simp only: sorted_list_of_set.idem_if_sorted_distinct [of "[7, 9 :: 64 word]"]) simp
  then show ?thesis
    using bskip_scan_exact [OF T4_keys, of 6 "\<lambda>_. None" "[Bs_insert 9 1, Bs_insert 5 2, Bs_insert 7 3]" 10]
    by (simp add: T4_def spec_run_def is_sentinel_def min_sentinel_def max_sentinel_def UINT64_MAX_def)
qed

text \<open>A range scan calls its function on the elements above its lower bound and up to its upper bound, in key order:
  the lower bound itself is left out, also when it is a key, since the result of the search is never looked at.\<close>

theorem bskip_map_range_open:
  assumes "block_fits T" "mn < max_sentinel"
  shows "\<exists>s. bs_state T nx xs = Inr s \<and> (let m = fst (spec_run xs nx) in
     map_range T mn mx s = Inr (map (\<lambda>k. (k, the (m k))) (sorted_list_of_set {k \<in> dom m. mn < k \<and> k \<le> mx})))"
proof -
  obtain s X E where s: "bs_state T nx xs = Inr s" and inv: "bs_inv T s X E" "bs_map X = fst (spec_run xs nx)"
    using bs_state_stands [OF assms(1), of nx xs] by (auto simp: bs_stands_def)
  have "\<not> (mn < min_sentinel \<and> min_sentinel \<le> mx)" by simp
  from filter_elts [OF inv(1), of "\<lambda>k. mn < k \<and> k \<le> mx", OF this] map_range_ok [OF inv(1) assms(2), of mx] s
  show ?thesis by (simp add: inv(2) Let_def)
qed

lemma bskip_map_range_open_witness:
  "\<exists>s. bs_state T4 (\<lambda>_. None) [Bs_insert 5 2, Bs_insert 7 3] = Inr s \<and> map_range T4 5 7 s = Inr [(7, Some 3)]"
proof -
  have "{k. (k = 7 \<or> k = 5) \<and> 5 < k \<and> k \<le> 7} = set [7 :: 64 word]" by auto
  then have "sorted_list_of_set {k. (k = 7 \<or> k = 5) \<and> 5 < k \<and> k \<le> 7} = [7 :: 64 word]"
    by (simp only: sorted_list_of_set.idem_if_sorted_distinct [of "[7 :: 64 word]"]) simp
  then show ?thesis
    using bskip_map_range_open [OF T4_keys, of 5 "\<lambda>_. None" "[Bs_insert 5 2, Bs_insert 7 3]" 7]
    by (simp add: T4_def spec_run_def is_sentinel_def min_sentinel_def max_sentinel_def UINT64_MAX_def)
qed
end
