(* ===== verification/Index_bskip.thy ===== *)
theory Index_bskip
  imports Bskip_run "HOL-Library.Sublist"
begin

text \<open>
  The adapter that makes the blocked skip list an index, \<^verbatim>\<open>storage/index_rw_bskiplist.cpp\<close>. A key is stored as the key
  plus one, since 0 and \<^verbatim>\<open>UINT64_MAX\<close> are the sentinels; a scan reads ahead into a buffer per thread. The file is
  compiled with \<^verbatim>\<open>NDEBUG\<close>, where \<^verbatim>\<open>M_ASSERT\<close> only prints a message.
\<close>

subsection \<open>State and operations\<close>

definition BSKIP_SCAN_BATCH :: "64 word" where "BSKIP_SCAN_BATCH = 32"

record BskipScanCursor =
  sc_elts :: "bs_elt list"
  sc_pos :: nat

record IndexRWBskiplist =
  rw_bskip :: bskip
  rw_cur_key :: "nat \<Rightarrow> idx_key_t"
  rw_cur_item :: "nat \<Rightarrow> item_ptr option"
  rw_cursor :: "nat \<Rightarrow> BskipScanCursor"
  rw_threads :: nat

definition rw_init :: "nat \<Rightarrow> item_next \<Rightarrow> fault + (RC \<times> IndexRWBskiplist)" where
  "rw_init thread_cnt nx =
     bindE (BSkip_init nx) (\<lambda>b.
     Inr (RCOK, \<lparr>rw_bskip = b, rw_cur_key = (\<lambda>_. 0), rw_cur_item = (\<lambda>_. None),
                 rw_cursor = (\<lambda>_. \<lparr>sc_elts = [], sc_pos = 0\<rparr>), rw_threads = thread_cnt\<rparr>))"

definition rw_index_exist :: "idx_key_t \<Rightarrow> IndexRWBskiplist \<Rightarrow> fault + bool" where
  "rw_index_exist key s = bs_exists (key + 1) (rw_bskip s)"

definition rw_index_insert :: "bskip_traits \<Rightarrow> idx_key_t \<Rightarrow> item_ptr \<Rightarrow> IndexRWBskiplist \<Rightarrow> fault + (RC \<times> IndexRWBskiplist)" where
  "rw_index_insert T key item s =
     (let b = (rw_bskip s)\<lparr>bs_item_next := (bs_item_next (rw_bskip s))(item := None)\<rparr> in
      bindE (bs_insert T (key + 1, Some item) b) (\<lambda>(res, b1). Inr (RCOK, s\<lparr>rw_bskip := b1\<rparr>)))"

definition rw_index_read :: "idx_key_t \<Rightarrow> nat \<Rightarrow> IndexRWBskiplist \<Rightarrow> fault + (RC \<times> item_ptr option \<times> IndexRWBskiplist)" where
  "rw_index_read key thd s =
     bindE (bs_value (key + 1) (rw_bskip s)) (\<lambda>item.
     bindE (guard Out_of_bounds (thd < rw_threads s)) (\<lambda>_.
     Inr (RCOK, item, s\<lparr>rw_cur_key := (rw_cur_key s)(thd := key), rw_cur_item := (rw_cur_item s)(thd := item),
                        rw_cursor := (rw_cursor s)(thd := \<lparr>sc_elts = [], sc_pos = 0\<rparr>)\<rparr>)))"

text \<open>Filling the buffer when it is used up; the function passed to the scan keeps at most a batch.\<close>

definition rw_refill :: "nat \<Rightarrow> IndexRWBskiplist \<Rightarrow> fault + BskipScanCursor" where
  "rw_refill thd s =
     (let sc = rw_cursor s thd in
      if sc_pos sc \<ge> length (sc_elts sc) then
        bindE (map_range_length (rw_cur_key s thd + 1 + 1) BSKIP_SCAN_BATCH (rw_bskip s)) (\<lambda>es.
        Inr \<lparr>sc_elts = take (unat BSKIP_SCAN_BATCH) es, sc_pos = 0\<rparr>)
      else Inr sc)"

definition rw_index_next :: "nat \<Rightarrow> bool \<Rightarrow> IndexRWBskiplist \<Rightarrow> fault + (RC \<times> item_ptr option \<times> IndexRWBskiplist)" where
  "rw_index_next thd samekey s =
     bindE (guard Out_of_bounds (thd < rw_threads s)) (\<lambda>_.
     let next_item = (case rw_cur_item s thd of None \<Rightarrow> None | Some last_item \<Rightarrow> bs_item_next (rw_bskip s) last_item) in
     if \<not> samekey \<and> next_item = None then
       bindE (rw_refill thd s) (\<lambda>sc.
       if sc_pos sc < length (sc_elts sc) then
         let (k, v) = sc_elts sc ! sc_pos sc in
         Inr (RCOK, v, s\<lparr>rw_cur_key := (rw_cur_key s)(thd := k - 1), rw_cur_item := (rw_cur_item s)(thd := v),
                         rw_cursor := (rw_cursor s)(thd := sc\<lparr>sc_pos := sc_pos sc + 1\<rparr>)\<rparr>)
       else
         Inr (RCOK, None, s\<lparr>rw_cur_item := (rw_cur_item s)(thd := None), rw_cursor := (rw_cursor s)(thd := sc)\<rparr>))
     else Inr (RCOK, next_item, s\<lparr>rw_cur_item := (rw_cur_item s)(thd := next_item)\<rparr>))"

subsection \<open>The contract of the indexes\<close>

definition rw_key :: "idx_key_t \<Rightarrow> bool" where
  "rw_key k \<longleftrightarrow> k < UINT64_MAX - 1"

text \<open>What the structure stores for a key against the items of the contract.\<close>

definition rw_slot :: "item_next \<Rightarrow> idx_key_t index_spec \<Rightarrow> idx_key_t \<Rightarrow> item_ptr option option \<Rightarrow> bool" where
  "rw_slot nx m k r \<longleftrightarrow>
     (if rw_key k then
        (case r of None \<Rightarrow> m k = None | Some q \<Rightarrow> (\<exists>is. m k = Some is \<and> is \<noteq> [] \<and> chain nx q is))
      else m k = None)"

definition rw_rel :: "bskip_traits \<Rightarrow> IndexRWBskiplist \<Rightarrow> idx_key_t index_spec \<Rightarrow> bool" where
  "rw_rel T s m \<longleftrightarrow> (\<exists>X E. bs_inv T (rw_bskip s) X E \<and> (\<forall>k. rw_slot (bs_item_next (rw_bskip s)) m k (bs_map X (k + 1))))"

definition rw_key_ok :: "nat \<Rightarrow> IndexRWBskiplist \<Rightarrow> idx_key_t \<Rightarrow> bool" where
  "rw_key_ok thd s k \<longleftrightarrow> rw_key k \<and> thd < rw_threads s"

definition rw_read_at :: "nat \<Rightarrow> idx_key_t \<Rightarrow> IndexRWBskiplist \<Rightarrow> fault + (RC \<times> item_ptr)" where
  "rw_read_at thd key s = bindE (rw_index_read key thd s) (\<lambda>(rc, q, _). case q of None \<Rightarrow> Inl Null_deref | Some i \<Rightarrow> Inr (rc, i))"

lemma rw_key_stored:
  assumes "rw_key k"
  shows "min_sentinel < k + 1" "k + 1 < max_sentinel"
proof -
  have "unat k < 2 ^ 64 - 2" using assms by (simp add: rw_key_def UINT64_MAX_def word_less_nat_alt)
  then have "unat (k + 1) = unat k + 1" by (simp add: unat_word_ariths)
  then show "min_sentinel < k + 1" "k + 1 < max_sentinel"
    using \<open>unat k < 2 ^ 64 - 2\<close> by (simp_all add: min_sentinel_def max_sentinel_def UINT64_MAX_def word_less_nat_alt)
qed

lemma bs_inv_item_next: "bs_inv T (s\<lparr>bs_item_next := f\<rparr>) X E \<longleftrightarrow> bs_inv T s X E"
proof -
  have "level_at B l (s\<lparr>bs_item_next := f\<rparr>) x e \<longleftrightarrow> level_at B l s x e" for B l x e
    by (simp add: level_at_def bs_holds_def)
  then have "levels_ok B (s\<lparr>bs_item_next := f\<rparr>) X E n \<longleftrightarrow> levels_ok B s X E n" for B n
    by (induction n) simp_all
  then show ?thesis unfolding bs_inv_def by simp
qed

lemma rw_slot_read:
  assumes "rw_slot nx m k r" "rw_key k"
  shows "(case r of None \<Rightarrow> None | Some v \<Rightarrow> v) = (case m k of None \<Rightarrow> None | Some is \<Rightarrow> Some (hd is))"
proof (cases r)
  case (Some q)
  then obtain "is" where "m k = Some is" "is \<noteq> []" "chain nx q is" using assms by (auto simp: rw_slot_def)
  then show ?thesis using Some chain_hd [of nx q "is"] by (cases "is") auto
qed (use assms in \<open>simp add: rw_slot_def\<close>)

lemma rw_slot_push:
  assumes "rw_slot nx m k r" "rw_key k" "i \<notin> items_of m"
  shows "rw_slot (nx(i := case r of None \<Rightarrow> None | Some q \<Rightarrow> q)) (push_item k i m) k (Some (Some i))"
proof (cases r)
  case (Some q)
  then obtain "is" where "m k = Some is" "is \<noteq> []" "chain nx q is" using assms by (auto simp: rw_slot_def)
  moreover from this have "i \<notin> set is" using assms(3) by (auto simp: items_of_iff)
  ultimately show ?thesis using Some assms by (simp add: rw_slot_def push_item_apply)
qed (use assms in \<open>simp add: rw_slot_def push_item_apply\<close>)

lemma rw_slot_other:
  assumes "rw_slot nx m k' r" "k' \<noteq> k" "i \<notin> items_of m"
  shows "rw_slot (nx(i := q)) (push_item k i m) k' r"
proof -
  have "chain (nx(i := q)) p is = chain nx p is" if "m k' = Some is" for p "is"
    using that assms(3) by (intro chain_other) (auto simp: items_of_iff)
  then show ?thesis using assms(1,2) by (auto simp: rw_slot_def push_item_apply split: option.splits if_splits)
qed

lemma rw_relE:
  assumes "rw_rel T s m"
  obtains X E where "bs_inv T (rw_bskip s) X E" "\<And>k. rw_slot (bs_item_next (rw_bskip s)) m k (bs_map X (k + 1))"
  using assms unfolding rw_rel_def by blast

lemma rw_rel_cong: "rw_bskip s' = rw_bskip s \<Longrightarrow> rw_rel T s' m = rw_rel T s m"
  unfolding rw_rel_def by (rule arg_cong [where f = Ex], rule ext, rule arg_cong [where f = Ex], rule ext) (erule ssubst, rule refl)

lemma rw_read_ok:
  assumes rel: "rw_rel T s m" and k: "rw_key k" and t: "thd < rw_threads s"
  shows "\<exists>s'. rw_index_read k thd s = Inr (RCOK, (case m k of None \<Rightarrow> None | Some is \<Rightarrow> Some (hd is)), s') \<and> rw_rel T s' m"
proof -
  obtain X E where inv: "bs_inv T (rw_bskip s) X E" and sl: "\<And>k. rw_slot (bs_item_next (rw_bskip s)) m k (bs_map X (k + 1))"
    using rw_relE [OF rel] by blast
  have "bs_value (k + 1) (rw_bskip s) = Inr (case m k of None \<Rightarrow> None | Some is \<Rightarrow> Some (hd is))"
    unfolding bs_value_ok [OF inv rw_key_stored [OF k]] by (rule arg_cong [OF rw_slot_read [OF sl k]])
  then have "rw_index_read k thd s = Inr (RCOK, (case m k of None \<Rightarrow> None | Some is \<Rightarrow> Some (hd is)),
      s\<lparr>rw_cur_key := (rw_cur_key s)(thd := k), rw_cur_item := (rw_cur_item s)(thd := (case m k of None \<Rightarrow> None | Some is \<Rightarrow> Some (hd is))),
        rw_cursor := (rw_cursor s)(thd := \<lparr>sc_elts = [], sc_pos = 0\<rparr>)\<rparr>)"
    using t by (simp add: rw_index_read_def)
  moreover have "rw_rel T (s\<lparr>rw_cur_key := ck, rw_cur_item := ci, rw_cursor := cc\<rparr>) m" for ck ci cc
    using rel by (subst rw_rel_cong [of _ s]) simp_all
  ultimately show ?thesis by blast
qed

lemma rw_insert_ok:
  assumes rel: "rw_rel T s m" and k: "rw_key k" and fr: "i \<notin> items_of m"
  shows "\<exists>s'. rw_index_insert T k i s = Inr (RCOK, s') \<and> rw_rel T s' (push_item k i m) \<and> rw_threads s' = rw_threads s"
proof -
  let ?nx = "bs_item_next (rw_bskip s)"
  obtain X E where inv: "bs_inv T (rw_bskip s) X E" and sl: "\<And>k. rw_slot ?nx m k (bs_map X (k + 1))"
    using rw_relE [OF rel] by blast
  let ?b = "(rw_bskip s)\<lparr>bs_item_next := ?nx(i := None)\<rparr>"
  have invb: "bs_inv T ?b X E" using inv unfolding bs_inv_item_next .
  note ks = rw_key_stored [OF k]
  let ?q = "case bs_map X (k + 1) of None \<Rightarrow> None | Some q \<Rightarrow> q"
  obtain b' X' where b': "bs_insert T (k + 1, Some i) ?b = Inr (True, b')" "bs_inv T b' X' E"
    "bs_map X' = (bs_map X)(k + 1 \<mapsto> Some i)" "bs_item_next b' = ?nx(i := ?q)"
  proof (cases "bs_map X (k + 1)")
    case None
    then have "fst (k + 1, Some i) \<notin> dom (bs_map X)" by auto
    from bs_insert_new [OF invb _ _ this] ks None that show thesis by auto
  next
    case (Some q)
    from bs_insert_replace [OF invb ks Some, of i] Some that show thesis by auto
  qed
  let ?s = "s\<lparr>rw_bskip := b'\<rparr>"
  have run: "rw_index_insert T k i s = Inr (RCOK, ?s)" using b'(1) by (simp add: rw_index_insert_def Let_def)
  have slot: "rw_slot (bs_item_next (rw_bskip ?s)) (push_item k i m) k' (bs_map X' (k' + 1))" for k'
  proof (cases "k' = k")
    case True
    then show ?thesis using rw_slot_push [OF sl k fr] by (simp add: b')
  next
    case False
    then show ?thesis using rw_slot_other [OF sl False fr] by (simp add: b')
  qed
  have "rw_rel T ?s (push_item k i m)" unfolding rw_rel_def using b'(2) slot by (metis IndexRWBskiplist.select_convs(1) IndexRWBskiplist.surjective IndexRWBskiplist.update_convs(1))
  then show ?thesis using run by auto
qed

interpretation bskip_index: index "rw_rel T" "\<lambda>_ _. True" "rw_key_ok thd" "rw_index_insert T" "rw_read_at thd" for T thd
proof
  show "\<exists>s'. rw_index_insert T k i s = Inr (RCOK, s') \<and> rw_rel T s' (push_item k i m) \<and>
       rw_key_ok thd s' = rw_key_ok thd s \<and> (\<forall>j. j \<noteq> i \<longrightarrow> True = True)"
    if "rw_rel T s m" "rw_key_ok thd s k" "True" "i \<notin> items_of m" for s m k i
    using rw_insert_ok [OF that(1) _ that(4), of k] that(2) by (auto simp: rw_key_ok_def fun_eq_iff)
  show "rw_read_at thd k s = Inr (RCOK, i)" if "rw_rel T s m" "rw_key_ok thd s k" "m k = Some (i # is)" for s m k i "is"
    using rw_read_ok [OF that(1), of k thd] that(2,3) by (auto simp: rw_read_at_def rw_key_ok_def)
qed

lemma rw_init_rel:
  assumes "block_fits T"
  shows "\<exists>s. rw_init n nx = Inr (RCOK, s) \<and> rw_rel T s Map.empty \<and> rw_threads s = n"
proof -
  obtain b X E where b: "BSkip_init nx = Inr b" "bs_inv T b X E" "bs_map X = Map.empty" using BSkip_init_ok [OF assms] by blast
  then have "rw_rel T \<lparr>rw_bskip = b, rw_cur_key = ck, rw_cur_item = ci, rw_cursor = cc, rw_threads = n\<rparr> Map.empty" for ck ci cc
    unfolding rw_rel_def by (intro exI [of _ X] exI [of _ E]) (simp add: rw_slot_def)
  then show ?thesis using b(1) by (simp add: rw_init_def)
qed

subsection \<open>Scans\<close>

text \<open>The scan of a workload: \<open>index_next\<close> again and again, and the items it returns.\<close>

fun rw_scan :: "nat \<Rightarrow> nat \<Rightarrow> IndexRWBskiplist \<Rightarrow> fault + (item_ptr option list \<times> IndexRWBskiplist)" where
  "rw_scan thd 0 s = Inr ([], s)"
| "rw_scan thd (Suc n) s =
     bindE (rw_index_next thd False s) (\<lambda>(_, q, s1). bindE (rw_scan thd n s1) (\<lambda>(qs, s2). Inr (q # qs, s2)))"

definition rw_last_key :: "64 word" where "rw_last_key = UINT64_MAX - 2"

text \<open>What a thread still has to see: the rest \<open>cs\<close> of the items of its key, its own one first, and the items \<open>iss\<close>
  of the later keys. The buffer bs_holds a prefix of the elements behind the key.\<close>

definition scan_rest :: "(nat \<Rightarrow> bs_list) \<Rightarrow> idx_key_t \<Rightarrow> bs_elt list" where
  "scan_rest X key = filter (\<lambda>y. key + 1 < fst y) (elts (X 0))"

definition scan_at :: "bskip_traits \<Rightarrow> nat \<Rightarrow> item_ptr list \<Rightarrow> item_ptr list list \<Rightarrow> IndexRWBskiplist \<Rightarrow> bool" where
  "scan_at T thd cs iss s \<longleftrightarrow> (\<exists>X E. bs_inv T (rw_bskip s) X E \<and> thd < rw_threads s \<and>
     chain (bs_item_next (rw_bskip s)) (rw_cur_item s thd) cs \<and> rw_cur_key s thd < rw_last_key \<and>
     (\<forall>y\<in>set (elts (X 0)). fst y \<le> rw_last_key) \<and>
     list_all2 (\<lambda>y is. chain (bs_item_next (rw_bskip s)) (snd y) is \<and> is \<noteq> []) (scan_rest X (rw_cur_key s thd)) iss \<and>
     sc_pos (rw_cursor s thd) \<le> length (sc_elts (rw_cursor s thd)) \<and>
     prefix (drop (sc_pos (rw_cursor s thd)) (sc_elts (rw_cursor s thd))) (scan_rest X (rw_cur_key s thd)))"

lemma rw_last_key_succ:
  assumes "k < rw_last_key"
  shows "k + 1 + 1 < max_sentinel" "unat (k + 1) = unat k + 1" "unat (k + 1 + 1) = unat k + 2"
proof -
  have "unat k < 2 ^ 64 - 3" using assms by (simp add: rw_last_key_def UINT64_MAX_def word_less_nat_alt)
  then show "unat (k + 1) = unat k + 1" by (simp add: unat_word_ariths)
  with \<open>unat k < 2 ^ 64 - 3\<close> show "unat (k + 1 + 1) = unat k + 2" by (simp add: unat_word_ariths)
  with \<open>unat k < 2 ^ 64 - 3\<close> show "k + 1 + 1 < max_sentinel"
    by (simp add: max_sentinel_def UINT64_MAX_def word_less_nat_alt)
qed

lemma rw_succ_le:
  assumes "k < rw_last_key"
  shows "k + 1 + 1 \<le> y \<longleftrightarrow> k + 1 < y"
  unfolding word_le_nat_alt word_less_nat_alt rw_last_key_succ(2,3) [OF assms] by linarith

lemma rw_pred_less: "y \<noteq> 0 \<Longrightarrow> y \<le> m \<Longrightarrow> y - 1 < (m :: 64 word)"
  by (simp add: word_less_nat_alt word_le_nat_alt unat_minus_one) (metis One_nat_def diff_less le_zero_eq less_le_trans less_one not_gr_zero unat_eq_zero)

lemma scan_rest_next:
  assumes inv: "bs_inv T s X E" and rest: "scan_rest X key = y # ys" and key: "key < rw_last_key"
  shows "scan_rest X (fst y - 1) = ys" "y \<in> set (elts (X 0))"
proof -
  have so: "sorted_wrt (<) (map fst (y # ys))"
    using elts_sorted [OF inv] unfolding rest [symmetric] scan_rest_def by (simp add: sorted_wrt_map sorted_wrt_filter)
  have "y \<in> set (scan_rest X key)" by (simp add: rest)
  then show "y \<in> set (elts (X 0))" by (simp add: scan_rest_def)
  have gt: "key + 1 < fst y" using \<open>y \<in> set (scan_rest X key)\<close> by (simp add: scan_rest_def)
  have "scan_rest X (fst y - 1) = filter (\<lambda>z. fst y < fst z) (elts (X 0))" by (simp add: scan_rest_def)
  also have "\<dots> = filter (\<lambda>z. fst y < fst z) (filter (\<lambda>z. key + 1 < fst z) (elts (X 0)))"
    using gt by (auto intro!: filter_cong)
  also have "\<dots> = filter (\<lambda>z. fst y < fst z) (y # ys)" using rest by (simp add: scan_rest_def)
  also have "\<dots> = ys" using so by (auto simp: filter_id_conv)
  finally show "scan_rest X (fst y - 1) = ys" .
qed

lemma rw_refill_ok:
  assumes inv: "bs_inv T (rw_bskip s) X E" and key: "rw_cur_key s thd < rw_last_key"
    and pos: "sc_pos (rw_cursor s thd) \<le> length (sc_elts (rw_cursor s thd))"
    and buf: "prefix (drop (sc_pos (rw_cursor s thd)) (sc_elts (rw_cursor s thd))) (scan_rest X (rw_cur_key s thd))"
  shows "\<exists>sc. rw_refill thd s = Inr sc \<and> sc_pos sc \<le> length (sc_elts sc) \<and>
     prefix (drop (sc_pos sc) (sc_elts sc)) (scan_rest X (rw_cur_key s thd)) \<and>
     (sc_pos sc = length (sc_elts sc) \<longrightarrow> scan_rest X (rw_cur_key s thd) = [])"
proof (cases "sc_pos (rw_cursor s thd) \<ge> length (sc_elts (rw_cursor s thd))")
  case True
  let ?k = "rw_cur_key s thd"
  have b: "unat BSKIP_SCAN_BATCH = 32" "unat (ucast BSKIP_SCAN_BATCH :: 32 word) = 32" by (simp_all add: BSKIP_SCAN_BATCH_def)
  have "filter (\<lambda>y. ?k + 1 + 1 \<le> fst y) (elts (X 0)) = scan_rest X ?k"
    unfolding scan_rest_def rw_succ_le [OF key] ..
  then have "map_range_length (?k + 1 + 1) BSKIP_SCAN_BATCH (rw_bskip s) = Inr (take 32 (scan_rest X ?k))"
    using map_range_length_ok [OF inv rw_last_key_succ(1) [OF key], of BSKIP_SCAN_BATCH] unfolding b by simp
  then have "rw_refill thd s = Inr \<lparr>sc_elts = take 32 (scan_rest X ?k), sc_pos = 0\<rparr>"
    using True unfolding rw_refill_def b by (simp add: Let_def)
  moreover have "prefix (take 32 (scan_rest X ?k)) (scan_rest X ?k)" by (rule take_is_prefix)
  moreover have "scan_rest X ?k = []" if "length (take 32 (scan_rest X ?k)) = 0"
    using that by (cases "scan_rest X ?k") simp_all
  ultimately show ?thesis by (intro exI [of _ "\<lparr>sc_elts = take 32 (scan_rest X ?k), sc_pos = 0\<rparr>"]) simp
next
  case False
  then show ?thesis using pos buf by (auto simp: rw_refill_def Let_def)
qed

lemma rw_next_ok:
  assumes "scan_at T thd cs iss s"
  shows "\<exists>s' cs' iss'. rw_index_next thd False s = Inr (RCOK, (case tl cs @ concat iss of [] \<Rightarrow> None | i # _ \<Rightarrow> Some i), s') \<and>
     scan_at T thd cs' iss' s' \<and> tl cs' @ concat iss' = tl (tl cs @ concat iss) \<and> rw_bskip s' = rw_bskip s"
proof -
  let ?nx = "bs_item_next (rw_bskip s)" and ?k = "rw_cur_key s thd" and ?sc = "rw_cursor s thd"
  obtain X E where inv: "bs_inv T (rw_bskip s) X E" and t: "thd < rw_threads s"
    and c: "chain ?nx (rw_cur_item s thd) cs" and key: "?k < rw_last_key" and ks: "\<forall>y\<in>set (elts (X 0)). fst y \<le> rw_last_key"
    and iss: "list_all2 (\<lambda>y is. chain ?nx (snd y) is \<and> is \<noteq> []) (scan_rest X ?k) iss"
    and pos: "sc_pos ?sc \<le> length (sc_elts ?sc)" and buf: "prefix (drop (sc_pos ?sc) (sc_elts ?sc)) (scan_rest X ?k)"
    using assms unfolding scan_at_def by blast
  define q where "q = (case rw_cur_item s thd of None \<Rightarrow> None | Some i \<Rightarrow> ?nx i)"
  have q: "chain ?nx q (tl cs)" using c by (cases cs) (auto simp: q_def)
  show ?thesis
  proof (cases "tl cs")
    case (Cons i "is")
    then have qi: "q = Some i" using q by simp
    let ?s = "s\<lparr>rw_cur_item := (rw_cur_item s)(thd := q)\<rparr>"
    have "rw_index_next thd False s = Inr (RCOK, Some i, ?s)"
      using t qi by (simp add: rw_index_next_def q_def Let_def)
    moreover have "scan_at T thd (tl cs) iss ?s"
      unfolding scan_at_def using inv t key ks iss pos buf q by (intro exI [of _ X] exI [of _ E]) simp
    ultimately show ?thesis using Cons by (intro exI [of _ ?s] exI [of _ "tl cs"] exI [of _ iss]) simp
  next
    case Nil
    then have qn: "q = None" using q by simp
    obtain sc where sc: "rw_refill thd s = Inr sc" "sc_pos sc \<le> length (sc_elts sc)"
      "prefix (drop (sc_pos sc) (sc_elts sc)) (scan_rest X ?k)" "sc_pos sc = length (sc_elts sc) \<longrightarrow> scan_rest X ?k = []"
      using rw_refill_ok [OF inv key pos buf] by blast
    have run: "rw_index_next thd False s =
      (if sc_pos sc < length (sc_elts sc) then
         let (k, v) = sc_elts sc ! sc_pos sc in
         Inr (RCOK, v, s\<lparr>rw_cur_key := (rw_cur_key s)(thd := k - 1), rw_cur_item := (rw_cur_item s)(thd := v),
                         rw_cursor := (rw_cursor s)(thd := sc\<lparr>sc_pos := sc_pos sc + 1\<rparr>)\<rparr>)
       else Inr (RCOK, None, s\<lparr>rw_cur_item := (rw_cur_item s)(thd := None), rw_cursor := (rw_cursor s)(thd := sc)\<rparr>))"
      using t qn sc(1) by (simp add: rw_index_next_def q_def)
    show ?thesis
    proof (cases "sc_pos sc < length (sc_elts sc)")
      case True
      then obtain y where y: "sc_elts sc ! sc_pos sc = y" "drop (sc_pos sc) (sc_elts sc) = y # drop (Suc (sc_pos sc)) (sc_elts sc)"
        by (simp add: Cons_nth_drop_Suc [symmetric])
      then obtain ys where ys: "scan_rest X ?k = y # ys" "prefix (drop (Suc (sc_pos sc)) (sc_elts sc)) ys"
        using sc(3) by (cases "scan_rest X ?k") auto
      note nx = scan_rest_next [OF inv ys(1) key]
      obtain "is" js where js: "iss = is # js" "chain ?nx (snd y) is" "is \<noteq> []"
        "list_all2 (\<lambda>y is. chain ?nx (snd y) is \<and> is \<noteq> []) ys js"
        using iss ys(1) by (auto simp: list_all2_Cons1)
      have y0: "fst y \<noteq> 0" using ys(1) by (auto simp: scan_rest_def filter_eq_Cons_iff)
      have lt: "fst y - 1 < rw_last_key"
        using ks nx(2) rw_pred_less [OF y0] by blast
      let ?s = "s\<lparr>rw_cur_key := (rw_cur_key s)(thd := fst y - 1), rw_cur_item := (rw_cur_item s)(thd := snd y),
          rw_cursor := (rw_cursor s)(thd := sc\<lparr>sc_pos := sc_pos sc + 1\<rparr>)\<rparr>"
      have "rw_index_next thd False s = Inr (RCOK, snd y, ?s)" using run True y(1) by (simp add: Let_def split_beta)
      moreover have "scan_at T thd is js ?s"
        unfolding scan_at_def using inv t ks js lt nx(1) ys(2) True by (intro exI [of _ X] exI [of _ E]) simp
      moreover have "snd y = Some (hd is)" using chain_hd [OF js(2)] js(3) by (cases "is") auto
      moreover have "concat iss = hd is # tl is @ concat js" using js(1,3) by simp
      ultimately show ?thesis using Nil by (intro exI [of _ ?s] exI [of _ "is"] exI [of _ js]) simp
    next
      case False
      then have none: "scan_rest X ?k = []" using sc(2,4) by simp
      then have "iss = []" using iss by simp
      let ?s = "s\<lparr>rw_cur_item := (rw_cur_item s)(thd := None), rw_cursor := (rw_cursor s)(thd := sc)\<rparr>"
      have "rw_index_next thd False s = Inr (RCOK, None, ?s)" using run False by simp
      moreover have "scan_at T thd [] [] ?s"
        unfolding scan_at_def using inv t ks key sc(2,3) none by (intro exI [of _ X] exI [of _ E]) simp
      ultimately show ?thesis using Nil \<open>iss = []\<close> by (intro exI [of _ ?s] exI [of _ "[]"]) simp
    qed
  qed
qed

definition pad :: "nat \<Rightarrow> 'a list \<Rightarrow> 'a option list" where
  "pad n xs = take n (map Some xs @ replicate n None)"

lemma pad_Suc: "pad (Suc n) xs = (case xs of [] \<Rightarrow> None | x # _ \<Rightarrow> Some x) # pad n (tl xs)"
  by (cases xs) (simp_all add: pad_def replicate_append_same [symmetric])

lemma rw_scan_at:
  assumes "scan_at T thd cs iss s"
  shows "\<exists>s'. rw_scan thd n s = Inr (pad n (tl cs @ concat iss), s') \<and> rw_bskip s' = rw_bskip s"
  using assms
proof (induction n arbitrary: cs iss s)
  case (Suc n)
  obtain s1 cs1 iss1 where s1: "rw_index_next thd False s = Inr (RCOK, (case tl cs @ concat iss of [] \<Rightarrow> None | i # _ \<Rightarrow> Some i), s1)"
    "scan_at T thd cs1 iss1 s1" "tl cs1 @ concat iss1 = tl (tl cs @ concat iss)" "rw_bskip s1 = rw_bskip s"
    using rw_next_ok [OF Suc.prems] by blast
  from Suc.IH [OF s1(2)] s1(1,3,4) show ?case by (auto simp: pad_Suc)
qed (simp add: pad_def)

text \<open>The items a scan from a key is to return: the older ones of the key, and those of the later keys in order.\<close>

definition scan_items :: "idx_key_t index_spec \<Rightarrow> idx_key_t \<Rightarrow> item_ptr list" where
  "scan_items m k = (case m k of None \<Rightarrow> [] | Some is \<Rightarrow> tl is) @
     concat (map (\<lambda>k'. the (m k')) (sorted_list_of_set {k' \<in> dom m. k < k'}))"

lemma elts_mem:
  assumes "bs_inv T s X E" "y \<in> set (elts (X 0))" "fst y \<noteq> 0"
  shows "rw_key (fst y - 1)" "bs_map X (fst y) = Some (snd y)"
proof -
  have at: "level_at (MAX_KEYS T) 0 s (X 0) (E 0)" using bs_inv_head(2) [OF assms(1), of 0] by simp
  then have "sorted_wrt (<) (keys_of (X 0) @ [max_sentinel])" by (simp add: level_at_def level_ok_def)
  moreover have "fst y \<in> set (keys_of (X 0))" using assms(2) unfolding elts_def by (metis prod.collapse set_zip_leftD)
  ultimately have "fst y < max_sentinel" by (auto simp: sorted_wrt_append)
  then show "rw_key (fst y - 1)"
    using assms(3) by (simp add: rw_key_def max_sentinel_def UINT64_MAX_def word_less_nat_alt unat_minus_one)
  have "distinct (map fst (elts (X 0)))" using elts_sorted [OF assms(1)] strict_sorted_iff by blast
  then have "map_of (elts (X 0)) (fst y) = Some (snd y)" using assms(2) by (metis map_of_is_SomeI prod.collapse)
  then show "bs_map X (fst y) = Some (snd y)" using assms(3) unfolding bs_map_eq [where X = X, OF at] by (simp add: min_sentinel_def)
qed

lemma elts_rel:
  assumes inv: "bs_inv T s X E" and sl: "\<And>k. rw_slot nx m k (bs_map X (k + 1))"
    and y: "y \<in> set (elts (X 0))" "fst y \<noteq> 0"
  shows "\<exists>is. m (fst y - 1) = Some is \<and> chain nx (snd y) is \<and> is \<noteq> []"
  using sl [of "fst y - 1"] elts_mem [OF inv y] by (auto simp: rw_slot_def)

lemma elts_dom:
  assumes inv: "bs_inv T s X E" and sl: "\<And>k. rw_slot nx m k (bs_map X (k + 1))" and k: "m k = Some is"
  shows "rw_key k" "k + 1 \<in> fst ` set (elts (X 0))"
proof -
  show "rw_key k" using sl [of k] k by (auto simp: rw_slot_def split: if_splits)
  then obtain q where "bs_map X (k + 1) = Some q" using sl [of k] k by (auto simp: rw_slot_def split: option.splits)
  then have "(k + 1, q) \<in> set (tl (elts (X 0)))" unfolding bs_map_def by (rule map_of_SomeD)
  then show "k + 1 \<in> fst ` set (elts (X 0))" by (metis fst_conv image_eqI list.set_sel(2) list.sel(2))
qed

lemma scan_rest_keys:
  assumes inv: "bs_inv T s X E" and sl: "\<And>k. rw_slot nx m k (bs_map X (k + 1))" and k: "k < rw_last_key"
  shows "map (\<lambda>y. fst y - 1) (scan_rest X k) = sorted_list_of_set {k' \<in> dom m. k < k'}"
proof -
  let ?S = "{k' \<in> dom m. k < k'}" and ?l = "map (\<lambda>y. fst y - 1) (scan_rest X k)"
  have pos: "fst y \<noteq> 0" if "y \<in> set (scan_rest X k)" for y using that by (auto simp: scan_rest_def)
  have less: "a - 1 < b - 1 \<longleftrightarrow> a < b" if "a \<noteq> 0" "b \<noteq> 0" for a b :: "64 word"
    using that unat_gt_0 [of a] unat_gt_0 [of b] by (simp add: word_less_nat_alt unat_minus_one) linarith
  have "sorted_wrt (<) (map fst (scan_rest X k))" using elts_sorted [OF inv] by (simp add: scan_rest_def sorted_wrt_map sorted_wrt_filter)
  then have so: "sorted_wrt (<) ?l"
    unfolding sorted_wrt_map using pos less by (auto elim!: sorted_wrt_mono_rel [rotated])
  have "set ?l = ?S"
  proof (intro equalityI subsetI)
    fix x assume "x \<in> set ?l"
    then obtain y where y: "y \<in> set (scan_rest X k)" "x = fst y - 1" by auto
    then have "y \<in> set (elts (X 0))" "k + 1 < fst y" by (simp_all add: scan_rest_def)
    then have "\<exists>is. m x = Some is" using elts_rel [OF inv sl _ pos [OF y(1)]] y(2) by blast
    moreover have "k < x" using \<open>k + 1 < fst y\<close> rw_last_key_succ(2) [OF k] pos [OF y(1)] y(2)
      by (simp add: word_less_nat_alt unat_minus_one)
    ultimately show "x \<in> ?S" by blast
  next
    fix x assume x: "x \<in> ?S"
    then obtain "is" where "m x = Some is" by auto
    from elts_dom [OF inv sl this] obtain y where y: "rw_key x" "y \<in> set (elts (X 0))" "fst y = x + 1" by auto
    have "k + 1 < x + 1"
      using x y(1) rw_last_key_succ(2) [OF k] rw_key_stored [OF y(1)] by (simp add: word_less_nat_alt unat_word_ariths rw_key_def UINT64_MAX_def)
    then have "y \<in> set (scan_rest X k)" using y by (simp add: scan_rest_def)
    then show "x \<in> set ?l" using y(3) by (auto intro!: image_eqI [of _ _ y])
  qed
  moreover have "sorted ?l" "distinct ?l" using so unfolding strict_sorted_iff by simp_all
  then have "sorted_list_of_set (set ?l) = ?l" by (rule sorted_list_of_set.idem_if_sorted_distinct)
  ultimately show ?thesis by simp
qed

lemma rw_read_scan:
  assumes rel: "rw_rel T s m" and k: "k < rw_last_key" and ks: "\<And>k'. k' \<in> dom m \<Longrightarrow> k' < rw_last_key" and t: "thd < rw_threads s"
  shows "\<exists>s1 s2. rw_index_read k thd s = Inr (RCOK, (case m k of None \<Rightarrow> None | Some is \<Rightarrow> Some (hd is)), s1) \<and>
     rw_scan thd n s1 = Inr (pad n (scan_items m k), s2) \<and> rw_rel T s2 m"
proof -
  let ?nx = "bs_item_next (rw_bskip s)"
  obtain X E where inv: "bs_inv T (rw_bskip s) X E" and sl: "\<And>k. rw_slot ?nx m k (bs_map X (k + 1))"
    using rw_relE [OF rel] by blast
  have key: "rw_key k" using k by (simp add: rw_key_def rw_last_key_def UINT64_MAX_def word_less_nat_alt)
  let ?q = "case m k of None \<Rightarrow> None | Some is \<Rightarrow> Some (hd is)" and ?cs = "case m k of None \<Rightarrow> [] | Some is \<Rightarrow> is"
  let ?s1 = "s\<lparr>rw_cur_key := (rw_cur_key s)(thd := k), rw_cur_item := (rw_cur_item s)(thd := ?q),
        rw_cursor := (rw_cursor s)(thd := \<lparr>sc_elts = [], sc_pos = 0\<rparr>)\<rparr>"
  have "bs_value (k + 1) (rw_bskip s) = Inr ?q"
    unfolding bs_value_ok [OF inv rw_key_stored [OF key]] by (rule arg_cong [OF rw_slot_read [OF sl key]])
  then have read: "rw_index_read k thd s = Inr (RCOK, ?q, ?s1)" using t by (simp add: rw_index_read_def)
  have cs: "chain ?nx ?q ?cs"
    using sl [of k] key by (cases "m k"; cases "bs_map X (k + 1)") (auto simp: rw_slot_def neq_Nil_conv dest: chain_hd)
  let ?iss = "map (\<lambda>y. the (m (fst y - 1))) (scan_rest X k)"
  have bound: "fst y \<le> rw_last_key" if "y \<in> set (elts (X 0))" for y
  proof (cases "fst y = 0")
    case False
    then have "fst y - 1 < rw_last_key" using elts_rel [OF inv sl that] ks by blast
    then show ?thesis using False by (simp add: word_less_nat_alt word_le_nat_alt unat_minus_one)
  qed simp
  have "list_all2 (\<lambda>y is. chain ?nx (snd y) is \<and> is \<noteq> []) (scan_rest X k) ?iss"
    unfolding list_all2_map2 list_all2_same
  proof
    fix y assume "y \<in> set (scan_rest X k)"
    then have "y \<in> set (elts (X 0))" "fst y \<noteq> 0" by (auto simp: scan_rest_def)
    from elts_rel [OF inv sl this] show "chain ?nx (snd y) (the (m (fst y - 1))) \<and> the (m (fst y - 1)) \<noteq> []" by auto
  qed
  then have "scan_at T thd ?cs ?iss ?s1"
    unfolding scan_at_def using inv t k cs bound by (intro exI [of _ X] exI [of _ E]) simp
  from rw_scan_at [OF this, of n] obtain s2 where s2: "rw_scan thd n ?s1 = Inr (pad n (tl ?cs @ concat ?iss), s2)" "rw_bskip s2 = rw_bskip s"
    by auto
  have "concat ?iss = concat (map (\<lambda>k'. the (m k')) (sorted_list_of_set {k' \<in> dom m. k < k'}))"
    unfolding scan_rest_keys [OF inv sl k, symmetric] by (simp add: comp_def)
  then have "tl ?cs @ concat ?iss = scan_items m k" by (simp add: scan_items_def split: option.splits)
  moreover have "rw_rel T s2 m" using rel rw_rel_cong [OF s2(2)] by simp
  ultimately show ?thesis using read s2(1) by metis
qed

subsection \<open>The sentinel keys\<close>

text \<open>A search for the largest key runs past the end sentinel of the first level it looks at.\<close>

lemma walk_fuel_max:
  assumes "level_ok B l e (us @ (p, n) # vs)" "bs_holds s ((p, n) # vs @ [(e, end_sentinel l)])" "Suc (length vs) < f"
  shows "walk_fuel f max_sentinel p s = Inl Null_deref"
  using assms
proof (induction vs arbitrary: us p n f)
  case Nil
  obtain f' where f: "f = Suc (Suc f')" using Nil(3) by (cases f; cases "f - 1") auto
  have "bn_next n = Some e" using level_ok_split(8) [OF Nil(1)] by simp
  then show ?case using Nil(2) by (simp add: f node_of_def not_null_def)
next
  case (Cons x vs)
  obtain f' where f: "f = Suc f'" "Suc (length vs) < f'" using Cons.prems(3) by (cases f) auto
  have "bn_next n = Some (fst x)" using level_ok_split(7) [OF Cons.prems(1)] by simp
  moreover have "walk_fuel f' max_sentinel (fst x) s = Inl Null_deref"
    using Cons.IH [of "us @ [(p, n)]" "fst x" "snd x" f'] Cons.prems f(2) by simp
  ultimately show ?case using Cons.prems(2) f(1) by (simp add: node_of_def not_null_def)
qed

lemma walk_max:
  assumes inv: "bs_inv T s X E"
  shows "walk max_sentinel (bs_headers s ! 4) s = Inl Null_deref"
proof -
  have at: "level_at (MAX_KEYS T) 4 s (X 4) (E 4)" using bs_inv_head(2) [OF inv, of 4] by simp
  then obtain p n vs where x: "X 4 = (p, n) # vs" by (cases "X 4") (auto simp: level_at_def level_ok_def)
  then have "bs_headers s ! 4 = p" using bs_inv_headers [OF inv, of 4] by simp
  moreover have "Suc (length vs) < Suc (next_addr s)" using level_at_length [OF at] x by simp
  ultimately show ?thesis
    using walk_fuel_max [of "MAX_KEYS T" 4 "E 4" "[]" p n vs s] at x by (simp add: walk_def level_at_def del: walk_fuel.simps)
qed

lemma search_max:
  assumes inv: "bs_inv T s X E"
  shows "bs_value max_sentinel s = Inl Null_deref" "bs_exists max_sentinel s = Inl Null_deref"
    "map_range_length max_sentinel len s = Inl Null_deref"
proof -
  have five: "(5::nat) = Suc 4" by simp
  show "bs_value max_sentinel s = Inl Null_deref" "bs_exists max_sentinel s = Inl Null_deref"
    "map_range_length max_sentinel len s = Inl Null_deref"
    unfolding bs_value_def bs_exists_def map_range_length_def five value_from.simps(2) exists_from.simps(2) range_search.simps(2)
    by (simp_all add: walk_max [OF inv])
qed

lemma exists_min:
  assumes inv: "bs_inv T s X E"
  shows "bs_exists min_sentinel s = Inr True"
proof -
  have "levels_ok (MAX_KEYS T) s X E (Suc 4)" using inv by (simp add: bs_inv_def numeral_eq_Suc del: levels_ok.simps)
  moreover have hd: "(min_sentinel, bs_headers s ! 4) \<in> heads (X 4)" using bs_inv_head(1) [OF inv, of 4] by simp
  moreover have "min_sentinel \<in> set (keys_of (X 4))"
  proof -
    have at: "level_at (MAX_KEYS T) 4 s (X 4) (E 4)" using bs_inv_head(2) [OF inv, of 4] by simp
    obtain x where x: "x \<in> set (X 4)" "hd (bs_keys (snd x)) = min_sentinel" using hd by (auto simp: heads_def)
    then have "bs_keys (snd x) \<noteq> []" using level_at_nodes [OF at] by (simp add: node_ok_def)
    then have "min_sentinel \<in> set (bs_keys (snd x))" using x(2) hd_in_set by metis
    then show ?thesis using x(1) by (auto simp: keys_of_def)
  qed
  ultimately show ?thesis
    using exists_from_ok [of "MAX_KEYS T" s X E 4 min_sentinel "bs_headers s ! 4" min_sentinel] by (auto simp: bs_exists_def)
qed

subsection \<open>Properties\<close>

text \<open>C30: The blocked skip list implements the index contract for every key below \<^verbatim>\<open>UINT64_MAX - 1\<close>: a read
  gives the newest item of the key or \<^verbatim>\<open>NULL\<close>, the test whether the key has items, an insert makes the item the first
  of its key, with the older ones behind it, and leaves the other keys as they were.\<close>

theorem rw_index_refines:
  assumes "rw_rel T s m" "rw_key k" "thd < rw_threads s" "i \<notin> items_of m"
  shows "(\<exists>s1. rw_index_read k thd s = Inr (RCOK, (case m k of None \<Rightarrow> None | Some is \<Rightarrow> Some (hd is)), s1) \<and> rw_rel T s1 m) \<and>
    rw_index_exist k s = Inr (k \<in> dom m) \<and>
    (\<exists>s'. rw_index_insert T k i s = Inr (RCOK, s') \<and> rw_rel T s' (push_item k i m) \<and> rw_read_at thd k s' = Inr (RCOK, i))"
proof (intro conjI)
  show "\<exists>s1. rw_index_read k thd s = Inr (RCOK, (case m k of None \<Rightarrow> None | Some is \<Rightarrow> Some (hd is)), s1) \<and> rw_rel T s1 m"
    by (rule rw_read_ok [OF assms(1-3)])
  obtain X E where inv: "bs_inv T (rw_bskip s) X E" and sl: "\<And>k. rw_slot (bs_item_next (rw_bskip s)) m k (bs_map X (k + 1))"
    using rw_relE [OF assms(1)] by blast
  show "rw_index_exist k s = Inr (k \<in> dom m)"
    using bs_exists_ok [OF inv rw_key_stored [OF assms(2)]] sl [of k] assms(2)
    by (auto simp: rw_index_exist_def rw_slot_def split: option.splits)
  have "rw_key_ok thd s k" using assms(2,3) by (simp add: rw_key_ok_def)
  from bskip_index.insert_law [OF assms(1) this TrueI assms(4)] bskip_index.insert_read [OF assms(1) this TrueI assms(4)]
  show "\<exists>s'. rw_index_insert T k i s = Inr (RCOK, s') \<and> rw_rel T s' (push_item k i m) \<and> rw_read_at thd k s' = Inr (RCOK, i)" by auto
qed

definition T8 :: bskip_traits where
  "T8 = \<lparr>MAX_KEYS = 8, std_hash = (\<lambda>k. k * 64)\<rparr>"

lemma T8_keys [simp]: "block_fits T8"
  by (rule block_fits_four) (simp add: T8_def)

lemma rw_index_refines_witness:
  "\<exists>s s'. rw_init 4 (\<lambda>_. None) = Inr (RCOK, s) \<and> rw_index_insert T8 10 7 s = Inr (RCOK, s') \<and> rw_read_at 3 10 s' = Inr (RCOK, 7)"
proof -
  obtain s where s: "rw_init 4 (\<lambda>_. None) = Inr (RCOK, s)" "rw_rel T8 s Map.empty" "rw_threads s = 4"
    using rw_init_rel [OF T8_keys] by blast
  then show ?thesis using rw_index_refines [OF s(2), of 10 3 7] by (auto simp: rw_key_def UINT64_MAX_def items_of_def)
qed

text \<open>C29: A loaded index can be scanned: after inserts of distinct items with keys below \<^verbatim>\<open>UINT64_MAX - 2\<close>, reading
  such a key and then asking \<open>n\<close> times for the next item gives the items of that key from the newest to the oldest and then those of
  the following keys in key order, each once, and \<^verbatim>\<open>NULL\<close> when there are no more; the batches of the read-ahead buffer cannot be told
  from outside. The keys from \<^verbatim>\<open>UINT64_MAX - 2\<close> on are left out: there the adapter's arithmetic reaches the sentinels, and
  reads and scans follow a null pointer, as \<open>rw_sentinel_keys\<close> shows.\<close>

theorem rw_load_scan:
  assumes "block_fits T" "distinct (map snd xs)" "\<forall>(k', i)\<in>set xs. k' < rw_last_key" "k < rw_last_key" "thd < cnt"
  shows "\<exists>s s1 s2 s3. rw_init cnt nx = Inr (RCOK, s) \<and> load_index (rw_index_insert T) xs s = Inr s1 \<and>
    rw_index_read k thd s1 = Inr (RCOK, (case load_spec xs Map.empty k of None \<Rightarrow> None | Some is \<Rightarrow> Some (hd is)), s2) \<and>
    rw_scan thd n s2 = Inr (pad n (scan_items (load_spec xs Map.empty) k), s3)"
proof -
  obtain s where s: "rw_init cnt nx = Inr (RCOK, s)" "rw_rel T s Map.empty" "rw_threads s = cnt"
    using rw_init_rel [OF assms(1)] by blast
  have key: "rw_key k'" if "k' < rw_last_key" for k'
    using that by (simp add: rw_key_def rw_last_key_def UINT64_MAX_def word_less_nat_alt)
  have "\<forall>(k', i)\<in>set xs. rw_key_ok thd s k' \<and> True \<and> i \<notin> items_of Map.empty"
    using assms(3,5) key s(3) by (auto simp: rw_key_ok_def items_of_def)
  from bskip_index.load_ok [OF s(2) this assms(2)]
  obtain s1 where s1: "load_index (rw_index_insert T) xs s = Inr s1" "rw_rel T s1 (load_spec xs Map.empty)" "rw_key_ok thd s1 = rw_key_ok thd s" by blast
  have "rw_key_ok thd s1 k" using s1(3) key [OF assms(4)] assms(5) s(3) by (simp add: rw_key_ok_def)
  then have t: "thd < rw_threads s1" by (simp add: rw_key_ok_def)
  have "k' < rw_last_key" if "k' \<in> dom (load_spec xs Map.empty)" for k'
  proof -
    have "loaded k' xs \<noteq> []" using that by (auto simp: load_spec_apply split: if_splits)
    then show ?thesis using assms(3) by (auto simp: loaded_def filter_empty_conv)
  qed
  from rw_read_scan [OF s1(2) assms(4) this t, of n] s(1) s1(1) show ?thesis by blast
qed

lemma rw_load_scan_witness:
  "\<exists>s s1 s2 s3. rw_init 2 (\<lambda>_. None) = Inr (RCOK, s) \<and> load_index (rw_index_insert T8) [(20, 1), (10, 2), (20, 3), (15, 4)] s = Inr s1 \<and>
     rw_index_read 15 1 s1 = Inr (RCOK, Some 4, s2) \<and> rw_scan 1 4 s2 = Inr ([Some 3, Some 1, None, None], s3)"
proof -
  let ?m = "load_spec [(20, 1), (10, 2), (20, 3), (15, 4)] Map.empty :: idx_key_t index_spec"
  have m: "?m = [20 \<mapsto> [3, 1], 10 \<mapsto> [2], 15 \<mapsto> [4]]" by (auto simp: push_item_def fun_eq_iff)
  have "{k'. (k' = 15 \<or> k' = 10 \<or> k' = 20) \<and> 15 < k'} = {20 :: 64 word}" by auto
  then have "scan_items ?m 15 = [3, 1]" unfolding scan_items_def m by (simp add: dom_def conj_commute disj_commute cong: conj_cong)
  moreover have pd: "pad 4 [3, 1] = [Some 3, Some 1, None, None :: item_ptr option]" by (simp add: pad_def numeral_eq_Suc)
  ultimately show ?thesis
    using rw_load_scan [of T8 "[(20, 1), (10, 2), (20, 3), (15, 4)]" 15 1 2 "\<lambda>_. None" 4] m
    by (auto simp: rw_last_key_def UINT64_MAX_def pd)
qed

text \<open>The two largest keys are lost: the adapter stores a key plus one, which is then a sentinel, the structure refuses
  it, and with assertions compiled out the insert still reports success. It leaves the structure as it was, a read of
  \<^verbatim>\<open>UINT64_MAX - 1\<close> follows a null pointer, and \<^verbatim>\<open>UINT64_MAX\<close> is reported as present although nothing was stored
  under it. A scan that has come to the key before these follows a null pointer, too.\<close>

theorem rw_sentinel_keys:
  assumes "rw_rel T s m"
  shows "(\<forall>k\<in>{UINT64_MAX - 1, UINT64_MAX}. rw_index_insert T k i s =
      Inr (RCOK, s\<lparr>rw_bskip := (rw_bskip s)\<lparr>bs_item_next := (bs_item_next (rw_bskip s))(i := None)\<rparr>\<rparr>)) \<and>
    rw_index_read (UINT64_MAX - 1) thd s = Inl Null_deref \<and> rw_index_exist UINT64_MAX s = Inr True \<and>
    (thd < rw_threads s \<and> rw_cur_key s thd = UINT64_MAX - 2 \<and> rw_cur_item s thd = None \<and> sc_elts (rw_cursor s thd) = [] \<longrightarrow>
      rw_index_next thd False s = Inl Null_deref)"
proof -
  obtain X E where inv: "bs_inv T (rw_bskip s) X E" using rw_relE [OF assms] by blast
  have e: "UINT64_MAX - 1 + 1 = max_sentinel" "UINT64_MAX + 1 = min_sentinel" "UINT64_MAX - 2 + 1 + 1 = max_sentinel"
    by (simp_all add: UINT64_MAX_def max_sentinel_def min_sentinel_def)
  have "rw_index_insert T k i s = Inr (RCOK, s\<lparr>rw_bskip := (rw_bskip s)\<lparr>bs_item_next := (bs_item_next (rw_bskip s))(i := None)\<rparr>\<rparr>)"
    if "k \<in> {UINT64_MAX - 1, UINT64_MAX}" for k
  proof -
    have "k + 1 = max_sentinel \<or> k + 1 = min_sentinel" using that e(1,2) by blast
    then have "bs_insert T (k + 1, v) b = Inr (False, b)" for v b by (auto simp: bs_insert_def)
    then show ?thesis by (simp add: rw_index_insert_def Let_def)
  qed
  moreover have "rw_index_read (UINT64_MAX - 1) thd s = Inl Null_deref" "rw_index_exist UINT64_MAX s = Inr True"
    unfolding rw_index_read_def rw_index_exist_def e by (simp_all add: search_max [OF inv] exists_min [OF inv])
  moreover have "rw_index_next thd False s = Inl Null_deref"
    if "thd < rw_threads s" "rw_cur_key s thd = UINT64_MAX - 2" "rw_cur_item s thd = None" "sc_elts (rw_cursor s thd) = []"
  proof -
    have "rw_refill thd s = Inl Null_deref"
      unfolding rw_refill_def that(2) e using that(4) by (simp add: search_max [OF inv] Let_def)
    then show ?thesis using that(1,3) by (simp add: rw_index_next_def Let_def)
  qed
  ultimately show ?thesis by blast
qed

lemma rw_sentinel_keys_witness:
  "\<exists>s s'. rw_init 4 (\<lambda>_. None) = Inr (RCOK, s) \<and> rw_index_insert T8 (UINT64_MAX - 1) 7 s = Inr (RCOK, s') \<and>
     rw_index_read (UINT64_MAX - 1) 0 s = Inl Null_deref"
proof -
  obtain s where s: "rw_init 4 (\<lambda>_. None) = Inr (RCOK, s)" "rw_rel T8 s Map.empty"
    using rw_init_rel [OF T8_keys] by blast
  then show ?thesis using rw_sentinel_keys [OF s(2), of 7 0] by blast
qed
end
