(* ===== verification/Skiplist.thy ===== *)
theory Skiplist
  imports Index_base
begin

text \<open>
  The lock-free skip list of \<^verbatim>\<open>storage/index_skiplist.cpp\<close>: a variant of Fraser's algorithm without removals, whose
  nodes carry the items of one key. Threads run at the same time; every access to shared memory is one step. A thread's
  local variables are a frame, the place it is at in the code is a program counter.
\<close>

subsection \<open>Shared memory\<close>

definition MAXLEVEL :: nat where "MAXLEVEL = 25"

definition MAXKEY :: idx_key_t where "MAXKEY = UINT64_MAX"

record SkiplistNode =
  sn_toplevel :: nat
  sn_key :: idx_key_t
  sn_items :: "item_ptr option"
  sn_next :: "nat \<Rightarrow> nat option"

record IndexSkiplist =
  sl_heap :: "nat \<Rightarrow> SkiplistNode option"
  sl_fresh :: nat
  sl_head :: nat
  sl_toplevel :: nat
  sl_item_next :: item_next
  cur_node_per_thd :: "nat \<Rightarrow> nat option"
  cur_item_per_thd :: "nat \<Rightarrow> item_ptr option"

definition sl_node_at :: "nat \<Rightarrow> IndexSkiplist \<Rightarrow> fault + SkiplistNode" where
  "sl_node_at p s = (case sl_heap s p of None \<Rightarrow> Inl Undefined_behaviour | Some n \<Rightarrow> Inr n)"

definition sl_put :: "nat \<Rightarrow> SkiplistNode \<Rightarrow> IndexSkiplist \<Rightarrow> IndexSkiplist" where
  "sl_put p n s = s\<lparr>sl_heap := (sl_heap s)(p \<mapsto> n)\<rparr>"

text \<open>A node has \<^verbatim>\<open>toplevel + 1\<close> pointers; those of a new node are not initialised.\<close>

definition allocate_node :: "nat \<Rightarrow> idx_key_t \<Rightarrow> IndexSkiplist \<Rightarrow> nat \<times> IndexSkiplist" where
  "allocate_node toplvl key s =
     (sl_fresh s, s\<lparr>sl_heap := (sl_heap s)(sl_fresh s \<mapsto> \<lparr>sn_toplevel = toplvl, sn_key = key, sn_items = None, sn_next = (\<lambda>_. None)\<rparr>),
                    sl_fresh := Suc (sl_fresh s)\<rparr>)"

definition sl_init :: "item_next \<Rightarrow> IndexSkiplist" where
  "sl_init nx =
     (let s = \<lparr>sl_heap = (\<lambda>_. None), sl_fresh = 0, sl_head = 0, sl_toplevel = 0, sl_item_next = nx,
               cur_node_per_thd = (\<lambda>_. None), cur_item_per_thd = (\<lambda>_. None)\<rparr>;
          (h, s1) = allocate_node (MAXLEVEL - 1) 0 s;
          (last_node, s2) = allocate_node (MAXLEVEL - 1) MAXKEY s1
      in (sl_put h \<lparr>sn_toplevel = MAXLEVEL - 1, sn_key = 0, sn_items = None,
                     sn_next = (\<lambda>i. if i \<le> MAXLEVEL - 1 then Some last_node else None)\<rparr> s2)\<lparr>sl_head := h, sl_toplevel := 0\<rparr>)"

text \<open>The pointer \<^verbatim>\<open>x->next[i]\<close>; the searches assert that it is not \<^verbatim>\<open>NULL\<close>.\<close>

definition sl_next :: "nat \<Rightarrow> nat \<Rightarrow> IndexSkiplist \<Rightarrow> fault + nat option" where
  "sl_next p i s = bindE (sl_node_at p s) (\<lambda>n. bindE (guard Out_of_bounds (i \<le> sn_toplevel n)) (\<lambda>_. Inr (sn_next n i)))"

definition sl_succ :: "nat \<Rightarrow> nat \<Rightarrow> IndexSkiplist \<Rightarrow> fault + nat" where
  "sl_succ p i s = bindE (sl_next p i s) (\<lambda>q. case q of None \<Rightarrow> Inl Assert_failed | Some q' \<Rightarrow> Inr q')"

definition cas_next :: "nat \<Rightarrow> nat \<Rightarrow> nat option \<Rightarrow> nat \<Rightarrow> IndexSkiplist \<Rightarrow> fault + (bool \<times> IndexSkiplist)" where
  "cas_next p i old new s =
     bindE (sl_node_at p s) (\<lambda>n.
     bindE (guard Out_of_bounds (i \<le> sn_toplevel n)) (\<lambda>_.
     if sn_next n i = old then Inr (True, sl_put p (n\<lparr>sn_next := (sn_next n)(i := Some new)\<rparr>) s) else Inr (False, s)))"

definition cas_items :: "nat \<Rightarrow> item_ptr option \<Rightarrow> item_ptr \<Rightarrow> IndexSkiplist \<Rightarrow> fault + (bool \<times> IndexSkiplist)" where
  "cas_items p old new s =
     bindE (sl_node_at p s) (\<lambda>n.
     if sn_items n = old then Inr (True, sl_put p (n\<lparr>sn_items := Some new\<rparr>) s) else Inr (False, s))"

subsection \<open>The level of a new node\<close>

text \<open>The number of zero bits on the right of a random word, at most one more than the tallest tower.\<close>

definition zero_bits :: "32 word \<Rightarrow> nat" where
  "zero_bits r =
     (let v = r AND - r in
      32 - (if v \<noteq> 0 then 1 else 0) - (if v AND 0x0000FFFF \<noteq> 0 then 16 else 0) - (if v AND 0x00FF00FF \<noteq> 0 then 8 else 0)
         - (if v AND 0x0F0F0F0F \<noteq> 0 then 4 else 0) - (if v AND 0x33333333 \<noteq> 0 then 2 else 0) - (if v AND 0x55555555 \<noteq> 0 then 1 else 0))"

definition sl_randomLevel :: "32 word \<Rightarrow> nat \<Rightarrow> nat" where
  "sl_randomLevel r toplvl =
     (let c = zero_bits r; c1 = (if c > toplvl + 1 then toplvl + 1 else c)
      in if c1 > MAXLEVEL - 1 then MAXLEVEL - 1 else c1)"

subsection \<open>Threads\<close>

record sl_frame =
  fr_key :: idx_key_t
  fr_item :: item_ptr
  fr_preds :: "nat \<Rightarrow> nat"
  fr_succs :: "nat \<Rightarrow> nat"
  fr_new :: "nat option"
  fr_level :: nat

text \<open>Where a search is called: from \<open>index_exist\<close>, from \<open>index_read\<close>, at \<^verbatim>\<open>retry\<close>, and at
  \<^verbatim>\<open>new_world_view\<close> for a level.\<close>

datatype sl_goal = For_exist | For_read | For_retry | For_world nat

datatype sl_result = No_result | Exists bool | Read_result "item_ptr option" | Inserted

datatype sl_pc = Idle sl_result | Begin sl_goal | Walk sl_goal nat nat
  | Append nat | Swap nat "item_ptr option" | Make | Link | Raise nat | Splice nat | Top | Set_top nat
  | Read_item nat | Read_cur nat "item_ptr option" | Next_start bool | Next_node nat | Next_items nat

datatype sl_op = Op_insert idx_key_t item_ptr | Op_read idx_key_t | Op_exist idx_key_t | Op_next bool

fun fills_arrays :: "sl_goal \<Rightarrow> bool" where
  "fills_arrays For_exist = False"
| "fills_arrays For_read = False"
| "fills_arrays For_retry = True"
| "fills_arrays (For_world i) = True"

text \<open>The code behind the call of a search that ends at node \<open>q\<close>.\<close>

fun after_search :: "sl_goal \<Rightarrow> nat \<Rightarrow> sl_frame \<Rightarrow> IndexSkiplist \<Rightarrow> fault + sl_pc" where
  "after_search For_exist q fr s = bindE (sl_node_at q s) (\<lambda>n. Inr (Idle (Exists (sn_key n = fr_key fr))))"
| "after_search For_read q fr s = bindE (sl_node_at q s) (\<lambda>n. bindE (assert_that (sn_key n = fr_key fr)) (\<lambda>_. Inr (Read_item q)))"
| "after_search For_retry q fr s = bindE (sl_node_at q s) (\<lambda>n. Inr (if sn_key n = fr_key fr then Append q else Make))"
| "after_search (For_world i) q fr s = Inr (Raise i)"

text \<open>One step of \<open>weak_search_predecessors\<close>: it is at node \<open>x\<close> and reads the next node of level \<open>i\<close>.\<close>

definition search_step :: "sl_goal \<Rightarrow> nat \<Rightarrow> nat \<Rightarrow> sl_frame \<Rightarrow> IndexSkiplist \<Rightarrow> fault + (sl_frame \<times> sl_pc)" where
  "search_step g i x fr s =
     bindE (sl_succ x i s) (\<lambda>x_next.
     bindE (sl_node_at x_next s) (\<lambda>n.
     if fr_key fr > sn_key n then Inr (fr, Walk g i x_next)
     else
       let fr1 = (if fills_arrays g then fr\<lparr>fr_preds := (fr_preds fr)(i := x), fr_succs := (fr_succs fr)(i := x_next)\<rparr> else fr) in
       if i > 0 then Inr (fr1, Walk g (i - 1) x)
       else bindE (after_search g x_next fr1 s) (\<lambda>pc. Inr (fr1, pc))))"

text \<open>The new node is allocated at the first attempt and kept for the others; its pointers are set before it is linked.\<close>

definition make_node :: "32 word \<Rightarrow> sl_frame \<Rightarrow> IndexSkiplist \<Rightarrow> nat \<times> sl_frame \<times> IndexSkiplist" where
  "make_node r fr s =
     (case fr_new fr of Some p \<Rightarrow> (p, fr, s)
      | None \<Rightarrow>
        let level = sl_randomLevel r (sl_toplevel s);
            (p, s1) = allocate_node level (fr_key fr) s;
            s2 = s1\<lparr>sl_item_next := (sl_item_next s1)(fr_item fr := None)\<rparr>;
            s3 = sl_put p \<lparr>sn_toplevel = level, sn_key = fr_key fr, sn_items = Some (fr_item fr), sn_next = (\<lambda>_. None)\<rparr> s2
        in (p, fr\<lparr>fr_new := Some p, fr_level := level\<rparr>, s3))"

definition the_new :: "sl_frame \<Rightarrow> fault + nat" where
  "the_new fr = (case fr_new fr of None \<Rightarrow> Inl Null_deref | Some p \<Rightarrow> Inr p)"

definition free_new :: "sl_frame \<Rightarrow> IndexSkiplist \<Rightarrow> IndexSkiplist" where
  "free_new fr s = (case fr_new fr of None \<Rightarrow> s | Some p \<Rightarrow> s\<lparr>sl_heap := (sl_heap s)(p := None)\<rparr>)"

text \<open>A new node is not reachable on the level its owner is working on, so that the update of its own pointer is part of the
  same step.\<close>

definition raise_step :: "nat \<Rightarrow> sl_frame \<Rightarrow> IndexSkiplist \<Rightarrow> fault + (sl_pc \<times> IndexSkiplist)" where
  "raise_step i fr s =
     (if i \<le> fr_level fr then
        let pred = fr_preds fr i; succ = fr_succs fr i in
        bindE (the_new fr) (\<lambda>p.
        bindE (sl_next p i s) (\<lambda>new_next.
        bindE (if new_next \<noteq> Some succ then cas_next p i new_next succ s else Inr (True, s)) (\<lambda>(_, s1).
        bindE (sl_node_at succ s1) (\<lambda>n.
        if sn_key n = fr_key fr then Inr (Walk (For_world i) (MAXLEVEL - 1) (sl_head s1), s1)
        else
          bindE (sl_node_at pred s1) (\<lambda>m.
          bindE (assert_that ((pred = sl_head s1 \<or> sn_key m < fr_key fr) \<and> sn_key n > fr_key fr)) (\<lambda>_.
          Inr (Splice i, s1)))))))
      else Inr (Top, s))"

fun sl_step :: "nat \<Rightarrow> 32 word \<Rightarrow> sl_frame \<Rightarrow> sl_pc \<Rightarrow> IndexSkiplist \<Rightarrow> fault + (sl_frame \<times> sl_pc \<times> IndexSkiplist)" where
  "sl_step thd r fr (Idle x) s = Inr (fr, Idle x, s)"
| "sl_step thd r fr (Begin g) s = Inr (fr, Walk g (sl_toplevel s) (sl_head s), s)"
| "sl_step thd r fr (Walk g i x) s = bindE (search_step g i x fr s) (\<lambda>(fr1, pc). Inr (fr1, pc, s))"
| "sl_step thd r fr (Append q) s =
     bindE (sl_node_at q s) (\<lambda>n. Inr (fr, Swap q (sn_items n), s\<lparr>sl_item_next := (sl_item_next s)(fr_item fr := sn_items n)\<rparr>))"
| "sl_step thd r fr (Swap q oldval) s =
     bindE (cas_items q oldval (fr_item fr) s) (\<lambda>(ok, s1). Inr (if ok then (fr, Idle Inserted, free_new fr s1) else (fr, Append q, s1)))"
| "sl_step thd r fr Make s =
     (let (p, fr1, s1) = make_node r fr s in
      bindE (sl_node_at p s1) (\<lambda>n.
      bindE (guard Out_of_bounds (fr_level fr1 \<le> sn_toplevel n)) (\<lambda>_.
      Inr (fr1, Link, sl_put p (n\<lparr>sn_next := (\<lambda>i. if i \<le> fr_level fr1 then Some (fr_succs fr1 i) else sn_next n i)\<rparr>) s1))))"
| "sl_step thd r fr Link s =
     bindE (the_new fr) (\<lambda>p.
     bindE (cas_next (fr_preds fr 0) 0 (Some (fr_succs fr 0)) p s) (\<lambda>(ok, s1).
     Inr (fr, if ok then Raise 1 else Walk For_retry (MAXLEVEL - 1) (sl_head s1), s1)))"
| "sl_step thd r fr (Raise i) s = bindE (raise_step i fr s) (\<lambda>(pc, s1). Inr (fr, pc, s1))"
| "sl_step thd r fr (Splice i) s =
     bindE (the_new fr) (\<lambda>p.
     bindE (cas_next (fr_preds fr i) i (Some (fr_succs fr i)) p s) (\<lambda>(ok, s1).
     Inr (fr, if ok then Raise (i + 1) else Walk (For_world i) (MAXLEVEL - 1) (sl_head s1), s1)))"
| "sl_step thd r fr Top s = Inr (fr, if fr_level fr > sl_toplevel s then Set_top (sl_toplevel s) else Idle Inserted, s)"
| "sl_step thd r fr (Set_top current_top) s =
     Inr (fr, Idle Inserted, if sl_toplevel s = current_top then s\<lparr>sl_toplevel := fr_level fr\<rparr> else s)"
| "sl_step thd r fr (Read_item q) s =
     bindE (sl_node_at q s) (\<lambda>n. Inr (fr, Read_cur q (sn_items n), s\<lparr>cur_node_per_thd := (cur_node_per_thd s)(thd := Some q)\<rparr>))"
| "sl_step thd r fr (Read_cur q item) s =
     bindE (sl_node_at q s) (\<lambda>n. Inr (fr, Idle (Read_result item), s\<lparr>cur_item_per_thd := (cur_item_per_thd s)(thd := sn_items n)\<rparr>))"
| "sl_step thd r fr (Next_start samekey) s =
     (let next_item = (case cur_item_per_thd s thd of None \<Rightarrow> None | Some last_item \<Rightarrow> sl_item_next s last_item) in
      case (if \<not> samekey \<and> next_item = None then cur_node_per_thd s thd else None) of
        Some last_node \<Rightarrow> Inr (fr, Next_node last_node, s)
      | None \<Rightarrow> Inr (fr, Idle (Read_result next_item), s\<lparr>cur_item_per_thd := (cur_item_per_thd s)(thd := next_item)\<rparr>))"
| "sl_step thd r fr (Next_node last_node) s =
     bindE (sl_next last_node 0 s) (\<lambda>q.
     let s1 = s\<lparr>cur_node_per_thd := (cur_node_per_thd s)(thd := q)\<rparr> in
     case q of None \<Rightarrow> Inr (fr, Idle (Read_result None), s1\<lparr>cur_item_per_thd := (cur_item_per_thd s1)(thd := None)\<rparr>)
     | Some next_node \<Rightarrow> Inr (fr, Next_items next_node, s1))"
| "sl_step thd r fr (Next_items next_node) s =
     bindE (sl_node_at next_node s) (\<lambda>n.
     Inr (fr, Idle (Read_result (sn_items n)), s\<lparr>cur_item_per_thd := (cur_item_per_thd s)(thd := sn_items n)\<rparr>))"

text \<open>The call of an operation: a new frame and the first place.\<close>

definition sl_call :: "sl_op \<Rightarrow> IndexSkiplist \<Rightarrow> sl_frame \<times> sl_pc" where
  "sl_call op s =
     (let fr = \<lparr>fr_key = 0, fr_item = 0, fr_preds = (\<lambda>_. 0), fr_succs = (\<lambda>_. 0), fr_new = None, fr_level = 0\<rparr> in
      case op of
        Op_insert k i \<Rightarrow> (fr\<lparr>fr_key := k, fr_item := i\<rparr>, Walk For_retry (MAXLEVEL - 1) (sl_head s))
      | Op_read k \<Rightarrow> (fr\<lparr>fr_key := k\<rparr>, Begin For_read)
      | Op_exist k \<Rightarrow> (fr\<lparr>fr_key := k\<rparr>, Begin For_exist)
      | Op_next samekey \<Rightarrow> (fr, Next_start samekey))"

subsection \<open>The system\<close>

text \<open>All threads with the memory. The set \<open>sy_used\<close> is there for the contract of the callers: an item is inserted once.\<close>

record sl_sys =
  sy_mem :: IndexSkiplist
  sy_thd :: "nat \<Rightarrow> sl_frame \<times> sl_pc"
  sy_used :: "item_ptr set"

fun op_items :: "sl_op \<Rightarrow> item_ptr set" where
  "op_items (Op_insert k i) = {i}"
| "op_items (Op_read k) = {}"
| "op_items (Op_exist k) = {}"
| "op_items (Op_next b) = {}"

definition sl_start :: "item_next \<Rightarrow> sl_sys" where
  "sl_start nx = \<lparr>sy_mem = sl_init nx, sy_thd = (\<lambda>_. (fst (sl_call (Op_next True) (sl_init nx)), Idle No_result)), sy_used = {}\<rparr>"

inductive sl_trans :: "sl_sys \<Rightarrow> nat \<Rightarrow> sl_sys \<Rightarrow> bool" where
  call: "snd (sy_thd s t) = Idle x \<Longrightarrow> op_items op \<inter> sy_used s = {} \<Longrightarrow>
    sl_trans s t (s\<lparr>sy_thd := (sy_thd s)(t := sl_call op (sy_mem s)), sy_used := sy_used s \<union> op_items op\<rparr>)"
| run: "sy_thd s t = (fr, pc) \<Longrightarrow> sl_step t r fr pc (sy_mem s) = Inr (fr', pc', mem') \<Longrightarrow>
    sl_trans s t (s\<lparr>sy_mem := mem', sy_thd := (sy_thd s)(t := (fr', pc'))\<rparr>)"

end
