(* ===== verification/Foresight.thy ===== *)
theory Foresight
  imports Skiplist
begin

text \<open>
  The skip list with foresight, \<^verbatim>\<open>storage/index_skiplist_foresight.cpp\<close>, the default index: beside every pointer is the key of
  the node it points to. The build \<^verbatim>\<open>IDX_SKIPLISTxFSxSIMD\<close> (\<open>simd\<close>) reads the pair at once, the build
  \<^verbatim>\<open>IDX_SKIPLISTxFS\<close> one half after the other. The frames and places of the threads are those of \<open>Skiplist\<close>.
\<close>

subsection \<open>Shared memory\<close>

record SkiplistForesightNode =
  slf_toplevel :: nat
  slf_key :: idx_key_t
  slf_items :: "item_ptr option"
  slf_next :: "nat \<Rightarrow> (nat option \<times> idx_key_t) option"

record IndexSkiplistForesight =
  slf_heap :: "nat \<Rightarrow> SkiplistForesightNode option"
  slf_fresh :: nat
  slf_head :: nat
  slf_top :: nat
  slf_item_next :: item_next
  slf_cur_node :: "nat \<Rightarrow> nat option"
  slf_cur_item :: "nat \<Rightarrow> item_ptr option"

definition slf_node_at :: "nat \<Rightarrow> IndexSkiplistForesight \<Rightarrow> fault + SkiplistForesightNode" where
  "slf_node_at p s = (case slf_heap s p of None \<Rightarrow> Inl Undefined_behaviour | Some n \<Rightarrow> Inr n)"

definition slf_put :: "nat \<Rightarrow> SkiplistForesightNode \<Rightarrow> IndexSkiplistForesight \<Rightarrow> IndexSkiplistForesight" where
  "slf_put p n s = s\<lparr>slf_heap := (slf_heap s)(p \<mapsto> n)\<rparr>"

text \<open>The pairs of a new node are not initialised, which is \<open>None\<close>.\<close>

definition slf_allocate_node :: "nat \<Rightarrow> idx_key_t \<Rightarrow> IndexSkiplistForesight \<Rightarrow> nat \<times> IndexSkiplistForesight" where
  "slf_allocate_node toplvl key s =
     (slf_fresh s, s\<lparr>slf_heap := (slf_heap s)(slf_fresh s \<mapsto> \<lparr>slf_toplevel = toplvl, slf_key = key, slf_items = None, slf_next = (\<lambda>_. None)\<rparr>),
                     slf_fresh := Suc (slf_fresh s)\<rparr>)"

definition slf_init :: "item_next \<Rightarrow> IndexSkiplistForesight" where
  "slf_init nx =
     (let s = \<lparr>slf_heap = (\<lambda>_. None), slf_fresh = 0, slf_head = 0, slf_top = 0, slf_item_next = nx,
               slf_cur_node = (\<lambda>_. None), slf_cur_item = (\<lambda>_. None)\<rparr>;
          (h, s1) = slf_allocate_node (MAXLEVEL - 1) 0 s;
          (last_node, s2) = slf_allocate_node (MAXLEVEL - 1) MAXKEY s1;
          s3 = slf_put last_node \<lparr>slf_toplevel = MAXLEVEL - 1, slf_key = MAXKEY, slf_items = None,
                 slf_next = (\<lambda>i. if i \<le> MAXLEVEL - 1 then Some (None, MAXKEY) else None)\<rparr> s2;
          s4 = slf_put h \<lparr>slf_toplevel = MAXLEVEL - 1, slf_key = 0, slf_items = None,
                 slf_next = (\<lambda>i. if i \<le> MAXLEVEL - 1 then Some (Some last_node, MAXKEY) else None)\<rparr> s3
      in s4\<lparr>slf_head := h, slf_top := 0\<rparr>)"

definition slf_pair :: "nat \<Rightarrow> nat \<Rightarrow> IndexSkiplistForesight \<Rightarrow> fault + (nat option \<times> idx_key_t)" where
  "slf_pair p i s =
     bindE (slf_node_at p s) (\<lambda>n.
     bindE (guard Out_of_bounds (i \<le> slf_toplevel n)) (\<lambda>_.
     case slf_next n i of None \<Rightarrow> Inl Undefined_behaviour | Some x \<Rightarrow> Inr x))"

definition slf_ptr :: "nat \<Rightarrow> nat \<Rightarrow> IndexSkiplistForesight \<Rightarrow> fault + nat" where
  "slf_ptr p i s = bindE (slf_pair p i s) (\<lambda>(q, k). case q of None \<Rightarrow> Inl Assert_failed | Some q' \<Rightarrow> Inr q')"

text \<open>The compare-and-swap of 16 bytes, a pointer and a key.\<close>

definition wide_cas :: "nat \<Rightarrow> nat \<Rightarrow> nat option \<times> idx_key_t \<Rightarrow> nat option \<times> idx_key_t \<Rightarrow> IndexSkiplistForesight \<Rightarrow>
    fault + (bool \<times> IndexSkiplistForesight)" where
  "wide_cas p i old new s =
     bindE (slf_pair p i s) (\<lambda>x.
     bindE (slf_node_at p s) (\<lambda>n.
     if x = old then Inr (True, slf_put p (n\<lparr>slf_next := (slf_next n)(i := Some new)\<rparr>) s) else Inr (False, s)))"

definition slf_cas_items :: "nat \<Rightarrow> item_ptr option \<Rightarrow> item_ptr \<Rightarrow> IndexSkiplistForesight \<Rightarrow> fault + (bool \<times> IndexSkiplistForesight)" where
  "slf_cas_items p old new s =
     bindE (slf_node_at p s) (\<lambda>n.
     if slf_items n = old then Inr (True, slf_put p (n\<lparr>slf_items := Some new\<rparr>) s) else Inr (False, s))"

subsection \<open>Searches\<close>

text \<open>The places of \<open>Skiplist\<close>, and two more: before and after the read of the key beside the pointer.\<close>

datatype slf_pc = At sl_pc | Peek sl_goal nat nat | Peek_ptr sl_goal nat nat idx_key_t

definition slf_enter :: "bool \<Rightarrow> sl_goal \<Rightarrow> nat \<Rightarrow> nat \<Rightarrow> slf_pc" where
  "slf_enter simd g i x = (if simd \<or> i = 0 then At (Walk g i x) else Peek g i x)"

fun slf_after :: "sl_goal \<Rightarrow> nat \<Rightarrow> sl_frame \<Rightarrow> IndexSkiplistForesight \<Rightarrow> fault + sl_pc" where
  "slf_after For_exist q fr s = bindE (slf_node_at q s) (\<lambda>n. Inr (Idle (Exists (slf_key n = fr_key fr))))"
| "slf_after For_read q fr s = bindE (slf_node_at q s) (\<lambda>n. bindE (assert_that (slf_key n = fr_key fr)) (\<lambda>_. Inr (Read_item q)))"
| "slf_after For_retry q fr s = bindE (slf_node_at q s) (\<lambda>n. Inr (if slf_key n = fr_key fr then Append q else Make))"
| "slf_after (For_world i) q fr s = Inr (Raise i)"

definition slf_found :: "sl_goal \<Rightarrow> nat \<Rightarrow> nat \<Rightarrow> nat \<Rightarrow> sl_frame \<Rightarrow> sl_frame" where
  "slf_found g i x x_next fr = (if fills_arrays g then fr\<lparr>fr_preds := (fr_preds fr)(i := x), fr_succs := (fr_succs fr)(i := x_next)\<rparr> else fr)"

definition slf_down :: "sl_goal \<Rightarrow> nat \<Rightarrow> nat \<Rightarrow> nat \<Rightarrow> sl_frame \<Rightarrow> IndexSkiplistForesight \<Rightarrow> fault + (sl_frame \<times> slf_pc)" where
  "slf_down g i x x_next fr s =
     (let fr1 = slf_found g i x x_next fr in
      if i > 0 then Inr (fr1, At (Walk g (i - 1) x)) else bindE (slf_after g x_next fr1 s) (\<lambda>pc. Inr (fr1, At pc)))"

text \<open>The search that compares with the key read together with the pointer, and the one that does not use foresight,
  \<open>weak_search_predecessors_nf\<close> and the last level of the other.\<close>

definition slf_simd_step :: "sl_goal \<Rightarrow> nat \<Rightarrow> nat \<Rightarrow> sl_frame \<Rightarrow> IndexSkiplistForesight \<Rightarrow> fault + (sl_frame \<times> slf_pc)" where
  "slf_simd_step g i x fr s =
     bindE (slf_pair x i s) (\<lambda>(x_next, x_next_k).
     case x_next of None \<Rightarrow> Inl Assert_failed | Some q \<Rightarrow>
       if fr_key fr > x_next_k then Inr (fr, At (Walk g i q)) else slf_down g i x q fr s)"

definition slf_nf_step :: "sl_goal \<Rightarrow> nat \<Rightarrow> nat \<Rightarrow> sl_frame \<Rightarrow> IndexSkiplistForesight \<Rightarrow> fault + (sl_frame \<times> slf_pc)" where
  "slf_nf_step g i x fr s =
     bindE (slf_ptr x i s) (\<lambda>x_next.
     bindE (slf_node_at x_next s) (\<lambda>n.
     if fr_key fr > slf_key n then Inr (fr, At (Walk g i x_next)) else slf_down g i x x_next fr s))"

text \<open>The levels above the last with two reads: when the key lets the search advance, the node itself is looked at first.\<close>

definition slf_peek_step :: "sl_goal \<Rightarrow> nat \<Rightarrow> nat \<Rightarrow> sl_frame \<Rightarrow> IndexSkiplistForesight \<Rightarrow> fault + (sl_frame \<times> slf_pc)" where
  "slf_peek_step g i x fr s = bindE (slf_pair x i s) (\<lambda>(x_next, x_next_k). Inr (fr, Peek_ptr g i x x_next_k))"

definition slf_peek_ptr_step :: "sl_goal \<Rightarrow> nat \<Rightarrow> nat \<Rightarrow> idx_key_t \<Rightarrow> sl_frame \<Rightarrow> IndexSkiplistForesight \<Rightarrow> fault + (sl_frame \<times> slf_pc)" where
  "slf_peek_ptr_step g i x x_next_k fr s =
     bindE (slf_ptr x i s) (\<lambda>x_next.
     let stop = Inr (slf_found g i x x_next fr, slf_enter False g (i - 1) x) in
     if fr_key fr > x_next_k then
       bindE (slf_node_at x_next s) (\<lambda>n. if slf_key n \<ge> fr_key fr then stop else Inr (fr, Peek g i x_next))
     else stop)"

subsection \<open>Inserting\<close>

definition slf_make_node :: "32 word \<Rightarrow> sl_frame \<Rightarrow> IndexSkiplistForesight \<Rightarrow> nat \<times> sl_frame \<times> IndexSkiplistForesight" where
  "slf_make_node r fr s =
     (case fr_new fr of Some p \<Rightarrow> (p, fr, s)
      | None \<Rightarrow>
        let level = sl_randomLevel r (slf_top s);
            (p, s1) = slf_allocate_node level (fr_key fr) s;
            s2 = s1\<lparr>slf_item_next := (slf_item_next s1)(fr_item fr := None)\<rparr>;
            s3 = slf_put p \<lparr>slf_toplevel = level, slf_key = fr_key fr, slf_items = Some (fr_item fr), slf_next = (\<lambda>_. None)\<rparr> s2
        in (p, fr\<lparr>fr_new := Some p, fr_level := level\<rparr>, s3))"

text \<open>The pairs of the new node for the levels of a list.\<close>

fun slf_fill :: "nat list \<Rightarrow> sl_frame \<Rightarrow> IndexSkiplistForesight \<Rightarrow> (nat \<Rightarrow> (nat option \<times> idx_key_t) option) \<Rightarrow>
    fault + (nat \<Rightarrow> (nat option \<times> idx_key_t) option)" where
  "slf_fill [] fr s f = Inr f"
| "slf_fill (i # is) fr s f =
     bindE (slf_node_at (fr_succs fr i) s) (\<lambda>n. slf_fill is fr s (f(i := Some (Some (fr_succs fr i), slf_key n))))"

definition slf_free_new :: "sl_frame \<Rightarrow> IndexSkiplistForesight \<Rightarrow> IndexSkiplistForesight" where
  "slf_free_new fr s = (case fr_new fr of None \<Rightarrow> s | Some p \<Rightarrow> s\<lparr>slf_heap := (slf_heap s)(p := None)\<rparr>)"

definition slf_raise_step :: "bool \<Rightarrow> nat \<Rightarrow> sl_frame \<Rightarrow> IndexSkiplistForesight \<Rightarrow> fault + (slf_pc \<times> IndexSkiplistForesight)" where
  "slf_raise_step simd i fr s =
     (if i \<le> fr_level fr then
        let pred = fr_preds fr i; succ = fr_succs fr i in
        bindE (the_new fr) (\<lambda>p.
        bindE (slf_pair p i s) (\<lambda>(new_next, _).
        bindE (if new_next \<noteq> Some succ then
                 (case new_next of None \<Rightarrow> Inl Null_deref | Some q \<Rightarrow>
                    bindE (slf_node_at q s) (\<lambda>a. bindE (slf_node_at succ s) (\<lambda>b.
                    wide_cas p i (new_next, slf_key a) (Some succ, slf_key b) s)))
               else Inr (True, s)) (\<lambda>(_, s1).
        bindE (slf_node_at succ s1) (\<lambda>n.
        if slf_key n \<le> fr_key fr then Inr (At (Walk (For_world i) (MAXLEVEL - 1) (slf_head s1)), s1)
        else
          bindE (slf_node_at pred s1) (\<lambda>m.
          bindE (assert_that (((pred = slf_head s1 \<and> fr_key fr = 0) \<or> slf_key m < fr_key fr) \<and> slf_key n > fr_key fr)) (\<lambda>_.
          Inr (At (Splice i), s1)))))))
      else Inr (At Top, s))"

text \<open>One step of a thread.\<close>

fun slf_step :: "bool \<Rightarrow> nat \<Rightarrow> 32 word \<Rightarrow> sl_frame \<Rightarrow> slf_pc \<Rightarrow> IndexSkiplistForesight \<Rightarrow> fault + (sl_frame \<times> slf_pc \<times> IndexSkiplistForesight)" where
  "slf_step simd thd r fr (Peek g i x) s = bindE (slf_peek_step g i x fr s) (\<lambda>(fr1, pc). Inr (fr1, pc, s))"
| "slf_step simd thd r fr (Peek_ptr g i x k) s = bindE (slf_peek_ptr_step g i x k fr s) (\<lambda>(fr1, pc). Inr (fr1, pc, s))"
| "slf_step simd thd r fr (At (Walk g i x)) s =
     bindE (if simd then slf_simd_step g i x fr s else slf_nf_step g i x fr s) (\<lambda>(fr1, pc). Inr (fr1, pc, s))"
| "slf_step simd thd r fr (At (Idle x)) s = Inr (fr, At (Idle x), s)"
| "slf_step simd thd r fr (At (Begin g)) s = Inr (fr, slf_enter simd g (slf_top s) (slf_head s), s)"
| "slf_step simd thd r fr (At (Append q)) s =
     bindE (slf_node_at q s) (\<lambda>n. Inr (fr, At (Swap q (slf_items n)), s\<lparr>slf_item_next := (slf_item_next s)(fr_item fr := slf_items n)\<rparr>))"
| "slf_step simd thd r fr (At (Swap q oldval)) s =
     bindE (slf_cas_items q oldval (fr_item fr) s) (\<lambda>(ok, s1).
     Inr (if ok then (fr, At (Idle Inserted), slf_free_new fr s1) else (fr, At (Append q), s1)))"
| "slf_step simd thd r fr (At Make) s =
     (let (p, fr1, s1) = slf_make_node r fr s in
      bindE (slf_node_at p s1) (\<lambda>n.
      bindE (guard Out_of_bounds (fr_level fr1 \<le> slf_toplevel n)) (\<lambda>_.
      bindE (slf_fill [0..<Suc (fr_level fr1)] fr1 s1 (slf_next n)) (\<lambda>f.
      Inr (fr1, At Link, slf_put p (n\<lparr>slf_next := f\<rparr>) s1)))))"
| "slf_step simd thd r fr (At Link) s =
     bindE (the_new fr) (\<lambda>p.
     bindE (slf_node_at (fr_succs fr 0) s) (\<lambda>n.
     bindE (wide_cas (fr_preds fr 0) 0 (Some (fr_succs fr 0), slf_key n) (Some p, fr_key fr) s) (\<lambda>(ok, s1).
     Inr (fr, if ok then At (Raise 1) else slf_enter simd For_retry (MAXLEVEL - 1) (slf_head s1), s1))))"
| "slf_step simd thd r fr (At (Raise i)) s = bindE (slf_raise_step simd i fr s) (\<lambda>(pc, s1). Inr (fr, pc, s1))"
| "slf_step simd thd r fr (At (Splice i)) s =
     bindE (the_new fr) (\<lambda>p.
     bindE (slf_node_at (fr_succs fr i) s) (\<lambda>n.
     bindE (wide_cas (fr_preds fr i) i (Some (fr_succs fr i), slf_key n) (Some p, fr_key fr) s) (\<lambda>(ok, s1).
     Inr (fr, if ok then At (Raise (i + 1)) else slf_enter simd (For_world i) (MAXLEVEL - 1) (slf_head s1), s1))))"
| "slf_step simd thd r fr (At Top) s = Inr (fr, At (if fr_level fr > slf_top s then Set_top (slf_top s) else Idle Inserted), s)"
| "slf_step simd thd r fr (At (Set_top current_top)) s =
     Inr (fr, At (Idle Inserted), if slf_top s = current_top then s\<lparr>slf_top := fr_level fr\<rparr> else s)"
| "slf_step simd thd r fr (At (Read_item q)) s =
     bindE (slf_node_at q s) (\<lambda>n. Inr (fr, At (Read_cur q (slf_items n)), s\<lparr>slf_cur_node := (slf_cur_node s)(thd := Some q)\<rparr>))"
| "slf_step simd thd r fr (At (Read_cur q item)) s =
     bindE (slf_node_at q s) (\<lambda>n. Inr (fr, At (Idle (Read_result item)), s\<lparr>slf_cur_item := (slf_cur_item s)(thd := slf_items n)\<rparr>))"
| "slf_step simd thd r fr (At (Next_start samekey)) s =
     (let next_item = (case slf_cur_item s thd of None \<Rightarrow> None | Some last_item \<Rightarrow> slf_item_next s last_item) in
      case (if \<not> samekey \<and> next_item = None then slf_cur_node s thd else None) of
        Some last_node \<Rightarrow> Inr (fr, At (Next_node last_node), s)
      | None \<Rightarrow> Inr (fr, At (Idle (Read_result next_item)), s\<lparr>slf_cur_item := (slf_cur_item s)(thd := next_item)\<rparr>))"
| "slf_step simd thd r fr (At (Next_node last_node)) s =
     bindE (slf_pair last_node 0 s) (\<lambda>(q, _).
     let s1 = s\<lparr>slf_cur_node := (slf_cur_node s)(thd := q)\<rparr> in
     case q of None \<Rightarrow> Inr (fr, At (Idle (Read_result None)), s1\<lparr>slf_cur_item := (slf_cur_item s1)(thd := None)\<rparr>)
     | Some next_node \<Rightarrow> Inr (fr, At (Next_items next_node), s1))"
| "slf_step simd thd r fr (At (Next_items next_node)) s =
     bindE (slf_node_at next_node s) (\<lambda>n.
     Inr (fr, At (Idle (Read_result (slf_items n))), s\<lparr>slf_cur_item := (slf_cur_item s)(thd := slf_items n)\<rparr>))"

definition slf_call :: "bool \<Rightarrow> sl_op \<Rightarrow> IndexSkiplistForesight \<Rightarrow> sl_frame \<times> slf_pc" where
  "slf_call simd op s =
     (let fr = \<lparr>fr_key = 0, fr_item = 0, fr_preds = (\<lambda>_. 0), fr_succs = (\<lambda>_. 0), fr_new = None, fr_level = 0\<rparr> in
      case op of
        Op_insert k i \<Rightarrow> (fr\<lparr>fr_key := k, fr_item := i\<rparr>, slf_enter simd For_retry (MAXLEVEL - 1) (slf_head s))
      | Op_read k \<Rightarrow> (fr\<lparr>fr_key := k\<rparr>, At (Begin For_read))
      | Op_exist k \<Rightarrow> (fr\<lparr>fr_key := k\<rparr>, At (Begin For_exist))
      | Op_next samekey \<Rightarrow> (fr, At (Next_start samekey)))"

subsection \<open>The system\<close>

record slf_sys =
  sf_mem :: IndexSkiplistForesight
  sf_thd :: "nat \<Rightarrow> sl_frame \<times> slf_pc"
  sf_used :: "item_ptr set"

definition slf_start :: "item_next \<Rightarrow> slf_sys" where
  "slf_start nx = \<lparr>sf_mem = slf_init nx, sf_thd = (\<lambda>_. (fst (slf_call True (Op_next True) (slf_init nx)), At (Idle No_result))), sf_used = {}\<rparr>"

inductive slf_trans :: "bool \<Rightarrow> slf_sys \<Rightarrow> nat \<Rightarrow> slf_sys \<Rightarrow> bool" for simd where
  call: "snd (sf_thd s t) = At (Idle x) \<Longrightarrow> op_items op \<inter> sf_used s = {} \<Longrightarrow>
    slf_trans simd s t (s\<lparr>sf_thd := (sf_thd s)(t := slf_call simd op (sf_mem s)), sf_used := sf_used s \<union> op_items op\<rparr>)"
| run: "sf_thd s t = (fr, pc) \<Longrightarrow> slf_step simd t r fr pc (sf_mem s) = Inr (fr', pc', mem') \<Longrightarrow>
    slf_trans simd s t (s\<lparr>sf_mem := mem', sf_thd := (sf_thd s)(t := (fr', pc'))\<rparr>)"

end
