(* ===== verification/Skiplist_inv.thy ===== *)
theory Skiplist_inv
  imports Skiplist
begin

text \<open>
  The invariant of the lock-free skip list. \<open>N i\<close> is the set of nodes that are linked on level \<open>i\<close>; on every level the
  pointer of a node goes to the node with the next larger key.
\<close>

subsection \<open>The linked nodes\<close>

definition nd :: "IndexSkiplist \<Rightarrow> nat \<Rightarrow> SkiplistNode" where
  "nd s p = the (sl_heap s p)"

abbreviation sl_tail :: nat where "sl_tail \<equiv> 1"

text \<open>The head is before every key, the tail has the largest one.\<close>

definition before :: "IndexSkiplist \<Rightarrow> nat \<Rightarrow> idx_key_t \<Rightarrow> bool" where
  "before s p k \<longleftrightarrow> p = 0 \<or> sn_key (nd s p) < k"

definition next_ok :: "IndexSkiplist \<Rightarrow> nat set \<Rightarrow> nat \<Rightarrow> nat option \<Rightarrow> bool" where
  "next_ok s A p r \<longleftrightarrow> (\<exists>q\<in>insert sl_tail A. r = Some q \<and> before s p (sn_key (nd s q)) \<and>
     (\<forall>a\<in>A. before s p (sn_key (nd s a)) \<longrightarrow> sn_key (nd s q) \<le> sn_key (nd s a)))"

definition linked_node :: "IndexSkiplist \<Rightarrow> nat \<Rightarrow> nat \<Rightarrow> bool" where
  "linked_node s i p \<longleftrightarrow> 2 \<le> p \<and> sl_heap s p \<noteq> None \<and> i \<le> sn_toplevel (nd s p) \<and> sn_toplevel (nd s p) < MAXLEVEL \<and>
     sn_key (nd s p) < MAXKEY \<and> sn_items (nd s p) \<noteq> None"

definition slot_of :: "item_next \<Rightarrow> item_ptr option \<Rightarrow> item_ptr list option \<Rightarrow> bool" where
  "slot_of nx v r \<longleftrightarrow> (case v of None \<Rightarrow> r = None | Some i \<Rightarrow> (\<exists>is. r = Some is \<and> is \<noteq> [] \<and> chain nx (Some i) is))"

definition item_slot :: "IndexSkiplist \<Rightarrow> nat set \<Rightarrow> idx_key_t index_spec \<Rightarrow> bool" where
  "item_slot s A m \<longleftrightarrow>
     (\<forall>p\<in>insert sl_tail A. slot_of (sl_item_next s) (sn_items (nd s p)) (m (sn_key (nd s p)))) \<and>
     (\<forall>k\<in>dom m. \<exists>p\<in>insert sl_tail A. sn_key (nd s p) = k)"

definition ends_ok :: "IndexSkiplist \<Rightarrow> bool" where
  "ends_ok s \<longleftrightarrow> sl_head s = 0 \<and> sl_heap s 0 \<noteq> None \<and> sn_toplevel (nd s 0) = MAXLEVEL - 1 \<and> sn_key (nd s 0) = 0 \<and>
     sl_heap s 1 \<noteq> None \<and> sn_toplevel (nd s 1) = MAXLEVEL - 1 \<and> sn_key (nd s 1) = MAXKEY \<and> sn_next (nd s 1) 0 = None"

definition mem_ok :: "IndexSkiplist \<Rightarrow> (nat \<Rightarrow> nat set) \<Rightarrow> idx_key_t index_spec \<Rightarrow> bool" where
  "mem_ok s N m \<longleftrightarrow> ends_ok s \<and> sl_toplevel s < MAXLEVEL \<and> finite (N 0) \<and> (\<forall>i. N (Suc i) \<subseteq> N i) \<and>
     (\<forall>i. \<forall>p\<in>N i. linked_node s i p) \<and> inj_on (\<lambda>p. sn_key (nd s p)) (N 0) \<and>
     (\<forall>i<MAXLEVEL. \<forall>p\<in>insert 0 (N i). next_ok s (N i) p (sn_next (nd s p) i)) \<and>
     (\<forall>p. sl_heap s p \<noteq> None \<longrightarrow> p < sl_fresh s) \<and> item_slot s (N 0) m \<and>
     (\<forall>t p. cur_node_per_thd s t = Some p \<longrightarrow> p \<in> insert sl_tail (N 0))"

subsection \<open>The threads\<close>

text \<open>The successor a search has found on a level has a key that is not smaller. A search that trusts the keys kept beside the pointers
  promises that only for the bottom level; then \<open>ex\<close> is false.\<close>

definition pred_succ :: "bool \<Rightarrow> IndexSkiplist \<Rightarrow> (nat \<Rightarrow> nat set) \<Rightarrow> sl_frame \<Rightarrow> nat \<Rightarrow> bool" where
  "pred_succ ex s N fr j \<longleftrightarrow> fr_preds fr j \<in> insert 0 (N j) \<and> before s (fr_preds fr j) (fr_key fr) \<and>
     fr_succs fr j \<in> insert sl_tail (N j) \<and> (ex \<or> j = 0 \<longrightarrow> fr_key fr \<le> sn_key (nd s (fr_succs fr j)))"

text \<open>The new node of a thread is linked on the levels below \<open>c\<close>.\<close>

definition new_node :: "IndexSkiplist \<Rightarrow> (nat \<Rightarrow> nat set) \<Rightarrow> sl_frame \<Rightarrow> nat \<Rightarrow> bool" where
  "new_node s N fr c \<longleftrightarrow> (\<exists>p. fr_new fr = Some p \<and> 2 \<le> p \<and> sl_heap s p \<noteq> None \<and> sn_key (nd s p) = fr_key fr \<and>
     sn_toplevel (nd s p) = fr_level fr \<and> fr_level fr < MAXLEVEL \<and> (\<forall>j. p \<in> N j \<longleftrightarrow> j < c) \<and>
     (c = 0 \<longrightarrow> sn_items (nd s p) = Some (fr_item fr)) \<and> (0 < c \<longrightarrow> (\<forall>j. c \<le> j \<and> j \<le> fr_level fr \<longrightarrow> sn_next (nd s p) j \<noteq> None)))"

definition spare_node :: "IndexSkiplist \<Rightarrow> (nat \<Rightarrow> nat set) \<Rightarrow> sl_frame \<Rightarrow> bool" where
  "spare_node s N fr \<longleftrightarrow> (fr_new fr = None \<or> new_node s N fr 0 \<and> sl_item_next s (fr_item fr) = None)"

fun goal_ok :: "bool \<Rightarrow> sl_goal \<Rightarrow> nat \<Rightarrow> IndexSkiplist \<Rightarrow> (nat \<Rightarrow> nat set) \<Rightarrow> sl_frame \<Rightarrow> bool" where
  "goal_ok ex For_exist i s N fr = True"
| "goal_ok ex For_read i s N fr = True"
| "goal_ok ex For_retry i s N fr = ((\<forall>j. i < j \<and> j < MAXLEVEL \<longrightarrow> pred_succ ex s N fr j) \<and> spare_node s N fr)"
| "goal_ok ex (For_world c) i s N fr =
     ((\<forall>j. i < j \<and> j < MAXLEVEL \<longrightarrow> pred_succ ex s N fr j) \<and> new_node s N fr c \<and> 1 \<le> c \<and> c \<le> fr_level fr)"

fun place_ok :: "bool \<Rightarrow> IndexSkiplist \<Rightarrow> (nat \<Rightarrow> nat set) \<Rightarrow> sl_frame \<Rightarrow> sl_pc \<Rightarrow> bool" where
  "place_ok ex s N fr (Idle x) = True"
| "place_ok ex s N fr (Begin g) = (\<not> fills_arrays g)"
| "place_ok ex s N fr (Walk g i x) = (i < MAXLEVEL \<and> x \<in> insert 0 (N i) \<and> before s x (fr_key fr) \<and> goal_ok ex g i s N fr)"
| "place_ok ex s N fr (Append q) = (q \<in> insert sl_tail (N 0) \<and> sn_key (nd s q) = fr_key fr \<and> (fr_new fr = None \<or> new_node s N fr 0))"
| "place_ok ex s N fr (Swap q x) = (q \<in> insert sl_tail (N 0) \<and> sn_key (nd s q) = fr_key fr \<and> (fr_new fr = None \<or> new_node s N fr 0) \<and>
     sl_item_next s (fr_item fr) = x)"
| "place_ok ex s N fr Make = ((\<forall>j<MAXLEVEL. pred_succ ex s N fr j) \<and> fr_key fr < sn_key (nd s (fr_succs fr 0)) \<and> spare_node s N fr)"
| "place_ok ex s N fr Link = ((\<forall>j<MAXLEVEL. pred_succ ex s N fr j) \<and> fr_key fr < sn_key (nd s (fr_succs fr 0)) \<and>
     new_node s N fr 0 \<and> sl_item_next s (fr_item fr) = None \<and>
     (\<forall>j\<le>fr_level fr. sn_next (nd s (the (fr_new fr))) j = Some (fr_succs fr j)))"
| "place_ok ex s N fr (Raise c) = ((\<forall>j<MAXLEVEL. pred_succ ex s N fr j) \<and> new_node s N fr c \<and> 1 \<le> c \<and> c \<le> Suc (fr_level fr))"
| "place_ok ex s N fr (Splice c) = (pred_succ ex s N fr c \<and> fr_key fr < sn_key (nd s (fr_succs fr c)) \<and>
     (\<forall>j<MAXLEVEL. pred_succ ex s N fr j) \<and> new_node s N fr c \<and> 1 \<le> c \<and> c \<le> fr_level fr \<and> sn_next (nd s (the (fr_new fr))) c = Some (fr_succs fr c))"
| "place_ok ex s N fr Top = (fr_level fr < MAXLEVEL)"
| "place_ok ex s N fr (Set_top c) = (fr_level fr < MAXLEVEL)"
| "place_ok ex s N fr (Read_item q) = (q \<in> insert sl_tail (N 0) \<and> sn_key (nd s q) = fr_key fr)"
| "place_ok ex s N fr (Read_cur q x) = (q \<in> insert sl_tail (N 0) \<and> sn_key (nd s q) = fr_key fr)"
| "place_ok ex s N fr (Next_start b) = True"
| "place_ok ex s N fr (Next_node q) = (q \<in> insert sl_tail (N 0))"
| "place_ok ex s N fr (Next_items q) = (q \<in> insert sl_tail (N 0))"

text \<open>What a thread owns: the item it is to insert, until that is done, and its new node, until that is linked everywhere.\<close>

fun retrying :: "sl_pc \<Rightarrow> bool" where
  "retrying (Walk For_retry i x) = True"
| "retrying (Append q) = True"
| "retrying (Swap q x) = True"
| "retrying Make = True"
| "retrying Link = True"
| "retrying _ = False"

fun raising :: "sl_pc \<Rightarrow> bool" where
  "raising (Walk (For_world i) j x) = True"
| "raising (Raise i) = True"
| "raising (Splice i) = True"
| "raising _ = False"

definition own_item :: "sl_frame \<times> sl_pc \<Rightarrow> item_ptr set" where
  "own_item th = (if retrying (snd th) then {fr_item (fst th)} else {})"

definition own_node :: "sl_frame \<times> sl_pc \<Rightarrow> nat set" where
  "own_node th = (if retrying (snd th) \<or> raising (snd th) then set_option (fr_new (fst th)) else {})"

definition sys_ok :: "bool \<Rightarrow> sl_sys \<Rightarrow> (nat \<Rightarrow> nat set) \<Rightarrow> idx_key_t index_spec \<Rightarrow> bool" where
  "sys_ok ex s N m \<longleftrightarrow> mem_ok (sy_mem s) N m \<and> items_of m \<subseteq> sy_used s \<and>
     (\<forall>t. place_ok ex (sy_mem s) N (fst (sy_thd s t)) (snd (sy_thd s t)) \<and> own_item (sy_thd s t) \<subseteq> sy_used s - items_of m) \<and>
     (\<forall>t u. t \<noteq> u \<longrightarrow> own_item (sy_thd s t) \<inter> own_item (sy_thd s u) = {} \<and> own_node (sy_thd s t) \<inter> own_node (sy_thd s u) = {})"


lemma mem_okD:
  assumes "mem_ok s N m"
  shows "ends_ok s" "sl_toplevel s < MAXLEVEL" "finite (N 0)" "N (Suc i) \<subseteq> N i" "p \<in> N i \<Longrightarrow> linked_node s i p"
    "inj_on (\<lambda>p. sn_key (nd s p)) (N 0)" "i < MAXLEVEL \<Longrightarrow> p \<in> insert 0 (N i) \<Longrightarrow> next_ok s (N i) p (sn_next (nd s p) i)"
    "sl_heap s p \<noteq> None \<Longrightarrow> p < sl_fresh s" "item_slot s (N 0) m" "cur_node_per_thd s t = Some p \<Longrightarrow> p \<in> insert sl_tail (N 0)"
  using assms unfolding mem_ok_def by blast+

lemma levels_down:
  assumes "mem_ok s N m" "i \<le> j"
  shows "N j \<subseteq> N i"
  using assms(2) mem_okD(4) [OF assms(1)] by (rule lift_Suc_antimono_le [rotated])

lemma linked_0: "mem_ok s N m \<Longrightarrow> p \<in> N i \<Longrightarrow> p \<in> N 0"
  using levels_down [of s N m 0 i] by auto

lemma live_node:
  assumes "mem_ok s N m" "p \<in> insert 0 (insert sl_tail (N i))"
  shows "sl_heap s p \<noteq> None" "sl_node_at p s = Inr (nd s p)" "i < MAXLEVEL \<Longrightarrow> i \<le> sn_toplevel (nd s p)"
proof -
  show h: "sl_heap s p \<noteq> None" using mem_okD(1,5) [OF assms(1)] assms(2) by (auto simp: ends_ok_def linked_node_def)
  then show "sl_node_at p s = Inr (nd s p)" by (auto simp: sl_node_at_def nd_def)
  show "i \<le> sn_toplevel (nd s p)" if "i < MAXLEVEL"
    using mem_okD(1,5) [OF assms(1)] assms(2) that by (auto simp: ends_ok_def linked_node_def)
qed

lemma tail_key: "mem_ok s N m \<Longrightarrow> sn_key (nd s (Suc 0)) = MAXKEY"
  using mem_okD(1) by (auto simp: ends_ok_def)

lemma key_le_MAXKEY [simp]: "k \<le> MAXKEY" "\<not> MAXKEY < k"
  by (simp_all add: MAXKEY_def UINT64_MAX_minus_1)

subsection \<open>Steps of other threads\<close>

definition evolves :: "IndexSkiplist \<Rightarrow> (nat \<Rightarrow> nat set) \<Rightarrow> IndexSkiplist \<Rightarrow> (nat \<Rightarrow> nat set) \<Rightarrow> nat set \<Rightarrow> item_ptr set \<Rightarrow> bool" where
  "evolves s N s' N' Q I \<longleftrightarrow>
     (\<forall>j. N j \<subseteq> N' j \<and> N' j \<subseteq> N j \<union> Q) \<and>
     (\<forall>p\<in>insert 0 (insert sl_tail (N 0)). sn_key (nd s' p) = sn_key (nd s p)) \<and>
     (\<forall>p. sl_heap s p \<noteq> None \<and> p \<notin> Q \<longrightarrow> sl_heap s' p \<noteq> None \<and> sn_key (nd s' p) = sn_key (nd s p) \<and>
        sn_toplevel (nd s' p) = sn_toplevel (nd s p) \<and> (\<forall>j. p \<notin> insert 0 (N j) \<longrightarrow> sn_next (nd s' p) j = sn_next (nd s p) j) \<and>
        (p \<notin> insert sl_tail (N 0) \<longrightarrow> sn_items (nd s' p) = sn_items (nd s p))) \<and>
     (\<forall>i. i \<notin> I \<longrightarrow> sl_item_next s' i = sl_item_next s i)"

lemma evolves_before:
  assumes "mem_ok s N m" "evolves s N s' N' Q I" "p \<in> insert 0 (N j)"
  shows "before s' p k = before s p k"
  using assms linked_0 [OF assms(1), of p j] unfolding evolves_def before_def by auto

lemma evolves_key:
  assumes "mem_ok s N m" "evolves s N s' N' Q I" "p \<in> insert sl_tail (N j)"
  shows "sn_key (nd s' p) = sn_key (nd s p)" "p \<in> insert sl_tail (N' j)"
  using assms linked_0 [OF assms(1), of p j] unfolding evolves_def by auto

lemma evolves_pred_succ:
  assumes "mem_ok s N m" "evolves s N s' N' Q I" "pred_succ ex s N fr j"
  shows "pred_succ ex s' N' fr j"
proof -
  have "N j \<subseteq> N' j" using assms(2) unfolding evolves_def by blast
  then show ?thesis
    using assms(3) evolves_before [OF assms(1,2), of "fr_preds fr j" j] evolves_key [OF assms(1,2), of "fr_succs fr j" j]
    unfolding pred_succ_def by auto
qed

lemma evolves_new_node:
  assumes "evolves s N s' N' Q I" "new_node s N fr c" "set_option (fr_new fr) \<inter> Q = {}"
  shows "new_node s' N' fr c"
proof -
  obtain p where p: "fr_new fr = Some p" "2 \<le> p" "sl_heap s p \<noteq> None" "sn_key (nd s p) = fr_key fr"
     "sn_toplevel (nd s p) = fr_level fr" "fr_level fr < MAXLEVEL" "\<forall>j. p \<in> N j \<longleftrightarrow> j < c"
     "c = 0 \<longrightarrow> sn_items (nd s p) = Some (fr_item fr)" "0 < c \<longrightarrow> (\<forall>j. c \<le> j \<and> j \<le> fr_level fr \<longrightarrow> sn_next (nd s p) j \<noteq> None)"
    using assms(2) unfolding new_node_def by blast
  have q: "p \<notin> Q" using assms(3) p(1) by auto
  then have "\<forall>j. p \<in> N' j \<longleftrightarrow> p \<in> N j" using assms(1) unfolding evolves_def by blast
  moreover have "p \<notin> insert sl_tail (N 0)" if "c = 0" using p(2,7) that by auto
  moreover have "sn_next (nd s' p) j = sn_next (nd s p) j" if "c \<le> j" for j
    using assms(1) p(2,3,7) q that unfolding evolves_def by auto
  ultimately show ?thesis using assms(1) p q unfolding evolves_def new_node_def by auto
qed

lemma evolves_new_next:
  assumes "evolves s N s' N' Q I" "new_node s N fr c" "set_option (fr_new fr) \<inter> Q = {}" "c \<le> j"
  shows "sn_next (nd s' (the (fr_new fr))) j = sn_next (nd s (the (fr_new fr))) j"
  using assms unfolding evolves_def new_node_def by auto

lemma evolves_spare:
  assumes "evolves s N s' N' Q I" "spare_node s N fr" "set_option (fr_new fr) \<inter> Q = {}" "fr_item fr \<notin> I"
  shows "spare_node s' N' fr"
  using assms evolves_new_node [OF assms(1) _ assms(3), of 0] unfolding spare_node_def evolves_def by auto

lemma evolves_goal:
  assumes mem: "mem_ok s N m" and ev: "evolves s N s' N' Q I" and g: "goal_ok ex g i s N fr"
    and Q: "own_node (fr, Walk g i x) \<inter> Q = {}" "own_item (fr, Walk g i x) \<inter> I = {}"
  shows "goal_ok ex g i s' N' fr"
  using g Q evolves_pred_succ [OF mem ev] evolves_new_node [OF ev] evolves_spare [OF ev]
  by (cases g) (auto simp: own_node_def own_item_def)

lemma evolves_place:
  assumes mem: "mem_ok s N m" and ev: "evolves s N s' N' Q I" and pl: "place_ok ex s N fr pc"
    and Q: "own_node (fr, pc) \<inter> Q = {}" and I: "own_item (fr, pc) \<inter> I = {}"
  shows "place_ok ex s' N' fr pc"
proof -
  note ps = evolves_pred_succ [OF mem ev] and nn = evolves_new_node [OF ev] and nx = evolves_new_next [OF ev]
    and sp = evolves_spare [OF ev]
  have N: "N j \<subseteq> N' j" for j using ev unfolding evolves_def by blast
  have key: "sn_key (nd s' q) = sn_key (nd s q)" if "q \<in> insert sl_tail (N j)" for q j using evolves_key [OF mem ev that] by blast
  have item: "sl_item_next s' i = sl_item_next s i" if "i \<notin> I" for i using ev that unfolding evolves_def by blast
  show ?thesis
  proof (cases pc)
    case (Walk g i x)
    then show ?thesis
      using pl N evolves_goal [OF mem ev, of ex g i fr x] Q I evolves_before [OF mem ev, of x i "fr_key fr"] by auto
  next
    case (Append q)
    then show ?thesis using pl Q N [of 0] key [of q 0] nn [of fr 0] by (auto simp: own_node_def)
  next
    case (Swap q x)
    then show ?thesis using pl Q I N [of 0] key [of q 0] nn [of fr 0] item by (auto simp: own_node_def own_item_def)
  next
    case Make
    then have "fr_succs fr 0 \<in> insert sl_tail (N 0)" using pl by (auto simp: pred_succ_def MAXLEVEL_def)
    then show ?thesis using pl Make Q I ps sp key [of "fr_succs fr 0" 0] by (auto simp: own_node_def own_item_def)
  next
    case Link
    then have "fr_succs fr 0 \<in> insert sl_tail (N 0)" using pl by (auto simp: pred_succ_def MAXLEVEL_def)
    then show ?thesis using pl Link Q I ps nn [of fr 0] nx [of fr 0] item key [of "fr_succs fr 0" 0] by (auto simp: own_node_def own_item_def)
  next
    case (Raise c)
    then show ?thesis using pl Q ps nn [of fr c] by (auto simp: own_node_def)
  next
    case (Splice c)
    then have "fr_succs fr c \<in> insert sl_tail (N c)" using pl by (auto simp: pred_succ_def)
    then show ?thesis using pl Splice Q ps nn [of fr c] nx [of fr c c] key [of "fr_succs fr c" c] by (auto simp: own_node_def)
  next
    case (Read_item q)
    then show ?thesis using pl N [of 0] key [of q 0] by auto
  next
    case (Read_cur q x)
    then show ?thesis using pl N [of 0] key [of q 0] by auto
  qed (use pl N in auto)
qed

end
