(* ===== verification/Skiplist_mem.thy ===== *)
theory Skiplist_mem
  imports Skiplist_inv
begin

text \<open>The changes of the shared memory: none that matters to the lists, a new node on a level, a new item of a node.\<close>

lemma chain_cong: "\<forall>i\<in>set is. nx' i = nx i \<Longrightarrow> chain nx' p is = chain nx p is"
  by (induction "is" arbitrary: p) auto

lemma next_ok_cong:
  assumes "next_ok s A p r" "\<forall>q\<in>insert 0 (insert sl_tail A). sn_key (nd s' q) = sn_key (nd s q)" "p \<in> insert 0 A"
  shows "next_ok s' A p r"
proof -
  have "before s' p k = before s p k" for k using assms(2,3) by (auto simp: before_def)
  then show ?thesis using assms(1,2) unfolding next_ok_def by auto
qed

lemma item_slot_cong:
  assumes "item_slot s A m" "\<forall>p\<in>insert sl_tail A. sn_key (nd s' p) = sn_key (nd s p) \<and> sn_items (nd s' p) = sn_items (nd s p)"
    and "\<forall>i\<in>items_of m. sl_item_next s' i = sl_item_next s i"
  shows "item_slot s' A m"
proof -
  have "slot_of (sl_item_next s') v (m k) = slot_of (sl_item_next s) v (m k)" for v k
  proof (cases "m k")
    case (Some "is")
    then have "\<forall>j\<in>set is. sl_item_next s' j = sl_item_next s j" using assms(3) by (auto simp: items_of_iff)
    from chain_cong [OF this] show ?thesis using Some by (cases v) (simp_all add: slot_of_def)
  qed (simp add: slot_of_def split: option.splits)
  then show ?thesis using assms(1,2) unfolding item_slot_def by simp
qed

lemma mem_ok_local:
  assumes mem: "mem_ok s N m" and hd: "sl_head s' = sl_head s" "sl_toplevel s' < MAXLEVEL"
    and nodes: "\<forall>p\<in>insert 0 (insert sl_tail (N 0)). sl_heap s' p \<noteq> None \<and> sn_key (nd s' p) = sn_key (nd s p) \<and>
      sn_toplevel (nd s' p) = sn_toplevel (nd s p) \<and> sn_items (nd s' p) = sn_items (nd s p)"
    and nxt: "\<forall>i<MAXLEVEL. \<forall>p\<in>insert 0 (N i). sn_next (nd s' p) i = sn_next (nd s p) i"
    and tl: "sn_next (nd s' 1) 0 = sn_next (nd s 1) 0"
    and fresh: "\<forall>p. sl_heap s' p \<noteq> None \<longrightarrow> p < sl_fresh s'"
    and items: "\<forall>i\<in>items_of m. sl_item_next s' i = sl_item_next s i"
    and cur: "\<forall>t p. cur_node_per_thd s' t = Some p \<longrightarrow> p \<in> insert sl_tail (N 0)"
  shows "mem_ok s' N m"
proof -
  note d = mem_okD [OF mem]
  have n0: "p \<in> N i \<Longrightarrow> p \<in> N 0" for p i by (rule linked_0 [OF mem])
  have "ends_ok s'" using d(1) hd nodes tl by (auto simp: ends_ok_def)
  moreover have "linked_node s' i p" if "p \<in> N i" for i p using d(5) [OF that] nodes n0 [OF that] by (auto simp: linked_node_def)
  moreover have "inj_on (\<lambda>p. sn_key (nd s' p)) (N 0)" using d(6) nodes by (simp add: inj_on_def)
  moreover have "next_ok s' (N i) p (sn_next (nd s' p) i)" if "i < MAXLEVEL" "p \<in> insert 0 (N i)" for i p
  proof -
    have "\<forall>q\<in>insert 0 (insert sl_tail (N i)). sn_key (nd s' q) = sn_key (nd s q)" using nodes n0 by blast
    moreover have "sn_next (nd s' p) i = sn_next (nd s p) i" using nxt that by blast
    ultimately show ?thesis using next_ok_cong [OF d(7) [OF that] _ that(2)] by metis
  qed
  moreover have "item_slot s' (N 0) m" using item_slot_cong [OF d(9), of s'] nodes items by blast
  ultimately show ?thesis using d(2-4) hd(2) fresh cur unfolding mem_ok_def by blast
qed

lemma nd_put [simp]: "nd (sl_put p n s) q = (if q = p then n else nd s q)"
  by (simp add: nd_def sl_put_def)

lemma sl_put_sel [simp]:
  "sl_heap (sl_put p n s) q = (if q = p then Some n else sl_heap s q)" "sl_fresh (sl_put p n s) = sl_fresh s"
  "sl_head (sl_put p n s) = sl_head s" "sl_toplevel (sl_put p n s) = sl_toplevel s" "sl_item_next (sl_put p n s) = sl_item_next s"
  "cur_node_per_thd (sl_put p n s) = cur_node_per_thd s" "cur_item_per_thd (sl_put p n s) = cur_item_per_thd s"
  by (simp_all add: sl_put_def)

text \<open>A node that is put between two neighbours of a level.\<close>

definition link_at :: "IndexSkiplist \<Rightarrow> (nat \<Rightarrow> nat set) \<Rightarrow> idx_key_t index_spec \<Rightarrow> nat \<Rightarrow> idx_key_t \<Rightarrow> nat \<Rightarrow> nat \<Rightarrow> nat \<Rightarrow> bool" where
  "link_at s N m p k pr q c \<longleftrightarrow> mem_ok s N m \<and> c < MAXLEVEL \<and>
     2 \<le> p \<and> sl_heap s p \<noteq> None \<and> c \<le> sn_toplevel (nd s p) \<and> sn_toplevel (nd s p) < MAXLEVEL \<and>
     sn_key (nd s p) = k \<and> sn_items (nd s p) \<noteq> None \<and> p \<notin> N c \<and> (0 < c \<longrightarrow> p \<in> N (c - 1)) \<and>
     pr \<in> insert 0 (N c) \<and> before s pr k \<and> sn_next (nd s pr) c = Some q \<and>
     q \<in> insert sl_tail (N c) \<and> k < sn_key (nd s q) \<and> sn_next (nd s p) c = Some q"

definition linked_in :: "nat \<Rightarrow> nat \<Rightarrow> nat \<Rightarrow> IndexSkiplist \<Rightarrow> IndexSkiplist" where
  "linked_in p pr c s = sl_put pr ((nd s pr)\<lparr>sn_next := (sn_next (nd s pr))(c := Some p)\<rparr>) s"

lemma link_atD:
  assumes "link_at s N m p k pr q c"
  shows "mem_ok s N m" "c < MAXLEVEL"
    "2 \<le> p" "sl_heap s p \<noteq> None" "c \<le> sn_toplevel (nd s p)" "sn_toplevel (nd s p) < MAXLEVEL"
    "sn_key (nd s p) = k" "sn_items (nd s p) \<noteq> None" "p \<notin> N c" "0 < c \<Longrightarrow> p \<in> N (c - 1)"
    "pr \<in> insert 0 (N c)" "before s pr k" "sn_next (nd s pr) c = Some q"
    "q \<in> insert sl_tail (N c)" "k < sn_key (nd s q)" "sn_next (nd s p) c = Some q"
  using assms unfolding link_at_def by blast+

lemma linked_in_sel [simp]:
  "sn_key (nd (linked_in p pr c s) a) = sn_key (nd s a)" "sn_items (nd (linked_in p pr c s) a) = sn_items (nd s a)"
  "sn_toplevel (nd (linked_in p pr c s) a) = sn_toplevel (nd s a)"
  "sn_next (nd (linked_in p pr c s) a) i = (if a = pr \<and> i = c then Some p else sn_next (nd s a) i)"
  "sl_heap (linked_in p pr c s) a = None \<longleftrightarrow> a \<noteq> pr \<and> sl_heap s a = None" "sl_fresh (linked_in p pr c s) = sl_fresh s"
  "sl_head (linked_in p pr c s) = sl_head s" "sl_toplevel (linked_in p pr c s) = sl_toplevel s"
  "sl_item_next (linked_in p pr c s) = sl_item_next s" "cur_node_per_thd (linked_in p pr c s) = cur_node_per_thd s"
  "cur_item_per_thd (linked_in p pr c s) = cur_item_per_thd s"
  by (simp_all add: linked_in_def)

lemma before_linked_in [simp]: "before (linked_in p pr c s) a x = before s a x"
  by (simp add: before_def)

lemma link_next:
  assumes "link_at s N m p k pr q c" "b \<in> N c" "before s pr (sn_key (nd s b))"
  shows "sn_key (nd s q) \<le> sn_key (nd s b)" "k < sn_key (nd s b)"
proof -
  note l = link_atD [OF assms(1)]
  show "sn_key (nd s q) \<le> sn_key (nd s b)" using mem_okD(7) [OF l(1,2,11)] l(13) assms(2,3) unfolding next_ok_def by auto
  then show "k < sn_key (nd s b)" using l(15) by simp
qed

lemma link_keys_differ:
  assumes "link_at s N m p k pr q c" "b \<in> N c"
  shows "sn_key (nd s b) \<noteq> k"
  using link_next(2) [OF assms] link_atD(12) [OF assms(1)] by (auto simp: before_def)

lemma link_level:
  assumes l: "link_at s N m p k pr q c" and a: "a \<in> insert 0 (insert p (N c))"
  shows "next_ok (linked_in p pr c s) (insert p (N c)) a (sn_next (nd (linked_in p pr c s) a) c)"
proof -
  note d = link_atD [OF l] and nx = link_next [OF l]
  have pp: "pr \<noteq> p" using d(3,9,11) by auto
  consider "a = pr" | "a = p" | "a \<noteq> pr" "a \<noteq> p" by blast
  then show ?thesis
  proof cases
    case 1
    have "k \<le> sn_key (nd s b)" if "b \<in> insert p (N c)" "before s pr (sn_key (nd s b))" for b
      using that nx(2) d(7) by (auto intro: less_imp_le)
    then show ?thesis using 1 d(7,12) unfolding next_ok_def by auto
  next
    case 2
    have p: "before s p x = (k < x)" for x using d(3,7) by (auto simp: before_def)
    have "sn_key (nd s q) \<le> sn_key (nd s b)" if "b \<in> insert p (N c)" "k < sn_key (nd s b)" for b
    proof -
      have "b \<in> N c" using that d(7) by auto
      moreover have "before s pr (sn_key (nd s b))" using d(12) that(2) by (auto simp: before_def)
      ultimately show ?thesis by (rule nx(1))
    qed
    then show ?thesis using 2 d(14-16) pp unfolding next_ok_def by (auto simp: p)
  next
    case 3
    then have a': "a \<in> insert 0 (N c)" using a by auto
    obtain r where r: "r \<in> insert sl_tail (N c)" "sn_next (nd s a) c = Some r" "before s a (sn_key (nd s r))"
      "\<And>b. b \<in> N c \<Longrightarrow> before s a (sn_key (nd s b)) \<Longrightarrow> sn_key (nd s r) \<le> sn_key (nd s b)"
      using mem_okD(7) [OF d(1,2) a'] unfolding next_ok_def by blast
    have "sn_key (nd s r) \<le> k" if ak: "before s a k"
    proof -
      have "pr \<noteq> 0 \<and> before s a (sn_key (nd s pr))"
      proof (cases "a = 0")
        case True
        then show ?thesis using 3(1) by (simp add: before_def)
      next
        case False
        then have aN: "a \<in> N c" "sn_key (nd s a) < k" using a' ak by (auto simp: before_def)
        then have n: "\<not> before s pr (sn_key (nd s a))" using nx(2) [OF aN(1)] by auto
        then have "pr \<noteq> 0" by (auto simp: before_def)
        then have "pr \<in> N c" using d(11) by auto
        have "pr \<in> N 0" "a \<in> N 0" using linked_0 [OF d(1)] \<open>pr \<in> N c\<close> aN(1) by auto
        then have "sn_key (nd s pr) \<noteq> sn_key (nd s a)" using mem_okD(6) [OF d(1)] 3(1) by (auto simp: inj_on_def)
        moreover have "sn_key (nd s a) \<le> sn_key (nd s pr)" using n by (simp add: before_def not_less)
        ultimately have "sn_key (nd s a) < sn_key (nd s pr)" by (metis le_neq_trans)
        then show ?thesis using \<open>pr \<noteq> 0\<close> by (simp add: before_def)
      qed
      then have prc: "pr \<in> N c" "before s a (sn_key (nd s pr))" "sn_key (nd s pr) < k" using d(11,12) by (auto simp: before_def)
      have "sn_key (nd s r) \<le> sn_key (nd s pr)" by (rule r(4) [OF prc(1,2)])
      also have "\<dots> < k" by (rule prc(3))
      finally show ?thesis by simp
    qed
    then have "\<forall>b\<in>insert p (N c). before s a (sn_key (nd s b)) \<longrightarrow> sn_key (nd s r) \<le> sn_key (nd s b)"
      using r(4) d(7) by auto
    then show ?thesis using 3(1) r(1-3) unfolding next_ok_def by auto
  qed
qed

lemma mem_ok_levels:
  assumes l: "link_at s N m p k pr q c" and sl: "item_slot (linked_in p pr c s) ((N(c := insert p (N c))) 0) m'"
  shows "mem_ok (linked_in p pr c s) (N(c := insert p (N c))) m'"
proof -
  let ?s = "linked_in p pr c s" and ?N = "N(c := insert p (N c))"
  note d = link_atD [OF l]
  note e = mem_okD [OF d(1)]
  have key: "k < MAXKEY" using d(15) key_le_MAXKEY(1) by (rule less_le_trans)
  have "pr \<noteq> sl_tail" using d(11) e(5) [of pr c] by (auto simp: linked_node_def)
  then have "ends_ok ?s" using e(1) by (auto simp: ends_ok_def)
  moreover have "finite (?N 0)" using e(3) by simp
  moreover have "?N (Suc i) \<subseteq> ?N i" for i
    using e(4) [of i] d(10) by auto
  moreover have "linked_node ?s i x" if "x \<in> ?N i" for i x
  proof (cases "x \<in> N i")
    case True
    then show ?thesis using e(5) [OF True] by (auto simp: linked_node_def)
  next
    case False
    then have "x = p" "i = c" using that by (auto split: if_splits)
    then show ?thesis using d(3-8) key by (auto simp: linked_node_def)
  qed
  moreover have "inj_on (\<lambda>x. sn_key (nd ?s x)) (?N 0)"
  proof (cases "c = 0")
    case True
    moreover have "sn_key (nd s p) \<noteq> sn_key (nd s x)" if "x \<in> N c" for x using link_keys_differ [OF l that] d(7) by simp
    ultimately show ?thesis using e(6) by (auto simp: inj_on_def) metis+
  qed (use e(6) in \<open>auto simp: inj_on_def\<close>)
  moreover have "next_ok ?s (?N i) x (sn_next (nd ?s x) i)" if "i < MAXLEVEL" "x \<in> insert 0 (?N i)" for i x
  proof (cases "i = c")
    case True
    then show ?thesis using link_level [OF l, of x] that(2) by simp
  next
    case False
    then have "next_ok s (N i) x (sn_next (nd s x) i)" using e(7) [of i x] that by simp
    from next_ok_cong [OF this, of ?s] show ?thesis using False that(2) by auto
  qed
  moreover have "x < sl_fresh ?s" if "sl_heap ?s x \<noteq> None" for x
    using e(8) [of x] live_node(1) [OF d(1), of pr c] d(11) that by auto
  moreover have "y \<in> insert sl_tail (?N 0)" if "cur_node_per_thd ?s t = Some y" for t y using e(10) [of t y] that by auto
  ultimately show ?thesis using e(2) sl unfolding mem_ok_def by simp
qed

lemma mem_ok_link_up:
  assumes "link_at s N m p k pr q c" "0 < c"
  shows "mem_ok (linked_in p pr c s) (N(c := insert p (N c))) m"
proof (rule mem_ok_levels [OF assms(1)])
  show "item_slot (linked_in p pr c s) ((N(c := insert p (N c))) 0) m"
    using item_slot_cong [OF mem_okD(9) [OF link_atD(1) [OF assms(1)]], of "linked_in p pr c s"] assms(2) by simp
qed

lemma mem_ok_link_new:
  assumes l: "link_at s N m p k pr q 0" and i: "sn_items (nd s p) = Some i" "sl_item_next s i = None"
  shows "mem_ok (linked_in p pr 0 s) (N(0 := insert p (N 0))) (push_item k i m)" "m k = None"
proof -
  let ?s = "linked_in p pr 0 s"
  note d = link_atD [OF l]
  note sl = mem_okD(9) [OF d(1)]
  have ne: "sn_key (nd s x) \<noteq> k" if "x \<in> insert sl_tail (N 0)" for x
  proof (cases "x = sl_tail")
    case True
    then have "sn_key (nd s x) = MAXKEY" using tail_key [OF d(1)] by simp
    moreover have "k < MAXKEY" using d(15) key_le_MAXKEY(1) by (rule less_le_trans)
    ultimately show ?thesis by simp
  next
    case False
    then have "x \<in> N 0" using that by simp
    then show ?thesis by (rule link_keys_differ [OF l])
  qed
  show mk: "m k = None"
  proof (rule ccontr)
    assume "m k \<noteq> None"
    then have "k \<in> dom m" by auto
    then obtain x where "x \<in> insert sl_tail (N 0)" "sn_key (nd s x) = k" using sl unfolding item_slot_def by blast
    then show False using ne by blast
  qed
  have old: "push_item k i m (sn_key (nd s x)) = m (sn_key (nd s x))" if "x \<in> insert sl_tail (N 0)" for x
    using ne [OF that] by (simp add: push_item_apply)
  have "item_slot ?s (insert p (N 0)) (push_item k i m)"
    unfolding item_slot_def linked_in_sel
  proof (intro conjI ballI)
    fix x assume x: "x \<in> insert sl_tail (insert p (N 0))"
    show "slot_of (sl_item_next s) (sn_items (nd s x)) (push_item k i m (sn_key (nd s x)))"
    proof (cases "x = p")
      case True
      then show ?thesis using i d(7) mk by (simp add: push_item_apply slot_of_def)
    next
      case False
      then have x': "x \<in> insert sl_tail (N 0)" using x by auto
      show ?thesis unfolding old [OF x'] using sl x' unfolding item_slot_def by blast
    qed
  next
    fix k' assume "k' \<in> dom (push_item k i m)"
    then have "k' = k \<or> k' \<in> dom m" by (auto simp: push_item_apply split: if_splits)
    then show "\<exists>x\<in>insert sl_tail (insert p (N 0)). sn_key (nd s x) = k'" using sl d(7) unfolding item_slot_def by blast
  qed
  then show "mem_ok ?s (N(0 := insert p (N 0))) (push_item k i m)" by (intro mem_ok_levels [OF l]) simp
qed

text \<open>A new item in front of the others of a node.\<close>

lemma mem_ok_push:
  assumes mem: "mem_ok s N m" and q: "q \<in> insert sl_tail (N 0)" and k: "sn_key (nd s q) = k"
    and i: "sl_item_next s i = sn_items (nd s q)" "i \<notin> items_of m"
  shows "mem_ok (sl_put q ((nd s q)\<lparr>sn_items := Some i\<rparr>) s) N (push_item k i m)"
proof -
  let ?s = "sl_put q ((nd s q)\<lparr>sn_items := Some i\<rparr>) s"
  note d = mem_okD [OF mem]
  have q': "q \<noteq> 0" using q d(5) [of q 0] by (auto simp: linked_node_def)
  have uni: "x = q" if "x \<in> insert sl_tail (N 0)" "sn_key (nd s x) = k" for x
  proof -
    have lt: "sn_key (nd s y) < MAXKEY" if "y \<in> N 0" for y using d(5) [OF that] by (simp add: linked_node_def)
    have tk: "sn_key (nd s sl_tail) = MAXKEY" using tail_key [OF mem] by simp
    show ?thesis
    proof (cases "x = sl_tail")
      case True
      then have "q \<notin> N 0" using that(2) k tk lt [of q] by auto
      then show ?thesis using True q by simp
    next
      case False
      then have x: "x \<in> N 0" using that(1) by simp
      then have "q \<noteq> sl_tail" using that(2) k tk lt [OF x] by auto
      then have "q \<in> N 0" using q by simp
      with x that(2) k d(6) show ?thesis by (simp add: inj_on_def)
    qed
  qed
  have "item_slot ?s (N 0) (push_item k i m)"
    unfolding item_slot_def
  proof (intro conjI ballI)
    fix x assume x: "x \<in> insert sl_tail (N 0)"
    have sl: "slot_of (sl_item_next s) (sn_items (nd s x)) (m (sn_key (nd s x)))" using d(9) x unfolding item_slot_def by blast
    show "slot_of (sl_item_next ?s) (sn_items (nd ?s x)) (push_item k i m (sn_key (nd ?s x)))"
    proof (cases "x = q")
      case True
      then show ?thesis using sl i(1) k by (auto simp: push_item_apply slot_of_def split: option.splits)
    next
      case False
      then have "push_item k i m (sn_key (nd s x)) = m (sn_key (nd s x))" using uni [OF x] by (auto simp: push_item_apply)
      then show ?thesis using sl False by simp
    qed
  next
    fix k' assume "k' \<in> dom (push_item k i m)"
    then have "k' = k \<or> k' \<in> dom m" by (auto simp: push_item_apply split: if_splits)
    then obtain x where "x \<in> insert sl_tail (N 0)" "sn_key (nd s x) = k'" using d(9) k q unfolding item_slot_def by blast
    then show "\<exists>x\<in>insert sl_tail (N 0). sn_key (nd ?s x) = k'" by (intro bexI [of _ x]) auto
  qed
  moreover have "linked_node ?s i x" if "x \<in> N i" for i x using d(5) [OF that] by (auto simp: linked_node_def)
  moreover have "next_ok ?s (N i) x (sn_next (nd ?s x) i)" if "i < MAXLEVEL" "x \<in> insert 0 (N i)" for i x
  proof -
    have "sn_next (nd ?s x) = sn_next (nd s x)" by simp
    moreover have "\<forall>y\<in>insert 0 (insert sl_tail (N i)). sn_key (nd ?s y) = sn_key (nd s y)" by simp
    ultimately show ?thesis using next_ok_cong [OF d(7) [OF that] _ that(2), of ?s] by metis
  qed
  moreover have "ends_ok ?s" using d(1) by (auto simp: ends_ok_def)
  moreover have key: "sn_key (nd ?s x) = sn_key (nd s x)" for x by simp
  then have "inj_on (\<lambda>x. sn_key (nd ?s x)) (N 0)" using d(6) by (simp only: key)
  moreover have "\<forall>x. sl_heap ?s x \<noteq> None \<longrightarrow> x < sl_fresh ?s" using d(8) live_node(1) [OF mem, of q 0] q by auto
  moreover have "sl_toplevel ?s < MAXLEVEL" "finite (N 0)" "\<forall>i. N (Suc i) \<subseteq> N i" using d(2-4) by simp_all
  moreover have "\<forall>t p. cur_node_per_thd ?s t = Some p \<longrightarrow> p \<in> insert sl_tail (N 0)" using d(10) by (simp only: sl_put_sel) blast
  ultimately show ?thesis unfolding mem_ok_def by blast
qed

end
