(* ===== verification/Skiplist_step.thy ===== *)
theory Skiplist_step
  imports Skiplist_mem
begin

text \<open>Every step of a thread: it does not fail, keeps what the thread and the others rely on, and changes the abstract
  index only when it links the new node at the bottom or puts the item in front of those of its key.\<close>

definition commits :: "sl_pc \<Rightarrow> sl_pc \<Rightarrow> bool" where
  "commits pc pc' \<longleftrightarrow> retrying pc \<and> \<not> retrying pc'"

definition after_step :: "sl_frame \<Rightarrow> sl_pc \<Rightarrow> sl_pc \<Rightarrow> idx_key_t index_spec \<Rightarrow> idx_key_t index_spec" where
  "after_step fr pc pc' m = (if commits pc pc' then push_item (fr_key fr) (fr_item fr) m else m)"

definition step_ok :: "bool \<Rightarrow> IndexSkiplist \<Rightarrow> (nat \<Rightarrow> nat set) \<Rightarrow> idx_key_t index_spec \<Rightarrow> sl_frame \<Rightarrow> sl_pc \<Rightarrow>
    sl_frame \<Rightarrow> sl_pc \<Rightarrow> IndexSkiplist \<Rightarrow> bool" where
  "step_ok ex s N m fr pc fr' pc' s' \<longleftrightarrow> (\<exists>N'. mem_ok s' N' (after_step fr pc pc' m) \<and>
     evolves s N s' N' (own_node (fr, pc)) (own_item (fr, pc)) \<and> place_ok ex s' N' fr' pc' \<and>
     own_item (fr', pc') \<subseteq> own_item (fr, pc) \<and> own_node (fr', pc') \<subseteq> insert (sl_fresh s) (own_node (fr, pc)))"

lemma evolves_refl [simp]: "evolves s N s N Q I"
  by (simp add: evolves_def)

lemma evolves_same:
  assumes "sl_heap s' = sl_heap s" "\<forall>i. i \<notin> I \<longrightarrow> sl_item_next s' i = sl_item_next s i"
  shows "evolves s N s' N Q I"
  using assms by (auto simp: evolves_def nd_def)

text \<open>Steps that change nothing but what a thread has for itself.\<close>

lemma mem_ok_same:
  assumes "mem_ok s N m" "sl_heap s' = sl_heap s" "sl_head s' = sl_head s" "sl_fresh s' = sl_fresh s"
    "sl_toplevel s' < MAXLEVEL" "\<forall>i\<in>items_of m. sl_item_next s' i = sl_item_next s i"
    "\<forall>t p. cur_node_per_thd s' t = Some p \<longrightarrow> p \<in> insert sl_tail (N 0)"
  shows "mem_ok s' N m"
proof (rule mem_ok_local [OF assms(1,3,5)])
  have nd: "nd s' = nd s" using assms(2) by (simp add: nd_def fun_eq_iff)
  show "\<forall>p\<in>insert 0 (insert sl_tail (N 0)). sl_heap s' p \<noteq> None \<and> sn_key (nd s' p) = sn_key (nd s p) \<and>
      sn_toplevel (nd s' p) = sn_toplevel (nd s p) \<and> sn_items (nd s' p) = sn_items (nd s p)"
    unfolding nd assms(2) using live_node(1) [OF assms(1)] by blast
  show "\<forall>i<MAXLEVEL. \<forall>p\<in>insert 0 (N i). sn_next (nd s' p) i = sn_next (nd s p) i" by (simp add: nd)
  show "\<forall>p. sl_heap s' p \<noteq> None \<longrightarrow> p < sl_fresh s'" using mem_okD(8) [OF assms(1)] assms(2,4) by simp
  show "sn_next (nd s' 1) 0 = sn_next (nd s 1) 0" by (simp add: nd)
qed (use assms in auto)

subsection \<open>Searching\<close>

lemma walk_next:
  assumes "mem_ok s N m" "i < MAXLEVEL" "x \<in> insert 0 (N i)"
  obtains q where "sl_succ x i s = Inr q" "sn_next (nd s x) i = Some q" "q \<in> insert sl_tail (N i)" "sl_node_at q s = Inr (nd s q)"
    "\<And>a. a \<in> N i \<Longrightarrow> before s x (sn_key (nd s a)) \<Longrightarrow> sn_key (nd s q) \<le> sn_key (nd s a)"
proof -
  obtain q where q: "q \<in> insert sl_tail (N i)" "sn_next (nd s x) i = Some q"
    "\<And>a. a \<in> N i \<Longrightarrow> before s x (sn_key (nd s a)) \<Longrightarrow> sn_key (nd s q) \<le> sn_key (nd s a)"
    using mem_okD(7) [OF assms] unfolding next_ok_def by blast
  have "x \<in> insert 0 (insert sl_tail (N i))" "q \<in> insert 0 (insert sl_tail (N i))" using assms(3) q(1) by auto
  note lx = live_node [OF assms(1) this(1)] and lq = live_node [OF assms(1) this(2)]
  have "sl_succ x i s = Inr q" using lx(2) lx(3) [OF assms(2)] q(2) by (simp add: sl_succ_def sl_next_def)
  then show thesis using that q lq(2) by blast
qed

text \<open>At the end of a search the key is there exactly when the node found has it; the largest key belongs to the tail.\<close>

lemma search_end:
  assumes mem: "mem_ok s N m" and x: "x \<in> insert 0 (N 0)" "before s x k" and q: "sn_next (nd s x) 0 = Some q" "k \<le> sn_key (nd s q)"
  shows "sn_key (nd s q) = k \<longleftrightarrow> k \<in> dom m \<or> k = MAXKEY"
proof -
  have M: "0 < MAXLEVEL" by (simp add: MAXLEVEL_def)
  obtain q' where "sn_next (nd s x) 0 = Some q'" and qN: "q' \<in> insert sl_tail (N 0)"
    "\<And>a. a \<in> N 0 \<Longrightarrow> before s x (sn_key (nd s a)) \<Longrightarrow> sn_key (nd s q') \<le> sn_key (nd s a)"
    using walk_next [OF mem M x(1)] by metis
  then have [simp]: "q' = q" using q(1) by simp
  note sl = mem_okD(9) [OF mem]
  show ?thesis
  proof
    assume k: "sn_key (nd s q) = k"
    show "k \<in> dom m \<or> k = MAXKEY"
    proof (cases "q = sl_tail")
      case True
      then show ?thesis using tail_key [OF mem] k by simp
    next
      case False
      then have qn: "q \<in> N 0" using qN(1) by simp
      then have "sn_items (nd s q) \<noteq> None" using mem_okD(5) [OF mem] by (simp add: linked_node_def)
      moreover have "slot_of (sl_item_next s) (sn_items (nd s q)) (m k)" using sl qn k unfolding item_slot_def by auto
      ultimately show ?thesis by (auto simp: slot_of_def)
    qed
  next
    assume k: "k \<in> dom m \<or> k = MAXKEY"
    have "sn_key (nd s q) \<le> k"
    proof (cases "k = MAXKEY")
      case False
      then obtain p where p: "p \<in> insert sl_tail (N 0)" "sn_key (nd s p) = k" using k sl unfolding item_slot_def by blast
      then have "p \<in> N 0" using False tail_key [OF mem] by auto
      then show ?thesis using qN(2) [of p] p(2) x(2) by simp
    qed simp
    then show "sn_key (nd s q) = k" using q(2) by simp
  qed
qed

lemma goal_ok_down:
  assumes "goal_ok ex g i s N fr" "pred_succ ex s N (fr\<lparr>fr_preds := (fr_preds fr)(i := x), fr_succs := (fr_succs fr)(i := q)\<rparr>) i" "fills_arrays g"
  shows "\<forall>j. i \<le> j \<and> j < MAXLEVEL \<longrightarrow> pred_succ ex s N (fr\<lparr>fr_preds := (fr_preds fr)(i := x), fr_succs := (fr_succs fr)(i := q)\<rparr>) j"
proof (intro allI impI)
  fix j assume j: "i \<le> j \<and> j < MAXLEVEL"
  show "pred_succ ex s N (fr\<lparr>fr_preds := (fr_preds fr)(i := x), fr_succs := (fr_succs fr)(i := q)\<rparr>) j"
  proof (cases "j = i")
    case False
    then have "pred_succ ex s N fr j" using assms(1,3) j by (cases g) auto
    then show ?thesis using False by (simp add: pred_succ_def)
  qed (use assms(2) in simp)
qed

lemma new_node_arrays [simp]:
  "new_node s N (fr\<lparr>fr_preds := f, fr_succs := g\<rparr>) c = new_node s N fr c"
  "spare_node s N (fr\<lparr>fr_preds := f, fr_succs := g\<rparr>) = spare_node s N fr"
  by (simp_all add: new_node_def spare_node_def)

lemma walk_step:
  assumes mem: "mem_ok s N m" and pl: "place_ok ex s N fr (Walk g i x)"
  shows "(\<exists>fr' pc'. search_step g i x fr s = Inr (fr', pc') \<and> place_ok ex s N fr' pc' \<and> \<not> commits (Walk g i x) pc' \<and>
       own_item (fr', pc') \<subseteq> own_item (fr, Walk g i x) \<and> own_node (fr', pc') \<subseteq> own_node (fr, Walk g i x) \<and>
       fr_key fr' = fr_key fr \<and> (\<forall>b. pc' = Idle (Exists b) \<longrightarrow> b = (fr_key fr \<in> dom m \<or> fr_key fr = MAXKEY)) \<and>
       (\<forall>q. pc' = Read_item q \<longrightarrow> sn_key (nd s q) = fr_key fr)) \<or>
     (search_step g i x fr s = Inl Assert_failed \<and> g = For_read \<and> m (fr_key fr) = None)"
proof -
  have i: "i < MAXLEVEL" and x: "x \<in> insert 0 (N i)" "before s x (fr_key fr)" and g: "goal_ok ex g i s N fr"
    using pl by simp_all
  obtain q where q: "sl_succ x i s = Inr q" "sn_next (nd s x) i = Some q" "q \<in> insert sl_tail (N i)" "sl_node_at q s = Inr (nd s q)"
    using walk_next [OF mem i x(1)] by metis
  let ?fr = "if fills_arrays g then fr\<lparr>fr_preds := (fr_preds fr)(i := x), fr_succs := (fr_succs fr)(i := q)\<rparr> else fr"
  show ?thesis
  proof (cases "fr_key fr > sn_key (nd s q)")
    case True
    then have "q \<noteq> sl_tail" using tail_key [OF mem] by auto
    then have "place_ok ex s N fr (Walk g i q)" using q(3) i True g by (auto simp: before_def)
    moreover have "search_step g i x fr s = Inr (fr, Walk g i q)" using q True by (simp add: search_step_def)
    ultimately show ?thesis by (cases g) (auto simp: commits_def own_item_def own_node_def)
  next
    case False
    then have le: "fr_key fr \<le> sn_key (nd s q)" by simp
    have ps: "\<forall>j. i \<le> j \<and> j < MAXLEVEL \<longrightarrow> pred_succ ex s N ?fr j" if "fills_arrays g"
    proof -
      have "pred_succ ex s N (fr\<lparr>fr_preds := (fr_preds fr)(i := x), fr_succs := (fr_succs fr)(i := q)\<rparr>) i"
        using x q(3) le by (simp add: pred_succ_def)
      from goal_ok_down [OF g this that] show ?thesis using that by simp
    qed
    show ?thesis
    proof (cases i)
      case (Suc i')
      then have run: "search_step g i x fr s = Inr (?fr, Walk g i' x)" using q False by (simp add: search_step_def Let_def)
      have "x \<in> insert 0 (N i')" using x(1) levels_down [OF mem, of i' i] Suc by auto
      moreover have "goal_ok ex g i' s N ?fr" using g ps Suc by (cases g) (auto simp: Suc_le_eq)
      ultimately have "place_ok ex s N ?fr (Walk g i' x)" using i Suc x(2) by simp
      then show ?thesis using run by (cases g) (auto simp: commits_def own_item_def own_node_def)
    next
      case 0
      have run: "search_step g i x fr s = bindE (after_search g q ?fr s) (\<lambda>pc. Inr (?fr, pc))"
        using q False 0 by (simp add: search_step_def Let_def)
      have end': "sn_key (nd s q) = fr_key fr \<longleftrightarrow> fr_key fr \<in> dom m \<or> fr_key fr = MAXKEY"
        using search_end [OF mem _ x(2) _ le] x(1) q(2) 0 by simp
      show ?thesis
      proof (cases g)
        case For_exist
        then show ?thesis using run q(4) end' by (auto simp: commits_def own_item_def own_node_def)
      next
        case For_read
        then show ?thesis using run q(3,4) end' 0 by (auto simp: commits_def own_item_def own_node_def guard_def)
      next
        case For_retry
        have M: "\<forall>j<MAXLEVEL. pred_succ ex s N ?fr j" using ps For_retry 0 by simp
        have sp: "spare_node s N ?fr" using g For_retry by simp
        have "place_ok ex s N ?fr (if sn_key (nd s q) = fr_key fr then Append q else Make)"
          using M sp For_retry q(3) 0 le by (auto simp: spare_node_def)
        then show ?thesis using run q(4) For_retry by (auto simp: commits_def own_item_def own_node_def)
      next
        case (For_world c)
        then have "place_ok ex s N ?fr (Raise c)" using ps g 0 by auto
        then show ?thesis using run For_world by (auto simp: commits_def own_item_def own_node_def)
      qed
    qed
  qed
qed


subsection \<open>Changes of shared memory\<close>

lemma cas_next_live:
  assumes "sl_node_at p s = Inr (nd s p)" "i \<le> sn_toplevel (nd s p)"
  shows "cas_next p i old new s = Inr (if sn_next (nd s p) i = old then (True, linked_in new p i s) else (False, s))"
  using assms by (simp add: cas_next_def linked_in_def)

lemma evolves_linked_in:
  assumes "mem_ok s N m" "pr \<in> insert 0 (N c)" "p \<in> Q"
  shows "evolves s N (linked_in p pr c s) (N(c := insert p (N c))) Q I"
  using assms(2,3) unfolding evolves_def by (auto simp: fun_upd_apply)

lemma evolves_put_own:
  assumes "p \<in> Q" "p \<notin> insert 0 (insert sl_tail (N 0)) \<or> sn_key n = sn_key (nd s p)"
    "\<forall>x. x \<noteq> p \<longrightarrow> sl_heap s' x = sl_heap s x" "sl_heap s' p = Some n" "\<forall>i. i \<notin> I \<longrightarrow> sl_item_next s' i = sl_item_next s i"
  shows "evolves s N s' N Q I"
proof -
  have nd: "nd s' y = (if y = p then n else nd s y)" for y using assms(3,4) by (simp add: nd_def)
  have "sn_key (nd s' y) = sn_key (nd s y)" if "y \<in> insert 0 (insert sl_tail (N 0))" for y
    using assms(2) that by (auto simp: nd)
  moreover have "sl_heap s' y \<noteq> None \<and> nd s' y = nd s y" if "sl_heap s y \<noteq> None" "y \<notin> Q" for y
    using that assms(1,3) nd by auto
  ultimately show ?thesis using assms(5) unfolding evolves_def by auto
qed

lemma evolves_dead:
  assumes "evolves s N s' N (insert p Q) I" "p \<in> Q \<or> sl_heap s p = None"
  shows "evolves s N s' N Q I"
proof (cases "p \<in> Q")
  case False
  then have "sl_heap s y \<noteq> None \<and> y \<notin> Q \<longleftrightarrow> sl_heap s y \<noteq> None \<and> y \<notin> insert p Q" for y using assms(2) by auto
  then show ?thesis using assms(1) unfolding evolves_def by simp
qed (use assms(1) in \<open>simp add: insert_absorb\<close>)

lemma new_nodeD:
  assumes "mem_ok s N m" "new_node s N fr c"
  obtains p where "fr_new fr = Some p" "2 \<le> p" "sl_heap s p \<noteq> None" "sl_node_at p s = Inr (nd s p)" "sn_key (nd s p) = fr_key fr"
    "sn_toplevel (nd s p) = fr_level fr" "fr_level fr < MAXLEVEL" "\<And>j. p \<in> N j \<longleftrightarrow> j < c" "c = 0 \<Longrightarrow> sn_items (nd s p) = Some (fr_item fr)"
    "0 < c \<Longrightarrow> sn_items (nd s p) \<noteq> None"
proof -
  obtain p where p: "fr_new fr = Some p" "2 \<le> p" "sl_heap s p \<noteq> None" "sn_key (nd s p) = fr_key fr"
    "sn_toplevel (nd s p) = fr_level fr" "fr_level fr < MAXLEVEL" "\<And>j. p \<in> N j \<longleftrightarrow> j < c" "c = 0 \<Longrightarrow> sn_items (nd s p) = Some (fr_item fr)"
    using assms(2) unfolding new_node_def by blast
  moreover have "sl_node_at p s = Inr (nd s p)" using p(3) by (auto simp: sl_node_at_def nd_def)
  moreover have "sn_items (nd s p) \<noteq> None" if "0 < c" using mem_okD(5) [OF assms(1), of p 0] p(7) [of 0] that by (simp add: linked_node_def)
  ultimately show thesis using that by blast
qed

lemma append_step:
  assumes mem: "mem_ok s N m" and pl: "place_ok ex s N fr (Append q)" and it: "own_item (fr, Append q) \<inter> items_of m = {}"
  shows "\<exists>fr' pc' s'. sl_step t r fr (Append q) s = Inr (fr', pc', s') \<and> step_ok ex s N m fr (Append q) fr' pc' s'"
proof -
  let ?s = "s\<lparr>sl_item_next := (sl_item_next s)(fr_item fr := sn_items (nd s q))\<rparr>"
  have "q \<in> insert 0 (insert sl_tail (N 0))" using pl by auto
  then have "sl_step t r fr (Append q) s = Inr (fr, Swap q (sn_items (nd s q)), ?s)" using live_node(2) [OF mem] by simp
  moreover have "mem_ok ?s N m"
    using it mem_okD(2,10) [OF mem] by (intro mem_ok_same [OF mem]) (auto simp: own_item_def)
  moreover have "new_node ?s N fr c = new_node s N fr c" for c by (simp add: new_node_def nd_def)
  then have "place_ok ex ?s N fr (Swap q (sn_items (nd s q)))" using pl by (simp add: nd_def)
  moreover have "evolves s N ?s N (own_node (fr, Append q)) (own_item (fr, Append q))"
    by (rule evolves_same) (simp_all add: own_item_def)
  ultimately show ?thesis
    unfolding step_ok_def by (intro exI [of _ fr] exI [of _ "Swap q (sn_items (nd s q))"] exI [of _ ?s] conjI exI [of _ N])
      (auto simp: after_step_def commits_def own_item_def own_node_def)
qed

lemma swap_step:
  assumes mem: "mem_ok s N m" and pl: "place_ok ex s N fr (Swap q x)" and it: "own_item (fr, Swap q x) \<inter> items_of m = {}"
  shows "\<exists>fr' pc' s'. sl_step t r fr (Swap q x) s = Inr (fr', pc', s') \<and> step_ok ex s N m fr (Swap q x) fr' pc' s'"
proof (cases "sn_items (nd s q) = x")
  case False
  have "q \<in> insert 0 (insert sl_tail (N 0))" using pl by auto
  then have "sl_step t r fr (Swap q x) s = Inr (fr, Append q, s)" using live_node(2) [OF mem] False by (simp add: cas_items_def)
  moreover have "place_ok ex s N fr (Append q)" using pl by simp
  ultimately show ?thesis using mem
    unfolding step_ok_def by (intro exI [of _ fr] exI [of _ "Append q"] exI [of _ s] conjI exI [of _ N])
      (auto simp: after_step_def commits_def own_item_def own_node_def)
next
  case True
  let ?s1 = "sl_put q ((nd s q)\<lparr>sn_items := Some (fr_item fr)\<rparr>) s" and ?m = "push_item (fr_key fr) (fr_item fr) m"
  let ?s = "free_new fr ?s1"
  have q: "q \<in> insert sl_tail (N 0)" "sn_key (nd s q) = fr_key fr" using pl by simp_all
  then have q0: "q \<in> insert 0 (insert sl_tail (N 0))" by auto
  have run: "sl_step t r fr (Swap q x) s = Inr (fr, Idle Inserted, ?s)"
    using live_node(2) [OF mem q0] True by (simp add: cas_items_def)
  have "fr_item fr \<notin> items_of m" "sl_item_next s (fr_item fr) = sn_items (nd s q)" using it pl True by (auto simp: own_item_def)
  then have mem1: "mem_ok ?s1 N ?m" using mem_ok_push [OF mem q] by simp
  have mem': "mem_ok ?s N ?m \<and> evolves s N ?s N (own_node (fr, Swap q x)) (own_item (fr, Swap q x))"
  proof (cases "fr_new fr")
    case None
    have "evolves s N ?s1 N Q I" for Q I using q(1) unfolding evolves_def by auto
    then show ?thesis using mem1 None by (simp add: free_new_def)
  next
    case (Some p)
    then have "new_node s N fr 0" using pl by simp
    then have p: "2 \<le> p" "\<And>j. p \<notin> N j" using new_nodeD [OF mem] Some by (metis not_less_zero option.inject)+
    then have pq: "p \<noteq> q" using q(1) by auto
    have nd: "nd ?s y = nd ?s1 y" "sl_heap ?s y = sl_heap ?s1 y" if "y \<noteq> p" for y using Some that by (simp_all add: free_new_def nd_def)
    have ne: "y \<noteq> p" if "y \<in> insert 0 (insert sl_tail (N j))" for y j using that p by auto
    have "mem_ok ?s N ?m"
    proof (rule mem_ok_local [OF mem1])
      show "\<forall>y\<in>insert 0 (insert sl_tail (N 0)). sl_heap ?s y \<noteq> None \<and> sn_key (nd ?s y) = sn_key (nd ?s1 y) \<and>
          sn_toplevel (nd ?s y) = sn_toplevel (nd ?s1 y) \<and> sn_items (nd ?s y) = sn_items (nd ?s1 y)"
        using nd ne live_node(1) [OF mem1] by metis
      show "\<forall>i<MAXLEVEL. \<forall>y\<in>insert 0 (N i). sn_next (nd ?s y) i = sn_next (nd ?s1 y) i"
        using nd ne by (metis insert_iff)
      show "sn_next (nd ?s 1) 0 = sn_next (nd ?s1 1) 0" using p(1) nd(1) [of 1] by simp
      show "\<forall>y. sl_heap ?s y \<noteq> None \<longrightarrow> y < sl_fresh ?s"
        using mem_okD(8) [OF mem1] Some by (auto simp: free_new_def)
    qed (use mem_okD(2,10) [OF mem1] Some in \<open>auto simp: free_new_def\<close>)
    moreover have "evolves s N ?s N {p} I" for I
      unfolding evolves_def
    proof (intro conjI ballI allI impI)
      fix y assume "y \<in> insert 0 (insert sl_tail (N 0))"
      then show "sn_key (nd ?s y) = sn_key (nd s y)" using nd(1) [OF ne] by simp
    next
      fix y assume y: "sl_heap s y \<noteq> None \<and> y \<notin> {p}"
      then have e: "nd ?s y = nd ?s1 y" "sl_heap ?s y = sl_heap ?s1 y" using nd by auto
      show "sl_heap ?s y \<noteq> None" "sn_key (nd ?s y) = sn_key (nd s y)" "sn_toplevel (nd ?s y) = sn_toplevel (nd s y)"
        using y unfolding e by auto
      show "sn_next (nd ?s y) j = sn_next (nd s y) j" for j unfolding e by simp
      show "sn_items (nd ?s y) = sn_items (nd s y)" if "y \<notin> insert sl_tail (N 0)" using that q(1) unfolding e by auto
    qed (use Some in \<open>auto simp: free_new_def\<close>)
    ultimately show ?thesis using Some by (simp add: own_node_def)
  qed
  then show ?thesis
    unfolding step_ok_def run by (intro exI [of _ fr] exI [of _ "Idle Inserted"] exI [of _ ?s] conjI exI [of _ N])
      (auto simp: after_step_def commits_def own_item_def own_node_def)
qed

lemma sl_randomLevel_less: "sl_randomLevel r l < MAXLEVEL"
  by (simp add: sl_randomLevel_def MAXLEVEL_def Let_def)

lemma make_step:
  assumes mem: "mem_ok s N m" and pl: "place_ok ex s N fr Make" and it: "own_item (fr, Make) \<inter> items_of m = {}"
  shows "\<exists>fr' pc' s'. sl_step t r fr Make s = Inr (fr', pc', s') \<and> step_ok ex s N m fr Make fr' pc' s'"
proof -
  have M: "0 < MAXLEVEL" by (simp add: MAXLEVEL_def)
  have ps: "\<forall>j<MAXLEVEL. pred_succ ex s N fr j" and lt: "fr_key fr < sn_key (nd s (fr_succs fr 0))" and sp: "spare_node s N fr"
    using pl by simp_all
  have item: "fr_item fr \<notin> items_of m" using it by (simp add: own_item_def)
  obtain p fr1 s1 where mk: "make_node r fr s = (p, fr1, s1)" by (metis prod_cases3)
  \<comment> \<open>the new node, before its pointers are set\<close>
  have all: "fr_new fr1 = Some p \<and> fr_key fr1 = fr_key fr \<and> fr_item fr1 = fr_item fr \<and> fr_preds fr1 = fr_preds fr \<and> fr_succs fr1 = fr_succs fr \<and>
      fr_level fr1 < MAXLEVEL \<and> (p = sl_fresh s \<or> fr_new fr = Some p) \<and> sl_heap s1 p = Some (nd s1 p) \<and> sn_toplevel (nd s1 p) = fr_level fr1 \<and>
      sn_key (nd s1 p) = fr_key fr \<and> sn_items (nd s1 p) = Some (fr_item fr) \<and> 2 \<le> p \<and> (\<forall>j. p \<notin> N j) \<and>
      (\<forall>y. y \<noteq> p \<longrightarrow> sl_heap s1 y = sl_heap s y) \<and> sl_head s1 = sl_head s \<and> sl_toplevel s1 = sl_toplevel s \<and> p < sl_fresh s1 \<and> sl_fresh s \<le> sl_fresh s1 \<and>
      sl_item_next s1 (fr_item fr) = None \<and> (\<forall>i. i \<noteq> fr_item fr \<longrightarrow> sl_item_next s1 i = sl_item_next s i) \<and> cur_node_per_thd s1 = cur_node_per_thd s"
    proof (cases "fr_new fr")
      case None
      have h: "0 < sl_fresh s" "1 < sl_fresh s" using mem_okD(1,8) [OF mem] by (auto simp: ends_ok_def)
      have "sl_fresh s \<notin> N j" for j using mem_okD(8) [OF mem, of "sl_fresh s"] live_node(1) [OF mem, of "sl_fresh s" j] by auto
      moreover have "p = sl_fresh s" using mk None by (auto simp: make_node_def Let_def allocate_node_def)
      ultimately show ?thesis using mk None h sl_randomLevel_less [of r "sl_toplevel s"]
        by (auto simp: make_node_def Let_def allocate_node_def nd_def sl_put_def)
    next
      case (Some p')
      then have "new_node s N fr 0" "sl_item_next s (fr_item fr) = None" using sp by (simp_all add: spare_node_def)
      then obtain "2 \<le> p'" "sl_heap s p' = Some (nd s p')" "sn_key (nd s p') = fr_key fr" "sn_toplevel (nd s p') = fr_level fr"
        "fr_level fr < MAXLEVEL" "\<forall>j. p' \<notin> N j" "sn_items (nd s p') = Some (fr_item fr)" "p' < sl_fresh s"
        using Some mem_okD(8) [OF mem, of p'] unfolding new_node_def nd_def by auto
      then show ?thesis using mk Some \<open>sl_item_next s (fr_item fr) = None\<close> by (simp add: make_node_def)
    qed
  have f: "fr_new fr1 = Some p" "fr_key fr1 = fr_key fr" "fr_item fr1 = fr_item fr" "fr_preds fr1 = fr_preds fr" "fr_succs fr1 = fr_succs fr"
      "fr_level fr1 < MAXLEVEL" "p = sl_fresh s \<or> fr_new fr = Some p"
    and n: "sl_heap s1 p = Some (nd s1 p)" "sn_toplevel (nd s1 p) = fr_level fr1" "sn_key (nd s1 p) = fr_key fr" "sn_items (nd s1 p) = Some (fr_item fr)"
    and p: "2 \<le> p" "\<And>j. p \<notin> N j"
    and s1: "\<forall>y. y \<noteq> p \<longrightarrow> sl_heap s1 y = sl_heap s y" "sl_head s1 = sl_head s" "sl_toplevel s1 = sl_toplevel s" "p < sl_fresh s1" "sl_fresh s \<le> sl_fresh s1"
      "sl_item_next s1 (fr_item fr) = None" "\<forall>i. i \<noteq> fr_item fr \<longrightarrow> sl_item_next s1 i = sl_item_next s i" "cur_node_per_thd s1 = cur_node_per_thd s"
    using all by blast+
  let ?n = "(nd s1 p)\<lparr>sn_next := (\<lambda>i. if i \<le> fr_level fr1 then Some (fr_succs fr1 i) else sn_next (nd s1 p) i)\<rparr>"
  let ?s = "sl_put p ?n s1"
  have run: "sl_step t r fr Make s = Inr (fr1, Link, ?s)" using mk n(1,2) by (simp add: sl_node_at_def)
  have nd: "nd ?s y = nd s y" "sl_heap ?s y = sl_heap s y" if "y \<noteq> p" for y using that s1(1) by (simp_all add: nd_def)
  have ne: "y \<noteq> p" if "y \<in> insert 0 (insert sl_tail (N j))" for y j using that p by auto
  have ev: "evolves s N ?s N (insert p (own_node (fr, Make))) (own_item (fr, Make))"
  proof (rule evolves_put_own [where n = ?n and p = p])
    show "p \<notin> insert 0 (insert sl_tail (N 0)) \<or> sn_key ?n = sn_key (nd s p)" using ne [of p 0] by blast
  qed (use s1(1,7) in \<open>auto simp: own_item_def\<close>)
  have ev': "evolves s N ?s N (own_node (fr, Make)) (own_item (fr, Make))"
  proof -
    have "sl_heap s (sl_fresh s) = None" using mem_okD(8) [OF mem, of "sl_fresh s"] by blast
    then have "p \<in> own_node (fr, Make) \<or> sl_heap s p = None" using f(7) by (auto simp: own_node_def)
    from evolves_dead [OF ev this] show ?thesis .
  qed
  have mem': "mem_ok ?s N m"
  proof (rule mem_ok_local [OF mem])
    show "\<forall>y\<in>insert 0 (insert sl_tail (N 0)). sl_heap ?s y \<noteq> None \<and> sn_key (nd ?s y) = sn_key (nd s y) \<and>
        sn_toplevel (nd ?s y) = sn_toplevel (nd s y) \<and> sn_items (nd ?s y) = sn_items (nd s y)"
    proof
      fix y assume y: "y \<in> insert 0 (insert sl_tail (N 0))"
      note e = nd [OF ne [OF y]]
      show "sl_heap ?s y \<noteq> None \<and> sn_key (nd ?s y) = sn_key (nd s y) \<and>
        sn_toplevel (nd ?s y) = sn_toplevel (nd s y) \<and> sn_items (nd ?s y) = sn_items (nd s y)"
        unfolding e using live_node(1) [OF mem y] by blast
    qed
    show "\<forall>i<MAXLEVEL. \<forall>y\<in>insert 0 (N i). sn_next (nd ?s y) i = sn_next (nd s y) i"
      using ne by (intro allI impI ballI arg_cong [where f = "\<lambda>n. sn_next n _"] nd(1)) auto
    show "sn_next (nd ?s 1) 0 = sn_next (nd s 1) 0" using p(1) nd(1) [of 1] by simp
    show "\<forall>y. sl_heap ?s y \<noteq> None \<longrightarrow> y < sl_fresh ?s"
    proof (intro allI impI)
      fix y assume "sl_heap ?s y \<noteq> None"
      then show "y < sl_fresh ?s" using mem_okD(8) [OF mem, of y] nd(2) [of y] s1(4,5) by (cases "y = p") auto
    qed
    show "\<forall>i\<in>items_of m. sl_item_next ?s i = sl_item_next s i"
    proof
      fix i assume "i \<in> items_of m"
      then have "i \<noteq> fr_item fr" using item by blast
      then show "sl_item_next ?s i = sl_item_next s i" using s1(7) by simp
    qed
    show "\<forall>t p. cur_node_per_thd ?s t = Some p \<longrightarrow> p \<in> insert sl_tail (N 0)" using mem_okD(10) [OF mem] s1(8) by simp
  qed (use mem_okD(2) [OF mem] s1(2,3) in auto)
  have "pred_succ ex ?s N fr1 j" if "j < MAXLEVEL" for j
    using evolves_pred_succ [OF mem ev', of ex fr j] ps that f(2,4,5) by (simp add: pred_succ_def)
  moreover have "fr_succs fr 0 \<in> insert sl_tail (N 0)" using ps M by (auto simp: pred_succ_def)
  then have "sn_key (nd ?s (fr_succs fr 0)) = sn_key (nd s (fr_succs fr 0))" by (rule evolves_key(1) [OF mem ev'])
  then have "fr_key fr1 < sn_key (nd ?s (fr_succs fr1 0))" using lt f(2,5) by simp
  moreover have "new_node ?s N fr1 0" using f n p by (simp add: new_node_def)
  moreover have "sl_item_next ?s (fr_item fr1) = None" using s1(6) f(3) by simp
  ultimately have "place_ok ex ?s N fr1 Link" using f(1) by simp
  then show ?thesis unfolding run step_ok_def using mem' ev' f(1,3,7)
    by (intro exI [of _ fr1] exI [of _ Link] exI [of _ ?s] conjI exI [of _ N]) (auto simp: after_step_def commits_def own_item_def own_node_def)
qed

lemma walk_again:
  assumes "mem_ok s N m" "(g = For_retry \<and> spare_node s N fr) \<or> (\<exists>c. g = For_world c \<and> new_node s N fr c \<and> 1 \<le> c \<and> c \<le> fr_level fr)"
  shows "place_ok ex s N fr (Walk g (MAXLEVEL - 1) (sl_head s))"
  using assms(2) mem_okD(1) [OF assms(1)] by (auto simp: ends_ok_def before_def MAXLEVEL_def)

lemma same_step_ok:
  assumes "mem_ok s N m" "place_ok ex s N fr pc'" "\<not> commits pc pc'" "own_item (fr, pc') \<subseteq> own_item (fr, pc)"
    "own_node (fr, pc') \<subseteq> own_node (fr, pc)"
  shows "step_ok ex s N m fr pc fr pc' s"
  using assms unfolding step_ok_def by (intro exI [of _ N]) (auto simp: after_step_def)

lemma new_node_linked:
  assumes "new_node s N fr c" "fr_new fr = Some p" "\<forall>j. c \<le> j \<and> j \<le> fr_level fr \<longrightarrow> sn_next (nd s p) j \<noteq> None"
  shows "new_node (linked_in p pr c s) (N(c := insert p (N c))) fr (Suc c)"
proof -
  have mem: "p \<in> N j \<longleftrightarrow> j < c" for j using assms unfolding new_node_def by simp
  have "p \<in> (N(c := insert p (N c))) j \<longleftrightarrow> j < Suc c" for j using mem [of j] by (cases "j = c") (auto simp: less_Suc_eq)
  then show ?thesis using assms unfolding new_node_def linked_in_sel by (intro exI [of _ p]) (simp del: fun_upd_apply)
qed

lemma link_step:
  assumes mem: "mem_ok s N m" and pl: "place_ok ex s N fr Link" and it: "own_item (fr, Link) \<inter> items_of m = {}"
  shows "\<exists>fr' pc' s'. sl_step t r fr Link s = Inr (fr', pc', s') \<and> step_ok ex s N m fr Link fr' pc' s'"
proof -
  have M: "0 < MAXLEVEL" by (simp add: MAXLEVEL_def)
  have ps: "\<forall>j<MAXLEVEL. pred_succ ex s N fr j" and lt: "fr_key fr < sn_key (nd s (fr_succs fr 0))" and nn: "new_node s N fr 0"
    and nx: "sl_item_next s (fr_item fr) = None" and ptr: "\<forall>j\<le>fr_level fr. sn_next (nd s (the (fr_new fr))) j = Some (fr_succs fr j)"
    using pl by simp_all
  obtain p where p: "fr_new fr = Some p" "2 \<le> p" "sl_heap s p \<noteq> None" "sn_key (nd s p) = fr_key fr" "sn_toplevel (nd s p) = fr_level fr"
    "fr_level fr < MAXLEVEL" "\<And>j. p \<notin> N j" "sn_items (nd s p) = Some (fr_item fr)"
    using nn unfolding new_node_def by auto
  have ps0: "fr_preds fr 0 \<in> insert 0 (N 0)" "before s (fr_preds fr 0) (fr_key fr)" "fr_succs fr 0 \<in> insert sl_tail (N 0)"
    using ps M by (auto simp: pred_succ_def)
  then have pr: "fr_preds fr 0 \<in> insert 0 (insert sl_tail (N 0))" by auto
  let ?pr = "fr_preds fr 0"
  let ?ok = "sn_next (nd s ?pr) 0 = Some (fr_succs fr 0)"
  have run: "sl_step t r fr Link s = (if ?ok then Inr (fr, Raise 1, linked_in p ?pr 0 s) else Inr (fr, Walk For_retry (MAXLEVEL - 1) (sl_head s), s))"
    using cas_next_live [OF live_node(2) [OF mem pr], of 0] p(1) by (simp add: the_new_def)
  show ?thesis
  proof (cases ?ok)
    case False
    have "place_ok ex s N fr (Walk For_retry (MAXLEVEL - 1) (sl_head s))"
      using walk_again [OF mem, of For_retry fr] nn nx by (simp only: spare_node_def) simp
    then have "step_ok ex s N m fr Link fr (Walk For_retry (MAXLEVEL - 1) (sl_head s)) s"
      by (intro same_step_ok [OF mem]) (auto simp: commits_def own_item_def own_node_def)
    then show ?thesis using run False by auto
  next
    case True
    let ?s = "linked_in p ?pr 0 s" and ?N = "N(0 := insert p (N 0))"
    have l: "link_at s N m p (fr_key fr) ?pr (fr_succs fr 0) 0"
      unfolding link_at_def using mem M p ps0 lt True ptr by simp
    have ev: "evolves s N ?s ?N (own_node (fr, Link)) (own_item (fr, Link))"
      by (rule evolves_linked_in [OF mem ps0(1)]) (simp add: own_node_def p(1))
    have "place_ok ex ?s ?N fr (Raise 1)"
      using evolves_pred_succ [OF mem ev] ps new_node_linked [OF nn p(1), of ?pr] ptr p(1) by simp
    moreover have "mem_ok ?s ?N (after_step fr Link (Raise 1) m)"
      using mem_ok_link_new(1) [OF l p(8) nx] by (simp add: after_step_def commits_def)
    ultimately have "step_ok ex s N m fr Link fr (Raise 1) ?s"
      unfolding step_ok_def using ev by (intro exI [of _ ?N]) (auto simp: own_item_def own_node_def)
    then show ?thesis using run True by auto
  qed
qed

lemma own_pointer:
  assumes mem: "mem_ok s N m" and p: "2 \<le> p" "p \<notin> N c" "sl_heap s p \<noteq> None"
  shows "mem_ok (linked_in q p c s) N m" "p \<in> Q \<Longrightarrow> evolves s N (linked_in q p c s) N Q I"
proof -
  let ?s = "linked_in q p c s"
  show "mem_ok ?s N m"
  proof (rule mem_ok_local [OF mem])
    show "\<forall>y\<in>insert 0 (insert sl_tail (N 0)). sl_heap ?s y \<noteq> None \<and> sn_key (nd ?s y) = sn_key (nd s y) \<and>
        sn_toplevel (nd ?s y) = sn_toplevel (nd s y) \<and> sn_items (nd ?s y) = sn_items (nd s y)"
      using live_node(1) [OF mem] by simp
    show "\<forall>y. sl_heap ?s y \<noteq> None \<longrightarrow> y < sl_fresh ?s" using mem_okD(8) [OF mem] p(3) by auto
  qed (use mem_okD(2,10) [OF mem] p in auto)
  show "evolves s N ?s N Q I" if "p \<in> Q" using that unfolding evolves_def by auto
qed

text \<open>The first half of a step that raises the new node: its own pointer is up to date.\<close>

lemma raise_update:
  fixes s :: IndexSkiplist and fr :: sl_frame and c :: nat
  defines "q \<equiv> fr_succs fr c" and "pr \<equiv> fr_preds fr c" and "p \<equiv> the (fr_new fr)"
  defines "s' \<equiv> (if sn_next (nd s p) c \<noteq> Some q then linked_in q p c s else s)"
  assumes mem: "mem_ok s N m" and pl: "place_ok ex s N fr (Raise c)" and c: "c \<le> fr_level fr"
  shows "fr_new fr = Some p" "2 \<le> p" "sl_node_at p s = Inr (nd s p)" "sn_toplevel (nd s p) = fr_level fr" "sn_next (nd s p) c \<noteq> None"
    "mem_ok s' N m" "evolves s N s' N (own_node (fr, Raise c)) I"
    "place_ok ex s' N fr (Walk (For_world c) (MAXLEVEL - 1) (sl_head s'))"
    "pr \<in> insert 0 (N c)" "q \<in> insert sl_tail (N c)" "sl_node_at pr s' = Inr (nd s' pr)" "sl_node_at q s' = Inr (nd s' q)"
    "before s' pr (fr_key fr)" "sl_head s' = 0" "fr_key fr < sn_key (nd s' q) \<Longrightarrow> place_ok ex s' N fr (Splice c)"
    "ex \<Longrightarrow> fr_key fr \<le> sn_key (nd s' q)" "sl_node_at q s = Inr (nd s q)"
proof -
  have ps: "\<forall>j<MAXLEVEL. pred_succ ex s N fr j" and nn: "new_node s N fr c" and c1: "1 \<le> c" using pl by simp_all
  show p: "fr_new fr = Some p" and p2: "2 \<le> p" and lv: "sl_node_at p s = Inr (nd s p)" and tl: "sn_toplevel (nd s p) = fr_level fr"
    and nx: "sn_next (nd s p) c \<noteq> None"
    using nn c c1 unfolding new_node_def p_def by (auto simp: sl_node_at_def nd_def)
  have hp: "sl_heap s p \<noteq> None" and pN: "p \<notin> N c" and cM: "c < MAXLEVEL" using nn c p unfolding new_node_def by auto
  show mem': "mem_ok s' N m" using own_pointer(1) [OF mem p2 pN hp] mem unfolding s'_def by simp
  show ev: "evolves s N s' N (own_node (fr, Raise c)) I" for I
    using own_pointer(2) [OF mem p2 pN hp] p unfolding s'_def by (simp add: own_node_def)
  have ps': "\<forall>j<MAXLEVEL. pred_succ ex s' N fr j" using evolves_pred_succ [OF mem ev] ps by blast
  have "new_node (linked_in q p c s) N fr c" using nn unfolding new_node_def linked_in_sel by auto
  then have nn': "new_node s' N fr c" using nn unfolding s'_def by simp
  have ptr: "sn_next (nd s' p) c = Some q" unfolding s'_def by simp
  show hd: "sl_head s' = 0" using mem_okD(1) [OF mem'] by (simp add: ends_ok_def)
  show psc: "pr \<in> insert 0 (N c)" "q \<in> insert sl_tail (N c)" "before s' pr (fr_key fr)" "ex \<Longrightarrow> fr_key fr \<le> sn_key (nd s' q)"
    using ps' cM unfolding pred_succ_def q_def pr_def by blast+
  then have in': "pr \<in> insert 0 (insert sl_tail (N c))" "q \<in> insert 0 (insert sl_tail (N c))" by auto
  show "sl_node_at pr s' = Inr (nd s' pr)" "sl_node_at q s' = Inr (nd s' q)" "sl_node_at q s = Inr (nd s q)"
    using live_node(2) [OF mem'] live_node(2) [OF mem] in' by blast+
  show "place_ok ex s' N fr (Walk (For_world c) (MAXLEVEL - 1) (sl_head s'))"
    using walk_again [OF mem', of "For_world c" fr] nn' c c1 by simp
  show "place_ok ex s' N fr (Splice c)" if "fr_key fr < sn_key (nd s' q)"
    using ps' cM that nn' c c1 ptr unfolding q_def p_def by simp
qed

lemma raise_ok:
  assumes mem: "mem_ok s N m" and pl: "place_ok True s N fr (Raise c)"
  shows "\<exists>fr' pc' s'. sl_step t r fr (Raise c) s = Inr (fr', pc', s') \<and> step_ok True s N m fr (Raise c) fr' pc' s'"
proof (cases "c \<le> fr_level fr")
  case False
  have "place_ok True s N fr Top" using pl by (auto simp: new_node_def)
  then have "step_ok True s N m fr (Raise c) fr Top s" by (intro same_step_ok [OF mem]) (auto simp: commits_def own_item_def own_node_def)
  then show ?thesis using False by (auto simp: raise_step_def)
next
  case True
  note u = raise_update [OF mem pl True]
  let ?q = "fr_succs fr c" and ?pr = "fr_preds fr c" and ?p = "the (fr_new fr)"
  let ?s = "if sn_next (nd s ?p) c \<noteq> Some ?q then linked_in ?q ?p c s else s"
  have first: "raise_step c fr s = bindE (sl_node_at ?q ?s) (\<lambda>n.
        if sn_key n = fr_key fr then Inr (Walk (For_world c) (MAXLEVEL - 1) (sl_head ?s), ?s)
        else bindE (sl_node_at ?pr ?s) (\<lambda>m.
          bindE (assert_that ((?pr = sl_head ?s \<or> sn_key m < fr_key fr) \<and> sn_key n > fr_key fr)) (\<lambda>_. Inr (Splice c, ?s))))"
  proof -
    obtain p where p: "fr_new fr = Some p" using u(1) by blast
    note l = u(3,4) [unfolded p option.sel]
    show ?thesis unfolding p option.sel using True p l cas_next_live [OF l(1), of c] by (auto simp: raise_step_def the_new_def sl_next_def Let_def)
  qed
  show ?thesis
  proof (cases "sn_key (nd ?s ?q) = fr_key fr")
    case key: True
    have "raise_step c fr s = Inr (Walk (For_world c) (MAXLEVEL - 1) (sl_head ?s), ?s)" unfolding first u(12) using key by simp
    then show ?thesis unfolding step_ok_def using u(6-8)
      by (intro exI [of _ fr] exI [of _ "Walk (For_world c) (MAXLEVEL - 1) (sl_head ?s)"] exI [of _ ?s] conjI exI [of _ N])
        (auto simp: after_step_def commits_def own_item_def own_node_def)
  next
    case False
    then have lt: "fr_key fr < sn_key (nd ?s ?q)" using u(16) by (metis le_neq_trans)
    have "?pr = sl_head ?s \<or> sn_key (nd ?s ?pr) < fr_key fr" using u(13,14) unfolding before_def by simp
    then have "raise_step c fr s = Inr (Splice c, ?s)" unfolding first u(11,12) bindE_Inr using False lt by simp
    then show ?thesis unfolding step_ok_def using u(6,7) u(15) [OF lt]
      by (intro exI [of _ fr] exI [of _ "Splice c"] exI [of _ ?s] conjI exI [of _ N])
        (auto simp: after_step_def commits_def own_item_def own_node_def)
  qed
qed

lemma splice_step:
  assumes mem: "mem_ok s N m" and pl: "place_ok ex s N fr (Splice c)"
  shows "\<exists>fr' pc' s'. sl_step t r fr (Splice c) s = Inr (fr', pc', s') \<and> step_ok ex s N m fr (Splice c) fr' pc' s'"
proof -
  have ps: "\<forall>j<MAXLEVEL. pred_succ ex s N fr j" and lt: "fr_key fr < sn_key (nd s (fr_succs fr c))" and nn: "new_node s N fr c"
    and c: "1 \<le> c" "c \<le> fr_level fr" and ptr: "sn_next (nd s (the (fr_new fr))) c = Some (fr_succs fr c)"
    using pl by simp_all
  obtain p where p: "fr_new fr = Some p" "2 \<le> p" "sl_heap s p \<noteq> None" "sn_key (nd s p) = fr_key fr" "sn_toplevel (nd s p) = fr_level fr"
    "fr_level fr < MAXLEVEL" "\<And>j. p \<in> N j \<longleftrightarrow> j < c" "sn_items (nd s p) \<noteq> None"
  proof (rule new_nodeD [OF mem nn])
  qed (use c(1) that in simp)
  have filled: "\<forall>j. c \<le> j \<and> j \<le> fr_level fr \<longrightarrow> sn_next (nd s p) j \<noteq> None" using nn c(1) p(1) unfolding new_node_def by simp
  have cM: "c < MAXLEVEL" using c(2) p(6) by simp
  let ?q = "fr_succs fr c" and ?pr = "fr_preds fr c"
  have psc: "?pr \<in> insert 0 (N c)" "before s ?pr (fr_key fr)" "?q \<in> insert sl_tail (N c)"
    using ps cM unfolding pred_succ_def by blast+
  then have pr: "?pr \<in> insert 0 (insert sl_tail (N c))" by auto
  let ?ok = "sn_next (nd s ?pr) c = Some ?q"
  let ?w = "Walk (For_world c) (MAXLEVEL - 1) (sl_head s)"
  have run: "sl_step t r fr (Splice c) s = (if ?ok then Inr (fr, Raise (c + 1), linked_in p ?pr c s) else Inr (fr, ?w, s))"
    using cas_next_live [OF live_node(2) [OF mem pr] live_node(3) [OF mem pr cM]] p(1) by (simp add: the_new_def)
  show ?thesis
  proof (cases ?ok)
    case False
    have "place_ok ex s N fr ?w" using walk_again [OF mem, of "For_world c" fr] nn c by simp
    then have "step_ok ex s N m fr (Splice c) fr ?w s"
      by (intro same_step_ok [OF mem]) (auto simp: commits_def own_item_def own_node_def)
    then show ?thesis using run False by auto
  next
    case True
    let ?s = "linked_in p ?pr c s" and ?N = "N(c := insert p (N c))"
    have l: "link_at s N m p (fr_key fr) ?pr ?q c"
      unfolding link_at_def using mem cM p c psc lt True ptr by simp
    have ev: "evolves s N ?s ?N (own_node (fr, Splice c)) (own_item (fr, Splice c))"
      by (rule evolves_linked_in [OF mem psc(1)]) (simp add: own_node_def p(1))
    have "place_ok ex ?s ?N fr (Raise (c + 1))"
      using evolves_pred_succ [OF mem ev] ps new_node_linked [OF nn p(1) filled, of ?pr] c by (simp del: fun_upd_apply)
    moreover have "mem_ok ?s ?N m" using mem_ok_link_up [OF l] c(1) by simp
    ultimately have "step_ok ex s N m fr (Splice c) fr (Raise (c + 1)) ?s"
      unfolding step_ok_def using ev by (intro exI [of _ ?N]) (auto simp: own_item_def own_node_def after_step_def commits_def)
    then show ?thesis using run True by auto
  qed
qed

subsection \<open>Reading\<close>

lemma cursor_step_ok:
  assumes mem: "mem_ok s N m" and s': "s' = s\<lparr>cur_node_per_thd := cn, cur_item_per_thd := ci\<rparr>"
    and cn: "\<forall>t p. cn t = Some p \<longrightarrow> p \<in> insert sl_tail (N 0)" and pl: "place_ok ex s' N fr' pc'" and pc: "\<not> retrying pc" "\<not> raising pc" "\<not> retrying pc'" "\<not> raising pc'"
  shows "step_ok ex s N m fr pc fr' pc' s'"
proof -
  have "mem_ok s' N m" unfolding s' using mem_okD(2) [OF mem] cn by (intro mem_ok_same [OF mem]) auto
  moreover have "evolves s N s' N Q I" for Q I unfolding s' by (rule evolves_same) simp_all
  ultimately show ?thesis unfolding step_ok_def using pl pc
    by (intro exI [of _ N]) (auto simp: after_step_def commits_def own_item_def own_node_def)
qed

lemma read_steps:
  assumes mem: "mem_ok s N m" and pl: "place_ok ex s N fr pc" and pc: "(\<exists>q. pc = Read_item q) \<or> (\<exists>q x. pc = Read_cur q x) \<or> (\<exists>b. pc = Next_start b) \<or>
    (\<exists>q. pc = Next_node q) \<or> (\<exists>q. pc = Next_items q)"
  shows "\<exists>fr' pc' s'. sl_step t r fr pc s = Inr (fr', pc', s') \<and> step_ok ex s N m fr pc fr' pc' s'"
proof -
  have cur: "\<forall>t p. cur_node_per_thd s t = Some p \<longrightarrow> p \<in> insert sl_tail (N 0)" using mem_okD(10) [OF mem] by blast
  have live: "sl_node_at q s = Inr (nd s q)" if "q \<in> insert sl_tail (N 0)" for q using live_node(2) [OF mem, of q 0] that by auto
  have step: ?thesis if "sl_step t r fr pc s = Inr (fr, pc', s\<lparr>cur_node_per_thd := cn, cur_item_per_thd := ci\<rparr>)"
    "\<forall>t p. cn t = Some p \<longrightarrow> p \<in> insert sl_tail (N 0)" "place_ok ex s N fr pc'" "\<not> retrying pc'" "\<not> raising pc'" for pc' cn ci
  proof -
    have "place_ok ex (s\<lparr>cur_node_per_thd := cn, cur_item_per_thd := ci\<rparr>) N fr pc'"
      using evolves_place [OF mem evolves_same [of _ s "{}"] that(3), of _ "{}"] by simp
    from cursor_step_ok [OF mem refl that(2) this _ _ that(4,5)] pc show ?thesis using that(1) by auto
  qed
  from pc show ?thesis
  proof (elim disjE exE)
    fix q assume pc: "pc = Read_item q"
    then show ?thesis using pl cur live [of q]
      by (intro step [where pc' = "Read_cur q (sn_items (nd s q))" and cn = "(cur_node_per_thd s)(t := Some q)" and ci = "cur_item_per_thd s"]) auto
  next
    fix q x assume pc: "pc = Read_cur q x"
    then show ?thesis using pl cur live [of q]
      by (intro step [where pc' = "Idle (Read_result x)" and cn = "cur_node_per_thd s" and ci = "(cur_item_per_thd s)(t := sn_items (nd s q))"]) auto
  next
    fix b assume pc: "pc = Next_start b"
    let ?i = "case cur_item_per_thd s t of None \<Rightarrow> None | Some last_item \<Rightarrow> sl_item_next s last_item"
    show ?thesis
    proof (cases "if \<not> b \<and> ?i = None then cur_node_per_thd s t else None")
      case None
      then show ?thesis using pc cur
        by (intro step [where pc' = "Idle (Read_result ?i)" and cn = "cur_node_per_thd s" and ci = "(cur_item_per_thd s)(t := ?i)"]) (auto simp: Let_def)
    next
      case (Some q)
      then have "q \<in> insert sl_tail (N 0)" using cur by (metis option.distinct(1))
      then show ?thesis using Some pc cur
        by (intro step [where pc' = "Next_node q" and cn = "cur_node_per_thd s" and ci = "cur_item_per_thd s"]) (auto simp: Let_def)
    qed
  next
    fix q assume pc: "pc = Next_node q"
    then have q: "q \<in> insert sl_tail (N 0)" using pl by simp
    let ?q = "sn_next (nd s q) 0"
    have run: "sl_next q 0 s = Inr ?q" using live [OF q] by (simp add: sl_next_def)
    have M: "0 < MAXLEVEL" by (simp add: MAXLEVEL_def)
    have q': "set_option ?q \<subseteq> insert sl_tail (N 0)"
    proof (cases "q = sl_tail")
      case True
      then show ?thesis using mem_okD(1) [OF mem] by (simp add: ends_ok_def)
    next
      case False
      then show ?thesis using walk_next [OF mem M, of q] q by force
    qed
    show ?thesis
    proof (cases ?q)
      case None
      then show ?thesis using run pc cur
        by (intro step [where pc' = "Idle (Read_result None)" and cn = "(cur_node_per_thd s)(t := None)" and ci = "(cur_item_per_thd s)(t := None)"]) (auto simp: Let_def)
    next
      case (Some x)
      then show ?thesis using run pc cur q'
        by (intro step [where pc' = "Next_items x" and cn = "(cur_node_per_thd s)(t := Some x)" and ci = "cur_item_per_thd s"]) (auto simp: Let_def)
    qed
  next
    fix q assume pc: "pc = Next_items q"
    then show ?thesis using pl cur live [of q]
      by (intro step [where pc' = "Idle (Read_result (sn_items (nd s q)))" and cn = "cur_node_per_thd s" and ci = "(cur_item_per_thd s)(t := sn_items (nd s q))"]) auto
  qed
qed

end
