(* ===== verification/Skiplist_sys.thy ===== *)
theory Skiplist_sys
  imports Skiplist_step "HOL-Library.Sublist"
begin

text \<open>All threads together: the invariant holds in every state that can be reached, and what the operations return is what
  the abstract index has at one moment of their run.\<close>

lemma thread_step:
  assumes mem: "mem_ok s N m" and pl: "place_ok ex s N fr pc" and it: "own_item (fr, pc) \<inter> items_of m = {}"
    and ex: "ex \<or> (\<forall>c. pc \<noteq> Raise c)"
  shows "(\<exists>fr' pc' s'. sl_step t r fr pc s = Inr (fr', pc', s') \<and> step_ok ex s N m fr pc fr' pc' s') \<or>
    (sl_step t r fr pc s = Inl Assert_failed \<and> (\<exists>i x. pc = Walk For_read i x) \<and> m (fr_key fr) = None)"
proof (cases pc)
  case (Idle x)
  then show ?thesis using same_step_ok [OF mem pl, of pc] by (auto simp: commits_def)
next
  case (Begin g)
  have "place_ok ex s N fr (Walk g (sl_toplevel s) (sl_head s))"
    using pl Begin mem_okD(1,2) [OF mem] by (cases g) (auto simp: ends_ok_def before_def)
  then have "step_ok ex s N m fr pc fr (Walk g (sl_toplevel s) (sl_head s)) s"
    using pl Begin by (intro same_step_ok [OF mem]) (cases g; auto simp: commits_def own_item_def own_node_def)+
  then show ?thesis using Begin by auto
next
  case (Walk g i x)
  from walk_step [OF mem pl [unfolded Walk]] show ?thesis
  proof (elim disjE exE conjE)
    fix fr' pc' assume w: "search_step g i x fr s = Inr (fr', pc')" "place_ok ex s N fr' pc'" "\<not> commits (Walk g i x) pc'"
      "own_item (fr', pc') \<subseteq> own_item (fr, Walk g i x)" "own_node (fr', pc') \<subseteq> own_node (fr, Walk g i x)"
    then have "step_ok ex s N m fr pc fr' pc' s"
      using mem Walk unfolding step_ok_def by (intro exI [of _ N]) (auto simp: after_step_def)
    then show ?thesis using w(1) Walk by auto
  qed (use Walk in auto)
next
  case Top
  let ?pc = "if fr_level fr > sl_toplevel s then Set_top (sl_toplevel s) else Idle Inserted"
  have "step_ok ex s N m fr pc fr ?pc s" using pl Top by (intro same_step_ok [OF mem]) (auto simp: commits_def own_item_def own_node_def)
  then show ?thesis using Top by (intro disjI1 exI [of _ fr] exI [of _ ?pc] exI [of _ s] conjI) simp
next
  case (Set_top c)
  let ?s = "if sl_toplevel s = c then s\<lparr>sl_toplevel := fr_level fr\<rparr> else s"
  have "mem_ok ?s N m" using pl Set_top mem_okD(2,10) [OF mem] by (intro mem_ok_same [OF mem]) auto
  moreover have "evolves s N ?s N Q I" for Q I by (rule evolves_same) auto
  ultimately have "step_ok ex s N m fr pc fr (Idle Inserted) ?s"
    using Set_top unfolding step_ok_def by (intro exI [of _ N]) (auto simp: after_step_def commits_def own_item_def own_node_def)
  then show ?thesis using Set_top by auto
next
  case (Append q)
  show ?thesis unfolding Append by (rule disjI1, rule append_step [OF mem pl [unfolded Append] it [unfolded Append]])
next
  case (Swap q x)
  show ?thesis unfolding Swap by (rule disjI1, rule swap_step [OF mem pl [unfolded Swap] it [unfolded Swap]])
next
  case Make
  show ?thesis unfolding Make by (rule disjI1, rule make_step [OF mem pl [unfolded Make] it [unfolded Make]])
next
  case Link
  show ?thesis unfolding Link by (rule disjI1, rule link_step [OF mem pl [unfolded Link] it [unfolded Link]])
next
  case (Raise c)
  then show ?thesis using raise_ok [OF mem] pl ex by (intro disjI1) simp
next
  case (Splice c)
  show ?thesis unfolding Splice by (rule disjI1, rule splice_step [OF mem pl [unfolded Splice]])
next
  case (Read_item q)
  show ?thesis by (rule disjI1 [OF read_steps [OF mem pl]]) (simp add: Read_item)
next
  case (Read_cur q x)
  show ?thesis by (rule disjI1 [OF read_steps [OF mem pl]]) (simp add: Read_cur)
next
  case (Next_start b)
  show ?thesis by (rule disjI1 [OF read_steps [OF mem pl]]) (simp add: Next_start)
next
  case (Next_node q)
  show ?thesis by (rule disjI1 [OF read_steps [OF mem pl]]) (simp add: Next_node)
next
  case (Next_items q)
  show ?thesis by (rule disjI1 [OF read_steps [OF mem pl]]) (simp add: Next_items)
qed

subsection \<open>The system\<close>

lemma sys_okD:
  assumes "sys_ok ex s N m"
  shows "mem_ok (sy_mem s) N m" "items_of m \<subseteq> sy_used s" "place_ok ex (sy_mem s) N (fst (sy_thd s t)) (snd (sy_thd s t))"
    "own_item (sy_thd s t) \<subseteq> sy_used s - items_of m" "own_item (sy_thd s t) \<inter> items_of m = {}"
    "t \<noteq> u \<Longrightarrow> own_item (sy_thd s t) \<inter> own_item (sy_thd s u) = {}" "t \<noteq> u \<Longrightarrow> own_node (sy_thd s t) \<inter> own_node (sy_thd s u) = {}"
  using assms unfolding sys_ok_def by blast+

lemma own_node_live:
  assumes "mem_ok s N m" "place_ok ex s N fr pc" "p \<in> own_node (fr, pc)"
  shows "sl_heap s p \<noteq> None"
proof -
  have "\<exists>c. fr_new fr = None \<or> new_node s N fr c"
  proof (cases pc)
    case (Walk g i x)
    then show ?thesis using assms(2,3) by (cases g) (auto simp: own_node_def spare_node_def)
  qed (use assms(2,3) in \<open>auto simp: own_node_def spare_node_def\<close>)
  then show ?thesis using assms(3) by (auto simp: own_node_def new_node_def split: if_splits)
qed


text \<open>A step of one thread keeps what holds for all.\<close>

lemma sys_ok_step:
  assumes ok: "sys_ok ex s N m" and th: "sy_thd s t = (fr, pc)" and st: "step_ok ex (sy_mem s) N m fr pc fr' pc' mem'"
  shows "\<exists>N'. sys_ok ex (s\<lparr>sy_mem := mem', sy_thd := (sy_thd s)(t := (fr', pc'))\<rparr>) N' (after_step fr pc pc' m) \<and>
    evolves (sy_mem s) N mem' N' (own_node (fr, pc)) (own_item (fr, pc))"
proof -
  note k = sys_okD [OF ok]
  let ?m = "after_step fr pc pc' m"
  obtain N' where N': "mem_ok mem' N' ?m" "evolves (sy_mem s) N mem' N' (own_node (fr, pc)) (own_item (fr, pc))"
    "place_ok ex mem' N' fr' pc'" "own_item (fr', pc') \<subseteq> own_item (fr, pc)" "own_node (fr', pc') \<subseteq> insert (sl_fresh (sy_mem s)) (own_node (fr, pc))"
    using st unfolding step_ok_def by blast
  let ?s = "s\<lparr>sy_mem := mem', sy_thd := (sy_thd s)(t := (fr', pc'))\<rparr>"
  have items: "items_of ?m = (if commits pc pc' then insert (fr_item fr) (items_of m) else items_of m)" by (simp add: after_step_def)
  have own: "commits pc pc' \<Longrightarrow> own_item (fr, pc) = {fr_item fr} \<and> own_item (fr', pc') = {}" by (simp add: commits_def own_item_def)
  have mine: "own_item (fr, pc) \<subseteq> sy_used s - items_of m" using k(4) [of t] th by simp
  have other: "own_item (sy_thd s u) \<inter> own_item (fr, pc) = {}" "own_node (sy_thd s u) \<inter> own_node (fr, pc) = {}" if "u \<noteq> t" for u
    using k(6,7) [OF that] th by simp_all
  have fresh: "sl_fresh (sy_mem s) \<notin> own_node (sy_thd s u)" for u
  proof
    assume f: "sl_fresh (sy_mem s) \<in> own_node (sy_thd s u)"
    obtain a b where u: "sy_thd s u = (a, b)" by (cases "sy_thd s u")
    have "place_ok ex (sy_mem s) N a b" using k(3) [of u] u by simp
    from own_node_live [OF k(1) this] f u have "sl_heap (sy_mem s) (sl_fresh (sy_mem s)) \<noteq> None" by simp
    from mem_okD(8) [OF k(1) this] show False by simp
  qed
  have "items_of ?m \<subseteq> sy_used s" using k(2) mine own by (auto simp: items)
  moreover have "place_ok ex mem' N' (fst (sy_thd ?s u)) (snd (sy_thd ?s u)) \<and> own_item (sy_thd ?s u) \<subseteq> sy_used s - items_of ?m" for u
  proof (cases "u = t")
    case True
    have "own_item (fr', pc') \<subseteq> sy_used s - items_of ?m" using N'(4) mine own by (cases "commits pc pc'") (auto simp: items)
    then show ?thesis using True N'(3) by simp
  next
    case False
    have "place_ok ex mem' N' (fst (sy_thd s u)) (snd (sy_thd s u))"
      using evolves_place [OF k(1) N'(2) k(3) [of u]] other [OF False] by simp
    moreover have "own_item (sy_thd s u) \<subseteq> sy_used s - items_of ?m"
      using k(4) [of u] other(1) [OF False] own by (cases "commits pc pc'") (auto simp: items)
    ultimately show ?thesis using False by simp
  qed
  moreover have "own_item (sy_thd ?s u) \<inter> own_item (sy_thd ?s v) = {} \<and> own_node (sy_thd ?s u) \<inter> own_node (sy_thd ?s v) = {}" if "u \<noteq> v" for u v
  proof -
    have o: "own_item (fr', pc') \<inter> own_item (sy_thd s w) = {} \<and> own_node (fr', pc') \<inter> own_node (sy_thd s w) = {}" if "w \<noteq> t" for w
      using other [OF that] N'(4,5) fresh [of w] by blast
    show ?thesis using o [of u] o [of v] k(6,7) [OF that] that by (cases "u = t"; cases "v = t") (auto simp: Int_commute)
  qed
  ultimately have "sys_ok ex ?s N' ?m" using N'(1) unfolding sys_ok_def by simp
  then show ?thesis using N'(2) by blast
qed

lemma sys_ok_call:
  assumes ok: "sys_ok ex s N m" and th: "snd (sy_thd s t) = Idle x" and new: "op_items op \<inter> sy_used s = {}"
  shows "sys_ok ex (s\<lparr>sy_thd := (sy_thd s)(t := sl_call op (sy_mem s)), sy_used := sy_used s \<union> op_items op\<rparr>) N m"
proof -
  note k = sys_okD [OF ok]
  have p: "place_ok ex (sy_mem s) N (fst (sl_call op (sy_mem s))) (snd (sl_call op (sy_mem s)))"
    using mem_okD(1) [OF k(1)] by (cases op) (auto simp: sl_call_def spare_node_def ends_ok_def before_def MAXLEVEL_def)
  have i: "own_item (sl_call op (sy_mem s)) \<subseteq> op_items op" "own_node (sl_call op (sy_mem s)) = {}"
    by (cases op; simp add: sl_call_def own_item_def own_node_def)+
  have u: "own_item (sy_thd s u) \<subseteq> sy_used s" for u using k(4) by blast
  have "own_item (sl_call op (sy_mem s)) \<inter> own_item (sy_thd s u) = {}" for u using i(1) u [of u] new by blast
  moreover have "own_item (sy_thd s u) \<subseteq> (sy_used s \<union> op_items op) - items_of m" for u using k(4) [of u] by blast
  moreover have "own_item (sl_call op (sy_mem s)) \<subseteq> (sy_used s \<union> op_items op) - items_of m" using i(1) new k(2) by blast
  ultimately show ?thesis using k(1-3,6,7) p i(2) unfolding sys_ok_def by (auto simp: Int_commute)
qed

lemma sl_trans_ok:
  assumes "sys_ok True s N m" "sl_trans s t s'"
  shows "\<exists>N'. sys_ok True s' N' (after_step (fst (sy_thd s t)) (snd (sy_thd s t)) (snd (sy_thd s' t)) m)"
  using assms(2)
proof cases
  case (call x op)
  from sys_ok_call [OF assms(1) call(2,3)] call(1,2) show ?thesis by (auto simp: after_step_def commits_def)
next
  case (run fr pc r fr' pc' mem')
  note k = sys_okD [OF assms(1)]
  have "place_ok True (sy_mem s) N fr pc" "own_item (fr, pc) \<inter> items_of m = {}" using k(3) [of t] k(5) [of t] run(2) by simp_all
  from thread_step [OF k(1) this disjI1 [OF TrueI], of t r] run(3) have "step_ok True (sy_mem s) N m fr pc fr' pc' mem'" by auto
  from sys_ok_step [OF assms(1) run(2) this] show ?thesis using run(1,2) by auto
qed


subsection \<open>The start\<close>

lemma mem_ok_init: "mem_ok (sl_init nx) (\<lambda>_. {}) Map.empty"
proof -
  have h: "sl_heap (sl_init nx) p = (if p = 0 then Some \<lparr>sn_toplevel = MAXLEVEL - 1, sn_key = 0, sn_items = None,
        sn_next = (\<lambda>i. if i \<le> MAXLEVEL - 1 then Some 1 else None)\<rparr>
      else if p = 1 then Some \<lparr>sn_toplevel = MAXLEVEL - 1, sn_key = MAXKEY, sn_items = None, sn_next = (\<lambda>_. None)\<rparr> else None)"
    "sl_fresh (sl_init nx) = 2" "sl_head (sl_init nx) = 0" "sl_toplevel (sl_init nx) = 0" "cur_node_per_thd (sl_init nx) t = None" for p t
    by (simp_all add: sl_init_def allocate_node_def Let_def sl_put_def cong: if_cong)
  show ?thesis unfolding mem_ok_def ends_ok_def nd_def h
    by (auto simp: next_ok_def before_def item_slot_def slot_of_def nd_def h MAXLEVEL_def)
qed

lemma sys_ok_start: "sys_ok ex (sl_start nx) (\<lambda>_. {}) Map.empty"
  using mem_ok_init [of nx] by (simp add: sys_ok_def sl_start_def items_of_def own_item_def own_node_def)

definition sl_move :: "sl_sys \<Rightarrow> sl_sys \<Rightarrow> bool" where
  "sl_move s s' \<longleftrightarrow> (\<exists>t. sl_trans s t s')"

definition sl_inv :: "sl_sys \<Rightarrow> bool" where
  "sl_inv s \<longleftrightarrow> (\<exists>N m. sys_ok True s N m)"

interpretation sl_system: transition_system "\<lambda>s. \<exists>nx. s = sl_start nx" sl_move sl_inv
proof unfold_locales
  show "sl_inv s" if "\<exists>nx. s = sl_start nx" for s using that sys_ok_start unfolding sl_inv_def by blast
  show "sl_inv s'" if "sl_inv s" "sl_move s s'" for s s' using that sl_trans_ok unfolding sl_inv_def sl_move_def by blast
qed

lemma reached_ok:
  assumes "sl_move\<^sup>*\<^sup>* (sl_start nx) s"
  obtains N m where "sys_ok True s N m"
  using sl_system.reachable_inv [OF _ assms] unfolding sl_inv_def by blast

subsection \<open>The levels\<close>

text \<open>The nodes of a level, in the order in which they are reached from \<open>p\<close>.\<close>

fun level_walk :: "nat \<Rightarrow> IndexSkiplist \<Rightarrow> nat \<Rightarrow> nat \<Rightarrow> nat list" where
  "level_walk 0 s i p = []"
| "level_walk (Suc f) s i p =
     (case sn_next (nd s p) i of None \<Rightarrow> [] | Some q \<Rightarrow> if q = sl_tail then [] else q # level_walk f s i q)"

definition sl_level :: "IndexSkiplist \<Rightarrow> nat \<Rightarrow> nat list" where
  "sl_level s i = level_walk (sl_fresh s) s i (sl_head s)"

lemma level_finite: "mem_ok s N m \<Longrightarrow> finite (N i)"
  using levels_down [of s N m 0 i] mem_okD(3) [of s N m] finite_subset by auto

lemma level_walk_set:
  assumes mem: "mem_ok s N m" and i: "i < MAXLEVEL" and x: "x \<in> insert 0 (N i)"
    and f: "card {a \<in> N i. before s x (sn_key (nd s a))} \<le> f"
  shows "set (level_walk f s i x) = {a \<in> N i. before s x (sn_key (nd s a))} \<and>
    sorted_wrt (<) (map (\<lambda>a. sn_key (nd s a)) (level_walk f s i x))"
  using x f
proof (induction f arbitrary: x)
  case 0
  then have "{a \<in> N i. before s x (sn_key (nd s a))} = {}" using level_finite [OF mem] by simp
  then show ?case by simp
next
  case (Suc f)
  let ?A = "\<lambda>x. {a \<in> N i. before s x (sn_key (nd s a))}"
  obtain q where q: "sn_next (nd s x) i = Some q" "q \<in> insert sl_tail (N i)"
    "\<And>a. a \<in> N i \<Longrightarrow> before s x (sn_key (nd s a)) \<Longrightarrow> sn_key (nd s q) \<le> sn_key (nd s a)" "before s x (sn_key (nd s q))"
    using mem_okD(7) [OF mem i Suc.prems(1)] unfolding next_ok_def by blast
  have lt: "sn_key (nd s a) < MAXKEY" if "a \<in> N i" for a using mem_okD(5) [OF mem that] by (simp add: linked_node_def)
  show ?case
  proof (cases "q = sl_tail")
    case True
    then have "sn_key (nd s q) = MAXKEY" using tail_key [OF mem] by simp
    then have "?A x = {}" using q(3) lt by (metis (mono_tags, lifting) empty_Collect_eq leD)
    then show ?thesis using q(1) True by simp
  next
    case False
    then have qN: "q \<in> N i" "q \<noteq> 0" using q(2) mem_okD(5) [OF mem, of q i] by (auto simp: linked_node_def)
    have A: "?A x = insert q (?A q)" "q \<notin> ?A q"
    proof -
      have "a = q \<or> before s q (sn_key (nd s a))" if "a \<in> N i" "before s x (sn_key (nd s a))" for a
      proof (cases "sn_key (nd s a) = sn_key (nd s q)")
        case True
        then show ?thesis using mem_okD(6) [OF mem] linked_0 [OF mem that(1)] linked_0 [OF mem qN(1)] by (simp add: inj_on_def)
      next
        case False
        then have "sn_key (nd s q) < sn_key (nd s a)" using q(3) [OF that] by (metis le_neq_trans)
        then show ?thesis by (simp add: before_def)
      qed
      moreover have "before s x (sn_key (nd s a))" if "before s q (sn_key (nd s a))" for a
        using q(4) that qN(2) by (auto simp: before_def)
      ultimately show "?A x = insert q (?A q)" using qN(1) q(4) by blast
      show "q \<notin> ?A q" using qN(2) by (simp add: before_def)
    qed
    then have "card (?A x) = Suc (card (?A q))" using level_finite [OF mem] by simp
    then have "card (?A q) \<le> f" using Suc.prems(2) by simp
    from Suc.IH [OF _ this] qN(1) have ih: "set (level_walk f s i q) = ?A q"
      "sorted_wrt (<) (map (\<lambda>a. sn_key (nd s a)) (level_walk f s i q))" by simp_all
    have l: "level_walk (Suc f) s i x = q # level_walk f s i q" using q(1) False by simp
    have "\<forall>a\<in>?A q. sn_key (nd s q) < sn_key (nd s a)" using qN(2) by (simp add: before_def)
    then show ?thesis unfolding l using ih A(1) by simp
  qed
qed

lemma sl_level_ok:
  assumes mem: "mem_ok s N m" and i: "i < MAXLEVEL"
  shows "set (sl_level s i) = N i" "sorted_wrt (<) (map (\<lambda>a. sn_key (nd s a)) (sl_level s i))"
proof -
  have "N i \<subseteq> {..<sl_fresh s}" using mem_okD(8) [OF mem] live_node(1) [OF mem, of _ i] by auto
  then have "card {a \<in> N i. before s 0 (sn_key (nd s a))} \<le> sl_fresh s"
    using card_mono [of "{..<sl_fresh s}" "N i"] by (simp add: before_def)
  from level_walk_set [OF mem i insertI1 this] mem_okD(1) [OF mem]
  show "set (sl_level s i) = N i" "sorted_wrt (<) (map (\<lambda>a. sn_key (nd s a)) (sl_level s i))"
    by (simp_all add: sl_level_def ends_ok_def before_def)
qed

lemma sorted_subseq:
  fixes f :: "'a \<Rightarrow> 'b::linorder"
  shows "sorted_wrt (<) (map f xs) \<Longrightarrow> sorted_wrt (<) (map f ys) \<Longrightarrow> set xs \<subseteq> set ys \<Longrightarrow> subseq xs ys"
proof (induction ys arbitrary: xs)
  case (Cons y ys)
  show ?case
  proof (cases xs)
    case (Cons x xs')
    show ?thesis
    proof (cases "x = y")
      case True
      then have "set xs' \<subseteq> set ys" using Cons.prems Cons by auto
      then show ?thesis using Cons.IH [of xs'] Cons.prems(1,2) Cons True by simp
    next
      case False
      then have "x \<in> set ys" using Cons.prems(3) Cons by auto
      then have "y \<notin> set xs" using Cons.prems(1,2) Cons False by (auto dest: order.strict_trans)
      then have "set xs \<subseteq> set ys" using Cons.prems(3) by auto
      then show ?thesis using Cons.IH [of xs] Cons.prems(1,2) by (simp add: list_emb_Cons)
    qed
  qed simp
qed simp

subsection \<open>The abstract index\<close>

text \<open>The items of a key are those chained from the node that has it; the tail is the node of the largest key.\<close>

definition sl_rel :: "IndexSkiplist \<Rightarrow> idx_key_t index_spec \<Rightarrow> bool" where
  "sl_rel s m \<longleftrightarrow> (\<forall>k is. m k = Some is \<longleftrightarrow> is \<noteq> [] \<and>
     (\<exists>p\<in>insert sl_tail (set (sl_level s 0)). sn_key (nd s p) = k \<and> chain (sl_item_next s) (sn_items (nd s p)) is))"

lemma sl_rel_functional: "sl_rel s m \<Longrightarrow> sl_rel s m' \<Longrightarrow> m = m'"
  unfolding sl_rel_def by (intro ext option.expand) (metis option.exhaust_sel option.distinct(1) option.sel)+

lemma mem_ok_rel:
  assumes mem: "mem_ok s N m"
  shows "sl_rel s m"
proof -
  have M: "0 < MAXLEVEL" by (simp add: MAXLEVEL_def)
  note sl = mem_okD(9) [OF mem] and lv = sl_level_ok(1) [OF mem M]
  have slot: "slot_of (sl_item_next s) (sn_items (nd s p)) (m (sn_key (nd s p)))" if "p \<in> insert sl_tail (N 0)" for p
    using sl that unfolding item_slot_def by blast
  show ?thesis unfolding sl_rel_def lv
  proof (intro allI iffI)
    fix k "is" assume mk: "m k = Some is"
    then obtain p where p: "p \<in> insert sl_tail (N 0)" "sn_key (nd s p) = k" using sl unfolding item_slot_def by blast
    from slot [OF p(1)] p mk show "is \<noteq> [] \<and> (\<exists>p\<in>insert sl_tail (N 0). sn_key (nd s p) = k \<and> chain (sl_item_next s) (sn_items (nd s p)) is)"
      by (auto simp: slot_of_def split: option.splits)
  next
    fix k "is" assume a: "is \<noteq> [] \<and> (\<exists>p\<in>insert sl_tail (N 0). sn_key (nd s p) = k \<and> chain (sl_item_next s) (sn_items (nd s p)) is)"
    then obtain p where p: "p \<in> insert sl_tail (N 0)" "sn_key (nd s p) = k" "chain (sl_item_next s) (sn_items (nd s p)) is" by blast
    then obtain i where "sn_items (nd s p) = Some i" using a by (cases "is") auto
    then obtain is' where "m k = Some is'" "chain (sl_item_next s) (sn_items (nd s p)) is'" using slot [OF p(1)] p(2) by (auto simp: slot_of_def)
    with p(3) chain_functional show "m k = Some is" by metis
  qed
qed

end
