(* ===== verification/Skiplist_props.thy ===== *)
theory Skiplist_props
  imports Skiplist_sys
begin

text \<open>What the lock-free skip list promises, and concrete runs of it.\<close>

subsection \<open>Runs by a schedule\<close>

text \<open>The scheduler lets a thread call an operation or make its next step; \<open>r\<close> is what its random number generator returns.\<close>

datatype sl_act = Call sl_op | Run "32 word"

fun sl_do :: "nat \<Rightarrow> sl_act \<Rightarrow> sl_sys \<Rightarrow> fault + sl_sys" where
  "sl_do t (Call op) s =
     (case snd (sy_thd s t) of
        Idle x \<Rightarrow> bindE (guard Undefined_behaviour (op_items op \<inter> sy_used s = {})) (\<lambda>_.
          Inr (s\<lparr>sy_thd := (sy_thd s)(t := sl_call op (sy_mem s)), sy_used := sy_used s \<union> op_items op\<rparr>))
      | _ \<Rightarrow> Inl Undefined_behaviour)"
| "sl_do t (Run r) s =
     bindE (sl_step t r (fst (sy_thd s t)) (snd (sy_thd s t)) (sy_mem s)) (\<lambda>(fr, pc, mem).
     Inr (s\<lparr>sy_mem := mem, sy_thd := (sy_thd s)(t := (fr, pc))\<rparr>))"

fun sl_exec :: "(nat \<times> sl_act) list \<Rightarrow> sl_sys \<Rightarrow> fault + sl_sys" where
  "sl_exec [] s = Inr s"
| "sl_exec ((t, a) # as) s = bindE (sl_do t a s) (sl_exec as)"

lemma sl_do_trans: "sl_do t a s = Inr s' \<Longrightarrow> sl_trans s t s'"
proof (cases a)
  case (Call op)
  assume "sl_do t a s = Inr s'"
  then show ?thesis using Call sl_trans.call [of s t _ op] by (auto split: sl_pc.splits if_splits)
next
  case (Run r)
  assume "sl_do t a s = Inr s'"
  then show ?thesis using Run sl_trans.run [of s t "fst (sy_thd s t)" "snd (sy_thd s t)" r] by (auto simp: bindE_eq_Inr)
qed

lemma sl_exec_moves: "sl_exec as s = Inr s' \<Longrightarrow> sl_move\<^sup>*\<^sup>* s s'"
proof (induction as arbitrary: s)
  case (Cons x as)
  obtain t a where x: "x = (t, a)" by (cases x)
  obtain s1 where s1: "sl_do t a s = Inr s1" "sl_exec as s1 = Inr s'" using Cons.prems x by (auto simp: bindE_eq_Inr)
  have "sl_move s s1" using sl_do_trans [OF s1(1)] by (auto simp: sl_move_def)
  then show ?case using Cons.IH [OF s1(2)] by (rule converse_rtranclp_into_rtranclp)
qed simp

abbreviation runs :: "nat \<Rightarrow> nat \<Rightarrow> (nat \<times> sl_act) list" where
  "runs n t \<equiv> replicate n (t, Run 1)"

text \<open>The state after a schedule that does not fail, from the empty index.\<close>

definition sl_after :: "(nat \<times> sl_act) list \<Rightarrow> sl_sys" where
  "sl_after as = projr (sl_exec as (sl_start (\<lambda>_. None)))"

lemma sl_after_reached: "isl (sl_exec as (sl_start (\<lambda>_. None))) = False \<Longrightarrow> sl_move\<^sup>*\<^sup>* (sl_start (\<lambda>_. None)) (sl_after as)"
  using sl_exec_moves [of as] by (cases "sl_exec as (sl_start (\<lambda>_. None))") (auto simp: sl_after_def)


lemma sl_exec_snoc: "sl_exec (as @ [(t, a)]) s = bindE (sl_exec as s) (sl_do t a)"
  by (induction as arbitrary: s) (auto simp: bindE_assoc bindE_def split: sum.splits)

lemma sl_after_trans:
  assumes "\<not> isl (sl_exec (as @ [(t, a)]) (sl_start (\<lambda>_. None)))"
  shows "sl_trans (sl_after as) t (sl_after (as @ [(t, a)]))"
  using assms sl_do_trans by (cases "sl_exec as (sl_start (\<lambda>_. None))"; cases "sl_do t a (sl_after as)") (auto simp: sl_after_def sl_exec_snoc)

lemma sl_rel_empty: "sl_level s 0 = [] \<Longrightarrow> sn_items (nd s sl_tail) = None \<Longrightarrow> sl_rel s Map.empty"
  unfolding sl_rel_def by (auto elim: chain.elims)

text \<open>The insert of an item with key 5 by thread 0 into the empty index.\<close>

definition insert5 :: "(nat \<times> sl_act) list" where
  "insert5 = (0, Call (Op_insert 5 10)) # runs 29 0"

lemma retrying_Walk: "retrying (Walk g i x) \<longleftrightarrow> g = For_retry"
  by (cases g) simp_all

subsection \<open>The index and its operations\<close>

text \<open>C6: The threads' steps refine the abstract index: a step leaves it as it is, or, when it is the one with which the
  thread's insert takes effect (the compare-and-swap of the bottom pointer, or that of the items of the key's node), it puts the
  item in front of those of its key.\<close>

theorem skiplist_refines:
  assumes "sl_move\<^sup>*\<^sup>* (sl_start nx) s" "sl_rel (sy_mem s) m" "sl_trans s t s'"
  shows "sl_rel (sy_mem s') (if commits (snd (sy_thd s t)) (snd (sy_thd s' t))
      then push_item (fr_key (fst (sy_thd s t))) (fr_item (fst (sy_thd s t))) m else m)"
proof -
  obtain N m' where ok: "sys_ok True s N m'" by (rule reached_ok [OF assms(1)])
  then have "m' = m" using sl_rel_functional mem_ok_rel sys_okD(1) assms(2) by metis
  moreover obtain N' where "sys_ok True s' N' (after_step (fst (sy_thd s t)) (snd (sy_thd s t)) (snd (sy_thd s' t)) m')"
    using sl_trans_ok [OF ok assms(3)] by blast
  ultimately show ?thesis using mem_ok_rel [OF sys_okD(1)] by (simp add: after_step_def)
qed

theorem skiplist_refines_witness:
  "sl_rel (sy_mem (sl_after (take 28 insert5))) (push_item 5 10 Map.empty)"
proof -
  have r: "sl_move\<^sup>*\<^sup>* (sl_start (\<lambda>_. None)) (sl_after (take 27 insert5))" by (rule sl_after_reached) code_simp
  have e: "sl_rel (sy_mem (sl_after (take 27 insert5))) Map.empty" by (rule sl_rel_empty; code_simp)
  have "sl_trans (sl_after (take 27 insert5)) 0 (sl_after (take 27 insert5 @ [(0, Run 1)]))" by (rule sl_after_trans) code_simp
  moreover have "take 27 insert5 @ [(0, Run 1)] = take 28 insert5" by (simp add: insert5_def numeral_eq_Suc)
  ultimately have t: "sl_trans (sl_after (take 27 insert5)) 0 (sl_after (take 28 insert5))" by simp
  have c: "commits (snd (sy_thd (sl_after (take 27 insert5)) 0)) (snd (sy_thd (sl_after (take 28 insert5)) 0)) \<and>
    fr_key (fst (sy_thd (sl_after (take 27 insert5)) 0)) = 5 \<and> fr_item (fst (sy_thd (sl_after (take 27 insert5)) 0)) = 10" by code_simp
  show ?thesis using skiplist_refines [OF r e t] c by simp
qed

text \<open>An insert takes effect once: a thread is before that point only from the call on, never again by a step of its run.\<close>

theorem skiplist_insert_once:
  assumes "sl_move\<^sup>*\<^sup>* (sl_start nx) s" "sl_trans s t s'" "retrying (snd (sy_thd s' t))"
  shows "retrying (snd (sy_thd s t)) \<or> (\<exists>k i. sy_thd s' t = sl_call (Op_insert k i) (sy_mem s) \<and> i \<notin> sy_used s)"
  using assms(2)
proof cases
  case (call x op)
  then show ?thesis using assms(3) by (cases op) (auto simp: sl_call_def)
next
  case (run fr pc r fr' pc' mem')
  obtain N m where ok: "sys_ok True s N m" by (rule reached_ok [OF assms(1)])
  have "place_ok True (sy_mem s) N fr pc" using sys_okD(3) [OF ok, of t] run(2) by simp
  then have b: "pc \<noteq> Begin For_retry" by auto
  have "retrying pc" if "sl_step t r fr pc (sy_mem s) = Inr (fr', pc', mem')" "retrying pc'"
    using that b by (cases pc) (auto simp: retrying_Walk bindE_eq_Inr search_step_def raise_step_def Let_def split: if_splits option.splits prod.splits elim!: after_search.elims)
  then show ?thesis using run assms(3) by simp
qed

theorem skiplist_insert_once_witness:
  "\<exists>k i. sy_thd (sl_after (take 1 insert5)) 0 = sl_call (Op_insert k i) (sy_mem (sl_after [])) \<and> i \<notin> sy_used (sl_after [])"
proof -
  have "sl_trans (sl_after []) 0 (sl_after ([] @ [(0, Call (Op_insert 5 10))]))" by (rule sl_after_trans) code_simp
  then have t: "sl_trans (sl_after []) 0 (sl_after (take 1 insert5))" by (simp add: insert5_def)
  have r: "retrying (snd (sy_thd (sl_after (take 1 insert5)) 0))" by code_simp
  have n: "\<not> retrying (snd (sy_thd (sl_after []) 0))" by code_simp
  have "sl_move\<^sup>*\<^sup>* (sl_start (\<lambda>_. None)) (sl_after [])" by (rule sl_after_reached) code_simp
  from skiplist_insert_once [OF this t r] n show ?thesis by simp
qed

text \<open>C20: On every level the nodes that are reached from the head have increasing keys, and each of them is on the level below.\<close>

theorem skiplist_levels:
  assumes "sl_move\<^sup>*\<^sup>* (sl_start nx) s" "i < MAXLEVEL"
  shows "sorted_wrt (<) (map (\<lambda>p. sn_key (nd (sy_mem s) p)) (sl_level (sy_mem s) i)) \<and>
    subseq (sl_level (sy_mem s) i) (sl_level (sy_mem s) (i - 1)) \<and> sl_toplevel (sy_mem s) < MAXLEVEL"
proof -
  obtain N m where ok: "sys_ok True s N m" by (rule reached_ok [OF assms(1)])
  note mem = sys_okD(1) [OF ok] and j = less_imp_diff_less [OF assms(2), of 1]
  have "set (sl_level (sy_mem s) i) \<subseteq> set (sl_level (sy_mem s) (i - 1))"
    unfolding sl_level_ok(1) [OF mem assms(2)] sl_level_ok(1) [OF mem j] by (rule levels_down [OF mem]) simp
  then show ?thesis
    using sl_level_ok(2) [OF mem assms(2)] sl_level_ok(2) [OF mem j] sorted_subseq mem_okD(2) [OF mem] by blast
qed

theorem skiplist_levels_witness:
  "subseq (sl_level (sy_mem (sl_after insert5)) 0) (sl_level (sy_mem (sl_after insert5)) 0) \<and> sl_level (sy_mem (sl_after insert5)) 0 = [2]"
proof -
  have r: "sl_move\<^sup>*\<^sup>* (sl_start (\<lambda>_. None)) (sl_after insert5)" by (rule sl_after_reached) code_simp
  have "sl_level (sy_mem (sl_after insert5)) 0 = [2]" by code_simp
  then show ?thesis using skiplist_levels [OF r, of 0] by (simp add: MAXLEVEL_def)
qed

text \<open>C9: No step of any thread dereferences a null or a freed pointer, reads past a tower or fails an assertion, with one exception:
  \<^verbatim>\<open>index_read\<close> of a key the index does not have.\<close>

theorem skiplist_safe:
  assumes "sl_move\<^sup>*\<^sup>* (sl_start nx) s" "sl_rel (sy_mem s) m" "sy_thd s t = (fr, pc)" "sl_step t r fr pc (sy_mem s) = Inl e"
  shows "e = Assert_failed \<and> (\<exists>i x. pc = Walk For_read i x) \<and> m (fr_key fr) = None"
proof -
  obtain N m' where ok: "sys_ok True s N m'" by (rule reached_ok [OF assms(1)])
  then have m: "m' = m" using sl_rel_functional mem_ok_rel sys_okD(1) assms(2) by metis
  note k = sys_okD [OF ok]
  have "place_ok True (sy_mem s) N fr pc" "own_item (fr, pc) \<inter> items_of m' = {}" using k(3) [of t] k(5) [of t] assms(3) by simp_all
  from thread_step [OF k(1) this disjI1 [OF TrueI], of t r] assms(4) m show ?thesis by auto
qed

theorem skiplist_safe_witness:
  "\<exists>i x. snd (sy_thd (sl_after [(0, Call (Op_read 5)), (0, Run 1)]) 0) = Walk For_read i x"
proof -
  let ?as = "[(0, Call (Op_read 5)), (0, Run 1)]"
  have r: "sl_move\<^sup>*\<^sup>* (sl_start (\<lambda>_. None)) (sl_after ?as)" by (rule sl_after_reached) code_simp
  have e: "sl_rel (sy_mem (sl_after ?as)) Map.empty" by (rule sl_rel_empty; code_simp)
  have "case sl_step 0 1 (fst (sy_thd (sl_after ?as) 0)) (snd (sy_thd (sl_after ?as) 0)) (sy_mem (sl_after ?as)) of Inl e \<Rightarrow> True | Inr x \<Rightarrow> False" by code_simp
  then obtain e where f: "sl_step 0 1 (fst (sy_thd (sl_after ?as) 0)) (snd (sy_thd (sl_after ?as) 0)) (sy_mem (sl_after ?as)) = Inl e"
    by (auto split: sum.splits)
  show ?thesis using skiplist_safe [OF r e prod.collapse [symmetric] f] by simp
qed

text \<open>C24: What the lookups return is what the index has at one moment of their run. \<open>index_exist\<close> answers at its last step
  whether the key is there, but says yes to the largest key in any case, which belongs to the tail; \<open>index_read\<close> returns the newest item of
  its key when it reads the items of the node.\<close>

theorem skiplist_lookups:
  assumes "sl_move\<^sup>*\<^sup>* (sl_start nx) s" "sl_rel (sy_mem s) m" "sy_thd s t = (fr, pc)"
    "sl_step t r fr pc (sy_mem s) = Inr (fr', pc', mem')"
  shows "(\<forall>i x b. pc = Walk For_exist i x \<and> pc' = Idle (Exists b) \<longrightarrow> b = (fr_key fr \<in> dom m \<or> fr_key fr = MAXKEY)) \<and>
    (\<forall>q item. pc = Read_item q \<and> pc' = Read_cur q item \<longrightarrow> item = map_option hd (m (fr_key fr)))"
proof -
  obtain N m' where ok: "sys_ok True s N m'" by (rule reached_ok [OF assms(1)])
  then have m: "m' = m" using sl_rel_functional mem_ok_rel sys_okD(1) assms(2) by metis
  note k = sys_okD [OF ok]
  have mem: "mem_ok (sy_mem s) N m" and pl: "place_ok True (sy_mem s) N fr pc" using k(1) k(3) [of t] assms(3) m by simp_all
  have "b = (fr_key fr \<in> dom m \<or> fr_key fr = MAXKEY)" if pc: "pc = Walk For_exist i x" "pc' = Idle (Exists b)" for i x b
  proof -
    have "search_step For_exist i x fr (sy_mem s) = Inr (fr', pc')" using assms(4) pc(1) by (auto simp: bindE_eq_Inr)
    then show ?thesis using walk_step [OF mem pl [unfolded pc(1)]] pc(2) by simp
  qed
  moreover have "item = map_option hd (m (fr_key fr))" if pc: "pc = Read_item q" "pc' = Read_cur q item" for q item
  proof -
    have q: "q \<in> insert sl_tail (N 0)" "sn_key (nd (sy_mem s) q) = fr_key fr" using pl pc(1) by simp_all
    then have "q \<in> insert 0 (insert sl_tail (N 0))" by auto
    then have i: "item = sn_items (nd (sy_mem s) q)" using live_node(2) [OF mem] assms(4) pc by simp
    have "slot_of (sl_item_next (sy_mem s)) (sn_items (nd (sy_mem s) q)) (m (fr_key fr))"
      using mem_okD(9) [OF mem] q unfolding item_slot_def by metis
    then show ?thesis unfolding i slot_of_def by (auto split: option.splits elim: chain.elims)
  qed
  ultimately show ?thesis by blast
qed

text \<open>Thread 0 inserts an item with key 5; then it reads key 5, or asks whether key 7 is there.\<close>

abbreviation read5 :: "(nat \<times> sl_act) list" where
  "read5 \<equiv> insert5 @ (0, Call (Op_read 5)) # runs 2 0"

abbreviation exist7 :: "(nat \<times> sl_act) list" where
  "exist7 \<equiv> insert5 @ (0, Call (Op_exist 7)) # runs 2 0"

lemma sl_rel_single:
  assumes "sl_level s 0 = [p] \<and> sn_key (nd s p) = k \<and> sn_items (nd s p) = Some i \<and> sl_item_next s i = None \<and> sn_items (nd s sl_tail) = None"
  shows "sl_rel s (push_item k i Map.empty)"
  using assms unfolding sl_rel_def by (auto simp: push_item_apply neq_Nil_conv elim: chain.elims)

theorem skiplist_lookups_witness:
  "(\<exists>fr' item mem'. sl_step 0 1 (fst (sy_thd (sl_after read5) 0)) (snd (sy_thd (sl_after read5) 0)) (sy_mem (sl_after read5)) =
      Inr (fr', Read_cur 2 item, mem') \<and> item = Some 10) \<and>
   (\<exists>fr' b mem'. sl_step 0 1 (fst (sy_thd (sl_after exist7) 0)) (snd (sy_thd (sl_after exist7) 0)) (sy_mem (sl_after exist7)) =
      Inr (fr', Idle (Exists b), mem') \<and> \<not> b)"
proof
  let ?s = "sl_after read5"
  have r: "sl_move\<^sup>*\<^sup>* (sl_start (\<lambda>_. None)) ?s" by (rule sl_after_reached) code_simp
  have m: "sl_rel (sy_mem ?s) (push_item 5 10 Map.empty)" by (rule sl_rel_single [of _ 2]) code_simp
  have pc: "snd (sy_thd ?s 0) = Read_item 2 \<and> fr_key (fst (sy_thd ?s 0)) = 5 \<and>
    (case sl_step 0 1 (fst (sy_thd ?s 0)) (snd (sy_thd ?s 0)) (sy_mem ?s) of Inr (fr', Read_cur q i, mem') \<Rightarrow> q = 2 | _ \<Rightarrow> False)" by code_simp
  then obtain fr' item mem' where st: "sl_step 0 1 (fst (sy_thd ?s 0)) (snd (sy_thd ?s 0)) (sy_mem ?s) = Inr (fr', Read_cur 2 item, mem')"
    by (auto split: sum.splits prod.splits sl_pc.splits)
  with skiplist_lookups [OF r m prod.collapse [symmetric] st] pc show "\<exists>fr' item mem'. sl_step 0 1 (fst (sy_thd ?s 0)) (snd (sy_thd ?s 0)) (sy_mem ?s) =
      Inr (fr', Read_cur 2 item, mem') \<and> item = Some 10" by (auto simp: push_item_apply)
next
  let ?s = "sl_after exist7"
  have r: "sl_move\<^sup>*\<^sup>* (sl_start (\<lambda>_. None)) ?s" by (rule sl_after_reached) code_simp
  have m: "sl_rel (sy_mem ?s) (push_item 5 10 Map.empty)" by (rule sl_rel_single [of _ 2]) code_simp
  have pc: "snd (sy_thd ?s 0) = Walk For_exist 0 2 \<and> fr_key (fst (sy_thd ?s 0)) = 7 \<and>
    (case sl_step 0 1 (fst (sy_thd ?s 0)) (snd (sy_thd ?s 0)) (sy_mem ?s) of Inr (fr', Idle (Exists b), mem') \<Rightarrow> True | _ \<Rightarrow> False)" by code_simp
  then obtain fr' b mem' where st: "sl_step 0 1 (fst (sy_thd ?s 0)) (snd (sy_thd ?s 0)) (sy_mem ?s) = Inr (fr', Idle (Exists b), mem')"
    by (auto split: sum.splits prod.splits sl_pc.splits sl_result.splits)
  with skiplist_lookups [OF r m prod.collapse [symmetric] st] pc show "\<exists>fr' b mem'. sl_step 0 1 (fst (sy_thd ?s 0)) (snd (sy_thd ?s 0)) (sy_mem ?s) =
      Inr (fr', Idle (Exists b), mem') \<and> \<not> b" by (auto simp: push_item_apply MAXKEY_def UINT64_MAX_def)
qed


subsection \<open>Searches end\<close>

text \<open>How far a search has still to go: levels below, and keys ahead.\<close>

fun search_rank :: "IndexSkiplist \<Rightarrow> sl_pc \<Rightarrow> nat" where
  "search_rank s (Walk g i x) = Suc (i * (2 ^ 64 + 1) + (if x = 0 then 2 ^ 64 else 2 ^ 64 - 1 - unat (sn_key (nd s x))))"
| "search_rank s _ = 0"

lemma rank_forward:
  assumes "before s x (sn_key (nd s q))" "q \<noteq> 0"
  shows "search_rank s (Walk g i q) < search_rank s (Walk g i x)"
proof -
  have u: "unat (sn_key (nd s q)) < 2 ^ 64" using unsigned_less [of "sn_key (nd s q)"] by simp
  show ?thesis
  proof (cases "x = 0")
    case False
    then have "unat (sn_key (nd s x)) < unat (sn_key (nd s q))" using assms(1) by (simp add: before_def word_less_nat_alt)
    then show ?thesis using u False assms(2) by simp
  qed (use assms(2) in simp)
qed

lemma rank_own_step:
  assumes mem: "mem_ok s N m" and pl: "place_ok True s N fr (Walk g i x)" and st: "search_step g i x fr s = Inr (fr', pc')"
  shows "search_rank s pc' < search_rank s (Walk g i x)"
proof -
  have i: "i < MAXLEVEL" and x: "x \<in> insert 0 (N i)" using pl by simp_all
  obtain q where q: "sn_next (nd s x) i = Some q" "q \<in> insert sl_tail (N i)" "before s x (sn_key (nd s q))"
    using mem_okD(7) [OF mem i x] unfolding next_ok_def by blast
  have q0: "q \<noteq> 0" using q(2) mem_okD(5) [OF mem, of q i] by (auto simp: linked_node_def)
  have run: "sl_succ x i s = Inr q" "sl_node_at q s = Inr (nd s q)"
    using walk_next [OF mem i x] q(1) by (metis option.inject)+
  have down: "search_rank s (Walk g (i - 1) x) < search_rank s (Walk g i x)" if "0 < i" using that by (cases i) simp_all
  have stop: "search_rank s pc = 0" if "after_search g q fr1 s = Inr pc" for fr1 pc
    using that by (cases g) (auto simp: bindE_eq_Inr split: if_splits)
  show ?thesis
    using st run rank_forward [OF q(3) q0, of g i] down stop
    by (auto simp: search_step_def bindE_eq_Inr Let_def split: if_splits)
qed

text \<open>C27: Every search ends, whatever the other threads do: each of its own steps brings it closer to the end, by a level or by a
  key, and no step of another thread takes it back.\<close>

theorem skiplist_search_ends:
  assumes "sl_move\<^sup>*\<^sup>* (sl_start nx) s" "sl_trans s u s'" "snd (sy_thd s t) = Walk g i x"
  shows "if u = t then search_rank (sy_mem s') (snd (sy_thd s' t)) < search_rank (sy_mem s) (Walk g i x)
    else snd (sy_thd s' t) = Walk g i x \<and> search_rank (sy_mem s') (Walk g i x) = search_rank (sy_mem s) (Walk g i x)"
proof -
  obtain N m where ok: "sys_ok True s N m" by (rule reached_ok [OF assms(1)])
  note k = sys_okD [OF ok]
  show ?thesis
    using assms(2)
  proof cases
    case (call y op)
    then show ?thesis using assms(3) by auto
  next
    case (run fr pc r fr' pc' mem')
    have pl: "place_ok True (sy_mem s) N fr pc" "own_item (fr, pc) \<inter> items_of m = {}" using k(3) [of u] k(5) [of u] run(2) by simp_all
    show ?thesis
    proof (cases "u = t")
      case True
      then have pc: "pc = Walk g i x" using assms(3) run(2) by simp
      then have "search_step g i x fr (sy_mem s) = Inr (fr', pc')" "mem' = sy_mem s" using run(3) by (auto simp: bindE_eq_Inr)
      with rank_own_step [OF k(1) pl(1) [unfolded pc]] run(1) True show ?thesis by simp
    next
      case False
      have "x \<in> insert 0 (N i)" using k(3) [of t] assms(3) by simp
      then have "x \<in> insert 0 (insert sl_tail (N 0))" using linked_0 [OF k(1), of x i] by auto
      moreover have "step_ok True (sy_mem s) N m fr pc fr' pc' mem'" using thread_step [OF k(1) pl disjI1 [OF TrueI], of u r] run(3) by auto
      ultimately have "sn_key (nd mem' x) = sn_key (nd (sy_mem s) x)" unfolding step_ok_def evolves_def by blast
      then show ?thesis using False run(1) assms(3) by simp
    qed
  qed
qed

theorem skiplist_search_ends_witness:
  "search_rank (sy_mem (sl_after (take 2 insert5))) (snd (sy_thd (sl_after (take 2 insert5)) 0)) < search_rank (sy_mem (sl_after (take 1 insert5))) (Walk For_retry 24 0)"
proof -
  have r: "sl_move\<^sup>*\<^sup>* (sl_start (\<lambda>_. None)) (sl_after (take 1 insert5))" by (rule sl_after_reached) code_simp
  have "sl_trans (sl_after (take 1 insert5)) 0 (sl_after (take 1 insert5 @ [(0, Run 1)]))" by (rule sl_after_trans) code_simp
  moreover have "take 1 insert5 @ [(0, Run 1)] = take 2 insert5" by (simp add: insert5_def numeral_eq_Suc)
  ultimately have t: "sl_trans (sl_after (take 1 insert5)) 0 (sl_after (take 2 insert5))" by simp
  have w: "snd (sy_thd (sl_after (take 1 insert5)) 0) = Walk For_retry 24 0" by code_simp
  show ?thesis using skiplist_search_ends [OF r t w] by simp
qed

text \<open>\<open>index_read\<close> reads the items of its node twice, once for the caller and once for the cursor. When another thread inserts an item
  with the same key in between, \<open>index_next\<close> starts at the newer item and returns the caller's item a second time.\<close>

definition read_insert_next :: "(nat \<times> sl_act) list" where
  "read_insert_next = insert5 @ (0, Call (Op_read 5)) # runs 3 0 @ (1, Call (Op_insert 5 11)) # runs 28 1 @ (0, Run 1) # (0, Call (Op_next True)) # runs 1 0"

theorem skiplist_read_twice:
  "\<exists>s s1 s2. sl_move\<^sup>*\<^sup>* (sl_start (\<lambda>_. None)) s \<and> snd (sy_thd s 0) = Idle (Read_result (Some 10)) \<and>
     sl_trans s 0 s1 \<and> snd (sy_thd s1 0) = Next_start True \<and> sl_trans s1 0 s2 \<and> snd (sy_thd s2 0) = Idle (Read_result (Some 10))"
proof -
  let ?s = "sl_after (take 64 read_insert_next)" and ?s1 = "sl_after (take 65 read_insert_next)" and ?s2 = "sl_after read_insert_next"
  have r: "sl_move\<^sup>*\<^sup>* (sl_start (\<lambda>_. None)) ?s" by (rule sl_after_reached) code_simp
  have 1: "snd (sy_thd ?s 0) = Idle (Read_result (Some 10))" by code_simp
  have a: "take 64 read_insert_next @ [(0, Call (Op_next True))] = take 65 read_insert_next" "take 65 read_insert_next @ [(0, Run 1)] = read_insert_next"
    by (simp_all add: read_insert_next_def insert5_def numeral_eq_Suc)
  have "sl_trans ?s 0 (sl_after (take 64 read_insert_next @ [(0, Call (Op_next True))]))" by (rule sl_after_trans) code_simp
  then have 2: "sl_trans ?s 0 ?s1" unfolding a .
  have "sl_trans ?s1 0 (sl_after (take 65 read_insert_next @ [(0, Run 1)]))" by (rule sl_after_trans) code_simp
  then have 3: "sl_trans ?s1 0 ?s2" unfolding a .
  have "snd (sy_thd ?s1 0) = Next_start True" "snd (sy_thd ?s2 0) = Idle (Read_result (Some 10))" by code_simp+
  with r 1 2 3 show ?thesis by blast
qed

end
