(* ===== verification/Foresight_sim.thy ===== *)
theory Foresight_sim
  imports Foresight Skiplist_props
begin

text \<open>Without the keys beside the pointers the skip list with foresight is the plain one. \<open>er\<close> leaves them out.\<close>

definition er_node :: "SkiplistForesightNode \<Rightarrow> SkiplistNode" where
  "er_node n = \<lparr>sn_toplevel = slf_toplevel n, sn_key = slf_key n, sn_items = slf_items n,
     sn_next = (\<lambda>i. case slf_next n i of None \<Rightarrow> None | Some (q, k) \<Rightarrow> q)\<rparr>"

definition er :: "IndexSkiplistForesight \<Rightarrow> IndexSkiplist" where
  "er s = \<lparr>sl_heap = (\<lambda>p. map_option er_node (slf_heap s p)), sl_fresh = slf_fresh s, sl_head = slf_head s, sl_toplevel = slf_top s,
     sl_item_next = slf_item_next s, cur_node_per_thd = slf_cur_node s, cur_item_per_thd = slf_cur_item s\<rparr>"

fun flat :: "slf_pc \<Rightarrow> sl_pc" where
  "flat (At pc) = pc"
| "flat (Peek g i x) = Walk g i x"
| "flat (Peek_ptr g i x k) = Walk g i x"

lemma er_node_sel [simp]:
  "sn_toplevel (er_node n) = slf_toplevel n" "sn_key (er_node n) = slf_key n" "sn_items (er_node n) = slf_items n"
  "sn_next (er_node n) i = (case slf_next n i of None \<Rightarrow> None | Some (q, k) \<Rightarrow> q)"
  by (simp_all add: er_node_def)

lemma er_sel [simp]:
  "sl_heap (er s) p = map_option er_node (slf_heap s p)" "sl_fresh (er s) = slf_fresh s" "sl_head (er s) = slf_head s"
  "sl_toplevel (er s) = slf_top s" "sl_item_next (er s) = slf_item_next s" "cur_node_per_thd (er s) = slf_cur_node s"
  "cur_item_per_thd (er s) = slf_cur_item s"
  by (simp_all add: er_def)

lemma er_upd [simp]:
  "er (slf_put p n s) = sl_put p (er_node n) (er s)"
  "er (s\<lparr>slf_item_next := a\<rparr>) = (er s)\<lparr>sl_item_next := a\<rparr>" "er (s\<lparr>slf_cur_node := b\<rparr>) = (er s)\<lparr>cur_node_per_thd := b\<rparr>"
  "er (s\<lparr>slf_cur_item := c\<rparr>) = (er s)\<lparr>cur_item_per_thd := c\<rparr>" "er (s\<lparr>slf_top := l\<rparr>) = (er s)\<lparr>sl_toplevel := l\<rparr>"
  "er (slf_free_new fr s) = free_new fr (er s)"
  by (auto simp: er_def slf_put_def sl_put_def slf_free_new_def free_new_def fun_eq_iff split: option.splits)

lemma er_node_upd [simp]:
  "er_node (n\<lparr>slf_items := it\<rparr>) = (er_node n)\<lparr>sn_items := it\<rparr>"
  "er_node (n\<lparr>slf_next := (slf_next n)(i := Some (q, k))\<rparr>) = (er_node n)\<lparr>sn_next := (sn_next (er_node n))(i := q)\<rparr>"
  by (auto simp: er_node_def)

lemma er_node_at: "sl_node_at p (er s) = (case slf_node_at p s of Inl e \<Rightarrow> Inl e | Inr n \<Rightarrow> Inr (er_node n))"
  by (simp add: sl_node_at_def slf_node_at_def split: option.splits)

lemma slf_live: "sl_node_at p (er s) = Inr a \<Longrightarrow> \<exists>n. slf_node_at p s = Inr n \<and> slf_heap s p = Some n \<and> a = er_node n"
  by (auto simp: sl_node_at_def slf_node_at_def split: option.splits)

lemma er_nd: "slf_heap s p = Some n \<Longrightarrow> nd (er s) p = er_node n"
  by (simp add: nd_def)

text \<open>The key beside a pointer is that of the node it points to, a linked one.\<close>

definition pair_ok :: "IndexSkiplist \<Rightarrow> nat set \<Rightarrow> nat option \<times> idx_key_t \<Rightarrow> bool" where
  "pair_ok s A x \<longleftrightarrow> (\<forall>q. fst x = Some q \<longrightarrow> q \<in> insert sl_tail A \<and> sn_key (nd s q) = snd x)"

definition keyed :: "IndexSkiplistForesight \<Rightarrow> nat set \<Rightarrow> bool" where
  "keyed s A \<longleftrightarrow> (\<forall>p n i x. slf_heap s p = Some n \<longrightarrow> slf_next n i = Some x \<longrightarrow> pair_ok (er s) A x)"

lemma keyed_mono:
  assumes "keyed s A" "A \<subseteq> A'" "\<forall>q\<in>insert sl_tail A. sn_key (nd (er s') q) = sn_key (nd (er s) q)"
    and "\<And>p n' i x. slf_heap s' p = Some n' \<Longrightarrow> slf_next n' i = Some x \<Longrightarrow>
      (\<exists>n. slf_heap s p = Some n \<and> slf_next n i = Some x) \<or> pair_ok (er s') A' x"
  shows "keyed s' A'"
  unfolding keyed_def
proof (intro allI impI)
  fix p n' i x assume n': "slf_heap s' p = Some n'" "slf_next n' i = Some x"
  from assms(4) [OF this] show "pair_ok (er s') A' x"
  proof
    assume "\<exists>n. slf_heap s p = Some n \<and> slf_next n i = Some x"
    then have "pair_ok (er s) A x" using assms(1) unfolding keyed_def by blast
    then show ?thesis using assms(2,3) unfolding pair_ok_def by auto
  qed
qed

lemma slf_pair_live:
  assumes "sl_node_at p (er s) = Inr (nd (er s) p)" "i \<le> sn_toplevel (nd (er s) p)" "sn_next (nd (er s) p) i = Some q" "keyed s A"
  shows "slf_pair p i s = Inr (Some q, sn_key (nd (er s) q))" "q \<in> insert sl_tail A"
proof -
  obtain n where n: "slf_node_at p s = Inr n" "slf_heap s p = Some n" "nd (er s) p = er_node n" using slf_live [OF assms(1)] by blast
  then obtain k where k: "slf_next n i = Some (Some q, k)" using assms(3) by (auto split: option.splits)
  then have "pair_ok (er s) A (Some q, k)" using assms(4) n(2) unfolding keyed_def by blast
  then have "q \<in> insert sl_tail A" "k = sn_key (nd (er s) q)" by (auto simp: pair_ok_def)
  then show "slf_pair p i s = Inr (Some q, sn_key (nd (er s) q))" "q \<in> insert sl_tail A" using n k assms(2) by (simp_all add: slf_pair_def)
qed

text \<open>The pair of the tail is initialised.\<close>

definition tail_set :: "IndexSkiplistForesight \<Rightarrow> bool" where
  "tail_set s \<longleftrightarrow> (\<exists>n. slf_heap s sl_tail = Some n \<and> slf_next n 0 \<noteq> None)"

text \<open>The swap of a pair is the swap of the pointer.\<close>

lemma wide_cas_sim:
  assumes "sl_node_at p (er s) = Inr (nd (er s) p)" "i \<le> sn_toplevel (nd (er s) p)" "sn_next (nd (er s) p) i \<noteq> None" "keyed s A"
  shows "\<exists>s'. wide_cas p i (Some q, sn_key (nd (er s) q)) (Some x, k) s = Inr (sn_next (nd (er s) p) i = Some q, s') \<and>
    er s' = (if sn_next (nd (er s) p) i = Some q then linked_in x p i (er s) else er s) \<and>
    (\<forall>y n' j v. slf_heap s' y = Some n' \<longrightarrow> slf_next n' j = Some v \<longrightarrow> (\<exists>n. slf_heap s y = Some n \<and> slf_next n j = Some v) \<or>
       v = (Some x, k) \<and> sn_next (nd (er s) p) i = Some q) \<and> (tail_set s \<longrightarrow> tail_set s')"
proof -
  obtain y where y: "sn_next (nd (er s) p) i = Some y" using assms(3) by blast
  obtain n where n: "slf_node_at p s = Inr n" "slf_heap s p = Some n" "nd (er s) p = er_node n" using slf_live [OF assms(1)] by blast
  note pr = slf_pair_live [OF assms(1,2) y assms(4)]
  show ?thesis
  proof (cases "y = q")
    case True
    let ?s = "slf_put p (n\<lparr>slf_next := (slf_next n)(i := Some (Some x, k))\<rparr>) s"
    have "wide_cas p i (Some q, sn_key (nd (er s) q)) (Some x, k) s = Inr (True, ?s)" using pr True n(1) by (simp add: wide_cas_def)
    moreover have "er ?s = linked_in x p i (er s)" using n(3) by (simp add: linked_in_def)
    moreover have "\<forall>y n' j v. slf_heap ?s y = Some n' \<longrightarrow> slf_next n' j = Some v \<longrightarrow>
        (\<exists>n. slf_heap s y = Some n \<and> slf_next n j = Some v) \<or> v = (Some x, k)"
      using n(2) by (auto simp: slf_put_def split: if_splits)
    moreover have "tail_set s \<longrightarrow> tail_set ?s" using n(2) by (auto simp: slf_put_def tail_set_def)
    ultimately show ?thesis using y True by (intro exI [of _ ?s]) simp
  next
    case False
    then have "wide_cas p i (Some q, sn_key (nd (er s) q)) (Some x, k) s = Inr (False, s)" using pr n(1) by (simp add: wide_cas_def)
    then show ?thesis using y False by (intro exI [of _ s]) auto
  qed
qed


subsection \<open>Searches\<close>

lemma slf_after_sim: "slf_after g q fr s = after_search g q fr (er s)"
  by (cases g) (auto simp: er_node_at bindE_def guard_def split: sum.splits)

definition lift :: "fault + (sl_frame \<times> sl_pc) \<Rightarrow> fault + (sl_frame \<times> slf_pc)" where
  "lift x = bindE x (\<lambda>(fr, pc). Inr (fr, At pc))"

lemma walk_sim:
  assumes mem: "mem_ok (er s) N m" and ky: "keyed s (N 0)" and i: "i < MAXLEVEL" and x: "x \<in> insert 0 (N i)"
  shows "slf_simd_step g i x fr s = lift (search_step g i x fr (er s))" "slf_nf_step g i x fr s = lift (search_step g i x fr (er s))"
proof -
  obtain q where q: "sl_succ x i (er s) = Inr q" "sn_next (nd (er s) x) i = Some q" "sl_node_at q (er s) = Inr (nd (er s) q)"
    using walk_next [OF mem i x] by metis
  have "x \<in> insert 0 (insert sl_tail (N i))" using x by auto
  note lx = live_node(2) [OF mem this] live_node(3) [OF mem this i]
  note pr = slf_pair_live(1) [OF lx q(2) ky]
  obtain n where n: "slf_node_at q s = Inr n" "nd (er s) q = er_node n" using slf_live [OF q(3)] by blast
  have d: "slf_down g i x q fr s = lift (if i > 0 then Inr (slf_found g i x q fr, Walk g (i - 1) x)
      else bindE (after_search g q (slf_found g i x q fr) (er s)) (\<lambda>pc. Inr (slf_found g i x q fr, pc)))"
    by (auto simp: slf_down_def lift_def slf_after_sim bindE_assoc Let_def)
  have st: "search_step g i x fr (er s) = (if fr_key fr > slf_key n then Inr (fr, Walk g i q)
      else if i > 0 then Inr (slf_found g i x q fr, Walk g (i - 1) x)
      else bindE (after_search g q (slf_found g i x q fr) (er s)) (\<lambda>pc. Inr (slf_found g i x q fr, pc)))"
    using q(1,3) n(2) by (simp add: search_step_def slf_found_def Let_def)
  show "slf_simd_step g i x fr s = lift (search_step g i x fr (er s))"
    unfolding st using pr n(2) d by (auto simp: slf_simd_step_def lift_def)
  show "slf_nf_step g i x fr s = lift (search_step g i x fr (er s))"
    unfolding st using pr n d by (auto simp: slf_nf_step_def slf_ptr_def lift_def)
qed

text \<open>A level may be left at any node: what is found there is only a hint, checked before it is used.\<close>

lemma leave_level:
  assumes mem: "mem_ok s N m" and pl: "place_ok False s N fr (Walk g i x)" and q: "q \<in> insert sl_tail (N i)"
  shows "place_ok False s N (slf_found g i x q fr) (Walk g (i - 1) x)"
proof -
  have i: "i < MAXLEVEL" and x: "x \<in> insert 0 (N i)" "before s x (fr_key fr)" and g: "goal_ok False g i s N fr" using pl by simp_all
  have x': "x \<in> insert 0 (N (i - 1))" using x(1) levels_down [OF mem, of "i - 1" i] by auto
  have "goal_ok False g (i - 1) s N (slf_found g i x q fr)"
  proof (cases "i = 0 \<or> \<not> fills_arrays g")
    case True
    then show ?thesis using g by (cases g) (auto simp: slf_found_def pred_succ_def)
  next
    case False
    then have "pred_succ False s N (fr\<lparr>fr_preds := (fr_preds fr)(i := x), fr_succs := (fr_succs fr)(i := q)\<rparr>) i"
      using x q by (simp add: pred_succ_def)
    from goal_ok_down [OF g this] False show ?thesis using g by (cases g) (auto simp: slf_found_def Suc_le_eq)
  qed
  then show ?thesis using i x(2) x' by (cases g) (auto simp: slf_found_def before_def)
qed

lemma flat_enter [simp]: "flat (slf_enter simd g i x) = Walk g i x"
  by (simp add: slf_enter_def)

lemma same_place_own:
  assumes "fr_item fr' = fr_item fr" "fr_new fr' = fr_new fr"
  shows "own_item (fr', Walk g j y) = own_item (fr, Walk g i x)" "own_node (fr', Walk g j y) = own_node (fr, Walk g i x)"
  using assms by (cases g; simp add: own_item_def own_node_def)+

lemma slf_found_sel [simp]:
  "fr_item (slf_found g i x q fr) = fr_item fr" "fr_new (slf_found g i x q fr) = fr_new fr" "fr_key (slf_found g i x q fr) = fr_key fr"
  by (simp_all add: slf_found_def)

lemma walk_step_ok:
  assumes "mem_ok s N m" "place_ok ex s N fr' (Walk g j y)" "fr_item fr' = fr_item fr" "fr_new fr' = fr_new fr"
  shows "step_ok ex s N m fr (Walk g i x) fr' (Walk g j y) s"
proof -
  have "\<not> commits (Walk g i x) (Walk g j y)" by (cases g) (simp_all add: commits_def)
  then show ?thesis unfolding step_ok_def same_place_own [OF assms(3,4), of g j y i x] after_step_def
    using assms(1,2) by (intro exI [of _ N]) (simp del: place_ok.simps add: subset_insertI)
qed

text \<open>The two reads of a level above the last.\<close>

lemma peek_sim:
  assumes mem: "mem_ok (er s) N m" and ky: "keyed s (N 0)" and pl: "place_ok False (er s) N fr (Walk g i x)"
  shows "\<exists>fr' pc'. slf_peek_step g i x fr s = Inr (fr', pc') \<and> step_ok False (er s) N m fr (Walk g i x) fr' (flat pc') (er s)"
    "\<exists>fr' pc'. slf_peek_ptr_step g i x k fr s = Inr (fr', pc') \<and> step_ok False (er s) N m fr (Walk g i x) fr' (flat pc') (er s)"
proof -
  have i: "i < MAXLEVEL" and x: "x \<in> insert 0 (N i)" using pl by simp_all
  obtain q where q: "sn_next (nd (er s) x) i = Some q" "sl_node_at q (er s) = Inr (nd (er s) q)" "q \<in> insert sl_tail (N i)"
    using walk_next [OF mem i x] by metis
  have "x \<in> insert 0 (insert sl_tail (N i))" using x by auto
  note lx = live_node(2) [OF mem this] live_node(3) [OF mem this i]
  note pr = slf_pair_live(1) [OF lx q(1) ky]
  obtain n where n: "slf_node_at q s = Inr n" "nd (er s) q = er_node n" using slf_live [OF q(2)] by blast
  show "\<exists>fr' pc'. slf_peek_step g i x fr s = Inr (fr', pc') \<and> step_ok False (er s) N m fr (Walk g i x) fr' (flat pc') (er s)"
    using pr walk_step_ok [OF mem pl] by (simp add: slf_peek_step_def)
  let ?stop = "(slf_found g i x q fr, slf_enter False g (i - 1) x)"
  have stop: "step_ok False (er s) N m fr (Walk g i x) (fst ?stop) (flat (snd ?stop)) (er s)"
    using walk_step_ok [OF mem leave_level [OF mem pl q(3)]] by simp
  show "\<exists>fr' pc'. slf_peek_ptr_step g i x k fr s = Inr (fr', pc') \<and> step_ok False (er s) N m fr (Walk g i x) fr' (flat pc') (er s)"
  proof (cases "fr_key fr > k \<and> slf_key n < fr_key fr")
    case True
    then have "q \<noteq> sl_tail" using tail_key [OF mem] n(2) by auto
    then have "place_ok False (er s) N fr (Walk g i q)" using pl q(3) n(2) True by (auto simp: before_def)
    moreover have "slf_peek_ptr_step g i x k fr s = Inr (fr, Peek g i q)"
      using pr n(1) True leD [of "fr_key fr" "slf_key n"] by (auto simp: slf_peek_ptr_step_def slf_ptr_def Let_def)
    ultimately show ?thesis using walk_step_ok [OF mem] by simp
  next
    case False
    then have "slf_peek_ptr_step g i x k fr s = Inr ?stop"
      using pr n(1) by (auto simp: slf_peek_ptr_step_def slf_ptr_def Let_def not_le)
    then show ?thesis using stop by simp
  qed
qed


subsection \<open>The other steps\<close>

text \<open>No pair is new.\<close>

definition same_pairs :: "IndexSkiplistForesight \<Rightarrow> IndexSkiplistForesight \<Rightarrow> bool" where
  "same_pairs s s' \<longleftrightarrow> (\<forall>p n' i x. slf_heap s' p = Some n' \<longrightarrow> slf_next n' i = Some x \<longrightarrow> (\<exists>n. slf_heap s p = Some n \<and> slf_next n i = Some x)) \<and>
     (tail_set s \<longrightarrow> tail_set s')"

fun plain_pc :: "sl_pc \<Rightarrow> bool" where
  "plain_pc (Idle x) = True"
| "plain_pc (Begin g) = True"
| "plain_pc (Append q) = True"
| "plain_pc (Swap q x) = True"
| "plain_pc Top = True"
| "plain_pc (Set_top c) = True"
| "plain_pc (Read_item q) = True"
| "plain_pc (Read_cur q x) = True"
| "plain_pc (Next_start b) = True"
| "plain_pc (Next_items q) = True"
| "plain_pc _ = False"

lemma same_pairs_trivial [simp]:
  "same_pairs s s" "same_pairs s (s\<lparr>slf_item_next := a\<rparr>)" "same_pairs s (s\<lparr>slf_cur_node := b\<rparr>)" "same_pairs s (s\<lparr>slf_cur_item := c\<rparr>)"
  "same_pairs s (s\<lparr>slf_top := l\<rparr>)"
  by (simp_all add: same_pairs_def tail_set_def)

lemma plain_sim:
  assumes "plain_pc pc" "\<forall>q x. pc = Swap q x \<longrightarrow> fr_new fr \<noteq> Some sl_tail" "sl_step t r fr pc (er s) = Inr (fr', pc', es)"
  shows "\<exists>spc s'. slf_step simd t r fr (At pc) s = Inr (fr', spc, s') \<and> flat spc = pc' \<and> er s' = es \<and> same_pairs s s'"
proof (cases pc)
  case (Swap q x)
  have free: "same_pairs s s' \<Longrightarrow> same_pairs s (slf_free_new fr s')" for s'
    using assms(2) Swap by (auto simp: same_pairs_def slf_free_new_def tail_set_def split: option.splits)
  have "same_pairs s (slf_put q (n\<lparr>slf_items := v\<rparr>) s)" if "slf_heap s q = Some n" for n v
    using that by (auto simp: same_pairs_def slf_put_def tail_set_def split: if_splits)
  then show ?thesis using assms(3) Swap free
    by (auto simp: cas_items_def slf_cas_items_def sl_node_at_def slf_node_at_def split: option.splits if_splits)
next
  case (Next_start b)
  then show ?thesis using assms(3) by (auto simp: Let_def split: option.splits if_splits)
qed (use assms in \<open>auto simp: er_node_at bindE_eq_Inr split: sum.splits if_splits\<close>)

text \<open>A step as in \<open>Skiplist_step\<close> that also keeps the keys beside the pointers.\<close>

definition fs_step_ok :: "IndexSkiplistForesight \<Rightarrow> (nat \<Rightarrow> nat set) \<Rightarrow> idx_key_t index_spec \<Rightarrow> sl_frame \<Rightarrow> slf_pc \<Rightarrow>
    sl_frame \<Rightarrow> slf_pc \<Rightarrow> IndexSkiplistForesight \<Rightarrow> bool" where
  "fs_step_ok s N m fr pc fr' pc' s' \<longleftrightarrow> step_ok False (er s) N m fr (flat pc) fr' (flat pc') (er s') \<and>
     (\<forall>N' Q I. mem_ok (er s') N' (after_step fr (flat pc) (flat pc') m) \<longrightarrow> evolves (er s) N (er s') N' Q I \<longrightarrow> keyed s' (N' 0)) \<and>
     (tail_set s \<longrightarrow> tail_set s')"

lemma fs_step_okI:
  assumes "step_ok False (er s) N m fr (flat pc) fr' (flat pc') (er s')" "keyed s (N 0)"
    and "\<And>N' p n' i x Q I. mem_ok (er s') N' (after_step fr (flat pc) (flat pc') m) \<Longrightarrow> evolves (er s) N (er s') N' Q I \<Longrightarrow>
      slf_heap s' p = Some n' \<Longrightarrow> slf_next n' i = Some x \<Longrightarrow>
      (\<exists>n. slf_heap s p = Some n \<and> slf_next n i = Some x) \<or> pair_ok (er s') (N' 0) x"
    and "tail_set s \<longrightarrow> tail_set s'"
  shows "fs_step_ok s N m fr pc fr' pc' s'"
  unfolding fs_step_ok_def
proof (intro conjI allI impI)
  fix N' Q I assume a: "mem_ok (er s') N' (after_step fr (flat pc) (flat pc') m)" "evolves (er s) N (er s') N' Q I"
  show "keyed s' (N' 0)"
  proof (rule keyed_mono [OF assms(2)])
    show "N 0 \<subseteq> N' 0" "\<forall>q\<in>insert sl_tail (N 0). sn_key (nd (er s') q) = sn_key (nd (er s) q)"
      using a(2) unfolding evolves_def by blast+
  qed (rule assms(3) [OF a])
qed (use assms(1,4) in simp_all)

lemma fs_step_same:
  assumes "step_ok False (er s) N m fr (flat pc) fr' (flat pc') (er s')" "keyed s (N 0)" "same_pairs s s'"
  shows "fs_step_ok s N m fr pc fr' pc' s'"
  using assms(3) by (intro fs_step_okI [OF assms(1,2)]) (auto simp: same_pairs_def)

lemma plain_step:
  assumes mem: "mem_ok (er s) N m" and ky: "keyed s (N 0)" and pl: "place_ok False (er s) N fr pc" and it: "own_item (fr, pc) \<inter> items_of m = {}"
    and pc: "plain_pc pc"
  shows "\<exists>fr' pc' s'. slf_step simd t r fr (At pc) s = Inr (fr', pc', s') \<and> fs_step_ok s N m fr (At pc) fr' pc' s'"
proof -
  have n: "\<forall>c. pc \<noteq> Raise c" "\<nexists>i x. pc = Walk For_read i x" using pc by auto
  obtain fr' pc' es where p: "sl_step t r fr pc (er s) = Inr (fr', pc', es)" "step_ok False (er s) N m fr pc fr' pc' es"
    using thread_step [OF mem pl it, of t r] n by blast
  have new: "\<forall>q x. pc = Swap q x \<longrightarrow> fr_new fr \<noteq> Some sl_tail" using pl by (auto simp: new_node_def)
  obtain spc s' where s': "slf_step simd t r fr (At pc) s = Inr (fr', spc, s')" "flat spc = pc'" "er s' = es" "same_pairs s s'"
    using plain_sim [OF pc new p(1)] by blast
  then have "step_ok False (er s) N m fr (flat (At pc)) fr' (flat spc) (er s')" using p(2) by simp
  from fs_step_same [OF this ky s'(4)] s'(1) show ?thesis by blast
qed


lemma walk_fs:
  assumes mem: "mem_ok (er s) N m" and ky: "keyed s (N 0)" and pl: "place_ok False (er s) N fr (Walk g i x)"
    and it: "own_item (fr, Walk g i x) \<inter> items_of m = {}"
  shows "(\<exists>fr' pc' s'. slf_step simd t r fr (At (Walk g i x)) s = Inr (fr', pc', s') \<and> fs_step_ok s N m fr (At (Walk g i x)) fr' pc' s') \<or>
    (slf_step simd t r fr (At (Walk g i x)) s = Inl Assert_failed \<and> g = For_read \<and> m (fr_key fr) = None)"
proof -
  have "i < MAXLEVEL" "x \<in> insert 0 (N i)" using pl by simp_all
  note w = walk_sim [OF mem ky this]
  have run: "slf_step simd t r fr (At (Walk g i x)) s = bindE (search_step g i x fr (er s)) (\<lambda>(fr1, pc). Inr (fr1, At pc, s))"
    by (simp add: w lift_def bindE_assoc split_def)
  have n: "False \<or> (\<forall>c. Walk g i x \<noteq> Raise c)" by simp
  from thread_step [OF mem pl it n, of t r] show ?thesis
  proof (elim disjE exE conjE)
    fix fr' pc' es assume p: "sl_step t r fr (Walk g i x) (er s) = Inr (fr', pc', es)" "step_ok False (er s) N m fr (Walk g i x) fr' pc' es"
    then have e: "search_step g i x fr (er s) = Inr (fr', pc')" "es = er s" by (auto simp: bindE_eq_Inr)
    have "step_ok False (er s) N m fr (flat (At (Walk g i x))) fr' (flat (At pc')) (er s)" using p(2) e(2) by simp
    from fs_step_same [OF this ky same_pairs_trivial(1)] show ?thesis using run e(1) by auto
  next
    fix i' x' assume "sl_step t r fr (Walk g i x) (er s) = Inl Assert_failed" "Walk g i x = Walk For_read i' x'" "m (fr_key fr) = None"
    then show ?thesis using run by (auto simp: bindE_eq_Inl)
  qed
qed

lemma next_node_fs:
  assumes mem: "mem_ok (er s) N m" and ky: "keyed s (N 0)" and tl: "tail_set s" and pl: "place_ok False (er s) N fr (Next_node q)"
  shows "\<exists>fr' pc' s'. slf_step simd t r fr (At (Next_node q)) s = Inr (fr', pc', s') \<and> fs_step_ok s N m fr (At (Next_node q)) fr' pc' s'"
proof -
  have q: "q \<in> insert sl_tail (N 0)" using pl by simp
  then have "q \<in> insert 0 (insert sl_tail (N 0))" by auto
  from slf_live [OF live_node(2) [OF mem this]] obtain n where n: "slf_node_at q s = Inr n" "slf_heap s q = Some n" "nd (er s) q = er_node n" by blast
  have M: "0 < MAXLEVEL" by (simp add: MAXLEVEL_def)
  have "slf_next n 0 \<noteq> None"
  proof (cases "q = sl_tail")
    case False
    then show ?thesis using walk_next [OF mem M, of q] q n(3) by (metis er_node_sel(4) insertE insertI2 option.case(1) option.distinct(1))
  qed (use tl n(2) in \<open>auto simp: tail_set_def\<close>)
  then obtain y k where y: "slf_next n 0 = Some (y, k)" by auto
  let ?s1 = "s\<lparr>slf_cur_node := (slf_cur_node s)(t := y)\<rparr>"
  let ?res = "case y of None \<Rightarrow> (fr, At (Idle (Read_result None)), ?s1\<lparr>slf_cur_item := (slf_cur_item ?s1)(t := None)\<rparr>)
     | Some z \<Rightarrow> (fr, At (Next_items z), ?s1)"
  have run: "slf_step simd t r fr (At (Next_node q)) s = Inr ?res" using n(1) y by (auto simp: slf_pair_def Let_def split: option.splits)
  have prun: "sl_step t r fr (Next_node q) (er s) = Inr (fst ?res, flat (fst (snd ?res)), er (snd (snd ?res)))"
    using n(1) y by (auto simp: sl_next_def er_node_at Let_def split: option.splits)
  obtain fr' pc' es where p: "sl_step t r fr (Next_node q) (er s) = Inr (fr', pc', es)" "step_ok False (er s) N m fr (Next_node q) fr' pc' es"
    using read_steps [OF mem pl] by blast
  then have "step_ok False (er s) N m fr (flat (At (Next_node q))) (fst ?res) (flat (fst (snd ?res))) (er (snd (snd ?res)))"
    using prun by simp
  moreover have "same_pairs s (snd (snd ?res))" by (cases y) (simp_all add: same_pairs_def tail_set_def)
  ultimately have "fs_step_ok s N m fr (At (Next_node q)) (fst ?res) (fst (snd ?res)) (snd (snd ?res))" using fs_step_same ky by blast
  then show ?thesis unfolding run by (metis prod.collapse)
qed


lemma slf_fill_ok:
  "(\<And>i. i \<in> set is \<Longrightarrow> slf_node_at (fr_succs fr i) s = Inr (a i)) \<Longrightarrow>
   slf_fill is fr s f = Inr (\<lambda>i. if i \<in> set is then Some (Some (fr_succs fr i), slf_key (a i)) else f i)"
proof (induction "is" arbitrary: f)
  case (Cons i "is")
  then show ?case by (auto simp: fun_eq_iff)
qed simp

lemma make_node_er: "make_node r fr (er s) = (case slf_make_node r fr s of (p, fr1, s1) \<Rightarrow> (p, fr1, er s1))"
  by (auto simp: make_node_def slf_make_node_def allocate_node_def slf_allocate_node_def Let_def er_def er_node_def slf_put_def sl_put_def fun_eq_iff
      split: option.splits)

lemma slf_make_node_facts:
  assumes "slf_make_node r fr s = (p, fr1, s1)"
  shows "fr_succs fr1 = fr_succs fr" "y \<noteq> p \<Longrightarrow> slf_heap s1 y = slf_heap s y" "fr_new fr = None \<and> p = slf_fresh s \<or> fr_new fr = Some p \<and> fr1 = fr \<and> s1 = s"
    "slf_heap s1 p = Some n \<Longrightarrow> slf_next n i = Some x \<Longrightarrow> slf_heap s p = Some n \<and> slf_next n i = Some x"
    "fr_new fr = None \<Longrightarrow> fr_level fr1 < MAXLEVEL"
  using assms sl_randomLevel_less by (auto simp: slf_make_node_def slf_allocate_node_def Let_def slf_put_def split: option.splits)

lemma make_fs:
  assumes mem: "mem_ok (er s) N m" and ky: "keyed s (N 0)" and pl: "place_ok False (er s) N fr Make" and it: "own_item (fr, Make) \<inter> items_of m = {}"
  shows "\<exists>fr' pc' s'. slf_step simd t r fr (At Make) s = Inr (fr', pc', s') \<and> fs_step_ok s N m fr (At Make) fr' pc' s'"
proof -
  obtain p fr1 s1 where mk: "slf_make_node r fr s = (p, fr1, s1)" by (metis prod_cases3)
  note f = slf_make_node_facts [OF mk]
  obtain fr' pc' es where pst: "sl_step t r fr Make (er s) = Inr (fr', pc', es)" "step_ok False (er s) N m fr Make fr' pc' es"
    using make_step [OF mem pl it] by blast
  obtain n where n: "slf_node_at p s1 = Inr n" "slf_heap s1 p = Some n" "fr_level fr1 \<le> slf_toplevel n"
    and es: "fr' = fr1" "pc' = Link" "es = sl_put p ((er_node n)\<lparr>sn_next := (\<lambda>i. if i \<le> fr_level fr1 then Some (fr_succs fr1 i) else sn_next (er_node n) i)\<rparr>) (er s1)"
    using pst(1) mk by (auto simp: make_node_er bindE_eq_Inr dest!: slf_live split: if_splits)
  have p2: "2 \<le> p \<and> (p = slf_fresh s \<longrightarrow> slf_heap s p = None) \<and> fr_level fr1 < MAXLEVEL"
  proof (cases "fr_new fr")
    case None
    have "sl_fresh (er s) \<noteq> 0 \<and> sl_fresh (er s) \<noteq> 1" using mem_okD(1,8) [OF mem] unfolding ends_ok_def by (metis less_irrefl less_one)
    moreover have "sl_heap (er s) (sl_fresh (er s)) = None" using mem_okD(8) [OF mem, of "sl_fresh (er s)"] by blast
    ultimately show ?thesis using None f(3,5) by auto
  next
    case (Some p')
    then have "p' = p" "fr1 = fr" using f(3) by auto
    moreover have "new_node (er s) N fr 0" using pl Some by (simp add: spare_node_def)
    ultimately show ?thesis using Some mem_okD(8) [OF mem, of p] unfolding new_node_def by auto
  qed
  have su: "fr_succs fr i \<in> insert sl_tail (N 0)" if "i \<le> fr_level fr1" for i
  proof -
    have "i < MAXLEVEL" using that p2 by simp
    then have "fr_succs fr i \<in> insert sl_tail (N i)" using pl by (simp add: pred_succ_def)
    then show ?thesis using linked_0 [OF mem] by auto
  qed
  have live: "\<exists>a. slf_node_at (fr_succs fr i) s1 = Inr a \<and> slf_key a = sn_key (nd (er s) (fr_succs fr i))" if "i \<le> fr_level fr1" for i
  proof -
    have "fr_succs fr i \<in> insert 0 (insert sl_tail (N 0))" using su [OF that] by auto
    from slf_live [OF live_node(2) [OF mem this]] obtain a where a: "slf_heap s (fr_succs fr i) = Some a" "nd (er s) (fr_succs fr i) = er_node a" by blast
    moreover have "slf_heap s1 (fr_succs fr i) = slf_heap s (fr_succs fr i)"
      using f(2,3) p2 a(1) by (cases "fr_succs fr i = p") auto
    ultimately show ?thesis by (simp add: slf_node_at_def)
  qed
  let ?k = "\<lambda>i. sn_key (nd (er s) (fr_succs fr i))"
  let ?f = "\<lambda>i. if i \<le> fr_level fr1 then Some (Some (fr_succs fr i), ?k i) else slf_next n i"
  obtain a where a: "\<And>i. i \<le> fr_level fr1 \<Longrightarrow> slf_node_at (fr_succs fr i) s1 = Inr (a i) \<and> slf_key (a i) = ?k i" using live by metis
  have "slf_fill [0..<Suc (fr_level fr1)] fr1 s1 (slf_next n) = Inr (\<lambda>i. if i \<in> set [0..<Suc (fr_level fr1)] then Some (Some (fr_succs fr1 i), slf_key (a i)) else slf_next n i)"
    using a by (intro slf_fill_ok) (auto simp: f(1) le_less)
  also have "(\<lambda>i. if i \<in> set [0..<Suc (fr_level fr1)] then Some (Some (fr_succs fr1 i), slf_key (a i)) else slf_next n i) = ?f"
    using a by (auto simp: f(1) fun_eq_iff)
  finally have fill: "slf_fill [0..<Suc (fr_level fr1)] fr1 s1 (slf_next n) = Inr ?f" .
  let ?s = "slf_put p (n\<lparr>slf_next := ?f\<rparr>) s1"
  have run: "slf_step simd t r fr (At Make) s = Inr (fr1, At Link, ?s)" using mk n fill by simp
  have "er_node (n\<lparr>slf_next := ?f\<rparr>) = (er_node n)\<lparr>sn_next := (\<lambda>i. if i \<le> fr_level fr1 then Some (fr_succs fr1 i) else sn_next (er_node n) i)\<rparr>"
    by (simp add: er_node_def f(1) fun_eq_iff)
  then have er: "er ?s = es" using es(3) by simp
  have so: "step_ok False (er s) N m fr (flat (At Make)) fr1 (flat (At Link)) (er ?s)" using pst(2) es er by simp
  have "fs_step_ok s N m fr (At Make) fr1 (At Link) ?s"
  proof (rule fs_step_okI [OF so ky])
    fix N' y n' i x Q I
    assume ev: "evolves (er s) N (er ?s) N' Q I" and y: "slf_heap ?s y = Some n'" "slf_next n' i = Some x"
    show "(\<exists>n. slf_heap s y = Some n \<and> slf_next n i = Some x) \<or> pair_ok (er ?s) (N' 0) x"
    proof (cases "y = p \<and> i \<le> fr_level fr1")
      case True
      then have x: "x = (Some (fr_succs fr i), ?k i)" using y by (auto simp: slf_put_def)
      have "fr_succs fr i \<in> insert sl_tail (N' 0)" "sn_key (nd (er ?s) (fr_succs fr i)) = ?k i"
        using su [of i] True ev unfolding evolves_def by blast+
      then show ?thesis unfolding x pair_ok_def by simp
    next
      case False
      show ?thesis
      proof (cases "y = p")
        case True
        then show ?thesis using False y f(4) [OF n(2), of i x] by (auto simp: slf_put_def)
      next
        case False
        then have "slf_heap s y = Some n'" using y(1) f(2) [of y] by (simp add: slf_put_def)
        then show ?thesis using y(2) by blast
      qed
    qed
  next
    show "tail_set s \<longrightarrow> tail_set ?s" using p2 f(2) [of 1] by (auto simp: tail_set_def slf_put_def)
  qed
  then show ?thesis using run by blast
qed


text \<open>The pointer that has been swapped goes to a linked node.\<close>

lemma new_pair_ok:
  assumes "mem_ok es N' m" "c < MAXLEVEL" "pr \<in> insert 0 (N' c)" "sn_next (nd es pr) c = Some p" "sn_key (nd es p) = k"
  shows "pair_ok es (N' 0) (Some p, k)"
proof -
  have "p \<in> insert sl_tail (N' c)" using mem_okD(7) [OF assms(1-3)] assms(4) unfolding next_ok_def by auto
  then have "p \<in> insert sl_tail (N' 0)" using linked_0 [OF assms(1)] by auto
  then show ?thesis using assms(5) by (simp add: pair_ok_def)
qed

lemma cas_pred_fs:
  assumes mem: "mem_ok (er s) N m" and ky: "keyed s (N 0)" and c: "c < MAXLEVEL" and pr: "pr \<in> insert 0 (N c)"
    and k: "sn_key (nd (er s) p) = k"
  obtains s' where "wide_cas pr c (Some q, sn_key (nd (er s) q)) (Some p, k) s = Inr (sn_next (nd (er s) pr) c = Some q, s')"
    "er s' = (if sn_next (nd (er s) pr) c = Some q then linked_in p pr c (er s) else er s)" "tail_set s \<longrightarrow> tail_set s'"
    "\<And>N' m' y n' i x Q I. mem_ok (er s') N' m' \<Longrightarrow> evolves (er s) N (er s') N' Q I \<Longrightarrow> slf_heap s' y = Some n' \<Longrightarrow> slf_next n' i = Some x \<Longrightarrow>
       (\<exists>n. slf_heap s y = Some n \<and> slf_next n i = Some x) \<or> pair_ok (er s') (N' 0) x"
proof -
  have "pr \<in> insert 0 (insert sl_tail (N c))" using pr by auto
  note l = live_node(2,3) [OF mem this]
  have nx: "sn_next (nd (er s) pr) c \<noteq> None" using mem_okD(7) [OF mem c pr] unfolding next_ok_def by auto
  obtain s' where s': "wide_cas pr c (Some q, sn_key (nd (er s) q)) (Some p, k) s = Inr (sn_next (nd (er s) pr) c = Some q, s')"
    "er s' = (if sn_next (nd (er s) pr) c = Some q then linked_in p pr c (er s) else er s)" "tail_set s \<longrightarrow> tail_set s'"
    "\<forall>y n' j v. slf_heap s' y = Some n' \<longrightarrow> slf_next n' j = Some v \<longrightarrow> (\<exists>n. slf_heap s y = Some n \<and> slf_next n j = Some v) \<or>
       v = (Some p, k) \<and> sn_next (nd (er s) pr) c = Some q"
    using wide_cas_sim [OF l(1) l(2) [OF c] nx ky, of q p k] by blast
  have "(\<exists>n. slf_heap s y = Some n \<and> slf_next n i = Some x) \<or> pair_ok (er s') (N' 0) x"
    if m': "mem_ok (er s') N' m'" and ev: "evolves (er s) N (er s') N' Q I" and y: "slf_heap s' y = Some n'" "slf_next n' i = Some x"
    for N' m' y n' i x Q I
  proof (cases "\<exists>n. slf_heap s y = Some n \<and> slf_next n i = Some x")
    case False
    then have x: "x = (Some p, k)" "sn_next (nd (er s) pr) c = Some q" using s'(4) y by blast+
    have "pr \<in> insert 0 (N' c)" using pr ev unfolding evolves_def by blast
    moreover have "sn_next (nd (er s') pr) c = Some p" "sn_key (nd (er s') p) = k" unfolding s'(2) using x(2) k by simp_all
    ultimately show ?thesis using new_pair_ok [OF m' c] x(1) by blast
  qed simp
  with that s'(1-3) show thesis by blast
qed

lemma link_fs:
  assumes mem: "mem_ok (er s) N m" and ky: "keyed s (N 0)" and pl: "place_ok False (er s) N fr pc" and it: "own_item (fr, pc) \<inter> items_of m = {}"
    and pc: "pc = Link \<or> pc = Splice c"
  shows "\<exists>fr' pc' s'. slf_step simd t r fr (At pc) s = Inr (fr', pc', s') \<and> fs_step_ok s N m fr (At pc) fr' pc' s'"
proof -
  define i where "i = (if pc = Link then 0 else c)"
  let ?w = "if pc = Link then Walk For_retry (MAXLEVEL - 1) (slf_head s) else Walk (For_world c) (MAXLEVEL - 1) (slf_head s)"
  let ?sw = "if pc = Link then slf_enter simd For_retry (MAXLEVEL - 1) (slf_head s) else slf_enter simd (For_world c) (MAXLEVEL - 1) (slf_head s)"
  have nn: "new_node (er s) N fr i" using pl pc unfolding i_def by auto
  then have "fr_level fr < MAXLEVEL" unfolding new_node_def by blast
  then have iM: "i < MAXLEVEL" using pl pc unfolding i_def by auto
  then have ps: "pred_succ False (er s) N fr i" using pl pc unfolding i_def by auto
  obtain p where p: "fr_new fr = Some p" "sn_key (nd (er s) p) = fr_key fr" using nn unfolding new_node_def by blast
  have pr: "fr_preds fr i \<in> insert 0 (N i)" and q: "fr_succs fr i \<in> insert 0 (insert sl_tail (N i))" using ps unfolding pred_succ_def by auto
  obtain n where n: "slf_node_at (fr_succs fr i) s = Inr n" "nd (er s) (fr_succs fr i) = er_node n" using slf_live [OF live_node(2) [OF mem q]] by blast
  let ?ok = "sn_next (nd (er s) (fr_preds fr i)) i = Some (fr_succs fr i)"
  obtain s' where s': "wide_cas (fr_preds fr i) i (Some (fr_succs fr i), slf_key n) (Some p, fr_key fr) s = Inr (?ok, s')"
    "er s' = (if ?ok then linked_in p (fr_preds fr i) i (er s) else er s)" "tail_set s \<longrightarrow> tail_set s'"
    "\<And>N' m' y n' j x Q I. mem_ok (er s') N' m' \<Longrightarrow> evolves (er s) N (er s') N' Q I \<Longrightarrow> slf_heap s' y = Some n' \<Longrightarrow> slf_next n' j = Some x \<Longrightarrow>
       (\<exists>n. slf_heap s y = Some n \<and> slf_next n j = Some x) \<or> pair_ok (er s') (N' 0) x"
    by (rule cas_pred_fs [OF mem ky iM pr p(2), of "fr_succs fr i"]) (use n(2) in simp)
  have hd: "slf_head s' = slf_head s" using arg_cong [OF s'(2), of sl_head] by (simp split: if_splits)
  let ?pc = "if ?ok then At (Raise (i + 1)) else ?sw"
  have run: "slf_step simd t r fr (At pc) s = Inr (fr, ?pc, s')"
    using pc s'(1) n(1) p(1) hd unfolding i_def by (auto simp: the_new_def)
  have pred: "fr_preds fr i \<in> insert 0 (insert sl_tail (N i))" using pr by auto
  have prun: "sl_step t r fr pc (er s) = Inr (fr, flat ?pc, er s')"
    using pc p(1) cas_next_live [OF live_node(2) [OF mem pred] live_node(3) [OF mem pred iM]] unfolding i_def s'(2)
    by (auto simp: the_new_def)
  have ex: "False \<or> (\<forall>c. pc \<noteq> Raise c)" and nw: "\<nexists>i x. pc = Walk For_read i x" using pc by auto
  have "step_ok False (er s) N m fr (flat (At pc)) fr (flat ?pc) (er s')"
    using thread_step [OF mem pl it ex, of t r] prun nw by auto
  then have "fs_step_ok s N m fr (At pc) fr ?pc s'" using ky s'(4) s'(3) by (rule fs_step_okI)
  then show ?thesis using run by blast
qed


lemma raise_fs:
  assumes mem: "mem_ok (er s) N m" and ky: "keyed s (N 0)" and pl: "place_ok False (er s) N fr (Raise c)"
  shows "\<exists>fr' pc' s'. slf_step simd t r fr (At (Raise c)) s = Inr (fr', pc', s') \<and> fs_step_ok s N m fr (At (Raise c)) fr' pc' s'"
proof (cases "c \<le> fr_level fr")
  case False
  have "place_ok False (er s) N fr Top" using pl by (auto simp: new_node_def)
  then have "step_ok False (er s) N m fr (flat (At (Raise c))) fr (flat (At Top)) (er s)"
    using same_step_ok [OF mem, of False fr Top "Raise c"] by (simp add: commits_def own_item_def own_node_def)
  from fs_step_same [OF this ky same_pairs_trivial(1)] False show ?thesis by (auto simp: slf_raise_step_def)
next
  case True
  obtain p where p: "fr_new fr = Some p" using raise_update(1) [OF mem pl True] by blast
  note u = raise_update [OF mem pl True, unfolded p option.sel]
  let ?q = "fr_succs fr c" and ?pr = "fr_preds fr c"
  have lp: "c \<le> sn_toplevel (nd (er s) p)" using u(4) True by simp
  obtain y where y: "sn_next (nd (er s) p) c = Some y" using u(5) by blast
  note yp = slf_pair_live [OF u(3) lp y ky]
  have "y \<in> insert 0 (insert sl_tail (N 0))" using yp(2) by auto
  then obtain a where a: "slf_node_at y s = Inr a" "nd (er s) y = er_node a" using slf_live [OF live_node(2) [OF mem]] by blast
  obtain b where b: "slf_node_at ?q s = Inr b" "nd (er s) ?q = er_node b" using slf_live [OF u(17)] by blast
  let ?es = "if sn_next (nd (er s) p) c \<noteq> Some ?q then linked_in ?q p c (er s) else er s"
  obtain s1 where s1: "(if Some y \<noteq> Some ?q then wide_cas p c (Some y, slf_key a) (Some ?q, slf_key b) s else Inr (True, s)) = Inr (True, s1)"
    "er s1 = ?es" "tail_set s \<longrightarrow> tail_set s1"
    "\<forall>z n' j v. slf_heap s1 z = Some n' \<longrightarrow> slf_next n' j = Some v \<longrightarrow> (\<exists>n. slf_heap s z = Some n \<and> slf_next n j = Some v) \<or> v = (Some ?q, slf_key b)"
  proof (cases "y = ?q")
    case False
    then show ?thesis using that wide_cas_sim [OF u(3) lp u(5) ky, of y ?q "slf_key b"] y a(2) by auto
  qed (use that [of s] y in auto)
  have "sn_key (nd ?es ?q) = sn_key (nd (er s) ?q)" by simp
  then have nq: "sn_key (nd ?es ?q) = slf_key b" unfolding b(2) by simp
  obtain n where n: "slf_node_at ?q s1 = Inr n" "nd ?es ?q = er_node n" using slf_live [OF u(12) [folded s1(2)]] unfolding s1(2) by blast
  obtain w where w: "slf_node_at ?pr s1 = Inr w" "nd ?es ?pr = er_node w" using slf_live [OF u(11) [folded s1(2)]] unfolding s1(2) by blast
  have hd: "slf_head s1 = 0" using u(14) [folded s1(2)] by simp
  let ?w = "Walk (For_world c) (MAXLEVEL - 1) (slf_head s1)"
  let ?pc = "if slf_key n \<le> fr_key fr then At ?w else At (Splice c)"
  have ok: "?pr = slf_head s1 \<and> fr_key fr = 0 \<or> slf_key w < fr_key fr" 
  proof (cases "?pr = 0 \<and> fr_key fr \<noteq> 0")
    case True
    have "sn_key (nd ?es 0) = 0" using mem_okD(1) [OF u(6)] unfolding ends_ok_def by blast
    then have "slf_key w = 0" using True w(2) by simp
    then show ?thesis using True by (simp add: word_neq_0_conv)
  next
    case False
    then show ?thesis using u(13) hd w(2) unfolding before_def by auto
  qed
  have run: "slf_step simd t r fr (At (Raise c)) s = Inr (fr, ?pc, s1)"
    using True p yp(1) a b s1(1) n(1) w(1) ok by (auto simp: slf_raise_step_def the_new_def Let_def word_gt_0)
  have "place_ok False (er s1) N fr (flat ?pc)"
    using u(8,14,15) n(2) hd unfolding s1(2) by (auto simp: not_le simp del: place_ok.simps er_sel(3) split: if_splits)
  then have so: "step_ok False (er s) N m fr (flat (At (Raise c))) fr (flat ?pc) (er s1)"
    unfolding step_ok_def s1(2) using u(6,7) by (intro exI [of _ N]) (auto simp: after_step_def commits_def own_item_def own_node_def simp del: place_ok.simps)
  have "fs_step_ok s N m fr (At (Raise c)) fr ?pc s1"
  proof (rule fs_step_okI [OF so ky])
    fix N' z n' j x Q I
    assume ev: "evolves (er s) N (er s1) N' Q I" and z: "slf_heap s1 z = Some n'" "slf_next n' j = Some x"
    have "?q \<in> insert sl_tail (N 0)" using u(10) linked_0 [OF mem] by auto
    then have "?q \<in> insert sl_tail (N' 0)" using ev unfolding evolves_def by blast
    then have "pair_ok (er s1) (N' 0) (Some ?q, slf_key b)" using nq unfolding s1(2) pair_ok_def by simp
    then show "(\<exists>n. slf_heap s z = Some n \<and> slf_next n j = Some x) \<or> pair_ok (er s1) (N' 0) x" using s1(4) z by blast
  qed (rule s1(3))
  then show ?thesis using run by blast
qed


lemma fs_thread_step:
  assumes mem: "mem_ok (er s) N m" and ky: "keyed s (N 0)" and tl: "tail_set s" and pl: "place_ok False (er s) N fr (flat pc)"
    and it: "own_item (fr, flat pc) \<inter> items_of m = {}"
  shows "(\<exists>fr' pc' s'. slf_step simd t r fr pc s = Inr (fr', pc', s') \<and> fs_step_ok s N m fr pc fr' pc' s') \<or>
    (slf_step simd t r fr pc s = Inl Assert_failed \<and> (\<exists>i x. pc = At (Walk For_read i x)) \<and> m (fr_key fr) = None)"
proof (cases pc)
  case (Peek g i x)
  then obtain fr' pc' where "slf_peek_step g i x fr s = Inr (fr', pc')" "step_ok False (er s) N m fr (flat pc) fr' (flat pc') (er s)"
    using peek_sim(1) [OF mem ky, of fr g i x] pl by auto
  then show ?thesis using fs_step_same [where s = s and s' = s and N = N, OF _ ky] Peek by auto
next
  case (Peek_ptr g i x k)
  then obtain fr' pc' where "slf_peek_ptr_step g i x k fr s = Inr (fr', pc')" "step_ok False (er s) N m fr (flat pc) fr' (flat pc') (er s)"
    using peek_sim(2) [OF mem ky, of fr g i x k] pl by auto
  then show ?thesis using fs_step_same [where s = s and s' = s and N = N, OF _ ky] Peek_ptr by auto
next
  case (At apc)
  show ?thesis
  proof (cases "plain_pc apc")
    case True
    then show ?thesis using plain_step [OF mem ky _ _ True, of fr] pl it unfolding At by simp
  next
    case False
    then show ?thesis
    proof (cases apc)
      case (Walk g i x)
      then show ?thesis using walk_fs [OF mem ky, of fr g i x] pl it unfolding At by auto
    next
      case Make
      then show ?thesis using make_fs [OF mem ky] pl it unfolding At by (intro disjI1) simp
    next
      case Link
      then show ?thesis using link_fs [OF mem ky, of fr Link] pl it unfolding At by (intro disjI1) simp
    next
      case (Splice c)
      then show ?thesis using link_fs [OF mem ky, of fr "Splice c"] pl it unfolding At by (intro disjI1) simp
    next
      case (Raise c)
      then show ?thesis using raise_fs [OF mem ky] pl unfolding At by (intro disjI1) simp
    next
      case (Next_node q)
      then show ?thesis using next_node_fs [OF mem ky tl] pl unfolding At by (intro disjI1) simp
    qed simp_all
  qed
qed

end
