(* ===== verification/Foresight_props.thy ===== *)
theory Foresight_props
  imports Foresight_sim
begin

text \<open>All threads of the skip list with foresight, in both builds.\<close>

definition flat_sys :: "slf_sys \<Rightarrow> sl_sys" where
  "flat_sys s = \<lparr>sy_mem = er (sf_mem s), sy_thd = (\<lambda>t. (fst (sf_thd s t), flat (snd (sf_thd s t)))), sy_used = sf_used s\<rparr>"

lemma flat_sys_sel [simp]:
  "sy_mem (flat_sys s) = er (sf_mem s)" "sy_thd (flat_sys s) t = (fst (sf_thd s t), flat (snd (sf_thd s t)))" "sy_used (flat_sys s) = sf_used s"
  by (simp_all add: flat_sys_def)

definition fs_ok :: "slf_sys \<Rightarrow> (nat \<Rightarrow> nat set) \<Rightarrow> idx_key_t index_spec \<Rightarrow> bool" where
  "fs_ok s N m \<longleftrightarrow> sys_ok False (flat_sys s) N m \<and> keyed (sf_mem s) (N 0) \<and> tail_set (sf_mem s)"

lemma flat_call: "(fst (slf_call simd op s), flat (snd (slf_call simd op s))) = sl_call op (er s)"
  by (cases op) (simp_all add: slf_call_def sl_call_def)

lemma flat_sys_call:
  "flat_sys (s\<lparr>sf_thd := (sf_thd s)(t := slf_call simd op (sf_mem s)), sf_used := u\<rparr>) =
   (flat_sys s)\<lparr>sy_thd := (sy_thd (flat_sys s))(t := sl_call op (sy_mem (flat_sys s))), sy_used := u\<rparr>"
  using flat_call [of simd op "sf_mem s"] by (auto simp: flat_sys_def fun_eq_iff)

lemma flat_sys_run:
  "flat_sys (s\<lparr>sf_mem := mem', sf_thd := (sf_thd s)(t := (fr', pc'))\<rparr>) =
   (flat_sys s)\<lparr>sy_mem := er mem', sy_thd := (sy_thd (flat_sys s))(t := (fr', flat pc'))\<rparr>"
  by (auto simp: flat_sys_def fun_eq_iff)

lemma fs_thread:
  assumes ok: "fs_ok s N m" and th: "sf_thd s t = (fr, pc)"
  shows "(\<exists>fr' pc' mem'. slf_step simd t r fr pc (sf_mem s) = Inr (fr', pc', mem') \<and> fs_step_ok (sf_mem s) N m fr pc fr' pc' mem') \<or>
    (slf_step simd t r fr pc (sf_mem s) = Inl Assert_failed \<and> (\<exists>i x. pc = At (Walk For_read i x)) \<and> m (fr_key fr) = None)"
proof -
  have sy: "sys_ok False (flat_sys s) N m" and ky: "keyed (sf_mem s) (N 0)" "tail_set (sf_mem s)" using ok by (simp_all add: fs_ok_def)
  note k = sys_okD [OF sy]
  have "mem_ok (er (sf_mem s)) N m" "place_ok False (er (sf_mem s)) N fr (flat pc)" "own_item (fr, flat pc) \<inter> items_of m = {}"
    using k(1) k(3) [of t] k(5) [of t] th by simp_all
  from fs_thread_step [OF this(1) ky this(2,3)] show ?thesis .
qed

lemma slf_trans_ok:
  assumes ok: "fs_ok s N m" and tr: "slf_trans simd s t s'"
  shows "\<exists>N'. fs_ok s' N' (after_step (fst (sf_thd s t)) (flat (snd (sf_thd s t))) (flat (snd (sf_thd s' t))) m)"
proof -
  have sy: "sys_ok False (flat_sys s) N m" and ky: "keyed (sf_mem s) (N 0)" "tail_set (sf_mem s)" using ok by (simp_all add: fs_ok_def)
  from tr show ?thesis
  proof cases
    case (call x op)
    have "sys_ok False (flat_sys s') N m" unfolding call(1) flat_sys_call
      using sys_ok_call [OF sy, of t x op] call(2,3) by simp
    then show ?thesis using ky call(1,2) by (intro exI [of _ N]) (simp add: fs_ok_def after_step_def commits_def)
  next
    case (run fr pc r fr' pc' mem')
    have st: "fs_step_ok (sf_mem s) N m fr pc fr' pc' mem'" using fs_thread [OF ok run(2), of simd r] run(3) by auto
    have th: "sy_thd (flat_sys s) t = (fr, flat pc)" using run(2) by simp
    have so: "step_ok False (sy_mem (flat_sys s)) N m fr (flat pc) fr' (flat pc') (er mem')" using st by (simp add: fs_step_ok_def)
    obtain N' where N': "sys_ok False (flat_sys s') N' (after_step fr (flat pc) (flat pc') m)"
      "evolves (er (sf_mem s)) N (er mem') N' (own_node (fr, flat pc)) (own_item (fr, flat pc))"
      using sys_ok_step [OF sy th so] unfolding run(1) flat_sys_run flat_sys_sel(1) by blast
    have "mem_ok (er mem') N' (after_step fr (flat pc) (flat pc') m)" using sys_okD(1) [OF N'(1)] run(1) by simp
    then have "keyed mem' (N' 0)" "tail_set mem'" using st N'(2) ky(2) unfolding fs_step_ok_def by blast+
    then show ?thesis using N'(1) run(1,2) by (intro exI [of _ N']) (simp add: fs_ok_def)
  qed
qed

lemma fs_ok_start: "fs_ok (slf_start nx) (\<lambda>_. {}) Map.empty"
proof -
  have h: "slf_heap (slf_init nx) p = (if p = 0 then Some \<lparr>slf_toplevel = MAXLEVEL - 1, slf_key = 0, slf_items = None,
        slf_next = (\<lambda>i. if i \<le> MAXLEVEL - 1 then Some (Some 1, MAXKEY) else None)\<rparr>
      else if p = 1 then Some \<lparr>slf_toplevel = MAXLEVEL - 1, slf_key = MAXKEY, slf_items = None,
        slf_next = (\<lambda>i. if i \<le> MAXLEVEL - 1 then Some (None, MAXKEY) else None)\<rparr> else None)" for p
    by (simp add: slf_init_def slf_allocate_node_def Let_def slf_put_def cong: if_cong)
  have h2: "sl_heap (sl_init nx) p = (if p = 0 then Some \<lparr>sn_toplevel = MAXLEVEL - 1, sn_key = 0, sn_items = None,
        sn_next = (\<lambda>i. if i \<le> MAXLEVEL - 1 then Some 1 else None)\<rparr>
      else if p = 1 then Some \<lparr>sn_toplevel = MAXLEVEL - 1, sn_key = MAXKEY, sn_items = None, sn_next = (\<lambda>_. None)\<rparr> else None)" for p
    by (simp add: sl_init_def allocate_node_def Let_def sl_put_def cong: if_cong)
  have "er (slf_init nx) = (sl_init nx)\<lparr>sl_heap := sl_heap (er (slf_init nx))\<rparr>"
    by (simp add: er_def slf_init_def sl_init_def slf_allocate_node_def allocate_node_def Let_def slf_put_def sl_put_def)
  moreover have "sl_heap (er (slf_init nx)) = sl_heap (sl_init nx)"
    by (auto simp: h h2 er_node_def fun_eq_iff)
  ultimately have e: "er (slf_init nx) = sl_init nx" by simp
  then have "flat_sys (slf_start nx) = sl_start nx"
    by (simp add: flat_sys_def slf_start_def sl_start_def slf_call_def sl_call_def)
  moreover have "keyed (slf_init nx) {}"
    by (auto simp: keyed_def pair_ok_def h e nd_def h2 split: if_splits)
  moreover have "tail_set (slf_init nx)" by (simp add: tail_set_def h)
  ultimately show ?thesis using sys_ok_start [of False nx] by (simp add: fs_ok_def slf_start_def)
qed

definition slf_move :: "bool \<Rightarrow> slf_sys \<Rightarrow> slf_sys \<Rightarrow> bool" where
  "slf_move simd s s' \<longleftrightarrow> (\<exists>t. slf_trans simd s t s')"

definition slf_inv :: "slf_sys \<Rightarrow> bool" where
  "slf_inv s \<longleftrightarrow> (\<exists>N m. fs_ok s N m)"

interpretation slf_system: transition_system "\<lambda>s. \<exists>nx. s = slf_start nx" "slf_move simd" slf_inv for simd
proof unfold_locales
  show "slf_inv s" if "\<exists>nx. s = slf_start nx" for s using that fs_ok_start unfolding slf_inv_def by blast
  show "slf_inv s'" if "slf_inv s" "slf_move simd s s'" for s s' using that slf_trans_ok unfolding slf_inv_def slf_move_def by blast
qed

lemma fs_reached:
  assumes "(slf_move simd)\<^sup>*\<^sup>* (slf_start nx) s"
  obtains N m where "fs_ok s N m" "mem_ok (er (sf_mem s)) N m" "sl_rel (er (sf_mem s)) m"
proof -
  obtain N m where ok: "fs_ok s N m" using slf_system.reachable_inv [OF _ assms] unfolding slf_inv_def by blast
  then have "mem_ok (er (sf_mem s)) N m" using sys_okD(1) [of False "flat_sys s"] by (simp add: fs_ok_def)
  with ok mem_ok_rel that show thesis by blast
qed


subsection \<open>Runs by a schedule\<close>

fun slf_do :: "bool \<Rightarrow> nat \<Rightarrow> sl_act \<Rightarrow> slf_sys \<Rightarrow> fault + slf_sys" where
  "slf_do simd t (Call op) s =
     (case snd (sf_thd s t) of
        At (Idle x) \<Rightarrow> bindE (guard Undefined_behaviour (op_items op \<inter> sf_used s = {})) (\<lambda>_.
          Inr (s\<lparr>sf_thd := (sf_thd s)(t := slf_call simd op (sf_mem s)), sf_used := sf_used s \<union> op_items op\<rparr>))
      | _ \<Rightarrow> Inl Undefined_behaviour)"
| "slf_do simd t (Run r) s =
     bindE (slf_step simd t r (fst (sf_thd s t)) (snd (sf_thd s t)) (sf_mem s)) (\<lambda>(fr, pc, mem).
     Inr (s\<lparr>sf_mem := mem, sf_thd := (sf_thd s)(t := (fr, pc))\<rparr>))"

fun slf_exec :: "bool \<Rightarrow> (nat \<times> sl_act) list \<Rightarrow> slf_sys \<Rightarrow> fault + slf_sys" where
  "slf_exec simd [] s = Inr s"
| "slf_exec simd ((t, a) # as) s = bindE (slf_do simd t a s) (slf_exec simd as)"

lemma slf_do_trans: "slf_do simd t a s = Inr s' \<Longrightarrow> slf_trans simd s t s'"
proof (cases a)
  case (Call op)
  assume "slf_do simd t a s = Inr s'"
  then show ?thesis using Call slf_trans.call [of s t _ op simd] by (auto split: slf_pc.splits sl_pc.splits if_splits)
next
  case (Run r)
  assume "slf_do simd t a s = Inr s'"
  then show ?thesis using Run slf_trans.run [of s t "fst (sf_thd s t)" "snd (sf_thd s t)" simd r] by (auto simp: bindE_eq_Inr)
qed

lemma slf_exec_moves: "slf_exec simd as s = Inr s' \<Longrightarrow> (slf_move simd)\<^sup>*\<^sup>* s s'"
proof (induction as arbitrary: s)
  case (Cons x as)
  obtain t a where x: "x = (t, a)" by (cases x)
  obtain s1 where s1: "slf_do simd t a s = Inr s1" "slf_exec simd as s1 = Inr s'" using Cons.prems x by (auto simp: bindE_eq_Inr)
  have "slf_move simd s s1" using slf_do_trans [OF s1(1)] by (auto simp: slf_move_def)
  then show ?case using Cons.IH [OF s1(2)] by (rule converse_rtranclp_into_rtranclp)
qed simp

definition slf_after_run :: "bool \<Rightarrow> (nat \<times> sl_act) list \<Rightarrow> slf_sys" where
  "slf_after_run simd as = projr (slf_exec simd as (slf_start (\<lambda>_. None)))"

lemma slf_run_reached:
  "\<not> isl (slf_exec simd as (slf_start (\<lambda>_. None))) \<Longrightarrow> (slf_move simd)\<^sup>*\<^sup>* (slf_start (\<lambda>_. None)) (slf_after_run simd as)"
  using slf_exec_moves [of simd as] by (cases "slf_exec simd as (slf_start (\<lambda>_. None))") (auto simp: slf_after_run_def)

lemma slf_exec_snoc: "slf_exec simd (as @ [(t, a)]) s = bindE (slf_exec simd as s) (slf_do simd t a)"
  by (induction as arbitrary: s) (auto simp: bindE_assoc bindE_def split: sum.splits)

lemma slf_run_trans:
  assumes "\<not> isl (slf_exec simd (as @ [(t, a)]) (slf_start (\<lambda>_. None)))"
  shows "slf_trans simd (slf_after_run simd as) t (slf_after_run simd (as @ [(t, a)]))"
  using assms slf_do_trans
  by (cases "slf_exec simd as (slf_start (\<lambda>_. None))"; cases "slf_do simd t a (slf_after_run simd as)") (auto simp: slf_after_run_def slf_exec_snoc)

text \<open>The call of an insert of key 5 by thread 0 and \<open>n\<close> of its steps.\<close>

definition fs_insert5 :: "nat \<Rightarrow> (nat \<times> sl_act) list" where
  "fs_insert5 n = (0, Call (Op_insert 5 10)) # runs n 0"

subsection \<open>The index\<close>

text \<open>C7: In both builds the threads' steps refine the abstract index: a step leaves it as it is, or, when it is the one with
  which the thread's insert takes effect, it puts the item in front of those of its key.\<close>

theorem foresight_refines:
  assumes "(slf_move simd)\<^sup>*\<^sup>* (slf_start nx) s" "sl_rel (er (sf_mem s)) m" "slf_trans simd s t s'"
  shows "sl_rel (er (sf_mem s')) (if commits (flat (snd (sf_thd s t))) (flat (snd (sf_thd s' t)))
      then push_item (fr_key (fst (sf_thd s t))) (fr_item (fst (sf_thd s t))) m else m)"
proof -
  obtain N m' where ok: "fs_ok s N m'" "sl_rel (er (sf_mem s)) m'" by (rule fs_reached [OF assms(1)])
  then have m: "m' = m" using sl_rel_functional assms(2) by metis
  obtain N' where "fs_ok s' N' (after_step (fst (sf_thd s t)) (flat (snd (sf_thd s t))) (flat (snd (sf_thd s' t))) m')"
    using slf_trans_ok [OF ok(1) assms(3)] by blast
  then have "sys_ok False (flat_sys s') N' (after_step (fst (sf_thd s t)) (flat (snd (sf_thd s t))) (flat (snd (sf_thd s' t))) m')"
    unfolding fs_ok_def by blast
  from mem_ok_rel [OF sys_okD(1) [OF this]] m show ?thesis by (simp add: after_step_def)
qed

theorem foresight_refines_witness:
  "sl_rel (er (sf_mem (slf_after_run False (fs_insert5 51)))) (push_item 5 10 Map.empty)"
proof -
  have r: "(slf_move False)\<^sup>*\<^sup>* (slf_start (\<lambda>_. None)) (slf_after_run False (fs_insert5 50))" by (rule slf_run_reached) code_simp
  have e: "sl_rel (er (sf_mem (slf_after_run False (fs_insert5 50)))) Map.empty" by (rule sl_rel_empty; code_simp)
  have "slf_trans False (slf_after_run False (fs_insert5 50)) 0 (slf_after_run False (fs_insert5 50 @ [(0, Run 1)]))" by (rule slf_run_trans) code_simp
  moreover have "fs_insert5 50 @ [(0, Run 1)] = fs_insert5 51" by (simp add: fs_insert5_def numeral_eq_Suc)
  ultimately have t: "slf_trans False (slf_after_run False (fs_insert5 50)) 0 (slf_after_run False (fs_insert5 51))" by simp
  have c: "commits (flat (snd (sf_thd (slf_after_run False (fs_insert5 50)) 0))) (flat (snd (sf_thd (slf_after_run False (fs_insert5 51)) 0))) \<and>
    fr_key (fst (sf_thd (slf_after_run False (fs_insert5 50)) 0)) = 5 \<and> fr_item (fst (sf_thd (slf_after_run False (fs_insert5 50)) 0)) = 10" by code_simp
  show ?thesis using foresight_refines [OF r e t] c by simp
qed

text \<open>C10: In both builds no step of any thread dereferences a null or a freed pointer, reads an uninitialised pair or past a tower, or fails
  an assertion, except \<^verbatim>\<open>index_read\<close> of a key the index does not have. A key that has been read too early, or belongs to another node by now,
  only makes the search leave a level at the wrong node.\<close>

theorem foresight_safe:
  assumes "(slf_move simd)\<^sup>*\<^sup>* (slf_start nx) s" "sl_rel (er (sf_mem s)) m" "sf_thd s t = (fr, pc)" "slf_step simd t r fr pc (sf_mem s) = Inl e"
  shows "e = Assert_failed \<and> (\<exists>i x. pc = At (Walk For_read i x)) \<and> m (fr_key fr) = None"
proof -
  obtain N m' where ok: "fs_ok s N m'" "sl_rel (er (sf_mem s)) m'" by (rule fs_reached [OF assms(1)])
  then have "m' = m" using sl_rel_functional assms(2) by metis
  with fs_thread [OF ok(1) assms(3), of simd r] assms(4) show ?thesis by auto
qed

theorem foresight_safe_witness:
  "\<exists>i x. snd (sf_thd (slf_after_run False [(0, Call (Op_read 5)), (0, Run 1)]) 0) = At (Walk For_read i x)"
proof -
  let ?s = "slf_after_run False [(0, Call (Op_read 5)), (0, Run 1)]"
  have r: "(slf_move False)\<^sup>*\<^sup>* (slf_start (\<lambda>_. None)) ?s" by (rule slf_run_reached) code_simp
  have e: "sl_rel (er (sf_mem ?s)) Map.empty" by (rule sl_rel_empty; code_simp)
  have "case slf_step False 0 1 (fst (sf_thd ?s 0)) (snd (sf_thd ?s 0)) (sf_mem ?s) of Inl e \<Rightarrow> True | Inr x \<Rightarrow> False" by code_simp
  then obtain e where f: "slf_step False 0 1 (fst (sf_thd ?s 0)) (snd (sf_thd ?s 0)) (sf_mem ?s) = Inl e" by (auto split: sum.splits)
  show ?thesis using foresight_safe [OF r e prod.collapse [symmetric] f] by simp
qed

text \<open>C21: The foresight is right: beside a pointer of any node in any reachable state is the key of the node it points to, and that node
  can be reached from the head on the bottom level or is the tail.\<close>

theorem foresight_keys:
  assumes "(slf_move simd)\<^sup>*\<^sup>* (slf_start nx) s" "slf_heap (sf_mem s) p = Some n" "slf_next n i = Some (Some q, k)"
  shows "\<exists>n'. slf_heap (sf_mem s) q = Some n' \<and> slf_key n' = k \<and> (q = sl_tail \<or> q \<in> set (sl_level (er (sf_mem s)) 0))"
proof -
  obtain N m where ok: "fs_ok s N m" "mem_ok (er (sf_mem s)) N m" by (rule fs_reached [OF assms(1)])
  have M: "0 < MAXLEVEL" by (simp add: MAXLEVEL_def)
  have "pair_ok (er (sf_mem s)) (N 0) (Some q, k)" using ok(1) assms(2,3) unfolding fs_ok_def keyed_def by blast
  then have q: "q \<in> insert sl_tail (N 0)" "sn_key (nd (er (sf_mem s)) q) = k" by (auto simp: pair_ok_def)
  then have "q \<in> insert 0 (insert sl_tail (N 0))" by auto
  from slf_live [OF live_node(2) [OF ok(2) this]] q sl_level_ok(1) [OF ok(2) M] show ?thesis by auto
qed


theorem foresight_keys_witness:
  "\<exists>n'. slf_heap (sf_mem (slf_after_run True (fs_insert5 29))) 2 = Some n' \<and> slf_key n' = 5"
proof -
  let ?s = "slf_after_run True (fs_insert5 29)"
  have r: "(slf_move True)\<^sup>*\<^sup>* (slf_start (\<lambda>_. None)) ?s" by (rule slf_run_reached) code_simp
  have "case slf_heap (sf_mem ?s) 0 of None \<Rightarrow> False | Some n \<Rightarrow> slf_next n 0 = Some (Some 2, 5)" by code_simp
  then obtain n where n: "slf_heap (sf_mem ?s) 0 = Some n" "slf_next n 0 = Some (Some 2, 5)" by (auto split: option.splits)
  show ?thesis using foresight_keys [OF r n] by blast
qed

end
