(* ===== verification/Btree_olc.thy ===== *)
theory Btree_olc
  imports Index_base
begin

text \<open>
  The B+-tree with optimistic lock coupling, \<^verbatim>\<open>storage/BTreeOLC/BTreeOLC.h\<close>, and its adapter \<^verbatim>\<open>storage/index_BTreeOLC.cpp\<close>.
  Threads run at the same time. A reader takes no lock: it reads the version of a node, then the node, and checks the version again. The
  read is one step, at its end; if the version is no longer the one the reader took, it may have seen anything, which is an argument of
  the step. A writer locks the nodes it changes, so that a change of a locked node is one step.
\<close>

subsection \<open>Nodes\<close>

definition pageSize :: nat where "pageSize = 4096"

text \<open>The header of a node has 16 bytes, keys, payloads and pointers have 8.\<close>

definition leaf_max :: nat where "leaf_max = (pageSize - 16) div (8 + 8)"

definition inner_max :: nat where "inner_max = (pageSize - 16) div (8 + 8)"

datatype page = BTreeLeaf "idx_key_t list" "item_ptr list" | BTreeInner "idx_key_t list" "nat list"

record NodeBase =
  typeVersionLockObsolete :: "64 word"
  nb_page :: page

text \<open>\<^verbatim>\<open>count\<close> is the number of keys. The array behind it has what was there before.\<close>

fun page_keys :: "page \<Rightarrow> idx_key_t list" where
  "page_keys (BTreeLeaf ks vs) = ks"
| "page_keys (BTreeInner ks cs) = ks"

fun is_leaf :: "page \<Rightarrow> bool" where
  "is_leaf (BTreeLeaf ks vs) = True"
| "is_leaf (BTreeInner ks cs) = False"

definition key_at :: "idx_key_t \<Rightarrow> idx_key_t list \<Rightarrow> nat \<Rightarrow> idx_key_t" where
  "key_at junk ks i = (if i < length ks then ks ! i else junk)"

function lb_loop :: "(nat \<Rightarrow> idx_key_t) \<Rightarrow> idx_key_t \<Rightarrow> nat \<Rightarrow> nat \<Rightarrow> nat" where
  "lb_loop keys k lower upper =
     (let mid = (upper - lower) div 2 + lower in
      if k < keys mid then (if lower < mid then lb_loop keys k lower mid else lower)
      else if k > keys mid then (if mid + 1 < upper then lb_loop keys k (mid + 1) upper else mid + 1)
      else mid)"
  by pat_completeness auto
termination
  by (relation "measure (\<lambda>(keys, k, lower, upper). upper - lower)") auto

definition lower_bound :: "idx_key_t \<Rightarrow> idx_key_t list \<Rightarrow> idx_key_t \<Rightarrow> nat" where
  "lower_bound junk ks k = lb_loop (key_at junk ks) k 0 (length ks)"

definition insert_at :: "nat \<Rightarrow> 'a \<Rightarrow> 'a list \<Rightarrow> 'a list" where
  "insert_at pos x xs = take pos xs @ x # drop pos xs"

definition leaf_insert :: "idx_key_t \<Rightarrow> item_ptr \<Rightarrow> page \<Rightarrow> item_next \<Rightarrow> fault + (page \<times> item_next)" where
  "leaf_insert k p pg nx =
     (case pg of BTreeInner ks cs \<Rightarrow> Inl Undefined_behaviour
      | BTreeLeaf ks vs \<Rightarrow>
        bindE (assert_that (length ks < leaf_max)) (\<lambda>_.
        if ks \<noteq> [] then
          let pos = lower_bound 0 ks k in
          if pos < length ks \<and> ks ! pos = k then Inr (BTreeLeaf ks (vs[pos := p]), nx(p := Some (vs ! pos)))
          else Inr (BTreeLeaf (insert_at pos k ks) (insert_at pos p vs), nx)
        else Inr (BTreeLeaf [k] [p], nx)))"

definition leaf_split :: "idx_key_t list \<Rightarrow> item_ptr list \<Rightarrow> page \<times> page \<times> idx_key_t" where
  "leaf_split ks vs =
     (let new_count = length ks - length ks div 2; count = length ks - new_count
      in (BTreeLeaf (take count ks) (take count vs), BTreeLeaf (take new_count (drop count ks)) (take new_count (drop count vs)), ks ! (count - 1)))"

definition inner_split :: "idx_key_t list \<Rightarrow> nat list \<Rightarrow> page \<times> page \<times> idx_key_t" where
  "inner_split ks cs =
     (let new_count = length ks - length ks div 2; count = length ks - new_count - 1
      in (BTreeInner (take count ks) (take (count + 1) cs),
          BTreeInner (take new_count (drop (count + 1) ks)) (take (new_count + 1) (drop (count + 1) cs)), ks ! count))"

definition page_split :: "page \<Rightarrow> page \<times> page \<times> idx_key_t" where
  "page_split pg = (case pg of BTreeLeaf ks vs \<Rightarrow> leaf_split ks vs | BTreeInner ks cs \<Rightarrow> inner_split ks cs)"

definition swap_next :: "nat \<Rightarrow> 'a list \<Rightarrow> 'a list" where
  "swap_next i xs = xs[i := xs ! (i + 1), i + 1 := xs ! i]"

definition inner_insert :: "idx_key_t \<Rightarrow> nat \<Rightarrow> page \<Rightarrow> fault + page" where
  "inner_insert k child pg =
     (case pg of BTreeLeaf ks vs \<Rightarrow> Inl Undefined_behaviour
      | BTreeInner ks cs \<Rightarrow>
        bindE (assert_that (length ks < inner_max - 1)) (\<lambda>_.
        let pos = lower_bound 0 ks k
        in Inr (BTreeInner (insert_at pos k ks) (swap_next pos (insert_at pos child cs)))))"

definition is_full :: "page \<Rightarrow> bool" where
  "is_full pg = (case pg of BTreeLeaf ks vs \<Rightarrow> length ks = leaf_max | BTreeInner ks cs \<Rightarrow> length ks = inner_max - 1)"

definition inner_child :: "idx_key_t \<Rightarrow> page \<Rightarrow> fault + nat" where
  "inner_child k pg =
     (case pg of BTreeLeaf ks vs \<Rightarrow> Inl Undefined_behaviour
      | BTreeInner ks cs \<Rightarrow> let pos = lower_bound 0 ks k in bindE (guard Out_of_bounds (pos < length cs)) (\<lambda>_. Inr (cs ! pos)))"

text \<open>The search in a leaf. \<open>junk\<close> is what an empty leaf has in its first slot.\<close>

definition bt_leaf_find :: "idx_key_t \<Rightarrow> idx_key_t \<Rightarrow> page \<Rightarrow> fault + item_ptr option" where
  "bt_leaf_find junk k pg =
     (case pg of BTreeInner ks cs \<Rightarrow> Inl Undefined_behaviour
      | BTreeLeaf ks vs \<Rightarrow> let pos = lower_bound junk ks k in Inr (if pos < length ks \<and> ks ! pos = k then Some (vs ! pos) else None))"

definition leaf_scan :: "idx_key_t \<Rightarrow> idx_key_t \<Rightarrow> nat \<Rightarrow> page \<Rightarrow> fault + (idx_key_t \<times> item_ptr) list" where
  "leaf_scan junk k most pg =
     (case pg of BTreeInner ks cs \<Rightarrow> Inl Undefined_behaviour
      | BTreeLeaf ks vs \<Rightarrow> let pos = lower_bound junk ks k in Inr (take most (drop pos (zip ks vs))))"

subsection \<open>Shared memory\<close>

text \<open>A scan cursor is the entries in its buffer, \<^verbatim>\<open>count\<close> many, and the position in it.\<close>

record BTreeOLCScanCursor =
  sc_entries :: "(idx_key_t \<times> item_ptr) list"
  sc_pos :: nat

record IndexBTreeOLC =
  bt_heap :: "nat \<Rightarrow> NodeBase option"
  bt_fresh :: nat
  bt_root :: nat
  bt_item_next :: item_next
  bt_cur_key :: "nat \<Rightarrow> idx_key_t"
  bt_cur_item :: "nat \<Rightarrow> item_ptr option"
  bt_cursor :: "nat \<Rightarrow> BTreeOLCScanCursor"

definition BTREEOLC_SCAN_BATCH :: nat where "BTREEOLC_SCAN_BATCH = 32"

definition bt_node_at :: "nat \<Rightarrow> IndexBTreeOLC \<Rightarrow> fault + NodeBase" where
  "bt_node_at p s = (case bt_heap s p of None \<Rightarrow> Inl Undefined_behaviour | Some n \<Rightarrow> Inr n)"

definition bt_put :: "nat \<Rightarrow> NodeBase \<Rightarrow> IndexBTreeOLC \<Rightarrow> IndexBTreeOLC" where
  "bt_put p n s = s\<lparr>bt_heap := (bt_heap s)(p \<mapsto> n)\<rparr>"

definition new_page :: "page \<Rightarrow> IndexBTreeOLC \<Rightarrow> nat \<times> IndexBTreeOLC" where
  "new_page pg s = (bt_fresh s, s\<lparr>bt_heap := (bt_heap s)(bt_fresh s \<mapsto> \<lparr>typeVersionLockObsolete = 4, nb_page = pg\<rparr>), bt_fresh := Suc (bt_fresh s)\<rparr>)"

definition bt_init :: "item_next \<Rightarrow> IndexBTreeOLC" where
  "bt_init nx =
     (let (r, s) = new_page (BTreeLeaf [] []) \<lparr>bt_heap = (\<lambda>_. None), bt_fresh = 0, bt_root = 0, bt_item_next = nx, bt_cur_key = (\<lambda>_. 0),
            bt_cur_item = (\<lambda>_. None), bt_cursor = (\<lambda>_. \<lparr>sc_entries = [], sc_pos = 0\<rparr>)\<rparr>
      in s\<lparr>bt_root := r\<rparr>)"

subsection \<open>Version locks\<close>

definition isLocked :: "64 word \<Rightarrow> bool" where
  "isLocked version \<longleftrightarrow> version AND 2 = 2"

definition isObsolete :: "64 word \<Rightarrow> bool" where
  "isObsolete version \<longleftrightarrow> version AND 1 = 1"

definition readLock :: "nat \<Rightarrow> IndexBTreeOLC \<Rightarrow> fault + 64 word option" where
  "readLock p s = bindE (bt_node_at p s) (\<lambda>n. let version = typeVersionLockObsolete n in
     Inr (if isLocked version \<or> isObsolete version then None else Some version))"

definition upgradeToWriteLock :: "nat \<Rightarrow> 64 word \<Rightarrow> IndexBTreeOLC \<Rightarrow> fault + (bool \<times> IndexBTreeOLC)" where
  "upgradeToWriteLock p version s = bindE (bt_node_at p s) (\<lambda>n.
     if typeVersionLockObsolete n = version then Inr (True, bt_put p (n\<lparr>typeVersionLockObsolete := version + 2\<rparr>) s) else Inr (False, s))"

definition writeUnlock :: "nat \<Rightarrow> IndexBTreeOLC \<Rightarrow> fault + IndexBTreeOLC" where
  "writeUnlock p s = bindE (bt_node_at p s) (\<lambda>n. Inr (bt_put p (n\<lparr>typeVersionLockObsolete := typeVersionLockObsolete n + 2\<rparr>) s))"

definition unchanged :: "nat \<Rightarrow> 64 word \<Rightarrow> IndexBTreeOLC \<Rightarrow> fault + bool" where
  "unchanged p startRead s = bindE (bt_node_at p s) (\<lambda>n. Inr (startRead = typeVersionLockObsolete n))"

text \<open>What a reader sees of a node whose version it took: \<open>f\<close> of the page, or anything (\<open>torn\<close>) when the version has changed.\<close>

definition optimistic :: "nat \<Rightarrow> 64 word \<Rightarrow> (page \<Rightarrow> fault + 'a) \<Rightarrow> 'a \<Rightarrow> IndexBTreeOLC \<Rightarrow> fault + 'a" where
  "optimistic p version f torn s = bindE (bt_node_at p s) (\<lambda>n. if typeVersionLockObsolete n = version then f (nb_page n) else Inr torn)"

subsection \<open>Threads\<close>

datatype bt_goal = For_insert | For_exist | For_read | For_scan

record bt_frame =
  bf_goal :: bt_goal
  bf_key :: idx_key_t
  bf_item :: item_ptr
  bf_node :: nat
  bf_version :: "64 word"
  bf_parent :: "(nat \<times> 64 word) option"

datatype bt_result = No_result | Exists bool | Read_result "item_ptr option" | Inserted

datatype bt_seen = Seen_item "item_ptr option" | Seen_entries "(idx_key_t \<times> item_ptr) list"

datatype bt_pc = Idle bt_result | Clear_next | Start | Version | Root_check | Inspect | Check_parent | Read_child | Check_node nat | Child_version nat
  | Lock_parent | Lock_node | Moved_root | Split | Unlock_node | Unlock_parent | Lock_leaf | Leaf_parent | Leaf_insert | Leaf_unlock bool
  | Look | Look_parent bt_seen | Look_node bt_seen | Next_start bool | Next_take

datatype bt_op = Op_insert idx_key_t item_ptr | Op_read idx_key_t | Op_exist idx_key_t | Op_next bool

text \<open>What a reader may see of a node that a writer is changing.\<close>

record bt_torn =
  torn_full :: bool
  torn_child :: nat
  torn_seen :: bt_seen
  torn_key :: idx_key_t

text \<open>\<^verbatim>\<open>split\<close> of the node and \<^verbatim>\<open>insert\<close> into its parent, or \<^verbatim>\<open>makeRoot\<close>. The thread has locked both.\<close>

definition split_node :: "bt_frame \<Rightarrow> IndexBTreeOLC \<Rightarrow> fault + IndexBTreeOLC" where
  "split_node fr s =
     bindE (bt_node_at (bf_node fr) s) (\<lambda>n.
     let (left, right, sep) = page_split (nb_page n); (p, s1) = new_page right s; s2 = bt_put (bf_node fr) (n\<lparr>nb_page := left\<rparr>) s1 in
     case bf_parent fr of
       Some (q, vp) \<Rightarrow> bindE (bt_node_at q s2) (\<lambda>m. bindE (inner_insert sep p (nb_page m)) (\<lambda>pg. Inr (bt_put q (m\<lparr>nb_page := pg\<rparr>) s2)))
     | None \<Rightarrow> let (r, s3) = new_page (BTreeInner [sep] [bf_node fr, p]) s2 in Inr (s3\<lparr>bt_root := r\<rparr>))"

definition look :: "bt_torn \<Rightarrow> bt_frame \<Rightarrow> page \<Rightarrow> fault + bt_seen" where
  "look torn fr pg =
     (if bf_goal fr = For_scan then bindE (leaf_scan (torn_key torn) (bf_key fr) BTREEOLC_SCAN_BATCH pg) (\<lambda>es. Inr (Seen_entries es))
      else bindE (bt_leaf_find (torn_key torn) (bf_key fr) pg) (\<lambda>r. Inr (Seen_item r)))"

text \<open>The end of \<open>lookup\<close> and \<open>scan\<close>, and what the adapter does with the result. \<^verbatim>\<open>success\<close> is not initialised, so that
  \<open>lookup\<close> of an absent key reads an indeterminate value.\<close>

definition finish_look :: "nat \<Rightarrow> bt_frame \<Rightarrow> bt_seen \<Rightarrow> IndexBTreeOLC \<Rightarrow> fault + (bt_pc \<times> IndexBTreeOLC)" where
  "finish_look thd fr seen s =
     (case (bf_goal fr, seen) of
        (For_exist, Seen_item (Some v)) \<Rightarrow> Inr (Idle (Exists True), s)
      | (For_read, Seen_item (Some v)) \<Rightarrow> Inr (Idle (Read_result (Some v)), s\<lparr>bt_cur_key := (bt_cur_key s)(thd := bf_key fr),
            bt_cur_item := (bt_cur_item s)(thd := Some v), bt_cursor := (bt_cursor s)(thd := \<lparr>sc_entries = [], sc_pos = 0\<rparr>)\<rparr>)
      | (For_scan, Seen_entries es) \<Rightarrow> Inr (Next_take, s\<lparr>bt_cursor := (bt_cursor s)(thd := \<lparr>sc_entries = es, sc_pos = 0\<rparr>)\<rparr>)
      | _ \<Rightarrow> Inl Undefined_behaviour)"

definition next_item :: "nat \<Rightarrow> IndexBTreeOLC \<Rightarrow> item_ptr option" where
  "next_item thd s = (case bt_cur_item s thd of None \<Rightarrow> None | Some last_item \<Rightarrow> bt_item_next s last_item)"

definition take_cursor :: "nat \<Rightarrow> IndexBTreeOLC \<Rightarrow> item_ptr option \<times> IndexBTreeOLC" where
  "take_cursor thd s =
     (let c = bt_cursor s thd in
      if sc_pos c < length (sc_entries c) then
        let (k, v) = sc_entries c ! sc_pos c in
        (Some v, s\<lparr>bt_cur_key := (bt_cur_key s)(thd := k), bt_cursor := (bt_cursor s)(thd := c\<lparr>sc_pos := sc_pos c + 1\<rparr>),
                   bt_cur_item := (bt_cur_item s)(thd := Some v)\<rparr>)
      else (None, s\<lparr>bt_cur_item := (bt_cur_item s)(thd := None)\<rparr>))"

definition parent_unchanged :: "bt_frame \<Rightarrow> IndexBTreeOLC \<Rightarrow> fault + bool" where
  "parent_unchanged fr s = (case bf_parent fr of None \<Rightarrow> Inr True | Some (q, vp) \<Rightarrow> unchanged q vp s)"

fun bt_step :: "nat \<Rightarrow> bt_torn \<Rightarrow> bt_frame \<Rightarrow> bt_pc \<Rightarrow> IndexBTreeOLC \<Rightarrow> fault + (bt_frame \<times> bt_pc \<times> IndexBTreeOLC)" where
  "bt_step thd torn fr (Idle x) s = Inr (fr, Idle x, s)"
| "bt_step thd torn fr Clear_next s = Inr (fr, Start, s\<lparr>bt_item_next := (bt_item_next s)(bf_item fr := None)\<rparr>)"
| "bt_step thd torn fr Start s = Inr (fr\<lparr>bf_node := bt_root s, bf_parent := None\<rparr>, Version, s)"
| "bt_step thd torn fr Version s =
     bindE (readLock (bf_node fr) s) (\<lambda>v. Inr (case v of None \<Rightarrow> (fr, Start, s) | Some version \<Rightarrow> (fr\<lparr>bf_version := version\<rparr>, Root_check, s)))"
| "bt_step thd torn fr Root_check s = Inr (fr, if bf_node fr \<noteq> bt_root s then Start else Inspect, s)"
| "bt_step thd torn fr Inspect s =
     bindE (bt_node_at (bf_node fr) s) (\<lambda>n.
     bindE (if bf_goal fr = For_insert then optimistic (bf_node fr) (bf_version fr) (\<lambda>pg. Inr (is_full pg)) (torn_full torn) s else Inr False) (\<lambda>full.
     Inr (fr, if full then Lock_parent else if is_leaf (nb_page n) then (if bf_goal fr = For_insert then Lock_leaf else Look) else Check_parent, s)))"
| "bt_step thd torn fr Check_parent s = bindE (parent_unchanged fr s) (\<lambda>ok. Inr (fr, if ok then Read_child else Start, s))"
| "bt_step thd torn fr Read_child s =
     bindE (optimistic (bf_node fr) (bf_version fr) (inner_child (bf_key fr)) (torn_child torn) s) (\<lambda>c.
     Inr (fr\<lparr>bf_parent := Some (bf_node fr, bf_version fr)\<rparr>, Check_node c, s))"
| "bt_step thd torn fr (Check_node c) s = bindE (parent_unchanged fr s) (\<lambda>ok. Inr (fr, if ok then Child_version c else Start, s))"
| "bt_step thd torn fr (Child_version c) s =
     bindE (readLock c s) (\<lambda>v. Inr (case v of None \<Rightarrow> (fr, Start, s) | Some version \<Rightarrow> (fr\<lparr>bf_node := c, bf_version := version\<rparr>, Inspect, s)))"
| "bt_step thd torn fr Lock_parent s =
     (case bf_parent fr of None \<Rightarrow> Inr (fr, Lock_node, s)
      | Some (q, vp) \<Rightarrow> bindE (upgradeToWriteLock q vp s) (\<lambda>(ok, s1). Inr (fr, if ok then Lock_node else Start, s1)))"
| "bt_step thd torn fr Lock_node s =
     bindE (upgradeToWriteLock (bf_node fr) (bf_version fr) s) (\<lambda>(ok, s1). Inr (fr, if ok then Moved_root else Unlock_parent, s1))"
| "bt_step thd torn fr Moved_root s = Inr (fr, if bf_parent fr = None \<and> bf_node fr \<noteq> bt_root s then Unlock_node else Split, s)"
| "bt_step thd torn fr Split s = bindE (split_node fr s) (\<lambda>s1. Inr (fr, Unlock_node, s1))"
| "bt_step thd torn fr Unlock_node s = bindE (writeUnlock (bf_node fr) s) (\<lambda>s1. Inr (fr, Unlock_parent, s1))"
| "bt_step thd torn fr Unlock_parent s =
     (case bf_parent fr of None \<Rightarrow> Inr (fr, Start, s) | Some (q, vp) \<Rightarrow> bindE (writeUnlock q s) (\<lambda>s1. Inr (fr, Start, s1)))"
| "bt_step thd torn fr Lock_leaf s =
     bindE (upgradeToWriteLock (bf_node fr) (bf_version fr) s) (\<lambda>(ok, s1). Inr (fr, if ok then Leaf_parent else Start, s1))"
| "bt_step thd torn fr Leaf_parent s = bindE (parent_unchanged fr s) (\<lambda>ok. Inr (fr, if ok then Leaf_insert else Leaf_unlock False, s))"
| "bt_step thd torn fr Leaf_insert s =
     bindE (bt_node_at (bf_node fr) s) (\<lambda>n.
     bindE (leaf_insert (bf_key fr) (bf_item fr) (nb_page n) (bt_item_next s)) (\<lambda>(pg, nx).
     Inr (fr, Leaf_unlock True, (bt_put (bf_node fr) (n\<lparr>nb_page := pg\<rparr>) s)\<lparr>bt_item_next := nx\<rparr>)))"
| "bt_step thd torn fr (Leaf_unlock done) s = bindE (writeUnlock (bf_node fr) s) (\<lambda>s1. Inr (fr, if done then Idle Inserted else Start, s1))"
| "bt_step thd torn fr Look s =
     bindE (optimistic (bf_node fr) (bf_version fr) (look torn fr) (torn_seen torn) s) (\<lambda>seen. Inr (fr, Look_parent seen, s))"
| "bt_step thd torn fr (Look_parent seen) s = bindE (parent_unchanged fr s) (\<lambda>ok. Inr (fr, if ok then Look_node seen else Start, s))"
| "bt_step thd torn fr (Look_node seen) s =
     bindE (unchanged (bf_node fr) (bf_version fr) s) (\<lambda>ok.
     if ok then bindE (finish_look thd fr seen s) (\<lambda>(pc, s1). Inr (fr, pc, s1)) else Inr (fr, Start, s))"
| "bt_step thd torn fr (Next_start samekey) s =
     (if \<not> samekey \<and> next_item thd s = None then
        if sc_pos (bt_cursor s thd) \<ge> length (sc_entries (bt_cursor s thd)) then Inr (fr\<lparr>bf_goal := For_scan, bf_key := bt_cur_key s thd + 1\<rparr>, Start, s)
        else Inr (fr, Next_take, s)
      else Inr (fr, Idle (Read_result (next_item thd s)), s\<lparr>bt_cur_item := (bt_cur_item s)(thd := next_item thd s)\<rparr>))"
| "bt_step thd torn fr Next_take s = (let (r, s1) = take_cursor thd s in Inr (fr, Idle (Read_result r), s1))"

definition bt_call :: "bt_op \<Rightarrow> bt_frame \<times> bt_pc" where
  "bt_call op =
     (let fr = \<lparr>bf_goal = For_insert, bf_key = 0, bf_item = 0, bf_node = 0, bf_version = 0, bf_parent = None\<rparr> in
      case op of
        Op_insert k i \<Rightarrow> (fr\<lparr>bf_key := k, bf_item := i\<rparr>, Clear_next)
      | Op_read k \<Rightarrow> (fr\<lparr>bf_goal := For_read, bf_key := k\<rparr>, Start)
      | Op_exist k \<Rightarrow> (fr\<lparr>bf_goal := For_exist, bf_key := k\<rparr>, Start)
      | Op_next samekey \<Rightarrow> (fr\<lparr>bf_goal := For_scan\<rparr>, Next_start samekey))"

subsection \<open>The system\<close>

text \<open>All threads with the memory. A version is taken to be locked only while it does not wrap around; an item is inserted once.\<close>

record bt_sys =
  by_mem :: IndexBTreeOLC
  by_thd :: "nat \<Rightarrow> bt_frame \<times> bt_pc"
  by_used :: "item_ptr set"

fun bt_op_items :: "bt_op \<Rightarrow> item_ptr set" where
  "bt_op_items (Op_insert k i) = {i}"
| "bt_op_items _ = {}"

definition versions_left :: "IndexBTreeOLC \<Rightarrow> bool" where
  "versions_left s \<longleftrightarrow> list_all (\<lambda>p. case bt_heap s p of None \<Rightarrow> True | Some n \<Rightarrow> typeVersionLockObsolete n < UINT64_MAX - 8) [0..<bt_fresh s]"

inductive bt_trans :: "bt_sys \<Rightarrow> nat \<Rightarrow> bt_sys \<Rightarrow> bool" where
  call: "by_thd s t = (fr, Idle x) \<Longrightarrow> bt_op_items op \<inter> by_used s = {} \<Longrightarrow>
     bt_trans s t (s\<lparr>by_thd := (by_thd s)(t := bt_call op), by_used := by_used s \<union> bt_op_items op\<rparr>)"
| run: "by_thd s t = (fr, pc) \<Longrightarrow> versions_left (by_mem s) \<Longrightarrow> bt_step t torn fr pc (by_mem s) = Inr (fr', pc', mem') \<Longrightarrow>
     bt_trans s t (s\<lparr>by_mem := mem', by_thd := (by_thd s)(t := (fr', pc'))\<rparr>)"

definition bt_start :: "item_next \<Rightarrow> bt_sys" where
  "bt_start nx = \<lparr>by_mem = bt_init nx,
     by_thd = (\<lambda>_. (\<lparr>bf_goal = For_insert, bf_key = 0, bf_item = 0, bf_node = 0, bf_version = 0, bf_parent = None\<rparr>, Idle No_result)), by_used = {}\<rparr>"

end
