(* ===== verification/Btree_inv.thy ===== *)
theory Btree_inv
  imports Btree_olc
begin

text \<open>
  What holds of a node of the B+-tree: the range of the keys that belong to it, its keys in that range, the ranges of its children; the binary search,
  and what splits and inserts make of these.
\<close>

subsection \<open>The binary search\<close>

definition pos_ok :: "idx_key_t list \<Rightarrow> idx_key_t \<Rightarrow> nat \<Rightarrow> bool" where
  "pos_ok ks k i \<longleftrightarrow> i \<le> length ks \<and> (\<forall>j<i. ks ! j < k) \<and> (\<forall>j. i \<le> j \<longrightarrow> j < length ks \<longrightarrow> k \<le> ks ! j)"

lemma pos_ok_unique:
  assumes "pos_ok ks k i" "pos_ok ks k j"
  shows "i = j"
proof -
  have "\<not> a < b" if "pos_ok ks k a" "pos_ok ks k b" for a b
    using that unfolding pos_ok_def by (meson leD less_le_trans order_refl)
  then show ?thesis using assms by (meson linorder_neqE_nat)
qed

declare lb_loop.simps [simp del]

lemma lb_loop_ok:
  assumes "\<And>i j. i < j \<Longrightarrow> j < n \<Longrightarrow> a i < a j" "lower < upper" "upper \<le> n" "\<And>i. i < lower \<Longrightarrow> a i < k"
    "\<And>i. upper \<le> i \<Longrightarrow> i < n \<Longrightarrow> k \<le> a i"
  shows "lb_loop a k lower upper \<le> n \<and> (\<forall>i<lb_loop a k lower upper. a i < k) \<and> (\<forall>i. lb_loop a k lower upper \<le> i \<longrightarrow> i < n \<longrightarrow> k \<le> a i)"
  using assms
proof (induction a k lower upper rule: lb_loop.induct)
  case (1 a k lower upper)
  let ?mid = "(upper - lower) div 2 + lower"
  have m: "lower \<le> ?mid" "?mid < upper" using 1(4) by auto
  have up: "a ?mid \<le> a i" if "?mid \<le> i" "i < n" for i using 1(3) [of ?mid i] that by (cases "?mid = i") (auto intro: order.strict_implies_order)
  have down: "a i \<le> a ?mid" if "i \<le> ?mid" for i using 1(3) [of i ?mid] that m 1(5) by (cases "?mid = i") (auto intro: order.strict_implies_order)
  consider (less) "k < a ?mid" | (greater) "a ?mid < k" | (eq) "a ?mid = k" by (rule linorder_cases)
  then show ?case
  proof cases
    case less
    have ge: "k \<le> a i" if "?mid \<le> i" "i < n" for i using less up [OF that] by (meson less_imp_le order_trans)
    show ?thesis
    proof (cases "lower < ?mid")
      case True
      have n: "?mid \<le> n" using m 1(5) by simp
      have e: "lb_loop a k lower upper = lb_loop a k lower ?mid" using less True by (subst lb_loop.simps) (simp add: Let_def)
      show ?thesis unfolding e by (rule 1(1) [OF refl less True 1(3) True n 1(6) ge])
    next
      case False
      then have "lb_loop a k lower upper = lower" using less by (subst lb_loop.simps) (simp add: Let_def)
      then show ?thesis using 1(4-6) ge m False by auto
    qed
  next
    case greater
    have lt: "a i < k" if "i < ?mid + 1" for i
    proof -
      have "i \<le> ?mid" using that by simp
      then show ?thesis using down greater by (meson le_less_trans)
    qed
    have nl: "\<not> k < a ?mid" using greater by simp
    show ?thesis
    proof (cases "?mid + 1 < upper")
      case True
      have e: "lb_loop a k lower upper = lb_loop a k (?mid + 1) upper" using greater nl True by (subst lb_loop.simps) (simp add: Let_def)
      show ?thesis unfolding e by (rule 1(2) [OF refl nl greater True 1(3) True 1(5) lt 1(7)])
    next
      case False
      then have e: "lb_loop a k lower upper = ?mid + 1" using greater nl by (subst lb_loop.simps) (simp add: Let_def)
      have u: "upper = ?mid + 1" using False m by simp
      have "k \<le> a i" if "?mid + 1 \<le> i" "i < n" for i by (rule 1(7)) (use that u in simp_all)
      then show ?thesis unfolding e using lt 1(5) u by simp
    qed
  next
    case eq
    then have "lb_loop a k lower upper = ?mid" by (subst lb_loop.simps) (simp add: Let_def)
    moreover have "a i < k" if "i < ?mid" for i using 1(3) [of i ?mid] that m 1(5) eq by auto
    ultimately show ?thesis using up eq m 1(5) by auto
  qed
qed

lemma lower_bound_ok:
  assumes "sorted_wrt (<) ks" "ks \<noteq> []"
  shows "pos_ok ks k (lower_bound junk ks k)"
proof -
  have "lb_loop (key_at junk ks) k 0 (length ks) \<le> length ks \<and>
    (\<forall>i<lb_loop (key_at junk ks) k 0 (length ks). key_at junk ks i < k) \<and>
    (\<forall>i. lb_loop (key_at junk ks) k 0 (length ks) \<le> i \<longrightarrow> i < length ks \<longrightarrow> k \<le> key_at junk ks i)"
    by (rule lb_loop_ok) (use assms in \<open>auto simp: key_at_def sorted_wrt_nth_less\<close>)
  then show ?thesis unfolding pos_ok_def lower_bound_def by (auto simp: key_at_def split: if_splits)
qed

lemma lower_bound_eq: "sorted_wrt (<) ks \<Longrightarrow> ks \<noteq> [] \<Longrightarrow> pos_ok ks k i \<Longrightarrow> lower_bound junk ks k = i"
  using lower_bound_ok pos_ok_unique by blast

lemma pos_ok_found:
  assumes "sorted_wrt (<) ks" "pos_ok ks k i"
  shows "k \<in> set ks \<longleftrightarrow> i < length ks \<and> ks ! i = k"
proof
  assume "k \<in> set ks"
  then obtain j where j: "j < length ks" "ks ! j = k" by (auto simp: in_set_conv_nth)
  then have "i \<le> j" using assms(2) unfolding pos_ok_def by (metis less_irrefl linorder_not_less)
  then have "i < length ks" "ks ! i \<le> k" using j assms(1) by (auto simp: sorted_wrt_nth_less less_imp_le le_less)
  moreover have "k \<le> ks ! i" using assms(2) calculation(1) unfolding pos_ok_def by blast
  ultimately show "i < length ks \<and> ks ! i = k" by simp
qed auto

subsection \<open>Ranges\<close>

text \<open>A range has the keys above its first bound up to its second; \<open>None\<close> is no bound.\<close>

type_synonym key_range = "idx_key_t option \<times> idx_key_t option"

definition in_rng :: "key_range \<Rightarrow> idx_key_t \<Rightarrow> bool" where
  "in_rng r k \<longleftrightarrow> (case fst r of None \<Rightarrow> True | Some l \<Rightarrow> l < k) \<and> (case snd r of None \<Rightarrow> True | Some h \<Rightarrow> k \<le> h)"

definition child_rng :: "key_range \<Rightarrow> idx_key_t list \<Rightarrow> nat \<Rightarrow> key_range" where
  "child_rng r ks i = (if i = 0 then fst r else Some (ks ! (i - 1)), if i = length ks then snd r else Some (ks ! i))"

text \<open>A leaf that is not the last has the bound of its range among its keys.\<close>

definition leaf_ok :: "key_range \<Rightarrow> idx_key_t list \<Rightarrow> item_ptr list \<Rightarrow> bool" where
  "leaf_ok r ks vs \<longleftrightarrow> length vs = length ks \<and> sorted_wrt (<) ks \<and> (\<forall>k\<in>set ks. in_rng r k) \<and> length ks \<le> leaf_max \<and>
     (case snd r of None \<Rightarrow> True | Some h \<Rightarrow> h \<in> set ks)"

definition inner_ok :: "key_range \<Rightarrow> idx_key_t list \<Rightarrow> nat list \<Rightarrow> bool" where
  "inner_ok r ks cs \<longleftrightarrow> length cs = Suc (length ks) \<and> ks \<noteq> [] \<and> sorted_wrt (<) ks \<and> (\<forall>k\<in>set ks. in_rng r k \<and> snd r \<noteq> Some k) \<and>
     length ks \<le> inner_max - 1"

lemma in_rng_all [simp]: "in_rng (None, None) k"
  by (simp add: in_rng_def)

text \<open>A separator cuts a range in two.\<close>

lemma cut_rng:
  assumes "in_rng (l, h) sep" "h \<noteq> Some sep"
  shows "in_rng (l, h) k \<longleftrightarrow> in_rng (l, Some sep) k \<or> in_rng (Some sep, h) k" "\<not> (in_rng (l, Some sep) k \<and> in_rng (Some sep, h) k)"
  using assms by (auto simp: in_rng_def split: option.splits)

lemma child_rng_pos:
  assumes "pos_ok ks k i" "in_rng r k"
  shows "in_rng (child_rng r ks i) k"
  using assms by (auto simp: in_rng_def child_rng_def pos_ok_def split: option.splits)

lemma child_rng_sub:
  assumes "inner_ok r ks cs" "i \<le> length ks" "in_rng (child_rng r ks i) k"
  shows "in_rng r k" "pos_ok ks k i"
proof -
  have s: "sorted_wrt (<) ks" "\<And>j. j < length ks \<Longrightarrow> in_rng r (ks ! j)" using assms(1) by (auto simp: inner_ok_def)
  have lo: "ks ! j < k" if "j < i" for j
  proof -
    have "ks ! (i - 1) < k" using assms(3) that by (auto simp: child_rng_def in_rng_def)
    moreover have "ks ! j \<le> ks ! (i - 1)" using s(1) that assms(2) by (cases "j = i - 1") (auto simp: sorted_wrt_nth_less less_imp_le)
    ultimately show ?thesis by simp
  qed
  have hi: "k \<le> ks ! j" if "i \<le> j" "j < length ks" for j
  proof -
    have "k \<le> ks ! i" using assms(3) that by (auto simp: child_rng_def in_rng_def)
    moreover have "ks ! i \<le> ks ! j" using s(1) that by (cases "j = i") (auto simp: sorted_wrt_nth_less less_imp_le)
    ultimately show ?thesis by simp
  qed
  show "pos_ok ks k i" using lo hi assms(2) by (simp add: pos_ok_def)
  have "case fst r of None \<Rightarrow> True | Some l \<Rightarrow> l < k"
  proof (cases "i = 0")
    case False
    then have "in_rng r (ks ! (i - 1))" "ks ! (i - 1) < k" using s(2) [of "i - 1"] lo [of "i - 1"] assms(2) by auto
    then show ?thesis by (auto simp: in_rng_def split: option.splits)
  qed (use assms(3) in \<open>simp add: child_rng_def in_rng_def\<close>)
  moreover have "case snd r of None \<Rightarrow> True | Some h \<Rightarrow> k \<le> h"
  proof (cases "i = length ks")
    case False
    then have "in_rng r (ks ! i)" "k \<le> ks ! i" using s(2) [of i] hi [of i] assms(2) by auto
    then show ?thesis by (auto simp: in_rng_def split: option.splits)
  qed (use assms(3) in \<open>simp add: child_rng_def in_rng_def\<close>)
  ultimately show "in_rng r k" by (simp add: in_rng_def)
qed

subsection \<open>Splits and inserts of pages\<close>

lemma leaf_split_ok:
  assumes ok: "leaf_ok (lo, hi) ks vs" and full: "length ks = leaf_max" and sp: "leaf_split ks vs = (left, right, sep)"
  obtains lk lv rk rv where "left = BTreeLeaf lk lv" "right = BTreeLeaf rk rv" "ks = lk @ rk" "vs = lv @ rv" "length lv = length lk"
    "leaf_ok (lo, Some sep) lk lv" "leaf_ok (Some sep, hi) rk rv" "in_rng (lo, hi) sep" "hi \<noteq> Some sep" "sep \<in> set lk" "rk \<noteq> []"
proof -
  define n where "n = length ks - length ks div 2"
  define c where "c = length ks - n"
  have len: "2 \<le> length ks" using full by (simp add: leaf_max_def pageSize_def)
  have c: "0 < c" "c < length ks" "n = length ks - c" using len by (auto simp: c_def n_def)
  note k = ok [unfolded leaf_ok_def]
  have page: "left = BTreeLeaf (take c ks) (take c vs)" "right = BTreeLeaf (drop c ks) (drop c vs)" "sep = ks ! (c - 1)"
    using sp c k by (auto simp: leaf_split_def Let_def n_def c_def)
  have srt: "sorted_wrt (<) (take c ks)" "sorted_wrt (<) (drop c ks)" using k by (auto simp: sorted_wrt_take sorted_wrt_drop)
  have sep_in: "sep \<in> set (take c ks)" using c page(3) by (auto simp: in_set_conv_nth intro!: exI [of _ "c - 1"])
  have le: "x \<le> sep" if "x \<in> set (take c ks)" for x
  proof -
    obtain j where j: "j < c" "x = ks ! j" using \<open>x \<in> set (take c ks)\<close> c by (auto simp: in_set_conv_nth)
    then show ?thesis using k c page(3) by (cases "j = c - 1") (auto simp: sorted_wrt_nth_less less_imp_le)
  qed
  have gt: "sep < x" if "x \<in> set (drop c ks)" for x
  proof -
    obtain j where j: "j < length (drop c ks)" "drop c ks ! j = x" using \<open>x \<in> set (drop c ks)\<close> by (meson in_set_conv_nth)
    then have "ks ! (c - 1) < ks ! (c + j)" using k c by (intro sorted_wrt_nth_less [of "(<)"]) auto
    then show ?thesis using j c page(3) by simp
  qed
  have rng: "in_rng (lo, hi) x" if "x \<in> set (take c ks) \<or> x \<in> set (drop c ks)" for x using that k by (meson in_set_dropD in_set_takeD)
  obtain y where y: "y \<in> set (drop c ks)" using c by (metis drop_eq_Nil list.set_intros(1) neq_Nil_conv not_le)
  have hs: "hi \<noteq> Some sep" using gt [OF y] rng [of y] y by (auto simp: in_rng_def)
  have L: "leaf_ok (lo, Some sep) (take c ks) (take c vs)"
    unfolding leaf_ok_def using k c srt(1) sep_in le rng by (auto simp: in_rng_def)
  have "h \<in> set (drop c ks)" if h: "hi = Some h" for h
  proof (rule ccontr)
    assume "h \<notin> set (drop c ks)"
    moreover have "h \<in> set (take c ks) \<union> set (drop c ks)" using k h by (metis append_take_drop_id option.simps(5) set_append snd_conv)
    ultimately have "h \<le> sep" using le by blast
    then show False using gt [OF y] rng [of y] y h by (auto simp: in_rng_def)
  qed
  then have R: "leaf_ok (Some sep, hi) (drop c ks) (drop c vs)"
    unfolding leaf_ok_def using k c srt(2) gt rng by (auto simp: in_rng_def split: option.splits)
  show thesis
    by (rule that [OF page(1,2) _ _ _ L R]) (use k c sep_in rng hs in auto)
qed

lemma inner_split_ok:
  assumes ok: "inner_ok (lo, hi) ks cs" and full: "length ks = inner_max - 1" and sp: "inner_split ks cs = (left, right, sep)"
  obtains lk lc rk rc where "left = BTreeInner lk lc" "right = BTreeInner rk rc" "ks = lk @ sep # rk" "cs = lc @ rc"
    "inner_ok (lo, Some sep) lk lc" "inner_ok (Some sep, hi) rk rc" "in_rng (lo, hi) sep" "hi \<noteq> Some sep"
proof -
  define n where "n = length ks - length ks div 2"
  define c where "c = length ks - n - 1"
  have len: "254 = length ks" using full by (simp add: inner_max_def pageSize_def)
  have c: "0 < c" "c + 1 < length ks" "n = length ks - c - 1" using len by (auto simp: c_def n_def)
  note k = ok [unfolded inner_ok_def]
  have page: "left = BTreeInner (take c ks) (take (c + 1) cs)" "right = BTreeInner (drop (c + 1) ks) (drop (c + 1) cs)" "sep = ks ! c"
    using sp c k by (auto simp: inner_split_def Let_def n_def c_def)
  have ks: "ks = take c ks @ sep # drop (c + 1) ks" using c page(3) by (simp add: Cons_nth_drop_Suc)
  have srt: "sorted_wrt (<) (take c ks)" "sorted_wrt (<) (drop (c + 1) ks)" "\<forall>x\<in>set (take c ks). x < sep" "\<forall>x\<in>set (drop (c + 1) ks). sep < x"
    using k ks by (metis sorted_wrt_append sorted_wrt.simps(2) list.set_intros(1))+
  have rng: "in_rng (lo, hi) x \<and> hi \<noteq> Some x" if "x \<in> set (take c ks) \<or> x = sep \<or> x \<in> set (drop (c + 1) ks)" for x
    using that k ks by (metis in_set_conv_decomp in_set_dropD in_set_takeD snd_conv)
  have L: "inner_ok (lo, Some sep) (take c ks) (take (c + 1) cs)"
    unfolding inner_ok_def using k c srt(1,3) rng by (fastforce simp: in_rng_def)
  have R: "inner_ok (Some sep, hi) (drop (c + 1) ks) (drop (c + 1) cs)"
    unfolding inner_ok_def using k c srt(2,4) rng by (fastforce simp: in_rng_def)
  show thesis by (rule that [OF page(1,2) ks _ L R]) (use rng in auto)
qed

lemma child_rng_left: "i \<le> length lk \<Longrightarrow> child_rng (lo, Some sep) lk i = child_rng (lo, hi) (lk @ sep # rk) i"
  by (auto simp: child_rng_def nth_append)

lemma child_rng_right:
  "j \<le> length rk \<Longrightarrow> child_rng (Some sep, hi) rk j = child_rng (lo, hi) (lk @ sep # rk) (Suc (length lk + j))"
  by (cases j) (auto simp: child_rng_def nth_append)

lemma length_insert_at [simp]: "length (insert_at i x xs) = Suc (length xs)"
  by (simp add: insert_at_def)

lemma set_insert_at [simp]: "set (insert_at i x xs) = insert x (set xs)"
  using set_append [of "take i xs" "drop i xs"] by (auto simp: insert_at_def)

lemma insert_at_not_Nil [simp]: "insert_at i x xs \<noteq> []"
  by (simp add: insert_at_def)

lemma nth_insert_at: "i \<le> length xs \<Longrightarrow> insert_at i x xs ! j = (if j < i then xs ! j else if j = i then x else xs ! (j - 1))"
proof (cases "i < j")
  case True
  then obtain d where "j = i + Suc d" using less_iff_Suc_add by auto
  then show "i \<le> length xs \<Longrightarrow> ?thesis" by (simp add: insert_at_def nth_append)
qed (auto simp: insert_at_def nth_append)

lemma swap_next_insert_at: "i < length cs \<Longrightarrow> swap_next i (insert_at i c cs) = insert_at (Suc i) c cs"
  by (rule nth_equalityI) (auto simp: swap_next_def nth_list_update nth_insert_at)

lemma child_rng_insert:
  assumes "i \<le> length ks"
  shows "child_rng r (insert_at i sep ks) j =
    (if j < i then child_rng r ks j else if j = i then (fst (child_rng r ks i), Some sep)
     else if j = Suc i then (Some sep, snd (child_rng r ks i)) else child_rng r ks (j - 1))"
proof -
  consider "j < i" | "j = i" | "j = Suc i" | "Suc i < j" by linarith
  then show ?thesis
  proof cases
    case 4
    then obtain d where "j = Suc (Suc (i + d))" using less_iff_Suc_add by auto
    then show ?thesis using assms by (simp add: child_rng_def nth_insert_at)
  qed (use assms in \<open>simp_all add: child_rng_def nth_insert_at\<close>)
qed

lemma sorted_insert_at:
  assumes "sorted_wrt (<) ks" "i \<le> length ks" "\<And>j. j < i \<Longrightarrow> ks ! j < k" "\<And>j. i \<le> j \<Longrightarrow> j < length ks \<Longrightarrow> k < ks ! j"
  shows "sorted_wrt (<) (insert_at i k ks)"
proof -
  have "\<forall>x\<in>set (take i ks). x < k" using assms(2,3) by (auto simp: in_set_conv_nth)
  moreover have "k < x" if "x \<in> set (drop i ks)" for x
  proof -
    obtain j where "j < length (drop i ks)" "drop i ks ! j = x" using \<open>x \<in> set (drop i ks)\<close> by (meson in_set_conv_nth)
    then show ?thesis using assms(2) assms(4) [of "i + j"] by auto
  qed
  moreover have "\<forall>x\<in>set (take i ks). \<forall>y\<in>set (drop i ks). x < y"
    using assms(1) by (metis append_take_drop_id sorted_wrt_append)
  ultimately show ?thesis using assms(1) by (simp add: insert_at_def sorted_wrt_append sorted_wrt_take sorted_wrt_drop)
qed

lemma inner_insert_ok:
  assumes ok: "inner_ok r ks cs" and room: "length ks < inner_max - 1" and i: "i \<le> length ks"
    and sep: "in_rng (child_rng r ks i) sep" "snd (child_rng r ks i) \<noteq> Some sep"
  shows "inner_insert sep c (BTreeInner ks cs) = Inr (BTreeInner (insert_at i sep ks) (insert_at (Suc i) c cs))"
    "inner_ok r (insert_at i sep ks) (insert_at (Suc i) c cs)"
proof -
  note k = ok [unfolded inner_ok_def]
  have pos: "pos_ok ks sep i" "in_rng r sep" using child_rng_sub [OF ok i sep(1)] by blast+
  have "lower_bound 0 ks sep = i" using lower_bound_eq pos(1) k by blast
  then show "inner_insert sep c (BTreeInner ks cs) = Inr (BTreeInner (insert_at i sep ks) (insert_at (Suc i) c cs))"
    using room k i by (simp add: inner_insert_def Let_def swap_next_insert_at)
  have gt: "sep < ks ! j" if j: "i \<le> j" "j < length ks" for j
  proof -
    have "sep \<noteq> ks ! i" using sep(2) j by (auto simp: child_rng_def)
    moreover have "sep \<le> ks ! i" "ks ! i \<le> ks ! j" using pos(1) j k by (cases "i = j"; auto simp: pos_ok_def sorted_wrt_nth_less less_imp_le)+
    ultimately show ?thesis by simp
  qed
  have "sorted_wrt (<) (insert_at i sep ks)"
    by (rule sorted_insert_at) (use k i pos(1) gt in \<open>auto simp: pos_ok_def\<close>)
  moreover have "snd r \<noteq> Some sep"
  proof (cases "i = length ks")
    case False
    then have "sep < ks ! i" "in_rng r (ks ! i)" using gt [of i] i k by auto
    then show ?thesis by (auto simp: in_rng_def)
  qed (use sep(2) in \<open>simp add: child_rng_def\<close>)
  ultimately show "inner_ok r (insert_at i sep ks) (insert_at (Suc i) c cs)" using k pos(2) room by (auto simp: inner_ok_def)
qed

subsection \<open>A leaf as a map\<close>

definition leaf_map :: "idx_key_t list \<Rightarrow> item_ptr list \<Rightarrow> idx_key_t \<rightharpoonup> item_ptr" where
  "leaf_map ks vs = map_of (zip ks vs)"

lemma leaf_map_nth: "leaf_ok r ks vs \<Longrightarrow> i < length ks \<Longrightarrow> leaf_map ks vs (ks ! i) = Some (vs ! i)"
  using map_of_zip_nth [of ks vs i] strict_sorted_iff [of ks] by (simp add: leaf_ok_def leaf_map_def)

lemma leaf_map_dom: "leaf_ok r ks vs \<Longrightarrow> dom (leaf_map ks vs) = set ks"
  by (simp add: leaf_ok_def leaf_map_def)

lemma leaf_map_None: "leaf_ok r ks vs \<Longrightarrow> leaf_map ks vs k = None \<longleftrightarrow> k \<notin> set ks"
  using leaf_map_dom by (metis domIff)

lemma leaf_find_ok:
  assumes "leaf_ok r ks vs"
  shows "bt_leaf_find junk k (BTreeLeaf ks vs) = Inr (leaf_map ks vs k)"
proof (cases "ks = []")
  case True
  then show ?thesis by (simp add: bt_leaf_find_def Let_def leaf_map_def)
next
  case False
  have srt: "sorted_wrt (<) ks" using assms by (simp add: leaf_ok_def)
  note f = pos_ok_found [OF srt lower_bound_ok [OF srt False, of k junk]]
  show ?thesis
  proof (cases "k \<in> set ks")
    case True
    then show ?thesis using f leaf_map_nth [OF assms, of "lower_bound junk ks k"] by (auto simp: bt_leaf_find_def Let_def)
  next
    case False
    then show ?thesis using f leaf_map_None [OF assms, of k] by (auto simp: bt_leaf_find_def Let_def)
  qed
qed

lemma leaf_insert_ok:
  assumes ok: "leaf_ok r ks vs" and room: "length ks < leaf_max" and k: "in_rng r k"
  shows "\<exists>ks' vs'. leaf_insert k p (BTreeLeaf ks vs) nx =
      Inr (BTreeLeaf ks' vs', case leaf_map ks vs k of None \<Rightarrow> nx | Some v \<Rightarrow> nx(p := Some v)) \<and>
    leaf_ok r ks' vs' \<and> leaf_map ks' vs' = (leaf_map ks vs)(k \<mapsto> p)"
proof (cases "ks = []")
  case True
  then show ?thesis using ok room k by (auto simp: leaf_insert_def leaf_ok_def leaf_map_def split: option.splits)
next
  case False
  note o = ok [unfolded leaf_ok_def]
  define i where "i = lower_bound 0 ks k"
  have i: "pos_ok ks k i" using lower_bound_ok False o by (simp add: i_def)
  note f = pos_ok_found [OF conjunct1 [OF conjunct2 [OF o]] i]
  show ?thesis
  proof (cases "k \<in> set ks")
    case True
    have e: "leaf_insert k p (BTreeLeaf ks vs) nx = Inr (BTreeLeaf ks (vs[i := p]), nx(p := Some (vs ! i)))"
      using False True f room by (simp add: leaf_insert_def Let_def i_def)
    have ok': "leaf_ok r ks (vs[i := p])" using ok by (simp add: leaf_ok_def)
    have "leaf_map ks (vs[i := p]) x = ((leaf_map ks vs)(k \<mapsto> p)) x" for x
    proof (cases "x \<in> set ks")
      case True
      then obtain j where j: "j < length ks" "ks ! j = x" by (auto simp: in_set_conv_nth)
      have "j = i \<longleftrightarrow> x = k" using j f \<open>k \<in> set ks\<close> o strict_sorted_iff [of ks] nth_eq_iff_index_eq [of ks j i] by auto
      then show ?thesis using leaf_map_nth [OF ok' j(1)] leaf_map_nth [OF ok j(1)] j o by (auto simp: nth_list_update)
    next
      case False
      then show ?thesis using leaf_map_None [OF ok', of x] leaf_map_None [OF ok, of x] \<open>k \<in> set ks\<close> by auto
    qed
    then show ?thesis using e ok' leaf_map_nth [OF ok, of i] f True by auto
  next
    case notin: False
    have e: "leaf_insert k p (BTreeLeaf ks vs) nx = Inr (BTreeLeaf (insert_at i k ks) (insert_at i p vs), nx)"
      using False notin f room by (auto simp: leaf_insert_def Let_def i_def)
    have il: "i \<le> length ks" using i by (simp add: pos_ok_def)
    have "sorted_wrt (<) (insert_at i k ks)"
    proof (rule sorted_insert_at)
      show "k < ks ! j" if "i \<le> j" "j < length ks" for j
        using i that notin by (metis nth_mem order_le_less pos_ok_def)
    qed (use o i il in \<open>auto simp: pos_ok_def\<close>)
    then have ok': "leaf_ok r (insert_at i k ks) (insert_at i p vs)" using o room k by (auto simp: leaf_ok_def split: option.splits)
    have "zip (insert_at i k ks) (insert_at i p vs) = take i (zip ks vs) @ (k, p) # drop i (zip ks vs)"
      using o il by (simp add: insert_at_def take_zip drop_zip)
    then have "leaf_map (insert_at i k ks) (insert_at i p vs) = (map_of (drop i (zip ks vs)))(k \<mapsto> p) ++ map_of (take i (zip ks vs))"
      by (simp add: leaf_map_def)
    moreover have "map_of (take i (zip ks vs)) k = None" using notin by (auto simp: map_of_eq_None_iff dest!: in_set_takeD set_zip_leftD)
    moreover have "map_of (drop i (zip ks vs)) ++ map_of (take i (zip ks vs)) = leaf_map ks vs"
      unfolding leaf_map_def map_of_append [symmetric] append_take_drop_id ..
    ultimately have "leaf_map (insert_at i k ks) (insert_at i p vs) = (leaf_map ks vs)(k \<mapsto> p)"
      by (simp add: map_add_upd_left domIff)
    then show ?thesis using e ok' leaf_map_None [OF ok, of k] notin by auto
  qed
qed

lemma leaf_scan_ok:
  assumes "leaf_ok r ks vs"
  shows "leaf_scan junk k n (BTreeLeaf ks vs) = Inr (take n (filter (\<lambda>x. k \<le> fst x) (zip ks vs)))"
proof (cases "ks = []")
  case True
  then show ?thesis by (simp add: leaf_scan_def Let_def)
next
  case False
  note o = assms [unfolded leaf_ok_def]
  define i where "i = lower_bound junk ks k"
  have i: "pos_ok ks k i" using lower_bound_ok False o by (simp add: i_def)
  have "filter (\<lambda>x. k \<le> fst x) (take i (zip ks vs)) = []"
    using i o by (auto simp: filter_empty_conv in_set_conv_nth pos_ok_def not_le)
  moreover have "filter (\<lambda>x. k \<le> fst x) (drop i (zip ks vs)) = drop i (zip ks vs)"
  proof (rule filter_True, intro ballI)
    fix x assume "x \<in> set (drop i (zip ks vs))"
    then obtain j where "j < length (drop i (zip ks vs))" "drop i (zip ks vs) ! j = x" by (meson in_set_conv_nth)
    then show "k \<le> fst x" using i o by (auto simp: pos_ok_def)
  qed
  ultimately have "filter (\<lambda>x. k \<le> fst x) (zip ks vs) = drop i (zip ks vs)"
    using filter_append [of "\<lambda>x. k \<le> fst x" "take i (zip ks vs)" "drop i (zip ks vs)"] by simp
  then show ?thesis by (simp add: leaf_scan_def Let_def i_def)
qed

end
