(* ===== verification/Btree_tree.thy ===== *)
theory Btree_tree
  imports Btree_inv
begin

text \<open>
  The B+-tree in memory: the ranges and heights of its nodes, and that a split keeps them. They are functions on addresses, which are not in the
  program; a state is in order when there are some.
\<close>

subsection \<open>Trees\<close>

definition bt_live :: "IndexBTreeOLC \<Rightarrow> nat \<Rightarrow> bool" where
  "bt_live s p \<longleftrightarrow> bt_heap s p \<noteq> None"

definition bt_ver :: "IndexBTreeOLC \<Rightarrow> nat \<Rightarrow> 64 word" where
  "bt_ver s p = typeVersionLockObsolete (the (bt_heap s p))"

definition bt_page :: "IndexBTreeOLC \<Rightarrow> nat \<Rightarrow> page" where
  "bt_page s p = nb_page (the (bt_heap s p))"

definition children_ok :: "IndexBTreeOLC \<Rightarrow> (nat \<Rightarrow> key_range) \<Rightarrow> (nat \<Rightarrow> nat) \<Rightarrow> nat \<Rightarrow> idx_key_t list \<Rightarrow> nat list \<Rightarrow> bool" where
  "children_ok s R H p ks cs \<longleftrightarrow> (\<forall>i\<le>length ks. bt_live s (cs ! i) \<and> R (cs ! i) = child_rng (R p) ks i \<and> Suc (H (cs ! i)) = H p)"

definition bt_node_ok :: "IndexBTreeOLC \<Rightarrow> (nat \<Rightarrow> key_range) \<Rightarrow> (nat \<Rightarrow> nat) \<Rightarrow> nat \<Rightarrow> bool" where
  "bt_node_ok s R H p \<longleftrightarrow> (case bt_page s p of BTreeLeaf ks vs \<Rightarrow> H p = 0 \<and> leaf_ok (R p) ks vs
     | BTreeInner ks cs \<Rightarrow> inner_ok (R p) ks cs \<and> children_ok s R H p ks cs)"

definition tree_ok :: "IndexBTreeOLC \<Rightarrow> (nat \<Rightarrow> key_range) \<Rightarrow> (nat \<Rightarrow> nat) \<Rightarrow> bool" where
  "tree_ok s R H \<longleftrightarrow> bt_live s (bt_root s) \<and> R (bt_root s) = (None, None) \<and>
     (\<forall>p. bt_live s p \<longrightarrow> bt_node_ok s R H p \<and> (\<exists>k. in_rng (R p) k) \<and> (p \<noteq> bt_root s \<longrightarrow> H p < H (bt_root s))) \<and>
     (\<forall>p q k. bt_live s p \<longrightarrow> bt_live s q \<longrightarrow> p \<noteq> q \<longrightarrow> H p = H q \<longrightarrow> in_rng (R p) k \<longrightarrow> \<not> in_rng (R q) k) \<and>
     (\<forall>p. bt_live s p \<longleftrightarrow> p < bt_fresh s) \<and> H (bt_root s) < bt_fresh s"

lemma tree_okD:
  assumes "tree_ok s R H"
  shows "bt_live s (bt_root s)" "R (bt_root s) = (None, None)" "\<And>p. bt_live s p \<Longrightarrow> bt_node_ok s R H p" "\<And>p. bt_live s p \<Longrightarrow> \<exists>k. in_rng (R p) k"
    "\<And>p. bt_live s p \<Longrightarrow> p \<noteq> bt_root s \<Longrightarrow> H p < H (bt_root s)"
    "\<And>p q k. bt_live s p \<Longrightarrow> bt_live s q \<Longrightarrow> p \<noteq> q \<Longrightarrow> H p = H q \<Longrightarrow> in_rng (R p) k \<Longrightarrow> \<not> in_rng (R q) k"
    "\<And>p. bt_live s p \<longleftrightarrow> p < bt_fresh s" "H (bt_root s) < bt_fresh s"
  using assms unfolding tree_ok_def by blast+

text \<open>The versions and the items do not matter for the tree.\<close>

lemma tree_ok_cong:
  assumes "bt_root s' = bt_root s" "bt_fresh s' = bt_fresh s" "\<And>p. bt_live s' p = bt_live s p" "\<And>p. bt_live s p \<Longrightarrow> bt_page s' p = bt_page s p"
  shows "tree_ok s' R H = tree_ok s R H"
proof -
  have "bt_node_ok s' R H p = bt_node_ok s R H p" if "bt_live s p" for p
    using that assms(3,4) by (simp add: bt_node_ok_def children_ok_def split: page.split)
  then show ?thesis using assms unfolding tree_ok_def by auto
qed

lemma inner_node:
  assumes "tree_ok s R H" "bt_live s p" "bt_page s p = BTreeInner ks cs"
  shows "inner_ok (R p) ks cs" "\<And>i. i \<le> length ks \<Longrightarrow> bt_live s (cs ! i)" "\<And>i. i \<le> length ks \<Longrightarrow> R (cs ! i) = child_rng (R p) ks i"
    "\<And>i. i \<le> length ks \<Longrightarrow> Suc (H (cs ! i)) = H p"
  using tree_okD(3) [OF assms(1,2)] assms(3) by (auto simp: bt_node_ok_def children_ok_def)

lemma leaf_node:
  assumes "tree_ok s R H" "bt_live s p" "bt_page s p = BTreeLeaf ks vs"
  shows "leaf_ok (R p) ks vs" "H p = 0"
  using tree_okD(3) [OF assms(1,2)] assms(3) by (auto simp: bt_node_ok_def)

text \<open>The child a search takes.\<close>

lemma inner_child_ok:
  assumes t: "tree_ok s R H" "bt_live s p" "bt_page s p = BTreeInner ks cs" and k: "in_rng (R p) k"
  obtains i where "i \<le> length ks" "inner_child k (BTreeInner ks cs) = Inr (cs ! i)" "in_rng (child_rng (R p) ks i) k" "in_rng (R (cs ! i)) k"
proof -
  note n = inner_node [OF t]
  have o: "length cs = Suc (length ks)" "ks \<noteq> []" "sorted_wrt (<) ks" using n(1) by (auto simp: inner_ok_def)
  define i where "i = lower_bound 0 ks k"
  have i: "pos_ok ks k i" using lower_bound_ok o by (simp add: i_def)
  then have il: "i \<le> length ks" by (simp add: pos_ok_def)
  note c = child_rng_pos [OF i k]
  show thesis by (rule that [OF il _ c]) (use il o c n(3) [OF il] in \<open>simp_all add: inner_child_def Let_def i_def\<close>)
qed

lemma child_pos_unique:
  assumes "inner_ok r ks cs" "i \<le> length ks" "j \<le> length ks" "child_rng r ks i = child_rng r ks j" "in_rng (child_rng r ks i) k"
  shows "i = j"
  using child_rng_sub(2) [OF assms(1,2,5)] child_rng_sub(2) [OF assms(1,3)] assms(4,5) pos_ok_unique by metis

lemma parent_unique:
  assumes t: "tree_ok s R H" and q: "bt_live s q" "bt_page s q = BTreeInner ks cs" "i \<le> length ks"
    and q': "bt_live s q'" "bt_page s q' = BTreeInner ks' cs'" "j \<le> length ks'" "cs ! i = cs' ! j"
  shows "q' = q \<and> j = i"
proof -
  note n = inner_node [OF t q(1,2)] and n' = inner_node [OF t q'(1,2)]
  obtain k where k: "in_rng (R (cs ! i)) k" using tree_okD(4) [OF t n(2) [OF q(3)]] by blast
  have "in_rng (R q) k" using child_rng_sub(1) [OF n(1) q(3)] k n(3) [OF q(3)] by simp
  moreover have "in_rng (R q') k" using child_rng_sub(1) [OF n'(1) q'(3)] k n'(3) [OF q'(3)] q'(4) by simp
  moreover have "H q' = H q" using n(4) [OF q(3)] n'(4) [OF q'(3)] q'(4) by simp
  ultimately have e: "q' = q" using tree_okD(6) [OF t q(1) q'(1)] by metis
  then have "ks' = ks" "cs' = cs" using q(2) q'(2) by simp_all
  then show ?thesis using e child_pos_unique [OF n(1) q(3) q'(3) [unfolded \<open>ks' = ks\<close>]] n(3) q(3) q'(3,4) k by metis
qed

lemma child_not_root:
  assumes t: "tree_ok s R H" and q: "bt_live s q" "bt_page s q = BTreeInner ks cs" "i \<le> length ks"
  shows "cs ! i \<noteq> bt_root s"
proof
  assume "cs ! i = bt_root s"
  then have "H (bt_root s) < H q" using inner_node(4) [OF t q] by simp
  then show False using tree_okD(5) [OF t q(1)] by fastforce
qed

subsection \<open>A node that is split\<close>

definition split_rng :: "(nat \<Rightarrow> key_range) \<Rightarrow> nat \<Rightarrow> nat \<Rightarrow> idx_key_t \<Rightarrow> nat \<Rightarrow> key_range" where
  "split_rng R p new sep = R(p := (fst (R p), Some sep), new := (Some sep, snd (R p)))"

definition split_height :: "(nat \<Rightarrow> nat) \<Rightarrow> nat \<Rightarrow> nat \<Rightarrow> nat \<Rightarrow> nat" where
  "split_height H p new = H(new := H p)"

lemma split_halves:
  assumes t: "tree_ok s R H" and p: "bt_live s p" "is_full (bt_page s p)" and new: "\<not> bt_live s new"
    and sp: "page_split (bt_page s p) = (left, right, sep)"
    and s': "\<And>q. bt_live s q \<Longrightarrow> bt_live s' q" "bt_page s' p = left" "bt_page s' new = right"
    and R': "R' p = (fst (R p), Some sep)" "R' new = (Some sep, snd (R p))" "\<And>q. bt_live s q \<Longrightarrow> q \<noteq> p \<Longrightarrow> R' q = R q"
    and H': "\<And>q. bt_live s q \<Longrightarrow> H' q = H q" "H' new = H p"
  shows "bt_node_ok s' R' H' p" "bt_node_ok s' R' H' new" "in_rng (R p) sep" "snd (R p) \<noteq> Some sep" "\<exists>k. in_rng (R' new) k"
proof -
  have pn: "p \<noteq> new" using p(1) new by auto
  have "bt_node_ok s' R' H' p \<and> bt_node_ok s' R' H' new \<and> in_rng (R p) sep \<and> snd (R p) \<noteq> Some sep \<and> (\<exists>k. in_rng (R' new) k)"
  proof (cases "bt_page s p")
    case (BTreeLeaf ks vs)
    note n = leaf_node [OF t p(1) BTreeLeaf]
    have n1: "leaf_ok (fst (R p), snd (R p)) ks vs" using n(1) by simp
    have f: "length ks = leaf_max" "leaf_split ks vs = (left, right, sep)" using p(2) sp BTreeLeaf by (simp_all add: is_full_def page_split_def)
    obtain lk lv rk rv where h: "left = BTreeLeaf lk lv" "right = BTreeLeaf rk rv" "leaf_ok (fst (R p), Some sep) lk lv"
      "leaf_ok (Some sep, snd (R p)) rk rv" "in_rng (fst (R p), snd (R p)) sep" "snd (R p) \<noteq> Some sep" "rk \<noteq> []"
      by (rule leaf_split_ok [OF n1 f])
    have "\<exists>k. in_rng (Some sep, snd (R p)) k" using h(4,7) by (auto simp: leaf_ok_def neq_Nil_conv)
    then show ?thesis using h n(2) s'(2,3) R'(1,2) H'(1) [OF p(1)] H'(2) by (simp add: bt_node_ok_def)
  next
    case (BTreeInner ks cs)
    note n = inner_node [OF t p(1) BTreeInner]
    have n1: "inner_ok (fst (R p), snd (R p)) ks cs" using n(1) by simp
    have f: "length ks = inner_max - 1" "inner_split ks cs = (left, right, sep)" using p(2) sp BTreeInner by (simp_all add: is_full_def page_split_def)
    obtain lk lc rk rc where h: "left = BTreeInner lk lc" "right = BTreeInner rk rc" "ks = lk @ sep # rk" "cs = lc @ rc"
      "inner_ok (fst (R p), Some sep) lk lc" "inner_ok (Some sep, snd (R p)) rk rc" "in_rng (fst (R p), snd (R p)) sep" "snd (R p) \<noteq> Some sep"
      by (rule inner_split_ok [OF n1 f])
    have len: "length lc = Suc (length lk)" "length rc = Suc (length rk)" using h(5,6) by (simp_all add: inner_ok_def)
    have child: "bt_live s c \<and> c \<noteq> p" if "c = cs ! i" "i \<le> length ks" for c i using n(2,4) [OF that(2)] that(1) by auto
    have "children_ok s' R' H' p lk lc"
      unfolding children_ok_def
    proof (intro allI impI)
      fix i assume i: "i \<le> length lk"
      then have e: "lc ! i = cs ! i" "i \<le> length ks" using h(3,4) len by (simp_all add: nth_append)
      have "child_rng (R' p) lk i = child_rng (R p) ks i"
        using child_rng_left [OF i, of "fst (R p)" sep "snd (R p)" rk] R'(1) h(3) by simp
      then show "bt_live s' (lc ! i) \<and> R' (lc ! i) = child_rng (R' p) lk i \<and> Suc (H' (lc ! i)) = H' p"
        using n(2-4) [OF e(2)] child [OF e(1,2)] e(1) s'(1) R'(3) H'(1) p(1) by simp
    qed
    moreover have "children_ok s' R' H' new rk rc"
      unfolding children_ok_def
    proof (intro allI impI)
      fix j assume j: "j \<le> length rk"
      then have e: "rc ! j = cs ! (Suc (length lk + j))" "Suc (length lk + j) \<le> length ks" using h(3,4) len by (simp_all add: nth_append)
      have "child_rng (R' new) rk j = child_rng (R p) ks (Suc (length lk + j))"
        using child_rng_right [OF j, of sep "snd (R p)" "fst (R p)" lk] R'(2) h(3) by simp
      then show "bt_live s' (rc ! j) \<and> R' (rc ! j) = child_rng (R' new) rk j \<and> Suc (H' (rc ! j)) = H' new"
        using n(2-4) [OF e(2)] child [OF e(1,2)] e(1) s'(1) R'(3) H'(1,2) by simp
    qed
    moreover have "\<exists>k. in_rng (R' new) k" using h(6) R'(2) by (auto simp: inner_ok_def neq_Nil_conv)
    ultimately show ?thesis using h s' R' H' p(1) by (simp add: bt_node_ok_def)
  qed
  then show "bt_node_ok s' R' H' p" "bt_node_ok s' R' H' new" "in_rng (R p) sep" "snd (R p) \<noteq> Some sep" "\<exists>k. in_rng (R' new) k" by blast+
qed

lemma split_disjoint:
  assumes t: "tree_ok s R H" and p: "bt_live s p" and new: "\<not> bt_live s new" and sep: "in_rng (R p) sep" "snd (R p) \<noteq> Some sep"
    and x: "bt_live s x \<or> x = new" and y: "bt_live s y \<or> y = new" and "x \<noteq> y" "split_height H p new x = split_height H p new y"
    "in_rng (split_rng R p new sep x) k"
  shows "\<not> in_rng (split_rng R p new sep y) k"
proof
  assume ky: "in_rng (split_rng R p new sep y) k"
  have pn: "p \<noteq> new" using p new by auto
  note cut = cut_rng [of "fst (R p)" "snd (R p)" sep k] and d = tree_okD(6) [OF t]
  define base where "base z = (if z = new then p else z)" for z
  have b: "bt_live s (base z)" "split_height H p new z = H (base z)" "in_rng (split_rng R p new sep z) k \<Longrightarrow> in_rng (R (base z)) k"
    if "bt_live s z \<or> z = new" for z
    using that p pn sep cut by (auto simp: base_def split_height_def split_rng_def split: if_splits)
  have "base x = base y" using d [OF b(1) [OF x] b(1) [OF y]] b(2,3) [OF x] b(2,3) [OF y] assms(9,10) ky by metis
  then have "{x, y} = {p, new}" using \<open>x \<noteq> y\<close> by (auto simp: base_def split: if_splits)
  then show False using cut sep assms(10) ky pn by (auto simp: split_rng_def doubleton_eq_iff)
qed

text \<open>A node that is neither split nor above the split keeps its children.\<close>

lemma split_others:
  assumes t: "tree_ok s R H" and new: "\<not> bt_live s new" and q: "bt_live s q" "q \<noteq> p"
    and par: "\<And>ks cs i. bt_page s q = BTreeInner ks cs \<Longrightarrow> i \<le> length ks \<Longrightarrow> cs ! i \<noteq> p"
    and s': "\<And>x. bt_live s x \<Longrightarrow> bt_live s' x" "bt_page s' q = bt_page s q"
    and R': "\<And>x. bt_live s x \<Longrightarrow> x \<noteq> p \<Longrightarrow> R' x = R x" and H': "\<And>x. bt_live s x \<Longrightarrow> H' x = H x"
  shows "bt_node_ok s' R' H' q"
proof (cases "bt_page s q")
  case (BTreeLeaf ks vs)
  then show ?thesis using leaf_node [OF t q(1) BTreeLeaf] s'(2) R' [OF q] H' [OF q(1)] by (simp add: bt_node_ok_def)
next
  case (BTreeInner ks cs)
  note n = inner_node [OF t q(1) BTreeInner]
  have "children_ok s' R' H' q ks cs"
    unfolding children_ok_def
  proof (intro allI impI)
    fix i assume i: "i \<le> length ks"
    show "bt_live s' (cs ! i) \<and> R' (cs ! i) = child_rng (R' q) ks i \<and> Suc (H' (cs ! i)) = H' q"
      using n(2-4) [OF i] par [OF BTreeInner i] s'(1) R' H' q by simp
  qed
  then show ?thesis using n(1) BTreeInner s'(2) R' [OF q] by (simp add: bt_node_ok_def)
qed

lemma split_under_parent:
  assumes t: "tree_ok s R H" and p: "bt_live s p" "is_full (bt_page s p)" and sp: "page_split (bt_page s p) = (left, right, sep)"
    and q: "bt_live s q" "bt_page s q = BTreeInner ks cs" "i \<le> length ks" "cs ! i = p" "length ks < inner_max - 1"
    and new: "\<not> bt_live s new" "new = bt_fresh s"
    and s': "\<And>x. bt_live s' x \<longleftrightarrow> bt_live s x \<or> x = new" "bt_root s' = bt_root s" "bt_fresh s' = Suc (bt_fresh s)"
      "\<And>x. bt_live s' x \<Longrightarrow> bt_page s' x = (if x = new then right else if x = p then left
         else if x = q then BTreeInner (insert_at i sep ks) (insert_at (Suc i) new cs) else bt_page s x)"
  shows "tree_ok s' (split_rng R p new sep) (split_height H p new)" "in_rng (R p) sep" "snd (R p) \<noteq> Some sep"
    "inner_insert sep new (bt_page s q) = Inr (BTreeInner (insert_at i sep ks) (insert_at (Suc i) new cs))"
proof -
  let ?R = "split_rng R p new sep" and ?H = "split_height H p new"
  note n = inner_node [OF t q(1,2)]
  have pn: "p \<noteq> new" "q \<noteq> new" "q \<noteq> p" using p(1) q(1) new(1) n(4) [OF q(3)] q(4) by auto
  have pr: "p \<noteq> bt_root s" using child_not_root [OF t q(1-3)] q(4) by simp
  have R': "?R p = (fst (R p), Some sep)" "?R new = (Some sep, snd (R p))" "\<And>x. bt_live s x \<Longrightarrow> x \<noteq> p \<Longrightarrow> ?R x = R x"
    using pn new(1) by (auto simp: split_rng_def)
  have H': "\<And>x. bt_live s x \<Longrightarrow> ?H x = H x" "?H new = H p" using new(1) by (auto simp: split_height_def)
  note hv = split_halves [OF t p new(1) sp, of s' ?R ?H]
  have half: "bt_node_ok s' ?R ?H p" "bt_node_ok s' ?R ?H new" "in_rng (R p) sep" "snd (R p) \<noteq> Some sep" "\<exists>k. in_rng (?R new) k"
    by (rule hv; use s' R' H' p(1) pn in simp)+
  have ci: "child_rng (R q) ks i = R p" using n(3) [OF q(3)] q(4) by simp
  note ins = inner_insert_ok [OF n(1) q(5,3), unfolded ci, OF half(3,4), of new]
  show "in_rng (R p) sep" "snd (R p) \<noteq> Some sep" by (rule half(3,4))+
  show "inner_insert sep new (bt_page s q) = Inr (BTreeInner (insert_at i sep ks) (insert_at (Suc i) new cs))" using ins(1) q(2) by simp
  have len: "length cs = Suc (length ks)" using n(1) by (simp add: inner_ok_def)
  have other: "cs ! j \<noteq> p" if "j \<le> length ks" "j \<noteq> i" for j using parent_unique [OF t q(1-3) q(1,2) that(1)] q(4) that(2) by auto
  have "children_ok s' ?R ?H q (insert_at i sep ks) (insert_at (Suc i) new cs)"
    unfolding children_ok_def
  proof (intro allI impI)
    fix j assume j: "j \<le> length (insert_at i sep ks)"
    have rq: "?R q = R q" "?H q = H q" using R'(3) [OF q(1) pn(3)] H'(1) [OF q(1)] by simp_all
    have c: "insert_at (Suc i) new cs ! j = (if j \<le> i then cs ! j else if j = Suc i then new else cs ! (j - 1))"
      using q(3) len by (subst nth_insert_at) auto
    note rng = child_rng_insert [OF q(3), of "R q" sep j]
    consider (before) "j < i" | (at) "j = i" | (here) "j = Suc i" | (after) "Suc i < j" by linarith
    then show "bt_live s' (insert_at (Suc i) new cs ! j) \<and> ?R (insert_at (Suc i) new cs ! j) = child_rng (?R q) (insert_at i sep ks) j \<and>
        Suc (?H (insert_at (Suc i) new cs ! j)) = ?H q"
    proof cases
      case before
      then have jl: "j \<le> length ks" "j \<noteq> i" using q(3) by auto
      show ?thesis using before c rng rq n(2-4) [OF jl(1)] other [OF jl] s'(1) R'(3) H'(1) by simp
    next
      case at
      then show ?thesis using c rng rq R'(1) ci q(4) s'(1) p(1) H'(1) [OF p(1)] n(4) [OF q(3)] by simp
    next
      case here
      then show ?thesis using c rng rq R'(2) ci q(4) s'(1) H'(2) n(4) [OF q(3)] by simp
    next
      case after
      then have jl: "j - 1 \<le> length ks" "j - 1 \<noteq> i" using j by auto
      show ?thesis using after c rng rq n(2-4) [OF jl(1)] other [OF jl] s'(1) R'(3) H'(1) by simp
    qed
  qed
  then have qok: "bt_node_ok s' ?R ?H q"
    using ins(2) R'(3) [OF q(1) pn(3)] s'(4) [of q] s'(1) [of q] q(1) pn by (simp add: bt_node_ok_def)
  have xok: "bt_node_ok s' ?R ?H x" if x: "bt_live s' x" for x
  proof (cases "x = p \<or> x = q \<or> x = new")
    case False
    then have xs: "bt_live s x" "x \<noteq> p" using x s'(1) by auto
    show ?thesis
      by (rule split_others [OF t new(1) xs]) (use parent_unique [OF t q(1-3)] q(4) xs False s' R' H' in auto)
  qed (use half qok in auto)
  have ne: "\<exists>k. in_rng (?R x) k" if x: "bt_live s' x" for x
  proof (cases "x = p \<or> x = new")
    case True
    have "in_rng (fst (R p), Some sep) sep" using half(3) by (simp add: in_rng_def split: option.splits)
    then show ?thesis using True half(5) R'(1) by auto
  next
    case False
    then show ?thesis using x s'(1) tree_okD(4) [OF t, of x] R'(3) by auto
  qed
  have hr: "?H x < ?H (bt_root s)" if x: "bt_live s' x" "x \<noteq> bt_root s" for x
    using x s'(1) tree_okD(5) [OF t, of x] tree_okD(5) [OF t p(1) pr] H' tree_okD(1) [OF t] by auto
  have dis: "\<not> in_rng (?R y) k" if "bt_live s' x" "bt_live s' y" "x \<noteq> y" "?H x = ?H y" "in_rng (?R x) k" for x y k
    by (rule split_disjoint [OF t p(1) new(1) half(3,4) _ _ that(3-5)]) (use that(1,2) s'(1) in auto)
  have live: "bt_live s' x \<longleftrightarrow> x < bt_fresh s'" for x
    unfolding s'(1,3) new(2) tree_okD(7) [OF t] by (simp add: less_Suc_eq)
  show "tree_ok s' ?R ?H"
    unfolding tree_ok_def s'(2)
  proof (intro conjI allI impI)
    show "bt_live s' (bt_root s)" using s'(1) tree_okD(1) [OF t] by simp
    show "?R (bt_root s) = (None, None)" using R'(3) [OF tree_okD(1) [OF t] pr [symmetric]] tree_okD(2) [OF t] by simp
    show "?H (bt_root s) < bt_fresh s'" using H'(1) [OF tree_okD(1) [OF t]] tree_okD(8) [OF t] s'(3) by simp
  qed (fact xok ne hr dis live)+
qed

text \<open>The root has no parent: a new root gets the two halves.\<close>

lemma split_root:
  assumes t: "tree_ok s R H" and p: "bt_root s = p" "is_full (bt_page s p)" and sp: "page_split (bt_page s p) = (left, right, sep)"
    and new: "\<not> bt_live s new" "new = bt_fresh s" "r = Suc new"
    and s': "\<And>x. bt_live s' x \<longleftrightarrow> bt_live s x \<or> x = new \<or> x = r" "bt_root s' = r" "bt_fresh s' = Suc (Suc (bt_fresh s))"
      "\<And>x. bt_live s' x \<Longrightarrow> bt_page s' x = (if x = r then BTreeInner [sep] [p, new] else if x = new then right else if x = p then left else bt_page s x)"
  shows "tree_ok s' ((split_rng R p new sep)(r := (None, None))) ((split_height H p new)(r := Suc (H p)))" "in_rng (R p) sep" "snd (R p) \<noteq> Some sep"
proof -
  let ?R = "(split_rng R p new sep)(r := (None, None))" and ?H = "(split_height H p new)(r := Suc (H p))"
  have pl: "bt_live s p" "R p = (None, None)" using tree_okD(1,2) [OF t] p(1) by simp_all
  have rl: "\<not> bt_live s r" using tree_okD(7) [OF t, of r] new by simp
  have pn: "p \<noteq> new" "p \<noteq> r" "new \<noteq> r" using pl(1) new rl by auto
  have R': "?R p = (fst (R p), Some sep)" "?R new = (Some sep, snd (R p))" "\<And>x. bt_live s x \<Longrightarrow> x \<noteq> p \<Longrightarrow> ?R x = R x" "?R r = (None, None)"
    using pn new(1) rl by (auto simp: split_rng_def)
  have H': "\<And>x. bt_live s x \<Longrightarrow> ?H x = H x" "?H new = H p" "?H r = Suc (H p)" using new(1) pn rl by (auto simp: split_height_def)
  note hv = split_halves [OF t pl(1) p(2) new(1) sp, of s' ?R ?H]
  have half: "bt_node_ok s' ?R ?H p" "bt_node_ok s' ?R ?H new" "in_rng (R p) sep" "snd (R p) \<noteq> Some sep" "\<exists>k. in_rng (?R new) k"
    by (rule hv; use s' R' H' pl(1) pn in simp)+
  show "in_rng (R p) sep" "snd (R p) \<noteq> Some sep" by (rule half(3,4))+
  have "children_ok s' ?R ?H r [sep] [p, new]"
    unfolding children_ok_def
  proof (intro allI impI)
    fix j assume "j \<le> length [sep]"
    then have "j = 0 \<or> j = 1" by auto
    then show "bt_live s' ([p, new] ! j) \<and> ?R ([p, new] ! j) = child_rng (?R r) [sep] j \<and> Suc (?H ([p, new] ! j)) = ?H r"
      using R'(1,2,4) H'(1) [OF pl(1)] H'(2,3) pl s'(1) pn by (auto simp: child_rng_def)
  qed
  moreover have "inner_ok (None, None) [sep] [p, new]" by (simp add: inner_ok_def inner_max_def pageSize_def)
  ultimately have rok: "bt_node_ok s' ?R ?H r" using s'(4) [of r] s'(1) R'(4) by (simp add: bt_node_ok_def)
  have xok: "bt_node_ok s' ?R ?H x" if x: "bt_live s' x" for x
  proof (cases "x = p \<or> x = r \<or> x = new")
    case False
    then have xs: "bt_live s x" "x \<noteq> p" using x s'(1) by auto
    show ?thesis
      by (rule split_others [OF t new(1) xs]) (use child_not_root [OF t xs(1)] p(1) False s' xs R'(3) H' in auto)
  qed (use half rok in auto)
  have ne: "\<exists>k. in_rng (?R x) k" if x: "bt_live s' x" for x
  proof (cases "x = p \<or> x = new \<or> x = r")
    case True
    have "in_rng (fst (R p), Some sep) sep" using half(3) by (simp add: in_rng_def split: option.splits)
    then show ?thesis using True half(5) R' by auto
  next
    case False
    then have xs: "bt_live s x" "x \<noteq> p" using x s'(1) by auto
    show ?thesis unfolding R'(3) [OF xs] by (rule tree_okD(4) [OF t xs(1)])
  qed
  have hr: "?H x < ?H r" if x: "bt_live s' x" "x \<noteq> r" for x
  proof (cases "x = new")
    case False
    then have "bt_live s x" using x s'(1) by simp
    then show ?thesis using tree_okD(5) [OF t, of x] p(1) H'(1) [of x] H'(3) by (cases "x = p") auto
  qed (use H'(2,3) in simp)
  have dis: "\<not> in_rng (?R y) k" if x: "bt_live s' x" "bt_live s' y" "x \<noteq> y" "?H x = ?H y" "in_rng (?R x) k" for x y k
  proof -
    have nr: "x \<noteq> r" "y \<noteq> r" using hr [of x] hr [of y] x by auto
    have "\<not> in_rng (split_rng R p new sep y) k"
      by (rule split_disjoint [OF t pl(1) new(1) half(3,4)]) (use x nr s'(1) in auto)
    then show ?thesis using nr by simp
  qed
  have live: "bt_live s' x \<longleftrightarrow> x < bt_fresh s'" for x
    unfolding s'(1,3) new(3) new(2) tree_okD(7) [OF t] by (simp add: less_Suc_eq)
  show "tree_ok s' ?R ?H"
    unfolding tree_ok_def s'(2)
  proof (intro conjI allI impI)
    show "bt_live s' r" using s'(1) by simp
    show "?R r = (None, None)" by simp
    show "?H r < bt_fresh s'" using H'(3) tree_okD(8) [OF t] p(1) s'(3) by simp
  qed (fact xok ne hr dis live)+
qed

subsection \<open>Items\<close>

text \<open>The abstract index \<open>m\<close> has for each key the items chained from its payload.\<close>

definition bt_slot :: "item_next \<Rightarrow> item_ptr option \<Rightarrow> item_ptr list option \<Rightarrow> bool" where
  "bt_slot nx v is \<longleftrightarrow> (case is of None \<Rightarrow> v = None | Some js \<Rightarrow> v \<noteq> None \<and> chain nx v js)"

definition items_ok :: "IndexBTreeOLC \<Rightarrow> (nat \<Rightarrow> key_range) \<Rightarrow> idx_key_t index_spec \<Rightarrow> bool" where
  "items_ok s R m \<longleftrightarrow> (\<forall>p ks vs k. bt_live s p \<longrightarrow> bt_page s p = BTreeLeaf ks vs \<longrightarrow> in_rng (R p) k \<longrightarrow> bt_slot (bt_item_next s) (leaf_map ks vs k) (m k))"

lemma items_okD:
  "items_ok s R m \<Longrightarrow> bt_live s p \<Longrightarrow> bt_page s p = BTreeLeaf ks vs \<Longrightarrow> in_rng (R p) k \<Longrightarrow> bt_slot (bt_item_next s) (leaf_map ks vs k) (m k)"
  unfolding items_ok_def by blast

lemma bt_slot_hd: "bt_slot nx v is \<Longrightarrow> v = (case is of Some (x # _) \<Rightarrow> Some x | _ \<Rightarrow> None)"
  by (auto simp: bt_slot_def split: option.splits list.splits elim: chain.elims)

lemma bt_slot_other:
  assumes "bt_slot nx v (m k)" "i \<notin> items_of m"
  shows "bt_slot (nx(i := q)) v (m k)"
proof -
  have "i \<notin> set js" if "m k = Some js" for js using assms(2) that items_of_iff by blast
  then show ?thesis using assms(1) by (auto simp: bt_slot_def split: option.splits)
qed

text \<open>A split moves the payloads with their keys.\<close>

lemma leaf_map_append:
  assumes "length lv = length lk"
  shows "leaf_map (lk @ rk) (lv @ rv) k = (if k \<in> set lk then leaf_map lk lv k else leaf_map rk rv k)"
proof -
  have "dom (map_of (zip lk lv)) = set lk" using assms by simp
  show ?thesis
  proof (cases "k \<in> set lk")
    case True
    then obtain v where "map_of (zip lk lv) k = Some v" using \<open>dom (map_of (zip lk lv)) = set lk\<close> by (metis domD)
    then show ?thesis using True assms by (simp add: leaf_map_def map_add_def)
  next
    case False
    then have n: "map_of (zip lk lv) k = None" using \<open>dom (map_of (zip lk lv)) = set lk\<close> by (metis domIff)
    then show ?thesis using False assms by (simp add: leaf_map_def map_add_def n)
  qed
qed

lemma split_items:
  assumes t: "tree_ok s R H" and it: "items_ok s R m" and p: "bt_live s p" "is_full (bt_page s p)" and new: "\<not> bt_live s new"
    and sp: "page_split (bt_page s p) = (left, right, sep)"
    and s': "bt_item_next s' = bt_item_next s" "bt_page s' p = left" "bt_page s' new = right"
      "\<And>x ks vs. bt_live s' x \<Longrightarrow> x \<noteq> p \<Longrightarrow> x \<noteq> new \<Longrightarrow> bt_page s' x = BTreeLeaf ks vs \<Longrightarrow> bt_live s x \<and> bt_page s x = BTreeLeaf ks vs"
    and R': "R' p = (fst (R p), Some sep)" "R' new = (Some sep, snd (R p))" "\<And>q. bt_live s q \<Longrightarrow> q \<noteq> p \<Longrightarrow> R' q = R q"
  shows "items_ok s' R' m"
  unfolding items_ok_def
proof (intro allI impI)
  fix x ks vs k assume x: "bt_live s' x" "bt_page s' x = BTreeLeaf ks vs" "in_rng (R' x) k"
  show "bt_slot (bt_item_next s') (leaf_map ks vs k) (m k)"
  proof (cases "x = p \<or> x = new")
    case False
    then have "bt_live s x \<and> bt_page s x = BTreeLeaf ks vs" "R' x = R x" using s'(4) [OF x(1) _ _ x(2)] R'(3) [of x] by auto
    then show ?thesis using items_okD [OF it, of x ks vs k] x(3) s'(1) by simp
  next
    case True
    show ?thesis
    proof (cases "bt_page s p")
      case (BTreeInner ks' cs')
      then show ?thesis using True x(2) s'(2,3) sp by (auto simp: page_split_def inner_split_def Let_def)
    next
      case (BTreeLeaf ks' vs')
      have n1: "leaf_ok (fst (R p), snd (R p)) ks' vs'" using leaf_node(1) [OF t p(1) BTreeLeaf] by simp
      have f: "length ks' = leaf_max" "leaf_split ks' vs' = (left, right, sep)" using p(2) sp BTreeLeaf by (simp_all add: is_full_def page_split_def)
      obtain lk lv rk rv where h: "left = BTreeLeaf lk lv" "right = BTreeLeaf rk rv" "ks' = lk @ rk" "vs' = lv @ rv" "length lv = length lk"
        "leaf_ok (fst (R p), Some sep) lk lv" "leaf_ok (Some sep, snd (R p)) rk rv" "in_rng (fst (R p), snd (R p)) sep" "snd (R p) \<noteq> Some sep"
        by (rule leaf_split_ok [OF n1 f])
      have lrk: "y \<le> sep" if "y \<in> set lk" for y using h(6) that by (auto simp: leaf_ok_def in_rng_def)
      have rrk: "sep < y" if "y \<in> set rk" for y using h(7) that by (auto simp: leaf_ok_def in_rng_def)
      have pn: "p \<noteq> new" using p(1) new by auto
      have "in_rng (R p) k \<and> leaf_map ks' vs' k = leaf_map ks vs k"
      proof (cases "x = p")
        case True
        then have e: "ks = lk" "vs = lv" "k \<le> sep" "in_rng (fst (R p), Some sep) k" using x(2,3) s'(2) h(1) R'(1) by (auto simp: in_rng_def)
        then have "k \<notin> set rk" using rrk by (meson leD)
        then have "leaf_map ks' vs' k = leaf_map lk lv k"
          using h(3-5) leaf_map_append [OF h(5)] leaf_map_None [OF h(7), of k] leaf_map_None [OF h(6), of k] by auto
        then show ?thesis using e cut_rng(1) [OF h(8,9), of k] by simp
      next
        case False
        then have e: "ks = rk" "vs = rv" "sep < k" "in_rng (Some sep, snd (R p)) k" using True x(2,3) s'(3) h(2) R'(2) by (auto simp: in_rng_def)
        then have "k \<notin> set lk" using lrk by (meson leD)
        then show ?thesis using e h(3-5) leaf_map_append [OF h(5)] cut_rng(1) [OF h(8,9), of k] by simp
      qed
      then show ?thesis using items_okD [OF it p(1) BTreeLeaf, of k] s'(1) by simp
    qed
  qed
qed

text \<open>The insert into the leaf of the key puts the item in front of the others.\<close>

lemma insert_items:
  assumes t: "tree_ok s R H" and it: "items_ok s R m" and p: "bt_live s p" "bt_page s p = BTreeLeaf ks vs" "in_rng (R p) k" "length ks < leaf_max"
    and i: "i \<notin> items_of m" "bt_item_next s i = None"
  obtains ks' vs' nx where "leaf_insert k i (bt_page s p) (bt_item_next s) = Inr (BTreeLeaf ks' vs', nx)" "leaf_ok (R p) ks' vs'"
    "\<forall>s'. (\<forall>x. bt_live s' x = bt_live s x) \<and> (\<forall>x. bt_live s x \<longrightarrow> bt_page s' x = (if x = p then BTreeLeaf ks' vs' else bt_page s x)) \<and>
      bt_item_next s' = nx \<longrightarrow> items_ok s' R (push_item k i m)"
proof -
  note n = leaf_node [OF t p(1,2)]
  let ?nx = "case leaf_map ks vs k of None \<Rightarrow> bt_item_next s | Some v \<Rightarrow> (bt_item_next s)(i := Some v)"
  obtain ks' vs' where l: "leaf_insert k i (BTreeLeaf ks vs) (bt_item_next s) = Inr (BTreeLeaf ks' vs', ?nx)" "leaf_ok (R p) ks' vs'"
    "leaf_map ks' vs' = (leaf_map ks vs)(k \<mapsto> i)"
    using leaf_insert_ok [OF n(1) p(4,3), of i "bt_item_next s"] by blast
  have sl: "bt_slot (bt_item_next s) (leaf_map ks vs k) (m k)" by (rule items_okD [OF it p(1-3)])
  have old: "bt_slot ?nx v (m x)" if "bt_slot (bt_item_next s) v (m x)" for v x
    using bt_slot_other [OF that i(1)] that by (simp split: option.split)
  have top: "bt_slot ?nx (Some i) (push_item k i m k)"
  proof (cases "leaf_map ks vs k")
    case None
    then have "m k = None" using sl by (auto simp: bt_slot_def split: option.splits)
    then show ?thesis using None i(2) by (simp add: push_item_apply bt_slot_def)
  next
    case (Some v)
    then obtain js where js: "m k = Some js" "chain (bt_item_next s) (Some v) js" using sl by (auto simp: bt_slot_def split: option.splits)
    then have "i \<notin> set js" using i(1) items_of_iff by blast
    then show ?thesis using Some js by (simp add: push_item_apply bt_slot_def)
  qed
  have "items_ok s' R (push_item k i m)"
    if s': "\<And>x. bt_live s' x = bt_live s x" "\<And>x. bt_live s x \<Longrightarrow> bt_page s' x = (if x = p then BTreeLeaf ks' vs' else bt_page s x)" "bt_item_next s' = ?nx" for s'
    unfolding items_ok_def
  proof (intro allI impI)
    fix x js ws y assume x: "bt_live s' x" "bt_page s' x = BTreeLeaf js ws" "in_rng (R x) y"
    have xs: "bt_live s x" using x(1) s'(1) by simp
    show "bt_slot (bt_item_next s') (leaf_map js ws y) (push_item k i m y)"
    proof (cases "x = p")
      case True
      then have e: "leaf_map js ws = (leaf_map ks vs)(k \<mapsto> i)" using x(2) s'(2) [OF xs] l(3) by simp
      show ?thesis
      proof (cases "y = k")
        case False
        have "bt_slot (bt_item_next s) (leaf_map ks vs y) (m y)" using items_okD [OF it p(1,2)] x(3) True by simp
        then show ?thesis using old False e s'(3) by (simp add: push_item_apply)
      qed (use e top s'(3) in simp)
    next
      case False
      then have pg: "bt_page s x = BTreeLeaf js ws" using x(2) s'(2) [OF xs] by simp
      have "H x = H p" using leaf_node(2) [OF t xs pg] n(2) by simp
      then have "y \<noteq> k" using tree_okD(6) [OF t xs p(1) False, of y] x(3) p(3) by auto
      moreover have "bt_slot (bt_item_next s) (leaf_map js ws y) (m y)" by (rule items_okD [OF it xs pg x(3)])
      ultimately show ?thesis using old s'(3) by (simp add: push_item_apply)
    qed
  qed
  then have "\<forall>s'. (\<forall>x. bt_live s' x = bt_live s x) \<and> (\<forall>x. bt_live s x \<longrightarrow> bt_page s' x = (if x = p then BTreeLeaf ks' vs' else bt_page s x)) \<and>
      bt_item_next s' = ?nx \<longrightarrow> items_ok s' R (push_item k i m)" by blast
  from _ l(2) this show thesis by (rule that) (use l(1) p(2) in simp)
qed

lemma leaf_tree_ok:
  assumes t: "tree_ok s R H" and p: "bt_live s p" "bt_page s p = BTreeLeaf ks vs" "leaf_ok (R p) ks' vs'"
    and s': "bt_root s' = bt_root s" "bt_fresh s' = bt_fresh s" "\<And>x. bt_live s' x = bt_live s x"
      "\<And>x. bt_live s x \<Longrightarrow> bt_page s' x = (if x = p then BTreeLeaf ks' vs' else bt_page s x)"
  shows "tree_ok s' R H"
proof -
  have "bt_node_ok s' R H x" if x: "bt_live s x" for x
  proof (cases "x = p")
    case True
    then show ?thesis using s'(4) [OF x] p(3) leaf_node(2) [OF t p(1,2)] by (simp add: bt_node_ok_def)
  next
    case False
    then have "bt_page s' x = bt_page s x" using s'(4) [OF x] by simp
    then show ?thesis using tree_okD(3) [OF t x] s'(3) by (cases "bt_page s x") (simp_all add: bt_node_ok_def children_ok_def)
  qed
  then show ?thesis using t unfolding tree_ok_def s'(1-3) by blast
qed

end
