(* ===== verification/Btree_step.thy ===== *)
theory Btree_step
  imports Btree_tree
begin

text \<open>
  The steps of the threads on the B+-tree: what each thread relies on at its place, that the steps of the others keep it, and that its own step
  keeps the tree in order.
\<close>

subsection \<open>Version locks\<close>

definition ver_free :: "64 word \<Rightarrow> bool" where
  "ver_free v \<longleftrightarrow> unat v mod 4 = 0"

definition ver_held :: "64 word \<Rightarrow> bool" where
  "ver_held v \<longleftrightarrow> unat v mod 4 = 2"

lemma bit_word_nat: "bit (v :: 64 word) n \<longleftrightarrow> odd (unat v div 2 ^ n)"
  using bit_unsigned_iff [of v n, where ?'a = nat] bit_imp_le_length [of v n] by (auto simp: bit_iff_odd)

lemma isLocked_iff: "isLocked v \<longleftrightarrow> 2 \<le> unat v mod 4"
proof -
  have "v AND 2 = 2 \<longleftrightarrow> bit v 1"
    by (rule iffI; (drule arg_cong [where f = "\<lambda>x. bit x 1"])?) (auto intro!: bit_word_eqI simp: bit_simps)
  then show ?thesis unfolding isLocked_def bit_word_nat by simp presburger
qed

lemma isObsolete_iff: "isObsolete v \<longleftrightarrow> odd (unat v)"
proof -
  have "v AND 1 = 1 \<longleftrightarrow> bit v 0"
    by (rule iffI; (drule arg_cong [where f = "\<lambda>x. bit x 0"])?) (auto intro!: bit_word_eqI simp: bit_simps)
  then show ?thesis unfolding isObsolete_def bit_word_nat by simp
qed

lemma ver_plus_2:
  assumes "v < UINT64_MAX - 8"
  shows "unat (v + 2) = unat v + 2" "v < v + 2"
proof -
  have "unat v + 2 < 2 ^ 64" using assms by (simp add: word_less_nat_alt UINT64_MAX_def)
  then show "unat (v + 2) = unat v + 2" using unat_add_lem [of v 2] by simp
  then show "v < v + 2" by (simp add: word_less_nat_alt)
qed

lemma ver_lock: "v < UINT64_MAX - 8 \<Longrightarrow> ver_free v \<Longrightarrow> ver_held (v + 2)"
  and ver_unlock: "v < UINT64_MAX - 8 \<Longrightarrow> ver_held v \<Longrightarrow> ver_free (v + 2)"
  using ver_plus_2 [of v] by (auto simp: ver_free_def ver_held_def) presburger+

lemma ver_not_both: "\<not> (ver_free v \<and> ver_held v)"
  by (auto simp: ver_free_def ver_held_def)

subsection \<open>Memory\<close>

definition bt_mem_ok :: "IndexBTreeOLC \<Rightarrow> (nat \<Rightarrow> key_range) \<Rightarrow> (nat \<Rightarrow> nat) \<Rightarrow> idx_key_t index_spec \<Rightarrow> bool" where
  "bt_mem_ok s R H m \<longleftrightarrow> tree_ok s R H \<and> items_ok s R m \<and> (\<forall>p. bt_live s p \<longrightarrow> ver_free (bt_ver s p) \<or> ver_held (bt_ver s p))"

lemma bt_mem_okD:
  assumes "bt_mem_ok s R H m"
  shows "tree_ok s R H" "items_ok s R m" "\<And>p. bt_live s p \<Longrightarrow> ver_free (bt_ver s p) \<or> ver_held (bt_ver s p)"
  using assms unfolding bt_mem_ok_def by blast+

lemma bt_node_at_live: "bt_live s p \<Longrightarrow> bt_node_at p s = Inr \<lparr>typeVersionLockObsolete = bt_ver s p, nb_page = bt_page s p\<rparr>"
  by (cases "the (bt_heap s p)") (auto simp: bt_node_at_def bt_live_def bt_ver_def bt_page_def split: option.splits)

lemma readLock_live: "bt_live s p \<Longrightarrow> ver_free (bt_ver s p) \<or> ver_held (bt_ver s p) \<Longrightarrow>
    readLock p s = Inr (if ver_free (bt_ver s p) then Some (bt_ver s p) else None)"
  by (auto simp: readLock_def bt_node_at_live Let_def isLocked_iff isObsolete_iff ver_free_def ver_held_def)

lemma optimistic_live: "bt_live s p \<Longrightarrow> optimistic p v f torn s = (if bt_ver s p = v then f (bt_page s p) else Inr torn)"
  by (simp add: optimistic_def bt_node_at_live)

lemma unchanged_live: "bt_live s p \<Longrightarrow> unchanged p v s = Inr (v = bt_ver s p)"
  by (simp add: unchanged_def bt_node_at_live)

text \<open>The same memory with another version of node \<open>p\<close>.\<close>

definition set_ver :: "nat \<Rightarrow> 64 word \<Rightarrow> IndexBTreeOLC \<Rightarrow> IndexBTreeOLC" where
  "set_ver p v s = bt_put p \<lparr>typeVersionLockObsolete = v, nb_page = bt_page s p\<rparr> s"

lemma set_ver_simps [simp]:
  "bt_live (set_ver p v s) x \<longleftrightarrow> x = p \<or> bt_live s x" "bt_page (set_ver p v s) x = bt_page s x"
  "bt_ver (set_ver p v s) x = (if x = p then v else bt_ver s x)" "bt_root (set_ver p v s) = bt_root s" "bt_fresh (set_ver p v s) = bt_fresh s"
  "bt_item_next (set_ver p v s) = bt_item_next s" "bt_cur_key (set_ver p v s) = bt_cur_key s" "bt_cur_item (set_ver p v s) = bt_cur_item s"
  "bt_cursor (set_ver p v s) = bt_cursor s"
  by (auto simp: set_ver_def bt_put_def bt_live_def bt_page_def bt_ver_def)

lemma upgrade_live: "bt_live s p \<Longrightarrow> upgradeToWriteLock p v s = Inr (if bt_ver s p = v then (True, set_ver p (v + 2) s) else (False, s))"
  by (simp add: upgradeToWriteLock_def bt_node_at_live set_ver_def)

lemma writeUnlock_live: "bt_live s p \<Longrightarrow> writeUnlock p s = Inr (set_ver p (bt_ver s p + 2) s)"
  by (simp add: writeUnlock_def bt_node_at_live set_ver_def)

lemma versions_left_live:
  assumes "versions_left s" "bt_mem_ok s R H m" "bt_live s p"
  shows "bt_ver s p < UINT64_MAX - 8"
proof -
  have "p \<in> set [0..<bt_fresh s]" using tree_okD(7) [OF bt_mem_okD(1) [OF assms(2)]] assms(3) by simp
  then have "case bt_heap s p of None \<Rightarrow> True | Some n \<Rightarrow> typeVersionLockObsolete n < UINT64_MAX - 8"
    using assms(1) unfolding versions_left_def list_all_iff by blast
  then show ?thesis using assms(3) by (auto simp: bt_live_def bt_ver_def)
qed

lemma set_ver_mem:
  assumes "bt_mem_ok s R H m" "bt_live s p" "ver_free v \<or> ver_held v"
  shows "bt_mem_ok (set_ver p v s) R H m"
proof -
  have "tree_ok (set_ver p v s) R H = tree_ok s R H" by (rule tree_ok_cong) (use assms(2) in auto)
  then show ?thesis using assms by (auto simp: bt_mem_ok_def items_ok_def)
qed

subsection \<open>Places\<close>

definition parent_set :: "bt_frame \<Rightarrow> nat set" where
  "parent_set fr = (case bf_parent fr of None \<Rightarrow> {} | Some (q, vq) \<Rightarrow> {q})"

text \<open>The nodes a thread has locked.\<close>

fun bt_own :: "bt_frame \<Rightarrow> bt_pc \<Rightarrow> nat set" where
  "bt_own fr Lock_node = parent_set fr"
| "bt_own fr Moved_root = insert (bf_node fr) (parent_set fr)"
| "bt_own fr Split = insert (bf_node fr) (parent_set fr)"
| "bt_own fr Unlock_node = insert (bf_node fr) (parent_set fr)"
| "bt_own fr Unlock_parent = parent_set fr"
| "bt_own fr Leaf_parent = {bf_node fr}"
| "bt_own fr Leaf_insert = {bf_node fr}"
| "bt_own fr (Leaf_unlock done) = {bf_node fr}"
| "bt_own fr pc = {}"

text \<open>The thread's insert has not taken effect, and its item is not in the index.\<close>

fun bt_retrying :: "bt_frame \<Rightarrow> bt_pc \<Rightarrow> bool" where
  "bt_retrying fr (Idle x) = False"
| "bt_retrying fr (Leaf_unlock done) = (\<not> done)"
| "bt_retrying fr (Next_start b) = False"
| "bt_retrying fr Next_take = False"
| "bt_retrying fr pc = (bf_goal fr = For_insert)"

definition bt_own_item :: "bt_frame \<Rightarrow> bt_pc \<Rightarrow> item_ptr set" where
  "bt_own_item fr pc = (if bt_retrying fr pc then {bf_item fr} else {})"

text \<open>What is known of a node since its version was taken: \<open>Q\<close>, unless the version has changed.\<close>

definition seen_at :: "IndexBTreeOLC \<Rightarrow> nat \<Rightarrow> 64 word \<Rightarrow> bool \<Rightarrow> bool" where
  "seen_at s q v Q \<longleftrightarrow> bt_live s q \<and> ver_free v \<and> v \<le> bt_ver s q \<and> (bt_ver s q = v \<longrightarrow> Q)"

definition bt_child_of :: "IndexBTreeOLC \<Rightarrow> (nat \<Rightarrow> key_range) \<Rightarrow> bt_frame \<Rightarrow> nat \<Rightarrow> nat \<Rightarrow> bool" where
  "bt_child_of s R fr q c \<longleftrightarrow> in_rng (R q) (bf_key fr) \<and> inner_child (bf_key fr) (bt_page s q) = Inr c \<and> \<not> is_leaf (bt_page s q) \<and>
     (bf_goal fr = For_insert \<longrightarrow> \<not> is_full (bt_page s q))"

definition parent_link :: "IndexBTreeOLC \<Rightarrow> (nat \<Rightarrow> key_range) \<Rightarrow> bt_frame \<Rightarrow> bool" where
  "parent_link s R fr \<longleftrightarrow> seen_at s (bf_node fr) (bf_version fr) (bf_parent fr = None \<longrightarrow> in_rng (R (bf_node fr)) (bf_key fr)) \<and>
     (case bf_parent fr of None \<Rightarrow> True | Some (q, vq) \<Rightarrow> seen_at s q vq (bt_child_of s R fr q (bf_node fr)))"

text \<open>What a search sees in a leaf.\<close>

definition shows_leaf :: "bt_frame \<Rightarrow> page \<Rightarrow> bt_seen \<Rightarrow> bool" where
  "shows_leaf fr pg seen \<longleftrightarrow> (case pg of BTreeInner ks cs \<Rightarrow> False
     | BTreeLeaf ks vs \<Rightarrow> seen = (if bf_goal fr = For_scan then Seen_entries (take BTREEOLC_SCAN_BATCH (filter (\<lambda>x. bf_key fr \<le> fst x) (zip ks vs)))
         else Seen_item (leaf_map ks vs (bf_key fr))))"

definition locked_link :: "IndexBTreeOLC \<Rightarrow> (nat \<Rightarrow> key_range) \<Rightarrow> bt_frame \<Rightarrow> bool" where
  "locked_link s R fr \<longleftrightarrow> (case bf_parent fr of None \<Rightarrow> True | Some (q, vq) \<Rightarrow> bt_child_of s R fr q (bf_node fr))"

fun at_place :: "IndexBTreeOLC \<Rightarrow> (nat \<Rightarrow> key_range) \<Rightarrow> bt_frame \<Rightarrow> bt_pc \<Rightarrow> bool" where
  "at_place s R fr (Idle x) \<longleftrightarrow> True"
| "at_place s R fr Clear_next \<longleftrightarrow> bf_goal fr = For_insert"
| "at_place s R fr Start \<longleftrightarrow> True"
| "at_place s R fr Version \<longleftrightarrow> bt_live s (bf_node fr) \<and> bf_parent fr = None"
| "at_place s R fr Root_check \<longleftrightarrow> seen_at s (bf_node fr) (bf_version fr) True \<and> bf_parent fr = None"
| "at_place s R fr Inspect \<longleftrightarrow> parent_link s R fr"
| "at_place s R fr Check_parent \<longleftrightarrow> parent_link s R fr \<and> \<not> is_leaf (bt_page s (bf_node fr)) \<and>
     seen_at s (bf_node fr) (bf_version fr) (bf_goal fr = For_insert \<longrightarrow> \<not> is_full (bt_page s (bf_node fr)))"
| "at_place s R fr Read_child \<longleftrightarrow> \<not> is_leaf (bt_page s (bf_node fr)) \<and>
     seen_at s (bf_node fr) (bf_version fr) (in_rng (R (bf_node fr)) (bf_key fr) \<and> (bf_goal fr = For_insert \<longrightarrow> \<not> is_full (bt_page s (bf_node fr))))"
| "at_place s R fr (Check_node c) \<longleftrightarrow> (\<exists>q vq. bf_parent fr = Some (q, vq) \<and> seen_at s q vq (bt_child_of s R fr q c))"
| "at_place s R fr (Child_version c) \<longleftrightarrow> bt_live s c \<and> (\<exists>q vq. bf_parent fr = Some (q, vq) \<and> seen_at s q vq (bt_child_of s R fr q c))"
| "at_place s R fr Lock_parent \<longleftrightarrow> bf_goal fr = For_insert \<and> parent_link s R fr \<and>
     seen_at s (bf_node fr) (bf_version fr) (is_full (bt_page s (bf_node fr)))"
| "at_place s R fr Lock_node \<longleftrightarrow> bf_goal fr = For_insert \<and> locked_link s R fr \<and>
     seen_at s (bf_node fr) (bf_version fr) (is_full (bt_page s (bf_node fr)))"
| "at_place s R fr Moved_root \<longleftrightarrow> bf_goal fr = For_insert \<and> locked_link s R fr \<and> is_full (bt_page s (bf_node fr))"
| "at_place s R fr Split \<longleftrightarrow> bf_goal fr = For_insert \<and> locked_link s R fr \<and> is_full (bt_page s (bf_node fr)) \<and>
     (bf_parent fr = None \<longrightarrow> bf_node fr = bt_root s)"
| "at_place s R fr Unlock_node \<longleftrightarrow> bf_node fr \<notin> parent_set fr"
| "at_place s R fr Unlock_parent \<longleftrightarrow> True"
| "at_place s R fr Lock_leaf \<longleftrightarrow> bf_goal fr = For_insert \<and> parent_link s R fr \<and> is_leaf (bt_page s (bf_node fr)) \<and>
     seen_at s (bf_node fr) (bf_version fr) (\<not> is_full (bt_page s (bf_node fr)))"
| "at_place s R fr Leaf_parent \<longleftrightarrow> bf_goal fr = For_insert \<and> is_leaf (bt_page s (bf_node fr)) \<and> \<not> is_full (bt_page s (bf_node fr)) \<and>
     (case bf_parent fr of None \<Rightarrow> in_rng (R (bf_node fr)) (bf_key fr) | Some (q, vq) \<Rightarrow> seen_at s q vq (bt_child_of s R fr q (bf_node fr)))"
| "at_place s R fr Leaf_insert \<longleftrightarrow> bf_goal fr = For_insert \<and> is_leaf (bt_page s (bf_node fr)) \<and> \<not> is_full (bt_page s (bf_node fr)) \<and>
     in_rng (R (bf_node fr)) (bf_key fr)"
| "at_place s R fr (Leaf_unlock done) \<longleftrightarrow> bf_goal fr = For_insert"
| "at_place s R fr Look \<longleftrightarrow> bf_goal fr \<noteq> For_insert \<and> parent_link s R fr \<and> is_leaf (bt_page s (bf_node fr))"
| "at_place s R fr (Look_parent seen) \<longleftrightarrow> bf_goal fr \<noteq> For_insert \<and> parent_link s R fr \<and>
     seen_at s (bf_node fr) (bf_version fr) (shows_leaf fr (bt_page s (bf_node fr)) seen)"
| "at_place s R fr (Look_node seen) \<longleftrightarrow> bf_goal fr \<noteq> For_insert \<and>
     seen_at s (bf_node fr) (bf_version fr) (in_rng (R (bf_node fr)) (bf_key fr) \<and> shows_leaf fr (bt_page s (bf_node fr)) seen)"
| "at_place s R fr (Next_start b) \<longleftrightarrow> True"
| "at_place s R fr Next_take \<longleftrightarrow> True"

definition bt_place_ok :: "IndexBTreeOLC \<Rightarrow> (nat \<Rightarrow> key_range) \<Rightarrow> bt_frame \<Rightarrow> bt_pc \<Rightarrow> bool" where
  "bt_place_ok s R fr pc \<longleftrightarrow> at_place s R fr pc \<and> (\<forall>x\<in>bt_own fr pc. bt_live s x \<and> ver_held (bt_ver s x)) \<and>
     (bt_retrying fr pc \<longrightarrow> pc \<noteq> Clear_next \<longrightarrow> bt_item_next s (bf_item fr) = None)"

subsection \<open>What the steps of the other threads do\<close>

definition bt_evolves :: "IndexBTreeOLC \<Rightarrow> (nat \<Rightarrow> key_range) \<Rightarrow> IndexBTreeOLC \<Rightarrow> (nat \<Rightarrow> key_range) \<Rightarrow> nat set \<Rightarrow> item_ptr set \<Rightarrow> bool" where
  "bt_evolves s R s' R' W J \<longleftrightarrow>
     (\<forall>p. bt_live s p \<longrightarrow> bt_live s' p \<and> bt_ver s p \<le> bt_ver s' p \<and> is_leaf (bt_page s' p) = is_leaf (bt_page s p) \<and>
        (p \<notin> W \<longrightarrow> bt_page s' p = bt_page s p \<and> R' p = R p \<and> (ver_held (bt_ver s p) \<longrightarrow> bt_ver s' p = bt_ver s p))) \<and>
     (bt_root s \<notin> W \<longrightarrow> bt_root s' = bt_root s) \<and> (\<forall>j. j \<notin> J \<longrightarrow> bt_item_next s' j = bt_item_next s j)"

lemma bt_evolvesD:
  assumes "bt_evolves s R s' R' W J"
  shows "\<And>p. bt_live s p \<Longrightarrow> bt_live s' p" "\<And>p. bt_live s p \<Longrightarrow> bt_ver s p \<le> bt_ver s' p"
    "\<And>p. bt_live s p \<Longrightarrow> is_leaf (bt_page s' p) = is_leaf (bt_page s p)"
    "\<And>p. bt_live s p \<Longrightarrow> p \<notin> W \<Longrightarrow> bt_page s' p = bt_page s p" "\<And>p. bt_live s p \<Longrightarrow> p \<notin> W \<Longrightarrow> R' p = R p"
    "\<And>p. bt_live s p \<Longrightarrow> p \<notin> W \<Longrightarrow> ver_held (bt_ver s p) \<Longrightarrow> bt_ver s' p = bt_ver s p"
    "bt_root s \<notin> W \<Longrightarrow> bt_root s' = bt_root s" "\<And>j. j \<notin> J \<Longrightarrow> bt_item_next s' j = bt_item_next s j"
  using assms unfolding bt_evolves_def by blast+

lemma bt_evolves_refl [simp]: "bt_evolves s R s R W J"
  by (simp add: bt_evolves_def)

lemma seen_at_evolves:
  assumes ev: "bt_evolves s R s' R' W J" and W: "\<forall>x\<in>W. ver_held (bt_ver s x)" and sn: "seen_at s q v Q"
    and Q: "bt_page s' q = bt_page s q \<Longrightarrow> R' q = R q \<Longrightarrow> Q \<Longrightarrow> Q'"
  shows "seen_at s' q v Q'"
proof -
  have q: "bt_live s q" "ver_free v" "v \<le> bt_ver s q" "bt_ver s q = v \<longrightarrow> Q" using sn by (simp_all add: seen_at_def)
  note e = bt_evolvesD [OF ev]
  have "Q'" if v: "bt_ver s' q = v"
  proof -
    have vs: "bt_ver s q = v" using q(3) e(2) [OF q(1)] v by simp
    then have "q \<notin> W" using W q(2) ver_not_both by blast
    then show ?thesis using Q e(4,5) [OF q(1)] q(4) vs by blast
  qed
  then show ?thesis using q e(1,2) by (auto simp: seen_at_def intro: order_trans)
qed

lemma seen_at_mono: "seen_at s q v Q \<Longrightarrow> (Q \<Longrightarrow> bt_ver s q = v \<Longrightarrow> Q') \<Longrightarrow> seen_at s q v Q'"
  by (simp add: seen_at_def)

lemma child_of_cong: "bt_page s' q = bt_page s q \<Longrightarrow> R' q = R q \<Longrightarrow> bt_child_of s' R' fr q c = bt_child_of s R fr q c"
  by (simp add: bt_child_of_def)

lemma parent_link_evolves:
  assumes ev: "bt_evolves s R s' R' W J" and W: "\<forall>x\<in>W. ver_held (bt_ver s x)" and pl: "parent_link s R fr"
  shows "parent_link s' R' fr"
proof -
  have "seen_at s' (bf_node fr) (bf_version fr) (bf_parent fr = None \<longrightarrow> in_rng (R' (bf_node fr)) (bf_key fr))"
    by (rule seen_at_evolves [OF ev W]) (use pl in \<open>auto simp: parent_link_def\<close>)
  moreover have "seen_at s' q vq (bt_child_of s' R' fr q (bf_node fr))" if "bf_parent fr = Some (q, vq)" for q vq
  proof -
    have "seen_at s q vq (bt_child_of s R fr q (bf_node fr))" using pl that by (simp add: parent_link_def)
    then show ?thesis by (rule seen_at_evolves [OF ev W]) (simp_all add: bt_child_of_def)
  qed
  ultimately show ?thesis by (auto simp: parent_link_def split: option.splits)
qed

lemma bt_evolves_place:
  assumes ev: "bt_evolves s R s' R' W J" and W: "\<forall>x\<in>W. ver_held (bt_ver s x)" and pl: "bt_place_ok s R fr pc"
    and dis: "bt_own fr pc \<inter> W = {}" "bt_own_item fr pc \<inter> J = {}"
  shows "bt_place_ok s' R' fr pc"
proof -
  note e = bt_evolvesD [OF ev] and at = pl [unfolded bt_place_ok_def, THEN conjunct1]
  have held: "bt_live s x \<and> ver_held (bt_ver s x) \<and> x \<notin> W" if "x \<in> bt_own fr pc" for x using pl dis(1) that unfolding bt_place_ok_def by blast
  have own: "bt_live s' x \<and> ver_held (bt_ver s' x) \<and> bt_page s' x = bt_page s x \<and> R' x = R x" if "x \<in> bt_own fr pc" for x
    using held [OF that] e(1,4-6) by metis
  have item: "bt_item_next s' (bf_item fr) = None" if "bt_retrying fr pc" "pc \<noteq> Clear_next"
  proof -
    have "bf_item fr \<notin> J" using dis(2) that(1) by (simp add: bt_own_item_def)
    then show ?thesis using e(8) pl that unfolding bt_place_ok_def by metis
  qed
  note se = seen_at_evolves [OF ev W] and link = parent_link_evolves [OF ev W]
  let ?p = "bf_node fr" and ?v = "bf_version fr"
  have seen: "seen_at s q v True \<Longrightarrow> seen_at s' q v True" for q v by (erule se) simp
  have seen_child: "seen_at s q v (bt_child_of s R fr q c) \<Longrightarrow> seen_at s' q v (bt_child_of s' R' fr q c)" for q v c
    by (erule se) (simp add: bt_child_of_def)
  have leaf: "is_leaf (bt_page s' ?p) = is_leaf (bt_page s ?p)" if "seen_at s ?p ?v Q" for Q
    using e(3) [of ?p] that by (simp add: seen_at_def)
  have plink: "bt_live s ?p" if "parent_link s R fr" using that by (simp add: parent_link_def seen_at_def)
  have llink: "locked_link s' R' fr" if "locked_link s R fr" "parent_set fr \<subseteq> bt_own fr pc"
    using that own by (auto simp: locked_link_def parent_set_def bt_child_of_def split: option.splits)
  have "at_place s' R' fr pc"
  proof (cases pc)
    case Version
    then show ?thesis using at e(1) by simp
  next
    case Root_check
    then show ?thesis using at seen by simp
  next
    case Inspect
    then show ?thesis using at link by simp
  next
    case Check_parent
    then have a: "parent_link s R fr" "\<not> is_leaf (bt_page s ?p)" "seen_at s ?p ?v (bf_goal fr = For_insert \<longrightarrow> \<not> is_full (bt_page s ?p))" using at by simp_all
    have "seen_at s' ?p ?v (bf_goal fr = For_insert \<longrightarrow> \<not> is_full (bt_page s' ?p))" by (rule se [OF a(3)]) simp
    then show ?thesis using Check_parent a link [OF a(1)] leaf [OF a(3)] by simp
  next
    case Read_child
    then have a: "\<not> is_leaf (bt_page s ?p)" "seen_at s ?p ?v (in_rng (R ?p) (bf_key fr) \<and> (bf_goal fr = For_insert \<longrightarrow> \<not> is_full (bt_page s ?p)))" using at by simp_all
    have "seen_at s' ?p ?v (in_rng (R' ?p) (bf_key fr) \<and> (bf_goal fr = For_insert \<longrightarrow> \<not> is_full (bt_page s' ?p)))" by (rule se [OF a(2)]) simp
    then show ?thesis using Read_child a leaf [OF a(2)] by simp
  next
    case (Check_node c)
    then show ?thesis using at seen_child by auto
  next
    case (Child_version c)
    then show ?thesis using at seen_child e(1) by auto
  next
    case Lock_parent
    then have a: "bf_goal fr = For_insert" "parent_link s R fr" "seen_at s ?p ?v (is_full (bt_page s ?p))" using at by simp_all
    have "seen_at s' ?p ?v (is_full (bt_page s' ?p))" by (rule se [OF a(3)]) simp
    then show ?thesis using Lock_parent a link by simp
  next
    case Lock_node
    then have a: "bf_goal fr = For_insert" "locked_link s R fr" "seen_at s ?p ?v (is_full (bt_page s ?p))" using at by simp_all
    have "seen_at s' ?p ?v (is_full (bt_page s' ?p))" by (rule se [OF a(3)]) simp
    then show ?thesis using Lock_node a llink by simp
  next
    case Moved_root
    then show ?thesis using at llink own [of ?p] by auto
  next
    case Split
    have "bt_root s' = bt_root s" if "bf_parent fr = None"
    proof -
      have "bt_root s = ?p" using at Split that by simp
      then show ?thesis using e(7) held [of ?p] Split by simp
    qed
    then show ?thesis using at Split llink own [of ?p] by auto
  next
    case Lock_leaf
    then have a: "bf_goal fr = For_insert" "parent_link s R fr" "is_leaf (bt_page s ?p)" "seen_at s ?p ?v (\<not> is_full (bt_page s ?p))" using at by simp_all
    have "seen_at s' ?p ?v (\<not> is_full (bt_page s' ?p))" by (rule se [OF a(4)]) simp
    then show ?thesis using Lock_leaf a link leaf [OF a(4)] by simp
  next
    case Leaf_parent
    then have "bt_page s' ?p = bt_page s ?p" "R' ?p = R ?p" using own [of ?p] by simp_all
    then show ?thesis using at Leaf_parent seen_child by (auto split: option.splits)
  next
    case Leaf_insert
    then show ?thesis using at own [of ?p] by simp
  next
    case Look
    then show ?thesis using at link e(3) plink by simp
  next
    case (Look_parent x)
    then have a: "bf_goal fr \<noteq> For_insert" "parent_link s R fr" "seen_at s ?p ?v (shows_leaf fr (bt_page s ?p) x)" using at by simp_all
    have "seen_at s' ?p ?v (shows_leaf fr (bt_page s' ?p) x)" by (rule se [OF a(3)]) simp
    then show ?thesis using Look_parent a link by simp
  next
    case (Look_node x)
    then have a: "bf_goal fr \<noteq> For_insert" "seen_at s ?p ?v (in_rng (R ?p) (bf_key fr) \<and> shows_leaf fr (bt_page s ?p) x)" using at by simp_all
    have "seen_at s' ?p ?v (in_rng (R' ?p) (bf_key fr) \<and> shows_leaf fr (bt_page s' ?p) x)" by (rule se [OF a(2)]) simp
    then show ?thesis using Look_node a by simp
  qed (use at in simp_all)
  then show ?thesis using own item unfolding bt_place_ok_def by blast
qed

subsection \<open>Steps\<close>

definition bt_commits :: "bt_pc \<Rightarrow> bt_pc \<Rightarrow> bool" where
  "bt_commits pc pc' \<longleftrightarrow> pc = Leaf_insert \<and> pc' = Leaf_unlock True"

definition bt_after :: "bt_frame \<Rightarrow> bt_pc \<Rightarrow> bt_pc \<Rightarrow> idx_key_t index_spec \<Rightarrow> idx_key_t index_spec" where
  "bt_after fr pc pc' m = (if bt_commits pc pc' then push_item (bf_key fr) (bf_item fr) m else m)"

definition bt_step_ok :: "IndexBTreeOLC \<Rightarrow> (nat \<Rightarrow> key_range) \<Rightarrow> idx_key_t index_spec \<Rightarrow> bt_frame \<Rightarrow> bt_pc \<Rightarrow> bt_frame \<Rightarrow> bt_pc \<Rightarrow> IndexBTreeOLC \<Rightarrow> bool" where
  "bt_step_ok s R m fr pc fr' pc' s' \<longleftrightarrow> (\<exists>R' H'. bt_mem_ok s' R' H' (bt_after fr pc pc' m) \<and>
     bt_evolves s R s' R' (bt_own fr pc) (bt_own_item fr pc) \<and> bt_place_ok s' R' fr' pc' \<and> bt_own_item fr' pc' \<subseteq> bt_own_item fr pc \<and>
     (\<forall>x\<in>bt_own fr' pc' - bt_own fr pc. ver_free (bt_ver s x)) \<and>
     (\<forall>x. bt_live s' x \<longrightarrow> ver_held (bt_ver s' x) \<longrightarrow> x \<in> bt_own fr' pc' \<or> x \<notin> bt_own fr pc \<and> bt_live s x \<and> ver_held (bt_ver s x)))"

text \<open>A step that only reads.\<close>

lemma bt_step_read:
  assumes "bt_mem_ok s R H m" "bt_place_ok s R fr pc" "at_place s R fr' pc'" "bt_own fr' pc' = bt_own fr pc"
    "bt_retrying fr' pc' \<Longrightarrow> bt_retrying fr pc \<and> bf_item fr' = bf_item fr \<and> pc \<noteq> Clear_next" "\<not> bt_commits pc pc'"
  shows "bt_step_ok s R m fr pc fr' pc' s"
proof -
  have "bt_place_ok s R fr' pc'" using assms(2-5) unfolding bt_place_ok_def by metis
  moreover have "bt_own_item fr' pc' \<subseteq> bt_own_item fr pc" using assms(5) by (auto simp: bt_own_item_def)
  ultimately show ?thesis using assms(1,4,6) unfolding bt_step_ok_def by (auto simp: bt_after_def)
qed

text \<open>A step that locks a node whose version is still the one it took, or unlocks one it holds.\<close>

lemma bt_step_lock:
  assumes mem: "bt_mem_ok s R H m" and left: "versions_left s" and pl: "bt_place_ok s R fr pc" and x: "bt_live s x" "bt_ver s x = v" "ver_free v"
    and at: "at_place (set_ver x (v + 2) s) R fr' pc'" and own: "bt_own fr' pc' = insert x (bt_own fr pc)"
    and item: "bt_retrying fr' pc' \<Longrightarrow> bt_retrying fr pc \<and> bf_item fr' = bf_item fr \<and> pc \<noteq> Clear_next" and c: "\<not> bt_commits pc pc'"
  shows "bt_step_ok s R m fr pc fr' pc' (set_ver x (v + 2) s)"
proof -
  have lt: "v < UINT64_MAX - 8" using versions_left_live [OF left mem x(1)] x(2) by simp
  have held: "ver_held (v + 2)" by (rule ver_lock [OF lt x(3)])
  have "bt_mem_ok (set_ver x (v + 2) s) R H m" using set_ver_mem [OF mem x(1)] held by blast
  moreover have "bt_evolves s R (set_ver x (v + 2) s) R (bt_own fr pc) (bt_own_item fr pc)"
    using ver_plus_2(2) [OF lt] x(2,3) ver_not_both [of v] by (auto simp: bt_evolves_def)
  moreover have "bt_place_ok (set_ver x (v + 2) s) R fr' pc'"
    using pl at own item held x(1) unfolding bt_place_ok_def by auto
  moreover have "bt_own_item fr' pc' \<subseteq> bt_own_item fr pc" using item by (auto simp: bt_own_item_def)
  ultimately show ?thesis using own x(2,3) c unfolding bt_step_ok_def by (auto simp: bt_after_def)
qed

lemma bt_step_unlock:
  assumes mem: "bt_mem_ok s R H m" and left: "versions_left s" and pl: "bt_place_ok s R fr pc" and x: "x \<in> bt_own fr pc"
    and at: "at_place (set_ver x (bt_ver s x + 2) s) R fr' pc'" and own: "bt_own fr' pc' = bt_own fr pc - {x}"
    and item: "bt_retrying fr' pc' \<Longrightarrow> bt_retrying fr pc \<and> bf_item fr' = bf_item fr \<and> pc \<noteq> Clear_next" and c: "\<not> bt_commits pc pc'"
  shows "bt_step_ok s R m fr pc fr' pc' (set_ver x (bt_ver s x + 2) s)"
proof -
  let ?v = "bt_ver s x"
  have xs: "bt_live s x" "ver_held ?v" using pl x unfolding bt_place_ok_def by blast+
  have lt: "?v < UINT64_MAX - 8" by (rule versions_left_live [OF left mem xs(1)])
  have "bt_mem_ok (set_ver x (?v + 2) s) R H m" using set_ver_mem [OF mem xs(1)] ver_unlock [OF lt xs(2)] by blast
  moreover have "bt_evolves s R (set_ver x (?v + 2) s) R (bt_own fr pc) (bt_own_item fr pc)"
    using ver_plus_2(2) [OF lt] x by (auto simp: bt_evolves_def)
  moreover have "bt_place_ok (set_ver x (?v + 2) s) R fr' pc'"
    using pl at own item unfolding bt_place_ok_def by auto
  moreover have "bt_own_item fr' pc' \<subseteq> bt_own_item fr pc" using item by (auto simp: bt_own_item_def)
  moreover have "\<not> ver_held (?v + 2)" using ver_unlock [OF lt xs(2)] ver_not_both by blast
  ultimately show ?thesis using own c unfolding bt_step_ok_def by (intro exI [of _ R] exI [of _ H]) (auto simp: bt_after_def)
qed

text \<open>The result of a step: in order, or the end of a lookup of an absent key.\<close>

definition bt_result_ok :: "IndexBTreeOLC \<Rightarrow> (nat \<Rightarrow> key_range) \<Rightarrow> idx_key_t index_spec \<Rightarrow> bt_frame \<Rightarrow> bt_pc \<Rightarrow> fault + (bt_frame \<times> bt_pc \<times> IndexBTreeOLC) \<Rightarrow> bool" where
  "bt_result_ok s R m fr pc r \<longleftrightarrow> (case r of
     Inl e \<Rightarrow> e = Undefined_behaviour \<and> (\<exists>seen. pc = Look_node seen) \<and> (bf_goal fr = For_exist \<or> bf_goal fr = For_read) \<and> m (bf_key fr) = None
   | Inr (fr', pc', s') \<Rightarrow> bt_step_ok s R m fr pc fr' pc' s')"

lemma bt_result_Inr [simp]: "bt_result_ok s R m fr pc (Inr (fr', pc', s')) = bt_step_ok s R m fr pc fr' pc' s'"
  by (simp add: bt_result_ok_def)

lemma bt_commits_not [simp]: "pc \<noteq> Leaf_insert \<Longrightarrow> \<not> bt_commits pc pc'"
  by (simp add: bt_commits_def)

lemma not_leaf: "\<not> is_leaf pg \<longleftrightarrow> (\<exists>ks cs. pg = BTreeInner ks cs)"
  by (cases pg) auto

lemma leaf_iff: "is_leaf pg \<longleftrightarrow> (\<exists>ks vs. pg = BTreeLeaf ks vs)"
  by (cases pg) auto

lemma parent_unchanged_link:
  assumes "parent_link s R fr"
  shows "parent_unchanged fr s = Inr (case bf_parent fr of None \<Rightarrow> True | Some (q, vq) \<Rightarrow> vq = bt_ver s q)"
  using assms by (auto simp: parent_link_def parent_unchanged_def seen_at_def unchanged_live split: option.splits)

text \<open>A child has the keys its parent gives it.\<close>

lemma child_of_rng:
  assumes t: "tree_ok s R H" and q: "bt_live s q" "bt_child_of s R fr q c"
  shows "bt_live s c" "in_rng (R c) (bf_key fr)"
proof -
  obtain ks cs where pg: "bt_page s q = BTreeInner ks cs" using q(2) not_leaf by (auto simp: bt_child_of_def)
  have k: "in_rng (R q) (bf_key fr)" using q(2) by (simp add: bt_child_of_def)
  obtain i where i: "i \<le> length ks" "inner_child (bf_key fr) (BTreeInner ks cs) = Inr (cs ! i)" "in_rng (R (cs ! i)) (bf_key fr)"
    using inner_child_ok [OF t q(1) pg k] by metis
  then have "c = cs ! i" using q(2) pg by (simp add: bt_child_of_def)
  then show "bt_live s c" "in_rng (R c) (bf_key fr)" using inner_node(2) [OF t q(1) pg i(1)] i(3) by simp_all
qed

text \<open>The check of the parent makes sure that the key belongs to the node.\<close>

lemma parent_checked:
  assumes t: "tree_ok s R H" and pl: "parent_link s R fr" and ok: "parent_unchanged fr s = Inr True"
  shows "seen_at s (bf_node fr) (bf_version fr) (in_rng (R (bf_node fr)) (bf_key fr))"
proof (cases "bf_parent fr")
  case None
  then show ?thesis using pl by (simp add: parent_link_def)
next
  case (Some qv)
  obtain q vq where qv: "qv = (q, vq)" by (cases qv)
  have "seen_at s q vq (bt_child_of s R fr q (bf_node fr))" using pl Some qv by (simp add: parent_link_def)
  moreover have "bt_ver s q = vq" using ok Some qv calculation by (simp add: parent_unchanged_def seen_at_def unchanged_live)
  ultimately have "bt_live s q" "bt_child_of s R fr q (bf_node fr)" by (simp_all add: seen_at_def)
  then have "in_rng (R (bf_node fr)) (bf_key fr)" by (rule child_of_rng(2) [OF t])
  then show ?thesis using pl by (simp add: parent_link_def seen_at_def)
qed

lemma search_steps:
  assumes mem: "bt_mem_ok s R H m" and pl: "bt_place_ok s R fr pc"
    and pc: "pc = Start \<or> pc = Version \<or> pc = Root_check \<or> pc = Inspect \<or> pc = Check_parent \<or> pc = Read_child \<or> (\<exists>c. pc = Check_node c \<or> pc = Child_version c)"
  shows "bt_result_ok s R m fr pc (bt_step t torn fr pc s)"
proof -
  note mm = bt_mem_okD [OF mem] and tr = tree_okD [OF bt_mem_okD(1) [OF mem]] and at = pl [unfolded bt_place_ok_def, THEN conjunct1]
  let ?p = "bf_node fr" and ?v = "bf_version fr"
  have read: "bt_step_ok s R m fr pc fr' pc' s"
    if "at_place s R fr' pc'" "bt_own fr' pc' = {}" "bt_retrying fr' pc' \<Longrightarrow> bt_retrying fr pc \<and> bf_item fr' = bf_item fr" for fr' pc'
    by (rule bt_step_read [OF mem pl that(1)]) (use that(2,3) pc in auto)
  show ?thesis
    using pc
  proof (elim disjE exE)
    assume p: "pc = Start"
    show ?thesis unfolding p bt_step.simps bt_result_Inr by (rule read [unfolded p]) (use tr(1) in simp_all)
  next
    assume p: "pc = Version"
    then have l: "bt_live s ?p" "bf_parent fr = None" using at by simp_all
    have "bt_step_ok s R m fr Version fr Start s" by (rule read [unfolded p]) simp_all
    moreover have "bt_step_ok s R m fr Version (fr\<lparr>bf_version := bt_ver s ?p\<rparr>) Root_check s" if "ver_free (bt_ver s ?p)"
      by (rule read [unfolded p]) (use l that in \<open>simp_all add: seen_at_def\<close>)
    ultimately show ?thesis using readLock_live [OF l(1) mm(3) [OF l(1)]] p by simp
  next
    assume p: "pc = Root_check"
    then have l: "seen_at s ?p ?v True" "bf_parent fr = None" using at by simp_all
    have "bt_step_ok s R m fr Root_check fr Start s" by (rule read [unfolded p]) simp_all
    moreover have "bt_step_ok s R m fr Root_check fr Inspect s" if "?p = bt_root s"
      by (rule read [unfolded p]) (use l that tr(2) in \<open>auto simp: parent_link_def seen_at_def\<close>)
    ultimately show ?thesis using p by simp
  next
    assume p: "pc = Inspect"
    then have l: "parent_link s R fr" "bt_live s ?p" "seen_at s ?p ?v True" using at by (auto simp: parent_link_def seen_at_def)
    define full where "full = (if bf_goal fr = For_insert then if bt_ver s ?p = ?v then is_full (bt_page s ?p) else torn_full torn else False)"
    have st: "bt_step t torn fr pc s = Inr (fr, if full then Lock_parent else if is_leaf (bt_page s ?p) then (if bf_goal fr = For_insert then Lock_leaf else Look) else Check_parent, s)"
      using p l(2) by (simp add: bt_node_at_live optimistic_live full_def)
    have sn: "seen_at s ?p ?v Q" if "bt_ver s ?p = ?v \<Longrightarrow> Q" for Q by (rule seen_at_mono [OF l(3)]) (use that in simp)
    show ?thesis unfolding st bt_result_Inr
      by (rule read) (use l sn p in \<open>auto simp: full_def split: if_splits\<close>)
  next
    assume p: "pc = Check_parent"
    then have l: "parent_link s R fr" "\<not> is_leaf (bt_page s ?p)" "seen_at s ?p ?v (bf_goal fr = For_insert \<longrightarrow> \<not> is_full (bt_page s ?p))" using at by simp_all
    obtain ok where ok: "parent_unchanged fr s = Inr ok" using parent_unchanged_link [OF l(1)] by blast
    have "bt_step_ok s R m fr Check_parent fr Start s" by (rule read [unfolded p]) simp_all
    moreover have "bt_step_ok s R m fr Check_parent fr Read_child s" if "ok"
      by (rule read [unfolded p]) (use l parent_checked [OF mm(1) l(1)] ok that in \<open>auto simp: seen_at_def\<close>)
    ultimately show ?thesis using p ok by simp
  next
    assume p: "pc = Read_child"
    then have l: "\<not> is_leaf (bt_page s ?p)" "seen_at s ?p ?v (in_rng (R ?p) (bf_key fr) \<and> (bf_goal fr = For_insert \<longrightarrow> \<not> is_full (bt_page s ?p)))" using at by simp_all
    have lv: "bt_live s ?p" using l(2) by (simp add: seen_at_def)
    obtain ks cs where pg: "bt_page s ?p = BTreeInner ks cs" using l(1) not_leaf by blast
    obtain c where c: "optimistic ?p ?v (inner_child (bf_key fr)) (torn_child torn) s = Inr c"
      "bt_ver s ?p = ?v \<Longrightarrow> inner_child (bf_key fr) (bt_page s ?p) = Inr c"
    proof (cases "bt_ver s ?p = ?v")
      case True
      then have "in_rng (R ?p) (bf_key fr)" using l(2) by (simp add: seen_at_def)
      from inner_child_ok [OF mm(1) lv pg this] show thesis using that True pg by (metis optimistic_live [OF lv])
    next
      case False
      then show thesis using that [of "torn_child torn"] optimistic_live [OF lv, of ?v "inner_child (bf_key fr)" "torn_child torn"] by simp
    qed
    have "seen_at s ?p ?v (bt_child_of s R (fr\<lparr>bf_parent := Some (?p, ?v)\<rparr>) ?p c)"
      by (rule seen_at_mono [OF l(2)]) (use l(1) c(2) in \<open>auto simp: bt_child_of_def\<close>)
    then have "bt_step_ok s R m fr Read_child (fr\<lparr>bf_parent := Some (?p, ?v)\<rparr>) (Check_node c) s"
      by (intro read [unfolded p]) simp_all
    then show ?thesis using p c(1) by simp
  next
    fix c assume p: "pc = Check_node c"
    then obtain q vq where l: "bf_parent fr = Some (q, vq)" "seen_at s q vq (bt_child_of s R fr q c)" using at by auto
    have ok: "parent_unchanged fr s = Inr (vq = bt_ver s q)" using l by (simp add: parent_unchanged_def seen_at_def unchanged_live)
    have "bt_step_ok s R m fr (Check_node c) fr Start s" by (rule read [unfolded p]) simp_all
    moreover have "bt_step_ok s R m fr (Check_node c) fr (Child_version c) s" if "vq = bt_ver s q"
      by (rule read [unfolded p]) (use l that child_of_rng(1) [OF mm(1)] in \<open>auto simp: seen_at_def\<close>)
    ultimately show ?thesis using p ok by simp
  next
    fix c assume p: "pc = Child_version c"
    then obtain q vq where l: "bt_live s c" "bf_parent fr = Some (q, vq)" "seen_at s q vq (bt_child_of s R fr q c)" using at by auto
    have "bt_step_ok s R m fr (Child_version c) fr Start s" by (rule read [unfolded p]) simp_all
    moreover have "bt_step_ok s R m fr (Child_version c) (fr\<lparr>bf_node := c, bf_version := bt_ver s c\<rparr>) Inspect s" if "ver_free (bt_ver s c)"
      by (rule read [unfolded p]) (use l that in \<open>auto simp: parent_link_def seen_at_def bt_child_of_def\<close>)
    ultimately show ?thesis using p readLock_live [OF l(1) mm(3) [OF l(1)]] by simp
  qed
qed

lemma look_steps:
  assumes mem: "bt_mem_ok s R H m" and pl: "bt_place_ok s R fr pc" and pc: "pc = Look \<or> (\<exists>seen. pc = Look_parent seen)"
  shows "bt_result_ok s R m fr pc (bt_step t torn fr pc s)"
proof -
  note mm = bt_mem_okD [OF mem] and at = pl [unfolded bt_place_ok_def, THEN conjunct1]
  let ?p = "bf_node fr" and ?v = "bf_version fr"
  have read: "bt_step_ok s R m fr pc fr pc' s" if "at_place s R fr pc'" "bt_own fr pc' = {}" "\<not> bt_retrying fr pc'" for pc'
    by (rule bt_step_read [OF mem pl that(1)]) (use that(2,3) pc in auto)
  show ?thesis
    using pc
  proof (elim disjE exE)
    assume p: "pc = Look"
    then have l: "bf_goal fr \<noteq> For_insert" "parent_link s R fr" "is_leaf (bt_page s ?p)" using at by simp_all
    then have lv: "bt_live s ?p" "seen_at s ?p ?v True" by (auto simp: parent_link_def seen_at_def)
    obtain ks vs where pg: "bt_page s ?p = BTreeLeaf ks vs" using l(3) leaf_iff by blast
    have lo: "leaf_ok (R ?p) ks vs" by (rule leaf_node(1) [OF mm(1) lv(1) pg])
    obtain seen where look: "look torn fr (bt_page s ?p) = Inr seen" "shows_leaf fr (bt_page s ?p) seen"
      unfolding pg using leaf_scan_ok [OF lo, of "torn_key torn" "bf_key fr" BTREEOLC_SCAN_BATCH] leaf_find_ok [OF lo, of "torn_key torn" "bf_key fr"]
      by (simp add: look_def shows_leaf_def split: if_splits)
    define x where "x = (if bt_ver s ?p = ?v then seen else torn_seen torn)"
    have "seen_at s ?p ?v (shows_leaf fr (bt_page s ?p) x)" by (rule seen_at_mono [OF lv(2)]) (use look(2) in \<open>simp add: x_def\<close>)
    then have "bt_step_ok s R m fr Look fr (Look_parent x) s" using l by (intro read [unfolded p]) simp_all
    then show ?thesis using p look(1) optimistic_live [OF lv(1), of ?v "look torn fr" "torn_seen torn"] by (cases "bt_ver s ?p = ?v") (simp_all add: x_def)
  next
    fix x assume p: "pc = Look_parent x"
    then have l: "bf_goal fr \<noteq> For_insert" "parent_link s R fr" "seen_at s ?p ?v (shows_leaf fr (bt_page s ?p) x)" using at by simp_all
    obtain ok where ok: "parent_unchanged fr s = Inr ok" using parent_unchanged_link [OF l(2)] by blast
    have "bt_step_ok s R m fr (Look_parent x) fr Start s" by (rule read [unfolded p]) (use l(1) in simp_all)
    moreover have "bt_step_ok s R m fr (Look_parent x) fr (Look_node x) s" if "ok"
      by (rule read [unfolded p]) (use l parent_checked [OF mm(1) l(2)] ok that in \<open>auto simp: seen_at_def\<close>)
    ultimately show ?thesis using p ok by simp
  qed
qed

lemma parent_link_child: "parent_link s R fr \<Longrightarrow> bf_parent fr = Some (q, vq) \<Longrightarrow> seen_at s q vq (bt_child_of s R fr q (bf_node fr))"
  by (simp add: parent_link_def)

lemma seen_at_set_ver: "seen_at s q v Q \<Longrightarrow> x \<noteq> q \<or> bt_ver s q \<le> w \<and> w \<noteq> v \<Longrightarrow> seen_at (set_ver x w s) q v Q"
  by (auto simp: seen_at_def)

lemma child_of_set_ver [simp]: "bt_child_of (set_ver x w s) R fr q c = bt_child_of s R fr q c"
  by (simp add: bt_child_of_def)

lemma locked_link_set_ver [simp]: "locked_link (set_ver x w s) R fr = locked_link s R fr"
  by (simp add: locked_link_def split: option.split)

lemma lock_steps:
  assumes mem: "bt_mem_ok s R H m" and left: "versions_left s" and pl: "bt_place_ok s R fr pc"
    and pc: "pc = Lock_parent \<or> pc = Lock_node \<or> pc = Moved_root \<or> pc = Lock_leaf \<or> pc = Leaf_parent"
  shows "bt_result_ok s R m fr pc (bt_step t torn fr pc s)"
proof -
  note mm = bt_mem_okD [OF mem] and tr = tree_okD [OF bt_mem_okD(1) [OF mem]] and at = pl [unfolded bt_place_ok_def, THEN conjunct1]
  let ?p = "bf_node fr" and ?v = "bf_version fr"
  have up: "v \<le> v + 2" "v + 2 \<noteq> v" if "bt_live s x" "bt_ver s x = v" for x v
    using ver_plus_2(2) [of v] versions_left_live [OF left mem that(1)] that(2) by auto
  have retry: "bt_retrying fr pc \<and> pc \<noteq> Clear_next" using pc at by auto
  have read: "bt_step_ok s R m fr pc fr pc' s" if "at_place s R fr pc'" "bt_own fr pc' = bt_own fr pc" for pc'
    by (rule bt_step_read [OF mem pl that]) (use retry pc in auto)
  have lock: "bt_step_ok s R m fr pc fr pc' (set_ver x (v + 2) s)"
    if "bt_live s x" "bt_ver s x = v" "ver_free v" "at_place (set_ver x (v + 2) s) R fr pc'" "bt_own fr pc' = insert x (bt_own fr pc)" for x v pc'
    by (rule bt_step_lock [OF mem left pl that]) (use retry pc in auto)
  show ?thesis
    using pc
  proof (elim disjE)
    assume p: "pc = Lock_parent"
    then have l: "bf_goal fr = For_insert" "parent_link s R fr" "seen_at s ?p ?v (is_full (bt_page s ?p))" using at by simp_all
    show ?thesis
    proof (cases "bf_parent fr")
      case None
      have "bt_step_ok s R m fr Lock_parent fr Lock_node s"
        by (rule read [unfolded p]) (use l None in \<open>simp_all add: locked_link_def parent_set_def\<close>)
      then show ?thesis using p None by simp
    next
      case (Some qv)
      obtain q vq where qv: "qv = (q, vq)" by (cases qv)
      have q: "bt_live s q" "ver_free vq" "bt_ver s q = vq \<longrightarrow> bt_child_of s R fr q ?p" using parent_link_child [OF l(2)] Some qv by (simp_all add: seen_at_def)
      have "bt_step_ok s R m fr Lock_parent fr Start s" by (rule read [unfolded p]) simp_all
      moreover have "bt_step_ok s R m fr Lock_parent fr Lock_node (set_ver q (vq + 2) s)" if v: "bt_ver s q = vq"
      proof (rule lock [unfolded p, OF q(1) v q(2)])
        have "q \<noteq> ?p"
        proof
          assume e: "q = ?p"
          have c: "bt_child_of s R fr q q" using q(3) v e by simp
          then obtain ks cs where pg: "bt_page s q = BTreeInner ks cs" using not_leaf by (auto simp: bt_child_of_def)
          have k: "in_rng (R q) (bf_key fr)" using c by (simp add: bt_child_of_def)
          obtain i where "i \<le> length ks" "inner_child (bf_key fr) (BTreeInner ks cs) = Inr (cs ! i)"
            using inner_child_ok [OF mm(1) q(1) pg k] by metis
          then show False using inner_node(4) [OF mm(1) q(1) pg, of i] c pg by (simp add: bt_child_of_def)
        qed
        then show "at_place (set_ver q (vq + 2) s) R fr Lock_node"
          using l(1,3) q(3) v Some qv seen_at_set_ver [OF l(3), of q "vq + 2"] by (simp add: locked_link_def)
      qed (use Some qv in \<open>simp add: parent_set_def\<close>)
      ultimately show ?thesis using p Some qv upgrade_live [OF q(1)] by simp
    qed
  next
    assume p: "pc = Lock_node"
    then have l: "bf_goal fr = For_insert" "locked_link s R fr" "seen_at s ?p ?v (is_full (bt_page s ?p))" using at by simp_all
    have lv: "bt_live s ?p" "ver_free ?v" using l(3) by (simp_all add: seen_at_def)
    have "bt_step_ok s R m fr Lock_node fr Unlock_parent s" by (rule read [unfolded p]) simp_all
    moreover have "bt_step_ok s R m fr Lock_node fr Moved_root (set_ver ?p (?v + 2) s)" if "bt_ver s ?p = ?v"
      by (rule lock [unfolded p, OF lv(1) that lv(2)]) (use l that in \<open>auto simp: seen_at_def\<close>)
    ultimately show ?thesis using p upgrade_live [OF lv(1)] by simp
  next
    assume p: "pc = Moved_root"
    then have l: "bf_goal fr = For_insert" "locked_link s R fr" "is_full (bt_page s ?p)" using at by simp_all
    have "bt_step_ok s R m fr Moved_root fr Unlock_node s" if "bf_parent fr = None"
      by (rule read [unfolded p]) (use that in \<open>simp_all add: parent_set_def\<close>)
    moreover have "bt_step_ok s R m fr Moved_root fr Split s" if "\<not> (bf_parent fr = None \<and> ?p \<noteq> bt_root s)"
      by (rule read [unfolded p]) (use l that in auto)
    ultimately show ?thesis using p by auto
  next
    assume p: "pc = Lock_leaf"
    then have l: "bf_goal fr = For_insert" "parent_link s R fr" "is_leaf (bt_page s ?p)" "seen_at s ?p ?v (\<not> is_full (bt_page s ?p))" using at by simp_all
    have lv: "bt_live s ?p" "ver_free ?v" using l(4) by (simp_all add: seen_at_def)
    have "bt_step_ok s R m fr Lock_leaf fr Start s" by (rule read [unfolded p]) simp_all
    moreover have "bt_step_ok s R m fr Lock_leaf fr Leaf_parent (set_ver ?p (?v + 2) s)" if v: "bt_ver s ?p = ?v"
    proof (rule lock [unfolded p, OF lv(1) v lv(2)])
      have "case bf_parent fr of None \<Rightarrow> in_rng (R ?p) (bf_key fr) | Some (q, vq) \<Rightarrow> seen_at (set_ver ?p (?v + 2) s) q vq (bt_child_of s R fr q ?p)"
      proof (cases "bf_parent fr")
        case None
        then show ?thesis using l(2) v by (simp add: parent_link_def seen_at_def)
      next
        case (Some qv)
        obtain q vq where qv: "qv = (q, vq)" by (cases qv)
        have sq: "seen_at s q vq (bt_child_of s R fr q ?p)" using parent_link_child [OF l(2)] Some qv by simp
        have "?p \<noteq> q \<or> bt_ver s q \<le> ?v + 2 \<and> ?v + 2 \<noteq> vq"
        proof (cases "?p = q")
          case True
          then have "vq \<le> ?v" using sq v by (simp add: seen_at_def)
          then have "?v + 2 \<noteq> vq" using up [OF lv(1) v] by auto
          then show ?thesis using up(1) [OF lv(1) v] True v by simp
        qed simp
        then show ?thesis using seen_at_set_ver [OF sq] Some qv by simp
      qed
      moreover have "\<not> is_full (bt_page s ?p)" using l(4) v by (simp add: seen_at_def)
      ultimately show "at_place (set_ver ?p (?v + 2) s) R fr Leaf_parent" using l(1,3) by (auto split: option.splits prod.splits)
    qed simp
    ultimately show ?thesis using p upgrade_live [OF lv(1)] by simp
  next
    assume p: "pc = Leaf_parent"
    then have l: "bf_goal fr = For_insert" "is_leaf (bt_page s ?p)" "\<not> is_full (bt_page s ?p)"
      "case bf_parent fr of None \<Rightarrow> in_rng (R ?p) (bf_key fr) | Some (q, vq) \<Rightarrow> seen_at s q vq (bt_child_of s R fr q ?p)" using at by simp_all
    obtain ok where ok: "parent_unchanged fr s = Inr ok" "ok \<Longrightarrow> in_rng (R ?p) (bf_key fr)"
    proof (cases "bf_parent fr")
      case None
      then show thesis using that [of True] l(4) by (simp add: parent_unchanged_def)
    next
      case (Some qv)
      obtain q vq where qv: "qv = (q, vq)" by (cases qv)
      have sq: "bt_live s q" "bt_ver s q = vq \<longrightarrow> bt_child_of s R fr q ?p" using l(4) Some qv by (simp_all add: seen_at_def)
      show thesis
        by (rule that [of "vq = bt_ver s q"]) (use Some qv sq child_of_rng(2) [OF mm(1) sq(1), of fr ?p] in \<open>auto simp: parent_unchanged_def unchanged_live\<close>)
    qed
    have "bt_step_ok s R m fr Leaf_parent fr (Leaf_unlock False) s" by (rule read [unfolded p]) (use l(1) in simp_all)
    moreover have "bt_step_ok s R m fr Leaf_parent fr Leaf_insert s" if "ok" by (rule read [unfolded p]) (use l ok(2) that in simp_all)
    ultimately show ?thesis using p ok(1) by simp
  qed
qed

lemma unlock_steps:
  assumes mem: "bt_mem_ok s R H m" and left: "versions_left s" and pl: "bt_place_ok s R fr pc"
    and pc: "pc = Unlock_node \<or> pc = Unlock_parent \<or> (\<exists>d. pc = Leaf_unlock d)"
  shows "bt_result_ok s R m fr pc (bt_step t torn fr pc s)"
proof -
  note at = pl [unfolded bt_place_ok_def, THEN conjunct1]
  let ?p = "bf_node fr"
  have live: "bt_live s x" if "x \<in> bt_own fr pc" for x using pl that unfolding bt_place_ok_def by blast
  have unlock: "bt_step_ok s R m fr pc fr pc' (set_ver x (bt_ver s x + 2) s)"
    if "x \<in> bt_own fr pc" "at_place (set_ver x (bt_ver s x + 2) s) R fr pc'" "bt_own fr pc' = bt_own fr pc - {x}" "bt_retrying fr pc' \<longrightarrow> bt_retrying fr pc" for x pc'
    by (rule bt_step_unlock [OF mem left pl that(1-3)]) (use that(4) pc in auto)
  show ?thesis
    using pc
  proof (elim disjE exE)
    assume p: "pc = Unlock_node"
    have "bt_step_ok s R m fr Unlock_node fr Unlock_parent (set_ver ?p (bt_ver s ?p + 2) s)"
      by (rule unlock [unfolded p]) (use at p in auto)
    then show ?thesis using p writeUnlock_live [OF live [of ?p]] by simp
  next
    assume p: "pc = Unlock_parent"
    show ?thesis
    proof (cases "bf_parent fr")
      case None
      have "bt_step_ok s R m fr Unlock_parent fr Start s"
        by (rule bt_step_read [OF mem pl [unfolded p]]) (use None in \<open>simp_all add: parent_set_def\<close>)
      then show ?thesis using p None by simp
    next
      case (Some qv)
      obtain q vq where qv: "qv = (q, vq)" by (cases qv)
      have "bt_step_ok s R m fr Unlock_parent fr Start (set_ver q (bt_ver s q + 2) s)"
        by (rule unlock [unfolded p]) (use Some qv in \<open>simp_all add: parent_set_def\<close>)
      then show ?thesis using p Some qv writeUnlock_live [OF live [of q]] by (simp add: parent_set_def)
    qed
  next
    fix d assume p: "pc = Leaf_unlock d"
    have "bt_step_ok s R m fr (Leaf_unlock d) fr (if d then Idle Inserted else Start) (set_ver ?p (bt_ver s ?p + 2) s)"
      by (rule unlock [unfolded p]) (use at p in auto)
    then show ?thesis using p writeUnlock_live [OF live [of ?p]] by simp
  qed
qed

end
