(* ===== verification/Btree_write.thy ===== *)
theory Btree_write
  imports Btree_step
begin

text \<open>
  The steps on the B+-tree that change nodes, the end of a search, and the steps on a thread's own cursor. With those of \<open>Btree_step\<close> they are
  all the steps of a thread.
\<close>

subsection \<open>Splits\<close>

lemma page_split_leaf: "page_split pg = (left, right, sep) \<Longrightarrow> is_leaf left = is_leaf pg \<and> is_leaf right = is_leaf pg"
  by (auto simp: page_split_def leaf_split_def inner_split_def Let_def split: page.splits)

lemma split_sep:
  assumes t: "tree_ok s R H" and p: "bt_live s p" "is_full (bt_page s p)" and sp: "page_split (bt_page s p) = (left, right, sep)"
  shows "in_rng (R p) sep" "snd (R p) \<noteq> Some sep"
proof -
  have "in_rng (R p) sep \<and> snd (R p) \<noteq> Some sep"
  proof (cases "bt_page s p")
    case (BTreeLeaf ks vs)
    have "leaf_ok (fst (R p), snd (R p)) ks vs" using leaf_node(1) [OF t p(1) BTreeLeaf] by simp
    then show ?thesis by (rule leaf_split_ok) (use p(2) sp BTreeLeaf in \<open>simp_all add: is_full_def page_split_def\<close>)
  next
    case (BTreeInner ks cs)
    have "inner_ok (fst (R p), snd (R p)) ks cs" using inner_node(1) [OF t p(1) BTreeInner] by simp
    then show ?thesis by (rule inner_split_ok) (use p(2) sp BTreeInner in \<open>simp_all add: is_full_def page_split_def\<close>)
  qed
  then show "in_rng (R p) sep" "snd (R p) \<noteq> Some sep" by simp_all
qed

lemma new_page_simps:
  assumes "new_page pg s = (a, s')"
  shows "a = bt_fresh s" "bt_live s' x \<longleftrightarrow> x = bt_fresh s \<or> bt_live s x" "bt_page s' x = (if x = bt_fresh s then pg else bt_page s x)"
    "bt_ver s' x = (if x = bt_fresh s then 4 else bt_ver s x)" "bt_fresh s' = Suc (bt_fresh s)" "bt_root s' = bt_root s" "bt_item_next s' = bt_item_next s"
  using assms by (auto simp: new_page_def bt_live_def bt_page_def bt_ver_def)

lemma bt_put_simps:
  "bt_live (bt_put p n s) x \<longleftrightarrow> x = p \<or> bt_live s x" "bt_page (bt_put p n s) x = (if x = p then nb_page n else bt_page s x)"
  "bt_ver (bt_put p n s) x = (if x = p then typeVersionLockObsolete n else bt_ver s x)" "bt_fresh (bt_put p n s) = bt_fresh s"
  "bt_root (bt_put p n s) = bt_root s" "bt_item_next (bt_put p n s) = bt_item_next s"
  by (auto simp: bt_put_def bt_live_def bt_page_def bt_ver_def)

lemma split_node_parent:
  assumes p: "bt_live s (bf_node fr)" "bf_parent fr = Some (q, vq)" and q: "bt_live s q" "q \<noteq> bf_node fr" and new: "\<not> bt_live s (bt_fresh s)"
    and sp: "page_split (bt_page s (bf_node fr)) = (left, right, sep)" and ins: "inner_insert sep (bt_fresh s) (bt_page s q) = Inr pg"
  obtains s' where "split_node fr s = Inr s'" "\<And>x. bt_live s' x \<longleftrightarrow> bt_live s x \<or> x = bt_fresh s" "bt_root s' = bt_root s"
    "bt_fresh s' = Suc (bt_fresh s)" "bt_item_next s' = bt_item_next s" "\<And>x. bt_live s x \<Longrightarrow> bt_ver s' x = bt_ver s x" "bt_ver s' (bt_fresh s) = 4"
    "\<And>x. bt_live s' x \<Longrightarrow> bt_page s' x = (if x = bt_fresh s then right else if x = bf_node fr then left else if x = q then pg else bt_page s x)"
proof -
  obtain s1 where s1: "new_page right s = (bt_fresh s, s1)" by (simp add: new_page_def)
  note n = new_page_simps(2-) [OF s1]
  define s2 where "s2 = bt_put (bf_node fr) \<lparr>typeVersionLockObsolete = bt_ver s (bf_node fr), nb_page = left\<rparr> s1"
  define s3 where "s3 = bt_put q \<lparr>typeVersionLockObsolete = bt_ver s q, nb_page = pg\<rparr> s2"
  have pn: "bf_node fr \<noteq> bt_fresh s" "q \<noteq> bt_fresh s" using p(1) q(1) new by auto
  have live2: "bt_live s2 x \<longleftrightarrow> bt_live s x \<or> x = bt_fresh s" for x using p(1) by (auto simp: s2_def bt_put_simps n)
  have ver2: "bt_ver s2 x = (if x = bt_fresh s then 4 else bt_ver s x)" for x using pn(1) by (simp add: s2_def bt_put_simps n)
  have page2: "bt_page s2 x = (if x = bt_fresh s then right else if x = bf_node fr then left else bt_page s x)" for x
    using pn(1) by (simp add: s2_def bt_put_simps n)
  have m: "bt_node_at q s2 = Inr \<lparr>typeVersionLockObsolete = bt_ver s q, nb_page = bt_page s q\<rparr>"
    using q pn by (simp add: bt_node_at_live live2 ver2 page2)
  have eq: "split_node fr s = Inr s3"
    using m p(2) sp ins by (simp add: split_node_def bt_node_at_live [OF p(1)] s1 flip: s2_def s3_def)
  have live3: "bt_live s3 x \<longleftrightarrow> bt_live s x \<or> x = bt_fresh s" for x using q(1) by (auto simp: s3_def bt_put_simps live2)
  have ver3: "bt_ver s3 x = (if x = bt_fresh s then 4 else bt_ver s x)" for x using pn(2) by (simp add: s3_def bt_put_simps ver2)
  have page3: "bt_page s3 x = (if x = bt_fresh s then right else if x = bf_node fr then left else if x = q then pg else bt_page s x)" for x
    using pn q(2) by (simp add: s3_def bt_put_simps page2)
  show thesis
    by (rule that [OF eq live3 _ _ _ _ _ page3]) (use new pn in \<open>auto simp: s3_def s2_def bt_put_simps n\<close>)
qed

lemma split_node_root:
  assumes p: "bt_live s (bf_node fr)" "bf_parent fr = None" and new: "\<not> bt_live s (bt_fresh s)" "\<not> bt_live s (Suc (bt_fresh s))"
    and sp: "page_split (bt_page s (bf_node fr)) = (left, right, sep)"
  obtains s' where "split_node fr s = Inr s'" "\<And>x. bt_live s' x \<longleftrightarrow> bt_live s x \<or> x = bt_fresh s \<or> x = Suc (bt_fresh s)" "bt_root s' = Suc (bt_fresh s)"
    "bt_fresh s' = Suc (Suc (bt_fresh s))" "bt_item_next s' = bt_item_next s" "\<And>x. bt_live s x \<Longrightarrow> bt_ver s' x = bt_ver s x"
    "bt_ver s' (bt_fresh s) = 4" "bt_ver s' (Suc (bt_fresh s)) = 4"
    "\<And>x. bt_live s' x \<Longrightarrow> bt_page s' x = (if x = Suc (bt_fresh s) then BTreeInner [sep] [bf_node fr, bt_fresh s] else if x = bt_fresh s then right
       else if x = bf_node fr then left else bt_page s x)"
proof -
  obtain s1 where s1: "new_page right s = (bt_fresh s, s1)" by (simp add: new_page_def)
  note n = new_page_simps(2-) [OF s1]
  define s2 where "s2 = bt_put (bf_node fr) \<lparr>typeVersionLockObsolete = bt_ver s (bf_node fr), nb_page = left\<rparr> s1"
  have pn: "bf_node fr \<noteq> bt_fresh s" "bf_node fr \<noteq> Suc (bt_fresh s)" using p(1) new by auto
  have live2: "bt_live s2 x \<longleftrightarrow> bt_live s x \<or> x = bt_fresh s" for x using p(1) by (auto simp: s2_def bt_put_simps n)
  have ver2: "bt_ver s2 x = (if x = bt_fresh s then 4 else bt_ver s x)" for x using pn(1) by (simp add: s2_def bt_put_simps n)
  have page2: "bt_page s2 x = (if x = bt_fresh s then right else if x = bf_node fr then left else bt_page s x)" for x
    using pn(1) by (simp add: s2_def bt_put_simps n)
  have f2: "bt_fresh s2 = Suc (bt_fresh s)" "bt_item_next s2 = bt_item_next s" by (simp_all add: s2_def bt_put_simps n)
  obtain s3 where s3: "new_page (BTreeInner [sep] [bf_node fr, bt_fresh s]) s2 = (Suc (bt_fresh s), s3)" using f2 by (simp add: new_page_def)
  note n3 = new_page_simps(2-) [OF s3, unfolded f2]
  define s4 where "s4 = s3\<lparr>bt_root := Suc (bt_fresh s)\<rparr>"
  have eq: "split_node fr s = Inr s4"
    using p(2) sp s3 by (simp add: split_node_def bt_node_at_live [OF p(1)] s1 s4_def flip: s2_def)
  have live4: "bt_live s4 x \<longleftrightarrow> bt_live s x \<or> x = bt_fresh s \<or> x = Suc (bt_fresh s)" for x
    using n3(1) [of x] live2 [of x] by (auto simp: s4_def bt_live_def)
  have ver4: "bt_ver s4 x = (if x = Suc (bt_fresh s) \<or> x = bt_fresh s then 4 else bt_ver s x)" for x
    using n3(3) [of x] ver2 [of x] by (simp add: s4_def bt_ver_def split: if_splits)
  have page4: "bt_page s4 x = (if x = Suc (bt_fresh s) then BTreeInner [sep] [bf_node fr, bt_fresh s] else if x = bt_fresh s then right
       else if x = bf_node fr then left else bt_page s x)" for x
    using n3(2) [of x] page2 [of x] by (simp add: s4_def bt_page_def)
  have f4: "bt_root s4 = Suc (bt_fresh s)" "bt_fresh s4 = Suc (Suc (bt_fresh s))" "bt_item_next s4 = bt_item_next s" by (simp_all add: s4_def n3)
  show thesis
    by (rule that [OF eq live4 _ _ _ _ _ _ page4]) (use new in \<open>auto simp: ver4 f4\<close>)
qed

lemma split_step:
  assumes mem: "bt_mem_ok s R H m" and pl: "bt_place_ok s R fr Split"
  shows "bt_result_ok s R m fr Split (bt_step t torn fr Split s)"
proof -
  note mm = bt_mem_okD [OF mem] and tr = tree_okD [OF bt_mem_okD(1) [OF mem]] and at = pl [unfolded bt_place_ok_def, THEN conjunct1]
  let ?p = "bf_node fr" and ?new = "bt_fresh s"
  have l: "bf_goal fr = For_insert" "locked_link s R fr" "is_full (bt_page s ?p)" "bf_parent fr = None \<Longrightarrow> ?p = bt_root s" using at by simp_all
  have own: "bt_live s x \<and> ver_held (bt_ver s x)" if "x = ?p \<or> x \<in> parent_set fr" for x using pl that unfolding bt_place_ok_def by auto
  have item: "bt_item_next s (bf_item fr) = None" using pl l(1) by (simp add: bt_place_ok_def)
  have new: "\<not> bt_live s ?new" "\<not> bt_live s (Suc ?new)" using tr(7) by simp_all
  have lp: "bt_live s ?p" using own by blast
  have pn: "?p \<noteq> ?new" using lp new by auto
  obtain left right sep where sp: "page_split (bt_page s ?p) = (left, right, sep)" by (metis prod_cases3)
  note lf = page_split_leaf [OF sp]
  have f4: "ver_free 4" by (simp add: ver_free_def)
  have "\<exists>s'. split_node fr s = Inr s' \<and> bt_step_ok s R m fr Split fr Unlock_node s'"
  proof (cases "bf_parent fr")
    case None
    have root: "bt_root s = ?p" using l(4) [OF None] by simp
    obtain s' where s': "split_node fr s = Inr s'" "\<And>x. bt_live s' x \<longleftrightarrow> bt_live s x \<or> x = ?new \<or> x = Suc ?new" "bt_root s' = Suc ?new"
      "bt_fresh s' = Suc (Suc (bt_fresh s))" "bt_item_next s' = bt_item_next s" "\<And>x. bt_live s x \<Longrightarrow> bt_ver s' x = bt_ver s x"
      "bt_ver s' ?new = 4" "bt_ver s' (Suc ?new) = 4"
      "\<And>x. bt_live s' x \<Longrightarrow> bt_page s' x = (if x = Suc ?new then BTreeInner [sep] [?p, ?new] else if x = ?new then right
       else if x = ?p then left else bt_page s x)"
      by (rule split_node_root [OF lp None new sp]) blast
    let ?R = "(split_rng R ?p ?new sep)(Suc ?new := (None, None))" and ?H = "(split_height H ?p ?new)(Suc ?new := Suc (H ?p))"
    have pr: "?p \<noteq> Suc ?new" using lp new by auto
    have tree: "tree_ok s' ?R ?H" by (rule split_root(1) [OF mm(1) root l(3) sp new(1) refl refl s'(2,3,4,9)]) assumption
    have items: "items_ok s' ?R m"
    proof (rule split_items [OF mm(1,2) lp l(3) new(1) sp s'(5)])
      fix x ks vs assume "bt_live s' x" "x \<noteq> ?p" "x \<noteq> ?new" "bt_page s' x = BTreeLeaf ks vs"
      then show "bt_live s x \<and> bt_page s x = BTreeLeaf ks vs" using s'(2) s'(9) [of x] by (auto split: if_splits)
    next
      fix x assume "bt_live s x" "x \<noteq> ?p"
      then show "?R x = R x" using new by (auto simp: split_rng_def)
    qed (use s'(2) s'(9) [of ?p] s'(9) [of ?new] lp pn pr in \<open>auto simp: split_rng_def\<close>)
    have vf: "bt_live s x \<and> ver_held (bt_ver s x)" if "bt_live s' x" "ver_held (bt_ver s' x)" for x using that s'(2,6,7,8) f4 ver_not_both by metis
    have "bt_mem_ok s' ?R ?H m" using tree items mm(3) s'(2,6,7,8) f4 unfolding bt_mem_ok_def by metis
    moreover have "bt_evolves s R s' ?R (bt_own fr Split) (bt_own_item fr Split)"
      unfolding bt_evolves_def using s'(2,5,6) s'(9) new lf root by (auto simp: split_rng_def)
    moreover have "bt_place_ok s' ?R fr Unlock_node"
      using own s'(2,5,6) item None by (auto simp: bt_place_ok_def parent_set_def)
    ultimately have "bt_step_ok s R m fr Split fr Unlock_node s'" using vf unfolding bt_step_ok_def by (intro exI [of _ ?R] exI [of _ ?H]) (auto simp: bt_after_def bt_own_item_def)
    then show ?thesis using s'(1) by blast
  next
    case (Some qv)
    obtain q vq where qv: "qv = (q, vq)" by (cases qv)
    have c: "bt_child_of s R fr q ?p" using l(2) Some qv by (simp add: locked_link_def)
    have lq: "bt_live s q" using own [of q] Some qv by (simp add: parent_set_def)
    obtain ks cs where pg: "bt_page s q = BTreeInner ks cs" using c not_leaf by (auto simp: bt_child_of_def)
    obtain i where i: "i \<le> length ks" "inner_child (bf_key fr) (BTreeInner ks cs) = Inr (cs ! i)"
      using inner_child_ok [OF mm(1) lq pg] c unfolding bt_child_of_def by metis
    have cp: "cs ! i = ?p" using c i(2) pg by (simp add: bt_child_of_def)
    have room: "length ks < inner_max - 1" using c l(1) pg inner_node(1) [OF mm(1) lq pg] by (auto simp: bt_child_of_def is_full_def inner_ok_def)
    have qp: "q \<noteq> ?p" using inner_node(4) [OF mm(1) lq pg i(1)] cp by auto
    let ?pg = "BTreeInner (insert_at i sep ks) (insert_at (Suc i) ?new cs)" and ?R = "split_rng R ?p ?new sep" and ?H = "split_height H ?p ?new"
    have "child_rng (R q) ks i = R ?p" using inner_node(3) [OF mm(1) lq pg i(1)] cp by simp
    then have ins: "inner_insert sep ?new (bt_page s q) = Inr ?pg"
      using inner_insert_ok(1) [OF inner_node(1) [OF mm(1) lq pg] room i(1)] split_sep [OF mm(1) lp l(3) sp] pg by simp
    obtain s' where s': "split_node fr s = Inr s'" "\<And>x. bt_live s' x \<longleftrightarrow> bt_live s x \<or> x = ?new" "bt_root s' = bt_root s"
      "bt_fresh s' = Suc (bt_fresh s)" "bt_item_next s' = bt_item_next s" "\<And>x. bt_live s x \<Longrightarrow> bt_ver s' x = bt_ver s x" "bt_ver s' ?new = 4"
      "\<And>x. bt_live s' x \<Longrightarrow> bt_page s' x = (if x = ?new then right else if x = ?p then left else if x = q then ?pg else bt_page s x)"
      by (rule split_node_parent [OF lp Some [unfolded qv] lq qp new(1) sp ins]) blast
    have tree: "tree_ok s' ?R ?H" by (rule split_under_parent(1) [OF mm(1) lp l(3) sp lq pg i(1) cp room new(1) refl s'(2,3,4,8)]) assumption
    have items: "items_ok s' ?R m"
    proof (rule split_items [OF mm(1,2) lp l(3) new(1) sp s'(5)])
      fix x ks vs assume "bt_live s' x" "x \<noteq> ?p" "x \<noteq> ?new" "bt_page s' x = BTreeLeaf ks vs"
      then show "bt_live s x \<and> bt_page s x = BTreeLeaf ks vs" using s'(2) s'(8) [of x] by (auto split: if_splits)
    next
      fix x assume "bt_live s x" "x \<noteq> ?p"
      then show "?R x = R x" using new by (auto simp: split_rng_def)
    qed (use s'(2) s'(8) [of ?p] s'(8) [of ?new] lp pn in \<open>auto simp: split_rng_def\<close>)
    have vf: "bt_live s x \<and> ver_held (bt_ver s x)" if "bt_live s' x" "ver_held (bt_ver s' x)" for x using that s'(2,6,7) f4 ver_not_both by metis
    have "bt_mem_ok s' ?R ?H m" using tree items mm(3) s'(2,6,7) f4 unfolding bt_mem_ok_def by metis
    moreover have "bt_evolves s R s' ?R (bt_own fr Split) (bt_own_item fr Split)"
      unfolding bt_evolves_def using s'(2,3,5,6) s'(8) new lf pg Some qv by (auto simp: split_rng_def parent_set_def)
    moreover have "bt_place_ok s' ?R fr Unlock_node"
      using own s'(2,5,6) item qp Some qv by (auto simp: bt_place_ok_def parent_set_def)
    ultimately have "bt_step_ok s R m fr Split fr Unlock_node s'" using vf unfolding bt_step_ok_def by (intro exI [of _ ?R] exI [of _ ?H]) (auto simp: bt_after_def bt_own_item_def)
    then show ?thesis using s'(1) by blast
  qed
  then show ?thesis by auto
qed

subsection \<open>The insert into a leaf\<close>

lemma leaf_insert_step:
  assumes mem: "bt_mem_ok s R H m" and pl: "bt_place_ok s R fr Leaf_insert" and fresh: "bf_item fr \<notin> items_of m"
  shows "bt_result_ok s R m fr Leaf_insert (bt_step t torn fr Leaf_insert s)"
proof -
  note mm = bt_mem_okD [OF mem] and at = pl [unfolded bt_place_ok_def, THEN conjunct1]
  let ?p = "bf_node fr"
  have l: "bf_goal fr = For_insert" "is_leaf (bt_page s ?p)" "\<not> is_full (bt_page s ?p)" "in_rng (R ?p) (bf_key fr)" using at by simp_all
  have own: "bt_live s ?p" "ver_held (bt_ver s ?p)" using pl by (simp_all add: bt_place_ok_def)
  have item: "bt_item_next s (bf_item fr) = None" using pl l(1) by (simp add: bt_place_ok_def)
  obtain ks vs where pg: "bt_page s ?p = BTreeLeaf ks vs" using l(2) leaf_iff by blast
  have lo: "leaf_ok (R ?p) ks vs" by (rule leaf_node(1) [OF mm(1) own(1) pg])
  have room: "length ks < leaf_max" using lo l(3) pg by (simp add: leaf_ok_def is_full_def)
  obtain ks' vs' nx where ins: "leaf_insert (bf_key fr) (bf_item fr) (bt_page s ?p) (bt_item_next s) = Inr (BTreeLeaf ks' vs', nx)"
    and lo': "leaf_ok (R ?p) ks' vs'"
    and items: "\<forall>s'. (\<forall>x. bt_live s' x = bt_live s x) \<and> (\<forall>x. bt_live s x \<longrightarrow> bt_page s' x = (if x = ?p then BTreeLeaf ks' vs' else bt_page s x)) \<and>
      bt_item_next s' = nx \<longrightarrow> items_ok s' R (push_item (bf_key fr) (bf_item fr) m)"
    by (rule insert_items [OF mm(1,2) own(1) pg l(4) room fresh item])
  define s' where "s' = (bt_put ?p \<lparr>typeVersionLockObsolete = bt_ver s ?p, nb_page = BTreeLeaf ks' vs'\<rparr> s)\<lparr>bt_item_next := nx\<rparr>"
  have s': "bt_live s' x = bt_live s x" "bt_ver s' x = bt_ver s x" "bt_page s' x = (if x = ?p then BTreeLeaf ks' vs' else bt_page s x)" for x
    using own(1) by (auto simp: s'_def bt_put_def bt_live_def bt_ver_def bt_page_def)
  have s'': "bt_root s' = bt_root s" "bt_fresh s' = bt_fresh s" "bt_item_next s' = nx" by (simp_all add: s'_def bt_put_simps)
  have st: "bt_step t torn fr Leaf_insert s = Inr (fr, Leaf_unlock True, s')"
    using ins by (simp add: bt_node_at_live [OF own(1)] s'_def)
  have tree: "tree_ok s' R H" by (rule leaf_tree_ok [OF mm(1) own(1) pg lo' s''(1,2) s'(1,3)])
  have nx: "nx j = bt_item_next s j" if "j \<noteq> bf_item fr" for j
    using ins that pg by (auto simp: leaf_insert_def Let_def bindE_eq_Inr split: if_splits)
  have "bt_mem_ok s' R H (push_item (bf_key fr) (bf_item fr) m)"
    using tree items [rule_format, of s'] s' s''(3) mm(3) by (simp add: bt_mem_ok_def)
  moreover have "bt_evolves s R s' R (bt_own fr Leaf_insert) (bt_own_item fr Leaf_insert)"
    using nx l(1,2) s'' by (auto simp: bt_evolves_def s' bt_own_item_def)
  moreover have "bt_place_ok s' R fr (Leaf_unlock True)" using l(1) own by (simp add: bt_place_ok_def s')
  ultimately have "bt_step_ok s R m fr Leaf_insert fr (Leaf_unlock True) s'"
    unfolding bt_step_ok_def by (intro exI [of _ R] exI [of _ H]) (auto simp: bt_after_def bt_commits_def bt_own_item_def s')
  then show ?thesis using st by simp
qed

subsection \<open>The steps on the cursor\<close>

lemma same_tree:
  assumes "bt_heap s' = bt_heap s"
  shows "bt_live s' = bt_live s" "bt_ver s' = bt_ver s" "bt_page s' = bt_page s"
  using assms by (simp_all add: bt_live_def bt_ver_def bt_page_def fun_eq_iff)

lemma bt_step_cursor:
  assumes mem: "bt_mem_ok s R H m" and s': "bt_heap s' = bt_heap s" "bt_root s' = bt_root s" "bt_fresh s' = bt_fresh s" "bt_item_next s' = bt_item_next s"
    and at: "at_place s' R fr' pc'" "bt_own fr' pc' = {}" "\<not> bt_retrying fr' pc'" "\<not> bt_commits pc pc'" "bt_own fr pc = {}"
  shows "bt_step_ok s R m fr pc fr' pc' s'"
proof -
  note st = same_tree [OF s'(1)]
  have "tree_ok s' R H = tree_ok s R H" by (rule tree_ok_cong) (use s' st in simp_all)
  then have "bt_mem_ok s' R H m" using mem s'(4) by (simp add: bt_mem_ok_def items_ok_def st)
  moreover have "bt_evolves s R s' R (bt_own fr pc) (bt_own_item fr pc)" using s' by (simp add: bt_evolves_def st)
  moreover have "bt_place_ok s' R fr' pc'" using at(1-3) by (simp add: bt_place_ok_def)
  ultimately show ?thesis using at(2-5) unfolding bt_step_ok_def by (intro exI [of _ R] exI [of _ H]) (auto simp: bt_after_def bt_own_item_def st)
qed

text \<open>What a search has found when its last check succeeds.\<close>

lemma look_node_seen:
  assumes mem: "bt_mem_ok s R H m" and at: "at_place s R fr (Look_node seen)" and ok: "bt_ver s (bf_node fr) = bf_version fr"
  obtains ks vs where "bt_page s (bf_node fr) = BTreeLeaf ks vs" "bt_live s (bf_node fr)" "leaf_ok (R (bf_node fr)) ks vs" "in_rng (R (bf_node fr)) (bf_key fr)"
    "seen = (if bf_goal fr = For_scan then Seen_entries (take BTREEOLC_SCAN_BATCH (filter (\<lambda>x. bf_key fr \<le> fst x) (zip ks vs)))
         else Seen_item (leaf_map ks vs (bf_key fr)))"
proof -
  note mm = bt_mem_okD [OF mem]
  have l: "bt_live s (bf_node fr)" "in_rng (R (bf_node fr)) (bf_key fr)" "shows_leaf fr (bt_page s (bf_node fr)) seen"
    using at ok by (simp_all add: seen_at_def)
  obtain ks vs where pg: "bt_page s (bf_node fr) = BTreeLeaf ks vs" using l(3) by (cases "bt_page s (bf_node fr)") (auto simp: shows_leaf_def)
  show thesis by (rule that [OF pg l(1) leaf_node(1) [OF mm(1) l(1) pg] l(2)]) (use l(3) pg in \<open>simp add: shows_leaf_def\<close>)
qed

lemma look_node_step:
  assumes mem: "bt_mem_ok s R H m" and pl: "bt_place_ok s R fr (Look_node seen)"
  shows "bt_result_ok s R m fr (Look_node seen) (bt_step t torn fr (Look_node seen) s)"
proof -
  note mm = bt_mem_okD [OF mem] and at = pl [unfolded bt_place_ok_def, THEN conjunct1]
  have lv: "bt_live s (bf_node fr)" and g: "bf_goal fr \<noteq> For_insert" using at by (simp_all add: seen_at_def)
  note un = unchanged_live [OF lv, of "bf_version fr"]
  show ?thesis
  proof (cases "bf_version fr = bt_ver s (bf_node fr)")
    case False
    have "bt_step_ok s R m fr (Look_node seen) fr Start s" by (rule bt_step_cursor [OF mem]) (use g in simp_all)
    then show ?thesis using un False by simp
  next
    case True
    obtain ks vs where f: "bt_page s (bf_node fr) = BTreeLeaf ks vs" "in_rng (R (bf_node fr)) (bf_key fr)"
      "seen = (if bf_goal fr = For_scan then Seen_entries (take BTREEOLC_SCAN_BATCH (filter (\<lambda>x. bf_key fr \<le> fst x) (zip ks vs)))
         else Seen_item (leaf_map ks vs (bf_key fr)))"
      by (rule look_node_seen [OF mem at True [symmetric]]) blast
    have slot: "bt_slot (bt_item_next s) (leaf_map ks vs (bf_key fr)) (m (bf_key fr))" by (rule items_okD [OF mm(2) lv f(1,2)])
    note cur = bt_step_cursor [OF mem]
    show ?thesis
    proof (cases "bf_goal fr")
      case For_scan
      then show ?thesis using f(3) un True by (simp add: finish_look_def) (rule cur; simp)
    next
      case For_exist
      then show ?thesis using f(3) un True slot
        by (cases "leaf_map ks vs (bf_key fr)") (auto simp: finish_look_def bt_result_ok_def bt_slot_def split: option.splits intro!: cur)
    next
      case For_read
      then show ?thesis using f(3) un True slot
        by (cases "leaf_map ks vs (bf_key fr)") (auto simp: finish_look_def bt_result_ok_def bt_slot_def split: option.splits intro!: cur)
    qed (use g in simp)
  qed
qed

lemma cursor_steps:
  assumes mem: "bt_mem_ok s R H m" and pc: "pc = Next_take \<or> (\<exists>b. pc = Next_start b) \<or> (\<exists>x. pc = Idle x)"
  shows "bt_result_ok s R m fr pc (bt_step t torn fr pc s)"
proof -
  note cur = bt_step_cursor [OF mem]
  show ?thesis
    using pc
  proof (elim disjE exE)
    assume p: "pc = Next_take"
    obtain r s1 where tc: "take_cursor t s = (r, s1)" by fastforce
    then have "bt_heap s1 = bt_heap s \<and> bt_root s1 = bt_root s \<and> bt_fresh s1 = bt_fresh s \<and> bt_item_next s1 = bt_item_next s"
      by (auto simp: take_cursor_def Let_def split: if_splits prod.splits)
    then have "bt_step_ok s R m fr pc fr (Idle (Read_result r)) s1" by (intro cur) (simp_all add: p)
    then show ?thesis using p tc by simp
  next
    fix b assume p: "pc = Next_start b"
    then show ?thesis by (auto intro!: cur)
  next
    fix x assume "pc = Idle x"
    then show ?thesis by (auto intro!: cur)
  qed
qed

lemma clear_step:
  assumes mem: "bt_mem_ok s R H m" and pl: "bt_place_ok s R fr Clear_next" and fresh: "bf_item fr \<notin> items_of m"
  shows "bt_result_ok s R m fr Clear_next (bt_step t torn fr Clear_next s)"
proof -
  note mm = bt_mem_okD [OF mem] and at = pl [unfolded bt_place_ok_def, THEN conjunct1]
  let ?s = "s\<lparr>bt_item_next := (bt_item_next s)(bf_item fr := None)\<rparr>"
  have st: "bt_live ?s = bt_live s" "bt_ver ?s = bt_ver s" "bt_page ?s = bt_page s" by (rule same_tree; simp)+
  have "tree_ok ?s R H = tree_ok s R H" by (rule tree_ok_cong) (use st in simp_all)
  moreover have "items_ok ?s R m" using mm(2) bt_slot_other [OF _ fresh] by (simp add: items_ok_def st)
  ultimately have "bt_mem_ok ?s R H m" using mm by (simp add: bt_mem_ok_def st)
  moreover have "bt_evolves s R ?s R (bt_own fr Clear_next) (bt_own_item fr Clear_next)" using at by (simp add: bt_evolves_def st bt_own_item_def)
  moreover have "bt_place_ok ?s R fr Start" by (simp add: bt_place_ok_def)
  ultimately have "bt_step_ok s R m fr Clear_next fr Start ?s" using at unfolding bt_step_ok_def by (intro exI [of _ R] exI [of _ H]) (auto simp: bt_after_def bt_own_item_def st)
  then show ?thesis by simp
qed

subsection \<open>All steps\<close>

theorem bt_step_result:
  assumes mem: "bt_mem_ok s R H m" and left: "versions_left s" and pl: "bt_place_ok s R fr pc" and fresh: "bt_own_item fr pc \<inter> items_of m = {}"
  shows "bt_result_ok s R m fr pc (bt_step t torn fr pc s)"
proof (cases pc)
  case Clear_next
  then show ?thesis using clear_step [OF mem, of fr] pl fresh by (simp add: bt_place_ok_def bt_own_item_def)
next
  case Split
  then show ?thesis using split_step [OF mem] pl by simp
next
  case Leaf_insert
  then show ?thesis using leaf_insert_step [OF mem, of fr] pl fresh by (simp add: bt_place_ok_def bt_own_item_def)
next
  case (Look_node seen)
  then show ?thesis using look_node_step [OF mem] pl by simp
qed (rule search_steps [OF mem pl] lock_steps [OF mem left pl] unlock_steps [OF mem left pl] look_steps [OF mem pl] cursor_steps [OF mem]; simp; fail)+

end
