(* ===== verification/Btree_sys.thy ===== *)
theory Btree_sys
  imports Btree_write
begin

text \<open>
  All threads on the B+-tree together: the invariant of the states that can be reached, and the abstract index as the walk of the tree from
  its root, left to right.
\<close>

subsection \<open>The entries in order\<close>

fun bt_walk :: "nat \<Rightarrow> IndexBTreeOLC \<Rightarrow> nat \<Rightarrow> (idx_key_t \<times> item_ptr) list" where
  "bt_walk 0 s p = []"
| "bt_walk (Suc f) s p = (case bt_page s p of BTreeLeaf ks vs \<Rightarrow> zip ks vs | BTreeInner ks cs \<Rightarrow> concat (map (bt_walk f s) cs))"

definition bt_entries :: "IndexBTreeOLC \<Rightarrow> (idx_key_t \<times> item_ptr) list" where
  "bt_entries s = bt_walk (bt_fresh s) s (bt_root s)"

definition bt_rel :: "IndexBTreeOLC \<Rightarrow> idx_key_t index_spec \<Rightarrow> bool" where
  "bt_rel s m \<longleftrightarrow> (\<forall>k. bt_slot (bt_item_next s) (map_of (bt_entries s) k) (m k))"

lemma sorted_concat:
  assumes "\<forall>xs\<in>set xss. sorted_wrt P xs" "sorted_wrt (\<lambda>xs ys. \<forall>x\<in>set xs. \<forall>y\<in>set ys. P x y) xss"
  shows "sorted_wrt P (concat xss)"
  using assms by (induction xss) (auto simp: sorted_wrt_append)

text \<open>The walk of a node has exactly the entries of the leaves in its range, by increasing keys.\<close>

lemma bt_walk_ok:
  assumes t: "tree_ok s R H" and p: "bt_live s p" "H p < f"
  shows "(\<forall>x\<in>set (bt_walk f s p). in_rng (R p) (fst x)) \<and> sorted_wrt (\<lambda>x y. fst x < fst y) (bt_walk f s p) \<and>
    (\<forall>q ks vs k v. bt_live s q \<longrightarrow> bt_page s q = BTreeLeaf ks vs \<longrightarrow> in_rng (R q) k \<longrightarrow> in_rng (R p) k \<longrightarrow>
      ((k, v) \<in> set (bt_walk f s p) \<longleftrightarrow> (k, v) \<in> set (zip ks vs)))"
  using p
proof (induction f arbitrary: p)
  case (Suc f)
  show ?case
  proof (cases "bt_page s p")
    case (BTreeLeaf ks vs)
    note n = leaf_node [OF t Suc.prems(1) BTreeLeaf]
    have w: "bt_walk (Suc f) s p = zip ks vs" using BTreeLeaf by simp
    have "in_rng (R p) (fst x)" if "x \<in> set (zip ks vs)" for x using n(1) that by (cases x) (auto simp: leaf_ok_def dest: set_zip_leftD)
    moreover have "sorted_wrt (\<lambda>x y. fst x < fst y) (zip ks vs)"
      using n(1) by (auto simp: leaf_ok_def sorted_wrt_iff_nth_less)
    moreover have "q = p" if "bt_live s q" "bt_page s q = BTreeLeaf ks' vs'" "in_rng (R q) k" "in_rng (R p) k" for q ks' vs' k
      using tree_okD(6) [OF t that(1) Suc.prems(1), of k] leaf_node(2) [OF t that(1,2)] n(2) that(3,4) by auto
    ultimately show ?thesis unfolding w using BTreeLeaf by (metis page.inject(1))
  next
    case (BTreeInner ks cs)
    note n = inner_node [OF t Suc.prems(1) BTreeInner]
    have len: "length cs = Suc (length ks)" and srt: "sorted_wrt (<) ks" using n(1) by (simp_all add: inner_ok_def)
    have w: "bt_walk (Suc f) s p = concat (map (bt_walk f s) cs)" using BTreeInner by simp
    have ih: "(\<forall>x\<in>set (bt_walk f s (cs ! i)). in_rng (child_rng (R p) ks i) (fst x)) \<and> sorted_wrt (\<lambda>x y. fst x < fst y) (bt_walk f s (cs ! i)) \<and>
      (\<forall>q ks' vs k v. bt_live s q \<longrightarrow> bt_page s q = BTreeLeaf ks' vs \<longrightarrow> in_rng (R q) k \<longrightarrow> in_rng (child_rng (R p) ks i) k \<longrightarrow>
        ((k, v) \<in> set (bt_walk f s (cs ! i)) \<longleftrightarrow> (k, v) \<in> set (zip ks' vs)))" if "i \<le> length ks" for i
      using Suc.IH [OF n(2) [OF that]] n(3,4) [OF that] Suc.prems(2) by simp
    have mem: "x \<in> set (concat (map (bt_walk f s) cs)) \<longleftrightarrow> (\<exists>i\<le>length ks. x \<in> set (bt_walk f s (cs ! i)))" for x
    proof -
      have "set cs = {cs ! i |i. i \<le> length ks}" using len by (auto simp: set_conv_nth less_Suc_eq_le)
      then show ?thesis by auto
    qed
    have 1: "in_rng (R p) (fst x)" if x: "x \<in> set (concat (map (bt_walk f s) cs))" for x
    proof -
      obtain i where i: "i \<le> length ks" "x \<in> set (bt_walk f s (cs ! i))" using x mem by blast
      then show ?thesis using child_rng_sub(1) [OF n(1) i(1)] ih [OF i(1)] by blast
    qed
    have 2: "sorted_wrt (\<lambda>x y. fst x < fst y) (concat (map (bt_walk f s) cs))"
    proof (rule sorted_concat)
      show "\<forall>xs\<in>set (map (bt_walk f s) cs). sorted_wrt (\<lambda>x y. fst x < fst y) xs"
        using ih len by (auto simp: in_set_conv_nth less_Suc_eq_le)
      have "fst x < fst y" if ij: "i < j" "j \<le> length ks" "x \<in> set (bt_walk f s (cs ! i))" "y \<in> set (bt_walk f s (cs ! j))" for i j x y
      proof -
        have "in_rng (child_rng (R p) ks i) (fst x)" "in_rng (child_rng (R p) ks j) (fst y)" using ih [of i] ih [of j] ij by auto
        then have "fst x \<le> ks ! i" "ks ! (j - 1) < fst y" using ij(1,2) by (auto simp: child_rng_def in_rng_def)
        moreover have "ks ! i \<le> ks ! (j - 1)" using srt ij(1,2) by (cases "i = j - 1") (auto simp: sorted_wrt_nth_less less_imp_le)
        ultimately show ?thesis by (meson le_less_trans)
      qed
      then show "sorted_wrt (\<lambda>xs ys. \<forall>x\<in>set xs. \<forall>y\<in>set ys. fst x < fst y) (map (bt_walk f s) cs)"
        using len by (auto simp: sorted_wrt_iff_nth_less)
    qed
    have 3: "(k, v) \<in> set (concat (map (bt_walk f s) cs)) \<longleftrightarrow> (k, v) \<in> set (zip ks' vs)"
      if q: "bt_live s q" "bt_page s q = BTreeLeaf ks' vs" "in_rng (R q) k" "in_rng (R p) k" for q ks' vs k v
    proof -
      obtain i where i: "i \<le> length ks" "in_rng (child_rng (R p) ks i) k" by (rule inner_child_ok [OF t Suc.prems(1) BTreeInner q(4)]) blast
      have "j = i" if "j \<le> length ks" "(k, v) \<in> set (bt_walk f s (cs ! j))" for j
      proof -
        have "in_rng (child_rng (R p) ks j) k" using ih [OF that(1)] that(2) by fastforce
        then show ?thesis using child_rng_sub(2) [OF n(1)] that(1) i pos_ok_unique by metis
      qed
      then have "(k, v) \<in> set (concat (map (bt_walk f s) cs)) \<longleftrightarrow> (k, v) \<in> set (bt_walk f s (cs ! i))" using mem i(1) by metis
      then show ?thesis using ih [OF i(1)] q i(2) by blast
    qed
    show ?thesis unfolding w using 1 2 3 by blast
  qed
qed simp

lemma bt_leaf_of:
  assumes t: "tree_ok s R H" and p: "bt_live s p" "in_rng (R p) k"
  obtains q ks vs where "bt_live s q" "bt_page s q = BTreeLeaf ks vs" "in_rng (R q) k"
proof -
  have "\<exists>q ks vs. bt_live s q \<and> bt_page s q = BTreeLeaf ks vs \<and> in_rng (R q) k"
    using p
  proof (induction "H p" arbitrary: p rule: less_induct)
    case less
    show ?case
    proof (cases "bt_page s p")
      case (BTreeInner ks cs)
      obtain i where i: "i \<le> length ks" "in_rng (R (cs ! i)) k" by (rule inner_child_ok [OF t less.prems(1) BTreeInner less.prems(2)]) blast
      show ?thesis
        using less.hyps [of "cs ! i"] inner_node(2,4) [OF t less.prems(1) BTreeInner i(1)] i(2) by simp
    qed (use less.prems in blast)
  qed
  then show thesis using that by blast
qed

lemma bt_entries_ok:
  assumes "tree_ok s R H"
  shows "sorted_wrt (<) (map fst (bt_entries s))"
    "\<And>q ks vs k. bt_live s q \<Longrightarrow> bt_page s q = BTreeLeaf ks vs \<Longrightarrow> in_rng (R q) k \<Longrightarrow> map_of (bt_entries s) k = leaf_map ks vs k"
proof -
  note w = bt_walk_ok [OF assms tree_okD(1,8) [OF assms], folded bt_entries_def]
  show s: "sorted_wrt (<) (map fst (bt_entries s))" using w by (simp add: sorted_wrt_map)
  then have d: "distinct (map fst (bt_entries s))" by (simp add: strict_sorted_iff)
  show "map_of (bt_entries s) k = leaf_map ks vs k" if q: "bt_live s q" "bt_page s q = BTreeLeaf ks vs" "in_rng (R q) k" for q ks vs k
  proof -
    have lo: "leaf_ok (R q) ks vs" by (rule leaf_node(1) [OF assms q(1,2)])
    then have d2: "distinct (map fst (zip ks vs))" by (simp add: leaf_ok_def strict_sorted_iff)
    have "(k, v) \<in> set (bt_entries s) \<longleftrightarrow> (k, v) \<in> set (zip ks vs)" for v using w q tree_okD(2) [OF assms] by simp
    then have "map_of (bt_entries s) k = Some v \<longleftrightarrow> leaf_map ks vs k = Some v" for v
      unfolding leaf_map_def by (simp add: map_of_eq_Some_iff [OF d] map_of_eq_Some_iff [OF d2])
    then show ?thesis by (metis not_Some_eq)
  qed
qed

lemma bt_mem_ok_rel:
  assumes "bt_mem_ok s R H m"
  shows "bt_rel s m"
  unfolding bt_rel_def
proof
  fix k
  note mm = bt_mem_okD [OF assms]
  have "in_rng (R (bt_root s)) k" using tree_okD(2) [OF mm(1)] by simp
  then obtain q ks vs where q: "bt_live s q" "bt_page s q = BTreeLeaf ks vs" "in_rng (R q) k" by (rule bt_leaf_of [OF mm(1) tree_okD(1) [OF mm(1)]])
  show "bt_slot (bt_item_next s) (map_of (bt_entries s) k) (m k)"
    unfolding bt_entries_ok(2) [OF mm(1) q] by (rule items_okD [OF mm(2) q])
qed

lemma bt_slot_functional: "bt_slot nx v is \<Longrightarrow> bt_slot nx v js \<Longrightarrow> is = js"
  by (auto simp: bt_slot_def split: option.splits dest: chain_functional)

lemma bt_rel_functional: "bt_rel s m \<Longrightarrow> bt_rel s m' \<Longrightarrow> m = m'"
  unfolding bt_rel_def by (intro ext) (blast intro: bt_slot_functional)

subsection \<open>The threads\<close>

definition by_own :: "bt_sys \<Rightarrow> nat \<Rightarrow> nat set" where
  "by_own s t = bt_own (fst (by_thd s t)) (snd (by_thd s t))"

definition by_item :: "bt_sys \<Rightarrow> nat \<Rightarrow> item_ptr set" where
  "by_item s t = bt_own_item (fst (by_thd s t)) (snd (by_thd s t))"

definition bt_sys_ok :: "bt_sys \<Rightarrow> (nat \<Rightarrow> key_range) \<Rightarrow> (nat \<Rightarrow> nat) \<Rightarrow> idx_key_t index_spec \<Rightarrow> bool" where
  "bt_sys_ok s R H m \<longleftrightarrow> bt_mem_ok (by_mem s) R H m \<and> items_of m \<subseteq> by_used s \<and>
     (\<forall>t. bt_place_ok (by_mem s) R (fst (by_thd s t)) (snd (by_thd s t))) \<and> (\<forall>t. by_item s t \<subseteq> by_used s - items_of m) \<and>
     (\<forall>t u. t \<noteq> u \<longrightarrow> by_own s t \<inter> by_own s u = {}) \<and> (\<forall>t u. t \<noteq> u \<longrightarrow> by_item s t \<inter> by_item s u = {}) \<and>
     (\<forall>x. bt_live (by_mem s) x \<longrightarrow> ver_held (bt_ver (by_mem s) x) \<longrightarrow> (\<exists>t. x \<in> by_own s t))"

lemma bt_sys_okD:
  assumes "bt_sys_ok s R H m"
  shows "bt_mem_ok (by_mem s) R H m" "items_of m \<subseteq> by_used s" "bt_place_ok (by_mem s) R (fst (by_thd s t)) (snd (by_thd s t))"
    "by_item s t \<subseteq> by_used s - items_of m" "t \<noteq> u \<Longrightarrow> by_own s t \<inter> by_own s u = {}" "t \<noteq> u \<Longrightarrow> by_item s t \<inter> by_item s u = {}"
    "bt_live (by_mem s) x \<Longrightarrow> ver_held (bt_ver (by_mem s) x) \<Longrightarrow> \<exists>t. x \<in> by_own s t"
  using assms unfolding bt_sys_ok_def by blast+

lemma bt_sys_ok_step:
  assumes ok: "bt_sys_ok s R H m" and th: "by_thd s t = (fr, pc)" and st: "bt_step_ok (by_mem s) R m fr pc fr' pc' mem'"
  shows "\<exists>R' H'. bt_sys_ok (s\<lparr>by_mem := mem', by_thd := (by_thd s)(t := (fr', pc'))\<rparr>) R' H' (bt_after fr pc pc' m)"
proof -
  note k = bt_sys_okD [OF ok]
  let ?m = "bt_after fr pc pc' m" and ?s = "s\<lparr>by_mem := mem', by_thd := (by_thd s)(t := (fr', pc'))\<rparr>"
  obtain R' H' where n: "bt_mem_ok mem' R' H' ?m" "bt_evolves (by_mem s) R mem' R' (bt_own fr pc) (bt_own_item fr pc)" "bt_place_ok mem' R' fr' pc'"
    "bt_own_item fr' pc' \<subseteq> bt_own_item fr pc" "\<forall>x\<in>bt_own fr' pc' - bt_own fr pc. ver_free (bt_ver (by_mem s) x)"
    "\<forall>x. bt_live mem' x \<longrightarrow> ver_held (bt_ver mem' x) \<longrightarrow> x \<in> bt_own fr' pc' \<or> x \<notin> bt_own fr pc \<and> bt_live (by_mem s) x \<and> ver_held (bt_ver (by_mem s) x)"
    using st unfolding bt_step_ok_def by blast
  have mine: "by_own s t = bt_own fr pc" "by_item s t = bt_own_item fr pc" using th by (simp_all add: by_own_def by_item_def)
  have own': "by_own ?s u = (if u = t then bt_own fr' pc' else by_own s u)" and item': "by_item ?s u = (if u = t then bt_own_item fr' pc' else by_item s u)" for u
    by (simp_all add: by_own_def by_item_def)
  have held: "bt_live (by_mem s) x \<and> ver_held (bt_ver (by_mem s) x)" if "x \<in> by_own s u" for x u using k(3) [of u] that by (auto simp: bt_place_ok_def by_own_def)
  have W: "\<forall>x\<in>bt_own fr pc. ver_held (bt_ver (by_mem s) x)" using held [of _ t] mine(1) by simp
  have com: "bt_commits pc pc' \<Longrightarrow> bt_own_item fr' pc' = {} \<and> bf_item fr \<in> bt_own_item fr pc"
    using k(3) [of t] th by (auto simp: bt_commits_def bt_own_item_def bt_place_ok_def)
  have items: "items_of ?m = (if bt_commits pc pc' then insert (bf_item fr) (items_of m) else items_of m)" by (simp add: bt_after_def)
  have "items_of ?m \<subseteq> by_used s" using items com k(2) k(4) [of t] mine(2) by auto
  moreover have "bt_place_ok mem' R' (fst (by_thd ?s u)) (snd (by_thd ?s u))" for u
  proof (cases "u = t")
    case False
    have "bt_place_ok mem' R' (fst (by_thd s u)) (snd (by_thd s u))"
      using k(5,6) [OF False] mine by (intro bt_evolves_place [OF n(2) W k(3)]) (simp_all add: by_own_def by_item_def)
    then show ?thesis using False by simp
  qed (use n(3) in simp)
  moreover have "by_item ?s u \<subseteq> by_used s - items_of ?m" for u
  proof (cases "bt_commits pc pc'")
    case True
    then show ?thesis using com items item' k(4) [of u] k(6) [of u t] mine by (cases "u = t") auto
  next
    case False
    then show ?thesis using items item' k(4) [of u] n(4) mine by (cases "u = t") auto
  qed
  moreover have "by_own ?s u \<inter> by_own ?s v = {}" if uv: "u \<noteq> v" for u v
  proof -
    have o: "bt_own fr' pc' \<inter> by_own s w = {}" if "w \<noteq> t" for w
      using k(5) [OF that] mine n(5) held [of _ w] ver_not_both by blast
    show ?thesis using o [of u] o [of v] k(5) [OF uv] uv own' by (cases "u = t"; cases "v = t") (auto simp: Int_commute)
  qed
  moreover have "by_item ?s u \<inter> by_item ?s v = {}" if uv: "u \<noteq> v" for u v
  proof -
    have o: "bt_own_item fr' pc' \<inter> by_item s w = {}" if "w \<noteq> t" for w using k(6) [OF that] mine n(4) by blast
    show ?thesis using o [of u] o [of v] k(6) [OF uv] uv item' by (cases "u = t"; cases "v = t") (auto simp: Int_commute)
  qed
  moreover have "\<exists>u. x \<in> by_own ?s u" if x: "bt_live mem' x" "ver_held (bt_ver mem' x)" for x
  proof (cases "x \<in> bt_own fr' pc'")
    case False
    then have "x \<notin> bt_own fr pc" "bt_live (by_mem s) x" "ver_held (bt_ver (by_mem s) x)" using n(6) x by blast+
    moreover from this obtain u where "x \<in> by_own s u" using k(7) by blast
    ultimately show ?thesis using mine own' by metis
  qed (use own' in metis)
  ultimately have "bt_sys_ok ?s R' H' ?m" using n(1) unfolding bt_sys_ok_def by simp
  then show ?thesis by blast
qed

lemma bt_call_places:
  "bt_own (fst (bt_call op)) (snd (bt_call op)) = {}" "bt_own_item (fst (bt_call op)) (snd (bt_call op)) \<subseteq> bt_op_items op"
  "bt_place_ok s R (fst (bt_call op)) (snd (bt_call op))"
  by (cases op; simp add: bt_call_def bt_own_item_def bt_place_ok_def)+

lemma bt_sys_ok_call:
  assumes ok: "bt_sys_ok s R H m" and th: "by_thd s t = (fr, Idle x)" and new: "bt_op_items op \<inter> by_used s = {}"
  shows "bt_sys_ok (s\<lparr>by_thd := (by_thd s)(t := bt_call op), by_used := by_used s \<union> bt_op_items op\<rparr>) R H m"
proof -
  note k = bt_sys_okD [OF ok] and c = bt_call_places [where op = op]
  let ?s = "s\<lparr>by_thd := (by_thd s)(t := bt_call op), by_used := by_used s \<union> bt_op_items op\<rparr>"
  have own': "by_own ?s u = by_own s u" for u using th c(1) by (simp add: by_own_def)
  have item': "by_item ?s u = (if u = t then bt_own_item (fst (bt_call op)) (snd (bt_call op)) else by_item s u)" for u by (simp add: by_item_def)
  have "by_item ?s u \<subseteq> by_used ?s - items_of m" for u using item' c(2) new k(2) k(4) [of u] by auto
  moreover have "by_item ?s u \<inter> by_item ?s v = {}" if "u \<noteq> v" for u v
  proof -
    have o: "bt_own_item (fst (bt_call op)) (snd (bt_call op)) \<inter> by_item s w = {}" for w using c(2) new k(4) [of w] by blast
    show ?thesis using o [of u] o [of v] k(6) [OF that] that item' by (auto simp: Int_commute)
  qed
  ultimately show ?thesis using k(1-3,5,7) own' c(3) unfolding bt_sys_ok_def by auto
qed

lemma bt_trans_ok:
  assumes ok: "bt_sys_ok s R H m" and tr: "bt_trans s t s'"
  shows "\<exists>R' H'. bt_sys_ok s' R' H' (bt_after (fst (by_thd s t)) (snd (by_thd s t)) (snd (by_thd s' t)) m)"
  using tr
proof cases
  case (call fr x op)
  have "\<not> bt_commits (Idle x) pc" for pc by simp
  then show ?thesis using bt_sys_ok_call [OF ok call(2,3)] call(1,2) by (auto simp: bt_after_def)
next
  case (run fr pc torn fr' pc' mem')
  note k = bt_sys_okD [OF ok]
  have pl: "bt_place_ok (by_mem s) R fr pc" "bt_own_item fr pc \<inter> items_of m = {}" using k(3,4) [of t] run(2) by (auto simp: by_item_def)
  from bt_step_result [OF k(1) run(3) pl, of t torn] run(4) have "bt_step_ok (by_mem s) R m fr pc fr' pc' mem'" by simp
  from bt_sys_ok_step [OF ok run(2) this] show ?thesis using run(1,2) by auto
qed

subsection \<open>The start\<close>

lemma bt_mem_ok_init: "bt_mem_ok (bt_init nx) (\<lambda>_. (None, None)) (\<lambda>_. 0) Map.empty"
proof -
  have h: "bt_live (bt_init nx) p \<longleftrightarrow> p = 0" "bt_page (bt_init nx) 0 = BTreeLeaf [] []" "bt_ver (bt_init nx) 0 = 4" "bt_root (bt_init nx) = 0" "bt_fresh (bt_init nx) = 1" for p
    by (simp_all add: bt_init_def new_page_def bt_live_def bt_page_def bt_ver_def)
  show ?thesis by (auto simp: bt_mem_ok_def tree_ok_def items_ok_def bt_node_ok_def h leaf_ok_def bt_slot_def leaf_map_def ver_free_def)
qed

lemma bt_sys_ok_start: "bt_sys_ok (bt_start nx) (\<lambda>_. (None, None)) (\<lambda>_. 0) Map.empty"
proof -
  have "\<not> ver_held (bt_ver (bt_init nx) x)" if "bt_live (bt_init nx) x" for x
    using that by (simp add: bt_init_def new_page_def bt_live_def bt_ver_def ver_held_def split: if_splits)
  then show ?thesis using bt_mem_ok_init [of nx] by (simp add: bt_sys_ok_def bt_start_def items_of_def by_own_def by_item_def bt_own_item_def bt_place_ok_def)
qed

definition bt_move :: "bt_sys \<Rightarrow> bt_sys \<Rightarrow> bool" where
  "bt_move s s' \<longleftrightarrow> (\<exists>t. bt_trans s t s')"

definition bt_inv :: "bt_sys \<Rightarrow> bool" where
  "bt_inv s \<longleftrightarrow> (\<exists>R H m. bt_sys_ok s R H m)"

interpretation bt_system: transition_system "\<lambda>s. \<exists>nx. s = bt_start nx" bt_move bt_inv
proof unfold_locales
  show "bt_inv s" if "\<exists>nx. s = bt_start nx" for s using that bt_sys_ok_start unfolding bt_inv_def by blast
  show "bt_inv s'" if "bt_inv s" "bt_move s s'" for s s' using that bt_trans_ok unfolding bt_inv_def bt_move_def by blast
qed

lemma bt_reached_ok:
  assumes "bt_move\<^sup>*\<^sup>* (bt_start nx) s"
  obtains R H m where "bt_sys_ok s R H m"
  using bt_system.reachable_inv [OF _ assms] unfolding bt_inv_def by blast

lemma bt_reached_rel:
  assumes "bt_move\<^sup>*\<^sup>* (bt_start nx) s" "bt_rel (by_mem s) m"
  obtains R H where "bt_sys_ok s R H m"
  using bt_reached_ok [OF assms(1)] bt_mem_ok_rel [OF bt_sys_okD(1)] bt_rel_functional [OF assms(2)] by metis

end
