(* ===== verification/Btree_props.thy ===== *)
theory Btree_props
  imports Btree_sys
begin

text \<open>What the B+-tree with optimistic lock coupling promises, and concrete runs of it.\<close>

subsection \<open>Runs by a schedule\<close>

lemma node_sizes [code]: "leaf_max = 255" "inner_max = 255"
  by (simp_all add: leaf_max_def inner_max_def pageSize_def)

text \<open>The scheduler lets a thread call an operation or make its next step; a torn read would see the values of \<open>no_torn\<close>.\<close>

definition no_torn :: bt_torn where
  "no_torn = \<lparr>torn_full = False, torn_child = 0, torn_seen = Seen_item None, torn_key = 0\<rparr>"

fun bt_do :: "nat \<Rightarrow> bt_op option \<Rightarrow> bt_sys \<Rightarrow> fault + bt_sys" where
  "bt_do t (Some op) s =
     (case snd (by_thd s t) of
        Idle x \<Rightarrow> bindE (guard Undefined_behaviour (bt_op_items op \<inter> by_used s = {})) (\<lambda>_.
          Inr (s\<lparr>by_thd := (by_thd s)(t := bt_call op), by_used := by_used s \<union> bt_op_items op\<rparr>))
      | _ \<Rightarrow> Inl Undefined_behaviour)"
| "bt_do t None s =
     bindE (guard Undefined_behaviour (versions_left (by_mem s))) (\<lambda>_.
     bindE (bt_step t no_torn (fst (by_thd s t)) (snd (by_thd s t)) (by_mem s)) (\<lambda>(fr, pc, mem).
     Inr (s\<lparr>by_mem := mem, by_thd := (by_thd s)(t := (fr, pc))\<rparr>)))"

fun bt_exec :: "(nat \<times> bt_op option) list \<Rightarrow> bt_sys \<Rightarrow> fault + bt_sys" where
  "bt_exec [] s = Inr s"
| "bt_exec ((t, a) # as) s = bindE (bt_do t a s) (bt_exec as)"

lemma bt_do_trans: "bt_do t a s = Inr s' \<Longrightarrow> bt_trans s t s'"
proof (cases a)
  case (Some op)
  assume "bt_do t a s = Inr s'"
  then show ?thesis using Some bt_trans.call [of s t "fst (by_thd s t)" _ op] by (auto split: bt_pc.splits if_splits simp: prod_eq_iff)
next
  case None
  assume "bt_do t a s = Inr s'"
  then show ?thesis using None bt_trans.run [of s t "fst (by_thd s t)" "snd (by_thd s t)" no_torn] by (auto simp: bindE_eq_Inr split: if_splits)
qed

lemma bt_exec_moves: "bt_exec as s = Inr s' \<Longrightarrow> bt_move\<^sup>*\<^sup>* s s'"
proof (induction as arbitrary: s)
  case (Cons x as)
  obtain t a where x: "x = (t, a)" by (cases x)
  obtain s1 where s1: "bt_do t a s = Inr s1" "bt_exec as s1 = Inr s'" using Cons.prems x by (auto simp: bindE_eq_Inr)
  have "bt_move s s1" using bt_do_trans [OF s1(1)] by (auto simp: bt_move_def)
  then show ?case using Cons.IH [OF s1(2)] by (rule converse_rtranclp_into_rtranclp)
qed simp

abbreviation bt_steps :: "nat \<Rightarrow> nat \<Rightarrow> (nat \<times> bt_op option) list" where
  "bt_steps n t \<equiv> replicate n (t, None)"

definition bt_ran :: "(nat \<times> bt_op option) list \<Rightarrow> bt_sys" where
  "bt_ran as = projr (bt_exec as (bt_start (\<lambda>_. None)))"

lemma bt_ran_reached: "isl (bt_exec as (bt_start (\<lambda>_. None))) = False \<Longrightarrow> bt_move\<^sup>*\<^sup>* (bt_start (\<lambda>_. None)) (bt_ran as)"
  using bt_exec_moves [of as] by (cases "bt_exec as (bt_start (\<lambda>_. None))") (auto simp: bt_ran_def)

lemma bt_exec_snoc: "bt_exec (as @ [(t, a)]) s = bindE (bt_exec as s) (bt_do t a)"
  by (induction as arbitrary: s) (auto simp: bindE_assoc bindE_def split: sum.splits)

lemma bt_ran_trans:
  assumes "\<not> isl (bt_exec (as @ [(t, a)]) (bt_start (\<lambda>_. None)))"
  shows "bt_trans (bt_ran as) t (bt_ran (as @ [(t, a)]))"
  using assms bt_do_trans by (cases "bt_exec as (bt_start (\<lambda>_. None))"; cases "bt_do t a (bt_ran as)") (auto simp: bt_ran_def bt_exec_snoc)

lemma bt_rel_empty: "bt_entries s = [] \<Longrightarrow> bt_rel s Map.empty"
  by (simp add: bt_rel_def bt_slot_def)

lemma bt_rel_single: "bt_entries s = [(k, i)] \<Longrightarrow> bt_item_next s i = None \<Longrightarrow> bt_rel s (push_item k i Map.empty)"
  by (simp add: bt_rel_def bt_slot_def push_item_apply)

text \<open>The insert of an item with key 5 by thread 0 into the empty index, then a read and a scan.\<close>

definition bt_insert5 :: "(nat \<times> bt_op option) list" where
  "bt_insert5 = (0, Some (Op_insert 5 10)) # bt_steps 9 0"

lemma bt_insert5_runs:
  "\<not> isl (bt_exec bt_insert5 (bt_start (\<lambda>_. None)))" "bt_entries (by_mem (bt_ran bt_insert5)) = [(5, 10)]"
  "bt_item_next (by_mem (bt_ran bt_insert5)) 10 = None"
  by code_simp+

text \<open>An operation after it, up to the last check of the leaf.\<close>

definition bt_then :: "bt_op \<Rightarrow> nat \<Rightarrow> (nat \<times> bt_op option) list" where
  "bt_then op n = bt_insert5 @ (0, Some op) # bt_steps n 0"

subsection \<open>The index and its operations\<close>

text \<open>C8: The threads' steps refine the abstract index: a step leaves it as it is, or, when it writes the entry into the locked leaf, it puts the
  item in front of those of its key. Splits and new roots do not change it.\<close>

theorem btree_refines:
  assumes "bt_move\<^sup>*\<^sup>* (bt_start nx) s" "bt_rel (by_mem s) m" "bt_trans s t s'"
  shows "bt_rel (by_mem s') (if snd (by_thd s t) = Leaf_insert \<and> snd (by_thd s' t) = Leaf_unlock True
      then push_item (bf_key (fst (by_thd s t))) (bf_item (fst (by_thd s t))) m else m)"
proof -
  obtain R H where ok: "bt_sys_ok s R H m" by (rule bt_reached_rel [OF assms(1,2)])
  obtain R' H' where "bt_sys_ok s' R' H' (bt_after (fst (by_thd s t)) (snd (by_thd s t)) (snd (by_thd s' t)) m)"
    using bt_trans_ok [OF ok assms(3)] by blast
  from bt_mem_ok_rel [OF bt_sys_okD(1) [OF this]] show ?thesis by (simp add: bt_after_def bt_commits_def)
qed

theorem btree_refines_witness:
  "bt_rel (by_mem (bt_ran (take 9 bt_insert5))) (push_item 5 10 Map.empty)"
proof -
  have r: "bt_move\<^sup>*\<^sup>* (bt_start (\<lambda>_. None)) (bt_ran (take 8 bt_insert5))" by (rule bt_ran_reached) code_simp
  have e: "bt_rel (by_mem (bt_ran (take 8 bt_insert5))) Map.empty" by (rule bt_rel_empty) code_simp
  have "bt_trans (bt_ran (take 8 bt_insert5)) 0 (bt_ran (take 8 bt_insert5 @ [(0, None)]))" by (rule bt_ran_trans) code_simp
  moreover have "take 8 bt_insert5 @ [(0, None)] = take 9 bt_insert5" by (simp add: bt_insert5_def numeral_eq_Suc)
  ultimately have t: "bt_trans (bt_ran (take 8 bt_insert5)) 0 (bt_ran (take 9 bt_insert5))" by simp
  have c: "snd (by_thd (bt_ran (take 8 bt_insert5)) 0) = Leaf_insert \<and> snd (by_thd (bt_ran (take 9 bt_insert5)) 0) = Leaf_unlock True \<and>
    bf_key (fst (by_thd (bt_ran (take 8 bt_insert5)) 0)) = 5 \<and> bf_item (fst (by_thd (bt_ran (take 8 bt_insert5)) 0)) = 10" by code_simp
  show ?thesis using btree_refines [OF r e t] c by simp
qed

text \<open>C11: No step of any thread reads a node that does not exist, overfills one, or fails an assertion, whatever it sees in a node that is being
  changed, with one exception: \<^verbatim>\<open>index_exist\<close> and \<^verbatim>\<open>index_read\<close> of a key the index does not have read the uninitialised \<^verbatim>\<open>success\<close>.\<close>

theorem btree_safe:
  assumes "bt_move\<^sup>*\<^sup>* (bt_start nx) s" "bt_rel (by_mem s) m" "by_thd s t = (fr, pc)" "versions_left (by_mem s)" "bt_step t torn fr pc (by_mem s) = Inl e"
  shows "e = Undefined_behaviour \<and> (\<exists>seen. pc = Look_node seen) \<and> (bf_goal fr = For_exist \<or> bf_goal fr = For_read) \<and> m (bf_key fr) = None"
proof -
  obtain R H where ok: "bt_sys_ok s R H m" by (rule bt_reached_rel [OF assms(1,2)])
  note k = bt_sys_okD [OF ok]
  have "bt_place_ok (by_mem s) R fr pc" "bt_own_item fr pc \<inter> items_of m = {}" using k(3,4) [of t] assms(3) by (auto simp: by_item_def)
  from bt_step_result [OF k(1) assms(4) this, of t torn] assms(5) show ?thesis by (simp add: bt_result_ok_def)
qed

theorem btree_safe_witness:
  "\<exists>seen. snd (by_thd (bt_ran (bt_then (Op_read 6) 6)) 0) = Look_node seen"
proof -
  let ?s = "bt_ran (bt_then (Op_read 6) 6)"
  have r: "bt_move\<^sup>*\<^sup>* (bt_start (\<lambda>_. None)) ?s" by (rule bt_ran_reached) code_simp
  have e: "bt_rel (by_mem ?s) (push_item 5 10 Map.empty)" by (rule bt_rel_single; code_simp)
  have v: "versions_left (by_mem ?s)" by code_simp
  have "case bt_step 0 no_torn (fst (by_thd ?s 0)) (snd (by_thd ?s 0)) (by_mem ?s) of Inl e \<Rightarrow> True | Inr x \<Rightarrow> False" by code_simp
  then obtain e where f: "bt_step 0 no_torn (fst (by_thd ?s 0)) (snd (by_thd ?s 0)) (by_mem ?s) = Inl e" by (auto split: sum.splits)
  show ?thesis using btree_safe [OF r e prod.collapse [symmetric] v f] by simp
qed

text \<open>What the lookups return is what the index has at the moment of their last check: \<^verbatim>\<open>index_exist\<close> answers yes only for a key that is
  there, and \<^verbatim>\<open>index_read\<close> returns the newest item of its key and leaves it, with the key, for \<^verbatim>\<open>index_next\<close>.\<close>

theorem btree_lookups:
  assumes "bt_move\<^sup>*\<^sup>* (bt_start nx) s" "bt_rel (by_mem s) m" "by_thd s t = (fr, Look_node seen)"
    "bt_step t torn fr (Look_node seen) (by_mem s) = Inr (fr', Idle x, mem')"
  shows "(\<exists>i is. m (bf_key fr) = Some (i # is) \<and>
    (x = Exists True \<or> x = Read_result (Some i) \<and> bt_cur_item mem' t = Some i \<and> bt_cur_key mem' t = bf_key fr \<and> sc_entries (bt_cursor mem' t) = []))"
proof -
  obtain R H where ok: "bt_sys_ok s R H m" by (rule bt_reached_rel [OF assms(1,2)])
  note k = bt_sys_okD [OF ok] and mm = bt_mem_okD [OF bt_sys_okD(1) [OF ok]]
  have at: "at_place (by_mem s) R fr (Look_node seen)" using k(3) [of t] assms(3) by (simp add: bt_place_ok_def)
  then have lv: "bt_live (by_mem s) (bf_node fr)" by (simp add: seen_at_def)
  have same: "bt_ver (by_mem s) (bf_node fr) = bf_version fr" and fin: "finish_look t fr seen (by_mem s) = Inr (Idle x, mem')"
    using assms(4) unchanged_live [OF lv, of "bf_version fr"] by (auto simp: bindE_eq_Inr split: if_splits)
  obtain ks vs where f: "bt_page (by_mem s) (bf_node fr) = BTreeLeaf ks vs" "in_rng (R (bf_node fr)) (bf_key fr)"
    "seen = (if bf_goal fr = For_scan then Seen_entries (take BTREEOLC_SCAN_BATCH (filter (\<lambda>x. bf_key fr \<le> fst x) (zip ks vs)))
         else Seen_item (leaf_map ks vs (bf_key fr)))"
    by (rule look_node_seen [OF k(1) at same]) blast
  have slot: "leaf_map ks vs (bf_key fr) = (case m (bf_key fr) of Some (x # _) \<Rightarrow> Some x | _ \<Rightarrow> None)"
    by (rule bt_slot_hd [OF items_okD [OF mm(2) lv f(1,2)]])
  obtain v where v: "leaf_map ks vs (bf_key fr) = Some v" "seen = Seen_item (Some v)"
    using fin f(3) by (auto simp: finish_look_def split: bt_goal.splits option.splits if_splits)
  then obtain js where "m (bf_key fr) = Some (v # js)" using slot by (auto split: option.splits list.splits)
  then show ?thesis using fin v(2) by (auto simp: finish_look_def split: bt_goal.splits)
qed

theorem btree_lookups_witness:
  "\<exists>i is. push_item 5 10 Map.empty (5 :: idx_key_t) = Some (i # is) \<and> bt_cur_item (by_mem (bt_ran (bt_then (Op_read 5) 7))) 0 = Some i"
proof -
  let ?s = "bt_ran (bt_then (Op_read 5) 6)"
  let ?st = "bt_step 0 no_torn (fst (by_thd ?s 0)) (Look_node (Seen_item (Some 10))) (by_mem ?s)"
  have r: "bt_move\<^sup>*\<^sup>* (bt_start (\<lambda>_. None)) ?s" by (rule bt_ran_reached) code_simp
  have e: "bt_rel (by_mem ?s) (push_item 5 10 Map.empty)" by (rule bt_rel_single; code_simp)
  have pc: "snd (by_thd ?s 0) = Look_node (Seen_item (Some 10))" "bf_key (fst (by_thd ?s 0)) = 5" by code_simp+
  have c: "bt_cur_item (by_mem (bt_ran (bt_then (Op_read 5) 7))) 0 = Some 10" by code_simp
  have "case ?st of Inr x \<Rightarrow> fst (snd x) = Idle (Read_result (Some 10)) | Inl e \<Rightarrow> False" by code_simp
  then obtain fr' mem' where st: "?st = Inr (fr', Idle (Read_result (Some 10)), mem')" by (auto split: sum.splits)
  have th: "by_thd ?s 0 = (fst (by_thd ?s 0), Look_node (Seen_item (Some 10)))" using pc(1) by (simp add: prod_eq_iff)
  show ?thesis using btree_lookups [OF r e th st] pc(2) c by auto
qed

lemma sorted_entries_eq:
  assumes "sorted_wrt (\<lambda>x y. fst x < fst y) xs" "sorted_wrt (\<lambda>x y. fst x < fst y) ys" "set xs = set (ys :: ('k :: linorder \<times> 'v) list)"
  shows "xs = ys"
proof -
  have k: "sorted (map fst xs) \<and> distinct (map fst xs)" "sorted (map fst ys) \<and> distinct (map fst ys)"
    using assms(1,2) strict_sorted_iff [of "map fst xs"] strict_sorted_iff [of "map fst ys"] by (simp_all add: sorted_wrt_map)
  have "inj_on fst (set xs \<union> set ys)" using k(1) assms(3) by (simp add: distinct_map)
  then show ?thesis using k assms(3) by (intro map_sorted_distinct_set_unique [of fst]) simp_all
qed

lemma leaf_prefix:
  assumes t: "tree_ok s R H" and q: "bt_live s q" "bt_page s q = BTreeLeaf ks vs" "in_rng (R q) k"
  shows "\<exists>rest. filter (\<lambda>e. k \<le> fst e) (bt_entries s) = filter (\<lambda>e. k \<le> fst e) (zip ks vs) @ rest \<and>
    (filter (\<lambda>e. k \<le> fst e) (zip ks vs) = [] \<longrightarrow> rest = [])"
proof -
  have lo: "leaf_ok (R q) ks vs" by (rule leaf_node(1) [OF t q(1,2)])
  let ?E = "bt_entries s" and ?L = "filter (\<lambda>e. k \<le> fst e) (zip ks vs)"
  let ?V = "filter (\<lambda>e. k \<le> fst e \<and> \<not> in_rng (R q) (fst e)) ?E"
  have w: "sorted_wrt (\<lambda>x y. fst x < fst y) ?E"
    "\<And>k v. in_rng (R q) k \<Longrightarrow> (k, v) \<in> set ?E \<longleftrightarrow> (k, v) \<in> set (zip ks vs)"
    using bt_walk_ok [OF t tree_okD(1,8) [OF t], folded bt_entries_def] q(1,2) tree_okD(2) [OF t] by simp_all
  have sl: "sorted_wrt (\<lambda>x y. fst x < fst y) (zip ks vs)" using lo by (auto simp: leaf_ok_def sorted_wrt_iff_nth_less)
  have inl: "in_rng (R q) (fst x)" if "x \<in> set (zip ks vs)" for x using lo that by (cases x) (auto simp: leaf_ok_def dest: set_zip_leftD)
  have above: "fst x < fst y" if "x \<in> set ?L" "y \<in> set ?V" for x y
    using inl [of x] that q(3) by (auto simp: in_rng_def split: option.splits)
  have s1: "sorted_wrt (\<lambda>x y. fst x < fst y) (?L @ ?V)" using sl w(1) above by (auto simp: sorted_wrt_append sorted_wrt_filter)
  have s2: "sorted_wrt (\<lambda>x y. fst x < fst y) (filter (\<lambda>e. k \<le> fst e) ?E)" using w(1) by (rule sorted_wrt_filter)
  have "set (filter (\<lambda>e. k \<le> fst e) ?E) = set (?L @ ?V)" using w(2) inl by fastforce
  with s1 s2 have e: "filter (\<lambda>e. k \<le> fst e) ?E = ?L @ ?V" by (intro sorted_entries_eq)
  have "?V = []" if none: "?L = []"
  proof (cases "snd (R q)")
    case None
    then show ?thesis using q(3) by (auto simp: filter_empty_conv in_rng_def split: option.splits)
  next
    case (Some h)
    then have "h \<in> set ks" "k \<le> h" using lo q(3) by (auto simp: leaf_ok_def in_rng_def)
    moreover from this obtain i where "i < length ks" "ks ! i = h" by (auto simp: in_set_conv_nth)
    moreover from this have "(h, vs ! i) \<in> set (zip ks vs)" using lo by (auto simp: leaf_ok_def set_zip intro!: exI [of _ i])
    ultimately show ?thesis using none by (auto simp: filter_empty_conv)
  qed
  then show ?thesis using e by blast
qed

text \<open>C25: A scan returns the first entries of the index from its key on, at most 32, without a gap, at the moment of its last check; none only if
  there are no more.\<close>

theorem btree_scan:
  assumes "bt_move\<^sup>*\<^sup>* (bt_start nx) s" "by_thd s t = (fr, Look_node seen)" "bt_step t torn fr (Look_node seen) (by_mem s) = Inr (fr', Next_take, mem')"
  shows "let es = sc_entries (bt_cursor mem' t) in sc_pos (bt_cursor mem' t) = 0 \<and> length es \<le> BTREEOLC_SCAN_BATCH \<and>
    (\<exists>rest. filter (\<lambda>e. bf_key fr \<le> fst e) (bt_entries (by_mem s)) = es @ rest \<and> (es = [] \<longrightarrow> rest = []))"
proof -
  obtain R H m where ok: "bt_sys_ok s R H m" by (rule bt_reached_ok [OF assms(1)])
  note k = bt_sys_okD [OF ok] and mm = bt_mem_okD [OF bt_sys_okD(1) [OF ok]]
  have at: "at_place (by_mem s) R fr (Look_node seen)" using k(3) [of t] assms(2) by (simp add: bt_place_ok_def)
  then have lv: "bt_live (by_mem s) (bf_node fr)" by (simp add: seen_at_def)
  have same: "bt_ver (by_mem s) (bf_node fr) = bf_version fr" and fin: "finish_look t fr seen (by_mem s) = Inr (Next_take, mem')"
    using assms(3) unchanged_live [OF lv, of "bf_version fr"] by (auto simp: bindE_eq_Inr split: if_splits)
  obtain ks vs where f: "bt_page (by_mem s) (bf_node fr) = BTreeLeaf ks vs" "in_rng (R (bf_node fr)) (bf_key fr)"
    "seen = (if bf_goal fr = For_scan then Seen_entries (take BTREEOLC_SCAN_BATCH (filter (\<lambda>x. bf_key fr \<le> fst x) (zip ks vs)))
         else Seen_item (leaf_map ks vs (bf_key fr)))"
    by (rule look_node_seen [OF k(1) at same]) blast
  let ?L = "filter (\<lambda>x. bf_key fr \<le> fst x) (zip ks vs)"
  have es: "bt_cursor mem' t = \<lparr>sc_entries = take BTREEOLC_SCAN_BATCH ?L, sc_pos = 0\<rparr>"
    using fin f(3) by (auto simp: finish_look_def split: bt_goal.splits option.splits if_splits)
  obtain rest where r: "filter (\<lambda>e. bf_key fr \<le> fst e) (bt_entries (by_mem s)) = ?L @ rest" "?L = [] \<Longrightarrow> rest = []"
    using leaf_prefix [OF mm(1) lv f(1,2)] by blast
  define es where "es = take BTREEOLC_SCAN_BATCH ?L"
  define more where "more = drop BTREEOLC_SCAN_BATCH ?L @ rest"
  have "?L @ rest = es @ more" by (simp add: es_def more_def)
  moreover have "es = [] \<longrightarrow> more = []" using r(2) by (auto simp: es_def more_def BTREEOLC_SCAN_BATCH_def simp del: filter_empty_conv)
  moreover have "bt_cursor mem' t = \<lparr>sc_entries = es, sc_pos = 0\<rparr>" "length es \<le> BTREEOLC_SCAN_BATCH" using es by (simp_all add: es_def)
  ultimately show ?thesis unfolding r(1) Let_def by (intro conjI exI [of _ more]) simp_all
qed

theorem btree_scan_witness:
  "\<exists>rest. filter (\<lambda>e. (1 :: idx_key_t) \<le> fst e) [(5, 10 :: nat)] = sc_entries (bt_cursor (by_mem (bt_ran (bt_then (Op_next False) 8))) 0) @ rest"
proof -
  let ?s = "bt_ran (bt_then (Op_next False) 7)"
  let ?st = "bt_step 0 no_torn (fst (by_thd ?s 0)) (Look_node (Seen_entries [(5, 10)])) (by_mem ?s)"
  have r: "bt_move\<^sup>*\<^sup>* (bt_start (\<lambda>_. None)) ?s" by (rule bt_ran_reached) code_simp
  have pc: "snd (by_thd ?s 0) = Look_node (Seen_entries [(5, 10)])" "bf_key (fst (by_thd ?s 0)) = 1" "bt_entries (by_mem ?s) = [(5, 10)]" by code_simp+
  have "case ?st of Inr x \<Rightarrow> fst (snd x) = Next_take \<and> bt_cursor (snd (snd x)) 0 = bt_cursor (by_mem (bt_ran (bt_then (Op_next False) 8))) 0 | Inl e \<Rightarrow> False"
    by code_simp
  then obtain fr' mem' where st: "?st = Inr (fr', Next_take, mem')" "bt_cursor mem' 0 = bt_cursor (by_mem (bt_ran (bt_then (Op_next False) 8))) 0"
    by (auto split: sum.splits)
  have th: "by_thd ?s 0 = (fst (by_thd ?s 0), Look_node (Seen_entries [(5, 10)]))" using pc(1) by (simp add: prod_eq_iff)
  show ?thesis using btree_scan [OF r th st(1)] pc(2,3) st(2) by (auto simp: Let_def)
qed

text \<open>After the largest key \<^verbatim>\<open>index_next\<close> starts at key 0 again: \<^verbatim>\<open>cur_key + 1\<close> wraps around, and the iteration never ends.\<close>

theorem btree_next_wraps:
  assumes "bt_cur_key s t = UINT64_MAX" "next_item t s = None" "sc_pos (bt_cursor s t) \<ge> length (sc_entries (bt_cursor s t))"
  shows "bt_step t torn fr (Next_start False) s = Inr (fr\<lparr>bf_goal := For_scan, bf_key := 0\<rparr>, Start, s)"
  using assms by (simp add: UINT64_MAX_def)

subsection \<open>The tree\<close>

text \<open>A node with all leaves \<open>h\<close> levels below it, and no node over its capacity.\<close>

fun bt_shape :: "nat \<Rightarrow> IndexBTreeOLC \<Rightarrow> nat \<Rightarrow> bool" where
  "bt_shape 0 s p = (case bt_page s p of BTreeLeaf ks vs \<Rightarrow> length vs = length ks \<and> length ks \<le> leaf_max | BTreeInner ks cs \<Rightarrow> False)"
| "bt_shape (Suc h) s p = (case bt_page s p of BTreeLeaf ks vs \<Rightarrow> False
     | BTreeInner ks cs \<Rightarrow> ks \<noteq> [] \<and> length cs = length ks + 1 \<and> length ks < inner_max \<and> (\<forall>c\<in>set cs. bt_live s c \<and> bt_shape h s c))"

lemma bt_shape_ok:
  assumes t: "tree_ok s R H" and p: "bt_live s p"
  shows "bt_shape (H p) s p"
  using p
proof (induction "H p" arbitrary: p)
  case 0
  show ?case
  proof (cases "bt_page s p")
    case (BTreeLeaf ks vs)
    then show ?thesis using leaf_node [OF t 0(2) BTreeLeaf] by (simp add: leaf_ok_def)
  next
    case (BTreeInner ks cs)
    then show ?thesis using inner_node(4) [OF t 0(2) BTreeInner, of 0] 0(1) by simp
  qed
next
  case (Suc h)
  show ?case
  proof (cases "bt_page s p")
    case (BTreeLeaf ks vs)
    then show ?thesis using leaf_node(2) [OF t Suc.prems BTreeLeaf] Suc.hyps(2) by simp
  next
    case (BTreeInner ks cs)
    note n = inner_node [OF t Suc.prems BTreeInner]
    have o: "ks \<noteq> []" "length cs = Suc (length ks)" "length ks < inner_max" using n(1) by (auto simp: inner_ok_def inner_max_def pageSize_def)
    have "bt_live s (cs ! i) \<and> bt_shape h s (cs ! i)" if "i \<le> length ks" for i
    proof -
      have "h = H (cs ! i)" using n(4) [OF that] Suc.hyps(2) by simp
      then show ?thesis using Suc.hyps(1) [of "cs ! i"] n(2) [OF that] by simp
    qed
    then have "\<forall>c\<in>set cs. bt_live s c \<and> bt_shape h s c" using o(2) by (auto simp: in_set_conv_nth less_Suc_eq_le)
    then show ?thesis using o BTreeInner Suc.hyps(2) [symmetric] by simp
  qed
qed

text \<open>C22: The entries of the tree from left to right have increasing keys, the tree is balanced, no node is over its capacity, and every inner
  node has one child more than keys, at all times, splits included.\<close>

theorem btree_ordered:
  assumes "bt_move\<^sup>*\<^sup>* (bt_start nx) s"
  shows "sorted_wrt (<) (map fst (bt_entries (by_mem s))) \<and> (\<exists>h. bt_shape h (by_mem s) (bt_root (by_mem s)))"
proof -
  obtain R H m where ok: "bt_sys_ok s R H m" by (rule bt_reached_ok [OF assms])
  note mm = bt_mem_okD [OF bt_sys_okD(1) [OF ok]]
  show ?thesis using bt_entries_ok(1) [OF mm(1)] bt_shape_ok [OF mm(1) tree_okD(1) [OF mm(1)]] by blast
qed

theorem btree_ordered_witness:
  "sorted_wrt (<) (map fst (bt_entries (by_mem (bt_ran bt_insert5)))) \<and> bt_entries (by_mem (bt_ran bt_insert5)) \<noteq> []"
proof -
  have r: "bt_move\<^sup>*\<^sup>* (bt_start (\<lambda>_. None)) (bt_ran bt_insert5)" by (rule bt_ran_reached) (simp add: bt_insert5_runs(1))
  show ?thesis using btree_ordered [OF r] bt_insert5_runs(2) by simp
qed

text \<open>C23: A node is locked exactly when one thread has locked it and not yet released it, and no node is ever marked obsolete: the locks exclude
  each other, and none is left behind by a restart.\<close>

theorem btree_locks:
  assumes "bt_move\<^sup>*\<^sup>* (bt_start nx) s" "bt_live (by_mem s) p"
  shows "(isLocked (bt_ver (by_mem s) p) \<longleftrightarrow> (\<exists>!t. p \<in> by_own s t)) \<and> \<not> isObsolete (bt_ver (by_mem s) p)"
proof -
  obtain R H m where ok: "bt_sys_ok s R H m" by (rule bt_reached_ok [OF assms(1)])
  note k = bt_sys_okD [OF ok]
  have v: "ver_free (bt_ver (by_mem s) p) \<or> ver_held (bt_ver (by_mem s) p)" using bt_mem_okD(3) [OF k(1) assms(2)] .
  then have l: "isLocked (bt_ver (by_mem s) p) \<longleftrightarrow> ver_held (bt_ver (by_mem s) p)" by (auto simp: isLocked_iff ver_free_def ver_held_def)
  have o: "\<not> isObsolete (bt_ver (by_mem s) p)" using v unfolding isObsolete_iff ver_free_def ver_held_def by presburger
  have "ver_held (bt_ver (by_mem s) p)" if "p \<in> by_own s t" for t using k(3) [of t] that by (auto simp: bt_place_ok_def by_own_def)
  moreover have "t = u" if "p \<in> by_own s t" "p \<in> by_own s u" for t u using k(5) [of t u] that by blast
  ultimately have "ver_held (bt_ver (by_mem s) p) \<longleftrightarrow> (\<exists>!t. p \<in> by_own s t)" using k(7) [OF assms(2)] by metis
  then show ?thesis using l o by simp
qed

theorem btree_locks_witness:
  "\<exists>!t. 0 \<in> by_own (bt_ran (take 8 bt_insert5)) t"
proof -
  have r: "bt_move\<^sup>*\<^sup>* (bt_start (\<lambda>_. None)) (bt_ran (take 8 bt_insert5))" by (rule bt_ran_reached) code_simp
  have l: "bt_live (by_mem (bt_ran (take 8 bt_insert5))) 0" "isLocked (bt_ver (by_mem (bt_ran (take 8 bt_insert5))) 0)"
    unfolding bt_live_def by code_simp+
  show ?thesis using btree_locks [OF r l(1)] l(2) by simp
qed

end
