(* ===== verification/Row_hekaton.thy ===== *)
theory Row_hekaton
  imports Base
begin

text \<open>
  Optimistic multi-version rows, \<^verbatim>\<open>concurrency_control/row_hekaton.cpp\<close>, and their validation,
  \<^verbatim>\<open>concurrency_control/hekaton.cpp\<close>. The versions of a row are a circular buffer from
  \<^verbatim>\<open>_his_oldest\<close> to \<^verbatim>\<open>_his_latest\<close>; the entry after the latest one is the version a writer has
  reserved. While a writer holds the row, the end of the latest version and the begin of the reserved
  one carry its transaction id. Each call runs under the row's latch. The length of the buffer is the
  length of the list.
\<close>

subsection \<open>State\<close>

datatype isolation = SERIALIZABLE | SNAPSHOT | REPEATABLE_READ

definition HK_INF :: ts_t where
  "HK_INF = UINT64_MAX"

record HekEntry =
  hk_begin_txn :: bool
  hk_end_txn :: bool
  hk_begin :: ts_t
  hk_end :: ts_t
  hk_row :: "row_ptr option"

record Row_hekaton =
  his_latest :: nat
  his_oldest :: nat
  hk_history :: "HekEntry list"
  hk_exists_prewrite :: bool

record 'd hk_state =
  hk :: Row_hekaton
  hk_txns :: txn_tab
  hk_data :: "'d row_tab"
  hk_next :: row_ptr

text \<open>\<^verbatim>\<open>_mm_malloc\<close> does not clear the memory: \<open>g i\<close> is what the entry \<open>i\<close> happens to hold.\<close>

definition Row_hekaton_init :: "row_ptr \<Rightarrow> (nat \<Rightarrow> HekEntry) \<Rightarrow> Row_hekaton" where
  "Row_hekaton_init row g =
     \<lparr>his_latest = 0, his_oldest = 0,
      hk_history = (map (\<lambda>i. (g i)\<lparr>hk_row := None\<rparr>) [0..<4])
        [0 := \<lparr>hk_begin_txn = False, hk_end_txn = False, hk_begin = 0, hk_end = HK_INF, hk_row = Some row\<rparr>],
      hk_exists_prewrite = False\<rparr>"

abbreviation his_len :: "Row_hekaton \<Rightarrow> nat" where
  "his_len s \<equiv> length (hk_history s)"

definition cyc_prev :: "nat \<Rightarrow> nat \<Rightarrow> nat" where
  "cyc_prev len i = (if i = 0 then len - 1 else i - 1)"

definition cyc_next :: "nat \<Rightarrow> nat \<Rightarrow> nat" where
  "cyc_next len i = (i + 1) mod len"

subsection \<open>Reserving a version\<close>

definition doubleHistory :: "(nat \<Rightarrow> HekEntry) \<Rightarrow> Row_hekaton \<Rightarrow> Row_hekaton" where
  "doubleHistory g s =
     s\<lparr>hk_history := map (\<lambda>i. hk_history s ! ((his_oldest s + i) mod his_len s)) [0..<his_len s] @
         map (\<lambda>i. (g i)\<lparr>hk_row := None, hk_begin_txn := False, hk_end_txn := False\<rparr>) [0..<his_len s],
       his_oldest := 0, his_latest := his_len s - 1\<rparr>"

text \<open>The loop that drops the versions that ended before the oldest active transaction began. It leaves at the latest
  version by the assertion, so as many rounds as there are entries are enough.\<close>

fun hk_gc :: "nat \<Rightarrow> ts_t \<Rightarrow> Row_hekaton \<Rightarrow> fault + Row_hekaton" where
  "hk_gc 0 min_ts s = Inl Spinning"
| "hk_gc (Suc k) min_ts s =
     (if hk_end (hk_history s ! his_oldest s) < min_ts then
        bindE (assert_that (his_oldest s \<noteq> his_latest s)) (\<lambda>_.
        hk_gc k min_ts (s\<lparr>his_oldest := cyc_next (his_len s) (his_oldest s)\<rparr>))
      else Inr s)"

definition hk_collect :: "ts_t \<Rightarrow> Row_hekaton \<Rightarrow> fault + Row_hekaton" where
  "hk_collect min_ts s =
     (if cyc_next (his_len s) (his_latest s) = his_oldest s \<and> hk_end (hk_history s ! his_oldest s) < min_ts
      then hk_gc (Suc (his_len s)) min_ts s else Inr s)"

definition hk_pick :: "nat \<Rightarrow> (nat \<Rightarrow> HekEntry) \<Rightarrow> Row_hekaton \<Rightarrow> nat \<times> Row_hekaton" where
  "hk_pick g_thread_cnt g s =
     (if cyc_next (his_len s) (his_latest s) \<noteq> his_oldest s then (cyc_next (his_len s) (his_latest s), s)
      else if his_len s < g_thread_cnt then
        (let s' = doubleHistory g s in (cyc_next (his_len s') (his_latest s'), s'))
      else (his_oldest s, s\<lparr>his_oldest := cyc_next (his_len s) (his_oldest s)\<rparr>))"

definition hk_reserveRow ::
  "nat \<Rightarrow> (nat \<Rightarrow> HekEntry) \<Rightarrow> ts_t \<Rightarrow> Row_hekaton \<Rightarrow> row_ptr \<Rightarrow> fault + (nat \<times> Row_hekaton \<times> row_ptr)" where
  "hk_reserveRow g_thread_cnt g min_ts s nxt =
     bindE (hk_collect min_ts s) (\<lambda>s1.
     let (idx, s2) = hk_pick g_thread_cnt g s1; e = hk_history s2 ! idx in
     Inr (case hk_row e of
            Some _ \<Rightarrow> (idx, s2, nxt)
          | None \<Rightarrow> (idx, s2\<lparr>hk_history := (hk_history s2)[idx := e\<lparr>hk_row := Some nxt\<rparr>]\<rparr>, Suc nxt)))"

subsection \<open>Access\<close>

text \<open>The search backwards from the latest version; the buffer has as many entries as there are rounds.\<close>

fun hk_find :: "nat \<Rightarrow> ts_t \<Rightarrow> nat \<Rightarrow> Row_hekaton \<Rightarrow> fault + nat" where
  "hk_find 0 ts i s = Inl Spinning"
| "hk_find (Suc k) ts i s =
     (let i = cyc_prev (his_len s) i; e = hk_history s ! i in
      if hk_begin e < ts then bindE (assert_that (hk_end e > ts)) (\<lambda>_. Inr i)
      else if i = his_oldest s then Inl Assert_failed
      else hk_find k ts i s)"

definition hk_give :: "txn_ptr \<Rightarrow> HekEntry \<Rightarrow> 'd hk_state \<Rightarrow> fault + (RC \<times> 'd hk_state)" where
  "hk_give txn e S =
     (case hk_row e of None \<Rightarrow> Inl Null_deref
      | Some r \<Rightarrow> Inr (RCOK, S\<lparr>hk_txns := (hk_txns S)(txn := (hk_txns S txn)\<lparr>cur_row := r\<rparr>)\<rparr>))"

definition hk_read :: "isolation \<Rightarrow> txn_ptr \<Rightarrow> 'd hk_state \<Rightarrow> fault + (RC \<times> 'd hk_state)" where
  "hk_read lvl txn S =
     (let s = hk S; ts = ts_of (hk_txns S) txn; h = hk_history s in
      if lvl = REPEATABLE_READ then hk_give txn (h ! his_latest s) S
      else if ts < hk_begin (h ! his_oldest s) then Inr (Abort, S)
      else if ts > hk_begin (h ! his_latest s) then hk_give txn (h ! his_latest s) S
      else bindE (hk_find (his_len s) ts (his_latest s) s) (\<lambda>i. hk_give txn (h ! i) S))"

definition hk_prewrite :: "nat \<Rightarrow> (nat \<Rightarrow> HekEntry) \<Rightarrow> ts_t \<Rightarrow> txn_ptr \<Rightarrow> 'd hk_state \<Rightarrow> fault + (RC \<times> 'd hk_state)" where
  "hk_prewrite g_thread_cnt g min_ts txn S =
     (let s = hk S; t = hk_txns S txn in
      if hk_exists_prewrite s \<or> timestamp t < hk_begin (hk_history s ! his_latest s) then Inr (Abort, S)
      else
        bindE (hk_reserveRow g_thread_cnt g min_ts (s\<lparr>hk_exists_prewrite := True\<rparr>) (hk_next S)) (\<lambda>(id, s1, nxt).
        let pre_id = cyc_prev (his_len s1) id;
            h1 = (hk_history s1)[id := (hk_history s1 ! id)\<lparr>hk_begin_txn := True, hk_begin := txn_id t\<rparr>];
            h2 = h1[pre_id := (h1 ! pre_id)\<lparr>hk_end_txn := True, hk_end := txn_id t\<rparr>];
            s2 = s1\<lparr>hk_history := h2\<rparr> in
        case (hk_row (h2 ! id), hk_row (h2 ! his_latest s2)) of
          (Some r, Some l) \<Rightarrow>
            Inr (RCOK, S\<lparr>hk := s2, hk_next := nxt, hk_data := copy_row r l (hk_data S),
                         hk_txns := (hk_txns S)(txn := t\<lparr>cur_row := r\<rparr>)\<rparr>)
        | (None, _) \<Rightarrow> Inl Assert_failed
        | (Some r, None) \<Rightarrow> Inl Null_deref))"

definition hekaton_access ::
  "isolation \<Rightarrow> nat \<Rightarrow> (nat \<Rightarrow> HekEntry) \<Rightarrow> ts_t \<Rightarrow> txn_ptr \<Rightarrow> TsType \<Rightarrow> 'd hk_state \<Rightarrow> fault + (RC \<times> 'd hk_state)" where
  "hekaton_access lvl g_thread_cnt g min_ts txn type S =
     (let l = hk_history (hk S) ! his_latest (hk S) in
      bindE (assert_that (hk_end l = HK_INF \<or> hk_end_txn l)) (\<lambda>_.
      case type of
        R_REQ \<Rightarrow> hk_read lvl txn S
      | P_REQ \<Rightarrow> hk_prewrite g_thread_cnt g min_ts txn S
      | _ \<Rightarrow> Inl Assert_failed))"

subsection \<open>Validation\<close>

fun prepare_scan :: "nat \<Rightarrow> ts_t \<Rightarrow> row_ptr \<Rightarrow> ts_t \<Rightarrow> nat \<Rightarrow> Row_hekaton \<Rightarrow> fault + RC" where
  "prepare_scan 0 ts row commit_ts idx s = Inl Spinning"
| "prepare_scan (Suc k) ts row commit_ts idx s =
     (let e = hk_history s ! idx in
      if hk_row e = Some row then
        Inr (if ts < hk_begin e then Abort
             else if \<not> hk_end_txn e \<and> hk_end e > commit_ts then RCOK
             else if \<not> hk_end_txn e \<and> hk_end e < commit_ts then Abort
             else RCOK)
      else if idx = his_oldest s then Inr Abort
      else prepare_scan k ts row commit_ts (cyc_prev (his_len s) idx) s)"

definition prepare_read :: "ts_t \<Rightarrow> row_ptr \<Rightarrow> ts_t \<Rightarrow> Row_hekaton \<Rightarrow> fault + RC" where
  "prepare_read ts row commit_ts s = prepare_scan (his_len s) ts row commit_ts (his_latest s) s"

definition post_process :: "txnid_t \<Rightarrow> ts_t \<Rightarrow> RC \<Rightarrow> Row_hekaton \<Rightarrow> fault + Row_hekaton" where
  "post_process txnid commit_ts rc s =
     (let l = his_latest s; n = cyc_next (his_len s) l; h = hk_history s; entry = h ! n in
      bindE (assert_that (hk_begin_txn entry \<and> hk_begin entry = txnid)) (\<lambda>_.
      let h1 = h[l := (h ! l)\<lparr>hk_end_txn := False\<rparr>] in
      if rc = RCOK then
        bindE (assert_that (commit_ts > hk_begin (h1 ! l))) (\<lambda>_.
        let h2 = h1[l := (h1 ! l)\<lparr>hk_end := commit_ts\<rparr>];
            h3 = h2[n := (h2 ! n)\<lparr>hk_begin := commit_ts, hk_end := HK_INF\<rparr>] in
        bindE (assert_that (n \<noteq> his_oldest s)) (\<lambda>_.
        Inr (s\<lparr>hk_history := h3, hk_exists_prewrite := False, his_latest := n\<rparr>)))
      else Inr (s\<lparr>hk_history := h1[l := (h1 ! l)\<lparr>hk_end := HK_INF\<rparr>], hk_exists_prewrite := False\<rparr>)))"

text \<open>The accesses of a transaction: type, row, and the version it was given.\<close>

record hk_acc =
  ha_type :: access_t
  ha_orig :: row_ptr
  ha_data :: row_ptr

fun hk_validate_reads :: "ts_t \<Rightarrow> ts_t \<Rightarrow> hk_acc list \<Rightarrow> (row_ptr \<Rightarrow> Row_hekaton) \<Rightarrow> RC \<Rightarrow> fault + RC" where
  "hk_validate_reads ts commit_ts [] M rc = Inr rc"
| "hk_validate_reads ts commit_ts (a # as) M rc =
     (if ha_type a = WR then hk_validate_reads ts commit_ts as M rc
      else bindE (prepare_read ts (ha_data a) commit_ts (M (ha_orig a))) (\<lambda>rc'.
           if rc' = Abort then Inr rc' else hk_validate_reads ts commit_ts as M rc'))"

fun hk_post :: "txnid_t \<Rightarrow> ts_t \<Rightarrow> RC \<Rightarrow> hk_acc list \<Rightarrow> (row_ptr \<Rightarrow> Row_hekaton) \<Rightarrow> fault + (row_ptr \<Rightarrow> Row_hekaton)" where
  "hk_post txnid commit_ts rc [] M = Inr M"
| "hk_post txnid commit_ts rc (a # as) M =
     (if ha_type a = RD then hk_post txnid commit_ts rc as M
      else bindE (post_process txnid commit_ts rc (M (ha_orig a))) (\<lambda>s.
           hk_post txnid commit_ts rc as (M(ha_orig a := s))))"

definition validate_hekaton ::
  "isolation \<Rightarrow> txn_man \<Rightarrow> ts_t \<Rightarrow> RC \<Rightarrow> hk_acc list \<Rightarrow> (row_ptr \<Rightarrow> Row_hekaton) \<Rightarrow> fault + (RC \<times> (row_ptr \<Rightarrow> Row_hekaton))" where
  "validate_hekaton lvl t commit_ts rc accs M =
     bindE (if lvl = SERIALIZABLE \<and> rc = RCOK then hk_validate_reads (timestamp t) commit_ts accs M rc else Inr rc) (\<lambda>rc'.
     bindE (hk_post (txn_id t) commit_ts rc' accs M) (\<lambda>M'. Inr (rc', M')))"

subsection \<open>The circular buffer\<close>

text \<open>The entries are counted from the oldest one: entry \<open>j\<close> of the window is at index \<open>cyc s j\<close>, and \<open>hk_cnt s\<close> is
  the number of the latest one.\<close>

definition cyc :: "Row_hekaton \<Rightarrow> nat \<Rightarrow> nat" where
  "cyc s j = (his_oldest s + j) mod his_len s"

definition hk_cnt :: "Row_hekaton \<Rightarrow> nat" where
  "hk_cnt s = (his_latest s + his_len s - his_oldest s) mod his_len s"

abbreviation ver :: "Row_hekaton \<Rightarrow> nat \<Rightarrow> HekEntry" where
  "ver s j \<equiv> hk_history s ! cyc s j"

definition hk_bounds :: "Row_hekaton \<Rightarrow> bool" where
  "hk_bounds s \<longleftrightarrow> 2 \<le> his_len s \<and> his_oldest s < his_len s \<and> his_latest s < his_len s"

lemma hk_nonempty: "hk_bounds s \<Longrightarrow> hk_history s \<noteq> []"
  by (auto simp: hk_bounds_def)

lemma cyc_less: "hk_bounds s \<Longrightarrow> cyc s j < his_len s"
  using hk_nonempty [of s] by (simp add: cyc_def)

lemma cyc_0 [simp]: "hk_bounds s \<Longrightarrow> cyc s 0 = his_oldest s"
  by (simp add: hk_bounds_def cyc_def)

lemma hk_cnt_less: "hk_bounds s \<Longrightarrow> hk_cnt s < his_len s"
  using hk_nonempty [of s] by (simp add: hk_cnt_def)

lemma cyc_cnt: "hk_bounds s \<Longrightarrow> cyc s (hk_cnt s) = his_latest s"
  by (simp add: hk_bounds_def hk_cnt_def cyc_def mod_add_right_eq)

lemma cyc_inj:
  assumes "hk_bounds s" "i < his_len s" "j < his_len s" "cyc s i = cyc s j"
  shows "i = j"
proof -
  let ?n = "his_len s" and ?o = "his_oldest s"
  have o: "?o < ?n" using assms(1) by (simp add: hk_bounds_def)
  have "(?o + k) mod ?n = (if ?o + k < ?n then ?o + k else ?o + k - ?n)" if "k < ?n" for k
    using o that by (simp add: mod_if)
  then show ?thesis using assms(2-4) unfolding cyc_def by (auto split: if_splits)
qed

lemma hk_cnt_unique: "hk_bounds s \<Longrightarrow> k < his_len s \<Longrightarrow> cyc s k = his_latest s \<Longrightarrow> hk_cnt s = k"
  using cyc_inj [of s "hk_cnt s" k] hk_cnt_less cyc_cnt by simp

lemma cyc_Suc: "hk_bounds s \<Longrightarrow> cyc_next (his_len s) (cyc s j) = cyc s (Suc j)"
  by (simp add: cyc_next_def cyc_def mod_Suc_eq)

lemma cyc_prev_Suc:
  assumes "hk_bounds s"
  shows "cyc_prev (his_len s) (cyc s (Suc j)) = cyc s j"
proof -
  have "cyc s j < his_len s" by (rule cyc_less [OF assms])
  moreover have "cyc s (Suc j) = (if Suc (cyc s j) = his_len s then 0 else Suc (cyc s j))"
    by (simp add: cyc_def mod_Suc)
  ultimately show ?thesis unfolding cyc_prev_def by (auto split: if_splits)
qed

lemma cyc_next_latest: "hk_bounds s \<Longrightarrow> cyc_next (his_len s) (his_latest s) = cyc s (Suc (hk_cnt s))"
  using cyc_Suc [of s "hk_cnt s"] by (simp add: cyc_cnt)

lemma hk_full: "hk_bounds s \<Longrightarrow> cyc_next (his_len s) (his_latest s) = his_oldest s \<longleftrightarrow> Suc (hk_cnt s) = his_len s"
proof -
  assume b: "hk_bounds s"
  have "cyc s (his_len s) = his_oldest s" using b by (simp add: cyc_def hk_bounds_def)
  moreover have "cyc s (Suc (hk_cnt s)) = cyc s 0 \<Longrightarrow> Suc (hk_cnt s) < his_len s \<Longrightarrow> False"
    using cyc_inj [OF b, of "Suc (hk_cnt s)" 0] hk_nonempty [OF b] by auto
  ultimately show ?thesis using hk_cnt_less [OF b] b by (metis Suc_lessI cyc_0 cyc_next_latest)
qed

lemma hk_upd_simps [simp]:
  "length h = his_len s \<Longrightarrow> cyc (s\<lparr>hk_history := h\<rparr>) = cyc s"
  "length h = his_len s \<Longrightarrow> hk_cnt (s\<lparr>hk_history := h\<rparr>) = hk_cnt s"
  "length h = his_len s \<Longrightarrow> hk_bounds (s\<lparr>hk_history := h\<rparr>) = hk_bounds s"
  "cyc (s\<lparr>hk_exists_prewrite := b\<rparr>) = cyc s"
  "hk_cnt (s\<lparr>hk_exists_prewrite := b\<rparr>) = hk_cnt s"
  "hk_bounds (s\<lparr>hk_exists_prewrite := b\<rparr>) = hk_bounds s"
  "cyc (s\<lparr>his_latest := l\<rparr>) = cyc s"
  by (simp_all add: cyc_def hk_cnt_def hk_bounds_def fun_eq_iff)

subsection \<open>The invariant\<close>

text \<open>Each version ends where the next one begins, in the order of time, and no two entries share a buffer.\<close>

definition hk_chain :: "Row_hekaton \<Rightarrow> bool" where
  "hk_chain s \<longleftrightarrow>
     (\<forall>j\<le>hk_cnt s. hk_row (ver s j) \<noteq> None) \<and>
     (\<forall>j<hk_cnt s. \<not> hk_end_txn (ver s j) \<and> hk_end (ver s j) = hk_begin (ver s (Suc j)) \<and>
        hk_begin (ver s j) < hk_begin (ver s (Suc j)))"

definition hk_rows_ok :: "row_ptr \<Rightarrow> HekEntry list \<Rightarrow> bool" where
  "hk_rows_ok nxt h \<longleftrightarrow> (\<forall>i<length h. \<forall>r. hk_row (h ! i) = Some r \<longrightarrow> r < nxt \<and>
     (\<forall>j<length h. hk_row (h ! j) = Some r \<longrightarrow> i = j))"

definition hk_core :: "row_ptr \<Rightarrow> Row_hekaton \<Rightarrow> bool" where
  "hk_core nxt s \<longleftrightarrow> hk_bounds s \<and> hk_chain s \<and> hk_rows_ok nxt (hk_history s)"

definition hk_latest :: "Row_hekaton \<Rightarrow> HekEntry" where
  "hk_latest s = hk_history s ! his_latest s"

definition hk_reserved :: "Row_hekaton \<Rightarrow> HekEntry" where
  "hk_reserved s = hk_history s ! cyc_next (his_len s) (his_latest s)"

definition hk_inv :: "row_ptr \<Rightarrow> Row_hekaton \<Rightarrow> bool" where
  "hk_inv nxt s \<longleftrightarrow> hk_core nxt s \<and>
     (if hk_exists_prewrite s then
        Suc (hk_cnt s) < his_len s \<and> hk_end_txn (hk_latest s) \<and> hk_begin_txn (hk_reserved s) \<and> hk_row (hk_reserved s) \<noteq> None
      else hk_end (hk_latest s) = HK_INF)"

lemma hk_inv_init: "row < nxt \<Longrightarrow> hk_inv nxt (Row_hekaton_init row g)"
proof -
  assume "row < nxt"
  let ?s = "Row_hekaton_init row g"
  have b: "hk_bounds ?s" "hk_cnt ?s = 0" by (simp_all add: hk_bounds_def hk_cnt_def Row_hekaton_init_def)
  have "hk_rows_ok nxt (hk_history ?s)"
    using \<open>row < nxt\<close> by (auto simp: hk_rows_ok_def Row_hekaton_init_def nth_list_update split: if_splits)
  moreover have "hk_chain ?s" using b by (simp add: hk_chain_def) (simp add: Row_hekaton_init_def)
  ultimately show ?thesis using b by (simp add: hk_inv_def hk_core_def hk_latest_def) (simp add: Row_hekaton_init_def)
qed

text \<open>Dropping the oldest version.\<close>

definition drop_oldest :: "Row_hekaton \<Rightarrow> Row_hekaton" where
  "drop_oldest s = s\<lparr>his_oldest := cyc_next (his_len s) (his_oldest s)\<rparr>"

lemma drop_oldest_simps [simp]:
  "hk_history (drop_oldest s) = hk_history s" "his_latest (drop_oldest s) = his_latest s"
  "hk_exists_prewrite (drop_oldest s) = hk_exists_prewrite s" "hk_latest (drop_oldest s) = hk_latest s"
  by (simp_all add: drop_oldest_def hk_latest_def)

lemma drop_oldest_core:
  assumes core: "hk_core nxt s" and ne: "his_oldest s \<noteq> his_latest s"
  shows "hk_core nxt (drop_oldest s)" "Suc (hk_cnt (drop_oldest s)) = hk_cnt s"
proof -
  let ?s = "drop_oldest s"
  have b: "hk_bounds s" using core by (simp add: hk_core_def)
  have b': "hk_bounds ?s" using b hk_nonempty [OF b] by (simp add: hk_bounds_def drop_oldest_def cyc_next_def)
  have cyc: "cyc ?s j = cyc s (Suc j)" for j
    by (simp add: cyc_def drop_oldest_def cyc_next_def mod_add_left_eq)
  have pos: "0 < hk_cnt s" using ne cyc_cnt [OF b] cyc_0 [OF b] by (metis gr0I)
  have "cyc ?s (hk_cnt s - 1) = his_latest ?s" using pos cyc_cnt [OF b] by (simp add: cyc)
  then have cnt: "hk_cnt ?s = hk_cnt s - 1"
    using hk_cnt_less [OF b] by (intro hk_cnt_unique [OF b']) simp_all
  then show "Suc (hk_cnt ?s) = hk_cnt s" using pos by simp
  have "hk_chain ?s" using core pos unfolding hk_core_def hk_chain_def cyc cnt by auto
  then show "hk_core nxt ?s" using core b' by (simp add: hk_core_def)
qed

lemma hk_gc_ok:
  assumes "hk_core nxt s" "hk_end (hk_latest s) = HK_INF" "hk_cnt s < k"
  shows "\<exists>s'. hk_gc k m s = Inr s' \<and> hk_core nxt s' \<and> hk_history s' = hk_history s \<and> his_latest s' = his_latest s \<and>
     hk_exists_prewrite s' = hk_exists_prewrite s"
  using assms
proof (induction k arbitrary: s)
  case (Suc k)
  show ?case
  proof (cases "hk_end (hk_history s ! his_oldest s) < m")
    case True
    then have ne: "his_oldest s \<noteq> his_latest s" using Suc.prems(2) by (auto simp: hk_latest_def HK_INF_def)
    note d = drop_oldest_core [OF Suc.prems(1) ne]
    have "hk_gc (Suc k) m s = hk_gc k m (drop_oldest s)" using True ne by (simp add: drop_oldest_def)
    then show ?thesis using Suc.IH [OF d(1)] Suc.prems(2,3) d(2) by simp
  qed (use Suc.prems in simp)
qed simp

text \<open>What \<^verbatim>\<open>reserveRow\<close> promises: the entry after the latest one is free and has a buffer.\<close>

definition hk_room :: "row_ptr \<Rightarrow> Row_hekaton \<Rightarrow> Row_hekaton \<Rightarrow> nat \<Rightarrow> bool" where
  "hk_room nxt s s' idx \<longleftrightarrow> hk_core nxt s' \<and> Suc (hk_cnt s') < his_len s' \<and> idx = cyc_next (his_len s') (his_latest s') \<and>
     hk_latest s' = hk_latest s \<and> hk_exists_prewrite s' = hk_exists_prewrite s"

lemma doubleHistory_core:
  assumes core: "hk_core nxt s" and full: "Suc (hk_cnt s) = his_len s"
  shows "hk_core nxt (doubleHistory g s)" "Suc (hk_cnt (doubleHistory g s)) < his_len (doubleHistory g s)"
    "hk_latest (doubleHistory g s) = hk_latest s"
proof -
  let ?s = "doubleHistory g s" and ?n = "his_len s"
  have b: "hk_bounds s" using core by (simp add: hk_core_def)
  have h: "his_oldest ?s = 0" "his_latest ?s = ?n - 1" "his_len ?s = ?n + ?n"
    "\<And>i. i < ?n \<Longrightarrow> hk_history ?s ! i = ver s i"
    "\<And>i. ?n \<le> i \<Longrightarrow> i < ?n + ?n \<Longrightarrow> hk_row (hk_history ?s ! i) = None"
    by (simp_all add: doubleHistory_def nth_append cyc_def)
  have b': "hk_bounds ?s" using b h(1-3) by (auto simp: hk_bounds_def)
  have cyc: "cyc ?s j = j" if "j < ?n + ?n" for j using that h by (simp add: cyc_def)
  have cnt: "hk_cnt ?s = hk_cnt s" using full h(2,3) cyc [of "hk_cnt s"] by (intro hk_cnt_unique [OF b']) auto
  have v: "ver ?s j = ver s j" if "j \<le> hk_cnt s" for j using that full cyc [of j] h(4) [of j] by simp
  have "hk_chain ?s" using core v unfolding hk_core_def hk_chain_def cnt by simp
  moreover have "hk_rows_ok nxt (hk_history ?s)"
    unfolding hk_rows_ok_def
  proof (intro allI impI conjI)
    fix i r assume i: "i < his_len ?s" "hk_row (hk_history ?s ! i) = Some r"
    then have i': "i < ?n" "hk_row (ver s i) = Some r" using h(3) h(4) [of i] h(5) [of i] by (force simp: not_le [symmetric])+
    have R: "hk_rows_ok nxt (hk_history s)" using core by (simp add: hk_core_def)
    show "r < nxt" using R i' cyc_less [OF b, of i] unfolding hk_rows_ok_def by blast
    fix j assume j: "j < his_len ?s" "hk_row (hk_history ?s ! j) = Some r"
    then have j': "j < ?n" "hk_row (ver s j) = Some r" using h(3) h(4) [of j] h(5) [of j] by (force simp: not_le [symmetric])+
    have "cyc s i = cyc s j" using R i' j' cyc_less [OF b] unfolding hk_rows_ok_def by blast
    then show "i = j" using cyc_inj [OF b i'(1) j'(1)] by blast
  qed
  ultimately show "hk_core nxt ?s" using b' by (simp add: hk_core_def)
  show "Suc (hk_cnt ?s) < his_len ?s" using cnt full h(3) hk_nonempty [OF b] by simp
  show "hk_latest ?s = hk_latest s"
    unfolding hk_latest_def using h(2) h(4) [of "hk_cnt s"] full cyc_cnt [OF b] by (metis diff_Suc_1 lessI)
qed

lemma hk_pick_ok:
  assumes core: "hk_core nxt s"
  shows "\<exists>idx s'. hk_pick n g s = (idx, s') \<and> hk_room nxt s s' idx"
proof -
  have b: "hk_bounds s" using core by (simp add: hk_core_def)
  note full = hk_full [OF b]
  consider "cyc_next (his_len s) (his_latest s) \<noteq> his_oldest s"
    | "cyc_next (his_len s) (his_latest s) = his_oldest s" "his_len s < n"
    | "cyc_next (his_len s) (his_latest s) = his_oldest s" "\<not> his_len s < n" by blast
  then show ?thesis
  proof cases
    case 1
    then have "Suc (hk_cnt s) < his_len s" using full hk_cnt_less [OF b] by simp
    then show ?thesis using 1 core by (simp add: hk_pick_def hk_room_def)
  next
    case 2
    note d = doubleHistory_core [OF core full [THEN iffD1, OF 2(1)], of g]
    then show ?thesis using 2 by (simp add: hk_pick_def hk_room_def Let_def) (simp add: doubleHistory_def)
  next
    case 3
    have ne: "his_oldest s \<noteq> his_latest s"
    proof
      assume eq: "his_oldest s = his_latest s"
      then have "hk_cnt s = 0" using hk_cnt_unique [OF b, of 0] cyc_0 [OF b] hk_nonempty [OF b] by simp
      then show False using full 3(1) b by (simp add: hk_bounds_def)
    qed
    note d = drop_oldest_core [OF core ne]
    have "hk_pick n g s = (cyc_next (his_len s) (his_latest s), drop_oldest s)"
      using 3 by (simp add: hk_pick_def drop_oldest_def)
    moreover have "Suc (hk_cnt (drop_oldest s)) < his_len s" using d(2) full 3(1) by simp
    ultimately show ?thesis using d(1) by (simp add: hk_room_def)
  qed
qed

lemma ver_update_other:
  assumes "hk_bounds s" "Suc (hk_cnt s) < his_len s" "j \<le> hk_cnt s"
  shows "((hk_history s)[cyc_next (his_len s) (his_latest s) := e]) ! cyc s j = ver s j"
    "cyc_next (his_len s) (his_latest s) \<noteq> cyc s j" "cyc_next (his_len s) (his_latest s) < his_len s"
proof -
  show ne: "cyc_next (his_len s) (his_latest s) \<noteq> cyc s j"
    using cyc_inj [OF assms(1,2), of j] assms(2,3) cyc_next_latest [OF assms(1)] by auto
  then show "((hk_history s)[cyc_next (his_len s) (his_latest s) := e]) ! cyc s j = ver s j" by simp
  show "cyc_next (his_len s) (his_latest s) < his_len s" using cyc_less [OF assms(1)] cyc_next_latest [OF assms(1)] by simp
qed

lemma hk_core_update:
  assumes core: "hk_core nxt s" and room: "Suc (hk_cnt s) < his_len s"
    and rows: "hk_row e = hk_row (hk_reserved s) \<and> nxt' = nxt \<or> hk_row e = Some nxt \<and> nxt' = Suc nxt"
  shows "hk_core nxt' (s\<lparr>hk_history := (hk_history s)[cyc_next (his_len s) (his_latest s) := e]\<rparr>)"
proof -
  let ?i = "cyc_next (his_len s) (his_latest s)"
  let ?h = "(hk_history s)[?i := e]"
  have b: "hk_bounds s" and R: "hk_rows_ok nxt (hk_history s)" using core by (simp_all add: hk_core_def)
  have i: "?i < his_len s" using ver_update_other(3) [OF b room, of 0] by simp
  have v: "?h ! cyc s j = ver s j" if "j \<le> hk_cnt s" for j by (rule ver_update_other(1) [OF b room that])
  have "hk_chain (s\<lparr>hk_history := ?h\<rparr>)" using core v by (simp add: hk_core_def hk_chain_def)
  moreover have "hk_rows_ok nxt' ?h"
    using rows
  proof
    assume "hk_row e = hk_row (hk_reserved s) \<and> nxt' = nxt"
    then have "hk_row (?h ! j) = hk_row (hk_history s ! j)" if "j < his_len s" for j
      using that by (cases "j = ?i") (simp_all add: hk_reserved_def)
    with R \<open>hk_row e = hk_row (hk_reserved s) \<and> nxt' = nxt\<close> show ?thesis by (simp add: hk_rows_ok_def)
  next
    assume new: "hk_row e = Some nxt \<and> nxt' = Suc nxt"
    have "hk_row (hk_history s ! j) \<noteq> Some nxt" if "j < his_len s" for j using R that unfolding hk_rows_ok_def by blast
    moreover have "r < Suc nxt" if "j < his_len s" "hk_row (hk_history s ! j) = Some r" for j r
      using R that unfolding hk_rows_ok_def by (simp add: less_SucI)
    ultimately show ?thesis using R new i unfolding hk_rows_ok_def by (auto simp: nth_list_update)
  qed
  ultimately show ?thesis using b by (simp add: hk_core_def)
qed

lemma hk_reserveRow_ok:
  assumes core: "hk_core nxt s" and inf: "hk_end (hk_latest s) = HK_INF"
  shows "\<exists>idx s' nxt'. hk_reserveRow n g m s nxt = Inr (idx, s', nxt') \<and> hk_room nxt' s s' idx \<and> nxt \<le> nxt' \<and>
     hk_row (hk_reserved s') \<noteq> None"
proof -
  have "hk_bounds s" using core by (simp add: hk_core_def)
  then have "hk_cnt s < Suc (his_len s)" using hk_cnt_less less_SucI by blast
  then obtain s1 where s1: "hk_collect m s = Inr s1" "hk_core nxt s1" "hk_history s1 = hk_history s" "his_latest s1 = his_latest s"
      "hk_exists_prewrite s1 = hk_exists_prewrite s"
    using hk_gc_ok [OF core inf, of "Suc (his_len s)" m] core unfolding hk_collect_def by (metis (no_types, lifting))
  have l: "hk_latest s1 = hk_latest s" using s1 by (simp add: hk_latest_def)
  obtain idx s2 where s2: "hk_pick n g s1 = (idx, s2)" "hk_room nxt s1 s2 idx" using hk_pick_ok [OF s1(2)] by blast
  have r2: "hk_core nxt s2" "Suc (hk_cnt s2) < his_len s2" "idx = cyc_next (his_len s2) (his_latest s2)"
    using s2(2) by (simp_all add: hk_room_def)
  show ?thesis
  proof (cases "hk_row (hk_history s2 ! idx)")
    case (Some r)
    then have "hk_reserveRow n g m s nxt = Inr (idx, s2, nxt)" using s1(1) s2(1) by (simp add: hk_reserveRow_def)
    then show ?thesis using s2(2) l Some s1(5) by (auto simp: hk_room_def hk_reserved_def)
  next
    case None
    let ?s = "s2\<lparr>hk_history := (hk_history s2)[idx := (hk_history s2 ! idx)\<lparr>hk_row := Some nxt\<rparr>]\<rparr>"
    have run: "hk_reserveRow n g m s nxt = Inr (idx, ?s, Suc nxt)" using s1(1) s2(1) None by (simp add: hk_reserveRow_def)
    have b: "hk_bounds s2" using r2(1) by (simp add: hk_core_def)
    have "hk_core (Suc nxt) ?s"
      using hk_core_update [OF r2(1,2), of "(hk_history s2 ! idx)\<lparr>hk_row := Some nxt\<rparr>" "Suc nxt"] r2(3) by simp
    moreover have "hk_latest ?s = hk_latest s2"
      using ver_update_other(2) [OF b r2(2) order.refl] r2(3) by (simp add: hk_latest_def cyc_cnt [OF b])
    moreover have "hk_row (hk_reserved ?s) = Some nxt"
      using ver_update_other(3) [OF b r2(2) order.refl] r2(3) by (simp add: hk_reserved_def)
    ultimately show ?thesis using run s2(2) l s1(5) r2(3) by (simp add: hk_room_def)
  qed
qed

subsection \<open>Access keeps the invariant\<close>

lemma hk_find_ok:
  assumes inv: "hk_core nxt s" and old: "hk_begin (ver s 0) < ts"
  shows "0 < j \<Longrightarrow> j \<le> hk_cnt s \<Longrightarrow> j \<le> k \<Longrightarrow> ts < hk_begin (ver s j) \<Longrightarrow> \<forall>i\<le>hk_cnt s. hk_begin (ver s i) \<noteq> ts \<Longrightarrow>
     \<exists>i<j. hk_find k ts (cyc s j) s = Inr (cyc s i) \<and> hk_begin (ver s i) < ts \<and> ts < hk_end (ver s i)"
proof (induction k arbitrary: j)
  case (Suc k)
  have b: "hk_bounds s" using inv by (simp add: hk_core_def)
  obtain i where j: "j = Suc i" using Suc.prems(1) by (cases j) auto
  have chain: "hk_end (ver s i) = hk_begin (ver s j)" using inv j Suc.prems(2) by (simp add: hk_core_def hk_chain_def)
  show ?case
  proof (cases "hk_begin (ver s i) < ts")
    case True
    then show ?thesis using chain Suc.prems(4) j by (auto simp: cyc_prev_Suc [OF b] Let_def intro!: exI [of _ i])
  next
    case False
    then have lt: "ts < hk_begin (ver s i)" using Suc.prems(2,5) j by (metis Suc_leD linorder_neqE)
    then have "0 < i" using old by (cases i) auto
    then have "cyc s i \<noteq> his_oldest s"
      using cyc_inj [OF b, of i 0] hk_cnt_less [OF b] Suc.prems(2) j hk_nonempty [OF b] cyc_0 [OF b] by fastforce
    then have "hk_find (Suc k) ts (cyc s j) s = hk_find k ts (cyc s i) s"
      using False by (simp add: j cyc_prev_Suc [OF b] Let_def)
    moreover obtain i' where "i' < i" "hk_find k ts (cyc s i) s = Inr (cyc s i')" "hk_begin (ver s i') < ts" "ts < hk_end (ver s i')"
      using Suc.IH [of i] \<open>0 < i\<close> lt Suc.prems(2,3,5) j by auto
    ultimately show ?thesis unfolding j by (intro exI [of _ i']) simp
  qed
qed simp

text \<open>What a read at \<open>ts\<close> is given: the version valid at that time.\<close>

definition hk_version_at :: "ts_t \<Rightarrow> row_ptr \<Rightarrow> Row_hekaton \<Rightarrow> bool" where
  "hk_version_at ts r s \<longleftrightarrow> (\<exists>j\<le>hk_cnt s. hk_row (ver s j) = Some r \<and> hk_begin (ver s j) < ts \<and>
     (j < hk_cnt s \<longrightarrow> ts < hk_end (ver s j)))"

lemma hk_read_ok:
  assumes core: "hk_core (hk_next S) (hk S)" and lvl: "lvl \<noteq> REPEATABLE_READ"
    and fresh: "\<forall>j\<le>hk_cnt (hk S). hk_begin (ver (hk S) j) \<noteq> ts_of (hk_txns S) txn"
    and old: "\<not> ts_of (hk_txns S) txn < hk_begin (ver (hk S) 0)"
  shows "\<exists>r. hk_read lvl txn S = Inr (RCOK, S\<lparr>hk_txns := (hk_txns S)(txn := (hk_txns S txn)\<lparr>cur_row := r\<rparr>)\<rparr>) \<and>
     hk_version_at (ts_of (hk_txns S) txn) r (hk S)"
proof -
  let ?s = "hk S" and ?ts = "ts_of (hk_txns S) txn" and ?n = "hk_cnt (hk S)"
  have b: "hk_bounds ?s" using core by (simp add: hk_core_def)
  have rows: "\<exists>r. hk_row (ver ?s j) = Some r" if "j \<le> ?n" for j using core that by (auto simp: hk_core_def hk_chain_def)
  have old': "hk_begin (ver ?s 0) < ?ts" using old fresh by (metis le0 linorder_neqE)
  show ?thesis
  proof (cases "hk_begin (ver ?s ?n) < ?ts")
    case True
    obtain r where "hk_row (ver ?s ?n) = Some r" using rows by blast
    then have "hk_version_at ?ts r ?s" using True unfolding hk_version_at_def by (intro exI [of _ ?n]) simp
    then show ?thesis using True lvl old cyc_0 [OF b] cyc_cnt [OF b] \<open>hk_row (ver ?s ?n) = Some r\<close>
      by (intro exI [of _ r]) (simp add: hk_read_def hk_give_def Let_def)
  next
    case False
    then have lt: "?ts < hk_begin (ver ?s ?n)" using fresh by (metis linorder_neqE order.refl)
    then have pos: "0 < ?n" using old' by (cases ?n) auto
    obtain i where i: "i < ?n" "hk_find (his_len ?s) ?ts (cyc ?s ?n) ?s = Inr (cyc ?s i)" "hk_begin (ver ?s i) < ?ts" "?ts < hk_end (ver ?s i)"
      using hk_find_ok [OF core old' pos order.refl _ lt fresh, of "his_len ?s"] hk_cnt_less [OF b] by auto
    obtain r where r: "hk_row (ver ?s i) = Some r" using rows i(1) by (metis less_imp_le)
    have "hk_read lvl txn S = hk_give txn (ver ?s i) S"
      using lvl old False i(2) cyc_0 [OF b] cyc_cnt [OF b] by (simp add: hk_read_def Let_def)
    moreover have "hk_version_at ?ts r ?s" unfolding hk_version_at_def using i r by (intro exI [of _ i]) simp
    ultimately show ?thesis using r by (intro exI [of _ r]) (simp add: hk_give_def)
  qed
qed

text \<open>Marking the reserved and the latest version with the id of the writer.\<close>

definition hk_mark :: "txnid_t \<Rightarrow> Row_hekaton \<Rightarrow> Row_hekaton" where
  "hk_mark tid s =
     (let id = cyc_next (his_len s) (his_latest s); l = his_latest s;
          h1 = (hk_history s)[id := (hk_history s ! id)\<lparr>hk_begin_txn := True, hk_begin := tid\<rparr>]
      in s\<lparr>hk_history := h1[l := (h1 ! l)\<lparr>hk_end_txn := True, hk_end := tid\<rparr>]\<rparr>)"

lemma hk_window_distinct:
  assumes "hk_bounds s" "Suc (hk_cnt s) < his_len s"
  shows "cyc_next (his_len s) (his_latest s) \<noteq> his_latest s" "cyc_next (his_len s) (his_latest s) < his_len s" "his_latest s < his_len s"
    "\<And>j. j \<le> hk_cnt s \<Longrightarrow> cyc s j \<noteq> cyc_next (his_len s) (his_latest s)" "\<And>j. j < hk_cnt s \<Longrightarrow> cyc s j \<noteq> his_latest s"
    "cyc_prev (his_len s) (cyc_next (his_len s) (his_latest s)) = his_latest s"
proof -
  show "cyc_next (his_len s) (his_latest s) \<noteq> his_latest s" "cyc_next (his_len s) (his_latest s) < his_len s" "his_latest s < his_len s"
    using ver_update_other(2,3) [OF assms order.refl] assms(1) by (simp_all add: cyc_cnt [OF assms(1)] hk_bounds_def)
  show "cyc s j \<noteq> cyc_next (his_len s) (his_latest s)" if "j \<le> hk_cnt s" for j using ver_update_other(2) [OF assms that] by simp
  show "cyc s j \<noteq> his_latest s" if "j < hk_cnt s" for j
    using cyc_inj [OF assms(1), of j "hk_cnt s"] that hk_cnt_less [OF assms(1)] cyc_cnt [OF assms(1)] by auto
  show "cyc_prev (his_len s) (cyc_next (his_len s) (his_latest s)) = his_latest s"
    using cyc_prev_Suc [OF assms(1), of "hk_cnt s"] cyc_next_latest [OF assms(1)] by (simp add: cyc_cnt [OF assms(1)])
qed

lemma hk_chainD:
  assumes "hk_core nxt s"
  shows "j \<le> hk_cnt s \<Longrightarrow> hk_row (ver s j) \<noteq> None" "j < hk_cnt s \<Longrightarrow> \<not> hk_end_txn (ver s j)"
    "j < hk_cnt s \<Longrightarrow> hk_end (ver s j) = hk_begin (ver s (Suc j))" "j < hk_cnt s \<Longrightarrow> hk_begin (ver s j) < hk_begin (ver s (Suc j))"
  using assms by (simp_all add: hk_core_def hk_chain_def)

lemma hk_rows_same:
  "hk_rows_ok nxt h \<Longrightarrow> length h' = length h \<Longrightarrow> (\<And>i. i < length h \<Longrightarrow> hk_row (h' ! i) = hk_row (h ! i)) \<Longrightarrow> hk_rows_ok nxt h'"
  by (simp add: hk_rows_ok_def)

lemma hk_mark_core:
  assumes core: "hk_core nxt s" and room: "Suc (hk_cnt s) < his_len s"
  shows "hk_core nxt (hk_mark tid s)" "hk_cnt (hk_mark tid s) = hk_cnt s" "his_len (hk_mark tid s) = his_len s"
    "hk_latest (hk_mark tid s) = (hk_latest s)\<lparr>hk_end_txn := True, hk_end := tid\<rparr>"
    "hk_reserved (hk_mark tid s) = (hk_reserved s)\<lparr>hk_begin_txn := True, hk_begin := tid\<rparr>"
    "hk_exists_prewrite (hk_mark tid s) = hk_exists_prewrite s"
proof -
  let ?s = "hk_mark tid s" and ?id = "cyc_next (his_len s) (his_latest s)" and ?l = "his_latest s"
  have b: "hk_bounds s" using core by (simp add: hk_core_def)
  note w = hk_window_distinct [OF b room]
  show len: "his_len ?s = his_len s" "hk_exists_prewrite ?s = hk_exists_prewrite s" by (simp_all add: hk_mark_def Let_def)
  have cyc: "cyc ?s = cyc s" "hk_bounds ?s" using b by (simp_all add: hk_mark_def Let_def)
  show cnt: "hk_cnt ?s = hk_cnt s" by (simp add: hk_mark_def Let_def)
  have ent: "hk_history ?s ! ?l = (hk_latest s)\<lparr>hk_end_txn := True, hk_end := tid\<rparr>"
    "hk_history ?s ! ?id = (hk_reserved s)\<lparr>hk_begin_txn := True, hk_begin := tid\<rparr>"
    "\<And>i. i \<noteq> ?id \<Longrightarrow> i \<noteq> ?l \<Longrightarrow> hk_history ?s ! i = hk_history s ! i"
    using w(1-3) by (simp_all add: hk_mark_def Let_def hk_latest_def hk_reserved_def)
  have rows: "hk_row (hk_history ?s ! i) = hk_row (hk_history s ! i)" for i
    using ent by (cases "i = ?id"; cases "i = ?l") (simp_all add: hk_latest_def hk_reserved_def)
  have "hk_begin (ver ?s j) = hk_begin (ver s j)" if "j \<le> hk_cnt s" for j
    using ent(1,3) w(4) [OF that] cyc by (cases "cyc s j = ?l") (simp_all add: hk_latest_def)
  moreover have "ver ?s j = ver s j" if "j < hk_cnt s" for j using ent(3) w(4,5) that cyc by simp
  ultimately have "hk_chain ?s" unfolding hk_chain_def cnt using rows hk_chainD [OF core] cyc by simp
  moreover have "hk_rows_ok nxt (hk_history ?s)"
    by (rule hk_rows_same [OF _ len(1) rows]) (use core in \<open>simp add: hk_core_def\<close>)
  ultimately show "hk_core nxt ?s" using cyc by (simp add: hk_core_def)
  have "his_latest ?s = ?l" by (simp add: hk_mark_def Let_def)
  then show "hk_latest ?s = (hk_latest s)\<lparr>hk_end_txn := True, hk_end := tid\<rparr>"
    "hk_reserved ?s = (hk_reserved s)\<lparr>hk_begin_txn := True, hk_begin := tid\<rparr>"
    using ent len by (simp_all add: hk_latest_def hk_reserved_def)
qed

lemma hk_prewrite_ok:
  assumes inv: "hk_inv (hk_next S) (hk S)"
  shows "\<exists>rc S'. hk_prewrite n g m txn S = Inr (rc, S') \<and> hk_inv (hk_next S') (hk S') \<and> hk_next S \<le> hk_next S' \<and>
     (if rc = RCOK then hk_exists_prewrite (hk S') \<and> hk_begin (hk_reserved (hk S')) = txn_id (hk_txns S txn) \<and>
        hk_row (hk_reserved (hk S')) = Some (cur_row (hk_txns S' txn)) \<and>
        hk_begin (hk_latest (hk S')) = hk_begin (hk_latest (hk S))
      else rc = Abort \<and> S' = S)"
proof (cases "hk_exists_prewrite (hk S) \<or> ts_of (hk_txns S) txn < hk_begin (hk_history (hk S) ! his_latest (hk S))")
  case True
  then show ?thesis using inv by (simp add: hk_prewrite_def Let_def)
next
  case False
  let ?s0 = "(hk S)\<lparr>hk_exists_prewrite := True\<rparr>" and ?t = "hk_txns S txn"
  have "hk_core (hk_next S) ?s0" "hk_end (hk_latest ?s0) = HK_INF"
    using inv False by (simp_all add: hk_inv_def hk_core_def hk_chain_def hk_latest_def)
  then obtain id s1 nxt where s1: "hk_reserveRow n g m ?s0 (hk_next S) = Inr (id, s1, nxt)" "hk_room nxt ?s0 s1 id" "hk_next S \<le> nxt"
      "hk_row (hk_reserved s1) \<noteq> None"
    using hk_reserveRow_ok [of "hk_next S" ?s0 n g m] by blast
  have core1: "hk_core nxt s1" "Suc (hk_cnt s1) < his_len s1" and id: "id = cyc_next (his_len s1) (his_latest s1)"
    and keep: "hk_latest s1 = hk_latest ?s0" "hk_exists_prewrite s1" using s1(2) by (simp_all add: hk_room_def)
  have b: "hk_bounds s1" using core1(1) by (simp add: hk_core_def)
  note w = hk_window_distinct [OF b core1(2)] and mk = hk_mark_core [OF core1, of "txn_id ?t"]
  obtain r where r: "hk_row (hk_reserved s1) = Some r" using s1(4) by blast
  obtain l where l: "hk_row (hk_latest s1) = Some l"
    using hk_chainD(1) [OF core1(1) order.refl] cyc_cnt [OF b] by (auto simp: hk_latest_def)
  let ?S = "S\<lparr>hk := hk_mark (txn_id ?t) s1, hk_next := nxt, hk_data := copy_row r l (hk_data S),
    hk_txns := (hk_txns S)(txn := ?t\<lparr>cur_row := r\<rparr>)\<rparr>"
  have "hk_prewrite n g m txn S = Inr (RCOK, ?S)"
    using False s1(1) w(1-3,6) r l by (simp add: hk_prewrite_def Let_def hk_mark_def hk_reserved_def hk_latest_def id)
  moreover have "hk_inv nxt (hk_mark (txn_id ?t) s1)" using mk core1(2) keep(2) r by (simp add: hk_inv_def)
  moreover have "hk_begin (hk_latest (hk S)) = hk_begin (hk_latest s1)" using keep(1) by (simp add: hk_latest_def)
  ultimately show ?thesis using mk(4-6) s1(3) keep(2) r by (intro exI [of _ RCOK] exI [of _ ?S]) simp
qed

lemma post_process_commit:
  assumes inv: "hk_inv nxt s" and ex: "hk_exists_prewrite s" and id: "hk_begin (hk_reserved s) = tid" and ts: "hk_begin (hk_latest s) < c"
  shows "\<exists>s'. post_process tid c RCOK s = Inr s' \<and> hk_inv nxt s' \<and> \<not> hk_exists_prewrite s' \<and>
     hk_row (hk_latest s') = hk_row (hk_reserved s) \<and> hk_begin (hk_latest s') = c"
proof -
  let ?l = "his_latest s" and ?n = "cyc_next (his_len s) (his_latest s)"
  have core: "hk_core nxt s" and room: "Suc (hk_cnt s) < his_len s" and res: "hk_begin_txn (hk_reserved s)" "hk_row (hk_reserved s) \<noteq> None"
    using inv ex by (simp_all add: hk_inv_def)
  have b: "hk_bounds s" using core by (simp add: hk_core_def)
  note w = hk_window_distinct [OF b room]
  define el where "el = (hk_latest s)\<lparr>hk_end_txn := False, hk_end := c\<rparr>"
  define en where "en = (hk_reserved s)\<lparr>hk_begin := c, hk_end := HK_INF\<rparr>"
  define s' where "s' = s\<lparr>hk_history := (hk_history s)[?l := el, ?n := en], hk_exists_prewrite := False, his_latest := ?n\<rparr>"
  have ne: "?n \<noteq> his_oldest s" using hk_full [OF b] room by auto
  have run: "post_process tid c RCOK s = Inr s'"
    using w(1-3) ts id res(1) ne by (simp add: post_process_def Let_def hk_reserved_def hk_latest_def s'_def el_def en_def)
  have cyc: "cyc s' = cyc s" "his_len s' = his_len s" "hk_bounds s'" using b w(2) by (simp_all add: s'_def cyc_def hk_bounds_def fun_eq_iff)
  have cnt: "hk_cnt s' = Suc (hk_cnt s)"
    using room cyc cyc_next_latest [OF b] by (intro hk_cnt_unique [OF cyc(3)]) (simp_all add: s'_def)
  have ent: "hk_history s' ! ?l = el" "hk_history s' ! ?n = en" "\<And>i. i \<noteq> ?l \<Longrightarrow> i \<noteq> ?n \<Longrightarrow> hk_history s' ! i = hk_history s ! i"
    using w(1-3) by (simp_all add: s'_def)
  have rows: "hk_row (hk_history s' ! i) = hk_row (hk_history s ! i)" for i
    using ent by (cases "i = ?l"; cases "i = ?n") (simp_all add: el_def en_def hk_latest_def hk_reserved_def)
  have last: "ver s' (Suc (hk_cnt s)) = en" "ver s' (hk_cnt s) = el" using ent cyc_next_latest [OF b] cyc_cnt [OF b] cyc by simp_all
  have v: "ver s' j = ver s j" if "j < hk_cnt s" for j using ent(3) w(4,5) that cyc by simp
  have bg: "hk_begin (ver s' j) = hk_begin (ver s j)" if "j \<le> hk_cnt s" for j
    using v [of j] last(2) that cyc_cnt [OF b] by (cases "j = hk_cnt s") (simp_all add: el_def hk_latest_def)
  have "hk_chain s'"
    unfolding hk_chain_def cnt
  proof (intro conjI allI impI)
    fix j
    show "hk_row (ver s' j) \<noteq> None" if "j \<le> Suc (hk_cnt s)"
      using that hk_chainD(1) [OF core, of j] rows [of "cyc s j"] last(1) res(2) cyc by (cases "j = Suc (hk_cnt s)") (simp_all add: en_def)
    assume j: "j < Suc (hk_cnt s)"
    show "\<not> hk_end_txn (ver s' j)" "hk_end (ver s' j) = hk_begin (ver s' (Suc j))" "hk_begin (ver s' j) < hk_begin (ver s' (Suc j))"
      using j hk_chainD(2-4) [OF core, of j] v [of j] bg [of j] bg [of "Suc j"] last ts cyc_cnt [OF b]
      by (cases "j = hk_cnt s"; simp add: el_def en_def hk_latest_def)+
  qed
  moreover have "hk_rows_ok nxt (hk_history s')"
    by (rule hk_rows_same [OF _ cyc(2) rows]) (use core in \<open>simp add: hk_core_def\<close>)
  moreover have "hk_latest s' = en" using ent(2) by (simp add: hk_latest_def s'_def)
  ultimately have "hk_inv nxt s'" using cyc(3) by (simp add: hk_inv_def hk_core_def s'_def en_def)
  then show ?thesis using run \<open>hk_latest s' = en\<close> by (simp add: s'_def en_def)
qed

lemma post_process_abort:
  assumes inv: "hk_inv nxt s" and ex: "hk_exists_prewrite s" and id: "hk_begin (hk_reserved s) = tid" and rc: "rc \<noteq> RCOK"
  shows "\<exists>s'. post_process tid c rc s = Inr s' \<and> hk_inv nxt s' \<and> \<not> hk_exists_prewrite s' \<and>
     hk_row (hk_latest s') = hk_row (hk_latest s) \<and> hk_begin (hk_latest s') = hk_begin (hk_latest s)"
proof -
  let ?l = "his_latest s"
  have core: "hk_core nxt s" and room: "Suc (hk_cnt s) < his_len s" and res: "hk_begin_txn (hk_reserved s)"
    using inv ex by (simp_all add: hk_inv_def)
  have b: "hk_bounds s" using core by (simp add: hk_core_def)
  note w = hk_window_distinct [OF b room]
  define el where "el = (hk_latest s)\<lparr>hk_end_txn := False, hk_end := HK_INF\<rparr>"
  define s' where "s' = s\<lparr>hk_history := (hk_history s)[?l := el], hk_exists_prewrite := False\<rparr>"
  have run: "post_process tid c rc s = Inr s'"
    using w(3) id res(1) rc by (simp add: post_process_def Let_def hk_reserved_def hk_latest_def s'_def el_def)
  have cyc: "cyc s' = cyc s" "his_len s' = his_len s" "hk_bounds s'" "hk_cnt s' = hk_cnt s" "his_latest s' = ?l"
    using b by (simp_all add: s'_def)
  have ent: "hk_history s' ! ?l = el" "\<And>i. i \<noteq> ?l \<Longrightarrow> hk_history s' ! i = hk_history s ! i"
    using w(3) by (simp_all add: s'_def)
  have same: "hk_row (hk_history s' ! i) = hk_row (hk_history s ! i)" "hk_begin (hk_history s' ! i) = hk_begin (hk_history s ! i)" for i
    using ent by (cases "i = ?l"; simp add: el_def hk_latest_def)+
  have "ver s' j = ver s j" if "j < hk_cnt s" for j using ent(2) w(5) that cyc by simp
  then have "hk_chain s'" unfolding hk_chain_def cyc(4) using same hk_chainD [OF core] cyc(1) by simp
  moreover have "hk_rows_ok nxt (hk_history s')"
    by (rule hk_rows_same [OF _ cyc(2) same(1)]) (use core in \<open>simp add: hk_core_def\<close>)
  moreover have l: "hk_latest s' = el" using ent(1) by (simp add: hk_latest_def cyc(5))
  ultimately have "hk_inv nxt s'" using cyc(3) by (simp add: hk_inv_def hk_core_def s'_def el_def)
  then show ?thesis using run l by (simp add: s'_def el_def)
qed

subsection \<open>Theorems\<close>

text \<open>The outcome of a read or a prewrite.\<close>

definition hk_outcome :: "txn_ptr \<Rightarrow> TsType \<Rightarrow> RC \<Rightarrow> 'd hk_state \<Rightarrow> 'd hk_state \<Rightarrow> bool" where
  "hk_outcome txn type rc S S' \<longleftrightarrow>
     (if type = R_REQ then
        hk S' = hk S \<and>
        (if ts_of (hk_txns S) txn < hk_begin (ver (hk S) 0) then rc = Abort
         else rc = RCOK \<and> hk_version_at (ts_of (hk_txns S) txn) (cur_row (hk_txns S' txn)) (hk S))
      else if rc = RCOK then
        hk_exists_prewrite (hk S') \<and> hk_begin (hk_reserved (hk S')) = txn_id (hk_txns S txn) \<and>
        hk_row (hk_reserved (hk S')) = Some (cur_row (hk_txns S' txn)) \<and>
        hk_begin (hk_latest (hk S')) = hk_begin (hk_latest (hk S))
      else rc = Abort \<and> S' = S)"

text \<open>C26: A read or prewrite of a multi-version row keeps the invariant (the versions of the window follow each other in
  time without gaps, at most one writer, no shared buffers) and fails no assertion, whatever the uninitialised
  entries hold. A read returns the version that was valid at its timestamp or aborts because that version is gone; a
  prewrite gets a buffer of its own marked with its transaction or aborts without a trace.\<close>

theorem hekaton_access_ok:
  assumes "hk_inv (hk_next S) (hk S)" "lvl \<noteq> REPEATABLE_READ" "type \<in> {R_REQ, P_REQ}"
    "type = R_REQ \<Longrightarrow> \<forall>j\<le>hk_cnt (hk S). hk_begin (ver (hk S) j) \<noteq> ts_of (hk_txns S) txn"
  shows "\<exists>rc S'. hekaton_access lvl n g m txn type S = Inr (rc, S') \<and> hk_inv (hk_next S') (hk S') \<and> hk_outcome txn type rc S S'"
proof -
  have core: "hk_core (hk_next S) (hk S)" and b: "hk_bounds (hk S)" using assms(1) by (simp_all add: hk_inv_def hk_core_def)
  have ass: "hk_end (hk_history (hk S) ! his_latest (hk S)) = HK_INF \<or> hk_end_txn (hk_history (hk S) ! his_latest (hk S))"
    using assms(1) by (auto simp: hk_inv_def hk_latest_def split: if_splits)
  consider (old) "type = R_REQ" "ts_of (hk_txns S) txn < hk_begin (ver (hk S) 0)"
    | (new) "type = R_REQ" "\<not> ts_of (hk_txns S) txn < hk_begin (ver (hk S) 0)" | (pre) "type = P_REQ" using assms(3) by blast
  then show ?thesis
  proof cases
    case old
    then have "hekaton_access lvl n g m txn type S = Inr (Abort, S)"
      using ass assms(2) cyc_0 [OF b] by (simp add: hekaton_access_def hk_read_def Let_def)
    then show ?thesis using old assms(1) by (simp add: hk_outcome_def)
  next
    case new
    obtain r where r: "hk_read lvl txn S = Inr (RCOK, S\<lparr>hk_txns := (hk_txns S)(txn := (hk_txns S txn)\<lparr>cur_row := r\<rparr>)\<rparr>)"
        "hk_version_at (ts_of (hk_txns S) txn) r (hk S)"
      using hk_read_ok [OF core assms(2) assms(4) [OF new(1)] new(2)] by blast
    then show ?thesis using ass new assms(1) by (simp add: hekaton_access_def hk_outcome_def Let_def)
  next
    case pre
    have run: "hekaton_access lvl n g m txn type S = hk_prewrite n g m txn S" using pre ass by (simp add: hekaton_access_def Let_def)
    have out: "hk_outcome txn type rc S S' \<longleftrightarrow> (if rc = RCOK then hk_exists_prewrite (hk S') \<and> hk_begin (hk_reserved (hk S')) = txn_id (hk_txns S txn) \<and>
        hk_row (hk_reserved (hk S')) = Some (cur_row (hk_txns S' txn)) \<and> hk_begin (hk_latest (hk S')) = hk_begin (hk_latest (hk S))
      else rc = Abort \<and> S' = S)" for rc S' using pre by (simp add: hk_outcome_def)
    show ?thesis unfolding run out using hk_prewrite_ok [OF assms(1), of n g m txn] by blast
  qed
qed

definition hk_demo_entry :: HekEntry where
  "hk_demo_entry = \<lparr>hk_begin_txn = True, hk_end_txn = True, hk_begin = 7, hk_end = 7, hk_row = Some 7\<rparr>"

definition hk_demo_txns :: txn_tab where
  "hk_demo_txns t = \<lparr>thd_id = t, txn_id = of_nat t, timestamp = of_nat t, cur_row = 99, lock_ready = False,
     lock_abort = False, ts_ready = False, ready_part = 0, start_ts = 0, end_ts = 0, vll_txn_type = VLL_Free\<rparr>"

definition hk_demo :: "row_ptr \<Rightarrow> nat hk_state" where
  "hk_demo r = \<lparr>hk = Row_hekaton_init r (\<lambda>_. hk_demo_entry), hk_txns = hk_demo_txns, hk_data = (\<lambda>_. 0), hk_next = r + 1\<rparr>"

lemma hk_demo_inv: "hk_inv (hk_next (hk_demo r)) (hk (hk_demo r))"
  by (simp add: hk_demo_def hk_inv_init)

lemma hekaton_access_ok_witness:
  "\<exists>rc S'. hekaton_access SERIALIZABLE 4 (\<lambda>_. hk_demo_entry) 0 3 R_REQ (hk_demo 0) = Inr (rc, S') \<and>
     hk_inv (hk_next S') (hk S') \<and> hk_outcome 3 R_REQ rc (hk_demo 0) S'"
proof (rule hekaton_access_ok)
  show "hk_inv (hk_next (hk_demo 0)) (hk (hk_demo 0))" by (rule hk_demo_inv)
  have "hk_cnt (hk (hk_demo 0)) = 0" "hk_begin (ver (hk (hk_demo 0)) 0) = 0" "ts_of (hk_txns (hk_demo 0)) 3 = 3" by code_simp+
  then show "\<forall>j\<le>hk_cnt (hk (hk_demo 0)). hk_begin (ver (hk (hk_demo 0)) j) \<noteq> ts_of (hk_txns (hk_demo 0)) 3" by simp
qed simp_all

text \<open>Ending a transaction that holds the row's prewrite: a commit makes its buffer the latest version, valid from the
  commit timestamp, and an abort restores the version that was latest; both keep the invariant and free the row for the
  next writer.\<close>

theorem hekaton_post_process_ok:
  assumes "hk_inv nxt s" "hk_exists_prewrite s" "hk_begin (hk_reserved s) = tid" "rc = RCOK \<Longrightarrow> hk_begin (hk_latest s) < commit_ts"
  shows "\<exists>s'. post_process tid commit_ts rc s = Inr s' \<and> hk_inv nxt s' \<and> \<not> hk_exists_prewrite s' \<and>
     hk_row (hk_latest s') = hk_row (if rc = RCOK then hk_reserved s else hk_latest s) \<and>
     hk_begin (hk_latest s') = (if rc = RCOK then commit_ts else hk_begin (hk_latest s))"
  using post_process_commit [OF assms(1-3), of commit_ts] post_process_abort [OF assms(1-3), of rc commit_ts] assms(4)
  by (cases "rc = RCOK") auto

definition hk_demo_held :: Row_hekaton where
  "hk_demo_held = hk_mark 3 ((Row_hekaton_init 0 (\<lambda>_. hk_demo_entry))\<lparr>hk_exists_prewrite := True,
     hk_history := [\<lparr>hk_begin_txn = False, hk_end_txn = False, hk_begin = 0, hk_end = HK_INF, hk_row = Some 0\<rparr>,
       hk_demo_entry\<lparr>hk_row := Some 1\<rparr>, hk_demo_entry\<lparr>hk_row := None\<rparr>, hk_demo_entry\<lparr>hk_row := None\<rparr>]\<rparr>)"

lemma hk_demo_held_inv: "hk_inv 2 hk_demo_held"
proof -
  have c: "hk_cnt hk_demo_held = 0" "hk_bounds hk_demo_held" "hk_row (ver hk_demo_held 0) \<noteq> None" "his_len hk_demo_held = 4"
    "hk_end_txn (hk_latest hk_demo_held)" "hk_begin_txn (hk_reserved hk_demo_held)" "hk_row (hk_reserved hk_demo_held) \<noteq> None"
    "hk_exists_prewrite hk_demo_held" by code_simp+
  have "hk_rows_ok 2 (hk_history hk_demo_held)"
  proof -
    have "map hk_row (hk_history hk_demo_held) = [Some 0, Some 1, None, None]" by code_simp
    then have "hk_row (hk_history hk_demo_held ! i) = [Some 0, Some 1, None, None] ! i" if "i < 4" for i
      using nth_map [of i "hk_history hk_demo_held" hk_row] that c(4) by simp
    then show ?thesis unfolding hk_rows_ok_def c(4) by (auto simp: less_Suc_eq numeral_eq_Suc)
  qed
  then show ?thesis using c by (simp add: hk_inv_def hk_core_def hk_chain_def)
qed

lemma hekaton_post_process_ok_witness:
  "\<exists>s'. post_process 3 9 RCOK hk_demo_held = Inr s' \<and> hk_inv 2 s' \<and> \<not> hk_exists_prewrite s' \<and>
     hk_row (hk_latest s') = Some 1 \<and> hk_begin (hk_latest s') = 9"
proof -
  have "hk_exists_prewrite hk_demo_held" "hk_begin (hk_reserved hk_demo_held) = 3" "hk_begin (hk_latest hk_demo_held) < 9"
    "hk_row (hk_reserved hk_demo_held) = Some 1" by code_simp+
  then show ?thesis using hekaton_post_process_ok [OF hk_demo_held_inv, of 3 RCOK 9] by simp
qed

text \<open>Validation does not look at the state of a pending writer, and lets both sides of a write skew commit:
  transaction 1 read row 0 and prewrote row 1, transaction 2 read row 1 and prewrote row 0, both before either validates
  its reads; both validations succeed and both commits go through.\<close>

theorem hekaton_write_skew:
  "case (hekaton_access SERIALIZABLE 4 (\<lambda>_. hk_demo_entry) 0 2 P_REQ (hk_demo 0),
         hekaton_access SERIALIZABLE 4 (\<lambda>_. hk_demo_entry) 0 1 P_REQ (hk_demo 10)) of
     (Inr (RCOK, X), Inr (RCOK, Y)) \<Rightarrow>
       (let M = (\<lambda>r. if r = 0 then hk X else hk Y);
            accs1 = [\<lparr>ha_type = RD, ha_orig = 0, ha_data = 0\<rparr>, \<lparr>ha_type = WR, ha_orig = 1, ha_data = cur_row (hk_txns Y 1)\<rparr>];
            accs2 = [\<lparr>ha_type = RD, ha_orig = 1, ha_data = 10\<rparr>, \<lparr>ha_type = WR, ha_orig = 0, ha_data = cur_row (hk_txns X 2)\<rparr>]
        in hk_validate_reads 1 3 accs1 M RCOK = Inr RCOK \<and> hk_validate_reads 2 4 accs2 M RCOK = Inr RCOK \<and>
           (case bindE (hk_post 1 3 RCOK accs1 M) (hk_post 2 4 RCOK accs2) of
              Inr M' \<Rightarrow> hk_begin (hk_latest (M' 0)) = 4 \<and> hk_begin (hk_latest (M' 1)) = 3
            | Inl _ \<Rightarrow> False))
   | _ \<Rightarrow> False"
  by code_simp

end
