(* ===== verification/Occ.thy ===== *)
theory Occ
  imports Lock_word "HOL-Library.Char_ord" "HOL-Library.List_Lexorder" "HOL-Library.Product_Lexorder"
begin

text \<open>
  Optimistic concurrency control: the row manager \<^verbatim>\<open>concurrency_control/row_occ.cpp\<close> and the two
  validations of \<^verbatim>\<open>concurrency_control/occ.cpp\<close>, per row (latch the accessed rows in key order,
  compare their write timestamps with the start of the transaction) and central (compare with the write
  sets of the transactions that finished since the start or are validating now). The other threads are a
  list of transformers of the memory, one before each attempt to take a latch.
\<close>

subsection \<open>Rows\<close>

record 'd Row_occ =
  occ_latch :: "txn_ptr option"
  occ_wts :: ts_t
  occ_data :: 'd

type_synonym 'd occ_mem = "row_ptr \<Rightarrow> 'd Row_occ"

definition Row_occ_init :: "'d \<Rightarrow> 'd Row_occ" where
  "Row_occ_init d = \<lparr>occ_latch = None, occ_wts = 0, occ_data = d\<rparr>"

text \<open>A read makes a copy under the latch.\<close>

definition occ_access :: "ts_t \<Rightarrow> TsType \<Rightarrow> 'd Row_occ \<Rightarrow> fault + (RC \<times> 'd option)" where
  "occ_access start type s =
     bindE (guard Spinning (occ_latch s = None)) (\<lambda>_.
     if type = R_REQ then Inr (if start < occ_wts s then (Abort, None) else (RCOK, Some (occ_data s)))
     else Inl Assert_failed)"

definition occ_row_validate :: "ts_t \<Rightarrow> 'd Row_occ \<Rightarrow> bool" where
  "occ_row_validate ts s = (if ts < occ_wts s then False else True)"

definition occ_row_write :: "bool \<Rightarrow> 'd \<Rightarrow> ts_t \<Rightarrow> 'd Row_occ \<Rightarrow> fault + 'd Row_occ" where
  "occ_row_write PER_ROW_VALID d ts s =
     (let s1 = s\<lparr>occ_data := d\<rparr> in
      if PER_ROW_VALID then bindE (assert_that (ts > occ_wts s1)) (\<lambda>_. Inr (s1\<lparr>occ_wts := ts\<rparr>)) else Inr s1)"

definition occ_release :: "'d Row_occ \<Rightarrow> 'd Row_occ" where
  "occ_release s = s\<lparr>occ_latch := None\<rparr>"

subsection \<open>Validation per row\<close>

record 'd occ_acc =
  oa_type :: access_t
  oa_row :: row_ptr
  oa_copy :: 'd

type_synonym 'd occ_env = "'d occ_mem \<Rightarrow> 'd occ_mem"

text \<open>\<^verbatim>\<open>pthread_mutex_lock\<close>: the other threads run, then the latch is taken if it is free.\<close>

fun occ_take_latch :: "txn_ptr \<Rightarrow> row_ptr \<Rightarrow> 'd occ_env list \<Rightarrow> 'd occ_mem \<Rightarrow> fault + ('d occ_env list \<times> 'd occ_mem)" where
  "occ_take_latch me r [] M = Inl Spinning"
| "occ_take_latch me r (e # es) M =
     (let M1 = e M in
      if occ_latch (M1 r) = None then Inr (es, M1(r := (M1 r)\<lparr>occ_latch := Some me\<rparr>))
      else occ_take_latch me r es M1)"

text \<open>The loop that latches and validates; the result tells whether all were valid and how many rows are latched.\<close>

fun occ_lock_loop ::
  "txn_ptr \<Rightarrow> ts_t \<Rightarrow> 'd occ_acc list \<Rightarrow> nat \<Rightarrow> 'd occ_env list \<Rightarrow> 'd occ_mem \<Rightarrow> fault + (bool \<times> nat \<times> 'd occ_mem)" where
  "occ_lock_loop me start [] n es M = Inr (True, n, M)"
| "occ_lock_loop me start (a # as) n es M =
     bindE (occ_take_latch me (oa_row a) es M) (\<lambda>(es', M1).
     if occ_row_validate start (M1 (oa_row a)) then occ_lock_loop me start as (Suc n) es' M1
     else Inr (False, Suc n, M1))"

text \<open>\<^verbatim>\<open>cleanup\<close> with \<^verbatim>\<open>return_row\<close>, from the last access to the first: only a committed write is installed.\<close>

fun occ_cleanup :: "bool \<Rightarrow> RC \<Rightarrow> ts_t \<Rightarrow> 'd occ_acc list \<Rightarrow> 'd occ_mem \<Rightarrow> fault + 'd occ_mem" where
  "occ_cleanup prv rc fin [] M = Inr M"
| "occ_cleanup prv rc fin (a # as) M =
     bindE (occ_cleanup prv rc fin as M) (\<lambda>M1.
     let type = (if oa_type a = WR \<and> rc = Abort then XP else oa_type a) in
     if type = WR then bindE (occ_row_write prv (oa_copy a) fin (M1 (oa_row a))) (\<lambda>s. Inr (M1(oa_row a := s)))
     else Inr M1)"

fun occ_release_all :: "'d occ_acc list \<Rightarrow> 'd occ_mem \<Rightarrow> 'd occ_mem" where
  "occ_release_all [] M = M"
| "occ_release_all (a # as) M = occ_release_all as (M(oa_row a := occ_release (M (oa_row a))))"

text \<open>Rows are ordered by the name of their table and then by their primary key.\<close>

definition per_row_validate ::
  "(row_ptr \<Rightarrow> string \<times> 64 word) \<Rightarrow> txn_ptr \<Rightarrow> ts_t \<Rightarrow> ts_t \<Rightarrow> 'd occ_acc list \<Rightarrow> 'd occ_env list \<Rightarrow> 'd occ_mem \<Rightarrow> fault + (RC \<times> 'd occ_mem)" where
  "per_row_validate key me start fin accs es M =
     (let accs = bubble_sort (\<lambda>a. key (oa_row a)) accs in
      bindE (occ_lock_loop me start accs 0 es M) (\<lambda>(ok, lock_cnt, M1).
      let rc = (if ok then RCOK else Abort) in
      bindE (occ_cleanup True rc fin accs M1) (\<lambda>M2.
      Inr (rc, occ_release_all (take lock_cnt accs) M2))))"

subsection \<open>Central validation\<close>

record set_ent =
  se_tn :: "64 word"
  se_txn :: txn_ptr
  se_rows :: "row_ptr list"

text \<open>The lists in the order of their \<^verbatim>\<open>next\<close> pointers. History entries are only added in front.\<close>

record OptCC =
  tnc :: "64 word"
  history :: "set_ent list"
  active :: "set_ent list"
  occ_his_len :: nat
  active_len :: nat

definition OptCC_init :: OptCC where
  "OptCC_init = \<lparr>tnc = 0, history = [], active = [], occ_his_len = 0, active_len = 0\<rparr>"

definition get_rw_set :: "txn_ptr \<Rightarrow> nat \<Rightarrow> 'd occ_acc list \<Rightarrow> fault + (set_ent \<times> set_ent)" where
  "get_rw_set me wr_cnt accs =
     (let w = map oa_row (filter (\<lambda>a. oa_type a = WR) accs); r = map oa_row (filter (\<lambda>a. oa_type a \<noteq> WR) accs) in
      bindE (assert_that (length w = wr_cnt)) (\<lambda>_.
      bindE (assert_that (length r = length accs - wr_cnt)) (\<lambda>_.
      Inr (\<lparr>se_tn = 0, se_txn = me, se_rows = r\<rparr>, \<lparr>se_tn = 0, se_txn = me, se_rows = w\<rparr>))))"

definition test_valid :: "set_ent \<Rightarrow> set_ent \<Rightarrow> bool" where
  "test_valid set1 set2 \<longleftrightarrow> list_all (\<lambda>r1. list_all (\<lambda>r2. r1 \<noteq> r2) (se_rows set2)) (se_rows set1)"

text \<open>The first critical section: the current number, the write sets being validated, and the history; a
  writer enters the active list.\<close>

definition central_enter :: "set_ent \<Rightarrow> OptCC \<Rightarrow> (64 word \<times> set_ent list \<times> set_ent list) \<times> OptCC" where
  "central_enter wset s =
     ((tnc s, active s, history s),
      if se_rows wset = [] then s else s\<lparr>active_len := Suc (active_len s), active := wset # active s\<rparr>)"

fun check_history :: "64 word \<Rightarrow> set_ent \<Rightarrow> set_ent list \<Rightarrow> bool" where
  "check_history start_tn rset [] = True"
| "check_history start_tn rset (h # hs) =
     (if se_tn h > start_tn then (if test_valid h rset then check_history start_tn rset hs else False) else True)"

fun check_active :: "set_ent \<Rightarrow> set_ent \<Rightarrow> set_ent list \<Rightarrow> bool" where
  "check_active rset wset [] = True"
| "check_active rset wset (a # as) =
     (if test_valid a rset \<and> test_valid a wset then check_active rset wset as else False)"

definition central_check :: "64 word \<Rightarrow> set_ent \<Rightarrow> set_ent \<Rightarrow> 64 word \<times> set_ent list \<times> set_ent list \<Rightarrow> bool" where
  "central_check start_tn rset wset = (\<lambda>(finish_tn, finish_active, his).
     (if finish_tn > start_tn then check_history start_tn rset (dropWhile (\<lambda>h. se_tn h > finish_tn) his) else True) \<and>
     check_active rset wset finish_active)"

text \<open>The second critical section of a writer.\<close>

fun unlink_active :: "txn_ptr \<Rightarrow> set_ent list \<Rightarrow> fault + set_ent list" where
  "unlink_active me [] = Inl Null_deref"
| "unlink_active me (a # as) =
     (if se_txn a = me then Inr as else bindE (unlink_active me as) (\<lambda>as'. Inr (a # as')))"

definition central_exit :: "set_ent \<Rightarrow> bool \<Rightarrow> OptCC \<Rightarrow> fault + OptCC" where
  "central_exit wset valid s =
     (if se_rows wset = [] then Inr s
      else bindE (unlink_active (se_txn wset) (active s)) (\<lambda>as.
        let s1 = s\<lparr>active := as, active_len := active_len s - 1\<rparr> in
        if valid then
          bindE (assert_that (case history s of [] \<Rightarrow> True | h # _ \<Rightarrow> se_tn h = tnc s)) (\<lambda>_.
          Inr (s1\<lparr>tnc := tnc s + 1, history := wset\<lparr>se_tn := tnc s + 1\<rparr> # history s, occ_his_len := Suc (occ_his_len s)\<rparr>))
        else Inr s1))"

definition central_validate ::
  "txn_ptr \<Rightarrow> ts_t \<Rightarrow> ts_t \<Rightarrow> nat \<Rightarrow> 'd occ_acc list \<Rightarrow> (OptCC \<Rightarrow> OptCC) \<Rightarrow> 'd occ_mem \<Rightarrow> OptCC \<Rightarrow> fault + (RC \<times> 'd occ_mem \<times> OptCC)" where
  "central_validate me start fin wr_cnt accs env M s =
     bindE (get_rw_set me wr_cnt accs) (\<lambda>(rset, wset).
     let (snap, s1) = central_enter wset s; valid = central_check start rset wset snap in
     bindE (if valid then occ_cleanup False RCOK fin accs M else Inr M) (\<lambda>M1.
     bindE (central_exit wset valid (env s1)) (\<lambda>s2.
     if valid then Inr (RCOK, M1, s2)
     else bindE (occ_cleanup False Abort fin accs M1) (\<lambda>M2. Inr (Abort, M2, s2)))))"

subsection \<open>Correctness of the validation per row\<close>

text \<open>The other threads leave the rows this thread has latched alone and do not latch in its name.\<close>

definition occ_rely :: "txn_ptr \<Rightarrow> 'd occ_env \<Rightarrow> bool" where
  "occ_rely me e \<longleftrightarrow> (\<forall>M r. (occ_latch (M r) = Some me \<longrightarrow> e M r = M r) \<and>
     (occ_latch (e M r) = Some me \<longrightarrow> occ_latch (M r) = Some me))"

definition holds :: "txn_ptr \<Rightarrow> row_ptr set \<Rightarrow> 'd occ_mem \<Rightarrow> bool" where
  "holds me H M \<longleftrightarrow> (\<forall>r. occ_latch (M r) = Some me \<longleftrightarrow> r \<in> H)"

lemma rely_holds: "occ_rely me e \<Longrightarrow> holds me H M \<Longrightarrow> holds me H (e M) \<and> (\<forall>r\<in>H. e M r = M r)"
  unfolding occ_rely_def holds_def by metis

lemma occ_take_latch_spec:
  "occ_take_latch me r es M = Inr (es', M') \<Longrightarrow> \<forall>e\<in>set es. occ_rely me e \<Longrightarrow> holds me H M \<Longrightarrow>
     r \<notin> H \<and> holds me (insert r H) M' \<and> (\<forall>q\<in>H. M' q = M q) \<and> set es' \<subseteq> set es"
proof (induction me r es M rule: occ_take_latch.induct)
  case (2 me r e es M)
  have e: "holds me H (e M)" "\<forall>q\<in>H. e M q = M q" using rely_holds [of me e H M] 2(3,4) by auto
  show ?case
  proof (cases "occ_latch (e M r) = None")
    case True
    then have "r \<notin> H" using e(1) unfolding holds_def by (metis option.distinct(1))
    moreover have "es' = es" "M' = (e M)(r := (e M r)\<lparr>occ_latch := Some me\<rparr>)" using True 2(2) by (simp_all add: Let_def)
    ultimately show ?thesis using e by (auto simp: holds_def split: if_splits)
  next
    case False
    then have "occ_take_latch me r es (e M) = Inr (es', M')" using 2(2) by (auto simp: Let_def)
    from 2(1) [OF refl False this _ e(1)] 2(3) e(2) show ?thesis by auto
  qed
qed simp

lemma occ_take_latch_fault: "occ_take_latch me r es M = Inl f \<Longrightarrow> f = Spinning"
  by (induction me r es M rule: occ_take_latch.induct) (auto simp: Let_def split: if_splits)

lemma occ_lock_loop_fault: "occ_lock_loop me start as n es M = Inl f \<Longrightarrow> f = Spinning"
  by (induction me start as n es M rule: occ_lock_loop.induct)
    (auto simp: bindE_eq_Inl split: if_splits dest: occ_take_latch_fault)

text \<open>After the loop the first \<open>k\<close> rows are latched; all of them were validated, or the last one was found changed.\<close>

definition locked_prefix :: "txn_ptr \<Rightarrow> ts_t \<Rightarrow> row_ptr set \<Rightarrow> 'd occ_acc list \<Rightarrow> bool \<Rightarrow> nat \<Rightarrow> 'd occ_mem \<Rightarrow> bool" where
  "locked_prefix me start H as ok k M \<longleftrightarrow>
     k \<le> length as \<and> distinct (map oa_row (take k as)) \<and> H \<inter> oa_row ` set (take k as) = {} \<and>
     holds me (H \<union> oa_row ` set (take k as)) M \<and>
     (if ok then k = length as \<and> (\<forall>a\<in>set as. \<not> start < occ_wts (M (oa_row a)))
      else \<exists>a\<in>set as. start < occ_wts (M (oa_row a)))"

lemma occ_lock_loop_spec:
  "occ_lock_loop me start as n es M = Inr (ok, n', M') \<Longrightarrow> \<forall>e\<in>set es. occ_rely me e \<Longrightarrow> holds me H M \<Longrightarrow>
     \<exists>k. n' = n + k \<and> locked_prefix me start H as ok k M' \<and> (\<forall>r\<in>H. M' r = M r)"
proof (induction as arbitrary: n es M H)
  case Nil
  then show ?case by (auto simp: locked_prefix_def)
next
  case (Cons a as)
  obtain es1 M1 where t: "occ_take_latch me (oa_row a) es M = Inr (es1, M1)"
    and rest: "(if occ_row_validate start (M1 (oa_row a)) then occ_lock_loop me start as (Suc n) es1 M1
      else Inr (False, Suc n, M1)) = Inr (ok, n', M')"
    using Cons.prems(1) by (auto simp: bindE_eq_Inr)
  note L = occ_take_latch_spec [OF t Cons.prems(2,3)]
  show ?case
  proof (cases "occ_row_validate start (M1 (oa_row a))")
    case True
    have run: "occ_lock_loop me start as (Suc n) es1 M1 = Inr (ok, n', M')" using rest True by simp
    have "\<forall>e\<in>set es1. occ_rely me e" using Cons.prems(2) L by blast
    from Cons.IH [OF run this conjunct1 [OF conjunct2 [OF L]]] obtain k where k: "n' = Suc n + k"
      "locked_prefix me start (insert (oa_row a) H) as ok k M'" "\<forall>r\<in>insert (oa_row a) H. M' r = M1 r" by blast
    have "\<not> start < occ_wts (M' (oa_row a))" using True k(3) by (auto simp: occ_row_validate_def split: if_splits)
    then have "locked_prefix me start H (a # as) ok (Suc k) M'" using k(2) L by (auto simp: locked_prefix_def)
    moreover have "\<forall>r\<in>H. M' r = M r" using k(3) L by simp
    ultimately show ?thesis using k(1) by (intro exI [of _ "Suc k"]) simp
  next
    case False
    then have "ok = False" "n' = Suc n" "M' = M1" using rest by simp_all
    then show ?thesis using False L by (intro exI [of _ 1]) (auto simp: locked_prefix_def occ_row_validate_def split: if_splits)
  qed
qed

lemma occ_cleanup_abort: "occ_cleanup prv Abort fin as M = Inr M"
  by (induction as) (simp_all add: Let_def)

text \<open>What a commit leaves in the rows.\<close>

definition installed :: "ts_t \<Rightarrow> 'd occ_acc list \<Rightarrow> 'd occ_mem \<Rightarrow> 'd occ_mem" where
  "installed fin as M = (\<lambda>r. case filter (\<lambda>a. oa_row a = r \<and> oa_type a = WR) as of
     [] \<Rightarrow> M r | a # _ \<Rightarrow> (M r)\<lparr>occ_data := oa_copy a, occ_wts := fin\<rparr>)"

lemma occ_cleanup_commit:
  assumes "start < fin" "distinct (map oa_row as)" "\<forall>a\<in>set as. \<not> start < occ_wts (M (oa_row a))"
  shows "occ_cleanup True RCOK fin as M = Inr (installed fin as M)"
  using assms(2,3)
proof (induction as)
  case (Cons a as)
  have "filter (\<lambda>b. oa_row b = oa_row a \<and> oa_type b = WR) as = []" using Cons.prems(1) by (auto simp: filter_empty_conv image_iff)
  then have same: "installed fin as M (oa_row a) = M (oa_row a)" by (simp add: installed_def)
  have lt: "occ_wts (M (oa_row a)) < fin" using Cons.prems(2) assms(1) by (auto simp: not_less intro: le_less_trans)
  have "installed fin (a # as) M = (if oa_type a = WR
      then (installed fin as M)(oa_row a := (M (oa_row a))\<lparr>occ_data := oa_copy a, occ_wts := fin\<rparr>) else installed fin as M)"
    by (auto simp: installed_def fun_eq_iff)
  then show ?case using Cons.IH Cons.prems same lt by (auto simp: occ_row_write_def Let_def fun_eq_iff)
qed (simp add: installed_def)

lemma occ_release_all_spec:
  "occ_release_all as M r = (if r \<in> oa_row ` set as then occ_release (M r) else M r)"
  by (induction as arbitrary: M) (auto simp: occ_release_def)

lemma bubble_sort_set [simp]: "set (bubble_sort key xs) = set xs"
  by (rule mset_eq_setD [OF mset_bubble_sort])

lemma bubble_sort_distinct: "distinct (map f (bubble_sort key xs)) \<longleftrightarrow> distinct (map f xs)"
  by (rule mset_eq_imp_distinct_iff) simp

lemma installed_perm:
  assumes "set as = set bs" "distinct (map oa_row as)" "distinct (map oa_row bs)"
  shows "installed fin as M = installed fin bs M"
proof
  fix r
  let ?P = "\<lambda>a. oa_row a = r \<and> oa_type a = WR"
  have one: "filter ?P cs = [] \<or> (\<exists>c. filter ?P cs = [c])" if "distinct (map oa_row cs)" for cs :: "'a occ_acc list"
    using that
  proof (induction cs)
    case (Cons c cs)
    then show ?case by (auto simp: filter_empty_conv image_iff)
  qed simp
  have "set (filter ?P as) = set (filter ?P bs)" using assms(1) by simp
  then have "filter ?P as = filter ?P bs" using one [OF assms(2)] one [OF assms(3)] by fastforce
  then show "installed fin as M r = installed fin bs M r" by (simp add: installed_def)
qed

text \<open>The outcome of a validation, with \<open>M1\<close> the memory when the last latch was taken.\<close>

definition occ_outcome :: "txn_ptr \<Rightarrow> ts_t \<Rightarrow> ts_t \<Rightarrow> 'd occ_acc list \<Rightarrow> RC \<Rightarrow> 'd occ_mem \<Rightarrow> 'd occ_mem \<Rightarrow> bool" where
  "occ_outcome me start fin accs rc M1 M' \<longleftrightarrow>
     (if rc = RCOK then
        distinct (map oa_row accs) \<and> holds me (oa_row ` set accs) M1 \<and>
        (\<forall>a\<in>set accs. \<not> start < occ_wts (M1 (oa_row a))) \<and>
        M' = (\<lambda>r. if occ_latch (M1 r) = Some me then occ_release (installed fin accs M1 r) else M1 r)
      else
        rc = Abort \<and> (\<exists>a\<in>set accs. start < occ_wts (M1 (oa_row a))) \<and>
        M' = (\<lambda>r. if occ_latch (M1 r) = Some me then occ_release (M1 r) else M1 r))"

lemma occ_per_row_validate_aux:
  assumes "\<forall>e\<in>set es. occ_rely me e" "holds me {} M" "start < fin"
  shows "case per_row_validate key me start fin accs es M of
      Inr (rc, M') \<Rightarrow> \<exists>M1. occ_outcome me start fin accs rc M1 M'
    | Inl f \<Rightarrow> f = Spinning"
proof (cases "occ_lock_loop me start (bubble_sort (\<lambda>a. key (oa_row a)) accs) 0 es M")
  case (Inl f)
  then show ?thesis using occ_lock_loop_fault [OF Inl] by (simp add: per_row_validate_def Let_def)
next
  case (Inr x)
  let ?as = "bubble_sort (\<lambda>a. key (oa_row a)) accs"
  obtain ok n M1 where x: "x = (ok, n, M1)" by (cases x)
  then obtain k where k: "n = k" "locked_prefix me start {} ?as ok k M1"
    using occ_lock_loop_spec [OF _ assms(1,2), of start ?as 0 ok n M1] Inr by auto
  then have L: "holds me (oa_row ` set (take k ?as)) M1" "distinct (map oa_row (take k ?as))" by (simp_all add: locked_prefix_def)
  have latched: "occ_latch (M1 r) = Some me \<longleftrightarrow> r \<in> oa_row ` set (take k ?as)" for r using L(1) by (simp add: holds_def)
  show ?thesis
  proof (cases ok)
    case True
    then have all: "k = length ?as" "\<forall>a\<in>set ?as. \<not> start < occ_wts (M1 (oa_row a))" using k(2) by (simp_all add: locked_prefix_def)
    then have d: "distinct (map oa_row ?as)" using L(2) by simp
    have "installed fin ?as M1 = installed fin accs M1"
      using d by (intro installed_perm) (simp_all add: bubble_sort_distinct)
    then have "per_row_validate key me start fin accs es M = Inr (RCOK, occ_release_all ?as (installed fin accs M1))"
      using occ_cleanup_commit [OF assms(3) d all(2)] Inr x True k(1) all(1) by (simp add: per_row_validate_def Let_def)
    moreover have "occ_outcome me start fin accs RCOK M1 (occ_release_all ?as (installed fin accs M1))"
    proof -
      have "installed fin accs M1 r = M1 r" if "r \<notin> oa_row ` set accs" for r
        using that by (auto simp: installed_def filter_empty_conv image_iff split: list.split dest: filter_eq_ConsD)
      moreover have "holds me (oa_row ` set accs) M1" using L(1) all(1) by simp
      ultimately show ?thesis
        using d all(2) latched all(1) by (auto simp: occ_outcome_def bubble_sort_distinct occ_release_all_spec fun_eq_iff)
    qed
    ultimately show ?thesis by auto
  next
    case False
    then have "per_row_validate key me start fin accs es M = Inr (Abort, occ_release_all (take k ?as) M1)"
      using Inr x k(1) by (simp add: per_row_validate_def Let_def occ_cleanup_abort)
    moreover have "\<exists>a\<in>set accs. start < occ_wts (M1 (oa_row a))" using False k(2) by (simp add: locked_prefix_def)
    ultimately show ?thesis using latched by (auto simp: occ_outcome_def occ_release_all_spec fun_eq_iff)
  qed
qed

definition occ_demo_mem :: "nat occ_mem" where
  "occ_demo_mem r = \<lparr>occ_latch = None, occ_wts = (if r = 2 then 9 else 3), occ_data = 0\<rparr>"

definition occ_demo_accs :: "nat occ_acc list" where
  "occ_demo_accs = [\<lparr>oa_type = WR, oa_row = 1, oa_copy = 7\<rparr>, \<lparr>oa_type = RD, oa_row = 0, oa_copy = 0\<rparr>]"

definition occ_demo_key :: "row_ptr \<Rightarrow> string \<times> 64 word" where
  "occ_demo_key r = (''T'', of_nat r)"

lemma occ_rely_id: "occ_rely me (\<lambda>M. M)"
  by (simp add: occ_rely_def)

lemma occ_demo_free: "holds me {} occ_demo_mem"
  by (simp add: holds_def occ_demo_mem_def)

text \<open>C35: Validation per row is atomic whatever the other threads do between its latches. A commit means that in one state
  of the memory every accessed row was latched by this transaction and unchanged since it started; all its writes are
  installed with the new timestamp and all latches released. An abort means that some accessed row had changed; nothing
  but the latches is touched. The only way not to return is to wait for a latch.\<close>

theorem occ_per_row_validate_atomic:
  assumes "\<forall>e\<in>set es. occ_rely me e" "holds me {} M" "start < fin"
  shows "case per_row_validate key me start fin accs es M of
      Inr (rc, M') \<Rightarrow> \<exists>M1. occ_outcome me start fin accs rc M1 M'
    | Inl f \<Rightarrow> f = Spinning"
  using assms by (rule occ_per_row_validate_aux)

lemma occ_per_row_validate_atomic_witness:
  "\<exists>M'. per_row_validate occ_demo_key 5 6 8 occ_demo_accs [\<lambda>M. M, \<lambda>M. M] occ_demo_mem = Inr (RCOK, M') \<and>
     (\<exists>M1. occ_outcome 5 6 8 occ_demo_accs RCOK M1 M')"
proof -
  have run: "case per_row_validate occ_demo_key 5 6 8 occ_demo_accs [\<lambda>M. M, \<lambda>M. M] occ_demo_mem of Inr (rc, M') \<Rightarrow> rc = RCOK | Inl f \<Rightarrow> False"
    by code_simp
  have "case per_row_validate occ_demo_key 5 6 8 occ_demo_accs [\<lambda>M. M, \<lambda>M. M] occ_demo_mem of
      Inr (rc, M') \<Rightarrow> \<exists>M1. occ_outcome 5 6 8 occ_demo_accs rc M1 M' | Inl f \<Rightarrow> f = Spinning"
    by (rule occ_per_row_validate_atomic) (simp_all add: occ_rely_id occ_demo_free)
  then show ?thesis using run by (auto split: sum.splits)
qed

text \<open>A transaction that accesses a row twice can never commit: the second latch of the row waits for the first.\<close>

theorem occ_self_deadlock:
  assumes "\<forall>e\<in>set es. occ_rely me e" "holds me {} M" "start < fin" "\<not> distinct (map oa_row accs)"
  shows "\<nexists>M'. per_row_validate key me start fin accs es M = Inr (RCOK, M')"
  using occ_per_row_validate_aux [OF assms(1-3), where key = key and accs = accs] assms(4) by (auto simp: occ_outcome_def)

lemma occ_self_deadlock_witness:
  "\<nexists>M'. per_row_validate occ_demo_key 5 6 8 (occ_demo_accs @ occ_demo_accs) (replicate 9 (\<lambda>M. M)) occ_demo_mem = Inr (RCOK, M')"
proof (rule occ_self_deadlock)
  show "\<not> distinct (map oa_row (occ_demo_accs @ occ_demo_accs))" by code_simp
qed (simp_all add: occ_rely_id occ_demo_free)

subsection \<open>Correctness of the central validation\<close>

text \<open>The invariant of the history: numbered down from the counter.\<close>

definition central_inv :: "OptCC \<Rightarrow> bool" where
  "central_inv s \<longleftrightarrow> sorted_wrt (\<lambda>a b. se_tn a > se_tn b) (history s) \<and>
     (\<forall>h\<in>set (history s). se_tn h \<le> tnc s) \<and> (history s \<noteq> [] \<longrightarrow> se_tn (hd (history s)) = tnc s) \<and>
     (history s = [] \<longrightarrow> tnc s = 0) \<and> distinct (map se_txn (active s)) \<and> (\<forall>a\<in>set (active s). se_rows a \<noteq> [])"

lemma test_valid_iff: "test_valid a b \<longleftrightarrow> set (se_rows a) \<inter> set (se_rows b) = {}"
  by (auto simp: test_valid_def list_all_iff)

lemma check_history_iff:
  "sorted_wrt (\<lambda>a b. se_tn a > se_tn b) hs \<Longrightarrow>
     check_history start rset hs \<longleftrightarrow> (\<forall>h\<in>set hs. start < se_tn h \<longrightarrow> test_valid h rset)"
proof (induction hs)
  case (Cons h hs)
  show ?case
  proof (cases "start < se_tn h")
    case False
    then have "\<forall>h'\<in>set hs. \<not> start < se_tn h'" using Cons.prems by (auto dest: less_trans)
    with False show ?thesis by auto
  qed (use Cons in auto)
qed simp

lemma dropWhile_desc:
  "sorted_wrt (\<lambda>a b. se_tn a > se_tn b) hs \<Longrightarrow> set (dropWhile (\<lambda>h. se_tn h > n) hs) = {h \<in> set hs. se_tn h \<le> n}"
proof (induction hs)
  case (Cons h hs)
  then show ?case by (auto simp: not_less dest: less_le_trans less_imp_le)
qed simp

lemma check_active_iff: "check_active rset wset as \<longleftrightarrow> (\<forall>a\<in>set as. test_valid a rset \<and> test_valid a wset)"
  by (induction as) auto

lemma central_check_iff:
  assumes "central_inv s"
  shows "central_check start rset wset (tnc s, active s, history s) \<longleftrightarrow>
    (\<forall>h\<in>set (history s). start < se_tn h \<longrightarrow> set (se_rows h) \<inter> set (se_rows rset) = {}) \<and>
    (\<forall>a\<in>set (active s). set (se_rows a) \<inter> (set (se_rows rset) \<union> set (se_rows wset)) = {})"
proof -
  have S: "sorted_wrt (\<lambda>a b. se_tn a > se_tn b) (history s)" "\<forall>h\<in>set (history s). se_tn h \<le> tnc s" using assms by (simp_all add: central_inv_def)
  have "dropWhile (\<lambda>h. se_tn h > tnc s) (history s) = history s" using S(2) by (cases "history s") (auto simp: not_less)
  moreover have "\<forall>h\<in>set (history s). \<not> start < se_tn h" if "\<not> start < tnc s" using that S(2) by (auto dest: less_le_trans)
  ultimately show ?thesis unfolding central_check_def prod.case check_active_iff
    using check_history_iff [OF S(1)] by (auto simp: test_valid_iff)
qed

lemma unlink_active_ok: "me \<in> se_txn ` set as \<Longrightarrow> distinct (map se_txn as) \<Longrightarrow>
    \<exists>as'. unlink_active me as = Inr as' \<and> as' = filter (\<lambda>a. se_txn a \<noteq> me) as"
proof (induction as)
  case (Cons a as)
  show ?case
  proof (cases "se_txn a = me")
    case True
    then have "filter (\<lambda>b. se_txn b \<noteq> me) as = as" using Cons.prems(2) True by (intro filter_True ballI) (metis distinct.simps(2) image_eqI list.set_map list.simps(9))
    with True show ?thesis by simp
  qed (use Cons in auto)
qed simp

lemma word_inc_less: "x \<noteq> UINT64_MAX \<Longrightarrow> x < x + 1"
proof -
  assume "x \<noteq> UINT64_MAX"
  then have "1 + x \<noteq> 0" by (metis UINT64_MAX_minus_1 add.commute eq_neg_iff_add_eq_0)
  then show "x < x + 1" by (simp add: word_less_nat_alt unatSuc add.commute [of x 1])
qed

lemma central_exit_inv:
  assumes "central_inv s" "se_rows wset \<noteq> [] \<Longrightarrow> se_txn wset \<in> se_txn ` set (active s)" "tnc s \<noteq> UINT64_MAX"
  shows "\<exists>s'. central_exit wset valid s = Inr s' \<and> central_inv s'"
proof (cases "se_rows wset = []")
  case False
  obtain as where as: "unlink_active (se_txn wset) (active s) = Inr as" "as = filter (\<lambda>a. se_txn a \<noteq> se_txn wset) (active s)"
    using unlink_active_ok [of "se_txn wset" "active s"] assms(1,2) False by (auto simp: central_inv_def)
  have ne: "\<forall>a\<in>set as. se_rows a \<noteq> []" using assms(1) as(2) by (simp add: central_inv_def)
  have d: "distinct (map se_txn as)" using assms(1) as(2) by (simp add: central_inv_def distinct_map_filter)
  have lt: "tnc s < tnc s + 1" by (rule word_inc_less [OF assms(3)])
  have "(case history s of [] \<Rightarrow> True | h # _ \<Rightarrow> se_tn h = tnc s)" using assms(1) by (auto simp: central_inv_def split: list.split)
  then show ?thesis
    using False as(1) ne d assms(1) lt by (cases valid) (auto simp: central_exit_def central_inv_def Let_def intro: le_less_trans less_imp_le order.trans)
qed (use assms in \<open>simp add: central_exit_def\<close>)

text \<open>The critical sections of all transactions in any order.\<close>

inductive central_step :: "OptCC \<Rightarrow> OptCC \<Rightarrow> bool" where
  enter: "se_txn wset \<notin> se_txn ` set (active s) \<Longrightarrow> central_step s (snd (central_enter wset s))"
| exit: "wset \<in> set (active s) \<Longrightarrow> tnc s \<noteq> UINT64_MAX \<Longrightarrow> central_exit wset valid s = Inr s' \<Longrightarrow> central_step s s'"

interpretation occ_central: transition_system "\<lambda>s. s = OptCC_init" central_step central_inv
proof
  show "central_inv s" if "s = OptCC_init" for s using that by (simp add: OptCC_init_def central_inv_def)
  show "central_inv t" if "central_inv s" "central_step s t" for s t
    using that(2)
  proof cases
    case (enter wset)
    then show ?thesis using that(1) by (auto simp: central_enter_def central_inv_def)
  next
    case (exit wset valid)
    then show ?thesis using central_exit_inv [OF that(1), of wset valid] by auto
  qed
qed

text \<open>In every state the critical sections of central validation can reach, the check of a transaction succeeds exactly
  when no transaction that finished after the given number wrote a row it read and no transaction being validated writes
  a row it read or writes; and the second critical section of every validating writer goes through (its entry is found
  and the history is numbered without gaps).\<close>

theorem occ_central_check_exact:
  assumes "central_step\<^sup>*\<^sup>* OptCC_init s"
  shows "(central_check start rset wset (fst (central_enter wset s)) \<longleftrightarrow>
      (\<forall>h\<in>set (history s). start < se_tn h \<longrightarrow> set (se_rows h) \<inter> set (se_rows rset) = {}) \<and>
      (\<forall>a\<in>set (active s). set (se_rows a) \<inter> (set (se_rows rset) \<union> set (se_rows wset)) = {})) \<and>
    (\<forall>w\<in>set (active s). tnc s \<noteq> UINT64_MAX \<longrightarrow> (\<exists>s'. central_exit w valid s = Inr s'))"
proof -
  have inv: "central_inv s" by (rule occ_central.reachable_inv [OF refl assms])
  have "\<exists>s'. central_exit w valid s = Inr s'" if "w \<in> set (active s)" "tnc s \<noteq> UINT64_MAX" for w
    using central_exit_inv [OF inv _ that(2), of w valid] that(1) by blast
  then show ?thesis using central_check_iff [OF inv] by (simp add: central_enter_def)
qed

definition occ_demo_set :: "nat \<Rightarrow> row_ptr list \<Rightarrow> set_ent" where
  "occ_demo_set t rs = \<lparr>se_tn = 0, se_txn = t, se_rows = rs\<rparr>"

lemma occ_central_check_exact_witness:
  "central_check 0 (occ_demo_set 1 [4]) (occ_demo_set 1 []) (fst (central_enter (occ_demo_set 1 []) (snd (central_enter (occ_demo_set 2 [4]) OptCC_init)))) \<longleftrightarrow> False"
proof -
  let ?s = "snd (central_enter (occ_demo_set 2 [4]) OptCC_init)"
  have "central_step\<^sup>*\<^sup>* OptCC_init ?s" by (rule r_into_rtranclp, rule enter) (simp add: OptCC_init_def)
  from occ_central_check_exact [OF this, of 0 "occ_demo_set 1 [4]" "occ_demo_set 1 []" True] show ?thesis
    by (simp add: central_enter_def occ_demo_set_def OptCC_init_def)
qed

text \<open>The start of a transaction is a global timestamp and not the transaction number the check expects, so a conflict
  goes unnoticed: transaction 1 (timestamp 1) reads row 4, transaction 2 (timestamp 2) overwrites row 4 and commits, and
  then transaction 1 still validates.\<close>

theorem occ_central_misses_conflict:
  "case bindE (central_validate 2 2 3 1 [\<lparr>oa_type = WR, oa_row = 4, oa_copy = 7\<rparr>] (\<lambda>s. s) occ_demo_mem OptCC_init) (\<lambda>(_, M1, s1).
         central_validate 1 1 4 1 [\<lparr>oa_type = RD, oa_row = 4, oa_copy = 0\<rparr>, \<lparr>oa_type = WR, oa_row = 5, oa_copy = 1\<rparr>] (\<lambda>s. s) M1 s1) of
     Inr (rc, M, s) \<Rightarrow> rc = RCOK \<and> occ_data (M 4) = 7 \<and> occ_data (M 5) = 1
   | Inl _ \<Rightarrow> False"
  by code_simp

end
