(* ===== verification/Vll.thy ===== *)
theory Vll
  imports Base
begin

text \<open>
  Very lightweight locking, \<^verbatim>\<open>concurrency_control/vll.cpp\<close> and \<^verbatim>\<open>concurrency_control/row_vll.cpp\<close>: each
  row counts the readers and writers that have begun, and a transaction that finds a conflicting count is
  blocked and queued. Every critical section of the manager's mutex is one operation; the queue is a list
  in the order of its pointers, its entries named by their addresses. \<open>acc t\<close> is the array of accesses of
  transaction \<open>t\<close>. A row's data is the 64-bit word at offset \<open>100 * fid\<close> of each field \<open>fid\<close>.
\<close>

subsection \<open>Rows\<close>

record Row_vll =
  cs :: int
  cx :: int

definition Row_vll_init :: Row_vll where
  "Row_vll_init = \<lparr>cs = 0, cx = 0\<rparr>"

definition insert_access :: "access_t \<Rightarrow> Row_vll \<Rightarrow> bool \<times> Row_vll" where
  "insert_access type s =
     (if type = RD then (let s' = s\<lparr>cs := cs s + 1\<rparr> in (cx s' > 0, s'))
      else (let s' = s\<lparr>cx := cx s + 1\<rparr> in (cx s' > 1 \<or> cs s' > 0, s')))"

definition remove_access :: "access_t \<Rightarrow> Row_vll \<Rightarrow> fault + Row_vll" where
  "remove_access type s =
     (if type = RD then bindE (assert_that (cs s > 0)) (\<lambda>_. Inr (s\<lparr>cs := cs s - 1\<rparr>))
      else bindE (assert_that (cx s > 0)) (\<lambda>_. Inr (s\<lparr>cx := cx s - 1\<rparr>)))"

subsection \<open>The manager\<close>

record TxnQEntry =
  qe_addr :: nat
  qe_txn :: "txn_ptr option"

record vll_state =
  txn_queue :: "TxnQEntry list"
  txn_queue_size :: int
  vll_rows :: "row_ptr \<Rightarrow> Row_vll"
  vll_type :: "txn_ptr \<Rightarrow> TxnType"
  vll_data :: "row_ptr \<Rightarrow> nat \<Rightarrow> 64 word"
  next_entry :: nat

type_synonym vll_accs = "txn_ptr \<Rightarrow> (access_t \<times> row_ptr) list"

definition VLLMan_init :: "(row_ptr \<Rightarrow> nat \<Rightarrow> 64 word) \<Rightarrow> vll_state" where
  "VLLMan_init d = \<lparr>txn_queue = [], txn_queue_size = 0, vll_rows = (\<lambda>_. Row_vll_init), vll_type = (\<lambda>_. VLL_Free),
     vll_data = d, next_entry = 0\<rparr>"

definition getQEntry :: "vll_state \<Rightarrow> TxnQEntry \<times> vll_state" where
  "getQEntry S = (\<lparr>qe_addr = next_entry S, qe_txn = None\<rparr>, S\<lparr>next_entry := Suc (next_entry S)\<rparr>)"

text \<open>The loop over the accesses; the flag is whether one of them was blocked.\<close>

fun vll_insert :: "(access_t \<times> row_ptr) list \<Rightarrow> bool \<Rightarrow> (row_ptr \<Rightarrow> Row_vll) \<Rightarrow> bool \<times> (row_ptr \<Rightarrow> Row_vll)" where
  "vll_insert [] blocked R = (blocked, R)"
| "vll_insert ((type, r) # as) blocked R =
     (case insert_access type (R r) of (b, s) \<Rightarrow> vll_insert as (blocked \<or> b) (R(r := s)))"

definition beginTxn :: "vll_accs \<Rightarrow> int \<Rightarrow> txn_ptr \<Rightarrow> vll_state \<Rightarrow> int \<times> nat \<times> vll_state" where
  "beginTxn acc TXN_QUEUE_SIZE_LIMIT txn S =
     (let ret = (if txn_queue_size S \<ge> TXN_QUEUE_SIZE_LIMIT then 3 else - 1 :: int);
          (blocked, R) = vll_insert (acc txn) False (vll_rows S);
          S1 = S\<lparr>vll_rows := R, vll_type := (vll_type S)(txn := (if blocked then VLL_Blocked else VLL_Free))\<rparr>;
          (entry, S2) = getQEntry S1;
          S3 = S2\<lparr>txn_queue := txn_queue S2 @ [entry]\<rparr>;
          ret = (if vll_type S3 txn = VLL_Blocked then 1 else 2)
      in (ret, qe_addr entry, S3))"

fun vll_execute :: "nat \<Rightarrow> (access_t \<times> row_ptr) list \<Rightarrow> (row_ptr \<Rightarrow> nat \<Rightarrow> 64 word) \<Rightarrow> fault + (row_ptr \<Rightarrow> nat \<Rightarrow> 64 word)" where
  "vll_execute field_cnt [] D = Inr D"
| "vll_execute field_cnt ((type, r) # as) D =
     (if type = RD then vll_execute field_cnt as D
      else bindE (assert_that (type = WR)) (\<lambda>_.
           vll_execute field_cnt as (D(r := (\<lambda>fid. if fid < field_cnt then 0 else D r fid)))))"

fun vll_remove :: "(access_t \<times> row_ptr) list \<Rightarrow> (row_ptr \<Rightarrow> Row_vll) \<Rightarrow> fault + (row_ptr \<Rightarrow> Row_vll)" where
  "vll_remove [] R = Inr R"
| "vll_remove ((type, r) # as) R = bindE (remove_access type (R r)) (\<lambda>s. vll_remove as (R(r := s)))"

text \<open>Unlinking an entry that is not in the queue breaks the assertions of the list macro.\<close>

fun list_remove_ht :: "nat \<Rightarrow> TxnQEntry list \<Rightarrow> fault + TxnQEntry list" where
  "list_remove_ht e [] = Inl Assert_failed"
| "list_remove_ht e (q # qs) = (if qe_addr q = e then Inr qs else bindE (list_remove_ht e qs) (\<lambda>qs'. Inr (q # qs')))"

definition finishTxn :: "vll_accs \<Rightarrow> txn_ptr \<Rightarrow> nat \<Rightarrow> vll_state \<Rightarrow> fault + vll_state" where
  "finishTxn acc txn entry S =
     bindE (vll_remove (acc txn) (vll_rows S)) (\<lambda>R.
     bindE (list_remove_ht entry (txn_queue S)) (\<lambda>q.
     Inr (S\<lparr>vll_rows := R, txn_queue := q\<rparr>)))"

text \<open>One round of the main loop up to the release of the mutex: take over the transaction at the front of the
  queue, or begin the own one.\<close>

datatype vll_round = Run_front txn_ptr nat | Begun int nat

definition vll_main_round :: "vll_accs \<Rightarrow> int \<Rightarrow> txn_ptr \<Rightarrow> vll_state \<Rightarrow> vll_round \<times> vll_state" where
  "vll_main_round acc limit txn S =
     (let front_txn = (case txn_queue S of [] \<Rightarrow> None | q # _ \<Rightarrow> qe_txn q) in
      case front_txn of
        Some ft \<Rightarrow>
          if vll_type S ft = VLL_Blocked then
            (Run_front ft (qe_addr (hd (txn_queue S))), S\<lparr>vll_type := (vll_type S)(ft := VLL_Free)\<rparr>)
          else (case beginTxn acc limit txn S of (ok, e, S') \<Rightarrow> (Begun ok e, S'))
      | None \<Rightarrow> (case beginTxn acc limit txn S of (ok, e, S') \<Rightarrow> (Begun ok e, S')))"

definition vll_complete :: "vll_accs \<Rightarrow> nat \<Rightarrow> txn_ptr \<Rightarrow> nat \<Rightarrow> vll_state \<Rightarrow> fault + vll_state" where
  "vll_complete acc field_cnt txn entry S =
     bindE (vll_execute field_cnt (acc txn) (vll_data S)) (\<lambda>D. finishTxn acc txn entry (S\<lparr>vll_data := D\<rparr>))"

subsection \<open>The system\<close>

text \<open>The transactions that have begun and not finished, and those of them that a thread is running.\<close>

record vll_sys =
  vll :: vll_state
  begun :: "(txn_ptr \<times> nat) list"
  running :: "(txn_ptr \<times> nat) list"

definition vll_sys_init :: "(row_ptr \<Rightarrow> nat \<Rightarrow> 64 word) \<Rightarrow> vll_sys" where
  "vll_sys_init d = \<lparr>vll = VLLMan_init d, begun = [], running = []\<rparr>"

inductive vll_step :: "vll_accs \<Rightarrow> int \<Rightarrow> nat \<Rightarrow> vll_sys \<Rightarrow> vll_sys \<Rightarrow> bool" for acc limit fc where
  begin_txn: "txn \<notin> fst ` set (begun s) \<Longrightarrow> vll_main_round acc limit txn (vll s) = (Begun ok e, S) \<Longrightarrow>
     vll_step acc limit fc s \<lparr>vll = S, begun = (txn, e) # begun s, running = (if ok = 2 then (txn, e) # running s else running s)\<rparr>"
| run_front: "vll_main_round acc limit txn (vll s) = (Run_front ft e, S) \<Longrightarrow>
     vll_step acc limit fc s (s\<lparr>vll := S, running := (ft, e) # running s\<rparr>)"
| finish: "(txn, e) \<in> set (running s) \<Longrightarrow> vll_complete acc fc txn e (vll s) = Inr S \<Longrightarrow>
     vll_step acc limit fc s \<lparr>vll = S, begun = remove1 (txn, e) (begun s), running = remove1 (txn, e) (running s)\<rparr>"

subsection \<open>Invariant\<close>

definition rd_on :: "row_ptr \<Rightarrow> (access_t \<times> row_ptr) list \<Rightarrow> nat" where
  "rd_on r as = length (filter (\<lambda>a. fst a = RD \<and> snd a = r) as)"

definition wr_on :: "row_ptr \<Rightarrow> (access_t \<times> row_ptr) list \<Rightarrow> nat" where
  "wr_on r as = length (filter (\<lambda>a. fst a \<noteq> RD \<and> snd a = r) as)"

definition vll_conflict :: "(access_t \<times> row_ptr) list \<Rightarrow> (access_t \<times> row_ptr) list \<Rightarrow> bool" where
  "vll_conflict as bs \<longleftrightarrow> (\<exists>a\<in>set as. \<exists>b\<in>set bs. snd a = snd b \<and> (fst a \<noteq> RD \<or> fst b \<noteq> RD))"

definition vll_counts :: "vll_accs \<Rightarrow> (row_ptr \<Rightarrow> Row_vll) \<Rightarrow> (txn_ptr \<times> nat) list \<Rightarrow> bool" where
  "vll_counts acc R B \<longleftrightarrow> (\<forall>r. cs (R r) = int (\<Sum>t\<leftarrow>B. rd_on r (acc (fst t))) \<and> cx (R r) = int (\<Sum>t\<leftarrow>B. wr_on r (acc (fst t))))"

definition vll_queue :: "nat \<Rightarrow> TxnQEntry list \<Rightarrow> (txn_ptr \<times> nat) list \<Rightarrow> bool" where
  "vll_queue nxt Q B \<longleftrightarrow> distinct (map qe_addr Q) \<and> qe_addr ` set Q = snd ` set B \<and> distinct (map snd B) \<and>
     (\<forall>q\<in>set Q. qe_txn q = None \<and> qe_addr q < nxt)"

definition vll_running :: "vll_accs \<Rightarrow> (txn_ptr \<times> nat) list \<Rightarrow> (txn_ptr \<times> nat) list \<Rightarrow> bool" where
  "vll_running acc B P \<longleftrightarrow> distinct (map fst B) \<and> distinct P \<and> set P \<subseteq> set B \<and>
     (\<forall>t\<in>set P. \<forall>u\<in>set P. fst t \<noteq> fst u \<longrightarrow> \<not> vll_conflict (acc (fst t)) (acc (fst u)))"

definition vll_inv :: "vll_accs \<Rightarrow> vll_sys \<Rightarrow> bool" where
  "vll_inv acc s \<longleftrightarrow> vll_counts acc (vll_rows (vll s)) (begun s) \<and>
     vll_queue (next_entry (vll s)) (txn_queue (vll s)) (begun s) \<and> vll_running acc (begun s) (running s)"

lemma on_simps [simp]:
  "rd_on r [] = 0" "wr_on r [] = 0"
  "rd_on r (a # as) = (if fst a = RD \<and> snd a = r then Suc (rd_on r as) else rd_on r as)"
  "wr_on r (a # as) = (if fst a \<noteq> RD \<and> snd a = r then Suc (wr_on r as) else wr_on r as)"
  by (simp_all add: rd_on_def wr_on_def)

lemma vll_insert_counts:
  "vll_insert as b R = (b', R') \<Longrightarrow>
     cs (R' r) = cs (R r) + int (rd_on r as) \<and> cx (R' r) = cx (R r) + int (wr_on r as) \<and> (b \<longrightarrow> b')"
proof (induction as arbitrary: b R)
  case (Cons a as)
  obtain ty q where a: "a = (ty, q)" by (cases a)
  obtain b1 s where ins: "insert_access ty (R q) = (b1, s)" by (metis surj_pair)
  then have "vll_insert as (b \<or> b1) (R(q := s)) = (b', R')" using Cons.prems by (simp add: a)
  from Cons.IH [OF this] ins show ?case by (auto simp: a insert_access_def Let_def split: if_splits)
qed simp

text \<open>A transaction that is not blocked met no writer where it reads and nobody where it writes.\<close>

lemma vll_insert_free:
  "vll_insert as b R = (False, R') \<Longrightarrow> (\<forall>r. 0 \<le> cs (R r) \<and> 0 \<le> cx (R r)) \<Longrightarrow>
     \<forall>a\<in>set as. cx (R (snd a)) = 0 \<and> (fst a \<noteq> RD \<longrightarrow> cs (R (snd a)) = 0)"
proof (induction as arbitrary: b R)
  case (Cons a as)
  obtain ty q where a: "a = (ty, q)" by (cases a)
  obtain b1 s where ins: "insert_access ty (R q) = (b1, s)" by (metis surj_pair)
  then have run: "vll_insert as (b \<or> b1) (R(q := s)) = (False, R')" using Cons.prems(1) by (simp add: a)
  have nb: "\<not> b1" using vll_insert_counts [OF run] by blast
  have s: "cs (R q) \<le> cs s" "cx (R q) \<le> cx s" using ins by (auto simp: insert_access_def Let_def split: if_splits)
  have nn: "\<forall>r. 0 \<le> cs ((R(q := s)) r) \<and> 0 \<le> cx ((R(q := s)) r)" using Cons.prems(2) s by (auto intro: order.trans)
  have "cx (R q) = 0" "ty \<noteq> RD \<longrightarrow> cs (R q) = 0"
    using ins nb Cons.prems(2) [THEN spec, of q] by (auto simp: insert_access_def Let_def split: if_splits)
  moreover have "cx (R (snd c)) = 0 \<and> (fst c \<noteq> RD \<longrightarrow> cs (R (snd c)) = 0)" if "c \<in> set as" for c
    using Cons.IH [OF run nn] that s Cons.prems(2) [THEN spec, of q] by (force split: if_splits)
  ultimately show ?case by (simp add: a)
qed simp

lemma vll_remove_ok:
  "\<forall>r. int (rd_on r as) \<le> cs (R r) \<and> int (wr_on r as) \<le> cx (R r) \<Longrightarrow>
     \<exists>R'. vll_remove as R = Inr R' \<and> (\<forall>r. cs (R' r) = cs (R r) - int (rd_on r as) \<and> cx (R' r) = cx (R r) - int (wr_on r as))"
proof (induction as arbitrary: R)
  case (Cons a as)
  obtain ty q where a: "a = (ty, q)" by (cases a)
  let ?s = "if ty = RD then (R q)\<lparr>cs := cs (R q) - 1\<rparr> else (R q)\<lparr>cx := cx (R q) - 1\<rparr>"
  have rem: "remove_access ty (R q) = Inr ?s" 
    using Cons.prems [THEN spec, of q] by (cases "ty = RD") (simp_all add: a remove_access_def)
  have "\<forall>r. int (rd_on r as) \<le> cs ((R(q := ?s)) r) \<and> int (wr_on r as) \<le> cx ((R(q := ?s)) r)"
  proof
    fix r show "int (rd_on r as) \<le> cs ((R(q := ?s)) r) \<and> int (wr_on r as) \<le> cx ((R(q := ?s)) r)"
      using Cons.prems [THEN spec, of r] by (auto simp: a split: if_splits)
  qed
  from Cons.IH [OF this] obtain R' where R': "vll_remove as (R(q := ?s)) = Inr R'"
    "\<forall>r. cs (R' r) = cs ((R(q := ?s)) r) - int (rd_on r as) \<and> cx (R' r) = cx ((R(q := ?s)) r) - int (wr_on r as)" by blast
  have "vll_remove (a # as) R = Inr R'" using rem R'(1) by (simp add: a)
  then show ?case using R'(2) by (auto simp: a)
qed simp

lemma list_remove_ht_ok:
  "e \<in> qe_addr ` set qs \<Longrightarrow> distinct (map qe_addr qs) \<Longrightarrow> list_remove_ht e qs = Inr (filter (\<lambda>q. qe_addr q \<noteq> e) qs)"
proof (induction qs)
  case (Cons q qs)
  show ?case
  proof (cases "qe_addr q = e")
    case True
    then have "\<forall>x\<in>set qs. qe_addr x \<noteq> e" using Cons.prems(2) by (metis distinct.simps(2) image_eqI list.set_map list.simps(9))
    then show ?thesis using True by simp
  qed (use Cons in auto)
qed simp

lemma vll_inv_init: "vll_inv acc (vll_sys_init d)"
  by (simp add: vll_inv_def vll_counts_def vll_queue_def vll_running_def vll_sys_init_def VLLMan_init_def Row_vll_init_def)

lemma on_zero: "rd_on r as = 0 \<longleftrightarrow> (\<forall>a\<in>set as. snd a = r \<longrightarrow> fst a \<noteq> RD)" "wr_on r as = 0 \<longleftrightarrow> (\<forall>a\<in>set as. snd a = r \<longrightarrow> fst a = RD)"
  by (auto simp: rd_on_def wr_on_def filter_empty_conv)

lemma vll_round_begins:
  assumes "vll_inv acc s"
  shows "vll_main_round acc limit txn (vll s) = (case beginTxn acc limit txn (vll s) of (ok, e, S') \<Rightarrow> (Begun ok e, S'))"
  using assms by (cases "txn_queue (vll s)") (auto simp: vll_main_round_def vll_inv_def vll_queue_def)

lemma vll_free_no_conflict:
  assumes C: "vll_counts acc R B" and ins: "vll_insert (acc txn) False R = (False, R')" and u: "u \<in> set B"
  shows "\<not> vll_conflict (acc txn) (acc (fst u))"
proof -
  have "\<forall>a\<in>set (acc txn). cx (R (snd a)) = 0 \<and> (fst a \<noteq> RD \<longrightarrow> cs (R (snd a)) = 0)"
    using C by (intro vll_insert_free [OF ins]) (simp add: vll_counts_def)
  then have z: "wr_on (snd a) (acc (fst u)) = 0 \<and> (fst a \<noteq> RD \<longrightarrow> rd_on (snd a) (acc (fst u)) = 0)" if "a \<in> set (acc txn)" for a
    using C u that by (simp add: vll_counts_def)
  show ?thesis
  proof
    assume "vll_conflict (acc txn) (acc (fst u))"
    then obtain a b where ab: "a \<in> set (acc txn)" "b \<in> set (acc (fst u))" "snd b = snd a" "fst a \<noteq> RD \<or> fst b \<noteq> RD"
      unfolding vll_conflict_def by metis
    with z [OF ab(1)] show False unfolding on_zero by metis
  qed
qed

lemma vll_running_add:
  assumes "vll_running acc B P" "txn \<notin> fst ` set B" "\<forall>u\<in>set B. \<not> vll_conflict (acc txn) (acc (fst u))"
  shows "vll_running acc ((txn, e) # B) ((txn, e) # P)"
proof -
  have sym: "vll_conflict as bs = vll_conflict bs as" for as bs unfolding vll_conflict_def by metis
  have n: "(txn, e) \<notin> set P" using assms(1,2) by (force simp: vll_running_def)
  have nc: "\<not> vll_conflict (acc txn) (acc (fst u))" "\<not> vll_conflict (acc (fst u)) (acc txn)" if "u \<in> set P" for u
    using assms(1,3) that sym by (auto simp: vll_running_def)
  show ?thesis using assms(1,2) n nc by (auto simp: vll_running_def)
qed

lemma vll_begin_inv:
  assumes inv: "vll_inv acc s" and new: "txn \<notin> fst ` set (begun s)" and run: "beginTxn acc limit txn (vll s) = (ok, e, S)"
  shows "vll_inv acc \<lparr>vll = S, begun = (txn, e) # begun s, running = (if ok = 2 then (txn, e) # running s else running s)\<rparr>"
proof -
  obtain bl R where ins: "vll_insert (acc txn) False (vll_rows (vll s)) = (bl, R)" by (metis surj_pair)
  have r: "ok = (if bl then 1 else 2)" "e = next_entry (vll s)" "vll_rows S = R"
    "txn_queue S = txn_queue (vll s) @ [\<lparr>qe_addr = next_entry (vll s), qe_txn = None\<rparr>]" "next_entry S = Suc (next_entry (vll s))"
    using run ins by (auto simp: beginTxn_def getQEntry_def Let_def)
  have I: "vll_counts acc (vll_rows (vll s)) (begun s)" "vll_queue (next_entry (vll s)) (txn_queue (vll s)) (begun s)"
    "vll_running acc (begun s) (running s)" using inv by (simp_all add: vll_inv_def)
  have "vll_counts acc R ((txn, e) # begun s)" using I(1) vll_insert_counts [OF ins] by (simp add: vll_counts_def)
  moreover have "vll_queue (next_entry S) (txn_queue S) ((txn, e) # begun s)"
  proof -
    have "\<forall>q\<in>set (txn_queue (vll s)). qe_addr q < Suc e \<and> qe_addr q \<noteq> e" using I(2) by (auto simp: vll_queue_def r(2))
    moreover have "e \<notin> qe_addr ` set (txn_queue (vll s))" using calculation by blast
    moreover have "e \<notin> snd ` set (begun s)" using calculation(2) I(2) by (simp add: vll_queue_def)
    ultimately show ?thesis using I(2) r by (auto simp: vll_queue_def)
  qed
  moreover have "vll_running acc ((txn, e) # begun s) (if ok = 2 then (txn, e) # running s else running s)"
  proof (cases bl)
    case True
    then show ?thesis using I(3) new r(1) by (auto simp: vll_running_def)
  next
    case False
    then show ?thesis using vll_running_add [OF I(3) new] vll_free_no_conflict [OF I(1)] ins r(1) by simp
  qed
  ultimately show ?thesis by (simp add: vll_inv_def r(3))
qed

lemma vll_finish_ok:
  assumes inv: "vll_inv acc s" and run: "(txn, e) \<in> set (running s)"
  shows "\<exists>S'. finishTxn acc txn e ((vll s)\<lparr>vll_data := D\<rparr>) = Inr S' \<and>
     vll_inv acc \<lparr>vll = S', begun = remove1 (txn, e) (begun s), running = remove1 (txn, e) (running s)\<rparr>"
proof -
  let ?B = "remove1 (txn, e) (begun s)"
  have I: "vll_counts acc (vll_rows (vll s)) (begun s)" "vll_queue (next_entry (vll s)) (txn_queue (vll s)) (begun s)"
    "vll_running acc (begun s) (running s)" using inv by (simp_all add: vll_inv_def)
  have t: "(txn, e) \<in> set (begun s)" using I(3) run by (auto simp: vll_running_def)
  have C: "cs (vll_rows (vll s) q) = int (rd_on q (acc txn)) + int (\<Sum>t\<leftarrow>?B. rd_on q (acc (fst t)))"
    "cx (vll_rows (vll s) q) = int (wr_on q (acc txn)) + int (\<Sum>t\<leftarrow>?B. wr_on q (acc (fst t)))" for q
    using I(1) sum_list_map_remove1 [OF t, of "\<lambda>t. rd_on q (acc (fst t))"] sum_list_map_remove1 [OF t, of "\<lambda>t. wr_on q (acc (fst t))"]
    by (simp_all add: vll_counts_def)
  obtain R where R: "vll_remove (acc txn) (vll_rows (vll s)) = Inr R"
    "\<forall>r. cs (R r) = cs (vll_rows (vll s) r) - int (rd_on r (acc txn)) \<and> cx (R r) = cx (vll_rows (vll s) r) - int (wr_on r (acc txn))"
    using vll_remove_ok [of "acc txn" "vll_rows (vll s)"] C by auto
  have B: "distinct (begun s)" "set ?B = set (begun s) - {(txn, e)}"
    using I(3) by (auto simp: vll_running_def distinct_map)
  have dm: "distinct (map f ?B)" if "distinct (map f (begun s))" for f :: "txn_ptr \<times> nat \<Rightarrow> 'b"
    using that B by (auto simp: distinct_map distinct_remove1 intro: inj_on_subset)
  let ?Q = "filter (\<lambda>q. qe_addr q \<noteq> e) (txn_queue (vll s))"
  have q: "list_remove_ht e (txn_queue (vll s)) = Inr ?Q"
    using I(2) t by (intro list_remove_ht_ok) (force simp: vll_queue_def)+
  have "vll_counts acc R ?B" using R(2) C by (simp add: vll_counts_def)
  moreover have "vll_queue (next_entry (vll s)) ?Q ?B"
  proof -
    have "snd ` set ?B = snd ` set (begun s) - {e}"
    proof -
      have "inj_on snd (set (begun s))" using I(2) by (simp add: vll_queue_def distinct_map)
      then have "snd ` (set (begun s) - {(txn, e)}) = snd ` set (begun s) - snd ` {(txn, e)}"
        using t by (intro inj_on_image_set_diff) auto
      then show ?thesis by (simp add: B(2))
    qed
    moreover have "qe_addr ` set ?Q = qe_addr ` set (txn_queue (vll s)) - {e}" by auto
    ultimately show ?thesis using I(2) dm [of snd] by (simp add: vll_queue_def distinct_map_filter)
  qed
  moreover have "vll_running acc ?B (remove1 (txn, e) (running s))"
  proof -
    have "set (remove1 (txn, e) (running s)) = set (running s) - {(txn, e)}" using I(3) by (simp add: vll_running_def)
    then show ?thesis using I(3) B(2) dm [of fst] by (auto simp: vll_running_def distinct_remove1)
  qed
  ultimately show ?thesis using R(1) q by (simp add: finishTxn_def vll_inv_def)
qed

lemma vll_execute_ok: "\<forall>a\<in>set as. fst a \<in> {RD, WR} \<Longrightarrow> \<exists>D'. vll_execute fc as D = Inr D'"
  by (induction as arbitrary: D) auto

lemma vll_complete_inv:
  assumes "vll_inv acc s" "(txn, e) \<in> set (running s)" "vll_complete acc fc txn e (vll s) = Inr S"
  shows "vll_inv acc \<lparr>vll = S, begun = remove1 (txn, e) (begun s), running = remove1 (txn, e) (running s)\<rparr>"
proof -
  obtain D where "finishTxn acc txn e ((vll s)\<lparr>vll_data := D\<rparr>) = Inr S" using assms(3) by (auto simp: vll_complete_def bindE_eq_Inr)
  with vll_finish_ok [OF assms(1,2), of D] show ?thesis by auto
qed

interpretation vll_sys: transition_system "\<lambda>s. \<exists>d. s = vll_sys_init d" "vll_step acc limit fc" "vll_inv acc"
proof
  show "vll_inv acc s" if "\<exists>d. s = vll_sys_init d" for s using that vll_inv_init by blast
  show "vll_inv acc t" if "vll_inv acc s" "vll_step acc limit fc s t" for s t
    using that(2)
  proof cases
    case (begin_txn txn ok e S)
    then have "beginTxn acc limit txn (vll s) = (ok, e, S)"
      using vll_round_begins [OF that(1), of limit txn] by (auto split: prod.splits)
    with vll_begin_inv [OF that(1) begin_txn(2)] show ?thesis using begin_txn(1) by simp
  next
    case (run_front txn ft e S)
    then show ?thesis using vll_round_begins [OF that(1), of limit txn] by (auto split: prod.splits)
  next
    case (finish txn e S)
    then show ?thesis using vll_complete_inv [OF that(1)] by simp
  qed
qed

subsection \<open>Theorems\<close>

text \<open>C36: In every reachable state the transactions being executed do not conflict: if two of them access a row, both read
  it. The counters of the rows are exact, so a running transaction of reads and writes always completes: no counter
  underflows and its queue entry is found.\<close>

theorem vll_isolation:
  assumes "(vll_step acc limit fc)\<^sup>*\<^sup>* (vll_sys_init d) s" "t \<in> set (running s)"
  shows "(\<forall>u\<in>set (running s). fst u \<noteq> fst t \<longrightarrow> \<not> vll_conflict (acc (fst t)) (acc (fst u))) \<and>
    ((\<forall>a\<in>set (acc (fst t)). fst a \<in> {RD, WR}) \<longrightarrow> (\<exists>S. vll_complete acc fc (fst t) (snd t) (vll s) = Inr S))"
proof (intro conjI impI)
  have inv: "vll_inv acc s" using vll_sys.reachable_inv [of "vll_sys_init d" acc limit fc s] assms(1) by blast
  then show "\<forall>u\<in>set (running s). fst u \<noteq> fst t \<longrightarrow> \<not> vll_conflict (acc (fst t)) (acc (fst u))"
    using assms(2) unfolding vll_inv_def vll_running_def by metis
  assume "\<forall>a\<in>set (acc (fst t)). fst a \<in> {RD, WR}"
  then obtain D where D: "vll_execute fc (acc (fst t)) (vll_data (vll s)) = Inr D" using vll_execute_ok by blast
  obtain S where "finishTxn acc (fst t) (snd t) ((vll s)\<lparr>vll_data := D\<rparr>) = Inr S"
    using vll_finish_ok [OF inv, of "fst t" "snd t" D] assms(2) by auto
  then show "\<exists>S. vll_complete acc fc (fst t) (snd t) (vll s) = Inr S" using D by (simp add: vll_complete_def)
qed

text \<open>A transaction that was blocked is never run. The queue entries never get their transaction
  (\<^verbatim>\<open>getQEntry\<close> leaves it \<^verbatim>\<open>NULL\<close> and nobody sets it), so the first branch of the main loop is dead: once begun
  and not running, a transaction stays so, and the counts it left on its rows stay too.\<close>

theorem vll_blocked_never_runs:
  assumes "(vll_step acc limit fc)\<^sup>*\<^sup>* (vll_sys_init d) s" "(vll_step acc limit fc)\<^sup>*\<^sup>* s s'"
    "t \<in> set (begun s)" "t \<notin> set (running s)"
  shows "t \<in> set (begun s') \<and> t \<notin> set (running s')"
  using assms(2)
proof (induction rule: rtranclp_induct)
  case (step s1 s2)
  have "(vll_step acc limit fc)\<^sup>*\<^sup>* (vll_sys_init d) s1" using assms(1) step.hyps(1) by (rule rtranclp_trans)
  then have inv: "vll_inv acc s1" using vll_sys.reachable_inv [of "vll_sys_init d" acc limit fc s1] by blast
  show ?case
    using step.hyps(2)
  proof cases
    case (begin_txn txn ok e S)
    then have "(txn, e) \<noteq> t" using step.IH by force
    then show ?thesis using begin_txn step.IH by auto
  next
    case (run_front txn ft e S)
    then show ?thesis using vll_round_begins [OF inv, of limit txn] by (auto split: prod.splits)
  next
    case (finish txn e S)
    have "(txn, e) \<noteq> t" using finish(2) step.IH by auto
    then show ?thesis using finish step.IH by (auto dest: notin_set_remove1)
  qed
qed (use assms(3,4) in blast)

text \<open>Transaction 1 writes row 0 and transaction 2 reads it.\<close>

definition vll_demo_accs :: vll_accs where
  "vll_demo_accs t = (if t = 1 then [(WR, 0), (RD, 1)] else [(RD, 0)])"

definition vll_demo0 :: vll_sys where
  "vll_demo0 = vll_sys_init (\<lambda>_ _. 7)"

definition vll_demo1 :: vll_sys where
  "vll_demo1 = \<lparr>vll = snd (vll_main_round vll_demo_accs 10 1 (vll vll_demo0)), begun = [(1, 0)], running = [(1, 0)]\<rparr>"

definition vll_demo2 :: vll_sys where
  "vll_demo2 = \<lparr>vll = snd (vll_main_round vll_demo_accs 10 2 (vll vll_demo1)), begun = [(2, 1), (1, 0)], running = [(1, 0)]\<rparr>"

lemma vll_demo_steps:
  "vll_step vll_demo_accs 10 3 vll_demo0 vll_demo1" "vll_step vll_demo_accs 10 3 vll_demo1 vll_demo2"
proof -
  have "fst (vll_main_round vll_demo_accs 10 1 (vll vll_demo0)) = Begun 2 0" by code_simp
  then have "vll_main_round vll_demo_accs 10 1 (vll vll_demo0) = (Begun 2 0, vll vll_demo1)" by (simp add: vll_demo1_def prod_eq_iff)
  from vll_step.begin_txn [OF _ this, of 3] show "vll_step vll_demo_accs 10 3 vll_demo0 vll_demo1"
    by (simp add: vll_demo1_def vll_demo0_def vll_sys_init_def)
  have "fst (vll_main_round vll_demo_accs 10 2 (vll vll_demo1)) = Begun 1 1" by code_simp
  then have "vll_main_round vll_demo_accs 10 2 (vll vll_demo1) = (Begun 1 1, vll vll_demo2)" by (simp add: vll_demo2_def prod_eq_iff)
  from vll_step.begin_txn [OF _ this, of 3] show "vll_step vll_demo_accs 10 3 vll_demo1 vll_demo2"
    by (simp add: vll_demo2_def vll_demo1_def)
qed

lemma vll_demo_reach: "(vll_step vll_demo_accs 10 3)\<^sup>*\<^sup>* (vll_sys_init (\<lambda>_ _. 7)) vll_demo2"
  using vll_demo_steps unfolding vll_demo0_def by (meson rtranclp.rtrancl_into_rtrancl rtranclp.rtrancl_refl)

lemma vll_isolation_witness:
  "\<exists>S. vll_complete vll_demo_accs 3 1 0 (vll vll_demo2) = Inr S"
  using vll_isolation [OF vll_demo_reach, of "(1, 0)"] by (simp add: vll_demo2_def vll_demo_accs_def)

text \<open>Even after transaction 1 has finished, transaction 2 waits.\<close>

lemma vll_blocked_never_runs_witness:
  "\<exists>s'. (vll_step vll_demo_accs 10 3)\<^sup>*\<^sup>* vll_demo2 s' \<and> begun s' = [(2, 1)] \<and>
     (2, 1) \<in> set (begun s') \<and> (2, 1) \<notin> set (running s')"
proof -
  have "case vll_complete vll_demo_accs 3 1 0 (vll vll_demo2) of Inr _ \<Rightarrow> True | Inl _ \<Rightarrow> False" by code_simp
  then obtain S where S: "vll_complete vll_demo_accs 3 1 0 (vll vll_demo2) = Inr S" by (auto split: sum.splits)
  let ?s = "\<lparr>vll = S, begun = remove1 (1, 0) (begun vll_demo2), running = remove1 (1, 0) (running vll_demo2)\<rparr>"
  have "vll_step vll_demo_accs 10 3 vll_demo2 ?s"
    using S by (intro vll_step.finish) (simp_all add: vll_demo2_def)
  then have run: "(vll_step vll_demo_accs 10 3)\<^sup>*\<^sup>* vll_demo2 ?s" by (rule r_into_rtranclp)
  moreover have "(2, 1) \<in> set (begun ?s) \<and> (2, 1) \<notin> set (running ?s)"
    by (rule vll_blocked_never_runs [OF vll_demo_reach run]) (simp_all add: vll_demo2_def)
  moreover have "begun ?s = [(2, 1)]" by (simp add: vll_demo2_def)
  ultimately show ?thesis by blast
qed

end
