(* ===== verification/Row_ts.thy ===== *)
theory Row_ts
  imports Base
begin

text \<open>
  Basic timestamp ordering, \<^verbatim>\<open>concurrency_control/row_ts.cpp\<close>: per row the timestamps of the last read
  and write and three linked lists of pending requests, with the minimal timestamp of each. Every call
  runs under the row's latch. A list is in the order of its \<^verbatim>\<open>next\<close> pointers. \<open>TS_TWR\<close> is the
  compile-time switch of the Thomas write rule. Freeing entries and rows is left out.
\<close>

subsection \<open>State\<close>

record TsReqEntry =
  tr_txn :: txn_ptr
  tr_row :: "row_ptr option"
  tr_ts :: ts_t

record Row_ts =
  wts :: ts_t
  rts :: ts_t
  min_wts :: ts_t
  min_rts :: ts_t
  min_pts :: ts_t
  readreq :: "TsReqEntry list"
  writereq :: "TsReqEntry list"
  prereq :: "TsReqEntry list"
  preq_len :: "64 word"

record 'd ts_state =
  rt :: Row_ts
  rt_row :: row_ptr
  rt_txns :: txn_tab
  rt_data :: "'d row_tab"

definition Row_ts_init :: Row_ts where
  "Row_ts_init = \<lparr>wts = 0, rts = 0, min_wts = UINT64_MAX, min_rts = UINT64_MAX, min_pts = UINT64_MAX,
     readreq = [], writereq = [], prereq = [], preq_len = 0\<rparr>"

subsection \<open>The lists of requests\<close>

definition ts_buffer_req :: "TsType \<Rightarrow> txn_ptr \<Rightarrow> row_ptr option \<Rightarrow> txn_tab \<Rightarrow> Row_ts \<Rightarrow> fault + Row_ts" where
  "ts_buffer_req type txn row T s =
     (let e = \<lparr>tr_txn = txn, tr_row = row, tr_ts = ts_of T txn\<rparr> in
      case type of
        R_REQ \<Rightarrow> Inr (s\<lparr>readreq := e # readreq s, min_rts := (if tr_ts e < min_rts s then tr_ts e else min_rts s)\<rparr>)
      | W_REQ \<Rightarrow> bindE (assert_that (row \<noteq> None)) (\<lambda>_.
          Inr (s\<lparr>writereq := e # writereq s, min_wts := (if tr_ts e < min_wts s then tr_ts e else min_wts s)\<rparr>))
      | P_REQ \<Rightarrow> Inr (s\<lparr>preq_len := preq_len s + 1, prereq := e # prereq s,
                        min_pts := (if tr_ts e < min_pts s then tr_ts e else min_pts s)\<rparr>)
      | XP_REQ \<Rightarrow> Inr s)"

text \<open>Removing the first entry of a transaction.\<close>

fun debuffer_txn :: "txn_ptr \<Rightarrow> TsReqEntry list \<Rightarrow> fault + TsReqEntry list" where
  "debuffer_txn txn [] = Inl Assert_failed"
| "debuffer_txn txn (q # qs) =
     (if tr_txn q = txn then Inr qs else bindE (debuffer_txn txn qs) (\<lambda>qs'. Inr (q # qs')))"

text \<open>Removing all entries up to a timestamp: the removed ones come out in reverse order.\<close>

fun debuffer_ts :: "ts_t \<Rightarrow> TsReqEntry list \<Rightarrow> TsReqEntry list \<Rightarrow> TsReqEntry list \<times> TsReqEntry list" where
  "debuffer_ts ts [] ret = (ret, [])"
| "debuffer_ts ts (q # qs) ret =
     (if tr_ts q \<le> ts then debuffer_ts ts qs (q # ret)
      else case debuffer_ts ts qs ret of (ret', qs') \<Rightarrow> (ret', q # qs'))"

fun min_from :: "TsReqEntry list \<Rightarrow> ts_t \<Rightarrow> ts_t" where
  "min_from [] m = m"
| "min_from (q # qs) m = min_from qs (if tr_ts q < m then tr_ts q else m)"

definition cal_min :: "TsReqEntry list \<Rightarrow> ts_t" where
  "cal_min q = min_from q UINT64_MAX"

subsection \<open>Waking pending requests\<close>

definition ts_copy_to :: "txn_ptr \<Rightarrow> 'd ts_state \<Rightarrow> 'd ts_state" where
  "ts_copy_to txn S = S\<lparr>rt_data := copy_row (cur_row (rt_txns S txn)) (rt_row S) (rt_data S)\<rparr>"

fun serve_reads :: "TsReqEntry list \<Rightarrow> 'd ts_state \<Rightarrow> 'd ts_state" where
  "serve_reads [] S = S"
| "serve_reads (q # qs) S =
     (let S1 = ts_copy_to (tr_txn q) S; s = rt S1 in
      serve_reads qs (S1\<lparr>rt := s\<lparr>rts := (if rts s < tr_ts q then tr_ts q else rts s)\<rparr>,
        rt_txns := (rt_txns S1)(tr_txn q := (rt_txns S1 (tr_txn q))\<lparr>ts_ready := True\<rparr>)\<rparr>))"

text \<open>The loop over the ready writes: their prewrites are removed, and the one with the smallest timestamp is kept.\<close>

fun drop_prewrites :: "TsReqEntry list \<Rightarrow> TsReqEntry option \<Rightarrow> ts_t \<Rightarrow> Row_ts \<Rightarrow> fault + (TsReqEntry option \<times> Row_ts)" where
  "drop_prewrites [] young young_ts s = Inr (young, s)"
| "drop_prewrites (q # qs) young young_ts s =
     bindE (debuffer_txn (tr_txn q) (prereq s)) (\<lambda>ps.
     let s1 = s\<lparr>prereq := ps, preq_len := preq_len s - 1\<rparr> in
     if tr_ts q < young_ts then drop_prewrites qs (Some q) (tr_ts q) s1
     else drop_prewrites qs young young_ts s1)"

definition ts_output :: "row_ptr \<Rightarrow> ts_t \<Rightarrow> 'd ts_state \<Rightarrow> 'd ts_state" where
  "ts_output row ts S = S\<lparr>rt_data := copy_row (rt_row S) row (rt_data S),
     rt := (rt S)\<lparr>wts := (if wts (rt S) < ts then ts else wts (rt S))\<rparr>\<rparr>"

text \<open>One round of the loop of \<^verbatim>\<open>update_buffer\<close>; the flag tells whether it goes on. First its second
  half, after the reads have been served.\<close>

definition ts_write_phase :: "'d ts_state \<Rightarrow> fault + (bool \<times> 'd ts_state)" where
  "ts_write_phase S2 =
     (let s2 = rt S2; new_min_rts = cal_min (readreq s2) in
      if \<not> new_min_rts > min_rts s2 then Inr (False, S2)
      else
        (let (ready_write, ws) = debuffer_ts new_min_rts (writereq s2) [];
             s3 = s2\<lparr>min_rts := new_min_rts, writereq := ws\<rparr> in
         if ready_write = [] then Inr (False, S2\<lparr>rt := s3\<rparr>)
         else bindE (drop_prewrites ready_write None UINT64_MAX s3) (\<lambda>(young, s4).
           case young of
             None \<Rightarrow> Inl Null_deref
           | Some q \<Rightarrow> (case tr_row q of None \<Rightarrow> Inl Null_deref
               | Some r \<Rightarrow> Inr (True, ts_output r (tr_ts q) (S2\<lparr>rt := s4\<rparr>))))))"

definition ts_round :: "'d ts_state \<Rightarrow> fault + (bool \<times> 'd ts_state)" where
  "ts_round S =
     (let s = rt S; new_min_pts = cal_min (prereq s) in
      bindE (assert_that (new_min_pts \<ge> min_pts s)) (\<lambda>_.
      if \<not> new_min_pts > min_pts s then Inr (False, S)
      else
        (let (ready_read, rs) = debuffer_ts new_min_pts (readreq s) [];
             S1 = S\<lparr>rt := s\<lparr>min_pts := new_min_pts, readreq := rs\<rparr>\<rparr> in
         if ready_read = [] then Inr (False, S1)
         else ts_write_phase (serve_reads ready_read S1))))"

text \<open>Every round that goes on has served a read, so one more round than there are reads is enough.\<close>

fun ts_loop :: "nat \<Rightarrow> 'd ts_state \<Rightarrow> fault + 'd ts_state" where
  "ts_loop 0 S = Inl Spinning"
| "ts_loop (Suc k) S = bindE (ts_round S) (\<lambda>(again, S1). if again then ts_loop k S1 else Inr S1)"

definition ts_update_buffer :: "'d ts_state \<Rightarrow> fault + 'd ts_state" where
  "ts_update_buffer S = ts_loop (Suc (length (readreq (rt S)))) S"

subsection \<open>Access\<close>

definition ts_read :: "txn_ptr \<Rightarrow> 'd ts_state \<Rightarrow> fault + (RC \<times> 'd ts_state)" where
  "ts_read txn S =
     (let s = rt S; ts = ts_of (rt_txns S) txn in
      if ts < wts s then Inr (Abort, S)
      else if ts > min_pts s then
        bindE (ts_buffer_req R_REQ txn None (rt_txns S) s) (\<lambda>s'.
        Inr (WAIT, S\<lparr>rt := s', rt_txns := (rt_txns S)(txn := (rt_txns S txn)\<lparr>ts_ready := False\<rparr>)\<rparr>))
      else Inr (RCOK, (ts_copy_to txn S)\<lparr>rt := s\<lparr>rts := (if rts s < ts then ts else rts s)\<rparr>\<rparr>))"

definition ts_prewrite :: "bool \<Rightarrow> txn_ptr \<Rightarrow> 'd ts_state \<Rightarrow> fault + (RC \<times> 'd ts_state)" where
  "ts_prewrite TS_TWR txn S =
     (let s = rt S; ts = ts_of (rt_txns S) txn in
      if ts < rts s then Inr (Abort, S)
      else if \<not> TS_TWR \<and> ts < wts s then Inr (Abort, S)
      else bindE (ts_buffer_req P_REQ txn None (rt_txns S) s) (\<lambda>s'. Inr (RCOK, S\<lparr>rt := s'\<rparr>)))"

text \<open>Removing the own prewrite and waking what it held up.\<close>

definition ts_done :: "txn_ptr \<Rightarrow> 'd ts_state \<Rightarrow> fault + 'd ts_state" where
  "ts_done txn S =
     bindE (debuffer_txn txn (prereq (rt S))) (\<lambda>ps.
     ts_update_buffer (S\<lparr>rt := (rt S)\<lparr>prereq := ps, preq_len := preq_len (rt S) - 1\<rparr>\<rparr>))"

definition ts_write :: "bool \<Rightarrow> txn_ptr \<Rightarrow> row_ptr \<Rightarrow> 'd ts_state \<Rightarrow> fault + (RC \<times> 'd ts_state)" where
  "ts_write TS_TWR txn row S =
     (let s = rt S; ts = ts_of (rt_txns S) txn in
      if TS_TWR \<and> ts < wts s then bindE (ts_done txn S) (\<lambda>S'. Inr (RCOK, S'))
      else if \<not> TS_TWR \<and> ts > min_pts s \<or> ts > min_rts s then
        bindE (ts_buffer_req W_REQ txn (Some row) (rt_txns S) s) (\<lambda>s'. Inr (RCOK, S\<lparr>rt := s'\<rparr>))
      else bindE (ts_done txn (ts_output row ts S)) (\<lambda>S'. Inr (RCOK, S')))"

definition ts_access :: "bool \<Rightarrow> txn_ptr \<Rightarrow> TsType \<Rightarrow> row_ptr \<Rightarrow> 'd ts_state \<Rightarrow> fault + (RC \<times> 'd ts_state)" where
  "ts_access TS_TWR txn type row S =
     (case type of
        R_REQ \<Rightarrow> ts_read txn S
      | P_REQ \<Rightarrow> ts_prewrite TS_TWR txn S
      | W_REQ \<Rightarrow> ts_write TS_TWR txn row S
      | XP_REQ \<Rightarrow> bindE (ts_done txn S) (\<lambda>S'. Inr (RCOK, S')))"

subsection \<open>The lists and their minima\<close>

lemma le_min_from: "t \<le> min_from qs m \<longleftrightarrow> t \<le> m \<and> (\<forall>q\<in>set qs. t \<le> tr_ts q)"
  by (induction qs arbitrary: m) auto

lemma le_cal_min: "t \<le> cal_min qs \<longleftrightarrow> (\<forall>q\<in>set qs. t \<le> tr_ts q)"
  by (simp add: cal_min_def le_min_from)

lemma cal_min_le: "q \<in> set qs \<Longrightarrow> cal_min qs \<le> tr_ts q"
  using le_cal_min [of "cal_min qs" qs] by blast

lemma cal_min_antimono: "set qs' \<subseteq> set qs \<Longrightarrow> cal_min qs \<le> cal_min qs'"
  by (auto simp: le_cal_min cal_min_le)

lemma cal_min_Nil [simp]: "cal_min [] = UINT64_MAX"
  by (simp add: cal_min_def)

lemma cal_min_Cons: "cal_min (q # qs) = (if tr_ts q < cal_min qs then tr_ts q else cal_min qs)"
proof (rule order_antisym)
  show "cal_min (q # qs) \<le> (if tr_ts q < cal_min qs then tr_ts q else cal_min qs)"
    using le_cal_min [of "cal_min (q # qs)" "q # qs"] by (auto simp: le_cal_min)
  show "(if tr_ts q < cal_min qs then tr_ts q else cal_min qs) \<le> cal_min (q # qs)"
    using cal_min_le [of _ qs] by (fastforce simp: le_cal_min)
qed

lemma debuffer_ts_filter:
  "debuffer_ts ts qs ret = (rev [q\<leftarrow>qs. tr_ts q \<le> ts] @ ret, [q\<leftarrow>qs. \<not> tr_ts q \<le> ts])"
  by (induction ts qs ret rule: debuffer_ts.induct) auto

lemma debuffer_txn_ok:
  "txn \<in> tr_txn ` set qs \<Longrightarrow>
     \<exists>qs'. debuffer_txn txn qs = Inr qs' \<and> set qs' \<subseteq> set qs \<and> {q \<in> set qs. tr_txn q \<noteq> txn} \<subseteq> set qs'"
proof (induction qs)
  case (Cons q qs)
  show ?case
  proof (cases "tr_txn q = txn")
    case False
    then obtain qs' where "debuffer_txn txn qs = Inr qs'" "set qs' \<subseteq> set qs"
        "{q \<in> set qs. tr_txn q \<noteq> txn} \<subseteq> set qs'"
      using Cons by auto
    then show ?thesis using False by auto
  qed auto
qed simp

lemma serve_reads_rt:
  "rt (serve_reads qs S) = (rt S)\<lparr>rts := fold (\<lambda>q m. if m < tr_ts q then tr_ts q else m) qs (rts (rt S))\<rparr>"
  by (induction qs S rule: serve_reads.induct) (auto simp: Let_def ts_copy_to_def)

lemma fold_max_le:
  "fold (\<lambda>q m. if m < tr_ts q then tr_ts q else m) qs m \<le> (b::ts_t) \<longleftrightarrow> m \<le> b \<and> (\<forall>q\<in>set qs. tr_ts q \<le> b)"
  by (induction qs arbitrary: m) auto

subsection \<open>Invariant\<close>

text \<open>Every buffered write still has its prewrite, and prewrites are above the reads served.\<close>

definition ts_entries_ok :: "Row_ts \<Rightarrow> bool" where
  "ts_entries_ok s \<longleftrightarrow> (\<forall>p\<in>set (prereq s). rts s \<le> tr_ts p) \<and> distinct (map tr_txn (writereq s)) \<and>
     (\<forall>w\<in>set (writereq s). tr_row w \<noteq> None \<and> tr_ts w < UINT64_MAX \<and>
        (\<exists>p\<in>set (prereq s). tr_txn p = tr_txn w \<and> tr_ts p = tr_ts w))"

definition ts_reads_ok :: "Row_ts \<Rightarrow> bool" where
  "ts_reads_ok s \<longleftrightarrow> min_rts s = cal_min (readreq s) \<and> (\<forall>r\<in>set (readreq s). min_pts s < tr_ts r)"

definition ts_inv :: "Row_ts \<Rightarrow> bool" where
  "ts_inv s \<longleftrightarrow> ts_entries_ok s \<and> ts_reads_ok s \<and> min_pts s = cal_min (prereq s)"

text \<open>While a prewrite has been removed and the buffers are not updated yet, \<open>min_pts\<close> lags behind.\<close>

definition ts_inv_lag :: "Row_ts \<Rightarrow> bool" where
  "ts_inv_lag s \<longleftrightarrow> ts_entries_ok s \<and> ts_reads_ok s \<and> min_pts s \<le> cal_min (prereq s)"

lemma ts_inv_init: "ts_inv Row_ts_init"
  by (simp add: ts_inv_def ts_entries_ok_def ts_reads_ok_def Row_ts_init_def)

lemma ts_inv_lag: "ts_inv s \<Longrightarrow> ts_inv_lag s"
  by (simp add: ts_inv_def ts_inv_lag_def)

lemma ts_inv_preq_len [simp]:
  "ts_inv (s\<lparr>preq_len := n\<rparr>) = ts_inv s" "ts_inv_lag (s\<lparr>preq_len := n\<rparr>) = ts_inv_lag s"
  "ts_inv (s\<lparr>wts := w\<rparr>) = ts_inv s" "ts_inv_lag (s\<lparr>wts := w\<rparr>) = ts_inv_lag s"
  by (simp_all add: ts_inv_def ts_inv_lag_def ts_entries_ok_def ts_reads_ok_def)

text \<open>Removing the prewrite of a transaction that has no buffered write.\<close>

lemma debuffer_txn_lag:
  assumes "ts_inv_lag s" "txn \<in> tr_txn ` set (prereq s)" "txn \<notin> tr_txn ` set (writereq s)"
  shows "\<exists>ps. debuffer_txn txn (prereq s) = Inr ps \<and> ts_inv_lag (s\<lparr>prereq := ps\<rparr>) \<and> set ps \<subseteq> set (prereq s) \<and>
    {q \<in> set (prereq s). tr_txn q \<noteq> txn} \<subseteq> set ps"
proof -
  obtain ps where ps: "debuffer_txn txn (prereq s) = Inr ps" "set ps \<subseteq> set (prereq s)"
      "{q \<in> set (prereq s). tr_txn q \<noteq> txn} \<subseteq> set ps"
    using debuffer_txn_ok [OF assms(2)] by blast
  have "ts_entries_ok (s\<lparr>prereq := ps\<rparr>)"
    using assms(1,3) ps(2,3) unfolding ts_inv_lag_def ts_entries_ok_def by simp (smt (verit) image_eqI mem_Collect_eq subsetD)
  moreover have "ts_reads_ok (s\<lparr>prereq := ps\<rparr>)"
    using assms(1) by (simp add: ts_inv_lag_def ts_reads_ok_def)
  moreover have "min_pts s \<le> cal_min ps"
    using assms(1) cal_min_antimono [OF ps(2)] order_trans by (fastforce simp: ts_inv_lag_def)
  ultimately show ?thesis using ps by (simp add: ts_inv_lag_def)
qed

text \<open>The loop over the ready writes does not fail, and picks one of them.\<close>

lemma drop_prewrites_ok:
  assumes "ts_inv_lag s" "distinct (map tr_txn ws)" "tr_txn ` set ws \<inter> tr_txn ` set (writereq s) = {}"
    "tr_txn ` set ws \<subseteq> tr_txn ` set (prereq s)"
  shows "\<exists>young' s'. drop_prewrites ws young young_ts s = Inr (young', s') \<and> ts_inv_lag s' \<and>
    readreq s' = readreq s \<and> writereq s' = writereq s \<and> rts s' = rts s \<and>
    (young' = young \<and> (\<forall>w\<in>set ws. young_ts \<le> tr_ts w) \<or> (\<exists>w\<in>set ws. young' = Some w))"
  using assms
proof (induction ws arbitrary: young young_ts s)
  case (Cons w ws)
  obtain ps where ps: "debuffer_txn (tr_txn w) (prereq s) = Inr ps" "ts_inv_lag (s\<lparr>prereq := ps\<rparr>)"
      "{q \<in> set (prereq s). tr_txn q \<noteq> tr_txn w} \<subseteq> set ps"
    using debuffer_txn_lag [OF Cons.prems(1), of "tr_txn w"] Cons.prems(3,4) by auto
  let ?s = "s\<lparr>prereq := ps, preq_len := preq_len s - 1\<rparr>"
  have pre: "ts_inv_lag ?s" using ps(2) by simp
  have dis: "distinct (map tr_txn ws)" "tr_txn ` set ws \<inter> tr_txn ` set (writereq ?s) = {}"
    using Cons.prems(2,3) by auto
  have cov: "tr_txn ` set ws \<subseteq> tr_txn ` set (prereq ?s)"
  proof
    fix t assume t: "t \<in> tr_txn ` set ws"
    moreover have "tr_txn w \<notin> tr_txn ` set ws" using Cons.prems(2) by simp
    ultimately have "t \<noteq> tr_txn w" by metis
    moreover have "t \<in> tr_txn ` set (prereq s)" using t Cons.prems(4) by auto
    ultimately show "t \<in> tr_txn ` set (prereq ?s)" using ps(3) by auto
  qed
  note IH = Cons.IH [OF pre dis cov]
  show ?case
  proof (cases "tr_ts w < young_ts")
    case True
    then show ?thesis using IH [of "Some w" "tr_ts w"] ps(1) by (auto simp: Let_def)
  next
    case False
    then show ?thesis using IH [of young young_ts] ps(1) by (auto simp: Let_def)
  qed
qed simp

lemma fold_max_bound:
  "\<forall>q\<in>set qs. tr_ts q \<le> b \<Longrightarrow>
     fold (\<lambda>q m. if m < tr_ts q then tr_ts q else m) qs m \<le> (b::ts_t) \<or>
     fold (\<lambda>q m. if m < tr_ts q then tr_ts q else m) qs m \<le> m"
proof (cases "m \<le> b")
  case True
  then show "\<forall>q\<in>set qs. tr_ts q \<le> b \<Longrightarrow> ?thesis" by (simp add: fold_max_le)
next
  case False
  assume "\<forall>q\<in>set qs. tr_ts q \<le> b"
  then have "\<forall>q\<in>set qs. tr_ts q \<le> m" using False by (meson linear order_trans)
  then show ?thesis by (simp add: fold_max_le)
qed

lemma ts_write_phase_ok:
  assumes en: "ts_entries_ok (rt S)" and rd: "\<forall>r\<in>set (readreq (rt S)). min_pts (rt S) < tr_ts r"
    and mr: "min_rts (rt S) \<le> cal_min (readreq (rt S))" and mp: "min_pts (rt S) = cal_min (prereq (rt S))"
  shows "(\<exists>S'. ts_write_phase S = Inr (False, S') \<and> ts_inv (rt S')) \<or>
    (\<exists>S'. ts_write_phase S = Inr (True, S') \<and> ts_inv_lag (rt S') \<and> readreq (rt S') = readreq (rt S))"
proof -
  define s where "s = rt S"
  define n where "n = cal_min (readreq s)"
  define rw where "rw = rev [q\<leftarrow>writereq s. tr_ts q \<le> n]"
  define ws where "ws = [q\<leftarrow>writereq s. \<not> tr_ts q \<le> n]"
  define s3 where "s3 = s\<lparr>min_rts := n, writereq := ws\<rparr>"
  note facts = en [folded s_def] rd [folded s_def] mr [folded s_def] mp [folded s_def]
  have ent: "ts_entries_ok s3"
    using facts(1) by (auto simp: ts_entries_ok_def s3_def ws_def distinct_map_filter)
  have inv3: "ts_inv s3"
    using ent facts(2,4) by (simp add: ts_inv_def ts_reads_ok_def s3_def n_def)
  show ?thesis
  proof (cases "n > min_rts s")
    case False
    then have "ts_inv s" using facts by (simp add: ts_inv_def ts_reads_ok_def n_def)
    then show ?thesis using False by (simp add: ts_write_phase_def Let_def s_def n_def)
  next
    case gt: True
    note unf = ts_write_phase_def Let_def debuffer_ts_filter s_def [symmetric] n_def [symmetric]
      rw_def [symmetric] ws_def [symmetric] s3_def [symmetric]
    show ?thesis
    proof (cases "rw = []")
      case True
      then show ?thesis using gt inv3 by (simp add: unf)
    next
      case False
      have c1: "distinct (map tr_txn rw)"
        using facts(1) by (simp add: ts_entries_ok_def rw_def rev_map [symmetric] distinct_map_filter)
      have c2: "tr_txn ` set rw \<inter> tr_txn ` set (writereq s3) = {}"
        using facts(1) by (fastforce simp: ts_entries_ok_def rw_def s3_def ws_def distinct_map dest: inj_onD)
      have c3: "tr_txn ` set rw \<subseteq> tr_txn ` set (prereq s3)"
      proof
        fix t assume "t \<in> tr_txn ` set rw"
        then obtain w where "w \<in> set (writereq s)" "t = tr_txn w" by (auto simp: rw_def)
        then obtain p where "p \<in> set (prereq s)" "tr_txn p = t"
          using facts(1) unfolding ts_entries_ok_def by blast
        then show "t \<in> tr_txn ` set (prereq s3)" by (auto simp: s3_def)
      qed
      obtain young s4 where dp: "drop_prewrites rw None UINT64_MAX s3 = Inr (young, s4)"
          "ts_inv_lag s4" "readreq s4 = readreq s3"
          "young = None \<and> (\<forall>w\<in>set rw. UINT64_MAX \<le> tr_ts w) \<or> (\<exists>w\<in>set rw. young = Some w)"
        using drop_prewrites_ok [OF ts_inv_lag [OF inv3] c1 c2 c3] by blast
      have w: "\<forall>w\<in>set rw. tr_row w \<noteq> None \<and> tr_ts w < UINT64_MAX"
        using facts(1) by (auto simp: ts_entries_ok_def rw_def)
      have "\<exists>w\<in>set rw. young = Some w"
        using dp(4) w False by (metis list.set_sel(1) not_le)
      then obtain q r where "young = Some q" "tr_row q = Some r" using w by auto
      then show ?thesis using gt False dp(1-3) by (simp add: unf ts_output_def) (simp add: s3_def)
    qed
  qed
qed

text \<open>A round serves the reads below the new minimum, hands out ready writes, and keeps the invariant.\<close>

lemma ts_inv_lag_sel:
  assumes "ts_inv_lag s"
  shows "ts_entries_ok s" "ts_reads_ok s" "min_pts s \<le> cal_min (prereq s)"
  using assms by (simp_all add: ts_inv_lag_def)

lemma ts_served_inv:
  assumes "ts_inv_lag s" and m: "m = cal_min (prereq s)"
    and r: "rts' \<le> m \<or> rts' \<le> rts s" 
  shows "ts_entries_ok (s\<lparr>rts := rts', min_pts := m, readreq := rs, min_rts := n, writereq := [w\<leftarrow>writereq s. P w]\<rparr>)"
proof -
  have "rts' \<le> tr_ts p" if "p \<in> set (prereq s)" for p
    using r cal_min_le [OF that] that ts_inv_lag_sel(1) [OF assms(1)] m order_trans
    by (fastforce simp: ts_entries_ok_def)
  then show ?thesis
    using ts_inv_lag_sel(1) [OF assms(1)] by (auto simp: ts_entries_ok_def distinct_map_filter)
qed

lemma ts_round_ok:
  assumes inv: "ts_inv_lag (rt S)"
  shows "(\<exists>S'. ts_round S = Inr (False, S') \<and> ts_inv (rt S')) \<or>
    (\<exists>S'. ts_round S = Inr (True, S') \<and> ts_inv_lag (rt S') \<and>
       length (readreq (rt S')) < length (readreq (rt S)))"
proof -
  define s where "s = rt S"
  define m where "m = cal_min (prereq s)"
  define rr where "rr = rev [q\<leftarrow>readreq s. tr_ts q \<le> m]"
  define rs where "rs = [q\<leftarrow>readreq s. \<not> tr_ts q \<le> m]"
  note lag = ts_inv_lag_sel [OF inv, folded s_def]
  have le: "min_pts s \<le> m" using lag(3) by (simp add: m_def)
  have mr: "\<forall>r\<in>set rs. m < tr_ts r" by (auto simp: rs_def)
  show ?thesis
  proof (cases "m > min_pts s")
    case False
    then have "min_pts s = m" using le by simp
    then have "ts_inv s" using lag by (simp add: ts_inv_def m_def)
    then show ?thesis using False le by (simp add: ts_round_def Let_def s_def m_def)
  next
    case gt: True
    show ?thesis
    proof (cases "rr = []")
      case True
      then have rs: "rs = readreq s" by (simp add: rs_def rr_def filter_empty_conv)
      have "ts_inv (s\<lparr>min_pts := m, readreq := rs\<rparr>)"
        using lag mr rs by (simp add: ts_inv_def ts_entries_ok_def ts_reads_ok_def m_def)
      then show ?thesis using gt le True
        by (simp add: ts_round_def Let_def debuffer_ts_filter s_def [symmetric] m_def [symmetric]
            rr_def [symmetric] rs_def [symmetric])
    next
      case False
      define S2 where "S2 = serve_reads rr (S\<lparr>rt := s\<lparr>min_pts := m, readreq := rs\<rparr>\<rparr>)"
      have rrm: "\<forall>r\<in>set rr. tr_ts r \<le> m" by (auto simp: rr_def)
      obtain R where S2: "rt S2 = s\<lparr>min_pts := m, readreq := rs, rts := R\<rparr>" and R: "R \<le> m \<or> R \<le> rts s"
        using fold_max_bound [OF rrm, of "rts s"] by (simp add: S2_def serve_reads_rt)
      have len: "length rs < length (readreq s)"
        using False unfolding rr_def rs_def by (auto simp: filter_empty_conv intro: length_filter_less)
      have rd: "ts_round S = ts_write_phase S2"
        using gt le False by (simp add: ts_round_def Let_def debuffer_ts_filter s_def [symmetric]
            m_def [symmetric] rr_def [symmetric] rs_def [symmetric] S2_def)
      have en: "ts_entries_ok (s\<lparr>rts := R, min_pts := m, readreq := rs, min_rts := n, writereq := [w\<leftarrow>writereq s. P w]\<rparr>)" for n P
        using ts_served_inv [OF inv [folded s_def] m_def R] .
      have "min_rts s \<le> cal_min rs"
        using lag(2) cal_min_antimono [of rs "readreq s"] by (auto simp: ts_reads_ok_def rs_def)
      moreover have "ts_entries_ok (rt S2)"
        using en [where n = "min_rts s" and P = "\<lambda>_. True"] by (simp add: S2 ts_entries_ok_def)
      ultimately have "(\<exists>S'. ts_write_phase S2 = Inr (False, S') \<and> ts_inv (rt S')) \<or>
          (\<exists>S'. ts_write_phase S2 = Inr (True, S') \<and> ts_inv_lag (rt S') \<and> readreq (rt S') = rs)"
        using ts_write_phase_ok [of S2] mr m_def by (simp add: S2)
      then show ?thesis using len rd by (auto simp: s_def)
    qed
  qed
qed

lemma ts_loop_ok:
  "ts_inv_lag (rt S) \<Longrightarrow> length (readreq (rt S)) < k \<Longrightarrow> \<exists>S'. ts_loop k S = Inr S' \<and> ts_inv (rt S')"
proof (induction k arbitrary: S)
  case (Suc k)
  show ?case
    using ts_round_ok [OF Suc.prems(1)]
  proof (elim disjE exE conjE)
    fix S' assume "ts_round S = Inr (True, S')" "ts_inv_lag (rt S')"
      "length (readreq (rt S')) < length (readreq (rt S))"
    then show ?thesis using Suc.IH [of S'] Suc.prems(2) by auto
  qed auto
qed simp

text \<open>What the caller keeps to: it writes or gives up a row it holds the running prewrite of.\<close>

definition ts_prewritten :: "txn_ptr \<Rightarrow> 'd ts_state \<Rightarrow> bool" where
  "ts_prewritten txn S \<longleftrightarrow> txn \<notin> tr_txn ` set (writereq (rt S)) \<and> ts_of (rt_txns S) txn < UINT64_MAX \<and>
     (\<exists>p\<in>set (prereq (rt S)). tr_txn p = txn \<and> tr_ts p = ts_of (rt_txns S) txn)"

lemma ts_done_ok:
  assumes "ts_inv (rt S)" "ts_prewritten txn S"
  shows "\<exists>S'. ts_done txn S = Inr S' \<and> ts_inv (rt S')"
proof -
  obtain ps where "debuffer_txn txn (prereq (rt S)) = Inr ps" "ts_inv_lag (rt S\<lparr>prereq := ps\<rparr>)"
    using debuffer_txn_lag [OF ts_inv_lag [OF assms(1)], of txn] assms(2) by (auto simp: ts_prewritten_def)
  then show ?thesis
    by (simp add: ts_done_def ts_update_buffer_def ts_loop_ok del: ts_loop.simps)
qed

lemma ts_read_ok:
  assumes inv: "ts_inv (rt S)"
  shows "\<exists>rc S'. ts_read txn S = Inr (rc, S') \<and> ts_inv (rt S')"
proof -
  let ?ts = "ts_of (rt_txns S) txn"
  note d = inv [unfolded ts_inv_def]
  consider "?ts < wts (rt S)" | "\<not> ?ts < wts (rt S)" "?ts > min_pts (rt S)"
    | "\<not> ?ts < wts (rt S)" "?ts \<le> min_pts (rt S)" by fastforce
  then show ?thesis
  proof cases
    case 2
    then show ?thesis using d
      by (auto simp: ts_read_def Let_def ts_buffer_req_def ts_inv_def ts_entries_ok_def ts_reads_ok_def cal_min_Cons)
  next
    case 3
    have "\<forall>p\<in>set (prereq (rt S)). ?ts \<le> tr_ts p"
      using 3 d by (simp add: le_cal_min)
    then show ?thesis using 3 d
      by (auto simp: ts_read_def Let_def ts_copy_to_def ts_inv_def ts_entries_ok_def ts_reads_ok_def)
  qed (use inv in \<open>simp add: ts_read_def\<close>)
qed

lemma ts_prewrite_ok:
  assumes inv: "ts_inv (rt S)"
  shows "\<exists>rc S'. ts_prewrite twr txn S = Inr (rc, S') \<and> ts_inv (rt S')"
proof (cases "ts_of (rt_txns S) txn < rts (rt S) \<or> (\<not> twr \<and> ts_of (rt_txns S) txn < wts (rt S))")
  case False
  then show ?thesis using inv
    by (auto simp: ts_prewrite_def Let_def ts_buffer_req_def ts_inv_def ts_entries_ok_def ts_reads_ok_def cal_min_Cons)
qed (use inv in \<open>auto simp: ts_prewrite_def Let_def\<close>)

lemma ts_write_ok:
  assumes inv: "ts_inv (rt S)" and pre: "ts_prewritten txn S"
  shows "\<exists>rc S'. ts_write twr txn row S = Inr (rc, S') \<and> ts_inv (rt S')"
proof -
  let ?ts = "ts_of (rt_txns S) txn"
  consider "twr \<and> ?ts < wts (rt S)"
    | "\<not> (twr \<and> ?ts < wts (rt S))" "\<not> twr \<and> ?ts > min_pts (rt S) \<or> ?ts > min_rts (rt S)"
    | "\<not> (twr \<and> ?ts < wts (rt S))" "\<not> (\<not> twr \<and> ?ts > min_pts (rt S) \<or> ?ts > min_rts (rt S))" by blast
  then show ?thesis
  proof cases
    case 1
    then show ?thesis using ts_done_ok [OF assms] by (auto simp: ts_write_def Let_def)
  next
    case 2
    then show ?thesis using inv pre
      by (auto simp: ts_write_def Let_def ts_buffer_req_def ts_prewritten_def ts_inv_def ts_entries_ok_def ts_reads_ok_def)
  next
    case 3
    have "ts_inv (rt (ts_output row ?ts S))" using inv by (simp add: ts_output_def)
    moreover have "ts_prewritten txn (ts_output row ?ts S)" using pre by (simp add: ts_prewritten_def ts_output_def)
    ultimately show ?thesis using 3 ts_done_ok [of "ts_output row ?ts S" txn] by (auto simp: ts_write_def Let_def)
  qed
qed

subsection \<open>Reads that are served\<close>

text \<open>What an access does for the reads that wait: the timestamps of the last read and write never go back, and a read
  that leaves its list is recorded and its transaction is woken.\<close>

definition ts_advances :: "'d ts_state \<Rightarrow> 'd ts_state \<Rightarrow> bool" where
  "ts_advances S S' \<longleftrightarrow> rts (rt S) \<le> rts (rt S') \<and> wts (rt S) \<le> wts (rt S') \<and>
     (\<forall>t. ts_ready (rt_txns S t) \<longrightarrow> ts_ready (rt_txns S' t)) \<and> set (readreq (rt S')) \<subseteq> set (readreq (rt S)) \<and>
     (\<forall>r\<in>set (readreq (rt S)). r \<notin> set (readreq (rt S')) \<longrightarrow> tr_ts r \<le> rts (rt S') \<and> ts_ready (rt_txns S' (tr_txn r)))"

lemma ts_advances_refl: "ts_advances S S"
  by (simp add: ts_advances_def)

lemma ts_advances_trans: "ts_advances S S' \<Longrightarrow> ts_advances S' S'' \<Longrightarrow> ts_advances S S''"
  unfolding ts_advances_def by (meson order.trans subset_trans)

lemma serve_reads_ready:
  "ts_ready (rt_txns (serve_reads qs S) t) \<longleftrightarrow> t \<in> tr_txn ` set qs \<or> ts_ready (rt_txns S t)"
  by (induction qs S rule: serve_reads.induct) (auto simp: Let_def ts_copy_to_def)

lemma drop_prewrites_same:
  "drop_prewrites ws y yt s = Inr (y', s') \<Longrightarrow> readreq s' = readreq s \<and> rts s' = rts s \<and> wts s' = wts s"
  by (induction ws arbitrary: y yt s) (fastforce simp: bindE_eq_Inr Let_def split: if_splits)+

lemma ts_output_advances: "ts_advances S (ts_output row ts S)"
  by (simp add: ts_advances_def ts_output_def less_imp_le)

lemma ts_write_phase_advances:
  assumes "ts_write_phase S = Inr (b, S')"
  shows "ts_advances S S'"
proof -
  have a: "ts_advances S (S\<lparr>rt := (rt S)\<lparr>min_rts := n, writereq := ws\<rparr>\<rparr>)" for n ws by (simp add: ts_advances_def)
  have d: "ts_advances S (S\<lparr>rt := s4\<rparr>)"
    if "drop_prewrites rw None UINT64_MAX ((rt S)\<lparr>min_rts := n, writereq := ws\<rparr>) = Inr (y, s4)" for rw n ws y s4
    using drop_prewrites_same [OF that] by (simp add: ts_advances_def)
  show ?thesis
    using assms a d ts_output_advances ts_advances_refl ts_advances_trans
    by (fastforce simp: ts_write_phase_def Let_def bindE_eq_Inr split: if_splits prod.splits option.splits)
qed

lemma ts_round_advances:
  assumes "ts_round S = Inr (b, S')"
  shows "ts_advances S S'"
proof -
  let ?m = "cal_min (prereq (rt S))"
  let ?rr = "rev [q\<leftarrow>readreq (rt S). tr_ts q \<le> ?m]" and ?rs = "[q\<leftarrow>readreq (rt S). \<not> tr_ts q \<le> ?m]"
  let ?S1 = "S\<lparr>rt := (rt S)\<lparr>min_pts := ?m, readreq := ?rs\<rparr>\<rparr>"
  have "ts_advances S (serve_reads ?rr ?S1)"
    using fold_max_le [of ?rr "rts (rt S)"]
    by (auto simp: ts_advances_def serve_reads_rt serve_reads_ready)
  then have "ts_advances S S''" if "ts_write_phase (serve_reads ?rr ?S1) = Inr (b', S'')" for b' S''
    using ts_write_phase_advances [OF that] ts_advances_trans by blast
  moreover have "ts_advances S ?S1" if "?rr = []"
    using that by (auto simp: ts_advances_def filter_empty_conv)
  ultimately show ?thesis
    using assms ts_advances_refl by (auto simp: ts_round_def Let_def debuffer_ts_filter split: if_splits)
qed

lemma ts_loop_advances: "ts_loop k S = Inr S' \<Longrightarrow> ts_advances S S'"
proof (induction k arbitrary: S)
  case (Suc k)
  then obtain b S1 where r: "ts_round S = Inr (b, S1)" "if b then ts_loop k S1 = Inr S' else S' = S1"
    by (auto simp: bindE_eq_Inr split: if_splits)
  then show ?case using ts_round_advances [OF r(1)] Suc.IH [of S1] ts_advances_trans by (cases b) auto
qed simp

lemma ts_done_advances: "ts_done txn S = Inr S' \<Longrightarrow> ts_advances S S'"
proof -
  assume "ts_done txn S = Inr S'"
  then obtain ps where "ts_advances (S\<lparr>rt := (rt S)\<lparr>prereq := ps, preq_len := preq_len (rt S) - 1\<rparr>\<rparr>) S'"
    using ts_loop_advances unfolding ts_done_def ts_update_buffer_def bindE_eq_Inr by blast
  then show ?thesis by (simp add: ts_advances_def)
qed

text \<open>The answer to a request, and what it leaves recorded.\<close>

definition ts_answer :: "bool \<Rightarrow> txn_ptr \<Rightarrow> TsType \<Rightarrow> RC \<Rightarrow> 'd ts_state \<Rightarrow> 'd ts_state \<Rightarrow> bool" where
  "ts_answer twr txn type rc S S' \<longleftrightarrow> (let s = rt S; ts = ts_of (rt_txns S) txn; e = \<lparr>tr_txn = txn, tr_row = None, tr_ts = ts\<rparr> in
     case type of
       R_REQ \<Rightarrow>
         if ts < wts s then rc = Abort \<and> S' = S
         else if \<exists>p\<in>set (prereq s). tr_ts p < ts then
           rc = WAIT \<and> readreq (rt S') = e # readreq s \<and> \<not> ts_ready (rt_txns S' txn) \<and> rt_data S' = rt_data S
         else rc = RCOK \<and> ts \<le> rts (rt S') \<and> ts_advances S S' \<and> rt_data S' (cur_row (rt_txns S txn)) = rt_data S (rt_row S)
     | P_REQ \<Rightarrow>
         if ts < rts s \<or> \<not> twr \<and> ts < wts s then rc = Abort \<and> S' = S
         else rc = RCOK \<and> prereq (rt S') = e # prereq s \<and> ts_advances S S' \<and> rt_data S' = rt_data S
     | _ \<Rightarrow> rc = RCOK \<and> rts s \<le> ts \<and> ts_advances S S')"

lemma ts_read_answer:
  assumes "ts_inv (rt S)" "ts_read txn S = Inr (rc, S')"
  shows "ts_answer twr txn R_REQ rc S S'"
proof -
  have "ts_of (rt_txns S) txn > min_pts (rt S) \<longleftrightarrow> (\<exists>p\<in>set (prereq (rt S)). tr_ts p < ts_of (rt_txns S) txn)"
    using assms(1) le_cal_min [of "ts_of (rt_txns S) txn" "prereq (rt S)"] by (auto simp: ts_inv_def not_le [symmetric])
  then show ?thesis
    using assms(2) unfolding ts_answer_def ts_read_def Let_def
    by (auto simp: ts_buffer_req_def Let_def ts_copy_to_def ts_advances_def less_imp_le leI split: if_splits)
qed

lemma ts_prewrite_answer: "ts_prewrite twr txn S = Inr (rc, S') \<Longrightarrow> ts_answer twr txn P_REQ rc S S'"
  unfolding ts_answer_def ts_prewrite_def Let_def by (auto simp: ts_buffer_req_def Let_def ts_advances_def split: if_splits)

lemma ts_write_advances:
  assumes "ts_write twr txn row S = Inr (rc, S')"
  shows "rc = RCOK \<and> ts_advances S S'"
proof -
  have d: "ts_advances S S''" if "ts_done txn S = Inr S'' \<or> ts_done txn (ts_output row ts S) = Inr S''" for S'' ts
    using that ts_done_advances ts_output_advances ts_advances_trans by blast
  have "ts_advances S (S\<lparr>rt := s'\<rparr>)" if "ts_buffer_req W_REQ txn (Some row) (rt_txns S) (rt S) = Inr s'" for s'
    using that by (auto simp: ts_buffer_req_def Let_def ts_advances_def)
  then show ?thesis using assms d by (auto simp: ts_write_def Let_def bindE_eq_Inr split: if_splits)
qed

lemma ts_prewritten_above: "ts_inv (rt S) \<Longrightarrow> ts_prewritten txn S \<Longrightarrow> rts (rt S) \<le> ts_of (rt_txns S) txn"
  unfolding ts_inv_def ts_entries_ok_def ts_prewritten_def by metis

subsection \<open>Properties\<close>

text \<open>C33: Every access of the timestamp-ordering row manager returns: no assertion fails and the loop of
  \<^verbatim>\<open>update_buffer\<close> ends. It keeps the queues right: the minima of the prewrites and of the waiting reads are exact (that of the
  buffered writes is never recomputed), the reads that wait are above the smallest prewrite, and no prewrite or
  buffered write is below a read that has been served. A read aborts when it is older than the last write, waits when a
  prewrite is older than it, and otherwise copies the row and is recorded; a prewrite aborts when it is older than the last read or,
  without the Thomas write rule, the last write; writes and cancels are never older than the last read. The timestamps of the
  last read and write never go back, and a read that is taken from its list is recorded, too, and its transaction woken.\<close>

theorem ts_access_ok:
  assumes "ts_inv (rt S)" and "type \<in> {W_REQ, XP_REQ} \<Longrightarrow> ts_prewritten txn S"
  shows "\<exists>rc S'. ts_access twr txn type row S = Inr (rc, S') \<and> ts_inv (rt S') \<and> ts_answer twr txn type rc S S' \<and>
    (\<forall>w\<in>set (writereq (rt S')). rts (rt S') \<le> tr_ts w)"
proof -
  have "\<exists>rc S'. ts_access twr txn type row S = Inr (rc, S') \<and> ts_inv (rt S') \<and> ts_answer twr txn type rc S S'"
  proof (cases type)
    case R_REQ
    then show ?thesis using ts_read_ok [OF assms(1), of txn] ts_read_answer [OF assms(1), of txn] by (auto simp: ts_access_def)
  next
    case W_REQ
    then have p: "ts_prewritten txn S" using assms(2) by simp
    show ?thesis using W_REQ ts_write_ok [OF assms(1) p, of twr row] ts_write_advances ts_prewritten_above [OF assms(1) p]
      by (fastforce simp: ts_access_def ts_answer_def Let_def)
  next
    case P_REQ
    then show ?thesis using ts_prewrite_ok [OF assms(1), of twr txn] ts_prewrite_answer by (fastforce simp: ts_access_def)
  next
    case XP_REQ
    then have p: "ts_prewritten txn S" using assms(2) by simp
    show ?thesis using XP_REQ ts_done_ok [OF assms(1) p] ts_done_advances ts_prewritten_above [OF assms(1) p]
      by (fastforce simp: ts_access_def ts_answer_def Let_def)
  qed
  moreover have "rts s \<le> tr_ts w" if "ts_inv s" "w \<in> set (writereq s)" for s w
    using that unfolding ts_inv_def ts_entries_ok_def by metis
  ultimately show ?thesis by blast
qed

definition ts_demo_txns :: txn_tab where
  "ts_demo_txns t = \<lparr>thd_id = 0, txn_id = of_nat t, timestamp = of_nat t, cur_row = 100 + t, lock_ready = False,
     lock_abort = False, ts_ready = False, ready_part = 0, start_ts = 0, end_ts = 0, vll_txn_type = VLL_Free\<rparr>"

text \<open>Transaction \<open>t\<close> has timestamp \<open>t\<close>, reads into row \<open>100 + t\<close> and writes from row \<open>200 + t\<close>; row 0 is the
  shared one. The contents of a row are its initial address.\<close>

definition ts_demo :: "nat ts_state" where
  "ts_demo = \<lparr>rt = Row_ts_init, rt_row = 0, rt_txns = ts_demo_txns, rt_data = id\<rparr>"

fun ts_run :: "(txn_ptr \<times> TsType) list \<Rightarrow> 'd ts_state \<Rightarrow> fault + (RC list \<times> 'd ts_state)" where
  "ts_run [] S = Inr ([], S)"
| "ts_run ((t, ty) # as) S = bindE (ts_access False t ty (200 + t) S) (\<lambda>(rc, S1).
     bindE (ts_run as S1) (\<lambda>(rcs, S2). Inr (rc # rcs, S2)))"

text \<open>The loop of \<^verbatim>\<open>update_buffer\<close> releases buffered writes up to the smallest \<^emph>\<open>waiting read\<close>, not up
  to the smallest prewrite: write 7 reaches the row while prewrite 5 is still pending, and write 5,
  which is accepted later, overwrites the newer value.\<close>

theorem ts_old_write_over_new:
  "case ts_run [(3, P_REQ), (5, P_REQ), (7, P_REQ), (4, R_REQ), (7, W_REQ), (3, W_REQ)] ts_demo of
     Inl _ \<Rightarrow> False
   | Inr (rcs, S) \<Rightarrow> rcs = [RCOK, RCOK, RCOK, WAIT, RCOK, RCOK] \<and> rt_data S 0 = 207 \<and> wts (rt S) = 7 \<and>
       (case ts_run [(5, W_REQ), (8, R_REQ)] S of Inl _ \<Rightarrow> False
        | Inr (rcs', S') \<Rightarrow> rcs' = [RCOK, RCOK] \<and> wts (rt S') = 7 \<and> rt_data S' 108 = 205)"
  by code_simp

text \<open>A buffered write is only released when a waiting read is served with it. Write 7 is accepted and
  buffered behind prewrite 5; write 5 is then applied and leaves it in the queue. Both writers are
  done, nothing that holds the row is left, and every later read waits.\<close>

theorem ts_write_stuck:
  "case ts_run [(5, P_REQ), (7, P_REQ), (7, W_REQ), (5, W_REQ), (8, R_REQ)] ts_demo of
     Inl _ \<Rightarrow> False
   | Inr (rcs, S) \<Rightarrow> rcs = [RCOK, RCOK, RCOK, RCOK, WAIT] \<and> rt_data S 0 = 205 \<and>
       map tr_txn (writereq (rt S)) = [7] \<and> map tr_txn (prereq (rt S)) = [7] \<and>
       \<not> ts_ready (rt_txns S 8)"
  by code_simp

text \<open>Transaction 5 waits behind the prewrite 3; the write of 3 wakes it.\<close>

theorem ts_access_ok_witness:
  "\<exists>rcs S S'. ts_run [(3, P_REQ), (5, R_REQ)] ts_demo = Inr (rcs, S) \<and> ts_access False 3 W_REQ 203 S = Inr (RCOK, S') \<and>
     ts_inv (rt S') \<and> ts_advances S S' \<and> 3 \<le> wts (rt S') \<and> 5 \<le> rts (rt S') \<and> ts_ready (rt_txns S' 5)"
proof -
  have "case ts_run [(3, P_REQ), (5, R_REQ)] ts_demo of Inl _ \<Rightarrow> False | Inr (rcs, S) \<Rightarrow>
      rt S = \<lparr>wts = 0, rts = 0, min_wts = UINT64_MAX, min_rts = 5, min_pts = 3, readreq = [\<lparr>tr_txn = 5, tr_row = None, tr_ts = 5\<rparr>],
        writereq = [], prereq = [\<lparr>tr_txn = 3, tr_row = None, tr_ts = 3\<rparr>], preq_len = 1\<rparr> \<and> ts_of (rt_txns S) 3 = 3 \<and>
      (case ts_access False 3 W_REQ 203 S of Inl _ \<Rightarrow> False | Inr (rc, S') \<Rightarrow> readreq (rt S') = [] \<and> wts (rt S') = 3)"
    by code_simp
  then obtain rcs S where S: "ts_run [(3, P_REQ), (5, R_REQ)] ts_demo = Inr (rcs, S)"
      "rt S = \<lparr>wts = 0, rts = 0, min_wts = UINT64_MAX, min_rts = 5, min_pts = 3, readreq = [\<lparr>tr_txn = 5, tr_row = None, tr_ts = 5\<rparr>],
        writereq = [], prereq = [\<lparr>tr_txn = 3, tr_row = None, tr_ts = 3\<rparr>], preq_len = 1\<rparr>" "ts_of (rt_txns S) 3 = 3"
      "case ts_access False 3 W_REQ 203 S of Inl _ \<Rightarrow> False | Inr (rc, S') \<Rightarrow> readreq (rt S') = [] \<and> wts (rt S') = 3"
    by (cases "ts_run [(3, P_REQ), (5, R_REQ)] ts_demo") (auto simp del: ts_run.simps)
  have "ts_inv (rt S)" "ts_prewritten 3 S"
    using S(2,3) by (simp_all add: ts_inv_def ts_entries_ok_def ts_reads_ok_def ts_prewritten_def cal_min_def UINT64_MAX_def)
  then obtain rc S' where S': "ts_access False 3 W_REQ 203 S = Inr (rc, S')" "ts_inv (rt S')" "ts_answer False 3 W_REQ rc S S'"
    using ts_access_ok [of S W_REQ 3 False 203] by blast
  then have "readreq (rt S') = []" "wts (rt S') = 3" "rc = RCOK" "ts_advances S S'"
    using S(4) by (simp_all add: ts_answer_def Let_def)
  then show ?thesis using S S' by (auto simp: ts_advances_def)
qed

end
