(* ===== verification/Manager.thy ===== *)
theory Manager
  imports Base
begin

text \<open>
  The global manager, \<^verbatim>\<open>system/manager.cpp\<close>, and the allocation of timestamps by the threads,
  \<^verbatim>\<open>thread_t::get_next_ts\<close> of \<^verbatim>\<open>system/thread.cpp\<close>: the timestamp counter, the table of the active
  timestamps with its minimum, the mutexes of the central manager and the epoch. The clock is an
  argument of the operations that read it; statistics are left out.
\<close>

subsection \<open>State\<close>

datatype ts_alloc = TS_MUTEX | TS_CAS | TS_HW | TS_CLOCK

record Manager =
  epoch :: "64 word option"
  last_epoch_update_time :: "64 word option"
  ts_counter :: "64 word"
  mutexes :: "bool list"
  all_ts :: "ts_t list"
  all_txns :: "txn_ptr option list"
  last_min_ts_time :: ts_t
  mgr_min_ts :: ts_t

definition BUCKET_CNT :: nat where
  "BUCKET_CNT = 31"

text \<open>The last assignments to \<open>_epoch\<close> and \<open>_last_epoch_update_time\<close> set the pointers, not what they point to.\<close>

definition Manager_init :: "nat \<Rightarrow> Manager" where
  "Manager_init g_thread_cnt = \<lparr>epoch = None, last_epoch_update_time = None, ts_counter = 1,
     mutexes = replicate BUCKET_CNT False, all_ts = replicate g_thread_cnt UINT64_MAX,
     all_txns = replicate g_thread_cnt None, last_min_ts_time = 0, mgr_min_ts = 0\<rparr>"

subsection \<open>Timestamps\<close>

record ts_config =
  g_ts_alloc :: ts_alloc
  g_ts_batch_alloc :: bool
  g_ts_batch_num :: "32 word"
  g_thread_cnt :: "32 word"

text \<open>The build defines \<^verbatim>\<open>NOGRAPHITE\<close>, so the hardware counter is an assertion failure.\<close>

definition get_ts :: "ts_config \<Rightarrow> 64 word \<Rightarrow> 64 word \<Rightarrow> Manager \<Rightarrow> fault + (64 word \<times> Manager)" where
  "get_ts c clock thread_id m =
     bindE (assert_that (g_ts_batch_alloc c \<longrightarrow> g_ts_alloc c = TS_CAS)) (\<lambda>_.
     case g_ts_alloc c of
       TS_MUTEX \<Rightarrow> Inr (ts_counter m + 1, m\<lparr>ts_counter := ts_counter m + 1\<rparr>)
     | TS_CAS \<Rightarrow>
         if g_ts_batch_alloc c then Inr (ts_counter m, m\<lparr>ts_counter := ts_counter m + ucast (g_ts_batch_num c)\<rparr>)
         else Inr (ts_counter m, m\<lparr>ts_counter := ts_counter m + 1\<rparr>)
     | TS_HW \<Rightarrow> Inl Assert_failed
     | TS_CLOCK \<Rightarrow> Inr (clock * ucast (g_thread_cnt c) + thread_id, m))"

text \<open>A thread keeps the position in its batch in \<^verbatim>\<open>_curr_ts\<close>.\<close>

definition get_next_ts :: "ts_config \<Rightarrow> 64 word \<Rightarrow> 64 word \<Rightarrow> ts_t \<Rightarrow> Manager \<Rightarrow> fault + (ts_t \<times> ts_t \<times> Manager)" where
  "get_next_ts c clock tid curr_ts m =
     (if g_ts_batch_alloc c then
        if g_ts_batch_num c = 0 then Inl Undefined_behaviour
        else if curr_ts mod ucast (g_ts_batch_num c) = 0 then
          bindE (get_ts c clock tid m) (\<lambda>(time, m'). let cu = time + 1 in Inr (cu - 1, cu, m'))
        else let cu = curr_ts + 1 in Inr (cu - 1, cu, m)
      else bindE (get_ts c clock tid m) (\<lambda>(time, m'). Inr (time, time, m')))"

subsection \<open>Active timestamps\<close>

fun min_ts_from :: "ts_t list \<Rightarrow> ts_t \<Rightarrow> ts_t" where
  "min_ts_from [] m = m"
| "min_ts_from (t # ts) m = min_ts_from ts (if t < m then t else m)"

definition MIN_TS_INTVL :: "64 word" where
  "MIN_TS_INTVL = 5000000"

definition get_min_ts :: "ts_t \<Rightarrow> nat \<Rightarrow> Manager \<Rightarrow> ts_t \<times> Manager" where
  "get_min_ts now tid m =
     (let last_time = last_min_ts_time m;
          m' = (if tid = 0 \<and> now - last_time > MIN_TS_INTVL then
                  (let min = min_ts_from (all_ts m) UINT64_MAX in
                   if min > mgr_min_ts m then m\<lparr>mgr_min_ts := min\<rparr> else m)
                else m)
      in (mgr_min_ts m', m'))"

definition add_ts :: "nat \<Rightarrow> ts_t \<Rightarrow> Manager \<Rightarrow> fault + Manager" where
  "add_ts tid ts m =
     bindE (guard Out_of_bounds (tid < length (all_ts m))) (\<lambda>_.
     bindE (assert_that (ts \<ge> all_ts m ! tid \<or> all_ts m ! tid = UINT64_MAX)) (\<lambda>_.
     Inr (m\<lparr>all_ts := (all_ts m)[tid := ts]\<rparr>)))"

definition set_txn_man :: "txn_tab \<Rightarrow> txn_ptr \<Rightarrow> Manager \<Rightarrow> fault + Manager" where
  "set_txn_man T txn m =
     bindE (guard Out_of_bounds (thd_id (T txn) < length (all_txns m))) (\<lambda>_.
     Inr (m\<lparr>all_txns := (all_txns m)[thd_id (T txn) := Some txn]\<rparr>))"

definition get_txn_man :: "nat \<Rightarrow> Manager \<Rightarrow> fault + txn_ptr option" where
  "get_txn_man tid m = (if tid < length (all_txns m) then Inr (all_txns m ! tid) else Inl Out_of_bounds)"

subsection \<open>Row mutexes and epoch\<close>

definition row_hash :: "64 word \<Rightarrow> 64 word" where
  "row_hash row = (let addr = row div 8 in (addr * 1103515247 + 12345) mod of_nat BUCKET_CNT)"

definition lock_row :: "64 word \<Rightarrow> Manager \<Rightarrow> fault + Manager" where
  "lock_row row m =
     (let bid = unat (row_hash row) in
      bindE (guard Out_of_bounds (bid < length (mutexes m))) (\<lambda>_.
      if mutexes m ! bid then Inl Spinning else Inr (m\<lparr>mutexes := (mutexes m)[bid := True]\<rparr>)))"

definition release_row :: "64 word \<Rightarrow> Manager \<Rightarrow> fault + Manager" where
  "release_row row m =
     (let bid = unat (row_hash row) in
      bindE (guard Out_of_bounds (bid < length (mutexes m))) (\<lambda>_.
      Inr (m\<lparr>mutexes := (mutexes m)[bid := False]\<rparr>)))"

definition update_epoch :: "ts_t \<Rightarrow> Manager \<Rightarrow> fault + Manager" where
  "update_epoch time m =
     (case last_epoch_update_time m of None \<Rightarrow> Inl Null_deref
      | Some t0 \<Rightarrow>
          if time - t0 > 10 * 1000 * 1000 then
            (case epoch m of None \<Rightarrow> Inl Null_deref
             | Some e \<Rightarrow> Inr (m\<lparr>epoch := Some (e + 1), last_epoch_update_time := Some time\<rparr>))
          else Inr m)"

lemma row_hash_bound: "unat (row_hash row) < BUCKET_CNT"
  by (simp add: row_hash_def BUCKET_CNT_def Let_def unat_mod)

text \<open>A lock and a release of the central manager never leave the array, and the lock is taken exactly when it is free.\<close>

lemma lock_release_row:
  assumes "length (mutexes m) = BUCKET_CNT" "\<not> mutexes m ! unat (row_hash row)"
  shows "\<exists>m'. lock_row row m = Inr m' \<and> lock_row row m' = Inl Spinning \<and> release_row row m' = Inr m"
proof -
  have "(mutexes m)[unat (row_hash row) := False] = mutexes m"
    using assms(2) by (metis (full_types) list_update_id)
  then show ?thesis
    using assms row_hash_bound [of row] by (simp add: lock_row_def release_row_def Let_def)
qed

text \<open>After \<open>Manager_init\<close> the epoch cannot be advanced.\<close>

lemma update_epoch_after_init: "update_epoch time (Manager_init n) = Inl Null_deref"
  by (simp add: update_epoch_def Manager_init_def)

subsection \<open>Threads that take timestamps\<close>

record ts_sys =
  sys_mgr :: Manager
  sys_curr :: "nat \<Rightarrow> ts_t"
  sys_warm :: "nat set"

text \<open>\<^verbatim>\<open>thread_t::init\<close> leaves \<^verbatim>\<open>_curr_ts\<close> as the memory happens to be, so with batches a thread
  may first count up from an arbitrary value. A thread is in \<open>sys_warm\<close> when it has called the manager; the code has no such
  field.\<close>

definition calls_manager :: "ts_config \<Rightarrow> ts_t \<Rightarrow> bool" where
  "calls_manager c curr_ts \<longleftrightarrow> \<not> g_ts_batch_alloc c \<or> curr_ts mod ucast (g_ts_batch_num c) = 0"

text \<open>The schedule is a list of thread ids with the clock values they read. The shared counter is read
  and advanced by one atomic instruction or under its mutex, so a call is one step. Each timestamp comes with whether its thread
  has called the manager.\<close>

fun ts_schedule :: "ts_config \<Rightarrow> (nat \<times> 64 word) list \<Rightarrow> ts_sys \<Rightarrow> fault + ((bool \<times> ts_t) list \<times> ts_sys)" where
  "ts_schedule c [] S = Inr ([], S)"
| "ts_schedule c ((t, clock) # sched) S =
     bindE (get_next_ts c clock (of_nat t) (sys_curr S t) (sys_mgr S)) (\<lambda>(ts, cu, m).
     let warm = (if calls_manager c (sys_curr S t) then insert t (sys_warm S) else sys_warm S) in
     bindE (ts_schedule c sched \<lparr>sys_mgr = m, sys_curr = (sys_curr S)(t := cu), sys_warm = warm\<rparr>) (\<lambda>(tss, S').
     Inr ((t \<in> warm, ts) # tss, S')))"

text \<open>What is left of the batch of a thread.\<close>

definition reserve :: "ts_config \<Rightarrow> ts_t \<Rightarrow> nat set" where
  "reserve c cu = (let B = unat (g_ts_batch_num c) in
     {x. g_ts_batch_alloc c \<and> unat cu mod B \<noteq> 0 \<and> unat cu \<le> x \<and> x div B = unat cu div B})"

definition ts_step_size :: "ts_config \<Rightarrow> nat" where
  "ts_step_size c = (if g_ts_batch_alloc c then unat (g_ts_batch_num c) else 1)"

definition ts_disjoint :: "ts_config \<Rightarrow> ts_sys \<Rightarrow> bool" where
  "ts_disjoint c S \<longleftrightarrow> (\<forall>t u. t \<noteq> u \<longrightarrow> reserve c (sys_curr S t) \<inter> reserve c (sys_curr S u) = {}) \<and>
     (\<forall>t. \<forall>x\<in>reserve c (sys_curr S t). x < unat (ts_counter (sys_mgr S)))"

definition ts_cfg_ok :: "ts_config \<Rightarrow> bool" where
  "ts_cfg_ok c \<longleftrightarrow> (g_ts_alloc c = TS_CAS \<or> g_ts_alloc c = TS_MUTEX \<and> \<not> g_ts_batch_alloc c) \<and> g_ts_batch_num c \<noteq> 0"

text \<open>The timestamps that have not been handed out.\<close>

definition ts_unused :: "ts_config \<Rightarrow> ts_sys \<Rightarrow> nat set" where
  "ts_unused c S = {x. unat (ts_counter (sys_mgr S)) + (if g_ts_alloc c = TS_MUTEX then 1 else 0) \<le> x} \<union>
     (\<Union>t. reserve c (sys_curr S t))"

lemma reserve_no_batch [simp]: "\<not> g_ts_batch_alloc c \<Longrightarrow> reserve c cu = {}"
  by (simp add: reserve_def)

lemma reserve_boundary: "unat cu mod unat (g_ts_batch_num c) = 0 \<Longrightarrow> reserve c cu = {}"
  by (simp add: reserve_def Let_def)

lemma reserve_fresh:
  assumes "unat cu = Suc n" "x \<in> reserve c cu" "0 < unat (g_ts_batch_num c)"
  shows "n < x \<and> x < n + unat (g_ts_batch_num c)"
proof -
  define B where "B = unat (g_ts_batch_num c)"
  have x: "Suc n mod B \<noteq> 0" "Suc n \<le> x" "x div B = Suc n div B"
    using assms by (auto simp: reserve_def Let_def B_def)
  have "x = B * (Suc n div B) + x mod B" using x(3) by (metis div_mult_mod_eq mult.commute)
  moreover have "Suc n = B * (Suc n div B) + Suc n mod B" by simp
  moreover have "x mod B < B" using assms(3) by (simp add: B_def)
  ultimately have "x + Suc n mod B < Suc n + B" by linarith
  then show ?thesis using x(1,2) by (simp add: B_def)
qed

lemma reserve_next:
  assumes "unat cu' = Suc (unat cu)" "unat cu mod unat (g_ts_batch_num c) \<noteq> 0"
  shows "reserve c cu' \<subseteq> reserve c cu - {unat cu}"
proof
  fix x assume x: "x \<in> reserve c cu'"
  define B where "B = unat (g_ts_batch_num c)"
  have d: "g_ts_batch_alloc c" "Suc (unat cu) mod B \<noteq> 0" "Suc (unat cu) \<le> x" "x div B = Suc (unat cu) div B"
    using x assms(1) by (auto simp: reserve_def Let_def B_def)
  have "Suc (unat cu) div B = unat cu div B"
    using d(2) by (simp add: div_Suc)
  then show "x \<in> reserve c cu - {unat cu}"
    using d assms(2) by (simp add: reserve_def Let_def B_def)
qed

lemma unat_plus_small: "unat a + unat b < 2 ^ 64 \<Longrightarrow> unat (a + b) = unat a + unat (b :: 64 word)"
  using unat_add_lem [of a b] by simp

lemma get_next_ts_step:
  assumes ok: "ts_cfg_ok c" and dis: "ts_disjoint c S"
    and room: "unat (ts_counter (sys_mgr S)) + ts_step_size c < 2 ^ 64"
  shows "\<exists>ts cu m. get_next_ts c clock i (sys_curr S t) (sys_mgr S) = Inr (ts, cu, m) \<and>
    (let S' = S\<lparr>sys_mgr := m, sys_curr := (sys_curr S)(t := cu)\<rparr> in
     ts_disjoint c S' \<and> unat (ts_counter m) \<le> unat (ts_counter (sys_mgr S)) + ts_step_size c \<and>
     unat ts \<in> ts_unused c S \<and> unat ts \<notin> ts_unused c S' \<and> ts_unused c S' \<subseteq> ts_unused c S)"
proof (cases "g_ts_batch_alloc c")
  case False
  have "unat (ts_counter (sys_mgr S) + 1) = unat (ts_counter (sys_mgr S)) + 1"
    using room False by (simp add: ts_step_size_def unat_add_lem [THEN iffD1])
  then show ?thesis
    using ok False by (auto simp: ts_cfg_ok_def get_next_ts_def get_ts_def Let_def ts_disjoint_def ts_unused_def ts_step_size_def)
next
  case batch: True
  define B where "B = unat (g_ts_batch_num c)"
  define n where "n = unat (ts_counter (sys_mgr S))"
  have B: "0 < B" "ts_step_size c = B" "g_ts_alloc c = TS_CAS" "g_ts_batch_num c \<noteq> 0"
    using ok batch by (auto simp: ts_cfg_ok_def B_def ts_step_size_def unat_gt_0)
  have uB: "unat (ucast (g_ts_batch_num c) :: 64 word) = B"
    using unsigned_less [of "g_ts_batch_num c", where ?'a = nat] by (simp add: B_def unsigned_ucast_eq take_bit_nat_eq_self)
  have um: "cu mod ucast (g_ts_batch_num c) = 0 \<longleftrightarrow> unat cu mod B = 0" for cu :: ts_t
    using uB by (metis unat_0 unat_eq_zero unat_mod)
  note d = dis [unfolded ts_disjoint_def]
  show ?thesis
  proof (cases "unat (sys_curr S t) mod B = 0")
    case True
    define cu where "cu = ts_counter (sys_mgr S) + 1"
    define m where "m = (sys_mgr S)\<lparr>ts_counter := ts_counter (sys_mgr S) + ucast (g_ts_batch_num c)\<rparr>"
    have um2: "unat cu = Suc n"
      using room B by (simp add: cu_def n_def unat_add_lem [THEN iffD1])
    have um3: "unat (ts_counter m) = n + B"
      using room B uB by (simp add: m_def n_def unat_add_lem [THEN iffD1])
    have fresh: "\<forall>x\<in>reserve c cu. n < x \<and> x < n + B"
      using reserve_fresh [OF um2] B(1) by (simp add: B_def)
    have call: "get_next_ts c clock i (sys_curr S t) (sys_mgr S) = Inr (ts_counter (sys_mgr S), cu, m)"
      using True batch B um by (simp add: get_next_ts_def get_ts_def Let_def cu_def m_def)
    have old: "\<forall>u. \<forall>x\<in>reserve c (sys_curr S u). x < n" using d by (simp add: n_def)
    have "ts_disjoint c (S\<lparr>sys_mgr := m, sys_curr := (sys_curr S)(t := cu)\<rparr>)"
    proof -
      have "reserve c cu \<inter> reserve c (sys_curr S u) = {}" for u
        using fresh old by (metis disjoint_iff not_less_iff_gr_or_eq)
      moreover have "x < n + B" if "x \<in> reserve c (sys_curr S u)" for x u
        using old that B(1) by (metis trans_less_add1)
      ultimately show ?thesis using d fresh um3 by (auto simp: ts_disjoint_def)
    qed
    moreover have "ts_unused c (S\<lparr>sys_mgr := m, sys_curr := (sys_curr S)(t := cu)\<rparr>) \<subseteq> ts_unused c S - {n}"
    proof -
      have "n \<notin> reserve c cu" "\<And>u. n \<notin> reserve c (sys_curr S u)" using fresh old by auto
      moreover have "reserve c cu \<subseteq> {x. n < x}" using fresh by auto
      moreover have "reserve c (sys_curr S u) \<subseteq> ts_unused c S - {n}" for u
        using old by (auto simp: ts_unused_def)
      ultimately show ?thesis
        using um3 B(1,3) by (auto simp: ts_unused_def n_def [symmetric] split: if_splits)
    qed
    moreover have "n \<in> ts_unused c S" using B(3) by (simp add: ts_unused_def n_def)
    ultimately show ?thesis
      using call um3 B(2) by (auto simp: Let_def n_def)
  next
    case False
    define k where "k = sys_curr S t"
    have mem: "unat k \<in> reserve c k" using False batch by (simp add: reserve_def k_def Let_def B_def)
    then have "unat k < n" using d by (simp add: k_def n_def)
    then have uk: "unat (k + 1) = Suc (unat k)"
      using room unfolding n_def by (simp add: unat_add_lem [THEN iffD1])
    have sub: "reserve c (k + 1) \<subseteq> reserve c k - {unat k}"
      using reserve_next [OF uk] False by (simp add: B_def k_def)
    have call: "get_next_ts c clock i (sys_curr S t) (sys_mgr S) = Inr (k, k + 1, sys_mgr S)"
      using False batch B um by (simp add: get_next_ts_def Let_def k_def)
    let ?S = "S\<lparr>sys_mgr := sys_mgr S, sys_curr := (sys_curr S)(t := k + 1)\<rparr>"
    have "ts_disjoint c ?S"
      using d sub by (simp add: ts_disjoint_def k_def) blast
    moreover have "unat k \<in> ts_unused c S" using mem by (auto simp: ts_unused_def k_def)
    moreover have "ts_unused c ?S \<subseteq> ts_unused c S"
      using sub by (auto simp: ts_unused_def k_def split: if_splits)
    moreover have "unat k \<notin> reserve c (sys_curr S u)" if "u \<noteq> t" for u
      using that mem d unfolding k_def by blast
    then have "unat k \<notin> ts_unused c ?S"
      using sub \<open>unat k < n\<close> by (auto simp: ts_unused_def n_def split: if_splits)
    ultimately show ?thesis using call by (auto simp: Let_def)
  qed
qed

text \<open>What a thread counts up from before its first call of the manager takes nothing from the counter; the batches are those of the
  other threads.\<close>

definition settled :: "ts_sys \<Rightarrow> ts_sys" where
  "settled S = S\<lparr>sys_curr := (\<lambda>t. if t \<in> sys_warm S then sys_curr S t else 0)\<rparr>"

lemma settled_mgr [simp]: "sys_mgr (settled S) = sys_mgr S"
  by (simp add: settled_def)

lemma get_next_ts_new: "calls_manager c cu \<Longrightarrow> get_next_ts c clock i cu m = get_next_ts c clock i 0 m"
  by (simp add: calls_manager_def get_next_ts_def)

lemma get_next_ts_own:
  "\<not> calls_manager c cu \<Longrightarrow> g_ts_batch_num c \<noteq> 0 \<Longrightarrow> get_next_ts c clock i cu m = Inr (cu, cu + 1, m)"
  by (simp add: calls_manager_def get_next_ts_def Let_def)

lemma ts_schedule_unique:
  "ts_cfg_ok c \<Longrightarrow> ts_disjoint c (settled S) \<Longrightarrow> unat (ts_counter (sys_mgr S)) + length sched * ts_step_size c < 2 ^ 64 \<Longrightarrow>
     \<exists>tss S'. ts_schedule c sched S = Inr (tss, S') \<and> length tss = length sched \<and> distinct (map snd (filter fst tss)) \<and>
       unat ` set (map snd (filter fst tss)) \<subseteq> ts_unused c (settled S)"
proof (induction sched arbitrary: S)
  case (Cons j sched)
  obtain t clock where j: "j = (t, clock)" by fastforce
  show ?case
  proof (cases "calls_manager c (sys_curr S t) \<or> t \<in> sys_warm S")
    case True
    have room: "unat (ts_counter (sys_mgr (settled S))) + ts_step_size c < 2 ^ 64" using Cons.prems(3) by simp
    obtain ts cu m where call: "get_next_ts c clock (of_nat t) (sys_curr (settled S) t) (sys_mgr S) = Inr (ts, cu, m)"
      and S': "let S' = (settled S)\<lparr>sys_mgr := m, sys_curr := (sys_curr (settled S))(t := cu)\<rparr> in
       ts_disjoint c S' \<and> unat (ts_counter m) \<le> unat (ts_counter (sys_mgr S)) + ts_step_size c \<and>
       unat ts \<in> ts_unused c (settled S) \<and> unat ts \<notin> ts_unused c S' \<and> ts_unused c S' \<subseteq> ts_unused c (settled S)"
      using get_next_ts_step [OF Cons.prems(1,2) room, of clock "of_nat t" t] unfolding settled_mgr by blast
    have run: "get_next_ts c clock (of_nat t) (sys_curr S t) (sys_mgr S) = Inr (ts, cu, m)"
      using call True get_next_ts_new by (auto simp: settled_def split: if_splits)
    define S1 where "S1 = \<lparr>sys_mgr = m, sys_curr = (sys_curr S)(t := cu), sys_warm = insert t (sys_warm S)\<rparr>"
    have c: "sys_curr (settled S1) = (sys_curr (settled S))(t := cu)" "sys_mgr (settled S1) = m"
      by (auto simp: S1_def settled_def)
    have e: "ts_disjoint c (settled S1) = ts_disjoint c ((settled S)\<lparr>sys_mgr := m, sys_curr := (sys_curr (settled S))(t := cu)\<rparr>)"
      "ts_unused c (settled S1) = ts_unused c ((settled S)\<lparr>sys_mgr := m, sys_curr := (sys_curr (settled S))(t := cu)\<rparr>)"
      unfolding ts_disjoint_def ts_unused_def c by simp_all
    note s = S' [unfolded Let_def, folded e]
    have w: "(if calls_manager c (sys_curr S t) then insert t (sys_warm S) else sys_warm S) = insert t (sys_warm S)" using True by auto
    have "unat (ts_counter (sys_mgr S1)) + length sched * ts_step_size c < 2 ^ 64"
      using s Cons.prems(3) by (simp add: S1_def)
    then obtain tss S2 where "ts_schedule c sched S1 = Inr (tss, S2)" "length tss = length sched" "distinct (map snd (filter fst tss))"
        "unat ` set (map snd (filter fst tss)) \<subseteq> ts_unused c (settled S1)"
      using Cons.IH [OF Cons.prems(1)] s by blast
    then show ?thesis using s run w by (auto simp: j S1_def Let_def)
  next
    case False
    have run: "get_next_ts c clock (of_nat t) (sys_curr S t) (sys_mgr S) = Inr (sys_curr S t, sys_curr S t + 1, sys_mgr S)"
      using get_next_ts_own False Cons.prems(1) by (simp add: ts_cfg_ok_def)
    define S1 where "S1 = \<lparr>sys_mgr = sys_mgr S, sys_curr = (sys_curr S)(t := sys_curr S t + 1), sys_warm = sys_warm S\<rparr>"
    have e: "settled S1 = settled S" unfolding S1_def settled_def using False by (cases S) (auto simp: fun_eq_iff)
    have "unat (ts_counter (sys_mgr S1)) + length sched * ts_step_size c < 2 ^ 64"
      using Cons.prems(3) by (simp add: S1_def)
    then obtain tss S2 where "ts_schedule c sched S1 = Inr (tss, S2)" "length tss = length sched" "distinct (map snd (filter fst tss))"
        "unat ` set (map snd (filter fst tss)) \<subseteq> ts_unused c (settled S)"
      using Cons.IH [OF Cons.prems(1), of S1] Cons.prems(2) unfolding e by blast
    then show ?thesis using run False by (auto simp: j S1_def Let_def)
  qed
qed simp

text \<open>Without batches every call goes to the manager; with them, those of a thread do from the first on if it starts at a boundary.\<close>

lemma ts_schedule_warm:
  assumes "ts_schedule c sched S = Inr (tss, S')"
    and "\<And>t. t \<in> sys_warm S \<or> calls_manager c (sys_curr S t)"
  shows "\<forall>x\<in>set tss. fst x"
  using assms
proof (induction sched arbitrary: S tss)
  case (Cons j sched)
  obtain t clock where j: "j = (t, clock)" by fastforce
  let ?w = "if calls_manager c (sys_curr S t) then insert t (sys_warm S) else sys_warm S"
  obtain ts cu m tss1 where r: "ts_schedule c sched \<lparr>sys_mgr = m, sys_curr = (sys_curr S)(t := cu), sys_warm = ?w\<rparr> = Inr (tss1, S')"
    "tss = (t \<in> ?w, ts) # tss1"
    using Cons.prems(1) unfolding j by (auto simp: bindE_eq_Inr Let_def)
  have w: "t \<in> ?w" using Cons.prems(2) [of t] by auto
  have "u \<in> ?w \<or> calls_manager c (((sys_curr S)(t := cu)) u)" for u using Cons.prems(2) [of u] w by auto
  then show ?case using Cons.IH [OF r(1)] r(2) w by simp
qed simp

subsection \<open>The minimum of the active timestamps\<close>

text \<open>A thread of the main loop takes a timestamp, registers it with \<open>add_ts\<close>, runs (and may ask for the
  minimum, any number of times) and goes on to its next transaction.\<close>

datatype act_pc = Act_idle | Act_got ts_t | Act_running ts_t

record act_sys =
  act_mgr :: Manager
  act_pc :: "nat \<Rightarrow> act_pc"

definition act_config :: ts_config where
  "act_config = \<lparr>g_ts_alloc = TS_CAS, g_ts_batch_alloc = False, g_ts_batch_num = 1, g_thread_cnt = 4\<rparr>"

inductive act_step :: "act_sys \<Rightarrow> act_sys \<Rightarrow> bool" where
  act_alloc: "act_pc S t = Act_idle \<Longrightarrow> t < length (all_ts (act_mgr S)) \<Longrightarrow> ts_counter (act_mgr S) < UINT64_MAX \<Longrightarrow>
     get_ts act_config clock (of_nat t) (act_mgr S) = Inr (ts, m) \<Longrightarrow>
     act_step S (S\<lparr>act_mgr := m, act_pc := (act_pc S)(t := Act_got ts)\<rparr>)"
| act_add: "act_pc S t = Act_got ts \<Longrightarrow> add_ts t ts (act_mgr S) = Inr m \<Longrightarrow>
     act_step S (S\<lparr>act_mgr := m, act_pc := (act_pc S)(t := Act_running ts)\<rparr>)"
| act_min: "act_pc S t = Act_running ts \<Longrightarrow> get_min_ts now t (act_mgr S) = (r, m) \<Longrightarrow> act_step S (S\<lparr>act_mgr := m\<rparr>)"
| act_finish: "act_pc S t = Act_running ts \<Longrightarrow> act_step S (S\<lparr>act_pc := (act_pc S)(t := Act_idle)\<rparr>)"

inductive act_reachable :: "act_sys \<Rightarrow> act_sys \<Rightarrow> bool" for S where
  "act_reachable S S"
| "act_reachable S S' \<Longrightarrow> act_step S' S'' \<Longrightarrow> act_reachable S S''"

definition act_init :: "nat \<Rightarrow> act_sys" where
  "act_init n = \<lparr>act_mgr = Manager_init n, act_pc = (\<lambda>t. Act_idle)\<rparr>"

fun act_ts :: "act_pc \<Rightarrow> ts_t option" where
  "act_ts Act_idle = None"
| "act_ts (Act_got ts) = Some ts"
| "act_ts (Act_running ts) = Some ts"

definition act_inv :: "act_sys \<Rightarrow> bool" where
  "act_inv S \<longleftrightarrow> (\<forall>t<length (all_ts (act_mgr S)). all_ts (act_mgr S) ! t \<noteq> UINT64_MAX \<longrightarrow>
       all_ts (act_mgr S) ! t < ts_counter (act_mgr S)) \<and>
     (\<forall>t ts. act_ts (act_pc S t) = Some ts \<longrightarrow> t < length (all_ts (act_mgr S)) \<and> ts < ts_counter (act_mgr S)) \<and>
     (\<forall>t ts. act_pc S t = Act_got ts \<longrightarrow> all_ts (act_mgr S) ! t \<le> ts \<or> all_ts (act_mgr S) ! t = UINT64_MAX) \<and>
     (\<forall>t ts. act_pc S t = Act_running ts \<longrightarrow> all_ts (act_mgr S) ! t = ts)"

definition act_warm :: "act_sys \<Rightarrow> bool" where
  "act_warm S \<longleftrightarrow> (\<forall>t<length (all_ts (act_mgr S)). all_ts (act_mgr S) ! t \<noteq> UINT64_MAX \<and>
     mgr_min_ts (act_mgr S) \<le> all_ts (act_mgr S) ! t)"

lemma le_min_ts_from: "x \<le> min_ts_from ts m \<longleftrightarrow> x \<le> m \<and> (\<forall>t\<in>set ts. x \<le> t)"
  by (induction ts arbitrary: m) auto

lemma get_min_ts_mgr:
  "get_min_ts now t m = (r, m') \<Longrightarrow> ts_counter m' = ts_counter m \<and> all_ts m' = all_ts m \<and> r = mgr_min_ts m' \<and>
     (mgr_min_ts m' = mgr_min_ts m \<or> mgr_min_ts m' = min_ts_from (all_ts m) UINT64_MAX)"
  by (auto simp: get_min_ts_def Let_def split: if_splits)

lemma get_ts_act: "get_ts act_config clock i m = Inr (ts_counter m, m\<lparr>ts_counter := ts_counter m + 1\<rparr>)"
  by (simp add: get_ts_def act_config_def)

lemma less_plus_1:
  assumes "(x :: 64 word) < UINT64_MAX"
  shows "y < x + 1 \<longleftrightarrow> y \<le> x"
proof -
  have "unat x + unat (1 :: 64 word) < 2 ^ 64"
    using assms by (simp add: word_less_nat_alt UINT64_MAX_def)
  then show ?thesis
    using unat_plus_small [of x 1] by (simp add: word_less_nat_alt word_le_nat_alt less_Suc_eq_le)
qed

lemma act_inv_init: "act_inv (act_init n)"
  by (simp add: act_inv_def act_init_def Manager_init_def)

lemma add_ts_mgr:
  "add_ts t ts m = Inr m' \<longleftrightarrow> t < length (all_ts m) \<and> (all_ts m ! t \<le> ts \<or> all_ts m ! t = UINT64_MAX) \<and>
     m' = m\<lparr>all_ts := (all_ts m)[t := ts]\<rparr>"
  by (auto simp: add_ts_def)

lemma act_step_inv:
  assumes "act_step S S'" "act_inv S"
  shows "act_inv S'"
  using assms
proof (cases rule: act_step.cases)
  case (act_alloc t clock ts m)
  then show ?thesis
    using assms(2) by (auto simp: get_ts_act act_inv_def less_plus_1 split: if_splits)
        (metis order.strict_implies_order)+
next
  case (act_add t ts m)
  then have "ts < ts_counter (act_mgr S)" "t < length (all_ts (act_mgr S))"
    using assms(2) by (auto simp: act_inv_def dest: spec [of _ t])
  then show ?thesis
    using act_add assms(2) by (auto simp: add_ts_mgr act_inv_def nth_list_update split: if_splits)
next
  case (act_min t ts now r m)
  then show ?thesis
    using assms(2) get_min_ts_mgr [OF act_min(3)] by (simp add: act_inv_def)
next
  case (act_finish t ts)
  then show ?thesis using assms(2) by (auto simp: act_inv_def split: if_splits)
qed

lemma act_step_warm:
  assumes "act_step S S'" "act_inv S" "act_warm S"
  shows "act_warm S'"
  using assms
proof (cases rule: act_step.cases)
  case (act_alloc t clock ts m)
  then show ?thesis using assms(3) by (auto simp: get_ts_act act_warm_def)
next
  case (act_add t ts m)
  then have ts: "ts < ts_counter (act_mgr S)" "t < length (all_ts (act_mgr S))"
    using assms(2) by (auto simp: act_inv_def dest: spec [of _ t])
  then have "ts \<noteq> UINT64_MAX" by auto
  moreover have "mgr_min_ts (act_mgr S) \<le> ts"
    using act_add(3) assms(3) ts(2) order_trans by (fastforce simp: add_ts_mgr act_warm_def)
  ultimately show ?thesis
    using act_add assms(3) by (auto simp: add_ts_mgr act_warm_def nth_list_update)
next
  case (act_min t ts now r m)
  have "min_ts_from (all_ts (act_mgr S)) UINT64_MAX \<le> all_ts (act_mgr S) ! u" if "u < length (all_ts (act_mgr S))" for u
    using that by (metis nth_mem le_min_ts_from order_refl)
  then show ?thesis
    using act_min(1) assms(3) get_min_ts_mgr [OF act_min(3)] by (auto simp: act_warm_def)
next
  case (act_finish t ts)
  then show ?thesis using assms(3) by (simp add: act_warm_def)
qed

lemma act_reachable_inv: "act_reachable S S' \<Longrightarrow> act_inv S \<Longrightarrow> act_inv S'"
  by (induction rule: act_reachable.induct) (auto intro: act_step_inv)

lemma act_reachable_warm: "act_reachable S S' \<Longrightarrow> act_inv S \<Longrightarrow> act_warm S \<Longrightarrow> act_warm S'"
  by (induction rule: act_reachable.induct) (auto intro: act_step_warm act_reachable_inv)

text \<open>Runs, for the concrete examples.\<close>

datatype act_op = Op_alloc nat | Op_add nat | Op_min nat "64 word"

fun act_exec :: "act_op list \<Rightarrow> act_sys \<Rightarrow> act_sys option" where
  "act_exec [] S = Some S"
| "act_exec (Op_alloc t # ops) S =
     (if act_pc S t = Act_idle \<and> t < length (all_ts (act_mgr S)) \<and> ts_counter (act_mgr S) < UINT64_MAX then
        (case get_ts act_config 0 (of_nat t) (act_mgr S) of Inl _ \<Rightarrow> None
         | Inr (ts, m) \<Rightarrow> act_exec ops (S\<lparr>act_mgr := m, act_pc := (act_pc S)(t := Act_got ts)\<rparr>))
      else None)"
| "act_exec (Op_add t # ops) S = (case act_pc S t of
     Act_got ts \<Rightarrow> (case add_ts t ts (act_mgr S) of Inl _ \<Rightarrow> None
       | Inr m \<Rightarrow> act_exec ops (S\<lparr>act_mgr := m, act_pc := (act_pc S)(t := Act_running ts)\<rparr>))
   | _ \<Rightarrow> None)"
| "act_exec (Op_min t now # ops) S = (case act_pc S t of
     Act_running ts \<Rightarrow> act_exec ops (S\<lparr>act_mgr := snd (get_min_ts now t (act_mgr S))\<rparr>)
   | _ \<Rightarrow> None)"

lemma act_exec_reachable: "act_exec ops S = Some S' \<Longrightarrow> act_reachable S0 S \<Longrightarrow> act_reachable S0 S'"
proof (induction ops S rule: act_exec.induct)
  case (2 t ops S)
  define S1 where "S1 = S\<lparr>act_mgr := (act_mgr S)\<lparr>ts_counter := ts_counter (act_mgr S) + 1\<rparr>,
     act_pc := (act_pc S)(t := Act_got (ts_counter (act_mgr S)))\<rparr>"
  have c: "act_pc S t = Act_idle" "t < length (all_ts (act_mgr S))" "ts_counter (act_mgr S) < UINT64_MAX"
      "act_exec ops S1 = Some S'"
    using 2(2) by (auto simp: get_ts_act S1_def split: if_splits)
  have "act_step S S1"
    unfolding S1_def by (rule act_alloc [OF c(1-3) get_ts_act [of 0 "of_nat t"]])
  then show ?case
    using 2(1) [of "(ts_counter (act_mgr S), (act_mgr S)\<lparr>ts_counter := ts_counter (act_mgr S) + 1\<rparr>)"] 2(3) c
    by (simp add: get_ts_act S1_def act_reachable.intros(2))
next
  case (3 t ops S)
  then obtain ts m where c: "act_pc S t = Act_got ts" "add_ts t ts (act_mgr S) = Inr m"
      "act_exec ops (S\<lparr>act_mgr := m, act_pc := (act_pc S)(t := Act_running ts)\<rparr>) = Some S'"
    by (auto split: act_pc.splits sum.splits)
  show ?case
    by (rule 3(1) [OF c(1,2,3) act_reachable.intros(2) [OF 3(3) act_add [OF c(1,2)]]])
next
  case (4 t now ops S)
  then show ?case
    by (auto split: act_pc.splits intro: act_reachable.intros act_min surjective_pairing)
qed simp

definition act_demo :: "act_sys" where
  "act_demo = the (act_exec [Op_alloc 0, Op_add 0] (act_init 1))"

lemma act_demo_exec: "act_exec [Op_alloc 0, Op_add 0] (act_init 1) = Some act_demo"
proof -
  have "act_exec [Op_alloc 0, Op_add 0] (act_init 1) \<noteq> None" by code_simp
  then show ?thesis by (auto simp: act_demo_def)
qed

lemma act_demo_warm: "act_warm act_demo \<and> act_ts (act_pc act_demo 0) = Some 1"
  unfolding act_warm_def act_demo_def by (simp add: act_init_def Manager_init_def get_ts_act add_ts_mgr [THEN iffD2] UINT64_MAX_def add_ts_def)

subsection \<open>Properties\<close>



text \<open>Once every thread has registered a timestamp, the minimum the versions are recycled by is never
  above the timestamp of a transaction that runs or is about to register, and the assertion of
  \<^verbatim>\<open>add_ts\<close> holds.\<close>

theorem min_ts_below_active:
  assumes "act_reachable (act_init n) S" "act_warm S" "act_reachable S S'" "act_ts (act_pc S' t) = Some ts"
  shows "mgr_min_ts (act_mgr S') \<le> ts \<and> (act_pc S' t = Act_got ts \<longrightarrow> (\<exists>m. add_ts t ts (act_mgr S') = Inr m))"
proof -
  have inv: "act_inv S'" "act_warm S'"
    using assms act_reachable_inv act_reachable_warm act_inv_init by blast+
  have t: "t < length (all_ts (act_mgr S'))" using inv(1) assms(4) unfolding act_inv_def by blast
  have "all_ts (act_mgr S') ! t \<le> ts"
    using assms(4) inv t by (cases "act_pc S' t") (auto simp: act_inv_def act_warm_def)
  then show ?thesis using t inv(2) order_trans by (auto simp: add_ts_mgr act_warm_def)
qed

theorem min_ts_below_active_witness:
  "act_ts (act_pc act_demo 0) = Some 1 \<and> mgr_min_ts (act_mgr act_demo) \<le> 1"
  using min_ts_below_active [OF act_exec_reachable [OF act_demo_exec act_reachable.intros(1)] _ act_reachable.intros(1), of 0 1]
    act_demo_warm by simp

text \<open>Before that it can be: a thread that has taken its first timestamp but not registered it is not
  seen, so the minimum rises above the timestamp of a transaction that then runs.\<close>

theorem min_ts_misses_first_txn:
  "\<exists>S. act_reachable (act_init 2) S \<and> act_pc S 1 = Act_running 1 \<and> mgr_min_ts (act_mgr S) = 2"
proof -
  have "case act_exec [Op_alloc 1, Op_alloc 0, Op_add 0, Op_min 0 6000000, Op_add 1] (act_init 2) of
      None \<Rightarrow> False | Some S \<Rightarrow> act_pc S 1 = Act_running 1 \<and> mgr_min_ts (act_mgr S) = 2"
    by code_simp
  then show ?thesis
    using act_exec_reachable [OF _ act_reachable.intros(1)] by (auto split: option.splits simp del: act_exec.simps)
qed

end
