(* ===== verification/Thread_run.thy ===== *)
theory Thread_run
  imports Manager Helper
begin

text \<open>
  The main loop of a worker thread, \<^verbatim>\<open>thread_t::run\<close> of \<^verbatim>\<open>system/thread.cpp\<close>, with the list of queries it takes its work
  from (\<^verbatim>\<open>Query_thd\<close> of \<^verbatim>\<open>system/query.cpp\<close>). An aborted query waits in a buffer for a random time and is then run again. A
  round of the loop is two operations: what comes before the transaction and what comes after it; in between the other threads go on.
  The clock, the penalty and the result of the transaction are arguments.
\<close>

subsection \<open>State\<close>

record run_config =
  rc_alg :: cc_alg
  rc_ts :: ts_config
  hstore_local_ts :: bool
  workload_test :: bool
  warmup_txns :: "32 word"
  max_txn_per_part :: "32 word"
  abort_penalty :: "64 word"
  buffer_slots :: nat
  buffer_compiled :: bool
  buffer_enabled :: bool

record AbortBufferEntry =
  ready_time :: ts_t
  abe_query :: "nat option"

text \<open>A query is its index in the list of the thread. The variables of \<^verbatim>\<open>run\<close> are fields too.\<close>

record thread_t =
  th_id :: "64 word"
  th_curr_ts :: ts_t
  abort_buffer :: "AbortBufferEntry list"
  empty_slots :: int
  buffer_on :: bool
  q_idx :: nat
  queries_len :: nat
  m_txn :: txn_man
  txn_aborts :: nat
  th_rc :: RC
  m_query :: "nat option"
  thd_txn_id :: "64 word"
  txn_cnt :: "64 word"

definition thread_cnt :: "run_config \<Rightarrow> 32 word" where
  "thread_cnt c = g_thread_cnt (rc_ts c)"

text \<open>The constants are of type \<^verbatim>\<open>int\<close>, so the first sum is taken with 32 bits.\<close>

definition request_cnt :: "run_config \<Rightarrow> 64 word" where
  "request_cnt c = ucast (warmup_txns c div thread_cnt c + max_txn_per_part c + 4) + (if buffer_compiled c then of_nat (buffer_slots c) else 0)"

text \<open>The ready times of the buffer and the fields of the transaction are what the allocation left there.\<close>

definition thread_init :: "run_config \<Rightarrow> 64 word \<Rightarrow> ts_t \<Rightarrow> ts_t \<Rightarrow> txn_man \<Rightarrow> thread_t" where
  "thread_init c tid old_time old_ts txn =
     \<lparr>th_id = tid, th_curr_ts = old_ts, abort_buffer = replicate (buffer_slots c) \<lparr>ready_time = old_time, abe_query = None\<rparr>,
      empty_slots = int (buffer_slots c), buffer_on = buffer_enabled c, q_idx = 0, queries_len = unat (request_cnt c),
      m_txn = txn, txn_aborts = 0, th_rc = RCOK, m_query = None, thd_txn_id = 0, txn_cnt = 0\<rparr>"

text \<open>The start of \<^verbatim>\<open>run\<close>, which is called twice: the variables are new, the buffer is not.\<close>

definition run_start :: "txn_man \<Rightarrow> thread_t \<Rightarrow> thread_t" where
  "run_start txn th = th\<lparr>m_txn := txn, th_rc := RCOK, m_query := None, thd_txn_id := 0, txn_cnt := 0\<rparr>"

subsection \<open>Taking a query\<close>

definition get_next_query :: "thread_t \<Rightarrow> fault + (nat \<times> thread_t)" where
  "get_next_query th = bindE (guard Out_of_bounds (q_idx th < queries_len th)) (\<lambda>_. Inr (q_idx th, th\<lparr>q_idx := Suc (q_idx th)\<rparr>))"

definition next_ts :: "run_config \<Rightarrow> 64 word \<Rightarrow> thread_t \<Rightarrow> Manager \<Rightarrow> fault + (ts_t \<times> thread_t \<times> Manager)" where
  "next_ts c clock th m =
     bindE (get_next_ts (rc_ts c) clock (th_id th) (th_curr_ts th) m) (\<lambda>(ts, cu, m1). Inr (ts, th\<lparr>th_curr_ts := cu\<rparr>, m1))"

definition set_ts :: "ts_t \<Rightarrow> thread_t \<Rightarrow> thread_t" where
  "set_ts ts th = th\<lparr>m_txn := (m_txn th)\<lparr>timestamp := ts\<rparr>\<rparr>"

text \<open>The first entry that is ready is taken; when the buffer is full, the smallest ready time passed on the way is kept.\<close>

fun scan_buffer :: "ts_t \<Rightarrow> bool \<Rightarrow> AbortBufferEntry list \<Rightarrow> ts_t \<Rightarrow> nat option \<times> AbortBufferEntry list \<times> ts_t" where
  "scan_buffer now full [] mn = (None, [], mn)"
| "scan_buffer now full (e # es) mn =
     (if abe_query e \<noteq> None \<and> now > ready_time e then (abe_query e, e\<lparr>abe_query := None\<rparr> # es, mn)
      else
        let (q, es', mn') = scan_buffer now full es (if full \<and> ready_time e < mn then ready_time e else mn)
        in (q, e # es', mn'))"

definition try_buffer :: "ts_t \<Rightarrow> thread_t \<Rightarrow> nat option \<times> ts_t \<times> thread_t" where
  "try_buffer now th =
     (if empty_slots th < int (length (abort_buffer th)) then
        let (q, es, mn) = scan_buffer now (empty_slots th = 0) (abort_buffer th) UINT64_MAX
        in (q, mn, th\<lparr>abort_buffer := es, empty_slots := (if q \<noteq> None then empty_slots th + 1 else empty_slots th)\<rparr>)
      else (None, UINT64_MAX, th))"

definition fetch_query :: "run_config \<Rightarrow> 64 word \<Rightarrow> thread_t \<Rightarrow> Manager \<Rightarrow> fault + (thread_t \<times> Manager)" where
  "fetch_query c clock th m =
     bindE (get_next_query th) (\<lambda>(q, th1).
     let th2 = th1\<lparr>m_query := Some q\<rparr> in
     if rc_alg c = WAIT_DIE then bindE (next_ts c clock th2 m) (\<lambda>(ts, th3, m1). Inr (set_ts ts th3, m1)) else Inr (th2, m))"

text \<open>The inner loop: \<open>nows\<close> are the times it reads, one in each trial. \<^verbatim>\<open>trial\<close> stays 0, so the loop is left only with a query.\<close>

fun wait_query :: "run_config \<Rightarrow> ts_t list \<Rightarrow> 64 word \<Rightarrow> thread_t \<Rightarrow> Manager \<Rightarrow> fault + (thread_t \<times> Manager)" where
  "wait_query c [] clock th m = Inl Spinning"
| "wait_query c (now # nows) clock th m =
     (let (q, mn, th1) = try_buffer now th in
      if q = None \<and> empty_slots th1 = 0 then bindE (assert_that (mn \<ge> now)) (\<lambda>_. wait_query c nows clock th1 m)
      else if q = None then fetch_query c clock th1 m
      else Inr (th1\<lparr>m_query := q\<rparr>, m))"

definition take_query :: "run_config \<Rightarrow> ts_t list \<Rightarrow> 64 word \<Rightarrow> thread_t \<Rightarrow> Manager \<Rightarrow> fault + (thread_t \<times> Manager)" where
  "take_query c nows clock th m =
     (if workload_test c then Inr (th, m)
      else if buffer_on th then wait_query c nows clock (th\<lparr>m_query := None\<rparr>) m
      else if th_rc th = RCOK then bindE (get_next_query th) (\<lambda>(q, th1). Inr (th1\<lparr>m_query := Some q\<rparr>, m))
      else Inr (th, m))"

subsection \<open>Before and after the transaction\<close>

definition needs_ts :: "run_config \<Rightarrow> bool" where
  "needs_ts c \<longleftrightarrow> rc_alg c = HSTORE \<and> \<not> hstore_local_ts c \<or> rc_alg c = MVCC \<or> rc_alg c = HEKATON \<or> rc_alg c = TIMESTAMP"

definition number_txn :: "run_config \<Rightarrow> thread_t \<Rightarrow> thread_t" where
  "number_txn c th = th\<lparr>txn_aborts := 0, m_txn := (m_txn th)\<lparr>txn_id := th_id th + thd_txn_id th * ucast (thread_cnt c)\<rparr>,
     thd_txn_id := thd_txn_id th + 1, th_rc := RCOK\<rparr>"

definition register_ts :: "run_config \<Rightarrow> 64 word \<Rightarrow> thread_t \<Rightarrow> Manager \<Rightarrow> fault + (thread_t \<times> Manager)" where
  "register_ts c clock th m =
     (if rc_alg c = MVCC \<or> rc_alg c = HEKATON then bindE (add_ts (unat (th_id th)) (timestamp (m_txn th)) m) (\<lambda>m1. Inr (th, m1))
      else if rc_alg c = OCC then bindE (next_ts c clock th m) (\<lambda>(ts, th1, m1). Inr (th1\<lparr>m_txn := (m_txn th1)\<lparr>start_ts := ts\<rparr>\<rparr>, m1))
      else Inr (th, m))"

definition begin_round :: "run_config \<Rightarrow> ts_t list \<Rightarrow> 64 word \<Rightarrow> thread_t \<Rightarrow> Manager \<Rightarrow> fault + (thread_t \<times> Manager)" where
  "begin_round c nows clock th m =
     bindE (take_query c nows clock th m) (\<lambda>(th1, m1).
     let th2 = number_txn c th1 in
     bindE (if needs_ts c then bindE (next_ts c clock th2 m1) (\<lambda>(ts, th3, m2). Inr (set_ts ts th3, m2)) else Inr (th2, m1)) (\<lambda>(th3, m2).
     register_ts c clock th3 m2))"

text \<open>The result of the transaction: under HSTORE its partitions are locked first, under VLL the queue runs it.\<close>

definition txn_rc :: "run_config \<Rightarrow> RC \<Rightarrow> RC \<Rightarrow> RC" where
  "txn_rc c lock_rc run_rc =
     (if rc_alg c = VLL then RCOK else if rc_alg c = HSTORE \<and> lock_rc \<noteq> RCOK then lock_rc else run_rc)"

fun put_first_empty :: "ts_t \<Rightarrow> nat option \<Rightarrow> AbortBufferEntry list \<Rightarrow> AbortBufferEntry list option" where
  "put_first_empty ready q [] = None"
| "put_first_empty ready q (e # es) =
     (if abe_query e = None then Some (\<lparr>ready_time = ready, abe_query = q\<rparr> # es) else map_option ((#) e) (put_first_empty ready q es))"

definition buffer_query :: "run_config \<Rightarrow> ts_t \<Rightarrow> 64 word \<Rightarrow> thread_t \<Rightarrow> fault + thread_t" where
  "buffer_query c now penalty th =
     (if buffer_on th then
        bindE (assert_that (empty_slots th > 0)) (\<lambda>_.
        let ready = now + (if abort_penalty c \<noteq> 0 then penalty else 0) in
        Inr (case put_first_empty ready (m_query th) (abort_buffer th) of None \<Rightarrow> th
             | Some es \<Rightarrow> th\<lparr>abort_buffer := es, empty_slots := empty_slots th - 1\<rparr>))
      else Inr th)"

text \<open>The end of a round: the result says whether \<^verbatim>\<open>run\<close> returns, and what \<^verbatim>\<open>sim_done\<close> is.\<close>

definition loop_exit :: "run_config \<Rightarrow> bool \<Rightarrow> bool \<Rightarrow> thread_t \<Rightarrow> fault + (bool \<times> bool \<times> thread_t)" where
  "loop_exit c warmup_finish sim_done th =
     bindE (guard Undefined_behaviour (warmup_finish \<or> thread_cnt c \<noteq> 0)) (\<lambda>_.
     if \<not> warmup_finish \<and> txn_cnt th \<ge> ucast (warmup_txns c div thread_cnt c) then Inr (True, sim_done, th)
     else if warmup_finish \<and> txn_cnt th \<ge> ucast (max_txn_per_part c) then
       bindE (assert_that (txn_cnt th = ucast (max_txn_per_part c))) (\<lambda>_. Inr (True, True, th))
     else Inr (sim_done, sim_done, th))"

definition end_round :: "run_config \<Rightarrow> bool \<Rightarrow> RC \<Rightarrow> ts_t \<Rightarrow> 64 word \<Rightarrow> bool \<Rightarrow> thread_t \<Rightarrow> fault + (bool \<times> bool \<times> thread_t)" where
  "end_round c warmup_finish rc now penalty sim_done th =
     bindE (if rc = Abort then buffer_query c now penalty (th\<lparr>th_rc := rc\<rparr>) else Inr (th\<lparr>th_rc := rc\<rparr>)) (\<lambda>th1.
     let th2 = (if rc = RCOK then th1\<lparr>txn_cnt := txn_cnt th1 + 1\<rparr>
                else if rc = Abort then th1\<lparr>txn_aborts := txn_aborts th1 + 1\<rparr> else th1)
     in if rc = FINISH then Inr (True, sim_done, th2) else loop_exit c warmup_finish sim_done th2)"

subsection \<open>The thread among the others\<close>

datatype thr_phase = At_top | Running | Returned

text \<open>Beside the state of the program: the queries that have committed, and those that were given up at the end of the warm-up.\<close>

record thr_sys =
  ts_th :: thread_t
  ts_mgr :: Manager
  ts_phase :: thr_phase
  ts_warm :: bool
  ts_sim :: bool
  ts_done :: "nat list"
  ts_dropped :: "nat list"

text \<open>The query the thread has in its hands: the one that runs, or, without a buffer, the one to be run again.\<close>

definition held :: "thr_phase \<Rightarrow> thread_t \<Rightarrow> nat list" where
  "held p th = (if p = Running \<or> \<not> buffer_on th \<and> th_rc th \<noteq> RCOK then (case m_query th of None \<Rightarrow> [] | Some q \<Rightarrow> [q]) else [])"

text \<open>The other threads take timestamps and register their own.\<close>

definition others_run :: "nat \<Rightarrow> Manager \<Rightarrow> Manager \<Rightarrow> bool" where
  "others_run tid m m' \<longleftrightarrow> length (all_ts m') = length (all_ts m) \<and> all_ts m' ! tid = all_ts m ! tid \<and> ts_counter m \<le> ts_counter m'"

inductive thr_step :: "run_config \<Rightarrow> thr_sys \<Rightarrow> thr_sys \<Rightarrow> bool" for c where
  thr_begin: "ts_phase s = At_top \<Longrightarrow> ts_counter (ts_mgr s) < UINT64_MAX \<Longrightarrow>
     begin_round c nows clock (ts_th s) (ts_mgr s) = Inr (th, m) \<Longrightarrow>
     thr_step c s (s\<lparr>ts_th := th, ts_mgr := m, ts_phase := Running\<rparr>)"
| thr_end: "ts_phase s = Running \<Longrightarrow> rc \<in> {RCOK, Abort} \<Longrightarrow>
     end_round c (ts_warm s) rc now penalty (ts_sim s) (ts_th s) = Inr (ret, sim, th) \<Longrightarrow>
     thr_step c s (s\<lparr>ts_th := th, ts_sim := sim, ts_phase := (if ret then Returned else At_top),
       ts_done := ts_done s @ (if rc = RCOK then [the (m_query (ts_th s))] else [])\<rparr>)"
| thr_again: "ts_phase s = Returned \<Longrightarrow> \<not> ts_warm s \<Longrightarrow>
     thr_step c s (s\<lparr>ts_th := run_start txn (ts_th s), ts_phase := At_top, ts_warm := True, ts_dropped := held Returned (ts_th s)\<rparr>)"
| thr_others: "others_run (unat (th_id (ts_th s))) (ts_mgr s) m \<Longrightarrow> thr_step c s (s\<lparr>ts_mgr := m, ts_sim := ts_sim s \<or> b\<rparr>)"

definition thr_start :: "run_config \<Rightarrow> bool \<Rightarrow> 64 word \<Rightarrow> ts_t \<Rightarrow> ts_t \<Rightarrow> txn_man \<Rightarrow> Manager \<Rightarrow> thr_sys" where
  "thr_start c warm tid old_time old_ts txn m = \<lparr>ts_th = thread_init c tid old_time old_ts txn, ts_mgr = m, ts_phase = At_top,
     ts_warm = warm, ts_sim = False, ts_done = [], ts_dropped = []\<rparr>"

definition warmup_share :: "run_config \<Rightarrow> nat" where
  "warmup_share c = unat (warmup_txns c div thread_cnt c)"

text \<open>The build: timestamps without batches, and constants that fit an \<^verbatim>\<open>int\<close>.\<close>

definition run_cfg_ok :: "run_config \<Rightarrow> bool" where
  "run_cfg_ok c \<longleftrightarrow> \<not> workload_test c \<and> thread_cnt c \<noteq> 0 \<and> 0 < max_txn_per_part c \<and> 0 < buffer_slots c \<and>
     (buffer_enabled c \<longrightarrow> buffer_compiled c) \<and> g_ts_alloc (rc_ts c) \<in> {TS_CAS, TS_MUTEX} \<and> \<not> g_ts_batch_alloc (rc_ts c) \<and>
     warmup_share c + unat (max_txn_per_part c) + 4 + buffer_slots c < 2 ^ 31"

subsection \<open>The buffer\<close>

fun waiting :: "AbortBufferEntry list \<Rightarrow> nat list" where
  "waiting [] = []"
| "waiting (e # es) = (case abe_query e of None \<Rightarrow> waiting es | Some q \<Rightarrow> q # waiting es)"

definition empties :: "AbortBufferEntry list \<Rightarrow> nat" where
  "empties es = length (filter (\<lambda>e. abe_query e = None) es)"

lemma empties_simps [simp]:
  "empties [] = 0"
  "empties (e # es) = (if abe_query e = None then Suc (empties es) else empties es)"
  by (simp_all add: empties_def)

lemma empties_waiting: "empties es + length (waiting es) = length es"
  by (induction es) (auto split: option.splits)

lemma empties_0: "empties es = 0 \<longleftrightarrow> (\<forall>e\<in>set es. abe_query e \<noteq> None)"
  by (simp add: empties_def filter_empty_conv)

lemma scan_buffer_None:
  assumes "scan_buffer now full es mn = (None, es', mn')"
  shows "es' = es \<and> (\<forall>e\<in>set es. abe_query e \<noteq> None \<longrightarrow> now \<le> ready_time e) \<and> (empties es = 0 \<longrightarrow> now \<le> mn \<longrightarrow> now \<le> mn')"
  using assms
proof (induction es arbitrary: mn es')
  case (Cons e es)
  let ?mn = "if full \<and> ready_time e < mn then ready_time e else mn"
  have n: "\<not> (abe_query e \<noteq> None \<and> now > ready_time e)" using Cons.prems by (auto split: if_splits)
  then obtain es1 where es1: "scan_buffer now full es ?mn = (None, es1, mn')" "es' = e # es1"
    using Cons.prems by (auto simp: Let_def split: prod.splits)
  from Cons.IH [OF es1(1)] es1(2) n show ?case by (auto simp: not_less split: if_splits)
qed simp

lemma scan_buffer_Some:
  assumes "scan_buffer now full es mn = (Some q, es', mn')"
  shows "length es' = length es \<and> mset (waiting es) = add_mset q (mset (waiting es')) \<and> empties es' = Suc (empties es)"
  using assms
proof (induction es arbitrary: mn es')
  case (Cons e es)
  then show ?case by (auto simp: Let_def split: if_splits prod.splits option.splits)
qed simp

lemma put_first_empty_None: "put_first_empty t q es = None \<longleftrightarrow> empties es = 0"
  by (induction es) auto

lemma put_first_empty_Some:
  assumes "put_first_empty t (Some q) es = Some es'"
  shows "length es' = length es \<and> mset (waiting es') = add_mset q (mset (waiting es)) \<and> empties es = Suc (empties es')"
  using assms
proof (induction es arbitrary: es')
  case (Cons e es)
  then show ?case by (auto split: if_splits option.splits)
qed simp

definition buf_ok :: "thread_t \<Rightarrow> bool" where
  "buf_ok th \<longleftrightarrow> empty_slots th = int (empties (abort_buffer th)) \<and> 0 < length (abort_buffer th)"

lemma try_buffer_None:
  assumes "buf_ok th" "try_buffer now th = (None, mn, th1)"
  shows "th1 = th \<and> (empty_slots th = 0 \<longrightarrow> now \<le> mn \<and> (\<forall>e\<in>set (abort_buffer th). now \<le> ready_time e))"
proof (cases "empty_slots th < int (length (abort_buffer th))")
  case True
  then obtain es where es: "scan_buffer now (empty_slots th = 0) (abort_buffer th) UINT64_MAX = (None, es, mn)"
      "th1 = th\<lparr>abort_buffer := es, empty_slots := empty_slots th\<rparr>"
    using assms(2) by (auto simp: try_buffer_def Let_def split: prod.splits)
  then show ?thesis using scan_buffer_None [OF es(1)] assms(1) empties_0 by (auto simp: buf_ok_def)
next
  case False
  then show ?thesis using assms by (auto simp: try_buffer_def buf_ok_def)
qed

lemma try_buffer_Some:
  assumes "buf_ok th" "try_buffer now th = (Some q, mn, th1)"
  shows "buf_ok th1 \<and> 0 < empty_slots th1 \<and> length (abort_buffer th1) = length (abort_buffer th) \<and>
    mset (waiting (abort_buffer th)) = add_mset q (mset (waiting (abort_buffer th1))) \<and>
    th1 = th\<lparr>abort_buffer := abort_buffer th1, empty_slots := empty_slots th1\<rparr>"
proof -
  obtain es where es: "scan_buffer now (empty_slots th = 0) (abort_buffer th) UINT64_MAX = (Some q, es, mn)"
      "th1 = th\<lparr>abort_buffer := es, empty_slots := empty_slots th + 1\<rparr>"
    using assms(2) by (auto simp: try_buffer_def Let_def split: prod.splits if_splits)
  then show ?thesis using scan_buffer_Some [OF es(1)] assms(1) by (auto simp: buf_ok_def)
qed

subsection \<open>What a round does\<close>

definition mgr_ok :: "nat \<Rightarrow> Manager \<Rightarrow> bool" where
  "mgr_ok tid m \<longleftrightarrow> tid < length (all_ts m) \<and> (all_ts m ! tid = UINT64_MAX \<or> all_ts m ! tid \<le> ts_counter m)"

text \<open>The thread has taken a query: a waiting one, the one it held, or the next of its list.\<close>

definition took :: "thread_t \<Rightarrow> thread_t \<Rightarrow> bool" where
  "took th th' \<longleftrightarrow> buf_ok th' \<and> length (abort_buffer th') = length (abort_buffer th) \<and>
     (\<exists>q. m_query th' = Some q \<and> mset (held At_top th) + mset (waiting (abort_buffer th)) + mset [0..<q_idx th'] =
       add_mset q (mset (waiting (abort_buffer th')) + mset [0..<q_idx th])) \<and>
     (if buffer_on th then 0 < empty_slots th' else abort_buffer th' = abort_buffer th) \<and> buffer_on th' = buffer_on th \<and>
     queries_len th' = queries_len th \<and> txn_cnt th' = txn_cnt th \<and> th_id th' = th_id th"

definition began :: "run_config \<Rightarrow> thread_t \<Rightarrow> thread_t \<Rightarrow> bool" where
  "began c th th' \<longleftrightarrow> took th th' \<and> th_rc th' = RCOK \<and> thd_txn_id th' = thd_txn_id th + 1 \<and>
     txn_id (m_txn th') = th_id th + thd_txn_id th * ucast (thread_cnt c)"

lemma mset_set_upt_Suc [simp]: "mset_set {0..<Suc n} = add_mset n (mset_set {0..<n})"
  by (simp add: atLeast0_lessThan_Suc)

lemma next_ts_plain:
  assumes "run_cfg_ok c" "ts_counter m < UINT64_MAX"
  shows "\<exists>ts. next_ts c clock th m = Inr (ts, th\<lparr>th_curr_ts := ts\<rparr>, m\<lparr>ts_counter := ts_counter m + 1\<rparr>) \<and>
    ts_counter m \<le> ts \<and> ts \<le> ts_counter m + 1"
proof -
  have "ts_counter m \<le> ts_counter m + 1" using less_plus_1 [OF assms(2), of "ts_counter m"] by (simp add: order.strict_implies_order)
  then show ?thesis using assms(1) by (auto simp: next_ts_def get_next_ts_def get_ts_def run_cfg_ok_def)
qed

lemma mgr_ok_count: "mgr_ok tid m \<Longrightarrow> ts_counter m < UINT64_MAX \<Longrightarrow> mgr_ok tid (m\<lparr>ts_counter := ts_counter m + 1\<rparr>)"
  using less_plus_1 [of "ts_counter m"] by (auto simp: mgr_ok_def intro: order_trans order.strict_implies_order)

lemma fetch_query_ok:
  assumes "run_cfg_ok c" "ts_counter m < UINT64_MAX" "buf_ok th" "held At_top th = []" "q_idx th < queries_len th"
    "buffer_on th \<longrightarrow> 0 < empty_slots th"
  shows "\<exists>th' m'. fetch_query c clock th m = Inr (th', m') \<and> took th th' \<and> th_rc th' = th_rc th \<and> thd_txn_id th' = thd_txn_id th \<and>
    (m' = m \<or> rc_alg c = WAIT_DIE \<and> m' = m\<lparr>ts_counter := ts_counter m + 1\<rparr>)"
proof -
  let ?th = "th\<lparr>q_idx := Suc (q_idx th), m_query := Some (q_idx th)\<rparr>"
  obtain ts where "next_ts c clock ?th m = Inr (ts, ?th\<lparr>th_curr_ts := ts\<rparr>, m\<lparr>ts_counter := ts_counter m + 1\<rparr>)"
    using next_ts_plain [OF assms(1,2)] by blast
  then show ?thesis
    using assms(3-) by (auto simp: fetch_query_def get_next_query_def Let_def set_ts_def took_def buf_ok_def)
qed

lemma wait_query_ok:
  assumes cfg: "run_cfg_ok c" "ts_counter m < UINT64_MAX" and buf: "buf_ok th" "buffer_on th" and q: "q_idx th < queries_len th"
  shows "case wait_query c nows clock th m of Inl e \<Rightarrow> e = Spinning
    | Inr (th', m') \<Rightarrow> took th th' \<and> th_rc th' = th_rc th \<and> thd_txn_id th' = thd_txn_id th \<and>
        (m' = m \<or> rc_alg c = WAIT_DIE \<and> m' = m\<lparr>ts_counter := ts_counter m + 1\<rparr>)"
proof (induction nows)
  case (Cons now nows)
  obtain r mn th1 where t: "try_buffer now th = (r, mn, th1)" by (cases "try_buffer now th") auto
  show ?case
  proof (cases r)
    case None
    then have n: "th1 = th" "empty_slots th = 0 \<longrightarrow> now \<le> mn" using try_buffer_None [OF buf(1), of now mn th1] t by auto
    have h: "held At_top th = []" using buf(2) by (simp add: held_def)
    have "0 \<le> empty_slots th" using buf(1) by (simp add: buf_ok_def)
    then show ?thesis using Cons fetch_query_ok [OF cfg buf(1) h q, of clock] t n None by (cases "empty_slots th = 0") (auto simp: Let_def)
  next
    case (Some x)
    then have k: "buf_ok th1" "0 < empty_slots th1" "length (abort_buffer th1) = length (abort_buffer th)"
      "mset (waiting (abort_buffer th)) = add_mset x (mset (waiting (abort_buffer th1)))"
      "th1 = th\<lparr>abort_buffer := abort_buffer th1, empty_slots := empty_slots th1\<rparr>"
      using try_buffer_Some [OF buf(1), of now x mn th1] t by auto
    obtain es n where th1: "th1 = th\<lparr>abort_buffer := es, empty_slots := n\<rparr>" using k(5) by blast
    have "took th (th1\<lparr>m_query := r\<rparr>)" using k(1-4) buf Some by (simp add: th1 took_def held_def buf_ok_def)
    then show ?thesis using t Some by (simp add: Let_def th1)
  qed
qed simp

lemma took_query_None: "buffer_on th \<Longrightarrow> took (th\<lparr>m_query := None\<rparr>) th' = took th th'"
  by (simp add: took_def held_def)

lemma take_query_ok:
  assumes cfg: "run_cfg_ok c" "ts_counter m < UINT64_MAX" and buf: "buf_ok th" and q: "q_idx th < queries_len th"
    and h: "\<not> buffer_on th \<Longrightarrow> th_rc th \<noteq> RCOK \<Longrightarrow> m_query th \<noteq> None"
  shows "case take_query c nows clock th m of Inl e \<Rightarrow> e = Spinning
    | Inr (th', m') \<Rightarrow> took th th' \<and> thd_txn_id th' = thd_txn_id th \<and>
        (m' = m \<or> rc_alg c = WAIT_DIE \<and> m' = m\<lparr>ts_counter := ts_counter m + 1\<rparr>)"
proof (cases "buffer_on th")
  case True
  let ?th = "th\<lparr>m_query := None\<rparr>"
  have "buf_ok ?th" using buf by (simp add: buf_ok_def)
  with wait_query_ok [OF cfg this, of nows clock] True q cfg(1) show ?thesis
    by (auto simp: take_query_def took_query_None run_cfg_ok_def split: sum.splits)
next
  case False
  then show ?thesis using h buf q cfg(1) by (auto simp: take_query_def run_cfg_ok_def get_next_query_def took_def held_def buf_ok_def)
qed

lemma began_txn:
  assumes "took th th1" "thd_txn_id th1 = thd_txn_id th"
  shows "began c th ((number_txn c th1)\<lparr>th_curr_ts := x\<rparr>)" "began c th (number_txn c th1)"
  using assms unfolding began_def number_txn_def took_def buf_ok_def by auto

lemma began_keep:
  assumes "began c th th1" "txn_id t = txn_id (m_txn th1)"
  shows "began c th (th1\<lparr>th_curr_ts := x, m_txn := t\<rparr>)"
  using assms unfolding began_def took_def buf_ok_def by auto

lemma begin_round_ok:
  assumes cfg: "run_cfg_ok c" "ts_counter m < UINT64_MAX" and buf: "buf_ok th" "q_idx th < queries_len th"
    and h: "\<not> buffer_on th \<Longrightarrow> th_rc th \<noteq> RCOK \<Longrightarrow> m_query th \<noteq> None" and mg: "mgr_ok (unat (th_id th)) m"
  shows "(\<exists>th' m'. begin_round c nows clock th m = Inr (th', m') \<and> began c th th' \<and> mgr_ok (unat (th_id th)) m') \<or>
    begin_round c nows clock th m = Inl Spinning \<and> take_query c nows clock th m = Inl Spinning"
proof (cases "take_query c nows clock th m")
  case (Inl e)
  then show ?thesis using take_query_ok [OF cfg buf h, of nows clock] by (simp add: begin_round_def)
next
  case (Inr r)
  obtain th1 m1 where r: "r = (th1, m1)" by (cases r)
  have t: "took th th1" "thd_txn_id th1 = thd_txn_id th" "m1 = m \<or> rc_alg c = WAIT_DIE \<and> m1 = m\<lparr>ts_counter := ts_counter m + 1\<rparr>"
    using take_query_ok [OF cfg buf h, of nows clock] Inr r by auto
  let ?th2 = "number_txn c th1"
  have b: "began c th ?th2" "th_id ?th2 = th_id th" "th_id th1 = th_id th" using began_txn [OF t(1,2)] t(1) by (simp_all add: number_txn_def took_def)
  obtain ts where ts: "next_ts c clock ?th2 m = Inr (ts, ?th2\<lparr>th_curr_ts := ts\<rparr>, m\<lparr>ts_counter := ts_counter m + 1\<rparr>)"
    "ts_counter m \<le> ts" "ts \<le> ts_counter m + 1"
    using next_ts_plain [OF cfg, of clock ?th2] by blast
  let ?th3 = "set_ts ts (?th2\<lparr>th_curr_ts := ts\<rparr>)"
  have b3: "began c th ?th3" unfolding set_ts_def by (rule began_keep [OF b(1)]) simp
  have b4: "began c th (?th2\<lparr>th_curr_ts := ts, m_txn := (m_txn ?th2)\<lparr>start_ts := ts\<rparr>\<rparr>)"
    by (rule began_keep [OF b(1)]) simp
  have mc: "mgr_ok (unat (th_id th)) (m\<lparr>ts_counter := ts_counter m + 1\<rparr>)" using mgr_ok_count [OF mg cfg(2)] .
  show ?thesis
  proof (cases "rc_alg c = WAIT_DIE")
    case True
    then show ?thesis using Inr r t(3) b(1) mg mc by (auto simp: begin_round_def Let_def needs_ts_def register_ts_def)
  next
    case False
    then have m1: "m1 = m" using t(3) by simp
    consider "rc_alg c = MVCC \<or> rc_alg c = HEKATON" | "rc_alg c = OCC" | "rc_alg c \<noteq> MVCC" "rc_alg c \<noteq> HEKATON" "rc_alg c \<noteq> OCC" by blast
    then show ?thesis
    proof cases
      case 1
      have "add_ts (unat (th_id th)) ts (m\<lparr>ts_counter := ts_counter m + 1\<rparr>) =
          Inr (m\<lparr>ts_counter := ts_counter m + 1, all_ts := (all_ts m)[unat (th_id th) := ts]\<rparr>)"
        using mg ts(2) by (auto simp: mgr_ok_def add_ts_mgr)
      moreover have "mgr_ok (unat (th_id th)) (m\<lparr>ts_counter := ts_counter m + 1, all_ts := (all_ts m)[unat (th_id th) := ts]\<rparr>)"
        using mg ts(3) by (simp add: mgr_ok_def)
      ultimately show ?thesis using 1 Inr r m1 ts(1) b3 b(2) by (auto simp: begin_round_def Let_def needs_ts_def register_ts_def set_ts_def)
    next
      case 2
      then show ?thesis using Inr r m1 ts(1) b4 mc by (auto simp: begin_round_def Let_def needs_ts_def register_ts_def)
    next
      case 3
      then show ?thesis using Inr r m1 ts(1) b3 b(1) mc mg by (auto simp: begin_round_def Let_def needs_ts_def register_ts_def)
    qed
  qed
qed

subsection \<open>The invariant\<close>

text \<open>How many transactions a run commits at most. In the warm-up a thread with no share of it still runs once.\<close>

definition txn_quota :: "run_config \<Rightarrow> bool \<Rightarrow> nat" where
  "txn_quota c warm = (if warm then unat (max_txn_per_part c) else max 1 (warmup_share c))"

definition thr_inv :: "run_config \<Rightarrow> thr_sys \<Rightarrow> bool" where
  "thr_inv c s \<longleftrightarrow> buf_ok (ts_th s) \<and> length (abort_buffer (ts_th s)) = buffer_slots c \<and> buffer_on (ts_th s) = buffer_enabled c \<and>
     queries_len (ts_th s) = unat (request_cnt c) \<and>
     mset (ts_done s) + mset (ts_dropped s) + mset (waiting (abort_buffer (ts_th s))) + mset (held (ts_phase s) (ts_th s)) =
       mset [0..<q_idx (ts_th s)] \<and>
     (\<not> buffer_on (ts_th s) \<longrightarrow> waiting (abort_buffer (ts_th s)) = []) \<and>
     length (ts_dropped s) \<le> (if ts_warm s \<and> \<not> buffer_on (ts_th s) then 1 else 0) \<and>
     length (ts_done s) \<le> (if ts_warm s then txn_quota c False else 0) + unat (txn_cnt (ts_th s)) \<and>
     unat (txn_cnt (ts_th s)) \<le> txn_quota c (ts_warm s) \<and>
     (ts_phase s \<noteq> Returned \<longrightarrow> unat (txn_cnt (ts_th s)) < txn_quota c (ts_warm s)) \<and>
     (ts_phase s = Running \<longrightarrow> th_rc (ts_th s) = RCOK \<and> m_query (ts_th s) \<noteq> None \<and> (buffer_on (ts_th s) \<longrightarrow> 0 < empty_slots (ts_th s))) \<and>
     (\<not> buffer_on (ts_th s) \<longrightarrow> th_rc (ts_th s) \<noteq> RCOK \<longrightarrow> m_query (ts_th s) \<noteq> None) \<and>
     mgr_ok (unat (th_id (ts_th s))) (ts_mgr s)"

lemma thr_invD:
  assumes "thr_inv c s"
  shows "buf_ok (ts_th s)" "length (abort_buffer (ts_th s)) = buffer_slots c" "buffer_on (ts_th s) = buffer_enabled c"
    "queries_len (ts_th s) = unat (request_cnt c)"
    "mset (ts_done s) + mset (ts_dropped s) + mset (waiting (abort_buffer (ts_th s))) + mset (held (ts_phase s) (ts_th s)) = mset [0..<q_idx (ts_th s)]"
    "\<not> buffer_on (ts_th s) \<Longrightarrow> waiting (abort_buffer (ts_th s)) = []"
    "length (ts_dropped s) \<le> (if ts_warm s \<and> \<not> buffer_on (ts_th s) then 1 else 0)"
    "length (ts_done s) \<le> (if ts_warm s then txn_quota c False else 0) + unat (txn_cnt (ts_th s))"
    "unat (txn_cnt (ts_th s)) \<le> txn_quota c (ts_warm s)" "ts_phase s \<noteq> Returned \<Longrightarrow> unat (txn_cnt (ts_th s)) < txn_quota c (ts_warm s)"
    "ts_phase s = Running \<Longrightarrow> th_rc (ts_th s) = RCOK \<and> m_query (ts_th s) \<noteq> None \<and> (buffer_on (ts_th s) \<longrightarrow> 0 < empty_slots (ts_th s))"
    "\<not> buffer_on (ts_th s) \<Longrightarrow> th_rc (ts_th s) \<noteq> RCOK \<Longrightarrow> m_query (ts_th s) \<noteq> None" "mgr_ok (unat (th_id (ts_th s))) (ts_mgr s)"
  using assms unfolding thr_inv_def by blast+

lemma request_cnt_nat:
  assumes "run_cfg_ok c"
  shows "unat (request_cnt c) = warmup_share c + unat (max_txn_per_part c) + 4 + (if buffer_compiled c then buffer_slots c else 0)"
proof -
  let ?W = "warmup_txns c div thread_cnt c" and ?M = "max_txn_per_part c"
  have lt: "unat ?W + unat ?M + 4 + buffer_slots c < 2 ^ 31" using assms by (simp add: run_cfg_ok_def warmup_share_def)
  have a: "unat (?W + ?M) = unat ?W + unat ?M" using lt unat_add_lem [of ?W ?M] by simp
  have b: "unat (?W + ?M + 4) = unat ?W + unat ?M + 4" using lt a unat_add_lem [of "?W + ?M" 4] by simp
  have u: "unat (ucast (?W + ?M + 4) :: 64 word) = unat ?W + unat ?M + 4"
    using b unsigned_less [of "?W + ?M + 4", where ?'a = nat] by (simp add: unsigned_ucast_eq take_bit_nat_eq_self)
  have s: "unat (of_nat (buffer_slots c) :: 64 word) = buffer_slots c" using lt by (simp add: unsigned_of_nat take_bit_nat_eq_self)
  have "unat (ucast (?W + ?M + 4) + of_nat (buffer_slots c) :: 64 word) = unat ?W + unat ?M + 4 + buffer_slots c"
    using lt u s by (subst unat_plus_small) simp_all
  then show ?thesis using u by (simp add: request_cnt_def warmup_share_def)
qed

lemma held_length: "length (held p th) \<le> 1"
  by (simp add: held_def split: option.splits)

lemma q_idx_less:
  assumes cfg: "run_cfg_ok c" and inv: "thr_inv c s"
  shows "q_idx (ts_th s) < queries_len (ts_th s)"
proof -
  note k = thr_invD [OF inv]
  have "q_idx (ts_th s) = length (ts_done s) + length (ts_dropped s) + length (waiting (abort_buffer (ts_th s))) + length (held (ts_phase s) (ts_th s))"
    using arg_cong [OF k(5), of size] by simp
  moreover have "length (waiting (abort_buffer (ts_th s))) \<le> (if buffer_on (ts_th s) then buffer_slots c else 0)"
    using empties_waiting [of "abort_buffer (ts_th s)"] k(2,6) by auto
  moreover have "buffer_on (ts_th s) \<longrightarrow> buffer_compiled c" using cfg k(3) by (simp add: run_cfg_ok_def)
  moreover have "0 < max_txn_per_part c \<Longrightarrow> 0 < unat (max_txn_per_part c)" by (simp add: unat_gt_0)
  ultimately show ?thesis
    using k(7-9) request_cnt_nat [OF cfg] k(4) held_length [of "ts_phase s" "ts_th s"]
    by (auto simp: txn_quota_def split: if_splits)
qed

lemma loop_exit_ok:
  assumes cfg: "run_cfg_ok c" and q: "unat (txn_cnt th) \<le> txn_quota c warm"
  shows "\<exists>ret sim'. loop_exit c warm sim th = Inr (ret, sim', th) \<and> (\<not> ret \<longrightarrow> unat (txn_cnt th) < txn_quota c warm)"
proof -
  have u: "unat (ucast x :: 64 word) = unat x" for x :: "32 word"
    using unsigned_less [of x, where ?'a = nat] by (simp add: unsigned_ucast_eq take_bit_nat_eq_self)
  show ?thesis
    using cfg q by (auto simp: loop_exit_def run_cfg_ok_def txn_quota_def warmup_share_def word_le_nat_alt u word_unat_eq_iff split: if_splits)
qed

lemma mset_exchange:
  fixes H :: "'a multiset"
  assumes "H + W + N' = add_mset q (W' + N)" "D + P + W + H = N"
  shows "D + P + W' + {#q#} = N'"
proof -
  have "(H + W) + N' = (H + W) + (D + P + W' + {#q#})" using assms by (simp add: ac_simps)
  then show ?thesis by (simp only: add_left_cancel)
qed

lemma begin_inv:
  assumes cfg: "run_cfg_ok c" and inv: "thr_inv c s" and p: "ts_phase s = At_top" "ts_counter (ts_mgr s) < UINT64_MAX"
  shows "case begin_round c nows clock (ts_th s) (ts_mgr s) of Inl e \<Rightarrow> e = Spinning \<and> take_query c nows clock (ts_th s) (ts_mgr s) = Inl e
    | Inr (th, m) \<Rightarrow> thr_inv c (s\<lparr>ts_th := th, ts_mgr := m, ts_phase := Running\<rparr>) \<and> began c (ts_th s) th"
proof -
  note k = thr_invD [OF inv]
  have r: "(\<exists>th m. begin_round c nows clock (ts_th s) (ts_mgr s) = Inr (th, m) \<and> began c (ts_th s) th \<and> mgr_ok (unat (th_id (ts_th s))) m) \<or>
    begin_round c nows clock (ts_th s) (ts_mgr s) = Inl Spinning \<and> take_query c nows clock (ts_th s) (ts_mgr s) = Inl Spinning"
    by (rule begin_round_ok [OF cfg p(2) k(1) q_idx_less [OF cfg inv] k(12,13)]) simp_all
  have "thr_inv c (s\<lparr>ts_th := th, ts_mgr := m, ts_phase := Running\<rparr>)"
    if b: "began c (ts_th s) th" and m: "mgr_ok (unat (th_id (ts_th s))) m" for th m
  proof -
    obtain q where q: "m_query th = Some q" "mset (held At_top (ts_th s)) + mset (waiting (abort_buffer (ts_th s))) + mset [0..<q_idx th] =
        add_mset q (mset (waiting (abort_buffer th)) + mset [0..<q_idx (ts_th s)])"
      using b unfolding began_def took_def by blast
    have "mset (held Running th) = {#q#}" using q(1) by (simp add: held_def)
    with mset_exchange [OF q(2) k(5) [unfolded p(1)]]
    have e: "mset (ts_done s) + mset (ts_dropped s) + mset (waiting (abort_buffer th)) + mset (held Running th) = mset [0..<q_idx th]" by simp
    show ?thesis using k(2-4,6-10) b m e q(1) p(1) unfolding thr_inv_def began_def took_def by (auto split: if_splits)
  qed
  with r show ?thesis by (auto split: sum.splits)
qed

text \<open>The thread after a transaction that committed or aborted, before the tests that end the loop.\<close>

definition accounted :: "run_config \<Rightarrow> thr_sys \<Rightarrow> RC \<Rightarrow> thread_t \<Rightarrow> bool" where
  "accounted c s rc th \<longleftrightarrow> thr_inv c (s\<lparr>ts_th := th, ts_phase := Returned, ts_done := ts_done s @ (if rc = RCOK then [the (m_query (ts_th s))] else [])\<rparr>)"

lemma end_commit:
  assumes cfg: "run_cfg_ok c" and inv: "thr_inv c s" and p: "ts_phase s = Running"
  shows "accounted c s RCOK ((ts_th s)\<lparr>th_rc := RCOK, txn_cnt := txn_cnt (ts_th s) + 1\<rparr>)"
proof -
  note k = thr_invD [OF inv]
  obtain q where q: "m_query (ts_th s) = Some q" using k(11) [OF p] by auto
  have lt: "unat (txn_cnt (ts_th s)) < txn_quota c (ts_warm s)" using k(10) p by simp
  moreover have "txn_quota c (ts_warm s) < 2 ^ 32" using cfg by (auto simp: txn_quota_def run_cfg_ok_def)
  ultimately have u: "unat (txn_cnt (ts_th s) + 1) = Suc (unat (txn_cnt (ts_th s)))" by (subst unat_plus_small) simp_all
  have h: "mset (held Running (ts_th s)) = {#q#}" "held Returned ((ts_th s)\<lparr>th_rc := RCOK, txn_cnt := n\<rparr>) = []" for n
    using q by (simp_all add: held_def)
  show ?thesis using k(1-4) k(5) [unfolded p h(1)] k(6-9,11-13) lt u q h(2)
    unfolding accounted_def thr_inv_def by (auto simp: buf_ok_def ac_simps)
qed

lemma end_abort:
  assumes inv: "thr_inv c s" and p: "ts_phase s = Running"
  shows "\<exists>th. buffer_query c now penalty ((ts_th s)\<lparr>th_rc := Abort\<rparr>) = Inr th \<and> accounted c s Abort (th\<lparr>txn_aborts := n\<rparr>)"
proof -
  note k = thr_invD [OF inv]
  obtain q where q: "m_query (ts_th s) = Some q" using k(11) [OF p] by auto
  have h: "mset (held Running (ts_th s)) = {#q#}" using q by (simp add: held_def)
  let ?th = "(ts_th s)\<lparr>th_rc := Abort\<rparr>"
  show ?thesis
  proof (cases "buffer_on (ts_th s)")
    case True
    have e: "0 < empty_slots (ts_th s)" "empties (abort_buffer (ts_th s)) \<noteq> 0" using k(11) [OF p] k(1) True by (auto simp: buf_ok_def)
    let ?t = "now + (if abort_penalty c \<noteq> 0 then penalty else 0)"
    obtain es where es: "put_first_empty ?t (Some q) (abort_buffer (ts_th s)) = Some es" using e(2) put_first_empty_None by fastforce
    note pe = put_first_empty_Some [OF es]
    have "buffer_query c now penalty ?th = Inr (?th\<lparr>abort_buffer := es, empty_slots := empty_slots (ts_th s) - 1\<rparr>)"
      using True e es q by (simp add: buffer_query_def Let_def)
    moreover have "accounted c s Abort (?th\<lparr>abort_buffer := es, empty_slots := empty_slots (ts_th s) - 1, txn_aborts := n\<rparr>)"
      using k(1-4) k(5) [unfolded p h(1)] k(6-9,11-13) True pe
      unfolding accounted_def thr_inv_def by (auto simp: buf_ok_def held_def ac_simps split: if_splits)
    ultimately show ?thesis by auto
  next
    case False
    then have "buffer_query c now penalty ?th = Inr ?th" by (simp add: buffer_query_def)
    moreover have "accounted c s Abort (?th\<lparr>txn_aborts := n\<rparr>)"
      using k(1-4) k(5) [unfolded p h(1)] k(6-9,11-13) False q
      unfolding accounted_def thr_inv_def by (auto simp: buf_ok_def held_def ac_simps split: if_splits)
    ultimately show ?thesis by auto
  qed
qed

lemma end_inv:
  assumes cfg: "run_cfg_ok c" and inv: "thr_inv c s" and p: "ts_phase s = Running" and rc: "rc \<in> {RCOK, Abort}"
  shows "\<exists>ret sim th. end_round c (ts_warm s) rc now penalty (ts_sim s) (ts_th s) = Inr (ret, sim, th) \<and>
    thr_inv c (s\<lparr>ts_th := th, ts_sim := sim, ts_phase := (if ret then Returned else At_top),
       ts_done := ts_done s @ (if rc = RCOK then [the (m_query (ts_th s))] else [])\<rparr>)"
proof -
  obtain th where th: "accounted c s rc th"
    "end_round c (ts_warm s) rc now penalty (ts_sim s) (ts_th s) = loop_exit c (ts_warm s) (ts_sim s) th"
  proof (cases "rc = RCOK")
    case True
    then show thesis using that end_commit [OF cfg inv p] by (simp add: end_round_def)
  next
    case False
    then have r: "rc = Abort" using rc by simp
    obtain th where th: "buffer_query c now penalty ((ts_th s)\<lparr>th_rc := Abort\<rparr>) = Inr th" using end_abort [OF inv p] by blast
    with end_abort [OF inv p, of now penalty "txn_aborts th + 1"] have "accounted c s Abort (th\<lparr>txn_aborts := txn_aborts th + 1\<rparr>)" by auto
    then show thesis using that th r by (simp add: end_round_def)
  qed
  have "unat (txn_cnt th) \<le> txn_quota c (ts_warm s)" using thr_invD(9) [OF th(1) [unfolded accounted_def]] by simp
  then obtain ret sim where l: "loop_exit c (ts_warm s) (ts_sim s) th = Inr (ret, sim, th)" "\<not> ret \<longrightarrow> unat (txn_cnt th) < txn_quota c (ts_warm s)"
    using loop_exit_ok [OF cfg] by blast
  have "held At_top th = held Returned th" by (simp add: held_def)
  then show ?thesis using th l unfolding accounted_def thr_inv_def by (auto split: if_splits)
qed

lemma thr_step_inv:
  assumes cfg: "run_cfg_ok c" and "thr_step c s s'" and inv: "thr_inv c s"
  shows "thr_inv c s'"
  using assms(2)
proof cases
  case (thr_begin nows clock th m)
  then show ?thesis using begin_inv [OF cfg inv thr_begin(2,3), of nows clock] by simp
next
  case (thr_end rc now penalty ret sim th)
  then show ?thesis using end_inv [OF cfg inv thr_end(2,3), of now penalty] by auto
next
  case (thr_again txn)
  have w: "\<not> ts_warm s" by (rule thr_again(3))
  then have d: "ts_dropped s = []" using thr_invD(7) [OF inv] by simp
  have M: "0 < txn_quota c True" using cfg by (auto simp: txn_quota_def run_cfg_ok_def unat_gt_0)
  show ?thesis unfolding thr_again(1) run_start_def thr_inv_def
    using thr_invD [OF inv] w d M thr_again(2) held_length [of Returned "ts_th s"] by (auto simp: buf_ok_def held_def)
next
  case (thr_others m b)
  have "held (ts_phase s) (ts_th s) = held (ts_phase s) (ts_th s)" ..
  then show ?thesis using thr_invD [OF inv] thr_others unfolding thr_inv_def by (auto simp: mgr_ok_def others_run_def split: if_splits)
qed

lemma thr_start_inv:
  assumes "run_cfg_ok c" "mgr_ok (unat tid) m"
  shows "thr_inv c (thr_start c warm tid old_time old_ts txn m)"
proof -
  have w: "waiting (replicate n \<lparr>ready_time = x, abe_query = None\<rparr>) = []" for n x by (induction n) simp_all
  have e: "empties (replicate n \<lparr>ready_time = x, abe_query = None\<rparr>) = n" for n x by (induction n) simp_all
  have "0 < txn_quota c warm" using assms(1) by (auto simp: txn_quota_def run_cfg_ok_def unat_gt_0)
  then show ?thesis using assms w e by (simp add: thr_inv_def thr_start_def thread_init_def buf_ok_def run_cfg_ok_def held_def)
qed

lemma thr_reached:
  assumes "run_cfg_ok c" "mgr_ok (unat tid) m" "(thr_step c)\<^sup>*\<^sup>* (thr_start c warm tid old_time old_ts txn m) s"
  shows "thr_inv c s"
  using assms(3) by (induction rule: rtranclp_induct) (auto intro: thr_start_inv [OF assms(1,2)] thr_step_inv [OF assms(1)])

subsection \<open>Transaction ids\<close>

definition numbered :: "run_config \<Rightarrow> 64 word \<Rightarrow> thr_sys \<Rightarrow> bool" where
  "numbered c tid s \<longleftrightarrow> th_id (ts_th s) = tid \<and>
     (ts_phase s = Running \<longrightarrow> txn_id (m_txn (ts_th s)) = tid + (thd_txn_id (ts_th s) - 1) * ucast (thread_cnt c))"

lemma end_round_id: "end_round c w rc now p b th = Inr (ret, sim, th') \<Longrightarrow> th_id th' = th_id th"
  by (auto simp: end_round_def buffer_query_def loop_exit_def Let_def bindE_eq_Inr split: if_splits option.splits)

lemma thr_step_numbered:
  assumes cfg: "run_cfg_ok c" and "thr_step c s s'" and inv: "thr_inv c s" "numbered c tid s"
  shows "numbered c tid s'"
  using assms(2)
proof cases
  case (thr_begin nows clock th m)
  then have "began c (ts_th s) th" using begin_inv [OF cfg inv(1) thr_begin(2,3), of nows clock] by simp
  then show ?thesis using thr_begin(1) inv(2) by (simp add: numbered_def began_def took_def)
next
  case (thr_end rc now penalty ret sim th)
  then show ?thesis using inv(2) end_round_id by (auto simp: numbered_def)
next
  case (thr_again txn)
  then show ?thesis using inv(2) by (simp add: numbered_def run_start_def)
next
  case (thr_others m b)
  then show ?thesis using inv(2) by (simp add: numbered_def)
qed

lemma thr_reached_numbered:
  assumes "run_cfg_ok c" "mgr_ok (unat tid) m" "(thr_step c)\<^sup>*\<^sup>* (thr_start c warm tid old_time old_ts txn m) s"
  shows "numbered c tid s"
  using assms(3)
proof (induction rule: rtranclp_induct)
  case base
  show ?case by (simp add: numbered_def thr_start_def thread_init_def)
next
  case (step y z)
  show ?case by (rule thr_step_numbered [OF assms(1) step(2) thr_reached [OF assms(1,2) step(1)] step(3)])
qed

text \<open>The id of round \<open>k\<close> without wrap-around.\<close>

lemma txn_id_nat:
  fixes k tid :: "64 word" and n :: "32 word"
  assumes "unat tid < unat n" "k \<noteq> 0" "unat k * unat n \<le> 2 ^ 64"
  shows "unat (tid + (k - 1) * ucast n) = unat tid + (unat k - 1) * unat n"
proof -
  have k: "unat (k - 1) = unat k - 1" "0 < unat k" using assms(2) by (simp_all add: unat_minus_one unat_gt_0)
  have n: "unat (ucast n :: 64 word) = unat n"
    using unsigned_less [of n, where ?'a = nat] by (simp add: unsigned_ucast_eq take_bit_nat_eq_self)
  have e: "unat k * unat n = unat n + (unat k - 1) * unat n" using k(2) by (cases "unat k") simp_all
  then have lt: "unat tid + (unat k - 1) * unat n < 2 ^ 64" using assms(1,3) by linarith
  then have m: "unat ((k - 1) * ucast n) = (unat k - 1) * unat n" using unat_mult_lem [of "k - 1" "ucast n"] k n by simp
  then show ?thesis using lt by (subst unat_plus_small) simp_all
qed

subsection \<open>Waiting ends\<close>

lemma wait_query_returns:
  assumes cfg: "run_cfg_ok c" "ts_counter m < UINT64_MAX" and buf: "buf_ok th" "buffer_on th" and q: "q_idx th < queries_len th"
    and ready: "\<exists>now\<in>set nows. empty_slots th = 0 \<longrightarrow> (\<exists>e\<in>set (abort_buffer th). now > ready_time e)"
  shows "\<exists>r. wait_query c nows clock th m = Inr r"
  using ready
proof (induction nows)
  case (Cons now nows)
  obtain r mn th1 where t: "try_buffer now th = (r, mn, th1)" by (cases "try_buffer now th") auto
  show ?case
  proof (cases r)
    case None
    then have n: "th1 = th" "empty_slots th = 0 \<longrightarrow> now \<le> mn \<and> (\<forall>e\<in>set (abort_buffer th). now \<le> ready_time e)"
      using try_buffer_None [OF buf(1), of now mn th1] t by auto
    show ?thesis
    proof (cases "empty_slots th = 0")
      case True
      then have "\<exists>now\<in>set nows. empty_slots th = 0 \<longrightarrow> (\<exists>e\<in>set (abort_buffer th). now > ready_time e)" using Cons.prems n by (auto simp: not_le [symmetric])
      from Cons.IH [OF this] show ?thesis using True t n None by (auto simp: Let_def)
    next
      case False
      have h: "held At_top th = []" using buf(2) by (simp add: held_def)
      have "0 \<le> empty_slots th" using buf(1) by (simp add: buf_ok_def)
      then show ?thesis using False fetch_query_ok [OF cfg buf(1) h q, of clock] t n None by (auto simp: Let_def)
    qed
  qed (use t in \<open>auto simp: Let_def\<close>)
qed simp

subsection \<open>Runs\<close>

datatype thr_act = Do_begin "ts_t list" "64 word" | Do_end RC ts_t "64 word" | Do_again

fun thr_exec :: "run_config \<Rightarrow> thr_act list \<Rightarrow> thr_sys \<Rightarrow> thr_sys option" where
  "thr_exec c [] s = Some s"
| "thr_exec c (Do_begin nows clock # as) s =
     (if ts_phase s = At_top \<and> ts_counter (ts_mgr s) < UINT64_MAX then
        case begin_round c nows clock (ts_th s) (ts_mgr s) of Inl e \<Rightarrow> None
        | Inr (th, m) \<Rightarrow> thr_exec c as (s\<lparr>ts_th := th, ts_mgr := m, ts_phase := Running\<rparr>)
      else None)"
| "thr_exec c (Do_end rc now penalty # as) s =
     (if ts_phase s = Running \<and> (rc = RCOK \<or> rc = Abort) then
        case end_round c (ts_warm s) rc now penalty (ts_sim s) (ts_th s) of Inl e \<Rightarrow> None
        | Inr (ret, sim, th) \<Rightarrow> thr_exec c as (s\<lparr>ts_th := th, ts_sim := sim, ts_phase := (if ret then Returned else At_top),
            ts_done := ts_done s @ (if rc = RCOK then [the (m_query (ts_th s))] else [])\<rparr>)
      else None)"
| "thr_exec c (Do_again # as) s =
     (if ts_phase s = Returned \<and> \<not> ts_warm s then
        thr_exec c as (s\<lparr>ts_th := run_start (m_txn (ts_th s)) (ts_th s), ts_phase := At_top, ts_warm := True, ts_dropped := held Returned (ts_th s)\<rparr>)
      else None)"

lemma thr_exec_steps: "thr_exec c as s = Some s' \<Longrightarrow> (thr_step c)\<^sup>*\<^sup>* s s'"
proof (induction as arbitrary: s)
  case (Cons a as)
  have "\<exists>s1. thr_step c s s1 \<and> thr_exec c as s1 = Some s'"
  proof (cases a)
    case (Do_begin nows clock)
    then obtain th m where b: "ts_phase s = At_top" "ts_counter (ts_mgr s) < UINT64_MAX" "begin_round c nows clock (ts_th s) (ts_mgr s) = Inr (th, m)"
      "thr_exec c as (s\<lparr>ts_th := th, ts_mgr := m, ts_phase := Running\<rparr>) = Some s'"
      using Cons.prems by (auto split: if_splits sum.splits)
    from thr_begin [OF b(1-3)] b(4) show ?thesis by blast
  next
    case (Do_end rc now penalty)
    then obtain ret sim th where b: "ts_phase s = Running" "rc \<in> {RCOK, Abort}"
      "end_round c (ts_warm s) rc now penalty (ts_sim s) (ts_th s) = Inr (ret, sim, th)"
      "thr_exec c as (s\<lparr>ts_th := th, ts_sim := sim, ts_phase := (if ret then Returned else At_top),
            ts_done := ts_done s @ (if rc = RCOK then [the (m_query (ts_th s))] else [])\<rparr>) = Some s'"
      using Cons.prems by (simp split: if_split_asm sum.split_asm prod.split_asm)
    from thr_end [OF b(1-3)] b(4) show ?thesis by blast
  next
    case Do_again
    then have b: "ts_phase s = Returned" "\<not> ts_warm s"
      "thr_exec c as (s\<lparr>ts_th := run_start (m_txn (ts_th s)) (ts_th s), ts_phase := At_top, ts_warm := True, ts_dropped := held Returned (ts_th s)\<rparr>) = Some s'"
      using Cons.prems by (simp_all split: if_split_asm)
    from thr_again [OF b(1,2)] b(3) show ?thesis by blast
  qed
  then show ?case using Cons.IH by (blast intro: converse_rtranclp_into_rtranclp)
qed simp

text \<open>A thread of the build of \<^verbatim>\<open>config.h\<close> with WAIT\_DIE, a buffer of one slot and few transactions.\<close>

definition demo_run :: "cc_alg \<Rightarrow> run_config" where
  "demo_run alg = \<lparr>rc_alg = alg, rc_ts = act_config, hstore_local_ts = False, workload_test = False, warmup_txns = 4,
     max_txn_per_part = 3, abort_penalty = 100000, buffer_slots = 1, buffer_compiled = True, buffer_enabled = True\<rparr>"

definition demo_txn :: txn_man where
  "demo_txn = \<lparr>thd_id = 1, txn_id = 0, timestamp = 0, cur_row = 0, lock_ready = False, lock_abort = False, ts_ready = False, ready_part = 0,
     start_ts = 0, end_ts = 0, vll_txn_type = VLL_Free\<rparr>"

definition demo_start :: "cc_alg \<Rightarrow> thr_sys" where
  "demo_start alg = thr_start (demo_run alg) True 1 0 0 demo_txn (Manager_init 4)"

definition demo_after :: "cc_alg \<Rightarrow> thr_act list \<Rightarrow> thr_sys" where
  "demo_after alg as = the (thr_exec (demo_run alg) as (demo_start alg))"

lemma demo_cfg: "run_cfg_ok (demo_run alg)"
  by (simp add: run_cfg_ok_def demo_run_def thread_cnt_def act_config_def warmup_share_def)

lemma demo_mgr: "mgr_ok (unat (1 :: 64 word)) (Manager_init 4)"
  by (simp add: mgr_ok_def Manager_init_def)

lemma demo_reached:
  "thr_exec (demo_run alg) as (demo_start alg) \<noteq> None \<Longrightarrow>
     (thr_step (demo_run alg))\<^sup>*\<^sup>* (thr_start (demo_run alg) True 1 0 0 demo_txn (Manager_init 4)) (demo_after alg as)"
  by (auto simp: demo_after_def demo_start_def intro: thr_exec_steps)

text \<open>Two slots: query 0 runs with timestamp 1 and aborts, query 1 runs with timestamp 2 and commits.\<close>

definition retry_run :: run_config where
  "retry_run = (demo_run WAIT_DIE)\<lparr>buffer_slots := 2\<rparr>"

definition retry_start :: thr_sys where
  "retry_start = thr_start retry_run True 1 0 0 demo_txn (Manager_init 4)"

definition retry_acts :: "thr_act list" where
  "retry_acts = [Do_begin [3] 0, Do_end Abort 10 15, Do_begin [12] 0, Do_end RCOK 20 0]"

subsection \<open>Properties\<close>

text \<open>C15: Whatever the transactions return, the loop fails none of its assertions and never reads a query past the end of its list; before a
  transaction it can only be waiting.\<close>

theorem thread_loop_safe:
  assumes "run_cfg_ok c" "mgr_ok (unat tid) m" "(thr_step c)\<^sup>*\<^sup>* (thr_start c warm tid old_time old_ts txn m) s"
  shows "(ts_phase s = At_top \<and> ts_counter (ts_mgr s) < UINT64_MAX \<longrightarrow>
      (\<forall>nows clock e. begin_round c nows clock (ts_th s) (ts_mgr s) = Inl e \<longrightarrow> e = Spinning)) \<and>
    (ts_phase s = Running \<longrightarrow> (\<forall>rc\<in>{RCOK, Abort}. \<forall>now penalty. \<exists>r. end_round c (ts_warm s) rc now penalty (ts_sim s) (ts_th s) = Inr r))"
proof -
  note inv = thr_reached [OF assms]
  have "e = Spinning" if "ts_phase s = At_top" "ts_counter (ts_mgr s) < UINT64_MAX" "begin_round c nows clock (ts_th s) (ts_mgr s) = Inl e" for nows clock e
    using begin_inv [OF assms(1) inv that(1,2), of nows clock] that(3) by simp
  moreover have "\<exists>r. end_round c (ts_warm s) rc now penalty (ts_sim s) (ts_th s) = Inr r" if "ts_phase s = Running" "rc \<in> {RCOK, Abort}" for rc now penalty
    using end_inv [OF assms(1) inv that, of now penalty] by blast
  ultimately show ?thesis by blast
qed

theorem thread_loop_safe_witness:
  "\<exists>r. end_round (demo_run MVCC) True Abort 7 5 False (ts_th (demo_after MVCC [Do_begin [3] 0])) = Inr r"
proof -
  let ?s = "demo_after MVCC [Do_begin [3] 0]"
  have "thr_exec (demo_run MVCC) [Do_begin [3] 0] (demo_start MVCC) \<noteq> None" by code_simp
  note r = demo_reached [OF this]
  have "ts_phase ?s = Running \<and> ts_warm ?s \<and> \<not> ts_sim ?s" by code_simp
  then show ?thesis using thread_loop_safe [OF demo_cfg demo_mgr r] by fastforce
qed

text \<open>C16: No query is lost, run twice at a time or committed twice: each one the thread has fetched has committed, waits in the buffer or is the one in
  its hands (without a buffer, one may be given up between the warm-up and the measured run), and the list of queries is long enough.\<close>

theorem thread_queries_conserved:
  assumes "run_cfg_ok c" "mgr_ok (unat tid) m" "(thr_step c)\<^sup>*\<^sup>* (thr_start c warm tid old_time old_ts txn m) s"
  shows "mset (ts_done s) + mset (ts_dropped s) + mset (waiting (abort_buffer (ts_th s))) + mset (held (ts_phase s) (ts_th s)) = mset [0..<q_idx (ts_th s)] \<and>
    length (ts_dropped s) \<le> (if buffer_enabled c then 0 else 1) \<and> q_idx (ts_th s) < unat (request_cnt c)"
proof -
  note inv = thr_reached [OF assms]
  show ?thesis using thr_invD(3,4,5,7) [OF inv] q_idx_less [OF assms(1) inv] by (auto split: if_splits)
qed

theorem thread_queries_conserved_witness:
  "let s = demo_after WAIT_DIE [Do_begin [3] 0, Do_end Abort 10 5, Do_begin [12, 16] 0] in
     mset (ts_done s) + mset (waiting (abort_buffer (ts_th s))) + mset (held Running (ts_th s)) = {#0#}"
proof -
  let ?as = "[Do_begin [3] 0, Do_end Abort 10 5, Do_begin [12, 16] 0]"
  have "thr_exec (demo_run WAIT_DIE) ?as (demo_start WAIT_DIE) \<noteq> None" by code_simp
  note r = demo_reached [OF this]
  have "ts_phase (demo_after WAIT_DIE ?as) = Running \<and> q_idx (ts_th (demo_after WAIT_DIE ?as)) = 1 \<and> ts_dropped (demo_after WAIT_DIE ?as) = []" by code_simp
  then show ?thesis using thread_queries_conserved [OF demo_cfg demo_mgr r] by (simp add: Let_def)
qed

text \<open>The transaction id of a round tells the thread and the round: no two transactions that run have the same, and
  \<^verbatim>\<open>get_thdid_from_txnid\<close> gives the thread back.\<close>

theorem thread_txn_ids:
  assumes "run_cfg_ok c" "mgr_ok (unat tid) m" "(thr_step c)\<^sup>*\<^sup>* (thr_start c warm tid old_time old_ts txn m) s"
    "mgr_ok (unat tid') m'" "(thr_step c)\<^sup>*\<^sup>* (thr_start c warm' tid' old_time' old_ts' txn' m') s'"
    "ts_phase s = Running" "ts_phase s' = Running" "unat tid < unat (thread_cnt c)" "unat tid' < unat (thread_cnt c)"
    "thd_txn_id (ts_th s) \<noteq> 0" "unat (thd_txn_id (ts_th s)) * unat (thread_cnt c) \<le> 2 ^ 64"
    "thd_txn_id (ts_th s') \<noteq> 0" "unat (thd_txn_id (ts_th s')) * unat (thread_cnt c) \<le> 2 ^ 64"
  shows "get_thdid_from_txnid (unat (thread_cnt c)) (txn_id (m_txn (ts_th s))) = unat tid \<and>
    (txn_id (m_txn (ts_th s)) = txn_id (m_txn (ts_th s')) \<longrightarrow> tid = tid' \<and> thd_txn_id (ts_th s) = thd_txn_id (ts_th s'))"
proof -
  define n where "n = unat (thread_cnt c)"
  define k where "k = unat (thd_txn_id (ts_th s)) - 1"
  define k' where "k' = unat (thd_txn_id (ts_th s')) - 1"
  have i: "unat (txn_id (m_txn (ts_th s))) = unat tid + k * n" "unat (txn_id (m_txn (ts_th s'))) = unat tid' + k' * n"
    using thr_reached_numbered [OF assms(1,2,3)] thr_reached_numbered [OF assms(1,4,5)] assms(6,7)
      txn_id_nat [OF assms(8,10,11)] txn_id_nat [OF assms(9,12,13)] by (simp_all add: numbered_def k_def k'_def n_def)
  have lt: "unat tid < n" "unat tid' < n" using assms(8,9) by (simp_all add: n_def)
  have "tid = tid' \<and> thd_txn_id (ts_th s) = thd_txn_id (ts_th s')" if "txn_id (m_txn (ts_th s)) = txn_id (m_txn (ts_th s'))"
  proof -
    have e: "unat tid + k * n = unat tid' + k' * n" using i that by simp
    have "unat tid = (unat tid + k * n) mod n" "unat tid' = (unat tid' + k' * n) mod n" using lt by simp_all
    then have t: "unat tid = unat tid'" using e by simp
    then have "k = k'" using e lt by simp
    then have "unat (thd_txn_id (ts_th s)) = unat (thd_txn_id (ts_th s'))"
      using assms(10,12) unat_gt_0 [of "thd_txn_id (ts_th s)"] unat_gt_0 [of "thd_txn_id (ts_th s')"] by (simp add: k_def k'_def)
    then show ?thesis using t by (simp add: word_unat_eq_iff)
  qed
  then show ?thesis using i(1) lt(1) by (simp add: get_thdid_from_txnid_def n_def [symmetric])
qed

theorem thread_txn_ids_witness:
  "get_thdid_from_txnid 4 (txn_id (m_txn (ts_th (demo_after NO_WAIT [Do_begin [3] 0])))) = 1"
proof -
  let ?s = "demo_after NO_WAIT [Do_begin [3] 0]"
  have "thr_exec (demo_run NO_WAIT) [Do_begin [3] 0] (demo_start NO_WAIT) \<noteq> None" by code_simp
  note r = demo_reached [OF this]
  have p: "ts_phase ?s = Running" "thd_txn_id (ts_th ?s) = 1" by code_simp+
  have n: "unat (thread_cnt (demo_run NO_WAIT)) = 4" by (simp add: thread_cnt_def demo_run_def act_config_def)
  show ?thesis using thread_txn_ids [OF demo_cfg demo_mgr r demo_mgr r p(1) p(1)] p(2) n by simp
qed

text \<open>The inner loop ends: when the buffer is full, it is left at the first trial whose time is past the ready time of one of the
  waiting queries, and with a free slot at its first trial.\<close>

theorem thread_wait_ends:
  assumes "run_cfg_ok c" "mgr_ok (unat tid) m" "(thr_step c)\<^sup>*\<^sup>* (thr_start c warm tid old_time old_ts txn m) s"
    "ts_phase s = At_top" "ts_counter (ts_mgr s) < UINT64_MAX" "buffer_enabled c"
    "\<exists>now\<in>set nows. empty_slots (ts_th s) = 0 \<longrightarrow> (\<exists>e\<in>set (abort_buffer (ts_th s)). now > ready_time e)"
  shows "\<exists>th m'. begin_round c nows clock (ts_th s) (ts_mgr s) = Inr (th, m')"
proof -
  note inv = thr_reached [OF assms(1-3)] and k = thr_invD [OF thr_reached [OF assms(1-3)]]
  let ?th = "(ts_th s)\<lparr>m_query := None\<rparr>"
  have "\<exists>r. wait_query c nows clock ?th (ts_mgr s) = Inr r"
    by (rule wait_query_returns [OF assms(1,5)]) (use k(1,3) assms(6,7) q_idx_less [OF assms(1) inv] in \<open>simp_all add: buf_ok_def\<close>)
  then have "\<exists>r. take_query c nows clock (ts_th s) (ts_mgr s) = Inr r"
    using k(3) assms(1,6) by (simp add: take_query_def run_cfg_ok_def)
  then show ?thesis using begin_inv [OF assms(1) inv assms(4,5), of nows clock] by (auto split: sum.splits)
qed

theorem thread_wait_ends_witness:
  "\<exists>th m'. begin_round (demo_run MVCC) [12, 16] 0 (ts_th (demo_after MVCC [Do_begin [3] 0, Do_end Abort 10 5])) (ts_mgr (demo_after MVCC [Do_begin [3] 0, Do_end Abort 10 5])) = Inr (th, m')"
proof -
  let ?s = "demo_after MVCC [Do_begin [3] 0, Do_end Abort 10 5]"
  have "thr_exec (demo_run MVCC) [Do_begin [3] 0, Do_end Abort 10 5] (demo_start MVCC) \<noteq> None" by code_simp
  note r = demo_reached [OF this]
  have p: "ts_phase ?s = At_top" "ts_counter (ts_mgr ?s) < UINT64_MAX" "buffer_enabled (demo_run MVCC)"
    "\<exists>now\<in>set [12, 16]. empty_slots (ts_th ?s) = 0 \<longrightarrow> (\<exists>e\<in>set (abort_buffer (ts_th ?s)). now > ready_time e)" by code_simp+
  show ?thesis by (rule thread_wait_ends [OF demo_cfg demo_mgr r p])
qed

text \<open>Under WAIT\_DIE a query that is run again runs with the timestamp the thread took last, that of a younger query, and not with
  its own, so that it does not grow older than the queries it lost against; and with the buffer switched off no timestamp is taken at all.\<close>

theorem wait_die_retry_timestamp:
  assumes "rc_alg c = WAIT_DIE" "begin_round c nows clock th m = Inr (th', m')"
  shows "q_idx th' = q_idx th \<or> \<not> buffer_on th \<longrightarrow> timestamp (m_txn th') = timestamp (m_txn th)"
proof -
  have t: "timestamp (m_txn (snd (snd (try_buffer now th)))) = timestamp (m_txn th) \<and> q_idx (snd (snd (try_buffer now th))) = q_idx th" for now th
    by (simp add: try_buffer_def split: prod.splits)
  have f: "q_idx th1 = Suc (q_idx th)" if "fetch_query c clock th m = Inr (th1, m1)" for th1 m1 th
    using that by (auto simp: fetch_query_def get_next_query_def next_ts_def Let_def set_ts_def bindE_eq_Inr split: if_splits)
  have w: "q_idx th1 = q_idx th \<longrightarrow> timestamp (m_txn th1) = timestamp (m_txn th)" if "wait_query c nows clock th m = Inr (th1, m1)" for th1 m1 th
    using that
  proof (induction nows arbitrary: th)
    case (Cons now nows)
    obtain r mn th2 where b: "try_buffer now th = (r, mn, th2)" by (cases "try_buffer now th") auto
    have s2: "timestamp (m_txn th2) = timestamp (m_txn th)" "q_idx th2 = q_idx th" using t [of now th] b by simp_all
    show ?case using Cons.IH [of th2] Cons.prems b s2 f [of th2 th1 m1] by (auto simp: Let_def split: if_splits)
  qed simp
  obtain th1 m1 where k: "take_query c nows clock th m = Inr (th1, m1)" "th' = number_txn c th1"
    using assms by (auto simp: begin_round_def Let_def needs_ts_def register_ts_def bindE_eq_Inr)
  have "q_idx th1 = q_idx th \<or> \<not> buffer_on th \<longrightarrow> timestamp (m_txn th1) = timestamp (m_txn th)"
    using k(1) w [of "th\<lparr>m_query := None\<rparr>" th1 m1] by (auto simp: take_query_def get_next_query_def split: if_splits)
  then show ?thesis using k(2) by (simp add: number_txn_def)
qed

text \<open>Query 0, which ran with timestamp 1, runs again with timestamp 2.\<close>

theorem wait_die_retry_timestamp_witness:
  "case thr_exec retry_run retry_acts retry_start of None \<Rightarrow> False
   | Some s \<Rightarrow> (\<exists>th m. begin_round retry_run [30] 0 (ts_th s) (ts_mgr s) = Inr (th, m) \<and> m_query th = Some 0 \<and> timestamp (m_txn th) = 2)"
proof -
  have "case thr_exec retry_run retry_acts retry_start of None \<Rightarrow> False
   | Some s \<Rightarrow> q_idx (ts_th s) = 2 \<and> timestamp (m_txn (ts_th s)) = 2 \<and>
       (case begin_round retry_run [30] 0 (ts_th s) (ts_mgr s) of Inl e \<Rightarrow> False | Inr (th, m) \<Rightarrow> m_query th = Some 0 \<and> q_idx th = 2)"
    by code_simp
  then obtain s th m where s: "thr_exec retry_run retry_acts retry_start = Some s" "q_idx (ts_th s) = 2" "timestamp (m_txn (ts_th s)) = 2"
      "begin_round retry_run [30] 0 (ts_th s) (ts_mgr s) = Inr (th, m)" "m_query th = Some 0" "q_idx th = 2"
    by (auto split: option.split_asm sum.split_asm)
  have "rc_alg retry_run = WAIT_DIE" by (simp add: retry_run_def demo_run_def)
  from wait_die_retry_timestamp [OF this s(4)] s show ?thesis by simp
qed

end
