(* ===== verification/Table_row.thy ===== *)
theory Table_row
  imports Base
begin

text \<open>
  Schemas, tables and the bytes of a row: \<^verbatim>\<open>storage/catalog.cpp\<close>, \<^verbatim>\<open>storage/table.cpp\<close> and the
  data part of \<^verbatim>\<open>storage/row.cpp\<close>. A column has a fixed size and sits at a fixed index of the tuple;
  a row is the block of bytes of its tuple. Reads and writes outside a block are \<open>Out_of_bounds\<close>, and
  sizes and indices keep the widths of the code (\<^verbatim>\<open>UInt32\<close> in the catalog, \<^verbatim>\<open>int\<close> in the row).
\<close>

subsection \<open>Catalog\<close>

text \<open>The columns that have been allocated but not added yet are \<open>None\<close>.\<close>

record Column =
  col_id :: "64 word"
  col_size :: "32 word"
  col_index :: "32 word"
  col_type :: string
  col_name :: string

record Catalog =
  field_cnt :: "32 word"
  table_name :: string
  columns :: "Column option list"
  tuple_size :: "32 word"

definition Catalog_init :: "string \<Rightarrow> nat \<Rightarrow> Catalog" where
  "Catalog_init name cnt = \<lparr>field_cnt = 0, table_name = name, columns = replicate cnt None, tuple_size = 0\<rparr>"

text \<open>\<^verbatim>\<open>Column\<close> allocates 80 characters for each of its two strings.\<close>

definition add_col :: "string \<Rightarrow> 64 word \<Rightarrow> string \<Rightarrow> Catalog \<Rightarrow> fault + Catalog" where
  "add_col name sz type c =
     bindE (guard Out_of_bounds (unat (field_cnt c) < length (columns c))) (\<lambda>_.
     bindE (guard Out_of_bounds (length type < 80 \<and> length name < 80)) (\<lambda>_.
     let col = \<lparr>col_id = ucast (field_cnt c), col_size = ucast sz, col_index = tuple_size c,
                col_type = type, col_name = name\<rparr> in
     Inr (c\<lparr>columns := (columns c)[unat (field_cnt c) := Some col],
            tuple_size := ucast (ucast (tuple_size c) + sz :: 64 word),
            field_cnt := field_cnt c + 1\<rparr>)))"

definition column_at :: "nat \<Rightarrow> Catalog \<Rightarrow> fault + Column" where
  "column_at i c =
     (if i < length (columns c) then case columns c ! i of None \<Rightarrow> Inl Undefined_behaviour | Some col \<Rightarrow> Inr col
      else Inl Out_of_bounds)"

text \<open>The search starts at field 0; \<open>get_field_id\<close> is the loop from there.\<close>

function field_id_from :: "nat \<Rightarrow> string \<Rightarrow> Catalog \<Rightarrow> fault + nat" where
  "field_id_from i name c =
     (if i < unat (field_cnt c) then
        bindE (column_at i c) (\<lambda>col. if col_name col = name then Inr i else field_id_from (Suc i) name c)
      else Inl Assert_failed)"
  by pat_completeness auto
termination by (relation "measure (\<lambda>(i, name, c). unat (field_cnt c) - i)") auto

declare field_id_from.simps [simp del]

definition get_field_id :: "string \<Rightarrow> Catalog \<Rightarrow> fault + nat" where
  "get_field_id name c = field_id_from 0 name c"

definition get_field_size :: "nat \<Rightarrow> Catalog \<Rightarrow> fault + 32 word" where
  "get_field_size fid c = bindE (column_at fid c) (\<lambda>col. Inr (col_size col))"

definition get_field_index :: "nat \<Rightarrow> Catalog \<Rightarrow> fault + 32 word" where
  "get_field_index fid c = bindE (column_at fid c) (\<lambda>col. Inr (col_index col))"

definition get_field_type :: "nat \<Rightarrow> Catalog \<Rightarrow> fault + string" where
  "get_field_type fid c = bindE (column_at fid c) (\<lambda>col. Inr (col_type col))"

definition get_field_name :: "nat \<Rightarrow> Catalog \<Rightarrow> fault + string" where
  "get_field_name fid c = bindE (column_at fid c) (\<lambda>col. Inr (col_name col))"

definition get_field_type_of :: "string \<Rightarrow> Catalog \<Rightarrow> fault + string" where
  "get_field_type_of name c = bindE (get_field_id name c) (\<lambda>fid. get_field_type fid c)"

definition get_field_index_of :: "string \<Rightarrow> Catalog \<Rightarrow> fault + 32 word" where
  "get_field_index_of name c = bindE (get_field_id name c) (\<lambda>fid. get_field_index fid c)"

subsection \<open>Tables and rows\<close>

record table_t =
  schema :: Catalog
  tab_name :: string
  cur_tab_size :: "64 word"

record row_t =
  row_id :: "64 word"
  row_part_id :: "64 word"
  row_data :: "8 word list"

definition table_init :: "Catalog \<Rightarrow> table_t" where
  "table_init c = \<lparr>schema = c, tab_name = table_name c, cur_tab_size = 0\<rparr>"

text \<open>The block that \<^verbatim>\<open>_mm_malloc\<close> returns has some contents \<open>fresh\<close>; \<^verbatim>\<open>tuple_size\<close> is read as an \<^verbatim>\<open>int\<close>.\<close>

definition row_init :: "(nat \<Rightarrow> 8 word) \<Rightarrow> table_t \<Rightarrow> 64 word \<Rightarrow> 64 word \<Rightarrow> row_t" where
  "row_init fresh t part_id rid = \<lparr>row_id = rid, row_part_id = part_id,
     row_data = map fresh [0..<nat (sint (tuple_size (schema t)))]\<rparr>"

definition get_new_row :: "(nat \<Rightarrow> 8 word) \<Rightarrow> 64 word \<Rightarrow> table_t \<Rightarrow> row_t \<times> table_t" where
  "get_new_row fresh part_id t =
     (let rid = cur_tab_size t; t' = t\<lparr>cur_tab_size := rid + 1\<rparr> in (row_init fresh t' part_id rid, t'))"

definition write_bytes :: "int \<Rightarrow> 8 word list \<Rightarrow> 8 word list \<Rightarrow> fault + 8 word list" where
  "write_bytes pos bs data =
     (if 0 \<le> pos \<and> nat pos + length bs \<le> length data
      then Inr (take (nat pos) data @ bs @ drop (nat pos + length bs) data) else Inl Out_of_bounds)"

definition read_bytes :: "int \<Rightarrow> nat \<Rightarrow> 8 word list \<Rightarrow> fault + 8 word list" where
  "read_bytes pos n data =
     (if 0 \<le> pos \<and> nat pos + n \<le> length data then Inr (take n (drop (nat pos) data)) else Inl Out_of_bounds)"

text \<open>\<open>set_value\<close> copies as many bytes as the field has, from a buffer \<open>ptr\<close>.\<close>

definition set_value :: "Catalog \<Rightarrow> nat \<Rightarrow> 8 word list \<Rightarrow> row_t \<Rightarrow> fault + row_t" where
  "set_value c fid ptr r =
     bindE (get_field_size fid c) (\<lambda>datasize.
     bindE (get_field_index fid c) (\<lambda>pos.
     bindE (guard Out_of_bounds (0 \<le> sint datasize)) (\<lambda>_.
     bindE (read_bytes 0 (nat (sint datasize)) ptr) (\<lambda>bs.
     bindE (write_bytes (sint pos) bs (row_data r)) (\<lambda>d. Inr (r\<lparr>row_data := d\<rparr>))))))"

definition set_value_sized :: "Catalog \<Rightarrow> nat \<Rightarrow> 8 word list \<Rightarrow> nat \<Rightarrow> row_t \<Rightarrow> fault + row_t" where
  "set_value_sized c fid ptr n r =
     bindE (get_field_index fid c) (\<lambda>pos.
     bindE (read_bytes 0 n ptr) (\<lambda>bs.
     bindE (write_bytes (sint pos) bs (row_data r)) (\<lambda>d. Inr (r\<lparr>row_data := d\<rparr>))))"

definition set_value_name :: "Catalog \<Rightarrow> string \<Rightarrow> 8 word list \<Rightarrow> row_t \<Rightarrow> fault + row_t" where
  "set_value_name c name ptr r = bindE (get_field_id name c) (\<lambda>fid. set_value c fid ptr r)"

text \<open>\<open>get_value\<close> returns a pointer into the tuple: here its offset.\<close>

definition get_value :: "Catalog \<Rightarrow> nat \<Rightarrow> fault + int" where
  "get_value c fid = bindE (get_field_index fid c) (\<lambda>pos. Inr (sint pos))"

definition get_value_name :: "Catalog \<Rightarrow> string \<Rightarrow> fault + int" where
  "get_value_name c name = bindE (get_field_index_of name c) (\<lambda>pos. Inr (uint pos))"

text \<open>The typed accessors of the macros \<^verbatim>\<open>SET_VALUE\<close> and \<^verbatim>\<open>GET_VALUE\<close>, little-endian; a type is given by
  the length of its word.\<close>

definition to_bytes :: "'a::len word \<Rightarrow> 8 word list" where
  "to_bytes w = map (\<lambda>i. ucast (drop_bit (8 * i) w)) [0..<LENGTH('a) div 8]"

fun from_bytes :: "8 word list \<Rightarrow> 'a::len word" where
  "from_bytes [] = 0"
| "from_bytes (b # bs) = push_bit 8 (from_bytes bs) OR ucast b"

definition set_value_typed :: "Catalog \<Rightarrow> nat \<Rightarrow> 'a::len word \<Rightarrow> row_t \<Rightarrow> fault + row_t" where
  "set_value_typed c fid v r = set_value c fid (to_bytes v) r"

definition get_value_typed :: "Catalog \<Rightarrow> nat \<Rightarrow> row_t \<Rightarrow> fault + 'a::len word" where
  "get_value_typed c fid r =
     bindE (get_field_index fid c) (\<lambda>pos.
     bindE (read_bytes (sint pos) (LENGTH('a) div 8) (row_data r)) (\<lambda>bs. Inr (from_bytes bs)))"

definition set_data :: "8 word list \<Rightarrow> nat \<Rightarrow> row_t \<Rightarrow> fault + row_t" where
  "set_data src n r =
     bindE (read_bytes 0 n src) (\<lambda>bs. bindE (write_bytes 0 bs (row_data r)) (\<lambda>d. Inr (r\<lparr>row_data := d\<rparr>)))"

definition row_copy :: "Catalog \<Rightarrow> row_t \<Rightarrow> row_t \<Rightarrow> fault + row_t" where
  "row_copy src_schema src r = set_data (row_data src) (unat (tuple_size src_schema)) r"

subsection \<open>Layout of a schema\<close>

text \<open>What a schema is: the list of the fields that have been added, with name, size and type.\<close>

type_synonym field = "string \<times> nat \<times> string"

abbreviation fsize :: "field \<Rightarrow> nat" where
  "fsize f \<equiv> fst (snd f)"

definition field_offset :: "field list \<Rightarrow> nat \<Rightarrow> nat" where
  "field_offset cols i = sum_list (map fsize (take i cols))"

definition cat_rep :: "Catalog \<Rightarrow> field list \<Rightarrow> bool" where
  "cat_rep c cols \<longleftrightarrow> unat (field_cnt c) = length cols \<and> length cols \<le> length (columns c) \<and>
     unat (tuple_size c) = sum_list (map fsize cols) \<and> sum_list (map fsize cols) < 2 ^ 31 \<and>
     (\<forall>i<length cols. columns c ! i = Some \<lparr>col_id = of_nat i, col_size = of_nat (fsize (cols ! i)),
        col_index = of_nat (field_offset cols i), col_type = snd (snd (cols ! i)), col_name = fst (cols ! i)\<rparr>)"

fun add_cols :: "field list \<Rightarrow> Catalog \<Rightarrow> fault + Catalog" where
  "add_cols [] c = Inr c"
| "add_cols (f # fs) c = bindE (add_col (fst f) (of_nat (fsize f)) (snd (snd f)) c) (add_cols fs)"

definition field_ok :: "field \<Rightarrow> bool" where
  "field_ok f \<longleftrightarrow> length (fst f) < 80 \<and> length (snd (snd f)) < 80"

lemma field_offset_Suc: "i < length cols \<Longrightarrow> field_offset cols (Suc i) = field_offset cols i + fsize (cols ! i)"
  by (simp add: field_offset_def take_Suc_conv_app_nth)

lemma field_offset_mono: "i \<le> j \<Longrightarrow> field_offset cols i \<le> field_offset cols j"
  by (metis field_offset_def le_add1 le_iff_add map_append sum_list_append take_add)

lemma field_offset_length: "field_offset cols (length cols) = sum_list (map fsize cols)"
  by (simp add: field_offset_def)

lemma field_offset_end:
  "i < length cols \<Longrightarrow> field_offset cols i + fsize (cols ! i) \<le> sum_list (map fsize cols)"
  by (metis Suc_leI field_offset_Suc field_offset_length field_offset_mono)

lemma field_offset_disjoint:
  "i < j \<Longrightarrow> j < length cols \<Longrightarrow> field_offset cols i + fsize (cols ! i) \<le> field_offset cols j"
  by (metis Suc_leI field_offset_Suc field_offset_mono less_trans)

lemma field_offset_append: "i \<le> length cols \<Longrightarrow> field_offset (cols @ ds) i = field_offset cols i"
  by (simp add: field_offset_def)

lemma small_words:
  assumes "k < 2 ^ 31"
  shows "(ucast (of_nat k :: 64 word) :: 32 word) = of_nat k" "(ucast (of_nat k :: 32 word) :: 64 word) = of_nat k"
    "unat (of_nat k :: 32 word) = k" "sint (of_nat k :: 32 word) = int k"
proof -
  have "k < 2 ^ 32" "k < 2 ^ 64" using assms by simp_all
  then have t: "take_bit 64 k = k" "take_bit 32 k = k" by (simp_all add: take_bit_nat_eq_self)
  then show "(ucast (of_nat k :: 64 word) :: 32 word) = of_nat k" "(ucast (of_nat k :: 32 word) :: 64 word) = of_nat k"
    "unat (of_nat k :: 32 word) = k" by (simp_all add: unsigned_of_nat)
  have "int k < 2 ^ 31" using assms by simp
  then have "signed_take_bit 31 (int k) = int k"
    by (simp add: signed_take_bit_int_eq_self)
  then show "sint (of_nat k :: 32 word) = int k" by (simp add: signed_of_nat)
qed

lemma add_col_rep:
  assumes rep: "cat_rep c cols" and ok: "field_ok f" and room: "length cols < length (columns c)"
    and cnt: "length (columns c) < 2 ^ 31" and sz: "sum_list (map fsize cols) + fsize f < 2 ^ 31"
  shows "\<exists>c'. add_col (fst f) (of_nat (fsize f)) (snd (snd f)) c = Inr c' \<and> cat_rep c' (cols @ [f]) \<and>
    length (columns c') = length (columns c)"
proof -
  note r = rep [unfolded cat_rep_def]
  define z where "z = unat (tuple_size c)"
  have z: "z + fsize f < 2 ^ 31" "z = sum_list (map fsize cols)" using r sz by (simp_all add: z_def)
  have ts: "tuple_size c = of_nat z" by (simp add: z_def)
  have "field_cnt c = of_nat (unat (field_cnt c))" by simp
  then have n: "field_cnt c = of_nat (length cols)" using r by simp
  have "length cols < 2 ^ 31" "Suc (length cols) < 2 ^ 31" using room cnt by simp_all
  note w = small_words [OF this(1)] small_words [OF this(2)]
  have fs: "fsize f < 2 ^ 31" "z < 2 ^ 31" using z by simp_all
  have tz: "ucast (ucast (tuple_size c) + of_nat (fsize f) :: 64 word) = (of_nat (z + fsize f) :: 32 word)"
    using small_words(2) [OF fs(2)] small_words(1) [OF z(1)] by (simp add: ts)
  let ?col = "\<lparr>col_id = of_nat (length cols), col_size = of_nat (fsize f), col_index = of_nat z,
     col_type = snd (snd f), col_name = fst f\<rparr>"
  let ?c = "c\<lparr>columns := (columns c)[length cols := Some ?col], tuple_size := of_nat (z + fsize f),
     field_cnt := of_nat (Suc (length cols))\<rparr>"
  have call: "add_col (fst f) (of_nat (fsize f)) (snd (snd f)) c = Inr ?c"
    using r room ok tz small_words(1) [OF fs(1)] w(2)
    by (simp add: add_col_def field_ok_def Let_def n ts add.commute)
  have "cat_rep ?c (cols @ [f])"
    using r room sz w(7) small_words(3) [OF z(1)] z(2)
    by (auto simp: cat_rep_def nth_append nth_list_update field_offset_append field_offset_length less_Suc_eq)
  then show ?thesis using call by simp
qed

lemma cat_rep_init: "cat_rep (Catalog_init name cnt) []"
  by (simp add: cat_rep_def Catalog_init_def)

lemma add_cols_rep:
  "cat_rep c cols \<Longrightarrow> \<forall>f\<in>set fs. field_ok f \<Longrightarrow> length cols + length fs \<le> length (columns c) \<Longrightarrow>
     length (columns c) < 2 ^ 31 \<Longrightarrow> sum_list (map fsize (cols @ fs)) < 2 ^ 31 \<Longrightarrow>
     \<exists>c'. add_cols fs c = Inr c' \<and> cat_rep c' (cols @ fs) \<and> length (columns c') = length (columns c)"
proof (induction fs arbitrary: c cols)
  case (Cons f fs)
  have "length cols < length (columns c)" "sum_list (map fsize cols) + fsize f < 2 ^ 31"
    using Cons.prems by simp_all
  then obtain c1 where c1: "add_col (fst f) (of_nat (fsize f)) (snd (snd f)) c = Inr c1" "cat_rep c1 (cols @ [f])"
      "length (columns c1) = length (columns c)"
    using add_col_rep [OF Cons.prems(1), of f] Cons.prems by auto
  then have "\<exists>c'. add_cols fs c1 = Inr c' \<and> cat_rep c' ((cols @ [f]) @ fs) \<and> length (columns c') = length (columns c1)"
    using Cons.prems by (intro Cons.IH) simp_all
  then show ?case using c1 by auto
qed simp

lemma cat_rep_column:
  assumes "cat_rep c cols" "i < length cols"
  shows "column_at i c = Inr \<lparr>col_id = of_nat i, col_size = of_nat (fsize (cols ! i)),
    col_index = of_nat (field_offset cols i), col_type = snd (snd (cols ! i)), col_name = fst (cols ! i)\<rparr>"
  using assms by (simp add: cat_rep_def column_at_def)

lemma field_id_from_rep:
  assumes rep: "cat_rep c cols"
  shows "field_id_from i name c =
    (if \<exists>j. i \<le> j \<and> j < length cols \<and> fst (cols ! j) = name
     then Inr (LEAST j. i \<le> j \<and> j < length cols \<and> fst (cols ! j) = name) else Inl Assert_failed)"
proof (induction "length cols - i" arbitrary: i)
  case 0
  then show ?case using rep by (subst field_id_from.simps) (auto simp: cat_rep_def)
next
  case (Suc k)
  then have i: "i < length cols" "k = length cols - Suc i" by simp_all
  note IH = Suc.hyps(1) [OF i(2)]
  show ?case
  proof (cases "fst (cols ! i) = name")
    case True
    then have "(LEAST j. i \<le> j \<and> j < length cols \<and> fst (cols ! j) = name) = i"
      using i by (intro Least_equality) simp_all
    then show ?thesis using True i rep cat_rep_column [OF rep i(1)]
      by (subst field_id_from.simps) (auto simp: cat_rep_def)
  next
    case False
    then have "(\<lambda>j. i \<le> j \<and> j < length cols \<and> fst (cols ! j) = name) =
        (\<lambda>j. Suc i \<le> j \<and> j < length cols \<and> fst (cols ! j) = name)"
      by (auto simp: fun_eq_iff Suc_le_eq le_less)
    then show ?thesis using False i rep cat_rep_column [OF rep i(1)] IH
      by (subst field_id_from.simps) (auto simp: cat_rep_def)
  qed
qed

subsection \<open>Bytes\<close>

lemma from_bytes_bit:
  "LENGTH('a) = 8 * length bs \<Longrightarrow> n < LENGTH('a) \<Longrightarrow> bit (from_bytes bs :: 'a::len word) n = bit (bs ! (n div 8)) (n mod 8)"
proof -
  have "n < 8 * length bs \<Longrightarrow> n < LENGTH('a) \<Longrightarrow> bit (from_bytes bs :: 'a word) n = bit (bs ! (n div 8)) (n mod 8)" for n
  proof (induction bs arbitrary: n)
    case (Cons b bs)
    show ?case
    proof (cases "n < 8")
      case True
      then show ?thesis using Cons.prems by (simp add: bit_simps)
    next
      case False
      then have "(n - 8) div 8 = n div 8 - 1" "(n - 8) mod 8 = n mod 8" "n div 8 = Suc (n div 8 - 1)"
        by (simp_all add: le_div_geq le_mod_geq)
      then show ?thesis using False Cons.IH [of "n - 8"] Cons.prems
        by (simp add: bit_simps impossible_bit nth_Cons')
    qed
  qed simp
  then show "LENGTH('a) = 8 * length bs \<Longrightarrow> n < LENGTH('a) \<Longrightarrow> ?thesis" by simp
qed

lemma length_to_bytes [simp]: "length (to_bytes (w :: 'a::len word)) = LENGTH('a) div 8"
  by (simp add: to_bytes_def)

lemma from_to_bytes:
  assumes "8 dvd LENGTH('a)"
  shows "from_bytes (to_bytes w) = (w :: 'a::len word)"
proof (rule bit_word_eqI)
  fix n assume n: "n < LENGTH('a)"
  have len: "LENGTH('a) = 8 * length (to_bytes w)" using assms by simp
  have "n div 8 < LENGTH('a) div 8" using n assms by (metis dvd_div_mult_self less_mult_imp_div_less)
  then have "bit (to_bytes w ! (n div 8)) (n mod 8) = bit w n"
    by (simp add: to_bytes_def bit_simps)
  then show "bit (from_bytes (to_bytes w) :: 'a word) n = bit w n"
    using from_bytes_bit [OF len n] by simp
qed

subsection \<open>Fields of a row\<close>

definition field_bytes :: "field list \<Rightarrow> nat \<Rightarrow> row_t \<Rightarrow> 8 word list" where
  "field_bytes cols j r = take (fsize (cols ! j)) (drop (field_offset cols j) (row_data r))"

definition row_wf :: "Catalog \<Rightarrow> row_t \<Rightarrow> bool" where
  "row_wf c r \<longleftrightarrow> length (row_data r) = unat (tuple_size c)"

lemma cat_rep_words:
  assumes "cat_rep c cols" "i < length cols"
  shows "get_field_size i c = Inr (of_nat (fsize (cols ! i)))" "get_field_index i c = Inr (of_nat (field_offset cols i))"
    "sint (of_nat (fsize (cols ! i)) :: 32 word) = int (fsize (cols ! i))"
    "sint (of_nat (field_offset cols i) :: 32 word) = int (field_offset cols i)"
    "field_offset cols i + fsize (cols ! i) \<le> unat (tuple_size c)"
proof -
  have e: "field_offset cols i + fsize (cols ! i) \<le> sum_list (map fsize cols)" "sum_list (map fsize cols) < 2 ^ 31"
    using field_offset_end [OF assms(2)] assms(1) by (simp_all add: cat_rep_def)
  then have "fsize (cols ! i) < 2 ^ 31" "field_offset cols i < 2 ^ 31" by linarith+
  then show "sint (of_nat (fsize (cols ! i)) :: 32 word) = int (fsize (cols ! i))"
    "sint (of_nat (field_offset cols i) :: 32 word) = int (field_offset cols i)"
    using small_words(4) by blast+
  show "get_field_size i c = Inr (of_nat (fsize (cols ! i)))" "get_field_index i c = Inr (of_nat (field_offset cols i))"
    using cat_rep_column [OF assms] by (simp_all add: get_field_size_def get_field_index_def)
  show "field_offset cols i + fsize (cols ! i) \<le> unat (tuple_size c)"
    using e assms(1) by (simp add: cat_rep_def)
qed

lemma write_other:
  assumes "p + length bs \<le> length d" "q + m \<le> p \<or> p + length bs \<le> q"
  shows "take m (drop q (take p d @ bs @ drop (p + length bs) d)) = take m (drop q d)"
proof -
  define X where "X = take p d @ bs @ drop (p + length bs) d"
  have X: "X ! i = d ! i" if "i < p \<or> p + length bs \<le> i" "i < length d" for i
    using that assms(1) by (auto simp: X_def nth_append)
  have len: "length X = length d" using assms(1) by (simp add: X_def)
  have "take m (drop q X) ! i = take m (drop q d) ! i" if "i < length (take m (drop q X))" for i
  proof -
    have "q + i < p \<or> p + length bs \<le> q + i" "q + i < length d" "i < m" using that assms(2) len by auto
    then show ?thesis using X [of "q + i"] len by simp
  qed
  then show ?thesis using len unfolding X_def [symmetric] by (intro nth_equalityI) simp_all
qed

lemma set_value_rep:
  assumes rep: "cat_rep c cols" and i: "i < length cols" and wf: "row_wf c r" and len: "fsize (cols ! i) \<le> length ptr"
  shows "\<exists>r'. set_value c i ptr r = Inr r' \<and> row_wf c r' \<and> field_bytes cols i r' = take (fsize (cols ! i)) ptr \<and>
    (\<forall>j<length cols. j \<noteq> i \<longrightarrow> field_bytes cols j r' = field_bytes cols j r)"
proof -
  define p where "p = field_offset cols i"
  define bs where "bs = take (fsize (cols ! i)) ptr"
  have bs: "length bs = fsize (cols ! i)" using len by (simp add: bs_def)
  note w = cat_rep_words [OF rep i, folded p_def]
  have fit: "p + length bs \<le> length (row_data r)" using w(5) wf bs by (simp add: row_wf_def)
  let ?r = "r\<lparr>row_data := take p (row_data r) @ bs @ drop (p + length bs) (row_data r)\<rparr>"
  have call: "set_value c i ptr r = Inr ?r"
    using w fit bs len by (simp add: set_value_def read_bytes_def write_bytes_def bs_def)
  have "field_bytes cols i ?r = bs"
    using fit bs by (simp add: field_bytes_def p_def [symmetric])
  moreover have "field_bytes cols j ?r = field_bytes cols j r" if "j < length cols" "j \<noteq> i" for j
  proof -
    have "field_offset cols j + fsize (cols ! j) \<le> p \<or> p + length bs \<le> field_offset cols j"
      using that i field_offset_disjoint bs unfolding p_def by (metis nat_neq_iff)
    then show ?thesis using write_other [OF fit] by (simp add: field_bytes_def)
  qed
  ultimately show ?thesis using call fit wf by (simp add: row_wf_def bs_def)
qed

lemma get_value_typed_rep:
  assumes "cat_rep c cols" "j < length cols" "row_wf c r" "fsize (cols ! j) = LENGTH('a) div 8"
  shows "(get_value_typed c j r :: fault + 'a::len word) = Inr (from_bytes (field_bytes cols j r))"
  using cat_rep_words [OF assms(1,2)] assms(3,4)
  by (simp add: get_value_typed_def read_bytes_def field_bytes_def row_wf_def)

subsection \<open>Properties\<close>

text \<open>C38: A row built over a schema of declared columns holds its fields: after a typed \<^verbatim>\<open>set_value\<close> of a field
  whose size is that of the type, \<^verbatim>\<open>get_value\<close> returns the value, every other field is as before, and no
  access leaves the tuple, for tuples below 2 GB.\<close>

theorem row_set_get:
  fixes v :: "'a::len word"
  assumes "add_cols cols (Catalog_init name (length cols)) = Inr c" "\<forall>f\<in>set cols. field_ok f"
    and "length cols < 2 ^ 31" "sum_list (map fsize cols) < 2 ^ 31"
    and "length (row_data r) = unat (tuple_size c)" "i < length cols"
    and "8 dvd LENGTH('a)" "fsize (cols ! i) = LENGTH('a) div 8"
  shows "\<exists>r'. set_value_typed c i v r = Inr r' \<and> get_value_typed c i r' = Inr v \<and>
    (\<forall>j<length cols. j \<noteq> i \<longrightarrow> field_bytes cols j r' = field_bytes cols j r)"
proof -
  have rep: "cat_rep c cols"
    using add_cols_rep [OF cat_rep_init, of cols name "length cols"] assms(1-4) by (auto simp: Catalog_init_def)
  obtain r' where "set_value c i (to_bytes v) r = Inr r'" "row_wf c r'"
      "field_bytes cols i r' = take (fsize (cols ! i)) (to_bytes v)"
      "\<forall>j<length cols. j \<noteq> i \<longrightarrow> field_bytes cols j r' = field_bytes cols j r"
    using set_value_rep [OF rep assms(6), of r "to_bytes v"] assms(5,8) by (auto simp: row_wf_def)
  then show ?thesis
    using get_value_typed_rep [OF rep assms(6), of r', where 'a = 'a] assms(7,8)
    by (simp add: set_value_typed_def from_to_bytes)
qed

definition demo_cols :: "field list" where
  "demo_cols = [(''D_ID'', 8, ''int64_t''), (''D_NAME'', 10, ''string''), (''D_NEXT_O_ID'', 8, ''int64_t'')]"

definition demo_schema :: Catalog where
  "demo_schema = \<lparr>field_cnt = 3, table_name = ''DISTRICT'',
     columns = [Some \<lparr>col_id = 0, col_size = 8, col_index = 0, col_type = ''int64_t'', col_name = ''D_ID''\<rparr>,
       Some \<lparr>col_id = 1, col_size = 10, col_index = 8, col_type = ''string'', col_name = ''D_NAME''\<rparr>,
       Some \<lparr>col_id = 2, col_size = 8, col_index = 18, col_type = ''int64_t'', col_name = ''D_NEXT_O_ID''\<rparr>],
     tuple_size = 26\<rparr>"

lemma demo_schema_add: "add_cols demo_cols (Catalog_init ''DISTRICT'' (length demo_cols)) = Inr demo_schema"
proof -
  define c1 where "c1 = \<lparr>field_cnt = 1, table_name = ''DISTRICT'', columns =
    [Some \<lparr>col_id = 0, col_size = 8, col_index = 0, col_type = ''int64_t'', col_name = ''D_ID''\<rparr>, None, None],
    tuple_size = 8\<rparr>"
  define c2 where "c2 = \<lparr>field_cnt = 2, table_name = ''DISTRICT'', columns =
    [Some \<lparr>col_id = 0, col_size = 8, col_index = 0, col_type = ''int64_t'', col_name = ''D_ID''\<rparr>,
     Some \<lparr>col_id = 1, col_size = 10, col_index = 8, col_type = ''string'', col_name = ''D_NAME''\<rparr>, None],
    tuple_size = 18\<rparr>"
  have n: "length demo_cols = 3" by (simp add: demo_cols_def)
  have s1: "add_col ''D_ID'' 8 ''int64_t'' (Catalog_init ''DISTRICT'' 3) = Inr c1"
    by (simp add: add_col_def Catalog_init_def Let_def numeral_3_eq_3 c1_def)
  have s2: "add_col ''D_NAME'' 10 ''string'' c1 = Inr c2"
    by (simp add: add_col_def Let_def c1_def c2_def)
  have upd: "[a, b, d][2 := x] = [a, b, x]" for a b d x :: "Column option"
    by (simp add: numeral_2_eq_2)
  have s3: "add_col ''D_NEXT_O_ID'' 8 ''int64_t'' c2 = Inr demo_schema"
    by (simp add: add_col_def Let_def c2_def demo_schema_def upd)
  show ?thesis
    unfolding n by (simp only: demo_cols_def add_cols.simps fst_conv snd_conv of_nat_numeral s1 s2 s3 bindE_Inr)
qed

lemma demo_cols_facts:
  "\<forall>f\<in>set demo_cols. field_ok f" "length demo_cols = 3" "sum_list (map fsize demo_cols) = 26"
  "fsize (demo_cols ! 2) = 8"
  by (simp_all add: demo_cols_def field_ok_def)

lemma demo_row_length: "length (row_data (row_init (\<lambda>i. 0) (table_init demo_schema) 0 0)) = unat (tuple_size demo_schema)"
  by (simp add: row_init_def table_init_def demo_schema_def)

theorem row_set_get_witness:
  "\<exists>r'. set_value_typed demo_schema 2 (3001 :: 64 word) (row_init (\<lambda>i. 0) (table_init demo_schema) 0 0) = Inr r' \<and>
     get_value_typed demo_schema 2 r' = Inr (3001 :: 64 word)"
proof -
  have "length demo_cols < 2 ^ 31" "sum_list (map fsize demo_cols) < 2 ^ 31" "2 < length demo_cols"
      "8 dvd LENGTH(64)" "fsize (demo_cols ! 2) = LENGTH(64) div 8"
    using demo_cols_facts by simp_all
  then show ?thesis
    using row_set_get [OF demo_schema_add demo_cols_facts(1), of _ 2 "3001 :: 64 word"] demo_row_length by blast
qed

text \<open>A typed \<^verbatim>\<open>set_value\<close> copies the size of the \<^emph>\<open>field\<close>, so a 32-bit value stored into an 8-byte field reads past
  the value, whatever the row; the loaders do this with integer literals.\<close>

theorem set_value_literal_overrun:
  "set_value_typed demo_schema 2 (3001 :: 32 word) r = Inl Out_of_bounds"
  by (simp add: set_value_typed_def set_value_def get_field_size_def get_field_index_def column_at_def demo_schema_def
      read_bytes_def)

text \<open>The search for a field name returns the first field with that name, and only a name that the schema does
  not have fails its assertion.\<close>

theorem get_field_id_first:
  assumes "add_cols cols (Catalog_init tname (length cols)) = Inr c" "\<forall>f\<in>set cols. field_ok f"
    and "length cols < 2 ^ 31" "sum_list (map fsize cols) < 2 ^ 31"
  shows "get_field_id name c = (if name \<in> fst ` set cols then
     Inr (LEAST j. j < length cols \<and> fst (cols ! j) = name) else Inl Assert_failed)"
proof -
  have rep: "cat_rep c cols"
    using add_cols_rep [OF cat_rep_init, of cols tname "length cols"] assms by (auto simp: Catalog_init_def)
  have "name \<in> fst ` set cols \<longleftrightarrow> (\<exists>j. j < length cols \<and> fst (cols ! j) = name)"
    by (force simp: in_set_conv_nth image_iff)
  then show ?thesis using field_id_from_rep [OF rep, of 0 name] by (simp add: get_field_id_def)
qed

theorem get_field_id_first_witness: "get_field_id ''NONE'' demo_schema = Inl Assert_failed"
proof -
  have none: "''NONE'' \<notin> fst ` set demo_cols" by code_simp
  have small: "length demo_cols < 2 ^ 31" "sum_list (map fsize demo_cols) < 2 ^ 31"
    using demo_cols_facts(2,3) by simp_all
  show ?thesis
    unfolding get_field_id_first [OF demo_schema_add demo_cols_facts(1) small, where name = "''NONE''"]
    using none by (rule if_not_P)
qed

end
