(* ===== verification/Txn_2pl.thy ===== *)
theory Txn_2pl
  imports Lock_system
begin

text \<open>
  Transactions over two-phase locking: \<^verbatim>\<open>txn_man::get_row\<close>, \<^verbatim>\<open>cleanup\<close> and \<^verbatim>\<open>finish\<close> of
  \<^verbatim>\<open>system/txn.cpp\<close> with \<^verbatim>\<open>row_t::get_row\<close> and \<^verbatim>\<open>return_row\<close> of \<^verbatim>\<open>storage/row.cpp\<close>, in their branches for
  \<^verbatim>\<open>NO_WAIT\<close>, \<^verbatim>\<open>WAIT_DIE\<close> and \<^verbatim>\<open>DL_DETECT\<close>, with the configured \<^verbatim>\<open>ROLL_BACK\<close> and serializable isolation.
  The contents of the rows are updated in place; a write keeps the old contents in
  its access, and an abort copies them back. Many transactions run interleaved; what a committed
  transaction leaves behind is the abstract state of the system.

  The steps are these. A request is one step: the latched \<^verbatim>\<open>lock_get\<close> with the copy of the old contents, which the
  exclusive lock protects. A waiting transaction looks at its two flags and acts on what it sees, a latched
  \<^verbatim>\<open>lock_release\<close> included, in one step. An update of a row is one. The end of a transaction is many: the decision, and for every
  access, the last one first, the copy-back and then the latched \<^verbatim>\<open>lock_release\<close>, with steps of others
  between any two of them.

  The statistics, the reuse of the access objects and the release of rows a transaction has inserted
  are left out; the deadlock detector is modelled in its own theory, here it may set the abort flag
  of any transaction at any time.
\<close>

subsection \<open>State\<close>

record 'd Access =
  acc_type :: access_t
  acc_orig_row :: row_ptr
  acc_orig_data :: "'d option"

text \<open>For each transaction manager its accesses (\<^verbatim>\<open>row_cnt\<close> is their number), the request it waits for, and,
  while it is in \<^verbatim>\<open>cleanup\<close>, the argument of that call and whether the contents of the access at hand are copied back
  already. The accesses are then those not given back yet.\<close>

record 'd txn_sys =
  tx_locks :: lock_sys
  tx_data :: "'d row_tab"
  tx_acc :: "txn_ptr \<Rightarrow> 'd Access list"
  tx_pend :: "txn_ptr \<Rightarrow> (row_ptr \<times> access_t) option"
  tx_end :: "txn_ptr \<Rightarrow> (RC \<times> bool) option"

definition MAX_ROW_PER_TXN :: nat where
  "MAX_ROW_PER_TXN = 64"

subsection \<open>Rows\<close>

definition row_lt :: "access_t \<Rightarrow> lock_t" where
  "row_lt type = (if type = RD \<or> type = SCAN then LOCK_SH else LOCK_EX)"

definition row_get_row ::
  "cc_alg \<Rightarrow> nat \<Rightarrow> access_t \<Rightarrow> txn_ptr \<Rightarrow> row_ptr \<Rightarrow> lock_sys \<Rightarrow> fault + (RC \<times> lock_sys)" where
  "row_get_row alg n type txn row L =
     bindE (lock_get alg n (row_lt type) txn (rows L row) (txns L)) (\<lambda>(rc, txnids, s', T').
     if rc = WAIT then
       bindE (assert_that (alg = WAIT_DIE \<or> alg = DL_DETECT)) (\<lambda>_.
       Inr (WAIT, L\<lparr>rows := (rows L)(row := s'), txns := T'(txn := (T' txn)\<lparr>lock_abort := False\<rparr>)\<rparr>))
     else Inr (rc, L\<lparr>rows := (rows L)(row := s'), txns := T'\<rparr>))"

text \<open>The \<^verbatim>\<open>row\<close> argument of \<^verbatim>\<open>return_row\<close>: the row itself, nothing, or another row with the given contents.\<close>

datatype 'd ret_row = Ret_null | Ret_this | Ret_copy 'd

text \<open>\<^verbatim>\<open>return_row\<close> first copies the old contents back, then releases the lock.\<close>

definition row_restore :: "access_t \<Rightarrow> row_ptr \<Rightarrow> 'd ret_row \<Rightarrow> 'd row_tab \<Rightarrow> fault + 'd row_tab" where
  "row_restore type row src D =
     bindE (assert_that (src = Ret_null \<or> src = Ret_this \<or> type = XP)) (\<lambda>_.
     if type = XP then
       (case src of Ret_null \<Rightarrow> Inl Null_deref | Ret_this \<Rightarrow> Inr D | Ret_copy d \<Rightarrow> Inr (D(row := d)))
     else Inr D)"

definition row_release :: "txn_ptr \<Rightarrow> row_ptr \<Rightarrow> lock_sys \<Rightarrow> fault + lock_sys" where
  "row_release txn row L =
     bindE (lock_release txn (rows L row) (txns L)) (\<lambda>(rc, s', T'). Inr (L\<lparr>rows := (rows L)(row := s'), txns := T'\<rparr>))"

definition row_return_row ::
  "access_t \<Rightarrow> txn_ptr \<Rightarrow> row_ptr \<Rightarrow> 'd ret_row \<Rightarrow> 'd row_tab \<Rightarrow> lock_sys \<Rightarrow> fault + ('d row_tab \<times> lock_sys)" where
  "row_return_row type txn row src D L =
     bindE (row_restore type row src D) (\<lambda>D'. bindE (row_release txn row L) (\<lambda>L'. Inr (D', L')))"

subsection \<open>Transactions\<close>

definition record_access :: "access_t \<Rightarrow> txn_ptr \<Rightarrow> row_ptr \<Rightarrow> 'd txn_sys \<Rightarrow> 'd txn_sys" where
  "record_access type txn row S =
     S\<lparr>tx_acc := (tx_acc S)(txn := tx_acc S txn @
         [\<lparr>acc_type = type, acc_orig_row = row, acc_orig_data = (if type = WR then Some (tx_data S row) else None)\<rparr>]),
       tx_pend := (tx_pend S)(txn := None)\<rparr>"

definition txn_get_row ::
  "cc_alg \<Rightarrow> nat \<Rightarrow> access_t \<Rightarrow> txn_ptr \<Rightarrow> row_ptr \<Rightarrow> 'd txn_sys \<Rightarrow> fault + (RC \<times> 'd txn_sys)" where
  "txn_get_row alg n type txn row S =
     bindE (guard Out_of_bounds (length (tx_acc S txn) < MAX_ROW_PER_TXN)) (\<lambda>_.
     bindE (row_get_row alg n type txn row (tx_locks S)) (\<lambda>(rc, L').
     if rc = Abort then Inr (Abort, S\<lparr>tx_locks := L'\<rparr>)
     else if rc = WAIT then Inr (WAIT, S\<lparr>tx_locks := L', tx_pend := (tx_pend S)(txn := Some (row, type))\<rparr>)
     else Inr (RCOK, record_access type txn row (S\<lparr>tx_locks := L'\<rparr>))))"

text \<open>One look of the waiting loop of \<^verbatim>\<open>row_t::get_row\<close> at the two flags, and what follows it.\<close>

definition txn_wait_poll :: "txn_ptr \<Rightarrow> 'd txn_sys \<Rightarrow> fault + (RC \<times> 'd txn_sys)" where
  "txn_wait_poll txn S =
     (case tx_pend S txn of None \<Rightarrow> Inl Assert_failed
      | Some (row, type) \<Rightarrow>
          if lock_ready (txns (tx_locks S) txn) then Inr (RCOK, record_access type txn row S)
          else if lock_abort (txns (tx_locks S) txn) then
            bindE (row_return_row type txn row Ret_null (tx_data S) (tx_locks S)) (\<lambda>(D', L').
            Inr (Abort, S\<lparr>tx_data := D', tx_locks := L', tx_pend := (tx_pend S)(txn := None)\<rparr>))
          else Inr (WAIT, S))"

text \<open>How \<^verbatim>\<open>cleanup\<close> gives an access back: its type, and the row it passes.\<close>

definition ret_access :: "RC \<Rightarrow> 'd Access \<Rightarrow> fault + (access_t \<times> 'd ret_row)" where
  "ret_access rc a =
     (let type = (if acc_type a = WR \<and> rc = Abort then XP else acc_type a) in
      if type = XP then (case acc_orig_data a of None \<Rightarrow> Inl Undefined_behaviour | Some d \<Rightarrow> Inr (type, Ret_copy d))
      else Inr (type, Ret_this))"

text \<open>The loop of \<^verbatim>\<open>cleanup\<close> without interruption, from the last access down; the list is reversed.\<close>

fun return_rows :: "RC \<Rightarrow> txn_ptr \<Rightarrow> 'd Access list \<Rightarrow> 'd row_tab \<Rightarrow> lock_sys \<Rightarrow> fault + ('d row_tab \<times> lock_sys)" where
  "return_rows rc txn [] D L = Inr (D, L)"
| "return_rows rc txn (a # as) D L =
     bindE (ret_access rc a) (\<lambda>(type, src).
     bindE (row_return_row type txn (acc_orig_row a) src D L) (\<lambda>(D', L').
     return_rows rc txn as D' L'))"

definition txn_cleanup :: "RC \<Rightarrow> txn_ptr \<Rightarrow> 'd txn_sys \<Rightarrow> fault + 'd txn_sys" where
  "txn_cleanup rc txn S =
     bindE (return_rows rc txn (rev (tx_acc S txn)) (tx_data S) (tx_locks S)) (\<lambda>(D', L').
     Inr (S\<lparr>tx_data := D', tx_locks := L', tx_acc := (tx_acc S)(txn := [])\<rparr>))"

definition txn_finish :: "RC \<Rightarrow> txn_ptr \<Rightarrow> 'd txn_sys \<Rightarrow> fault + (RC \<times> 'd txn_sys)" where
  "txn_finish rc txn S = bindE (txn_cleanup rc txn S) (\<lambda>S'. Inr (rc, S'))"

text \<open>One step of the loop of \<^verbatim>\<open>cleanup\<close>: the copy-back for the last access, its release, or the end.\<close>

definition cleanup_step :: "txn_ptr \<Rightarrow> 'd txn_sys \<Rightarrow> fault + 'd txn_sys" where
  "cleanup_step txn S =
     (case tx_end S txn of None \<Rightarrow> Inl Assert_failed
      | Some (rc, copied) \<Rightarrow>
          if tx_acc S txn = [] then Inr (S\<lparr>tx_end := (tx_end S)(txn := None)\<rparr>)
          else if \<not> copied then
            bindE (ret_access rc (last (tx_acc S txn))) (\<lambda>(type, src).
            bindE (row_restore type (acc_orig_row (last (tx_acc S txn))) src (tx_data S)) (\<lambda>D'.
            Inr (S\<lparr>tx_data := D', tx_end := (tx_end S)(txn := Some (rc, True))\<rparr>)))
          else
            bindE (row_release txn (acc_orig_row (last (tx_acc S txn))) (tx_locks S)) (\<lambda>L'.
            Inr (S\<lparr>tx_locks := L', tx_acc := (tx_acc S)(txn := butlast (tx_acc S txn)), tx_end := (tx_end S)(txn := Some (rc, False))\<rparr>)))"

text \<open>The steps of one transaction's \<^verbatim>\<open>cleanup\<close> with nobody in between; each access takes two, the end one.\<close>

fun cleanup_steps :: "nat \<Rightarrow> txn_ptr \<Rightarrow> 'd txn_sys \<Rightarrow> fault + 'd txn_sys" where
  "cleanup_steps 0 txn S = Inr S"
| "cleanup_steps (Suc k) txn S = bindE (cleanup_step txn S) (cleanup_steps k txn)"

text \<open>The update of a row by the workload, through the pointer \<^verbatim>\<open>get_row\<close> returned.\<close>

definition txn_write :: "row_ptr \<Rightarrow> 'd \<Rightarrow> 'd txn_sys \<Rightarrow> 'd txn_sys" where
  "txn_write row v S = S\<lparr>tx_data := (tx_data S)(row := v)\<rparr>"

subsection \<open>Interleaved transactions\<close>

definition acc_rows :: "'d Access list \<Rightarrow> row_ptr set" where
  "acc_rows as = acc_orig_row ` set as"

definition written :: "'d Access list \<Rightarrow> row_ptr set" where
  "written as = acc_orig_row ` {a \<in> set as. acc_type a = WR}"

inductive txn_step :: "cc_alg \<Rightarrow> nat \<Rightarrow> 'd txn_sys \<Rightarrow> 'd txn_sys \<Rightarrow> bool" for alg n where
  tx_get: "t < n \<Longrightarrow> tx_pend S t = None \<Longrightarrow> tx_end S t = None \<Longrightarrow> r \<notin> acc_rows (tx_acc S t) \<Longrightarrow> type \<in> {RD, WR, SCAN} \<Longrightarrow>
     txn_get_row alg n type t r S = Inr (rc, S') \<Longrightarrow> txn_step alg n S S'"
| tx_poll: "tx_pend S t \<noteq> None \<Longrightarrow> txn_wait_poll t S = Inr (rc, S') \<Longrightarrow> txn_step alg n S S'"
| tx_write: "tx_pend S t = None \<Longrightarrow> tx_end S t = None \<Longrightarrow> r \<in> written (tx_acc S t) \<Longrightarrow> txn_step alg n S (txn_write r v S)"
| tx_finish: "t < n \<Longrightarrow> tx_pend S t = None \<Longrightarrow> tx_end S t = None \<Longrightarrow>
     txn_step alg n S (S\<lparr>tx_end := (tx_end S)(t := Some (rc, False))\<rparr>)"
| tx_cleanup: "tx_end S t \<noteq> None \<Longrightarrow> cleanup_step t S = Inr S' \<Longrightarrow> txn_step alg n S S'"
| tx_begin: "t < n \<Longrightarrow> tx_pend S t = None \<Longrightarrow> tx_end S t = None \<Longrightarrow> tx_acc S t = [] \<Longrightarrow>
     \<forall>u<n. u \<noteq> t \<longrightarrow> ts_of (txns (tx_locks S)) u \<noteq> ts \<Longrightarrow>
     txn_step alg n S (S\<lparr>tx_locks := (tx_locks S)\<lparr>txns :=
       (txns (tx_locks S))(t := (txns (tx_locks S) t)\<lparr>timestamp := ts, txn_id := i\<rparr>)\<rparr>\<rparr>)"
| tx_abort_flag: "txn_step alg n S (S\<lparr>tx_locks := (tx_locks S)\<lparr>txns :=
       (txns (tx_locks S))(t := (txns (tx_locks S) t)\<lparr>lock_abort := b\<rparr>)\<rparr>\<rparr>)"

definition txn_sys_init :: "nat \<Rightarrow> 'd txn_sys \<Rightarrow> bool" where
  "txn_sys_init n S \<longleftrightarrow> lock_sys_init n (tx_locks S) \<and> tx_acc S = (\<lambda>_. []) \<and> tx_pend S = (\<lambda>_. None) \<and>
     tx_end S = (\<lambda>_. None)"

text \<open>The abstract state: the contents each row has once the running transactions are undone, also those that are in the middle
  of their abort. A transaction that has decided to commit is not one of them, whatever it still holds.\<close>

definition live_acc :: "'d txn_sys \<Rightarrow> txn_ptr \<Rightarrow> 'd Access list" where
  "live_acc S t = (case tx_end S t of None \<Rightarrow> tx_acc S t | Some (rc, copied) \<Rightarrow> if rc = Abort then tx_acc S t else [])"

definition committed :: "nat \<Rightarrow> 'd txn_sys \<Rightarrow> row_ptr \<Rightarrow> 'd" where
  "committed n S r =
     (case find (\<lambda>a. acc_type a = WR \<and> acc_orig_row a = r) (concat (map (live_acc S) [0..<n])) of
        Some a \<Rightarrow> the (acc_orig_data a) | None \<Rightarrow> tx_data S r)"

subsection \<open>What an operation on a row does to the entries of others\<close>

definition ent :: "txn_ptr \<Rightarrow> access_t \<Rightarrow> LockEntry" where
  "ent t type = \<lparr>le_type = row_lt type, le_txn = t\<rparr>"

lemma ent_sel [simp]: "le_txn (ent t type) = t" "le_type (ent t type) = row_lt type"
  by (simp_all add: ent_def)

lemma row_lt_not_none [simp]: "row_lt type \<noteq> LOCK_NONE"
  by (simp add: row_lt_def)

definition other_kept :: "txn_ptr \<Rightarrow> Row_lock \<Rightarrow> Row_lock \<Rightarrow> bool" where
  "other_kept t s s' \<longleftrightarrow> (\<forall>en. le_txn en \<noteq> t \<longrightarrow>
     (en \<in> set (owners s) \<longrightarrow> en \<in> set (owners s')) \<and> (en \<in> set (waiters s') \<longrightarrow> en \<in> set (waiters s)) \<and>
     (en \<in> set (owners s) \<union> set (waiters s) \<longleftrightarrow> en \<in> set (owners s') \<union> set (waiters s')))"

lemma other_keptD:
  assumes "other_kept t s s'" "le_txn en \<noteq> t"
  shows "en \<in> set (owners s) \<Longrightarrow> en \<in> set (owners s')" "en \<in> set (waiters s') \<Longrightarrow> en \<in> set (waiters s)"
    "en \<in> set (owners s) \<union> set (waiters s) \<longleftrightarrow> en \<in> set (owners s') \<union> set (waiters s')"
  using assms unfolding other_kept_def by blast+

lemma lock_get_effect:
  assumes "lock_get alg n (row_lt type) t s T = Inr (rc, ids, s', T')"
  shows "other_kept t s s'"
    and "rc = Abort \<Longrightarrow> s' = s"
    and "rc = WAIT \<Longrightarrow> owners s' = owners s \<and> set (waiters s') = insert (ent t type) (set (waiters s))"
    and "rc \<noteq> Abort \<Longrightarrow> rc \<noteq> WAIT \<Longrightarrow> owners s' = ent t type # owners s \<and> waiters s' = waiters s \<and> rc = RCOK"
    and "rc = WAIT \<Longrightarrow> alg \<noteq> NO_WAIT"
  using assms by (cases rule: lock_get_cases; auto simp: other_kept_def ent_def)+

lemma lock_release_effect:
  assumes inv: "lock_inv alg s T" "row_txns_ok n s"
    and mem: "t \<in> txns_in (owners s) \<or> t \<in> txns_in (waiters s)"
  shows "\<exists>s' T'. lock_release t s T = Inr (RCOK, s', T') \<and> other_kept t s s' \<and>
    t \<notin> txns_in (owners s') \<union> txns_in (waiters s')"
proof -
  obtain s1 s' T' gs where rel: "lock_release t s T = Inr (RCOK, s', T')" "entry_removed t s s1"
      "waiters s1 = gs @ waiters s'" "owners s' = rev gs @ owners s1"
    using lock_release_spec [OF inv(1) mem [unfolded txns_in_def]] by blast
  have dist: "distinct (map le_txn (owners s))" "distinct (map le_txn (waiters s))"
      "txns_in (waiters s) \<inter> txns_in (owners s) = {}"
    using inv by (auto simp: row_txns_ok_def lock_inv_defs)
  have rest: "t \<notin> txns_in (owners s1) \<union> txns_in (waiters s1)"
  proof (cases "t \<in> txns_in (owners s)")
    case True
    then have "waiters s1 = waiters s" "\<exists>us en vs. owners s = us @ en # vs \<and> le_txn en = t \<and> owners s1 = us @ vs"
      using rel(2) by (simp_all add: entry_removed_def txns_in_def)
    moreover from True dist(3) have "t \<notin> txns_in (waiters s)" by blast
    ultimately show ?thesis using dist(1) by (auto simp: txns_in_def)
  next
    case False
    then have "owners s1 = owners s" "\<exists>us en vs. waiters s = us @ en # vs \<and> le_txn en = t \<and> waiters s1 = us @ vs"
      using rel(2) by (simp_all add: entry_removed_def txns_in_def)
    then show ?thesis using dist(2) False by (auto simp: txns_in_def)
  qed
  have "set (owners s) - {en. le_txn en = t} \<subseteq> set (owners s1)" "set (owners s1) \<subseteq> set (owners s)"
    "set (waiters s) - {en. le_txn en = t} \<subseteq> set (waiters s1)" "set (waiters s1) \<subseteq> set (waiters s)"
    using rel(2) by (auto simp: entry_removed_def split: if_splits)
  then have "other_kept t s s'" using rel(3,4) unfolding other_kept_def by auto
  moreover have "t \<notin> txns_in (owners s') \<union> txns_in (waiters s')" using rest rel(3,4) by auto
  ultimately show ?thesis using rel(1) by blast
qed

subsection \<open>Invariant\<close>

definition txn_ok :: "(row_ptr \<Rightarrow> Row_lock) \<Rightarrow> txn_ptr \<Rightarrow> 'd Access list \<Rightarrow> (row_ptr \<times> access_t) option \<Rightarrow> bool" where
  "txn_ok R t as p \<longleftrightarrow>
     (\<forall>a\<in>set as. ent t (acc_type a) \<in> set (owners (R (acc_orig_row a))) \<and> acc_type a \<in> {RD, WR, SCAN} \<and>
        (acc_type a = WR \<longrightarrow> acc_orig_data a \<noteq> None)) \<and>
     distinct (map acc_orig_row as) \<and>
     (\<forall>r ty. p = Some (r, ty) \<longrightarrow> r \<notin> acc_rows as \<and> ty \<in> {RD, WR, SCAN} \<and>
        ent t ty \<in> set (owners (R r)) \<union> set (waiters (R r))) \<and>
     (\<forall>r. t \<in> txns_in (owners (R r)) \<union> txns_in (waiters (R r)) \<longrightarrow> r \<in> acc_rows as \<or> (\<exists>ty. p = Some (r, ty))) \<and>
     (\<forall>r. t \<in> txns_in (waiters (R r)) \<longrightarrow> (\<exists>ty. p = Some (r, ty)))"

lemma txn_okD:
  assumes "txn_ok R t as p"
  shows "a \<in> set as \<Longrightarrow> ent t (acc_type a) \<in> set (owners (R (acc_orig_row a)))"
    "a \<in> set as \<Longrightarrow> acc_type a \<in> {RD, WR, SCAN}" "a \<in> set as \<Longrightarrow> acc_type a = WR \<Longrightarrow> acc_orig_data a \<noteq> None"
    "distinct (map acc_orig_row as)"
    "p = Some (r, ty) \<Longrightarrow> r \<notin> acc_rows as" "p = Some (r, ty) \<Longrightarrow> ty \<in> {RD, WR, SCAN}"
    "p = Some (r, ty) \<Longrightarrow> ent t ty \<in> set (owners (R r)) \<union> set (waiters (R r))"
    "t \<in> txns_in (owners (R r)) \<union> txns_in (waiters (R r)) \<Longrightarrow> r \<in> acc_rows as \<or> (\<exists>ty. p = Some (r, ty))"
    "t \<in> txns_in (waiters (R r)) \<Longrightarrow> \<exists>ty. p = Some (r, ty)"
  using assms unfolding txn_ok_def by blast+

text \<open>A transaction in its \<^verbatim>\<open>cleanup\<close> does not wait; once the contents are copied back they stay until the lock is released.\<close>

definition end_ok :: "'d txn_sys \<Rightarrow> txn_ptr \<Rightarrow> bool" where
  "end_ok S t \<longleftrightarrow> (tx_end S t \<noteq> None \<longrightarrow> tx_pend S t = None) \<and>
     (\<forall>rc. tx_end S t = Some (rc, True) \<longrightarrow> tx_acc S t \<noteq> [] \<and>
        (rc = Abort \<and> acc_type (last (tx_acc S t)) = WR \<longrightarrow>
          tx_data S (acc_orig_row (last (tx_acc S t))) = the (acc_orig_data (last (tx_acc S t)))))"

definition txn_inv :: "cc_alg \<Rightarrow> nat \<Rightarrow> 'd txn_sys \<Rightarrow> bool" where
  "txn_inv alg n S \<longleftrightarrow> lock_sys_inv alg n (tx_locks S) \<and> (\<forall>t. txn_ok (rows (tx_locks S)) t (tx_acc S t) (tx_pend S t)) \<and>
     (\<forall>t. end_ok S t)"

lemma txn_ok_other:
  assumes ok: "txn_ok R u as p" and kept: "other_kept t (R r) s'" and "u \<noteq> t"
  shows "txn_ok (R(r := s')) u as p"
proof -
  note k = other_keptD [OF kept]
  have own: "ent u ty \<in> set (owners (R x)) \<Longrightarrow> ent u ty \<in> set (owners ((R(r := s')) x))" for ty x
    using k(1) [of "ent u ty"] assms(3) by auto
  have all: "en \<in> set (owners (R x)) \<union> set (waiters (R x)) \<longleftrightarrow> en \<in> set (owners ((R(r := s')) x)) \<union> set (waiters ((R(r := s')) x))"
    if "le_txn en = u" for en x
    using k(3) [of en] that assms(3) by auto
  have wt: "u \<in> txns_in (waiters ((R(r := s')) x)) \<Longrightarrow> u \<in> txns_in (waiters (R x))" for x
    using k(2) assms(3) by (cases "x = r") (auto simp: txns_in_def image_iff)
  have alltx: "u \<in> txns_in (owners ((R(r := s')) x)) \<union> txns_in (waiters ((R(r := s')) x)) \<Longrightarrow>
      u \<in> txns_in (owners (R x)) \<union> txns_in (waiters (R x))" for x
    using all unfolding txns_in_def by blast
  show ?thesis
    unfolding txn_ok_def
  proof (intro conjI)
    show "\<forall>a\<in>set as. ent u (acc_type a) \<in> set (owners ((R(r := s')) (acc_orig_row a))) \<and> acc_type a \<in> {RD, WR, SCAN} \<and>
        (acc_type a = WR \<longrightarrow> acc_orig_data a \<noteq> None)"
      using own txn_okD(1-3) [OF ok] by blast
    show "\<forall>x ty. p = Some (x, ty) \<longrightarrow> x \<notin> acc_rows as \<and> ty \<in> {RD, WR, SCAN} \<and>
        ent u ty \<in> set (owners ((R(r := s')) x)) \<union> set (waiters ((R(r := s')) x))"
      using all [of "ent u ty" for ty] txn_okD(5-7) [OF ok] by (metis ent_sel(1))
  qed (use wt alltx txn_okD(4,8,9) [OF ok] in blast)+
qed

subsection \<open>Operations keep the invariant\<close>

definition others_ok :: "txn_ptr \<Rightarrow> (row_ptr \<Rightarrow> Row_lock) \<Rightarrow> (row_ptr \<Rightarrow> Row_lock) \<Rightarrow> 'd itself \<Rightarrow> bool" where
  "others_ok t R R' d \<longleftrightarrow> (\<forall>u as p. u \<noteq> t \<longrightarrow> txn_ok R u (as :: 'd Access list) p \<longrightarrow> txn_ok R' u as p)"

lemma others_okI: "other_kept t (R r) s' \<Longrightarrow> others_ok t R (R(r := s')) d"
  unfolding others_ok_def using txn_ok_other by blast

lemma txn_ok_append:
  assumes ok: "txn_ok R t as p" and p: "p = None \<or> (\<exists>ty. p = Some (r, ty))" and new: "r \<notin> acc_rows as"
    and own: "ent t (acc_type a) \<in> set (owners s')" and rest: "t \<notin> txns_in (waiters s')"
    and a: "acc_orig_row a = r" "acc_type a \<in> {RD, WR, SCAN}" "acc_type a = WR \<longrightarrow> acc_orig_data a \<noteq> None"
  shows "txn_ok (R(r := s')) t (as @ [a]) None"
  unfolding txn_ok_def
proof (intro conjI)
  have "acc_orig_row b \<noteq> r" if "b \<in> set as" for b using that new by (auto simp: acc_rows_def)
  then show "\<forall>b\<in>set (as @ [a]). ent t (acc_type b) \<in> set (owners ((R(r := s')) (acc_orig_row b))) \<and>
      acc_type b \<in> {RD, WR, SCAN} \<and> (acc_type b = WR \<longrightarrow> acc_orig_data b \<noteq> None)"
    using txn_okD(1-3) [OF ok] own a by auto
  show "distinct (map acc_orig_row (as @ [a]))"
    using txn_okD(4) [OF ok] new a(1) by (simp add: acc_rows_def)
  show "\<forall>x. t \<in> txns_in (owners ((R(r := s')) x)) \<union> txns_in (waiters ((R(r := s')) x)) \<longrightarrow>
      x \<in> acc_rows (as @ [a]) \<or> (\<exists>ty. None = Some (x, ty))"
    using txn_okD(8) [OF ok] p a(1) by (fastforce simp: acc_rows_def)
  show "\<forall>x. t \<in> txns_in (waiters ((R(r := s')) x)) \<longrightarrow> (\<exists>ty. None = Some (x, ty))"
  proof (intro allI impI)
    fix x assume x: "t \<in> txns_in (waiters ((R(r := s')) x))"
    then have "x \<noteq> r" "t \<in> txns_in (waiters (R x))" using rest by (auto split: if_splits)
    then show "\<exists>ty. None = Some (x, ty)" using txn_okD(9) [OF ok] p by blast
  qed
qed simp

lemma txn_ok_wait:
  assumes ok: "txn_ok R t as None" and new: "r \<notin> acc_rows as" and ty: "ty \<in> {RD, WR, SCAN}"
    and own: "owners s' = owners (R r)" and w: "set (waiters s') = insert (ent t ty) (set (waiters (R r)))"
  shows "txn_ok (R(r := s')) t as (Some (r, ty))"
  unfolding txn_ok_def
proof (intro conjI)
  show "\<forall>a\<in>set as. ent t (acc_type a) \<in> set (owners ((R(r := s')) (acc_orig_row a))) \<and> acc_type a \<in> {RD, WR, SCAN} \<and>
      (acc_type a = WR \<longrightarrow> acc_orig_data a \<noteq> None)"
    using txn_okD(1-3) [OF ok] own by auto
  show "distinct (map acc_orig_row as)" by (rule txn_okD(4) [OF ok])
  have "txns_in (waiters s') = insert t (txns_in (waiters (R r)))" using w by (simp add: txns_in_def)
  then show "\<forall>x. t \<in> txns_in (owners ((R(r := s')) x)) \<union> txns_in (waiters ((R(r := s')) x)) \<longrightarrow>
      x \<in> acc_rows as \<or> (\<exists>ty'. Some (r, ty) = Some (x, ty'))"
    and "\<forall>x. t \<in> txns_in (waiters ((R(r := s')) x)) \<longrightarrow> (\<exists>ty'. Some (r, ty) = Some (x, ty'))"
    using txn_okD(8,9) [OF ok] own by (auto split: if_splits)
qed (use new ty w in auto)

lemma row_get_row_spec:
  assumes inv: "lock_sys_inv alg n L" and ok: "txn_ok (rows L) t as None" and t: "t < n" and new: "r \<notin> acc_rows as"
    and ty: "ty \<in> {RD, WR, SCAN}" and call: "row_get_row alg n ty t r L = Inr (rc, L')"
  shows "lock_sys_inv alg n L' \<and> others_ok t (rows L) (rows L') d \<and>
    (rc = Abort \<longrightarrow> txn_ok (rows L') t as None) \<and> (rc = WAIT \<longrightarrow> txn_ok (rows L') t as (Some (r, ty))) \<and>
    (rc \<noteq> Abort \<longrightarrow> rc \<noteq> WAIT \<longrightarrow> (\<forall>a. acc_type a = ty \<longrightarrow> acc_orig_row a = r \<longrightarrow> (ty = WR \<longrightarrow> acc_orig_data a \<noteq> None) \<longrightarrow>
       txn_ok (rows L') t (as @ [a]) None) \<and> rc = RCOK)"
proof -
  obtain ids s' T' where lg: "lock_get alg n (row_lt ty) t (rows L r) (txns L) = Inr (rc, ids, s', T')"
    and L': "rows L' = (rows L)(r := s')" "lock_sys_inv alg n (L\<lparr>rows := (rows L)(r := s'), txns := T'\<rparr>) \<Longrightarrow> lock_sys_inv alg n L'"
    using call abort_flag_sys_inv by (fastforce simp: row_get_row_def bindE_eq_Inr split: if_splits)
  note eff = lock_get_effect [OF lg]
  have free: "t \<notin> txns_in (waiters (rows L x))" for x using txn_okD(9) [OF ok] by blast
  have notin: "t \<notin> txns_in (owners (rows L r)) \<union> txns_in (waiters (rows L r))"
    using txn_okD(8) [OF ok] new by blast
  have "lock_sys_inv alg n L'"
    by (rule L'(2), rule lock_get_sys_inv [OF inv t _ _ row_lt_not_none lg]) (use free notin in \<open>auto simp: waiting_def\<close>)
  moreover have "others_ok t (rows L) (rows L') d"
    unfolding L'(1) by (rule others_okI [where R = "rows L" and r = r, OF eff(1)])
  moreover have "rc = Abort \<longrightarrow> txn_ok (rows L') t as None"
    using eff(2) ok by (simp add: L'(1))
  moreover have "txn_ok (rows L') t as (Some (r, ty))" if "rc = WAIT"
    using txn_ok_wait [OF ok new ty, of s'] eff(3) that by (simp add: L'(1))
  moreover have "txn_ok (rows L') t (as @ [a]) None \<and> rc = RCOK"
    if "rc \<noteq> Abort" "rc \<noteq> WAIT" "acc_type a = ty" "acc_orig_row a = r" "ty = WR \<longrightarrow> acc_orig_data a \<noteq> None" for a
  proof
    have "t \<notin> txns_in (waiters s')" using eff(4) [OF that(1,2)] notin by simp
    then show "txn_ok (rows L') t (as @ [a]) None"
      unfolding L'(1) using eff(4) [OF that(1,2)] that ty
      by (intro txn_ok_append [where R = "rows L" and r = r, OF ok _ new]) simp_all
  qed (use eff(4) [OF that(1,2)] in simp)
  ultimately show ?thesis using eff(4) by blast
qed

text \<open>Giving back a row the transaction owns or waits for.\<close>

lemma row_release_spec:
  assumes inv: "lock_sys_inv alg n L" and mem: "t \<in> txns_in (owners (rows L r)) \<or> t \<in> txns_in (waiters (rows L r))"
  shows "\<exists>s' T'. row_release t r L = Inr (L\<lparr>rows := (rows L)(r := s'), txns := T'\<rparr>) \<and>
    lock_sys_inv alg n (L\<lparr>rows := (rows L)(r := s'), txns := T'\<rparr>) \<and> other_kept t (rows L r) s' \<and>
    t \<notin> txns_in (owners s') \<union> txns_in (waiters s')"
proof -
  obtain s' T' where rel: "lock_release t (rows L r) (txns L) = Inr (RCOK, s', T')" "other_kept t (rows L r) s'"
      "t \<notin> txns_in (owners s') \<union> txns_in (waiters s')"
    using lock_release_effect [OF lock_sys_invD(1,2) [OF inv] mem] by blast
  then show ?thesis
    using lock_release_sys_inv [OF inv mem rel(1)] by (intro exI [of _ s'] exI [of _ T']) (simp add: row_release_def)
qed

lemma row_return_row_spec:
  assumes inv: "lock_sys_inv alg n L" and mem: "t \<in> txns_in (owners (rows L r)) \<or> t \<in> txns_in (waiters (rows L r))"
    and src: "type \<noteq> XP \<and> (src = Ret_null \<or> src = Ret_this) \<or> type = XP \<and> src = Ret_copy d"
  shows "\<exists>s' T'. row_return_row type t r src D L =
      Inr (if type = XP then D(r := d) else D, L\<lparr>rows := (rows L)(r := s'), txns := T'\<rparr>) \<and>
    lock_sys_inv alg n (L\<lparr>rows := (rows L)(r := s'), txns := T'\<rparr>) \<and> other_kept t (rows L r) s' \<and>
    t \<notin> txns_in (owners s') \<union> txns_in (waiters s')"
proof -
  have "row_restore type r src D = Inr (if type = XP then D(r := d) else D)"
    using src by (auto simp: row_restore_def)
  moreover obtain s' T' where "row_release t r L = Inr (L\<lparr>rows := (rows L)(r := s'), txns := T'\<rparr>)"
      "lock_sys_inv alg n (L\<lparr>rows := (rows L)(r := s'), txns := T'\<rparr>)" "other_kept t (rows L r) s'"
      "t \<notin> txns_in (owners s') \<union> txns_in (waiters s')"
    using row_release_spec [OF inv mem] by blast
  ultimately show ?thesis by (intro exI [of _ s'] exI [of _ T']) (simp add: row_return_row_def)
qed

text \<open>The contents an access leaves in its row when it is given back.\<close>

definition restored :: "RC \<Rightarrow> 'd Access \<Rightarrow> 'd row_tab \<Rightarrow> 'd row_tab" where
  "restored rc a D = (if rc = Abort \<and> acc_type a = WR then D(acc_orig_row a := the (acc_orig_data a)) else D)"

lemma ret_access_ok:
  assumes "acc_type a \<in> {RD, WR, SCAN}" "acc_type a = WR \<longrightarrow> acc_orig_data a \<noteq> None"
  shows "\<exists>type src. ret_access rc a = Inr (type, src) \<and>
    (type = XP \<longleftrightarrow> rc = Abort \<and> acc_type a = WR) \<and>
    (type \<noteq> XP \<and> (src = Ret_null \<or> src = Ret_this) \<or> type = XP \<and> src = Ret_copy (the (acc_orig_data a)))"
  using assms by (auto simp: ret_access_def Let_def)

lemma txn_ok_pend_gone:
  assumes ok: "txn_ok R t as (Some (r, ty))" and gone: "t \<notin> txns_in (owners s') \<union> txns_in (waiters s')"
  shows "txn_ok (R(r := s')) t as None"
  unfolding txn_ok_def
proof (intro conjI)
  have "acc_orig_row b \<noteq> r" if "b \<in> set as" for b using that txn_okD(5) [OF ok] by (auto simp: acc_rows_def)
  then show "\<forall>a\<in>set as. ent t (acc_type a) \<in> set (owners ((R(r := s')) (acc_orig_row a))) \<and> acc_type a \<in> {RD, WR, SCAN} \<and>
      (acc_type a = WR \<longrightarrow> acc_orig_data a \<noteq> None)"
    using txn_okD(1-3) [OF ok] by auto
  show "distinct (map acc_orig_row as)" by (rule txn_okD(4) [OF ok])
  show "\<forall>x. t \<in> txns_in (owners ((R(r := s')) x)) \<union> txns_in (waiters ((R(r := s')) x)) \<longrightarrow>
      x \<in> acc_rows as \<or> (\<exists>ty'. None = Some (x, ty'))"
    and "\<forall>x. t \<in> txns_in (waiters ((R(r := s')) x)) \<longrightarrow> (\<exists>ty'. None = Some (x, ty'))"
    using txn_okD(8,9) [OF ok] gone by (auto split: if_splits)
qed simp

text \<open>Giving back the last access.\<close>

lemma txn_ok_snoc_gone:
  assumes ok: "txn_ok R t (as @ [a]) None" and r: "acc_orig_row a = r"
    and gone: "t \<notin> txns_in (owners s') \<union> txns_in (waiters s')"
  shows "txn_ok (R(r := s')) t as None"
  unfolding txn_ok_def
proof (intro conjI)
  have "r \<notin> acc_orig_row ` set as" using txn_okD(4) [OF ok] r by simp
  then have "acc_orig_row b \<noteq> r" if "b \<in> set as" for b
    using that by blast
  then show "\<forall>a\<in>set as. ent t (acc_type a) \<in> set (owners ((R(r := s')) (acc_orig_row a))) \<and> acc_type a \<in> {RD, WR, SCAN} \<and>
      (acc_type a = WR \<longrightarrow> acc_orig_data a \<noteq> None)"
    using txn_okD(1-3) [OF ok] by auto
  show "distinct (map acc_orig_row as)" using txn_okD(4) [OF ok] by simp
  show "\<forall>x. t \<in> txns_in (owners ((R(r := s')) x)) \<union> txns_in (waiters ((R(r := s')) x)) \<longrightarrow>
      x \<in> acc_rows as \<or> (\<exists>ty'. None = Some (x, ty'))"
    using txn_okD(8) [OF ok] gone r by (auto simp: acc_rows_def split: if_splits)
  show "\<forall>x. t \<in> txns_in (waiters ((R(r := s')) x)) \<longrightarrow> (\<exists>ty'. None = Some (x, ty'))"
    using txn_okD(9) [OF ok] gone by (auto split: if_splits)
qed simp

definition undo :: "RC \<Rightarrow> 'd Access list \<Rightarrow> 'd row_tab \<Rightarrow> 'd row_tab" where
  "undo rc as D r = (if rc = Abort then
     (case find (\<lambda>a. acc_type a = WR \<and> acc_orig_row a = r) as of Some a \<Rightarrow> the (acc_orig_data a) | None \<Rightarrow> D r) else D r)"

lemma others_ok_trans: "others_ok t R R' d \<Longrightarrow> others_ok t R' R'' d \<Longrightarrow> others_ok t R R'' d"
  unfolding others_ok_def by blast

lemma others_ok_refl: "others_ok t R R d"
  by (simp add: others_ok_def)

lemma find_append: "find P (xs @ ys) = (case find P xs of None \<Rightarrow> find P ys | Some x \<Rightarrow> Some x)"
  by (induction xs) auto

lemma return_rows_spec:
  fixes as :: "'d Access list"
  assumes "lock_sys_inv alg n L" "txn_ok (rows L) t as None"
  shows "\<exists>L'. return_rows rc t (rev as) D L = Inr (undo rc as D, L') \<and> lock_sys_inv alg n L' \<and>
    others_ok t (rows L) (rows L') TYPE('d) \<and> txn_ok (rows L') t ([] :: 'd Access list) None"
  using assms
proof (induction as arbitrary: D L rule: rev_induct)
  case Nil
  then show ?case by (auto simp: undo_def fun_eq_iff others_ok_refl)
next
  case (snoc a as)
  define r where "r = acc_orig_row a"
  have a: "ent t (acc_type a) \<in> set (owners (rows L r))" "acc_type a \<in> {RD, WR, SCAN}"
      "acc_type a = WR \<Longrightarrow> acc_orig_data a \<noteq> None"
    using txn_okD(1-3) [OF snoc.prems(2), of a] by (auto simp: r_def)
  then have mem: "t \<in> txns_in (owners (rows L r)) \<or> t \<in> txns_in (waiters (rows L r))"
    by (metis ent_sel(1) txns_in_set)
  obtain type src where ra: "ret_access rc a = Inr (type, src)" and xp: "type = XP \<longleftrightarrow> rc = Abort \<and> acc_type a = WR"
    and srcok: "type \<noteq> XP \<and> (src = Ret_null \<or> src = Ret_this) \<or> type = XP \<and> src = Ret_copy (the (acc_orig_data a))"
    using ret_access_ok [of a rc] a(2,3) by blast
  obtain s' T' where ret: "row_return_row type t r src D L = Inr (if type = XP then D(r := the (acc_orig_data a)) else D,
        L\<lparr>rows := (rows L)(r := s'), txns := T'\<rparr>)"
      "lock_sys_inv alg n (L\<lparr>rows := (rows L)(r := s'), txns := T'\<rparr>)" "other_kept t (rows L r) s'"
      "t \<notin> txns_in (owners s') \<union> txns_in (waiters s')"
    using row_return_row_spec [OF snoc.prems(1) mem srcok, of D] by blast
  define L1 where "L1 = L\<lparr>rows := (rows L)(r := s'), txns := T'\<rparr>"
  define D1 where "D1 = (if type = XP then D(r := the (acc_orig_data a)) else D)"
  have ok1: "txn_ok (rows L1) t as None"
    using txn_ok_snoc_gone [OF snoc.prems(2) r_def [symmetric] ret(4)] by (simp add: L1_def)
  obtain L' where L': "return_rows rc t (rev as) D1 L1 = Inr (undo rc as D1, L')" "lock_sys_inv alg n L'"
      "others_ok t (rows L1) (rows L') TYPE('d)" "txn_ok (rows L') t ([] :: 'd Access list) None"
    using snoc.IH [OF ret(2) [folded L1_def] ok1] by blast
  have "return_rows rc t (rev (as @ [a])) D L = return_rows rc t (rev as) D1 L1"
    using ret(1) ra by (simp add: r_def [symmetric] L1_def D1_def)
  moreover have "undo rc as D1 = undo rc (as @ [a]) D"
    using xp by (auto simp: undo_def D1_def fun_eq_iff find_append r_def split: option.splits)
  moreover have "others_ok t (rows L) (rows L1) TYPE('d)"
    using others_okI [where R = "rows L" and r = r, OF ret(3)] by (simp add: L1_def)
  ultimately show ?case using L' others_ok_trans by fastforce
qed

lemma txn_invD:
  assumes "txn_inv alg n S"
  shows "lock_sys_inv alg n (tx_locks S)" "txn_ok (rows (tx_locks S)) t (tx_acc S t) (tx_pend S t)" "end_ok S t"
  using assms unfolding txn_inv_def by blast+

text \<open>A row that is written has no other access.\<close>

lemma writer_alone:
  assumes inv: "txn_inv alg n S" and a: "a \<in> set (tx_acc S t)" "acc_type a = WR" and b: "b \<in> set (tx_acc S u)"
    and same: "acc_orig_row b = acc_orig_row a"
  shows "u = t \<and> b = a"
proof -
  let ?s = "rows (tx_locks S) (acc_orig_row a)"
  have ea: "ent t WR \<in> set (owners ?s)" using txn_okD(1) [OF txn_invD(2) [OF inv] a(1)] a(2) by simp
  have eb: "ent u (acc_type b) \<in> set (owners ?s)" using txn_okD(1) [OF txn_invD(2) [OF inv] b] same by simp
  have lk: "lock_inv alg ?s (txns (tx_locks S))" by (rule lock_sys_invD(1) [OF txn_invD(1) [OF inv]])
  then have "lock_type ?s = LOCK_EX" using ea by (auto simp: lock_inv_defs row_lt_def)
  then have "length (owners ?s) = 1" using lk by (simp add: lock_inv_defs)
  then have "ent t WR = ent u (acc_type b)" using ea eb by (auto simp: length_Suc_conv)
  then have "u = t" by (simp add: ent_def)
  moreover have "b = a"
    using txn_okD(4) [OF txn_invD(2) [OF inv], of t] a(1) b same \<open>u = t\<close>
    by (auto simp: distinct_map dest: inj_onD)
  ultimately show ?thesis ..
qed

lemma access_bound:
  assumes inv: "txn_inv alg n S" and a: "a \<in> set (tx_acc S t)"
  shows "t < n"
proof -
  have "t \<in> txns_in (owners (rows (tx_locks S) (acc_orig_row a)))"
    using txns_in_set [OF txn_okD(1) [OF txn_invD(2) [OF inv] a]] by simp
  then show ?thesis
    using lock_sys_invD(2) [OF txn_invD(1) [OF inv], of "acc_orig_row a"] unfolding row_txns_ok_def by blast
qed

lemma txn_inv_update:
  assumes "txn_inv alg n (S :: 'd txn_sys)" "lock_sys_inv alg n (tx_locks S')" "others_ok t (rows (tx_locks S)) (rows (tx_locks S')) TYPE('d)"
    and "txn_ok (rows (tx_locks S')) t (tx_acc S' t) (tx_pend S' t)" "end_ok S' t"
    and "\<And>u. u \<noteq> t \<Longrightarrow> tx_acc S' u = tx_acc S u \<and> tx_pend S' u = tx_pend S u \<and> tx_end S' u = tx_end S u"
    and "\<And>u a. u \<noteq> t \<Longrightarrow> a \<in> set (tx_acc S u) \<Longrightarrow> acc_type a = WR \<Longrightarrow> tx_data S' (acc_orig_row a) = tx_data S (acc_orig_row a)"
  shows "txn_inv alg n (S' :: 'd txn_sys)"
proof -
  have "txn_ok (rows (tx_locks S')) u (tx_acc S' u) (tx_pend S' u)" for u
  proof (cases "u = t")
    case False
    then show ?thesis using assms(3,6) txn_invD(2) [OF assms(1), of u] by (simp add: others_ok_def)
  qed (use assms(4) in simp)
  moreover have "end_ok S' u" for u
  proof (cases "u = t")
    case False
    then show ?thesis using assms(6) assms(7) [OF False last_in_set] txn_invD(3) [OF assms(1), of u] by (simp add: end_ok_def)
  qed (use assms(5) in simp)
  ultimately show ?thesis using assms(2) by (simp add: txn_inv_def)
qed

text \<open>Contents that only change in rows a transaction has written do not matter to the others.\<close>

lemma written_others:
  assumes inv: "txn_inv alg n S" and d: "\<And>r. r \<notin> written (tx_acc S t) \<Longrightarrow> D r = tx_data S r"
    and u: "u \<noteq> t" "a \<in> set (tx_acc S u)" "acc_type a = WR"
  shows "D (acc_orig_row a) = tx_data S (acc_orig_row a)"
proof (rule d, rule notI)
  assume "acc_orig_row a \<in> written (tx_acc S t)"
  then obtain b where "b \<in> set (tx_acc S t)" "acc_type b = WR" "acc_orig_row b = acc_orig_row a" by (auto simp: written_def)
  then show False using writer_alone [OF inv u(2,3), of b t] u(1) by simp
qed

definition new_access :: "access_t \<Rightarrow> row_ptr \<Rightarrow> 'd txn_sys \<Rightarrow> 'd Access" where
  "new_access type r S = \<lparr>acc_type = type, acc_orig_row = r, acc_orig_data = (if type = WR then Some (tx_data S r) else None)\<rparr>"

lemma txn_get_row_spec:
  assumes inv: "txn_inv alg n S" and t: "t < n" "tx_pend S t = None" "tx_end S t = None" and new: "r \<notin> acc_rows (tx_acc S t)"
    and ty: "type \<in> {RD, WR, SCAN}" and call: "txn_get_row alg n type t r S = Inr (rc, S')"
  shows "txn_inv alg n S' \<and> tx_data S' = tx_data S \<and> tx_end S' = tx_end S \<and>
    (tx_acc S' = tx_acc S \<or> tx_acc S' = (tx_acc S)(t := tx_acc S t @ [new_access type r S]))"
proof -
  obtain rc' L' where rg: "row_get_row alg n type t r (tx_locks S) = Inr (rc', L')"
    and S': "S' = (if rc' = Abort then S\<lparr>tx_locks := L'\<rparr>
      else if rc' = WAIT then S\<lparr>tx_locks := L', tx_pend := (tx_pend S)(t := Some (r, type))\<rparr>
      else record_access type t r (S\<lparr>tx_locks := L'\<rparr>))"
    using call by (fastforce simp: txn_get_row_def bindE_eq_Inr split: if_splits)
  have ok: "txn_ok (rows (tx_locks S)) t (tx_acc S t) None" using txn_invD(2) [OF inv, of t] t(2) by simp
  note sp = row_get_row_spec [OF txn_invD(1) [OF inv] ok t(1) new ty rg]
  have locks: "tx_locks S' = L'" by (simp add: S' record_access_def)
  have acc: "tx_acc S' = (if rc' = Abort \<or> rc' = WAIT then tx_acc S else (tx_acc S)(t := tx_acc S t @ [new_access type r S]))"
    by (simp add: S' record_access_def new_access_def)
  have "txn_ok (rows L') t (tx_acc S' t) (tx_pend S' t)"
  proof (cases "rc' = Abort \<or> rc' = WAIT")
    case True
    then show ?thesis using sp t(2) by (auto simp: S')
  next
    case False
    then have "tx_pend S' t = None" by (simp add: S' record_access_def)
    moreover have "acc_type (new_access type r S) = type" "acc_orig_row (new_access type r S) = r"
        "type = WR \<longrightarrow> acc_orig_data (new_access type r S) \<noteq> None"
      by (simp_all add: new_access_def)
    then have "txn_ok (rows L') t (tx_acc S t @ [new_access type r S]) None"
      using sp False by blast
    ultimately show ?thesis using False acc by simp
  qed
  moreover have "others_ok t (rows (tx_locks S)) (rows L') TYPE('a)" using sp by blast
  moreover have "tx_acc S' u = tx_acc S u \<and> tx_pend S' u = tx_pend S u" if "u \<noteq> t" for u
    using that by (simp add: S' record_access_def)
  moreover have e: "tx_end S' = tx_end S" "tx_data S' = tx_data S" by (simp_all add: S' record_access_def)
  moreover have "end_ok S' t" using t(3) e by (simp add: end_ok_def)
  moreover have "lock_sys_inv alg n L'" using sp by blast
  ultimately have "txn_inv alg n S'"
    by (intro txn_inv_update [OF inv, where t = t]) (simp_all add: locks)
  then show ?thesis using acc e by simp
qed

lemma txn_poll_spec:
  assumes inv: "txn_inv alg n S" and pend: "tx_pend S t = Some (r, type)" and call: "txn_wait_poll t S = Inr (rc, S')"
  shows "txn_inv alg n S' \<and> tx_data S' = tx_data S \<and> tx_end S' = tx_end S \<and>
    (tx_acc S' = tx_acc S \<or> tx_acc S' = (tx_acc S)(t := tx_acc S t @ [new_access type r S]))"
proof -
  have ok: "txn_ok (rows (tx_locks S)) t (tx_acc S t) (Some (r, type))" using txn_invD(2) [OF inv, of t] pend by simp
  have e: "tx_end S t = None" using txn_invD(3) [OF inv, of t] pend by (cases "tx_end S t") (auto simp: end_ok_def)
  note L = txn_invD(1) [OF inv]
  consider (ready) "lock_ready (txns (tx_locks S) t)" | (abort) "\<not> lock_ready (txns (tx_locks S) t)" "lock_abort (txns (tx_locks S) t)"
    | (spin) "\<not> lock_ready (txns (tx_locks S) t)" "\<not> lock_abort (txns (tx_locks S) t)" by blast
  then show ?thesis
  proof cases
    case ready
    then have S': "S' = record_access type t r S" using call pend by (simp add: txn_wait_poll_def)
    have nw: "t \<notin> txns_in (waiters (rows (tx_locks S) r))"
      using lock_sys_invD(1) [OF L, of r] ready by (auto simp: lock_inv_defs txns_in_def)
    then have own: "ent t type \<in> set (owners (rows (tx_locks S) r))"
      using txn_okD(7) [OF ok, of r type] by (auto dest: txns_in_set)
    have "txn_ok ((rows (tx_locks S))(r := rows (tx_locks S) r)) t (tx_acc S t @ [new_access type r S]) None"
      by (rule txn_ok_append [OF ok]) (use own nw txn_okD(5,6) [OF ok, of r type] in \<open>simp_all add: new_access_def\<close>)
    then have "txn_inv alg n S'"
      using L e by (intro txn_inv_update [OF inv, where t = t]) (simp_all add: S' record_access_def new_access_def others_ok_refl end_ok_def)
    then show ?thesis by (simp add: S' record_access_def new_access_def)
  next
    case abort
    have mem: "t \<in> txns_in (owners (rows (tx_locks S) r)) \<or> t \<in> txns_in (waiters (rows (tx_locks S) r))"
      using txn_okD(7) [OF ok, of r type] by (auto dest: txns_in_set)
    have nxp: "type \<noteq> XP" using txn_okD(6) [OF ok, of r type] by auto
    obtain s' T' where ret: "row_return_row type t r Ret_null (tx_data S) (tx_locks S) =
        Inr (tx_data S, (tx_locks S)\<lparr>rows := (rows (tx_locks S))(r := s'), txns := T'\<rparr>)"
        "lock_sys_inv alg n ((tx_locks S)\<lparr>rows := (rows (tx_locks S))(r := s'), txns := T'\<rparr>)"
        "other_kept t (rows (tx_locks S) r) s'" "t \<notin> txns_in (owners s') \<union> txns_in (waiters s')"
      using row_return_row_spec [OF L mem, of type Ret_null undefined "tx_data S"] nxp by auto
    then have S': "S' = S\<lparr>tx_data := tx_data S, tx_locks := (tx_locks S)\<lparr>rows := (rows (tx_locks S))(r := s'), txns := T'\<rparr>,
        tx_pend := (tx_pend S)(t := None)\<rparr>"
      using call pend abort by (simp add: txn_wait_poll_def)
    have "txn_inv alg n S'"
      using ret(2) txn_ok_pend_gone [OF ok ret(4)] others_okI [where R = "rows (tx_locks S)" and r = r, OF ret(3)]
      by (intro txn_inv_update [OF inv, where t = t]) (simp_all add: S' e end_ok_def)
    then show ?thesis by (simp add: S')
  next
    case spin
    then show ?thesis using call pend inv by (simp add: txn_wait_poll_def)
  qed
qed

lemma find_SomeD: "find P xs = Some x \<Longrightarrow> x \<in> set xs \<and> P x"
  by (induction xs) (auto split: if_splits)

lemma undo_written: "r \<notin> written as \<Longrightarrow> undo rc as D r = D r"
  by (auto simp: undo_def written_def dest!: find_SomeD split: option.split)

lemma txn_finish_spec:
  assumes inv: "txn_inv alg n S" and t: "tx_pend S t = None" "tx_end S t = None"
  shows "\<exists>S'. txn_finish rc t S = Inr (rc, S') \<and> txn_inv alg n S' \<and> tx_data S' = undo rc (tx_acc S t) (tx_data S) \<and>
    tx_acc S' = (tx_acc S)(t := []) \<and> tx_pend S' = tx_pend S"
proof -
  have ok: "txn_ok (rows (tx_locks S)) t (tx_acc S t) None" using txn_invD(2) [OF inv, of t] t by simp
  obtain L' where L': "return_rows rc t (rev (tx_acc S t)) (tx_data S) (tx_locks S) = Inr (undo rc (tx_acc S t) (tx_data S), L')"
      "lock_sys_inv alg n L'" "others_ok t (rows (tx_locks S)) (rows L') TYPE('a)"
      "txn_ok (rows L') t ([] :: 'a Access list) None"
    using return_rows_spec [OF txn_invD(1) [OF inv] ok] by blast
  let ?S = "S\<lparr>tx_data := undo rc (tx_acc S t) (tx_data S), tx_locks := L', tx_acc := (tx_acc S)(t := [])\<rparr>"
  have "undo rc (tx_acc S t) (tx_data S) r = tx_data S r" if "r \<notin> written (tx_acc S t)" for r by (rule undo_written [OF that])
  note w = written_others [OF inv, of t "undo rc (tx_acc S t) (tx_data S)", OF this]
  have "txn_inv alg n ?S"
    using L'(2-4) t w
    by (intro txn_inv_update [OF inv, where t = t]) (simp_all add: end_ok_def)
  then show ?thesis using L'(1) by (simp add: txn_finish_def txn_cleanup_def)
qed

text \<open>A step of \<^verbatim>\<open>cleanup\<close>.\<close>

lemma cleanup_step_spec:
  assumes inv: "txn_inv alg n S" and e: "tx_end S t = Some (rc, copied)"
  shows "\<exists>S'. cleanup_step t S = Inr S' \<and> txn_inv alg n S' \<and> tx_pend S' = tx_pend S \<and>
    (if tx_acc S t = [] then S' = S\<lparr>tx_end := (tx_end S)(t := None)\<rparr>
     else if \<not> copied then S' = S\<lparr>tx_data := restored rc (last (tx_acc S t)) (tx_data S), tx_end := (tx_end S)(t := Some (rc, True))\<rparr>
     else tx_data S' = tx_data S \<and> tx_acc S' = (tx_acc S)(t := butlast (tx_acc S t)) \<and> tx_end S' = (tx_end S)(t := Some (rc, False)))"
proof -
  have p: "tx_pend S t = None" using txn_invD(3) [OF inv, of t] e by (simp add: end_ok_def)
  have ok: "txn_ok (rows (tx_locks S)) t (tx_acc S t) None" using txn_invD(2) [OF inv, of t] p by simp
  note L = txn_invD(1) [OF inv]
  show ?thesis
  proof (cases "tx_acc S t = []")
    case True
    let ?S = "S\<lparr>tx_end := (tx_end S)(t := None)\<rparr>"
    have "txn_inv alg n ?S"
      using L ok p by (intro txn_inv_update [OF inv, where t = t]) (simp_all add: end_ok_def others_ok_refl)
    then show ?thesis using True e by (simp add: cleanup_step_def)
  next
    case False
    define as where "as = butlast (tx_acc S t)"
    define a where "a = last (tx_acc S t)"
    have acc: "tx_acc S t = as @ [a]" using False by (simp add: as_def a_def)
    have a: "a \<in> set (tx_acc S t)" by (simp add: acc)
    show ?thesis
    proof (cases copied)
      case False
      obtain type src where ra: "ret_access rc a = Inr (type, src)" and xp: "type = XP \<longleftrightarrow> rc = Abort \<and> acc_type a = WR"
        and src: "type \<noteq> XP \<and> (src = Ret_null \<or> src = Ret_this) \<or> type = XP \<and> src = Ret_copy (the (acc_orig_data a))"
        using ret_access_ok [of a rc] txn_okD(2,3) [OF ok a] by blast
      let ?S = "S\<lparr>tx_data := restored rc a (tx_data S), tx_end := (tx_end S)(t := Some (rc, True))\<rparr>"
      have "row_restore type (acc_orig_row a) src (tx_data S) = Inr (restored rc a (tx_data S))"
        using src xp by (auto simp: row_restore_def restored_def)
      then have "cleanup_step t S = Inr ?S" using e False ra acc by (simp add: cleanup_step_def)
      moreover have "restored rc a (tx_data S) r = tx_data S r" if "r \<notin> written (tx_acc S t)" for r
        using that a by (auto simp: restored_def written_def)
      then have "txn_inv alg n ?S"
        using L ok p acc written_others [OF inv, of t "restored rc a (tx_data S)"]
        by (intro txn_inv_update [OF inv, where t = t]) (simp_all add: end_ok_def others_ok_refl, simp add: restored_def)
      ultimately show ?thesis using False acc by simp
    next
      case True
      let ?r = "acc_orig_row a"
      have "t \<in> txns_in (owners (rows (tx_locks S) ?r))" using txns_in_set [OF txn_okD(1) [OF ok a]] by simp
      then obtain s' T' where rel: "row_release t ?r (tx_locks S) = Inr ((tx_locks S)\<lparr>rows := (rows (tx_locks S))(?r := s'), txns := T'\<rparr>)"
        "lock_sys_inv alg n ((tx_locks S)\<lparr>rows := (rows (tx_locks S))(?r := s'), txns := T'\<rparr>)"
        "other_kept t (rows (tx_locks S) ?r) s'" "t \<notin> txns_in (owners s') \<union> txns_in (waiters s')"
        using row_release_spec [OF L] by blast
      let ?S = "S\<lparr>tx_locks := (tx_locks S)\<lparr>rows := (rows (tx_locks S))(?r := s'), txns := T'\<rparr>, tx_acc := (tx_acc S)(t := as),
          tx_end := (tx_end S)(t := Some (rc, False))\<rparr>"
      have "cleanup_step t S = Inr ?S" using e True rel(1) acc by (simp add: cleanup_step_def)
      moreover have "txn_inv alg n ?S"
        using rel(2) p txn_ok_snoc_gone [OF ok [unfolded acc] refl rel(4)]
          others_okI [where R = "rows (tx_locks S)" and r = ?r, OF rel(3)]
        by (intro txn_inv_update [OF inv, where t = t]) (simp_all add: end_ok_def)
      ultimately show ?thesis using True acc by simp
    qed
  qed
qed

lemma txn_inv_locks:
  assumes inv: "txn_inv alg n S" and "lock_sys_inv alg n ((tx_locks S)\<lparr>txns := T'\<rparr>)"
  shows "txn_inv alg n (S\<lparr>tx_locks := (tx_locks S)\<lparr>txns := T'\<rparr>\<rparr>)"
  using assms by (simp add: txn_inv_def end_ok_def)

lemma txn_write_inv:
  assumes inv: "txn_inv alg n S" and t: "tx_pend S t = None" "tx_end S t = None" "r \<in> written (tx_acc S t)"
  shows "txn_inv alg n (txn_write r v S)"
proof -
  have "((tx_data S)(r := v)) x = tx_data S x" if "x \<notin> written (tx_acc S t)" for x using that t(3) by auto
  note w = written_others [OF inv, of t "(tx_data S)(r := v)", OF this]
  have "txn_ok (rows (tx_locks S)) t (tx_acc S t) None" using txn_invD(2) [OF inv, of t] t(1) by simp
  then show ?thesis
    using txn_invD(1) [OF inv] t w by (intro txn_inv_update [OF inv, where t = t]) (simp_all add: txn_write_def end_ok_def others_ok_refl)
qed

lemma txn_finish_begin_inv:
  assumes inv: "txn_inv alg n S" and t: "tx_pend S t = None"
  shows "txn_inv alg n (S\<lparr>tx_end := (tx_end S)(t := Some (rc, False))\<rparr>)"
  using txn_invD [OF inv] t
  by (intro txn_inv_update [OF inv, where t = t]) (simp_all add: end_ok_def others_ok_refl, metis)

interpretation tsys: transition_system "txn_sys_init n" "txn_step alg n" "txn_inv alg n" for alg n
proof unfold_locales
  fix S :: "'a txn_sys"
  assume init: "txn_sys_init n S"
  then have "lock_sys_init n (tx_locks S)" by (simp add: txn_sys_init_def)
  then have "lock_sys_inv alg n (tx_locks S)" "\<forall>r. rows (tx_locks S) r = Row_lock_init"
    by (rule lsys.init_inv, simp add: lock_sys_init_def)
  then show "txn_inv alg n S"
    using init by (simp add: txn_inv_def txn_ok_def end_ok_def txn_sys_init_def Row_lock_init_def)
next
  fix S S' :: "'a txn_sys"
  assume inv: "txn_inv alg n S" and "txn_step alg n S S'"
  from this(2) show "txn_inv alg n S'"
  proof cases
    case (tx_get t r type rc)
    then show ?thesis using txn_get_row_spec [OF inv] by blast
  next
    case (tx_poll t rc)
    then show ?thesis using txn_poll_spec [OF inv] by fastforce
  next
    case (tx_write t r v)
    show ?thesis unfolding tx_write(1) by (rule txn_write_inv [OF inv tx_write(2-4)])
  next
    case (tx_finish t rc)
    then show ?thesis using txn_finish_begin_inv [OF inv tx_finish(3)] by simp
  next
    case (tx_cleanup t)
    then show ?thesis using cleanup_step_spec [OF inv] by fastforce
  next
    case (tx_begin t ts i)
    have ok: "txn_ok (rows (tx_locks S)) t ([] :: 'a Access list) None" using txn_invD(2) [OF inv, of t] tx_begin by simp
    then have "\<not> waiting (tx_locks S) t" "\<not> holding (tx_locks S) t"
      using txn_okD(8) [OF ok] by (auto simp: waiting_def holding_def acc_rows_def)
    then show ?thesis unfolding tx_begin(1)
      using tx_begin by (intro txn_inv_locks [OF inv] begin_txn_sys_inv [OF txn_invD(1) [OF inv]])
  next
    case (tx_abort_flag t b)
    show ?thesis unfolding tx_abort_flag(1)
      by (intro txn_inv_locks [OF inv] abort_flag_sys_inv [OF txn_invD(1) [OF inv]])
  qed
qed

subsection \<open>The abstract state\<close>

lemma live_acc_sub: "a \<in> set (live_acc S t) \<Longrightarrow> a \<in> set (tx_acc S t)"
  by (auto simp: live_acc_def split: option.splits if_splits)

lemma live_acc_cong: "tx_end S' u = tx_end S u \<Longrightarrow> tx_acc S' u = tx_acc S u \<Longrightarrow> live_acc S' u = live_acc S u"
  by (simp add: live_acc_def split: option.split)

lemma live_acc_running [simp]: "tx_end S t = None \<Longrightarrow> live_acc S t = tx_acc S t"
  by (simp add: live_acc_def)

lemma committed_writer:
  assumes inv: "txn_inv alg n S" and a: "a \<in> set (live_acc S t)" "acc_type a = WR"
  shows "committed n S (acc_orig_row a) = the (acc_orig_data a)"
proof -
  let ?P = "\<lambda>b. acc_type b = WR \<and> acc_orig_row b = acc_orig_row a"
  let ?l = "concat (map (live_acc S) [0..<n])"
  note a' = live_acc_sub [OF a(1)]
  have mem: "a \<in> set ?l" using a(1) access_bound [OF inv a'] by auto
  then have "find ?P ?l \<noteq> None" using a(2) by (auto simp: find_None_iff)
  then obtain b where b: "find ?P ?l = Some b" by blast
  then have "b \<in> set ?l" "?P b" using find_SomeD by fast+
  then have "b = a" using writer_alone [OF inv a' a(2)] live_acc_sub by fastforce
  then show ?thesis using b by (simp add: committed_def)
qed

lemma committed_no_writer:
  assumes "\<And>t a. a \<in> set (live_acc S t) \<Longrightarrow> acc_type a = WR \<Longrightarrow> acc_orig_row a \<noteq> r"
  shows "committed n S r = tx_data S r"
proof -
  have "find (\<lambda>b. acc_type b = WR \<and> acc_orig_row b = r) (concat (map (live_acc S) [0..<n])) = None"
    using assms by (auto simp: find_None_iff)
  then show ?thesis by (simp add: committed_def)
qed

definition row_writer :: "'d txn_sys \<Rightarrow> row_ptr \<Rightarrow> txn_ptr \<Rightarrow> 'd Access \<Rightarrow> bool" where
  "row_writer S r t a \<longleftrightarrow> a \<in> set (live_acc S t) \<and> acc_type a = WR \<and> acc_orig_row a = r"

lemma committed_cong:
  assumes inv: "txn_inv alg n S" "txn_inv alg n S'"
    and w: "\<And>t a. row_writer S r t a \<longleftrightarrow> row_writer S' r t a"
    and d: "(\<forall>t a. \<not> row_writer S r t a) \<Longrightarrow> tx_data S' r = tx_data S r"
  shows "committed n S' r = committed n S r"
proof (cases "\<exists>t a. row_writer S r t a")
  case True
  then obtain t a where "row_writer S r t a" "row_writer S' r t a" using w by blast
  then show ?thesis using committed_writer [OF inv(1)] committed_writer [OF inv(2)] unfolding row_writer_def by metis
next
  case False
  then have "\<forall>t a. \<not> row_writer S' r t a" using w by blast
  then have "committed n S' r = tx_data S' r" by (intro committed_no_writer) (auto simp: row_writer_def)
  moreover have "committed n S r = tx_data S r" using False by (intro committed_no_writer) (auto simp: row_writer_def)
  ultimately show ?thesis using d False by simp
qed

text \<open>Recording an access.\<close>

lemma committed_append:
  assumes inv: "txn_inv alg n S" "txn_inv alg n S'" and d: "tx_data S' = tx_data S" "tx_end S' = tx_end S"
    and t: "tx_end S t = None"
    and acc: "tx_acc S' = tx_acc S \<or> tx_acc S' = (tx_acc S)(t := tx_acc S t @ [new_access type r S])"
  shows "committed n S' = committed n S"
proof
  fix x
  have live: "set (live_acc S' u) = set (live_acc S u) \<or> u = t \<and> set (live_acc S' u) = insert (new_access type r S) (set (live_acc S u))" for u
  proof (cases "u = t")
    case True
    then show ?thesis using acc d(2) t by auto
  next
    case False
    then show ?thesis using acc d(2) live_acc_cong [of S' u S] by auto
  qed
  show "committed n S' x = committed n S x"
  proof (cases "tx_acc S' \<noteq> tx_acc S \<and> type = WR \<and> x = r")
    case False
    have "row_writer S x u a \<longleftrightarrow> row_writer S' x u a" for u a
    proof (cases "tx_acc S' = tx_acc S")
      case True
      then show ?thesis using d(2) live_acc_cong [of S' u S] by (simp add: row_writer_def)
    next
      case ne: False
      then show ?thesis using live [of u] False by (auto simp: row_writer_def new_access_def)
    qed
    then show ?thesis using d by (intro committed_cong [OF inv]) simp_all
  next
    case True
    let ?a = "new_access WR r S"
    have a: "?a \<in> set (tx_acc S' t)" "acc_type ?a = WR" "acc_orig_row ?a = r" "acc_orig_data ?a = Some (tx_data S r)"
      using acc True by (auto simp: new_access_def)
    have la: "?a \<in> set (live_acc S' t)" using a(1) t d(2) by simp
    have "acc_orig_row b \<noteq> r" if "b \<in> set (live_acc S u)" for b u
    proof
      assume r: "acc_orig_row b = r"
      have bs: "b \<in> set (tx_acc S u)" by (rule live_acc_sub [OF that])
      then have "b \<in> set (tx_acc S' u)" using acc by auto
      then have "u = t" "b = ?a" using writer_alone [OF inv(2) a(1,2), of b u] r a(3) by simp_all
      then have "distinct (map acc_orig_row (tx_acc S t @ [?a]))" "?a \<in> set (tx_acc S t)"
        using bs txn_okD(4) [OF txn_invD(2) [OF inv(2)], of t] acc True by auto
      then show False by auto
    qed
    then have "committed n S r = tx_data S r" by (intro committed_no_writer)
    moreover have "committed n S' r = tx_data S r" using committed_writer [OF inv(2) la a(2)] a(3,4) by simp
    ultimately show ?thesis using True by simp
  qed
qed

text \<open>Giving everything back at once.\<close>

lemma undo_at:
  assumes inv: "txn_inv alg n S" and t: "tx_end S t = None"
  shows "undo rc (tx_acc S t) (tx_data S) r =
    (if rc = Abort \<and> r \<in> written (tx_acc S t) then committed n S r else tx_data S r)"
proof (cases "rc = Abort")
  case True
  show ?thesis
  proof (cases "find (\<lambda>a. acc_type a = WR \<and> acc_orig_row a = r) (tx_acc S t)")
    case None
    then have "r \<notin> written (tx_acc S t)" by (auto simp: find_None_iff written_def)
    then show ?thesis using None by (simp add: undo_def)
  next
    case (Some a)
    then have a: "a \<in> set (live_acc S t)" "acc_type a = WR" "acc_orig_row a = r" using find_SomeD t by fastforce+
    then have "r \<in> written (tx_acc S t)" using t by (auto simp: written_def)
    then show ?thesis using Some True committed_writer [OF inv a(1,2)] a(3) by (simp add: undo_def)
  qed
qed (simp add: undo_def)

text \<open>The decision to commit makes the written rows' contents the committed ones; the decision to abort changes nothing.\<close>

lemma committed_decide:
  assumes inv: "txn_inv alg n S" and t: "tx_pend S t = None" "tx_end S t = None"
  shows "committed n (S\<lparr>tx_end := (tx_end S)(t := Some (rc, False))\<rparr>) r =
    (if rc \<noteq> Abort \<and> r \<in> written (tx_acc S t) then tx_data S r else committed n S r)"
proof -
  let ?S = "S\<lparr>tx_end := (tx_end S)(t := Some (rc, False))\<rparr>"
  have inv': "txn_inv alg n ?S" by (rule txn_finish_begin_inv [OF inv t(1)])
  have live: "live_acc ?S u = (if u = t \<and> rc \<noteq> Abort then [] else live_acc S u)" for u
    using t live_acc_cong [of ?S u S] by (cases "u = t") (simp_all add: live_acc_def)
  show ?thesis
  proof (cases "rc \<noteq> Abort \<and> r \<in> written (tx_acc S t)")
    case True
    then obtain a where a: "a \<in> set (tx_acc S t)" "acc_type a = WR" "acc_orig_row a = r" by (auto simp: written_def)
    have "acc_orig_row b \<noteq> r" if "b \<in> set (live_acc ?S u)" for b u
    proof
      assume r: "acc_orig_row b = r"
      have "b \<in> set (tx_acc S u)" "u \<noteq> t" using that True live_acc_sub [of b S u] by (auto simp: live split: if_splits)
      then show False using writer_alone [OF inv a(1,2), of b u] a(3) r by simp
    qed
    then have "committed n ?S r = tx_data ?S r" by (intro committed_no_writer)
    then show ?thesis using True by simp
  next
    case False
    then have "row_writer S r u a \<longleftrightarrow> row_writer ?S r u a" for u a
      using t by (auto simp: row_writer_def live written_def split: if_splits)
    then have "committed n ?S r = committed n S r" by (intro committed_cong [OF inv inv']) simp_all
    then show ?thesis using False by auto
  qed
qed

text \<open>The steps of \<^verbatim>\<open>cleanup\<close> change nothing: what an abort copies back is what the row has when its writer is undone, and a row is
  released only with its committed contents.\<close>

lemma committed_cleanup:
  assumes inv: "txn_inv alg n S" and e: "tx_end S t = Some (rc, copied)" and step: "cleanup_step t S = Inr S'"
  shows "committed n S' = committed n S"
proof -
  obtain S1 where S1: "cleanup_step t S = Inr S1" "txn_inv alg n S1"
    and c: "if tx_acc S t = [] then S1 = S\<lparr>tx_end := (tx_end S)(t := None)\<rparr>
     else if \<not> copied then S1 = S\<lparr>tx_data := restored rc (last (tx_acc S t)) (tx_data S), tx_end := (tx_end S)(t := Some (rc, True))\<rparr>
     else tx_data S1 = tx_data S \<and> tx_acc S1 = (tx_acc S)(t := butlast (tx_acc S t)) \<and> tx_end S1 = (tx_end S)(t := Some (rc, False))"
    using cleanup_step_spec [OF inv e] by blast
  have inv': "txn_inv alg n S'" and c: "if tx_acc S t = [] then S' = S\<lparr>tx_end := (tx_end S)(t := None)\<rparr>
     else if \<not> copied then S' = S\<lparr>tx_data := restored rc (last (tx_acc S t)) (tx_data S), tx_end := (tx_end S)(t := Some (rc, True))\<rparr>
     else tx_data S' = tx_data S \<and> tx_acc S' = (tx_acc S)(t := butlast (tx_acc S t)) \<and> tx_end S' = (tx_end S)(t := Some (rc, False))"
    using S1 c step by simp_all
  let ?a = "last (tx_acc S t)"
  have last: "?a \<in> set (tx_acc S t)" if "tx_acc S t \<noteq> []" using that by simp
  show ?thesis
  proof
    fix r
    show "committed n S' r = committed n S r"
    proof (cases "tx_acc S t \<noteq> [] \<and> copied \<and> rc = Abort \<and> acc_type ?a = WR \<and> acc_orig_row ?a = r")
      case True
      have la: "?a \<in> set (live_acc S t)" using True last e by (simp add: live_acc_def)
      then have "committed n S r = the (acc_orig_data ?a)" using committed_writer [OF inv la] True by simp
      also have "\<dots> = tx_data S r" using txn_invD(3) [OF inv, of t] e True by (simp add: end_ok_def)
      also have "\<dots> = committed n S' r"
      proof -
        have "acc_orig_row b \<noteq> r" if "b \<in> set (live_acc S' u)" for b u
        proof
          assume r: "acc_orig_row b = r"
          have b: "b \<in> set (tx_acc S' u)" by (rule live_acc_sub [OF that])
          then have "b \<in> set (tx_acc S u)" using c True by (auto split: if_splits dest: in_set_butlastD)
          then have "u = t" "b = ?a" using writer_alone [OF inv last, of b u] True r by auto
          then have "?a \<in> set (butlast (tx_acc S t))" using b c True by simp
          moreover have "distinct (butlast (tx_acc S t) @ [?a])"
            using txn_okD(4) [OF txn_invD(2) [OF inv], of t] True by (simp add: distinct_map)
          ultimately show False by simp
        qed
        then show ?thesis using c True by (simp add: committed_no_writer)
      qed
      finally show ?thesis by simp
    next
      case False
      have w: "row_writer S r u b \<longleftrightarrow> row_writer S' r u b" for u b
      proof (cases "u = t \<and> tx_acc S t \<noteq> [] \<and> copied \<and> rc = Abort")
        case True
        then have "live_acc S t = butlast (tx_acc S t) @ [?a]" "live_acc S' t = butlast (tx_acc S t)"
          using c e True by (simp_all add: live_acc_def)
        moreover have "\<not> (acc_type ?a = WR \<and> acc_orig_row ?a = r)" using False True by blast
        ultimately show ?thesis using True unfolding row_writer_def by (metis (no_types) Un_iff empty_iff insert_iff list.set(1,2) set_append)
      next
        case other: False
        then have "live_acc S' u = live_acc S u"
        proof (cases "u = t")
          case True
          then show ?thesis using other c e by (auto simp: live_acc_def split: if_splits)
        next
          case False
          then show ?thesis using c live_acc_cong [of S' u S] by (simp split: if_splits)
        qed
        then show ?thesis by (simp add: row_writer_def)
      qed
      have "tx_data S' r = tx_data S r" if no: "\<forall>u b. \<not> row_writer S r u b"
      proof (cases "tx_acc S t \<noteq> [] \<and> \<not> copied \<and> rc = Abort \<and> acc_type ?a = WR \<and> acc_orig_row ?a = r")
        case True
        then have "row_writer S r t ?a" using last e by (simp add: row_writer_def live_acc_def)
        with no show ?thesis by blast
      next
        case False
        then show ?thesis using c by (auto simp: restored_def split: if_splits)
      qed
      with w show ?thesis by (intro committed_cong [OF inv inv']) simp_all
    qed
  qed
qed

lemma committed_write:
  assumes inv: "txn_inv alg n S" and t: "tx_pend S t = None" "tx_end S t = None" "r \<in> written (tx_acc S t)"
  shows "committed n (txn_write r v S) = committed n S"
proof
  fix x
  note inv' = txn_write_inv [OF inv t, of v]
  have "live_acc (txn_write r v S) u = live_acc S u" for u by (rule live_acc_cong) (simp_all add: txn_write_def)
  moreover have "\<exists>a. row_writer S r t a" using t by (auto simp: row_writer_def written_def)
  ultimately show "committed n (txn_write r v S) x = committed n S x"
    by (intro committed_cong [OF inv inv']) (auto simp: row_writer_def txn_write_def)
qed

lemma committed_locks: "committed n (S\<lparr>tx_locks := L\<rparr>) = committed n S"
proof -
  have "live_acc (S\<lparr>tx_locks := L\<rparr>) = live_acc S" by (rule ext, rule live_acc_cong) simp_all
  then show ?thesis by (intro ext) (simp add: committed_def split: option.split)
qed

definition commit_point :: "nat \<Rightarrow> 'd txn_sys \<Rightarrow> 'd txn_sys \<Rightarrow> txn_ptr \<Rightarrow> bool" where
  "commit_point n S S' t \<longleftrightarrow> t < n \<and> tx_pend S t = None \<and> tx_end S t = None \<and>
     (\<exists>rc. rc \<noteq> Abort \<and> S' = S\<lparr>tx_end := (tx_end S)(t := Some (rc, False))\<rparr>)"

lemma txn_refines_aux:
  assumes inv: "txn_inv alg n S" and step: "txn_step alg n S S'"
  shows "committed n S' = committed n S \<or>
    (\<exists>t. commit_point n S S' t \<and>
       committed n S' = (\<lambda>r. if r \<in> written (tx_acc S t) then tx_data S r else committed n S r))"
  using step
proof cases
  case (tx_get t r type rc)
  note sp = txn_get_row_spec [OF inv tx_get]
  then have "committed n S' = committed n S"
    using tx_get(3) by (intro committed_append [OF inv, where t = t and r = r and type = type]) simp_all
  then show ?thesis ..
next
  case (tx_poll t rc)
  then obtain r type where p: "tx_pend S t = Some (r, type)" by auto
  note sp = txn_poll_spec [OF inv p tx_poll(2)]
  have "tx_end S t = None" using txn_invD(3) [OF inv, of t] p by (cases "tx_end S t") (auto simp: end_ok_def)
  then have "committed n S' = committed n S"
    using sp by (intro committed_append [OF inv, where t = t and r = r and type = type]) simp_all
  then show ?thesis ..
next
  case (tx_write t r v)
  then show ?thesis using committed_write [OF inv] by blast
next
  case (tx_finish t rc)
  note c = committed_decide [OF inv tx_finish(3,4), of rc]
  show ?thesis
  proof (cases "rc = Abort")
    case True
    then show ?thesis using c tx_finish(1) by (simp add: fun_eq_iff)
  next
    case False
    then have "commit_point n S S' t" using tx_finish by (auto simp: commit_point_def)
    then show ?thesis using c False tx_finish(1) by (intro disjI2 exI [of _ t]) (simp add: fun_eq_iff)
  qed
next
  case (tx_cleanup t)
  then show ?thesis using committed_cleanup [OF inv] by auto
qed (simp_all add: committed_locks)

lemma read_committed_aux:
  assumes inv: "txn_inv alg n S" and a: "a \<in> set (tx_acc S t)" "acc_type a \<noteq> WR"
  shows "tx_data S (acc_orig_row a) = committed n S (acc_orig_row a)"
proof (rule committed_no_writer [symmetric])
  fix u b assume "b \<in> set (live_acc S u)" "acc_type b = WR"
  then show "acc_orig_row b \<noteq> acc_orig_row a" using writer_alone [OF inv live_acc_sub, of b u a t] a by metis
qed

text \<open>The steps of a \<^verbatim>\<open>cleanup\<close> nobody interrupts add up to the call.\<close>

lemma cleanup_steps_rows:
  assumes "txn_inv alg n S" "tx_end S t = Some (rc, False)" "length (tx_acc S t) = k"
  shows "\<exists>D' L'. return_rows rc t (rev (tx_acc S t)) (tx_data S) (tx_locks S) = Inr (D', L') \<and>
    cleanup_steps (Suc (2 * k)) t S =
      Inr (S\<lparr>tx_data := D', tx_locks := L', tx_acc := (tx_acc S)(t := []), tx_end := (tx_end S)(t := None)\<rparr>)"
  using assms
proof (induction k arbitrary: S)
  case 0
  then have "tx_acc S t = []" "(tx_acc S)(t := []) = tx_acc S" by auto
  then show ?case using 0(2) by (cases S) (auto simp: cleanup_step_def fun_eq_iff)
next
  case (Suc k)
  define as where "as = butlast (tx_acc S t)"
  define a where "a = last (tx_acc S t)"
  have "tx_acc S t \<noteq> []" using Suc.prems(3) by auto
  then have acc: "tx_acc S t = as @ [a]" by (simp add: as_def a_def)
  have p: "tx_pend S t = None" using txn_invD(3) [OF Suc.prems(1), of t] Suc.prems(2) by (simp add: end_ok_def)
  have ok: "txn_ok (rows (tx_locks S)) t (as @ [a]) None" using txn_invD(2) [OF Suc.prems(1), of t] p acc by simp
  obtain type src where ra: "ret_access rc a = Inr (type, src)" and xp: "type = XP \<longleftrightarrow> rc = Abort \<and> acc_type a = WR"
    and src: "type \<noteq> XP \<and> (src = Ret_null \<or> src = Ret_this) \<or> type = XP \<and> src = Ret_copy (the (acc_orig_data a))"
    using ret_access_ok [of a rc] txn_okD(2,3) [OF ok, of a] by auto
  have rs: "row_restore type (acc_orig_row a) src (tx_data S) = Inr (restored rc a (tx_data S))"
    using src xp by (auto simp: row_restore_def restored_def)
  have "t \<in> txns_in (owners (rows (tx_locks S) (acc_orig_row a)))" using txns_in_set [OF txn_okD(1) [OF ok, of a]] by simp
  then obtain L1 where rel: "row_release t (acc_orig_row a) (tx_locks S) = Inr L1"
    using row_release_spec [OF txn_invD(1) [OF Suc.prems(1)]] by blast
  let ?S1 = "S\<lparr>tx_data := restored rc a (tx_data S), tx_end := (tx_end S)(t := Some (rc, True))\<rparr>"
  let ?S2 = "S\<lparr>tx_data := restored rc a (tx_data S), tx_locks := L1, tx_acc := (tx_acc S)(t := as), tx_end := (tx_end S)(t := Some (rc, False))\<rparr>"
  have c1: "cleanup_step t S = Inr ?S1" using ra rs acc Suc.prems(2) by (simp add: cleanup_step_def)
  have c2: "cleanup_step t ?S1 = Inr ?S2" using rel acc by (simp add: cleanup_step_def)
  have "txn_inv alg n ?S1" using cleanup_step_spec [OF Suc.prems(1,2)] c1 by auto
  then have inv2: "txn_inv alg n ?S2" using cleanup_step_spec [of alg n ?S1 t rc True] c2 by auto
  obtain D' L' where IH: "return_rows rc t (rev as) (restored rc a (tx_data S)) L1 = Inr (D', L')"
    "cleanup_steps (Suc (2 * k)) t ?S2 =
      Inr (?S2\<lparr>tx_data := D', tx_locks := L', tx_acc := (tx_acc ?S2)(t := []), tx_end := (tx_end ?S2)(t := None)\<rparr>)"
  proof -
    have e: "tx_end ?S2 t = Some (rc, False)" "length (tx_acc ?S2 t) = k" using acc Suc.prems(3) by simp_all
    have "tx_acc ?S2 t = as" "tx_data ?S2 = restored rc a (tx_data S)" "tx_locks ?S2 = L1" by simp_all
    from Suc.IH [OF inv2 e, unfolded this] show ?thesis using that by blast
  qed
  have "return_rows rc t (rev (tx_acc S t)) (tx_data S) (tx_locks S) = Inr (D', L')"
    using IH(1) ra rs rel acc by (simp add: row_return_row_def)
  moreover have "cleanup_steps (Suc (2 * Suc k)) t S = cleanup_steps (Suc (2 * k)) t ?S2"
    using c1 c2 by simp
  moreover have "?S2\<lparr>tx_data := D', tx_locks := L', tx_acc := (tx_acc ?S2)(t := []), tx_end := (tx_end ?S2)(t := None)\<rparr> =
    S\<lparr>tx_data := D', tx_locks := L', tx_acc := (tx_acc S)(t := []), tx_end := (tx_end S)(t := None)\<rparr>" by simp
  ultimately show ?case using IH(2) by (intro exI [of _ D'] exI [of _ L']) (simp only: simp_thms)
qed

lemma cleanup_steps_finish:
  assumes inv: "txn_inv alg n S" and t: "tx_pend S t = None" "tx_end S t = None" and fin: "txn_finish rc t S = Inr (rc', S')"
  shows "cleanup_steps (Suc (2 * length (tx_acc S t))) t (S\<lparr>tx_end := (tx_end S)(t := Some (rc, False))\<rparr>) = Inr S'"
proof -
  have "(tx_end S)(t := None) = tx_end S" using t(2) by auto
  then show ?thesis
    using cleanup_steps_rows [OF txn_finish_begin_inv [OF inv t(1), of rc], of t rc] fin
    by (auto simp: txn_finish_def txn_cleanup_def bindE_eq_Inr simp del: cleanup_steps.simps)
qed

subsection \<open>Properties\<close>

text \<open>C1: Strict two-phase locking refines atomic transactions. Whatever the interleaving of requests, waits,
  updates and decisions to abort or commit with the copy-backs and releases of each row by the transactions that end, the committed
  contents of the rows change only at the step with which a transaction commits, and then exactly its written rows take their
  current contents at once.\<close>

theorem txn_refines_atomic_commits:
  assumes "txn_sys_init n S0" "(txn_step alg n)\<^sup>*\<^sup>* S0 S" "txn_step alg n S S'"
  shows "committed n S' = committed n S \<or>
    (\<exists>t. commit_point n S S' t \<and>
       committed n S' = (\<lambda>r. if r \<in> written (tx_acc S t) then tx_data S r else committed n S r))"
  by (rule txn_refines_aux [OF tsys.reachable_inv [OF assms(1,2)] assms(3)])

text \<open>C3: A transaction reads committed contents only, and they stay the committed contents of the row while it
  holds the access, whatever the others do, also while they give their rows back one by one.\<close>

theorem txn_reads_stable:
  assumes "txn_sys_init n S0" "(txn_step alg n)\<^sup>*\<^sup>* S0 S" "a \<in> set (tx_acc S t)" "acc_type a \<noteq> WR"
    and "txn_step alg n S S'" "a \<in> set (tx_acc S' t)"
  shows "tx_data S (acc_orig_row a) = committed n S (acc_orig_row a) \<and> tx_data S' (acc_orig_row a) = tx_data S (acc_orig_row a)"
proof -
  have inv: "txn_inv alg n S" "txn_inv alg n S'"
    using tsys.reachable_inv [OF assms(1)] assms(2,5) by (auto intro: rtranclp.rtrancl_into_rtrancl)
  note rd = read_committed_aux [OF inv(1) assms(3,4)] read_committed_aux [OF inv(2) assms(6,4)]
  have "committed n S' (acc_orig_row a) = committed n S (acc_orig_row a)"
    using txn_refines_aux [OF inv(1) assms(5)] rd(1) by auto
  then show ?thesis using rd by simp
qed

text \<open>C13: The end of a transaction never fails. It gives back every lock of the transaction; an abort restores
  the committed contents of exactly the rows it has written. The interleaved steps of its end, taken without a step of another
  transaction in between, come to the same.\<close>

theorem txn_finish_restores:
  assumes "txn_sys_init n S0" "(txn_step alg n)\<^sup>*\<^sup>* S0 S" "tx_pend S t = None" "tx_end S t = None"
  shows "\<exists>S'. txn_finish rc t S = Inr (rc, S') \<and> tx_acc S' = (tx_acc S)(t := []) \<and> \<not> holding (tx_locks S') t \<and>
    \<not> waiting (tx_locks S') t \<and>
    tx_data S' = (\<lambda>r. if rc = Abort \<and> r \<in> written (tx_acc S t) then committed n S r else tx_data S r) \<and>
    cleanup_steps (Suc (2 * length (tx_acc S t))) t (S\<lparr>tx_end := (tx_end S)(t := Some (rc, False))\<rparr>) = Inr S'"
proof -
  note inv = tsys.reachable_inv [OF assms(1,2)]
  obtain S' where S': "txn_finish rc t S = Inr (rc, S')" "txn_inv alg n S'"
      "tx_data S' = undo rc (tx_acc S t) (tx_data S)" "tx_acc S' = (tx_acc S)(t := [])" "tx_pend S' = tx_pend S"
    using txn_finish_spec [OF inv assms(3,4), of rc] by blast
  have ok: "txn_ok (rows (tx_locks S')) t ([] :: 'a Access list) None"
    using txn_invD(2) [OF S'(2), of t] S'(4,5) assms(3) by simp
  then have "\<not> holding (tx_locks S') t" "\<not> waiting (tx_locks S') t"
    using txn_okD(8) [OF ok] by (auto simp: waiting_def holding_def acc_rows_def)
  then show ?thesis
    using S' undo_at [OF inv assms(4)] cleanup_steps_finish [OF inv assms(3,4) S'(1)] by (auto simp: fun_eq_iff simp del: cleanup_steps.simps)
qed

text \<open>Every step of the end of a transaction can be taken, whatever the others do in between.\<close>

theorem txn_cleanup_goes_on:
  assumes "txn_sys_init n S0" "(txn_step alg n)\<^sup>*\<^sup>* S0 S" "tx_end S t = Some (rc, copied)"
  shows "\<exists>S'. cleanup_step t S = Inr S' \<and>
    (tx_end S' t = None \<or> 2 * length (tx_acc S' t) + (if tx_end S' t = Some (rc, False) then 1 else 0) <
       2 * length (tx_acc S t) + (if copied then 0 else 1))"
proof -
  obtain S' where S': "cleanup_step t S = Inr S'"
    and c: "if tx_acc S t = [] then S' = S\<lparr>tx_end := (tx_end S)(t := None)\<rparr>
      else if \<not> copied then S' = S\<lparr>tx_data := restored rc (last (tx_acc S t)) (tx_data S), tx_end := (tx_end S)(t := Some (rc, True))\<rparr>
      else tx_data S' = tx_data S \<and> tx_acc S' = (tx_acc S)(t := butlast (tx_acc S t)) \<and> tx_end S' = (tx_end S)(t := Some (rc, False))"
    using cleanup_step_spec [OF tsys.reachable_inv [OF assms(1,2)] assms(3)] by blast
  consider "tx_acc S t = []" | "tx_acc S t \<noteq> []" "copied" | "tx_acc S t \<noteq> []" "\<not> copied" by blast
  then have "tx_end S' t = None \<or> 2 * length (tx_acc S' t) + (if tx_end S' t = Some (rc, False) then 1 else 0) <
       2 * length (tx_acc S t) + (if copied then 0 else 1)"
  proof cases
    case 1
    then show ?thesis using c by simp
  next
    case 2
    then obtain as a where "tx_acc S t = as @ [a]" by (cases "tx_acc S t" rule: rev_cases) simp_all
    then show ?thesis using c 2 by simp
  next
    case 3
    then show ?thesis using c by simp
  qed
  with S' show ?thesis by blast
qed

subsection \<open>An example run\<close>

text \<open>Transaction 0 writes row 5 and transaction 1 reads row 6, under \<^verbatim>\<open>NO_WAIT\<close>; row \<open>r\<close> holds \<open>r\<close> at first.\<close>

definition tx_demo0 :: "nat txn_sys" where
  "tx_demo0 = \<lparr>tx_locks = demo_sys [] [], tx_data = (\<lambda>r. r), tx_acc = (\<lambda>t. []), tx_pend = (\<lambda>t. None), tx_end = (\<lambda>t. None)\<rparr>"

definition tx_demo_locks :: lock_sys where
  "tx_demo_locks = \<lparr>rows = (rows (demo_sys [] []))(5 := demo_row [demo_wr 0] []), txns = demo_txns\<rparr>"

definition tx_demo1 :: "nat txn_sys" where
  "tx_demo1 = record_access WR 0 5 (tx_demo0\<lparr>tx_locks := tx_demo_locks\<rparr>)"

definition tx_demo2 :: "nat txn_sys" where
  "tx_demo2 = txn_write 5 99 tx_demo1"

definition tx_demo3 :: "nat txn_sys" where
  "tx_demo3 = record_access RD 1 6 (tx_demo2\<lparr>tx_locks := tx_demo_locks\<lparr>rows := (rows tx_demo_locks)(6 := demo_row [demo_rd 1] [])\<rparr>\<rparr>)"

lemma tx_demo_init: "txn_sys_init 3 tx_demo0"
  using demo_init by (simp add: txn_sys_init_def tx_demo0_def)

lemma tx_demo_written: "written (tx_acc tx_demo1 0) = {5}" "written (tx_acc tx_demo2 0) = {5}" "written (tx_acc tx_demo3 0) = {5}"
  by (auto simp: written_def tx_demo3_def tx_demo2_def tx_demo1_def tx_demo0_def record_access_def txn_write_def)

lemma tx_demo_steps:
  "txn_step NO_WAIT 3 tx_demo0 tx_demo1" "txn_step NO_WAIT 3 tx_demo1 tx_demo2" "txn_step NO_WAIT 3 tx_demo2 tx_demo3"
proof -
  have "txn_get_row NO_WAIT 3 WR 0 5 tx_demo0 = Inr (RCOK, tx_demo1)"
    by (simp add: txn_get_row_def row_get_row_def tx_demo0_def tx_demo1_def tx_demo_locks_def lock_get_def demo_sys_def
        Row_lock_init_def row_lt_def conflict_lock_def Let_def demo_row_def MAX_ROW_PER_TXN_def)
  then show "txn_step NO_WAIT 3 tx_demo0 tx_demo1"
    by (intro tx_get [where t = 0 and r = 5 and type = WR]) (simp_all add: tx_demo0_def acc_rows_def)
  show "txn_step NO_WAIT 3 tx_demo1 tx_demo2"
    unfolding tx_demo2_def
    by (rule tx_write [where t = 0]) (simp_all add: tx_demo_written, simp_all add: tx_demo1_def tx_demo0_def record_access_def)
  have "txn_get_row NO_WAIT 3 RD 1 6 tx_demo2 = Inr (RCOK, tx_demo3)"
    by (simp add: txn_get_row_def row_get_row_def tx_demo2_def tx_demo1_def tx_demo0_def tx_demo3_def tx_demo_locks_def
        lock_get_def demo_sys_def Row_lock_init_def row_lt_def conflict_lock_def Let_def demo_row_def MAX_ROW_PER_TXN_def
        txn_write_def record_access_def)
  then show "txn_step NO_WAIT 3 tx_demo2 tx_demo3"
    by (intro tx_get [where t = 1 and r = 6 and type = RD])
      (simp_all add: tx_demo2_def tx_demo1_def tx_demo0_def acc_rows_def txn_write_def record_access_def)
qed

lemma tx_demo_run: "(txn_step NO_WAIT 3)\<^sup>*\<^sup>* tx_demo0 tx_demo2" "(txn_step NO_WAIT 3)\<^sup>*\<^sup>* tx_demo0 tx_demo3"
  using tx_demo_steps by (meson rtranclp.rtrancl_refl rtranclp.rtrancl_into_rtrancl)+

text \<open>The step with which transaction 0 commits.\<close>

theorem txn_refines_atomic_commits_witness:
  "\<exists>S'. txn_step NO_WAIT 3 tx_demo3 S' \<and> committed 3 tx_demo3 5 = 5 \<and> committed 3 S' 5 = 99 \<and>
     committed 3 S' = (\<lambda>r. if r \<in> written (tx_acc tx_demo3 0) then tx_data tx_demo3 r else committed 3 tx_demo3 r)"
proof -
  let ?S = "tx_demo3\<lparr>tx_end := (tx_end tx_demo3)(0 := Some (RCOK, False))\<rparr>"
  have d: "tx_pend tx_demo3 = (\<lambda>t. None)" "tx_end tx_demo3 = (\<lambda>t. None)" "tx_data tx_demo3 5 = 99"
    by (auto simp: tx_demo3_def tx_demo2_def tx_demo1_def tx_demo0_def record_access_def txn_write_def)
  have c: "committed 3 tx_demo3 5 = 5" "committed 3 ?S 5 = 99"
    by (simp_all add: committed_def live_acc_def tx_demo3_def tx_demo2_def tx_demo1_def tx_demo0_def record_access_def txn_write_def upt_rec)
  have step: "txn_step NO_WAIT 3 tx_demo3 ?S" by (rule txn_step.tx_finish) (simp_all add: d)
  obtain t where t: "commit_point 3 tx_demo3 ?S t"
      "committed 3 ?S = (\<lambda>r. if r \<in> written (tx_acc tx_demo3 t) then tx_data tx_demo3 r else committed 3 tx_demo3 r)"
    using txn_refines_atomic_commits [OF tx_demo_init tx_demo_run(2) step] c by force
  then obtain rc where "?S = tx_demo3\<lparr>tx_end := (tx_end tx_demo3)(t := Some (rc, False))\<rparr>" by (auto simp: commit_point_def)
  then have "tx_end ?S t = Some (rc, False)" by simp
  then have "t = 0" using d(2) by (auto split: if_splits)
  then show ?thesis using step c t(2) by blast
qed

theorem txn_reads_stable_witness:
  "\<exists>S'. txn_step NO_WAIT 3 tx_demo3 S' \<and> tx_data S' 6 = tx_data tx_demo3 6 \<and> tx_data S' 5 = 17"
proof (intro exI conjI)
  let ?a = "\<lparr>acc_type = RD, acc_orig_row = 6, acc_orig_data = None\<rparr> :: nat Access"
  let ?S = "txn_write 5 17 tx_demo3"
  have a: "?a \<in> set (tx_acc tx_demo3 1)" by (simp add: tx_demo3_def record_access_def)
  show step: "txn_step NO_WAIT 3 tx_demo3 ?S"
    by (rule tx_write [where t = 0])
      (simp_all add: tx_demo_written, simp_all add: tx_demo3_def tx_demo2_def tx_demo1_def tx_demo0_def record_access_def txn_write_def)
  have "?a \<in> set (tx_acc ?S 1)" using a by (simp add: txn_write_def)
  then show "tx_data ?S 6 = tx_data tx_demo3 6"
    using txn_reads_stable [OF tx_demo_init tx_demo_run(2) a _ step] by simp
qed (simp add: txn_write_def)

theorem txn_finish_restores_witness:
  "\<exists>S'. txn_finish Abort 0 tx_demo2 = Inr (Abort, S') \<and> tx_data S' 5 = 5 \<and> tx_data tx_demo2 5 = 99"
proof -
  have p: "tx_pend tx_demo2 0 = None" "tx_end tx_demo2 0 = None" and d: "tx_data tx_demo2 5 = 99" and w: "5 \<in> written (tx_acc tx_demo2 0)"
    by (simp_all add: tx_demo_written, simp_all add: tx_demo2_def tx_demo1_def tx_demo0_def record_access_def txn_write_def)
  have "committed 3 tx_demo2 5 = 5"
    by (simp add: committed_def tx_demo2_def tx_demo1_def tx_demo0_def record_access_def txn_write_def live_acc_def upt_rec)
  then show ?thesis
    using txn_finish_restores [OF tx_demo_init tx_demo_run(1) p, of Abort] d w by auto
qed

end
