(* ===== verification/Spec2Isabelle.thy ===== *)
theory Spec2Isabelle
  imports Lock_system Plock_system DL_detect Silo Tictoc Row_mvcc_inv Index_hash Index_bskip Foresight_props Btree_props Row_hekaton Occ Vll Row_ts Thread_run Table_row Txn_2pl
begin

text \<open>
  DBx1000 with B-skiplist indexes: verification development.

  \<^bold>\<open>The program.\<close> DBx1000 is a single-node main-memory database for comparing concurrency-control
  algorithms. Worker threads (\<^verbatim>\<open>system/thread.cpp\<close>) take queries, each run as one transaction by the
  transaction manager of the thread (\<^verbatim>\<open>system/txn.cpp\<close>). A transaction looks up items in an index
  (\<^verbatim>\<open>storage/index_*.cpp\<close>), asks the row behind an item for access (\<^verbatim>\<open>row_t::get_row\<close>,
  \<^verbatim>\<open>storage/row.cpp\<close>) and at its end validates and cleans up. The constant \<^verbatim>\<open>CC_ALG\<close> of \<^verbatim>\<open>config.h\<close>
  selects the algorithm at compile time, and with it the class of the row manager under
  \<^verbatim>\<open>concurrency_control/\<close>. A global manager (\<^verbatim>\<open>system/manager.cpp\<close>) hands out timestamps.

  \<^bold>\<open>Conventions.\<close> Operations return \<open>fault + result\<close>: every \<^verbatim>\<open>assert\<close>, access outside an array,
  dereference of \<^verbatim>\<open>NULL\<close> and undefined operation of the code is a branch \<open>Inl\<close>, and so is a busy
  wait that cannot be left (\<open>Spinning\<close>). Timestamps and ids are \<open>64 word\<close>s and wrap around. Pointers are
  numbers into tables of objects; linked lists are lists in the order of their \<^verbatim>\<open>next\<close> pointers, except
  the item chains of the indexes, whose pointers are modelled because they are shared. What the code
  does under one latch is one function; what threads do in between is a step relation (\<open>inductive\<close>)
  or, for optimistic reads, the list of the states the reader sees. Allocation, freeing and statistics
  are left out everywhere.

  \<^bold>\<open>Theories and code.\<close>
  \<^item> \<open>Base\<close>: types and enumerations of \<^verbatim>\<open>system/global.h\<close>, the fields of \<^verbatim>\<open>txn_man\<close> the row managers use,
    the error monad, the locale \<open>transition_system\<close> (invariants of step relations), list and word lemmas.
  \<^item> \<open>Row_lock\<close>, \<open>Lock_system\<close>: \<^verbatim>\<open>row_lock.cpp\<close> for \<^verbatim>\<open>NO_WAIT\<close>, \<^verbatim>\<open>WAIT_DIE\<close> and \<^verbatim>\<open>DL_DETECT\<close>, per row and for
    all rows with interleaved transactions. Mutual exclusion, no lost wake-up, no failing assertion, and
    no deadlock under \<^verbatim>\<open>WAIT_DIE\<close>.
  \<^item> \<open>Txn_2pl\<close>: \<^verbatim>\<open>txn_man::get_row\<close>, \<^verbatim>\<open>cleanup\<close>, \<^verbatim>\<open>finish\<close> with \<^verbatim>\<open>row_t::get_row\<close>, \<^verbatim>\<open>return_row\<close> over
    \<open>Lock_system\<close>. The abstract state \<open>committed\<close> is what is left when the running transactions are undone;
    the system refines atomic commits on it, reads are committed and stable, and aborts restore it.
  \<^item> \<open>DL_detect\<close>: \<^verbatim>\<open>dl_detect.cpp\<close>; the depth-first search with its fuel (the number of threads) finds a
    loop exactly when there is one. \<open>Plock\<close>, \<open>Plock_system\<close>: partition locks, \<^verbatim>\<open>plock.cpp\<close>, for \<^verbatim>\<open>HSTORE\<close>.
  \<^item> \<open>Row_ts\<close>: \<^verbatim>\<open>row_ts.cpp\<close>. \<open>Row_mvcc\<close>, \<open>Row_mvcc_inv\<close>: \<^verbatim>\<open>row_mvcc.cpp\<close> and its invariant. \<open>Row_hekaton\<close>:
    \<^verbatim>\<open>row_hekaton.cpp\<close>, \<^verbatim>\<open>hekaton.cpp\<close>. For each the invariant of the queues or version chains, that no
    assertion fails, and which version a read returns.
  \<^item> \<open>Lock_word\<close>, \<open>Seqlock\<close>: the lock bit in a word, the try-lock, the sorting of the write set and the
    optimistic read that \<open>Silo\<close> (\<^verbatim>\<open>row_silo.cpp\<close>, \<^verbatim>\<open>silo.cpp\<close>) and \<open>Tictoc\<close> (\<^verbatim>\<open>row_tictoc.cpp\<close>,
    \<^verbatim>\<open>tictoc.cpp\<close>) share. Validation is atomic, consistent reads, and it returns.
  \<^item> \<open>Occ\<close>: \<^verbatim>\<open>row_occ.cpp\<close>, \<^verbatim>\<open>occ.cpp\<close>, both validations. \<open>Vll\<close>: \<^verbatim>\<open>vll.cpp\<close>, \<^verbatim>\<open>row_vll.cpp\<close>.
  \<^item> \<open>Manager\<close>: \<^verbatim>\<open>manager.cpp\<close> and \<^verbatim>\<open>thread_t::get_next_ts\<close>: unique timestamps, the active minimum.
  \<^item> \<open>Thread_run\<close>: a round of \<^verbatim>\<open>thread_t::run\<close>, in the part before the transaction and the part after it, with the buffer
    of aborted queries. Every query fetched is accounted for, the assertions hold, ids are unique, waiting ends.
  \<^item> \<open>Table_row\<close>: \<^verbatim>\<open>catalog.cpp\<close>, \<^verbatim>\<open>table.cpp\<close>, the bytes of \<^verbatim>\<open>row.cpp\<close>: fields round-trip and do not overlap.
  \<^item> \<open>Helper\<close>: \<^verbatim>\<open>helper.cpp\<close>. \<open>Index_base\<close>: the contract of \<^verbatim>\<open>index_base.h\<close> as the locale \<open>index\<close>, with its
    client, the loading of a table. \<open>Index_hash\<close>: \<^verbatim>\<open>index_hash.cpp\<close>, an interpretation of the locale.
  \<^item> \<open>Bskip_node\<close>, \<open>Bskip\<close>: the blocked skip list \<^verbatim>\<open>RW_bskiplist\<close>, its nodes and its operations on a heap of
    nodes, for any block size from two on and any hash function. \<open>Bskip_inv\<close>: the invariant of the five
    linked levels and the searches; \<open>Bskip_insert\<close>, \<open>Bskip_delete\<close>, \<open>Bskip_range\<close>, \<open>Bskip_init\<close>: each operation
    keeps it and acts as on a map; \<open>Bskip_run\<close>: every run refines a map, the levels are those the hash
    function describes, scans are exact. \<open>Index_bskip\<close>: the adapter \<^verbatim>\<open>index_rw_bskiplist.cpp\<close>, a second
    interpretation of \<open>index\<close>, and its scans with the read-ahead buffer.
  \<^item> \<open>Skiplist\<close>: the lock-free skip list \<^verbatim>\<open>index_skiplist.cpp\<close>. Every access to shared memory is one step of a thread;
    a frame holds the local variables, a place (\<open>sl_pc\<close>) where the thread is in the code. \<open>Skiplist_inv\<close>: the nodes
    linked on each level, what each thread relies on at its place and owns, and that steps of other threads keep it;
    \<open>Skiplist_mem\<close>, \<open>Skiplist_step\<close>, \<open>Skiplist_sys\<close>: the changes of memory, each step, all threads. \<open>Skiplist_props\<close>:
    each step refines the abstract index (so that inserts and lookups are linearizable), levels are sorted and nested,
    nothing faults, searches end whatever the others do.
  \<^item> \<open>Foresight\<close>: \<^verbatim>\<open>index_skiplist_foresight.cpp\<close>, the default index, in its two builds. \<open>Foresight_sim\<close>: without the keys
    kept beside the pointers its steps are steps of the proofs above, with a weaker promise of a search that has used
    stale keys. \<open>Foresight_props\<close>: the same refinement and safety, and that the keys kept are right.
  \<^item> \<open>Btree_olc\<close>: the B+-tree with optimistic lock coupling, \<^verbatim>\<open>BTreeOLC.h\<close>, and its adapter \<^verbatim>\<open>index_BTreeOLC.cpp\<close>. A
    page is a \<open>datatype\<close>, a thread a frame of local variables and a place (\<open>bt_pc\<close>); the accesses to version words are
    steps of their own, an optimistic read is one step that sees anything once the version has changed. \<open>Btree_inv\<close>: the
    binary search, what a split and an insert do to the keys of a node. \<open>Btree_tree\<close>: the tree in memory, by the range
    of keys and the height of each node. \<open>Btree_step\<close>, \<open>Btree_write\<close>, \<open>Btree_sys\<close>: what a thread relies on at its
    place, each step, all threads. \<open>Btree_props\<close>: each step refines the abstract index, nothing faults but a lookup of an
    absent key, scans have no gaps, the tree is sorted and balanced, and a node is locked exactly when one thread owns it.

  \<^bold>\<open>Bounds and fuel.\<close> \<open>ts_loop\<close> gets one more round than there are waiting reads, since every further
  round has served one; \<open>nextNode\<close> descends at most once per thread; the retry loops of the
  validations take the list of memory states of their attempts, and return once one of them is
  quiet. Each bound is proved to be enough (\<open>ts_loop_ok\<close>, \<open>detect_cycle_exact\<close>, \<open>validate_silo_returns\<close>).
  A walk along a level of the blocked skip list gets one step for each node ever allocated and a descent one for
  each of the \<open>MAX_HEIGHT\<close> levels; the theorems of \<open>Bskip_run\<close> say that no operation runs out of them.
  The walk \<open>level_walk\<close> that states the order of a level gets one step for each node ever allocated, too; the steps of the
  lock-free lists need no fuel. The walk \<open>bt_walk\<close> of the B+-tree gets more levels than its root is high.
  Counters that would need \<open>2 ^ 64\<close> operations to wrap are bounded by hypotheses.

  \<^bold>\<open>Contracts assumed of callers.\<close> A transaction asks a row for a lock once (\<open>Lock_system\<close>), writes a row
  after prewriting it (\<open>Row_ts\<close>, \<open>Row_mvcc\<close>), timestamps are unique; the theorems name these. An item is inserted into an
  index once (the guard of \<open>call\<close> in \<open>sl_trans\<close>, \<open>slf_trans\<close> and \<open>bt_trans\<close>). The version words of the B+-tree do not
  wrap around (\<open>versions_left\<close>).

  \<^bold>\<open>Findings.\<close> Theorems of kind error run the code's model into the defects: the order of released
  writes and lost writes in \<open>Row_ts\<close>, a lease shrunk by a racing renewal in \<open>Tictoc\<close>, versions recycled
  under a reader in \<open>Row_mvcc_inv\<close>, write skew in \<open>Row_hekaton\<close>, missed conflicts in \<open>Occ\<close>, blocked
  transactions that never run in \<open>Vll\<close>, a self-wait in \<open>Lock_system\<close>, a too large active minimum in
  \<open>Manager\<close>, a read past an integer literal in \<open>Table_row\<close>, a range scan without its lower bound in
  \<open>Bskip_run\<close>, lost keys next to the sentinels in \<open>Index_bskip\<close>, and an item read twice, and the largest key always
  found, in \<open>Skiplist_props\<close>, lookups of absent keys and an iteration that starts over in \<open>Btree_props\<close>, and the
  timestamps of retried queries in \<open>Thread_run\<close>.

  \<^bold>\<open>Not modelled.\<close> The reader-writer locks of \<^verbatim>\<open>RW_bskiplist\<close>: its operations are modelled one at a time. The
  memory of the lock-free skip lists and of the B+-tree is sequentially consistent; a new node's private writes are
  one step. Two indexes are not modelled: \<^verbatim>\<open>index_btree.cpp\<close>, a class that cannot be instantiated, and the C code of
  \<^verbatim>\<open>OLC_bskiplist\<close>. \<^verbatim>\<open>BP-tree\<close>, \<^verbatim>\<open>ParallelTools\<close>, \<^verbatim>\<open>StructOfArrays\<close> and the folly skip list are third-party
  code. The workloads generate random queries and floating-point amounts; the parser, statistics,
  allocator and \<^verbatim>\<open>main.cpp\<close> hold no logic of the transactions. Graphite branches and
  \<^verbatim>\<open>REPEATABLE_READ\<close> are compiled out.
\<close>

end
